(* ===== verification/Error_Codes.thy ===== *)
theory Error_Codes
  imports Main
begin

text \<open>
  The error codes of the framework (\<open>include/sai/core/error.h\<close>,
  \<open>enum class ErrorCode : std::uint32_t\<close>), with the source's enumerators in the
  source's order. \<open>error_index\<close> is the numeric value of an enumerator
  (\<open>Core_Unknown = 0\<close>, then counting up); equality on codes is executable through it.
\<close>

datatype (plugins only:) error_code =
    Core_Unknown
  | Core_ConstructionFailed
  | Core_TypeAlreadyRegistered
  | Core_TypeNotFound
  | Lifecycle_RegisterAfterAssembly
  | Memory_ArenaExhausted
  | Memory_RequestExceedsSlabSize
  | Memory_AllocationFailed
  | Memory_PoolExhausted
  | Plugin_VersionIncompatible
  | Plugin_CapabilityUnsupported
  | Plugin_LicenseInvalid
  | Plugin_CircularDependency
  | Runtime_QueueFull
  | Runtime_Cancelled
  | Runtime_GpuError
  | Runtime_NodeNotFound
  | Infra_LogSinkInitFailed
  | Infra_ConfigFileNotFound
  | Infra_ConfigParseError
  | Infra_ConfigValidationFailed
  | Infra_ConfigKeyNotFound
  | Infra_ConfigKeyTypeMismatch
  | Device_ConnectionFailed
  | Device_NotConnected
  | Device_AcquisitionInProgress
  | Image_UnsupportedPixelFormat
  | Image_DimensionMismatch
  | Image_PreprocessFailed
  | Io_ExportPathCreateFailed
  | Io_SerializationFailed
  | Io_ImportFileNotFound
  | Io_ImportParseFailed
  | Inference_EngineLoadFailed
  | Inference_EngineExecutionFailed
  | Inference_InvalidBinding
  | Inference_ReloadFailed
  | Inference_ModelConfigMismatch
  | Embedding_NotGpuImage
  | Embedding_DimensionMismatch
  | Embedding_InvalidPatchParameters
  | Detection_FeatureBankLoadFailed
  | Detection_InvalidPatchGrid
  | Knowledge_DbOpenFailed
  | Knowledge_SchemaMigrationFailed
  | Knowledge_NodeNotFound
  | Knowledge_EdgeNotFound
  | Knowledge_InvalidRelationship
  | Knowledge_SnapshotNotFound
  | Knowledge_SnapshotRestoreFailed
  | Retrieval_DimensionMismatch
  | Retrieval_EmptyIndex
  | Retrieval_FusionConfigInvalid
  | Rule_ParseError
  | Rule_InvalidPath
  | Rule_TypeMismatch
  | Rule_CyclicOverride
  | Rule_ReloadFailed
  | Reasoner_TreeLoadFailed
  | Reasoner_InvalidTree
  | Reasoner_ScoreComputationFailed
  | Pipeline_InvalidConfig
  | Pipeline_StageTypeMismatch
  | Pipeline_StageInitFailed
  | Pipeline_InvalidState
  | Pipeline_QueueFull
  | Scheduler_PoolNotFound
  | Scheduler_QueueCreateFailed
  | Visualization_FrameBufferFull
  | Visualization_ConfigReloadFailed
  | Visualization_PipelineRestartFailed
  | Detection_CoresetEvolution_UpdateFailed
  | Detection_CoresetEvolution_Degraded
  | Detection_CoresetEvolution_FullRebuildFailed
  | Detection_CoresetEvolution_ProfileLoadFailed
  | Tuning_SpaceEmpty
  | Tuning_ConstraintViolated
  | Tuning_ObjectiveEvalFailed
  | Tuning_RollbackTriggered
  | Tuning_ParameterApplyFailed

primrec error_index :: "error_code \<Rightarrow> nat" where
  "error_index Core_Unknown = 0"
| "error_index Core_ConstructionFailed = 1"
| "error_index Core_TypeAlreadyRegistered = 2"
| "error_index Core_TypeNotFound = 3"
| "error_index Lifecycle_RegisterAfterAssembly = 4"
| "error_index Memory_ArenaExhausted = 5"
| "error_index Memory_RequestExceedsSlabSize = 6"
| "error_index Memory_AllocationFailed = 7"
| "error_index Memory_PoolExhausted = 8"
| "error_index Plugin_VersionIncompatible = 9"
| "error_index Plugin_CapabilityUnsupported = 10"
| "error_index Plugin_LicenseInvalid = 11"
| "error_index Plugin_CircularDependency = 12"
| "error_index Runtime_QueueFull = 13"
| "error_index Runtime_Cancelled = 14"
| "error_index Runtime_GpuError = 15"
| "error_index Runtime_NodeNotFound = 16"
| "error_index Infra_LogSinkInitFailed = 17"
| "error_index Infra_ConfigFileNotFound = 18"
| "error_index Infra_ConfigParseError = 19"
| "error_index Infra_ConfigValidationFailed = 20"
| "error_index Infra_ConfigKeyNotFound = 21"
| "error_index Infra_ConfigKeyTypeMismatch = 22"
| "error_index Device_ConnectionFailed = 23"
| "error_index Device_NotConnected = 24"
| "error_index Device_AcquisitionInProgress = 25"
| "error_index Image_UnsupportedPixelFormat = 26"
| "error_index Image_DimensionMismatch = 27"
| "error_index Image_PreprocessFailed = 28"
| "error_index Io_ExportPathCreateFailed = 29"
| "error_index Io_SerializationFailed = 30"
| "error_index Io_ImportFileNotFound = 31"
| "error_index Io_ImportParseFailed = 32"
| "error_index Inference_EngineLoadFailed = 33"
| "error_index Inference_EngineExecutionFailed = 34"
| "error_index Inference_InvalidBinding = 35"
| "error_index Inference_ReloadFailed = 36"
| "error_index Inference_ModelConfigMismatch = 37"
| "error_index Embedding_NotGpuImage = 38"
| "error_index Embedding_DimensionMismatch = 39"
| "error_index Embedding_InvalidPatchParameters = 40"
| "error_index Detection_FeatureBankLoadFailed = 41"
| "error_index Detection_InvalidPatchGrid = 42"
| "error_index Knowledge_DbOpenFailed = 43"
| "error_index Knowledge_SchemaMigrationFailed = 44"
| "error_index Knowledge_NodeNotFound = 45"
| "error_index Knowledge_EdgeNotFound = 46"
| "error_index Knowledge_InvalidRelationship = 47"
| "error_index Knowledge_SnapshotNotFound = 48"
| "error_index Knowledge_SnapshotRestoreFailed = 49"
| "error_index Retrieval_DimensionMismatch = 50"
| "error_index Retrieval_EmptyIndex = 51"
| "error_index Retrieval_FusionConfigInvalid = 52"
| "error_index Rule_ParseError = 53"
| "error_index Rule_InvalidPath = 54"
| "error_index Rule_TypeMismatch = 55"
| "error_index Rule_CyclicOverride = 56"
| "error_index Rule_ReloadFailed = 57"
| "error_index Reasoner_TreeLoadFailed = 58"
| "error_index Reasoner_InvalidTree = 59"
| "error_index Reasoner_ScoreComputationFailed = 60"
| "error_index Pipeline_InvalidConfig = 61"
| "error_index Pipeline_StageTypeMismatch = 62"
| "error_index Pipeline_StageInitFailed = 63"
| "error_index Pipeline_InvalidState = 64"
| "error_index Pipeline_QueueFull = 65"
| "error_index Scheduler_PoolNotFound = 66"
| "error_index Scheduler_QueueCreateFailed = 67"
| "error_index Visualization_FrameBufferFull = 68"
| "error_index Visualization_ConfigReloadFailed = 69"
| "error_index Visualization_PipelineRestartFailed = 70"
| "error_index Detection_CoresetEvolution_UpdateFailed = 71"
| "error_index Detection_CoresetEvolution_Degraded = 72"
| "error_index Detection_CoresetEvolution_FullRebuildFailed = 73"
| "error_index Detection_CoresetEvolution_ProfileLoadFailed = 74"
| "error_index Tuning_SpaceEmpty = 75"
| "error_index Tuning_ConstraintViolated = 76"
| "error_index Tuning_ObjectiveEvalFailed = 77"
| "error_index Tuning_RollbackTriggered = 78"
| "error_index Tuning_ParameterApplyFailed = 79"

lemma error_index_inject: "error_index a = error_index b \<longleftrightarrow> a = b"
  by (cases a; simp; cases b; simp)

instantiation error_code :: equal
begin

definition equal_error_code :: "error_code \<Rightarrow> error_code \<Rightarrow> bool" where
  "equal_error_code a b \<longleftrightarrow> error_index a = error_index b"

instance
  by standard (simp add: equal_error_code_def error_index_inject)

end

end
