(* ===== verification/Prelude.thy ===== *)
theory Prelude
  imports Error_Codes "HOL-Library.List_Lexorder" "HOL-Library.Char_ord"
begin

text \<open>
  Shared vocabulary of the development: the result type of the framework
  (\<open>sai::Result\<close>, \<open>include/sai/core/error.h\<close>), ordered dictionaries
  (\<open>std::map\<close>, kept as key-sorted association lists because the code iterates over
  them in key order), decimal printing of unsigned integers (\<open>std::to_string\<close>),
  and the generic lemmas the components share.
\<close>

named_theorems component_simps \<open>unfolding rules of the component operations\<close>
named_theorems invariant_intros \<open>preservation lemmas of the component invariants\<close>

subsection \<open>Errors and results\<close>

text \<open>\<open>ErrorInfo\<close> without its \<open>std::source_location\<close>, which no code reads back.\<close>

datatype error_info = ErrorInfo (err_code: error_code) (err_message: string)

type_synonym 'a result = "error_info + 'a"

text \<open>\<open>tl::expected::and_then\<close>: continue on a value, propagate an error unchanged.\<close>

definition and_then :: "'a result \<Rightarrow> ('a \<Rightarrow> 'b result) \<Rightarrow> 'b result" where
  "and_then r f = (case r of Inl e \<Rightarrow> Inl e | Inr x \<Rightarrow> f x)"

definition has_value :: "'a result \<Rightarrow> bool" where
  "has_value r = (case r of Inl _ \<Rightarrow> False | Inr _ \<Rightarrow> True)"

lemma and_then_simps [simp]:
  "and_then (Inl e) f = Inl e"
  "and_then (Inr x) f = f x"
  by (simp_all add: and_then_def)

lemma has_value_simps [simp]:
  "has_value (Inr x)"
  "\<not> has_value (Inl e)"
  by (simp_all add: has_value_def)

lemma has_value_iff: "has_value r \<longleftrightarrow> (\<exists>x. r = Inr x)"
  by (cases r) auto

lemma and_then_Inr_iff: "and_then r f = Inr y \<longleftrightarrow> (\<exists>x. r = Inr x \<and> f x = Inr y)"
  by (cases r) auto

subsection \<open>Ordered dictionaries\<close>

type_synonym ('k, 'v) smap = "('k \<times> 'v) list"

text \<open>\<open>insert_or_assign\<close> keeps the keys sorted; \<open>emplace\<close> keeps an existing entry.\<close>

primrec sm_put :: "'k::linorder \<Rightarrow> 'v \<Rightarrow> ('k, 'v) smap \<Rightarrow> ('k, 'v) smap" where
  "sm_put k v [] = [(k, v)]"
| "sm_put k v (e # m) =
     (if k < fst e then (k, v) # e # m
      else if k = fst e then (k, v) # m
      else e # sm_put k v m)"

definition sm_get :: "('k, 'v) smap \<Rightarrow> 'k \<Rightarrow> 'v option" where
  "sm_get m k = map_of m k"

definition sm_has :: "('k, 'v) smap \<Rightarrow> 'k \<Rightarrow> bool" where
  "sm_has m k = (case sm_get m k of None \<Rightarrow> False | Some _ \<Rightarrow> True)"

definition sm_emplace :: "'k::linorder \<Rightarrow> 'v \<Rightarrow> ('k, 'v) smap \<Rightarrow> ('k, 'v) smap" where
  "sm_emplace k v m = (if sm_has m k then m else sm_put k v m)"

definition sm_wf :: "('k::linorder, 'v) smap \<Rightarrow> bool" where
  "sm_wf m \<longleftrightarrow> sorted_wrt (<) (map fst m)"

lemma sm_get_Nil [simp]: "sm_get [] k = None"
  by (simp add: sm_get_def)

lemma sm_get_Cons [simp]: "sm_get ((a, b) # m) k = (if k = a then Some b else sm_get m k)"
  by (simp add: sm_get_def)

lemma sm_get_put [simp]: "sm_get (sm_put k v m) = (sm_get m)(k \<mapsto> v)"
  unfolding sm_get_def by (induction m) (auto simp: fun_eq_iff)

lemma sm_has_iff: "sm_has m k \<longleftrightarrow> sm_get m k \<noteq> None"
  by (simp add: sm_has_def split: option.split)

lemma sm_get_emplace: "sm_get (sm_emplace k v m) k' =
  (if k' = k \<and> \<not> sm_has m k then Some v else sm_get m k')"
  by (auto simp: sm_emplace_def sm_has_iff)

lemma set_sm_put: "set (map fst (sm_put k v m)) = insert k (set (map fst m))"
  by (induction m) auto

lemma sm_wf_Nil [simp, invariant_intros]: "sm_wf []"
  by (simp add: sm_wf_def)

lemma sm_wf_put [invariant_intros]: "sm_wf m \<Longrightarrow> sm_wf (sm_put k v m)"
proof (induction m)
  case Nil
  then show ?case by (simp add: sm_wf_def)
next
  case (Cons e m)
  have "sm_wf m" using Cons.prems by (simp add: sm_wf_def)
  then have IH: "sm_wf (sm_put k v m)" by (rule Cons.IH)
  have keys: "\<forall>x \<in> set (map fst (sm_put k v m)). x = k \<or> x \<in> fst ` set m"
    using set_sm_put [of k v m] by auto
  show ?case
    using Cons.prems IH keys by (fastforce simp: sm_wf_def)
qed

lemma sm_wf_distinct: "sm_wf m \<Longrightarrow> distinct (map fst m)"
  unfolding sm_wf_def by (simp add: strict_sorted_iff)

lemma dom_sm_get: "dom (sm_get m) = fst ` set m"
  by (simp add: sm_get_def [abs_def] dom_map_of_conv_image_fst)

text \<open>The interface of a dictionary, as the components use it.\<close>

locale dictionary =
  fixes get :: "'m \<Rightarrow> 'k \<Rightarrow> 'v option"
    and put :: "'k \<Rightarrow> 'v \<Rightarrow> 'm \<Rightarrow> 'm"
    and wf :: "'m \<Rightarrow> bool"
  assumes get_put: "get (put k v m) k' = (if k' = k then Some v else get m k')"
    and wf_put: "wf m \<Longrightarrow> wf (put k v m)"
begin

lemma get_put_same: "get (put k v m) k = Some v"
  by (simp add: get_put)

lemma get_put_other: "k' \<noteq> k \<Longrightarrow> get (put k v m) k' = get m k'"
  by (simp add: get_put)

lemma get_fold_put:
  "get (fold (\<lambda>(k, v). put k v) kvs m) k =
     (case map_of (rev kvs) k of Some v \<Rightarrow> Some v | None \<Rightarrow> get m k)"
  by (induction kvs arbitrary: m) (auto simp: get_put map_add_def split: option.split)

lemma wf_fold_put: "wf m \<Longrightarrow> wf (fold (\<lambda>(k, v). put k v) kvs m)"
  by (induction kvs arbitrary: m) (auto simp: wf_put)

lemma get_fold_untouched:
  "k \<notin> fst ` set kvs \<Longrightarrow> get (fold (\<lambda>(k, v). put k v) kvs m) k = get m k"
  by (induction kvs arbitrary: m) (auto simp: get_put)

end

interpretation sm: dictionary "sm_get :: ('k::linorder, 'v) smap \<Rightarrow> 'k \<Rightarrow> 'v option"
  sm_put sm_wf
  by unfold_locales (auto intro: sm_wf_put)

subsection \<open>Decimal printing\<close>

definition digit_char :: "nat \<Rightarrow> char" where
  "digit_char d = char_of (48 + d)"

fun nat_str :: "nat \<Rightarrow> string" where
  "nat_str n = (if n < 10 then [digit_char n] else nat_str (n div 10) @ [digit_char (n mod 10)])"

declare nat_str.simps [simp del]

lemma nat_str_nonempty [simp]: "nat_str n \<noteq> []"
  by (subst nat_str.simps) simp

primrec str_nat_acc :: "nat \<Rightarrow> string \<Rightarrow> nat" where
  "str_nat_acc a [] = a"
| "str_nat_acc a (c # cs) = str_nat_acc (10 * a + (of_char c - 48)) cs"

lemma str_nat_acc_append: "str_nat_acc a (xs @ ys) = str_nat_acc (str_nat_acc a xs) ys"
  by (induction xs arbitrary: a) auto

lemma of_char_digit: "d < 10 \<Longrightarrow> of_char (digit_char d) = 48 + d"
  by (simp add: digit_char_def)

lemma str_nat_nat_str: "str_nat_acc 0 (nat_str n) = n"
proof (induction n rule: nat_str.induct)
  case (1 n)
  show ?case
  proof (cases "n < 10")
    case True
    then show ?thesis by (subst nat_str.simps) (simp add: of_char_digit)
  next
    case False
    with "1.IH" have "str_nat_acc 0 (nat_str (n div 10)) = n div 10" by simp
    with False show ?thesis
      by (subst nat_str.simps) (simp add: str_nat_acc_append of_char_digit)
  qed
qed

lemma nat_str_inject: "nat_str m = nat_str n \<longleftrightarrow> m = n"
  by (metis str_nat_nat_str)

text \<open>Only digits occur in a decimal text.\<close>

lemma nat_str_digits: "c \<in> set (nat_str n) \<Longrightarrow> \<exists>d < 10. c = digit_char d"
proof (induction n rule: nat_str.induct)
  case (1 n)
  show ?case
  proof (cases "n < 10")
    case True
    then show ?thesis using "1.prems" by (subst (asm) nat_str.simps) auto
  next
    case False
    then show ?thesis using "1.prems" "1.IH"
      by (subst (asm) nat_str.simps) (auto intro: exI [of _ "n mod 10"])
  qed
qed

lemma nat_str_not_char: "(of_char c :: nat) < 48 \<or> 57 < (of_char c :: nat) \<Longrightarrow> c \<notin> set (nat_str n)"
  using nat_str_digits [of c n] of_char_digit by fastforce

end
