(* ===== verification/Doubles.thy ===== *)
theory Doubles
  imports Prelude Complex_Main "HOL-Library.Log_Nat"
begin

text \<open>
  IEEE 754 arithmetic, as the C++ types \<open>double\<close> and \<open>float\<close> have it on the target:
  a value is NaN, a signed infinity, or a sign and a rational magnitude (so both zeros
  are there); every operation computes the exact rational result and rounds it to
  nearest, ties to even, in the format's precision and exponent range. All definitions
  evaluate. The sign and payload of a NaN are not kept. \<open>double_to_string\<close> is
  \<open>std::to_string(double)\<close>.
\<close>

subsection \<open>Values and rounding\<close>

datatype dbl = NaN | Inf bool | Fin bool rat

datatype fmt = Fmt (precision: nat) (min_exp: int) (max_exp: int)

definition binary64 :: fmt where
  "binary64 = Fmt 53 (-1074) 1024"

definition binary32 :: fmt where
  "binary32 = Fmt 24 (-149) 128"

definition pow2 :: "int \<Rightarrow> rat" where
  "pow2 e = (if 0 \<le> e then 2 ^ nat e else 1 / 2 ^ nat (- e))"

definition round_even :: "rat \<Rightarrow> int" where
  "round_even q =
     (let n = \<lfloor>q\<rfloor>; r = q - of_int n
      in if r < 1 / 2 then n
         else if 1 / 2 < r then n + 1
         else if even n then n else n + 1)"

text \<open>The exponent \<open>k\<close> with \<open>2^k \<le> q < 2^(k+1)\<close>, for positive \<open>q\<close>.\<close>

definition ilog2 :: "rat \<Rightarrow> int" where
  "ilog2 q =
     (case quotient_of q of (a, b) \<Rightarrow>
        let e = int (floorlog 2 (nat a)) - int (floorlog 2 (nat b))
        in if pow2 e \<le> q then e else e - 1)"

definition round_fmt :: "fmt \<Rightarrow> bool \<Rightarrow> rat \<Rightarrow> dbl" where
  "round_fmt f s q =
     (if q = 0 then Fin s 0
      else let u = max (ilog2 q - (int (precision f) - 1)) (min_exp f);
               m = of_int (round_even (q / pow2 u)) * pow2 u
           in if pow2 (max_exp f) \<le> m then Inf s else Fin s m)"

definition round_rat :: "fmt \<Rightarrow> rat \<Rightarrow> dbl" where
  "round_rat f q = round_fmt f (q < 0) \<bar>q\<bar>"

text \<open>A literal of type \<open>double\<close>, and the conversion of an integer to \<open>double\<close>.\<close>

definition d_lit :: "rat \<Rightarrow> dbl" where
  "d_lit q = round_rat binary64 q"

definition d_of_int :: "int \<Rightarrow> dbl" where
  "d_of_int i = round_rat binary64 (of_int i)"

definition d_of_nat :: "nat \<Rightarrow> dbl" where
  "d_of_nat n = d_of_int (int n)"

fun fval :: "dbl \<Rightarrow> rat" where
  "fval (Fin s q) = (if s then - q else q)"
| "fval (Inf s) = 0"
| "fval NaN = 0"

fun d_is_nan :: "dbl \<Rightarrow> bool" where
  "d_is_nan NaN = True"
| "d_is_nan (Inf s) = False"
| "d_is_nan (Fin s q) = False"

subsection \<open>Arithmetic\<close>

fun d_neg :: "dbl \<Rightarrow> dbl" where
  "d_neg NaN = NaN"
| "d_neg (Inf s) = Inf (\<not> s)"
| "d_neg (Fin s q) = Fin (\<not> s) q"

fun d_add :: "dbl \<Rightarrow> dbl \<Rightarrow> dbl" where
  "d_add (Fin s p) (Fin t q) =
     (let r = fval (Fin s p) + fval (Fin t q)
      in if r = 0 then Fin (s \<and> t) 0 else round_rat binary64 r)"
| "d_add (Inf s) (Inf t) = (if s = t then Inf s else NaN)"
| "d_add (Inf s) (Fin t q) = Inf s"
| "d_add (Fin s p) (Inf t) = Inf t"
| "d_add NaN y = NaN"
| "d_add x NaN = NaN"

definition d_sub :: "dbl \<Rightarrow> dbl \<Rightarrow> dbl" where
  "d_sub x y = d_add x (d_neg y)"

fun d_mul :: "dbl \<Rightarrow> dbl \<Rightarrow> dbl" where
  "d_mul (Fin s p) (Fin t q) = round_fmt binary64 (s \<noteq> t) (p * q)"
| "d_mul (Inf s) (Inf t) = Inf (s \<noteq> t)"
| "d_mul (Inf s) (Fin t q) = (if q = 0 then NaN else Inf (s \<noteq> t))"
| "d_mul (Fin s p) (Inf t) = (if p = 0 then NaN else Inf (s \<noteq> t))"
| "d_mul NaN y = NaN"
| "d_mul x NaN = NaN"

fun d_div :: "dbl \<Rightarrow> dbl \<Rightarrow> dbl" where
  "d_div (Fin s p) (Fin t q) =
     (if q = 0 then (if p = 0 then NaN else Inf (s \<noteq> t))
      else round_fmt binary64 (s \<noteq> t) (p / q))"
| "d_div (Inf s) (Inf t) = NaN"
| "d_div (Inf s) (Fin t q) = Inf (s \<noteq> t)"
| "d_div (Fin s p) (Inf t) = Fin (s \<noteq> t) 0"
| "d_div NaN y = NaN"
| "d_div x NaN = NaN"

subsection \<open>Comparison\<close>

fun d_lt :: "dbl \<Rightarrow> dbl \<Rightarrow> bool" where
  "d_lt (Fin s p) (Fin t q) = (fval (Fin s p) < fval (Fin t q))"
| "d_lt (Inf s) (Inf t) = (s \<and> \<not> t)"
| "d_lt (Inf s) (Fin t q) = s"
| "d_lt (Fin s p) (Inf t) = (\<not> t)"
| "d_lt NaN y = False"
| "d_lt x NaN = False"

fun d_eq :: "dbl \<Rightarrow> dbl \<Rightarrow> bool" where
  "d_eq (Fin s p) (Fin t q) = (fval (Fin s p) = fval (Fin t q))"
| "d_eq (Inf s) (Inf t) = (s = t)"
| "d_eq (Inf s) (Fin t q) = False"
| "d_eq (Fin s p) (Inf t) = False"
| "d_eq NaN y = False"
| "d_eq x NaN = False"

definition d_gt :: "dbl \<Rightarrow> dbl \<Rightarrow> bool" where
  "d_gt x y = d_lt y x"

definition d_le :: "dbl \<Rightarrow> dbl \<Rightarrow> bool" where
  "d_le x y = (d_lt x y \<or> d_eq x y)"

definition d_ge :: "dbl \<Rightarrow> dbl \<Rightarrow> bool" where
  "d_ge x y = (d_lt y x \<or> d_eq x y)"

lemma d_lt_irrefl [simp]: "\<not> d_lt x x"
  by (cases x) auto

lemma d_lt_trans: "d_lt x y \<Longrightarrow> d_lt y z \<Longrightarrow> d_lt x z"
  by (cases x; cases y; cases z) (auto split: if_splits)

lemma d_lt_asym: "d_lt x y \<Longrightarrow> \<not> d_lt y x"
  using d_lt_trans d_lt_irrefl by blast

lemma d_lt_linear: "\<not> d_is_nan x \<Longrightarrow> \<not> d_is_nan y \<Longrightarrow> d_lt x y \<or> d_eq x y \<or> d_lt y x"
  by (cases x; cases y) (auto split: if_splits)

lemma d_eq_sym: "d_eq x y = d_eq y x"
  by (cases x; cases y) auto

lemma d_eq_refl_iff [simp]: "d_eq x x \<longleftrightarrow> \<not> d_is_nan x"
  by (cases x) auto

lemma d_lt_nan [simp]: "\<not> d_lt NaN y" "\<not> d_lt x NaN" "\<not> d_eq NaN y" "\<not> d_eq x NaN"
  by (cases x; simp; cases y; simp)+

lemma d_le_lt_trans: "d_le x y \<Longrightarrow> d_lt y z \<Longrightarrow> d_lt x z"
  unfolding d_le_def by (cases x; cases y; cases z) (auto split: if_splits)

lemma not_d_lt_le: "\<not> d_is_nan x \<Longrightarrow> \<not> d_is_nan y \<Longrightarrow> \<not> d_lt x y \<Longrightarrow> d_le y x"
  unfolding d_le_def using d_lt_linear d_eq_sym by blast

subsection \<open>Printing\<close>

definition pad6 :: "nat \<Rightarrow> string" where
  "pad6 n = (let s = nat_str n in replicate (6 - length s) (CHR ''0'') @ s)"

fun double_to_string :: "dbl \<Rightarrow> string" where
  "double_to_string NaN = ''nan''"
| "double_to_string (Inf s) = (if s then ''-inf'' else ''inf'')"
| "double_to_string (Fin s q) =
     (let n = nat (round_even (q * 1000000))
      in (if s then ''-'' else '''') @ nat_str (n div 1000000) @ ''.'' @ pad6 (n mod 1000000))"

lemma double_to_string_nonempty [simp]: "double_to_string x \<noteq> []"
  by (cases x) (auto simp: Let_def)

subsection \<open>Exactness\<close>

lemma round_even_of_int [simp]: "round_even (of_int n) = n"
  by (simp add: round_even_def)

lemma pow2_pos [simp]: "0 < pow2 e"
  by (simp add: pow2_def)

lemma pow2_powi: "pow2 e = 2 powi e"
  by (cases "0 \<le> e") (simp_all add: pow2_def power_int_def inverse_eq_divide power_one_over)

lemma pow2_add: "pow2 (a + b) = pow2 a * pow2 b"
  by (simp add: pow2_powi power_int_add)

lemma pow2_mono: "a \<le> b \<Longrightarrow> pow2 a \<le> pow2 b"
  by (simp add: pow2_powi power_int_increasing)

lemma pow2_less_iff: "pow2 a < pow2 b \<longleftrightarrow> a < b"
proof
  show "pow2 a < pow2 b \<Longrightarrow> a < b"
    using pow2_mono [of b a] by force
  show "a < b \<Longrightarrow> pow2 a < pow2 b"
    unfolding pow2_powi by (rule power_int_strict_increasing) auto
qed

lemma pow2_nonneg_int: "0 \<le> e \<Longrightarrow> pow2 e = of_int (2 ^ nat e)"
  by (simp add: pow2_def)

lemma ilog2_le:
  assumes "0 < q"
  shows "pow2 (ilog2 q) \<le> q"
proof -
  obtain a b where ab: "quotient_of q = (a, b)" by (cases "quotient_of q")
  have q: "q = of_int a / of_int b" and b: "0 < b"
    using quotient_of_div [OF ab] quotient_of_denom_pos [OF ab] by auto
  with assms have a: "0 < a" by (simp add: zero_less_divide_iff)
  define la lb where "la = floorlog 2 (nat a)" and "lb = floorlog 2 (nat b)"
  have la: "2 ^ (la - 1) \<le> nat a" "0 < la"
    using a floorlog_bounds [of "nat a" 2] by (auto simp: la_def floorlog_def)
  have lb: "nat b < 2 ^ lb"
    using b floorlog_bounds [of "nat b" 2] by (auto simp: lb_def)
  have ra: "pow2 (int la - 1) \<le> of_int a"
  proof -
    have "int (2 ^ (la - 1)) \<le> a" using la(1) a by linarith
    then have "of_int (int (2 ^ (la - 1))) \<le> (of_int a :: rat)" by (simp only: of_int_le_iff)
    then show ?thesis using la(2) by (simp add: pow2_def nat_diff_distrib')
  qed
  have rb: "of_int b \<le> pow2 (int lb)"
  proof -
    have "b \<le> int (2 ^ lb)" using lb b by linarith
    then have "of_int b \<le> (of_int (int (2 ^ lb)) :: rat)" by (simp only: of_int_le_iff)
    then show ?thesis by (simp add: pow2_def)
  qed
  have "pow2 (int la - 1) * of_int b \<le> of_int a * pow2 (int lb)"
    using ra rb a b by (intro mult_mono) auto
  moreover have "pow2 (int la - 1) = pow2 (int la - int lb - 1) * pow2 (int lb)"
    by (simp add: pow2_add [symmetric])
  ultimately have "pow2 (int la - int lb - 1) * of_int b * pow2 (int lb) \<le> of_int a * pow2 (int lb)"
    by (simp add: ac_simps)
  then have "pow2 (int la - int lb - 1) * of_int b \<le> of_int a"
    by (simp add: mult_le_cancel_right_pos)
  then have "pow2 (int la - int lb - 1) \<le> q"
    using b by (simp add: q le_divide_eq)
  then show ?thesis
    by (simp add: ilog2_def ab Let_def la_def lb_def)
qed

lemma ilog2_less:
  assumes "0 < q"
  shows "q < pow2 (ilog2 q + 1)"
proof -
  obtain a b where ab: "quotient_of q = (a, b)" by (cases "quotient_of q")
  have q: "q = of_int a / of_int b" and b: "0 < b"
    using quotient_of_div [OF ab] quotient_of_denom_pos [OF ab] by auto
  with assms have a: "0 < a" by (simp add: zero_less_divide_iff)
  define la lb where "la = floorlog 2 (nat a)" and "lb = floorlog 2 (nat b)"
  have la: "nat a < 2 ^ la"
    using a floorlog_bounds [of "nat a" 2] by (auto simp: la_def)
  have lb: "2 ^ (lb - 1) \<le> nat b" "0 < lb"
    using b floorlog_bounds [of "nat b" 2] by (auto simp: lb_def floorlog_def)
  have ra: "of_int a < pow2 (int la)"
  proof -
    have "a < int (2 ^ la)" using la a by linarith
    then have "of_int a < (of_int (int (2 ^ la)) :: rat)" by (simp only: of_int_less_iff)
    then show ?thesis by (simp add: pow2_def)
  qed
  have rb: "pow2 (int lb - 1) \<le> of_int b"
  proof -
    have "int (2 ^ (lb - 1)) \<le> b" using lb(1) b by linarith
    then have "of_int (int (2 ^ (lb - 1))) \<le> (of_int b :: rat)" by (simp only: of_int_le_iff)
    then show ?thesis using lb(2) by (simp add: pow2_def nat_diff_distrib')
  qed
  have "pow2 (int la) = pow2 (int la - int lb + 1) * pow2 (int lb - 1)"
    by (simp add: pow2_add [symmetric])
  also have "\<dots> \<le> pow2 (int la - int lb + 1) * of_int b"
    using rb by (intro mult_left_mono) (auto intro: less_imp_le)
  finally have "q < pow2 (int la - int lb + 1)"
    using ra b by (simp add: q divide_less_eq)
  then show ?thesis
    by (simp add: ilog2_def ab Let_def la_def lb_def)
qed

lemma ilog2_eqI:
  assumes "pow2 k \<le> q" "q < pow2 (k + 1)"
  shows "ilog2 q = k"
proof -
  have q: "0 < q" using assms(1) pow2_pos [of k] by linarith
  have "pow2 k < pow2 (ilog2 q + 1)" "pow2 (ilog2 q) < pow2 (k + 1)"
    using ilog2_less [OF q] ilog2_le [OF q] assms by linarith+
  then show ?thesis by (simp add: pow2_less_iff)
qed

text \<open>A value the format can represent is not changed by rounding.\<close>

lemma round_fmt_exact:
  assumes "0 < m" "m < 2 ^ precision f" "min_exp f \<le> e" "of_int m * pow2 e < pow2 (max_exp f)"
  shows "round_fmt f s (of_int m * pow2 e) = Fin s (of_int m * pow2 e)"
proof -
  define q where "q = of_int m * pow2 e"
  define u where "u = max (ilog2 q - (int (precision f) - 1)) (min_exp f)"
  have pos: "0 < q" using assms(1) by (simp add: q_def)
  have m: "of_int m < pow2 (int (precision f))"
  proof -
    have "of_int m < (of_int (2 ^ precision f) :: rat)" using assms(2) by (simp only: of_int_less_iff)
    then show ?thesis by (simp add: pow2_def)
  qed
  have "q < pow2 (int (precision f) + e)"
    unfolding q_def pow2_add using m by (intro mult_strict_right_mono) auto
  with ilog2_le [OF pos] have "pow2 (ilog2 q) < pow2 (int (precision f) + e)" by linarith
  then have "ilog2 q < int (precision f) + e" by (simp add: pow2_less_iff)
  then have ue: "u \<le> e" using assms(3) by (simp add: u_def)
  have "q / pow2 u = of_int (m * 2 ^ nat (e - u))"
    using ue by (simp add: q_def pow2_powi power_int_diff [symmetric] flip: times_divide_eq_right)
      (simp add: power_int_def)
  then have "of_int (round_even (q / pow2 u)) = q / pow2 u"
    by (simp only: round_even_of_int)
  then have "of_int (round_even (q / pow2 u)) * pow2 u = q"
    using pow2_pos [of u] by (simp add: less_imp_neq [THEN not_sym])
  then show ?thesis
    using pos assms(4) by (simp add: round_fmt_def u_def Let_def flip: q_def)
qed

lemma round_fmt_0 [simp]: "round_fmt f s 0 = Fin s 0"
  by (simp add: round_fmt_def)

lemma d_of_int_0 [simp]: "d_of_int 0 = Fin False 0"
  by (simp add: d_of_int_def round_rat_def)

lemma d_of_int_exact:
  assumes "\<bar>i\<bar> < 2 ^ 53"
  shows "d_of_int i = Fin (i < 0) \<bar>of_int i\<bar>"
proof (cases "i = 0")
  case False
  have "of_int \<bar>i\<bar> < (of_int (2 ^ 53) :: rat)" using assms by (simp only: of_int_less_iff)
  also have "\<dots> = pow2 53" by (simp add: pow2_def)
  also have "\<dots> < pow2 1024" by (simp only: pow2_less_iff)
  finally have "of_int \<bar>i\<bar> < pow2 1024" .
  moreover have "pow2 0 = 1" by (simp add: pow2_def)
  ultimately show ?thesis
    using round_fmt_exact [of "\<bar>i\<bar>" binary64 0 "i < 0"] False assms
    by (simp add: d_of_int_def round_rat_def binary64_def)
qed simp

lemma d_of_nat_exact: "n < 2 ^ 53 \<Longrightarrow> d_of_nat n = Fin False (of_nat n)"
  using d_of_int_exact [of "int n"] by (simp add: d_of_nat_def)

lemma round_rat_not_nan [simp]: "\<not> d_is_nan (round_rat f q)"
  by (simp add: round_rat_def round_fmt_def Let_def)

lemma d_of_nat_not_nan [simp]: "\<not> d_is_nan (d_of_nat n)" "\<not> d_is_nan (d_of_int i)"
  by (simp_all add: d_of_nat_def d_of_int_def)

subsection \<open>Rounding around one\<close>

lemma round_even_ge: "of_int n \<le> q \<Longrightarrow> n \<le> round_even q"
proof -
  assume "of_int n \<le> q"
  then have "n \<le> \<lfloor>q\<rfloor>" by (simp add: le_floor_iff)
  moreover have "\<lfloor>q\<rfloor> \<le> round_even q" by (simp add: round_even_def Let_def)
  ultimately show "n \<le> round_even q" by linarith
qed

lemma round_even_le: "q \<le> of_int n \<Longrightarrow> round_even q \<le> n"
proof -
  assume q: "q \<le> of_int n"
  show ?thesis
  proof (cases "\<lfloor>q\<rfloor> = n")
    case True
    then have "q = of_int n" using q by linarith
    then show ?thesis by simp
  next
    case False
    then have "\<lfloor>q\<rfloor> + 1 \<le> n" using q by linarith
    then show ?thesis by (simp add: round_even_def Let_def)
  qed
qed

lemma pow2_0 [simp]: "pow2 0 = 1"
  by (simp add: pow2_def)

definition rounded :: "rat \<Rightarrow> rat" where
  "rounded q = (let u = max (ilog2 q - 52) (-1074) in of_int (round_even (q / pow2 u)) * pow2 u)"

lemma round_binary64: "0 < q \<Longrightarrow> round_fmt binary64 s q = (if pow2 1024 \<le> rounded q then Inf s else Fin s (rounded q))"
  by (simp add: round_fmt_def binary64_def rounded_def Let_def)

text \<open>Rounding does not cross a power of two.\<close>

lemma rounded_ge_pow2:
  assumes "pow2 e \<le> q" "-1074 \<le> e"
  shows "pow2 e \<le> rounded q"
proof -
  define u where "u = max (ilog2 q - 52) (-1074)"
  have q: "0 < q" using assms(1) pow2_pos [of e] by linarith
  define d where "d = max e (ilog2 q)"
  have le: "pow2 d \<le> q" "u \<le> d" "e \<le> d"
    using assms ilog2_le [OF q] by (auto simp: d_def u_def max_def)
  have "pow2 d = pow2 (d - u) * pow2 u" by (simp add: pow2_add [symmetric])
  then have "pow2 (d - u) \<le> q / pow2 u"
    using le(1) by (simp add: pos_le_divide_eq)
  then have "2 ^ nat (d - u) \<le> round_even (q / pow2 u)"
    using le(2) by (intro round_even_ge) (simp add: pow2_nonneg_int)
  then have "(of_int (2 ^ nat (d - u)) :: rat) \<le> of_int (round_even (q / pow2 u))"
    by (simp only: of_int_le_iff)
  then have "pow2 (d - u) \<le> of_int (round_even (q / pow2 u))"
    using le(2) by (simp add: pow2_nonneg_int)
  then have "pow2 (d - u) * pow2 u \<le> rounded q"
    unfolding rounded_def u_def [symmetric] Let_def by (intro mult_right_mono) (auto intro: less_imp_le)
  then have "pow2 d \<le> rounded q" by (simp add: pow2_add [symmetric])
  then show ?thesis using pow2_mono [OF le(3)] by linarith
qed

lemma rounded_le_pow2:
  assumes "0 < q" "q \<le> pow2 e" "-1022 \<le> e"
  shows "0 \<le> rounded q" "rounded q \<le> pow2 e"
proof -
  define u where "u = max (ilog2 q - 52) (-1074)"
  have "pow2 (ilog2 q) \<le> pow2 e" using ilog2_le [OF assms(1)] assms(2) by linarith
  then have "ilog2 q \<le> e" using pow2_less_iff [of e "ilog2 q"] by linarith
  then have ue: "u \<le> e" using assms(3) by (simp add: u_def)
  have "pow2 e = pow2 (e - u) * pow2 u" by (simp add: pow2_add [symmetric])
  then have "q / pow2 u \<le> pow2 (e - u)"
    using assms(2) by (simp add: pos_divide_le_eq)
  then have "round_even (q / pow2 u) \<le> 2 ^ nat (e - u)"
    using ue by (intro round_even_le) (simp add: pow2_nonneg_int)
  then have "(of_int (round_even (q / pow2 u)) :: rat) \<le> of_int (2 ^ nat (e - u))"
    by (simp only: of_int_le_iff)
  then have "of_int (round_even (q / pow2 u)) \<le> pow2 (e - u)"
    using ue by (simp add: pow2_nonneg_int)
  then have "rounded q \<le> pow2 (e - u) * pow2 u"
    unfolding rounded_def u_def [symmetric] Let_def by (intro mult_right_mono) (auto intro: less_imp_le)
  then show "rounded q \<le> pow2 e" by (simp add: pow2_add [symmetric])
  have "0 \<le> round_even (q / pow2 u)"
    using assms(1) pow2_pos [of u] by (intro round_even_ge) (simp add: less_imp_le)
  then show "0 \<le> rounded q"
    unfolding rounded_def u_def [symmetric] Let_def
    by (intro mult_nonneg_nonneg) (auto intro: less_imp_le)
qed

text \<open>Rounding does not cross a point of a grid that is coarse enough.\<close>

lemma rounded_grid:
  assumes "0 < q" "q \<le> pow2 e" "e - 52 \<le> g" "-1074 \<le> g"
  shows "of_int n * pow2 g \<le> q \<Longrightarrow> of_int n * pow2 g \<le> rounded q"
    and "q \<le> of_int n * pow2 g \<Longrightarrow> rounded q \<le> of_int n * pow2 g"
proof -
  define u where "u = max (ilog2 q - 52) (-1074)"
  have "pow2 (ilog2 q) \<le> pow2 e" using ilog2_le [OF assms(1)] assms(2) by linarith
  then have "ilog2 q \<le> e" using pow2_less_iff [of e "ilog2 q"] by linarith
  then have u: "u \<le> g" using assms(3,4) by (simp add: u_def)
  have grid: "of_int n * pow2 g = of_int (n * 2 ^ nat (g - u)) * pow2 u"
    using u pow2_add [of "g - u" u] by (simp add: pow2_nonneg_int)
  have r: "rounded q = of_int (round_even (q / pow2 u)) * pow2 u"
    by (simp add: rounded_def u_def Let_def)
  show "of_int n * pow2 g \<le> rounded q" if "of_int n * pow2 g \<le> q"
  proof -
    have "of_int (n * 2 ^ nat (g - u)) \<le> q / pow2 u"
      using that unfolding grid by (simp only: pos_le_divide_eq pow2_pos)
    then show ?thesis
      unfolding grid r by (intro mult_right_mono less_imp_le [OF pow2_pos]) (simp only: of_int_le_iff round_even_ge)
  qed
  show "rounded q \<le> of_int n * pow2 g" if "q \<le> of_int n * pow2 g"
  proof -
    have "q / pow2 u \<le> of_int (n * 2 ^ nat (g - u))"
      using that unfolding grid by (simp only: pos_divide_le_eq pow2_pos)
    then show ?thesis
      unfolding grid r by (intro mult_right_mono less_imp_le [OF pow2_pos]) (simp only: of_int_le_iff round_even_le)
  qed
qed

lemma round_ge_1:
  "1 \<le> q \<Longrightarrow> round_fmt binary64 False q = Inf False \<or> (\<exists>m \<ge> 1. round_fmt binary64 False q = Fin False m)"
  using rounded_ge_pow2 [of 0 q] by (auto simp: round_binary64)

lemma round_le_1:
  "0 \<le> q \<Longrightarrow> q \<le> 1 \<Longrightarrow> \<exists>m. round_fmt binary64 False q = Fin False m \<and> 0 \<le> m \<and> m \<le> 1"
proof (cases "q = 0")
  case False
  assume "0 \<le> q" "q \<le> 1"
  with False have q: "0 < q" "q \<le> 1" by simp_all
  have "pow2 0 < pow2 1024" by (simp only: pow2_less_iff)
  then show ?thesis
    using rounded_le_pow2 [of q 0] q by (auto simp: round_binary64)
qed simp

end
