(* ===== verification/Rule_Value.thy ===== *)
theory Rule_Value
  imports Doubles
begin

text \<open>
  The values of the rule language (\<open>src/rule/value.cpp\<close>) and the fact base that rules
  read (\<open>src/rule/fact_base.cpp\<close>): a value is null, a scalar or a list; a fact base is
  an ordered dictionary from keys to values with their provenance, and a dictionary from
  graph paths to flat keys.
\<close>

subsection \<open>Values\<close>

datatype scalar = SDouble dbl | SString string | SBool bool

datatype rvalue = VNull | VScalar scalar | VList "rvalue list"

datatype value_kind = KNull | KScalar | KList

definition of_double :: "dbl \<Rightarrow> rvalue" where
  "of_double d = VScalar (SDouble d)"

definition of_string :: "string \<Rightarrow> rvalue" where
  "of_string s = VScalar (SString s)"

definition of_boolean :: "bool \<Rightarrow> rvalue" where
  "of_boolean b = VScalar (SBool b)"

definition of_int64 :: "int \<Rightarrow> rvalue" where
  "of_int64 i = VScalar (SDouble (d_of_int i))"

definition of_list :: "rvalue list \<Rightarrow> rvalue" where
  "of_list vs = VList vs"

fun get_kind :: "rvalue \<Rightarrow> value_kind" where
  "get_kind VNull = KNull"
| "get_kind (VScalar s) = KScalar"
| "get_kind (VList vs) = KList"

fun is_null :: "rvalue \<Rightarrow> bool" where
  "is_null VNull = True"
| "is_null (VScalar s) = False"
| "is_null (VList vs) = False"

fun as_double :: "rvalue \<Rightarrow> dbl option" where
  "as_double (VScalar (SDouble d)) = Some d"
| "as_double _ = None"

fun as_string :: "rvalue \<Rightarrow> string option" where
  "as_string (VScalar (SString s)) = Some s"
| "as_string _ = None"

fun as_bool :: "rvalue \<Rightarrow> bool option" where
  "as_bool (VScalar (SBool b)) = Some b"
| "as_bool _ = None"

fun as_list :: "rvalue \<Rightarrow> rvalue list option" where
  "as_list (VList vs) = Some vs"
| "as_list _ = None"

text \<open>A double, or a boolean read as 1 or 0.\<close>

definition as_numeric :: "rvalue \<Rightarrow> dbl option" where
  "as_numeric v =
     (case as_double v of
        Some d \<Rightarrow> Some d
      | None \<Rightarrow> (case as_bool v of Some b \<Rightarrow> Some (Fin False (if b then 1 else 0)) | None \<Rightarrow> None))"

definition num_op :: "(dbl \<Rightarrow> dbl \<Rightarrow> dbl) \<Rightarrow> rvalue \<Rightarrow> rvalue \<Rightarrow> rvalue" where
  "num_op f x y =
     (case as_numeric x of
        None \<Rightarrow> VNull
      | Some a \<Rightarrow> (case as_numeric y of None \<Rightarrow> VNull | Some b \<Rightarrow> of_double (f a b)))"

definition v_add :: "rvalue \<Rightarrow> rvalue \<Rightarrow> rvalue" where
  "v_add = num_op d_add"

definition v_sub :: "rvalue \<Rightarrow> rvalue \<Rightarrow> rvalue" where
  "v_sub = num_op d_sub"

definition v_mul :: "rvalue \<Rightarrow> rvalue \<Rightarrow> rvalue" where
  "v_mul = num_op d_mul"

definition v_div :: "rvalue \<Rightarrow> rvalue \<Rightarrow> rvalue" where
  "v_div x y =
     (case as_numeric x of
        None \<Rightarrow> VNull
      | Some a \<Rightarrow>
          (case as_numeric y of
             None \<Rightarrow> VNull
           | Some b \<Rightarrow> if d_eq b (Fin False 0) then VNull else of_double (d_div a b)))"

fun scalar_eq :: "scalar \<Rightarrow> scalar \<Rightarrow> bool" where
  "scalar_eq (SDouble a) (SDouble b) = d_eq a b"
| "scalar_eq (SString a) (SString b) = (a = b)"
| "scalar_eq (SBool a) (SBool b) = (a = b)"
| "scalar_eq _ _ = False"

fun v_eq :: "rvalue \<Rightarrow> rvalue \<Rightarrow> bool"
  and v_eq_list :: "rvalue list \<Rightarrow> rvalue list \<Rightarrow> bool" where
  "v_eq VNull VNull = True"
| "v_eq (VScalar a) (VScalar b) = scalar_eq a b"
| "v_eq (VList xs) (VList ys) = (length xs = length ys \<and> v_eq_list xs ys)"
| "v_eq _ _ = False"
| "v_eq_list (x # xs) (y # ys) = (if v_eq x y then v_eq_list xs ys else False)"
| "v_eq_list [] _ = True"
| "v_eq_list _ [] = True"

definition v_cmp :: "(dbl \<Rightarrow> dbl \<Rightarrow> bool) \<Rightarrow> rvalue \<Rightarrow> rvalue \<Rightarrow> bool" where
  "v_cmp f x y =
     (case as_numeric x of
        None \<Rightarrow> False
      | Some a \<Rightarrow> (case as_numeric y of None \<Rightarrow> False | Some b \<Rightarrow> f a b))"

definition v_lt :: "rvalue \<Rightarrow> rvalue \<Rightarrow> bool" where
  "v_lt = v_cmp d_lt"

definition v_gt :: "rvalue \<Rightarrow> rvalue \<Rightarrow> bool" where
  "v_gt = v_cmp d_gt"

lemmas value_simps = of_double_def of_string_def of_boolean_def of_int64_def of_list_def
  as_numeric_def num_op_def v_add_def v_sub_def v_mul_def v_div_def v_cmp_def v_lt_def v_gt_def

text \<open>
  \<open>==\<close> is symmetric; it is reflexive exactly on values that hold no NaN.
\<close>

lemma scalar_eq_sym: "scalar_eq a b = scalar_eq b a"
  by (cases a; cases b) (auto simp: d_eq_sym)

lemma v_eq_list_Nil2 [simp]: "v_eq_list xs []"
  by (cases xs) auto

lemma v_eq_sym: "v_eq x y = v_eq y x"
  and v_eq_list_sym: "v_eq_list xs ys = v_eq_list ys xs"
  by (induction x y and xs ys rule: v_eq_v_eq_list.induct)
    (auto simp: scalar_eq_sym split: list.splits)

primrec nan_free :: "rvalue \<Rightarrow> bool" where
  "nan_free VNull = True"
| "nan_free (VScalar s) = (case s of SDouble d \<Rightarrow> \<not> d_is_nan d | SString _ \<Rightarrow> True | SBool _ \<Rightarrow> True)"
| "nan_free (VList vs) = list_all (\<lambda>b. b) (map nan_free vs)"

lemma v_eq_list_refl: "(\<And>v. v \<in> set vs \<Longrightarrow> v_eq v v = nan_free v) \<Longrightarrow>
    v_eq_list vs vs = list_all nan_free vs"
  by (induction vs) auto

lemma v_eq_refl_iff: "v_eq v v \<longleftrightarrow> nan_free v"
proof (induction v)
  case (VScalar s)
  then show ?case by (cases s) auto
next
  case (VList vs)
  then show ?case by (auto simp: v_eq_list_refl list_all_iff)
qed simp

lemma v_lt_gt_swap: "v_gt x y = v_lt y x"
  by (auto simp: v_lt_def v_gt_def v_cmp_def d_gt_def split: option.splits)

subsection \<open>Fact base\<close>

datatype fact_source_kind = Direct | GraphPath | VectorSearch | Computed | Default

record fact_source =
  src_kind :: fact_source_kind
  src_description :: string
  src_elapsed :: int
  src_sql :: "string option"
  src_top_k :: "int option"

definition mk_source :: "fact_source_kind \<Rightarrow> string \<Rightarrow> fact_source" where
  "mk_source k desc =
     \<lparr>src_kind = k, src_description = desc, src_elapsed = 0, src_sql = None, src_top_k = None\<rparr>"

record fact_entry =
  entry_value :: rvalue
  entry_source :: fact_source

record fact_base =
  entries :: "(string, fact_entry) smap"
  path_mappings :: "(string, string) smap"

definition empty_facts :: fact_base where
  "empty_facts = \<lparr>entries = [], path_mappings = []\<rparr>"

definition fb_set :: "string \<Rightarrow> rvalue \<Rightarrow> fact_source \<Rightarrow> fact_base \<Rightarrow> fact_base" where
  "fb_set k v s fb = fb\<lparr>entries := sm_put k \<lparr>entry_value = v, entry_source = s\<rparr> (entries fb)\<rparr>"

definition fb_set_default :: "string \<Rightarrow> rvalue \<Rightarrow> fact_base \<Rightarrow> fact_base" where
  "fb_set_default k v fb =
     (case sm_get (entries fb) k of
        Some _ \<Rightarrow> fb
      | None \<Rightarrow> fb\<lparr>entries := sm_emplace k
                   \<lparr>entry_value = v, entry_source = mk_source Default ''''\<rparr> (entries fb)\<rparr>)"

definition fb_get :: "fact_base \<Rightarrow> string \<Rightarrow> rvalue option" where
  "fb_get fb k = map_option entry_value (sm_get (entries fb) k)"

definition fb_get_or :: "fact_base \<Rightarrow> string \<Rightarrow> rvalue \<Rightarrow> rvalue" where
  "fb_get_or fb k d = (case sm_get (entries fb) k of Some e \<Rightarrow> entry_value e | None \<Rightarrow> d)"

definition fb_has :: "fact_base \<Rightarrow> string \<Rightarrow> bool" where
  "fb_has fb k = sm_has (entries fb) k"

definition fb_add_path_mapping :: "string \<Rightarrow> string \<Rightarrow> fact_base \<Rightarrow> fact_base" where
  "fb_add_path_mapping p k fb = fb\<lparr>path_mappings := sm_emplace p k (path_mappings fb)\<rparr>"

definition fb_resolve_path :: "fact_base \<Rightarrow> string \<Rightarrow> string option" where
  "fb_resolve_path fb p = sm_get (path_mappings fb) p"

definition fb_source_of :: "fact_base \<Rightarrow> string \<Rightarrow> fact_source" where
  "fb_source_of fb k =
     (case sm_get (entries fb) k of Some e \<Rightarrow> entry_source e | None \<Rightarrow> mk_source Default '''')"

definition fb_all_entries :: "fact_base \<Rightarrow> (string \<times> rvalue) list" where
  "fb_all_entries fb = map (\<lambda>(k, e). (k, entry_value e)) (entries fb)"

definition fb_all_sources :: "fact_base \<Rightarrow> (string \<times> fact_source) list" where
  "fb_all_sources fb = map (\<lambda>(k, e). (k, entry_source e)) (entries fb)"

definition fb_snapshot :: "fact_base \<Rightarrow> fact_base" where
  "fb_snapshot fb = fb"

definition fb_wf :: "fact_base \<Rightarrow> bool" where
  "fb_wf fb \<longleftrightarrow> sm_wf (entries fb) \<and> sm_wf (path_mappings fb)"

lemmas fact_base_defs = fb_set_def fb_set_default_def fb_get_def fb_get_or_def fb_has_def
  fb_add_path_mapping_def fb_resolve_path_def fb_source_of_def fb_all_entries_def
  fb_all_sources_def fb_snapshot_def

lemma fb_get_set [simp]: "fb_get (fb_set k v s fb) = (fb_get fb)(k \<mapsto> v)"
  by (auto simp: fact_base_defs)

lemma fb_resolve_set [simp]: "fb_resolve_path (fb_set k v s fb) = fb_resolve_path fb"
  by (simp add: fact_base_defs fun_eq_iff)

lemma fb_empty [simp]: "fb_get empty_facts k = None" "fb_resolve_path empty_facts p = None"
  by (simp_all add: fb_get_def fb_resolve_path_def empty_facts_def)

lemma fb_get_set_default:
  "fb_get (fb_set_default k v fb) k' =
     (if k' = k \<and> fb_get fb k = None then Some v else fb_get fb k')"
  by (auto simp: fact_base_defs sm_get_emplace sm_has_iff split: option.split)

lemma fb_get_or_eq: "fb_get_or fb k d = (case fb_get fb k of Some v \<Rightarrow> v | None \<Rightarrow> d)"
  by (simp add: fact_base_defs split: option.split)

lemma fb_has_iff: "fb_has fb k \<longleftrightarrow> fb_get fb k \<noteq> None"
  by (simp add: fact_base_defs sm_has_iff)

lemma fb_wf_empty [invariant_intros]: "fb_wf empty_facts"
  by (simp add: fb_wf_def empty_facts_def)

lemma fb_wf_set [invariant_intros]: "fb_wf fb \<Longrightarrow> fb_wf (fb_set k v s fb)"
  by (simp add: fb_wf_def fb_set_def sm_wf_put)

lemma fb_wf_set_default [invariant_intros]: "fb_wf fb \<Longrightarrow> fb_wf (fb_set_default k v fb)"
  by (auto simp: fb_wf_def fb_set_default_def sm_emplace_def sm_wf_put split: option.split)

lemma fb_wf_add_path [invariant_intros]: "fb_wf fb \<Longrightarrow> fb_wf (fb_add_path_mapping p k fb)"
  by (simp add: fb_wf_def fb_add_path_mapping_def sm_emplace_def sm_wf_put)

text \<open>A fact base is a dictionary in the sense of the prelude.\<close>

interpretation facts: dictionary fb_get "\<lambda>k v. fb_set k v src" fb_wf
  by unfold_locales (auto intro: fb_wf_set)

lemma fb_all_entries_get: "fb_wf fb \<Longrightarrow> (k, v) \<in> set (fb_all_entries fb) \<longleftrightarrow> fb_get fb k = Some v"
  using sm_wf_distinct [of "entries fb"]
  by (force simp: fb_all_entries_def fb_get_def fb_wf_def sm_get_def map_of_eq_Some_iff)

end
