(* ===== verification/Expression.thy ===== *)
theory Expression
  imports Rule_Value
begin

text \<open>
  The expressions of the rule language (\<open>include/sai/rule/ast_nodes.h\<close>,
  \<open>src/rule/expression.cpp\<close>): one constructor per node class, each carrying the source
  text its memoisation uses, and \<open>Evaluate\<close> as a function that passes the fact base
  along, because evaluation stores its results in it. \<open>std::hash\<close> is the parameter
  \<open>h\<close>. \<open>peval\<close> is the reference evaluator without the cache.
\<close>

subsection \<open>Syntax\<close>

datatype binary_op = And | Or | Add | Sub | Mul | Div | Eq | Neq | Lt | Le | Gt | Ge | In

datatype unary_op = Not | Neg

datatype builtin_fn = Avg | Count | Max | Min | Sum | Len

datatype expr =
    LiteralExpr rvalue
  | FieldRefExpr string
  | BinaryExpr binary_op expr expr string
  | UnaryExpr unary_op expr string
  | FunctionExpr builtin_fn "expr list" string
  | PathExpr string

definition literal_source :: "rvalue \<Rightarrow> string" where
  "literal_source v =
     (case as_double v of
        Some d \<Rightarrow> double_to_string d
      | None \<Rightarrow>
          (case as_string v of
             Some s \<Rightarrow> s
           | None \<Rightarrow>
               (case as_bool v of
                  Some b \<Rightarrow> if b then ''true'' else ''false''
                | None \<Rightarrow> ''null'')))"

text \<open>\<open>->\<close> becomes \<open>.\<close>, every other character is kept.\<close>

fun flatten_path :: "string \<Rightarrow> string" where
  "flatten_path [] = []"
| "flatten_path [c] = [c]"
| "flatten_path (c # d # cs) =
     (if c = CHR ''-'' \<and> d = CHR ''>'' then CHR ''.'' # flatten_path cs
      else c # flatten_path (d # cs))"

fun source_text :: "expr \<Rightarrow> string" where
  "source_text (LiteralExpr v) = literal_source v"
| "source_text (FieldRefExpr k) = k"
| "source_text (BinaryExpr b l r s) = s"
| "source_text (UnaryExpr u e s) = s"
| "source_text (FunctionExpr f es s) = s"
| "source_text (PathExpr p) = p"

primrec collect_refs :: "expr \<Rightarrow> string list"
  and collect_refs_list :: "expr list \<Rightarrow> string list" where
  "collect_refs (LiteralExpr v) = []"
| "collect_refs (FieldRefExpr k) = [k]"
| "collect_refs (BinaryExpr b l r s) = collect_refs l @ collect_refs r"
| "collect_refs (UnaryExpr u e s) = collect_refs e"
| "collect_refs (FunctionExpr f es s) = collect_refs_list es"
| "collect_refs (PathExpr p) = [p]"
| "collect_refs_list [] = []"
| "collect_refs_list (e # es) = collect_refs e @ collect_refs_list es"

subsection \<open>Operators\<close>

definition bool_or :: "rvalue \<Rightarrow> bool \<Rightarrow> bool" where
  "bool_or v d = (case as_bool v of Some b \<Rightarrow> b | None \<Rightarrow> d)"

primrec in_list :: "rvalue \<Rightarrow> rvalue list \<Rightarrow> bool" where
  "in_list v [] = False"
| "in_list v (x # xs) = (if v_eq v x then True else in_list v xs)"

fun apply_binary :: "binary_op \<Rightarrow> rvalue \<Rightarrow> rvalue \<Rightarrow> rvalue" where
  "apply_binary Add x y = v_add x y"
| "apply_binary Sub x y = v_sub x y"
| "apply_binary Mul x y = v_mul x y"
| "apply_binary Div x y = v_div x y"
| "apply_binary Eq x y = of_boolean (v_eq x y)"
| "apply_binary Neq x y = of_boolean (\<not> v_eq x y)"
| "apply_binary Lt x y = of_boolean (v_lt x y)"
| "apply_binary Le x y = of_boolean (v_lt x y \<or> v_eq x y)"
| "apply_binary Gt x y = of_boolean (v_gt x y)"
| "apply_binary Ge x y = of_boolean (v_gt x y \<or> v_eq x y)"
| "apply_binary In x y =
     (case as_list y of None \<Rightarrow> of_boolean False | Some xs \<Rightarrow> of_boolean (in_list x xs))"
| "apply_binary _ x y = VNull"

definition apply_unary :: "unary_op \<Rightarrow> rvalue \<Rightarrow> rvalue" where
  "apply_unary u v =
     (case u of
        Not \<Rightarrow> (case as_bool v of None \<Rightarrow> VNull | Some b \<Rightarrow> of_boolean (\<not> b))
      | Neg \<Rightarrow>
          (case as_double v of
             Some d \<Rightarrow> of_double (d_neg d)
           | None \<Rightarrow>
               (case as_bool v of
                  Some b \<Rightarrow> of_double (d_neg (Fin False (if b then 1 else 0)))
                | None \<Rightarrow> VNull)))"

primrec sum_doubles :: "dbl \<Rightarrow> rvalue list \<Rightarrow> dbl option" where
  "sum_doubles acc [] = Some acc"
| "sum_doubles acc (v # vs) =
     (case as_double v of None \<Rightarrow> None | Some n \<Rightarrow> sum_doubles (d_add acc n) vs)"

primrec fold_best :: "(dbl \<Rightarrow> dbl \<Rightarrow> bool) \<Rightarrow> dbl \<Rightarrow> rvalue list \<Rightarrow> dbl option" where
  "fold_best better m [] = Some m"
| "fold_best better m (v # vs) =
     (case as_double v of
        None \<Rightarrow> None
      | Some n \<Rightarrow> fold_best better (if better n m then n else m) vs)"

definition best_of :: "(dbl \<Rightarrow> dbl \<Rightarrow> bool) \<Rightarrow> rvalue list \<Rightarrow> rvalue" where
  "best_of better vs =
     (case vs of
        [] \<Rightarrow> VNull
      | v # rest \<Rightarrow>
          (case as_double v of
             None \<Rightarrow> VNull
           | Some m \<Rightarrow>
               (case fold_best better m rest of None \<Rightarrow> VNull | Some r \<Rightarrow> of_double r)))"

definition apply_builtin :: "builtin_fn \<Rightarrow> rvalue list \<Rightarrow> rvalue" where
  "apply_builtin f vs =
     (case f of
        Avg \<Rightarrow>
          (if vs = [] then VNull
           else (case sum_doubles (Fin False 0) vs of
                   None \<Rightarrow> VNull
                 | Some s \<Rightarrow> of_double (d_div s (d_of_nat (length vs)))))
      | Count \<Rightarrow> of_double (d_of_nat (length vs))
      | Max \<Rightarrow> best_of d_gt vs
      | Min \<Rightarrow> best_of d_lt vs
      | Sum \<Rightarrow> (case sum_doubles (Fin False 0) vs of None \<Rightarrow> VNull | Some s \<Rightarrow> of_double s)
      | Len \<Rightarrow>
          (case vs of
             [] \<Rightarrow> of_double (Fin False 0)
           | v # _ \<Rightarrow>
               (case as_string v of
                  Some s \<Rightarrow> of_double (d_of_nat (length s))
                | None \<Rightarrow>
                    (case as_list v of
                       Some xs \<Rightarrow> of_double (d_of_nat (length xs))
                     | None \<Rightarrow> VNull))))"

subsection \<open>Evaluation with memoisation\<close>

type_synonym hash_fn = "string \<Rightarrow> nat"
type_synonym eval_fn = "fact_base \<Rightarrow> rvalue result \<times> fact_base"

definition memo_prefix :: string where
  "memo_prefix = ''__memo__''"

definition memo_key :: "hash_fn \<Rightarrow> string \<Rightarrow> string" where
  "memo_key h src = memo_prefix @ nat_str (h src)"

definition eval_with_memo :: "hash_fn \<Rightarrow> string \<Rightarrow> eval_fn \<Rightarrow> eval_fn" where
  "eval_with_memo h src compute fb =
     (if src = [] then compute fb
      else (case fb_get fb (memo_key h src) of
              Some cached \<Rightarrow> (Inr cached, fb)
            | None \<Rightarrow>
                (case compute fb of
                   (Inl err, fb') \<Rightarrow> (Inl err, fb')
                 | (Inr v, fb') \<Rightarrow>
                     (Inr v, fb_set (memo_key h src) v
                               (mk_source Computed (''memoized:'' @ src)) fb'))))"

definition field_value :: "string \<Rightarrow> eval_fn" where
  "field_value k fb =
     (case fb_get fb k of
        Some v \<Rightarrow> (Inr v, fb)
      | None \<Rightarrow> (Inl (ErrorInfo Rule_TypeMismatch (''field not found: '' @ k)), fb))"

definition path_value :: "string \<Rightarrow> eval_fn" where
  "path_value p fb =
     (let flat = (case fb_resolve_path fb p of Some k \<Rightarrow> k | None \<Rightarrow> flatten_path p)
      in case fb_get fb flat of
           Some v \<Rightarrow> (Inr v, fb)
         | None \<Rightarrow> (Inl (ErrorInfo Rule_TypeMismatch (''field not found via path: '' @ flat)), fb))"

definition eval_binary :: "binary_op \<Rightarrow> eval_fn \<Rightarrow> eval_fn \<Rightarrow> eval_fn" where
  "eval_binary b L R fb =
     (if b = And \<or> b = Or then
        (case L fb of
           (Inl err, fb1) \<Rightarrow> (Inl err, fb1)
         | (Inr lv, fb1) \<Rightarrow>
             let lhs_b = bool_or lv False
             in if b = And \<and> \<not> lhs_b then (Inr (of_boolean False), fb1)
                else if b = Or \<and> lhs_b then (Inr (of_boolean True), fb1)
                else (case R fb1 of
                        (Inl err, fb2) \<Rightarrow> (Inl err, fb2)
                      | (Inr rv, fb2) \<Rightarrow>
                          let rhs_b = bool_or rv False
                          in (Inr (of_boolean (if b = And then lhs_b \<and> rhs_b else lhs_b \<or> rhs_b)), fb2)))
      else
        (case L fb of
           (Inl err, fb1) \<Rightarrow> (Inl err, fb1)
         | (Inr lv, fb1) \<Rightarrow>
             (case R fb1 of
                (Inl err, fb2) \<Rightarrow> (Inl err, fb2)
              | (Inr rv, fb2) \<Rightarrow> (Inr (apply_binary b lv rv), fb2))))"

definition eval_unary :: "unary_op \<Rightarrow> eval_fn \<Rightarrow> eval_fn" where
  "eval_unary u E fb =
     (case E fb of
        (Inl err, fb1) \<Rightarrow> (Inl err, fb1)
      | (Inr v, fb1) \<Rightarrow> (Inr (apply_unary u v), fb1))"

definition eval_function :: "builtin_fn \<Rightarrow> (fact_base \<Rightarrow> rvalue list result \<times> fact_base) \<Rightarrow> eval_fn" where
  "eval_function f A fb =
     (case A fb of
        (Inl err, fb1) \<Rightarrow> (Inl err, fb1)
      | (Inr vs, fb1) \<Rightarrow> (Inr (apply_builtin f vs), fb1))"

primrec evaluate :: "hash_fn \<Rightarrow> expr \<Rightarrow> eval_fn"
  and evaluate_args :: "hash_fn \<Rightarrow> expr list \<Rightarrow> fact_base \<Rightarrow> rvalue list result \<times> fact_base" where
  "evaluate h (LiteralExpr v) = (\<lambda>fb. (Inr v, fb))"
| "evaluate h (FieldRefExpr k) = eval_with_memo h k (field_value k)"
| "evaluate h (BinaryExpr b l r s) =
     eval_with_memo h s (eval_binary b (evaluate h l) (evaluate h r))"
| "evaluate h (UnaryExpr u e s) = eval_with_memo h s (eval_unary u (evaluate h e))"
| "evaluate h (FunctionExpr f es s) = eval_with_memo h s (eval_function f (evaluate_args h es))"
| "evaluate h (PathExpr p) = eval_with_memo h p (path_value p)"
| "evaluate_args h [] = (\<lambda>fb. (Inr [], fb))"
| "evaluate_args h (e # es) = (\<lambda>fb.
     case evaluate h e fb of
       (Inl err, fb1) \<Rightarrow> (Inl err, fb1)
     | (Inr v, fb1) \<Rightarrow>
         (case evaluate_args h es fb1 of
            (Inl err, fb2) \<Rightarrow> (Inl err, fb2)
          | (Inr vs, fb2) \<Rightarrow> (Inr (v # vs), fb2)))"

end
