(* ===== verification/Expression_Memo.thy ===== *)
theory Expression_Memo
  imports Expression
begin

text \<open>
  What the memoisation of \<open>EvalWithMemo\<close> promises: the reference evaluator \<open>peval\<close>
  (no cache, no state), the conditions under which evaluation through the cache agrees
  with it, and the frame of an evaluation (only \<open>__memo__\<close> keys are written).
\<close>

subsection \<open>Reference evaluator\<close>

definition pbinary :: "binary_op \<Rightarrow> rvalue result \<Rightarrow> rvalue result \<Rightarrow> rvalue result" where
  "pbinary b L R =
     and_then L (\<lambda>lv.
       if b = And \<and> \<not> bool_or lv False then Inr (of_boolean False)
       else if b = Or \<and> bool_or lv False then Inr (of_boolean True)
       else and_then R (\<lambda>rv.
         if b = And \<or> b = Or then Inr (of_boolean (bool_or rv False))
         else Inr (apply_binary b lv rv)))"

primrec peval :: "fact_base \<Rightarrow> expr \<Rightarrow> rvalue result"
  and peval_args :: "fact_base \<Rightarrow> expr list \<Rightarrow> rvalue list result" where
  "peval fb (LiteralExpr v) = Inr v"
| "peval fb (FieldRefExpr k) = fst (field_value k fb)"
| "peval fb (BinaryExpr b l r s) = pbinary b (peval fb l) (peval fb r)"
| "peval fb (UnaryExpr u e s) = and_then (peval fb e) (\<lambda>v. Inr (apply_unary u v))"
| "peval fb (FunctionExpr f es s) = and_then (peval_args fb es) (\<lambda>vs. Inr (apply_builtin f vs))"
| "peval fb (PathExpr p) = fst (path_value p fb)"
| "peval_args fb [] = Inr []"
| "peval_args fb (e # es) =
     and_then (peval fb e) (\<lambda>v. and_then (peval_args fb es) (\<lambda>vs. Inr (v # vs)))"

primrec subexprs :: "expr \<Rightarrow> expr list"
  and subexprs_list :: "expr list \<Rightarrow> expr list" where
  "subexprs (LiteralExpr v) = [LiteralExpr v]"
| "subexprs (FieldRefExpr k) = [FieldRefExpr k]"
| "subexprs (BinaryExpr b l r s) = BinaryExpr b l r s # subexprs l @ subexprs r"
| "subexprs (UnaryExpr u e s) = UnaryExpr u e s # subexprs e"
| "subexprs (FunctionExpr f es s) = FunctionExpr f es s # subexprs_list es"
| "subexprs (PathExpr p) = [PathExpr p]"
| "subexprs_list [] = []"
| "subexprs_list (e # es) = subexprs e @ subexprs_list es"

subsection \<open>When the cache is sound\<close>

definition is_memo_key :: "string \<Rightarrow> bool" where
  "is_memo_key k \<longleftrightarrow> take (length memo_prefix) k = memo_prefix"

fun memoises :: "expr \<Rightarrow> bool" where
  "memoises (LiteralExpr v) = False"
| "memoises e = (source_text e \<noteq> [])"

text \<open>The flat key a path reads.\<close>

definition flat_key :: "fact_base \<Rightarrow> string \<Rightarrow> string" where
  "flat_key fb p = (case fb_resolve_path fb p of Some k \<Rightarrow> k | None \<Rightarrow> flatten_path p)"

fun reads_plain :: "fact_base \<Rightarrow> expr \<Rightarrow> bool" where
  "reads_plain fb (FieldRefExpr k) = (\<not> is_memo_key k)"
| "reads_plain fb (PathExpr p) = (\<not> is_memo_key (flat_key fb p))"
| "reads_plain fb e = True"

text \<open>
  Expressions that share a cache entry have the same value, and none reads a cache
  entry as a fact.
\<close>

definition coherent :: "hash_fn \<Rightarrow> fact_base \<Rightarrow> expr list \<Rightarrow> bool" where
  "coherent h fb S \<longleftrightarrow>
     (\<forall>e \<in> set S. reads_plain fb e \<and>
        (\<forall>e' \<in> set S. memoises e \<and> memoises e' \<and> h (source_text e) = h (source_text e')
            \<longrightarrow> peval fb e = peval fb e'))"

text \<open>What holds of a fact base while expressions of \<open>S\<close> are evaluated from \<open>fb0\<close>.\<close>

definition memo_state :: "hash_fn \<Rightarrow> fact_base \<Rightarrow> expr list \<Rightarrow> fact_base \<Rightarrow> bool" where
  "memo_state h fb0 S fb \<longleftrightarrow>
     (\<forall>k. \<not> is_memo_key k \<longrightarrow> fb_get fb k = fb_get fb0 k) \<and>
     fb_resolve_path fb = fb_resolve_path fb0 \<and>
     (\<forall>e \<in> set S. \<forall>v. memoises e \<and> fb_get fb (memo_key h (source_text e)) = Some v
         \<longrightarrow> peval fb0 e = Inr v)"

definition no_memo :: "fact_base \<Rightarrow> bool" where
  "no_memo fb \<longleftrightarrow> (\<forall>k. is_memo_key k \<longrightarrow> fb_get fb k = None)"

lemma is_memo_memo_key [simp]: "is_memo_key (memo_key h s)"
  by (simp add: is_memo_key_def memo_key_def memo_prefix_def)

lemma memo_key_eq_iff: "memo_key h s = memo_key h t \<longleftrightarrow> h s = h t"
  by (simp add: memo_key_def nat_str_inject)

lemma memo_state_start: "no_memo fb \<Longrightarrow> memo_state h fb S fb"
  by (simp add: memo_state_def no_memo_def)

lemma memo_state_get: "memo_state h fb0 S fb \<Longrightarrow> \<not> is_memo_key k \<Longrightarrow> fb_get fb k = fb_get fb0 k"
  by (simp add: memo_state_def)

lemma memo_state_hit:
  "memo_state h fb0 S fb \<Longrightarrow> e \<in> set S \<Longrightarrow> memoises e \<Longrightarrow>
   fb_get fb (memo_key h (source_text e)) = Some v \<Longrightarrow> peval fb0 e = Inr v"
  by (simp add: memo_state_def)

text \<open>\<open>f\<close> computes \<open>r\<close> from every such state and leaves one behind.\<close>

definition computes :: "hash_fn \<Rightarrow> fact_base \<Rightarrow> expr list \<Rightarrow>
    (fact_base \<Rightarrow> 'a result \<times> fact_base) \<Rightarrow> 'a result \<Rightarrow> bool" where
  "computes h fb0 S f r \<longleftrightarrow>
     (\<forall>fb. memo_state h fb0 S fb \<longrightarrow> fst (f fb) = r \<and> memo_state h fb0 S (snd (f fb)))"

lemma computesD:
  assumes "computes h fb0 S f r" "memo_state h fb0 S fb"
  obtains fb' where "f fb = (r, fb')" "memo_state h fb0 S fb'"
  using assms unfolding computes_def by (metis prod.collapse)

lemma computes_pure: "computes h fb0 S (\<lambda>fb. (r, fb)) r"
  by (simp add: computes_def)

lemma memo_state_put:
  assumes "coherent h fb0 S" "memo_state h fb0 S fb" "e \<in> set S" "memoises e" "peval fb0 e = Inr v"
  shows "memo_state h fb0 S (fb_set (memo_key h (source_text e)) v s fb)"
  unfolding memo_state_def
proof (intro conjI allI ballI impI)
  fix k assume "\<not> is_memo_key k"
  then show "fb_get (fb_set (memo_key h (source_text e)) v s fb) k = fb_get fb0 k"
    by (auto simp: memo_state_get [OF assms(2)])
next
  show "fb_resolve_path (fb_set (memo_key h (source_text e)) v s fb) = fb_resolve_path fb0"
    using assms(2) by (simp add: memo_state_def)
next
  fix e' w
  assume e': "e' \<in> set S"
    and w: "memoises e' \<and> fb_get (fb_set (memo_key h (source_text e)) v s fb)
              (memo_key h (source_text e')) = Some w"
  show "peval fb0 e' = Inr w"
  proof (cases "h (source_text e') = h (source_text e)")
    case True
    then have "peval fb0 e' = peval fb0 e"
      using assms(1,3,4) e' w unfolding coherent_def by metis
    with True w assms(5) show ?thesis by (simp add: memo_key_eq_iff)
  next
    case False
    with w have "fb_get fb (memo_key h (source_text e')) = Some w"
      by (simp add: memo_key_eq_iff)
    then show ?thesis using memo_state_hit [OF assms(2) e'] w by blast
  qed
qed

lemma computes_memo:
  assumes "coherent h fb0 S" "e \<in> set S" "memoises e \<or> source_text e = []"
    and f: "computes h fb0 S f (peval fb0 e)"
  shows "computes h fb0 S (eval_with_memo h (source_text e) f) (peval fb0 e)"
  unfolding computes_def
proof (intro allI impI)
  fix fb assume st: "memo_state h fb0 S fb"
  obtain fb' where fb': "f fb = (peval fb0 e, fb')" "memo_state h fb0 S fb'"
    using f st by (rule computesD)
  show "fst (eval_with_memo h (source_text e) f fb) = peval fb0 e \<and>
        memo_state h fb0 S (snd (eval_with_memo h (source_text e) f fb))"
  proof (cases "source_text e = []")
    case True
    with fb' show ?thesis by (simp add: eval_with_memo_def)
  next
    case False
    with assms(3) have m: "memoises e" by simp
    show ?thesis
    proof (cases "fb_get fb (memo_key h (source_text e))")
      case None
      show ?thesis
      proof (cases "peval fb0 e")
        case (Inl err)
        with None False fb' show ?thesis by (simp add: eval_with_memo_def)
      next
        case (Inr v)
        with None False fb' memo_state_put [OF assms(1) fb'(2) assms(2) m Inr] show ?thesis
          by (simp add: eval_with_memo_def)
      qed
    next
      case (Some v)
      with m st assms(2) have "peval fb0 e = Inr v" by (blast intro: memo_state_hit)
      with Some False st show ?thesis by (simp add: eval_with_memo_def)
    qed
  qed
qed

lemma computes_field: "\<not> is_memo_key k \<Longrightarrow> computes h fb0 S (field_value k) (fst (field_value k fb0))"
  by (auto simp: computes_def field_value_def memo_state_get split: option.split)

lemma computes_path: "\<not> is_memo_key (flat_key fb0 p) \<Longrightarrow>
    computes h fb0 S (path_value p) (fst (path_value p fb0))"
  unfolding computes_def
proof (intro allI impI)
  fix fb assume plain: "\<not> is_memo_key (flat_key fb0 p)" and st: "memo_state h fb0 S fb"
  have "fb_resolve_path fb p = fb_resolve_path fb0 p" using st by (simp add: memo_state_def)
  moreover have "fb_get fb (flat_key fb0 p) = fb_get fb0 (flat_key fb0 p)"
    using st plain by (rule memo_state_get)
  ultimately show "fst (path_value p fb) = fst (path_value p fb0) \<and>
      memo_state h fb0 S (snd (path_value p fb))"
    using st by (auto simp: path_value_def Let_def flat_key_def split: option.splits)
qed

lemma computes_bind:
  assumes "computes h fb0 S f r" and "\<And>v. r = Inr v \<Longrightarrow> computes h fb0 S (g v) (k v)"
  shows "computes h fb0 S
    (\<lambda>fb. case f fb of (Inl err, fb1) \<Rightarrow> (Inl err, fb1) | (Inr v, fb1) \<Rightarrow> g v fb1) (and_then r k)"
  unfolding computes_def
proof (intro allI impI)
  fix fb assume st: "memo_state h fb0 S fb"
  obtain fb1 where fb1: "f fb = (r, fb1)" "memo_state h fb0 S fb1"
    using assms(1) st by (rule computesD)
  show "fst (case f fb of (Inl err, fb1) \<Rightarrow> (Inl err, fb1) | (Inr v, fb1) \<Rightarrow> g v fb1) = and_then r k \<and>
     memo_state h fb0 S (snd (case f fb of (Inl err, fb1) \<Rightarrow> (Inl err, fb1) | (Inr v, fb1) \<Rightarrow> g v fb1))"
  proof (cases r)
    case (Inl err)
    with fb1 show ?thesis by simp
  next
    case (Inr v)
    have "computes h fb0 S (g v) (k v)" using Inr by (rule assms(2))
    with Inr fb1 show ?thesis by (simp add: computes_def)
  qed
qed

lemma computes_binary:
  assumes "computes h fb0 S L l" "computes h fb0 S R r"
  shows "computes h fb0 S (eval_binary b L R) (pbinary b l r)"
proof (cases "b = And \<or> b = Or")
  case True
  have "eval_binary b L R = (\<lambda>fb. case L fb of (Inl err, fb1) \<Rightarrow> (Inl err, fb1) | (Inr lv, fb1) \<Rightarrow>
      (if b = And \<and> \<not> bool_or lv False then (\<lambda>fb. (Inr (of_boolean False), fb))
       else if b = Or \<and> bool_or lv False then (\<lambda>fb. (Inr (of_boolean True), fb))
       else (\<lambda>fb. case R fb of (Inl err, fb2) \<Rightarrow> (Inl err, fb2) | (Inr rv, fb2) \<Rightarrow>
              (\<lambda>fb. (Inr (of_boolean (bool_or rv False)), fb)) fb2)) fb1)"
    using True by (auto simp: eval_binary_def fun_eq_iff Let_def split: sum.splits prod.splits)
  then show ?thesis
    unfolding pbinary_def using True assms
    by (simp only:) (intro computes_bind; auto intro!: computes_bind computes_pure)
next
  case False
  have "eval_binary b L R = (\<lambda>fb. case L fb of (Inl err, fb1) \<Rightarrow> (Inl err, fb1) | (Inr lv, fb1) \<Rightarrow>
      (\<lambda>fb. case R fb of (Inl err, fb2) \<Rightarrow> (Inl err, fb2) | (Inr rv, fb2) \<Rightarrow>
              (\<lambda>fb. (Inr (apply_binary b lv rv), fb)) fb2) fb1)"
    using False by (auto simp: eval_binary_def fun_eq_iff split: sum.splits prod.splits)
  then show ?thesis
    unfolding pbinary_def using False assms
    by (simp only:) (intro computes_bind; auto intro!: computes_bind computes_pure)
qed

lemma computes_unary:
  assumes "computes h fb0 S E r"
  shows "computes h fb0 S (eval_unary u E) (and_then r (\<lambda>v. Inr (apply_unary u v)))"
  using computes_bind [OF assms, of "\<lambda>v fb. (Inr (apply_unary u v), fb)"]
  by (simp add: computes_pure eval_unary_def [abs_def])

lemma computes_function:
  assumes "computes h fb0 S A r"
  shows "computes h fb0 S (eval_function f A) (and_then r (\<lambda>vs. Inr (apply_builtin f vs)))"
  using computes_bind [OF assms, of "\<lambda>vs fb. (Inr (apply_builtin f vs), fb)"]
  by (simp add: computes_pure eval_function_def [abs_def])

lemma computes_cons:
  assumes "computes h fb0 S (evaluate h e) r" "computes h fb0 S (evaluate_args h es) rs"
  shows "computes h fb0 S (evaluate_args h (e # es))
    (and_then r (\<lambda>v. and_then rs (\<lambda>vs. Inr (v # vs))))"
proof -
  have "computes h fb0 S (\<lambda>fb. case evaluate_args h es fb of
      (Inl err, fb2) \<Rightarrow> (Inl err, fb2) | (Inr vs, fb2) \<Rightarrow> (Inr (v # vs), fb2))
      (and_then rs (\<lambda>vs. Inr (v # vs)))" for v
    using computes_bind [OF assms(2), of "\<lambda>vs fb. (Inr (v # vs), fb)"] by (simp add: computes_pure)
  then have "computes h fb0 S (\<lambda>fb. case evaluate h e fb of (Inl err, fb1) \<Rightarrow> (Inl err, fb1)
      | (Inr v, fb1) \<Rightarrow> (\<lambda>fb. case evaluate_args h es fb of
          (Inl err, fb2) \<Rightarrow> (Inl err, fb2) | (Inr vs, fb2) \<Rightarrow> (Inr (v # vs), fb2)) fb1)
      (and_then r (\<lambda>v. and_then rs (\<lambda>vs. Inr (v # vs))))"
    by (rule computes_bind [OF assms(1)])
  then show ?thesis by simp
qed

lemmas computes_intros = computes_pure computes_binary computes_unary computes_function

lemma evaluate_computes:
  assumes coh: "coherent h fb0 S"
  shows "set (subexprs e) \<subseteq> set S \<Longrightarrow> computes h fb0 S (evaluate h e) (peval fb0 e)"
    and "set (subexprs_list es) \<subseteq> set S \<Longrightarrow> computes h fb0 S (evaluate_args h es) (peval_args fb0 es)"
proof (induction e and es rule: evaluate.induct evaluate_args.induct)
  case (LiteralExpr v)
  then show ?case by (simp add: computes_pure)
next
  case (FieldRefExpr k)
  then have k: "FieldRefExpr k \<in> set S" by simp
  with coh have "reads_plain fb0 (FieldRefExpr k)" by (auto simp: coherent_def)
  then have "\<not> is_memo_key k" by simp
  then show ?case
    using computes_memo [OF coh k] computes_field by fastforce
next
  case (BinaryExpr b l r s)
  then have "computes h fb0 S (eval_binary b (evaluate h l) (evaluate h r))
      (peval fb0 (BinaryExpr b l r s))"
    by (auto intro!: computes_intros)
  then show ?case
    using computes_memo [OF coh, of "BinaryExpr b l r s"] BinaryExpr.prems by simp
next
  case (UnaryExpr u e s)
  then have "computes h fb0 S (eval_unary u (evaluate h e)) (peval fb0 (UnaryExpr u e s))"
    by (auto intro!: computes_intros)
  then show ?case
    using computes_memo [OF coh, of "UnaryExpr u e s"] UnaryExpr.prems by simp
next
  case (FunctionExpr f es s)
  then have "computes h fb0 S (eval_function f (evaluate_args h es)) (peval fb0 (FunctionExpr f es s))"
    by (auto intro!: computes_intros)
  then show ?case
    using computes_memo [OF coh, of "FunctionExpr f es s"] FunctionExpr.prems by simp
next
  case (PathExpr p)
  then have p: "PathExpr p \<in> set S" by simp
  with coh have "reads_plain fb0 (PathExpr p)" by (auto simp: coherent_def)
  then have "\<not> is_memo_key (flat_key fb0 p)" by simp
  then show ?case
    using computes_memo [OF coh p] computes_path by fastforce
next
  case Nil_expr
  then show ?case by (simp add: computes_pure)
next
  case (Cons_expr e es)
  then show ?case using computes_cons by auto
qed


lemma computes_evaluate:
  "coherent h fb0 S \<Longrightarrow> set (subexprs e) \<subseteq> set S \<Longrightarrow> memo_state h fb0 S fb \<Longrightarrow>
   fst (evaluate h e fb) = peval fb0 e \<and> memo_state h fb0 S (snd (evaluate h e fb))"
  using evaluate_computes(1) by (auto simp: computes_def)

subsection \<open>What an evaluation writes\<close>

definition only_memo :: "fact_base \<Rightarrow> fact_base \<Rightarrow> bool" where
  "only_memo fb fb' \<longleftrightarrow>
     (\<forall>k. \<not> is_memo_key k \<longrightarrow> fb_get fb' k = fb_get fb k) \<and>
     fb_resolve_path fb' = fb_resolve_path fb \<and>
     (\<forall>k v. fb_get fb k = Some v \<longrightarrow> fb_get fb' k \<noteq> None)"

lemma only_memo_refl [simp]: "only_memo fb fb"
  by (simp add: only_memo_def)

lemma only_memo_trans: "only_memo a b \<Longrightarrow> only_memo b c \<Longrightarrow> only_memo a c"
  unfolding only_memo_def by (metis option.exhaust)

lemma only_memo_put: "only_memo a b \<Longrightarrow> only_memo a (fb_set (memo_key h s) v src b)"
  by (auto simp: only_memo_def)

definition writes_memo :: "(fact_base \<Rightarrow> 'a \<times> fact_base) \<Rightarrow> bool" where
  "writes_memo f \<longleftrightarrow> (\<forall>fb. only_memo fb (snd (f fb)))"

lemma writes_memoD: "writes_memo f \<Longrightarrow> f fb = (r, fb') \<Longrightarrow> only_memo fb fb'"
  unfolding writes_memo_def by (metis snd_conv)

lemma writes_memo_pure: "writes_memo (\<lambda>fb. (r, fb))" "writes_memo (field_value k)"
    "writes_memo (path_value p)"
  by (auto simp: writes_memo_def field_value_def path_value_def Let_def split: option.split)

lemma writes_memo_bind:
  assumes "writes_memo f" "\<And>v. writes_memo (g v)"
  shows "writes_memo (\<lambda>fb. case f fb of (Inl err, fb1) \<Rightarrow> (Inl err, fb1) | (Inr v, fb1) \<Rightarrow> g v fb1)"
  unfolding writes_memo_def
proof
  fix fb
  obtain r fb1 where f: "f fb = (r, fb1)" by (cases "f fb")
  then have "only_memo fb fb1" using assms(1) by (rule writes_memoD [rotated])
  then show "only_memo fb (snd (case f fb of (Inl err, fb1) \<Rightarrow> (Inl err, fb1)
      | (Inr v, fb1) \<Rightarrow> g v fb1))"
    using f assms(2) by (cases r) (auto simp: writes_memo_def intro: only_memo_trans)
qed

lemma writes_memo_memo: "writes_memo f \<Longrightarrow> writes_memo (eval_with_memo h s f)"
  by (auto simp: writes_memo_def eval_with_memo_def split: option.splits prod.splits sum.splits
      intro!: only_memo_put) (metis snd_conv)+

lemma writes_memo_binary: "writes_memo L \<Longrightarrow> writes_memo R \<Longrightarrow> writes_memo (eval_binary b L R)"
  by (auto simp: writes_memo_def eval_binary_def Let_def split: prod.splits sum.splits)
     (metis only_memo_trans snd_conv)+

lemma writes_memo_unary: "writes_memo E \<Longrightarrow> writes_memo (eval_unary u E)"
  unfolding eval_unary_def [abs_def] by (rule writes_memo_bind) (auto intro: writes_memo_pure)

lemma writes_memo_function: "writes_memo A \<Longrightarrow> writes_memo (eval_function f A)"
  unfolding eval_function_def [abs_def] by (rule writes_memo_bind) (auto intro: writes_memo_pure)

lemmas writes_memo_intros = writes_memo_pure writes_memo_memo writes_memo_binary writes_memo_unary
  writes_memo_function

lemma evaluate_writes_memo: "writes_memo (evaluate h e)" "writes_memo (evaluate_args h es)"
proof (induction e and es rule: evaluate.induct evaluate_args.induct)
  case (Cons_expr e es)
  then show ?case by (auto intro!: writes_memo_bind writes_memo_pure)
qed (auto intro!: writes_memo_intros)

subsection \<open>What a value depends on\<close>

definition agree_on :: "fact_base \<Rightarrow> fact_base \<Rightarrow> string list \<Rightarrow> bool" where
  "agree_on fb fb' ks \<longleftrightarrow> fb_resolve_path fb' = fb_resolve_path fb \<and>
     (\<forall>k \<in> set ks. fb_get fb' k = fb_get fb k \<and>
        fb_get fb' (flat_key fb k) = fb_get fb (flat_key fb k))"

lemma agree_on_append: "agree_on fb fb' (ks @ ls) \<longleftrightarrow> agree_on fb fb' ks \<and> agree_on fb fb' ls"
  by (auto simp: agree_on_def)

lemma agree_peval:
  "agree_on fb fb' (collect_refs e) \<Longrightarrow> peval fb' e = peval fb e"
  "agree_on fb fb' (collect_refs_list es) \<Longrightarrow> peval_args fb' es = peval_args fb es"
proof (induction e and es rule: evaluate.induct evaluate_args.induct)
  case (PathExpr p)
  then show ?case
    by (auto simp: agree_on_def path_value_def Let_def flat_key_def split: option.splits)
qed (auto simp: agree_on_append agree_on_def field_value_def split: option.splits)


lemma subexprs_self: "e \<in> set (subexprs e)"
  by (cases e) auto

lemma subexprs_refs:
  "e' \<in> set (subexprs e) \<Longrightarrow> set (collect_refs e') \<subseteq> set (collect_refs e)"
  "e' \<in> set (subexprs_list es) \<Longrightarrow> set (collect_refs e') \<subseteq> set (collect_refs_list es)"
  by (induction e and es rule: evaluate.induct evaluate_args.induct) auto

lemma agree_on_mono: "agree_on fb fb' ks \<Longrightarrow> set ls \<subseteq> set ks \<Longrightarrow> agree_on fb fb' ls"
  by (auto simp: agree_on_def)

lemma coherent_agree:
  assumes "agree_on fb fb' (collect_refs e)" "coherent h fb (subexprs e)"
  shows "coherent h fb' (subexprs e)"
proof -
  have val: "peval fb' a = peval fb a" if "a \<in> set (subexprs e)" for a
    using that by (intro agree_peval(1) agree_on_mono [OF assms(1)] subexprs_refs(1))
  have "flat_key fb' p = flat_key fb p" for p
    using assms(1) by (simp add: agree_on_def flat_key_def)
  then have "reads_plain fb' a = reads_plain fb a" for a
    by (cases a) simp_all
  with val assms(2) show ?thesis unfolding coherent_def by metis
qed

lemma no_memo_empty: "no_memo empty_facts"
  by (simp add: no_memo_def fb_get_def empty_facts_def)

lemma no_memo_set: "no_memo fb \<Longrightarrow> \<not> is_memo_key k \<Longrightarrow> no_memo (fb_set k v s fb)"
  by (auto simp: no_memo_def)

subsection \<open>Properties\<close>

text \<open>An entry of the cache is the answer, whatever the facts are by now.\<close>

lemma evaluate_cached:
  "memoises e \<Longrightarrow> fb_get fb (memo_key h (source_text e)) = Some v \<Longrightarrow> evaluate h e fb = (Inr v, fb)"
  by (cases e) (auto simp: eval_with_memo_def)

text \<open>
  C1 Memoised evaluation: from a fact base without cache entries, and if subexpressions that
  share a cache entry have the same value, \<open>Evaluate\<close> returns what the cache-free reference
  evaluator returns, on every branch (values, nulls and errors). When the fact base does hold an
  entry for the expression, \<open>Evaluate\<close> returns that entry and changes nothing, even if the facts have
  changed since it was made.
\<close>

theorem evaluate_memo_sound:
  "(no_memo fb \<and> coherent h fb (subexprs e) \<longrightarrow> fst (evaluate h e fb) = peval fb e) \<and>
   (memoises e \<and> fb_get fb (memo_key h (source_text e)) = Some v \<longrightarrow> evaluate h e fb = (Inr v, fb))"
  using computes_evaluate [OF _ order_refl memo_state_start] evaluate_cached by auto

definition demo_facts :: fact_base where
  "demo_facts = fb_set ''area'' (of_double (Fin False 3)) (mk_source Direct ''t'')
     (fb_set ''b'' (of_boolean False) (mk_source Direct ''t'') empty_facts)"

definition demo_expr :: expr where
  "demo_expr = BinaryExpr And
     (BinaryExpr Gt (FieldRefExpr ''area'') (LiteralExpr (of_double (Fin False 1))) ''area > one'')
     (UnaryExpr Not (FieldRefExpr ''b'') ''not b'') ''(area > one and not b)''"

lemma no_memo_demo: "no_memo demo_facts"
  unfolding demo_facts_def
  by (intro no_memo_set no_memo_empty) (simp_all add: is_memo_key_def memo_prefix_def)

lemma coherent_demo: "coherent length demo_facts (subexprs demo_expr)"
  by (simp add: coherent_def demo_expr_def is_memo_key_def memo_prefix_def)

lemma peval_demo: "peval demo_facts demo_expr = Inr (of_boolean True)"
  by (simp add: demo_expr_def demo_facts_def pbinary_def field_value_def value_simps d_gt_def bool_or_def apply_unary_def)


text \<open>A fact read, changed and read again: the second evaluation still returns the first value.\<close>

theorem evaluate_memo_sound_witness:
  "fst (evaluate length demo_expr demo_facts) = Inr (of_boolean True) \<and>
   fst (evaluate length (FieldRefExpr ''b'')
     (fb_set ''b'' (of_boolean True) (mk_source Direct ''t'') (snd (evaluate length (FieldRefExpr ''b'') demo_facts)))) =
     Inr (of_boolean False)"
proof -
  let ?fb = "fb_set ''b'' (of_boolean True) (mk_source Direct ''t'') (snd (evaluate length (FieldRefExpr ''b'') demo_facts))"
  have "fb_get ?fb (memo_key length ''b'') = Some (of_boolean False)"
    by (simp add: eval_with_memo_def demo_facts_def field_value_def memo_key_def memo_prefix_def)
  then have "fst (evaluate length (FieldRefExpr ''b'') ?fb) = Inr (of_boolean False)"
    using evaluate_memo_sound [of ?fb length "FieldRefExpr ''b''" "of_boolean False"] by simp
  moreover have "fst (evaluate length demo_expr demo_facts) = Inr (of_boolean True)"
    using evaluate_memo_sound [of demo_facts length demo_expr] no_memo_demo coherent_demo by (simp add: peval_demo)
  ultimately show ?thesis by blast
qed

text \<open>
  Frame: an evaluation writes cache entries only. Every fact, and the whole path
  mapping, is what it was, and no entry disappears, also when the evaluation fails.
\<close>

theorem evaluate_frame: "only_memo fb (snd (evaluate h e fb))"
  using evaluate_writes_memo(1) by (simp add: writes_memo_def)

text \<open>
  Dependency: two fact bases without cache entries that agree on the references
  \<open>CollectRefs\<close> reports (and on the flat keys its paths resolve to) give the same
  result. The dependency list a rule publishes is therefore complete.
\<close>

theorem evaluate_depends_on_refs:
  assumes "no_memo fb" "no_memo fb'" "coherent h fb (subexprs e)"
    and "agree_on fb fb' (collect_refs e)"
  shows "fst (evaluate h e fb') = fst (evaluate h e fb)"
proof -
  have coh: "coherent h fb' (subexprs e)" using assms(4,3) by (rule coherent_agree)
  show ?thesis
    using computes_evaluate [OF assms(3) order_refl memo_state_start [OF assms(1)]]
      computes_evaluate [OF coh order_refl memo_state_start [OF assms(2)]]
      agree_peval(1) [OF assms(4)] by simp
qed

theorem evaluate_depends_on_refs_witness:
  "fst (evaluate length demo_expr
      (fb_set ''other'' VNull (mk_source Direct ''t'') demo_facts)) = Inr (of_boolean True)"
proof -
  let ?fb = "fb_set ''other'' VNull (mk_source Direct ''t'') demo_facts"
  have "no_memo ?fb"
    by (intro no_memo_set no_memo_demo) (simp add: is_memo_key_def memo_prefix_def)
  moreover have "agree_on demo_facts ?fb (collect_refs demo_expr)"
    by (simp add: agree_on_def demo_expr_def flat_key_def demo_facts_def fun_eq_iff)
  ultimately show ?thesis
    using evaluate_depends_on_refs [OF no_memo_demo _ coherent_demo]
      computes_evaluate [OF coherent_demo order_refl memo_state_start [OF no_memo_demo]]
    by (simp add: peval_demo)
qed

text \<open>
  The cache is keyed by source text alone: once an expression has been evaluated with
  result \<open>v\<close>, every expression with the same source text returns \<open>v\<close> from the resulting
  fact base and changes nothing, whatever its operator and operands are.
\<close>

theorem evaluate_same_source:
  assumes "evaluate h e fb = (Inr v, fb')" "memoises e" "memoises e'"
    and "source_text e' = source_text e"
  shows "evaluate h e' fb' = (Inr v, fb')"
proof -
  have "fb_get fb' (memo_key h (source_text e)) = Some v"
    using assms(1,2)
    by (cases e) (auto simp: eval_with_memo_def split: option.splits prod.splits sum.splits if_splits)
  then show ?thesis
    using assms(3,4) by (cases e') (auto simp: eval_with_memo_def)
qed

theorem evaluate_same_source_witness:
  "fst (evaluate length (UnaryExpr Not (FieldRefExpr ''y'') ''not'')
      (snd (evaluate length (UnaryExpr Not (FieldRefExpr ''x'') ''not'')
        (fb_set ''x'' (of_boolean True) (mk_source Direct ''t'')
          (fb_set ''y'' (of_boolean False) (mk_source Direct ''t'') empty_facts)))))
    = Inr (of_boolean False)"
proof -
  let ?fb = "fb_set ''x'' (of_boolean True) (mk_source Direct ''t'')
          (fb_set ''y'' (of_boolean False) (mk_source Direct ''t'') empty_facts)"
  let ?e = "UnaryExpr Not (FieldRefExpr ''x'') ''not''"
  have "no_memo ?fb"
    by (intro no_memo_set no_memo_empty) (simp_all add: is_memo_key_def memo_prefix_def)
  moreover have "coherent length ?fb (subexprs ?e)"
    by (simp add: coherent_def is_memo_key_def memo_prefix_def)
  ultimately have "fst (evaluate length ?e ?fb) = Inr (of_boolean False)"
    using computes_evaluate [of length ?fb _ ?e ?fb] memo_state_start [of ?fb length "subexprs ?e"]
    by (force simp: field_value_def apply_unary_def value_simps)
  then have "evaluate length ?e ?fb = (Inr (of_boolean False), snd (evaluate length ?e ?fb))"
    by (simp add: prod_eq_iff)
  from evaluate_same_source [OF this, of "UnaryExpr Not (FieldRefExpr ''y'') ''not''"]
  show ?thesis by simp
qed

end
