(* ===== verification/Yaml.thy ===== *)
theory Yaml
  imports Doubles "HOL-Library.Word"
begin

text \<open>
  YAML documents as the code reads them. yaml-cpp is not part of the repository: a node is
  one of its documented kinds, a key a map does not have is \<open>None\<close> (an undefined node),
  the scalar conversions are parameters (\<open>None\<close> where \<open>as<T>\<close> throws), and a call
  that may throw returns \<open>Inl\<close> the exception.
\<close>

subsection \<open>Nodes and conversions\<close>

datatype yaml = YNull | YScalar string | YSeq "yaml list" | YMap "(string \<times> yaml) list"

record yaml_conv =
  as_double_text :: "string \<Rightarrow> dbl option"
  as_int64_text :: "string \<Rightarrow> int option"

text \<open>\<open>node[key]\<close> on a map.\<close>

definition y_at :: "(string \<times> yaml) list \<Rightarrow> string \<Rightarrow> yaml option" where
  "y_at kvs k = map_of kvs k"

lemma size_y_at: "map_of kvs k = Some y \<Longrightarrow> size y < Suc (size_list (size_prod (\<lambda>_. 0) size) kvs)"
  by (induction kvs) (auto split: if_splits)

definition y_scalar :: "yaml option \<Rightarrow> string option" where
  "y_scalar y = (case y of Some (YScalar s) \<Rightarrow> Some s | _ \<Rightarrow> None)"

text \<open>
  Conversions yaml-cpp adds to those of the condition builder: the text of a null node
  (if it has one), unsigned 32-bit integers, and the message of an exception.
\<close>

datatype yaml_exception = BadFile | ParserException | BadSubscript | BadConversion | InvalidNode

record load_conv = yaml_conv +
  null_text :: "string option"
  as_uint32_text :: "string \<Rightarrow> 32 word option"
  what :: "yaml_exception \<Rightarrow> string"

subsection \<open>Reading nodes\<close>

text \<open>\<open>node[key]\<close> on a node of any kind: a scalar cannot be indexed.\<close>

definition y_index :: "yaml \<Rightarrow> string \<Rightarrow> yaml_exception + yaml option" where
  "y_index y k =
     (case y of
        YScalar _ \<Rightarrow> Inl BadSubscript
      | YMap kvs \<Rightarrow> Inr (y_at kvs k)
      | _ \<Rightarrow> Inr None)"

definition text_of :: "'a load_conv_scheme \<Rightarrow> yaml option \<Rightarrow> string option" where
  "text_of cv y =
     (case y of Some (YScalar s) \<Rightarrow> Some s | Some YNull \<Rightarrow> null_text cv | _ \<Rightarrow> None)"

definition text_or :: "'a load_conv_scheme \<Rightarrow> string \<Rightarrow> yaml option \<Rightarrow> string" where
  "text_or cv d y = (case text_of cv y of Some s \<Rightarrow> s | None \<Rightarrow> d)"

definition scalar_or :: "(string \<Rightarrow> 'b option) \<Rightarrow> 'b \<Rightarrow> yaml option \<Rightarrow> 'b" where
  "scalar_or conv d y =
     (case y_scalar y of
        None \<Rightarrow> d
      | Some s \<Rightarrow> (case conv s of None \<Rightarrow> d | Some x \<Rightarrow> x))"

primrec texts_of :: "'a load_conv_scheme \<Rightarrow> yaml list \<Rightarrow> yaml_exception + string list" where
  "texts_of cv [] = Inr []"
| "texts_of cv (y # ys) =
     (case text_of cv (Some y) of
        None \<Rightarrow> Inl BadConversion
      | Some s \<Rightarrow> map_sum id (\<lambda>ss. s # ss) (texts_of cv ys))"

text \<open>\<open>for (auto o : node) out.push_back(o.as<std::string>())\<close>.\<close>

definition name_list :: "'a load_conv_scheme \<Rightarrow> yaml option \<Rightarrow> yaml_exception + string list" where
  "name_list cv y =
     (case y of
        Some (YSeq ys) \<Rightarrow> texts_of cv ys
      | Some (YMap (_ # _)) \<Rightarrow> Inl InvalidNode
      | _ \<Rightarrow> Inr [])"

subsection \<open>Calls that may throw\<close>

text \<open>A call that may throw an exception of yaml-cpp, or return a result.\<close>

type_synonym 'a thrown = "yaml_exception + 'a result"

definition then_ok :: "'a thrown \<Rightarrow> ('a \<Rightarrow> 'b thrown) \<Rightarrow> 'b thrown" where
  "then_ok x f =
     (case x of Inl ex \<Rightarrow> Inl ex | Inr (Inl err) \<Rightarrow> Inr (Inl err) | Inr (Inr a) \<Rightarrow> f a)"

definition returning :: "'a \<Rightarrow> 'a thrown" where
  "returning a = Inr (Inr a)"

definition throwing :: "yaml_exception + 'a \<Rightarrow> 'a thrown" where
  "throwing x = map_sum id Inr x"

lemma then_ok_Inr: "then_ok x f = Inr (Inr b) \<longleftrightarrow> (\<exists>a. x = Inr (Inr a) \<and> f a = Inr (Inr b))"
  by (auto simp: then_ok_def split: sum.split)

lemma throwing_Inr: "throwing x = Inr (Inr a) \<longleftrightarrow> x = Inr a"
  by (cases x) (auto simp: throwing_def)

definition text_must :: "'a load_conv_scheme \<Rightarrow> yaml \<Rightarrow> string thrown" where
  "text_must cv y = (case text_of cv (Some y) of None \<Rightarrow> Inl BadConversion | Some s \<Rightarrow> returning s)"

definition text_opt :: "'a load_conv_scheme \<Rightarrow> yaml option \<Rightarrow> string thrown" where
  "text_opt cv y = (case y of None \<Rightarrow> returning '''' | Some n \<Rightarrow> text_must cv n)"

primrec doubles_of :: "'a load_conv_scheme \<Rightarrow> yaml list \<Rightarrow> yaml_exception + dbl list" where
  "doubles_of cv [] = Inr []"
| "doubles_of cv (y # ys) =
     (case y of
        YScalar s \<Rightarrow>
          (case as_double_text cv s of
             None \<Rightarrow> Inl BadConversion
           | Some d \<Rightarrow> map_sum id (\<lambda>ds. d # ds) (doubles_of cv ys))
      | _ \<Rightarrow> Inl BadConversion)"

definition double_list :: "'a load_conv_scheme \<Rightarrow> yaml option \<Rightarrow> yaml_exception + dbl list" where
  "double_list cv y =
     (case y of
        Some (YSeq ys) \<Rightarrow> doubles_of cv ys
      | Some (YMap (_ # _)) \<Rightarrow> Inl InvalidNode
      | _ \<Rightarrow> Inr [])"

end
