(* ===== verification/Condition_Builder.thy ===== *)
theory Condition_Builder
  imports Expression_Memo Yaml
begin

text \<open>
  Rule conditions built from YAML nodes (\<open>src/rule/condition_builder.cpp\<close>).
\<close>

subsection \<open>Literals and comparisons\<close>

definition parse_binary_op :: "string \<Rightarrow> binary_op option" where
  "parse_binary_op s =
     (if s = ''and'' then Some And
      else if s = ''or'' then Some Or
      else if s = ''add'' then Some Add
      else if s = ''sub'' then Some Sub
      else if s = ''mul'' then Some Mul
      else if s = ''div'' then Some Div
      else if s = ''eq'' then Some Eq
      else if s = ''neq'' then Some Neq
      else if s = ''lt'' then Some Lt
      else if s = ''le'' then Some Le
      else if s = ''gt'' then Some Gt
      else if s = ''ge'' then Some Ge
      else if s = ''in'' then Some In
      else None)"

definition is_digit_or_minus :: "char \<Rightarrow> bool" where
  "is_digit_or_minus c \<longleftrightarrow> 48 \<le> (of_char c :: nat) \<and> (of_char c :: nat) \<le> 57 \<or> c = CHR ''-''"

definition literal_value :: "yaml_conv \<Rightarrow> string \<Rightarrow> rvalue" where
  "literal_value cv text =
     (if text = ''true'' \<or> text = ''false'' then of_boolean (text = ''true'')
      else if CHR ''.'' \<in> set text then
        (case as_double_text cv text of Some d \<Rightarrow> of_double d | None \<Rightarrow> of_string text)
      else if list_all is_digit_or_minus text then
        (case as_int64_text cv text of Some i \<Rightarrow> of_int64 i | None \<Rightarrow> of_string text)
      else of_string text)"

definition build_literal :: "yaml_conv \<Rightarrow> yaml option \<Rightarrow> rvalue result" where
  "build_literal cv y =
     (case y of
        Some (YScalar text) \<Rightarrow> Inr (literal_value cv text)
      | _ \<Rightarrow> Inl (ErrorInfo Rule_ParseError ''literal value must be a scalar''))"

definition comparison_lhs :: "(string \<times> yaml) list \<Rightarrow> string \<Rightarrow> expr result" where
  "comparison_lhs kvs hint =
     (case y_scalar (y_at kvs ''field'') of
        Some f \<Rightarrow> Inr (FieldRefExpr f)
      | None \<Rightarrow>
          (case y_scalar (y_at kvs ''path'') of
             Some p \<Rightarrow> Inr (PathExpr p)
           | None \<Rightarrow> Inl (ErrorInfo Rule_ParseError
               (hint @ '': must have 'field' or 'path' key''))))"

definition build_comparison :: "yaml_conv \<Rightarrow> (string \<times> yaml) list \<Rightarrow> string \<Rightarrow> expr result" where
  "build_comparison cv kvs hint =
     and_then (comparison_lhs kvs hint) (\<lambda>lhs.
       if y_at kvs ''op'' = None \<and> y_at kvs ''value'' = None then Inr lhs
       else (case y_scalar (y_at kvs ''op'') of
          None \<Rightarrow> Inl (ErrorInfo Rule_ParseError (hint @ '': 'op' must be a string''))
        | Some op_str \<Rightarrow>
            (case parse_binary_op op_str of
               None \<Rightarrow> Inl (ErrorInfo Rule_ParseError (hint @ '': unknown operator '' @ [CHR 0x27] @ op_str @ [CHR 0x27]))
             | Some op \<Rightarrow>
                 and_then (build_literal cv (y_at kvs ''value'')) (\<lambda>v.
                   Inr (BinaryExpr op lhs (LiteralExpr v)
                     (source_text lhs @ '' '' @ op_str @ '' '' @ literal_source v))))))"


subsection \<open>Conditions\<close>

text \<open>
  The outcome of \<open>BuildExpressionFromYAML\<close>: an expression, a null pointer (for an absent
  or null node), an error, or \<open>NullOperand\<close>: an operator over a null operand, whose
  pointer is dereferenced by the builder itself (\<open>and\<close>, \<open>or\<close>) or by the first use of the
  expression (\<open>not\<close>), which has no defined behaviour. The last message is the ASCII part of
  the source's.
\<close>

datatype build_result = Built expr | NoExpr | BuildError error_info | NullOperand

definition of_result :: "expr result \<Rightarrow> build_result" where
  "of_result r = (case r of Inl err \<Rightarrow> BuildError err | Inr e \<Rightarrow> Built e)"

fun has_failed :: "build_result \<Rightarrow> bool" where
  "has_failed (BuildError err) = True"
| "has_failed _ = False"

definition junction_step :: "binary_op \<Rightarrow> string \<Rightarrow> build_result \<Rightarrow> build_result \<Rightarrow> build_result" where
  "junction_step b word left right =
     (case left of
        BuildError err \<Rightarrow> BuildError err
      | NullOperand \<Rightarrow> NullOperand
      | NoExpr \<Rightarrow> (case right of BuildError err \<Rightarrow> BuildError err | _ \<Rightarrow> NullOperand)
      | Built l \<Rightarrow>
          (case right of
             BuildError err \<Rightarrow> BuildError err
           | Built r \<Rightarrow>
               Built (BinaryExpr b l r
                 (''('' @ source_text l @ '' '' @ word @ '' '' @ source_text r @ '')''))
           | _ \<Rightarrow> NullOperand))"

definition build_not :: "build_result \<Rightarrow> build_result" where
  "build_not r =
     (case r of
        BuildError err \<Rightarrow> BuildError err
      | Built e \<Rightarrow> Built (UnaryExpr Not e ''not'')
      | _ \<Rightarrow> NullOperand)"

definition parse_failure :: "string \<Rightarrow> build_result" where
  "parse_failure msg = BuildError (ErrorInfo Rule_ParseError msg)"

definition junction_error :: "string \<Rightarrow> build_result" where
  "junction_error word = parse_failure ([CHR 0x27] @ word @ [CHR 0x27] @ '' must be a non-empty sequence'')"

function (sequential) build_expression :: "yaml_conv \<Rightarrow> yaml \<Rightarrow> build_result"
  and build_junction :: "yaml_conv \<Rightarrow> binary_op \<Rightarrow> string \<Rightarrow> yaml \<Rightarrow> build_result"
  and build_rest :: "yaml_conv \<Rightarrow> binary_op \<Rightarrow> string \<Rightarrow> build_result \<Rightarrow> yaml list \<Rightarrow> build_result" where
  "build_expression cv YNull = NoExpr"
| "build_expression cv (YScalar s) = of_result (map_sum id LiteralExpr (build_literal cv (Some (YScalar s))))"
| "build_expression cv (YSeq ys) = parse_failure ''condition must be a map or scalar''"
| "build_expression cv (YMap kvs) =
     (if y_at kvs ''field'' \<noteq> None \<or> y_at kvs ''path'' \<noteq> None then
        of_result (build_comparison cv kvs ''condition'')
      else case y_at kvs ''and'' of
        Some y \<Rightarrow> build_junction cv And ''and'' y
      | None \<Rightarrow> (case y_at kvs ''or'' of
        Some y \<Rightarrow> build_junction cv Or ''or'' y
      | None \<Rightarrow> (case y_at kvs ''not'' of
        Some y \<Rightarrow> build_not (build_expression cv y)
      | None \<Rightarrow> (case y_at kvs ''value'' of
        Some y \<Rightarrow> of_result (map_sum id LiteralExpr (build_literal cv (Some y)))
      | None \<Rightarrow> parse_failure ''unrecognized condition structure''))))"
| "build_junction cv b word (YSeq (y # ys)) = build_rest cv b word (build_expression cv y) ys"
| "build_junction cv b word y = junction_error word"
| "build_rest cv b word left [] = left"
| "build_rest cv b word left (y # ys) =
     (if has_failed left then left
      else build_rest cv b word (junction_step b word left (build_expression cv y)) ys)"
  by pat_completeness auto

termination
  by (relation "measure (\<lambda>x. case x of
        Inl (cv, y) \<Rightarrow> 2 * size y
      | Inr (Inl (cv, b, w, y)) \<Rightarrow> 2 * size y + 1
      | Inr (Inr (cv, b, w, l, ys)) \<Rightarrow> 2 * size_list size ys + 1)")
     (auto simp: y_at_def dest: size_y_at)


subsection \<open>Source texts\<close>

fun op_name :: "binary_op \<Rightarrow> string" where
  "op_name And = ''and''" | "op_name Or = ''or''" | "op_name Add = ''add''"
| "op_name Sub = ''sub''" | "op_name Mul = ''mul''" | "op_name Div = ''div''"
| "op_name Eq = ''eq''" | "op_name Neq = ''neq''" | "op_name Lt = ''lt''"
| "op_name Le = ''le''" | "op_name Gt = ''gt''" | "op_name Ge = ''ge''" | "op_name In = ''in''"

lemma parse_binary_op_iff: "parse_binary_op s = Some b \<longleftrightarrow> s = op_name b"
  by (cases b) (auto simp: parse_binary_op_def)

definition junction_text :: "binary_op \<Rightarrow> expr \<Rightarrow> expr \<Rightarrow> string" where
  "junction_text b l r = ''('' @ source_text l @ '' '' @ op_name b @ '' '' @ source_text r @ '')''"

fun canonical :: "expr \<Rightarrow> bool" where
  "canonical (BinaryExpr b l r s) \<longleftrightarrow> canonical l \<and> canonical r \<and>
     (s = source_text l @ '' '' @ op_name b @ '' '' @ source_text r \<or>
      (b = And \<or> b = Or) \<and> s = junction_text b l r)"
| "canonical (UnaryExpr u e s) \<longleftrightarrow> canonical e \<and> u = Not \<and> s = ''not''"
| "canonical (FunctionExpr f es s) \<longleftrightarrow> False"
| "canonical e \<longleftrightarrow> True"

lemma comparison_lhs_canonical: "comparison_lhs kvs hint = Inr e \<Longrightarrow> canonical e"
  by (auto simp: comparison_lhs_def split: option.splits)

lemma build_comparison_canonical: "build_comparison cv kvs hint = Inr e \<Longrightarrow> canonical e"
  by (auto simp: build_comparison_def and_then_Inr_iff parse_binary_op_iff
      dest: comparison_lhs_canonical split: if_splits option.splits)

lemma of_result_Built: "of_result r = Built e \<longleftrightarrow> r = Inr e"
  by (cases r) (simp_all add: of_result_def)

lemma map_sum_literal: "map_sum id LiteralExpr r = Inr e \<longleftrightarrow> (\<exists>v. r = Inr v \<and> e = LiteralExpr v)"
  by (cases r) auto

lemma junction_step_Built: "junction_step b (op_name b) l r = Built e \<longleftrightarrow>
    (\<exists>x y. l = Built x \<and> r = Built y \<and> e = BinaryExpr b x y (junction_text b x y))"
  by (auto simp: junction_step_def junction_text_def split: build_result.splits)

lemma build_not_Built: "build_not r = Built e \<longleftrightarrow> (\<exists>x. r = Built x \<and> e = UnaryExpr Not x ''not'')"
  by (auto simp: build_not_def split: build_result.splits)

lemma build_rest_lost:
  "build_rest cv b w left ys = Built e \<Longrightarrow> \<exists>x. left = Built x"
proof (induction ys arbitrary: left)
  case (Cons y ys)
  then show ?case
    by (cases left) (fastforce simp: junction_step_def split: build_result.splits)+
qed simp

definition join :: "binary_op \<Rightarrow> expr \<Rightarrow> expr \<Rightarrow> expr" where
  "join b l r = BinaryExpr b l r (junction_text b l r)"

lemma build_rest_Built:
  "build_rest cv b (op_name b) (Built l) ys = Built e \<longleftrightarrow>
   (\<exists>es. list_all2 (\<lambda>y x. build_expression cv y = Built x) ys es \<and> e = foldl (join b) l es)"
proof (induction ys arbitrary: l)
  case (Cons y ys)
  show ?case
  proof (cases "\<exists>x. build_expression cv y = Built x")
    case True
    then obtain x where x: "build_expression cv y = Built x" by blast
    then have step: "junction_step b (op_name b) (Built l) (Built x) = Built (join b l x)"
      by (simp add: junction_step_Built join_def)
    show ?thesis
      using x step Cons.IH [of "join b l x"] by (auto simp: list_all2_Cons1)
  next
    case False
    then have "\<nexists>x. junction_step b (op_name b) (Built l) (build_expression cv y) = Built x"
      by (simp add: junction_step_Built)
    with False show ?thesis
      by (auto simp: list_all2_Cons1 dest: build_rest_lost)
  qed
qed auto

lemma canonical_foldl_join:
  "b = And \<or> b = Or \<Longrightarrow> canonical l \<Longrightarrow> list_all canonical es \<Longrightarrow> canonical (foldl (join b) l es)"
  by (induction es arbitrary: l) (auto simp: join_def)

lemma build_junction_Built:
  "build_junction cv b (op_name b) y = Built e \<longleftrightarrow>
   (\<exists>z zs x xs. y = YSeq (z # zs) \<and> build_expression cv z = Built x \<and>
      list_all2 (\<lambda>y x. build_expression cv y = Built x) zs xs \<and> e = foldl (join b) x xs)"
proof (cases "\<exists>z zs. y = YSeq (z # zs)")
  case True
  then obtain z zs where y: "y = YSeq (z # zs)" by blast
  show ?thesis
    by (cases "build_expression cv z") (auto simp: y build_rest_Built dest: build_rest_lost)
next
  case False
  then have "build_junction cv b (op_name b) y = junction_error (op_name b)"
    by (cases "(cv, b, op_name b, y)" rule: build_junction.cases) auto
  with False show ?thesis by (auto simp: junction_error_def parse_failure_def)
qed


lemma canonical_join: "b = And \<or> b = Or \<Longrightarrow> canonical l \<Longrightarrow> canonical r \<Longrightarrow> canonical (join b l r)"
  by (auto simp: join_def)

lemma build_canonical:
  "build_expression cv y = Built e \<Longrightarrow> canonical e"
  "b = And \<or> b = Or \<Longrightarrow> w = op_name b \<Longrightarrow> build_junction cv b w y' = Built e \<Longrightarrow> canonical e"
  "b = And \<or> b = Or \<Longrightarrow> w = op_name b \<Longrightarrow> (\<And>x. left = Built x \<Longrightarrow> canonical x) \<Longrightarrow>
   build_rest cv b w left ys = Built e \<Longrightarrow> canonical e"
proof (induction cv y and cv b w y' and cv b w left ys arbitrary: e and e and e
    rule: build_expression_build_junction_build_rest.induct)
  case (4 cv kvs)
  let ?cmp = "y_at kvs ''field'' \<noteq> None \<or> y_at kvs ''path'' \<noteq> None"
  show ?case
  proof (cases ?cmp)
    case True
    then have "build_comparison cv kvs ''condition'' = Inr e"
      using "4.prems" by (simp add: of_result_Built)
    then show ?thesis by (rule build_comparison_canonical)
  next
    case no_cmp: False
    show ?thesis
    proof (cases "y_at kvs ''and''")
      case (Some y)
      then show ?thesis
        using no_cmp "4.prems" by (intro "4.IH"(3) [OF no_cmp Some]) simp_all
    next
      case no_and: None
      show ?thesis
      proof (cases "y_at kvs ''or''")
        case (Some y)
        then show ?thesis
          using no_cmp no_and "4.prems" by (intro "4.IH"(2) [OF no_cmp no_and Some]) simp_all
      next
        case no_or: None
        show ?thesis
        proof (cases "y_at kvs ''not''")
          case (Some y)
          then obtain x where "build_expression cv y = Built x" "e = UnaryExpr Not x ''not''"
            using no_cmp no_and no_or "4.prems" by (auto simp: build_not_Built)
          moreover from this(1) have "canonical x"
            by (rule "4.IH"(1) [OF no_cmp no_and no_or Some])
          ultimately show ?thesis by simp
        next
          case None
          then show ?thesis
            using no_cmp no_and no_or "4.prems"
            by (auto simp: of_result_Built map_sum_literal parse_failure_def split: option.splits)
        qed
      qed
    qed
  qed
next
  case (8 cv b word left y ys)
  show ?case
  proof (rule "8.IH"(2))
    show "\<not> has_failed left" using "8.prems" by (cases left) auto
    show "canonical x" if "junction_step b word left (build_expression cv y) = Built x" for x
      using that "8.prems"(1-3) "8.IH"(1)
      by (cases left) (auto simp: junction_step_Built join_def [symmetric] canonical_join)
    show "build_rest cv b word (junction_step b word left (build_expression cv y)) ys = Built e"
      using "8.prems" by (cases left) auto
  qed (use "8.prems" in auto)
qed (auto simp: of_result_Built map_sum_literal parse_failure_def junction_error_def)


subsection \<open>Meaning of the junctions\<close>

primrec conj_value :: "rvalue result list \<Rightarrow> rvalue result" where
  "conj_value [] = Inr (of_boolean True)"
| "conj_value (r # rs) =
     and_then r (\<lambda>v. if bool_or v False then conj_value rs else Inr (of_boolean False))"

primrec disj_value :: "rvalue result list \<Rightarrow> rvalue result" where
  "disj_value [] = Inr (of_boolean False)"
| "disj_value (r # rs) =
     and_then r (\<lambda>v. if bool_or v False then Inr (of_boolean True) else disj_value rs)"

lemma bool_or_of_boolean [simp]: "bool_or (of_boolean b) d = b"
  by (simp add: bool_or_def value_simps)

lemma peval_join_And: "peval fb (join And l r) =
    and_then (peval fb l) (\<lambda>v. if bool_or v False
      then and_then (peval fb r) (\<lambda>w. Inr (of_boolean (bool_or w False)))
      else Inr (of_boolean False))"
  by (cases "peval fb l") (auto simp: join_def pbinary_def)

lemma peval_join_Or: "peval fb (join Or l r) =
    and_then (peval fb l) (\<lambda>v. if bool_or v False then Inr (of_boolean True)
      else and_then (peval fb r) (\<lambda>w. Inr (of_boolean (bool_or w False))))"
  by (cases "peval fb l") (auto simp: join_def pbinary_def)

lemma conj_value_step: "conj_value (peval fb (join And l x) # rs) =
    conj_value (peval fb l # peval fb x # rs)"
  by (cases "peval fb l"; cases "peval fb x") (auto simp: peval_join_And)

lemma disj_value_step: "disj_value (peval fb (join Or l x) # rs) =
    disj_value (peval fb l # peval fb x # rs)"
  by (cases "peval fb l"; cases "peval fb x") (auto simp: peval_join_Or)

lemma peval_foldl_And:
  "es \<noteq> [] \<Longrightarrow> peval fb (foldl (join And) l es) = conj_value (map (peval fb) (l # es))"
proof (induction es arbitrary: l)
  case (Cons x es)
  show ?case
  proof (cases "es = []")
    case True
    then show ?thesis by (cases "peval fb l"; cases "peval fb x") (auto simp: peval_join_And)
  next
    case False
    then show ?thesis using Cons.IH [of "join And l x"] conj_value_step by simp
  qed
qed simp

lemma peval_foldl_Or:
  "es \<noteq> [] \<Longrightarrow> peval fb (foldl (join Or) l es) = disj_value (map (peval fb) (l # es))"
proof (induction es arbitrary: l)
  case (Cons x es)
  show ?case
  proof (cases "es = []")
    case True
    then show ?thesis by (cases "peval fb l"; cases "peval fb x") (auto simp: peval_join_Or)
  next
    case False
    then show ?thesis using Cons.IH [of "join Or l x"] disj_value_step by simp
  qed
qed simp

subsection \<open>Properties\<close>

text \<open>
  Every expression built from YAML carries the source texts the cache relies on: a
  comparison is \<open>lhs op literal\<close>, a junction \<open>(l op r)\<close>, a negation always \<open>not\<close>;
  no function call and no unary minus is ever built.
\<close>

theorem built_canonical:
  assumes "build_expression cv y = Built e"
  shows "canonical e"
  using assms by (rule build_canonical(1))

definition demo_conv :: yaml_conv where
  "demo_conv = \<lparr>as_double_text = (\<lambda>s. if s = ''0.5'' then Some (Fin False (1/2)) else None),
     as_int64_text = (\<lambda>s. if s = ''7'' then Some 7 else None)\<rparr>"

theorem built_canonical_witness:
  "\<exists>e. build_expression demo_conv (YMap [(''and'', YSeq [YMap [(''field'', YScalar ''a''),
      (''op'', YScalar ''eq''), (''value'', YScalar ''ok'')], YMap [(''not'', YScalar ''true'')]])]) =
      Built e \<and> canonical e"
proof -
  let ?y = "YMap [(''and'', YSeq [YMap [(''field'', YScalar ''a''),
      (''op'', YScalar ''eq''), (''value'', YScalar ''ok'')], YMap [(''not'', YScalar ''true'')]])]"
  have "\<exists>e. build_expression demo_conv ?y = Built e"
    by (simp add: y_at_def build_comparison_def comparison_lhs_def y_scalar_def parse_binary_op_def
        build_literal_def literal_value_def is_digit_or_minus_def of_result_def build_not_def
        junction_step_def)
  then obtain e where "build_expression demo_conv ?y = Built e" by (elim exE)
  with built_canonical [OF this] show ?thesis by (intro exI [of _ e] conjI)
qed

text \<open>
  Meaning of \<open>and\<close> and \<open>or\<close>: if every element of a sequence of at least two builds,
  the junction builds, and its value is the left-to-right short-circuit conjunction
  (disjunction) of the values of its elements; a failing element decides only if the
  ones before it have not.
\<close>

theorem junction_meaning:
  assumes "list_all2 (\<lambda>y e. build_expression cv y = Built e) ys es" "2 \<le> length ys"
  shows "\<exists>c d. build_expression cv (YMap [(''and'', YSeq ys)]) = Built c \<and>
     build_expression cv (YMap [(''or'', YSeq ys)]) = Built d \<and>
     (\<forall>fb. peval fb c = conj_value (map (peval fb) es) \<and> peval fb d = disj_value (map (peval fb) es))"
proof -
  obtain y ys' e es' where ys: "ys = y # ys'" "es = e # es'"
    and tl: "build_expression cv y = Built e" "list_all2 (\<lambda>y e. build_expression cv y = Built e) ys' es'"
    using assms by (cases ys; cases es) auto
  have ne: "es' \<noteq> []" using assms ys by (auto dest: list_all2_lengthD)
  have "build_rest cv b (op_name b) (Built e) ys' = Built (foldl (join b) e es')" for b
    using tl(2) by (auto simp: build_rest_Built)
  from this [of And] this [of Or] show ?thesis
    using tl(1) ne by (auto simp: ys y_at_def peval_foldl_And peval_foldl_Or)
qed

theorem junction_meaning_witness:
  "\<exists>c. build_expression demo_conv (YMap [(''and'', YSeq [YScalar ''true'', YScalar ''false''])]) = Built c \<and>
     peval empty_facts c = Inr (of_boolean False)"
  using junction_meaning [of demo_conv "[YScalar ''true'', YScalar ''false'']"
      "[LiteralExpr (of_boolean True), LiteralExpr (of_boolean False)]"]
  by (auto simp: of_result_def build_literal_def literal_value_def)

text \<open>
  All negations share one cache entry: after one built \<open>not\<close> has been evaluated, any
  other built \<open>not\<close> evaluated on the same fact base returns the first one's value without
  looking at its own operand.
\<close>

theorem not_conditions_share_cache:
  assumes "build_expression cv (YMap [(''not'', y1)]) = Built e1"
    and "build_expression cv (YMap [(''not'', y2)]) = Built e2"
    and "evaluate h e1 fb = (Inr v, fb1)"
  shows "evaluate h e2 fb1 = (Inr v, fb1)"
proof -
  obtain x1 x2 where e: "e1 = UnaryExpr Not x1 ''not''" "e2 = UnaryExpr Not x2 ''not''"
    using assms(1,2) by (auto simp: y_at_def build_not_Built)
  have "fb_get fb1 (memo_key h ''not'') = Some v"
    using assms(3) e(1) by (auto simp: eval_with_memo_def split: option.splits prod.splits sum.splits)
  then show ?thesis using e(2) by (simp add: eval_with_memo_def)
qed

theorem not_conditions_share_cache_witness:
  "\<exists>e fb1. build_expression demo_conv (YMap [(''not'', YScalar ''false'')]) = Built e \<and>
     peval fb1 e = Inr (of_boolean True) \<and> fst (evaluate length e fb1) = Inr (of_boolean False)"
proof -
  let ?e1 = "UnaryExpr Not (LiteralExpr (of_boolean True)) ''not''"
  let ?e2 = "UnaryExpr Not (LiteralExpr (of_boolean False)) ''not''"
  have b: "build_expression demo_conv (YMap [(''not'', YScalar ''true'')]) = Built ?e1"
    "build_expression demo_conv (YMap [(''not'', YScalar ''false'')]) = Built ?e2"
    by (simp_all add: y_at_def of_result_def build_literal_def literal_value_def build_not_def)
  obtain fb1 where "evaluate length ?e1 empty_facts = (Inr (of_boolean False), fb1)"
    by (simp add: eval_with_memo_def eval_unary_def apply_unary_def value_simps)
  from not_conditions_share_cache [OF b this]
  have "fst (evaluate length ?e2 fb1) = Inr (of_boolean False)" by simp
  moreover have "peval fb1 ?e2 = Inr (of_boolean True)"
    by (simp add: apply_unary_def value_simps)
  ultimately show ?thesis using b(2) by (intro exI [of _ ?e2] exI [of _ fb1] conjI)
qed

end
