(* ===== verification/Conflict_Resolver.thy ===== *)
theory Conflict_Resolver
  imports Condition_Builder "HOL-Library.Word"
begin

text \<open>
  The data of the rule engine (\<open>include/sai/rule/rule_engine.h\<close>) and the elimination of
  overridden rules (\<open>src/rule/conflict_resolver.cpp\<close>): the override graph among matched
  rules, its depth-first colouring, and the rewriting of the \<open>matched\<close> flags. The
  recursion of \<open>dfs_visit\<close> carries fuel; \<open>dfs_total\<close> shows that one unit per matched rule
  suffices.
\<close>

subsection \<open>Rules and their results\<close>

record rule_action =
  label :: string
  base_severity :: dbl
  recommendation :: string

datatype trace_level = Expression | Rule | TreeBranch | Scoring

record trace_step =
  ts_id :: string
  ts_level :: trace_level
  ts_description :: string
  ts_source_location :: string
  ts_timestamp :: int
  ts_parent_id :: "string option"

record rule =
  rule_name :: string
  priority :: "32 word"
  rule_set :: string
  overrides :: "string list"
  overridden_by :: "string list"
  condition :: "expr option"
  action :: rule_action

record resolved_rule =
  res_name :: string
  matched :: bool
  res_action :: rule_action
  eval_trace :: "trace_step list"

type_synonym rule_sets = "(string, rule list) smap"

subsection \<open>The override graph\<close>

type_synonym graph = "(string, string list) smap"

definition originals :: "rule_sets \<Rightarrow> (string, rule) smap" where
  "originals sets =
     fold (\<lambda>(set_name, rules). fold (\<lambda>r. sm_put (rule_name r) r) rules) sets []"

definition matched_index :: "resolved_rule list \<Rightarrow> (string, nat) smap" where
  "matched_index ev =
     fold (\<lambda>(i, r). if matched r then sm_put (res_name r) i else id) (enumerate 0 ev) []"

definition edges_of :: "graph \<Rightarrow> string \<Rightarrow> string list" where
  "edges_of g a = (case sm_get g a of None \<Rightarrow> [] | Some bs \<Rightarrow> bs)"

definition add_edge :: "string \<Rightarrow> string \<Rightarrow> graph \<Rightarrow> graph" where
  "add_edge a b g = sm_put a (edges_of g a @ [b]) g"

definition rule_edges :: "(string, nat) smap \<Rightarrow> string \<Rightarrow> rule \<Rightarrow> graph \<Rightarrow> graph" where
  "rule_edges idx name r g =
     (let g1 = fold (\<lambda>t g. if sm_has idx t then add_edge name t g else g) (overrides r) g
      in fold (\<lambda>t g. if sm_has idx t then add_edge t name g else g) (overridden_by r) g1)"

definition override_graph :: "(string, rule) smap \<Rightarrow> (string, nat) smap \<Rightarrow> graph" where
  "override_graph orig idx =
     fold (\<lambda>(name, i) g. case sm_get orig name of None \<Rightarrow> g | Some r \<Rightarrow> rule_edges idx name r g)
       idx []"

subsection \<open>Cycle detection\<close>

datatype colour = White | Gray | Black

type_synonym colours = "(string, colour) smap"

definition colour_of :: "colours \<Rightarrow> string \<Rightarrow> colour" where
  "colour_of c x = (case sm_get c x of None \<Rightarrow> White | Some k \<Rightarrow> k)"

fun dfs_visit :: "nat \<Rightarrow> graph \<Rightarrow> string \<Rightarrow> colours \<Rightarrow> (bool \<times> colours) option"
  and dfs_neighbors :: "nat \<Rightarrow> graph \<Rightarrow> string list \<Rightarrow> colours \<Rightarrow> (bool \<times> colours) option" where
  "dfs_visit 0 g node c = None"
| "dfs_visit (Suc n) g node c =
     (case dfs_neighbors n g (edges_of g node) (sm_put node Gray c) of
        None \<Rightarrow> None
      | Some (True, c') \<Rightarrow> Some (True, c')
      | Some (False, c') \<Rightarrow> Some (False, sm_put node Black c'))"
| "dfs_neighbors n g [] c = Some (False, c)"
| "dfs_neighbors n g (x # xs) c =
     (if colour_of c x = Gray then Some (True, c)
      else if colour_of c x = White then
        (case dfs_visit n g x c of
           None \<Rightarrow> None
         | Some (True, c') \<Rightarrow> Some (True, c')
         | Some (False, c') \<Rightarrow> dfs_neighbors n g xs c')
      else dfs_neighbors n g xs c)"

fun dfs_roots :: "nat \<Rightarrow> graph \<Rightarrow> string list \<Rightarrow> colours \<Rightarrow> (bool \<times> colours) option" where
  "dfs_roots n g [] c = Some (False, c)"
| "dfs_roots n g (x # xs) c =
     (if colour_of c x = White then
        (case dfs_visit n g x c of
           None \<Rightarrow> None
         | Some (True, c') \<Rightarrow> Some (True, c')
         | Some (False, c') \<Rightarrow> dfs_roots n g xs c')
      else dfs_roots n g xs c)"

text \<open>The gray nodes joined for the message, by an arrow between spaces (its three bytes in UTF-8).\<close>

definition arrow :: string where
  "arrow = [CHR '' '', CHR 0xE2, CHR 0x86, CHR 0x92, CHR '' '']"

definition join_names :: "string list \<Rightarrow> string" where
  "join_names ns = fold (\<lambda>n info. if info = [] then n else info @ arrow @ n) ns []"

definition cycle_error :: "colours \<Rightarrow> error_info" where
  "cycle_error c = ErrorInfo Rule_CyclicOverride
     (''override cycle detected among: '' @
      join_names (map fst (filter (\<lambda>(x, k). k = Gray) c)))"

subsection \<open>Elimination\<close>

definition is_overridden :: "graph \<Rightarrow> (string, nat) smap \<Rightarrow> string \<Rightarrow> bool" where
  "is_overridden g idx name \<longleftrightarrow>
     list_ex (\<lambda>(other, i). other \<noteq> name \<and> List.member (edges_of g other) name) idx"

definition eliminate :: "graph \<Rightarrow> (string, nat) smap \<Rightarrow> resolved_rule list \<Rightarrow> resolved_rule list" where
  "eliminate g idx ev =
     fold (\<lambda>(name, i) ev. if is_overridden g idx name then ev[i := (ev ! i)\<lparr>matched := False\<rparr>] else ev)
       idx ev"

definition resolve_override_conflicts :: "rule_sets \<Rightarrow> resolved_rule list \<Rightarrow>
    resolved_rule list result option" where
  "resolve_override_conflicts sets ev =
     (let idx = matched_index ev;
          g = override_graph (originals sets) idx;
          names = map fst idx
      in case dfs_roots (length names) g names (map (\<lambda>x. (x, White)) names) of
           Some (False, c) \<Rightarrow> Some (Inr (eliminate g idx ev))
         | Some (True, c) \<Rightarrow> Some (Inl (cycle_error c))
         | None \<Rightarrow> None)"


subsection \<open>The depth-first search decides cyclicity\<close>

definition edge_rel :: "graph \<Rightarrow> (string \<times> string) set" where
  "edge_rel g = {(a, b). b \<in> set (edges_of g a)}"

definition blacks :: "colours \<Rightarrow> string set" where
  "blacks c = {x. colour_of c x = Black}"

definition grays :: "colours \<Rightarrow> string set" where
  "grays c = {x. colour_of c x = Gray}"

definition finished :: "graph \<Rightarrow> colours \<Rightarrow> bool" where
  "finished g c \<longleftrightarrow> edge_rel g `` blacks c \<subseteq> blacks c \<and> acyclic (edge_rel g \<inter> blacks c \<times> blacks c)"

lemma colour_of_put [simp]: "colour_of (sm_put x k c) y = (if y = x then k else colour_of c y)"
  by (simp add: colour_of_def)

lemma blacks_gray [simp]: "colour_of c x \<noteq> Black \<Longrightarrow> blacks (sm_put x Gray c) = blacks c"
  by (auto simp: blacks_def)

lemma grays_gray [simp]: "grays (sm_put x Gray c) = insert x (grays c)"
  by (auto simp: grays_def)

lemma acyclic_insert_sink:
  assumes "acyclic (E \<inter> B \<times> B)" "E `` B \<subseteq> B" "x \<notin> B" "E `` {x} \<subseteq> B"
  shows "acyclic (E \<inter> insert x B \<times> insert x B)"
proof (rule acyclicI, intro allI)
  let ?R = "E \<inter> insert x B \<times> insert x B"
  have into: "b \<in> B" if "(a, b) \<in> ?R\<^sup>+" for a b
    using that assms(2-4) by (induction rule: trancl_induct) auto
  have stay: "(a, b) \<in> (E \<inter> B \<times> B)\<^sup>+" if "(a, b) \<in> ?R\<^sup>+" "a \<in> B" for a b
    using that
  proof (induction rule: trancl_induct)
    case (base y)
    then have "(a, y) \<in> E \<inter> B \<times> B" using assms(2) by auto
    then show ?case by (rule r_into_trancl)
  next
    case (step y z)
    have "y \<in> B" using into step.hyps(1) by blast
    then have "(y, z) \<in> E \<inter> B \<times> B" using step.hyps(2) assms(2) by auto
    with step show ?case by (meson trancl_into_trancl)
  qed
  fix a show "(a, a) \<notin> ?R\<^sup>+"
    using into stay assms(1) unfolding acyclic_def by blast
qed

lemma finished_put_black:
  assumes "finished g c" "colour_of c x \<noteq> Black" "set (edges_of g x) \<subseteq> blacks c"
  shows "finished g (sm_put x Black c)"
proof -
  have "blacks (sm_put x Black c) = insert x (blacks c)" by (auto simp: blacks_def)
  moreover have "edge_rel g `` {x} \<subseteq> blacks c" using assms(3) by (auto simp: edge_rel_def)
  moreover have "x \<notin> blacks c" using assms(2) by (simp add: blacks_def)
  ultimately show ?thesis
    using assms(1) acyclic_insert_sink [of "edge_rel g" "blacks c" x]
    unfolding finished_def by auto
qed

lemma dfs_correct:
  "dfs_visit n g x c = Some (b, c') \<Longrightarrow> colour_of c x = White \<Longrightarrow> finished g c \<Longrightarrow>
   \<forall>y \<in> grays c. (y, x) \<in> (edge_rel g)\<^sup>* \<Longrightarrow>
   (if b then \<not> acyclic (edge_rel g)
    else finished g c' \<and> grays c' = grays c \<and> blacks c \<subseteq> blacks c' \<and> x \<in> blacks c')"
  "dfs_neighbors n g xs c = Some (b, c') \<Longrightarrow> finished g c \<Longrightarrow> p \<in> grays c \<Longrightarrow>
   set xs \<subseteq> set (edges_of g p) \<Longrightarrow> \<forall>y \<in> grays c. (y, p) \<in> (edge_rel g)\<^sup>* \<Longrightarrow>
   (if b then \<not> acyclic (edge_rel g)
    else finished g c' \<and> grays c' = grays c \<and> blacks c \<subseteq> blacks c' \<and> set xs \<subseteq> blacks c')"
proof (induction n g x c and n g xs c arbitrary: b c' and b c' p
    rule: dfs_visit_dfs_neighbors.induct)
  case (2 n g node c)
  let ?c = "sm_put node Gray c"
  obtain b1 c1 where nb: "dfs_neighbors n g (edges_of g node) ?c = Some (b1, c1)"
    using "2.prems"(1) by (auto split: option.splits)
  have fin: "finished g ?c" using "2.prems"(2,3) by (simp add: finished_def)
  have gr: "\<forall>y \<in> grays ?c. (y, node) \<in> (edge_rel g)\<^sup>*" using "2.prems"(4) by simp
  have IH: "if b1 then \<not> acyclic (edge_rel g)
    else finished g c1 \<and> grays c1 = grays ?c \<and> blacks ?c \<subseteq> blacks c1 \<and>
      set (edges_of g node) \<subseteq> blacks c1"
    by (rule "2.IH" [OF nb fin _ _ gr]) simp_all
  show ?case
  proof (cases b1)
    case True
    then show ?thesis using IH nb "2.prems"(1) by simp
  next
    case False
    then have c': "b = False" "c' = sm_put node Black c1" using nb "2.prems"(1) by auto
    have g1: "colour_of c1 node = Gray" using IH False by (auto simp: grays_def set_eq_iff)
    have "finished g c'" using IH False g1 c' by (auto intro: finished_put_black)
    moreover have "grays c' = grays c"
      using IH False "2.prems"(2) by (auto simp: c' grays_def set_eq_iff)
    moreover have "blacks c \<subseteq> blacks c'" "node \<in> blacks c'"
      using IH False "2.prems"(2) by (auto simp: c' blacks_def subset_iff)
    ultimately show ?thesis using c' by simp
  qed
next
  case (4 n g x xs c)
  have px: "(p, x) \<in> edge_rel g" using "4.prems"(4) by (auto simp: edge_rel_def)
  show ?case
  proof (cases "colour_of c x")
    case Gray
    then have "(x, p) \<in> (edge_rel g)\<^sup>*" using "4.prems"(5) by (simp add: grays_def)
    with px have "(p, p) \<in> (edge_rel g)\<^sup>+" by (rule rtrancl_into_trancl2)
    then show ?thesis using Gray "4.prems"(1) by (auto simp: acyclic_def)
  next
    case Black
    then show ?thesis using "4.IH"(3) [of b c' p] "4.prems" by (auto simp: blacks_def split: if_splits)
  next
    case White
    obtain b1 c1 where v: "dfs_visit n g x c = Some (b1, c1)"
      using "4.prems"(1) White by (auto split: option.splits)
    have "\<forall>y \<in> grays c. (y, x) \<in> (edge_rel g)\<^sup>*" using "4.prems"(5) px by (meson rtrancl.rtrancl_into_rtrancl)
    then have IH: "if b1 then \<not> acyclic (edge_rel g)
        else finished g c1 \<and> grays c1 = grays c \<and> blacks c \<subseteq> blacks c1 \<and> x \<in> blacks c1"
      using "4.IH"(1) [OF _ _ v White "4.prems"(2)] White by simp
    show ?thesis
    proof (cases b1)
      case True
      then show ?thesis using IH White v "4.prems"(1) by auto
    next
      case False
      then have "dfs_neighbors n g xs c1 = Some (b, c')" using White v "4.prems"(1) by simp
      then have "if b then \<not> acyclic (edge_rel g)
        else finished g c' \<and> grays c' = grays c1 \<and> blacks c1 \<subseteq> blacks c' \<and> set xs \<subseteq> blacks c'"
        using "4.IH"(2) [of "(b1, c1)" b1 c1 b c' p] v False White IH "4.prems" by simp
      then show ?thesis using IH False by (auto split: if_splits)
    qed
  qed
qed auto


lemma dfs_roots_correct:
  "dfs_roots n g xs c = Some (b, c') \<Longrightarrow> finished g c \<Longrightarrow> grays c = {} \<Longrightarrow>
   (if b then \<not> acyclic (edge_rel g)
    else finished g c' \<and> blacks c \<subseteq> blacks c' \<and> set xs \<subseteq> blacks c')"
proof (induction n g xs c rule: dfs_roots.induct)
  case (2 n g x xs c)
  show ?case
  proof (cases "colour_of c x = White")
    case True
    obtain b1 c1 where v: "dfs_visit n g x c = Some (b1, c1)"
      using "2.prems"(1) True by (auto split: option.splits)
    have IH: "if b1 then \<not> acyclic (edge_rel g)
        else finished g c1 \<and> grays c1 = grays c \<and> blacks c \<subseteq> blacks c1 \<and> x \<in> blacks c1"
      using dfs_correct(1) [OF v True "2.prems"(2)] "2.prems"(3) by simp
    show ?thesis
    proof (cases b1)
      case True
      then show ?thesis using IH v "2.prems"(1) \<open>colour_of c x = White\<close> by auto
    next
      case False
      then have r: "dfs_roots n g xs c1 = Some (b, c')" using v "2.prems"(1) True by simp
      have "if b then \<not> acyclic (edge_rel g)
          else finished g c' \<and> blacks c1 \<subseteq> blacks c' \<and> set xs \<subseteq> blacks c'"
        using "2.IH"(1) [of "(b1, c1)" b1 c1] r v False True IH "2.prems"(3) by simp
      then show ?thesis using IH False by (auto split: if_splits)
    qed
  next
    case False
    then have "x \<in> blacks c" using "2.prems"(3) by (cases "colour_of c x") (auto simp: grays_def blacks_def)
    then show ?thesis using False "2.IH"(2) "2.prems" by (auto split: if_splits)
  qed
qed auto

subsection \<open>One unit of fuel per matched rule suffices\<close>

definition whites :: "string set \<Rightarrow> colours \<Rightarrow> nat" where
  "whites V c = card {x \<in> V. colour_of c x = White}"

lemma whites_mono: "finite V \<Longrightarrow> (\<And>x. colour_of c' x = White \<Longrightarrow> colour_of c x = White) \<Longrightarrow>
    whites V c' \<le> whites V c"
  unfolding whites_def by (rule card_mono) auto

lemma whites_mark: "finite V \<Longrightarrow> x \<in> V \<Longrightarrow> colour_of c x = White \<Longrightarrow>
    Suc (whites V (sm_put x Gray c)) = whites V c"
proof -
  assume V: "finite V" "x \<in> V" "colour_of c x = White"
  have "{y \<in> V. colour_of c y = White} = insert x {y \<in> V. colour_of (sm_put x Gray c) y = White}"
    using V by auto
  then show ?thesis using V(1) unfolding whites_def by simp
qed

lemma dfs_enough_fuel:
  "finite V \<Longrightarrow> edge_rel g \<subseteq> V \<times> V \<Longrightarrow> x \<in> V \<Longrightarrow> colour_of c x = White \<Longrightarrow> whites V c \<le> n \<Longrightarrow>
   (\<exists>b c'. dfs_visit n g x c = Some (b, c') \<and>
     (\<forall>y. colour_of c' y = White \<longrightarrow> colour_of c y = White))"
  "finite V \<Longrightarrow> edge_rel g \<subseteq> V \<times> V \<Longrightarrow> set xs \<subseteq> V \<Longrightarrow> whites V c \<le> n \<Longrightarrow>
   (\<exists>b c'. dfs_neighbors n g xs c = Some (b, c') \<and>
     (\<forall>y. colour_of c' y = White \<longrightarrow> colour_of c y = White))"
proof (induction n g x c and n g xs c rule: dfs_visit_dfs_neighbors.induct)
  case (1 g node c)
  then show ?case using whites_mark [of V node c] by simp
next
  case (2 n g node c)
  have "set (edges_of g node) \<subseteq> V" using "2.prems"(2) by (auto simp: edge_rel_def)
  moreover have "whites V (sm_put node Gray c) \<le> n" using whites_mark "2.prems" by fastforce
  ultimately obtain b c1 where nb: "dfs_neighbors n g (edges_of g node) (sm_put node Gray c) = Some (b, c1)"
    and w: "\<forall>y. colour_of c1 y = White \<longrightarrow> colour_of (sm_put node Gray c) y = White"
    using "2.IH" "2.prems"(1,2) by blast
  from w have "\<forall>y. colour_of c1 y = White \<longrightarrow> colour_of c y = White"
    by (metis colour_of_put colour.distinct(1))
  with nb show ?case by (cases b) auto
next
  case (4 n g x xs c)
  show ?case
  proof (cases "colour_of c x")
    case White
    then obtain b c1 where v: "dfs_visit n g x c = Some (b, c1)"
      and w: "\<forall>y. colour_of c1 y = White \<longrightarrow> colour_of c y = White"
      using "4.IH"(1) "4.prems" by auto
    show ?thesis
    proof (cases b)
      case True
      then show ?thesis using v w White by auto
    next
      case False
      have "whites V c1 \<le> n" using whites_mono [of V c1 c] w "4.prems"(1,4) by fastforce
      then have "\<exists>b c'. dfs_neighbors n g xs c1 = Some (b, c') \<and>
          (\<forall>y. colour_of c' y = White \<longrightarrow> colour_of c1 y = White)"
        using "4.IH"(2) [of "(b, c1)" b c1] v False White "4.prems" by simp
      then show ?thesis using v w False White by auto
    qed
  qed (use "4.IH"(3) "4.prems" in auto)
qed auto

lemma dfs_roots_enough_fuel:
  "finite V \<Longrightarrow> edge_rel g \<subseteq> V \<times> V \<Longrightarrow> set xs \<subseteq> V \<Longrightarrow> whites V c \<le> n \<Longrightarrow> \<exists>r. dfs_roots n g xs c = Some r"
proof (induction n g xs c rule: dfs_roots.induct)
  case (2 n g x xs c)
  show ?case
  proof (cases "colour_of c x = White")
    case True
    then obtain b c1 where v: "dfs_visit n g x c = Some (b, c1)"
      and w: "\<forall>y. colour_of c1 y = White \<longrightarrow> colour_of c y = White"
      using dfs_enough_fuel(1) [of V g x c n] "2.prems" by auto
    have "whites V c1 \<le> n" using whites_mono [of V c1 c] w "2.prems"(1,4) by fastforce
    then show ?thesis
      using "2.IH"(1) [of "(b, c1)" b c1] v True "2.prems" by (cases b) auto
  qed (use "2.IH"(2) "2.prems" in auto)
qed auto


subsection \<open>What the graph and the elimination contain\<close>

lemma matched_index_snoc: "matched_index (ev @ [r]) =
    (if matched r then sm_put (res_name r) (length ev) (matched_index ev) else matched_index ev)"
  by (simp add: matched_index_def enumerate_append_eq)

definition last_match :: "resolved_rule list \<Rightarrow> nat \<Rightarrow> bool" where
  "last_match ev i \<longleftrightarrow> i < length ev \<and> matched (ev ! i) \<and>
     (\<forall>j < length ev. i < j \<and> matched (ev ! j) \<longrightarrow> res_name (ev ! j) \<noteq> res_name (ev ! i))"

lemma last_match_snoc: "last_match (ev @ [r]) i \<longleftrightarrow>
    i = length ev \<and> matched r \<or>
    last_match ev i \<and> (matched r \<longrightarrow> res_name r \<noteq> res_name (ev ! i))"
proof (cases "i < length ev")
  case True
  have "last_match (ev @ [r]) i \<longleftrightarrow> matched (ev ! i) \<and>
      (\<forall>j < Suc (length ev). i < j \<and> matched ((ev @ [r]) ! j) \<longrightarrow>
         res_name ((ev @ [r]) ! j) \<noteq> res_name (ev ! i))"
    using True by (simp add: last_match_def nth_append_left)
  also have "\<dots> \<longleftrightarrow> last_match ev i \<and> (matched r \<longrightarrow> res_name r \<noteq> res_name (ev ! i))"
    using True by (simp add: last_match_def All_less_Suc nth_append_left conj_ac)
  finally show ?thesis using True by simp
next
  case False
  then show ?thesis by (cases "i = length ev") (simp_all add: last_match_def)
qed

lemma matched_index_get:
  "sm_get (matched_index ev) n = Some i \<longleftrightarrow> last_match ev i \<and> res_name (ev ! i) = n"
proof (induction ev arbitrary: i rule: rev_induct)
  case Nil
  then show ?case by (simp add: matched_index_def last_match_def)
next
  case (snoc r ev)
  have old: "(ev @ [r]) ! i = ev ! i" "i \<noteq> length ev" if "last_match ev i"
    using that by (simp_all add: last_match_def nth_append_left)
  show ?case
  proof (cases "matched r")
    case True
    then show ?thesis
      using old by (auto simp: matched_index_snoc last_match_snoc snoc.IH)
  next
    case False
    then show ?thesis using old by (auto simp: matched_index_snoc last_match_snoc snoc.IH)
  qed
qed

lemma matched_index_wf: "sm_wf (matched_index ev)"
proof (induction ev rule: rev_induct)
  case Nil
  then show ?case by (simp add: matched_index_def)
next
  case (snoc r ev)
  then show ?case by (simp add: matched_index_snoc sm_wf_put)
qed

definition matched_names :: "resolved_rule list \<Rightarrow> string set" where
  "matched_names ev = res_name ` {r \<in> set ev. matched r}"

lemma matched_index_has: "sm_has (matched_index ev) n \<longleftrightarrow> n \<in> matched_names ev"
proof (induction ev rule: rev_induct)
  case Nil
  then show ?case by (simp add: matched_index_def matched_names_def sm_has_iff)
next
  case (snoc r ev)
  then show ?case by (auto simp: matched_index_snoc matched_names_def sm_has_iff)
qed

lemma matched_index_keys: "set (map fst (matched_index ev)) = matched_names ev"
  using dom_sm_get [of "matched_index ev"] matched_index_has [of ev]
  by (auto simp: sm_has_iff)

text \<open>\<open>(a, b)\<close>: both matched, and \<open>a\<close> overrides \<open>b\<close> by either declaration.\<close>

definition beats :: "rule_sets \<Rightarrow> resolved_rule list \<Rightarrow> (string \<times> string) set" where
  "beats sets ev = {(a, b). a \<in> matched_names ev \<and> b \<in> matched_names ev \<and>
     ((\<exists>r. sm_get (originals sets) a = Some r \<and> b \<in> set (overrides r)) \<or>
      (\<exists>r. sm_get (originals sets) b = Some r \<and> a \<in> set (overridden_by r)))}"

lemma edge_rel_add [simp]: "edge_rel (add_edge a b g) = insert (a, b) (edge_rel g)"
  by (auto simp: edge_rel_def add_edge_def edges_of_def split: option.splits if_splits)

lemma edge_rel_fold_out: "edge_rel (fold (\<lambda>t g. if P t then add_edge n t g else g) ts g) =
    edge_rel g \<union> {(n, t) | t. t \<in> set ts \<and> P t}"
  by (induction ts arbitrary: g) auto

lemma edge_rel_fold_in: "edge_rel (fold (\<lambda>t g. if P t then add_edge t n g else g) ts g) =
    edge_rel g \<union> {(t, n) | t. t \<in> set ts \<and> P t}"
  by (induction ts arbitrary: g) auto

lemma edge_rel_rule: "edge_rel (rule_edges idx n r g) = edge_rel g \<union>
    {(n, t) | t. t \<in> set (overrides r) \<and> sm_has idx t} \<union>
    {(t, n) | t. t \<in> set (overridden_by r) \<and> sm_has idx t}"
  by (simp add: rule_edges_def edge_rel_fold_out edge_rel_fold_in Let_def)

lemma edge_rel_graph_fold:
  "edge_rel (fold (\<lambda>(n, i) g. case sm_get orig n of None \<Rightarrow> g | Some r \<Rightarrow> rule_edges idx n r g) l g) =
   edge_rel g \<union> {(a, b). sm_has idx b \<and> a \<in> fst ` set l \<and> (\<exists>r. sm_get orig a = Some r \<and> b \<in> set (overrides r))}
     \<union> {(a, b). sm_has idx a \<and> b \<in> fst ` set l \<and> (\<exists>r. sm_get orig b = Some r \<and> a \<in> set (overridden_by r))}"
proof (induction l arbitrary: g)
  case (Cons e l)
  obtain n i where e: "e = (n, i)" by (cases e)
  show ?case
    by (cases "sm_get orig n") (auto simp: e Cons.IH edge_rel_rule)
qed simp

lemma edge_rel_override_graph:
  "edge_rel (override_graph (originals sets) (matched_index ev)) = beats sets ev"
  unfolding override_graph_def edge_rel_graph_fold beats_def
  using matched_index_keys [of ev]
  by (auto simp: matched_index_has edge_rel_def edges_of_def)

lemma eliminate_fold:
  "\<forall>(n, i) \<in> set l. i < length ev \<Longrightarrow>
   length (fold (\<lambda>(n, i) ev. if P n then ev[i := (ev ! i)\<lparr>matched := False\<rparr>] else ev) l ev) = length ev \<and>
   (\<forall>i < length ev.
     fold (\<lambda>(n, i) ev. if P n then ev[i := (ev ! i)\<lparr>matched := False\<rparr>] else ev) l ev ! i =
     (if \<exists>n. (n, i) \<in> set l \<and> P n then (ev ! i)\<lparr>matched := False\<rparr> else ev ! i))"
proof (induction l arbitrary: ev)
  case (Cons e l)
  obtain n i where e: "e = (n, i)" by (cases e)
  show ?case
    using Cons.prems Cons.IH [of "if P n then ev[i := (ev ! i)\<lparr>matched := False\<rparr>] else ev"]
    by (auto simp: e nth_list_update)
qed simp

definition survivors :: "rule_sets \<Rightarrow> resolved_rule list \<Rightarrow> resolved_rule list" where
  "survivors sets ev =
     map (\<lambda>i. if last_match ev i \<and> res_name (ev ! i) \<in> Range (beats sets ev)
              then (ev ! i)\<lparr>matched := False\<rparr> else ev ! i) [0..<length ev]"

lemma colour_of_start: "colour_of (map (\<lambda>x. (x, White)) names) y = White"
  by (induction names) (auto simp: colour_of_def split: option.splits)

lemma finished_start: "finished g (map (\<lambda>x. (x, White)) names)"
  by (simp add: finished_def blacks_def colour_of_start acyclic_def)

lemma beats_field: "beats sets ev \<subseteq> matched_names ev \<times> matched_names ev"
  by (auto simp: beats_def)

lemma finite_matched_names [simp]: "finite (matched_names ev)"
  by (simp add: matched_names_def)

lemma eliminate_survivors:
  assumes "acyclic (beats sets ev)"
  shows "eliminate (override_graph (originals sets) (matched_index ev)) (matched_index ev) ev =
    survivors sets ev"
proof -
  let ?idx = "matched_index ev" and ?g = "override_graph (originals sets) (matched_index ev)"
  have mem: "(n, i) \<in> set ?idx \<longleftrightarrow> last_match ev i \<and> res_name (ev ! i) = n" for n i
    using matched_index_get [of ev n i] sm_wf_distinct [OF matched_index_wf, of ev]
    by (simp add: sm_get_def map_of_eq_Some_iff)
  have noself: "(n, n) \<notin> beats sets ev" for n
    using assms unfolding acyclic_def by (meson r_into_trancl)
  have edge: "a \<in> matched_names ev \<and> a \<noteq> n" if "(a, n) \<in> beats sets ev" for a n
    using that noself by (auto simp: beats_def)
  have over: "is_overridden ?g ?idx n \<longleftrightarrow> n \<in> Range (beats sets ev)" for n
  proof -
    have "is_overridden ?g ?idx n \<longleftrightarrow> (\<exists>e \<in> set ?idx. fst e \<noteq> n \<and> (fst e, n) \<in> edge_rel ?g)"
      unfolding is_overridden_def list_ex_iff edge_rel_def by (simp add: case_prod_beta)
    also have "\<dots> \<longleftrightarrow> (\<exists>a \<in> set (map fst ?idx). a \<noteq> n \<and> (a, n) \<in> edge_rel ?g)"
      by simp
    also have "\<dots> \<longleftrightarrow> n \<in> Range (beats sets ev)"
      unfolding matched_index_keys edge_rel_override_graph Range_iff using edge by metis
    finally show ?thesis .
  qed
  have bound: "\<forall>(n, i) \<in> set ?idx. i < length ev" by (auto simp: mem last_match_def)
  show ?thesis
    unfolding eliminate_def survivors_def
    using eliminate_fold [OF bound, of "is_overridden ?g ?idx"]
    by (intro nth_equalityI) (simp_all add: mem over)
qed

subsection \<open>Properties\<close>

text \<open>Of several matched results with one name only the last can lose its flag.\<close>

lemma earlier_duplicate_survives:
  assumes "i < j" "j < length ev" "matched (ev ! i)" "matched (ev ! j)" "res_name (ev ! i) = res_name (ev ! j)"
  shows "survivors sets ev ! i = ev ! i"
  using assms by (auto simp: survivors_def last_match_def)

text \<open>
  C2 Conflict resolution, complete behaviour: it always returns; it reports
  \<open>Rule_CyclicOverride\<close> exactly when the override relation among the names of the matched
  rules has a cycle; otherwise, for every matched name that another matched name overrides,
  it clears the flag of the last matched result of that name, and changes nothing else. Of
  several matched results with one name the earlier ones keep their flags, against the
  post-condition of the header (\<open>earlier_duplicate_survives\<close>).
\<close>

theorem resolve_conflicts_spec:
  "\<exists>c. resolve_override_conflicts sets ev =
     Some (if acyclic (beats sets ev) then Inr (survivors sets ev) else Inl (cycle_error c))"
proof -
  let ?idx = "matched_index ev" and ?g = "override_graph (originals sets) (matched_index ev)"
  let ?names = "map fst ?idx" and ?c0 = "map (\<lambda>x. (x, White)) (map fst ?idx)"
  have keys: "set ?names = matched_names ev" by (rule matched_index_keys)
  have E: "edge_rel ?g = beats sets ev" by (rule edge_rel_override_graph)
  have "card (matched_names ev) = length ?names"
    unfolding keys [symmetric] using sm_wf_distinct [OF matched_index_wf] by (rule distinct_card)
  then have "whites (matched_names ev) ?c0 \<le> length ?names"
    using card_mono [of "matched_names ev" "{x \<in> matched_names ev. colour_of ?c0 x = White}"]
    by (auto simp: whites_def)
  then have "\<exists>r. dfs_roots (length ?names) ?g ?names ?c0 = Some r"
    by (intro dfs_roots_enough_fuel [of "matched_names ev"])
       (simp_all only: keys E beats_field finite_matched_names order_refl)
  then obtain b c where run: "dfs_roots (length ?names) ?g ?names ?c0 = Some (b, c)"
    by (metis prod.exhaust)
  have "grays ?c0 = {}" by (simp only: grays_def colour_of_start) simp
  from dfs_roots_correct [OF run finished_start this]
  have fin: "if b then \<not> acyclic (beats sets ev) else finished ?g c \<and> set ?names \<subseteq> blacks c"
    unfolding E by (auto split: if_splits)
  show ?thesis
  proof (cases b)
    case True
    then show ?thesis using fin run by (auto simp: resolve_override_conflicts_def Let_def)
  next
    case False
    then have "matched_names ev \<subseteq> blacks c" using fin keys by simp
    then have "beats sets ev \<subseteq> blacks c \<times> blacks c" using beats_field [of sets ev] by blast
    then have "acyclic (beats sets ev)"
      using fin False by (simp add: finished_def E Int_absorb2)
    then show ?thesis
      using False run eliminate_survivors
      by (auto simp: resolve_override_conflicts_def Let_def)
  qed
qed

text \<open>
  Resolution never silences everything: without an override cycle, if some rule
  matched then some rule is still matched afterwards.
\<close>

theorem resolve_keeps_a_match:
  assumes "acyclic (beats sets ev)" "\<exists>r \<in> set ev. matched r"
  shows "\<exists>r \<in> set (survivors sets ev). matched r"
proof -
  have fin: "finite (beats sets ev)" using beats_field by (rule finite_subset) simp
  have "wf (beats sets ev)" using fin assms(1) by (rule finite_acyclic_wf)
  moreover obtain n where "n \<in> matched_names ev" using assms(2) by (auto simp: matched_names_def)
  ultimately obtain a where a: "a \<in> matched_names ev"
      "\<And>b. (b, a) \<in> beats sets ev \<Longrightarrow> b \<notin> matched_names ev"
    by (metis wfE_min)
  then have free: "a \<notin> Range (beats sets ev)" using beats_field by fastforce
  from a(1) have "sm_get (matched_index ev) a \<noteq> None"
    using matched_index_has [of ev a] by (simp add: sm_has_iff)
  then obtain i where "last_match ev i" "res_name (ev ! i) = a"
    using matched_index_get by blast
  then show ?thesis
    using free by (intro bexI [of _ "survivors sets ev ! i"])
      (auto simp: survivors_def last_match_def)
qed

definition demo_action :: rule_action where
  "demo_action = \<lparr>label = ''scratch'', base_severity = Fin False 1, recommendation = ''''\<rparr>"

definition demo_rule :: "string \<Rightarrow> string list \<Rightarrow> rule" where
  "demo_rule n ov = \<lparr>rule_name = n, priority = 0, rule_set = ''s'', overrides = ov,
     overridden_by = [], condition = None, action = demo_action\<rparr>"

definition demo_resolved :: "string \<Rightarrow> resolved_rule" where
  "demo_resolved n = \<lparr>res_name = n, matched = True, res_action = demo_action, eval_trace = []\<rparr>"

theorem resolve_keeps_a_match_witness:
  "\<exists>r \<in> set (survivors [(''s'', [demo_rule ''a'' [''b''], demo_rule ''b'' []])]
      [demo_resolved ''a'', demo_resolved ''b'']). matched r"
proof (rule resolve_keeps_a_match)
  have "beats [(''s'', [demo_rule ''a'' [''b''], demo_rule ''b'' []])]
      [demo_resolved ''a'', demo_resolved ''b''] \<subseteq> {(''a'', ''b'')}"
    by (auto simp: beats_def originals_def demo_rule_def split: if_splits)
  moreover have "acyclic {(''a'', ''b'')}"
    by (simp add: acyclic_insert) (simp add: acyclic_def)
  ultimately show "acyclic (beats [(''s'', [demo_rule ''a'' [''b''], demo_rule ''b'' []])]
      [demo_resolved ''a'', demo_resolved ''b''])"
    using acyclic_subset by blast
qed (simp add: demo_resolved_def)

end
