(* ===== verification/Rule_Engine.thy ===== *)
theory Rule_Engine
  imports Conflict_Resolver
begin

text \<open>
  The rule engine (\<open>src/rule/rule_engine.cpp\<close>): loading rule sets from a YAML document,
  evaluating every rule set on its own snapshot of the facts, resolving override
  conflicts, and reporting rules that read common fields. The file and its parse are
  the argument \<open>doc\<close> (\<open>Inl\<close> the exception of \<open>YAML::LoadFile\<close>); clock readings are
  the argument \<open>clk\<close>, indexed by the rule's position. A result \<open>None\<close> marks a condition
  with a null operand (see \<open>build_result\<close>).
\<close>

record rule_engine =
  engine_sets :: rule_sets
  engine_path :: string

definition fresh_engine :: rule_engine where
  "fresh_engine = \<lparr>engine_sets = [], engine_path = ''''\<rparr>"

subsection \<open>Loading\<close>

definition exception_error :: "('a load_conv_scheme) \<Rightarrow> yaml_exception \<Rightarrow> error_info" where
  "exception_error cv x = ErrorInfo Rule_ParseError (''YAML exception: '' @ what cv x)"

definition load_action :: "'a load_conv_scheme \<Rightarrow> yaml option \<Rightarrow> yaml_exception + rule_action" where
  "load_action cv act =
     (case act of
        None \<Rightarrow> Inr \<lparr>label = '''', base_severity = Fin False 0, recommendation = ''''\<rparr>
      | Some y \<Rightarrow>
          (case (y_index y ''label'', y_index y ''base_severity'', y_index y ''recommendation'') of
             (Inr l, Inr s, Inr r) \<Rightarrow> Inr
               \<lparr>label = text_or cv '''' l,
                base_severity = scalar_or (as_double_text cv) (Fin False 0) s,
                recommendation = text_or cv '''' r\<rparr>
           | _ \<Rightarrow> Inl BadSubscript))"

definition condition_error :: "string \<Rightarrow> error_info \<Rightarrow> error_info" where
  "condition_error name e = ErrorInfo Rule_ParseError
     (''condition error for rule '' @ [CHR 0x27] @ name @ [CHR 0x27] @ '': '' @ err_message e)"

text \<open>The condition of a rule: absent and null nodes give none; \<open>None\<close> for a null operand.\<close>

definition load_condition :: "'a load_conv_scheme \<Rightarrow> string \<Rightarrow> yaml option \<Rightarrow> expr option result option" where
  "load_condition cv name y =
     (case y of
        None \<Rightarrow> Some (Inr None)
      | Some YNull \<Rightarrow> Some (Inr None)
      | Some c \<Rightarrow>
          (case build_expression (yaml_conv.truncate cv) c of
             Built e \<Rightarrow> Some (Inr (Some e))
           | NoExpr \<Rightarrow> Some (Inr None)
           | BuildError err \<Rightarrow> Some (Inl (condition_error name err))
           | NullOperand \<Rightarrow> None))"

definition empty_name_error :: "nat \<Rightarrow> string \<Rightarrow> error_info" where
  "empty_name_error i set_name = ErrorInfo Rule_ParseError
     (''rule at index '' @ nat_str i @ '' in rule_set '' @ [CHR 0x27] @ set_name @ [CHR 0x27] @
      '' has empty or missing '' @ [CHR 0x27] @ ''name'' @ [CHR 0x27])"

definition load_rule :: "'a load_conv_scheme \<Rightarrow> string \<Rightarrow> nat \<Rightarrow> yaml \<Rightarrow> rule result option" where
  "load_rule cv set_name i rn =
     (case rn of
        YScalar _ \<Rightarrow> Some (Inl (exception_error cv BadSubscript))
      | _ \<Rightarrow>
        (let node = (\<lambda>k. case rn of YMap kvs \<Rightarrow> y_at kvs k | _ \<Rightarrow> None);
             name = text_or cv '''' (node ''name'')
         in if name = [] then Some (Inl (empty_name_error i set_name))
            else (case load_condition cv name (node ''condition'') of
               None \<Rightarrow> None
             | Some (Inl err) \<Rightarrow> Some (Inl err)
             | Some (Inr cond) \<Rightarrow>
                 (case load_action cv (node ''action'') of
                    Inl x \<Rightarrow> Some (Inl (exception_error cv x))
                  | Inr act \<Rightarrow>
                      (case name_list cv (node ''overrides'') of
                         Inl x \<Rightarrow> Some (Inl (exception_error cv x))
                       | Inr ov \<Rightarrow>
                           (case name_list cv (node ''overridden_by'') of
                              Inl x \<Rightarrow> Some (Inl (exception_error cv x))
                            | Inr ob \<Rightarrow> Some (Inr
                                \<lparr>rule_name = name,
                                 priority = scalar_or (as_uint32_text cv) 0 (node ''priority''),
                                 rule_set = set_name, overrides = ov, overridden_by = ob,
                                 condition = cond, action = act\<rparr>)))))))"

fun load_rules :: "'a load_conv_scheme \<Rightarrow> string \<Rightarrow> nat \<Rightarrow> yaml list \<Rightarrow> rule list result option" where
  "load_rules cv set_name i [] = Some (Inr [])"
| "load_rules cv set_name i (rn # rns) =
     (case load_rule cv set_name i rn of
        None \<Rightarrow> None
      | Some (Inl err) \<Rightarrow> Some (Inl err)
      | Some (Inr r) \<Rightarrow> map_option (map_sum id (\<lambda>rs. r # rs)) (load_rules cv set_name (Suc i) rns))"

fun load_sets :: "'a load_conv_scheme \<Rightarrow> string \<Rightarrow> (string \<times> yaml) list \<Rightarrow> rule_sets \<Rightarrow>
    rule_sets result option" where
  "load_sets cv path [] loaded = Some (Inr loaded)"
| "load_sets cv path ((set_name, YSeq rns) # rest) loaded =
     (case load_rules cv set_name 0 rns of
        None \<Rightarrow> None
      | Some (Inl err) \<Rightarrow> Some (Inl err)
      | Some (Inr rs) \<Rightarrow> load_sets cv path rest (sm_put set_name rs loaded))"
| "load_sets cv path ((set_name, _) # rest) loaded =
     Some (Inl (ErrorInfo Rule_ParseError
       (''rule_set '' @ [CHR 0x27] @ set_name @ [CHR 0x27] @ '' is not a sequence in '' @ path)))"

definition load_document :: "'a load_conv_scheme \<Rightarrow> string \<Rightarrow> yaml_exception + yaml \<Rightarrow>
    rule_sets result option" where
  "load_document cv path doc =
     (case doc of
        Inl x \<Rightarrow> Some (Inl (exception_error cv x))
      | Inr tree \<Rightarrow>
          (case y_index tree ''rule_sets'' of
             Inl x \<Rightarrow> Some (Inl (exception_error cv x))
           | Inr None \<Rightarrow> Some (Inl (ErrorInfo Rule_ParseError
               (''missing top-level 'rule_sets' key in '' @ path)))
           | Inr (Some (YMap kvs)) \<Rightarrow> load_sets cv path kvs []
           | Inr (Some (YSeq (_ # _))) \<Rightarrow> Some (Inl (exception_error cv InvalidNode))
           | Inr (Some _) \<Rightarrow> Some (Inr [])))"

definition load_from_yaml :: "'a load_conv_scheme \<Rightarrow> string \<Rightarrow> yaml_exception + yaml \<Rightarrow> rule_engine \<Rightarrow>
    (unit result \<times> rule_engine) option" where
  "load_from_yaml cv path doc eng =
     (case load_document cv path doc of
        None \<Rightarrow> None
      | Some (Inl err) \<Rightarrow> Some (Inl err, eng)
      | Some (Inr loaded) \<Rightarrow> Some (Inr (), eng\<lparr>engine_sets := loaded, engine_path := path\<rparr>))"

subsection \<open>Evaluation\<close>

definition eval_step :: "int \<Rightarrow> string \<Rightarrow> string \<Rightarrow> trace_step" where
  "eval_step now name outcome =
     \<lparr>ts_id = name @ '':eval'', ts_level = Rule,
      ts_description = ''Evaluating condition for '' @ name @ outcome,
      ts_source_location = name, ts_timestamp = now, ts_parent_id = None\<rparr>"

definition evaluate_rule :: "hash_fn \<Rightarrow> int \<Rightarrow> rule \<Rightarrow> fact_base \<Rightarrow> resolved_rule \<times> fact_base" where
  "evaluate_rule h now r fb =
     (let finish = (\<lambda>m outcome fb'.
        (\<lparr>res_name = rule_name r, matched = m, res_action = action r,
          eval_trace = [eval_step now (rule_name r) outcome]\<rparr>, fb'))
      in case condition r of
           None \<Rightarrow> finish True '' -> MATCH (no condition)'' fb
         | Some e \<Rightarrow>
             (case evaluate h e fb of
                (Inl err, fb') \<Rightarrow> finish False ('' -> ERROR: '' @ err_message err) fb'
              | (Inr v, fb') \<Rightarrow>
                  (let m = bool_or v False
                   in finish m (if m then '' -> MATCH'' else '' -> NO_MATCH'') fb')))"

primrec evaluate_rule_set :: "hash_fn \<Rightarrow> (nat \<Rightarrow> int) \<Rightarrow> rule list \<Rightarrow> fact_base \<Rightarrow>
    resolved_rule list \<times> fact_base" where
  "evaluate_rule_set h clk [] fb = ([], fb)"
| "evaluate_rule_set h clk (r # rs) fb =
     (case evaluate_rule h (clk (length rs)) r fb of
        (x, fb1) \<Rightarrow> (case evaluate_rule_set h clk rs fb1 of (xs, fb2) \<Rightarrow> (x # xs, fb2)))"

text \<open>
  Every rule set runs in a task of its own on a snapshot of the facts, so the tasks share
  nothing they write and the results are joined in the order of the sets.
\<close>

definition evaluate_all :: "hash_fn \<Rightarrow> (string \<Rightarrow> nat \<Rightarrow> int) \<Rightarrow> rule_engine \<Rightarrow> fact_base \<Rightarrow>
    resolved_rule list result" where
  "evaluate_all h clk eng fb =
     Inr (concat (map (\<lambda>(set_name, rules).
       fst (evaluate_rule_set h (clk set_name) rules (fb_snapshot fb))) (engine_sets eng)))"

definition resolve_conflicts :: "rule_engine \<Rightarrow> resolved_rule list \<Rightarrow> resolved_rule list" where
  "resolve_conflicts eng ev =
     (case resolve_override_conflicts (engine_sets eng) ev of
        Some (Inr ev') \<Rightarrow> ev'
      | _ \<Rightarrow> ev)"

subsection \<open>Overlaps\<close>

record overlap_warning =
  rule_a :: string
  rule_b :: string
  common_fields :: "string list"

text \<open>\<open>std::set_intersection\<close> of two sorted ranges.\<close>

fun set_intersection :: "string list \<Rightarrow> string list \<Rightarrow> string list" where
  "set_intersection [] ys = []"
| "set_intersection xs [] = []"
| "set_intersection (x # xs) (y # ys) =
     (if x < y then set_intersection xs (y # ys)
      else if y < x then set_intersection (x # xs) ys
      else x # set_intersection xs ys)"

definition refs_of_rule :: "rule \<Rightarrow> string list" where
  "refs_of_rule r = (case condition r of None \<Rightarrow> [] | Some e \<Rightarrow> collect_refs e)"

definition overlap :: "rule \<Rightarrow> rule \<Rightarrow> overlap_warning list" where
  "overlap a b =
     (let common = set_intersection (sort (refs_of_rule a)) (sort (refs_of_rule b))
      in if common = [] then []
         else [\<lparr>rule_a = rule_name a, rule_b = rule_name b, common_fields = common\<rparr>])"

primrec set_overlaps :: "rule list \<Rightarrow> overlap_warning list" where
  "set_overlaps [] = []"
| "set_overlaps (r # rs) = concat (map (overlap r) rs) @ set_overlaps rs"

definition detect_overlaps :: "rule_engine \<Rightarrow> overlap_warning list" where
  "detect_overlaps eng = concat (map (\<lambda>(set_name, rules). set_overlaps rules) (engine_sets eng))"

text \<open>Hot reload is not implemented in the source: it does nothing and succeeds.\<close>

definition enable_hot_reload :: "rule_engine \<Rightarrow> unit result \<times> rule_engine" where
  "enable_hot_reload eng = (Inr (), eng)"

subsection \<open>Loading keeps the engine well formed\<close>

definition rule_ok :: "string \<Rightarrow> rule \<Rightarrow> bool" where
  "rule_ok set_name r \<longleftrightarrow> rule_name r \<noteq> [] \<and> rule_set r = set_name \<and>
     (case condition r of None \<Rightarrow> True | Some e \<Rightarrow> canonical e)"

definition engine_ok :: "rule_engine \<Rightarrow> bool" where
  "engine_ok eng \<longleftrightarrow> sm_wf (engine_sets eng) \<and>
     (\<forall>(set_name, rules) \<in> set (engine_sets eng). list_all (rule_ok set_name) rules)"

lemma load_condition_canonical:
  "load_condition cv name y = Some (Inr (Some e)) \<Longrightarrow> canonical e"
  by (auto simp: load_condition_def simp del: build_expression.simps
      split: option.splits yaml.splits build_result.splits dest: build_canonical(1))

lemma load_rule_ok: "load_rule cv set_name i rn = Some (Inr r) \<Longrightarrow> rule_ok set_name r"
  by (auto simp: load_rule_def rule_ok_def Let_def dest: load_condition_canonical
      split: option.splits yaml.splits sum.splits if_splits)

lemma load_rules_ok: "load_rules cv set_name i rns = Some (Inr rs) \<Longrightarrow> list_all (rule_ok set_name) rs"
proof (induction cv set_name i rns arbitrary: rs rule: load_rules.induct)
  case (2 cv set_name i rn rns)
  obtain r where r: "load_rule cv set_name i rn = Some (Inr r)"
    using "2.prems" by (auto split: option.splits sum.splits)
  then obtain rest where rest: "load_rules cv set_name (Suc i) rns = Some rest"
    "map_sum id (\<lambda>rs. r # rs) rest = Inr rs"
    using "2.prems" by auto
  then obtain rs' where "rest = Inr rs'" "rs = r # rs'" by (cases rest) auto
  then show ?case using "2.IH" [of "Inr r" r rs'] r rest load_rule_ok by simp
qed simp

definition sets_ok :: "rule_sets \<Rightarrow> bool" where
  "sets_ok sets \<longleftrightarrow> sm_wf sets \<and> (\<forall>(n, rules) \<in> set sets. list_all (rule_ok n) rules)"

lemma set_sm_put_pairs: "set (sm_put k v m) \<subseteq> insert (k, v) (set m)"
  by (induction m) auto

lemma sets_ok_put: "sets_ok sets \<Longrightarrow> list_all (rule_ok n) rules \<Longrightarrow> sets_ok (sm_put n rules sets)"
  using set_sm_put_pairs [of n rules sets] by (auto simp: sets_ok_def sm_wf_put)

lemma load_sets_ok:
  "load_sets cv path kvs loaded = Some (Inr sets) \<Longrightarrow> sets_ok loaded \<Longrightarrow> sets_ok sets"
proof (induction cv path kvs loaded rule: load_sets.induct)
  case (2 cv path set_name rns rest loaded)
  then show ?case
    by (auto split: option.splits sum.splits intro: sets_ok_put load_rules_ok)
qed auto

lemma load_document_ok: "load_document cv path doc = Some (Inr sets) \<Longrightarrow> sets_ok sets"
proof -
  have "sets_ok []" by (simp add: sets_ok_def)
  then show "load_document cv path doc = Some (Inr sets) \<Longrightarrow> sets_ok sets"
    by (auto simp: load_document_def intro: load_sets_ok
        split: option.splits sum.splits yaml.splits list.splits)
qed

subsection \<open>Evaluation agrees with the reference evaluator\<close>

definition rule_matches :: "fact_base \<Rightarrow> rule \<Rightarrow> bool" where
  "rule_matches fb r =
     (case condition r of
        None \<Rightarrow> True
      | Some e \<Rightarrow> (case peval fb e of Inl err \<Rightarrow> False | Inr v \<Rightarrow> bool_or v False))"

definition rule_exprs :: "rule list \<Rightarrow> expr list" where
  "rule_exprs rs = concat (map (\<lambda>r. case condition r of None \<Rightarrow> [] | Some e \<Rightarrow> subexprs e) rs)"

lemma evaluate_rule_fields:
  "res_name (fst (evaluate_rule h now r fb)) = rule_name r"
  "res_action (fst (evaluate_rule h now r fb)) = action r"
  "map ts_id (eval_trace (fst (evaluate_rule h now r fb))) = [rule_name r @ '':eval'']"
  by (auto simp: evaluate_rule_def eval_step_def Let_def split: option.split prod.split sum.split)

lemma evaluate_rule_state:
  assumes "coherent h fb0 S" "memo_state h fb0 S fb" "set (rule_exprs [r]) \<subseteq> set S"
  shows "matched (fst (evaluate_rule h now r fb)) = rule_matches fb0 r \<and>
    memo_state h fb0 S (snd (evaluate_rule h now r fb))"
proof (cases "condition r")
  case None
  then show ?thesis using assms(2) by (simp add: evaluate_rule_def rule_matches_def)
next
  case (Some e)
  then have "set (subexprs e) \<subseteq> set S" using assms(3) by (simp add: rule_exprs_def)
  then have "fst (evaluate h e fb) = peval fb0 e \<and> memo_state h fb0 S (snd (evaluate h e fb))"
    by (rule computes_evaluate [OF assms(1) _ assms(2)])
  then show ?thesis
    using Some by (cases "evaluate h e fb"; cases "peval fb0 e")
      (auto simp: evaluate_rule_def rule_matches_def Let_def)
qed

lemma evaluate_rule_set_state:
  "coherent h fb0 S \<Longrightarrow> memo_state h fb0 S fb \<Longrightarrow> set (rule_exprs rs) \<subseteq> set S \<Longrightarrow>
   map matched (fst (evaluate_rule_set h clk rs fb)) = map (rule_matches fb0) rs"
proof (induction rs arbitrary: fb)
  case (Cons r rs)
  obtain x fb1 where x: "evaluate_rule h (clk (length rs)) r fb = (x, fb1)" by fastforce
  obtain xs fb2 where xs: "evaluate_rule_set h clk rs fb1 = (xs, fb2)" by fastforce
  have "set (rule_exprs [r]) \<subseteq> set S" "set (rule_exprs rs) \<subseteq> set S"
    using Cons.prems(3) by (auto simp: rule_exprs_def)
  then have "matched x = rule_matches fb0 r" "memo_state h fb0 S fb1"
    using evaluate_rule_state [OF Cons.prems(1,2), of r "clk (length rs)"] x by simp_all
  then show ?case
    using Cons.IH [OF Cons.prems(1), of fb1] \<open>set (rule_exprs rs) \<subseteq> set S\<close> x xs by simp
qed simp

lemma evaluate_rule_set_Cons: "fst (evaluate_rule_set h clk (r # rs) fb) =
    fst (evaluate_rule h (clk (length rs)) r fb) #
    fst (evaluate_rule_set h clk rs (snd (evaluate_rule h (clk (length rs)) r fb)))"
  by (simp split: prod.split)

lemma evaluate_rule_set_names:
  "map res_name (fst (evaluate_rule_set h clk rs fb)) = map rule_name rs"
  "map res_action (fst (evaluate_rule_set h clk rs fb)) = map action rs"
  by (induction rs arbitrary: fb)
     (simp_all add: evaluate_rule_set_Cons evaluate_rule_fields del: evaluate_rule_set.simps(2))

lemma set_intersection_set:
  "sorted xs \<Longrightarrow> sorted ys \<Longrightarrow> set (set_intersection xs ys) = set xs \<inter> set ys"
proof (induction xs ys rule: set_intersection.induct)
  case (3 x xs y ys)
  then show ?case by auto
qed auto

lemma overlap_iff: "w \<in> set (overlap a b) \<longleftrightarrow>
    set (refs_of_rule a) \<inter> set (refs_of_rule b) \<noteq> {} \<and>
    w = \<lparr>rule_a = rule_name a, rule_b = rule_name b,
         common_fields = set_intersection (sort (refs_of_rule a)) (sort (refs_of_rule b))\<rparr>"
proof -
  have "set (set_intersection (sort (refs_of_rule a)) (sort (refs_of_rule b))) =
      set (refs_of_rule a) \<inter> set (refs_of_rule b)"
    by (simp add: set_intersection_set)
  then show ?thesis
    by (cases "set_intersection (sort (refs_of_rule a)) (sort (refs_of_rule b)) = []")
       (auto simp: overlap_def Let_def)
qed

lemma set_overlaps_iff: "w \<in> set (set_overlaps rs) \<longleftrightarrow>
    (\<exists>i j. i < j \<and> j < length rs \<and> w \<in> set (overlap (rs ! i) (rs ! j)))"
proof (induction rs)
  case (Cons r rs)
  have "(\<exists>i j. i < j \<and> j < length (r # rs) \<and> w \<in> set (overlap ((r # rs) ! i) ((r # rs) ! j))) \<longleftrightarrow>
    (\<exists>j < length rs. w \<in> set (overlap r (rs ! j))) \<or>
    (\<exists>i j. i < j \<and> j < length rs \<and> w \<in> set (overlap (rs ! i) (rs ! j)))"
    (is "?L \<longleftrightarrow> ?R1 \<or> ?R2")
  proof
    assume ?L
    then obtain i j where ij: "i < j" "j < length (r # rs)" "w \<in> set (overlap ((r # rs) ! i) ((r # rs) ! j))"
      by blast
    then obtain j' where j: "j = Suc j'" by (cases j) auto
    show "?R1 \<or> ?R2" using ij j by (cases i) auto
  next
    assume "?R1 \<or> ?R2"
    then show ?L
    proof
      assume ?R1
      then obtain j where "j < length rs" "w \<in> set (overlap r (rs ! j))" by blast
      then show ?L by (intro exI [of _ 0] exI [of _ "Suc j"]) simp
    next
      assume ?R2
      then obtain i j where "i < j" "j < length rs" "w \<in> set (overlap (rs ! i) (rs ! j))" by blast
      then show ?L by (intro exI [of _ "Suc i"] exI [of _ "Suc j"]) simp
    qed
  qed
  moreover have "w \<in> set (set_overlaps (r # rs)) \<longleftrightarrow>
      (\<exists>b \<in> set rs. w \<in> set (overlap r b)) \<or> w \<in> set (set_overlaps rs)"
    by auto
  moreover have "(\<exists>b \<in> set rs. w \<in> set (overlap r b)) \<longleftrightarrow>
      (\<exists>j < length rs. w \<in> set (overlap r (rs ! j)))"
    by (metis in_set_conv_nth)
  ultimately show ?case using Cons.IH by simp
qed simp

subsection \<open>Properties\<close>

text \<open>
  C3 Rule evaluation is correct on facts without cache entries when the conditions of the rule set are
  coherent: no condition reads a cache entry as a fact, and subexpressions whose source texts have the
  same hash have the same value. (Two negations with different values are not coherent, since the source
  text of every negation is the word \<open>not\<close>.) Then \<open>EvaluateRuleSet\<close> returns one result per rule, in order, with the rule's
  name and action, and a rule matches exactly if it has no condition or its condition's
  cache-free value is true; a condition that fails counts as not matched.
\<close>

theorem evaluate_rule_set_spec:
  assumes "no_memo fb" "coherent h fb (rule_exprs rs)"
  shows "map (\<lambda>x. (res_name x, res_action x, matched x)) (fst (evaluate_rule_set h clk rs fb)) =
    map (\<lambda>r. (rule_name r, action r, rule_matches fb r)) rs"
proof -
  let ?xs = "fst (evaluate_rule_set h clk rs fb)"
  have m: "map matched ?xs = map (rule_matches fb) rs"
    using assms(2) memo_state_start [OF assms(1)] order_refl by (rule evaluate_rule_set_state)
  have len: "length ?xs = length rs" using m by (metis length_map)
  show ?thesis
  proof (rule nth_equalityI)
    fix i assume "i < length (map (\<lambda>x. (res_name x, res_action x, matched x)) ?xs)"
    then have i: "i < length ?xs" by simp
    have "map f ?xs ! i = f (?xs ! i)" for f :: "resolved_rule \<Rightarrow> 'b" using i by simp
    moreover have "res_name (?xs ! i) = rule_name (rs ! i)"
      using evaluate_rule_set_names(1) [of h clk rs fb] i len by (metis nth_map)
    moreover have "res_action (?xs ! i) = action (rs ! i)"
      using evaluate_rule_set_names(2) [of h clk rs fb] i len by (metis nth_map)
    moreover have "matched (?xs ! i) = rule_matches fb (rs ! i)"
      using m i len by (metis nth_map)
    ultimately show "map (\<lambda>x. (res_name x, res_action x, matched x)) ?xs ! i =
        map (\<lambda>r. (rule_name r, action r, rule_matches fb r)) rs ! i"
      using i len by simp
  qed (simp add: len)
qed

theorem evaluate_rule_set_spec_witness:
  "map matched (fst (evaluate_rule_set length (\<lambda>_. 0)
     [demo_rule ''always'' [], (demo_rule ''demo'' [])\<lparr>condition := Some demo_expr\<rparr>] demo_facts)) =
   [True, True]"
proof -
  let ?rs = "[demo_rule ''always'' [], (demo_rule ''demo'' [])\<lparr>condition := Some demo_expr\<rparr>]"
  have "rule_exprs ?rs = subexprs demo_expr" by (simp add: rule_exprs_def demo_rule_def)
  then have "map (\<lambda>x. (res_name x, res_action x, matched x))
      (fst (evaluate_rule_set length (\<lambda>_. 0) ?rs demo_facts)) =
    map (\<lambda>r. (rule_name r, action r, rule_matches demo_facts r)) ?rs"
    using evaluate_rule_set_spec [OF no_memo_demo, of length ?rs "\<lambda>_. 0"] coherent_demo by simp
  then have "map (snd \<circ> snd) (map (\<lambda>x. (res_name x, res_action x, matched x))
      (fst (evaluate_rule_set length (\<lambda>_. 0) ?rs demo_facts))) =
    map (snd \<circ> snd) (map (\<lambda>r. (rule_name r, action r, rule_matches demo_facts r)) ?rs)"
    by (rule arg_cong)
  then show ?thesis by (simp add: comp_def rule_matches_def demo_rule_def peval_demo del: evaluate_rule_set.simps)
qed

text \<open>
  Loading is all or nothing and keeps the engine well formed: a failed load leaves the
  rules of the engine as they were; after a successful one every rule has a name, carries
  the name of its set, and has a condition with canonical source texts.
\<close>

theorem load_from_yaml_ok:
  assumes "engine_ok eng" "load_from_yaml cv path doc eng = Some (res, eng')"
  shows "engine_ok eng' \<and> (has_value res \<or> eng' = eng)"
proof -
  have ok: "engine_ok e \<longleftrightarrow> sets_ok (engine_sets e)" for e
    by (simp add: engine_ok_def sets_ok_def)
  show ?thesis
    using assms unfolding ok
    by (auto simp: load_from_yaml_def split: option.splits sum.splits dest: load_document_ok)
qed

definition demo_load_conv :: load_conv where
  "demo_load_conv = yaml_conv.extend demo_conv
     \<lparr>null_text = None, as_uint32_text = (\<lambda>s. None), what = (\<lambda>x. ''yaml'')\<rparr>"

theorem load_from_yaml_ok_witness:
  "\<exists>eng'. load_from_yaml demo_load_conv ''r.yaml'' (Inr (YMap [(''rule_sets'',
      YMap [(''s'', YSeq [YMap [(''name'', YScalar ''r''), (''condition'', YScalar ''true'')]])])]))
      fresh_engine = Some (Inr (), eng') \<and> engine_ok eng' \<and> length (engine_sets eng') = 1"
proof -
  let ?doc = "Inr (YMap [(''rule_sets'',
      YMap [(''s'', YSeq [YMap [(''name'', YScalar ''r''), (''condition'', YScalar ''true'')]])])])"
  obtain eng' where load: "load_from_yaml demo_load_conv ''r.yaml'' ?doc fresh_engine = Some (Inr (), eng')"
    and len: "length (engine_sets eng') = 1"
    by (simp add: load_from_yaml_def load_document_def y_index_def y_at_def load_rule_def text_or_def
        text_of_def load_condition_def of_result_def build_literal_def literal_value_def
        load_action_def name_list_def fresh_engine_def Let_def)
  have "engine_ok fresh_engine" by (simp add: engine_ok_def fresh_engine_def)
  from load_from_yaml_ok [OF this load] load len show ?thesis by blast
qed

text \<open>
  Overlap detection: a warning is reported exactly for every pair of rules of one set,
  taken in order, whose conditions refer to a common field; it lists exactly the common
  fields.
\<close>

theorem detect_overlaps_spec:
  "(\<exists>w \<in> set (detect_overlaps eng). rule_a w = a \<and> rule_b w = b \<and> set (common_fields w) = F) \<longleftrightarrow>
   (\<exists>(n, rs) \<in> set (engine_sets eng). \<exists>i j. i < j \<and> j < length rs \<and>
      rule_name (rs ! i) = a \<and> rule_name (rs ! j) = b \<and>
      F = set (refs_of_rule (rs ! i)) \<inter> set (refs_of_rule (rs ! j)) \<and> F \<noteq> {})"
proof -
  have common: "set (set_intersection (sort (refs_of_rule x)) (sort (refs_of_rule y))) =
      set (refs_of_rule x) \<inter> set (refs_of_rule y)" for x y
    by (simp add: set_intersection_set)
  have "w \<in> set (detect_overlaps eng) \<longleftrightarrow> (\<exists>(n, rs) \<in> set (engine_sets eng).
      \<exists>i j. i < j \<and> j < length rs \<and> w \<in> set (overlap (rs ! i) (rs ! j)))" for w
    by (force simp: detect_overlaps_def set_overlaps_iff)
  then have "(\<exists>w \<in> set (detect_overlaps eng). rule_a w = a \<and> rule_b w = b \<and> set (common_fields w) = F) \<longleftrightarrow>
      (\<exists>(n, rs) \<in> set (engine_sets eng). \<exists>i j. i < j \<and> j < length rs \<and>
        (\<exists>w \<in> set (overlap (rs ! i) (rs ! j)).
           rule_a w = a \<and> rule_b w = b \<and> set (common_fields w) = F))"
    by fast
  moreover have "(\<exists>w \<in> set (overlap x y). rule_a w = a \<and> rule_b w = b \<and> set (common_fields w) = F) \<longleftrightarrow>
      rule_name x = a \<and> rule_name y = b \<and>
      F = set (refs_of_rule x) \<inter> set (refs_of_rule y) \<and> F \<noteq> {}" for x y
    unfolding Bex_def overlap_iff by (auto simp: common)
  ultimately show ?thesis by simp
qed

text \<open>A junction over a single null element loads as a rule without condition, which always matches.\<close>

lemma null_junction_unconditional:
  "load_condition cv name (Some (YMap [(''and'', YSeq [YNull])])) = Some (Inr None)"
  by (simp add: load_condition_def y_at_def)

end
