(* ===== verification/Number_Text.thy ===== *)
theory Number_Text
  imports Doubles
begin

text \<open>
  \<open>std::stod\<close>, which the decision tree uses on its branch keys: the longest numeric prefix
  after white space (decimal or hexadecimal mantissa with optional exponent, \<open>inf\<close>,
  \<open>nan\<close>), rounded to a double. \<open>None\<close> where it throws: no number, or a result out of
  the range of normal doubles.
\<close>

definition code :: "char \<Rightarrow> nat" where
  "code c = of_char c"

definition is_space :: "char \<Rightarrow> bool" where
  "is_space c \<longleftrightarrow> code c = 32 \<or> 9 \<le> code c \<and> code c \<le> 13"

definition lower :: "char \<Rightarrow> char" where
  "lower c = (if 65 \<le> code c \<and> code c \<le> 90 then char_of (code c + 32) else c)"

definition digit_val :: "nat \<Rightarrow> char \<Rightarrow> nat option" where
  "digit_val b c =
     (let k = code (lower c);
          v = (if 48 \<le> k \<and> k \<le> 57 then k - 48 else if 97 \<le> k \<and> k \<le> 102 then k - 87 else b)
      in if v < b then Some v else None)"

primrec take_digits :: "nat \<Rightarrow> string \<Rightarrow> nat list \<times> string" where
  "take_digits b [] = ([], [])"
| "take_digits b (c # cs) =
     (case digit_val b c of
        None \<Rightarrow> ([], c # cs)
      | Some d \<Rightarrow> (case take_digits b cs of (ds, rest) \<Rightarrow> (d # ds, rest)))"

definition from_digits :: "nat \<Rightarrow> nat list \<Rightarrow> nat" where
  "from_digits b ds = foldl (\<lambda>a d. b * a + d) 0 ds"

definition take_sign :: "string \<Rightarrow> bool \<times> string" where
  "take_sign s =
     (case s of
        c # cs \<Rightarrow> if c = CHR ''-'' then (True, cs) else if c = CHR ''+'' then (False, cs) else (False, s)
      | [] \<Rightarrow> (False, []))"

definition take_fraction :: "nat \<Rightarrow> string \<Rightarrow> nat list \<times> string" where
  "take_fraction b s =
     (case s of c # cs \<Rightarrow> if c = CHR ''.'' then take_digits b cs else ([], s) | [] \<Rightarrow> ([], s))"

definition take_exponent :: "char \<Rightarrow> string \<Rightarrow> int" where
  "take_exponent mark s =
     (case s of
        [] \<Rightarrow> 0
      | c # cs \<Rightarrow>
          if lower c = mark then
            (case take_sign cs of (neg, cs') \<Rightarrow>
              (let e = int (from_digits 10 (fst (take_digits 10 cs')))
               in if neg then - e else e))
          else 0)"

definition power_int_rat :: "nat \<Rightarrow> int \<Rightarrow> rat" where
  "power_int_rat b e = (if 0 \<le> e then of_nat b ^ nat e else 1 / of_nat b ^ nat (- e))"

text \<open>Digit base, exponent mark, exponent base; \<open>None\<close> without a digit.\<close>

definition parse_mantissa :: "nat \<Rightarrow> char \<Rightarrow> nat \<Rightarrow> string \<Rightarrow> rat option" where
  "parse_mantissa b mark eb s =
     (case take_digits b s of (ds, rest) \<Rightarrow>
        (case take_fraction b rest of (fs, rest') \<Rightarrow>
           if ds = [] \<and> fs = [] then None
           else Some (of_nat (from_digits b (ds @ fs)) * power_int_rat b (- int (length fs))
                        * power_int_rat eb (take_exponent mark rest'))))"

definition in_range :: "rat \<Rightarrow> dbl \<Rightarrow> bool" where
  "in_range q d \<longleftrightarrow> (\<exists>s m. d = Fin s m \<and> (q = 0 \<or> pow2 (-1022) \<le> m \<or> m = \<bar>q\<bar>))"

lemma in_range_code [code, simp]:
  "in_range q (Fin s m) \<longleftrightarrow> q = 0 \<or> pow2 (-1022) \<le> m \<or> m = \<bar>q\<bar>"
  "in_range q (Inf s) \<longleftrightarrow> False"
  "in_range q NaN \<longleftrightarrow> False"
  by (auto simp: in_range_def)

definition stod :: "string \<Rightarrow> dbl option" where
  "stod text =
     (case take_sign (dropWhile is_space text) of (neg, s) \<Rightarrow>
        let word = map lower (take 3 s);
            finish = (\<lambda>q. let d = round_fmt binary64 neg q in if in_range q d then Some d else None)
        in if word = ''inf'' then Some (Inf neg)
           else if word = ''nan'' then Some NaN
           else case (if map lower (take 2 s) = ''0x'' then parse_mantissa 16 (CHR ''p'') 2 (drop 2 s)
                      else None) of
                  Some q \<Rightarrow> finish q
                | None \<Rightarrow>
                    (case parse_mantissa 10 (CHR ''e'') 10 s of
                       None \<Rightarrow> None
                     | Some q \<Rightarrow> finish q))"

subsection \<open>Reading back printed integers\<close>

lemma digit_val_digit: "d < 10 \<Longrightarrow> digit_val 10 (digit_char d) = Some d"
  by (simp add: digit_val_def lower_def code_def of_char_digit Let_def)

lemma take_digits_append:
  "\<forall>c \<in> set s. digit_val b c \<noteq> None \<Longrightarrow>
   take_digits b (s @ t) = (fst (take_digits b s) @ fst (take_digits b t), snd (take_digits b t))"
  by (induction s) (auto split: option.splits prod.splits)

lemma from_digits_snoc: "from_digits b (ds @ [d]) = b * from_digits b ds + d"
  by (simp add: from_digits_def)

lemma take_digits_nat_str: "from_digits 10 (fst (take_digits 10 (nat_str n))) = n"
proof (induction n rule: nat_str.induct)
  case (1 n)
  show ?case
  proof (cases "n < 10")
    case True
    then show ?thesis
      by (subst nat_str.simps) (simp add: digit_val_digit from_digits_def)
  next
    case False
    have ok: "\<forall>c \<in> set (nat_str (n div 10)). digit_val 10 c \<noteq> None"
      using nat_str_digits digit_val_digit by fastforce
    from False show ?thesis
      using "1.IH" by (subst nat_str.simps)
        (simp add: take_digits_append [OF ok] digit_val_digit from_digits_snoc)
  qed
qed

lemma take_digits_rest: "(\<And>c. c \<in> set s \<Longrightarrow> digit_val b c \<noteq> None) \<Longrightarrow> snd (take_digits b s) = []"
  by (induction s) (auto split: option.splits prod.splits)

lemma digit_char_cases: "d < 10 \<Longrightarrow> 48 \<le> code (digit_char d) \<and> code (digit_char d) \<le> 57"
  by (simp add: code_def of_char_digit)

lemma stod_nat_str:
  assumes "n < 2 ^ 53"
  shows "stod (nat_str n) = Some (Fin False (of_nat n))"
proof -
  obtain c cs where s: "nat_str n = c # cs" by (cases "nat_str n") auto
  have dig: "48 \<le> code x \<and> code x \<le> 57" if "x \<in> set (nat_str n)" for x
    using nat_str_digits [OF that] digit_char_cases by auto
  have ok: "digit_val 10 x \<noteq> None" if "x \<in> set (nat_str n)" for x
    using nat_str_digits [OF that] digit_val_digit by auto
  have low: "lower x = x" if "x \<in> set (nat_str n)" for x
    using dig [OF that] by (simp add: lower_def)
  have c: "48 \<le> code c" "code c \<le> 57" using dig [of c] s by auto
  have sign: "take_sign (dropWhile is_space (nat_str n)) = (False, nat_str n)"
    using c by (auto simp: s is_space_def take_sign_def code_def)
  have lows: "map lower (take k (nat_str n)) = take k (nat_str n)" for k
    by (rule map_idI) (meson in_set_takeD low)
  have first: "map lower (take 3 (nat_str n)) \<noteq> ''inf''" "map lower (take 3 (nat_str n)) \<noteq> ''nan''"
    unfolding lows using c by (auto simp: s code_def)
  have second: "map lower (take 2 (nat_str n)) \<noteq> ''0x''"
  proof
    assume "map lower (take 2 (nat_str n)) = ''0x''"
    then have "CHR ''x'' \<in> set (nat_str n)" unfolding lows by (metis in_set_takeD list.set_intros)
    from dig [OF this] show False by (simp add: code_def)
  qed
  have td: "take_digits 10 (nat_str n) = (fst (take_digits 10 (nat_str n)), [])"
    using take_digits_rest [of "nat_str n" 10] ok by (simp add: prod_eq_iff)
  have ne: "fst (take_digits 10 (nat_str n)) \<noteq> []"
    using ok [of c] by (auto simp: s split: prod.splits)
  have pm: "parse_mantissa 10 (CHR ''e'') 10 (nat_str n) = Some (of_nat n)"
    unfolding parse_mantissa_def
    by (subst td) (simp add: ne take_fraction_def take_exponent_def power_int_rat_def take_digits_nat_str)
  have "round_fmt binary64 False (of_nat n) = Fin False (of_nat n)"
    using d_of_nat_exact [OF assms] by (simp add: d_of_nat_def d_of_int_def round_rat_def)
  then show ?thesis
    using first second by (simp add: stod_def sign pm Let_def)
qed

end
