(* ===== verification/Decision_Tree.thy ===== *)
theory Decision_Tree
  imports Rule_Engine Number_Text
begin

text \<open>
  The decision tree of the reasoner: its nodes and YAML form
  (\<open>src/reasoner/decision_tree.cpp\<close>), scoring (\<open>score_calculator.cpp\<close>), the trace
  (\<open>trace_recorder.cpp\<close>) and the walk (\<open>tree_walker.cpp\<close>). \<open>std::exp\<close> is the
  parameter \<open>ex\<close>, clock readings the parameter \<open>clk\<close>. Reading a weight beyond the end of
  the weight vector has no defined behaviour and is \<open>None\<close>.
\<close>

subsection \<open>Nodes\<close>

record score_formula =
  weights :: "dbl list"
  features :: "string list"
  threshold :: dbl

datatype decision_node =
    BranchNode string "(string \<times> decision_node) list" "decision_node option"
  | LeafNode "score_formula list" string string

record verdict_mapping =
  ng_threshold :: dbl
  warn_threshold :: dbl

record decision_tree =
  tree_root :: decision_node
  mapping :: verdict_mapping

definition default_mapping :: verdict_mapping where
  "default_mapping = \<lparr>ng_threshold = d_lit (7/10), warn_threshold = d_lit (3/10)\<rparr>"

subsection \<open>Reading a tree\<close>

definition invalid_tree :: "string \<Rightarrow> 'a thrown" where
  "invalid_tree msg = Inr (Inl (ErrorInfo Reasoner_InvalidTree msg))"

definition parse_formula :: "'a load_conv_scheme \<Rightarrow> yaml \<Rightarrow> score_formula thrown" where
  "parse_formula cv y =
     then_ok (throwing (y_index y ''weights'')) (\<lambda>w.
     then_ok (throwing (double_list cv w)) (\<lambda>ws.
     then_ok (throwing (y_index y ''features'')) (\<lambda>f.
     then_ok (throwing (name_list cv f)) (\<lambda>fs.
     then_ok (throwing (y_index y ''threshold'')) (\<lambda>t.
       returning \<lparr>weights = ws, features = fs,
                  threshold = scalar_or (as_double_text cv) (Fin False 0) t\<rparr>)))))"

primrec parse_formulas :: "'a load_conv_scheme \<Rightarrow> yaml list \<Rightarrow> score_formula list thrown" where
  "parse_formulas cv [] = returning []"
| "parse_formulas cv (y # ys) =
     then_ok (parse_formula cv y) (\<lambda>f. then_ok (parse_formulas cv ys) (\<lambda>fs. returning (f # fs)))"

definition parse_leaf :: "'a load_conv_scheme \<Rightarrow> (string \<times> yaml) list \<Rightarrow> decision_node thrown" where
  "parse_leaf cv kvs =
     then_ok (text_opt cv (y_at kvs ''label'')) (\<lambda>lbl.
     then_ok (text_opt cv (y_at kvs ''recommendation'')) (\<lambda>rec.
     then_ok (case y_at kvs ''formulas'' of
                Some (YSeq ys) \<Rightarrow> parse_formulas cv ys
              | _ \<Rightarrow> returning []) (\<lambda>fs.
       returning (LeafNode fs lbl rec))))"

function (sequential) parse_node :: "'a load_conv_scheme \<Rightarrow> yaml \<Rightarrow> decision_node thrown"
  and parse_branches :: "'a load_conv_scheme \<Rightarrow> (string \<times> yaml) list \<Rightarrow>
    (string, decision_node) smap \<Rightarrow> (string, decision_node) smap thrown" where
  "parse_node cv (YScalar s) = Inl BadSubscript"
| "parse_node cv (YMap kvs) =
     (case y_at kvs ''type'' of
        None \<Rightarrow> invalid_tree ''node missing required 'type' field''
      | Some t \<Rightarrow>
          then_ok (text_must cv t) (\<lambda>type.
            if type = ''branch'' then
              (case y_at kvs ''field'' of
                 None \<Rightarrow> invalid_tree (''branch node missing required 'field'' @ [CHR 0x27])
               | Some f \<Rightarrow>
                   then_ok (text_must cv f) (\<lambda>field.
                   then_ok (case y_at kvs ''branches'' of
                              Some (YMap bs) \<Rightarrow> parse_branches cv bs []
                            | _ \<Rightarrow> returning []) (\<lambda>bs.
                     case y_at kvs ''default'' of
                       None \<Rightarrow> invalid_tree ''branch node missing required 'default' child''
                     | Some d \<Rightarrow> then_ok (parse_node cv d) (\<lambda>child.
                         returning (BranchNode field bs (Some child))))))
            else if type = ''leaf'' then parse_leaf cv kvs
            else invalid_tree (''unknown node type '' @ [CHR 0x27] @ type @ [CHR 0x27] @
                   '' (expected 'branch' or 'leaf')'')))"
| "parse_node cv y = invalid_tree ''node missing required 'type' field''"
| "parse_branches cv [] acc = returning acc"
| "parse_branches cv ((k, y) # rest) acc =
     then_ok (parse_node cv y) (\<lambda>child. parse_branches cv rest (sm_emplace k child acc))"
  by pat_completeness auto

termination
  by (relation "measure (\<lambda>x. case x of Inl (cv, y) \<Rightarrow> size y
      | Inr (cv, bs, acc) \<Rightarrow> size_list (size_prod (\<lambda>_. 0) size) bs)")
     (auto simp: y_at_def dest: size_y_at)

definition load_tree :: "'a load_conv_scheme \<Rightarrow> string \<Rightarrow> yaml_exception + yaml \<Rightarrow> decision_tree thrown" where
  "load_tree cv path doc =
     (case doc of
        Inl x \<Rightarrow> Inr (Inl (ErrorInfo Reasoner_TreeLoadFailed
            (''failed to load decision tree from '' @ path @ '': '' @ what cv x)))
      | Inr tree \<Rightarrow>
          then_ok (parse_node cv tree) (\<lambda>node.
          then_ok (throwing (y_index tree ''verdict_mapping'')) (\<lambda>vm.
            case vm of
              None \<Rightarrow> returning \<lparr>tree_root = node, mapping = default_mapping\<rparr>
            | Some m \<Rightarrow>
                then_ok (throwing (y_index m ''ng_threshold'')) (\<lambda>ng.
                then_ok (throwing (y_index m ''warn_threshold'')) (\<lambda>warn.
                  returning \<lparr>tree_root = node, mapping =
                    \<lparr>ng_threshold = scalar_or (as_double_text cv) (d_lit (7/10)) ng,
                     warn_threshold = scalar_or (as_double_text cv) (d_lit (3/10)) warn\<rparr>\<rparr>)))))"

subsection \<open>Scores\<close>

fun weighted_sum :: "fact_base \<Rightarrow> dbl list \<Rightarrow> string list \<Rightarrow> dbl \<Rightarrow> dbl option" where
  "weighted_sum fb ws [] acc = Some acc"
| "weighted_sum fb ws (f # fs) acc =
     (case fb_get fb f of
        None \<Rightarrow> weighted_sum fb (tl ws) fs acc
      | Some v \<Rightarrow>
          (case as_double v of
             None \<Rightarrow> weighted_sum fb (tl ws) fs acc
           | Some d \<Rightarrow>
               (case ws of
                  [] \<Rightarrow> None
                | w # _ \<Rightarrow> weighted_sum fb (tl ws) fs (d_add acc (d_mul w d)))))"

definition sigmoid :: "(dbl \<Rightarrow> dbl) \<Rightarrow> dbl \<Rightarrow> dbl" where
  "sigmoid ex x = d_div (Fin False 1) (d_add (Fin False 1) (ex (d_neg x)))"

definition compute_score :: "(dbl \<Rightarrow> dbl) \<Rightarrow> score_formula \<Rightarrow> fact_base \<Rightarrow> dbl option" where
  "compute_score ex f fb =
     map_option (\<lambda>sum. sigmoid ex (d_sub sum (threshold f)))
       (weighted_sum fb (weights f) (features f) (Fin False 0))"

primrec max_score :: "(dbl \<Rightarrow> dbl) \<Rightarrow> fact_base \<Rightarrow> dbl \<Rightarrow> score_formula list \<Rightarrow> dbl option" where
  "max_score ex fb best [] = Some best"
| "max_score ex fb best (f # fs) =
     (case compute_score ex f fb of
        None \<Rightarrow> None
      | Some s \<Rightarrow> max_score ex fb (if d_gt s best then s else best) fs)"

definition compute_max :: "(dbl \<Rightarrow> dbl) \<Rightarrow> score_formula list \<Rightarrow> fact_base \<Rightarrow> dbl option" where
  "compute_max ex fs fb = max_score ex fb (Fin False 0) fs"

subsection \<open>The trace\<close>

record trace_recorder =
  steps :: "trace_step list"
  next_id :: "64 word"

definition new_recorder :: trace_recorder where
  "new_recorder = \<lparr>steps = [], next_id = 0\<rparr>"

definition record_step :: "(nat \<Rightarrow> int) \<Rightarrow> trace_level \<Rightarrow> string \<Rightarrow> string \<Rightarrow> trace_recorder \<Rightarrow> trace_recorder" where
  "record_step clk level desc source tr =
     \<lparr>steps = steps tr @ [\<lparr>ts_id = ''step_'' @ nat_str (unat (next_id tr)), ts_level = level,
        ts_description = desc, ts_source_location = source,
        ts_timestamp = clk (length (steps tr)), ts_parent_id = None\<rparr>],
      next_id = next_id tr + 1\<rparr>"

definition record_expression :: "(nat \<Rightarrow> int) \<Rightarrow> string \<Rightarrow> string \<Rightarrow> trace_recorder \<Rightarrow> trace_recorder" where
  "record_expression clk desc source = record_step clk Expression desc source"

definition record_rule :: "(nat \<Rightarrow> int) \<Rightarrow> string \<Rightarrow> bool \<Rightarrow> trace_recorder \<Rightarrow> trace_recorder" where
  "record_rule clk name m =
     record_step clk Rule (name @ '' (matched='' @ (if m then ''true'' else ''false'') @ '')'') name"

definition record_tree_branch :: "(nat \<Rightarrow> int) \<Rightarrow> string \<Rightarrow> string \<Rightarrow> string \<Rightarrow> trace_recorder \<Rightarrow> trace_recorder" where
  "record_tree_branch clk field val branch =
     record_step clk TreeBranch (field @ ''='' @ val @ '' -> '' @ branch) field"

definition record_scoring :: "(nat \<Rightarrow> int) \<Rightarrow> string \<Rightarrow> dbl \<Rightarrow> trace_recorder \<Rightarrow> trace_recorder" where
  "record_scoring clk desc s =
     record_step clk Scoring (desc @ '' score='' @ double_to_string s) desc"

subsection \<open>The walk\<close>

record walk_result =
  walk_label :: string
  walk_score :: dbl
  walk_recommendation :: string

definition match_numeric :: "string \<Rightarrow> dbl \<Rightarrow> bool" where
  "match_numeric key val =
     (case key of
        [] \<Rightarrow> False
      | op # rest \<Rightarrow>
          (let two = (case rest of [] \<Rightarrow> False | c # _ \<Rightarrow> c = CHR ''='');
               offset = (if two then 2 else 1)
           in if length key \<le> offset then False
              else (case stod (drop offset key) of
                      None \<Rightarrow> False
                    | Some t \<Rightarrow>
                        if op = CHR ''>'' then (if two then d_ge val t else d_gt val t)
                        else if op = CHR ''<'' then (if two then d_le val t else d_lt val t)
                        else False)))"

text \<open>The branch a fact selects: the value shown in the trace, the key, the child.\<close>

definition numeric_branch :: "(string, decision_node) smap \<Rightarrow> dbl \<Rightarrow> (string \<times> string \<times> decision_node) option" where
  "numeric_branch bs d =
     map_option (\<lambda>(k, c). (double_to_string d, k, c)) (find (\<lambda>(k, c). match_numeric k d) bs)"

definition select_branch :: "(string, decision_node) smap \<Rightarrow> rvalue option \<Rightarrow>
    (string \<times> string \<times> decision_node) option" where
  "select_branch bs fv =
     (case fv of
        None \<Rightarrow> None
      | Some v \<Rightarrow>
          (case as_string v of
             Some s \<Rightarrow>
               (case sm_get bs s of
                  Some c \<Rightarrow> Some (s, s, c)
                | None \<Rightarrow> (case as_double v of None \<Rightarrow> None | Some d \<Rightarrow> numeric_branch bs d))
           | None \<Rightarrow> (case as_double v of None \<Rightarrow> None | Some d \<Rightarrow> numeric_branch bs d)))"

lemma select_branch_mem: "select_branch bs fv = Some (x, k, c) \<Longrightarrow> (k, c) \<in> set bs"
  by (auto simp: select_branch_def numeric_branch_def sm_get_def find_Some_iff
      split: option.splits dest: map_of_SomeD) (metis nth_mem)+

lemma size_branch: "(k, c) \<in> set bs \<Longrightarrow> size c < Suc (size_list (size_prod (\<lambda>_. 0) size) bs)"
  by (induction bs) auto

function walk :: "(dbl \<Rightarrow> dbl) \<Rightarrow> (nat \<Rightarrow> int) \<Rightarrow> fact_base \<Rightarrow> decision_node \<Rightarrow> trace_recorder \<Rightarrow>
    (walk_result \<times> trace_recorder) option" where
  "walk ex clk fb (LeafNode fs lbl rec) tr =
     (case compute_max ex fs fb of
        None \<Rightarrow> None
      | Some s \<Rightarrow> Some
          (\<lparr>walk_label = lbl, walk_score = s, walk_recommendation = rec\<rparr>,
           record_scoring clk (''Leaf: '' @ lbl @ '' score='' @ double_to_string s) s tr))"
| "walk ex clk fb (BranchNode field bs def) tr =
     (case select_branch bs (fb_get fb field) of
        Some (val, key, child) \<Rightarrow> walk ex clk fb child (record_tree_branch clk field val key tr)
      | None \<Rightarrow>
          (let tr' = record_tree_branch clk field
                 (case fb_get fb field of Some _ \<Rightarrow> ''value'' | None \<Rightarrow> ''missing'') ''default'' tr
           in case def of
                None \<Rightarrow> Some (\<lparr>walk_label = ''UNCERTAIN'', walk_score = Fin False 0,
                   walk_recommendation = ''No matching branch and no default''\<rparr>, tr')
              | Some d \<Rightarrow> walk ex clk fb d tr'))"
  by pat_completeness auto

termination
  by (relation "measure (\<lambda>(ex, clk, fb, n, tr). size n)")
     (auto dest!: select_branch_mem dest: size_branch)

subsection \<open>Scores lie in the unit interval\<close>

definition unit_score :: "dbl \<Rightarrow> bool" where
  "unit_score d \<longleftrightarrow> \<not> d_is_nan d \<and> d_le (Fin False 0) d \<and> d_le d (Fin False 1)"

text \<open>What \<open>std::exp\<close> documents: the result is NaN or not negative.\<close>

definition exp_nonneg :: "(dbl \<Rightarrow> dbl) \<Rightarrow> bool" where
  "exp_nonneg ex \<longleftrightarrow> (\<forall>x. d_is_nan (ex x) \<or> d_le (Fin False 0) (ex x))"

lemma unit_score_Fin: "0 \<le> m \<Longrightarrow> m \<le> 1 \<Longrightarrow> unit_score (Fin False m)"
  by (auto simp: unit_score_def d_le_def)

lemma one_plus:
  assumes "d_le (Fin False 0) e"
  shows "d_add (Fin False 1) e = Inf False \<or> (\<exists>m \<ge> 1. d_add (Fin False 1) e = Fin False m)"
proof (cases e)
  case (Fin s q)
  then have "0 \<le> fval (Fin s q)" using assms by (auto simp: d_le_def)
  then have r: "1 \<le> fval (Fin False 1) + fval (Fin s q)" by simp
  then have "d_add (Fin False 1) e = round_fmt binary64 False (fval (Fin False 1) + fval (Fin s q))"
    by (simp add: Fin round_rat_def del: fval.simps)
  then show ?thesis using round_ge_1 [OF r] by presburger
next
  case (Inf s)
  then show ?thesis using assms by (cases s) (simp_all add: d_le_def)
qed (use assms in \<open>simp add: d_le_def\<close>)

lemma sigmoid_unit: "exp_nonneg ex \<Longrightarrow> d_is_nan (sigmoid ex x) \<or> unit_score (sigmoid ex x)"
proof -
  assume ex: "exp_nonneg ex"
  let ?e = "ex (d_neg x)"
  show ?thesis
  proof (cases "d_is_nan ?e")
    case True
    then show ?thesis by (cases ?e) (simp_all add: sigmoid_def)
  next
    case False
    then have "d_le (Fin False 0) ?e" using ex by (auto simp: exp_nonneg_def)
    from one_plus [OF this] show ?thesis
    proof (elim disjE exE conjE)
      assume "d_add (Fin False 1) ?e = Inf False"
      then show ?thesis using unit_score_Fin [of 0] by (simp add: sigmoid_def)
    next
      fix m :: rat assume m: "1 \<le> m" and d: "d_add (Fin False 1) ?e = Fin False m"
      then have "0 \<le> 1 / m" "1 / m \<le> 1" by (simp_all add: divide_le_eq)
      from round_le_1 [OF this] show ?thesis
        using m unit_score_Fin by (auto simp: sigmoid_def d)
    qed
  qed
qed

lemma max_score_unit:
  "exp_nonneg ex \<Longrightarrow> unit_score best \<Longrightarrow> max_score ex fb best fs = Some s \<Longrightarrow> unit_score s"
proof (induction fs arbitrary: best)
  case (Cons f fs)
  from Cons.prems(3) obtain r where r: "compute_score ex f fb = Some r"
    by (auto split: option.splits)
  then obtain x where "r = sigmoid ex x" by (auto simp: compute_score_def)
  then have "d_is_nan r \<or> unit_score r" using sigmoid_unit [OF Cons.prems(1)] by simp
  then have "unit_score (if d_gt r best then r else best)"
    using Cons.prems(2) by (cases r) (auto simp: d_gt_def)
  then show ?case using Cons.IH Cons.prems r by simp
qed simp

lemma compute_max_unit: "exp_nonneg ex \<Longrightarrow> compute_max ex fs fb = Some s \<Longrightarrow> unit_score s"
  unfolding compute_max_def using max_score_unit unit_score_Fin [of 0] by auto

text \<open>A score is computed whenever every formula has a weight for each of its features.\<close>

definition formula_ok :: "score_formula \<Rightarrow> bool" where
  "formula_ok f \<longleftrightarrow> length (features f) \<le> length (weights f)"

lemma weighted_sum_defined: "length fs \<le> length ws \<Longrightarrow> weighted_sum fb ws fs acc \<noteq> None"
proof (induction fb ws fs acc rule: weighted_sum.induct)
  case (2 fb ws f fs acc)
  then show ?case by (cases ws) (auto split: option.split)
qed simp

lemma compute_max_defined: "list_all formula_ok fs \<Longrightarrow> compute_max ex fs fb \<noteq> None"
proof -
  have "list_all formula_ok fs \<Longrightarrow> max_score ex fb best fs \<noteq> None" for best
  proof (induction fs arbitrary: best)
    case (Cons f fs)
    then have "compute_score ex f fb \<noteq> None"
      using weighted_sum_defined by (simp add: compute_score_def formula_ok_def)
    then show ?case using Cons by auto
  qed simp
  then show "list_all formula_ok fs \<Longrightarrow> compute_max ex fs fb \<noteq> None"
    by (simp add: compute_max_def)
qed

subsection \<open>Where a walk ends\<close>

inductive walks_to :: "fact_base \<Rightarrow> decision_node \<Rightarrow> decision_node \<Rightarrow> bool" for fb where
  at_leaf: "walks_to fb (LeafNode fs lbl rec) (LeafNode fs lbl rec)"
| selected: "select_branch bs (fb_get fb field) = Some (val, key, child) \<Longrightarrow>
    walks_to fb child leaf \<Longrightarrow> walks_to fb (BranchNode field bs def) leaf"
| defaulted: "select_branch bs (fb_get fb field) = None \<Longrightarrow>
    walks_to fb child leaf \<Longrightarrow> walks_to fb (BranchNode field bs (Some child)) leaf"

inductive_simps walks_to_leaf: "walks_to fb (LeafNode fs lbl rec) leaf"
inductive_simps walks_to_branch: "walks_to fb (BranchNode field bs def) leaf"

text \<open>Every branch has a default child, and every leaf has formulas that \<open>P\<close> holds of.\<close>

function tree_ok :: "(score_formula \<Rightarrow> bool) \<Rightarrow> decision_node \<Rightarrow> bool" where
  "tree_ok P (LeafNode fs lbl rec) \<longleftrightarrow> list_all P fs"
| "tree_ok P (BranchNode field bs def) \<longleftrightarrow>
     (case def of None \<Rightarrow> False | Some d \<Rightarrow> tree_ok P d) \<and> (\<forall>b \<in> set bs. tree_ok P (snd b))"
  by pat_completeness auto

termination
  by (relation "measure (\<lambda>(P, n). size n)") (auto dest: size_branch)

lemma walks_to_unique: "walks_to fb n l1 \<Longrightarrow> walks_to fb n l2 \<Longrightarrow> l1 = l2"
  by (induction arbitrary: l2 rule: walks_to.induct) (auto simp: walks_to_leaf walks_to_branch)

lemma walk_reaches_leaf:
  "tree_ok P n \<Longrightarrow> \<exists>fs lbl rec. walks_to fb n (LeafNode fs lbl rec) \<and> list_all P fs \<and>
     map_option fst (walk ex clk fb n tr) = map_option (\<lambda>s.
       \<lparr>walk_label = lbl, walk_score = s, walk_recommendation = rec\<rparr>) (compute_max ex fs fb)"
proof (induction ex clk fb n tr rule: walk.induct)
  case (1 ex clk fb fs lbl rec tr)
  then show ?case by (auto simp: walks_to_leaf split: option.split)
next
  case (2 ex clk fb field bs def tr)
  from "2.prems" obtain d where d: "def = Some d" "tree_ok P d" by (auto split: option.splits)
  show ?case
  proof (cases "select_branch bs (fb_get fb field)")
    case None
    then show ?thesis using "2.IH"(1) [OF None refl d(1) d(2)] d
      by (fastforce simp: walks_to_branch Let_def)
  next
    case (Some sel)
    obtain val key child where sel: "sel = (val, key, child)" by (cases sel)
    then have "tree_ok P child" using select_branch_mem Some "2.prems" by fastforce
    then show ?thesis using "2.IH"(2) [OF Some [unfolded sel] refl refl] Some sel
      by (fastforce simp: walks_to_branch)
  qed
qed

lemma smap_emplace_set: "set (sm_emplace k v m) \<subseteq> insert (k, v) (set m)"
  using set_sm_put_pairs [of k v m] by (auto simp: sm_emplace_def)

lemma parse_tree_ok:
  "parse_node cv y = Inr (Inr n) \<Longrightarrow> tree_ok (\<lambda>_. True) n"
  "parse_branches cv bs acc = Inr (Inr m) \<Longrightarrow> \<forall>b \<in> set acc. tree_ok (\<lambda>_. True) (snd b) \<Longrightarrow>
   \<forall>b \<in> set m. tree_ok (\<lambda>_. True) (snd b)"
proof (induction cv y and cv bs acc arbitrary: n and m rule: parse_node_parse_branches.induct)
  case (2 cv kvs)
  obtain t type where t: "y_at kvs ''type'' = Some t" "text_must cv t = Inr (Inr type)"
    using "2.prems" by (auto simp: then_ok_Inr invalid_tree_def split: option.splits)
  show ?case
  proof (cases "type = ''branch''")
    case True
    then obtain f field bs d child where
      f: "y_at kvs ''field'' = Some f" "text_must cv f = Inr (Inr field)"
      and bs: "(case y_at kvs ''branches'' of Some (YMap b) \<Rightarrow> parse_branches cv b []
                  | _ \<Rightarrow> returning []) = Inr (Inr bs)"
      and d: "y_at kvs ''default'' = Some d" "parse_node cv d = Inr (Inr child)"
      and n: "n = BranchNode field bs (Some child)"
      using "2.prems" t
      by (auto simp: then_ok_Inr invalid_tree_def returning_def split: option.split_asm)
    have "tree_ok (\<lambda>_. True) child" by (rule "2.IH"(2) [OF t(1) refl f(1) d])
    moreover have "\<forall>b \<in> set bs. tree_ok (\<lambda>_. True) (snd b)"
    proof (cases "\<exists>b. y_at kvs ''branches'' = Some (YMap b)")
      case True
      then obtain b where b: "y_at kvs ''branches'' = Some (YMap b)" by blast
      then have pb: "parse_branches cv b [] = Inr (Inr bs)" using bs by simp
      have e: "\<forall>b \<in> set ([] :: (string \<times> decision_node) list). tree_ok (\<lambda>_. True) (snd b)" by simp
      show ?thesis by (rule "2.IH"(1) [OF t(1) refl f(1) b refl pb e])
    next
      case False
      then have "bs = []" using bs by (auto simp: returning_def split: option.splits yaml.splits)
      then show ?thesis by simp
    qed
    ultimately show ?thesis by (simp add: n)
  next
    case False
    then have "parse_leaf cv kvs = Inr (Inr n)"
      using "2.prems" t by (auto simp: then_ok_def invalid_tree_def split: if_splits)
    then show ?thesis by (auto simp: parse_leaf_def then_ok_Inr returning_def list_all_iff)
  qed
next
  case (5 cv k y rest acc)
  from "5.prems"(1) obtain child where c: "parse_node cv y = Inr (Inr child)"
      "parse_branches cv rest (sm_emplace k child acc) = Inr (Inr m)"
    by (auto simp: then_ok_Inr)
  have "\<forall>b \<in> set (sm_emplace k child acc). tree_ok (\<lambda>_. True) (snd b)"
    using "5.IH"(1) [OF c(1)] "5.prems"(2) smap_emplace_set [of k child acc] by auto
  then show ?case using "5.IH"(2) c by blast
qed (auto simp: invalid_tree_def returning_def)

end
