(* ===== verification/Reasoner.thy ===== *)
theory Reasoner
  imports Decision_Tree
begin

text \<open>
  The reasoner (\<open>src/reasoner/reasoner.cpp\<close>) and its evidence
  (\<open>src/reasoner/evidence_collector.cpp\<close>): rule results and the walk of the decision tree
  become a verdict with trace, evidence and the lists of rules.
\<close>

subsection \<open>Evidence\<close>

record evidence_item =
  trace_id :: string
  ev_key :: string
  ev_value :: rvalue
  ev_source :: fact_source
  ev_description :: string

text \<open>\<open>haystack.find(needle) != npos\<close>.\<close>

fun contains :: "string \<Rightarrow> string \<Rightarrow> bool" where
  "contains [] needle = (needle = [])"
| "contains (c # cs) needle =
     (if take (length needle) (c # cs) = needle then True else contains cs needle)"

text \<open>The first step that mentions each fact key.\<close>

definition mention :: "string list \<Rightarrow> trace_step \<Rightarrow> (string, string) smap \<Rightarrow> (string, string) smap" where
  "mention keys st m =
     fold (\<lambda>k m. if contains (ts_description st) k \<and> \<not> sm_has m k then sm_put k (ts_id st) m else m)
       keys m"

definition key_to_trace :: "string list \<Rightarrow> trace_step list \<Rightarrow> (string, string) smap" where
  "key_to_trace keys tr = fold (mention keys) tr []"

definition id_or_empty :: "string option \<Rightarrow> string" where
  "id_or_empty x = (case x of Some i \<Rightarrow> i | None \<Rightarrow> '''')"

definition fact_evidence :: "(string, string) smap \<Rightarrow> (string \<times> fact_source) list \<Rightarrow>
    string \<times> rvalue \<Rightarrow> evidence_item" where
  "fact_evidence links sources e =
     (case e of (k, v) \<Rightarrow>
       \<lparr>trace_id = id_or_empty (sm_get links k), ev_key = k, ev_value = v,
        ev_source = (case find (\<lambda>p. fst p = k) sources of
                       Some p \<Rightarrow> snd p | None \<Rightarrow> mk_source Default ''''),
        ev_description = ''fact: '' @ k\<rparr>)"

definition rule_evidence :: "resolved_rule \<Rightarrow> evidence_item" where
  "rule_evidence r =
     \<lparr>trace_id = (case eval_trace r of [] \<Rightarrow> '''' | st # _ \<Rightarrow> ts_id st), ev_key = res_name r,
      ev_value = of_double (base_severity (res_action r)),
      ev_source = mk_source (if matched r then Computed else Default) ''rule evaluation'',
      ev_description = ''rule: '' @ res_name r @ (if matched r then '' (matched)'' else '' (unmatched)'')\<rparr>"

definition pack_evidence :: "fact_base \<Rightarrow> trace_step list \<Rightarrow> resolved_rule list \<Rightarrow> evidence_item list" where
  "pack_evidence fb tr rules =
     (let links = key_to_trace (map fst (fb_all_entries fb)) tr
      in map (fact_evidence links (fb_all_sources fb)) (fb_all_entries fb) @ map rule_evidence rules)"

subsection \<open>Reasoning\<close>

record reasoning_result =
  verdict :: string
  severity :: dbl
  rr_recommendation :: string
  confidence :: dbl
  rr_trace :: "trace_step list"
  rr_evidence :: "evidence_item list"
  triggered_rules :: "string list"
  overridden_rules :: "string list"
  surface_id :: string
  position_id :: "16 word"

definition trace_matched_rule :: "(nat \<Rightarrow> int) \<Rightarrow> resolved_rule \<Rightarrow> trace_recorder \<Rightarrow> trace_recorder" where
  "trace_matched_rule clk r tr =
     (if matched r
      then fold (\<lambda>st. record_expression clk (ts_description st) (ts_source_location st)) (eval_trace r)
             (record_rule clk (res_name r) True tr)
      else tr)"

definition verdict_of :: "verdict_mapping \<Rightarrow> string \<Rightarrow> dbl \<Rightarrow> string" where
  "verdict_of vm lbl s =
     (if lbl = ''NG'' \<or> lbl = ''WARN'' \<or> lbl = ''OK'' \<or> lbl = ''UNCERTAIN'' then lbl
      else if d_gt s (ng_threshold vm) then ''NG''
      else if d_gt s (warn_threshold vm) then ''WARN''
      else ''OK'')"

definition reason :: "(dbl \<Rightarrow> dbl) \<Rightarrow> (nat \<Rightarrow> int) \<Rightarrow> decision_tree \<Rightarrow> fact_base \<Rightarrow> resolved_rule list \<Rightarrow>
    reasoning_result result option" where
  "reason ex clk tree fb rules =
     (let tr0 = fold (trace_matched_rule clk) rules new_recorder
      in case walk ex clk fb (tree_root tree) tr0 of
           None \<Rightarrow> None
         | Some (w, tr) \<Rightarrow> Some (Inr
             \<lparr>verdict = verdict_of (mapping tree) (walk_label w) (walk_score w),
              severity = walk_score w, rr_recommendation = walk_recommendation w,
              confidence = walk_score w, rr_trace = steps tr,
              rr_evidence = pack_evidence fb (steps tr) rules,
              triggered_rules = map res_name (filter matched rules),
              overridden_rules = map res_name (filter (\<lambda>r. \<not> matched r) rules),
              surface_id = '''', position_id = 0\<rparr>))"

text \<open>\<open>ReloadTree\<close>: an exception leaves the reasoner with the old tree, too.\<close>

definition reload_tree :: "'a load_conv_scheme \<Rightarrow> string \<Rightarrow> yaml_exception + yaml \<Rightarrow> decision_tree \<Rightarrow>
    unit thrown \<times> decision_tree" where
  "reload_tree cv path doc tree =
     (case load_tree cv path doc of
        Inr (Inr t) \<Rightarrow> (returning (), t)
      | Inr (Inl err) \<Rightarrow> (Inr (Inl err), tree)
      | Inl x \<Rightarrow> (Inl x, tree))"

subsection \<open>The recorder numbers its steps\<close>

definition recorder_ok :: "trace_recorder \<Rightarrow> bool" where
  "recorder_ok tr \<longleftrightarrow> next_id tr = of_nat (length (steps tr)) \<and>
     map ts_id (steps tr) = map (\<lambda>i. ''step_'' @ nat_str (unat (of_nat i :: 64 word))) [0..<length (steps tr)]"

lemma recorder_ok_new [invariant_intros]: "recorder_ok new_recorder"
  by (simp add: recorder_ok_def new_recorder_def)

lemma recorder_ok_step [invariant_intros]: "recorder_ok tr \<Longrightarrow> recorder_ok (record_step clk lv d s tr)"
  by (simp add: recorder_ok_def record_step_def)

lemma recorder_ok_walk:
  "walk ex clk fb n tr = Some (w, tr') \<Longrightarrow> recorder_ok tr \<Longrightarrow>
   recorder_ok tr' \<and> length (steps tr) < length (steps tr')"
proof (induction ex clk fb n tr rule: walk.induct)
  case (1 ex clk fb fs lbl rec tr)
  then show ?case
    by (auto simp: record_scoring_def intro: recorder_ok_step split: option.splits)
      (simp add: record_step_def)
next
  case (2 ex clk fb field bs def tr)
  have ok: "recorder_ok (record_tree_branch clk field v k tr)"
    and len: "length (steps (record_tree_branch clk field v k tr)) = Suc (length (steps tr))" for v k
    using "2.prems"(2) by (auto simp: record_tree_branch_def intro: recorder_ok_step)
      (simp add: record_step_def)
  show ?case
  proof (cases "select_branch bs (fb_get fb field)")
    case None
    then show ?thesis using "2.prems" "2.IH"(1) [OF None refl] ok len
      by (cases "def") (auto simp: Let_def less_Suc_eq_le dest!: Suc_leI)
  next
    case (Some sel)
    obtain val key child where sel: "sel = (val, key, child)" by (cases sel)
    then show ?thesis using "2.prems" "2.IH"(2) [OF Some [unfolded sel] refl refl] Some ok len by auto
  qed
qed

lemma recorder_ok_rules:
  "recorder_ok tr \<Longrightarrow> recorder_ok (fold (trace_matched_rule clk) rules tr)"
proof (induction rules arbitrary: tr)
  case (Cons r rules)
  have "recorder_ok tr' \<Longrightarrow> recorder_ok (fold (\<lambda>st. record_expression clk (ts_description st)
      (ts_source_location st)) sts tr')" for sts tr'
    by (induction sts arbitrary: tr') (auto simp: record_expression_def intro: recorder_ok_step)
  then have "recorder_ok (trace_matched_rule clk r tr)"
    using Cons.prems by (auto simp: trace_matched_rule_def record_rule_def intro: recorder_ok_step)
  then show ?case using Cons.IH by simp
qed simp

lemma mention_get: "sm_get (mention keys st m) k =
    (case sm_get m k of Some i \<Rightarrow> Some i
     | None \<Rightarrow> if k \<in> set keys \<and> contains (ts_description st) k then Some (ts_id st) else None)"
proof -
  let ?f = "\<lambda>k m. if contains (ts_description st) k \<and> \<not> sm_has m k then sm_put k (ts_id st) m else m"
  have "sm_get (fold ?f keys m) k =
    (case sm_get m k of Some i \<Rightarrow> Some i
     | None \<Rightarrow> if k \<in> set keys \<and> contains (ts_description st) k then Some (ts_id st) else None)"
  proof (induction keys arbitrary: m)
    case (Cons x keys)
    then show ?case by (auto simp: sm_has_iff split: option.splits)
  qed (simp split: option.split)
  then show ?thesis by (simp add: mention_def)
qed

lemma key_to_trace_get: "sm_get (key_to_trace keys tr) k =
    (if k \<in> set keys then map_option ts_id (find (\<lambda>st. contains (ts_description st) k) tr) else None)"
proof -
  have "sm_get (fold (mention keys) tr m) k = (case sm_get m k of Some i \<Rightarrow> Some i
     | None \<Rightarrow> if k \<in> set keys then map_option ts_id (find (\<lambda>st. contains (ts_description st) k) tr)
               else None)" for m
  proof (induction tr arbitrary: m)
    case (Cons st tr)
    show ?case by (simp add: Cons.IH mention_get split: option.split)
  qed (simp split: option.split)
  from this [of "[]"] show ?thesis by (simp add: key_to_trace_def)
qed

lemma nat_str_ids_distinct:
  "n \<le> 2 ^ 64 \<Longrightarrow> distinct (map (\<lambda>i. ''step_'' @ nat_str (unat (of_nat i :: 64 word))) [0..<n])"
  by (auto simp: distinct_map inj_on_def nat_str_inject unat_of_nat take_bit_eq_mod)

subsection \<open>Properties\<close>





text \<open>
  A loaded tree is total: every tree \<open>LoadFromYAML\<close> returns has a default at every
  branch, so from any facts exactly one leaf is reached and the fallback result of the
  walk is never returned.
\<close>

theorem loaded_tree_total:
  assumes "load_tree cv path doc = Inr (Inr tree)"
  shows "\<exists>!leaf. walks_to fb (tree_root tree) leaf"
proof -
  have "\<exists>y. parse_node cv y = Inr (Inr (tree_root tree))"
    using assms
    by (cases doc) (fastforce simp: load_tree_def then_ok_Inr returning_def split: option.splits)+
  then have "tree_ok (\<lambda>_. True) (tree_root tree)" using parse_tree_ok(1) by blast
  from walk_reaches_leaf [OF this] obtain leaf where "walks_to fb (tree_root tree) leaf" by blast
  with walks_to_unique show ?thesis by blast
qed

theorem loaded_tree_total_witness:
  "\<exists>tree. load_tree demo_load_conv ''t.yaml'' (Inr (YMap [(''type'', YScalar ''branch''),
      (''field'', YScalar ''kind''), (''default'', YMap [(''type'', YScalar ''leaf'')])])) =
      Inr (Inr tree) \<and> (\<exists>!leaf. walks_to empty_facts (tree_root tree) leaf)"
proof -
  let ?doc = "Inr (YMap [(''type'', YScalar ''branch''),
      (''field'', YScalar ''kind''), (''default'', YMap [(''type'', YScalar ''leaf'')])])"
  obtain tree where t: "load_tree demo_load_conv ''t.yaml'' ?doc = Inr (Inr tree)"
    by (simp add: load_tree_def y_at_def text_must_def text_of_def returning_def then_ok_def
        parse_leaf_def text_opt_def throwing_def y_index_def)
  from loaded_tree_total [OF t] t show ?thesis by blast
qed

text \<open>
  Step identifiers: the trace of a result is numbered from \<open>step_0\<close> in recording
  order; below $2^{64}$ steps the identifiers are pairwise different.
\<close>

theorem reason_trace_ids:
  assumes "reason ex clk tree fb rules = Some (Inr r)" "length (rr_trace r) \<le> 2 ^ 64"
  shows "distinct (map ts_id (rr_trace r)) \<and> rr_trace r \<noteq> []"
proof -
  let ?tr0 = "fold (trace_matched_rule clk) rules new_recorder"
  obtain w tr where "walk ex clk fb (tree_root tree) ?tr0 = Some (w, tr)" "rr_trace r = steps tr"
    using assms(1) by (auto simp: reason_def Let_def split: option.splits)
  moreover have "recorder_ok ?tr0" by (intro recorder_ok_rules recorder_ok_new)
  ultimately have "recorder_ok tr" "steps tr \<noteq> []" using recorder_ok_walk by fastforce+
  then show ?thesis
    using assms(2) \<open>rr_trace r = steps tr\<close> nat_str_ids_distinct by (simp add: recorder_ok_def)
qed

theorem reason_trace_ids_witness:
  "\<exists>r. reason (\<lambda>_. Fin False 0) (\<lambda>_. 0) \<lparr>tree_root = LeafNode [] ''OK'' '''', mapping = default_mapping\<rparr>
      empty_facts [demo_resolved ''a''] = Some (Inr r) \<and> distinct (map ts_id (rr_trace r))"
proof -
  let ?tree = "\<lparr>tree_root = LeafNode [] ''OK'' '''', mapping = default_mapping\<rparr>"
  obtain r where r: "reason (\<lambda>_. Fin False 0) (\<lambda>_. 0) ?tree empty_facts [demo_resolved ''a''] = Some (Inr r)"
    "length (rr_trace r) = 2"
    by (simp add: reason_def compute_max_def Let_def record_scoring_def record_step_def
        trace_matched_rule_def demo_resolved_def record_rule_def new_recorder_def)
  then have "length (rr_trace r) \<le> 2 ^ 64" by simp
  from reason_trace_ids [OF r(1) this] r(1) show ?thesis by blast
qed

text \<open>
  Evidence: the evidence lists every fact, in key order, then every rule; a fact's
  item carries its value, its source and the identifier of the first trace step whose
  description mentions its key (empty if none does).
\<close>

theorem pack_evidence_spec:
  "pack_evidence fb tr rules =
     map (\<lambda>(k, e). \<lparr>trace_id = id_or_empty (map_option ts_id
             (find (\<lambda>st. contains (ts_description st) k) tr)),
          ev_key = k, ev_value = entry_value e, ev_source = fb_source_of fb k,
          ev_description = ''fact: '' @ k\<rparr>) (entries fb) @ map rule_evidence rules"
proof -
  have src: "(case find (\<lambda>p. fst p = k) (fb_all_sources fb) of Some p \<Rightarrow> snd p
      | None \<Rightarrow> mk_source Default '''') = fb_source_of fb k" for k
  proof -
    have "find (\<lambda>p. fst p = k) (map (\<lambda>(k, e). (k, entry_source e)) m) =
        map_option (\<lambda>e. (k, entry_source e)) (map_of m k)" for m :: "(string \<times> fact_entry) list"
      by (induction m) auto
    then show ?thesis
      by (simp add: fb_all_sources_def fb_source_of_def sm_get_def split: option.split)
  qed
  have keys: "map fst (fb_all_entries fb) = map fst (entries fb)"
    by (simp add: fb_all_entries_def case_prod_beta)
  show ?thesis
    unfolding pack_evidence_def Let_def keys fb_all_entries_def
    by (auto simp: fact_evidence_def key_to_trace_get src rev_image_eqI)
qed

text \<open>
  Hot reload is safe: whatever goes wrong while reading the new tree, by error or by
  exception, the reasoner keeps its old tree; on success it has exactly the loaded one.
\<close>

theorem reload_tree_spec:
  "reload_tree cv path doc tree =
     (map_sum id (map_sum id (\<lambda>_. ())) (load_tree cv path doc),
      case load_tree cv path doc of Inr (Inr t) \<Rightarrow> t | _ \<Rightarrow> tree)"
  by (auto simp: reload_tree_def returning_def split: sum.split)

end
