(* ===== verification/Core.thy ===== *)
theory Core
  imports Prelude "HOL-Library.Word"
begin

unbundle bit_operations_syntax

text \<open>
  The core of the framework (\<open>include/sai/core\<close>, \<open>src/core\<close>): type identifiers by
  64-bit FNV-1a, the registries keyed by them, the lifecycle of a context and its modules,
  and rectangles. Locking is not modelled: every operation of a registry holds the lock
  from start to end, so operations are atomic.
\<close>

subsection \<open>Type identifiers\<close>

type_synonym type_id = "64 word"

definition byte_of :: "char \<Rightarrow> 64 word" where
  "byte_of c = word_of_nat (of_char c)"

definition fnv_basis :: "64 word" where
  "fnv_basis = 14695981039346656037"

definition fnv_prime :: "64 word" where
  "fnv_prime = 1099511628211"

definition fnv_step :: "64 word \<Rightarrow> char \<Rightarrow> 64 word" where
  "fnv_step h c = (h XOR byte_of c) * fnv_prime"

definition fnv1a_hash :: "string \<Rightarrow> type_id" where
  "fnv1a_hash name = foldl fnv_step fnv_basis name"

lemma fnv_prime_inverse: "fnv_prime * 14886173955864302971 = 1"
  by (simp add: fnv_prime_def)

lemma fnv_prime_cancel: "a * fnv_prime = b * fnv_prime \<longleftrightarrow> a = b"
proof
  assume "a * fnv_prime = b * fnv_prime"
  then have "a * (fnv_prime * 14886173955864302971) = b * (fnv_prime * 14886173955864302971)"
    by (simp only: mult.assoc [symmetric])
  then show "a = b" by (simp only: fnv_prime_inverse mult_1_right)
qed simp

lemma xor_cancel_right: "a XOR x = b XOR x \<longleftrightarrow> a = b" for a b x :: "64 word"
proof
  assume "a XOR x = b XOR x"
  then have "(a XOR x) XOR x = (b XOR x) XOR x" by (rule arg_cong)
  then show "a = b" by (simp add: xor.assoc)
qed simp

lemma byte_of_inject: "byte_of c = byte_of d \<longleftrightarrow> c = d"
proof
  assume eq: "byte_of c = byte_of d"
  have small: "unat (byte_of x) = of_char x" for x
  proof -
    have "of_char x < (2 ^ 64 :: nat)"
      using nat_of_char_less_256 [of x] by (rule less_le_trans) simp
    then show ?thesis by (simp add: byte_of_def unat_of_nat take_bit_nat_eq_self)
  qed
  have "of_char c = (of_char d :: nat)"
    using arg_cong [OF eq, of unat] by (simp only: small)
  then show "c = d" by simp
qed simp

lemma fnv_step_state: "fnv_step a c = fnv_step b c \<longleftrightarrow> a = b"
  by (simp add: fnv_step_def fnv_prime_cancel xor_cancel_right)

lemma fnv_step_char: "fnv_step a c = fnv_step a d \<longleftrightarrow> c = d"
proof -
  have "a XOR byte_of c = a XOR byte_of d \<longleftrightarrow> byte_of c = byte_of d"
    using xor_cancel_right [of "byte_of c" a "byte_of d"] by (simp add: xor.commute)
  then show ?thesis by (simp add: fnv_step_def fnv_prime_cancel byte_of_inject)
qed

lemma fnv_suffix: "foldl fnv_step a s = foldl fnv_step b s \<longleftrightarrow> a = b"
  by (induction s arbitrary: a b) (simp_all add: fnv_step_state)

subsection \<open>Registries\<close>

text \<open>The instances of a registry; a \<open>std::shared_mutex\<close> guards it in the source.\<close>

type_synonym 'v registry = "type_id \<Rightarrow> 'v option"

definition empty_registry :: "'v registry" where
  "empty_registry = (\<lambda>_. None)"

definition registry_register :: "type_id \<Rightarrow> 'v \<Rightarrow> 'v registry \<Rightarrow> unit result \<times> 'v registry" where
  "registry_register i x r =
     (case r i of
        Some _ \<Rightarrow> (Inl (ErrorInfo Core_TypeAlreadyRegistered ''type already registered''), r)
      | None \<Rightarrow> (Inr (), r(i \<mapsto> x)))"

definition registry_resolve :: "'v registry \<Rightarrow> type_id \<Rightarrow> 'v result" where
  "registry_resolve r i =
     (case r i of
        None \<Rightarrow> Inl (ErrorInfo Core_TypeNotFound ''type not found'')
      | Some x \<Rightarrow> Inr x)"

record type_info =
  ti_id :: type_id
  ti_name :: string

definition register_type :: "string \<Rightarrow> type_info registry \<Rightarrow> unit result \<times> type_info registry" where
  "register_type name r =
     (let i = fnv1a_hash name in registry_register i \<lparr>ti_id = i, ti_name = name\<rparr> r)"

definition resolve_type :: "type_info registry \<Rightarrow> type_id \<Rightarrow> type_info result" where
  "resolve_type r i =
     (case r i of
        None \<Rightarrow> Inl (ErrorInfo Core_TypeNotFound ''type not found'')
      | Some x \<Rightarrow> Inr x)"

text \<open>What the clients of a registry rely on.\<close>

locale registry_interface =
  fixes reg :: "'k \<Rightarrow> 'v \<Rightarrow> 'r \<Rightarrow> unit result \<times> 'r"
    and res :: "'r \<Rightarrow> 'k \<Rightarrow> 'v result"
  assumes reg_new: "\<not> has_value (res r k) \<Longrightarrow>
      has_value (fst (reg k x r)) \<and> res (snd (reg k x r)) k = Inr x"
    and reg_old: "has_value (res r k) \<Longrightarrow> \<not> has_value (fst (reg k x r)) \<and> snd (reg k x r) = r"
    and reg_other: "k' \<noteq> k \<Longrightarrow> res (snd (reg k x r)) k' = res r k'"
begin

lemma registered_for_good: "res r k' = Inr y \<Longrightarrow> res (snd (reg k x r)) k' = Inr y"
  using reg_old [of r k x] reg_other [of k' k x r] by (cases "k' = k") auto

lemma first_wins: "has_value (fst (reg k x r)) \<Longrightarrow> \<not> has_value (fst (reg k y (snd (reg k x r))))"
  using reg_new [of r k x] reg_old [of r k x] reg_old [of "snd (reg k x r)" k y]
  by (cases "has_value (res r k)") auto

lemma registered_for_good_many:
  "res r k = Inr y \<Longrightarrow> res (fold (\<lambda>(i, x) r. snd (reg i x r)) xs r) k = Inr y"
  by (induction xs arbitrary: r) (auto intro: registered_for_good)

end

interpretation core_registry: registry_interface registry_register registry_resolve
  by unfold_locales (auto simp: registry_register_def registry_resolve_def split: option.splits)

interpretation type_registry: registry_interface
    "\<lambda>i x r. registry_register i x r" resolve_type
  by unfold_locales (auto simp: registry_register_def resolve_type_def split: option.splits)

subsection \<open>Contexts and modules\<close>

datatype lifecycle_state = Created | Initialized | Running | Stopped | Destroyed

text \<open>The callbacks of a module act on a world \<open>'w\<close>; they may fail.\<close>

record 'w module_ops =
  on_initialize :: "'w \<Rightarrow> unit result \<times> 'w"
  on_start :: "'w \<Rightarrow> unit result \<times> 'w"
  on_stop :: "'w \<Rightarrow> unit result \<times> 'w"

record 'w app_context =
  ctx_state :: lifecycle_state
  ctx_modules :: "'w module_ops list"

definition new_context :: "'w app_context" where
  "new_context = \<lparr>ctx_state = Created, ctx_modules = []\<rparr>"

definition register_module :: "'w module_ops \<Rightarrow> 'w app_context \<Rightarrow> unit result \<times> 'w app_context" where
  "register_module m ctx =
     (if ctx_state ctx \<noteq> Created
      then (Inl (ErrorInfo Lifecycle_RegisterAfterAssembly
                   ''cannot register a module after assembly''), ctx)
      else (Inr (), ctx\<lparr>ctx_modules := ctx_modules ctx @ [m]\<rparr>))"

text \<open>Calls in order, up to the first failure.\<close>

primrec call_until_failure :: "('w \<Rightarrow> unit result \<times> 'w) list \<Rightarrow> 'w \<Rightarrow> unit result \<times> 'w" where
  "call_until_failure [] w = (Inr (), w)"
| "call_until_failure (f # fs) w =
     (case f w of
        (Inl err, w') \<Rightarrow> (Inl err, w')
      | (Inr _, w') \<Rightarrow> call_until_failure fs w')"

definition ctx_initialize :: "'w app_context \<Rightarrow> 'w \<Rightarrow> unit result \<times> 'w app_context \<times> 'w" where
  "ctx_initialize ctx w =
     (case call_until_failure (map on_initialize (ctx_modules ctx)) w of
        (Inl err, w') \<Rightarrow> (Inl err, ctx, w')
      | (Inr _, w') \<Rightarrow> (Inr (), ctx\<lparr>ctx_state := Initialized\<rparr>, w'))"

definition ctx_start :: "'w app_context \<Rightarrow> 'w \<Rightarrow> unit result \<times> 'w app_context \<times> 'w" where
  "ctx_start ctx w =
     (case call_until_failure (map on_start (ctx_modules ctx)) w of
        (Inl err, w') \<Rightarrow> (Inl err, ctx, w')
      | (Inr _, w') \<Rightarrow> (Inr (), ctx\<lparr>ctx_state := Running\<rparr>, w'))"

text \<open>Every call is made; the first error is kept.\<close>

primrec call_all :: "('w \<Rightarrow> unit result \<times> 'w) list \<Rightarrow> unit result \<Rightarrow> 'w \<Rightarrow> unit result \<times> 'w" where
  "call_all [] first w = (first, w)"
| "call_all (f # fs) first w =
     (case f w of (r, w') \<Rightarrow>
        call_all fs (if \<not> has_value r \<and> has_value first then r else first) w')"

definition ctx_stop :: "'w app_context \<Rightarrow> 'w \<Rightarrow> unit result \<times> 'w app_context \<times> 'w" where
  "ctx_stop ctx w =
     (case call_all (map on_stop (rev (ctx_modules ctx))) (Inr ()) w of
        (r, w') \<Rightarrow> (r, ctx\<lparr>ctx_state := Stopped\<rparr>, w'))"

definition current_state :: "'w app_context \<Rightarrow> lifecycle_state" where
  "current_state ctx = ctx_state ctx"

text \<open>The results the calls give when all are made, in order.\<close>

primrec outcomes :: "('w \<Rightarrow> unit result \<times> 'w) list \<Rightarrow> 'w \<Rightarrow> unit result list" where
  "outcomes [] w = []"
| "outcomes (f # fs) w = fst (f w) # outcomes fs (snd (f w))"

definition first_failure :: "unit result list \<Rightarrow> unit result" where
  "first_failure rs = (case find (\<lambda>r. \<not> has_value r) rs of Some r \<Rightarrow> r | None \<Rightarrow> Inr ())"

lemma first_failure_simps [simp]:
  "first_failure [] = Inr ()"
  "first_failure (Inl e # rs) = Inl e"
  "first_failure (Inr u # rs) = first_failure rs"
  by (simp_all add: first_failure_def)

lemma call_all_failed: "\<not> has_value first \<Longrightarrow>
    call_all fs first w = (first, fold (\<lambda>f w. snd (f w)) fs w)"
  by (induction fs arbitrary: w) (auto split: prod.split)

lemma call_all_eq: "call_all fs (Inr ()) w = (first_failure (outcomes fs w), fold (\<lambda>f w. snd (f w)) fs w)"
proof (induction fs arbitrary: w)
  case (Cons f fs)
  obtain r w' where f: "f w = (r, w')" by fastforce
  show ?case
  proof (cases r)
    case (Inl e)
    then show ?thesis using f by (simp add: call_all_failed)
  next
    case (Inr u)
    then show ?thesis using f Cons.IH by simp
  qed
qed simp

lemma call_until_failure_eq: "call_until_failure fs w =
    (let k = length (takeWhile has_value (outcomes fs w))
     in (first_failure (outcomes fs w), fold (\<lambda>f w. snd (f w)) (take (Suc k) fs) w))"
proof (induction fs arbitrary: w)
  case (Cons f fs)
  obtain r w' where f: "f w = (r, w')" by fastforce
  show ?case using f Cons.IH by (cases r) (auto simp: Let_def)
qed simp

subsection \<open>Rectangles\<close>

record rect =
  rx :: "64 word"
  ry :: "64 word"
  rwidth :: "64 word"
  rheight :: "64 word"

definition rect_area :: "rect \<Rightarrow> 64 word" where
  "rect_area r = rwidth r * rheight r"

definition rect_is_empty :: "rect \<Rightarrow> bool" where
  "rect_is_empty r \<longleftrightarrow> rwidth r = 0 \<or> rheight r = 0"

lemma rect_area_zero:
  assumes "unat (rwidth r) * unat (rheight r) < 2 ^ 64"
  shows "rect_area r = 0 \<longleftrightarrow> rect_is_empty r"
proof -
  have "unat (rect_area r) = unat (rwidth r) * unat (rheight r)"
    using assms unat_mult_lem [of "rwidth r" "rheight r"] by (simp add: rect_area_def)
  then show ?thesis
    by (metis mult_is_0 rect_is_empty_def unat_eq_zero unat_0)
qed

subsection \<open>Properties\<close>

text \<open>
  Type names that differ in one character never collide: the 64-bit FNV-1a identifiers
  of two names of the same length that differ in exactly one position are different.
\<close>

theorem fnv1a_one_char: "fnv1a_hash (p @ c # s) = fnv1a_hash (p @ d # s) \<longleftrightarrow> c = d"
  by (simp add: fnv1a_hash_def fnv_suffix fnv_step_char)

text \<open>
  Shutdown is complete: \<open>Stop\<close> calls every module once, in reverse order of
  registration, whatever the calls return; it reports the first failure, and the context
  ends up stopped.
\<close>

theorem ctx_stop_spec:
  "ctx_stop ctx w =
     (let fs = map on_stop (rev (ctx_modules ctx))
      in (first_failure (outcomes fs w), ctx\<lparr>ctx_state := Stopped\<rparr>, fold (\<lambda>f w. snd (f w)) fs w))"
  by (simp add: ctx_stop_def call_all_eq Let_def)

text \<open>
  Startup is all or nothing: \<open>Initialize\<close> calls the modules in order of registration up
  to and including the first that fails, reports that failure, and changes the state of the
  context exactly if none fails.
\<close>

theorem ctx_initialize_spec:
  "ctx_initialize ctx w =
     (let fs = map on_initialize (ctx_modules ctx);
          rs = outcomes fs w;
          w' = fold (\<lambda>f w. snd (f w)) (take (Suc (length (takeWhile has_value rs))) fs) w
      in (first_failure rs,
          if has_value (first_failure rs) then ctx\<lparr>ctx_state := Initialized\<rparr> else ctx, w'))"
proof -
  let ?rs = "outcomes (map on_initialize (ctx_modules ctx)) w"
  show ?thesis
    by (cases "first_failure ?rs") (auto simp: ctx_initialize_def call_until_failure_eq Let_def)
qed

end
