(* ===== verification/Plugin_Manager.thy ===== *)
theory Plugin_Manager
  imports Core Yaml "HOL-Library.Product_Lexorder"
begin

text \<open>
  Plugins (\<open>src/plugin/manifest.cpp\<close>, \<open>src/plugin/plugin_manager.cpp\<close>): manifests, version,
  capability and licence checks, loading with recursive dependency resolution, shutdown.
  The dynamic linker is the parameter \<open>loader\<close>; the callbacks of a plugin act on a world
  \<open>'w\<close> that the state carries. The recursion of \<open>EnsureLoaded\<close> carries fuel;
  \<open>load_total\<close> shows how much is enough.
\<close>

subsection \<open>Manifests\<close>

record semver =
  major :: "32 word"
  minor :: "32 word"
  patch :: "32 word"

record version_range =
  min_inclusive :: semver
  max_exclusive :: semver

record plugin_dependency =
  dep_name :: string
  required_version :: version_range

record plugin_manifest =
  mf_name :: string
  library_path :: string
  mf_version :: semver
  capabilities :: "string list"
  mf_dependencies :: "plugin_dependency list"
  license_token :: string

definition uint32_must :: "'a load_conv_scheme \<Rightarrow> yaml option \<Rightarrow> 32 word thrown" where
  "uint32_must cv y =
     (case y of
        None \<Rightarrow> Inl InvalidNode
      | Some n \<Rightarrow>
          (case y_scalar (Some n) of
             None \<Rightarrow> Inl BadConversion
           | Some s \<Rightarrow> (case as_uint32_text cv s of None \<Rightarrow> Inl BadConversion | Some k \<Rightarrow> returning k)))"

definition text_required :: "'a load_conv_scheme \<Rightarrow> yaml option \<Rightarrow> string thrown" where
  "text_required cv y = (case y of None \<Rightarrow> Inl InvalidNode | Some n \<Rightarrow> text_must cv n)"

text \<open>Indexing a node that may be undefined: an undefined node cannot be indexed.\<close>

definition child :: "yaml option \<Rightarrow> string \<Rightarrow> yaml option thrown" where
  "child y k = (case y of None \<Rightarrow> Inl InvalidNode | Some n \<Rightarrow> throwing (y_index n k))"

definition parse_semver :: "'a load_conv_scheme \<Rightarrow> yaml option \<Rightarrow> semver thrown" where
  "parse_semver cv y =
     then_ok (child y ''major'') (\<lambda>a. then_ok (uint32_must cv a) (\<lambda>ma.
     then_ok (child y ''minor'') (\<lambda>b. then_ok (uint32_must cv b) (\<lambda>mi.
     then_ok (child y ''patch'') (\<lambda>c. then_ok (uint32_must cv c) (\<lambda>pa.
       returning \<lparr>major = ma, minor = mi, patch = pa\<rparr>))))))"

definition parse_dependency :: "'a load_conv_scheme \<Rightarrow> yaml \<Rightarrow> plugin_dependency thrown" where
  "parse_dependency cv y =
     then_ok (child (Some y) ''required_version'') (\<lambda>range.
     then_ok (child (Some y) ''plugin_name'') (\<lambda>nm. then_ok (text_required cv nm) (\<lambda>name.
     then_ok (child range ''min_inclusive'') (\<lambda>lo. then_ok (parse_semver cv lo) (\<lambda>mn.
     then_ok (child range ''max_exclusive'') (\<lambda>hi. then_ok (parse_semver cv hi) (\<lambda>mx.
       returning \<lparr>dep_name = name,
         required_version = \<lparr>min_inclusive = mn, max_exclusive = mx\<rparr>\<rparr>)))))))"

primrec parse_dependencies :: "'a load_conv_scheme \<Rightarrow> yaml list \<Rightarrow> plugin_dependency list thrown" where
  "parse_dependencies cv [] = returning []"
| "parse_dependencies cv (y # ys) =
     then_ok (parse_dependency cv y) (\<lambda>d.
     then_ok (parse_dependencies cv ys) (\<lambda>ds. returning (d # ds)))"

definition dependency_nodes :: "yaml option \<Rightarrow> yaml list thrown" where
  "dependency_nodes y =
     (case y of
        Some (YSeq ys) \<Rightarrow> returning ys
      | Some (YMap (_ # _)) \<Rightarrow> Inl InvalidNode
      | _ \<Rightarrow> returning [])"

definition parse_manifest :: "'a load_conv_scheme \<Rightarrow> yaml \<Rightarrow> plugin_manifest thrown" where
  "parse_manifest cv y =
     then_ok (child (Some y) ''name'') (\<lambda>a. then_ok (text_required cv a) (\<lambda>name.
     then_ok (child (Some y) ''library_path'') (\<lambda>b. then_ok (text_required cv b) (\<lambda>lib.
     then_ok (child (Some y) ''version'') (\<lambda>c. then_ok (parse_semver cv c) (\<lambda>ver.
     then_ok (child (Some y) ''license_token'') (\<lambda>d. then_ok (text_required cv d) (\<lambda>lic.
     then_ok (child (Some y) ''capabilities'') (\<lambda>e. then_ok (throwing (name_list cv e)) (\<lambda>caps.
     then_ok (child (Some y) ''dependencies'') (\<lambda>f. then_ok (dependency_nodes f) (\<lambda>ns.
     then_ok (parse_dependencies cv ns) (\<lambda>deps.
       returning \<lparr>mf_name = name, library_path = lib, mf_version = ver, capabilities = caps,
         mf_dependencies = deps, license_token = lic\<rparr>)))))))))))))"

definition load_manifest :: "'a load_conv_scheme \<Rightarrow> yaml_exception + yaml \<Rightarrow> plugin_manifest result" where
  "load_manifest cv doc =
     (let failed = (\<lambda>x. Inl (ErrorInfo Core_ConstructionFailed
            (''failed to parse plugin manifest: '' @ what cv x)))
      in case doc of
           Inl x \<Rightarrow> failed x
         | Inr y \<Rightarrow> (case parse_manifest cv y of Inl x \<Rightarrow> failed x | Inr r \<Rightarrow> r))"

subsection \<open>Checks\<close>

definition check_version :: "version_range \<Rightarrow> semver \<Rightarrow> unit result" where
  "check_version required actual =
     (if major actual < major (min_inclusive required) \<or>
         major actual = major (min_inclusive required) \<and> minor actual < minor (min_inclusive required) \<or>
         major (max_exclusive required) < major actual \<or>
         major actual = major (max_exclusive required) \<and> minor (max_exclusive required) \<le> minor actual
      then Inl (ErrorInfo Plugin_VersionIncompatible ''plugin version incompatible with required range'')
      else Inr ())"

definition validate_license :: "string \<Rightarrow> unit result" where
  "validate_license token =
     (if token = [] then Inl (ErrorInfo Plugin_LicenseInvalid ''plugin license token is empty'') else Inr ())"

primrec validate_capabilities :: "string list \<Rightarrow> string list \<Rightarrow> unit result" where
  "validate_capabilities known [] = Inr ()"
| "validate_capabilities known (c # cs) =
     (if List.member known c then validate_capabilities known cs
      else Inl (ErrorInfo Plugin_CapabilityUnsupported
        (''declared capability '' @ [CHR 0x27] @ c @ [CHR 0x27] @ '' is not registered as known'')))"

subsection \<open>The manager\<close>

record 'w plugin =
  plugin_version :: semver
  plugin_module :: "'w module_ops"

text \<open>The dynamic linker: opening a library, its two symbols, what \<open>CreatePlugin\<close> returns.\<close>

record 'w loader =
  open_library :: "string \<Rightarrow> nat result"
  has_create :: "nat \<Rightarrow> bool"
  has_destroy :: "nat \<Rightarrow> bool"
  created :: "nat \<Rightarrow> 'w plugin option"

record 'w plugin_manager =
  pm_registry :: "'w plugin registry"
  known_capabilities :: "string list"
  manifest_index :: "string \<Rightarrow> plugin_manifest option"
  library_handles :: "string \<Rightarrow> nat option"
  load_order :: "type_id list"
  pm_world :: 'w

type_synonym 'w pm_op = "'w plugin_manager \<Rightarrow> unit result \<times> 'w plugin_manager"

definition new_manager :: "'w \<Rightarrow> 'w plugin_manager" where
  "new_manager w = \<lparr>pm_registry = empty_registry, known_capabilities = [], manifest_index = (\<lambda>_. None),
     library_handles = (\<lambda>_. None), load_order = [], pm_world = w\<rparr>"

definition register_capability :: "string \<Rightarrow> 'w pm_op" where
  "register_capability c s =
     (if List.member (known_capabilities s) c
      then (Inl (ErrorInfo Core_TypeAlreadyRegistered ''capability already registered''), s)
      else (Inr (), s\<lparr>known_capabilities := known_capabilities s @ [c]\<rparr>))"

text \<open>\<open>parent / library_path\<close>: an absolute library path replaces the directory.\<close>

definition join_path :: "string \<Rightarrow> string \<Rightarrow> string" where
  "join_path dir p =
     (case p of [] \<Rightarrow> dir @ ''/'' | c # _ \<Rightarrow> if c = CHR ''/'' then p else dir @ ''/'' @ p)"

text \<open>The \<open>plugin.yaml\<close> files below the directory: each with its parent directory.\<close>

fun discover_manifests :: "'a load_conv_scheme \<Rightarrow> (string \<times> (yaml_exception + yaml)) list \<Rightarrow> 'w pm_op" where
  "discover_manifests cv [] s = (Inr (), s)"
| "discover_manifests cv ((dir, doc) # files) s =
     (case load_manifest cv doc of
        Inl err \<Rightarrow> (Inl err, s)
      | Inr m \<Rightarrow>
          (let m' = m\<lparr>library_path := join_path dir (library_path m)\<rparr>
           in discover_manifests cv files
                (s\<lparr>manifest_index := (manifest_index s)(mf_name m' \<mapsto> m')\<rparr>)))"

definition find_manifest :: "'w plugin_manager \<Rightarrow> string \<Rightarrow> plugin_manifest result" where
  "find_manifest s name =
     (case manifest_index s name of
        None \<Rightarrow> Inl (ErrorInfo Core_TypeNotFound
          (''no manifest discovered for plugin '' @ [CHR 0x27] @ name @ [CHR 0x27]))
      | Some m \<Rightarrow> Inr m)"

subsection \<open>Loading\<close>

text \<open>Continue with \<open>g\<close> unless \<open>f\<close> failed; run a check; call into a plugin.\<close>

definition and_also :: "'w pm_op \<Rightarrow> 'w pm_op \<Rightarrow> 'w pm_op" where
  "and_also f g s = (case f s of (Inl err, s') \<Rightarrow> (Inl err, s') | (Inr _, s') \<Rightarrow> g s')"

definition check_that :: "unit result \<Rightarrow> 'w pm_op" where
  "check_that r s = (r, s)"

definition calling :: "('w \<Rightarrow> unit result \<times> 'w) \<Rightarrow> 'w pm_op" where
  "calling f s = (case f (pm_world s) of (r, w) \<Rightarrow> (r, s\<lparr>pm_world := w\<rparr>))"

definition create_instance :: "'w loader \<Rightarrow> nat \<Rightarrow> plugin_manifest \<Rightarrow> 'w plugin result" where
  "create_instance ld h m =
     (let for_plugin = (\<lambda>msg. Inl (ErrorInfo Core_ConstructionFailed
            (msg @ '' for plugin '' @ [CHR 0x27] @ mf_name m @ [CHR 0x27])))
      in if \<not> has_create ld h then for_plugin (''dlsym('' @ [CHR 0x22] @ ''CreatePlugin'' @ [CHR 0x22] @ '') failed'')
         else if \<not> has_destroy ld h then for_plugin (''dlsym('' @ [CHR 0x22] @ ''DestroyPlugin'' @ [CHR 0x22] @ '') failed'')
         else (case created ld h of
                 None \<Rightarrow> for_plugin ''CreatePlugin() returned nullptr''
               | Some p \<Rightarrow> Inr p))"

definition register_plugin :: "type_id \<Rightarrow> 'w plugin \<Rightarrow> 'w pm_op" where
  "register_plugin i p s =
     (case registry_register i p (pm_registry s) of (r, reg) \<Rightarrow> (r, s\<lparr>pm_registry := reg\<rparr>))"

definition start_plugin :: "plugin_manifest \<Rightarrow> 'w plugin \<Rightarrow> 'w pm_op" where
  "start_plugin m p =
     (let i = fnv1a_hash (mf_name m)
      in and_also (register_plugin i p)
           (and_also (calling (on_initialize (plugin_module p)))
             (and_also (calling (on_start (plugin_module p)))
               (\<lambda>s. (Inr (), s\<lparr>load_order := load_order s @ [i]\<rparr>)))))"

definition load_single :: "'w loader \<Rightarrow> plugin_manifest \<Rightarrow> 'w pm_op" where
  "load_single ld m s =
     and_also (check_that (validate_capabilities (known_capabilities s) (capabilities m)))
       (and_also (check_that (validate_license (license_token m)))
         (\<lambda>s. case open_library ld (library_path m) of
                Inl err \<Rightarrow> (Inl err, s)
              | Inr h \<Rightarrow>
                  (let s1 = s\<lparr>library_handles := (library_handles s)(mf_name m \<mapsto> h)\<rparr>
                   in case create_instance ld h m of
                        Inl err \<Rightarrow> (Inl err, s1)
                      | Inr p \<Rightarrow> start_plugin m p s1))) s"

definition resolve_plugin :: "'w plugin_manager \<Rightarrow> string \<Rightarrow> 'w plugin result" where
  "resolve_plugin s name = registry_resolve (pm_registry s) (fnv1a_hash name)"

text \<open>The set of names being visited is shared by the whole recursion: it is passed on.\<close>

fun ensure_loaded :: "nat \<Rightarrow> 'w loader \<Rightarrow> string \<Rightarrow> string list \<Rightarrow> 'w plugin_manager \<Rightarrow>
    (unit result \<times> string list \<times> 'w plugin_manager) option"
  and resolve_each :: "nat \<Rightarrow> 'w loader \<Rightarrow> plugin_dependency list \<Rightarrow> string list \<Rightarrow> 'w plugin_manager \<Rightarrow>
    (unit result \<times> string list \<times> 'w plugin_manager) option" where
  "ensure_loaded 0 ld name vis s = None"
| "ensure_loaded (Suc n) ld name vis s =
     (if has_value (resolve_plugin s name) then Some (Inr (), vis, s)
      else if name \<in> set vis then
        Some (Inl (ErrorInfo Plugin_CircularDependency
          (''circular dependency detected while resolving '' @ [CHR 0x27] @ name @ [CHR 0x27])), vis, s)
      else (case find_manifest s name of
              Inl err \<Rightarrow> Some (Inl err, name # vis, s)
            | Inr m \<Rightarrow>
                (case resolve_each n ld (mf_dependencies m) (name # vis) s of
                   None \<Rightarrow> None
                 | Some (Inl err, v, s1) \<Rightarrow> Some (Inl err, v, s1)
                 | Some (Inr _, v, s1) \<Rightarrow>
                     (case load_single ld m s1 of (r, s2) \<Rightarrow> Some (r, v, s2)))))"
| "resolve_each n ld [] vis s = Some (Inr (), vis, s)"
| "resolve_each n ld (d # ds) vis s =
     (case ensure_loaded n ld (dep_name d) vis s of
        None \<Rightarrow> None
      | Some (Inl err, v, s1) \<Rightarrow> Some (Inl err, v, s1)
      | Some (Inr _, v, s1) \<Rightarrow>
          (case resolve_plugin s1 (dep_name d) of
             Inl err \<Rightarrow> Some (Inl err, v, s1)
           | Inr p \<Rightarrow>
               (case check_version (required_version d) (plugin_version p) of
                  Inl err \<Rightarrow> Some (Inl err, v, s1)
                | Inr _ \<Rightarrow> resolve_each n ld ds v s1)))"

definition load_plugin :: "nat \<Rightarrow> 'w loader \<Rightarrow> string \<Rightarrow> 'w plugin_manager \<Rightarrow>
    (unit result \<times> 'w plugin_manager) option" where
  "load_plugin n ld name s =
     map_option (\<lambda>(r, v, s'). (r, s')) (ensure_loaded n ld name [] s)"

subsection \<open>Shutdown\<close>

definition stop_plugin :: "type_id \<Rightarrow> 'w pm_op" where
  "stop_plugin i s =
     (case registry_resolve (pm_registry s) i of
        Inl err \<Rightarrow> (Inl err, s)
      | Inr p \<Rightarrow> calling (on_stop (plugin_module p)) s)"

primrec shutdown_from :: "nat \<Rightarrow> unit result \<Rightarrow> 'w pm_op" where
  "shutdown_from 0 first s = (first, s)"
| "shutdown_from (Suc k) first s =
     (case stop_plugin (load_order s ! k) s of
        (next_error, s1) \<Rightarrow> shutdown_from k (if has_value first then next_error else first) s1)"

definition shutdown :: "'w pm_op" where
  "shutdown s = shutdown_from (length (load_order s)) (Inr ()) s"

text \<open>The destructor: what it does to every opened library, in the order of the handle map.\<close>

datatype dl_event = DestroyCalled type_id | Closed nat

primrec release_libraries :: "'w loader \<Rightarrow> (string \<times> nat) list \<Rightarrow> 'w plugin_manager \<Rightarrow> dl_event list" where
  "release_libraries ld [] s = []"
| "release_libraries ld (nh # nhs) s =
     (case nh of (name, h) \<Rightarrow>
        (if has_value (registry_resolve (pm_registry s) (fnv1a_hash name)) \<and> has_destroy ld h
         then [DestroyCalled (fnv1a_hash name)] else []) @ [Closed h] @ release_libraries ld nhs s)"

lemmas load_defs = load_single_def and_also_def check_that_def calling_def start_plugin_def
  register_plugin_def Let_def

subsection \<open>Loading terminates\<close>

lemma load_single_index [simp]: "manifest_index (snd (load_single ld m s)) = manifest_index s"
  by (auto simp: load_defs split: sum.split prod.split)

lemma load_single_indexD: "load_single ld m s = (r, s') \<Longrightarrow> manifest_index s' = manifest_index s"
  using load_single_index [of ld m s] by simp

definition unvisited :: "'w plugin_manager \<Rightarrow> string list \<Rightarrow> nat" where
  "unvisited s vis = card (dom (manifest_index s) - set vis)"

lemma unvisited_visit:
  assumes "finite (dom (manifest_index s))" "name \<in> dom (manifest_index s)" "name \<notin> set vis"
  shows "unvisited s (name # vis) < unvisited s vis"
  unfolding unvisited_def by (rule psubset_card_mono) (use assms in auto)

lemma unvisited_mono:
  assumes "finite (dom (manifest_index s))" "set vis \<subseteq> set v" "manifest_index s' = manifest_index s"
  shows "unvisited s' v \<le> unvisited s vis"
  unfolding unvisited_def assms(3) by (rule card_mono) (use assms in auto)

lemma load_enough_fuel:
  "finite (dom (manifest_index s)) \<Longrightarrow> unvisited s vis < n \<Longrightarrow>
   \<exists>r v s'. ensure_loaded n ld name vis s = Some (r, v, s') \<and> set vis \<subseteq> set v \<and>
     manifest_index s' = manifest_index s"
  "finite (dom (manifest_index s)) \<Longrightarrow> unvisited s vis < n \<Longrightarrow>
   \<exists>r v s'. resolve_each n ld ds vis s = Some (r, v, s') \<and> set vis \<subseteq> set v \<and>
     manifest_index s' = manifest_index s"
proof (induction n ld name vis s and n ld ds vis s rule: ensure_loaded_resolve_each.induct)
  case (2 n ld name vis s)
  show ?case
  proof (cases "has_value (resolve_plugin s name) \<or> name \<in> set vis \<or> manifest_index s name = None")
    case True
    then show ?thesis by (auto simp: find_manifest_def)
  next
    case False
    then obtain m where m: "find_manifest s name = Inr m" "manifest_index s name = Some m"
      by (auto simp: find_manifest_def)
    have "unvisited s (name # vis) < n"
    proof -
      have "name \<in> dom (manifest_index s)" using m(2) by blast
      then show ?thesis
        using unvisited_visit [OF "2.prems"(1), of name vis] False "2.prems"(2) by simp
    qed
    then obtain r v s1 where each: "resolve_each n ld (mf_dependencies m) (name # vis) s = Some (r, v, s1)"
        "set (name # vis) \<subseteq> set v" "manifest_index s1 = manifest_index s"
      using "2.IH" m False "2.prems"(1) by blast
    obtain q s2 where "load_single ld m s1 = (q, s2)" by fastforce
    then show ?thesis
      using each m False load_single_indexD [of ld m s1 q s2] by (cases r) auto
  qed
next
  case (4 n ld d ds vis s)
  obtain r v s1 where e: "ensure_loaded n ld (dep_name d) vis s = Some (r, v, s1)"
      "set vis \<subseteq> set v" "manifest_index s1 = manifest_index s"
    using "4.IH"(1) "4.prems" by blast
  show ?case
  proof (cases "\<exists>u p w. r = Inr u \<and> resolve_plugin s1 (dep_name d) = Inr p \<and>
      check_version (required_version d) (plugin_version p) = Inr w")
    case True
    then obtain u p w where ok: "r = Inr u" "resolve_plugin s1 (dep_name d) = Inr p"
        "check_version (required_version d) (plugin_version p) = Inr w" by blast
    have "unvisited s1 v < n"
      using unvisited_mono [OF "4.prems"(1) e(2,3)] "4.prems"(2) by simp
    then obtain r' v' s' where "resolve_each n ld ds v s1 = Some (r', v', s')" "set v \<subseteq> set v'"
        "manifest_index s' = manifest_index s1"
      using "4.IH"(2) [OF e(1) refl ok(1) refl ok(2,3)] "4.prems"(1) e(3) by auto
    then show ?thesis using e ok by auto
  next
    case False
    then show ?thesis using e by (cases r) (auto split: sum.split)
  qed
qed auto

subsection \<open>The load order is a dependency order\<close>

text \<open>
  A manager is in order if its manifests are indexed by their names, exactly the plugins of
  the load order are registered, none twice, and each was loaded after its dependencies,
  whose versions passed the check.
\<close>

definition in_order :: "'w plugin_manager \<Rightarrow> bool" where
  "in_order s \<longleftrightarrow>
     (\<forall>n m. manifest_index s n = Some m \<longrightarrow> mf_name m = n) \<and>
     distinct (load_order s) \<and> dom (pm_registry s) = set (load_order s) \<and>
     (\<forall>k < length (load_order s). \<exists>m. manifest_index s (mf_name m) = Some m \<and>
        load_order s ! k = fnv1a_hash (mf_name m) \<and>
        (\<forall>d \<in> set (mf_dependencies m). fnv1a_hash (dep_name d) \<in> set (take k (load_order s)) \<and>
           (\<exists>p. pm_registry s (fnv1a_hash (dep_name d)) = Some p \<and>
                check_version (required_version d) (plugin_version p) = Inr ())))"

lemma in_order_new: "in_order (new_manager w)"
  by (simp add: in_order_def new_manager_def empty_registry_def)

lemma load_single_success:
  assumes "load_single ld m s = (Inr u, s')"
  shows "\<exists>p. pm_registry s (fnv1a_hash (mf_name m)) = None \<and>
    pm_registry s' = (pm_registry s)(fnv1a_hash (mf_name m) \<mapsto> p) \<and>
    load_order s' = load_order s @ [fnv1a_hash (mf_name m)]"
  using assms
  by (auto simp: load_defs registry_register_def split: sum.splits prod.splits option.splits)

text \<open>Registrations made so far stay, whatever happens later.\<close>

lemma load_single_keeps:
  "load_single ld m s = (r, s') \<Longrightarrow> pm_registry s i = Some p \<Longrightarrow> pm_registry s' i = Some p"
  by (auto simp: load_defs registry_register_def split: sum.splits prod.splits option.splits)

lemma in_order_load:
  assumes "in_order s" "manifest_index s (mf_name m) = Some m" "load_single ld m s = (Inr u, s')"
    and deps: "\<forall>d \<in> set (mf_dependencies m). \<exists>p. pm_registry s (fnv1a_hash (dep_name d)) = Some p \<and>
      check_version (required_version d) (plugin_version p) = Inr ()"
  shows "in_order s' \<and> fnv1a_hash (mf_name m) \<in> set (load_order s')"
proof -
  let ?i = "fnv1a_hash (mf_name m)"
  obtain p where p: "pm_registry s ?i = None" "pm_registry s' = (pm_registry s)(?i \<mapsto> p)"
      "load_order s' = load_order s @ [?i]"
    using load_single_success [OF assms(3)] by blast
  have idx: "manifest_index s' = manifest_index s" using assms(3) by (rule load_single_indexD)
  have dom: "dom (pm_registry s) = set (load_order s)" using assms(1) by (simp add: in_order_def)
  have new: "?i \<notin> set (load_order s)" using p(1) dom by (metis domIff)
  have other: "fnv1a_hash (dep_name d) \<noteq> ?i" if "pm_registry s (fnv1a_hash (dep_name d)) \<noteq> None" for d
    using that p(1) by metis
  have "\<exists>m'. manifest_index s' (mf_name m') = Some m' \<and> load_order s' ! k = fnv1a_hash (mf_name m') \<and>
        (\<forall>d \<in> set (mf_dependencies m'). fnv1a_hash (dep_name d) \<in> set (take k (load_order s')) \<and>
           (\<exists>p. pm_registry s' (fnv1a_hash (dep_name d)) = Some p \<and>
                check_version (required_version d) (plugin_version p) = Inr ()))"
    if k: "k < length (load_order s')" for k
  proof (cases "k < length (load_order s)")
    case True
    then obtain m' where m': "manifest_index s (mf_name m') = Some m'"
        "load_order s ! k = fnv1a_hash (mf_name m')"
        "\<forall>d \<in> set (mf_dependencies m'). fnv1a_hash (dep_name d) \<in> set (take k (load_order s)) \<and>
           (\<exists>p. pm_registry s (fnv1a_hash (dep_name d)) = Some p \<and>
                check_version (required_version d) (plugin_version p) = Inr ())"
      using assms(1) unfolding in_order_def by blast
    then show ?thesis
      using True other by (intro exI [of _ m']) (fastforce simp: idx p nth_append)
  next
    case False
    then have "k = length (load_order s)" using k p(3) by simp
    then show ?thesis
      using assms(2) deps dom other by (intro exI [of _ m]) (fastforce simp: idx p domI)
  qed
  then show ?thesis
    using assms(1) p(2,3) new dom idx unfolding in_order_def by auto
qed

lemma ensure_loaded_in_order:
  "ensure_loaded n ld name vis s = Some (r, v, s') \<Longrightarrow> in_order s \<Longrightarrow>
   manifest_index s' = manifest_index s \<and>
   (\<forall>i p. pm_registry s i = Some p \<longrightarrow> pm_registry s' i = Some p) \<and>
   (has_value r \<longrightarrow> in_order s' \<and> fnv1a_hash name \<in> set (load_order s'))"
  "resolve_each n ld ds vis s = Some (r, v, s') \<Longrightarrow> in_order s \<Longrightarrow>
   manifest_index s' = manifest_index s \<and>
   (\<forall>i p. pm_registry s i = Some p \<longrightarrow> pm_registry s' i = Some p) \<and>
   (has_value r \<longrightarrow> in_order s' \<and> (\<forall>d \<in> set ds. \<exists>p.
      pm_registry s' (fnv1a_hash (dep_name d)) = Some p \<and>
      check_version (required_version d) (plugin_version p) = Inr ()))"
proof (induction n ld name vis s and n ld ds vis s arbitrary: r v s' and r v s'
    rule: ensure_loaded_resolve_each.induct)
  case (2 n ld name vis s)
  show ?case
  proof (cases "has_value (resolve_plugin s name)")
    case True
    then have "fnv1a_hash name \<in> dom (pm_registry s)"
      by (auto simp: resolve_plugin_def registry_resolve_def split: option.splits)
    then show ?thesis using True "2.prems" by (auto simp: in_order_def)
  next
    case new: False
    show ?thesis
    proof (cases "name \<in> set vis \<or> manifest_index s name = None")
      case True
      then show ?thesis using new "2.prems" by (auto simp: find_manifest_def split: if_splits)
    next
      case False
      then obtain m where m: "find_manifest s name = Inr m" "manifest_index s name = Some m"
        by (auto simp: find_manifest_def)
      obtain q w s1 where each: "resolve_each n ld (mf_dependencies m) (name # vis) s = Some (q, w, s1)"
        using "2.prems"(1) new False m(1) by (auto split: option.splits)
      have name: "mf_name m = name" using "2.prems"(2) m(2) by (auto simp: in_order_def)
      have IH: "manifest_index s1 = manifest_index s"
          "\<forall>i p. pm_registry s i = Some p \<longrightarrow> pm_registry s1 i = Some p"
          "has_value q \<longrightarrow> in_order s1 \<and> (\<forall>d \<in> set (mf_dependencies m). \<exists>p.
             pm_registry s1 (fnv1a_hash (dep_name d)) = Some p \<and>
             check_version (required_version d) (plugin_version p) = Inr ())"
        using "2.IH" [OF new _ m(1) each "2.prems"(2)] False by auto
      show ?thesis
      proof (cases q)
        case (Inl err)
        then show ?thesis using "2.prems"(1) new False m(1) each IH by auto
      next
        case (Inr u)
        obtain x s2 where ls: "load_single ld m s1 = (x, s2)" by fastforce
        then have r: "r = x" "s' = s2" using "2.prems"(1) new False m(1) each Inr by auto
        have "in_order s2 \<and> fnv1a_hash name \<in> set (load_order s2)" if "has_value x"
          using in_order_load [of s1 m ld _ s2] that ls IH Inr m(2) name by (auto simp: has_value_iff)
        then show ?thesis
          using r load_single_keeps [OF ls] load_single_indexD [OF ls] IH by auto
      qed
    qed
  qed
next
  case (4 n ld d ds vis s)
  obtain q w s1 where e: "ensure_loaded n ld (dep_name d) vis s = Some (q, w, s1)"
    using "4.prems"(1) by (auto split: option.splits)
  have IH: "manifest_index s1 = manifest_index s"
      "\<forall>i p. pm_registry s i = Some p \<longrightarrow> pm_registry s1 i = Some p"
      "has_value q \<longrightarrow> in_order s1"
    using "4.IH"(1) [OF e "4.prems"(2)] by auto
  show ?case
  proof (cases "\<exists>u p x. q = Inr u \<and> resolve_plugin s1 (dep_name d) = Inr p \<and>
      check_version (required_version d) (plugin_version p) = Inr x")
    case True
    then obtain u p x where ok: "q = Inr u" "resolve_plugin s1 (dep_name d) = Inr p"
        "check_version (required_version d) (plugin_version p) = Inr x" by blast
    then have each: "resolve_each n ld ds w s1 = Some (r, v, s')" using "4.prems"(1) e by simp
    have p: "pm_registry s1 (fnv1a_hash (dep_name d)) = Some p"
      using ok(2) by (auto simp: resolve_plugin_def registry_resolve_def split: option.splits)
    have "in_order s1" using IH(3) ok(1) by simp
    from "4.IH"(2) [OF e refl ok(1) refl ok(2,3) each this] show ?thesis
      using IH p ok(3) by auto
  next
    case False
    then have "\<not> has_value r \<and> s' = s1"
      using "4.prems"(1) e by (cases q) (auto simp: has_value_iff split: sum.splits)
    then show ?thesis using IH by auto
  qed
qed auto

subsection \<open>Shutdown as a sequence of calls\<close>

lemma stop_plugin_order [simp]: "load_order (snd (stop_plugin i s)) = load_order s"
  by (auto simp: stop_plugin_def calling_def split: sum.split prod.split)

lemma shutdown_from_eq:
  "k \<le> length (load_order s) \<Longrightarrow> shutdown_from k first s =
     call_all (map stop_plugin (rev (take k (load_order s)))) first s"
proof (induction k arbitrary: first s)
  case (Suc k)
  obtain r s1 where r: "stop_plugin (load_order s ! k) s = (r, s1)" by fastforce
  have order: "load_order s1 = load_order s"
    using stop_plugin_order [of "load_order s ! k" s] r by simp
  have "(if has_value first then r else first) =
      (if \<not> has_value r \<and> has_value first then r else first)"
    by (cases r; cases first) auto
  then show ?case
    using Suc r order by (simp add: take_Suc_conv_app_nth)
qed simp

subsection \<open>Properties\<close>

text \<open>
  Loading always terminates: one unit of fuel per discovered manifest and one more
  suffice, also for circular dependencies.
\<close>

theorem load_total:
  assumes "finite (dom (manifest_index s))" "card (dom (manifest_index s)) < n"
  shows "load_plugin n ld name s \<noteq> None"
  using load_enough_fuel(1) [OF assms(1), of "[]" n ld name] assms(2)
  by (auto simp: load_plugin_def unvisited_def)

definition demo_semver :: "32 word \<Rightarrow> 32 word \<Rightarrow> semver" where
  "demo_semver a b = \<lparr>major = a, minor = b, patch = 0\<rparr>"

definition demo_manifest :: "string \<Rightarrow> string list \<Rightarrow> plugin_manifest" where
  "demo_manifest n deps = \<lparr>mf_name = n, library_path = n, mf_version = demo_semver 1 0, capabilities = [],
     mf_dependencies = map (\<lambda>d. \<lparr>dep_name = d,
       required_version = \<lparr>min_inclusive = demo_semver 1 0, max_exclusive = demo_semver 2 0\<rparr>\<rparr>) deps,
     license_token = ''t''\<rparr>"

definition demo_plugin :: "unit result \<Rightarrow> nat plugin" where
  "demo_plugin init = \<lparr>plugin_version = demo_semver 1 0,
     plugin_module = \<lparr>on_initialize = (\<lambda>w. (init, w + 1)), on_start = (\<lambda>w. (Inr (), w)),
                      on_stop = (\<lambda>w. (Inr (), w))\<rparr>\<rparr>"

definition demo_loader :: "unit result \<Rightarrow> nat loader" where
  "demo_loader init = \<lparr>open_library = (\<lambda>_. Inr 0), has_create = (\<lambda>_. True), has_destroy = (\<lambda>_. True),
     created = (\<lambda>_. Some (demo_plugin init))\<rparr>"

definition demo_manager :: "nat plugin_manager" where
  "demo_manager = (new_manager 0)\<lparr>manifest_index :=
     [''a'' \<mapsto> demo_manifest ''a'' [''b''], ''b'' \<mapsto> demo_manifest ''b'' []]\<rparr>"

theorem load_total_witness:
  "\<exists>r. load_plugin 3 (demo_loader (Inr ())) ''a'' demo_manager = Some r"
proof -
  have "dom (manifest_index demo_manager) = {''a'', ''b''}" by (auto simp: demo_manager_def)
  then have "finite (dom (manifest_index demo_manager))" "card (dom (manifest_index demo_manager)) < 3"
    by simp_all
  from load_total [OF this, of "demo_loader (Inr ())" "''a''"] show ?thesis by blast
qed

text \<open>
  C8 Load order: a successful load into a manager whose registered plugins are exactly those of a
  load order in which every plugin comes after its dependencies keeps the manager so. The plugin is then in
  the load order, after all its dependencies, whose registered versions were accepted, and no plugin is in it
  twice. (A plugin whose initialisation failed stays registered without being in the load order, so that
  the premise is lost: \<open>failed_plugin_counts_as_loaded\<close>.)
\<close>

theorem load_keeps_order:
  assumes "in_order s" "load_plugin n ld name s = Some (Inr (), s')"
  shows "in_order s' \<and> fnv1a_hash name \<in> set (load_order s')"
proof -
  obtain v where "ensure_loaded n ld name [] s = Some (Inr (), v, s')"
    using assms(2) by (auto simp: load_plugin_def)
  from ensure_loaded_in_order(1) [OF this assms(1)] show ?thesis by simp
qed

lemma demo_load:
  "\<exists>s'. load_plugin (Suc (Suc 0)) (demo_loader (Inr ())) ''b''  demo_manager = Some (Inr (), s')"
  by (simp add: load_plugin_def demo_manager_def demo_manifest_def new_manager_def resolve_plugin_def
      registry_resolve_def empty_registry_def find_manifest_def load_defs demo_loader_def
      validate_license_def create_instance_def demo_plugin_def registry_register_def)

theorem load_keeps_order_witness:
  "\<exists>s'. load_plugin (Suc (Suc 0)) (demo_loader (Inr ())) ''b'' demo_manager = Some (Inr (), s') \<and>
     fnv1a_hash ''b'' \<in> set (load_order s')"
proof -
  obtain s' where s': "load_plugin (Suc (Suc 0)) (demo_loader (Inr ())) ''b'' demo_manager = Some (Inr (), s')"
    using demo_load by blast
  have "in_order demo_manager"
    using in_order_new [of 0] by (auto simp: in_order_def demo_manager_def new_manager_def demo_manifest_def)
  from load_keeps_order [OF this s'] s' show ?thesis by blast
qed

text \<open>
  A plugin whose initialisation failed counts as loaded: it has been registered before
  \<open>OnInitialize\<close> ran, so the next \<open>Load\<close> of the same name reports success, does nothing,
  and the plugin is neither started nor in the load order.
\<close>

theorem failed_plugin_counts_as_loaded:
  assumes "\<not> has_value (resolve_plugin s name)"
    and "manifest_index s name = Some m" "mf_name m = name" "mf_dependencies m = []"
    and "validate_capabilities (known_capabilities s) (capabilities m) = Inr ()"
    and "validate_license (license_token m) = Inr ()"
    and "open_library ld (library_path m) = Inr h" "create_instance ld h m = Inr p"
    and "on_initialize (plugin_module p) (pm_world s) = (Inl err, w)"
  shows "\<exists>s'. load_plugin (Suc n) ld name s = Some (Inl err, s') \<and>
     load_plugin (Suc n) ld name s' = Some (Inr (), s') \<and> load_order s' = load_order s"
proof -
  have none: "pm_registry s (fnv1a_hash name) = None"
    using assms(1) by (auto simp: resolve_plugin_def registry_resolve_def split: option.splits)
  then show ?thesis
    using assms
    by (simp add: load_plugin_def find_manifest_def load_defs registry_register_def
        resolve_plugin_def registry_resolve_def)
qed

theorem failed_plugin_counts_as_loaded_witness:
  "\<exists>s'. load_plugin (Suc 0) (demo_loader (Inl (ErrorInfo Core_Unknown ''boom''))) ''b'' demo_manager =
      Some (Inl (ErrorInfo Core_Unknown ''boom''), s') \<and>
    load_plugin (Suc 0) (demo_loader (Inl (ErrorInfo Core_Unknown ''boom''))) ''b'' s' = Some (Inr (), s')"
proof -
  let ?ld = "demo_loader (Inl (ErrorInfo Core_Unknown ''boom''))"
  have "\<not> has_value (resolve_plugin demo_manager ''b'')"
    "manifest_index demo_manager ''b'' = Some (demo_manifest ''b'' [])"
    "mf_name (demo_manifest ''b'' []) = ''b''" "mf_dependencies (demo_manifest ''b'' []) = []"
    "validate_capabilities (known_capabilities demo_manager) (capabilities (demo_manifest ''b'' [])) = Inr ()"
    "validate_license (license_token (demo_manifest ''b'' [])) = Inr ()"
    "open_library ?ld (library_path (demo_manifest ''b'' [])) = Inr 0"
    "create_instance ?ld 0 (demo_manifest ''b'' []) = Inr (demo_plugin (Inl (ErrorInfo Core_Unknown ''boom'')))"
    "on_initialize (plugin_module (demo_plugin (Inl (ErrorInfo Core_Unknown ''boom'')))) (pm_world demo_manager) =
      (Inl (ErrorInfo Core_Unknown ''boom''), 1)"
    by (simp_all add: demo_manager_def new_manager_def resolve_plugin_def registry_resolve_def
        empty_registry_def demo_manifest_def validate_license_def demo_loader_def create_instance_def
        demo_plugin_def)
  from failed_plugin_counts_as_loaded [OF this, of 0] show ?thesis by blast
qed

text \<open>
  Version ranges are compared by major and minor number only, lexicographically; the
  patch numbers of the range and of the plugin play no part.
\<close>

theorem check_version_spec:
  "has_value (check_version r v) \<longleftrightarrow>
     (major (min_inclusive r), minor (min_inclusive r)) \<le> (major v, minor v) \<and>
     (major v, minor v) < (major (max_exclusive r), minor (max_exclusive r))"
  by (auto simp: check_version_def less_prod_def less_eq_prod_def)

text \<open>
  Shutdown: \<open>OnStop\<close> is called for every plugin of the load order, in reverse order,
  whatever the calls return, and the first failure is reported.
\<close>

theorem shutdown_spec:
  "shutdown s =
     (let fs = map stop_plugin (rev (load_order s))
      in (first_failure (outcomes fs s), fold (\<lambda>f s. snd (f s)) fs s))"
  by (simp add: shutdown_def shutdown_from_eq call_all_eq Let_def)

end
