(* ===== verification/Ring_Buffers.thy ===== *)
theory Ring_Buffers
  imports Prelude Error_Codes "HOL-Library.Word"
begin

text \<open>
  The two ring buffers: \<open>sai::device::RingBuffer\<close> (\<open>include/sai/device/ring_buffer.h\<close>, under a
  mutex, overwrites the oldest element) and \<open>sai::pipeline::detail::RingBuffer\<close> with
  \<open>StageQueue\<close> (\<open>include/sai/pipeline/stage_queue.h\<close>, lock free, one producer and one consumer).
  Indices are natural numbers below the number of slots, drop counters are 64 bits wide.
\<close>

subsection \<open>Interface: bounded queues\<close>

lemma drop_latest:
  "drop (Suc (length (drop (length ys - c) ys)) - c) (drop (length ys - c) ys @ [x]) =
   drop (Suc (length ys) - c) (ys @ [x])"
proof (cases "length ys < c")
  case False
  then have "length (drop (length ys - c) ys) = c" "Suc (length ys) - c = Suc (length ys - c)"
    "Suc (length ys) - c - length ys = Suc 0 - c"
    by auto
  then show ?thesis by (simp add: drop_append)
qed simp

text \<open>What a user of a queue relies on: elements leave in the order in which they are held.\<close>

locale fifo =
  fixes pop :: "'q \<Rightarrow> 'a option \<times> 'q"
    and contents :: "'q \<Rightarrow> 'a list"
    and valid :: "'q \<Rightarrow> bool"
  assumes pop_none: "valid q \<Longrightarrow> contents q = [] \<Longrightarrow> pop q = (None, q)"
    and pop_some: "valid q \<Longrightarrow> contents q = x # xs \<Longrightarrow>
      fst (pop q) = Some x \<and> contents (snd (pop q)) = xs \<and> valid (snd (pop q))"
begin

primrec drain :: "nat \<Rightarrow> 'q \<Rightarrow> 'a list" where
  "drain 0 q = []"
| "drain (Suc n) q = (case pop q of (None, _) \<Rightarrow> [] | (Some x, q') \<Rightarrow> x # drain n q')"

lemma drain_contents: "valid q \<Longrightarrow> drain n q = take n (contents q)"
proof (induction n arbitrary: q)
  case (Suc n)
  show ?case
  proof (cases "contents q")
    case Nil
    then show ?thesis using Suc.prems by (simp add: pop_none)
  next
    case (Cons x xs)
    then show ?thesis using Suc pop_some [OF Suc.prems Cons] by (auto split: prod.split)
  qed
qed simp

end

text \<open>A queue of fixed capacity that makes room by dropping its oldest element.\<close>

locale overwriting_fifo = fifo pop contents valid
  for pop :: "'q \<Rightarrow> 'a option \<times> 'q" and contents :: "'q \<Rightarrow> 'a list" and valid :: "'q \<Rightarrow> bool" +
  fixes push :: "'a \<Rightarrow> 'q \<Rightarrow> 'q"
    and room :: "'q \<Rightarrow> nat"
    and dropped :: "'q \<Rightarrow> 64 word"
  assumes push_valid: "valid q \<Longrightarrow> valid (push x q)"
    and push_room: "valid q \<Longrightarrow> room (push x q) = room q"
    and push_contents: "valid q \<Longrightarrow>
      contents (push x q) = drop (Suc (length (contents q)) - room q) (contents q @ [x])"
    and push_dropped: "valid q \<Longrightarrow>
      dropped (push x q) = dropped q + of_nat (Suc (length (contents q)) - room q)"
begin

lemma fold_push_valid: "valid q \<Longrightarrow> valid (fold push xs q) \<and> room (fold push xs q) = room q"
  by (induction xs arbitrary: q) (simp_all add: push_valid push_room)

text \<open>Pushing a sequence keeps the latest elements and counts the others.\<close>

lemma fold_push_contents:
  "valid q \<Longrightarrow> length (contents q) \<le> room q \<Longrightarrow>
   contents (fold push xs q) = drop (length (contents q @ xs) - room q) (contents q @ xs) \<and>
   dropped (fold push xs q) = dropped q + of_nat (length (contents q @ xs) - room q)"
proof (induction xs rule: rev_induct)
  case (snoc x xs)
  let ?q = "fold push xs q" and ?n = "length (contents q) + length xs"
  have q: "valid ?q" "room ?q = room q" using fold_push_valid [OF snoc.prems(1)] by auto
  have IH: "contents ?q = drop (?n - room q) (contents q @ xs)"
      "dropped ?q = dropped q + of_nat (?n - room q)"
    using snoc by auto
  have len: "length (contents ?q) = ?n - (?n - room q)" by (simp add: IH(1))
  have sum: "Suc (length (contents ?q)) - room q + (?n - room q) = Suc ?n - room q"
    using len by (cases "?n \<le> room q") auto
  have "contents (push x ?q) = drop (Suc ?n - room q) (contents q @ xs @ [x])"
    using push_contents [OF q(1), of x] q(2) drop_latest [of "contents q @ xs" "room q" x]
    unfolding IH(1) by simp
  moreover have "dropped (push x ?q) = dropped q + of_nat (Suc ?n - room q)"
    using push_dropped [OF q(1), of x] unfolding IH(2) q(2) sum [symmetric] of_nat_add
    by (simp only: ac_simps)
  ultimately show ?case by simp
qed simp

end

subsection \<open>The frame buffer of a device\<close>

record 'a ring =
  slots :: "'a option list"
  capacity :: nat
  ring_head :: nat
  ring_tail :: nat
  ring_count :: nat
  dropped_count :: "64 word"

definition new_ring :: "nat \<Rightarrow> 'a ring" where
  "new_ring n = \<lparr>slots = replicate n None, capacity = n, ring_head = 0, ring_tail = 0, ring_count = 0,
     dropped_count = 0\<rparr>"

definition drop_oldest :: "'a ring \<Rightarrow> 'a ring" where
  "drop_oldest r = r\<lparr>slots := (slots r)[ring_tail r := None],
     ring_tail := (ring_tail r + 1) mod capacity r, dropped_count := dropped_count r + 1\<rparr>"

definition ring_push :: "'a \<Rightarrow> 'a ring \<Rightarrow> 'a ring" where
  "ring_push x r =
     (if capacity r = 0 then r\<lparr>dropped_count := dropped_count r + 1\<rparr>
      else (let r1 = (if ring_count r = capacity r then drop_oldest r else r)
            in r1\<lparr>slots := (slots r1)[ring_head r1 := Some x],
                  ring_head := (ring_head r1 + 1) mod capacity r1,
                  ring_count := (if ring_count r1 < capacity r1 then ring_count r1 + 1
                                 else ring_count r1)\<rparr>))"

text \<open>Taking the element out of an empty slot would be undefined; \<open>ring_valid\<close> excludes it.\<close>

definition ring_try_pop :: "'a ring \<Rightarrow> 'a option \<times> 'a ring" where
  "ring_try_pop r =
     (if capacity r = 0 \<or> ring_count r = 0 then (None, r)
      else (slots r ! ring_tail r,
            r\<lparr>slots := (slots r)[ring_tail r := None],
              ring_tail := (ring_tail r + 1) mod capacity r,
              ring_count := ring_count r - 1\<rparr>))"

definition ring_size :: "'a ring \<Rightarrow> nat" where
  "ring_size r = ring_count r"

text \<open>
  Head and tail are \<open>ring_count\<close> slots apart, and exactly the slots between them are occupied.
\<close>

definition ring_slot :: "'a ring \<Rightarrow> nat \<Rightarrow> nat" where
  "ring_slot r i = (ring_tail r + i) mod capacity r"

definition ring_valid :: "'a ring \<Rightarrow> bool" where
  "ring_valid r \<longleftrightarrow>
     length (slots r) = capacity r \<and> ring_count r \<le> capacity r \<and>
     (capacity r \<noteq> 0 \<longrightarrow> ring_tail r < capacity r) \<and>
     (capacity r \<noteq> 0 \<longrightarrow> ring_head r = ring_slot r (ring_count r)) \<and>
     (\<forall>i < ring_count r. slots r ! ring_slot r i \<noteq> None)"

definition ring_contents :: "'a ring \<Rightarrow> 'a list" where
  "ring_contents r = map (\<lambda>i. the (slots r ! ring_slot r i)) [0..<ring_count r]"

lemma length_ring_contents [simp]: "length (ring_contents r) = ring_count r"
  by (simp add: ring_contents_def)

lemma mod_eq_close:
  "(a::nat) \<le> b \<Longrightarrow> b < a + n \<Longrightarrow> a mod n = b mod n \<longleftrightarrow> a = b"
  using mod_eq_dvd_iff_nat [of a b n] by (auto dest: dvd_imp_le)

lemma mod_add_eq_iff:
  assumes "i < (n::nat)" "j < n"
  shows "(t + i) mod n = (t + j) mod n \<longleftrightarrow> i = j"
  using mod_eq_close [of "t + i" "t + j" n] mod_eq_close [of "t + j" "t + i" n] assms
  by (cases "i \<le> j") auto

lemma ring_slot_less [simp]: "capacity r \<noteq> 0 \<Longrightarrow> ring_slot r i < capacity r"
  by (simp add: ring_slot_def)

lemma ring_slot_inj:
  "i < capacity r \<Longrightarrow> j < capacity r \<Longrightarrow> ring_slot r i = ring_slot r j \<longleftrightarrow> i = j"
  unfolding ring_slot_def by (rule mod_add_eq_iff)

lemma ring_slot_0: "ring_tail r < capacity r \<Longrightarrow> ring_slot r 0 = ring_tail r"
  by (simp add: ring_slot_def)

lemma new_ring_valid: "ring_valid (new_ring n)" "ring_contents (new_ring n) = []"
  by (simp_all add: ring_valid_def new_ring_def ring_slot_def ring_contents_def)

text \<open>Removing the element at the tail, as \<open>TryPop\<close> does and \<open>Push\<close> on a full ring.\<close>

definition advance_tail :: "'a ring \<Rightarrow> 'a ring" where
  "advance_tail r = r\<lparr>slots := (slots r)[ring_tail r := None],
     ring_tail := (ring_tail r + 1) mod capacity r, ring_count := ring_count r - 1\<rparr>"

lemma advance_tail_fields [simp]:
  "capacity (advance_tail r) = capacity r" "ring_count (advance_tail r) = ring_count r - 1"
  by (simp_all add: advance_tail_def)

lemma ring_slot_advance: "ring_slot (advance_tail r) i = ring_slot r (Suc i)"
  by (simp add: advance_tail_def ring_slot_def mod_simps)

lemma advance_tail_contents:
  assumes "ring_valid r" "ring_count r \<noteq> 0"
  shows "ring_valid (advance_tail r)"
    and "ring_contents r = the (slots r ! ring_tail r) # ring_contents (advance_tail r)"
    and "slots r ! ring_tail r \<noteq> None"
proof -
  have c: "capacity r \<noteq> 0" "ring_tail r < capacity r" "ring_count r \<le> capacity r"
    using assms by (auto simp: ring_valid_def)
  have tail: "ring_slot r 0 = ring_tail r" using c by (simp add: ring_slot_0)
  have keep: "slots (advance_tail r) ! ring_slot r (Suc i) = slots r ! ring_slot r (Suc i)"
    if "Suc i < ring_count r" for i
    using ring_slot_inj [of 0 r "Suc i"] that c tail by (simp add: advance_tail_def)
  show "ring_valid (advance_tail r)"
    using assms keep c unfolding ring_valid_def ring_slot_advance
    by (auto simp: advance_tail_def)
  have "map (\<lambda>i. the (slots r ! ring_slot r i)) [1..<ring_count r] = ring_contents (advance_tail r)"
    unfolding ring_contents_def ring_slot_advance
    by (rule nth_equalityI) (auto simp: advance_tail_def keep [unfolded advance_tail_def, simplified])
  then show "ring_contents r = the (slots r ! ring_tail r) # ring_contents (advance_tail r)"
    using assms(2) by (simp add: ring_contents_def upt_conv_Cons tail)
  show "slots r ! ring_tail r \<noteq> None"
    using assms tail by (auto simp: ring_valid_def)
qed

text \<open>Storing at the head of a ring that is not full.\<close>

lemma store_contents:
  assumes "ring_valid r" "ring_count r < capacity r"
    and r': "r' = r\<lparr>slots := (slots r)[ring_head r := Some x],
      ring_head := (ring_head r + 1) mod capacity r, ring_count := ring_count r + 1\<rparr>"
  shows "ring_valid r'" and "ring_contents r' = ring_contents r @ [x]"
proof -
  have c: "capacity r \<noteq> 0" "ring_head r = ring_slot r (ring_count r)" "length (slots r) = capacity r"
    using assms(1,2) by (auto simp: ring_valid_def)
  have head: "ring_head r < capacity r" using c by simp
  have slot: "ring_slot r' i = ring_slot r i" for i by (simp add: r' ring_slot_def)
  have old: "slots r' ! ring_slot r i = slots r ! ring_slot r i" if "i < ring_count r" for i
    using ring_slot_inj [of i r "ring_count r"] that assms(2) c by (simp add: r')
  have new: "slots r' ! ring_slot r (ring_count r) = Some x"
    using head c by (simp add: r')
  have "slots r' ! ring_slot r i \<noteq> None" if "i < Suc (ring_count r)" for i
    using that old [of i] new assms(1) by (cases "i = ring_count r") (auto simp: ring_valid_def less_Suc_eq)
  then show "ring_valid r'"
    using assms(1,2) c head unfolding ring_valid_def slot
    by (auto simp: r' c(2) ring_slot_def mod_simps)
  have "map (\<lambda>i. the (slots r' ! ring_slot r i)) [0..<ring_count r] = ring_contents r"
    unfolding ring_contents_def by (auto simp: old)
  then show "ring_contents r' = ring_contents r @ [x]"
    unfolding ring_contents_def [of r'] slot using new by (simp add: r')
qed

interpretation device_ring: overwriting_fifo ring_try_pop ring_contents ring_valid ring_push capacity dropped_count
proof unfold_locales
  fix r :: "'a ring" and x :: 'a and xs
  assume v: "ring_valid r"
  show "ring_contents r = [] \<Longrightarrow> ring_try_pop r = (None, r)"
    by (auto simp: ring_contents_def ring_try_pop_def)
  show "ring_contents r = x # xs \<Longrightarrow> fst (ring_try_pop r) = Some x \<and>
      ring_contents (snd (ring_try_pop r)) = xs \<and> ring_valid (snd (ring_try_pop r))"
  proof -
    assume "ring_contents r = x # xs"
    moreover from this have "ring_count r \<noteq> 0" using length_ring_contents [of r] by simp
    moreover from this have "capacity r \<noteq> 0" using v by (auto simp: ring_valid_def)
    ultimately show ?thesis
      using advance_tail_contents [OF v] by (auto simp: ring_try_pop_def advance_tail_def)
  qed
  have push: "ring_valid (ring_push x r) \<and> capacity (ring_push x r) = capacity r \<and>
      ring_contents (ring_push x r) =
        drop (Suc (length (ring_contents r)) - capacity r) (ring_contents r @ [x]) \<and>
      dropped_count (ring_push x r) =
        dropped_count r + of_nat (Suc (length (ring_contents r)) - capacity r)"
  proof (cases "ring_count r < capacity r")
    case True
    then show ?thesis
      using store_contents [OF v True refl, of x] by (simp add: ring_push_def Let_def)
  next
    case full: False
    then have count: "ring_count r = capacity r" using v by (simp add: ring_valid_def)
    show ?thesis
    proof (cases "capacity r = 0")
      case True
      then show ?thesis using v count
        by (simp add: ring_push_def ring_valid_def ring_contents_def ring_slot_def)
    next
      case False
      let ?r = "advance_tail r\<lparr>dropped_count := dropped_count r + 1\<rparr>"
      have a: "ring_valid (advance_tail r)"
          "ring_contents r = the (slots r ! ring_tail r) # ring_contents (advance_tail r)"
        using advance_tail_contents [OF v] count False by auto
      have "ring_valid ?r \<and> ring_contents ?r = ring_contents (advance_tail r)"
        using a(1) by (simp add: ring_valid_def ring_contents_def ring_slot_def)
      moreover have "ring_count ?r < capacity ?r" using count False by (simp add: advance_tail_def)
      moreover have "ring_push x r = ?r\<lparr>slots := (slots ?r)[ring_head ?r := Some x],
          ring_head := (ring_head ?r + 1) mod capacity ?r, ring_count := ring_count ?r + 1\<rparr>"
        using count False by (simp add: ring_push_def drop_oldest_def advance_tail_def Let_def)
      ultimately show ?thesis
        using store_contents [of ?r "ring_push x r" x] a(2) count False by simp
    qed
  qed
  show "ring_valid (ring_push x r)" "capacity (ring_push x r) = capacity r"
    "ring_contents (ring_push x r) =
        drop (Suc (length (ring_contents r)) - capacity r) (ring_contents r @ [x])"
    "dropped_count (ring_push x r) =
        dropped_count r + of_nat (Suc (length (ring_contents r)) - capacity r)"
    using push by auto
qed

primrec pop_times :: "nat \<Rightarrow> 'a ring \<Rightarrow> 'a list" where
  "pop_times 0 r = []"
| "pop_times (Suc n) r =
     (case ring_try_pop r of (None, _) \<Rightarrow> [] | (Some x, r') \<Rightarrow> x # pop_times n r')"

lemma pop_times_drain: "pop_times n r = device_ring.drain n r"
  by (induction n arbitrary: r) (auto split: prod.split option.split)

text \<open>
  The device ring keeps exactly the latest elements: after any sequence of pushes onto a
  new ring, popping returns the last \<open>capacity\<close> ones in order (then nothing), and the
  counter tells how many were overwritten.
\<close>

theorem ring_keeps_latest:
  "pop_times k (fold ring_push xs (new_ring n)) = take k (drop (length xs - n) xs) \<and>
   dropped_count (fold ring_push xs (new_ring n)) = of_nat (length xs - n)"
proof -
  let ?r = "new_ring n"
  have n: "ring_valid ?r" "ring_contents ?r = []" "capacity ?r = n" "dropped_count ?r = 0"
      "ring_count ?r = 0"
    using new_ring_valid by (auto simp: new_ring_def)
  show ?thesis
    unfolding pop_times_drain
    using device_ring.fold_push_valid [OF n(1), of xs]
      device_ring.fold_push_contents [of ?r xs, simplified n] n(1)
    by (simp add: device_ring.drain_contents)
qed

subsection \<open>The stage ring, one atomic action at a time\<close>

text \<open>
  The memory of the stage ring with the local state of its producer and of its consumer. Each
  step is one access to shared memory; the accesses are sequentially consistent. A weak
  compare-exchange may fail at any time. The fields \<open>pushed\<close> and \<open>popped\<close> record the items whose
  push returned true and the pointers the pops returned (an empty pop is not recorded).
\<close>

datatype backpressure = Block | DropOldest | Degrade

datatype 'a producer = PIdle | PCheck 'a | PDrop 'a | PCas 'a nat | PWrite 'a | PPublish 'a

datatype consumer = CIdle | CCheck nat | CCas nat | CTake nat

record 'a spsc =
  buffer :: "'a option list"
  logical_capacity :: nat
  q_head :: nat
  q_tail :: nat
  q_dropped :: "64 word"
  prod :: "'a producer"
  cons :: consumer
  pushed :: "'a list"
  popped :: "'a option list"

definition new_spsc :: "nat \<Rightarrow> 'a spsc" where
  "new_spsc n = \<lparr>buffer = replicate (n + 1) None, logical_capacity = n, q_head = 0, q_tail = 0,
     q_dropped = 0, prod = PIdle, cons = CIdle, pushed = [], popped = []\<rparr>"

definition next_slot :: "'a spsc \<Rightarrow> nat \<Rightarrow> nat" where
  "next_slot q i = (i + 1) mod (logical_capacity q + 1)"

inductive spsc_step :: "backpressure \<Rightarrow> 'a spsc \<Rightarrow> 'a spsc \<Rightarrow> bool" for policy where
  push_start: "prod q = PIdle \<Longrightarrow> spsc_step policy q (q\<lparr>prod := PCheck x\<rparr>)"
| push_free: "prod q = PCheck x \<Longrightarrow> next_slot q (q_tail q) \<noteq> q_head q \<Longrightarrow>
    spsc_step policy q (q\<lparr>prod := PWrite x\<rparr>)"
| push_full: "prod q = PCheck x \<Longrightarrow> next_slot q (q_tail q) = q_head q \<Longrightarrow> policy \<noteq> DropOldest \<Longrightarrow>
    spsc_step policy q (q\<lparr>prod := PIdle\<rparr>)"
| push_make_room: "prod q = PCheck x \<Longrightarrow> next_slot q (q_tail q) = q_head q \<Longrightarrow> policy = DropOldest \<Longrightarrow>
    spsc_step policy q (q\<lparr>prod := PDrop x\<rparr>)"
| drop_load: "prod q = PDrop x \<Longrightarrow> spsc_step policy q (q\<lparr>prod := PCas x (q_head q)\<rparr>)"
| drop_cas: "prod q = PCas x h \<Longrightarrow> q_head q = h \<Longrightarrow>
    spsc_step policy q (q\<lparr>q_head := next_slot q h, q_dropped := q_dropped q + 1, prod := PWrite x\<rparr>)"
| drop_cas_fails: "prod q = PCas x h \<Longrightarrow> spsc_step policy q (q\<lparr>prod := PWrite x\<rparr>)"
| push_write: "prod q = PWrite x \<Longrightarrow>
    spsc_step policy q (q\<lparr>buffer := (buffer q)[q_tail q := Some x], prod := PPublish x\<rparr>)"
| push_publish: "prod q = PPublish x \<Longrightarrow>
    spsc_step policy q (q\<lparr>q_tail := next_slot q (q_tail q), prod := PIdle, pushed := pushed q @ [x]\<rparr>)"
| pop_start: "cons q = CIdle \<Longrightarrow> spsc_step policy q (q\<lparr>cons := CCheck (q_head q)\<rparr>)"
| pop_empty: "cons q = CCheck h \<Longrightarrow> h = q_tail q \<Longrightarrow> spsc_step policy q (q\<lparr>cons := CIdle\<rparr>)"
| pop_some: "cons q = CCheck h \<Longrightarrow> h \<noteq> q_tail q \<Longrightarrow> spsc_step policy q (q\<lparr>cons := CCas h\<rparr>)"
| pop_cas: "cons q = CCas h \<Longrightarrow> q_head q = h \<Longrightarrow>
    spsc_step policy q (q\<lparr>q_head := next_slot q h, cons := CTake h\<rparr>)"
| pop_cas_fails: "cons q = CCas h \<Longrightarrow> spsc_step policy q (q\<lparr>cons := CCheck (q_head q)\<rparr>)"
| pop_take: "cons q = CTake h \<Longrightarrow>
    spsc_step policy q (q\<lparr>buffer := (buffer q)[h := None], cons := CIdle,
      popped := popped q @ [buffer q ! h]\<rparr>)"

definition spsc_reachable :: "backpressure \<Rightarrow> nat \<Rightarrow> 'a spsc \<Rightarrow> bool" where
  "spsc_reachable policy n q \<longleftrightarrow> (spsc_step policy)\<^sup>*\<^sup>* (new_spsc n) q"

text \<open>
  \<open>Depth\<close> loads the tail, then the head, and other threads may move in between: it is a function of
  two loads. \<open>depth\<close> is its value when both loads see the same state, the number of items of that state.
\<close>

definition depth_loads :: "nat \<Rightarrow> nat \<Rightarrow> nat \<Rightarrow> nat" where
  "depth_loads n t h = (if h \<le> t then t - h else n + 1 - h + t)"

definition depth :: "'a spsc \<Rightarrow> nat" where
  "depth q = depth_loads (logical_capacity q) (q_tail q) (q_head q)"

lemma depth_unfold:
  "depth q = (if q_head q \<le> q_tail q then q_tail q - q_head q else logical_capacity q + 1 - q_head q + q_tail q)"
  by (simp add: depth_def depth_loads_def)

definition is_full :: "'a spsc \<Rightarrow> bool" where
  "is_full q \<longleftrightarrow> next_slot q (q_tail q) = q_head q"

definition is_empty :: "'a spsc \<Rightarrow> bool" where
  "is_empty q \<longleftrightarrow> q_head q = q_tail q"

text \<open>
  The invariant under a policy that does not drop. The head has been advanced once for every
  item popped and once for the item being taken; the item being taken stays untouched although
  the head has left it behind, because one slot is always kept free.
\<close>

definition taken :: "'a spsc \<Rightarrow> nat" where
  "taken q = length (popped q) + (case cons q of CTake _ \<Rightarrow> 1 | _ \<Rightarrow> 0)"

definition spsc_inv :: "'a spsc \<Rightarrow> bool" where
  "spsc_inv q \<longleftrightarrow>
     (let n = logical_capacity q + 1; H = taken q; T = length (pushed q) in
      length (buffer q) = n \<and> q_head q = H mod n \<and> q_tail q = T mod n \<and>
      H \<le> T \<and> T \<le> H + logical_capacity q \<and>
      popped q = map Some (take (length (popped q)) (pushed q)) \<and>
      (\<forall>j < T. length (popped q) \<le> j \<longrightarrow> buffer q ! (j mod n) = Some (pushed q ! j)) \<and>
      (case prod q of
         PIdle \<Rightarrow> True | PCheck x \<Rightarrow> True
       | PWrite x \<Rightarrow> T < H + logical_capacity q
       | PPublish x \<Rightarrow> T < H + logical_capacity q \<and> buffer q ! (T mod n) = Some x
       | _ \<Rightarrow> False) \<and>
      (case cons q of
         CIdle \<Rightarrow> True | CCheck h \<Rightarrow> h = q_head q
       | CCas h \<Rightarrow> h = q_head q \<and> H < T
       | CTake h \<Rightarrow> h = length (popped q) mod n))"

lemma new_spsc_inv: "spsc_inv (new_spsc n)"
  by (simp add: spsc_inv_def new_spsc_def taken_def)

lemma next_mod: "((k mod n) + 1) mod n = Suc k mod n"
  by (simp add: mod_simps)

lemma full_iff:
  assumes "(H::nat) \<le> T" "T \<le> H + c"
  shows "(T mod (c + 1) + 1) mod (c + 1) = H mod (c + 1) \<longleftrightarrow> T = H + c"
proof (cases "T = H + c")
  case True
  then have "Suc T = H + (c + 1)" by simp
  then have "Suc T mod (c + 1) = H mod (c + 1)" by (metis mod_add_self2)
  then show ?thesis using True unfolding next_mod by blast
next
  case False
  then show ?thesis
    unfolding next_mod using mod_eq_close [of H "Suc T" "c + 1"] assms by auto
qed

lemma spsc_step_inv:
  assumes "spsc_step policy q q'" "policy \<noteq> DropOldest" "spsc_inv q"
  shows "spsc_inv q'"
  using assms(1)
proof cases
  case (push_start x)
  then show ?thesis using assms(3) by (auto simp: spsc_inv_def taken_def Let_def split: consumer.splits)
next
  case (push_free x)
  then show ?thesis using assms(3) full_iff [of "taken q" "length (pushed q)" "logical_capacity q"]
    by (auto simp: spsc_inv_def taken_def Let_def next_slot_def split: consumer.splits)
next
  case (push_full x)
  then show ?thesis using assms(3) by (auto simp: spsc_inv_def taken_def Let_def split: consumer.splits)
next
  case (push_make_room x)
  then show ?thesis using assms(2) by simp
next
  case (drop_load x)
  then show ?thesis using assms(3) by (auto simp: spsc_inv_def Let_def)
next
  case (drop_cas x h)
  then show ?thesis using assms(3) by (auto simp: spsc_inv_def Let_def)
next
  case (drop_cas_fails x h)
  then show ?thesis using assms(3) by (auto simp: spsc_inv_def Let_def)
next
  case (push_write x)
  let ?n = "logical_capacity q + 1" and ?T = "length (pushed q)"
  have free: "j mod ?n \<noteq> ?T mod ?n" if "j < ?T" "length (popped q) \<le> j" for j
  proof -
    have "?T < taken q + logical_capacity q" "taken q \<le> Suc (length (popped q))"
      using push_write(2) assms(3) by (auto simp: spsc_inv_def Let_def taken_def split: consumer.splits)
    then show ?thesis using mod_eq_close [of j ?T ?n] that by auto
  qed
  have same: "(buffer q)[?T mod Suc (logical_capacity q) := Some x] ! (j mod Suc (logical_capacity q)) =
      buffer q ! (j mod Suc (logical_capacity q))" if "j < ?T" "length (popped q) \<le> j" for j
    using free [OF that] by simp
  show ?thesis using assms(3) push_write same
    by (auto simp: spsc_inv_def taken_def Let_def split: consumer.splits)
next
  case (push_publish x)
  then show ?thesis using assms(3)
    by (auto simp: spsc_inv_def taken_def Let_def next_slot_def mod_Suc_eq nth_append less_Suc_eq
        split: consumer.splits)
next
  case pop_start
  then show ?thesis using assms(3) by (auto simp: spsc_inv_def taken_def Let_def split: producer.splits)
next
  case (pop_empty h)
  then show ?thesis using assms(3) by (auto simp: spsc_inv_def taken_def Let_def split: producer.splits)
next
  case (pop_some h)
  then have "length (popped q) \<noteq> length (pushed q)" "length (popped q) \<le> length (pushed q)"
    using assms(3) by (auto simp: spsc_inv_def taken_def Let_def)
  then show ?thesis using assms(3) pop_some(1,2)
    by (auto simp: spsc_inv_def taken_def Let_def split: producer.splits)
next
  case (pop_cas h)
  then show ?thesis using assms(3)
    by (auto simp: spsc_inv_def taken_def Let_def next_slot_def mod_Suc_eq split: producer.splits)
next
  case (pop_cas_fails h)
  then show ?thesis using assms(3) by (auto simp: spsc_inv_def taken_def Let_def split: producer.splits)
next
  case (pop_take h)
  let ?n = "logical_capacity q + 1" and ?p = "length (popped q)"
  have inv: "?p < length (pushed q)" "h = ?p mod ?n" "buffer q ! h = Some (pushed q ! ?p)"
      "length (pushed q) \<le> Suc ?p + logical_capacity q"
    using pop_take(2) assms(3) by (auto simp: spsc_inv_def taken_def Let_def split: producer.splits)
  have other: "j mod ?n \<noteq> h" if "Suc ?p \<le> j" "j < Suc ?p + logical_capacity q" for j
    using mod_eq_close [of ?p j ?n] that inv(2) by auto
  then have same: "(buffer q)[h := None] ! (j mod Suc (logical_capacity q)) =
      buffer q ! (j mod Suc (logical_capacity q))"
    if "Suc ?p \<le> j" "j < Suc ?p + logical_capacity q" for j
    using that by (metis Suc_eq_plus1 nth_list_update_neq)
  show ?thesis using assms(3) pop_take inv same [unfolded inv(2), simplified]
    by (auto simp: spsc_inv_def taken_def Let_def take_Suc_conv_app_nth split: producer.splits)
qed

lemma reachable_inv:
  assumes "spsc_reachable policy n q" "policy \<noteq> DropOldest"
  shows "spsc_inv q" "logical_capacity q = n"
proof -
  have "(spsc_step policy)\<^sup>*\<^sup>* (new_spsc n) q" using assms(1) by (simp add: spsc_reachable_def)
  then have "spsc_inv q \<and> logical_capacity q = n"
  proof (induction rule: rtranclp_induct)
    case base
    show ?case using new_spsc_inv by (simp add: new_spsc_def)
  next
    case (step y z)
    then show ?case using spsc_step_inv [OF step(2) assms(2)] by (auto elim: spsc_step.cases)
  qed
  then show "spsc_inv q" "logical_capacity q = n" by simp_all
qed

lemma mod_sum:
  "(h::nat) < n \<Longrightarrow> d < n \<Longrightarrow> (h + d) mod n = (if h + d < n then h + d else h + d - n)"
  by (simp add: le_mod_geq)

lemma ring_distance:
  "(h::nat) < n \<Longrightarrow> d < n \<Longrightarrow> t = (if h + d < n then h + d else h + d - n) \<Longrightarrow>
   (if h \<le> t then t - h else n - h + t) = d"
  by auto

lemma mod_distance:
  assumes "(H::nat) \<le> T" "T < H + n"
  shows "(if H mod n \<le> T mod n then T mod n - H mod n else n - H mod n + T mod n) = T - H"
proof -
  have n: "0 < n" using assms by simp
  have "T mod n = (H + (T - H)) mod n" using assms by simp
  then have "T mod n = (H mod n + (T - H)) mod n" by (simp only: mod_add_left_eq)
  moreover have less: "H mod n < n" "T - H < n" using n assms by auto
  ultimately have "T mod n = (if H mod n + (T - H) < n then H mod n + (T - H) else H mod n + (T - H) - n)"
    using mod_sum [of "H mod n" n "T - H"] by simp
  then show ?thesis by (rule ring_distance [OF less])
qed

lemma depth_inv:
  assumes "spsc_inv q"
  shows "depth q = length (pushed q) - taken q"
proof -
  have "q_head q = taken q mod (logical_capacity q + 1)"
    "q_tail q = length (pushed q) mod (logical_capacity q + 1)"
    "taken q \<le> length (pushed q)" "length (pushed q) < taken q + (logical_capacity q + 1)"
    using assms by (auto simp: spsc_inv_def Let_def)
  then show ?thesis
    unfolding depth_unfold using mod_distance [of "taken q" "length (pushed q)" "logical_capacity q + 1"]
    by (simp only:)
qed

text \<open>
  C9 The stage ring is a queue in every interleaving of one producer and one consumer, unless
  the policy is to drop the oldest item: the pops return exactly the pushed items, in order and
  never a null pointer, and \<open>Depth\<close> is the number of pushed items the consumer has not
  claimed, at most the capacity, when its two loads see the same state.
\<close>

theorem spsc_queue:
  assumes "spsc_reachable policy n q" "policy \<noteq> DropOldest"
  shows "popped q = map Some (take (length (popped q)) (pushed q)) \<and>
    depth q = length (pushed q) - taken q \<and> taken q \<le> length (pushed q) \<and> depth q \<le> n"
  using reachable_inv [OF assms] depth_inv by (auto simp: spsc_inv_def Let_def)

subsection \<open>Uninterrupted operations\<close>

text \<open>What the operations do when the other side does not move; \<open>cas\<close> is the outcome of the
  weak compare-exchange of the drop.\<close>

definition publish :: "'a \<Rightarrow> 'a spsc \<Rightarrow> 'a spsc" where
  "publish x q = q\<lparr>buffer := (buffer q)[q_tail q := Some x], q_tail := next_slot q (q_tail q),
     pushed := pushed q @ [x]\<rparr>"

definition discard_oldest :: "'a spsc \<Rightarrow> 'a spsc" where
  "discard_oldest q = q\<lparr>q_head := next_slot q (q_head q), q_dropped := q_dropped q + 1\<rparr>"

definition try_push :: "backpressure \<Rightarrow> bool \<Rightarrow> 'a \<Rightarrow> 'a spsc \<Rightarrow> bool \<times> 'a spsc" where
  "try_push policy cas x q =
     (if is_full q then
        (if policy = DropOldest then (True, publish x (if cas then discard_oldest q else q))
         else (False, q))
      else (True, publish x q))"

definition try_pop :: "'a spsc \<Rightarrow> 'a option \<times> 'a spsc" where
  "try_pop q =
     (if is_empty q then (None, q)
      else (buffer q ! q_head q,
            q\<lparr>buffer := (buffer q)[q_head q := None], q_head := next_slot q (q_head q),
              popped := popped q @ [buffer q ! q_head q]\<rparr>))"


lemma write_runs:
  assumes "prod q = PWrite x"
  shows "(spsc_step policy)\<^sup>*\<^sup>* q (publish x (q\<lparr>prod := PIdle\<rparr>))"
proof -
  let ?q1 = "q\<lparr>buffer := (buffer q)[q_tail q := Some x], prod := PPublish x\<rparr>"
  have "spsc_step policy q ?q1" by (rule push_write) (rule assms)
  moreover have "spsc_step policy ?q1 (?q1\<lparr>q_tail := next_slot ?q1 (q_tail ?q1), prod := PIdle,
      pushed := pushed ?q1 @ [x]\<rparr>)"
    by (rule push_publish) simp
  ultimately have "(spsc_step policy)\<^sup>*\<^sup>* q (?q1\<lparr>q_tail := next_slot ?q1 (q_tail ?q1), prod := PIdle,
      pushed := pushed ?q1 @ [x]\<rparr>)"
    by (rule rtranclp.rtrancl_into_rtrancl [OF r_into_rtranclp])
  then show ?thesis by (cases q) (simp add: publish_def next_slot_def)
qed

lemma idle_prod: "prod q = PIdle \<Longrightarrow> q\<lparr>prod := PIdle\<rparr> = q"
  by (cases q) simp

lemma idle_cons: "cons q = CIdle \<Longrightarrow> q\<lparr>cons := CIdle\<rparr> = q"
  by (cases q) simp

lemma try_push_runs:
  assumes "prod q = PIdle"
  shows "(spsc_step policy)\<^sup>*\<^sup>* q (snd (try_push policy cas x q))"
proof -
  let ?c = "q\<lparr>prod := PCheck x\<rparr>" and ?d = "q\<lparr>prod := PDrop x\<rparr>" and ?e = "q\<lparr>prod := PCas x (q_head q)\<rparr>"
  have first: "spsc_step policy q ?c" using assms by (rule push_start)
  have idle: "q\<lparr>prod := PIdle\<rparr> = q" using assms by (rule idle_prod)
  show ?thesis
  proof (cases "is_full q")
    case False
    have "spsc_step policy ?c (?c\<lparr>prod := PWrite x\<rparr>)"
      using False by (intro push_free [where x = x]) (simp_all add: is_full_def next_slot_def)
    with first write_runs [of "?c\<lparr>prod := PWrite x\<rparr>" x policy] show ?thesis
      using False idle by (simp add: try_push_def converse_rtranclp_into_rtranclp)
  next
    case full: True
    then have next_head: "next_slot ?c (q_tail ?c) = q_head ?c" by (simp add: is_full_def next_slot_def)
    show ?thesis
    proof (cases "policy = DropOldest")
      case False
      have "spsc_step policy ?c (?c\<lparr>prod := PIdle\<rparr>)"
        using next_head False by (intro push_full [where x = x]) simp_all
      with first show ?thesis
        using full False idle by (simp add: try_push_def rtranclp.rtrancl_into_rtrancl)
    next
      case True
      have "spsc_step policy ?c ?d"
        using push_make_room [OF _ next_head True, of x] by simp
      moreover have "spsc_step policy ?d ?e" using drop_load [of ?d x policy] by simp
      ultimately have e: "(spsc_step policy)\<^sup>*\<^sup>* q ?e"
        using first by (meson rtranclp.rtrancl_into_rtrancl r_into_rtranclp)
      let ?f = "(if cas then discard_oldest q else q)\<lparr>prod := PWrite x\<rparr>"
      have "spsc_step policy ?e ?f"
        using drop_cas [of ?e x "q_head q" policy] drop_cas_fails [of ?e x "q_head q" policy]
        by (simp add: discard_oldest_def next_slot_def)
      then have "(spsc_step policy)\<^sup>*\<^sup>* q (publish x (?f\<lparr>prod := PIdle\<rparr>))"
        using e write_runs [of ?f x policy] by simp
      then show ?thesis
        using full True assms by (simp add: try_push_def discard_oldest_def idle_prod split: if_splits)
    qed
  qed
qed

lemma claim_runs:
  assumes "cons q = CIdle" "\<not> is_empty q"
  shows "(spsc_step policy)\<^sup>*\<^sup>* q (q\<lparr>q_head := next_slot q (q_head q), cons := CTake (q_head q)\<rparr>)"
proof -
  let ?c = "q\<lparr>cons := CCheck (q_head q)\<rparr>" and ?d = "q\<lparr>cons := CCas (q_head q)\<rparr>"
  have "spsc_step policy q ?c" using assms(1) by (rule pop_start)
  moreover have "spsc_step policy ?c ?d"
    using pop_some [of ?c "q_head q" policy] assms(2) by (simp add: is_empty_def)
  moreover have "spsc_step policy ?d (q\<lparr>q_head := next_slot q (q_head q), cons := CTake (q_head q)\<rparr>)"
    using pop_cas [of ?d "q_head q" policy] by (cases q) (simp add: next_slot_def)
  ultimately show ?thesis by (meson rtranclp.rtrancl_into_rtrancl r_into_rtranclp)
qed

lemma try_pop_runs:
  assumes "cons q = CIdle"
  shows "(spsc_step policy)\<^sup>*\<^sup>* q (snd (try_pop q))"
proof (cases "is_empty q")
  case True
  let ?c = "q\<lparr>cons := CCheck (q_head q)\<rparr>"
  have "spsc_step policy q ?c" using assms by (rule pop_start)
  moreover have "spsc_step policy ?c (?c\<lparr>cons := CIdle\<rparr>)"
    using pop_empty [of ?c "q_head q" policy] True by (simp add: is_empty_def)
  ultimately show ?thesis
    using True assms by (simp add: try_pop_def idle_cons rtranclp.rtrancl_into_rtrancl)
next
  case False
  let ?t = "q\<lparr>q_head := next_slot q (q_head q), cons := CTake (q_head q)\<rparr>"
  have "spsc_step policy ?t (?t\<lparr>buffer := (buffer ?t)[q_head q := None], cons := CIdle,
      popped := popped ?t @ [buffer ?t ! q_head q]\<rparr>)"
    by (rule pop_take) simp
  moreover have "?t\<lparr>buffer := (buffer ?t)[q_head q := None], cons := CIdle,
      popped := popped ?t @ [buffer ?t ! q_head q]\<rparr> = snd (try_pop q)"
    using False assms by (cases q) (simp add: try_pop_def)
  ultimately show ?thesis
    using claim_runs [OF assms False] by (metis rtranclp.rtrancl_into_rtrancl)
qed

theorem spsc_queue_witness:
  "depth (snd (try_push Block True (7::nat) (new_spsc 1))) = 1 \<and>
   popped (snd (try_push Block True (7::nat) (new_spsc 1))) = []"
proof -
  have "spsc_reachable Block 1 (snd (try_push Block True (7::nat) (new_spsc 1)))"
    using try_push_runs [of "new_spsc 1" Block True "7::nat"]
    by (simp add: spsc_reachable_def new_spsc_def)
  from spsc_queue [OF this] show ?thesis
    by (simp add: taken_def try_push_def publish_def new_spsc_def is_full_def next_slot_def)
qed

lemma first_push:
  "snd (try_push DropOldest True a (new_spsc 1)) =
     (new_spsc 1)\<lparr>buffer := [Some a, None], q_tail := 1, pushed := [a]\<rparr>"
  by (simp add: try_push_def publish_def new_spsc_def is_full_def next_slot_def)

lemma first_push_reachable:
  "spsc_reachable DropOldest 1 ((new_spsc 1)\<lparr>buffer := [Some a, None], q_tail := 1, pushed := [a]\<rparr>)"
  using try_push_runs [of "new_spsc 1" DropOldest True a] unfolding first_push
  by (simp add: spsc_reachable_def new_spsc_def)

lemma spurious_failure:
  "\<exists>q. spsc_reachable DropOldest 1 q \<and> pushed q = [a, b] \<and> popped q = [] \<and> is_empty q \<and> q_dropped q = 0"
proof (intro exI conjI)
  let ?q1 = "(new_spsc 1)\<lparr>buffer := [Some a, None], q_tail := 1, pushed := [a]\<rparr>"
  let ?f = "snd (try_push DropOldest False b ?q1)"
  show "spsc_reachable DropOldest 1 ?f"
    using try_push_runs [of ?q1 DropOldest False b] first_push_reachable [of a]
    by (simp add: spsc_reachable_def new_spsc_def)
  show "pushed ?f = [a, b]" "popped ?f = []" "is_empty ?f" "q_dropped ?f = 0"
    by (simp_all add: try_push_def publish_def new_spsc_def is_full_def is_empty_def next_slot_def)
qed

lemma overwritten_claim:
  "\<exists>q. spsc_reachable DropOldest 1 q \<and> pushed q = [a, b, c] \<and> popped q = [Some c, None] \<and> q_dropped q = 1"
proof (intro exI conjI)
  let ?q1 = "(new_spsc 1)\<lparr>buffer := [Some a, None], q_tail := 1, pushed := [a]\<rparr>"
  let ?q2 = "?q1\<lparr>q_head := 1, cons := CTake 0\<rparr>"
  let ?q3 = "?q2\<lparr>buffer := [Some a, Some b], q_tail := 0, pushed := [a, b]\<rparr>"
  let ?q4 = "?q3\<lparr>buffer := [Some c, Some b], q_head := 0, q_tail := 1, q_dropped := 1, pushed := [a, b, c]\<rparr>"
  let ?q5 = "?q4\<lparr>buffer := [None, Some b], cons := CIdle, popped := [Some c]\<rparr>"
  let ?steps = "(spsc_step DropOldest)\<^sup>*\<^sup>*"
  have s1: "?steps ?q1 ?q2"
    using claim_runs [of ?q1 DropOldest] by (simp add: new_spsc_def is_empty_def next_slot_def)
  have s2: "?steps ?q2 ?q3"
    using try_push_runs [of ?q2 DropOldest True b]
    by (simp add: new_spsc_def try_push_def publish_def is_full_def next_slot_def)
  have s3: "?steps ?q3 ?q4"
    using try_push_runs [of ?q3 DropOldest True c]
    by (simp add: new_spsc_def try_push_def publish_def is_full_def next_slot_def discard_oldest_def)
  have s4: "?steps ?q4 ?q5"
    using pop_take [of ?q4 0 DropOldest] by (simp add: new_spsc_def)
  have s5: "?steps ?q5 (snd (try_pop ?q5))" by (rule try_pop_runs) simp
  have "?steps (new_spsc 1) ?q1" using first_push_reachable [of a] unfolding spsc_reachable_def .
  then show "spsc_reachable DropOldest 1 (snd (try_pop ?q5))"
    unfolding spsc_reachable_def
    by (rule rtranclp_trans [OF _ rtranclp_trans [OF s1 rtranclp_trans [OF s2 rtranclp_trans [OF s3
          rtranclp_trans [OF s4 s5]]]]])
  show "pushed (snd (try_pop ?q5)) = [a, b, c]" "popped (snd (try_pop ?q5)) = [Some c, None]"
    "q_dropped (snd (try_pop ?q5)) = 1"
    by (simp_all add: try_pop_def is_empty_def)
qed

text \<open>
  The policy \<open>DropOldest\<close> breaks the queue in two ways, here with capacity one. If the weak
  compare-exchange fails spuriously, the full ring becomes empty: both items are lost and
  neither is counted. If a push drops while the consumer has claimed a slot but not yet moved
  the item out, the slot is overwritten: the consumer gets the third item first, then a null
  pointer from a queue that is not empty, and the first item is lost uncounted.
\<close>

theorem drop_oldest_loses_items:
  "(\<exists>q. spsc_reachable DropOldest 1 q \<and> pushed q = [a, b] \<and> popped q = [] \<and> is_empty q \<and> q_dropped q = 0) \<and>
   (\<exists>q. spsc_reachable DropOldest 1 q \<and> pushed q = [a, b, c] \<and> popped q = [Some c, None] \<and> q_dropped q = 1)"
  by (rule conjI [OF spurious_failure overwritten_claim])

text \<open>
  The loads of \<open>Depth\<close> are not one snapshot: a caller that loads the tail of an empty ring and the head after one
  item went through it computes the full capacity, although the ring never held more than one item.
\<close>

theorem torn_depth:
  assumes "n \<noteq> 0"
  shows "\<exists>q q'. spsc_reachable Block n q \<and> (spsc_step Block)\<^sup>*\<^sup>* q q' \<and> pushed q' = [a] \<and> popped q' = [Some a] \<and>
     depth_loads n (q_tail q) (q_head q') = n"
proof -
  let ?q1 = "snd (try_push Block True a (new_spsc n))"
  let ?q2 = "snd (try_pop ?q1)"
  have q1: "?q1 = (new_spsc n)\<lparr>buffer := (replicate (n + 1) None)[0 := Some a], q_tail := 1, pushed := [a]\<rparr>"
    using assms by (simp add: try_push_def publish_def new_spsc_def is_full_def next_slot_def)
  have "(spsc_step Block)\<^sup>*\<^sup>* (new_spsc n) ?q1" by (rule try_push_runs) (simp add: new_spsc_def)
  moreover have "(spsc_step Block)\<^sup>*\<^sup>* ?q1 ?q2" unfolding q1 by (rule try_pop_runs) (simp add: new_spsc_def)
  ultimately have "(spsc_step Block)\<^sup>*\<^sup>* (new_spsc n) ?q2" by simp
  moreover have "pushed ?q2 = [a] \<and> popped ?q2 = [Some a] \<and> depth_loads n (q_tail (new_spsc n :: 'a spsc)) (q_head ?q2) = n"
    unfolding q1 using assms by (simp add: try_pop_def is_empty_def new_spsc_def next_slot_def depth_loads_def)
  ultimately show ?thesis
    by (intro exI [of _ "new_spsc n"] exI [of _ ?q2]) (simp add: spsc_reachable_def)
qed

subsection \<open>The stage queue\<close>

text \<open>
  The blocking operations run under the mutex of the queue: \<open>None\<close> stands for a call that waits
  on the condition variable, and the stop token is consulted only when the wait condition fails.
\<close>

definition create_queue :: "nat \<Rightarrow> 'a spsc result" where
  "create_queue n =
     (if n = 0 then Inl (ErrorInfo Scheduler_QueueCreateFailed ''Queue capacity must be > 0'')
      else Inr (new_spsc n))"

definition push_blocking :: "backpressure \<Rightarrow> 'a \<Rightarrow> 'a spsc \<Rightarrow> 'a spsc option" where
  "push_blocking policy x q = (if is_full q then None else Some (snd (try_push policy True x q)))"

definition push_blocking_with_stop :: "backpressure \<Rightarrow> bool \<Rightarrow> 'a \<Rightarrow> 'a spsc \<Rightarrow> (bool \<times> 'a spsc) option" where
  "push_blocking_with_stop policy stop x q =
     (if is_full q then (if stop then Some (False, q) else None)
      else Some (True, snd (try_push policy True x q)))"

definition pop_blocking :: "'a spsc \<Rightarrow> ('a option \<times> 'a spsc) option" where
  "pop_blocking q = (if is_empty q then None else Some (try_pop q))"

definition pop_blocking_with_stop :: "bool \<Rightarrow> 'a spsc \<Rightarrow> ('a option \<times> 'a spsc) option" where
  "pop_blocking_with_stop stop q =
     (if is_empty q then (if stop then Some (None, q) else None) else Some (try_pop q))"

text \<open>
  At rest the stage ring is a device ring with one slot more than its capacity, written at its
  tail and read at its head: it inherits the contract.
\<close>

definition as_ring :: "'a spsc \<Rightarrow> 'a ring" where
  "as_ring q = \<lparr>slots = buffer q, capacity = logical_capacity q + 1, ring_head = q_tail q,
     ring_tail = q_head q, ring_count = depth q, dropped_count = q_dropped q\<rparr>"

definition at_rest :: "'a spsc \<Rightarrow> bool" where
  "at_rest q \<longleftrightarrow> ring_valid (as_ring q) \<and> depth q \<le> logical_capacity q"

definition stage_contents :: "'a spsc \<Rightarrow> 'a list" where
  "stage_contents q = ring_contents (as_ring q)"

lemma length_stage_contents [simp]: "length (stage_contents q) = depth q"
  by (simp add: stage_contents_def as_ring_def)

lemma new_spsc_at_rest: "at_rest (new_spsc n)" "stage_contents (new_spsc n) = []"
  by (simp_all add: at_rest_def stage_contents_def as_ring_def new_spsc_def depth_unfold ring_valid_def
      ring_contents_def ring_slot_def)

lemma at_rest_indices:
  assumes "at_rest q"
  shows "q_head q \<le> logical_capacity q" "q_tail q = (q_head q + depth q) mod (logical_capacity q + 1)"
    "depth q \<le> logical_capacity q" "length (buffer q) = logical_capacity q + 1"
  using assms by (auto simp: at_rest_def ring_valid_def as_ring_def ring_slot_def)

lemma full_at_rest: "at_rest q \<Longrightarrow> is_full q \<longleftrightarrow> depth q = logical_capacity q"
  using full_iff [of "q_head q" "q_head q + depth q" "logical_capacity q"] at_rest_indices [of q]
  by (simp add: is_full_def next_slot_def)

lemma empty_at_rest: "at_rest q \<Longrightarrow> is_empty q \<longleftrightarrow> depth q = 0"
  using at_rest_indices [of q] by (auto simp: is_empty_def depth_unfold)

lemma depth_eq:
  assumes "q_head q \<le> logical_capacity q" "d \<le> logical_capacity q"
    "q_tail q = (q_head q + d) mod (logical_capacity q + 1)"
  shows "depth q = d"
  unfolding depth_unfold
  by (rule ring_distance)
    (use assms mod_sum [of "q_head q" "logical_capacity q + 1" d] in auto)

lemma publish_at_rest:
  assumes "at_rest q" "depth q < logical_capacity q"
  shows "at_rest (publish x q)" "stage_contents (publish x q) = stage_contents q @ [x]"
proof -
  note i = at_rest_indices [OF assms(1)]
  have depth: "depth (publish x q) = Suc (depth q)"
    using i assms(2) by (intro depth_eq) (simp_all add: publish_def next_slot_def mod_Suc_eq)
  have "as_ring (publish x q) = as_ring q\<lparr>slots := (slots (as_ring q))[ring_head (as_ring q) := Some x],
      ring_head := (ring_head (as_ring q) + 1) mod capacity (as_ring q),
      ring_count := ring_count (as_ring q) + 1\<rparr>"
    using depth by (simp add: as_ring_def) (simp add: publish_def next_slot_def)
  moreover have "ring_valid (as_ring q)" "ring_count (as_ring q) < capacity (as_ring q)"
    using assms by (auto simp: at_rest_def as_ring_def)
  ultimately have "ring_valid (as_ring (publish x q))"
    "ring_contents (as_ring (publish x q)) = ring_contents (as_ring q) @ [x]"
    using store_contents [of "as_ring q" "as_ring (publish x q)" x] by blast+
  then show "at_rest (publish x q)" "stage_contents (publish x q) = stage_contents q @ [x]"
    using depth assms(2) by (auto simp: at_rest_def stage_contents_def publish_def)
qed

lemma advance_at_rest:
  assumes "at_rest q" "depth q \<noteq> 0"
    and q': "q' = q\<lparr>buffer := (buffer q)[q_head q := None], q_head := next_slot q (q_head q)\<rparr>"
  shows "at_rest q'" "stage_contents q = the (buffer q ! q_head q) # stage_contents q'"
    "buffer q ! q_head q \<noteq> None"
proof -
  note i = at_rest_indices [OF assms(1)]
  obtain d where d: "depth q = Suc d" using assms(2) by (cases "depth q") auto
  have depth: "depth q' = depth q - 1"
    using i by (intro depth_eq) (simp_all add: q' next_slot_def d mod_add_left_eq)
  have adv: "as_ring q' = advance_tail (as_ring q)"
    using depth by (simp add: as_ring_def advance_tail_def q' next_slot_def)
  have "ring_valid (as_ring q)" "ring_count (as_ring q) \<noteq> 0"
    using assms by (auto simp: at_rest_def as_ring_def)
  note a = advance_tail_contents [OF this]
  show "at_rest q'" using a(1) depth i(3) adv by (simp add: at_rest_def q')
  show "stage_contents q = the (buffer q ! q_head q) # stage_contents q'" "buffer q ! q_head q \<noteq> None"
    using a(2,3) adv by (simp_all add: stage_contents_def as_ring_def)
qed

interpretation stage_ring: fifo try_pop stage_contents at_rest
proof unfold_locales
  fix q :: "'a spsc" and x :: 'a and xs
  assume v: "at_rest q"
  show "stage_contents q = [] \<Longrightarrow> try_pop q = (None, q)"
    using empty_at_rest [OF v] length_stage_contents [of q] by (simp add: try_pop_def)
  assume c: "stage_contents q = x # xs"
  then have d: "depth q \<noteq> 0" using length_stage_contents [of q] by simp
  let ?q = "q\<lparr>buffer := (buffer q)[q_head q := None], q_head := next_slot q (q_head q)\<rparr>"
  have "as_ring (snd (try_pop q)) = as_ring ?q" "depth (snd (try_pop q)) = depth ?q"
    "logical_capacity (snd (try_pop q)) = logical_capacity ?q"
    using d empty_at_rest [OF v] by (simp_all add: try_pop_def as_ring_def depth_unfold)
  then have "at_rest (snd (try_pop q)) \<longleftrightarrow> at_rest ?q" "stage_contents (snd (try_pop q)) = stage_contents ?q"
    by (simp_all add: at_rest_def stage_contents_def)
  then show "fst (try_pop q) = Some x \<and> stage_contents (snd (try_pop q)) = xs \<and> at_rest (snd (try_pop q))"
    using advance_at_rest [OF v d refl] d empty_at_rest [OF v] c by (auto simp: try_pop_def)
qed

text \<open>Dropping leaves the item in its slot, which no longer counts.\<close>

lemma discard_at_rest:
  assumes "at_rest q" "depth q \<noteq> 0"
  shows "at_rest (discard_oldest q)" "stage_contents q = the (buffer q ! q_head q) # stage_contents (discard_oldest q)"
    "depth (discard_oldest q) = depth q - 1"
proof -
  let ?q = "q\<lparr>buffer := (buffer q)[q_head q := None], q_head := next_slot q (q_head q)\<rparr>"
  let ?d = "discard_oldest q"
  note a = advance_at_rest [OF assms refl]
  have depth: "depth ?d = depth ?q" by (simp add: discard_oldest_def depth_unfold)
  have less: "depth ?q = depth q - 1" using a(2) length_stage_contents by (metis diff_Suc_1 length_Cons)
  have slot: "ring_slot (as_ring ?d) i = ring_slot (as_ring q) (Suc i)"
    "ring_slot (as_ring ?q) i = ring_slot (as_ring q) (Suc i)" for i
    by (simp_all add: ring_slot_def as_ring_def discard_oldest_def next_slot_def mod_simps)
  have keep: "buffer ?q ! ring_slot (as_ring q) (Suc i) = buffer q ! ring_slot (as_ring q) (Suc i)"
    if "i < depth ?q" for i
    using ring_slot_inj [of 0 "as_ring q" "Suc i"] that less at_rest_indices [OF assms(1)]
    by (simp add: as_ring_def ring_slot_def)
  have fields: "slots (as_ring ?d) = buffer q" "slots (as_ring ?q) = buffer ?q"
    "ring_count (as_ring ?d) = depth ?q" "ring_count (as_ring ?q) = depth ?q"
    "capacity (as_ring ?d) = capacity (as_ring ?q)" "ring_head (as_ring ?d) = ring_head (as_ring ?q)"
    "ring_tail (as_ring ?d) = ring_tail (as_ring ?q)" "length (buffer ?q) = length (buffer q)"
    using depth by (simp_all add: as_ring_def discard_oldest_def next_slot_def)
  have "ring_valid (as_ring ?d) \<longleftrightarrow> ring_valid (as_ring ?q)"
    unfolding ring_valid_def fields slot using keep by auto
  moreover have contents: "ring_contents (as_ring ?d) = ring_contents (as_ring ?q)"
    unfolding ring_contents_def fields slot using keep by simp
  ultimately show "at_rest ?d" "stage_contents q = the (buffer q ! q_head q) # stage_contents ?d"
    "depth ?d = depth q - 1"
    using a less depth unfolding at_rest_def stage_contents_def by (simp_all add: discard_oldest_def)
qed

interpretation stage_drop: overwriting_fifo try_pop stage_contents
  "\<lambda>q. at_rest q \<and> 0 < logical_capacity q"
  "\<lambda>x q. snd (try_push DropOldest True x q)" logical_capacity q_dropped
proof unfold_locales
  fix q :: "'a spsc" and x :: 'a and xs
  assume v: "at_rest q \<and> 0 < logical_capacity q"
  then have r: "at_rest q" by simp
  show "stage_contents q = [] \<Longrightarrow> try_pop q = (None, q)" using stage_ring.pop_none [OF r] .
  show "stage_contents q = x # xs \<Longrightarrow> fst (try_pop q) = Some x \<and> stage_contents (snd (try_pop q)) = xs \<and>
      at_rest (snd (try_pop q)) \<and> 0 < logical_capacity (snd (try_pop q))"
    using stage_ring.pop_some [OF r] v by (simp add: try_pop_def)
  let ?p = "snd (try_push DropOldest True x q)"
  have push: "at_rest ?p \<and> stage_contents ?p = drop (Suc (depth q) - logical_capacity q) (stage_contents q @ [x]) \<and>
      q_dropped ?p = q_dropped q + of_nat (Suc (depth q) - logical_capacity q) \<and>
      logical_capacity ?p = logical_capacity q"
  proof (cases "is_full q")
    case False
    then have "depth q < logical_capacity q"
      using full_at_rest [OF r] at_rest_indices(3) [OF r] by simp
    then show ?thesis
      using publish_at_rest [OF r, of x] False by (simp add: try_push_def publish_def)
  next
    case True
    then have full: "depth q = logical_capacity q" using full_at_rest [OF r] by simp
    then have "depth q \<noteq> 0" using v by simp
    note d = discard_at_rest [OF r this]
    have cap: "logical_capacity (discard_oldest q) = logical_capacity q" by (simp add: discard_oldest_def)
    have "depth (discard_oldest q) < logical_capacity (discard_oldest q)"
      using d(3) full v cap by simp
    note p = publish_at_rest [OF d(1) this, of x]
    have "?p = publish x (discard_oldest q)" using True by (simp add: try_push_def)
    then show ?thesis
      using p d(2) full by (simp add: publish_def) (simp add: discard_oldest_def)
  qed
  then show "at_rest ?p \<and> 0 < logical_capacity ?p" "logical_capacity ?p = logical_capacity q"
    "stage_contents ?p = drop (Suc (length (stage_contents q)) - logical_capacity q) (stage_contents q @ [x])"
    "q_dropped ?p = q_dropped q + of_nat (Suc (length (stage_contents q)) - logical_capacity q)"
    using v by simp_all
qed

text \<open>
  The stage queue at rest: a push is accepted exactly if the queue is not full (the stop
  token only matters when it is) and then appends the item; on a full queue it gives up if a
  stop is requested and waits otherwise, and in both cases changes nothing. A pop returns the
  oldest item; on an empty queue it returns nothing if a stop is requested and waits otherwise.
\<close>

theorem stage_queue_blocking:
  assumes "at_rest q"
  shows "(case push_blocking_with_stop policy stop x q of
            None \<Rightarrow> depth q = logical_capacity q \<and> \<not> stop
          | Some (False, q') \<Rightarrow> depth q = logical_capacity q \<and> stop \<and> q' = q
          | Some (True, q') \<Rightarrow> depth q < logical_capacity q \<and> at_rest q' \<and>
              stage_contents q' = stage_contents q @ [x]) \<and>
         (case pop_blocking_with_stop stop q of
            None \<Rightarrow> stage_contents q = [] \<and> \<not> stop
          | Some (None, q') \<Rightarrow> stage_contents q = [] \<and> stop \<and> q' = q
          | Some (Some y, q') \<Rightarrow> at_rest q' \<and> stage_contents q = y # stage_contents q')"
proof
  show "case push_blocking_with_stop policy stop x q of
            None \<Rightarrow> depth q = logical_capacity q \<and> \<not> stop
          | Some (False, q') \<Rightarrow> depth q = logical_capacity q \<and> stop \<and> q' = q
          | Some (True, q') \<Rightarrow> depth q < logical_capacity q \<and> at_rest q' \<and>
              stage_contents q' = stage_contents q @ [x]"
    using full_at_rest [OF assms] at_rest_indices(3) [OF assms] publish_at_rest [OF assms, of x]
    by (auto simp: push_blocking_with_stop_def try_push_def le_less)
  show "case pop_blocking_with_stop stop q of
            None \<Rightarrow> stage_contents q = [] \<and> \<not> stop
          | Some (None, q') \<Rightarrow> stage_contents q = [] \<and> stop \<and> q' = q
          | Some (Some y, q') \<Rightarrow> at_rest q' \<and> stage_contents q = y # stage_contents q'"
  proof (cases "stage_contents q")
    case Nil
    then show ?thesis using empty_at_rest [OF assms] length_stage_contents [of q]
      by (simp add: pop_blocking_with_stop_def)
  next
    case (Cons y ys)
    then have "\<not> is_empty q" using empty_at_rest [OF assms] length_stage_contents [of q] by simp
    then show ?thesis
      using stage_ring.pop_some [OF assms Cons] Cons
      by (cases "try_pop q") (simp add: pop_blocking_with_stop_def)
  qed
qed

theorem stage_queue_blocking_witness:
  "\<exists>q'. push_blocking_with_stop Block True (7::nat) (new_spsc 1) = Some (True, q') \<and>
     stage_contents q' = [7]"
proof -
  obtain q' where q': "push_blocking_with_stop Block True (7::nat) (new_spsc 1) = Some (True, q')"
    by (simp add: push_blocking_with_stop_def is_full_def new_spsc_def next_slot_def)
  then show ?thesis
    using stage_queue_blocking [where policy = Block and stop = True and x = "7::nat",
        OF new_spsc_at_rest(1) [of 1]] new_spsc_at_rest(2) [of 1]
    by auto
qed

end
