(* ===== verification/Pipeline_Builder.thy ===== *)
theory Pipeline_Builder
  imports Ring_Buffers Yaml
begin

text \<open>
  Pipeline configurations (\<open>include/sai/pipeline/pipeline_config.h\<close>): reading them from YAML
  and validating them (\<open>src/pipeline/pipeline_builder.cpp\<close>), with the correctness of the cycle
  check (Kahn's algorithm). The exceptions of yaml-cpp and \<open>std::invalid_argument\<close> are caught
  in \<open>ParseFromYAML\<close>, so every failure is an error value here.
\<close>

subsection \<open>Configurations\<close>

datatype stage_type = Capture | Preprocess | Inference | Detect | RuleEval | Reason | Export | Custom

definition stage_type_from_string :: "string \<Rightarrow> string + stage_type" where
  "stage_type_from_string s =
     (if s = ''Capture'' then Inr Capture
      else if s = ''Preprocess'' then Inr Preprocess
      else if s = ''Inference'' then Inr Inference
      else if s = ''Detect'' then Inr Detect
      else if s = ''RuleEval'' then Inr RuleEval
      else if s = ''Reason'' then Inr Reason
      else if s = ''Export'' then Inr Export
      else if s = ''Custom'' then Inr Custom
      else Inl (''Unknown StageType: '' @ s))"

definition backpressure_from_string :: "string \<Rightarrow> string + backpressure" where
  "backpressure_from_string s =
     (if s = ''block'' then Inr Block
      else if s = ''drop_oldest'' then Inr DropOldest
      else if s = ''degrade'' then Inr Degrade
      else Inl (''Unknown BackpressurePolicy: '' @ s))"

record stage_config =
  sc_id :: string
  sc_type :: stage_type
  depends_on :: "string list"
  sc_config :: "yaml option"
  sc_backpressure :: backpressure
  sc_queue_capacity :: "64 word option"

record backpressure_config =
  default_policy :: backpressure
  stage_overrides :: "(string, backpressure) smap"

record pool_override =
  po_threads :: "64 word"
  po_queue_capacity :: "64 word option"

record pipeline_config =
  pc_name :: string
  pc_version :: string
  pc_backpressure :: backpressure_config
  stages :: "stage_config list"
  pool_overrides :: "(string, pool_override) smap"

subsection \<open>Reading a configuration\<close>

record pipe_conv = load_conv +
  as_size_text :: "string \<Rightarrow> 64 word option"

definition invalid_config :: "string \<Rightarrow> 'a result" where
  "invalid_config msg = Inl (ErrorInfo Pipeline_InvalidConfig msg)"

text \<open>What the two handlers of \<open>ParseFromYAML\<close> make of an exception.\<close>

definition caught :: "'z pipe_conv_scheme \<Rightarrow> yaml_exception + 'a \<Rightarrow> 'a result" where
  "caught cv x = (case x of Inl ex \<Rightarrow> invalid_config (what cv ex) | Inr a \<Rightarrow> Inr a)"

definition caught_argument :: "string + 'a \<Rightarrow> 'a result" where
  "caught_argument x = (case x of Inl msg \<Rightarrow> invalid_config msg | Inr a \<Rightarrow> Inr a)"

text \<open>\<open>node[key].as<std::string>()\<close> and \<open>node.as<std::size_t>()\<close>.\<close>

definition text_at :: "'z pipe_conv_scheme \<Rightarrow> yaml \<Rightarrow> string \<Rightarrow> string result" where
  "text_at cv y k =
     and_then (caught cv (y_index y k)) (\<lambda>n.
       caught cv (case text_of cv n of None \<Rightarrow> Inl BadConversion | Some s \<Rightarrow> Inr s))"

definition size_must :: "'z pipe_conv_scheme \<Rightarrow> yaml \<Rightarrow> 64 word result" where
  "size_must cv y =
     caught cv (case y of
        YScalar s \<Rightarrow> (case as_size_text cv s of None \<Rightarrow> Inl BadConversion | Some k \<Rightarrow> Inr k)
      | _ \<Rightarrow> Inl BadConversion)"

definition size_opt :: "'z pipe_conv_scheme \<Rightarrow> yaml option \<Rightarrow> 64 word option result" where
  "size_opt cv y = (case y of None \<Rightarrow> Inr None | Some n \<Rightarrow> and_then (size_must cv n) (\<lambda>k. Inr (Some k)))"

primrec read_overrides :: "'z pipe_conv_scheme \<Rightarrow> (string \<times> yaml) list \<Rightarrow>
    (string, backpressure) smap \<Rightarrow> (string, backpressure) smap result" where
  "read_overrides cv [] m = Inr m"
| "read_overrides cv (e # es) m =
     and_then (caught cv (case text_of cv (Some (snd e)) of None \<Rightarrow> Inl BadConversion | Some s \<Rightarrow> Inr s)) (\<lambda>s.
     and_then (caught_argument (backpressure_from_string s)) (\<lambda>p.
       read_overrides cv es (sm_put (fst e) p m)))"

definition read_backpressure :: "'z pipe_conv_scheme \<Rightarrow> yaml option \<Rightarrow> backpressure_config result" where
  "read_backpressure cv bp =
     (case bp of
        None \<Rightarrow> Inr \<lparr>default_policy = Block, stage_overrides = []\<rparr>
      | Some n \<Rightarrow>
          and_then (caught cv (y_index n ''default'')) (\<lambda>d.
          and_then (caught_argument (backpressure_from_string (text_or cv ''block'' d))) (\<lambda>p.
          and_then (caught cv (y_index n ''stage_overrides'')) (\<lambda>ov.
          and_then (case ov of
               Some (YMap kvs) \<Rightarrow> read_overrides cv kvs []
             | Some (YSeq (_ # _)) \<Rightarrow> caught cv (Inl InvalidNode)
             | _ \<Rightarrow> Inr []) (\<lambda>m.
            Inr \<lparr>default_policy = p, stage_overrides = m\<rparr>)))))"

primrec read_pools :: "'z pipe_conv_scheme \<Rightarrow> (string \<times> yaml) list \<Rightarrow>
    (string, pool_override) smap \<Rightarrow> (string, pool_override) smap result" where
  "read_pools cv [] m = Inr m"
| "read_pools cv (e # es) m =
     and_then (caught cv (y_index (snd e) ''threads'')) (\<lambda>t.
     and_then (caught cv (y_index (snd e) ''queue_capacity'')) (\<lambda>q.
     and_then (size_opt cv q) (\<lambda>cap.
       read_pools cv es (sm_put (fst e)
         \<lparr>po_threads = scalar_or (as_size_text cv) 1 t, po_queue_capacity = cap\<rparr> m))))"

definition merge_backpressure :: "backpressure_config \<Rightarrow> string \<Rightarrow> backpressure" where
  "merge_backpressure bp i = (case sm_get (stage_overrides bp) i of Some p \<Rightarrow> p | None \<Rightarrow> default_policy bp)"

definition parse_stage_config :: "'z pipe_conv_scheme \<Rightarrow> backpressure_config \<Rightarrow> yaml \<Rightarrow> stage_config result" where
  "parse_stage_config cv bp y =
     and_then (text_at cv y ''id'') (\<lambda>i.
     and_then (text_at cv y ''type'') (\<lambda>t.
     and_then (caught_argument (stage_type_from_string t)) (\<lambda>ty.
     and_then (caught cv (y_index y ''depends_on'')) (\<lambda>d.
     and_then (caught cv (name_list cv d)) (\<lambda>deps.
     and_then (caught cv (y_index y ''config'')) (\<lambda>cfg.
     and_then (caught cv (y_index y ''queue_capacity'')) (\<lambda>q.
     and_then (size_opt cv q) (\<lambda>cap.
       Inr \<lparr>sc_id = i, sc_type = ty, depends_on = deps, sc_config = cfg,
            sc_backpressure = merge_backpressure bp i, sc_queue_capacity = cap\<rparr>))))))))"

primrec parse_stages :: "'z pipe_conv_scheme \<Rightarrow> backpressure_config \<Rightarrow> yaml list \<Rightarrow> stage_config list result" where
  "parse_stages cv bp [] = Inr []"
| "parse_stages cv bp (y # ys) =
     and_then (parse_stage_config cv bp y) (\<lambda>s.
     and_then (parse_stages cv bp ys) (\<lambda>ss. Inr (s # ss)))"

definition parse_pipeline :: "'z pipe_conv_scheme \<Rightarrow> yaml \<Rightarrow> pipeline_config result" where
  "parse_pipeline cv pipe =
     and_then (text_at cv pipe ''name'') (\<lambda>name.
     and_then (text_at cv pipe ''version'') (\<lambda>version.
     and_then (caught cv (y_index pipe ''backpressure'')) (\<lambda>b.
     and_then (read_backpressure cv b) (\<lambda>bp.
     and_then (caught cv (y_index pipe ''pool_config'')) (\<lambda>pc.
     and_then (case pc of Some (YMap kvs) \<Rightarrow> read_pools cv kvs [] | _ \<Rightarrow> Inr []) (\<lambda>pools.
     and_then (caught cv (y_index pipe ''stages'')) (\<lambda>st.
     and_then (case st of
          Some (YSeq ys) \<Rightarrow> parse_stages cv bp ys
        | Some (YMap (_ # _)) \<Rightarrow> caught cv (Inl InvalidNode)
        | _ \<Rightarrow> Inr []) (\<lambda>ss.
       Inr \<lparr>pc_name = name, pc_version = version, pc_backpressure = bp, stages = ss,
            pool_overrides = pools\<rparr>))))))))"

definition parse_from_yaml :: "'z pipe_conv_scheme \<Rightarrow> yaml_exception + yaml \<Rightarrow> pipeline_config result" where
  "parse_from_yaml cv doc =
     and_then (caught cv doc) (\<lambda>root.
     and_then (caught cv (y_index root ''pipeline'')) (\<lambda>pipe.
       case pipe of
         None \<Rightarrow> invalid_config (''YAML root must contain '' @ [CHR 0x27] @ ''pipeline'' @ [CHR 0x27] @ '' key'')
       | Some p \<Rightarrow> parse_pipeline cv p))"

subsection \<open>The cycle check\<close>

definition in_degree :: "stage_config list \<Rightarrow> string \<Rightarrow> int" where
  "in_degree ss = fold (\<lambda>s m. fold (\<lambda>d m. m(sc_id s := m (sc_id s) + 1)) (depends_on s) m) ss (\<lambda>_. 0)"

definition successors :: "stage_config list \<Rightarrow> string \<Rightarrow> string list" where
  "successors ss = fold (\<lambda>s m. fold (\<lambda>d m. m(d := m d @ [sc_id s])) (depends_on s) m) ss (\<lambda>_. [])"

definition stage_ids :: "stage_config list \<Rightarrow> string list" where
  "stage_ids ss = sort (remdups (map sc_id ss))"

primrec release :: "string list \<Rightarrow> (string \<Rightarrow> int) \<Rightarrow> string list \<Rightarrow> (string \<Rightarrow> int) \<times> string list" where
  "release [] deg q = (deg, q)"
| "release (y # ys) deg q =
     release ys (deg(y := deg y - 1)) (if deg y - 1 = 0 then q @ [y] else q)"

fun kahn :: "nat \<Rightarrow> (string \<Rightarrow> string list) \<Rightarrow> string list \<Rightarrow> (string \<Rightarrow> int) \<Rightarrow> nat \<Rightarrow> nat option" where
  "kahn n adj [] deg visited = Some visited"
| "kahn 0 adj (x # q) deg visited = None"
| "kahn (Suc n) adj (x # q) deg visited =
     (case release (adj x) deg q of (deg', q') \<Rightarrow> kahn n adj q' deg' (visited + 1))"

definition kahn_run :: "stage_config list \<Rightarrow> nat option" where
  "kahn_run ss = kahn (length ss) (successors ss)
     (filter (\<lambda>i. in_degree ss i = 0) (stage_ids ss)) (in_degree ss) 0"

definition is_acyclic :: "stage_config list \<Rightarrow> bool" where
  "is_acyclic ss = (kahn_run ss = Some (length ss))"

subsection \<open>Validation\<close>

definition output_type_index :: "stage_type \<Rightarrow> nat" where
  "output_type_index t = (case t of Capture \<Rightarrow> 0 | Preprocess \<Rightarrow> 1 | Inference \<Rightarrow> 2 | Detect \<Rightarrow> 3
     | RuleEval \<Rightarrow> 4 | Reason \<Rightarrow> 6 | Export \<Rightarrow> 6 | Custom \<Rightarrow> 0)"

definition input_type_index :: "stage_type \<Rightarrow> nat" where
  "input_type_index t = (case t of Capture \<Rightarrow> 0 | Preprocess \<Rightarrow> 0 | Inference \<Rightarrow> 1 | Detect \<Rightarrow> 2
     | RuleEval \<Rightarrow> 3 | Reason \<Rightarrow> 4 | Export \<Rightarrow> 6 | Custom \<Rightarrow> 0)"

definition check_type_compatibility :: "stage_config \<Rightarrow> stage_config \<Rightarrow> bool" where
  "check_type_compatibility up down = (output_type_index (sc_type up) = input_type_index (sc_type down))"

definition is_digit :: "char \<Rightarrow> bool" where
  "is_digit c \<longleftrightarrow> CHR ''0'' \<le> c \<and> c \<le> CHR ''9''"

text \<open>The regular expression: digits, a dot, digits.\<close>

definition version_matches :: "string \<Rightarrow> bool" where
  "version_matches s =
     (takeWhile is_digit s \<noteq> [] \<and>
      (case dropWhile is_digit s of
         [] \<Rightarrow> False
       | c # r \<Rightarrow> c = CHR ''.'' \<and> r \<noteq> [] \<and> list_all is_digit r))"

primrec check_ids :: "string list \<Rightarrow> stage_config list \<Rightarrow> unit result" where
  "check_ids seen [] = Inr ()"
| "check_ids seen (s # ss) =
     (if sc_id s = [] then invalid_config ''stage id must be non-empty''
      else if List.member seen (sc_id s) then invalid_config (''duplicate stage id: '' @ sc_id s)
      else check_ids (sc_id s # seen) ss)"

definition quoted :: "string \<Rightarrow> string" where
  "quoted s = [CHR 0x27] @ s @ [CHR 0x27]"

primrec check_references :: "string list \<Rightarrow> stage_config list \<Rightarrow> unit result" where
  "check_references ids [] = Inr ()"
| "check_references ids (s # ss) =
     (case find (\<lambda>d. \<not> List.member ids d) (depends_on s) of
        Some d \<Rightarrow> invalid_config (''stage '' @ quoted (sc_id s) @ '' depends_on '' @ quoted d @ '' which does not exist'')
      | None \<Rightarrow> check_references ids ss)"

definition consumer_count :: "stage_config list \<Rightarrow> (string, nat) smap" where
  "consumer_count ss =
     fold (\<lambda>s m. fold (\<lambda>d m. sm_put d (case sm_get m d of None \<Rightarrow> 1 | Some k \<Rightarrow> Suc k) m) (depends_on s) m) ss []"

definition check_fan_out :: "stage_config list \<Rightarrow> unit result" where
  "check_fan_out ss =
     (case find (\<lambda>(i, n). 1 < n) (consumer_count ss) of
        Some (i, n) \<Rightarrow> invalid_config (''v1 does not support fan-out topologies: stage '' @ quoted i @
          '' has '' @ nat_str n @ '' downstream consumers'')
      | None \<Rightarrow> Inr ())"

definition edge_mismatch :: "stage_config list \<Rightarrow> stage_config \<Rightarrow> string \<Rightarrow> bool" where
  "edge_mismatch ss down d =
     (case find (\<lambda>s. sc_id s = d) ss of
        None \<Rightarrow> False
      | Some up \<Rightarrow> \<not> check_type_compatibility up down)"

primrec check_edges :: "stage_config list \<Rightarrow> stage_config list \<Rightarrow> unit result" where
  "check_edges all [] = Inr ()"
| "check_edges all (s # ss) =
     (case find (edge_mismatch all s) (depends_on s) of
        Some d \<Rightarrow> Inl (ErrorInfo Pipeline_StageTypeMismatch
          (''type mismatch: '' @ d @ [CHR 0x20, CHR 0xE2, CHR 0x86, CHR 0x92, CHR 0x20] @ sc_id s))
      | None \<Rightarrow> check_edges all ss)"

definition require :: "bool \<Rightarrow> string \<Rightarrow> unit result" where
  "require b msg = (if b then Inr () else invalid_config msg)"

definition is_entry :: "stage_config \<Rightarrow> bool" where
  "is_entry s \<longleftrightarrow> depends_on s = []"

definition is_exit :: "stage_config list \<Rightarrow> stage_config \<Rightarrow> bool" where
  "is_exit ss s \<longleftrightarrow> \<not> List.member (concat (map depends_on ss)) (sc_id s)"

definition validate :: "pipeline_config \<Rightarrow> unit result" where
  "validate cfg =
     (let ss = stages cfg in
      and_then (require (pc_name cfg \<noteq> []) ''pipeline.name is required'') (\<lambda>_.
      and_then (require (version_matches (pc_version cfg))
        (''pipeline.version must match '' @ [CHR 0x5C] @ ''d+.'' @ [CHR 0x5C] @ ''d+ pattern, got: '' @
          pc_version cfg)) (\<lambda>_.
      and_then (require (ss \<noteq> []) ''pipeline must have at least one stage'') (\<lambda>_.
      and_then (check_ids [] ss) (\<lambda>_.
      and_then (check_references (map sc_id ss) ss) (\<lambda>_.
      and_then (require (is_acyclic ss) ''pipeline has a cyclic dependency'') (\<lambda>_.
      and_then (require (list_ex is_entry ss) ''no entry stage (empty depends_on) found'') (\<lambda>_.
      and_then (require (list_ex (is_exit ss) ss) ''no exit stage found'') (\<lambda>_.
      and_then (require (list_ex (\<lambda>s. is_entry s \<and> sc_type s = Capture) ss)
        ''entry stage (empty depends_on) must be of type Capture'') (\<lambda>_.
      and_then (require (list_ex (\<lambda>s. is_exit ss s \<and> sc_type s = Export) ss)
        ''exit stage must be of type Export'') (\<lambda>_.
      and_then (check_fan_out ss) (\<lambda>_. check_edges ss ss))))))))))))"

subsection \<open>Kahn's algorithm decides acyclicity\<close>

text \<open>The edges of the dependency graph: from a dependency to the stage that names it.\<close>

definition edge_list :: "stage_config list \<Rightarrow> (string \<times> string) list" where
  "edge_list ss = concat (map (\<lambda>s. map (\<lambda>d. (d, sc_id s)) (depends_on s)) ss)"

definition edges_into :: "string \<Rightarrow> (string \<times> string) list \<Rightarrow> (string \<times> string) list" where
  "edges_into v es = filter (\<lambda>e. snd e = v) es"

lemma in_degree_inner:
  "fold (\<lambda>d m. m(i := m i + 1)) ds m v = m v + (if v = i then int (length ds) else 0)"
  by (induction ds arbitrary: m) auto

lemma in_degree_fold:
  "fold (\<lambda>s m. fold (\<lambda>d m. m(sc_id s := m (sc_id s) + 1)) (depends_on s) m) ss m v =
   m v + int (length (edges_into v (edge_list ss)))"
  by (induction ss arbitrary: m)
    (auto simp: edge_list_def edges_into_def in_degree_inner filter_map o_def)

lemma in_degree_edges: "in_degree ss v = int (length (edges_into v (edge_list ss)))"
  by (simp add: in_degree_def in_degree_fold)

lemma successors_inner:
  "fold (\<lambda>d m. m(d := m d @ [i])) ds m u = m u @ map (\<lambda>_. i) (filter (\<lambda>d. d = u) ds)"
  by (induction ds arbitrary: m) auto

lemma successors_fold:
  "fold (\<lambda>s m. fold (\<lambda>d m. m(d := m d @ [sc_id s])) (depends_on s) m) ss m u =
   m u @ map snd (filter (\<lambda>e. fst e = u) (edge_list ss))"
  by (induction ss arbitrary: m) (auto simp: edge_list_def successors_inner filter_map o_def)

lemma successors_edges: "successors ss u = map snd (filter (\<lambda>e. fst e = u) (edge_list ss))"
  by (simp add: successors_def successors_fold)

text \<open>Releasing the successors of a node subtracts their multiplicities.\<close>

lemma release_spec:
  assumes "\<forall>v. int (count_list ys v) \<le> deg v"
  shows "\<exists>new. release ys deg q = (\<lambda>v. deg v - int (count_list ys v), q @ new) \<and>
    distinct new \<and> set new = {v \<in> set ys. deg v = int (count_list ys v)}"
  using assms
proof (induction ys arbitrary: deg q)
  case Nil
  then show ?case by simp
next
  case (Cons y ys)
  let ?deg = "deg(y := deg y - 1)" and ?q = "if deg y - 1 = 0 then q @ [y] else q"
  have less: "\<forall>v. int (count_list ys v) \<le> ?deg v"
  proof
    fix v
    show "int (count_list ys v) \<le> ?deg v" using Cons.prems [rule_format, of v] by (cases "v = y") auto
  qed
  obtain new where new: "release ys ?deg ?q = (\<lambda>v. ?deg v - int (count_list ys v), ?q @ new)"
      "distinct new" "set new = {v \<in> set ys. ?deg v = int (count_list ys v)}"
    using Cons.IH [OF less, of ?q] by blast
  let ?new = "(if deg y - 1 = 0 then [y] else []) @ new"
  have fresh: "y \<notin> set new" if "deg y - 1 = 0"
  proof
    assume "y \<in> set new"
    then have "y \<in> set ys" "int (count_list ys y) = 0" using new(3) that by auto
    then show False by (simp add: count_list_0_iff)
  qed
  have "release (y # ys) deg q = (\<lambda>v. deg v - int (count_list (y # ys) v), q @ ?new)"
    using new(1) by (auto simp: fun_eq_iff)
  moreover have "distinct ?new" using new(2) fresh by simp
  moreover have "set ?new = {v \<in> set (y # ys). deg v = int (count_list (y # ys) v)}"
  proof -
    have "y \<in> set ?new \<longleftrightarrow> deg y = int (count_list (y # ys) y)"
    proof (cases "y \<in> set ys")
      case True
      then have "count_list ys y \<noteq> 0" by (simp add: count_list_0_iff)
      then show ?thesis using less [rule_format, of y] True new(3) by auto
    next
      case False
      then have "count_list ys y = 0" by (simp add: count_list_0_iff)
      then show ?thesis using False new(3) by auto
    qed
    moreover have "v \<in> set ?new \<longleftrightarrow> v \<in> set ys \<and> deg v = int (count_list ys v)" if "v \<noteq> y" for v
      using new(3) that by auto
    ultimately show ?thesis by auto
  qed
  ultimately show ?case by blast
qed

text \<open>
  The invariant of the loop: \<open>P\<close> are the nodes taken from the queue so far. A degree counts
  the edges from other nodes, the nodes of degree zero are those taken or queued, and no node
  on a cycle is taken.
\<close>

definition open_edges :: "string set \<Rightarrow> string \<Rightarrow> (string \<times> string) list \<Rightarrow> nat" where
  "open_edges P v es = length (filter (\<lambda>e. snd e = v \<and> fst e \<notin> P) es)"

definition self_fed :: "(string \<times> string) list \<Rightarrow> string set \<Rightarrow> bool" where
  "self_fed es C \<longleftrightarrow> (\<forall>v \<in> C. \<exists>u \<in> C. (u, v) \<in> set es)"

definition kahn_inv :: "string set \<Rightarrow> (string \<times> string) list \<Rightarrow> string list \<Rightarrow> string list \<Rightarrow>
    (string \<Rightarrow> int) \<Rightarrow> bool" where
  "kahn_inv V es P q deg \<longleftrightarrow>
     distinct (P @ q) \<and> (\<forall>v. deg v = int (open_edges (set P) v es)) \<and>
     set (P @ q) = {v \<in> V. deg v = 0} \<and> (\<forall>C. self_fed es C \<longrightarrow> C \<inter> set P = {})"

lemma open_edges_0: "open_edges P v es = 0 \<longleftrightarrow> (\<forall>u. (u, v) \<in> set es \<longrightarrow> u \<in> P)"
  by (auto simp: open_edges_def filter_empty_conv)

lemma open_edges_split:
  "x \<notin> P \<Longrightarrow> open_edges P v es =
     count_list (map snd (filter (\<lambda>e. fst e = x) es)) v + open_edges (insert x P) v es"
  by (induction es) (auto simp: open_edges_def)

lemma kahn_inv_step:
  assumes inv: "kahn_inv V es P (x # q) deg" and V: "snd ` set es \<subseteq> V"
    and r: "release (map snd (filter (\<lambda>e. fst e = x) es)) deg q = (deg', q')"
  shows "kahn_inv V es (P @ [x]) q' deg'"
proof -
  let ?ys = "map snd (filter (\<lambda>e. fst e = x) es)"
  have x: "x \<notin> set P" "deg x = 0" using inv by (auto simp: kahn_inv_def)
  have deg: "deg v = int (open_edges (set P) v es)" for v using inv by (simp add: kahn_inv_def)
  have split: "deg v = int (count_list ?ys v) + int (open_edges (insert x (set P)) v es)" for v
    using open_edges_split [OF x(1), of v es] deg by simp
  then obtain new where new: "deg' = (\<lambda>v. deg v - int (count_list ?ys v))" "q' = q @ new" "distinct new"
      "set new = {v \<in> set ?ys. deg v = int (count_list ?ys v)}"
    using release_spec [of ?ys deg q] r by auto
  have deg': "deg' v = int (open_edges (insert x (set P)) v es)" for v
    using split [of v] new(1) by simp
  have pos: "0 < deg v" if "v \<in> set ?ys" for v
    using split [of v] count_list_0_iff [of ?ys v] that by linarith
  have old: "set (P @ x # q) = {v \<in> V. deg v = 0}" "distinct (P @ x # q)"
    using inv by (auto simp: kahn_inv_def)
  have zero: "deg' v = 0 \<longleftrightarrow> deg v = 0 \<or> v \<in> set new" for v
  proof (cases "v \<in> set ?ys")
    case True
    then show ?thesis using pos [OF True] new by auto
  next
    case False
    then show ?thesis using new count_list_0_iff [of ?ys v] by auto
  qed
  have fresh: "set new \<inter> set (P @ x # q) = {}"
    unfolding old(1) using pos new(4) by fastforce
  have "set new \<subseteq> V" using new(4) V by auto
  then have "set (P @ [x] @ q') = {v \<in> V. deg' v = 0}"
    unfolding zero using old(1) new(2) by auto
  moreover have "distinct ((P @ [x]) @ q')" using old(2) fresh new(2,3) by auto
  moreover have "C \<inter> set (P @ [x]) = {}" if C: "self_fed es C" for C
  proof -
    have P: "C \<inter> set P = {}" using inv C by (simp add: kahn_inv_def)
    have "x \<notin> C"
    proof
      assume "x \<in> C"
      then obtain u where "u \<in> C" "(u, x) \<in> set es" using C by (auto simp: self_fed_def)
      then show False using x(2) P deg [of x] by (auto simp: open_edges_0)
    qed
    then show ?thesis using P by simp
  qed
  ultimately show ?thesis using deg' by (simp add: kahn_inv_def)
qed

lemma kahn_correct:
  assumes adj: "\<forall>u. adj u = map snd (filter (\<lambda>e. fst e = u) es)" and V: "snd ` set es \<subseteq> V" "finite V"
  shows "kahn_inv V es P q deg \<Longrightarrow> card V - length P \<le> n \<Longrightarrow>
    \<exists>P' deg'. kahn n adj q deg (length P) = Some (length P') \<and> kahn_inv V es P' [] deg'"
proof (induction n arbitrary: P q deg)
  case 0
  have "set (P @ q) \<subseteq> V" "distinct (P @ q)" using 0(1) by (auto simp: kahn_inv_def)
  then have "length (P @ q) \<le> card V" by (metis V(2) card_mono distinct_card)
  then have "q = []" using 0(2) by (cases q) auto
  then show ?case using 0(1) by auto
next
  case (Suc n)
  show ?case
  proof (cases q)
    case Nil
    then show ?thesis using Suc.prems by auto
  next
    case (Cons x xs)
    obtain deg' q' where r: "release (adj x) deg xs = (deg', q')" by fastforce
    have "kahn_inv V es (P @ [x]) q' deg'"
      using kahn_inv_step [OF Suc.prems(1) [unfolded Cons] V(1)] r adj by simp
    from Suc.IH [OF this] show ?thesis using Cons r Suc.prems(2) by simp
  qed
qed

text \<open>A cycle is a set of nodes fed by itself, and the converse for nodes never taken.\<close>

definition dependency_rel :: "stage_config list \<Rightarrow> (string \<times> string) set" where
  "dependency_rel ss = set (edge_list ss)"

lemma cycle_self_fed:
  assumes "\<not> acyclic (set es)"
  obtains C where "self_fed es C" "C \<noteq> {}" "C \<subseteq> snd ` set es"
proof -
  obtain x where x: "(x, x) \<in> (set es)\<^sup>+" using assms by (auto simp: acyclic_def)
  let ?C = "{y. (x, y) \<in> (set es)\<^sup>+ \<and> (y, x) \<in> (set es)\<^sup>*}"
  have "self_fed es ?C"
    unfolding self_fed_def
  proof
    fix v assume v: "v \<in> ?C"
    then have xv: "(x, v) \<in> (set es)\<^sup>+" and vx: "(v, x) \<in> (set es)\<^sup>*" by auto
    from xv obtain u where u: "(x, u) \<in> (set es)\<^sup>*" "(u, v) \<in> set es" by (meson tranclD2)
    have "(x, u) \<in> (set es)\<^sup>+" using x u(1) by (rule trancl_rtrancl_trancl)
    moreover have "(u, x) \<in> (set es)\<^sup>*" using u(2) vx by (rule converse_rtrancl_into_rtrancl)
    ultimately show "\<exists>u \<in> ?C. (u, v) \<in> set es" using u(2) by blast
  qed
  moreover have "x \<in> ?C" using x by simp
  moreover have "?C \<subseteq> snd ` set es"
    by (metis (no_types, lifting) Range_snd mem_Collect_eq subsetI trancl_range Range.intros)
  ultimately show ?thesis using that by blast
qed

lemma self_fed_cycle:
  assumes "self_fed es C" "C \<noteq> {}" "finite C"
  shows "\<not> acyclic (set es)"
proof
  assume "acyclic (set es)"
  then have "wf (set es)" by (simp add: finite_acyclic_wf)
  then obtain v where "v \<in> C" "\<forall>u. (u, v) \<in> set es \<longrightarrow> u \<notin> C"
    using assms(2) by (metis wf_eq_minimal ex_in_conv)
  then show False using assms(1) by (auto simp: self_fed_def)
qed

text \<open>One unit of fuel per stage is enough, and the answer is right.\<close>

lemma kahn_run_spec:
  assumes distinct: "distinct (map sc_id ss)"
    and refs: "\<forall>s \<in> set ss. set (depends_on s) \<subseteq> sc_id ` set ss"
  shows "\<exists>k. kahn_run ss = Some k \<and> (k = length ss \<longleftrightarrow> acyclic (dependency_rel ss))"
proof -
  let ?V = "sc_id ` set ss" and ?es = "edge_list ss"
  let ?q = "filter (\<lambda>i. in_degree ss i = 0) (stage_ids ss)"
  have V: "snd ` set ?es \<subseteq> ?V" "fst ` set ?es \<subseteq> ?V" "finite ?V"
    using refs by (auto simp: edge_list_def subset_iff)
  have card: "card ?V = length ss"
    using distinct by (metis distinct_card length_map list.set_map)
  have "kahn_inv ?V ?es [] ?q (in_degree ss)"
    by (auto simp: kahn_inv_def stage_ids_def in_degree_edges open_edges_def edges_into_def distinct_filter)
  from kahn_correct [where adj = "successors ss" and n = "length ss", OF _ V(1,3) this]
  obtain P deg where run: "kahn_run ss = Some (length P)" and inv: "kahn_inv ?V ?es P [] deg"
    using card by (auto simp: kahn_run_def successors_edges)
  have P: "distinct P" "set P = {v \<in> ?V. deg v = 0}" "\<forall>v. deg v = int (open_edges (set P) v ?es)"
      "\<forall>C. self_fed ?es C \<longrightarrow> C \<inter> set P = {}"
    using inv unfolding kahn_inv_def append_Nil2 by blast+
  have all: "length P = length ss \<longleftrightarrow> set P = ?V"
  proof -
    have "length P = card (set P)" using P(1) by (simp add: distinct_card)
    moreover have "set P \<subseteq> ?V" using P(2) by auto
    ultimately show ?thesis using card V(3) by (metis card_subset_eq)
  qed
  have sub: "set P \<subseteq> ?V" using P(2) by blast
  have "set P = ?V \<longleftrightarrow> acyclic (set ?es)"
  proof
    assume eq: "set P = ?V"
    show "acyclic (set ?es)"
    proof (rule ccontr)
      assume "\<not> acyclic (set ?es)"
      then obtain C where C: "self_fed ?es C" "C \<noteq> {}" "C \<subseteq> snd ` set ?es" by (rule cycle_self_fed)
      have "C \<subseteq> set P" unfolding eq using C(3) V(1) by (rule subset_trans)
      moreover have "C \<inter> set P = {}" using P(4) C(1) by simp
      ultimately show False using C(2) by auto
    qed
  next
    assume ac: "acyclic (set ?es)"
    have "self_fed ?es (?V - set P)"
      unfolding self_fed_def
    proof
      fix v assume v: "v \<in> ?V - set P"
      then have "deg v \<noteq> 0" using P(2) by blast
      then have "open_edges (set P) v ?es \<noteq> 0" using P(3) by simp
      then obtain u where "(u, v) \<in> set ?es" "u \<notin> set P" by (auto simp: open_edges_0)
      then show "\<exists>u \<in> ?V - set P. (u, v) \<in> set ?es" using V(2) by force
    qed
    then show "set P = ?V"
      using self_fed_cycle [of ?es "?V - set P"] ac V(3) sub by auto
  qed
  then show ?thesis using run all by (simp add: dependency_rel_def)
qed

subsection \<open>What a validated pipeline satisfies\<close>

lemma require_Inr [simp]: "require b msg = Inr u \<longleftrightarrow> b"
  by (simp add: require_def invalid_config_def)

lemma and_then_unit: "and_then r f = Inr y \<longleftrightarrow> r = Inr () \<and> f () = Inr y" for r :: "unit result"
  by (cases r) auto

lemma check_ids_ok:
  "check_ids seen ss = Inr () \<longleftrightarrow>
     distinct (map sc_id ss) \<and> (\<forall>s \<in> set ss. sc_id s \<noteq> [] \<and> sc_id s \<notin> set seen)"
  by (induction ss arbitrary: seen) (auto simp: invalid_config_def image_iff)

lemma check_references_ok:
  "check_references ids ss = Inr () \<longleftrightarrow> (\<forall>s \<in> set ss. set (depends_on s) \<subseteq> set ids)"
proof (induction ss)
  case (Cons s ss)
  have "check_references ids (s # ss) = Inr () \<longleftrightarrow>
      find (\<lambda>d. \<not> List.member ids d) (depends_on s) = None \<and> check_references ids ss = Inr ()"
    by (auto simp: invalid_config_def split: option.split)
  then show ?case by (auto simp: Cons.IH find_None_iff)
qed simp

lemma consumer_count_inner:
  "sm_get (fold (\<lambda>d m. sm_put d (case sm_get m d of None \<Rightarrow> 1 | Some k \<Rightarrow> Suc k) m) ds m) v =
     (if v \<in> set ds then Some (count_list ds v + (case sm_get m v of None \<Rightarrow> 0 | Some k \<Rightarrow> k))
      else sm_get m v)"
  by (induction ds arbitrary: m) (auto simp: count_list_0_iff split: option.splits)

lemma consumer_count_fold:
  "sm_get (fold (\<lambda>s m. fold (\<lambda>d m. sm_put d (case sm_get m d of None \<Rightarrow> 1 | Some k \<Rightarrow> Suc k) m)
       (depends_on s) m) ss m) v =
     (if v \<in> set (concat (map depends_on ss))
      then Some (count_list (concat (map depends_on ss)) v + (case sm_get m v of None \<Rightarrow> 0 | Some k \<Rightarrow> k))
      else sm_get m v)"
proof (induction ss arbitrary: m)
  case (Cons s ss)
  show ?case
    by (simp add: Cons.IH consumer_count_inner split: option.split)
qed simp

lemma consumer_count_wf_inner:
  "sm_wf m \<Longrightarrow> sm_wf (fold (\<lambda>d m. sm_put d (case sm_get m d of None \<Rightarrow> 1 | Some k \<Rightarrow> Suc k) m) ds m)"
  by (induction ds arbitrary: m) (auto intro: sm_wf_put)

lemma consumer_count_wf: "sm_wf (consumer_count ss)"
proof -
  have "sm_wf m \<Longrightarrow> sm_wf (fold (\<lambda>s m. fold (\<lambda>d m. sm_put d (case sm_get m d of None \<Rightarrow> 1 | Some k \<Rightarrow> Suc k) m)
      (depends_on s) m) ss m)" for m
    by (induction ss arbitrary: m) (auto intro: consumer_count_wf_inner)
  then show ?thesis by (simp add: consumer_count_def)
qed

lemma distinct_count_list: "distinct xs \<longleftrightarrow> (\<forall>v \<in> set xs. count_list xs v \<le> 1)"
proof (induction xs)
  case (Cons x xs)
  have "count_list xs x = 0 \<longleftrightarrow> x \<notin> set xs" by (rule count_list_0_iff)
  then show ?case using Cons.IH by auto
qed simp

lemma check_fan_out_ok: "check_fan_out ss = Inr () \<longleftrightarrow> distinct (concat (map depends_on ss))"
proof -
  let ?ds = "concat (map depends_on ss)"
  have get: "sm_get (consumer_count ss) v = (if v \<in> set ?ds then Some (count_list ?ds v) else None)" for v
    unfolding consumer_count_def using consumer_count_fold [of ss "[]" v] by simp
  have mem: "(i, n) \<in> set (consumer_count ss) \<longleftrightarrow> sm_get (consumer_count ss) i = Some n" for i n
    using sm_wf_distinct [OF consumer_count_wf, of ss] by (simp add: sm_get_def)
  have "check_fan_out ss = Inr () \<longleftrightarrow> find (\<lambda>(i, n). 1 < n) (consumer_count ss) = None"
    by (auto simp: check_fan_out_def invalid_config_def split: option.split)
  also have "\<dots> \<longleftrightarrow> (\<forall>i n. sm_get (consumer_count ss) i = Some n \<longrightarrow> n \<le> 1)"
    unfolding find_None_iff mem [symmetric] by (auto simp: not_less)
  also have "\<dots> \<longleftrightarrow> (\<forall>v \<in> set ?ds. count_list ?ds v \<le> 1)"
    unfolding get by auto
  finally show ?thesis by (simp only: distinct_count_list)
qed

lemma find_by_id:
  "distinct (map sc_id ss) \<Longrightarrow> s \<in> set ss \<Longrightarrow> find (\<lambda>t. sc_id t = sc_id s) ss = Some s"
  by (induction ss) (auto simp: image_iff)

lemma find_edge:
  assumes "distinct (map sc_id ss)" "up \<in> set ss" "sc_id up = d"
  shows "edge_mismatch ss down d \<longleftrightarrow> \<not> check_type_compatibility up down"
  using find_by_id [OF assms(1,2)] assms(3) by (simp add: edge_mismatch_def)

lemma check_edges_find:
  "check_edges all ss = Inr () \<longleftrightarrow> (\<forall>s \<in> set ss. \<forall>d \<in> set (depends_on s). \<not> edge_mismatch all s d)"
proof (induction ss)
  case (Cons s ss)
  have "check_edges all (s # ss) = Inr () \<longleftrightarrow>
      find (edge_mismatch all s) (depends_on s) = None \<and> check_edges all ss = Inr ()"
    by (auto split: option.split)
  then show ?case by (auto simp: Cons.IH find_None_iff)
qed simp

definition edges_compatible :: "stage_config list \<Rightarrow> bool" where
  "edges_compatible ss \<longleftrightarrow>
     (\<forall>down \<in> set ss. \<forall>up \<in> set ss. sc_id up \<in> set (depends_on down) \<longrightarrow> check_type_compatibility up down)"

lemma check_edges_ok:
  assumes "distinct (map sc_id ss)" "\<forall>s \<in> set ss. set (depends_on s) \<subseteq> sc_id ` set ss"
  shows "check_edges ss ss = Inr () \<longleftrightarrow> edges_compatible ss"
proof -
  have "(\<forall>d \<in> set (depends_on s). \<not> edge_mismatch ss s d) \<longleftrightarrow>
      (\<forall>up \<in> set ss. sc_id up \<in> set (depends_on s) \<longrightarrow> check_type_compatibility up s)"
    if s: "s \<in> set ss" for s
  proof
    assume "\<forall>d \<in> set (depends_on s). \<not> edge_mismatch ss s d"
    then show "\<forall>up \<in> set ss. sc_id up \<in> set (depends_on s) \<longrightarrow> check_type_compatibility up s"
      using find_edge [OF assms(1)] by blast
  next
    assume ok: "\<forall>up \<in> set ss. sc_id up \<in> set (depends_on s) \<longrightarrow> check_type_compatibility up s"
    show "\<forall>d \<in> set (depends_on s). \<not> edge_mismatch ss s d"
    proof
      fix d assume d: "d \<in> set (depends_on s)"
      then obtain up where "up \<in> set ss" "sc_id up = d" using assms(2) s by blast
      then show "\<not> edge_mismatch ss s d" using find_edge [OF assms(1)] ok d by blast
    qed
  qed
  then show ?thesis unfolding check_edges_find edges_compatible_def by blast
qed

text \<open>The specification of a valid configuration.\<close>

definition valid_pipeline :: "pipeline_config \<Rightarrow> bool" where
  "valid_pipeline cfg \<longleftrightarrow>
     (let ss = stages cfg; named = set (concat (map depends_on ss)) in
      pc_name cfg \<noteq> [] \<and>
      (\<exists>a b. pc_version cfg = a @ ''.'' @ b \<and> a \<noteq> [] \<and> b \<noteq> [] \<and> list_all is_digit (a @ b)) \<and>
      distinct (map sc_id ss) \<and> [] \<notin> sc_id ` set ss \<and>
      named \<subseteq> sc_id ` set ss \<and>
      acyclic (dependency_rel ss) \<and>
      (\<exists>s \<in> set ss. depends_on s = [] \<and> sc_type s = Capture) \<and>
      (\<exists>s \<in> set ss. sc_id s \<notin> named \<and> sc_type s = Export) \<and>
      distinct (concat (map depends_on ss)) \<and>
      edges_compatible ss)"

lemma takeWhile_digits:
  "list_all is_digit a \<Longrightarrow> takeWhile is_digit (a @ CHR ''.'' # b) = a"
  "list_all is_digit a \<Longrightarrow> dropWhile is_digit (a @ CHR ''.'' # b) = CHR ''.'' # b"
proof -
  have dot: "\<not> is_digit (CHR ''.'')" by (simp add: is_digit_def less_eq_char_def)
  show "list_all is_digit a \<Longrightarrow> takeWhile is_digit (a @ CHR ''.'' # b) = a"
    "list_all is_digit a \<Longrightarrow> dropWhile is_digit (a @ CHR ''.'' # b) = CHR ''.'' # b"
    using dot by (induction a) auto
qed

lemma version_matches_iff:
  "version_matches s \<longleftrightarrow>
     (\<exists>a b. s = a @ ''.'' @ b \<and> a \<noteq> [] \<and> b \<noteq> [] \<and> list_all is_digit (a @ b))"
proof
  assume "version_matches s"
  then obtain b where "takeWhile is_digit s \<noteq> []" "dropWhile is_digit s = ''.'' @ b" "b \<noteq> []"
      "list_all is_digit b"
    by (auto simp: version_matches_def split: list.splits)
  moreover have "list_all is_digit (takeWhile is_digit s)"
    by (auto simp: list_all_iff dest: set_takeWhileD)
  ultimately show "\<exists>a b. s = a @ ''.'' @ b \<and> a \<noteq> [] \<and> b \<noteq> [] \<and> list_all is_digit (a @ b)"
    using takeWhile_dropWhile_id [of is_digit s] by (metis list_all_append)
next
  assume "\<exists>a b. s = a @ ''.'' @ b \<and> a \<noteq> [] \<and> b \<noteq> [] \<and> list_all is_digit (a @ b)"
  then show "version_matches s" by (auto simp: version_matches_def takeWhile_digits)
qed

lemma is_acyclic_iff:
  assumes "distinct (map sc_id ss)" "\<forall>s \<in> set ss. set (depends_on s) \<subseteq> sc_id ` set ss"
  shows "is_acyclic ss \<longleftrightarrow> acyclic (dependency_rel ss)"
  using kahn_run_spec [OF assms] by (auto simp: is_acyclic_def)

lemma entry_exit_exist:
  assumes "list_ex (\<lambda>s. is_entry s \<and> sc_type s = Capture) ss" "list_ex (\<lambda>s. is_exit ss s \<and> sc_type s = Export) ss"
  shows "ss \<noteq> []" "list_ex is_entry ss" "list_ex (is_exit ss) ss"
  using assms by (auto simp: list_ex_iff)

lemma validate_valid: "validate cfg = Inr () \<longleftrightarrow> valid_pipeline cfg"
proof -
  let ?ss = "stages cfg"
  have refs: "(\<forall>s \<in> set ?ss. set (depends_on s) \<subseteq> sc_id ` set ?ss) \<longleftrightarrow>
      set (concat (map depends_on ?ss)) \<subseteq> sc_id ` set ?ss" by auto
  have nonempty: "[] \<notin> sc_id ` set ?ss \<longleftrightarrow> (\<forall>s \<in> set ?ss. sc_id s \<noteq> [])" by force
  show ?thesis
  proof (cases "distinct (map sc_id ?ss) \<and> (\<forall>s \<in> set ?ss. set (depends_on s) \<subseteq> sc_id ` set ?ss)")
    case True
    then have ids: "distinct (map sc_id ?ss)" "\<forall>s \<in> set ?ss. set (depends_on s) \<subseteq> sc_id ` set ?ss" by auto
    have ex: "list_ex (\<lambda>s. is_entry s \<and> sc_type s = Capture) ?ss \<longleftrightarrow>
          (\<exists>s \<in> set ?ss. depends_on s = [] \<and> sc_type s = Capture)"
        "list_ex (\<lambda>s. is_exit ?ss s \<and> sc_type s = Export) ?ss \<longleftrightarrow>
          (\<exists>s \<in> set ?ss. sc_id s \<notin> set (concat (map depends_on ?ss)) \<and> sc_type s = Export)"
      by (auto simp: list_ex_iff is_entry_def is_exit_def)
    show ?thesis
      unfolding validate_def Let_def and_then_unit require_Inr check_ids_ok check_references_ok
        check_fan_out_ok check_edges_ok [OF ids] is_acyclic_iff [OF ids] version_matches_iff
        valid_pipeline_def ex [symmetric]
      using entry_exit_exist [of ?ss] ids refs nonempty by auto
  next
    case False
    then show ?thesis
      unfolding validate_def Let_def and_then_unit check_ids_ok check_references_ok valid_pipeline_def
      using refs by auto
  qed
qed

text \<open>
  C15 Validation accepts exactly the valid configurations: named, versioned, with unique
  non-empty stage ids and existing references, without a dependency cycle, with a capture
  entry, an export exit, no stage consumed twice, and matching data types along every edge.
\<close>

theorem validate_ok_iff: "validate cfg = Inr () \<longleftrightarrow> valid_pipeline cfg"
  by (rule validate_valid)

text \<open>
  The cycle check: on stages with unique ids and existing references Kahn's algorithm ends
  within one round per stage, and it visits all of them exactly if the dependencies are acyclic.
\<close>

theorem kahn_decides_acyclicity:
  assumes "distinct (map sc_id ss)" "\<forall>s \<in> set ss. set (depends_on s) \<subseteq> sc_id ` set ss"
  shows "kahn_run ss \<noteq> None \<and> (kahn_run ss = Some (length ss) \<longleftrightarrow> acyclic (dependency_rel ss))"
  using kahn_run_spec [OF assms] by auto

theorem kahn_decides_acyclicity_witness:
  "kahn_run [\<lparr>sc_id = ''a'', sc_type = Capture, depends_on = [''a''], sc_config = None, sc_backpressure = Block,
     sc_queue_capacity = None\<rparr>] \<noteq> None"
proof -
  let ?ss = "[\<lparr>sc_id = ''a'', sc_type = Capture, depends_on = [''a''], sc_config = None,
     sc_backpressure = Block, sc_queue_capacity = None\<rparr>]"
  have "distinct (map sc_id ?ss)" "\<forall>s \<in> set ?ss. set (depends_on s) \<subseteq> sc_id ` set ?ss" by simp_all
  from kahn_decides_acyclicity [OF this] show ?thesis by blast
qed

end
