(* ===== verification/Worker_Pool.thy ===== *)
theory Worker_Pool
  imports Core
begin

text \<open>
  Worker pools (\<open>src/runtime/worker_pool.cpp\<close>) and the task scheduler that submits to them
  (\<open>src/runtime/task_scheduler.cpp\<close>). A coroutine handle is a number. The queue operations
  hold the queue's mutex, so each is one atomic step; the threads of a pool and its clients
  interleave as a step relation over the shared state and the phase of every worker.
\<close>

type_synonym handle = nat

record pool =
  queue_capacity :: nat
  pool_queue :: "handle list"

definition new_pool :: "nat \<Rightarrow> pool" where
  "new_pool cap = \<lparr>queue_capacity = cap, pool_queue = []\<rparr>"

definition try_enqueue :: "handle \<Rightarrow> pool \<Rightarrow> unit result \<times> pool" where
  "try_enqueue x p =
     (if queue_capacity p \<le> length (pool_queue p)
      then (Inl (ErrorInfo Runtime_QueueFull ''worker pool queue is at capacity''), p)
      else (Inr (), p\<lparr>pool_queue := pool_queue p @ [x]\<rparr>))"

definition pending_count :: "pool \<Rightarrow> nat" where
  "pending_count p = length (pool_queue p)"

subsection \<open>Workers\<close>

text \<open>
  A worker waits for work, runs a handle it has taken, or has left its loop.
  \<open>accepted\<close> and \<open>taken\<close> are the history: every handle enqueued, and every handle taken,
  in order.
\<close>

datatype worker = Waiting | Busy handle | Exited

record pool_system =
  shared :: pool
  workers :: "worker list"
  stopping :: bool
  accepted :: "handle list"
  taken :: "handle list"

definition start_pool :: "nat \<Rightarrow> nat \<Rightarrow> pool_system" where
  "start_pool thread_count cap =
     \<lparr>shared = new_pool cap, workers = replicate thread_count Waiting, stopping = False,
      accepted = [], taken = []\<rparr>"

text \<open>One pass of the loop: take a handle, or leave when asked to stop on an empty queue.\<close>

inductive pool_step :: "pool_system \<Rightarrow> pool_system \<Rightarrow> bool" where
  enqueue: "try_enqueue x (shared s) = (Inr (), p) \<Longrightarrow>
    pool_step s (s\<lparr>shared := p, accepted := accepted s @ [x]\<rparr>)"
| reject: "try_enqueue x (shared s) = (Inl err, p) \<Longrightarrow> pool_step s (s\<lparr>shared := p\<rparr>)"
| take_work: "i < length (workers s) \<Longrightarrow> workers s ! i = Waiting \<Longrightarrow> pool_queue (shared s) = x # xs \<Longrightarrow>
    pool_step s (s\<lparr>shared := (shared s)\<lparr>pool_queue := xs\<rparr>, workers := (workers s)[i := Busy x],
                  taken := taken s @ [x]\<rparr>)"
| finish: "i < length (workers s) \<Longrightarrow> workers s ! i = Busy x \<Longrightarrow>
    pool_step s (s\<lparr>workers := (workers s)[i := Waiting]\<rparr>)"
| request_stop: "pool_step s (s\<lparr>stopping := True\<rparr>)"
| leave: "i < length (workers s) \<Longrightarrow> workers s ! i = Waiting \<Longrightarrow> stopping s \<Longrightarrow>
    pool_queue (shared s) = [] \<Longrightarrow> pool_step s (s\<lparr>workers := (workers s)[i := Exited]\<rparr>)"

inductive_cases pool_stepE: "pool_step s t"

inductive pool_reachable :: "nat \<Rightarrow> nat \<Rightarrow> pool_system \<Rightarrow> bool" for n cap where
  initial: "pool_reachable n cap (start_pool n cap)"
| step: "pool_reachable n cap s \<Longrightarrow> pool_step s t \<Longrightarrow> pool_reachable n cap t"

definition pool_inv :: "nat \<Rightarrow> nat \<Rightarrow> pool_system \<Rightarrow> bool" where
  "pool_inv n cap s \<longleftrightarrow> length (workers s) = n \<and> queue_capacity (shared s) = cap \<and>
     pending_count (shared s) \<le> cap \<and> accepted s = taken s @ pool_queue (shared s)"

lemma pool_inv_step: "pool_inv n cap s \<Longrightarrow> pool_step s t \<Longrightarrow> pool_inv n cap t"
  by (erule pool_stepE)
     (auto simp: pool_inv_def try_enqueue_def pending_count_def split: if_splits)

lemma pool_reachable_inv: "pool_reachable n cap s \<Longrightarrow> pool_inv n cap s"
proof (induction rule: pool_reachable.induct)
  case initial
  then show ?case by (simp add: pool_inv_def start_pool_def new_pool_def pending_count_def)
next
  case (step s t)
  then show ?case by (blast intro: pool_inv_step)
qed

text \<open>A worker can always act: it has work to take or to finish, waits, or may leave.\<close>

lemma worker_progress:
  assumes "i < length (workers s)" "workers s ! i \<noteq> Exited" "stopping s"
  shows "\<exists>t. pool_step s t \<and> workers t ! i \<noteq> workers s ! i"
proof (cases "workers s ! i")
  case Waiting
  show ?thesis
  proof (cases "pool_queue (shared s)")
    case Nil
    then show ?thesis using leave [OF assms(1) Waiting assms(3) Nil] assms(1) Waiting
      by (intro exI conjI) auto
  next
    case (Cons x xs)
    then show ?thesis using take_work [OF assms(1) Waiting Cons] assms(1) Waiting
      by (intro exI conjI) auto
  qed
next
  case (Busy x)
  then show ?thesis using finish [OF assms(1) Busy] assms(1) by (intro exI conjI) auto
qed (use assms in simp)

subsection \<open>Task scheduler\<close>

text \<open>
  \<open>Submit\<close> resolves the stage's pool and enqueues: the registry holds the pools, the state
  of the pools is a map of its own.
\<close>

type_synonym pool_id = nat

record scheduler_state =
  stage_pools :: "pool_id registry"
  pools :: "pool_id \<Rightarrow> pool"

definition submit :: "type_id \<Rightarrow> handle \<Rightarrow> scheduler_state \<Rightarrow> unit result \<times> scheduler_state" where
  "submit stage x s =
     (case registry_resolve (stage_pools s) stage of
        Inl err \<Rightarrow> (Inl err, s)
      | Inr p \<Rightarrow>
          (case try_enqueue x (pools s p) of
             (r, q) \<Rightarrow> (r, s\<lparr>pools := (pools s)(p := q)\<rparr>)))"

subsection \<open>Properties\<close>

text \<open>
  C5 A worker pool keeps every promise of its queue in every interleaving: at most
  \<open>queue_capacity\<close> handles wait, every accepted handle is taken exactly once and in the
  order of acceptance (what is taken is a prefix of what was accepted, the rest waits).
\<close>

theorem pool_fifo:
  assumes "pool_reachable n cap s"
  shows "pending_count (shared s) \<le> cap \<and> accepted s = taken s @ pool_queue (shared s)"
  using pool_reachable_inv [OF assms] by (simp add: pool_inv_def)

theorem pool_fifo_witness:
  "\<exists>s. pool_reachable 1 1 s \<and> accepted s = [7] \<and> taken s = [7] \<and>
     accepted s = taken s @ pool_queue (shared s)"
proof -
  let ?s1 = "(start_pool 1 1)\<lparr>shared := \<lparr>queue_capacity = 1, pool_queue = [7]\<rparr>, accepted := [7]\<rparr>"
  let ?s2 = "?s1\<lparr>shared := \<lparr>queue_capacity = 1, pool_queue = []\<rparr>, workers := [Busy 7], taken := [7]\<rparr>"
  have "pool_step (start_pool 1 1) ?s1"
    using enqueue [of 7 "start_pool 1 1"] by (simp add: try_enqueue_def start_pool_def new_pool_def)
  moreover have "pool_step ?s1 ?s2"
    using take_work [of 0 ?s1 7 "[]"] by (simp add: start_pool_def)
  ultimately have "pool_reachable 1 1 ?s2"
    using initial [of 1 1] by (meson step)
  from pool_fifo [OF this] this show ?thesis by (intro exI [of _ ?s2]) simp
qed

text \<open>
  Shutdown drains the pool: a worker leaves its loop only after a stop request, and
  only at a moment when every handle accepted so far has been taken by some worker.
\<close>

theorem pool_drained_on_exit:
  assumes "pool_reachable n cap s" "pool_step s t"
    and "i < n" "workers s ! i \<noteq> Exited" "workers t ! i = Exited"
  shows "taken t = accepted t \<and> stopping t"
proof -
  have inv: "pool_inv n cap s" using assms(1) by (rule pool_reachable_inv)
  from assms(2) show ?thesis
  proof (cases rule: pool_step.cases)
    case (leave j)
    then show ?thesis using inv by (simp add: pool_inv_def)
  qed (use assms(3-5) inv in \<open>auto simp: pool_inv_def nth_list_update split: if_splits\<close>)
qed

theorem pool_drained_on_exit_witness:
  "\<exists>t. pool_step ((start_pool 1 1)\<lparr>stopping := True\<rparr>) t \<and> workers t = [Exited] \<and> taken t = accepted t"
proof -
  let ?s = "(start_pool 1 1)\<lparr>stopping := True\<rparr>" and ?t = "(start_pool 1 1)\<lparr>stopping := True, workers := [Exited]\<rparr>"
  have r: "pool_reachable 1 1 ?s" using initial [of 1 1] request_stop by (rule step)
  have s: "pool_step ?s ?t"
    using leave [of 0 ?s] by (simp add: start_pool_def new_pool_def)
  from pool_drained_on_exit [OF r s, of 0] s show ?thesis
    by (intro exI [of _ ?t]) (simp add: start_pool_def)
qed

text \<open>
  Submission: an unregistered stage gives the registry's error and changes nothing; a
  full pool gives \<open>Runtime_QueueFull\<close> and changes nothing; otherwise the handle is
  appended to the queue of exactly the stage's pool.
\<close>

theorem submit_spec:
  "submit stage x s =
     (case stage_pools s stage of
        None \<Rightarrow> (Inl (ErrorInfo Core_TypeNotFound ''type not found''), s)
      | Some p \<Rightarrow>
          if queue_capacity (pools s p) \<le> pending_count (pools s p)
          then (Inl (ErrorInfo Runtime_QueueFull ''worker pool queue is at capacity''), s)
          else (Inr (), s\<lparr>pools := (pools s)
                  (p := (pools s p)\<lparr>pool_queue := pool_queue (pools s p) @ [x]\<rparr>)\<rparr>))"
  by (simp add: submit_def registry_resolve_def try_enqueue_def pending_count_def split: option.split)

end
