(* ===== verification/Stage_Scheduler.thy ===== *)
theory Stage_Scheduler
  imports Pipeline_Builder Worker_Pool
begin

text \<open>
  The stage scheduler (\<open>src/pipeline/scheduler.cpp\<close>): which worker pool serves which stage
  type, pool sizes with their overrides, allocation and lookup. The pools live in a registry
  keyed by the hash of the pool name.
\<close>

record pool_config =
  threads :: "64 word"
  pool_capacity :: "64 word"

record stage_scheduler =
  pools :: "pool_system registry"
  stage_pool_map :: "stage_type \<Rightarrow> type_id option"
  bp_config :: backpressure_config
  overrides_by_key :: "(string, pool_config) smap"

definition stage_type_to_pool_key :: "stage_type \<Rightarrow> string" where
  "stage_type_to_pool_key t =
     (case t of Capture \<Rightarrow> ''Capture'' | Preprocess \<Rightarrow> ''Capture'' | Inference \<Rightarrow> ''Inference''
      | Detect \<Rightarrow> ''Inference'' | RuleEval \<Rightarrow> ''Reason'' | Reason \<Rightarrow> ''Reason'' | Export \<Rightarrow> ''IO''
      | Custom \<Rightarrow> ''Background'')"

definition stage_type_to_pool_id :: "stage_type \<Rightarrow> type_id" where
  "stage_type_to_pool_id t = fnv1a_hash (stage_type_to_pool_key t)"

definition pool_config_for_key :: "string \<Rightarrow> pool_config" where
  "pool_config_for_key k =
     (if k = ''Capture'' then \<lparr>threads = 2, pool_capacity = 8\<rparr>
      else if k = ''Inference'' then \<lparr>threads = 1, pool_capacity = 4\<rparr>
      else if k = ''Reason'' then \<lparr>threads = 2, pool_capacity = 16\<rparr>
      else if k = ''IO'' then \<lparr>threads = 1, pool_capacity = 32\<rparr>
      else if k = ''Background'' then \<lparr>threads = 1, pool_capacity = 16\<rparr>
      else \<lparr>threads = 1, pool_capacity = 8\<rparr>)"

definition new_scheduler :: stage_scheduler where
  "new_scheduler = \<lparr>pools = empty_registry, stage_pool_map = (\<lambda>_. None),
     bp_config = \<lparr>default_policy = Block, stage_overrides = []\<rparr>, overrides_by_key = []\<rparr>"

definition override_pool_config :: "string \<Rightarrow> 64 word \<Rightarrow> 64 word option \<Rightarrow> stage_scheduler \<Rightarrow> stage_scheduler" where
  "override_pool_config k n cap s =
     (let cfg = (pool_config_for_key k)\<lparr>threads := n\<rparr>;
          cfg' = (case cap of None \<Rightarrow> cfg | Some c \<Rightarrow> cfg\<lparr>pool_capacity := c\<rparr>)
      in s\<lparr>overrides_by_key := sm_put k cfg' (overrides_by_key s)\<rparr>)"

definition effective_pool_config :: "stage_scheduler \<Rightarrow> string \<Rightarrow> pool_config" where
  "effective_pool_config s k =
     (case sm_get (overrides_by_key s) k of Some cfg \<Rightarrow> cfg | None \<Rightarrow> pool_config_for_key k)"

definition required_keys :: "stage_config list \<Rightarrow> string list" where
  "required_keys ss = sort (remdups (map (\<lambda>s. stage_type_to_pool_key (sc_type s)) ss))"

definition make_pool :: "pool_config \<Rightarrow> pool_system" where
  "make_pool cfg = start_pool (unat (threads cfg)) (unat (pool_capacity cfg))"

text \<open>The pools are registered in key order, up to the first failure.\<close>

primrec register_pools :: "string list \<Rightarrow> stage_scheduler \<Rightarrow> unit result \<times> stage_scheduler" where
  "register_pools [] s = (Inr (), s)"
| "register_pools (k # ks) s =
     (case registry_register (fnv1a_hash k) (make_pool (effective_pool_config s k)) (pools s) of
        (Inl err, _) \<Rightarrow> (Inl err, s)
      | (Inr _, reg) \<Rightarrow> register_pools ks (s\<lparr>pools := reg\<rparr>))"

definition allocate :: "stage_config list \<Rightarrow> backpressure_config \<Rightarrow> stage_scheduler \<Rightarrow>
    unit result \<times> stage_scheduler" where
  "allocate ss bp s =
     (case register_pools (required_keys ss) (s\<lparr>bp_config := bp, stage_pool_map := (\<lambda>_. None)\<rparr>) of
        (Inl err, s1) \<Rightarrow> (Inl err, s1)
      | (Inr _, s1) \<Rightarrow>
          (Inr (), s1\<lparr>stage_pool_map :=
             fold (\<lambda>st m. m(sc_type st \<mapsto> stage_type_to_pool_id (sc_type st))) ss (stage_pool_map s1)\<rparr>))"

definition deallocate :: "stage_scheduler \<Rightarrow> stage_scheduler" where
  "deallocate s = s\<lparr>stage_pool_map := (\<lambda>_. None)\<rparr>"

definition pool_for :: "stage_scheduler \<Rightarrow> stage_type \<Rightarrow> pool_system result" where
  "pool_for s t =
     (case stage_pool_map s t of
        None \<Rightarrow> Inl (ErrorInfo Scheduler_PoolNotFound ''StageType not allocated -- call Allocate() first'')
      | Some i \<Rightarrow>
          (case registry_resolve (pools s) i of
             Inl _ \<Rightarrow> Inl (ErrorInfo Scheduler_PoolNotFound ''WorkerPool not found in registry'')
           | Inr p \<Rightarrow> Inr p))"

subsection \<open>Allocation\<close>

definition pool_keys :: "string list" where
  "pool_keys = [''Background'', ''Capture'', ''IO'', ''Inference'', ''Reason'']"

lemma pool_keys_distinct: "distinct (map fnv1a_hash pool_keys)"
  by (simp add: pool_keys_def fnv1a_hash_def fnv_step_def fnv_basis_def fnv_prime_def byte_of_def)

lemma pool_key_mem: "stage_type_to_pool_key t \<in> set pool_keys"
  by (cases t) (simp_all add: stage_type_to_pool_key_def pool_keys_def)

lemma pool_key_hash_inj:
  "a \<in> set pool_keys \<Longrightarrow> b \<in> set pool_keys \<Longrightarrow> fnv1a_hash a = fnv1a_hash b \<longleftrightarrow> a = b"
  using pool_keys_distinct by (auto simp: distinct_map inj_on_def)

lemma required_keys_mem: "set (required_keys ss) = (\<lambda>s. stage_type_to_pool_key (sc_type s)) ` set ss"
  by (simp add: required_keys_def)

lemma required_keys_known: "set (required_keys ss) \<subseteq> set pool_keys"
  using pool_key_mem by (auto simp: required_keys_mem)

lemma register_pools_overrides: "overrides_by_key (snd (register_pools ks s)) = overrides_by_key s"
  by (induction ks arbitrary: s) (auto split: sum.split prod.split)

lemma effective_eq: "overrides_by_key s' = overrides_by_key s \<Longrightarrow> effective_pool_config s' k = effective_pool_config s k"
  by (simp add: effective_pool_config_def)

lemma register_pools_ok:
  assumes "distinct (map fnv1a_hash ks)" "\<forall>k \<in> set ks. pools s (fnv1a_hash k) = None"
  shows "register_pools ks s =
    (Inr (), s\<lparr>pools := (\<lambda>i. case find (\<lambda>k. fnv1a_hash k = i) ks of
       Some k \<Rightarrow> Some (make_pool (effective_pool_config s k)) | None \<Rightarrow> pools s i)\<rparr>)"
  using assms
proof (induction ks arbitrary: s)
  case (Cons k ks)
  let ?s = "s\<lparr>pools := (pools s)(fnv1a_hash k \<mapsto> make_pool (effective_pool_config s k))\<rparr>"
  have "\<forall>k' \<in> set ks. pools ?s (fnv1a_hash k') = None" using Cons.prems by (auto simp: image_iff)
  note IH = Cons.IH [OF _ this]
  have eff: "effective_pool_config ?s k' = effective_pool_config s k'" for k'
    by (rule effective_eq) simp
  have none: "find (\<lambda>k'. fnv1a_hash k' = fnv1a_hash k) ks = None"
    using Cons.prems(1) by (auto simp: find_None_iff image_iff)
  have "register_pools (k # ks) s = register_pools ks ?s"
    using Cons.prems(2) by (simp add: registry_register_def)
  also have "\<dots> = (Inr (), ?s\<lparr>pools := (\<lambda>i. case find (\<lambda>k. fnv1a_hash k = i) ks of
       Some k \<Rightarrow> Some (make_pool (effective_pool_config s k)) | None \<Rightarrow> pools ?s i)\<rparr>)"
    using IH Cons.prems(1) unfolding eff by simp
  finally show ?case
    using none by (auto simp: fun_eq_iff split: option.split)
qed simp

lemma stage_map_fold:
  "fold (\<lambda>st m. m(sc_type st \<mapsto> stage_type_to_pool_id (sc_type st))) ss m t =
     (if t \<in> sc_type ` set ss then Some (stage_type_to_pool_id t) else m t)"
  by (induction ss arbitrary: m) auto

lemma required_keys_distinct: "distinct (map fnv1a_hash (required_keys ss))"
  using required_keys_known pool_key_hash_inj
  by (auto simp: distinct_map required_keys_def inj_on_def subset_iff)

lemma register_pools_taken:
  "k \<in> set ks \<Longrightarrow> pools s (fnv1a_hash k) \<noteq> None \<Longrightarrow>
   fst (register_pools ks s) = Inl (ErrorInfo Core_TypeAlreadyRegistered ''type already registered'')"
proof (induction ks arbitrary: s)
  case (Cons a ks)
  then show ?case by (cases "pools s (fnv1a_hash a)") (auto simp: registry_register_def)
qed simp

lemma register_pools_map: "stage_pool_map (snd (register_pools ks s)) = stage_pool_map s"
  by (induction ks arbitrary: s) (auto split: sum.split prod.split)

lemma allocate_taken:
  assumes "k \<in> set (required_keys ss)" "pools s (fnv1a_hash k) \<noteq> None"
  shows "fst (allocate ss bp s) = Inl (ErrorInfo Core_TypeAlreadyRegistered ''type already registered'')"
    and "\<not> has_value (pool_for (snd (allocate ss bp s)) t)"
proof -
  let ?s = "s\<lparr>bp_config := bp, stage_pool_map := (\<lambda>_. None)\<rparr>"
  have "fst (register_pools (required_keys ss) ?s) =
      Inl (ErrorInfo Core_TypeAlreadyRegistered ''type already registered'')"
    using assms by (intro register_pools_taken) simp_all
  then obtain s1 where s1: "register_pools (required_keys ss) ?s =
      (Inl (ErrorInfo Core_TypeAlreadyRegistered ''type already registered''), s1)"
    by (cases "register_pools (required_keys ss) ?s") simp
  then have "stage_pool_map s1 = (\<lambda>_. None)"
    using register_pools_map [of "required_keys ss" ?s] by simp
  then show "fst (allocate ss bp s) = Inl (ErrorInfo Core_TypeAlreadyRegistered ''type already registered'')"
    "\<not> has_value (pool_for (snd (allocate ss bp s)) t)"
    using s1 by (simp_all add: allocate_def pool_for_def)
qed

text \<open>
  Allocating on a fresh scheduler (only overrides set) succeeds and serves exactly the stage
  types of the pipeline: each finds the pool of its key, started with the overridden or default
  number of threads and capacity. A second allocation that needs one of these pools fails and
  leaves no stage type served.
\<close>

theorem allocate_spec:
  assumes "pools s = empty_registry"
  shows "\<exists>s'. allocate ss bp s = (Inr (), s') \<and>
    (\<forall>t. pool_for s' t =
       (if t \<in> sc_type ` set ss then Inr (make_pool (effective_pool_config s (stage_type_to_pool_key t)))
        else Inl (ErrorInfo Scheduler_PoolNotFound ''StageType not allocated -- call Allocate() first''))) \<and>
    (\<forall>ss2 bp2. set (required_keys ss2) \<inter> set (required_keys ss) \<noteq> {} \<longrightarrow>
       fst (allocate ss2 bp2 s') = Inl (ErrorInfo Core_TypeAlreadyRegistered ''type already registered'') \<and>
       (\<forall>t. \<not> has_value (pool_for (snd (allocate ss2 bp2 s')) t)))"
proof (intro exI conjI allI impI)
  let ?s0 = "s\<lparr>bp_config := bp, stage_pool_map := (\<lambda>_. None)\<rparr>" and ?ks = "required_keys ss"
  let ?eff = "effective_pool_config s"
  let ?reg = "\<lambda>i. case find (\<lambda>k. fnv1a_hash k = i) ?ks of Some k \<Rightarrow> Some (make_pool (?eff k)) | None \<Rightarrow> None"
  let ?map = "\<lambda>t. if t \<in> sc_type ` set ss then Some (stage_type_to_pool_id t) else None"
  let ?s' = "?s0\<lparr>pools := ?reg, stage_pool_map := ?map\<rparr>"
  have eff: "effective_pool_config ?s0 k = ?eff k" for k by (rule effective_eq) simp
  have none: "pools ?s0 = (\<lambda>_. None)" using assms by (simp add: empty_registry_def)
  have "register_pools ?ks ?s0 = (Inr (), ?s0\<lparr>pools := ?reg\<rparr>)"
    using register_pools_ok [OF required_keys_distinct, of ss ?s0] unfolding eff none by simp
  then show "allocate ss bp s = (Inr (), ?s')"
    by (simp add: allocate_def fun_eq_iff stage_map_fold)
  have at: "?reg (fnv1a_hash k) = Some (make_pool (?eff k))" if "k \<in> set ?ks" for k
  proof -
    have "find (\<lambda>j. fnv1a_hash j = fnv1a_hash k) ?ks \<noteq> None"
      unfolding find_None_iff using that by blast
    then obtain k' where k': "find (\<lambda>j. fnv1a_hash j = fnv1a_hash k) ?ks = Some k'" by blast
    then have "k' \<in> set ?ks" "fnv1a_hash k' = fnv1a_hash k" by (auto simp: find_Some_iff)
    then have "k' = k" using that required_keys_known pool_key_hash_inj by blast
    then show ?thesis using k' by simp
  qed
  show "pool_for ?s' t = (if t \<in> sc_type ` set ss then Inr (make_pool (?eff (stage_type_to_pool_key t)))
        else Inl (ErrorInfo Scheduler_PoolNotFound ''StageType not allocated -- call Allocate() first''))" for t
    using at [of "stage_type_to_pool_key t"]
    by (auto simp: pool_for_def stage_type_to_pool_id_def registry_resolve_def required_keys_mem)
  fix ss2 bp2
  assume "set (required_keys ss2) \<inter> set (required_keys ss) \<noteq> {}"
  then obtain k where k: "k \<in> set (required_keys ss2)" "k \<in> set ?ks" by blast
  have "pools ?s' (fnv1a_hash k) \<noteq> None" using at [OF k(2)] by simp
  note taken = allocate_taken [OF k(1) this]
  show "fst (allocate ss2 bp2 ?s') = Inl (ErrorInfo Core_TypeAlreadyRegistered ''type already registered'')"
    by (rule taken(1))
  show "\<not> has_value (pool_for (snd (allocate ss2 bp2 ?s')) t)" for t by (rule taken(2))
qed

theorem allocate_spec_witness:
  "\<exists>s'. allocate [] \<lparr>default_policy = Block, stage_overrides = []\<rparr> new_scheduler = (Inr (), s') \<and>
     \<not> has_value (pool_for s' Capture)"
  using allocate_spec [of new_scheduler "[]" "\<lparr>default_policy = Block, stage_overrides = []\<rparr>"]
  by (auto simp: new_scheduler_def)

end
