(* ===== verification/Task_Graph.thy ===== *)
theory Task_Graph
  imports Worker_Pool "HOL-Library.Multiset"
begin

text \<open>
  Task graphs (\<open>src/runtime/task_graph.cpp\<close>) and the dispatch of a node
  (\<open>src/runtime/pipeline_executor.cpp\<close>). The coroutines of the source run each child to
  completion on the driving thread, so they are plain recursive calls. What the
  environment decides is a parameter: whether stop has been requested at the \<open>k\<close>-th poll,
  what the \<open>k\<close>-th submission answers (\<open>Worker_Pool.submit\<close> says what it can be) and
  what the work of a node returns. The recursion of \<open>EnsureCompleted\<close> has no bound in the
  source and carries fuel here.
\<close>

subsection \<open>Graphs\<close>

type_synonym task_id = "64 word"

record task_node =
  node_id :: task_id
  stage_id :: type_id
  dependencies :: "task_id list"

type_synonym task_graph = "task_id \<Rightarrow> task_node option"

definition add_node :: "task_node \<Rightarrow> task_graph \<Rightarrow> unit result \<times> task_graph" where
  "add_node nd g =
     (case g (node_id nd) of
        Some _ \<Rightarrow> (Inl (ErrorInfo Core_TypeAlreadyRegistered ''task node id already added''), g)
      | None \<Rightarrow> (Inr (), g(node_id nd \<mapsto> nd)))"

definition node_at :: "task_graph \<Rightarrow> task_id \<Rightarrow> task_node result" where
  "node_at g i =
     (case g i of
        None \<Rightarrow> Inl (ErrorInfo Runtime_NodeNotFound ''task node id not found in graph'')
      | Some nd \<Rightarrow> Inr nd)"


subsection \<open>Runs\<close>

record environment =
  stop_at :: "nat \<Rightarrow> bool"
  submit_at :: "nat \<Rightarrow> type_id \<Rightarrow> unit result"
  work_result :: "task_id \<Rightarrow> unit result"

text \<open>The completed map of a run, the polls and submissions so far, and the works run.\<close>

record run_state =
  completed :: "task_id \<Rightarrow> unit result option"
  polls :: nat
  submissions :: nat
  run_log :: "task_id list"

definition start_run :: run_state where
  "start_run = \<lparr>completed = (\<lambda>_. None), polls = 0, submissions = 0, run_log = []\<rparr>"

definition poll_stop :: "environment \<Rightarrow> run_state \<Rightarrow> bool \<times> run_state" where
  "poll_stop env s = (stop_at env (polls s), s\<lparr>polls := polls s + 1\<rparr>)"

definition emplace_result :: "task_id \<Rightarrow> unit result \<Rightarrow> run_state \<Rightarrow> run_state" where
  "emplace_result i r s =
     (case completed s i of
        Some _ \<Rightarrow> s
      | None \<Rightarrow> s\<lparr>completed := (completed s)(i \<mapsto> r)\<rparr>)"

definition dispatch :: "environment \<Rightarrow> type_id \<Rightarrow> task_id \<Rightarrow> run_state \<Rightarrow> unit result \<times> run_state" where
  "dispatch env stage i s =
     (case poll_stop env s of
        (True, s1) \<Rightarrow> (Inl (ErrorInfo Runtime_Cancelled ''dispatch cancelled before submission''), s1)
      | (False, s1) \<Rightarrow>
          (let s2 = s1\<lparr>submissions := submissions s1 + 1\<rparr>
           in case submit_at env (submissions s1) stage of
                Inl err \<Rightarrow> (Inl err, s2)
              | Inr _ \<Rightarrow> (work_result env i, s2\<lparr>run_log := run_log s2 @ [i]\<rparr>)))"

fun ensure_completed :: "nat \<Rightarrow> environment \<Rightarrow> task_graph \<Rightarrow> task_id \<Rightarrow> run_state \<Rightarrow>
    (unit result \<times> run_state) option"
  and ensure_each :: "nat \<Rightarrow> environment \<Rightarrow> task_graph \<Rightarrow> task_id list \<Rightarrow> run_state \<Rightarrow>
    (unit result \<times> run_state) option" where
  "ensure_completed 0 env g i s = None"
| "ensure_completed (Suc n) env g i s =
     (case completed s i of
        Some r \<Rightarrow> Some (r, s)
      | None \<Rightarrow>
        (case poll_stop env s of
           (True, s1) \<Rightarrow> Some (Inl (ErrorInfo Runtime_Cancelled ''task graph execution cancelled''), s1)
         | (False, s1) \<Rightarrow>
           (case node_at g i of
              Inl err \<Rightarrow> Some (Inl err, emplace_result i (Inl err) s1)
            | Inr nd \<Rightarrow>
              (case ensure_each n env g (dependencies nd) s1 of
                 None \<Rightarrow> None
               | Some (Inl err, s2) \<Rightarrow> Some (Inl err, emplace_result i (Inl err) s2)
               | Some (Inr _, s2) \<Rightarrow>
                 (case dispatch env (stage_id nd) i s2 of
                    (r, s3) \<Rightarrow> Some (r, emplace_result i r s3))))))"
| "ensure_each n env g [] s = Some (Inr (), s)"
| "ensure_each n env g (i # is) s =
     (case ensure_completed n env g i s of
        None \<Rightarrow> None
      | Some (Inl err, s1) \<Rightarrow> Some (Inl err, s1)
      | Some (Inr _, s1) \<Rightarrow> ensure_each n env g is s1)"

text \<open>\<open>RunToCompletion\<close>; the hash map fixes some order \<open>ids\<close> of the nodes.\<close>

definition run_to_completion :: "nat \<Rightarrow> environment \<Rightarrow> task_graph \<Rightarrow> task_id list \<Rightarrow>
    (unit result \<times> run_state) option" where
  "run_to_completion n env g ids = ensure_each n env g ids start_run"

subsection \<open>Fuel\<close>

lemma ensure_more_fuel:
  "ensure_completed n env g i s = Some r \<Longrightarrow> n \<le> m \<Longrightarrow> ensure_completed m env g i s = Some r"
  "ensure_each n env g is s = Some r \<Longrightarrow> n \<le> m \<Longrightarrow> ensure_each m env g is s = Some r"
proof (induction n env g i s and n env g "is" s arbitrary: m r and m r
    rule: ensure_completed_ensure_each.induct)
  case (2 n env g i s)
  then obtain k where m: "m = Suc k" "n \<le> k" by (cases m) auto
  show ?case
  proof (cases "completed s i")
    case None
    obtain b s1 where p: "poll_stop env s = (b, s1)" by fastforce
    show ?thesis
    proof (cases b)
      case False
      show ?thesis
      proof (cases "node_at g i")
        case (Inr nd)
        obtain q where q: "ensure_each n env g (dependencies nd) s1 = Some q"
          using "2.prems" None p False Inr by (auto split: option.splits)
        have "b = False" using False by simp
        from "2.IH" [OF None p [symmetric] this Inr q m(2)]
        have "ensure_each k env g (dependencies nd) s1 = Some q" .
        then show ?thesis using "2.prems" None p False Inr q m by simp
      qed (use "2.prems" None p False m in simp)
    qed (use "2.prems" None p m in simp)
  qed (use "2.prems" m in simp)
next
  case (4 n env g i "is" s)
  obtain a s1 where a: "ensure_completed n env g i s = Some (a, s1)"
    using "4.prems"(1) by (auto split: option.splits)
  then have am: "ensure_completed m env g i s = Some (a, s1)"
    using "4.prems"(2) by (rule "4.IH"(1))
  show ?case
  proof (cases a)
    case (Inl err)
    then show ?thesis using a am "4.prems"(1) by auto
  next
    case (Inr u)
    then have "ensure_each n env g is s1 = Some r" using a "4.prems"(1) by simp
    then have "ensure_each m env g is s1 = Some r"
      by (rule "4.IH"(2) [OF a refl Inr _ "4.prems"(2)])
    then show ?thesis using am Inr by simp
  qed
qed auto

definition dep_rel :: "task_graph \<Rightarrow> (task_id \<times> task_id) set" where
  "dep_rel g = {(i, j). \<exists>nd. g i = Some nd \<and> j \<in> set (dependencies nd)}"

lemma ensure_each_defined:
  "(\<And>j s. j \<in> set is \<Longrightarrow> ensure_completed n env g j s \<noteq> None) \<Longrightarrow> ensure_each n env g is s \<noteq> None"
proof (induction "is" arbitrary: s)
  case (Cons i "is")
  obtain r s1 where "ensure_completed n env g i s = Some (r, s1)" using Cons.prems by fastforce
  then show ?case using Cons by (cases r) auto
qed simp

lemma common_fuel:
  assumes "\<And>j. j \<in> set is \<Longrightarrow> \<exists>n. \<forall>s. ensure_completed n env g j s \<noteq> None"
  shows "\<exists>n. \<forall>j \<in> set is. \<forall>s. ensure_completed n env g j s \<noteq> None"
  using assms
proof (induction "is")
  case (Cons i "is")
  then obtain n where n: "\<forall>j \<in> set is. \<forall>s. ensure_completed n env g j s \<noteq> None" by auto
  obtain k where k: "\<forall>s. ensure_completed k env g i s \<noteq> None"
    using Cons.prems [of i] by (meson list.set_intros(1))
  have "\<forall>j \<in> set (i # is). \<forall>s. ensure_completed (max n k) env g j s \<noteq> None"
  proof (intro ballI allI)
    fix j s assume "j \<in> set (i # is)"
    then have "ensure_completed n env g j s \<noteq> None \<or> ensure_completed k env g j s \<noteq> None"
      using n k by auto
    then show "ensure_completed (max n k) env g j s \<noteq> None"
      using ensure_more_fuel(1) by (metis max.cobounded1 max.cobounded2 option.exhaust)
  qed
  then show ?case by blast
qed simp

lemma ensure_completed_fuel:
  assumes "wf ((dep_rel g)\<inverse>)"
  shows "\<exists>n. \<forall>s. ensure_completed n env g i s \<noteq> None"
  using assms
proof (induction i rule: wf_induct_rule)
  case (less i)
  define deps where "deps = (case g i of None \<Rightarrow> [] | Some nd \<Rightarrow> dependencies nd)"
  have "\<exists>n. \<forall>s. ensure_completed n env g j s \<noteq> None" if "j \<in> set deps" for j
  proof (rule less)
    show "(j, i) \<in> (dep_rel g)\<inverse>"
      using that by (cases "g i") (simp_all add: deps_def dep_rel_def)
  qed
  then obtain n where n: "\<forall>j \<in> set deps. \<forall>s. ensure_completed n env g j s \<noteq> None"
    using common_fuel [of deps env g] by blast
  have "ensure_completed (Suc n) env g i s \<noteq> None" for s
  proof -
    obtain b s1 where p: "poll_stop env s = (b, s1)" by fastforce
    obtain r s2 where e: "ensure_each n env g deps s1 = Some (r, s2)"
      using ensure_each_defined [of deps n env g s1] n by fastforce
    show ?thesis
      using p e by (cases "g i"; cases r)
        (auto simp: deps_def node_at_def split: option.split bool.split prod.split)
  qed
  then show ?case by blast
qed

subsection \<open>What a run does to its state\<close>

text \<open>Results stay, and only nodes that the requested ones reach are touched.\<close>

definition extends :: "task_graph \<Rightarrow> task_id set \<Rightarrow> run_state \<Rightarrow> run_state \<Rightarrow> bool" where
  "extends g I s s' \<longleftrightarrow>
     (\<forall>x r. completed s x = Some r \<longrightarrow> completed s' x = Some r) \<and>
     (\<forall>x. completed s' x \<noteq> completed s x \<longrightarrow> x \<in> (dep_rel g)\<^sup>* `` I)"

lemma extends_refl [simp]: "extends g I s s"
  by (simp add: extends_def)

lemma extends_trans: "extends g I a b \<Longrightarrow> extends g I b c \<Longrightarrow> extends g I a c"
  unfolding extends_def by metis

lemma extends_mono: "extends g I a b \<Longrightarrow> (dep_rel g)\<^sup>* `` I \<subseteq> (dep_rel g)\<^sup>* `` J \<Longrightarrow> extends g J a b"
  by (auto simp: extends_def)

lemma poll_stop_completed:
  "poll_stop env s = (b, s') \<Longrightarrow> completed s' = completed s"
  "poll_stop env s = (b, s') \<Longrightarrow> run_log s' = run_log s"
  by (auto simp: poll_stop_def)

lemma dispatch_completed:
  "dispatch env st i s = (r, s') \<Longrightarrow> completed s' = completed s \<and>
   (run_log s' = run_log s \<and> \<not> has_value r \<or>
    run_log s' = run_log s @ [i] \<and> r = work_result env i)"
  by (cases "poll_stop env s"; cases "submit_at env (submissions (snd (poll_stop env s))) st")
     (auto simp: dispatch_def Let_def has_value_iff poll_stop_def split: bool.splits)

lemma emplace_completed:
  "completed (emplace_result i r s) = (if completed s i = None then (completed s)(i \<mapsto> r) else completed s)"
  "run_log (emplace_result i r s) = run_log s"
  by (auto simp: emplace_result_def split: option.split)

lemma extends_emplace: "extends g {i} a b \<Longrightarrow> extends g {i} a (emplace_result i r b)"
  by (auto simp: extends_def emplace_completed)

lemma extends_deps:
  assumes "g i = Some nd"
  shows "extends g (set (dependencies nd)) a b \<Longrightarrow> extends g {i} a b"
proof (erule extends_mono)
  show "(dep_rel g)\<^sup>* `` set (dependencies nd) \<subseteq> (dep_rel g)\<^sup>* `` {i}"
  proof
    fix x assume "x \<in> (dep_rel g)\<^sup>* `` set (dependencies nd)"
    then obtain j where "(i, j) \<in> dep_rel g" "(j, x) \<in> (dep_rel g)\<^sup>*"
      using assms by (auto simp: dep_rel_def)
    then show "x \<in> (dep_rel g)\<^sup>* `` {i}" by (auto intro: converse_rtrancl_into_rtrancl)
  qed
qed

text \<open>
  \<open>run_inv\<close>: the log has no repetition, records only nodes of the graph after their
  dependencies, each of which has run successfully, and agrees with the results.
\<close>

definition run_inv :: "environment \<Rightarrow> task_graph \<Rightarrow> run_state \<Rightarrow> bool" where
  "run_inv env g s \<longleftrightarrow> distinct (run_log s) \<and>
     (\<forall>x \<in> set (run_log s). completed s x = Some (work_result env x)) \<and>
     (\<forall>x. completed s x = Some (Inr ()) \<longrightarrow> x \<in> set (run_log s)) \<and>
     (\<forall>k < length (run_log s). \<exists>nd. g (run_log s ! k) = Some nd \<and>
        set (dependencies nd) \<subseteq> {x \<in> set (take k (run_log s)). work_result env x = Inr ()})"

lemma run_inv_start: "run_inv env g start_run"
  by (simp add: run_inv_def start_run_def)

lemma run_inv_cong: "completed s' = completed s \<Longrightarrow> run_log s' = run_log s \<Longrightarrow>
    run_inv env g s' = run_inv env g s"
  by (simp add: run_inv_def)

lemma run_inv_fail: "run_inv env g s \<Longrightarrow> run_inv env g (emplace_result i (Inl err) s)"
  by (auto simp: run_inv_def emplace_completed)

lemma run_inv_work:
  assumes "run_inv env g s" "completed s i = None" "g i = Some nd"
    and "\<forall>j \<in> set (dependencies nd). completed s j = Some (Inr ())"
    and "completed s' = completed s" "run_log s' = run_log s @ [i]"
  shows "run_inv env g (emplace_result i (work_result env i) s')"
proof -
  have new: "i \<notin> set (run_log s)" using assms(1,2) by (auto simp: run_inv_def)
  have deps: "set (dependencies nd) \<subseteq> {x \<in> set (run_log s). work_result env x = Inr ()}"
    using assms(1,4) by (fastforce simp: run_inv_def)
  show ?thesis
    using assms(1-3,5,6) new deps
    by (auto simp: run_inv_def emplace_completed nth_append less_Suc_eq)
qed

lemma run_step:
  shows "ensure_completed n env g i s = Some (r, s') \<Longrightarrow> run_inv env g s \<Longrightarrow> acyclic (dep_rel g) \<Longrightarrow>
      run_inv env g s' \<and> extends g {i} s s' \<and> (r = Inr () \<longrightarrow> completed s' i = Some (Inr ()))"
    and "ensure_each n env g is s = Some (r, s') \<Longrightarrow> run_inv env g s \<Longrightarrow> acyclic (dep_rel g) \<Longrightarrow>
      run_inv env g s' \<and> extends g (set is) s s' \<and>
      (r = Inr () \<longrightarrow> (\<forall>j \<in> set is. completed s' j = Some (Inr ())))"
proof (induction n env g i s and n env g "is" s arbitrary: r s' and r s'
    rule: ensure_completed_ensure_each.induct)
  case (2 n env g i s)
  note inv = "2.prems"(2)
  show ?case
  proof (cases "completed s i")
    case (Some q)
    then show ?thesis using "2.prems" by simp
  next
    case fresh: None
    obtain b s1 where p: "poll_stop env s = (b, s1)" by fastforce
    have s1: "completed s1 = completed s" "run_log s1 = run_log s" using p poll_stop_completed by blast+
    have inv1: "run_inv env g s1" using inv run_inv_cong [OF s1] by simp
    have ext1: "extends g I s s1" for I using s1 by (simp add: extends_def)
    show ?thesis
    proof (cases "b \<or> (\<exists>err. node_at g i = Inl err)")
      case True
      then show ?thesis
        using "2.prems"(1) fresh p inv1 ext1 s1
        by (cases b; cases "node_at g i") (auto intro: run_inv_fail extends_emplace)
    next
      case False
      then obtain nd where nd: "node_at g i = Inr nd" and b: "b = False"
        by (cases "node_at g i") auto
      then have gi: "g i = Some nd" by (simp add: node_at_def split: option.splits)
      obtain q s2 where each: "ensure_each n env g (dependencies nd) s1 = Some (q, s2)"
        using "2.prems"(1) fresh p b nd by (auto split: option.splits)
      have IH: "run_inv env g s2" "extends g (set (dependencies nd)) s1 s2"
          "q = Inr () \<Longrightarrow> \<forall>j \<in> set (dependencies nd). completed s2 j = Some (Inr ())"
        using "2.IH" [OF fresh p [symmetric] b nd each inv1 "2.prems"(3)] by auto
      have ext2: "extends g {i} s s2"
        using extends_trans [OF ext1 extends_deps [OF gi IH(2)]] .
      show ?thesis
      proof (cases q)
        case (Inl err)
        then show ?thesis
          using "2.prems"(1) fresh p b nd each IH(1) ext2
          by (auto intro: run_inv_fail extends_emplace)
      next
        case (Inr u)
        obtain d s3 where d: "dispatch env (stage_id nd) i s2 = (d, s3)" by fastforce
        have r: "r = d" "s' = emplace_result i d s3"
          using "2.prems"(1) fresh p b nd each Inr d by auto
        note s3 = dispatch_completed [OF d]
        have none: "completed s2 i = None"
        proof (rule ccontr)
          assume "completed s2 i \<noteq> None"
          then have "completed s2 i \<noteq> completed s1 i" using fresh s1 by simp
          then obtain j where j: "j \<in> set (dependencies nd)" "(j, i) \<in> (dep_rel g)\<^sup>*"
            using IH(2) unfolding extends_def by blast
          then have "(i, i) \<in> (dep_rel g)\<^sup>+"
            using gi by (auto simp: dep_rel_def intro: rtrancl_into_trancl2)
          then show False using "2.prems"(3) unfolding acyclic_def by blast
        qed
        have ext3: "extends g {i} s s3" using ext2 s3 by (simp add: extends_def)
        show ?thesis
        proof (cases "run_log s3 = run_log s2 @ [i] \<and> d = work_result env i")
          case True
          have "run_inv env g (emplace_result i (work_result env i) s3)"
            using run_inv_work [OF IH(1) none gi] IH(3) Inr s3 True by simp
          then show ?thesis
            using True r ext3 s3 none by (auto intro: extends_emplace simp: emplace_completed)
        next
          case False
          then obtain err where err: "d = Inl err" "run_log s3 = run_log s2" using s3 by (cases d) auto
          then have "run_inv env g s3" using IH(1) s3 run_inv_cong by blast
          then show ?thesis using r err ext3 by (auto intro: run_inv_fail extends_emplace)
        qed
      qed
    qed
  qed
next
  case (4 n env g i "is" s)
  obtain a s1 where a: "ensure_completed n env g i s = Some (a, s1)"
    using "4.prems"(1) by (auto split: option.splits)
  have 1: "run_inv env g s1" "extends g {i} s s1" "a = Inr () \<Longrightarrow> completed s1 i = Some (Inr ())"
    using "4.IH"(1) [OF a "4.prems"(2,3)] by auto
  have e1: "extends g (set (i # is)) s s1" using 1(2) by (auto simp: extends_def)
  show ?case
  proof (cases a)
    case (Inl err)
    then show ?thesis using a "4.prems"(1) 1 e1 by auto
  next
    case (Inr u)
    then have each: "ensure_each n env g is s1 = Some (r, s')" using a "4.prems"(1) by simp
    have 2: "run_inv env g s'" "extends g (set is) s1 s'"
        "r = Inr () \<Longrightarrow> \<forall>j \<in> set is. completed s' j = Some (Inr ())"
      using "4.IH"(2) [OF a refl Inr each 1(1) "4.prems"(3)] by auto
    have "extends g (set (i # is)) s1 s'" using 2(2) by (auto simp: extends_def)
    with e1 have "extends g (set (i # is)) s s'" by (rule extends_trans)
    moreover have "completed s' i = Some (Inr ())"
      using 1(3) Inr 2(2) by (simp add: extends_def)
    ultimately show ?thesis using 2 by simp
  qed
qed auto

subsection \<open>Cyclic graphs\<close>

text \<open>A set of nodes none of which is completed, each waiting first for one of the set.\<close>

definition waits_for_ever :: "task_graph \<Rightarrow> task_id set \<Rightarrow> bool" where
  "waits_for_ever g S \<longleftrightarrow> (\<forall>i \<in> S. \<exists>nd j js. g i = Some nd \<and> dependencies nd = j # js \<and> j \<in> S)"

lemma ensure_completed_diverges:
  "waits_for_ever g S \<Longrightarrow> (\<forall>k. \<not> stop_at env k) \<Longrightarrow> i \<in> S \<Longrightarrow> \<forall>j \<in> S. completed s j = None \<Longrightarrow>
   ensure_completed n env g i s = None"
proof (induction n arbitrary: i s)
  case (Suc n)
  obtain nd j js where nd: "g i = Some nd" "dependencies nd = j # js" "j \<in> S"
    using Suc.prems(1,3) by (auto simp: waits_for_ever_def)
  have c: "completed s i = None" and st: "\<not> stop_at env (polls s)"
    using Suc.prems(2-4) by blast+
  have "ensure_completed n env g j (s\<lparr>polls := polls s + 1\<rparr>) = None"
    using Suc.IH [OF Suc.prems(1,2) nd(3)] Suc.prems(4) by simp
  then show ?case
    using nd(1,2) c st by (simp add: poll_stop_def node_at_def)
qed simp

subsection \<open>Properties\<close>

text \<open>
  C6 Termination: on a finite graph without dependency cycle the recursion of
  \<open>RunToCompletion\<close> is bounded: some fuel suffices, and every larger amount gives the
  same result.
\<close>

theorem run_terminates:
  assumes "finite (dom g)" "acyclic (dep_rel g)"
  shows "\<exists>n r. \<forall>m \<ge> n. run_to_completion m env g ids = Some r"
proof -
  have "dep_rel g = (\<Union>i \<in> dom g. {i} \<times> set (dependencies (the (g i))))"
    by (force simp: dep_rel_def)
  then have "finite (dep_rel g)" using assms(1) by simp
  then have "wf ((dep_rel g)\<inverse>)" using assms(2) by (rule finite_acyclic_wf_converse)
  then obtain n where "\<forall>j \<in> set ids. \<forall>s. ensure_completed n env g j s \<noteq> None"
    using common_fuel [of ids env g] ensure_completed_fuel by blast
  then have "ensure_each n env g ids start_run \<noteq> None" using ensure_each_defined by blast
  then obtain r where "ensure_each n env g ids start_run = Some r" by blast
  then show ?thesis unfolding run_to_completion_def using ensure_more_fuel(2) by blast
qed

definition demo_node :: "task_id \<Rightarrow> task_id list \<Rightarrow> task_node" where
  "demo_node i deps = \<lparr>node_id = i, stage_id = 0, dependencies = deps\<rparr>"

definition demo_graph :: task_graph where
  "demo_graph = [1 \<mapsto> demo_node 1 [2], 2 \<mapsto> demo_node 2 []]"

definition demo_env :: environment where
  "demo_env = \<lparr>stop_at = (\<lambda>_. False), submit_at = (\<lambda>_ _. Inr ()), work_result = (\<lambda>_. Inr ())\<rparr>"

lemma acyclic_demo: "acyclic (dep_rel demo_graph)" "finite (dom demo_graph)"
proof -
  have "dep_rel demo_graph = {(1, 2)}"
    by (auto simp: dep_rel_def demo_graph_def demo_node_def split: if_splits)
  then show "acyclic (dep_rel demo_graph)" by (simp add: acyclic_insert) (simp add: acyclic_def)
  show "finite (dom demo_graph)" by (simp add: demo_graph_def)
qed

theorem run_terminates_witness: "\<exists>n r. run_to_completion n demo_env demo_graph [1, 2] = Some r"
  using run_terminates [OF acyclic_demo(2,1), of demo_env "[1, 2]"] by blast

text \<open>
  C7 Scheduling order: on a graph without cycle, whatever the environment answers, a node's
  work runs at most once, only for nodes of the graph, and only after each of its
  dependencies has run successfully.
\<close>

theorem run_schedule:
  assumes "acyclic (dep_rel g)" "run_to_completion n env g ids = Some (r, s)"
  shows "distinct (run_log s) \<and> (\<forall>k < length (run_log s). \<exists>nd. g (run_log s ! k) = Some nd \<and>
      set (dependencies nd) \<subseteq> {x \<in> set (take k (run_log s)). work_result env x = Inr ()})"
  using run_step(2) [OF assms(2) [unfolded run_to_completion_def] run_inv_start assms(1)]
  by (simp add: run_inv_def)

lemma run_demo: "run_to_completion (Suc (Suc (Suc 0))) demo_env demo_graph [1, 2] =
    Some (Inr (), \<lparr>completed = [2 \<mapsto> Inr (), 1 \<mapsto> Inr ()], polls = 4, submissions = 2, run_log = [2, 1]\<rparr>)"
  by (simp add: run_to_completion_def start_run_def poll_stop_def demo_env_def
      demo_graph_def demo_node_def node_at_def dispatch_def emplace_result_def Let_def)

theorem run_schedule_witness:
  "\<exists>s. run_to_completion (Suc (Suc (Suc 0))) demo_env demo_graph [1, 2] = Some (Inr (), s) \<and> run_log s = [2, 1] \<and>
     distinct (run_log s)"
  using run_schedule [OF acyclic_demo(1) run_demo] run_demo by simp

text \<open>
  Success means everything ran: when \<open>RunToCompletion\<close> succeeds on a graph without cycle,
  the work of every node ran exactly once and every work succeeded.
\<close>

theorem run_success:
  assumes "acyclic (dep_rel g)" "set ids = dom g"
    and "run_to_completion n env g ids = Some (Inr (), s)"
  shows "mset (run_log s) = mset_set (dom g) \<and> (\<forall>i \<in> dom g. work_result env i = Inr ())"
proof -
  have inv: "run_inv env g s" and fin: "\<forall>j \<in> dom g. completed s j = Some (Inr ())"
    using run_step(2) [OF assms(3) [unfolded run_to_completion_def] run_inv_start assms(1)] assms(2)
    by simp_all
  then have sub: "dom g \<subseteq> set (run_log s)" by (auto simp: run_inv_def)
  moreover have "set (run_log s) \<subseteq> dom g"
  proof
    fix x assume "x \<in> set (run_log s)"
    then obtain k where "k < length (run_log s)" "run_log s ! k = x" by (auto simp: in_set_conv_nth)
    then show "x \<in> dom g" using inv unfolding run_inv_def by blast
  qed
  ultimately have eq: "set (run_log s) = dom g" by blast
  have "mset (run_log s) = mset_set (set (run_log s))"
    using inv by (simp add: run_inv_def mset_set_set)
  moreover have "\<forall>i \<in> dom g. work_result env i = Inr ()"
  proof
    fix i assume i: "i \<in> dom g"
    then have "completed s i = Some (work_result env i)" using inv sub unfolding run_inv_def by blast
    then show "work_result env i = Inr ()" using fin i by simp
  qed
  ultimately show ?thesis using eq by simp
qed

theorem run_success_witness:
  "\<exists>s. run_to_completion (Suc (Suc (Suc 0))) demo_env demo_graph [1, 2] = Some (Inr (), s) \<and>
     mset (run_log s) = mset_set {1, 2}"
proof -
  have "set [1, 2] = dom demo_graph" by (auto simp: demo_graph_def)
  from run_success [OF acyclic_demo(1) this run_demo] this run_demo show ?thesis by auto
qed

text \<open>
  Cycles are not detected: if the nodes of a set wait, each with its first dependency, for
  nodes of the set, then, unless stop is requested, \<open>RunToCompletion\<close> starting at such a node
  never returns, however deep it recurses.
\<close>

theorem run_diverges_on_cycle:
  assumes "waits_for_ever g S" "i \<in> S" "\<forall>k. \<not> stop_at env k"
  shows "run_to_completion n env g (i # ids) = None"
  using ensure_completed_diverges [OF assms(1,3,2), of start_run n]
  by (simp add: run_to_completion_def start_run_def)

theorem run_diverges_on_cycle_witness:
  "\<forall>n. run_to_completion n demo_env [1 \<mapsto> demo_node 1 [2], 2 \<mapsto> demo_node 2 [1]] [1, 2] = None"
proof
  fix n
  have "waits_for_ever [1 \<mapsto> demo_node 1 [2], 2 \<mapsto> demo_node 2 [1]] {1, 2}"
    by (simp add: waits_for_ever_def demo_node_def)
  from run_diverges_on_cycle [OF this, of 1 demo_env n "[2]"]
  show "run_to_completion n demo_env [1 \<mapsto> demo_node 1 [2], 2 \<mapsto> demo_node 2 [1]] [1, 2] = None"
    by (simp add: demo_env_def)
qed

end
