(* ===== verification/Pipeline.thy ===== *)
theory Pipeline
  imports Stage_Scheduler Task_Graph
begin

text \<open>
  The pipeline (\<open>src/pipeline/pipeline.cpp\<close>, \<open>src/pipeline/stage_factory.cpp\<close>): loading and
  wiring, start, submission, the worker loop of a stage, draining and stopping. Worker threads,
  submitters and the controlling thread interleave as a step relation; an operation on a stage
  queue is one step, because all of them hold the mutex of the queue. The one exception is \<open>Drain\<close>, whose
  pops take no mutex: the relation has it only as \<open>Stop\<close> uses it, after every worker has left. A call of
  \<open>Drain\<close> while workers run makes it a second consumer of the ring, for which \<open>Stage_Monitor\<close> shows that a frame
  is lost. A waiting call is a step that is not enabled: every wakeup of the condition variable
  is allowed here, so that what holds in every reachable state holds of the code, but the absence of
  blocking has to be looked at in \<open>Stage_Monitor\<close>, which has the condition variable. What a stage makes of a frame is
  left open (any result); latencies are not modelled.
\<close>

subsection \<open>Stages and the pipeline\<close>

record 'w stage_node =
  nd_type :: stage_type
  nd_start :: "'w \<Rightarrow> unit result \<times> 'w"
  nd_stop :: "'w \<Rightarrow> unit result \<times> 'w"

definition type_name :: "stage_type \<Rightarrow> string" where
  "type_name t = (case t of Capture \<Rightarrow> ''Capture'' | Preprocess \<Rightarrow> ''Preprocess'' | Inference \<Rightarrow> ''Inference''
     | Detect \<Rightarrow> ''Detect'' | RuleEval \<Rightarrow> ''RuleEval'' | Reason \<Rightarrow> ''Reason'' | Export \<Rightarrow> ''Export''
     | Custom \<Rightarrow> ''Custom'')"

text \<open>The factory: \<open>init\<close> constructs a stage and runs its \<open>OnInitialize\<close>.\<close>

definition create_stage :: "(stage_config \<Rightarrow> 'w stage_node result) \<Rightarrow> stage_config \<Rightarrow> 'w stage_node result" where
  "create_stage init cfg =
     (if sc_type cfg = Custom
      then Inl (ErrorInfo Pipeline_StageInitFailed ''Custom stages not yet supported'')
      else case init cfg of
        Inl err \<Rightarrow> Inl (ErrorInfo Pipeline_StageInitFailed
          (type_name (sc_type cfg) @ '' init failed: '' @ err_message err))
      | Inr nd \<Rightarrow> Inr nd)"

record stage_metrics =
  frames_processed :: "64 word"
  frames_failed :: "64 word"
  frames_dropped :: "64 word"
  queue_depth :: nat

definition new_metrics :: stage_metrics where
  "new_metrics = \<lparr>frames_processed = 0, frames_failed = 0, frames_dropped = 0, queue_depth = 0\<rparr>"

text \<open>
  A worker thread waits for input, processes a frame, passes one on, or has left its loop.
\<close>

datatype 'd phase = Ready | Working 'd | Emitting 'd | Left

definition no_longer :: "'d phase \<Rightarrow> bool" where
  "no_longer ph \<longleftrightarrow> (case ph of Left \<Rightarrow> True | _ \<Rightarrow> False)"

text \<open>
  The nodes are listed in the iteration order of the hash map. The last fields count frames:
  pushed by \<open>Submit\<close>, consumed by a terminal stage, failed, given up at a stop, and drained.
\<close>

record ('w, 'd) pipeline =
  p_nodes :: "(string \<times> 'w stage_node) list"
  p_queues :: "string \<Rightarrow> (backpressure \<times> 'd spsc) option"
  p_downstreams :: "string \<Rightarrow> string list"
  p_entry :: string
  p_scheduler :: stage_scheduler
  p_graph :: task_graph
  p_metrics :: "string \<Rightarrow> stage_metrics"
  p_drop_seen :: "string \<Rightarrow> 64 word"
  p_running :: bool
  p_stop :: bool
  p_workers :: "(string \<times> 'd phase) list"
  p_submitting :: "'d list"
  n_submitted :: nat
  n_finished :: nat
  n_failed :: nat
  n_lost :: nat
  n_drained :: nat

definition empty_pipeline :: "stage_scheduler \<Rightarrow> ('w, 'd) pipeline" where
  "empty_pipeline sch = \<lparr>p_nodes = [], p_queues = (\<lambda>_. None), p_downstreams = (\<lambda>_. []), p_entry = [],
     p_scheduler = sch, p_graph = (\<lambda>_. None), p_metrics = (\<lambda>_. new_metrics),
     p_drop_seen = (\<lambda>_. 0), p_running = False,
     p_stop = False, p_workers = [], p_submitting = [],
     n_submitted = 0, n_finished = 0, n_failed = 0, n_lost = 0, n_drained = 0\<rparr>"

subsection \<open>Loading\<close>

definition default_queue_capacity :: nat where
  "default_queue_capacity = 8"

primrec create_nodes :: "(stage_config \<Rightarrow> 'w stage_node result) \<Rightarrow> stage_config list \<Rightarrow>
    (string \<times> 'w stage_node) list result" where
  "create_nodes init [] = Inr []"
| "create_nodes init (c # cs) =
     and_then (create_stage init c) (\<lambda>nd.
     and_then (create_nodes init cs) (\<lambda>nds. Inr ((sc_id c, nd) # nds)))"

definition stage_capacity :: "stage_config \<Rightarrow> nat" where
  "stage_capacity c = (case sc_queue_capacity c of Some k \<Rightarrow> unat k | None \<Rightarrow> default_queue_capacity)"

primrec create_queues :: "stage_config list \<Rightarrow> (string \<Rightarrow> (backpressure \<times> 'd spsc) option) \<Rightarrow>
    (string \<Rightarrow> (backpressure \<times> 'd spsc) option) result" where
  "create_queues [] m = Inr m"
| "create_queues (c # cs) m =
     and_then (create_queue (stage_capacity c)) (\<lambda>q.
       create_queues cs (m(sc_id c \<mapsto> (sc_backpressure c, q))))"

definition entry_stage :: "stage_config list \<Rightarrow> string" where
  "entry_stage cs = (case find (\<lambda>c. depends_on c = []) cs of Some c \<Rightarrow> sc_id c | None \<Rightarrow> [])"

definition build_queue_wiring :: "stage_config list \<Rightarrow> ('w, 'd) pipeline \<Rightarrow> ('w, 'd) pipeline result" where
  "build_queue_wiring cs p =
     and_then (create_queues cs (p_queues p)) (\<lambda>m.
       Inr (p\<lparr>p_queues := m, p_downstreams := successors cs, p_entry := entry_stage cs\<rparr>))"

primrec add_nodes :: "stage_config list \<Rightarrow> task_graph \<Rightarrow> task_graph result" where
  "add_nodes [] g = Inr g"
| "add_nodes (c # cs) g =
     (case add_node \<lparr>node_id = fnv1a_hash (sc_id c), stage_id = stage_type_to_pool_id (sc_type c),
                     dependencies = map fnv1a_hash (depends_on c)\<rparr> g of
        (Inl err, _) \<Rightarrow> Inl err
      | (Inr _, g') \<Rightarrow> add_nodes cs g')"

definition with_overrides :: "pipeline_config \<Rightarrow> stage_scheduler" where
  "with_overrides cfg =
     fold (\<lambda>(k, po). override_pool_config k (po_threads po) (po_queue_capacity po)) (pool_overrides cfg)
       new_scheduler"

definition load_pipeline :: "'z pipe_conv_scheme \<Rightarrow> (stage_config \<Rightarrow> 'w stage_node result) \<Rightarrow>
    yaml_exception + yaml \<Rightarrow> ('w, 'd) pipeline result" where
  "load_pipeline cv init doc =
     and_then (parse_from_yaml cv doc) (\<lambda>cfg.
     and_then (validate cfg) (\<lambda>_.
       (case allocate (stages cfg) \<lparr>default_policy = Block, stage_overrides = []\<rparr> (with_overrides cfg) of
          (Inl err, _) \<Rightarrow> Inl err
        | (Inr _, sch) \<Rightarrow>
            and_then (create_nodes init (stages cfg)) (\<lambda>nds.
            and_then (build_queue_wiring (stages cfg) ((empty_pipeline sch)\<lparr>p_nodes := nds\<rparr>)) (\<lambda>p.
            and_then (add_nodes (stages cfg) (\<lambda>_. None)) (\<lambda>g. Inr (p\<lparr>p_graph := g\<rparr>)))))))"

subsection \<open>Starting and stopping\<close>

text \<open>The number of threads of a stage is that of its pool.\<close>

definition stage_threads :: "('w, 'd) pipeline \<Rightarrow> 'w stage_node \<Rightarrow> nat" where
  "stage_threads p nd = unat (threads (effective_pool_config (p_scheduler p) (stage_type_to_pool_key (nd_type nd))))"

definition launch :: "('w, 'd) pipeline \<Rightarrow> (string \<times> 'd phase) list" where
  "launch p = concat (map (\<lambda>(i, nd). replicate (stage_threads p nd) (i, Ready)) (p_nodes p))"

definition start_pipeline :: "('w, 'd) pipeline \<Rightarrow> 'w \<Rightarrow> unit result \<times> ('w, 'd) pipeline \<times> 'w" where
  "start_pipeline p w =
     (if p_running p then (Inl (ErrorInfo Pipeline_InvalidState ''Pipeline already running''), p, w)
      else (case call_until_failure (map (\<lambda>(i, nd). nd_start nd) (p_nodes p)) w of
              (Inl err, w') \<Rightarrow> (Inl err, p\<lparr>p_running := True\<rparr>, w')
            | (Inr _, w') \<Rightarrow>
                (Inr (), p\<lparr>p_running := True, p_stop := False, p_drop_seen := (\<lambda>_. 0), p_workers := launch p\<rparr>, w')))"

text \<open>\<open>Submit\<close> up to the blocking push: the frame is then waiting to be pushed.\<close>

definition submit_frame :: "'d \<Rightarrow> ('w, 'd) pipeline \<Rightarrow> unit result \<times> ('w, 'd) pipeline" where
  "submit_frame x p =
     (if \<not> p_running p
      then (Inl (ErrorInfo Pipeline_InvalidState
             (''Pipeline not running '' @ [CHR 0xE2, CHR 0x80, CHR 0x94] @ '' call Start() first'')), p)
      else if p_queues p (p_entry p) = None
      then (Inl (ErrorInfo Pipeline_InvalidConfig (''No entry stage queue found for: '' @ p_entry p)), p)
      else (Inr (), p\<lparr>p_submitting := p_submitting p @ [x]\<rparr>))"

definition set_queue :: "string \<Rightarrow> backpressure \<Rightarrow> 'd spsc \<Rightarrow> ('w, 'd) pipeline \<Rightarrow> ('w, 'd) pipeline" where
  "set_queue i pol q p = p\<lparr>p_queues := (p_queues p)(i \<mapsto> (pol, q))\<rparr>"

definition set_worker :: "nat \<Rightarrow> 'd phase \<Rightarrow> ('w, 'd) pipeline \<Rightarrow> ('w, 'd) pipeline" where
  "set_worker k ph p = p\<lparr>p_workers := (p_workers p)[k := (fst (p_workers p ! k), ph)]\<rparr>"

definition update_metrics :: "string \<Rightarrow> (stage_metrics \<Rightarrow> stage_metrics) \<Rightarrow> ('w, 'd) pipeline \<Rightarrow> ('w, 'd) pipeline" where
  "update_metrics i f p = p\<lparr>p_metrics := (p_metrics p)(i := f (p_metrics p i))\<rparr>"

text \<open>
  Passing a frame on: a stage without downstream stages consumes it; otherwise it goes to the
  first one. \<open>None\<close> waits; the flag tells whether the frame was taken.
\<close>

datatype 'q emission = Consumed | Passed 'q | GivenUp

definition enqueue_outputs :: "('w, 'd) pipeline \<Rightarrow> string \<Rightarrow> 'd \<Rightarrow> (('w, 'd) pipeline) emission option" where
  "enqueue_outputs p i y =
     (case p_downstreams p i of
        [] \<Rightarrow> Some Consumed
      | d # _ \<Rightarrow>
          (case p_queues p d of
             None \<Rightarrow> Some Consumed
           | Some (pol, q) \<Rightarrow>
               (case push_blocking_with_stop pol (p_stop p) y q of
                  None \<Rightarrow> None
                | Some (True, q') \<Rightarrow> Some (Passed (set_queue d pol q' p))
                | Some (False, _) \<Rightarrow> Some GivenUp)))"

definition dequeue_input :: "('w, 'd) pipeline \<Rightarrow> string \<Rightarrow> ('d option \<times> ('w, 'd) pipeline) option" where
  "dequeue_input p i =
     (case p_queues p i of
        None \<Rightarrow> Some (None, p)
      | Some (pol, q) \<Rightarrow>
          map_option (\<lambda>(x, q'). (x, set_queue i pol q' p)) (pop_blocking_with_stop (p_stop p) q))"

text \<open>
  After taking an input, without the mutex, the worker records what \<open>Depth\<close> reads (any number \<open>d\<close>, as other
  threads may move between its loads) and adds the drops that no thread of the stage has counted
  yet.
\<close>

definition note_queue :: "nat \<Rightarrow> string \<Rightarrow> ('w, 'd) pipeline \<Rightarrow> ('w, 'd) pipeline" where
  "note_queue d i p =
     (case p_queues p i of
        None \<Rightarrow> p
      | Some (pol, q) \<Rightarrow>
          (let seen = p_drop_seen p i; dc = q_dropped q;
               p1 = update_metrics i (\<lambda>m. m\<lparr>queue_depth := d,
                 frames_dropped := (if seen < dc then frames_dropped m + (dc - seen) else frames_dropped m)\<rparr>) p
           in if seen < dc then p1\<lparr>p_drop_seen := (p_drop_seen p)(i := dc)\<rparr> else p1))"

inductive pipe_step :: "('w, 'd) pipeline \<Rightarrow> ('w, 'd) pipeline \<Rightarrow> bool" where
  submit: "submit_frame x p = (Inr (), p') \<Longrightarrow> pipe_step p p'"
| push: "k < length (p_submitting p) \<Longrightarrow> p_queues p (p_entry p) = Some (pol, q) \<Longrightarrow>
    push_blocking pol (p_submitting p ! k) q = Some q' \<Longrightarrow>
    pipe_step p ((set_queue (p_entry p) pol q' p)\<lparr>
      p_submitting := take k (p_submitting p) @ drop (Suc k) (p_submitting p),
      n_submitted := n_submitted p + 1\<rparr>)"
| take_input: "k < length (p_workers p) \<Longrightarrow> p_workers p ! k = (i, Ready) \<Longrightarrow>
    dequeue_input p i = Some (Some x, p') \<Longrightarrow>
    pipe_step p (note_queue d i (set_worker k (Working x) p'))"
| leave: "k < length (p_workers p) \<Longrightarrow> p_workers p ! k = (i, Ready) \<Longrightarrow>
    dequeue_input p i = Some (None, p') \<Longrightarrow> pipe_step p (set_worker k Left p')"
| process_ok: "k < length (p_workers p) \<Longrightarrow> p_workers p ! k = (i, Working x) \<Longrightarrow>
    pipe_step p (update_metrics i (\<lambda>m. m\<lparr>frames_processed := frames_processed m + 1\<rparr>)
      (set_worker k (Emitting y) p))"
| process_fails: "k < length (p_workers p) \<Longrightarrow> p_workers p ! k = (i, Working x) \<Longrightarrow>
    pipe_step p ((update_metrics i (\<lambda>m. m\<lparr>frames_failed := frames_failed m + 1\<rparr>)
      (set_worker k Ready p))\<lparr>n_failed := n_failed p + 1\<rparr>)"
| emit_last: "k < length (p_workers p) \<Longrightarrow> p_workers p ! k = (i, Emitting y) \<Longrightarrow>
    enqueue_outputs p i y = Some Consumed \<Longrightarrow>
    pipe_step p ((set_worker k Ready p)\<lparr>n_finished := n_finished p + 1\<rparr>)"
| emit: "k < length (p_workers p) \<Longrightarrow> p_workers p ! k = (i, Emitting y) \<Longrightarrow>
    enqueue_outputs p i y = Some (Passed p') \<Longrightarrow> pipe_step p (set_worker k Ready p')"
| give_up: "k < length (p_workers p) \<Longrightarrow> p_workers p ! k = (i, Emitting y) \<Longrightarrow>
    enqueue_outputs p i y = Some GivenUp \<Longrightarrow>
    pipe_step p ((set_worker k Left p)\<lparr>n_lost := n_lost p + 1\<rparr>)"
| request_stop: "pipe_step p (p\<lparr>p_stop := True, p_running := False\<rparr>)"
| drain_one: "p_queues p i = Some (pol, q) \<Longrightarrow> 0 < depth q \<Longrightarrow> list_all (\<lambda>wk. no_longer (snd wk)) (p_workers p) \<Longrightarrow>
    pipe_step p ((set_queue i pol (snd (try_pop q)) p)\<lparr>n_drained := n_drained p + 1\<rparr>)"

text \<open>What \<open>Stop\<close> does after joining the workers: it empties the queues and stops the stages.\<close>

definition drained :: "('w, 'd) pipeline \<Rightarrow> ('w, 'd) pipeline" where
  "drained p = p\<lparr>p_queues := (\<lambda>i. map_option (\<lambda>(pol, q).
     (pol, ((\<lambda>q. snd (try_pop q)) ^^ depth q) q)) (p_queues p i))\<rparr>"

definition finish_stop :: "('w, 'd) pipeline \<Rightarrow> 'w \<Rightarrow> unit result \<times> ('w, 'd) pipeline \<times> 'w" where
  "finish_stop p w =
     (case call_until_failure (map (\<lambda>(i, nd). nd_stop nd) (rev (p_nodes p))) w of
        (r, w') \<Rightarrow> (r, (drained p)\<lparr>p_workers := []\<rparr>, w'))"

definition get_stage :: "('w, 'd) pipeline \<Rightarrow> string \<Rightarrow> 'w stage_node option" where
  "get_stage p i = map_of (p_nodes p) i"

subsection \<open>Every frame is accounted for\<close>

lemma push_at_rest:
  assumes "at_rest q" "\<not> is_full q"
  shows "at_rest (snd (try_push pol c x q))" "depth (snd (try_push pol c x q)) = Suc (depth q)"
    "q_dropped (snd (try_push pol c x q)) = q_dropped q"
    "logical_capacity (snd (try_push pol c x q)) = logical_capacity q"
proof -
  have "depth q < logical_capacity q"
    using full_at_rest [OF assms(1)] at_rest_indices(3) [OF assms(1)] assms(2) by simp
  note p = publish_at_rest [OF assms(1) this, of x]
  have eq: "snd (try_push pol c x q) = publish x q" using assms(2) by (simp add: try_push_def)
  show "at_rest (snd (try_push pol c x q))" unfolding eq by (rule p(1))
  show "depth (snd (try_push pol c x q)) = Suc (depth q)"
    unfolding eq using arg_cong [OF p(2), of length] by simp
  show "q_dropped (snd (try_push pol c x q)) = q_dropped q"
    "logical_capacity (snd (try_push pol c x q)) = logical_capacity q"
    unfolding eq by (simp_all add: publish_def)
qed

lemma pop_at_rest:
  assumes "at_rest q" "depth q \<noteq> 0"
  shows "at_rest (snd (try_pop q))" "depth q = Suc (depth (snd (try_pop q)))" "fst (try_pop q) \<noteq> None"
    "q_dropped (snd (try_pop q)) = q_dropped q" "logical_capacity (snd (try_pop q)) = logical_capacity q"
proof -
  obtain x xs where c: "stage_contents q = x # xs"
    using assms(2) length_stage_contents [of q] by (cases "stage_contents q") auto
  note p = stage_ring.pop_some [OF assms(1) c]
  show "at_rest (snd (try_pop q))" "fst (try_pop q) \<noteq> None" using p by auto
  show "depth q = Suc (depth (snd (try_pop q)))"
    using p arg_cong [OF c, of length] length_stage_contents [of "snd (try_pop q)"] by simp
  show "q_dropped (snd (try_pop q)) = q_dropped q" "logical_capacity (snd (try_pop q)) = logical_capacity q"
    by (simp_all add: try_pop_def)
qed

definition queue_ok :: "'d spsc \<Rightarrow> bool" where
  "queue_ok q \<longleftrightarrow> at_rest q \<and> q_dropped q = 0 \<and> 0 < logical_capacity q"

definition depth_at :: "('w, 'd) pipeline \<Rightarrow> string \<Rightarrow> nat" where
  "depth_at p i = (case p_queues p i of None \<Rightarrow> 0 | Some (_, q) \<Rightarrow> depth q)"

definition busy :: "'d phase \<Rightarrow> bool" where
  "busy ph = (case ph of Working _ \<Rightarrow> True | Emitting _ \<Rightarrow> True | _ \<Rightarrow> False)"

definition queued :: "string list \<Rightarrow> ('w, 'd) pipeline \<Rightarrow> nat" where
  "queued ids p = sum_list (map (depth_at p) ids)"

definition held :: "('w, 'd) pipeline \<Rightarrow> nat" where
  "held p = length (filter (\<lambda>wk. busy (snd wk)) (p_workers p))"

text \<open>Every queue is sound, and the frames submitted are those accounted for.\<close>

definition pipe_inv :: "string list \<Rightarrow> ('w, 'd) pipeline \<Rightarrow> bool" where
  "pipe_inv ids p \<longleftrightarrow>
     distinct ids \<and> dom (p_queues p) = set ids \<and>
     (\<forall>i pol q. p_queues p i = Some (pol, q) \<longrightarrow> queue_ok q) \<and>
     n_submitted p = n_finished p + n_failed p + n_lost p + n_drained p + queued ids p + held p"

lemma depth_at_set: "depth_at (set_queue i pol q p) j = (if j = i then depth q else depth_at p j)"
  by (simp add: depth_at_def set_queue_def)

lemma queued_set:
  assumes "distinct ids" "i \<in> set ids" "p_queues p i = Some (pol0, q0)"
  shows "queued ids (set_queue i pol q p) + depth q0 = queued ids p + depth q"
proof -
  have "depth_at p i = depth q0" using assms(3) by (simp add: depth_at_def)
  moreover have "depth_at (set_queue i pol q p) = (depth_at p)(i := depth q)"
    by (simp add: fun_eq_iff depth_at_set)
  ultimately show ?thesis
    using assms(1,2) unfolding queued_def by (induction ids) (auto simp: map_fun_upd)
qed

lemma held_update:
  "k < length ws \<Longrightarrow> length (filter (\<lambda>wk. busy (snd wk)) (ws[k := (i, ph)])) + (if busy (snd (ws ! k)) then 1 else 0) =
     length (filter (\<lambda>wk. busy (snd wk)) ws) + (if busy ph then 1 else 0)"
proof (induction ws arbitrary: k)
  case (Cons w ws)
  then show ?case by (cases k) auto
qed simp

lemma held_set:
  "k < length (p_workers p) \<Longrightarrow> held (set_worker k ph p) + (if busy (snd (p_workers p ! k)) then 1 else 0) =
     held p + (if busy ph then 1 else 0)"
  unfolding held_def set_worker_def
  using held_update [of k "p_workers p" "fst (p_workers p ! k)" ph] by simp

text \<open>Updates that do not touch what is counted.\<close>

lemma untouched [simp]:
  "p_queues (set_worker k ph p) = p_queues p" "p_queues (update_metrics i f p) = p_queues p"
  "p_queues (note_queue d i p) = p_queues p" "p_workers (set_queue i pol q p) = p_workers p"
  "p_workers (update_metrics i f p) = p_workers p" "p_workers (note_queue d i p) = p_workers p"
  "n_submitted (set_worker k ph p) = n_submitted p" "n_submitted (update_metrics i f p) = n_submitted p"
  "n_submitted (note_queue d i p) = n_submitted p" "n_submitted (set_queue i pol q p) = n_submitted p"
  "n_finished (set_worker k ph p) = n_finished p" "n_finished (update_metrics i f p) = n_finished p"
  "n_finished (note_queue d i p) = n_finished p" "n_finished (set_queue i pol q p) = n_finished p"
  "n_failed (set_worker k ph p) = n_failed p" "n_failed (update_metrics i f p) = n_failed p"
  "n_failed (note_queue d i p) = n_failed p" "n_failed (set_queue i pol q p) = n_failed p"
  "n_lost (set_worker k ph p) = n_lost p" "n_lost (update_metrics i f p) = n_lost p"
  "n_lost (note_queue d i p) = n_lost p" "n_lost (set_queue i pol q p) = n_lost p"
  "n_drained (set_worker k ph p) = n_drained p" "n_drained (update_metrics i f p) = n_drained p"
  "n_drained (note_queue d i p) = n_drained p" "n_drained (set_queue i pol q p) = n_drained p"
  by (auto simp: set_worker_def update_metrics_def note_queue_def set_queue_def Let_def split: option.split)

lemma queued_cong:
  "p_queues p' = p_queues p \<Longrightarrow> queued ids p' = queued ids p"
  by (simp add: queued_def depth_at_def [abs_def])

lemma held_cong: "p_workers p' = p_workers p \<Longrightarrow> held p' = held p"
  by (simp add: held_def)

lemma counted_untouched [simp]:
  "queued ids (set_worker k ph p) = queued ids p" "queued ids (update_metrics i f p) = queued ids p"
  "queued ids (note_queue d i p) = queued ids p" "queued ids (p\<lparr>n_failed := a\<rparr>) = queued ids p"
  "queued ids (p\<lparr>n_finished := a\<rparr>) = queued ids p" "queued ids (p\<lparr>n_lost := a\<rparr>) = queued ids p"
  "queued ids (p\<lparr>p_submitting := l\<rparr>) = queued ids p"
  "queued ids (p\<lparr>p_running := b\<rparr>) = queued ids p" "queued ids (p\<lparr>p_stop := b\<rparr>) = queued ids p"
  "held (set_queue i pol q p) = held p" "held (update_metrics i f p) = held p"
  "held (note_queue d i p) = held p" "held (p\<lparr>n_failed := a\<rparr>) = held p" "held (p\<lparr>n_finished := a\<rparr>) = held p"
  "held (p\<lparr>n_lost := a\<rparr>) = held p" "held (p\<lparr>n_drained := a\<rparr>) = held p"
  "held (p\<lparr>n_submitted := a\<rparr>) = held p" "held (p\<lparr>p_submitting := l\<rparr>) = held p"
  "held (p\<lparr>p_running := b\<rparr>) = held p" "held (p\<lparr>p_stop := b\<rparr>) = held p"
  by (rule queued_cong held_cong; simp)+

lemma pipe_inv_queue: "pipe_inv ids p \<Longrightarrow> p_queues p i = Some (pol, q) \<Longrightarrow> queue_ok q"
  unfolding pipe_inv_def by blast

lemma pipe_inv_ids: "pipe_inv ids p \<Longrightarrow> p_queues p i = Some (pol, q) \<Longrightarrow> i \<in> set ids"
  unfolding pipe_inv_def by blast

lemma dequeue_input_Some:
  assumes "pipe_inv ids p" "dequeue_input p i = Some (x, p')"
  shows "(x = None \<and> p' = p) \<or>
    (\<exists>y pol q. x = Some y \<and> p_queues p i = Some (pol, q) \<and> depth q \<noteq> 0 \<and>
       p' = set_queue i pol (snd (try_pop q)) p)"
proof (cases "p_queues p i")
  case None
  then show ?thesis using assms(2) by (simp add: dequeue_input_def)
next
  case (Some pq)
  obtain pol q where pq: "pq = (pol, q)" by fastforce
  have q: "at_rest q" using pipe_inv_queue [OF assms(1)] Some pq by (simp add: queue_ok_def)
  have same: "set_queue i pol q p = p"
    using Some pq by (simp add: set_queue_def fun_upd_idem)
  show ?thesis
  proof (cases "is_empty q")
    case True
    then show ?thesis using assms(2) Some pq same
      by (auto simp: dequeue_input_def pop_blocking_with_stop_def split: if_splits)
  next
    case False
    then have d: "depth q \<noteq> 0" using empty_at_rest [OF q] by simp
    obtain y q' where "try_pop q = (Some y, q')"
      using pop_at_rest(3) [OF q d] by (cases "try_pop q") auto
    then show ?thesis using assms(2) Some pq d False
      by (auto simp: dequeue_input_def pop_blocking_with_stop_def)
  qed
qed

lemma enqueue_outputs_Passed:
  assumes "enqueue_outputs p i y = Some (Passed p')"
  shows "\<exists>d pol q. p_queues p d = Some (pol, q) \<and> \<not> is_full q \<and>
    p' = set_queue d pol (snd (try_push pol True y q)) p"
  using assms
  by (fastforce simp: enqueue_outputs_def push_blocking_with_stop_def split: list.splits option.splits if_splits)

lemma pipe_inv_count:
  "pipe_inv ids p \<Longrightarrow>
   n_submitted p = n_finished p + n_failed p + n_lost p + n_drained p + queued ids p + held p"
  unfolding pipe_inv_def by blast

lemma pipe_inv_same_queues:
  assumes "pipe_inv ids p" "p_queues p' = p_queues p"
    "n_submitted p' = n_finished p' + n_failed p' + n_lost p' + n_drained p' + queued ids p' + held p'"
  shows "pipe_inv ids p'"
  using assms(1,3) unfolding pipe_inv_def assms(2) by blast

lemma pipe_inv_one_queue:
  assumes inv: "pipe_inv ids p" and q0: "p_queues p i = Some (pol, q0)" and q: "queue_ok q"
    and upd: "p_queues p' = p_queues (set_queue i pol q p)"
    and num: "n_submitted p' + depth q0 + queued ids p + depth q =
      n_finished p' + n_failed p' + n_lost p' + n_drained p' + 2 * queued ids p + 2 * depth q + held p'"
  shows "pipe_inv ids p'"
proof -
  have ids: "distinct ids" "i \<in> set ids" "dom (p_queues p) = set ids"
    using inv pipe_inv_ids [OF inv q0] unfolding pipe_inv_def by blast+
  have sum: "queued ids p' + depth q0 = queued ids p + depth q"
    using queued_set [where q = q and pol = pol, OF ids(1,2) q0] queued_cong [OF upd] by simp
  have "dom (p_queues p') = set ids" unfolding upd set_queue_def using ids(2,3) by auto
  moreover have "\<forall>j pl qq. p_queues p' j = Some (pl, qq) \<longrightarrow> queue_ok qq"
    unfolding upd set_queue_def using q pipe_inv_queue [OF inv] by auto
  moreover have "n_submitted p' = n_finished p' + n_failed p' + n_lost p' + n_drained p' + queued ids p' + held p'"
    using sum num by linarith
  ultimately show ?thesis using ids(1) unfolding pipe_inv_def by blast
qed

lemma pipe_inv_step:
  assumes "pipe_step p p'" "pipe_inv ids p"
  shows "pipe_inv ids p'"
  using assms(1)
proof cases
  case (submit x)
  then have "p' = p\<lparr>p_submitting := p_submitting p @ [x]\<rparr>"
    by (auto simp: submit_frame_def split: if_splits)
  then show ?thesis using pipe_inv_count [OF assms(2)] by (intro pipe_inv_same_queues [OF assms(2)]) simp_all
next
  case (push k pol q q')
  have q: "queue_ok q" by (rule pipe_inv_queue [OF assms(2) push(3)])
  have full: "\<not> is_full q" "q' = snd (try_push pol True (p_submitting p ! k) q)"
    using push(4) by (auto simp: push_blocking_def split: if_splits)
  note pq = push_at_rest [of q pol True "p_submitting p ! k"]
  have ok: "queue_ok q'" "depth q' = Suc (depth q)"
    using q full pq by (simp_all add: queue_ok_def)
  show ?thesis
    by (rule pipe_inv_one_queue [OF assms(2) push(3) ok(1)])
      (use pipe_inv_count [OF assms(2)] ok(2) in \<open>simp_all add: push(1) held_def\<close>)
next
  case (take_input k i x p1 d)
  from dequeue_input_Some [OF assms(2) take_input(4)] obtain pol q where
    q: "p_queues p i = Some (pol, q)" "depth q \<noteq> 0" "p1 = set_queue i pol (snd (try_pop q)) p" by auto
  have "queue_ok q" by (rule pipe_inv_queue [OF assms(2) q(1)])
  then have ok: "queue_ok (snd (try_pop q))" "depth q = Suc (depth (snd (try_pop q)))"
    using pop_at_rest [OF _ q(2)] by (auto simp: queue_ok_def)
  have "held p' = Suc (held p)"
    using held_set [of k p1 "Working x"] take_input(2,3) q(3) by (simp add: take_input(1) busy_def)
  then show ?thesis
    by (intro pipe_inv_one_queue [OF assms(2) q(1) ok(1)])
      (use pipe_inv_count [OF assms(2)] ok(2) q(3) in \<open>simp_all add: take_input(1)\<close>)
next
  case (leave k i p1)
  have p1: "p1 = p" using dequeue_input_Some [OF assms(2) leave(4)] by auto
  have "held p' = held p"
    using held_set [of k p Left] leave(2,3) p1 by (simp add: leave(1) busy_def)
  then show ?thesis
    by (intro pipe_inv_same_queues [OF assms(2)])
      (use pipe_inv_count [OF assms(2)] in \<open>simp_all add: leave(1) p1\<close>)
next
  case (process_ok k i x y)
  have "held p' = held p"
    using held_set [of k p "Emitting y"] process_ok(2,3) by (simp add: process_ok(1) busy_def)
  then show ?thesis
    by (intro pipe_inv_same_queues [OF assms(2)])
      (use pipe_inv_count [OF assms(2)] in \<open>simp_all add: process_ok(1)\<close>)
next
  case (process_fails k i x)
  have "Suc (held p') = held p"
    using held_set [of k p Ready] process_fails(2,3)
    by (simp add: process_fails(1) busy_def)
  then show ?thesis
    by (intro pipe_inv_same_queues [OF assms(2)])
      (use pipe_inv_count [OF assms(2)] in \<open>simp_all add: process_fails(1)\<close>)
next
  case (emit_last k i y)
  have "Suc (held p') = held p"
    using held_set [of k p Ready] emit_last(2,3) by (simp add: emit_last(1) busy_def)
  then show ?thesis
    by (intro pipe_inv_same_queues [OF assms(2)])
      (use pipe_inv_count [OF assms(2)] in \<open>simp_all add: emit_last(1)\<close>)
next
  case (emit k i y p1)
  from enqueue_outputs_Passed [OF emit(4)] obtain d pol q where
    q: "p_queues p d = Some (pol, q)" "\<not> is_full q" "p1 = set_queue d pol (snd (try_push pol True y q)) p" by blast
  have "queue_ok q" by (rule pipe_inv_queue [OF assms(2) q(1)])
  then have ok: "queue_ok (snd (try_push pol True y q))" "depth (snd (try_push pol True y q)) = Suc (depth q)"
    using push_at_rest [OF _ q(2), of pol True y] by (auto simp: queue_ok_def)
  have "Suc (held p') = held p"
    using held_set [of k p1 Ready] emit(2,3) q(3) by (simp add: emit(1) busy_def)
  then show ?thesis
    by (intro pipe_inv_one_queue [OF assms(2) q(1) ok(1)])
      (use pipe_inv_count [OF assms(2)] ok(2) q(3) in \<open>simp_all add: emit(1)\<close>)
next
  case (give_up k i y)
  have "Suc (held p') = held p"
    using held_set [of k p Left] give_up(2,3) by (simp add: give_up(1) busy_def)
  then show ?thesis
    by (intro pipe_inv_same_queues [OF assms(2)])
      (use pipe_inv_count [OF assms(2)] in \<open>simp_all add: give_up(1)\<close>)
next
  case request_stop
  then show ?thesis
    using pipe_inv_count [OF assms(2)] by (intro pipe_inv_same_queues [OF assms(2)]) simp_all
next
  case (drain_one i pol q)
  have "queue_ok q" by (rule pipe_inv_queue [OF assms(2) drain_one(2)])
  then have ok: "queue_ok (snd (try_pop q))" "depth q = Suc (depth (snd (try_pop q)))"
    using pop_at_rest [of q] drain_one(3) by (auto simp: queue_ok_def)
  show ?thesis
    by (rule pipe_inv_one_queue [OF assms(2) drain_one(2) ok(1)])
      (use pipe_inv_count [OF assms(2)] ok(2) in \<open>simp_all add: drain_one(1) held_def\<close>)
qed

subsection \<open>What loading establishes\<close>

lemma create_nodes_keys: "create_nodes init cs = Inr nds \<Longrightarrow> map fst nds = map sc_id cs"
  by (induction cs arbitrary: nds) (auto simp: and_then_Inr_iff)

lemma create_queues_spec:
  "create_queues cs m = Inr m' \<Longrightarrow> \<forall>i pol q. m i = Some (pol, q) \<longrightarrow> queue_ok q \<and> depth q = 0 \<Longrightarrow>
   dom m' = dom m \<union> sc_id ` set cs \<and> (\<forall>i pol q. m' i = Some (pol, q) \<longrightarrow> queue_ok q \<and> depth q = 0)"
proof (induction cs arbitrary: m)
  case (Cons c cs)
  let ?q = "new_spsc (stage_capacity c)" and ?n = "stage_capacity c"
  have n: "?n \<noteq> 0" and rest: "create_queues cs (m(sc_id c \<mapsto> (sc_backpressure c, ?q))) = Inr m'"
    using Cons.prems(1) by (auto simp: and_then_Inr_iff create_queue_def split: if_splits)
  have ok: "queue_ok ?q" "depth ?q = 0"
    using new_spsc_at_rest(1) [of ?n] n by (auto simp: queue_ok_def new_spsc_def depth_unfold)
  have "\<forall>i pol q. (m(sc_id c \<mapsto> (sc_backpressure c, ?q))) i = Some (pol, q) \<longrightarrow> queue_ok q \<and> depth q = 0"
    using Cons.prems(2) ok by auto
  from Cons.IH [OF rest this] show ?case by auto
qed simp

lemma load_pipeline_wired:
  assumes "load_pipeline cv init doc = Inr p"
  shows "\<exists>cfg. parse_from_yaml cv doc = Inr cfg \<and> valid_pipeline cfg \<and>
    map fst (p_nodes p) = map sc_id (stages cfg) \<and>
    dom (p_queues p) = set (map fst (p_nodes p)) \<and>
    (\<forall>i pol q. p_queues p i = Some (pol, q) \<longrightarrow> queue_ok q \<and> depth q = 0) \<and>
    p_downstreams p = successors (stages cfg) \<and> p_workers p = [] \<and> p_running p = False \<and>
    n_submitted p = 0 \<and> n_finished p = 0 \<and> n_failed p = 0 \<and> n_lost p = 0 \<and> n_drained p = 0"
proof -
  obtain cfg where cfg: "parse_from_yaml cv doc = Inr cfg" "validate cfg = Inr ()"
    using assms by (auto simp: load_pipeline_def and_then_Inr_iff)
  obtain r sch where r: "allocate (stages cfg) \<lparr>default_policy = Block, stage_overrides = []\<rparr>
      (with_overrides cfg) = (r, sch)" by fastforce
  obtain u where u: "r = Inr u" using assms cfg r by (cases r) (simp_all add: load_pipeline_def)
  then obtain nds m g where l: "create_nodes init (stages cfg) = Inr nds"
      "create_queues (stages cfg) (\<lambda>_. None) = Inr m"
      "p = (empty_pipeline sch)\<lparr>p_nodes := nds, p_queues := m, p_downstreams := successors (stages cfg),
             p_entry := entry_stage (stages cfg), p_graph := g\<rparr>"
    using assms cfg r
    by (auto simp: load_pipeline_def and_then_Inr_iff build_queue_wiring_def empty_pipeline_def)
  have keys: "map fst nds = map sc_id (stages cfg)" using create_nodes_keys [OF l(1)] .
  have "set (map fst nds) = sc_id ` set (stages cfg)" unfolding keys by simp
  then show ?thesis
    using create_queues_spec [OF l(2)] cfg keys
    by (intro exI [of _ cfg]) (simp add: l(3) empty_pipeline_def validate_valid)
qed

lemma valid_ids: "valid_pipeline cfg \<Longrightarrow> distinct (map sc_id (stages cfg))"
  by (simp add: valid_pipeline_def Let_def)

lemma launch_idle: "filter (\<lambda>wk. busy (snd wk)) (launch p) = []"
  by (auto simp: launch_def filter_empty_conv busy_def)

lemma start_pipeline_ok:
  "start_pipeline p w = (Inr u, p', w') \<Longrightarrow>
   p' = p\<lparr>p_running := True, p_stop := False, p_drop_seen := (\<lambda>_. 0), p_workers := launch p\<rparr>"
  by (auto simp: start_pipeline_def split: if_splits prod.splits sum.splits)

lemma started_inv:
  assumes "load_pipeline cv init doc = Inr p0" "start_pipeline p0 w = (Inr (), p1, w')"
  shows "pipe_inv (map fst (p_nodes p0)) p1"
proof -
  from load_pipeline_wired [OF assms(1)] obtain cfg where w: "valid_pipeline cfg"
      "map fst (p_nodes p0) = map sc_id (stages cfg)" "dom (p_queues p0) = set (map fst (p_nodes p0))"
      "\<forall>i pol q. p_queues p0 i = Some (pol, q) \<longrightarrow> queue_ok q \<and> depth q = 0"
      "n_submitted p0 = 0" "n_finished p0 = 0" "n_failed p0 = 0" "n_lost p0 = 0" "n_drained p0 = 0"
    by blast
  note p1 = start_pipeline_ok [OF assms(2)]
  have "depth_at p1 i = 0" for i
    using w(4) by (auto simp: depth_at_def p1 split: option.split)
  then have "queued (map fst (p_nodes p0)) p1 = 0" by (simp add: queued_def)
  moreover have "held p1 = 0" using launch_idle [of p0] by (simp add: held_def p1)
  moreover have "\<forall>i pol q. p_queues p1 i = Some (pol, q) \<longrightarrow> queue_ok q" using w(4) by (simp add: p1)
  moreover have "distinct (map fst (p_nodes p0))" unfolding w(2) by (rule valid_ids [OF w(1)])
  moreover have "dom (p_queues p1) = set (map fst (p_nodes p0))" using w(3) by (simp add: p1)
  moreover have "n_submitted p1 = 0" "n_finished p1 = 0" "n_failed p1 = 0" "n_lost p1 = 0" "n_drained p1 = 0"
    using w(5-) by (simp_all add: p1)
  ultimately show ?thesis unfolding pipe_inv_def by simp
qed

lemma reachable_pipe_inv:
  assumes "pipe_step\<^sup>*\<^sup>* p1 p" "pipe_inv ids p1"
  shows "pipe_inv ids p"
  using assms by (induction rule: rtranclp_induct) (auto intro: pipe_inv_step)

text \<open>
  C16 Conservation: in every interleaving of submitters, workers, stop requests and the drain that \<open>Stop\<close> performs
  after its workers have left, every frame pushed into a loaded and started pipeline is finished,
  failed, given up at a stop, drained, queued or held by a worker, exactly once. No queue exceeds its capacity, and no
  queue ever drops a frame, whatever its backpressure policy.
\<close>

theorem frames_accounted:
  assumes "load_pipeline cv init doc = Inr p0" "start_pipeline p0 w = (Inr (), p1, w')"
    and "pipe_step\<^sup>*\<^sup>* p1 p"
  shows "n_submitted p = n_finished p + n_failed p + n_lost p + n_drained p +
      queued (map fst (p_nodes p0)) p + held p \<and>
    (\<forall>i pol q. p_queues p i = Some (pol, q) \<longrightarrow> depth q \<le> logical_capacity q \<and> q_dropped q = 0)"
proof -
  have inv: "pipe_inv (map fst (p_nodes p0)) p"
    using reachable_pipe_inv [OF assms(3) started_inv [OF assms(1,2)]] .
  have "depth q \<le> logical_capacity q \<and> q_dropped q = 0" if "p_queues p i = Some (pol, q)" for i pol q
    using pipe_inv_queue [OF inv that] at_rest_indices(3) by (auto simp: queue_ok_def)
  then show ?thesis using pipe_inv_count [OF inv] by blast
qed

definition demo_conv :: pipe_conv where
  "demo_conv = \<lparr>as_double_text = (\<lambda>_. None), as_int64_text = (\<lambda>_. None), null_text = None,
     as_uint32_text = (\<lambda>_. None), what = (\<lambda>_. ''''), as_size_text = (\<lambda>_. None)\<rparr>"

definition demo_stage :: "string \<Rightarrow> string \<Rightarrow> yaml" where
  "demo_stage i t = YMap [(''id'', YScalar i), (''type'', YScalar t)]"

definition demo_doc :: yaml where
  "demo_doc = YMap [(''pipeline'', YMap [(''name'', YScalar ''p''), (''version'', YScalar ''1.0''),
     (''stages'', YSeq [demo_stage ''c'' ''Capture'', demo_stage ''e'' ''Export''])])]"

definition demo_node :: "unit result \<Rightarrow> stage_config \<Rightarrow> nat stage_node result" where
  "demo_node r c = Inr \<lparr>nd_type = sc_type c, nd_start = (\<lambda>n. (r, Suc n)), nd_stop = (\<lambda>n. (Inr (), n))\<rparr>"

definition demo_config :: pipeline_config where
  "demo_config = \<lparr>pc_name = ''p'', pc_version = ''1.0'',
     pc_backpressure = \<lparr>default_policy = Block, stage_overrides = []\<rparr>,
     stages = [\<lparr>sc_id = ''c'', sc_type = Capture, depends_on = [], sc_config = None, sc_backpressure = Block,
                sc_queue_capacity = None\<rparr>,
               \<lparr>sc_id = ''e'', sc_type = Export, depends_on = [], sc_config = None, sc_backpressure = Block,
                sc_queue_capacity = None\<rparr>],
     pool_overrides = []\<rparr>"

lemma demo_parses: "parse_from_yaml demo_conv (Inr demo_doc) = Inr demo_config"
  by (simp add: parse_from_yaml_def demo_doc_def demo_config_def caught_def y_index_def y_at_def
      parse_pipeline_def text_at_def text_of_def read_backpressure_def demo_stage_def parse_stage_config_def
      caught_argument_def stage_type_from_string_def name_list_def size_opt_def merge_backpressure_def)

lemma demo_valid: "valid_pipeline demo_config"
proof -
  have "''1.0'' = ''1'' @ ''.'' @ ''0''" "list_all is_digit (''1'' @ ''0'')"
    by (simp_all add: is_digit_def less_eq_char_def)
  then have "\<exists>a b. ''1.0'' = a @ ''.'' @ b \<and> a \<noteq> [] \<and> b \<noteq> [] \<and> list_all is_digit (a @ b)" by blast
  then show ?thesis
    by (simp add: valid_pipeline_def demo_config_def dependency_rel_def edge_list_def acyclic_def
        edges_compatible_def)
qed

lemma demo_allocates:
  "\<exists>sch. allocate (stages demo_config) bp (with_overrides demo_config) = (Inr (), sch) \<and> overrides_by_key sch = []"
proof -
  have n: "with_overrides demo_config = new_scheduler" by (simp add: with_overrides_def demo_config_def)
  let ?s = "new_scheduler\<lparr>bp_config := bp, stage_pool_map := (\<lambda>_. None)\<rparr>"
  have "fst (register_pools (required_keys (stages demo_config)) ?s) = Inr ()"
    using register_pools_ok [OF required_keys_distinct, of "stages demo_config" ?s]
    by (simp add: new_scheduler_def empty_registry_def)
  moreover have "overrides_by_key (snd (register_pools (required_keys (stages demo_config)) ?s)) = []"
    by (simp add: register_pools_overrides new_scheduler_def)
  ultimately show ?thesis
    unfolding allocate_def n by (auto split: prod.split sum.split)
qed

lemma demo_hashes: "fnv1a_hash ''c'' \<noteq> fnv1a_hash ''e''"
  by (simp add: fnv1a_hash_def fnv_step_def fnv_basis_def fnv_prime_def byte_of_def)

lemma demo_loads:
  "\<exists>p :: (nat, 'd) pipeline. load_pipeline demo_conv (demo_node r) (Inr demo_doc) = Inr p \<and>
     p_nodes p = [(''c'', \<lparr>nd_type = Capture, nd_start = (\<lambda>n. (r, Suc n)), nd_stop = (\<lambda>n. (Inr (), n))\<rparr>),
       (''e'', \<lparr>nd_type = Export, nd_start = (\<lambda>n. (r, Suc n)), nd_stop = (\<lambda>n. (Inr (), n))\<rparr>)] \<and>
     p_running p = False \<and> p_queues p (p_entry p) \<noteq> None \<and> overrides_by_key (p_scheduler p) = []"
proof -
  obtain sch where sch: "allocate (stages demo_config) \<lparr>default_policy = Block, stage_overrides = []\<rparr>
      (with_overrides demo_config) = (Inr (), sch)" "overrides_by_key sch = []"
    using demo_allocates by blast
  have v: "validate demo_config = Inr ()" using demo_valid by (simp add: validate_valid)
  show ?thesis
    using sch v demo_hashes
    by (simp add: load_pipeline_def demo_parses) (simp add: demo_config_def create_stage_def demo_node_def
        build_queue_wiring_def create_queue_def stage_capacity_def default_queue_capacity_def
        empty_pipeline_def add_node_def entry_stage_def)
qed

text \<open>A loaded and started pipeline whose first frame has been pushed.\<close>

lemma demo_started:
  "\<exists>(p0 :: (nat, nat) pipeline) p1 p. load_pipeline demo_conv (demo_node (Inr ())) (Inr demo_doc) = Inr p0 \<and>
     map fst (p_nodes p0) = [''c'', ''e''] \<and> (\<forall>(i, nd) \<in> set (p_nodes p0). 0 < stage_threads p0 nd) \<and>
     start_pipeline p0 0 = (Inr (), p1, 2) \<and> pipe_step\<^sup>*\<^sup>* p1 p \<and> \<not> p_stop p \<and>
     n_submitted p = 1 \<and> n_finished p = 0 \<and> n_failed p = 0 \<and> n_lost p = 0 \<and> n_drained p = 0"
proof -
  obtain p0 :: "(nat, nat) pipeline" where load: "load_pipeline demo_conv (demo_node (Inr ())) (Inr demo_doc) = Inr p0"
    and nodes: "p_nodes p0 = [(''c'', \<lparr>nd_type = Capture, nd_start = (\<lambda>n. (Inr (), Suc n)), nd_stop = (\<lambda>n. (Inr (), n))\<rparr>),
       (''e'', \<lparr>nd_type = Export, nd_start = (\<lambda>n. (Inr (), Suc n)), nd_stop = (\<lambda>n. (Inr (), n))\<rparr>)]"
    and p0: "p_running p0 = False" "p_queues p0 (p_entry p0) \<noteq> None" "overrides_by_key (p_scheduler p0) = []"
    using demo_loads [of "Inr ()"] by blast
  define p1 where "p1 = p0\<lparr>p_running := True, p_stop := False, p_drop_seen := (\<lambda>_. 0), p_workers := launch p0\<rparr>"
  have start: "start_pipeline p0 0 = (Inr (), p1, 2)"
    by (simp add: start_pipeline_def p0(1) nodes p1_def)
  obtain pol q where q: "p_queues p0 (p_entry p0) = Some (pol, q)" using p0(2) by auto
  from load_pipeline_wired [OF load] q have ok: "queue_ok q" "depth q = 0"
    and zero: "n_submitted p0 = 0" "n_finished p0 = 0" "n_failed p0 = 0" "n_lost p0 = 0" "n_drained p0 = 0" by blast+
  then have room: "\<not> is_full q" using full_at_rest [of q] by (simp add: queue_ok_def)
  define p2 where "p2 = p1\<lparr>p_submitting := p_submitting p1 @ [7]\<rparr>"
  have "submit_frame 7 p1 = (Inr (), p2)"
    by (simp add: submit_frame_def p2_def p1_def q)
  then have s1: "pipe_step p1 p2" by (rule pipe_step.submit)
  let ?k = "length (p_submitting p1)"
  define p3 where "p3 = (set_queue (p_entry p2) pol (snd (try_push pol True (p_submitting p2 ! ?k) q)) p2)\<lparr>
      p_submitting := take ?k (p_submitting p2) @ drop (Suc ?k) (p_submitting p2),
      n_submitted := n_submitted p2 + 1\<rparr>"
  have s2: "pipe_step p2 p3" unfolding p3_def
    by (rule pipe_step.push [where q = q]) (simp_all add: p2_def p1_def q room push_blocking_def)
  have "pipe_step\<^sup>*\<^sup>* p1 p3" using s1 s2 by (meson converse_rtranclp_into_rtranclp rtranclp.rtrancl_refl)
  moreover have "\<not> p_stop p3" "n_submitted p3 = 1 \<and> n_finished p3 = 0 \<and> n_failed p3 = 0 \<and> n_lost p3 = 0 \<and> n_drained p3 = 0"
    by (simp_all add: p3_def p2_def p1_def zero set_queue_def)
  moreover have "\<forall>(i, nd) \<in> set (p_nodes p0). 0 < stage_threads p0 nd"
    by (simp add: nodes stage_threads_def effective_pool_config_def p0(3) stage_type_to_pool_key_def
        pool_config_for_key_def)
  ultimately show ?thesis using load start nodes by (intro exI [of _ p0] exI [of _ p1] exI [of _ p3]) simp
qed

theorem frames_accounted_witness:
  "\<exists>p :: (nat, nat) pipeline. n_submitted p = 1 \<and> queued [''c'', ''e''] p + held p = 1"
proof -
  obtain p0 p1 p :: "(nat, nat) pipeline" where d:
    "load_pipeline demo_conv (demo_node (Inr ())) (Inr demo_doc) = Inr p0" "map fst (p_nodes p0) = [''c'', ''e'']"
    "start_pipeline p0 0 = (Inr (), p1, 2)" "pipe_step\<^sup>*\<^sup>* p1 p"
    "n_submitted p = 1" "n_finished p = 0" "n_failed p = 0" "n_lost p = 0" "n_drained p = 0"
    using demo_started by force
  from frames_accounted [OF d(1,3,4)] d(2,5-) show ?thesis by auto
qed

subsection \<open>A failed start\<close>

text \<open>
  A start whose stage hook fails leaves the pipeline marked as running with no worker: the
  next start is refused as already running, and frames are accepted although nothing will ever
  process them.
\<close>

theorem failed_start_stays_running:
  assumes "\<not> p_running p" "p_queues p (p_entry p) \<noteq> None"
    and "call_until_failure (map (\<lambda>(i, nd). nd_start nd) (p_nodes p)) w = (Inl err, w')"
  shows "\<exists>p'. start_pipeline p w = (Inl err, p', w') \<and> p_workers p' = p_workers p \<and>
    (\<forall>w2. fst (start_pipeline p' w2) = Inl (ErrorInfo Pipeline_InvalidState ''Pipeline already running'')) \<and>
    (\<forall>x. has_value (fst (submit_frame x p')))"
  using assms by (simp add: start_pipeline_def submit_frame_def)

theorem failed_start_stays_running_witness:
  "\<exists>(p :: (nat, nat) pipeline) p' w'. load_pipeline demo_conv (demo_node (Inl (ErrorInfo Core_Unknown ''camera''))) (Inr demo_doc) = Inr p \<and>
     start_pipeline p 0 = (Inl (ErrorInfo Core_Unknown ''camera''), p', w') \<and> has_value (fst (submit_frame 7 p'))"
proof -
  let ?err = "ErrorInfo Core_Unknown ''camera''"
  obtain p :: "(nat, nat) pipeline" where p: "load_pipeline demo_conv (demo_node (Inl ?err)) (Inr demo_doc) = Inr p"
      "\<not> p_running p" "p_queues p (p_entry p) \<noteq> None"
      "call_until_failure (map (\<lambda>(i, nd). nd_start nd) (p_nodes p)) 0 = (Inl ?err, Suc 0)"
    using demo_loads [of "Inl ?err"] by fastforce
  from failed_start_stays_running [OF p(2-4)] p(1) show ?thesis by blast
qed

subsection \<open>The wiring does not deadlock\<close>

lemma same_stages: "map fst (ws[k := (fst (ws ! k), ph)]) = map fst ws"
proof (rule nth_equalityI)
  fix j assume "j < length (map fst (ws[k := (fst (ws ! k), ph)]))"
  then show "map fst (ws[k := (fst (ws ! k), ph)]) ! j = map fst ws ! j" by (cases "j = k") simp_all
qed simp

lemma static_fields [simp]:
  "map fst (p_workers (set_worker k ph p)) = map fst (p_workers p)"
  "p_downstreams (set_worker k ph p) = p_downstreams p"
  "p_downstreams (set_queue i pol q p) = p_downstreams p"
  "p_downstreams (update_metrics i f p) = p_downstreams p"
  "p_downstreams (note_queue d i p) = p_downstreams p"
  "p_stop (set_worker k ph p) = p_stop p" "p_stop (set_queue i pol q p) = p_stop p"
  "p_stop (update_metrics i f p) = p_stop p" "p_stop (note_queue d i p) = p_stop p"
  by (auto simp: set_worker_def set_queue_def update_metrics_def note_queue_def Let_def same_stages
      split: option.split)

lemma dequeue_static:
  "dequeue_input p i = Some (x, p') \<Longrightarrow>
   p_downstreams p' = p_downstreams p \<and> p_workers p' = p_workers p \<and> p_stop p' = p_stop p"
  by (auto simp: dequeue_input_def split: option.splits)

lemma enqueue_static:
  "enqueue_outputs p i y = Some (Passed p') \<Longrightarrow>
   p_downstreams p' = p_downstreams p \<and> p_workers p' = p_workers p \<and> p_stop p' = p_stop p"
  by (drule enqueue_outputs_Passed) auto

lemma submit_static: "submit_frame x p = (Inr (), p') \<Longrightarrow> p' = p\<lparr>p_submitting := p_submitting p @ [x]\<rparr>"
  by (auto simp: submit_frame_def split: if_splits)

lemma pipe_step_static:
  "pipe_step p p' \<Longrightarrow> p_downstreams p' = p_downstreams p \<and> map fst (p_workers p') = map fst (p_workers p)"
  by (erule pipe_step.cases) (auto dest: dequeue_static enqueue_static submit_static)

text \<open>A worker leaves its loop only after a stop request.\<close>

definition no_one_left :: "('w, 'd) pipeline \<Rightarrow> bool" where
  "no_one_left p \<longleftrightarrow> p_stop p \<or> (\<forall>wk \<in> set (p_workers p). snd wk \<noteq> Left)"

lemma no_one_left_update:
  "no_one_left p \<Longrightarrow> p_workers p1 = p_workers p \<Longrightarrow> p_stop p1 = p_stop p \<Longrightarrow> ph \<noteq> Left \<or> p_stop p \<Longrightarrow>
   no_one_left (set_worker k ph p1)"
  unfolding no_one_left_def set_worker_def by (auto dest!: subsetD [OF set_update_subset_insert])

lemma no_one_left_cong:
  "no_one_left p \<Longrightarrow> p_workers p' = p_workers p \<Longrightarrow> p_stop p' = p_stop p \<Longrightarrow> no_one_left p'"
  by (simp add: no_one_left_def)

lemma pipe_inv_queue_of:
  assumes "pipe_inv ids p" "i \<in> set ids"
  shows "\<exists>pol q. p_queues p i = Some (pol, q)"
proof -
  have "i \<in> dom (p_queues p)" using assms unfolding pipe_inv_def by blast
  then show ?thesis by auto
qed

lemma dequeue_stops:
  assumes "dequeue_input p i = Some (None, p')" "pipe_inv ids p" "i \<in> set ids"
  shows "p_stop p"
proof -
  obtain pol q where q: "p_queues p i = Some (pol, q)"
    using pipe_inv_queue_of [OF assms(2,3)] by blast
  have ok: "at_rest q" using pipe_inv_queue [OF assms(2) q] by (simp add: queue_ok_def)
  show ?thesis
  proof (cases "is_empty q")
    case True
    then show ?thesis using assms(1) q
      by (simp add: dequeue_input_def pop_blocking_with_stop_def split: if_splits)
  next
    case False
    then have "fst (try_pop q) \<noteq> None" using pop_at_rest(3) [OF ok] empty_at_rest [OF ok] by simp
    then show ?thesis using assms(1) q False
      by (auto simp: dequeue_input_def pop_blocking_with_stop_def split: prod.splits)
  qed
qed

lemma enqueue_gives_up: "enqueue_outputs p i y = Some GivenUp \<Longrightarrow> p_stop p"
  by (auto simp: enqueue_outputs_def push_blocking_with_stop_def split: list.splits option.splits if_splits)

lemma worker_stage:
  "map fst (p_workers p) = map fst ws \<Longrightarrow> k < length (p_workers p) \<Longrightarrow> p_workers p ! k = (i, ph) \<Longrightarrow>
   i \<in> set (map fst ws)"
  by (metis fst_conv in_set_conv_nth length_map nth_map)

lemma no_one_left_step:
  assumes "pipe_step p p'" "pipe_inv ids p" "no_one_left p" "set (map fst (p_workers p)) \<subseteq> set ids"
  shows "no_one_left p'"
  using assms(1)
proof cases
  case (submit x)
  then show ?thesis using assms(3) by (auto dest!: submit_static simp: no_one_left_def)
next
  case (push k pol q q')
  then show ?thesis by (intro no_one_left_cong [OF assms(3)]) simp_all
next
  case (take_input k i x p1 d)
  then have "no_one_left (set_worker k (Working x) p1)"
    using dequeue_static by (intro no_one_left_update [OF assms(3)]) auto
  then show ?thesis unfolding take_input(1) by (rule no_one_left_cong) simp_all
next
  case (leave k i p1)
  have "i \<in> set ids" using worker_stage [OF refl leave(2,3)] assms(4) by blast
  from dequeue_stops [OF leave(4) assms(2) this] show ?thesis
    unfolding leave(1) using dequeue_static [OF leave(4)] by (intro no_one_left_update [OF assms(3)]) auto
next
  case (process_ok k i x y)
  have "no_one_left (set_worker k (Emitting y) p)" by (intro no_one_left_update [OF assms(3)]) simp_all
  then show ?thesis unfolding process_ok(1) by (rule no_one_left_cong) simp_all
next
  case (process_fails k i x)
  have "no_one_left (set_worker k Ready p)" by (intro no_one_left_update [OF assms(3)]) simp_all
  then show ?thesis unfolding process_fails(1) by (rule no_one_left_cong) simp_all
next
  case (emit_last k i y)
  have "no_one_left (set_worker k Ready p)" by (intro no_one_left_update [OF assms(3)]) simp_all
  then show ?thesis unfolding emit_last(1) by (rule no_one_left_cong) simp_all
next
  case (emit k i y p1)
  then show ?thesis using enqueue_static [OF emit(4)] by (auto intro!: no_one_left_update [OF assms(3)])
next
  case (give_up k i y)
  have "no_one_left (set_worker k Left p)"
    using enqueue_gives_up [OF give_up(4)] by (intro no_one_left_update [OF assms(3)]) simp_all
  then show ?thesis unfolding give_up(1) by (rule no_one_left_cong) simp_all
next
  case request_stop
  then show ?thesis by (simp add: no_one_left_def)
next
  case (drain_one i pol q)
  then show ?thesis by (intro no_one_left_cong [OF assms(3)]) simp_all
qed

text \<open>What holds of every state a started pipeline reaches.\<close>

definition live_inv :: "string list \<Rightarrow> ('w, 'd) pipeline \<Rightarrow> ('w, 'd) pipeline \<Rightarrow> bool" where
  "live_inv ids p1 p \<longleftrightarrow> pipe_inv ids p \<and> no_one_left p \<and> p_downstreams p = p_downstreams p1 \<and>
     map fst (p_workers p) = map fst (p_workers p1)"

lemma reachable_live_inv:
  assumes "pipe_step\<^sup>*\<^sup>* p1 p" "live_inv ids p1 p1" "set (map fst (p_workers p1)) \<subseteq> set ids"
  shows "live_inv ids p1 p"
  using assms(1)
proof (induction rule: rtranclp_induct)
  case (step p p')
  from step.IH have i: "pipe_inv ids p" "no_one_left p" "p_downstreams p = p_downstreams p1"
      "map fst (p_workers p) = map fst (p_workers p1)"
    unfolding live_inv_def by blast+
  have "set (map fst (p_workers p)) \<subseteq> set ids" unfolding i(4) by (rule assms(3))
  from pipe_inv_step [OF step.hyps(2) i(1)] no_one_left_step [OF step.hyps(2) i(1,2) this]
    pipe_step_static [OF step.hyps(2)] show ?case
    unfolding live_inv_def i(3) [symmetric] i(4) [symmetric] by blast
qed (rule assms(2))

text \<open>A worker moves.\<close>

definition moves :: "('w, 'd) pipeline \<Rightarrow> bool" where
  "moves p \<longleftrightarrow> (\<exists>p'. pipe_step p p' \<and> p_workers p' \<noteq> p_workers p)"

lemma movesI:
  "pipe_step p p' \<Longrightarrow> p_workers p' = (p_workers p)[k := (i, ph)] \<Longrightarrow> k < length (p_workers p) \<Longrightarrow>
   p_workers p ! k = (i, ph0) \<Longrightarrow> ph0 \<noteq> ph \<Longrightarrow> moves p"
  unfolding moves_def by (rule exI [of _ p']) (metis Pair_inject nth_list_update_eq)

lemma busy_or_full_moves:
  assumes inv: "pipe_inv ids p" and stay: "no_one_left p" "\<not> p_stop p"
    and wf: "wf {(d, i). d \<in> set (p_downstreams p i)}"
    and staffed: "set ids \<subseteq> set (map fst (p_workers p))"
  shows "(\<exists>k < length (p_workers p). fst (p_workers p ! k) = i \<and> busy (snd (p_workers p ! k))) \<or>
    depth_at p i \<noteq> 0 \<Longrightarrow> moves p"
  using wf
proof (induction i)
  case (less i)
  have busy_moves: "moves p" if k: "k < length (p_workers p)" "p_workers p ! k = (i, ph)" "busy ph" for k ph
  proof (cases ph)
    case (Working x)
    show ?thesis
      by (rule movesI [where ph = "Emitting x" and i = i, OF process_ok [OF k(1), of i x x]]) (use k(1,2) Working in \<open>simp add: set_worker_def\<close>)+
  next
    case (Emitting y)
    note e = k(2) [unfolded Emitting]
    show ?thesis
    proof (cases "enqueue_outputs p i y")
      case None
      then have "\<exists>d pol q. d \<in> set (p_downstreams p i) \<and> p_queues p d = Some (pol, q) \<and> is_full q"
        by (force simp: enqueue_outputs_def push_blocking_with_stop_def
            split: list.splits option.splits if_splits)
      then obtain d pol q where d: "d \<in> set (p_downstreams p i)" "p_queues p d = Some (pol, q)" "is_full q"
        by blast
      have "depth q \<noteq> 0"
        using pipe_inv_queue [OF inv d(2)] full_at_rest [of q] d(3) by (simp add: queue_ok_def)
      then have "depth_at p d \<noteq> 0" using d(2) by (simp add: depth_at_def)
      then show ?thesis using less.IH [of d] d(1) by blast
    next
      case (Some r)
      show ?thesis
      proof (cases r)
        case Consumed
        show ?thesis
          by (rule movesI [where ph = Ready and i = i, OF emit_last [OF k(1) e Some [unfolded Consumed]]])
            (use k(1,2) Emitting in \<open>simp add: set_worker_def\<close>)+
      next
        case (Passed p1)
        show ?thesis
          by (rule movesI [where ph = Ready and i = i, OF emit [OF k(1) e Some [unfolded Passed]]])
            (use k(1,2) Emitting enqueue_static [OF Some [unfolded Passed]] in \<open>simp add: set_worker_def\<close>)+
      next
        case GivenUp
        from enqueue_gives_up [OF Some [unfolded GivenUp]] stay(2) show ?thesis by contradiction
      qed
    qed
  qed (use k(3) in \<open>simp_all add: busy_def\<close>)
  show ?case
  proof (cases "\<exists>k < length (p_workers p). fst (p_workers p ! k) = i \<and> busy (snd (p_workers p ! k))")
    case True
    then show ?thesis using busy_moves by (metis prod.collapse)
  next
    case False
    then have d: "depth_at p i \<noteq> 0" using less.prems by blast
    then obtain pol q where q: "p_queues p i = Some (pol, q)" "depth q \<noteq> 0"
      by (auto simp: depth_at_def split: option.splits)
    have ok: "at_rest q" using pipe_inv_queue [OF inv q(1)] by (simp add: queue_ok_def)
    have "i \<in> set (map fst (p_workers p))" using pipe_inv_ids [OF inv q(1)] staffed by blast
    then obtain k where k: "k < length (p_workers p)" "fst (p_workers p ! k) = i"
      by (auto simp: in_set_conv_nth)
    obtain ph where ph: "p_workers p ! k = (i, ph)" using k(2) by (cases "p_workers p ! k") simp
    have "ph \<noteq> Left" using stay k(1) ph unfolding no_one_left_def by (metis nth_mem snd_conv)
    moreover have "\<not> busy ph" using False k(1) ph by fastforce
    ultimately have r: "p_workers p ! k = (i, Ready)" using ph by (cases ph) (simp_all add: busy_def)
    obtain x q' where x: "try_pop q = (Some x, q')"
      using pop_at_rest(3) [OF ok q(2)] by (cases "try_pop q") auto
    then have "dequeue_input p i = Some (Some x, set_queue i pol q' p)"
      using q empty_at_rest [OF ok] by (simp add: dequeue_input_def pop_blocking_with_stop_def)
    from movesI [where ph = "Working x" and i = i, OF take_input [OF k(1) r this, of 0]] show ?thesis
      using k(1) r by (simp add: set_worker_def)
  qed
qed

lemma queued_or_held:
  assumes "0 < queued ids p + held p"
  shows "\<exists>i. (\<exists>k < length (p_workers p). fst (p_workers p ! k) = i \<and> busy (snd (p_workers p ! k))) \<or>
    depth_at p i \<noteq> 0"
proof (cases "held p = 0")
  case True
  then have "\<exists>i \<in> set ids. depth_at p i \<noteq> 0"
    using assms by (auto simp: queued_def zero_less_iff_neq_zero simp del: neq0_conv)
  then show ?thesis by blast
next
  case False
  then have "\<exists>wk \<in> set (p_workers p). busy (snd wk)" by (auto simp: held_def filter_empty_conv)
  then show ?thesis by (metis in_set_conv_nth)
qed

lemma successors_wf:
  assumes "acyclic (dependency_rel ss)"
  shows "wf {(d, i). d \<in> set (successors ss i)}"
proof -
  have "{(d, i). d \<in> set (successors ss i)} = (dependency_rel ss)\<inverse>"
    by (auto simp: successors_edges dependency_rel_def image_iff)
  moreover have "finite (dependency_rel ss)" by (simp add: dependency_rel_def)
  ultimately show ?thesis using finite_acyclic_wf_converse assms by metis
qed

lemma launch_staffed:
  assumes "\<forall>(i, nd) \<in> set (p_nodes p). 0 < stage_threads p nd"
  shows "set (map fst (launch p)) = set (map fst (p_nodes p))"
proof -
  have "set (map fst (launch p)) = {i. \<exists>nd. (i, nd) \<in> set (p_nodes p) \<and> 0 < stage_threads p nd}"
    by (force simp: launch_def)
  also have "\<dots> = set (map fst (p_nodes p))" using assms by force
  finally show ?thesis .
qed

text \<open>
  The wiring cannot deadlock: in every state that a loaded and started pipeline reaches before a stop is
  requested, as long as a frame is queued or held by a worker, the wait condition of some worker
  is false, provided that the pool of every stage has a thread. Whether that worker is woken is
  a matter of the condition variable of its queue.
\<close>

theorem no_deadlock:
  assumes "load_pipeline cv init doc = Inr p0" "start_pipeline p0 w = (Inr (), p1, w')"
    and "\<forall>(i, nd) \<in> set (p_nodes p0). 0 < stage_threads p0 nd"
    and "pipe_step\<^sup>*\<^sup>* p1 p" "\<not> p_stop p"
    and "0 < queued (map fst (p_nodes p0)) p + held p"
  shows "\<exists>p'. pipe_step p p' \<and> p_workers p' \<noteq> p_workers p"
proof -
  let ?ids = "map fst (p_nodes p0)"
  from load_pipeline_wired [OF assms(1)] obtain cfg where
    cfg: "valid_pipeline cfg" "p_downstreams p0 = successors (stages cfg)" by blast
  note p1 = start_pipeline_ok [OF assms(2)]
  have workers: "set (map fst (p_workers p1)) = set ?ids"
    using launch_staffed [OF assms(3)] by (simp add: p1)
  have "no_one_left p1" by (auto simp: p1 no_one_left_def launch_def)
  then have "live_inv ?ids p1 p1"
    using started_inv [OF assms(1,2)] unfolding live_inv_def by blast
  from reachable_live_inv [OF assms(4) this] workers
  have p: "pipe_inv ?ids p" "no_one_left p" "p_downstreams p = p_downstreams p1"
      "map fst (p_workers p) = map fst (p_workers p1)"
    unfolding live_inv_def by blast+
  have "acyclic (dependency_rel (stages cfg))" using cfg(1) by (simp add: valid_pipeline_def Let_def)
  then have "wf {(d, i). d \<in> set (p_downstreams p i)}"
    unfolding p(3) using successors_wf cfg(2) by (simp add: p1)
  moreover have "set ?ids \<subseteq> set (map fst (p_workers p))" unfolding p(4) using workers by blast
  ultimately have "moves p"
    using busy_or_full_moves [OF p(1,2) assms(5)] queued_or_held [OF assms(6)] by blast
  then show ?thesis by (simp add: moves_def)
qed

theorem no_deadlock_witness:
  "\<exists>(p :: (nat, nat) pipeline) p'. n_submitted p = 1 \<and> pipe_step p p' \<and> p_workers p' \<noteq> p_workers p"
proof -
  obtain p0 p1 p :: "(nat, nat) pipeline" where d:
    "load_pipeline demo_conv (demo_node (Inr ())) (Inr demo_doc) = Inr p0"
    "\<forall>(i, nd) \<in> set (p_nodes p0). 0 < stage_threads p0 nd"
    "start_pipeline p0 0 = (Inr (), p1, 2)" "pipe_step\<^sup>*\<^sup>* p1 p" "\<not> p_stop p"
    "n_submitted p = 1" "n_finished p = 0" "n_failed p = 0" "n_lost p = 0" "n_drained p = 0"
    using demo_started by force
  from pipe_inv_count [OF reachable_pipe_inv [OF d(4) started_inv [OF d(1,3)]]] d(6-)
  have "0 < queued (map fst (p_nodes p0)) p + held p" by linarith
  from no_deadlock [OF d(1,3,2,4,5) this] d(6) show ?thesis by blast
qed

end
