(* ===== verification/Stage_Metrics.thy ===== *)
theory Stage_Metrics
  imports Doubles Pipeline_Builder
begin

text \<open>
  What a worker thread of the pipeline records around \<open>Process\<close> (\<open>src/pipeline/pipeline.cpp\<close>): the
  latency reservoir with its 99th percentile, and the side channels that carry the image and the
  anomaly scores of a frame to the export stage.
\<close>

subsection \<open>The latency reservoir\<close>

text \<open>
  The reservoir is local to its thread. Latencies are finite doubles, of which only the linear
  order matters.
\<close>

record 'a reservoir =
  samples :: "'a list"
  reservoir_idx :: nat
  reservoir_count :: nat

definition new_reservoir :: "'a \<Rightarrow> 'a reservoir" where
  "new_reservoir z = \<lparr>samples = replicate 100 z, reservoir_idx = 0, reservoir_count = 0\<rparr>"

definition add_latency :: "'a \<Rightarrow> 'a reservoir \<Rightarrow> 'a reservoir" where
  "add_latency x r =
     r\<lparr>samples := (samples r)[reservoir_idx r mod 100 := x], reservoir_idx := reservoir_idx r + 1,
       reservoir_count := (if reservoir_count r < 100 then reservoir_count r + 1 else reservoir_count r)\<rparr>"

definition truncated :: "dbl \<Rightarrow> nat" where
  "truncated d = nat \<lfloor>fval d\<rfloor>"

definition p99_index :: "nat \<Rightarrow> nat" where
  "p99_index c =
     (let i = truncated (d_mul (d_of_nat c) (d_lit (99 / 100))) in if c \<le> i then c - 1 else i)"

definition p99_latency :: "'a :: linorder reservoir \<Rightarrow> 'a" where
  "p99_latency r = sort (take (reservoir_count r) (samples r)) ! p99_index (reservoir_count r)"

lemma literal_099: "d_lit (99 / 100) = Fin False (8917127262193582 / 9007199254740992)"
proof -
  have i: "ilog2 (99 / 100) = -1" by (rule ilog2_eqI) (simp_all add: pow2_def)
  have "\<lfloor>(99 / 100) / pow2 (-53)\<rfloor> = 8917127262193582" by (rule floor_unique) (simp_all add: pow2_def)
  moreover have "(99 / 100) / pow2 (-53) = 222928181554839552 / 25" by (simp add: pow2_def)
  ultimately have "round_even ((99 / 100) / pow2 (-53)) = 8917127262193582" by (simp add: round_even_def Let_def)
  then have "rounded (99 / 100) = 8917127262193582 / 9007199254740992"
    unfolding rounded_def i Let_def by (simp add: pow2_def)
  moreover have "8917127262193582 / 9007199254740992 < pow2 0" "pow2 0 < pow2 1024"
    by (simp add: pow2_def) (simp only: pow2_less_iff)
  ultimately show ?thesis
    by (simp add: d_lit_def round_rat_def round_binary64 del: pow2_0)
qed

lemma rounded_99: "rounded (891712726219358200 / 9007199254740992) = 99"
proof -
  let ?q = "891712726219358200 / 9007199254740992 :: rat"
  have i: "ilog2 ?q = 6" by (rule ilog2_eqI) (simp_all add: pow2_def)
  have "\<lfloor>?q / pow2 (-46)\<rfloor> = 6966505673588735" by (rule floor_unique) (simp_all add: pow2_def)
  moreover have "?q / pow2 (-46) = 111464090777419775 / 16" by (simp add: pow2_def)
  ultimately have "round_even (?q / pow2 (-46)) = 6966505673588736" by (simp add: round_even_def Let_def)
  then show ?thesis unfolding rounded_def i Let_def by (simp add: pow2_def)
qed

lemma p99_index_is_last:
  assumes "0 < c" "c \<le> 100"
  shows "p99_index c = c - 1"
proof -
  define q where "q = of_nat c * (8917127262193582 / 9007199254740992 :: rat)"
  have "c < 2 ^ 53" using assms(2) by simp
  then have mul: "d_mul (d_of_nat c) (d_lit (99 / 100)) = round_fmt binary64 False q"
    by (simp add: d_of_nat_exact literal_099 q_def)
  have c: "1 \<le> (of_nat c :: rat)" "(of_nat c :: rat) \<le> 100"
    using assms of_nat_le_iff [of 1 c, where 'a = rat] of_nat_le_iff [of c 100, where 'a = rat] by simp_all
  have pos: "0 < q" using c by (simp add: q_def)
  have e: "q \<le> pow2 7" using c by (simp add: q_def pow2_def)
  have "of_int (int c - 1) \<le> rounded q \<and> rounded q < of_int (int c)"
  proof (cases "c = 100")
    case True
    then have "rounded q = 99" using rounded_99 by (simp add: q_def)
    then show ?thesis using True by simp
  next
    case False
    then have "c \<le> 99" using assms(2) by simp
    then have c99: "(of_nat c :: rat) \<le> 99" using of_nat_le_iff [of c 99, where 'a = rat] by simp
    have lo: "of_int (int c - 1) * pow2 0 \<le> q" using c99 by (simp add: q_def)
    have "q \<le> of_int (1024 * int c - 1) * pow2 (-10)" using c by (simp add: q_def pow2_def)
    then have "rounded q \<le> of_int (1024 * int c - 1) * pow2 (-10)"
      by (rule rounded_grid(2) [OF pos e, rotated -1]) simp_all
    also have "\<dots> < of_int (int c)" by (simp add: pow2_def)
    finally show ?thesis using rounded_grid(1) [OF pos e _ _ lo] by simp
  qed
  note bounds = this
  have "of_int (int c) \<le> pow2 7" using c by (simp add: pow2_def)
  moreover have "pow2 7 < pow2 1024" by (simp only: pow2_less_iff)
  ultimately have "rounded q < pow2 1024" using bounds by linarith
  then have "d_mul (d_of_nat c) (d_lit (99 / 100)) = Fin False (rounded q)" "\<lfloor>rounded q\<rfloor> = int c - 1"
    using round_binary64 [OF pos] bounds by (auto simp: mul floor_eq_iff)
  then show ?thesis using assms(1) by (simp add: p99_index_def truncated_def Let_def nat_diff_distrib)
qed

subsection \<open>What the reservoir holds\<close>

lemma add_latency_fields:
  "samples (add_latency x r) = (samples r)[reservoir_idx r mod 100 := x]"
  "reservoir_idx (add_latency x r) = reservoir_idx r + 1"
  "reservoir_count (add_latency x r) = (if reservoir_count r < 100 then reservoir_count r + 1 else reservoir_count r)"
  by (simp_all add: add_latency_def)

lemma reservoir_after:
  fixes xs :: "'a list" and z :: 'a
  defines "r \<equiv> fold add_latency xs (new_reservoir z)"
  shows "length (samples r) = 100" "reservoir_idx r = length xs" "reservoir_count r = min (length xs) 100"
    "\<And>i. i < length xs \<Longrightarrow> length xs \<le> i + 100 \<Longrightarrow> samples r ! (i mod 100) = xs ! i"
proof -
  have "length (samples r) = 100 \<and> reservoir_idx r = length xs \<and> reservoir_count r = min (length xs) 100 \<and>
    (\<forall>i < length xs. length xs \<le> i + 100 \<longrightarrow> samples r ! (i mod 100) = xs ! i)"
    unfolding r_def
  proof (induction xs rule: rev_induct)
    case Nil
    then show ?case by (simp add: new_reservoir_def)
  next
    case (snoc x xs)
    let ?r = "fold add_latency xs (new_reservoir z)"
    have step: "samples (add_latency x ?r) = (samples ?r)[length xs mod 100 := x]"
        "reservoir_idx (add_latency x ?r) = length (xs @ [x])"
        "reservoir_count (add_latency x ?r) = min (length (xs @ [x])) 100"
      using snoc by (simp_all add: add_latency_fields)
    have "(samples ?r)[length xs mod 100 := x] ! (i mod 100) = (xs @ [x]) ! i"
      if "i < length (xs @ [x])" "length (xs @ [x]) \<le> i + 100" for i
    proof (cases "i = length xs")
      case True
      then show ?thesis using snoc by simp
    next
      case False
      then have i: "i < length xs" "length xs < i + 100" using that by simp_all
      then have "i mod 100 \<noteq> length xs mod 100"
        using mod_eq_dvd_iff_nat [of i "length xs" 100] by (auto dest: dvd_imp_le)
      then show ?thesis using snoc i by (simp add: nth_append)
    qed
    then show ?case unfolding fold_append fold.simps o_apply id_apply step using snoc by simp
  qed
  then show "length (samples r) = 100" "reservoir_idx r = length xs" "reservoir_count r = min (length xs) 100"
    "\<And>i. i < length xs \<Longrightarrow> length xs \<le> i + 100 \<Longrightarrow> samples r ! (i mod 100) = xs ! i" by blast+
qed

lemma set_drop_nth: "set (drop n xs) = {xs ! i | i. i < length xs \<and> n \<le> i}"
proof (intro set_eqI iffI)
  fix y assume "y \<in> set (drop n xs)"
  then obtain k where k: "k < length xs - n" "y = drop n xs ! k" by (auto simp: in_set_conv_nth)
  then show "y \<in> {xs ! i | i. i < length xs \<and> n \<le> i}"
    by (intro CollectI exI [of _ "n + k"]) simp
next
  fix y assume "y \<in> {xs ! i | i. i < length xs \<and> n \<le> i}"
  then obtain i where i: "i < length xs" "n \<le> i" "y = xs ! i" by blast
  then have "y = drop n xs ! (i - n)" "i - n < length (drop n xs)" by simp_all
  then show "y \<in> set (drop n xs)" using nth_mem by blast
qed

lemma reservoir_set:
  "set (take (min (length xs) 100) (samples (fold add_latency xs (new_reservoir z)))) = set (drop (length xs - 100) xs)"
  (is "set (take ?c (samples ?r)) = _")
proof -
  note r = reservoir_after [where xs = xs and z = z]
  have "set (take ?c (samples ?r)) = {take ?c (samples ?r) ! k | k. k < length (take ?c (samples ?r))}"
    by (rule set_conv_nth)
  also have "\<dots> = {samples ?r ! k | k. k < ?c}"
    using r(1) by (intro Collect_cong ex_cong1) auto
  also have "\<dots> = {xs ! i | i. i < length xs \<and> length xs - 100 \<le> i}"
  proof (intro set_eqI iffI)
    fix y assume "y \<in> {samples ?r ! k | k. k < ?c}"
    then obtain k where k: "k < ?c" "y = samples ?r ! k" by blast
    define m where "m = (length xs - 1 - k) div 100"
    have "length xs - 1 - k = m * 100 + (length xs - 1 - k) mod 100" by (simp only: m_def div_mult_mod_eq)
    moreover have "(length xs - 1 - k) mod 100 < 100" by simp
    moreover have "k < length xs" using k(1) by simp
    ultimately have i: "k + 100 * m < length xs" "length xs \<le> k + 100 * m + 100" by linarith+
    have "(k + 100 * m) mod 100 = k" using k(1) by simp
    then show "y \<in> {xs ! i | i. i < length xs \<and> length xs - 100 \<le> i}"
      using r(4) [OF i] i k(2) by (intro CollectI exI [of _ "k + 100 * m"]) simp
  next
    fix y assume "y \<in> {xs ! i | i. i < length xs \<and> length xs - 100 \<le> i}"
    then obtain i where i: "i < length xs" "length xs - 100 \<le> i" "y = xs ! i" by blast
    have "i mod 100 < ?c" using i(1) by (auto simp: min_def intro: le_less_trans [OF mod_less_eq_dividend])
    then show "y \<in> {samples ?r ! k | k. k < ?c}"
      using r(4) [OF i(1)] i(2,3) by (intro CollectI exI [of _ "i mod 100"]) simp
  qed
  also have "\<dots> = set (drop (length xs - 100) xs)"
    by (rule set_drop_nth [symmetric])
  finally show ?thesis .
qed

lemma sort_last_Max:
  assumes "ys \<noteq> []"
  shows "sort ys ! (length ys - 1) = Max (set ys)"
proof -
  have "sort ys ! (length ys - 1) \<in> set ys"
  proof -
    have "length ys - 1 < length (sort ys)" using assms by simp
    from nth_mem [OF this] show ?thesis unfolding set_sort .
  qed
  moreover have "y \<le> sort ys ! (length ys - 1)" if "y \<in> set ys" for y
  proof -
    have "y \<in> set (sort ys)" using that by simp
    then obtain k where k: "k < length (sort ys)" "sort ys ! k = y" unfolding in_set_conv_nth by blast
    have "k \<le> length ys - 1" "length ys - 1 < length (sort ys)" using k(1) by simp_all
    from sorted_nth_mono [OF sorted_sort this] show ?thesis unfolding k(2) .
  qed
  ultimately show ?thesis by (intro Max_eqI [symmetric]) auto
qed

text \<open>
  The reported 99th percentile is the maximum of the last hundred latencies of the thread, for
  every number of samples: the product with \<open>0.99\<close>, rounded in double precision and truncated, is
  always the last index.
\<close>

theorem p99_is_maximum:
  fixes xs :: "'a :: linorder list"
  assumes "xs \<noteq> []"
  shows "p99_latency (fold add_latency xs (new_reservoir z)) = Max (set (drop (length xs - 100) xs))"
proof -
  let ?r = "fold add_latency xs (new_reservoir z)" and ?c = "min (length xs) 100"
  note r = reservoir_after [where xs = xs and z = z]
  have len: "length (take ?c (samples ?r)) = ?c" using r(1) by simp
  have c: "0 < ?c" "?c \<le> 100" using assms by auto
  have "p99_latency ?r = sort (take ?c (samples ?r)) ! (length (take ?c (samples ?r)) - 1)"
    unfolding p99_latency_def r(3) p99_index_is_last [OF c] len ..
  also have "\<dots> = Max (set (take ?c (samples ?r)))"
    using len c(1) by (intro sort_last_Max) (metis length_0_conv less_irrefl)
  finally show ?thesis unfolding reservoir_set .
qed

theorem p99_is_maximum_witness: "p99_latency (fold add_latency [3, 7, 5 :: nat] (new_reservoir 0)) = 7"
  using p99_is_maximum [of "[3, 7, 5 :: nat]" 0] by simp

subsection \<open>Side channels\<close>

text \<open>
  The message between stages: its type tag with what the worker reads of it. A surface image is
  its bytes and its meta data, a detection result its anomaly scores with the grid and the rest.
\<close>

datatype ('m, 'f, 'd, 'r) stage_data =
    Empty
  | RawImage
  | SurfaceImage "8 word list" 'm
  | Embedding
  | Detection "'f list" nat nat 'd
  | RuleOutput
  | Reasoning 'r

definition data_index :: "('m, 'f, 'd, 'r) stage_data \<Rightarrow> int" where
  "data_index x = (case x of Empty \<Rightarrow> -1 | RawImage \<Rightarrow> 0 | SurfaceImage _ _ \<Rightarrow> 1 | Embedding \<Rightarrow> 2
     | Detection _ _ _ _ \<Rightarrow> 3 | RuleOutput \<Rightarrow> 4 | Reasoning _ \<Rightarrow> 6)"

record ('m, 'f) side_channels =
  frame_image :: "(8 word list \<times> 'm) option"
  anomaly :: "('f list \<times> nat \<times> nat) option"
  frame_counter :: "32 word"

datatype ('d, 'r) callback = DetectionSeen 'd | ResultSeen "32 word" 'r

definition set_frame_image :: "8 word list \<Rightarrow> 'm \<Rightarrow> ('m, 'f) side_channels \<Rightarrow> ('m, 'f) side_channels" where
  "set_frame_image bytes meta ch = (if bytes = [] then ch else ch\<lparr>frame_image := Some (bytes, meta)\<rparr>)"

definition take_frame_image :: "('m, 'f) side_channels \<Rightarrow> (8 word list \<times> 'm) option \<times> ('m, 'f) side_channels" where
  "take_frame_image ch = (frame_image ch, ch\<lparr>frame_image := None\<rparr>)"

definition set_anomaly_scores :: "'f list \<Rightarrow> nat \<Rightarrow> nat \<Rightarrow> ('m, 'f) side_channels \<Rightarrow> ('m, 'f) side_channels" where
  "set_anomaly_scores scores h w ch = ch\<lparr>anomaly := Some (scores, h, w)\<rparr>"

definition take_anomaly_scores ::
    "('m, 'f) side_channels \<Rightarrow> ('f list \<times> nat \<times> nat) option \<times> ('m, 'f) side_channels" where
  "take_anomaly_scores ch = (anomaly ch, ch\<lparr>anomaly := None\<rparr>)"

text \<open>
  What a worker does with the result of \<open>Process\<close> before it passes it on; the flags tell which
  callbacks are set.
\<close>

definition publish_result :: "bool \<Rightarrow> bool \<Rightarrow> stage_type \<Rightarrow> ('m, 'f, 'd, 'r) stage_data \<Rightarrow>
    ('m, 'f) side_channels \<Rightarrow> ('d, 'r) callback list \<times> ('m, 'f) side_channels" where
  "publish_result detection_cb result_cb t x ch =
     (case (t, x) of
        (Preprocess, SurfaceImage bytes meta) \<Rightarrow> ([], set_frame_image bytes meta ch)
      | (Detect, Detection scores h w d) \<Rightarrow>
          (if detection_cb then [DetectionSeen d] else [],
           if scores = [] then ch else set_anomaly_scores scores h w ch)
      | (Export, Reasoning r) \<Rightarrow>
          (if result_cb
           then ([ResultSeen (frame_counter ch) r], ch\<lparr>frame_counter := frame_counter ch + 1\<rparr>)
           else ([], ch))
      | _ \<Rightarrow> ([], ch))"

text \<open>
  The image channel holds one image: when a second frame leaves the preprocessing before the
  first one is exported, the export of the first frame gets the image of the second, and the
  export of the second gets none.
\<close>

lemma frame_image_overwritten:
  assumes "b1 \<noteq> []" "b2 \<noteq> []"
  shows "let ch1 = snd (publish_result dc rc Preprocess (SurfaceImage b1 m1) ch);
             ch2 = snd (publish_result dc rc Preprocess (SurfaceImage b2 m2) ch1);
             (first, ch3) = take_frame_image ch2; (second, ch4) = take_frame_image ch3
         in first = Some (b2, m2) \<and> second = None"
  using assms by (simp add: publish_result_def set_frame_image_def take_frame_image_def)

text \<open>Frame numbers count the results that were reported, and nothing else.\<close>

lemma frame_counter_counts:
  "frame_counter (snd (publish_result dc rc t x ch)) =
     frame_counter ch + (if rc \<and> t = Export \<and> data_index x = 6 then 1 else 0)"
  by (cases t; cases x) (simp_all add: publish_result_def set_frame_image_def set_anomaly_scores_def data_index_def)

end
