(* ===== verification/Stage_Monitor.thy ===== *)
theory Stage_Monitor
  imports Ring_Buffers
begin

text \<open>
  The stage queue with several threads (\<open>include/sai/pipeline/stage_queue.h\<close>): the monitor of its blocking
  operations, a mutex with one condition variable on which the producers and the consumers wait
  together and of which every operation wakes one waiter, and the ring with a second consumer,
  which is what \<open>Pipeline::Drain\<close> is when it pops without the mutex.
\<close>

subsection \<open>The monitor\<close>

text \<open>
  The calls: \<open>PushBlockingWithStop\<close>, \<open>PushBlocking\<close> (of \<open>Submit\<close>) and \<open>PopBlockingWithStop\<close>. A thread is outside, is
  about to take the mutex and look at its condition (on entry, or after it was woken), or waits.
\<close>

datatype 'a call = Push_Call 'a | Submit_Call 'a | Pop_Call

datatype 'a mode = Outside | Entering "'a call" | Waiting "'a call"

datatype role = Producer | Consumer

record 'a monitor =
  mn_queue :: "'a spsc"
  mn_stop :: bool
  mn_threads :: "(role \<times> 'a mode) list"

definition new_monitor :: "nat \<Rightarrow> role list \<Rightarrow> 'a monitor" where
  "new_monitor n rs = \<lparr>mn_queue = new_spsc n, mn_stop = False, mn_threads = map (\<lambda>r. (r, Outside)) rs\<rparr>"

definition may_call :: "role \<Rightarrow> 'a call \<Rightarrow> bool" where
  "may_call r c \<longleftrightarrow> (case c of Pop_Call \<Rightarrow> r = Consumer | _ \<Rightarrow> r = Producer)"

definition stoppable :: "'a call \<Rightarrow> bool" where
  "stoppable c \<longleftrightarrow> (case c of Submit_Call _ \<Rightarrow> False | _ \<Rightarrow> True)"

text \<open>One passage through the mutex. \<open>None\<close>: the condition does not hold and the thread waits. The flag says whether
  the ring was changed, in which case one waiter is notified.\<close>

definition attempt :: "backpressure \<Rightarrow> bool \<Rightarrow> 'a call \<Rightarrow> 'a spsc \<Rightarrow> (bool \<times> 'a spsc) option" where
  "attempt policy stop c q =
     (case c of
        Push_Call x \<Rightarrow> push_blocking_with_stop policy stop x q
      | Submit_Call x \<Rightarrow> map_option (\<lambda>q'. (True, q')) (push_blocking policy x q)
      | Pop_Call \<Rightarrow> map_option (\<lambda>(r, q'). (\<not> is_empty q, q')) (pop_blocking_with_stop stop q))"

definition put_mode :: "nat \<Rightarrow> 'a mode \<Rightarrow> 'a monitor \<Rightarrow> 'a monitor" where
  "put_mode k md m = m\<lparr>mn_threads := (mn_threads m)[k := (fst (mn_threads m ! k), md)]\<rparr>"

definition wake :: "'a mode \<Rightarrow> 'a mode" where
  "wake md = (case md of Waiting c \<Rightarrow> Entering c | _ \<Rightarrow> md)"

definition waiting :: "'a mode \<Rightarrow> bool" where
  "waiting md \<longleftrightarrow> (case md of Waiting _ \<Rightarrow> True | _ \<Rightarrow> False)"

text \<open>\<open>notify_one\<close>: some waiter, or nobody if nobody waits.\<close>

inductive notified :: "'a monitor \<Rightarrow> 'a monitor \<Rightarrow> bool" where
  some_waiter: "j < length (mn_threads m) \<Longrightarrow> snd (mn_threads m ! j) = Waiting c \<Longrightarrow> notified m (put_mode j (Entering c) m)"
| no_waiter: "\<forall>th \<in> set (mn_threads m). \<not> waiting (snd th) \<Longrightarrow> notified m m"

text \<open>The steps of the program. The callback of a stop request notifies all waiters; it is registered by the waiting
  calls that have a stop token.\<close>

inductive monitor_step :: "backpressure \<Rightarrow> 'a monitor \<Rightarrow> 'a monitor \<Rightarrow> bool" for policy where
  call: "k < length (mn_threads m) \<Longrightarrow> mn_threads m ! k = (r, Outside) \<Longrightarrow> may_call r c \<Longrightarrow>
    monitor_step policy m (put_mode k (Entering c) m)"
| act: "k < length (mn_threads m) \<Longrightarrow> snd (mn_threads m ! k) = Entering c \<Longrightarrow>
    attempt policy (mn_stop m) c (mn_queue m) = Some (True, q) \<Longrightarrow>
    notified ((put_mode k Outside m)\<lparr>mn_queue := q\<rparr>) m' \<Longrightarrow> monitor_step policy m m'"
| give_up: "k < length (mn_threads m) \<Longrightarrow> snd (mn_threads m ! k) = Entering c \<Longrightarrow>
    attempt policy (mn_stop m) c (mn_queue m) = Some (False, q) \<Longrightarrow>
    monitor_step policy m ((put_mode k Outside m)\<lparr>mn_queue := q\<rparr>)"
| wait: "k < length (mn_threads m) \<Longrightarrow> snd (mn_threads m ! k) = Entering c \<Longrightarrow>
    attempt policy (mn_stop m) c (mn_queue m) = None \<Longrightarrow>
    monitor_step policy m (put_mode k (Waiting c) m)"

inductive stop_request :: "'a monitor \<Rightarrow> 'a monitor \<Rightarrow> bool" where
  wake_all: "th \<in> set (mn_threads m) \<Longrightarrow> snd th = Waiting c \<Longrightarrow> stoppable c \<Longrightarrow>
    stop_request m (m\<lparr>mn_stop := True, mn_threads := map (\<lambda>(r, md). (r, wake md)) (mn_threads m)\<rparr>)"
| no_callback: "\<forall>th \<in> set (mn_threads m). \<forall>c. snd th = Waiting c \<longrightarrow> \<not> stoppable c \<Longrightarrow>
    stop_request m (m\<lparr>mn_stop := True\<rparr>)"

text \<open>The condition variable may also wake a waiter without any reason.\<close>

inductive spurious :: "'a monitor \<Rightarrow> 'a monitor \<Rightarrow> bool" where
  wake_up: "j < length (mn_threads m) \<Longrightarrow> snd (mn_threads m ! j) = Waiting c \<Longrightarrow> spurious m (put_mode j (Entering c) m)"

definition any_step :: "backpressure \<Rightarrow> 'a monitor \<Rightarrow> 'a monitor \<Rightarrow> bool" where
  "any_step policy m m' \<longleftrightarrow> monitor_step policy m m' \<or> stop_request m m' \<or> spurious m m'"

inductive_cases monitor_stepE: "monitor_step policy m m'"

inductive_cases notifiedE: "notified m m'"

lemma put_mode_simps [simp]:
  "mn_queue (put_mode k md m) = mn_queue m" "mn_stop (put_mode k md m) = mn_stop m"
  "length (mn_threads (put_mode k md m)) = length (mn_threads m)"
  "put_mode k md (m\<lparr>mn_queue := q\<rparr>) = (put_mode k md m)\<lparr>mn_queue := q\<rparr>"
  by (simp_all add: put_mode_def)

subsection \<open>Many threads: a wakeup can reach the wrong one\<close>

lemma ring_of_one:
  "is_empty (new_spsc (Suc 0))" "\<not> is_full (new_spsc (Suc 0))"
  by (simp_all add: is_empty_def is_full_def new_spsc_def next_slot_def)

definition one_item :: "'a \<Rightarrow> 'a spsc" where
  "one_item a = (new_spsc 1)\<lparr>buffer := [Some a, None], q_tail := 1, pushed := [a]\<rparr>"

definition one_passed :: "'a \<Rightarrow> 'a spsc" where
  "one_passed a = (one_item a)\<lparr>buffer := [None, None], q_head := 1, popped := [Some a]\<rparr>"

lemma one_item_ops:
  "attempt Block False (Push_Call a) (new_spsc 1) = Some (True, one_item a)"
  "attempt Block False Pop_Call (new_spsc 1) = None"
  "attempt Block False (Push_Call b) (one_item a) = None"
  "attempt Block False Pop_Call (one_item a) = Some (True, one_passed a)"
  "attempt Block False Pop_Call (one_passed a) = None"
  by (simp_all add: attempt_def push_blocking_with_stop_def pop_blocking_with_stop_def one_item_def one_passed_def
      is_full_def is_empty_def new_spsc_def next_slot_def try_push_def publish_def try_pop_def)

definition three :: "'a spsc \<Rightarrow> 'a mode \<Rightarrow> 'a mode \<Rightarrow> 'a mode \<Rightarrow> 'a monitor" where
  "three q p c d = \<lparr>mn_queue = q, mn_stop = False, mn_threads = [(Producer, p), (Consumer, c), (Consumer, d)]\<rparr>"

lemma put_mode_three:
  "put_mode 0 md (three q p c d) = three q md c d" "put_mode (Suc 0) md (three q p c d) = three q p md d"
  "put_mode (Suc (Suc 0)) md (three q p c d) = three q p c md"
  by (simp_all add: put_mode_def three_def)

lemma three_steps:
  "monitor_step Block (three q Outside c d) (three q (Entering (Push_Call a)) c d)"
  "monitor_step Block (three q p Outside d) (three q p (Entering Pop_Call) d)"
  "monitor_step Block (three q p c Outside) (three q p c (Entering Pop_Call))"
  using call [of 0 "three q Outside c d" Producer "Push_Call a" Block] call [of 1 "three q p Outside d" Consumer Pop_Call Block]
    call [of 2 "three q p c Outside" Consumer Pop_Call Block]
  unfolding put_mode_three One_nat_def numeral_2_eq_2 by (simp_all add: three_def may_call_def)

lemma three_waits:
  "attempt Block False e q = None \<Longrightarrow> monitor_step Block (three q (Entering e) c d) (three q (Waiting e) c d)"
  "attempt Block False e q = None \<Longrightarrow> monitor_step Block (three q p (Entering e) d) (three q p (Waiting e) d)"
  "attempt Block False e q = None \<Longrightarrow> monitor_step Block (three q p c (Entering e)) (three q p c (Waiting e))"
  using wait [of 0 "three q (Entering e) c d" e Block] wait [of 1 "three q p (Entering e) d" e Block]
    wait [of 2 "three q p c (Entering e)" e Block]
  unfolding put_mode_three One_nat_def numeral_2_eq_2 by (simp_all add: three_def)

lemma push_wakes_first:
  "attempt Block False e q = Some (True, q') \<Longrightarrow>
   monitor_step Block (three q (Entering e) (Waiting c) d) (three q' Outside (Entering c) d)"
  by (rule act [of 0 _ e _ q'], simp_all add: three_def)
    (use some_waiter [of 1 "three q' Outside (Waiting c) d" c] in \<open>simp add: three_def put_mode_def\<close>)

lemma pop_wakes_second:
  "attempt Block False e q = Some (True, q') \<Longrightarrow>
   monitor_step Block (three q p (Entering e) (Waiting c)) (three q' p Outside (Entering c))"
  by (rule act [of 1 _ e _ q'], simp_all add: three_def)
    (use some_waiter [of 2 "three q' p Outside (Waiting c)" c] in \<open>simp add: three_def put_mode_def numeral_2_eq_2\<close>)

lemma all_waiting_stuck:
  assumes "\<forall>th \<in> set (mn_threads m). waiting (snd th)"
  shows "\<not> monitor_step policy m m'"
proof
  have w: "waiting (snd (mn_threads m ! k))" if "k < length (mn_threads m)" for k using assms that by simp
  assume "monitor_step policy m m'"
  then show False by cases (use w in \<open>fastforce simp: waiting_def\<close>)+
qed

text \<open>
  C10 The shared condition variable can wake the wrong thread: in a queue of capacity one with one producer and two
  consumers, the program reaches a state in which all three threads wait, although no stop was
  requested, the ring is empty and the push of the producer would succeed; no step of the program
  leads out of it, so that the frame of the producer is stuck until a stop request or a spurious
  wakeup.
\<close>

theorem shared_condition_deadlock:
  "\<exists>m. (monitor_step Block)\<^sup>*\<^sup>* (new_monitor 1 [Producer, Consumer, Consumer]) m \<and>
     map snd (mn_threads m) = [Waiting (Push_Call b), Waiting Pop_Call, Waiting Pop_Call] \<and> \<not> mn_stop m \<and>
     is_empty (mn_queue m) \<and> pushed (mn_queue m) = [a] \<and> popped (mn_queue m) = [Some a] \<and>
     attempt Block False (Push_Call b) (mn_queue m) \<noteq> None \<and> (\<forall>policy m'. \<not> monitor_step policy m m')"
proof (intro exI conjI allI)
  let ?q = "new_spsc 1" and ?r = "one_item a" and ?s = "one_passed a"
  let ?W = "Waiting Pop_Call" and ?E = "Entering Pop_Call" and ?P = "Push_Call b"
  let ?m = "three ?s (Waiting ?P) ?W ?W"
  note ops = one_item_ops
  note [trans] = rtranclp.rtrancl_into_rtrancl
  have "(monitor_step Block)\<^sup>*\<^sup>* (three ?q Outside Outside Outside) (three ?q Outside Outside Outside)" by simp
  also have "monitor_step Block (three ?q Outside Outside Outside) (three ?q Outside ?E Outside)" by (rule three_steps(2))
  also have "monitor_step Block (three ?q Outside ?E Outside) (three ?q Outside ?W Outside)" by (rule three_waits(2) [OF ops(2)])
  also have "monitor_step Block (three ?q Outside ?W Outside) (three ?q Outside ?W ?E)" by (rule three_steps(3))
  also have "monitor_step Block (three ?q Outside ?W ?E) (three ?q Outside ?W ?W)" by (rule three_waits(3) [OF ops(2)])
  also have "monitor_step Block (three ?q Outside ?W ?W) (three ?q (Entering (Push_Call a)) ?W ?W)" by (rule three_steps(1))
  also have "monitor_step Block (three ?q (Entering (Push_Call a)) ?W ?W) (three ?r Outside ?E ?W)" by (rule push_wakes_first [OF ops(1)])
  also have "monitor_step Block (three ?r Outside ?E ?W) (three ?r (Entering ?P) ?E ?W)" by (rule three_steps(1))
  also have "monitor_step Block (three ?r (Entering ?P) ?E ?W) (three ?r (Waiting ?P) ?E ?W)" by (rule three_waits(1) [OF ops(3)])
  also have "monitor_step Block (three ?r (Waiting ?P) ?E ?W) (three ?s (Waiting ?P) Outside ?E)" by (rule pop_wakes_second [OF ops(4)])
  also have "monitor_step Block (three ?s (Waiting ?P) Outside ?E) (three ?s (Waiting ?P) Outside ?W)" by (rule three_waits(3) [OF ops(5)])
  also have "monitor_step Block (three ?s (Waiting ?P) Outside ?W) (three ?s (Waiting ?P) ?E ?W)" by (rule three_steps(2))
  also have "monitor_step Block (three ?s (Waiting ?P) ?E ?W) ?m" by (rule three_waits(2) [OF ops(5)])
  finally show "(monitor_step Block)\<^sup>*\<^sup>* (new_monitor 1 [Producer, Consumer, Consumer]) ?m"
    by (simp add: new_monitor_def three_def)
  show "map snd (mn_threads ?m) = [Waiting ?P, ?W, ?W]" "\<not> mn_stop ?m" by (simp_all add: three_def)
  show "is_empty (mn_queue ?m)" "pushed (mn_queue ?m) = [a]" "popped (mn_queue ?m) = [Some a]"
    by (simp_all add: three_def one_passed_def one_item_def is_empty_def new_spsc_def)
  show "attempt Block False ?P (mn_queue ?m) \<noteq> None"
    by (simp add: three_def attempt_def push_blocking_with_stop_def is_full_def one_passed_def one_item_def new_spsc_def next_slot_def)
  show "\<not> monitor_step policy ?m m'" for policy m' by (rule all_waiting_stuck) (simp add: three_def waiting_def)
qed

subsection \<open>One producer and one consumer\<close>

definition waits_for :: "'a spsc \<Rightarrow> 'a mode \<Rightarrow> bool" where
  "waits_for q md \<longleftrightarrow> (case md of Waiting Pop_Call \<Rightarrow> is_empty q | Waiting _ \<Rightarrow> is_full q | _ \<Rightarrow> True)"

definition mode_of :: "role \<Rightarrow> 'a mode \<Rightarrow> bool" where
  "mode_of r md \<longleftrightarrow> (case md of Outside \<Rightarrow> True | Entering c \<Rightarrow> may_call r c | Waiting c \<Rightarrow> may_call r c)"

definition pair_of :: "'a spsc \<Rightarrow> bool \<Rightarrow> 'a mode \<Rightarrow> 'a mode \<Rightarrow> 'a monitor" where
  "pair_of q s p c = \<lparr>mn_queue = q, mn_stop = s, mn_threads = [(Producer, p), (Consumer, c)]\<rparr>"

definition pair_ok :: "nat \<Rightarrow> 'a spsc \<Rightarrow> 'a mode \<Rightarrow> 'a mode \<Rightarrow> bool" where
  "pair_ok n q p c \<longleftrightarrow> at_rest q \<and> logical_capacity q = n \<and> mode_of Producer p \<and> mode_of Consumer c \<and>
     waits_for q p \<and> waits_for q c"

lemma mode_simps [simp]:
  "mode_of r Outside" "mode_of r (Entering e) = may_call r e" "mode_of r (Waiting e) = may_call r e"
  "waits_for q Outside" "waits_for q (Entering e)"
  by (simp_all add: mode_of_def waits_for_def)

lemma pair_of_inject [simp]:
  "pair_of q s p c = pair_of q' s' p' c' \<longleftrightarrow> q = q' \<and> s = s' \<and> p = p' \<and> c = c'"
  by (simp add: pair_of_def)

text \<open>What a passage through the mutex does to the ring.\<close>

lemma attempt_push:
  assumes "at_rest q" "may_call Producer c" "attempt policy stop c q = r"
  shows "(is_full q \<and> (r = None \<or> r = Some (False, q))) \<or>
    (\<exists>x. \<not> is_full q \<and> r = Some (True, publish x q) \<and> at_rest (publish x q) \<and> \<not> is_empty (publish x q) \<and>
       logical_capacity (publish x q) = logical_capacity q)"
proof (cases "is_full q")
  case True
  then show ?thesis using assms(2,3)
    by (cases c) (auto simp: attempt_def push_blocking_def push_blocking_with_stop_def may_call_def)
next
  case False
  then have "depth q < logical_capacity q" using full_at_rest [OF assms(1)] at_rest_indices(3) [OF assms(1)] by simp
  note p = publish_at_rest [OF assms(1) this]
  have ne: "\<not> is_empty (publish x q)" for x
    using empty_at_rest [OF p(1)] arg_cong [OF p(2), of length] by simp
  have "\<exists>x. r = Some (True, publish x q)" using False assms(2,3)
    by (cases c) (auto simp: attempt_def push_blocking_def push_blocking_with_stop_def try_push_def may_call_def)
  then show ?thesis using p(1) ne False by (auto simp: publish_def)
qed

lemma attempt_pop:
  assumes "at_rest q" "may_call Consumer c" "attempt policy stop c q = r"
  shows "(is_empty q \<and> (r = None \<or> r = Some (False, q))) \<or>
    (\<exists>q'. r = Some (True, q') \<and> at_rest q' \<and> \<not> is_full q' \<and> logical_capacity q' = logical_capacity q)"
proof -
  have c: "c = Pop_Call" using assms(2) by (cases c) (simp_all add: may_call_def)
  show ?thesis
  proof (cases "is_empty q")
    case True
    then show ?thesis using assms(3) by (auto simp: c attempt_def pop_blocking_with_stop_def split: if_splits)
  next
    case False
    then have "depth q \<noteq> 0" using empty_at_rest [OF assms(1)] by simp
    then obtain x xs where xs: "stage_contents q = x # xs" by (cases "stage_contents q") (use length_stage_contents [of q] in auto)
    note p = stage_ring.pop_some [OF assms(1) xs]
    have "depth (snd (try_pop q)) < depth q" using p arg_cong [OF xs, of length] length_stage_contents [of "snd (try_pop q)"] by simp
    then have "\<not> is_full (snd (try_pop q))"
      using full_at_rest [of "snd (try_pop q)"] p at_rest_indices(3) [OF assms(1)] by (simp add: try_pop_def split: if_splits)
    moreover have "logical_capacity (snd (try_pop q)) = logical_capacity q" by (simp add: try_pop_def)
    moreover have "r = Some (True, snd (try_pop q))"
      using False assms(3) by (simp add: c attempt_def pop_blocking_with_stop_def split_beta)
    ultimately show ?thesis using p by blast
  qed
qed

lemma pair_simps [simp]:
  "mn_queue (pair_of q s p c) = q" "mn_stop (pair_of q s p c) = s" "mn_threads (pair_of q s p c) = [(Producer, p), (Consumer, c)]"
  "put_mode 0 md (pair_of q s p c) = pair_of q s md c" "put_mode (Suc 0) md (pair_of q s p c) = pair_of q s p md"
  "(pair_of q s p c)\<lparr>mn_queue := q'\<rparr> = pair_of q' s p c" "(pair_of q s p c)\<lparr>mn_stop := t\<rparr> = pair_of q t p c"
  "(pair_of q s p c)\<lparr>mn_threads := [(Producer, p'), (Consumer, c')]\<rparr> = pair_of q s p' c'"
  by (simp_all add: pair_of_def put_mode_def)

lemma notified_pair:
  "notified (pair_of q s Outside c) m' \<Longrightarrow> m' = pair_of q s Outside (wake c)"
  "notified (pair_of q s p Outside) m' \<Longrightarrow> m' = pair_of q s (wake p) Outside"
  by (auto elim!: notifiedE simp: less_Suc_eq wake_def waiting_def split: mode.splits)

lemma mode_wake: "mode_of r md \<Longrightarrow> mode_of r (wake md)" "waits_for q (wake md)"
  by (auto simp: mode_of_def wake_def waits_for_def split: mode.split call.split)

lemma pair_monitor_step:
  assumes "monitor_step policy (pair_of q s p c) m'" "pair_ok n q p c"
  shows "\<exists>q' s' p' c'. m' = pair_of q' s' p' c' \<and> pair_ok n q' p' c'"
  using assms(1)
proof cases
  case (call k r e)
  then show ?thesis using assms(2)
    by (auto simp: less_Suc_eq pair_ok_def)
next
  case (act k e q1)
  consider (prod) "k = 0" "p = Entering e" | (cons) "k = 1" "c = Entering e" using act(1,2) by (auto simp: less_Suc_eq)
  then show ?thesis
  proof cases
    case prod
    then have m: "m' = pair_of q1 s Outside (wake c)" using act(4) notified_pair(1) by simp
    have e: "may_call Producer e" "at_rest q" using assms(2) prod by (simp_all add: pair_ok_def)
    from attempt_push [OF e(2,1) act(3) [unfolded pair_simps]] have "at_rest q1" "logical_capacity q1 = logical_capacity q" by auto
    then show ?thesis using m assms(2) mode_wake by (auto simp: pair_ok_def)
  next
    case cons
    then have m: "m' = pair_of q1 s (wake p) Outside" using act(4) notified_pair(2) by simp
    have e: "may_call Consumer e" "at_rest q" using assms(2) cons by (simp_all add: pair_ok_def)
    from attempt_pop [OF e(2,1) act(3) [unfolded pair_simps]] have "at_rest q1" "logical_capacity q1 = logical_capacity q" by auto
    then show ?thesis using m assms(2) mode_wake by (auto simp: pair_ok_def)
  qed
next
  case (give_up k e q1)
  consider (prod) "k = 0" "p = Entering e" | (cons) "k = 1" "c = Entering e" using give_up(2,3) by (auto simp: less_Suc_eq)
  then show ?thesis
  proof cases
    case prod
    have e: "may_call Producer e" "at_rest q" using assms(2) prod by (simp_all add: pair_ok_def)
    from attempt_push [OF e(2,1) give_up(4) [unfolded pair_simps]] have "q1 = q" by auto
    then show ?thesis using give_up(1) prod assms(2) by (auto simp: pair_ok_def)
  next
    case cons
    have e: "may_call Consumer e" "at_rest q" using assms(2) cons by (simp_all add: pair_ok_def)
    from attempt_pop [OF e(2,1) give_up(4) [unfolded pair_simps]] have "q1 = q" by auto
    then show ?thesis using give_up(1) cons assms(2) by (auto simp: pair_ok_def)
  qed
next
  case (wait k e)
  consider (prod) "k = 0" "p = Entering e" | (cons) "k = 1" "c = Entering e" using wait(2,3) by (auto simp: less_Suc_eq)
  then show ?thesis
  proof cases
    case prod
    have e: "may_call Producer e" "at_rest q" using assms(2) prod by (simp_all add: pair_ok_def)
    from attempt_push [OF e(2,1) wait(4) [unfolded pair_simps]] have "is_full q" by auto
    then show ?thesis using wait(1) prod assms(2) e(1)
      by (auto simp: pair_ok_def waits_for_def may_call_def split: call.splits)
  next
    case cons
    have e: "may_call Consumer e" "at_rest q" using assms(2) cons by (simp_all add: pair_ok_def)
    from attempt_pop [OF e(2,1) wait(4) [unfolded pair_simps]] have "is_empty q" by auto
    then show ?thesis using wait(1) cons assms(2) e(1)
      by (auto simp: pair_ok_def waits_for_def may_call_def split: call.splits)
  qed
qed

lemma pair_any_step:
  assumes "any_step policy (pair_of q s p c) m'" "pair_ok n q p c"
  shows "\<exists>q' s' p' c'. m' = pair_of q' s' p' c' \<and> pair_ok n q' p' c'"
proof -
  have "stop_request (pair_of q s p c) m' \<Longrightarrow> m' = pair_of q True (wake p) (wake c) \<or> m' = pair_of q True p c"
    by (auto elim!: stop_request.cases)
  moreover have "pair_ok n q (wake p) (wake c)" using assms(2) by (simp add: pair_ok_def mode_wake)
  ultimately have "stop_request (pair_of q s p c) m' \<Longrightarrow> ?thesis" using assms(2) by blast
  moreover have "spurious (pair_of q s p c) m' \<Longrightarrow> ?thesis"
    using assms(2) by (auto elim!: spurious.cases simp: less_Suc_eq pair_ok_def)
  ultimately show ?thesis using assms pair_monitor_step unfolding any_step_def by blast
qed

lemma pair_reachable:
  assumes "(any_step policy)\<^sup>*\<^sup>* (new_monitor n [Producer, Consumer]) m"
  shows "\<exists>q s p c. m = pair_of q s p c \<and> pair_ok n q p c"
  using assms
proof (induction rule: rtranclp_induct)
  case base
  have "new_monitor n [Producer, Consumer] = pair_of (new_spsc n) False Outside Outside"
    by (simp add: new_monitor_def pair_of_def)
  moreover have "pair_ok n (new_spsc n) Outside Outside"
    using new_spsc_at_rest(1) by (simp add: pair_ok_def) (simp add: new_spsc_def)
  ultimately show ?case by blast
qed (use pair_any_step in blast)

lemma notified_exists: "\<exists>m'. notified m m'"
proof (cases "\<exists>th \<in> set (mn_threads m). waiting (snd th)")
  case True
  then obtain j where j: "j < length (mn_threads m)" "waiting (snd (mn_threads m ! j))" by (metis in_set_conv_nth)
  then obtain c where "snd (mn_threads m ! j) = Waiting c" by (cases "snd (mn_threads m ! j)") (simp_all add: waiting_def)
  from some_waiter [OF j(1) this] show ?thesis by blast
qed (use no_waiter in blast)

lemma entering_steps:
  assumes "k < length (mn_threads m)" "snd (mn_threads m ! k) = Entering c"
  shows "\<exists>m'. monitor_step policy m m'"
proof (cases "attempt policy (mn_stop m) c (mn_queue m)")
  case None
  from wait [OF assms None] show ?thesis by blast
next
  case (Some r)
  obtain b q where r: "r = (b, q)" by fastforce
  obtain m' where n: "notified ((put_mode k Outside m)\<lparr>mn_queue := q\<rparr>) m'" using notified_exists by blast
  show ?thesis
  proof (cases b)
    case True
    have "attempt policy (mn_stop m) c (mn_queue m) = Some (True, q)" using Some r True by simp
    from act [OF assms this n] show ?thesis by blast
  next
    case False
    have "attempt policy (mn_stop m) c (mn_queue m) = Some (False, q)" using Some r False by simp
    from give_up [OF assms this] show ?thesis by blast
  qed
qed

text \<open>
  C11 With a single producer and a single consumer no wakeup is lost: in every state that the two threads reach,
  whatever stop requests and spurious wakeups happen, a waiting push means that the ring is full, a
  waiting pop that it is empty, so that they never both wait, and one of the threads can always
  take a step.
\<close>

theorem single_threads_never_stuck:
  fixes m :: "'a monitor"
  assumes "0 < n" "(any_step policy)\<^sup>*\<^sup>* (new_monitor n [Producer, Consumer]) m"
  shows "\<exists>p c. map snd (mn_threads m) = [p, c] \<and> (waiting p \<longrightarrow> depth (mn_queue m) = n) \<and>
    (waiting c \<longrightarrow> depth (mn_queue m) = 0) \<and> \<not> (waiting p \<and> waiting c) \<and> (\<exists>m'. monitor_step policy m m')"
proof -
  obtain q s p c where m: "m = pair_of q s p c" "pair_ok n q p c" using pair_reachable [OF assms(2)] by blast
  then have ok: "at_rest q" "logical_capacity q = n" "mode_of Producer p" "mode_of Consumer c" "waits_for q p" "waits_for q c"
    by (simp_all add: pair_ok_def)
  have full: "waiting p \<Longrightarrow> depth q = n" using ok full_at_rest [OF ok(1)]
    by (auto simp: waiting_def waits_for_def mode_of_def may_call_def split: mode.splits call.splits)
  have empty: "waiting c \<Longrightarrow> depth q = 0" using ok empty_at_rest [OF ok(1)]
    by (auto simp: waiting_def waits_for_def mode_of_def may_call_def split: mode.splits call.splits)
  have not_both: "\<not> (waiting p \<and> waiting c)" using full empty assms(1) by auto
  have mover: "\<exists>m'. monitor_step policy m m'" if "k < 2" "\<not> waiting (snd (mn_threads m ! k))" for k
  proof (cases "snd (mn_threads m ! k)")
    case Outside
    obtain r where r: "mn_threads m ! k = (r, Outside)" using Outside by (cases "mn_threads m ! k") simp
    have "may_call Producer (Push_Call (undefined :: 'a))" "may_call Consumer (Pop_Call :: 'a call)" by (simp_all add: may_call_def)
    then obtain e :: "'a call" where "may_call r e" by (cases r) blast+
    from call [where k = k and m = m, OF _ r this] show ?thesis using that(1) m(1) by auto
  next
    case (Entering e)
    from entering_steps [OF _ this] show ?thesis using that(1) m(1) by auto
  qed (use that(2) in \<open>simp add: waiting_def\<close>)
  have "\<exists>m'. monitor_step policy m m'" using mover [of 0] mover [of 1] not_both by (auto simp: m(1))
  then show ?thesis using full empty not_both by (auto simp: m(1))
qed

theorem single_threads_never_stuck_witness:
  "\<exists>m'. monitor_step Block (pair_of (new_spsc (2 :: nat) :: nat spsc) False Outside (Waiting Pop_Call)) m'"
proof -
  let ?m0 = "new_monitor 2 [Producer, Consumer] :: nat monitor"
  let ?m1 = "pair_of (new_spsc 2) False Outside (Entering Pop_Call) :: nat monitor"
  let ?m2 = "pair_of (new_spsc 2) False Outside (Waiting Pop_Call) :: nat monitor"
  have m0: "?m0 = pair_of (new_spsc 2) False Outside Outside" by (simp add: new_monitor_def pair_of_def)
  have "any_step Block ?m0 ?m1"
    using call [of 1 ?m0 Consumer Pop_Call Block] unfolding m0 by (simp add: any_step_def may_call_def)
  moreover have "any_step Block ?m1 ?m2"
    using wait [of 1 ?m1 Pop_Call Block] by (simp add: any_step_def attempt_def pop_blocking_with_stop_def is_empty_def new_spsc_def)
  ultimately have "(any_step Block)\<^sup>*\<^sup>* ?m0 ?m2" by (meson rtranclp.rtrancl_into_rtrancl rtranclp.rtrancl_refl)
  from single_threads_never_stuck [OF _ this] show ?thesis by auto
qed

subsection \<open>A stop request\<close>

definition released :: "'a monitor \<Rightarrow> bool" where
  "released m \<longleftrightarrow> (mn_stop m \<longrightarrow> (\<forall>th \<in> set (mn_threads m). \<forall>c. snd th = Waiting c \<longrightarrow> \<not> stoppable c))"

lemma stopped_attempt: "stoppable c \<Longrightarrow> attempt policy True c q \<noteq> None"
  by (cases c) (auto simp: stoppable_def attempt_def push_blocking_with_stop_def pop_blocking_with_stop_def split: prod.split)

lemma released_put:
  "released m \<Longrightarrow> (mn_stop m \<Longrightarrow> waiting md \<Longrightarrow> \<exists>c. md = Waiting c \<and> \<not> stoppable c) \<Longrightarrow> released (put_mode k md m)"
  unfolding released_def
  by (auto simp: put_mode_def waiting_def dest!: subsetD [OF set_update_subset_insert])

lemma released_step: "any_step policy m m' \<Longrightarrow> released m \<Longrightarrow> released m'"
proof -
  assume r: "released m"
  have queue: "released (x\<lparr>mn_queue := q\<rparr>) = released x" for x :: "'a monitor" and q by (simp add: released_def)
  have woken: "notified x m' \<Longrightarrow> released x \<Longrightarrow> released m'" for x
    by (erule notifiedE) (auto intro!: released_put simp: waiting_def)
  assume "any_step policy m m'"
  then consider (step) "monitor_step policy m m'" | (stop) "stop_request m m'" | (up) "spurious m m'"
    unfolding any_step_def by blast
  then show ?thesis
  proof cases
    case step
    then show ?thesis
    proof cases
      case (act k c q)
      have "released (put_mode k Outside m)" by (rule released_put [OF r]) (simp add: waiting_def)
      then show ?thesis using woken [OF act(4)] queue by blast
    next
      case (wait k c)
      then show ?thesis using stopped_attempt [of c policy "mn_queue m"] by (auto intro!: released_put [OF r])
    qed (auto intro!: released_put [OF r] simp: queue waiting_def)
  next
    case stop
    then show ?thesis by cases (auto simp: released_def wake_def split: mode.splits)
  next
    case up
    then show ?thesis by cases (auto intro!: released_put [OF r] simp: waiting_def)
  qed
qed

text \<open>
  After a stop request no worker waits: with any number of threads, whatever happens, the calls that
  have the stop token are awake and return; only a push of \<open>Submit\<close>, which has none, can wait on.
\<close>

theorem stop_releases_workers:
  assumes "(any_step policy)\<^sup>*\<^sup>* (new_monitor n rs) m" "mn_stop m" "th \<in> set (mn_threads m)" "snd th = Waiting c"
  shows "\<exists>x. c = Submit_Call x"
proof -
  have "released m" using assms(1)
  proof (induction rule: rtranclp_induct)
    case base
    show ?case by (simp add: released_def new_monitor_def)
  qed (rule released_step)
  then have "\<not> stoppable c" using assms(2-4) by (simp add: released_def)
  then show ?thesis by (cases c) (simp_all add: stoppable_def)
qed

subsection \<open>The ring with a second consumer\<close>

text \<open>
  The pushes and pops of the workers hold the mutex; the pop of \<open>Drain\<close> does not. The state is the ring with the
  position of \<open>Drain\<close> in its \<open>TryPop\<close>: a step is one of the ring under the mutex, where the producer and the
  worker are never inside at the same time, or one of \<open>Drain\<close> as its consumer.
\<close>

inductive drain_step :: "backpressure \<Rightarrow> 'a spsc \<times> consumer \<Rightarrow> 'a spsc \<times> consumer \<Rightarrow> bool" for policy where
  under_mutex: "spsc_step policy q q' \<Longrightarrow> prod q' = PIdle \<or> cons q' = CIdle \<Longrightarrow> drain_step policy (q, d) (q', d)"
| draining: "spsc_step policy (q\<lparr>cons := d\<rparr>) (q'\<lparr>cons := d'\<rparr>) \<Longrightarrow> prod q' = prod q \<Longrightarrow> cons q' = cons q \<Longrightarrow>
    drain_step policy (q, d) (q', d')"

lemma push_under_mutex:
  assumes "prod q = PIdle" "cons q = CIdle" "\<not> is_full q"
  shows "(drain_step policy)\<^sup>*\<^sup>* (q, d) (publish x q, d)"
proof -
  let ?c = "q\<lparr>prod := PCheck x\<rparr>" and ?w = "q\<lparr>prod := PWrite x\<rparr>"
  let ?p = "q\<lparr>buffer := (buffer q)[q_tail q := Some x], prod := PPublish x\<rparr>"
  have "drain_step policy (q, d) (?c, d)" by (rule under_mutex [OF push_start]) (simp_all add: assms)
  moreover have "drain_step policy (?c, d) (?w, d)"
    using push_free [of ?c x policy] assms(2,3) by (intro under_mutex) (simp_all add: is_full_def next_slot_def)
  moreover have "drain_step policy (?w, d) (?p, d)"
    using push_write [of ?w x policy] assms(2) by (intro under_mutex) simp_all
  moreover have "drain_step policy (?p, d) (publish x q, d)"
    using push_publish [of ?p x policy] assms(1,2) by (intro under_mutex) (cases q, simp_all add: publish_def next_slot_def)+
  ultimately show ?thesis by (meson rtranclp.rtrancl_into_rtrancl rtranclp.rtrancl_refl)
qed

lemma pop_under_mutex:
  assumes "prod q = PIdle" "cons q = CIdle" "\<not> is_empty q"
  shows "(drain_step policy)\<^sup>*\<^sup>* (q, d) (snd (try_pop q), d)"
proof -
  let ?c = "q\<lparr>cons := CCheck (q_head q)\<rparr>" and ?w = "q\<lparr>cons := CCas (q_head q)\<rparr>"
  let ?t = "q\<lparr>q_head := next_slot q (q_head q), cons := CTake (q_head q)\<rparr>"
  have "drain_step policy (q, d) (?c, d)" by (rule under_mutex [OF pop_start]) (simp_all add: assms)
  moreover have "drain_step policy (?c, d) (?w, d)"
    using spsc_step.pop_some [of ?c "q_head q" policy] assms(1,3) by (intro under_mutex) (simp_all add: is_empty_def)
  moreover have "drain_step policy (?w, d) (?t, d)"
    using pop_cas [of ?w "q_head q" policy] assms(1) by (intro under_mutex) (simp_all add: next_slot_def)
  moreover have "drain_step policy (?t, d) (snd (try_pop q), d)"
    using pop_take [of ?t "q_head q" policy] assms by (intro under_mutex) (cases q, simp_all add: try_pop_def)+
  ultimately show ?thesis by (meson rtranclp.rtrancl_into_rtrancl rtranclp.rtrancl_refl)
qed

lemma drain_claims:
  assumes "\<not> is_empty q"
  shows "(drain_step policy)\<^sup>*\<^sup>* (q, CIdle) (q\<lparr>q_head := next_slot q (q_head q)\<rparr>, CTake (q_head q))"
proof -
  let ?h = "q_head q"
  have "drain_step policy (q, CIdle) (q, CCheck ?h)"
    using pop_start [of "q\<lparr>cons := CIdle\<rparr>" policy] by (intro draining) simp_all
  moreover have "drain_step policy (q, CCheck ?h) (q, CCas ?h)"
    using spsc_step.pop_some [of "q\<lparr>cons := CCheck ?h\<rparr>" ?h policy] assms by (intro draining) (simp_all add: is_empty_def)
  moreover have "drain_step policy (q, CCas ?h) (q\<lparr>q_head := next_slot q ?h\<rparr>, CTake ?h)"
    using pop_cas [of "q\<lparr>cons := CCas ?h\<rparr>" ?h policy] by (intro draining) (simp_all add: next_slot_def)
  ultimately show ?thesis by (meson rtranclp.rtrancl_into_rtrancl rtranclp.rtrancl_refl)
qed

lemma drain_takes:
  "drain_step policy (q, CTake h) (q\<lparr>buffer := (buffer q)[h := None], popped := popped q @ [buffer q ! h]\<rparr>, CIdle)"
  using pop_take [of "q\<lparr>cons := CTake h\<rparr>" h policy] by (intro draining) (cases q, simp_all)+

definition race :: "'a option list \<Rightarrow> nat \<Rightarrow> nat \<Rightarrow> 'a list \<Rightarrow> 'a option list \<Rightarrow> 'a spsc" where
  "race b h t xs ys = (new_spsc 1)\<lparr>buffer := b, q_head := h, q_tail := t, pushed := xs, popped := ys\<rparr>"

text \<open>
  \<open>Drain\<close> while a worker runs loses a frame: with a queue of capacity one, a worker and the unlocked pop of
  \<open>Drain\<close>, three frames can be pushed of which the first is never returned by any pop, while a pop
  from a ring that is not empty returns a null pointer, which makes the worker leave its loop.
\<close>

theorem drain_race_loses_frame:
  "\<exists>q. (drain_step Block)\<^sup>*\<^sup>* (new_spsc 1, CIdle) (q, CIdle) \<and> pushed q = [a, b, c] \<and> popped q = [Some b, Some c, None] \<and>
     is_empty q \<and> q_dropped q = 0"
proof -
  let ?s = "(drain_step Block)\<^sup>*\<^sup>*"
  have 1: "?s (new_spsc 1, CIdle) (race [Some a, None] 0 1 [a] [], CIdle)"
    using push_under_mutex [of "new_spsc 1" Block CIdle a]
    by (simp add: race_def new_spsc_def publish_def is_full_def next_slot_def)
  have 2: "?s (race [Some a, None] 0 1 [a] [], CIdle) (race [Some a, None] 1 1 [a] [], CTake 0)"
    using drain_claims [of "race [Some a, None] 0 1 [a] []" Block] by (simp add: race_def is_empty_def next_slot_def new_spsc_def)
  have 3: "?s (race [Some a, None] 1 1 [a] [], CTake 0) (race [Some a, Some b] 1 0 [a, b] [], CTake 0)"
    using push_under_mutex [of "race [Some a, None] 1 1 [a] []" Block "CTake 0" b]
    by (simp add: race_def new_spsc_def publish_def is_full_def next_slot_def)
  have 4: "?s (race [Some a, Some b] 1 0 [a, b] [], CTake 0) (race [Some a, None] 0 0 [a, b] [Some b], CTake 0)"
    using pop_under_mutex [of "race [Some a, Some b] 1 0 [a, b] []" Block "CTake 0"]
    by (simp add: race_def new_spsc_def try_pop_def is_empty_def next_slot_def)
  have 5: "?s (race [Some a, None] 0 0 [a, b] [Some b], CTake 0) (race [Some c, None] 0 1 [a, b, c] [Some b], CTake 0)"
    using push_under_mutex [of "race [Some a, None] 0 0 [a, b] [Some b]" Block "CTake 0" c]
    by (simp add: race_def new_spsc_def publish_def is_full_def next_slot_def)
  have 6: "?s (race [Some c, None] 0 1 [a, b, c] [Some b], CTake 0) (race [None, None] 0 1 [a, b, c] [Some b, Some c], CIdle)"
    using drain_takes [of Block "race [Some c, None] 0 1 [a, b, c] [Some b]" 0] by (simp add: race_def new_spsc_def r_into_rtranclp)
  have 7: "?s (race [None, None] 0 1 [a, b, c] [Some b, Some c], CIdle) (race [None, None] 1 1 [a, b, c] [Some b, Some c, None], CIdle)"
    using pop_under_mutex [of "race [None, None] 0 1 [a, b, c] [Some b, Some c]" Block CIdle]
    by (simp add: race_def new_spsc_def try_pop_def is_empty_def next_slot_def)
  have "?s (new_spsc 1, CIdle) (race [None, None] 1 1 [a, b, c] [Some b, Some c, None], CIdle)"
    by (rule rtranclp_trans [OF 1 rtranclp_trans [OF 2 rtranclp_trans [OF 3 rtranclp_trans [OF 4 rtranclp_trans [OF 5
        rtranclp_trans [OF 6 7]]]]]])
  then show ?thesis by (rule_tac exI) (auto simp: race_def is_empty_def new_spsc_def)
qed

end
