(* ===== verification/Knowledge_Record.thy ===== *)
theory Knowledge_Record
  imports Doubles "HOL-Library.Word" "HOL-Library.Countable"
begin

text \<open>
  Knowledge records and their JSON form (\<open>src/knowledge/knowledge_record.cpp\<close>). A record is a
  dictionary from field names to values. The JSON library is third-party code: its values are a
  datatype, printing and parsing are parameters.
\<close>

subsection \<open>Records and JSON values\<close>

datatype field_value = FInt "64 word" | FDouble dbl | FText string | FBinary "8 word list"

record knowledge_record =
  rec_fields :: "(string, field_value) smap"

datatype json =
    JNull
  | JBool bool
  | JInt "64 word"
  | JFloat dbl
  | JString string
  | JBinary "8 word list"
  | JArray "json list"
  | JObject "(string \<times> json) list"

fun field_to_json :: "field_value \<Rightarrow> json" where
  "field_to_json (FInt i) = JInt i"
| "field_to_json (FDouble d) = JFloat d"
| "field_to_json (FText s) = JString s"
| "field_to_json (FBinary b) = JBinary b"

definition json_to_field :: "json \<Rightarrow> field_value" where
  "json_to_field j =
     (case j of
        JInt i \<Rightarrow> FInt i
      | JFloat d \<Rightarrow> FDouble d
      | JString s \<Rightarrow> FText s
      | JBinary b \<Rightarrow> FBinary b
      | _ \<Rightarrow> FInt 0)"

definition record_to_json :: "knowledge_record \<Rightarrow> json" where
  "record_to_json r = JObject (fold (\<lambda>(k, v) j. sm_put k (field_to_json v) j) (rec_fields r) [])"

definition json_to_record :: "json \<Rightarrow> knowledge_record" where
  "json_to_record j =
     (case j of
        JObject kvs \<Rightarrow> \<lparr>rec_fields = fold (\<lambda>(k, v) m. sm_put k (json_to_field v) m) kvs []\<rparr>
      | _ \<Rightarrow> \<lparr>rec_fields = []\<rparr>)"

subsection \<open>Texts in UTF-8\<close>

text \<open>The ranges of the bytes that must follow a first byte; \<open>None\<close> is a byte that cannot come first.\<close>

definition utf8_rest :: "nat \<Rightarrow> (nat \<times> nat) list option" where
  "utf8_rest b =
     (if b < 0x80 then Some []
      else if b < 0xC2 then None
      else if b \<le> 0xDF then Some [(0x80, 0xBF)]
      else if b = 0xE0 then Some [(0xA0, 0xBF), (0x80, 0xBF)]
      else if b = 0xED then Some [(0x80, 0x9F), (0x80, 0xBF)]
      else if b \<le> 0xEF then Some [(0x80, 0xBF), (0x80, 0xBF)]
      else if b = 0xF0 then Some [(0x90, 0xBF), (0x80, 0xBF), (0x80, 0xBF)]
      else if b \<le> 0xF3 then Some [(0x80, 0xBF), (0x80, 0xBF), (0x80, 0xBF)]
      else if b = 0xF4 then Some [(0x80, 0x8F), (0x80, 0xBF), (0x80, 0xBF)]
      else None)"

fun utf8_scan :: "(nat \<times> nat) list \<Rightarrow> string \<Rightarrow> bool" where
  "utf8_scan [] [] = True"
| "utf8_scan (r # rs) [] = False"
| "utf8_scan [] (c # cs) = (case utf8_rest (of_char c) of None \<Rightarrow> False | Some rs \<Rightarrow> utf8_scan rs cs)"
| "utf8_scan (r # rs) (c # cs) = (fst r \<le> of_char c \<and> of_char c \<le> snd r \<and> utf8_scan rs cs)"

definition utf8_ok :: "string \<Rightarrow> bool" where
  "utf8_ok = utf8_scan []"

fun texts_ok :: "json \<Rightarrow> bool" where
  "texts_ok (JString s) = utf8_ok s"
| "texts_ok (JArray js) = list_all texts_ok js"
| "texts_ok (JObject kvs) = list_all (\<lambda>kv. utf8_ok (fst kv) \<and> texts_ok (snd kv)) kvs"
| "texts_ok j = True"

subsection \<open>Through text and back\<close>

text \<open>
  What the library documents of printing a value and parsing the text: binary values are written
  as an object with their bytes, numbers that are not finite as null; everything else survives,
  and control characters are escaped. A value with a string that is not UTF-8 is not printed
  (\<open>dump\<close> throws \<open>type_error.316\<close>); a text that is no JSON is not parsed (\<open>parse_ok\<close>). \<open>dump\<close> and \<open>parse\<close> say nothing
  where an exception is thrown.
\<close>

record json_text =
  dump :: "json \<Rightarrow> string"
  dump_ok :: "json \<Rightarrow> bool"
  parse :: "string \<Rightarrow> json"
  parse_ok :: "string \<Rightarrow> bool"

fun text_form :: "json \<Rightarrow> json" where
  "text_form (JFloat d) = (case d of Fin _ _ \<Rightarrow> JFloat d | _ \<Rightarrow> JNull)"
| "text_form (JBinary b) =
     JObject [(''bytes'', JArray (map (\<lambda>x. JInt (ucast x)) b)), (''subtype'', JNull)]"
| "text_form (JArray js) = JArray (map text_form js)"
| "text_form (JObject kvs) = JObject (map (\<lambda>kv. (fst kv, text_form (snd kv))) kvs)"
| "text_form j = j"

definition json_text_documented :: "'z json_text_scheme \<Rightarrow> bool" where
  "json_text_documented jt \<longleftrightarrow> (\<forall>j. (dump_ok jt j \<longleftrightarrow> texts_ok j) \<and>
     (dump_ok jt j \<longrightarrow> parse_ok jt (dump jt j) \<and> parse jt (dump jt j) = text_form j \<and> CHR 0x00 \<notin> set (dump jt j)))"

text \<open>The value of a field after a round trip.\<close>

definition surviving :: "field_value \<Rightarrow> field_value" where
  "surviving v =
     (case v of
        FBinary _ \<Rightarrow> FInt 0
      | FDouble d \<Rightarrow> (case d of Fin _ _ \<Rightarrow> v | _ \<Rightarrow> FInt 0)
      | _ \<Rightarrow> v)"

definition surviving_record :: "knowledge_record \<Rightarrow> knowledge_record" where
  "surviving_record r = \<lparr>rec_fields = map (\<lambda>(k, v). (k, surviving v)) (rec_fields r)\<rparr>"

lemma sm_put_last:
  "\<forall>k' \<in> fst ` set m. k' < k \<Longrightarrow> sm_put k v m = m @ [(k, v)]"
  for k :: "'k :: linorder"
  by (induction m) (auto dest: order.strict_trans)

lemma fold_put_sorted:
  fixes kvs :: "('k :: linorder \<times> 'a) list"
  assumes "sorted_wrt (<) (map fst (m0 @ map (\<lambda>(k, v). (k, f v)) kvs))"
  shows "fold (\<lambda>(k, v) m. sm_put k (f v) m) kvs m0 = m0 @ map (\<lambda>(k, v). (k, f v)) kvs"
  using assms
proof (induction kvs arbitrary: m0)
  case (Cons kv kvs)
  obtain k v where kv: "kv = (k, v)" by fastforce
  have "\<forall>k' \<in> fst ` set m0. k' < k" using Cons.prems by (auto simp: kv sorted_wrt_append)
  then have "sm_put k (f v) m0 = m0 @ [(k, f v)]" by (rule sm_put_last)
  moreover have "sorted_wrt (<) (map fst ((m0 @ [(k, f v)]) @ map (\<lambda>(k, v). (k, f v)) kvs))"
    using Cons.prems by (simp add: kv)
  ultimately show ?case using Cons.IH [of "m0 @ [(k, f v)]"] by (simp add: kv)
qed simp

lemma fold_put_wf:
  assumes "sm_wf m"
  shows "fold (\<lambda>(k, v) j. sm_put k (f v) j) m [] = map (\<lambda>(k, v). (k, f v)) m"
proof -
  have "map fst (map (\<lambda>(k, v). (k, f v)) m) = map fst m" by (simp add: case_prod_beta o_def)
  then have "sorted_wrt (<) (map fst ([] @ map (\<lambda>(k, v). (k, f v)) m))"
    using assms unfolding sm_wf_def append_Nil by metis
  from fold_put_sorted [OF this] show ?thesis unfolding append_Nil .
qed

lemma field_roundtrip: "json_to_field (text_form (field_to_json v)) = surviving v"
  by (cases v) (auto simp: json_to_field_def surviving_def split: dbl.split)

text \<open>
  A record written to the database and read back keeps its integers, texts and finite numbers;
  a binary field, and a number that is not finite, comes back as the integer 0.
\<close>

lemma record_roundtrip:
  assumes "parse jt (dump jt (record_to_json r)) = text_form (record_to_json r)" "sm_wf (rec_fields r)"
  shows "json_to_record (parse jt (dump jt (record_to_json r))) = surviving_record r"
proof -
  have "parse jt (dump jt (record_to_json r)) =
      JObject (map (\<lambda>(k, v). (k, text_form (field_to_json v))) (rec_fields r))"
    using assms by (simp add: record_to_json_def fold_put_wf case_prod_beta o_def)
  moreover have "sm_wf (map (\<lambda>(k, v). (k, text_form (field_to_json v))) (rec_fields r))"
    using assms(2) by (simp add: sm_wf_def case_prod_beta o_def)
  ultimately show ?thesis
    by (simp add: json_to_record_def fold_put_wf surviving_record_def case_prod_beta o_def field_roundtrip)
qed

text \<open>There is such a library: JSON values are countable, so they have texts.\<close>

instance dbl :: countable
  by countable_datatype

instance json :: countable
  by countable_datatype

definition unary_json :: json_text where
  "unary_json = \<lparr>dump = (\<lambda>j. replicate (to_nat j) CHR ''1''), dump_ok = texts_ok,
     parse = (\<lambda>s. text_form (from_nat (length s))), parse_ok = (\<lambda>_. True)\<rparr>"

lemma unary_json_documented: "json_text_documented unary_json"
  by (simp add: json_text_documented_def unary_json_def)

lemma unary_json_texts:
  "parse unary_json (dump unary_json j) = text_form j" "CHR 0x00 \<notin> set (dump unary_json j)"
  by (simp_all add: unary_json_def)

end
