(* ===== verification/Sqlite.thy ===== *)
theory Sqlite
  imports Knowledge_Record
begin

text \<open>
  The interface to the database: the SQL statements of \<open>src/knowledge/\<close> as a datatype, with the
  values bound to their parameters, the ways \<open>sqlite3_prepare_v2\<close> and \<open>sqlite3_step\<close> can end, and
  what the code reads of them. The engine itself is third-party code and a parameter; what SQLite
  documents of these statements on the schema of \<open>knowledge_store.cpp\<close> is stated at the end, as a
  hypothesis for the properties that need it.
\<close>

subsection \<open>Statements and outcomes\<close>

datatype statement =
    Insert_Node string string
  | Update_Node string int
  | Delete_Node int
  | Select_Node int
  | Select_Nodes_By_Type string
  | Insert_Edge int int string string
  | Delete_Edge int
  | Select_Edge int
  | Select_Targets int string
  | Select_Sources int string
  | Count_Nodes
  | Count_Edges
  | Next_Version string int
  | Insert_Log string int string int string string string
  | Select_History string int
  | Select_Since string
  | Insert_Snapshot string
  | Update_Snapshot string int int int
  | Select_Snapshots
  | Select_Savepoint int
  | Delete_Snapshot int
  | Link_Vector int int
  | Begin_Transaction
  | Begin_Immediate
  | Commit
  | Rollback
  | Savepoint string
  | Rollback_To string
  | Release_Savepoint string

datatype sql_value = SqlNull | SqlInt int | SqlText string

text \<open>
  Preparing or stepping fails with a message, or the statement is done (with the last inserted
  row id and the number of changed rows), or it has rows: those returned before the stepping ended.
\<close>

datatype outcome = Prepare_Fails string | Step_Fails string | Done int nat | Rows "sql_value list list"

definition failed :: "outcome \<Rightarrow> bool" where
  "failed r = (case r of Prepare_Fails _ \<Rightarrow> True | Step_Fails _ \<Rightarrow> True | _ \<Rightarrow> False)"

record 'db sqlite = json_text +
  run :: "statement \<Rightarrow> 'db \<Rightarrow> outcome \<times> 'db"

text \<open>C strings end at the first NUL.\<close>

definition c_str :: "string \<Rightarrow> string" where
  "c_str s = takeWhile (\<lambda>c. c \<noteq> CHR 0x00) s"

definition column_int :: "sql_value list \<Rightarrow> nat \<Rightarrow> int" where
  "column_int row k = (if k < length row then (case row ! k of SqlInt i \<Rightarrow> i | _ \<Rightarrow> 0) else 0)"

definition column_text :: "sql_value list \<Rightarrow> nat \<Rightarrow> string option" where
  "column_text row k = (if k < length row then (case row ! k of SqlText s \<Rightarrow> Some (c_str s) | _ \<Rightarrow> None) else None)"

definition column_string :: "sql_value list \<Rightarrow> nat \<Rightarrow> string" where
  "column_string row k = (case column_text row k of Some s \<Rightarrow> s | None \<Rightarrow> [])"

subsection \<open>The tables\<close>

record tables =
  node_rows :: "(int \<times> string \<times> string) list"
  edge_rows :: "(int \<times> int \<times> int \<times> string \<times> string) list"
  log_rows :: "(int \<times> string \<times> int \<times> string \<times> int \<times> string \<times> string \<times> string) list"
  snap_rows :: "(int \<times> string \<times> string \<times> int \<times> int) list"
  vec_rows :: "(int \<times> int) list"
  node_seq :: int
  edge_seq :: int
  log_seq :: int
  snap_seq :: int

text \<open>
  An open transaction keeps the tables as they were at its start, and at every savepoint in it,
  the latest first.
\<close>

record database =
  content :: tables
  saved :: "(string option \<times> tables) list"

definition ids_of :: "tables \<Rightarrow> int set" where
  "ids_of t = fst ` set (node_rows t)"

definition node_columns :: "int \<times> string \<times> string \<Rightarrow> sql_value list" where
  "node_columns n = (case n of (i, t, j) \<Rightarrow> [SqlInt i, SqlText t, SqlText j])"

definition edge_columns :: "int \<times> int \<times> int \<times> string \<times> string \<Rightarrow> sql_value list" where
  "edge_columns e = (case e of (i, s, t, r, j) \<Rightarrow> [SqlInt i, SqlInt s, SqlInt t, SqlText r, SqlText j])"

definition log_columns :: "int \<times> string \<times> int \<times> string \<times> int \<times> string \<times> string \<times> string \<Rightarrow> sql_value list" where
  "log_columns l = (case l of (i, ty, e, opr, v, ts, who, before) \<Rightarrow>
     [SqlInt i, SqlText ty, SqlInt e, SqlText opr, SqlInt v, SqlText ts, SqlText who, SqlText before])"

definition snap_columns :: "int \<times> string \<times> string \<times> int \<times> int \<Rightarrow> sql_value list" where
  "snap_columns s = (case s of (i, label, name, n, e) \<Rightarrow> [SqlInt i, SqlText label, SqlText [], SqlInt n, SqlInt e])"

text \<open>The join of the edges at a node with the nodes at their other end.\<close>

definition joined :: "(int \<times> int \<times> int \<times> string \<times> string \<Rightarrow> int) \<Rightarrow>
    (int \<times> int \<times> int \<times> string \<times> string \<Rightarrow> int) \<Rightarrow> int \<Rightarrow> string \<Rightarrow> tables \<Rightarrow> sql_value list list" where
  "joined here there i r t =
     concat (map (\<lambda>e. map (\<lambda>n. SqlInt (fst e) # node_columns n)
         (filter (\<lambda>n. fst n = there e) (node_rows t)))
       (filter (\<lambda>e. here e = i \<and> fst (snd (snd (snd e))) = r) (edge_rows t)))"

text \<open>The statements that read.\<close>

definition query :: "statement \<Rightarrow> tables \<Rightarrow> sql_value list list option" where
  "query s t =
     (case s of
        Select_Node i \<Rightarrow> Some (map node_columns (filter (\<lambda>n. fst n = i) (node_rows t)))
      | Select_Nodes_By_Type ty \<Rightarrow> Some (map node_columns (filter (\<lambda>n. fst (snd n) = ty) (node_rows t)))
      | Select_Edge i \<Rightarrow> Some (map edge_columns (filter (\<lambda>e. fst e = i) (edge_rows t)))
      | Select_Targets i r \<Rightarrow> Some (joined (\<lambda>e. fst (snd e)) (\<lambda>e. fst (snd (snd e))) i r t)
      | Select_Sources i r \<Rightarrow> Some (joined (\<lambda>e. fst (snd (snd e))) (\<lambda>e. fst (snd e)) i r t)
      | Count_Nodes \<Rightarrow> Some [[SqlInt (int (length (node_rows t)))]]
      | Count_Edges \<Rightarrow> Some [[SqlInt (int (length (edge_rows t)))]]
      | Next_Version ty i \<Rightarrow> Some [[SqlInt (1 + fold (\<lambda>l m. max m (fst (snd (snd (snd (snd l))))))
          (filter (\<lambda>l. fst (snd l) = ty \<and> fst (snd (snd l)) = i) (log_rows t)) 0)]]
      | Select_History ty i \<Rightarrow> Some (map log_columns (sort_key (\<lambda>l. fst (snd (snd (snd (snd l)))))
          (filter (\<lambda>l. fst (snd l) = ty \<and> fst (snd (snd l)) = i) (log_rows t))))
      | Select_Since ts \<Rightarrow> Some (map log_columns (sort_key (\<lambda>l. fst (snd (snd (snd (snd (snd l))))))
          (filter (\<lambda>l. ts < fst (snd (snd (snd (snd (snd l)))))) (log_rows t))))
      | Select_Snapshots \<Rightarrow> Some (map snap_columns (sort_key fst (snap_rows t)))
      | Select_Savepoint i \<Rightarrow> Some (map (\<lambda>s. [SqlText (fst (snd (snd s)))]) (filter (\<lambda>s. fst s = i) (snap_rows t)))
      | _ \<Rightarrow> None)"

text \<open>
  The statements that write the tables: the new tables with the outcome, or \<open>None\<close> when a
  constraint forbids it. Foreign keys are not enforced unless a connection asks for it, and the
  code does not.
\<close>

definition change :: "statement \<Rightarrow> tables \<Rightarrow> (outcome \<times> tables) option" where
  "change s t =
     (case s of
        Insert_Node ty j \<Rightarrow>
          (let i = node_seq t + 1
           in Some (Done i 1, t\<lparr>node_rows := node_rows t @ [(i, ty, j)], node_seq := i\<rparr>))
      | Update_Node j i \<Rightarrow>
          Some (Done (node_seq t) (length (filter (\<lambda>n. fst n = i) (node_rows t))),
                t\<lparr>node_rows := map (\<lambda>n. if fst n = i then (i, fst (snd n), j) else n) (node_rows t)\<rparr>)
      | Delete_Node i \<Rightarrow>
          Some (Done (node_seq t) (length (filter (\<lambda>n. fst n = i) (node_rows t))),
                t\<lparr>node_rows := filter (\<lambda>n. fst n \<noteq> i) (node_rows t)\<rparr>)
      | Insert_Edge a b r j \<Rightarrow>
          (let i = edge_seq t + 1
           in Some (Done i 1, t\<lparr>edge_rows := edge_rows t @ [(i, a, b, r, j)], edge_seq := i\<rparr>))
      | Delete_Edge i \<Rightarrow>
          Some (Done (edge_seq t) (length (filter (\<lambda>e. fst e = i) (edge_rows t))),
                t\<lparr>edge_rows := filter (\<lambda>e. fst e \<noteq> i) (edge_rows t)\<rparr>)
      | Insert_Log ty e opr v who before ts \<Rightarrow>
          (let i = log_seq t + 1
           in Some (Done i 1, t\<lparr>log_rows := log_rows t @ [(i, ty, e, opr, v, ts, who, before)], log_seq := i\<rparr>))
      | Insert_Snapshot label \<Rightarrow>
          (let i = snap_seq t + 1
           in if \<exists>s \<in> set (snap_rows t). fst (snd (snd s)) = [] then None
              else Some (Done i 1, t\<lparr>snap_rows := snap_rows t @ [(i, label, [], 0, 0)], snap_seq := i\<rparr>))
      | Update_Snapshot name n e i \<Rightarrow>
          (if \<exists>s \<in> set (snap_rows t). fst s \<noteq> i \<and> fst (snd (snd s)) = name then None
           else Some (Done (snap_seq t) (length (filter (\<lambda>s. fst s = i) (snap_rows t))),
             t\<lparr>snap_rows := map (\<lambda>s. if fst s = i then (i, fst (snd s), name, n, e) else s) (snap_rows t)\<rparr>))
      | Delete_Snapshot i \<Rightarrow>
          Some (Done (snap_seq t) (length (filter (\<lambda>s. fst s = i) (snap_rows t))),
                t\<lparr>snap_rows := filter (\<lambda>s. fst s \<noteq> i) (snap_rows t)\<rparr>)
      | Link_Vector v n \<Rightarrow>
          Some (Done v 1, t\<lparr>vec_rows := (v, n) # filter (\<lambda>x. fst x \<noteq> v) (vec_rows t)\<rparr>)
      | _ \<Rightarrow> None)"

text \<open>The statements on transactions; \<open>None\<close> is an error.\<close>

definition control :: "statement \<Rightarrow> database \<Rightarrow> database option" where
  "control s d =
     (case s of
        Begin_Transaction \<Rightarrow> if saved d = [] then Some (d\<lparr>saved := [(None, content d)]\<rparr>) else None
      | Begin_Immediate \<Rightarrow> if saved d = [] then Some (d\<lparr>saved := [(None, content d)]\<rparr>) else None
      | Commit \<Rightarrow> if saved d = [] then None else Some (d\<lparr>saved := []\<rparr>)
      | Rollback \<Rightarrow> if saved d = [] then None else Some \<lparr>content = snd (last (saved d)), saved = []\<rparr>
      | Savepoint n \<Rightarrow> if n = [] then None else Some (d\<lparr>saved := (Some n, content d) # saved d\<rparr>)
      | Rollback_To n \<Rightarrow>
          (case dropWhile (\<lambda>x. fst x \<noteq> Some n) (saved d) of
             [] \<Rightarrow> None
           | x # xs \<Rightarrow> if n = [] then None else Some \<lparr>content = snd x, saved = x # xs\<rparr>)
      | Release_Savepoint n \<Rightarrow>
          (case dropWhile (\<lambda>x. fst x \<noteq> Some n) (saved d) of
             [] \<Rightarrow> None
           | x # xs \<Rightarrow> if n = [] then None else Some (d\<lparr>saved := xs\<rparr>))
      | _ \<Rightarrow> None)"

definition is_control :: "statement \<Rightarrow> bool" where
  "is_control s = (case s of Begin_Transaction \<Rightarrow> True | Begin_Immediate \<Rightarrow> True | Commit \<Rightarrow> True
     | Rollback \<Rightarrow> True | Savepoint _ \<Rightarrow> True | Rollback_To _ \<Rightarrow> True | Release_Savepoint _ \<Rightarrow> True | _ \<Rightarrow> False)"

definition step_of :: "statement \<Rightarrow> database \<Rightarrow> outcome \<times> database" where
  "step_of s d =
     (if is_control s
      then (case control s d of None \<Rightarrow> (Step_Fails [], d) | Some d' \<Rightarrow> (Done 0 0, d'))
      else case query s (content d) of
             Some rows \<Rightarrow> (Rows rows, d)
           | None \<Rightarrow> (case change s (content d) of
                None \<Rightarrow> (Step_Fails [], d)
              | Some (r, t) \<Rightarrow> (r, d\<lparr>content := t\<rparr>)))"

text \<open>
  The hypothesis on the engine: a statement either fails or does what is documented of it. It may
  always fail (a full disk, a locked file). A failure leaves the database as it was, or, inside a
  transaction, takes the whole transaction back, as SQLite does for some errors (\<open>SQLITE_FULL\<close>,
  \<open>SQLITE_IOERR\<close>, \<open>SQLITE_NOMEM\<close>). Statements that begin a transaction and those that only read are taken not
  to do so.
\<close>

definition rolled_back :: "database \<Rightarrow> database" where
  "rolled_back d = \<lparr>content = snd (last (saved d)), saved = []\<rparr>"

definition keeps_transaction :: "statement \<Rightarrow> bool" where
  "keeps_transaction s = (case s of Begin_Transaction \<Rightarrow> True | Begin_Immediate \<Rightarrow> True | Select_Node _ \<Rightarrow> True
     | Select_Nodes_By_Type _ \<Rightarrow> True | Select_Edge _ \<Rightarrow> True | Select_Targets _ _ \<Rightarrow> True | Select_Sources _ _ \<Rightarrow> True
     | Count_Nodes \<Rightarrow> True | Count_Edges \<Rightarrow> True | Next_Version _ _ \<Rightarrow> True | Select_History _ _ \<Rightarrow> True
     | Select_Since _ \<Rightarrow> True | Select_Snapshots \<Rightarrow> True | Select_Savepoint _ \<Rightarrow> True | _ \<Rightarrow> False)"

definition failure_effect :: "statement \<Rightarrow> database \<Rightarrow> database \<Rightarrow> bool" where
  "failure_effect s d d' \<longleftrightarrow> d' = d \<or> (\<not> keeps_transaction s \<and> saved d \<noteq> [] \<and> d' = rolled_back d)"

definition sqlite_documented :: "('x, 'z) sqlite_scheme \<Rightarrow> ('x \<Rightarrow> database) \<Rightarrow> bool" where
  "sqlite_documented sq st \<longleftrightarrow>
     (\<forall>s x. (failed (fst (run sq s x)) \<and> failure_effect s (st x) (st (snd (run sq s x)))) \<or>
       (\<not> failed (fst (run sq s x)) \<and> \<not> failed (fst (step_of s (st x))) \<and>
        (is_control s \<or> fst (run sq s x) = fst (step_of s (st x))) \<and>
        st (snd (run sq s x)) = snd (step_of s (st x))))"

text \<open>A statement that cannot fail but as documented.\<close>

definition reliable :: "('x, 'z) sqlite_scheme \<Rightarrow> ('x \<Rightarrow> database) \<Rightarrow> statement \<Rightarrow> bool" where
  "reliable sq st s \<longleftrightarrow> (\<forall>x. failed (fst (run sq s x)) \<longrightarrow> failed (fst (step_of s (st x))))"

lemma failed_simps [simp]:
  "failed (Prepare_Fails m)" "failed (Step_Fails m)" "\<not> failed (Done i n)" "\<not> failed (Rows rs)"
  by (simp_all add: failed_def)

lemma documented_run:
  assumes "sqlite_documented sq st" "run sq s x = (r, x')"
  shows "(failed r \<and> failure_effect s (st x) (st x')) \<or>
    (\<not> failed r \<and> (is_control s \<or> r = fst (step_of s (st x))) \<and> st x' = snd (step_of s (st x)) \<and>
     \<not> failed (fst (step_of s (st x))))"
  using assms unfolding sqlite_documented_def by (metis fst_conv snd_conv)

text \<open>What a statement that did not fail has done.\<close>

lemma documented_change:
  assumes "sqlite_documented sq st" "run sq s x = (r, x')" "\<not> failed r" "\<not> is_control s" "query s (content (st x)) = None"
  shows "\<exists>t. change s (content (st x)) = Some (r, t) \<and> st x' = (st x)\<lparr>content := t\<rparr>"
  using documented_run [OF assms(1,2)] assms(3-)
  by (cases "change s (content (st x))") (auto simp: step_of_def split: prod.splits)

lemma documented_query:
  assumes "sqlite_documented sq st" "run sq s x = (r, x')" "\<not> failed r" "query s (content (st x)) = Some rows"
    "\<not> is_control s"
  shows "r = Rows rows" "st x' = st x"
  using documented_run [OF assms(1,2)] assms(3-) by (auto simp: step_of_def)

lemma documented_control:
  assumes "sqlite_documented sq st" "run sq s x = (r, x')" "\<not> failed r" "is_control s"
  shows "control s (st x) = Some (st x')"
  using documented_run [OF assms(1,2)] assms(3,4)
  by (cases "control s (st x)") (auto simp: step_of_def)

lemma documented_failed:
  assumes "sqlite_documented sq st" "run sq s x = (r, x')" "failed r"
  shows "failure_effect s (st x) (st x')"
  using documented_run [OF assms(1,2)] assms(3) by blast

lemma failure_keeps: "failure_effect s d d' \<Longrightarrow> keeps_transaction s \<or> saved d = [] \<Longrightarrow> d' = d"
  by (auto simp: failure_effect_def)

text \<open>The documented behaviour itself is such an engine.\<close>

definition model_engine :: "database sqlite" where
  "model_engine = json_text.extend unary_json (sqlite.fields step_of)"

lemma change_not_failed: "change s t = Some (r, t') \<Longrightarrow> \<not> failed r"
  by (cases s) (auto simp: change_def Let_def split: if_splits)

lemma step_of_failed: "failed (fst (step_of s d)) \<Longrightarrow> snd (step_of s d) = d"
  using change_not_failed by (auto simp: step_of_def split: option.splits)

lemma model_engine_documented: "sqlite_documented model_engine (\<lambda>d. d)" "reliable model_engine (\<lambda>d. d) s"
  using step_of_failed
  by (auto simp: sqlite_documented_def reliable_def model_engine_def sqlite.defs json_text.defs failure_effect_def)

end
