(* ===== verification/Knowledge_Graph.thy ===== *)
theory Knowledge_Graph
  imports Sqlite
begin

text \<open>
  The property graph (\<open>src/knowledge/knowledge_graph.cpp\<close>): nodes and edges stored through SQL
  statements, with the error handling of every statement, and the depth-limited traversal. The
  operations take the database connection and return it; those that only read do not.
\<close>

subsection \<open>Nodes and edges\<close>

record knowledge_node =
  kn_id :: int
  kn_type :: string
  kn_properties :: knowledge_record

record knowledge_edge =
  ke_id :: int
  ke_source :: int
  ke_target :: int
  ke_relationship :: string
  ke_properties :: knowledge_record

record graph_path =
  gp_source :: int
  gp_relationship :: string
  gp_targets :: "knowledge_node list"

definition int_str :: "int \<Rightarrow> string" where
  "int_str i = (if i < 0 then ''-'' @ nat_str (nat (- i)) else nat_str (nat i))"

definition db_error :: "string \<Rightarrow> error_info" where
  "db_error msg = ErrorInfo Knowledge_DbOpenFailed msg"

text \<open>
  Preparing a statement and stepping it to its end, with the prefixes of the two messages. A step
  that returns a row has not ended.
\<close>

definition attempt :: "string \<Rightarrow> string \<Rightarrow> outcome \<Rightarrow> (int \<times> nat) result" where
  "attempt p q r =
     (case r of
        Prepare_Fails m \<Rightarrow> Inl (db_error (p @ m))
      | Step_Fails m \<Rightarrow> Inl (db_error (q @ m))
      | Rows _ \<Rightarrow> Inl (db_error (q @ ''another row available''))
      | Done i n \<Rightarrow> Inr (i, n))"

text \<open>Preparing a statement and stepping as long as there are rows; an error ends the rows.\<close>

definition select_rows :: "string \<Rightarrow> outcome \<Rightarrow> sql_value list list result" where
  "select_rows p r =
     (case r of
        Prepare_Fails m \<Rightarrow> Inl (db_error (p @ m))
      | Rows rows \<Rightarrow> Inr rows
      | _ \<Rightarrow> Inr [])"

definition record_text :: "('x, 'z) sqlite_scheme \<Rightarrow> knowledge_record \<Rightarrow> string" where
  "record_text sq r = c_str (dump sq (record_to_json r))"

definition read_record :: "('x, 'z) sqlite_scheme \<Rightarrow> sql_value list \<Rightarrow> nat \<Rightarrow> knowledge_record" where
  "read_record sq row k =
     (case column_text row k of Some j \<Rightarrow> json_to_record (parse sq j) | None \<Rightarrow> \<lparr>rec_fields = []\<rparr>)"

definition read_node :: "('x, 'z) sqlite_scheme \<Rightarrow> nat \<Rightarrow> sql_value list \<Rightarrow> knowledge_node" where
  "read_node sq k row =
     \<lparr>kn_id = column_int row k, kn_type = column_string row (k + 1), kn_properties = read_record sq row (k + 2)\<rparr>"

subsection \<open>Operations on nodes\<close>

text \<open>
  The operations that write are \<open>noexcept\<close> and print the record first: an exception of the JSON library ends the
  process. The definitions below describe the runs in which all records have a text; \<open>insert_node_call\<close> and
  \<open>get_node_call\<close> are the whole functions, with \<open>None\<close> for the end of the process.
\<close>

definition insert_node :: "('x, 'z) sqlite_scheme \<Rightarrow> string \<Rightarrow> knowledge_record \<Rightarrow> 'x \<Rightarrow> int result \<times> 'x" where
  "insert_node sq ty r x =
     (case run sq (Insert_Node (c_str ty) (record_text sq r)) x of
        (out, x') \<Rightarrow>
          (and_then (attempt ''prepare insert node: '' ''insert node: '' out) (\<lambda>(i, _). Inr i), x'))"

definition insert_node_call :: "('x, 'z) sqlite_scheme \<Rightarrow> string \<Rightarrow> knowledge_record \<Rightarrow> 'x \<Rightarrow> (int result \<times> 'x) option" where
  "insert_node_call sq ty r x = (if dump_ok sq (record_to_json r) then Some (insert_node sq ty r x) else None)"

primrec insert_rows :: "('x, 'z) sqlite_scheme \<Rightarrow> (string \<times> knowledge_record) list \<Rightarrow> 'x \<Rightarrow> int list result \<times> 'x" where
  "insert_rows sq [] x = (Inr [], x)"
| "insert_rows sq (e # es) x =
     (case run sq (Insert_Node (c_str (fst e)) (record_text sq (snd e))) x of
        (out, x') \<Rightarrow>
          (case attempt ''prepare batch insert: '' ''batch insert row: '' out of
             Inl err \<Rightarrow> (Inl err, x')
           | Inr (i, _) \<Rightarrow>
               (case insert_rows sq es x' of
                  (Inl err, x'') \<Rightarrow> (Inl err, x'')
                | (Inr ids, x'') \<Rightarrow> (Inr (i # ids), x''))))"

text \<open>\<open>sqlite3_exec\<close> of a statement without rows: the message when it fails.\<close>

definition exec :: "('x, 'z) sqlite_scheme \<Rightarrow> statement \<Rightarrow> 'x \<Rightarrow> (string + unit) \<times> 'x" where
  "exec sq s x =
     (case run sq s x of
        (Prepare_Fails m, x') \<Rightarrow> (Inl m, x')
      | (Step_Fails m, x') \<Rightarrow> (Inl m, x')
      | (_, x') \<Rightarrow> (Inr (), x'))"

definition insert_nodes_batch ::
    "('x, 'z) sqlite_scheme \<Rightarrow> (string \<times> knowledge_record) list \<Rightarrow> 'x \<Rightarrow> int list result \<times> 'x" where
  "insert_nodes_batch sq es x =
     (if es = [] then (Inr [], x)
      else case exec sq Begin_Immediate x of
             (Inl m, x1) \<Rightarrow> (Inl (db_error (''BEGIN IMMEDIATE failed: '' @ m)), x1)
           | (Inr _, x1) \<Rightarrow>
               (case insert_rows sq es x1 of
                  (Inl err, x2) \<Rightarrow> (Inl err, snd (exec sq Rollback x2))
                | (Inr ids, x2) \<Rightarrow>
                    (case exec sq Commit x2 of
                       (Inl m, x3) \<Rightarrow> (Inl (db_error (''COMMIT failed: '' @ m)), snd (exec sq Rollback x3))
                     | (Inr _, x3) \<Rightarrow> (Inr ids, x3))))"

definition node_not_found :: "int \<Rightarrow> error_info" where
  "node_not_found i = ErrorInfo Knowledge_NodeNotFound (''node '' @ int_str i @ '' not found'')"

definition update_node :: "('x, 'z) sqlite_scheme \<Rightarrow> int \<Rightarrow> knowledge_record \<Rightarrow> 'x \<Rightarrow> unit result \<times> 'x" where
  "update_node sq i r x =
     (case run sq (Update_Node (record_text sq r) i) x of
        (out, x') \<Rightarrow>
          (and_then (attempt '''' '''' out) (\<lambda>(_, n). if n = 0 then Inl (node_not_found i) else Inr ()), x'))"

definition delete_node :: "('x, 'z) sqlite_scheme \<Rightarrow> int \<Rightarrow> 'x \<Rightarrow> unit result \<times> 'x" where
  "delete_node sq i x =
     (case run sq (Delete_Node i) x of
        (out, x') \<Rightarrow> (and_then (attempt ''prepare delete node: '' ''delete node: '' out) (\<lambda>_. Inr ()), x'))"

definition get_node :: "('x, 'z) sqlite_scheme \<Rightarrow> int \<Rightarrow> 'x \<Rightarrow> knowledge_node result" where
  "get_node sq i x =
     and_then (select_rows '''' (fst (run sq (Select_Node i) x))) (\<lambda>rows.
       case rows of [] \<Rightarrow> Inl (node_not_found i) | row # _ \<Rightarrow> Inr (read_node sq 0 row))"

definition get_node_call :: "('x, 'z) sqlite_scheme \<Rightarrow> int \<Rightarrow> 'x \<Rightarrow> knowledge_node result option" where
  "get_node_call sq i x =
     (case select_rows '''' (fst (run sq (Select_Node i) x)) of
        Inr (row # _) \<Rightarrow>
          (case column_text row 2 of
             Some j \<Rightarrow> if parse_ok sq j then Some (get_node sq i x) else None
           | None \<Rightarrow> Some (get_node sq i x))
      | _ \<Rightarrow> Some (get_node sq i x))"

definition find_nodes_by_type :: "('x, 'z) sqlite_scheme \<Rightarrow> string \<Rightarrow> 'x \<Rightarrow> knowledge_node list result" where
  "find_nodes_by_type sq ty x =
     and_then (select_rows '''' (fst (run sq (Select_Nodes_By_Type ty) x))) (\<lambda>rows. Inr (map (read_node sq 0) rows))"

definition set_node_field :: "('x, 'z) sqlite_scheme \<Rightarrow> int \<Rightarrow> string \<Rightarrow> field_value \<Rightarrow> 'x \<Rightarrow> unit result \<times> 'x" where
  "set_node_field sq i k v x =
     (case get_node sq i x of
        Inl err \<Rightarrow> (Inl err, x)
      | Inr n \<Rightarrow> update_node sq i \<lparr>rec_fields = sm_put k v (rec_fields (kn_properties n))\<rparr> x)"

definition count_rows :: "outcome \<Rightarrow> nat" where
  "count_rows r = (case r of Rows (row # _) \<Rightarrow> nat (column_int row 0) | _ \<Rightarrow> 0)"

definition node_count :: "('x, 'z) sqlite_scheme \<Rightarrow> 'x \<Rightarrow> nat" where
  "node_count sq x = count_rows (fst (run sq Count_Nodes x))"

definition edge_count :: "('x, 'z) sqlite_scheme \<Rightarrow> 'x \<Rightarrow> nat" where
  "edge_count sq x = count_rows (fst (run sq Count_Edges x))"

subsection \<open>Operations on edges\<close>

definition insert_edge :: "('x, 'z) sqlite_scheme \<Rightarrow> int \<Rightarrow> int \<Rightarrow> string \<Rightarrow> knowledge_record \<Rightarrow> 'x \<Rightarrow> int result \<times> 'x" where
  "insert_edge sq a b rel r x =
     (if rel = [] then (Inl (ErrorInfo Knowledge_InvalidRelationship ''relationship cannot be empty''), x)
      else case run sq (Insert_Edge a b (c_str rel) (record_text sq r)) x of
             (out, x') \<Rightarrow>
               (and_then (attempt ''prepare insert edge: '' ''insert edge: '' out) (\<lambda>(i, _). Inr i), x'))"

definition delete_edge :: "('x, 'z) sqlite_scheme \<Rightarrow> int \<Rightarrow> 'x \<Rightarrow> unit result \<times> 'x" where
  "delete_edge sq i x =
     (case run sq (Delete_Edge i) x of
        (out, x') \<Rightarrow> (and_then (attempt ''prepare delete edge: '' ''delete edge: '' out) (\<lambda>_. Inr ()), x'))"

definition get_edge :: "('x, 'z) sqlite_scheme \<Rightarrow> int \<Rightarrow> 'x \<Rightarrow> knowledge_edge result" where
  "get_edge sq i x =
     and_then (select_rows '''' (fst (run sq (Select_Edge i) x))) (\<lambda>rows.
       case rows of
         [] \<Rightarrow> Inl (ErrorInfo Knowledge_EdgeNotFound (''edge '' @ int_str i @ '' not found''))
       | row # _ \<Rightarrow> Inr \<lparr>ke_id = column_int row 0, ke_source = column_int row 1, ke_target = column_int row 2,
           ke_relationship = column_string row 3, ke_properties = read_record sq row 4\<rparr>)"

subsection \<open>Traversal\<close>

text \<open>The nodes one step away; the two directions differ in the statement and the message.\<close>

definition targets_of :: "('x, 'z) sqlite_scheme \<Rightarrow> string \<Rightarrow> 'x \<Rightarrow> int \<Rightarrow> knowledge_node list result" where
  "targets_of sq rel x i =
     and_then (select_rows ''prepare traverse: '' (fst (run sq (Select_Targets i rel) x))) (\<lambda>rows.
       Inr (map (read_node sq 1) rows))"

definition sources_of :: "('x, 'z) sqlite_scheme \<Rightarrow> string \<Rightarrow> 'x \<Rightarrow> int \<Rightarrow> knowledge_node list result" where
  "sources_of sq rel x i =
     and_then (select_rows ''prepare reverse_traverse: '' (fst (run sq (Select_Sources i rel) x))) (\<lambda>rows.
       Inr (map (read_node sq 1) rows))"

fun traverse_impl :: "(int \<Rightarrow> knowledge_node list result) \<Rightarrow> string \<Rightarrow> nat \<Rightarrow> int \<Rightarrow> int set \<Rightarrow>
      graph_path list result \<times> int set"
  and traverse_each :: "(int \<Rightarrow> knowledge_node list result) \<Rightarrow> string \<Rightarrow> nat \<Rightarrow> int list \<Rightarrow> int set \<Rightarrow>
      graph_path list result \<times> int set" where
  "traverse_impl nb rel 0 i visited = (Inr [], visited)"
| "traverse_impl nb rel (Suc d) i visited =
     (let visited = insert i visited in
      case nb i of
        Inl err \<Rightarrow> (Inl err, visited)
      | Inr ts \<Rightarrow>
          (case (if 0 < d then traverse_each nb rel d (map kn_id ts) visited else (Inr [], visited)) of
             (Inl err, visited') \<Rightarrow> (Inl err, visited')
           | (Inr deeper, visited') \<Rightarrow>
               (Inr ((if ts = [] then [] else [\<lparr>gp_source = i, gp_relationship = rel, gp_targets = ts\<rparr>]) @ deeper),
                visited')))"
| "traverse_each nb rel d [] visited = (Inr [], visited)"
| "traverse_each nb rel d (n # ns) visited =
     (if n \<in> visited then traverse_each nb rel d ns visited
      else case traverse_impl nb rel d n visited of
             (Inl err, visited') \<Rightarrow> (Inl err, visited')
           | (Inr ps, visited') \<Rightarrow>
               (case traverse_each nb rel d ns visited' of
                  (Inl err, visited'') \<Rightarrow> (Inl err, visited'')
                | (Inr qs, visited'') \<Rightarrow> (Inr (ps @ qs), visited'')))"

definition traverse :: "('x, 'z) sqlite_scheme \<Rightarrow> int \<Rightarrow> string \<Rightarrow> nat \<Rightarrow> 'x \<Rightarrow> graph_path list result" where
  "traverse sq i rel d x = fst (traverse_impl (targets_of sq rel x) rel d i {})"

definition reverse_traverse :: "('x, 'z) sqlite_scheme \<Rightarrow> int \<Rightarrow> string \<Rightarrow> nat \<Rightarrow> 'x \<Rightarrow> graph_path list result" where
  "reverse_traverse sq i rel d x = fst (traverse_impl (sources_of sq rel x) rel d i {})"

subsection \<open>What a traversal visits\<close>

text \<open>The nodes one step from a node, and the path the traversal reports of it.\<close>

definition next_ids :: "(int \<Rightarrow> knowledge_node list result) \<Rightarrow> int \<Rightarrow> int set" where
  "next_ids nb i = (case nb i of Inl _ \<Rightarrow> {} | Inr ts \<Rightarrow> kn_id ` set ts)"

definition next_rel :: "(int \<Rightarrow> knowledge_node list result) \<Rightarrow> (int \<times> int) set" where
  "next_rel nb = {(i, j). j \<in> next_ids nb i}"

text \<open>
  A run of the traversal that started with the visited set \<open>V\<close>, ended with \<open>V'\<close> and reported
  \<open>ps\<close>: the sources are the newly visited nodes that have targets, each once, and all of them lie
  within the given distance of the start.
\<close>

definition walk_ok :: "(int \<Rightarrow> knowledge_node list result) \<Rightarrow> string \<Rightarrow> nat \<Rightarrow> int set \<Rightarrow> int set \<Rightarrow> int set \<Rightarrow>
    graph_path list \<Rightarrow> bool" where
  "walk_ok nb rel d starts V V' ps \<longleftrightarrow>
     V \<subseteq> V' \<and> distinct (map gp_source ps) \<and>
     (\<forall>p \<in> set ps. gp_relationship p = rel \<and> nb (gp_source p) = Inr (gp_targets p) \<and> gp_targets p \<noteq> []) \<and>
     gp_source ` set ps = {v \<in> V' - V. next_ids nb v \<noteq> {}} \<and>
     (\<forall>v \<in> V' - V. has_value (nb v) \<and> (\<exists>s \<in> starts. \<exists>k < d. (s, v) \<in> next_rel nb ^^ k))"

lemma next_ids_empty: "nb i = Inr ts \<Longrightarrow> next_ids nb i = {} \<longleftrightarrow> ts = []"
  by (simp add: next_ids_def)

lemma walk_okI:
  assumes "V \<subseteq> V'" "distinct (map gp_source ps)"
    "\<And>p. p \<in> set ps \<Longrightarrow> gp_relationship p = rel \<and> nb (gp_source p) = Inr (gp_targets p) \<and> gp_targets p \<noteq> []"
    "gp_source ` set ps = {v \<in> V' - V. next_ids nb v \<noteq> {}}"
    "\<And>v. v \<in> V' - V \<Longrightarrow> has_value (nb v) \<and> (\<exists>s \<in> A. \<exists>k < d. (s, v) \<in> next_rel nb ^^ k)"
  shows "walk_ok nb rel d A V V' ps"
  unfolding walk_ok_def using assms by (intro conjI ballI) simp_all

lemma walk_okD:
  assumes "walk_ok nb rel d A V V' ps"
  shows "V \<subseteq> V'" "distinct (map gp_source ps)"
    "p \<in> set ps \<Longrightarrow> gp_relationship p = rel \<and> nb (gp_source p) = Inr (gp_targets p) \<and> gp_targets p \<noteq> []"
    "gp_source ` set ps = {v \<in> V' - V. next_ids nb v \<noteq> {}}"
    "v \<in> V' - V \<Longrightarrow> has_value (nb v) \<and> (\<exists>s \<in> A. \<exists>k < d. (s, v) \<in> next_rel nb ^^ k)"
proof -
  note w = assms [unfolded walk_ok_def]
  show "V \<subseteq> V'" "distinct (map gp_source ps)"
    by (rule conjunct1 [OF w], rule conjunct1 [OF conjunct2 [OF w]])
  note w3 = conjunct2 [OF conjunct2 [OF w]]
  show "p \<in> set ps \<Longrightarrow> gp_relationship p = rel \<and> nb (gp_source p) = Inr (gp_targets p) \<and> gp_targets p \<noteq> []"
    by (rule bspec [OF conjunct1 [OF w3]])
  show "gp_source ` set ps = {v \<in> V' - V. next_ids nb v \<noteq> {}}" by (rule conjunct1 [OF conjunct2 [OF w3]])
  show "v \<in> V' - V \<Longrightarrow> has_value (nb v) \<and> (\<exists>s \<in> A. \<exists>k < d. (s, v) \<in> next_rel nb ^^ k)"
    by (rule bspec [OF conjunct2 [OF conjunct2 [OF w3]]])
qed

lemma walk_ok_append:
  assumes "walk_ok nb rel d A V V1 ps" "walk_ok nb rel d B V1 V2 qs"
  shows "walk_ok nb rel d (A \<union> B) V V2 (ps @ qs)"
proof (rule walk_okI)
  note p = walk_okD [OF assms(1)] and q = walk_okD [OF assms(2)]
  show "V \<subseteq> V2" using p(1) q(1) by blast
  show "distinct (map gp_source (ps @ qs))" using p(2,4) q(2,4) by auto
  show "gp_source ` set (ps @ qs) = {v \<in> V2 - V. next_ids nb v \<noteq> {}}"
    unfolding set_append image_Un p(4) q(4) using p(1) q(1) by blast
  show "gp_relationship x = rel \<and> nb (gp_source x) = Inr (gp_targets x) \<and> gp_targets x \<noteq> []"
    if "x \<in> set (ps @ qs)" for x
    using that p(3) [of x] q(3) [of x] by auto
  show "has_value (nb v) \<and> (\<exists>s \<in> A \<union> B. \<exists>k < d. (s, v) \<in> next_rel nb ^^ k)" if "v \<in> V2 - V" for v
  proof (cases "v \<in> V1")
    case True
    then show ?thesis using that p(5) [of v] by blast
  next
    case False
    then show ?thesis using that q(5) [of v] by blast
  qed
qed

lemma walk_ok_refl: "walk_ok nb rel d A V V []"
  by (simp add: walk_ok_def)

lemma walk_ok_mono: "walk_ok nb rel d A V V' ps \<Longrightarrow> A \<subseteq> B \<Longrightarrow> walk_ok nb rel d B V V' ps"
proof (rule walk_okI)
  assume w: "walk_ok nb rel d A V V' ps" and AB: "A \<subseteq> B"
  show "V \<subseteq> V'" "distinct (map gp_source ps)" "gp_source ` set ps = {v \<in> V' - V. next_ids nb v \<noteq> {}}"
    by (rule walk_okD [OF w])+
  show "gp_relationship p = rel \<and> nb (gp_source p) = Inr (gp_targets p) \<and> gp_targets p \<noteq> []" if "p \<in> set ps" for p
    by (rule walk_okD(3) [OF w that])
  show "has_value (nb v) \<and> (\<exists>s \<in> B. \<exists>k < d. (s, v) \<in> next_rel nb ^^ k)" if "v \<in> V' - V" for v
    using walk_okD(5) [OF w that] AB by blast
qed

lemma walk_ok_step:
  assumes nb: "nb i = Inr ts" and i: "i \<notin> V"
    and deeper: "walk_ok nb rel d (next_ids nb i) (insert i V) V' ps"
  shows "walk_ok nb rel (Suc d) {i} V V'
    ((if ts = [] then [] else [\<lparr>gp_source = i, gp_relationship = rel, gp_targets = ts\<rparr>]) @ ps)"
    (is "walk_ok _ _ _ _ _ _ (?p @ ps)")
proof (rule walk_okI)
  note d = walk_okD [OF deeper]
  show "V \<subseteq> V'" using d(1) by blast
  show "distinct (map gp_source (?p @ ps))" using d(2,4) by auto
  show "gp_source ` set (?p @ ps) = {v \<in> V' - V. next_ids nb v \<noteq> {}}"
  proof -
    have "gp_source ` set ?p = {v \<in> {i}. next_ids nb v \<noteq> {}}" using nb by (cases "ts = []") (auto simp: next_ids_def)
    moreover have "i \<in> V'" using d(1) by blast
    ultimately show ?thesis unfolding set_append image_Un d(4) using i by auto
  qed
  show "gp_relationship x = rel \<and> nb (gp_source x) = Inr (gp_targets x) \<and> gp_targets x \<noteq> []"
    if "x \<in> set (?p @ ps)" for x
    using that d(3) [of x] nb by (auto split: if_splits)
  fix v assume v: "v \<in> V' - V"
  show "has_value (nb v) \<and> (\<exists>s \<in> {i}. \<exists>k < Suc d. (s, v) \<in> next_rel nb ^^ k)"
  proof (cases "v = i")
    case True
    then show ?thesis using nb by (auto intro!: exI [of _ 0])
  next
    case False
    then obtain s k where s: "s \<in> next_ids nb i" "k < d" "(s, v) \<in> next_rel nb ^^ k" "has_value (nb v)"
      using d(5) [of v] v by blast
    have "(i, s) \<in> next_rel nb" using s(1) by (simp add: next_rel_def)
    from relpow_Suc_I2 [OF this s(3)] have "(i, v) \<in> next_rel nb ^^ Suc k" .
    then show ?thesis using s(2,4) by blast
  qed
qed

lemma traverse_walks:
  "traverse_impl nb rel d i V = (Inr ps, V') \<Longrightarrow> i \<notin> V \<Longrightarrow> walk_ok nb rel d {i} V V' ps"
  "traverse_each nb rel d ns V = (Inr ps, V') \<Longrightarrow> walk_ok nb rel d (set ns) V V' ps"
proof (induction nb rel d i V and nb rel d ns V arbitrary: ps V' and ps V' rule: traverse_impl_traverse_each.induct)
  case (1 nb rel i V)
  then show ?case by (simp add: walk_ok_refl)
next
  case (2 nb rel d i V)
  obtain ts where ts: "nb i = Inr ts" using "2.prems"(1) by (cases "nb i") (auto simp: Let_def)
  obtain r where r: "(if 0 < d then traverse_each nb rel d (map kn_id ts) (insert i V) else (Inr [], insert i V)) = (r, V')"
    and ps: "r = Inr qs \<Longrightarrow> ps = (if ts = [] then [] else [\<lparr>gp_source = i, gp_relationship = rel, gp_targets = ts\<rparr>]) @ qs"
    and ok: "has_value r" for qs
    using "2.prems"(1) ts by (auto simp: Let_def split: prod.splits sum.splits)
  obtain qs where qs: "r = Inr qs" using ok by (cases r) auto
  have "walk_ok nb rel d (set (map kn_id ts)) (insert i V) V' qs"
  proof (cases "0 < d")
    case True
    then show ?thesis using "2.IH" [OF refl ts True] r qs by simp
  next
    case False
    then show ?thesis using r qs by (simp add: walk_ok_refl)
  qed
  then show ?case
    using walk_ok_step [where nb = nb and i = i and V = V, OF ts "2.prems"(2)] ps [OF qs] ts by (simp add: next_ids_def)
next
  case (3 nb rel d V)
  then show ?case by (simp add: walk_ok_refl)
next
  case (4 nb rel d n ns V)
  show ?case
  proof (cases "n \<in> V")
    case True
    then have "walk_ok nb rel d (set ns) V V' ps" using "4.IH"(1) "4.prems" by simp
    then show ?thesis by (rule walk_ok_mono) auto
  next
    case False
    then obtain qs V1 rs where q: "traverse_impl nb rel d n V = (Inr qs, V1)"
        "traverse_each nb rel d ns V1 = (Inr rs, V')" "ps = qs @ rs"
      using "4.prems" by (auto split: prod.splits sum.splits)
    have "walk_ok nb rel d {n} V V1 qs" using "4.IH"(2) [OF False q(1) False] .
    moreover have "walk_ok nb rel d (set ns) V1 V' rs"
      using "4.IH"(3) [OF False q(1) [symmetric] refl q(2)] by simp
    ultimately show ?thesis using walk_ok_append q(3) by fastforce
  qed
qed

text \<open>
  With a depth of at least the number of reachable nodes that are not yet visited, a traversal
  leaves no reported node with an unvisited successor.
\<close>

definition closed_walk :: "(int \<Rightarrow> knowledge_node list result) \<Rightarrow> int set \<Rightarrow> int set \<Rightarrow> bool" where
  "closed_walk nb V V' \<longleftrightarrow> (\<forall>v \<in> V' - V. next_ids nb v \<subseteq> V')"

lemma closed_walk_append:
  "closed_walk nb V V1 \<Longrightarrow> closed_walk nb V1 V2 \<Longrightarrow> V \<subseteq> V1 \<Longrightarrow> V1 \<subseteq> V2 \<Longrightarrow> closed_walk nb V V2"
  unfolding closed_walk_def by blast

lemma card_Diff_less: "finite R \<Longrightarrow> i \<in> R \<Longrightarrow> i \<notin> V \<Longrightarrow> card (R - insert i V) < card (R - V)"
  by (rule psubset_card_mono) auto

lemma traverse_closes:
  assumes R: "finite R"
  shows "traverse_impl nb rel d i V = (Inr ps, V') \<Longrightarrow> (\<forall>v \<in> R. next_ids nb v \<subseteq> R) \<Longrightarrow>
      i \<notin> V \<Longrightarrow> i \<in> R \<Longrightarrow> card (R - V) \<le> d \<Longrightarrow> closed_walk nb V V' \<and> i \<in> V' \<and> V \<subseteq> V'"
    and "traverse_each nb rel d ns V = (Inr ps, V') \<Longrightarrow> (\<forall>v \<in> R. next_ids nb v \<subseteq> R) \<Longrightarrow>
      set ns \<subseteq> R \<Longrightarrow> card (R - V) \<le> d \<Longrightarrow> closed_walk nb V V' \<and> set ns \<subseteq> V' \<and> V \<subseteq> V'"
proof (induction nb rel d i V and nb rel d ns V arbitrary: ps V' and ps V' rule: traverse_impl_traverse_each.induct)
  case (1 nb rel i V)
  then have "R - V = {}" using R by simp
  then show ?case using "1.prems" by blast
next
  case (2 nb rel d i V)
  obtain ts where ts: "nb i = Inr ts" using "2.prems"(1) by (cases "nb i") (auto simp: Let_def)
  have next_i: "next_ids nb i = set (map kn_id ts)" using ts by (simp add: next_ids_def)
  have le: "card (R - insert i V) \<le> d"
    using card_Diff_less [OF R "2.prems"(4,3)] "2.prems"(5) by simp
  have sub: "set (map kn_id ts) \<subseteq> R" using "2.prems"(2,4) next_i by blast
  have "closed_walk nb (insert i V) V' \<and> set (map kn_id ts) \<subseteq> V' \<and> insert i V \<subseteq> V'"
  proof (cases "0 < d")
    case True
    then obtain qs where "traverse_each nb rel d (map kn_id ts) (insert i V) = (Inr qs, V')"
      using "2.prems"(1) ts by (auto simp: Let_def split: prod.splits sum.splits)
    from "2.IH" [OF refl ts True this "2.prems"(2) sub le] show ?thesis .
  next
    case False
    then have "R - insert i V = {}" "V' = insert i V" using le R "2.prems"(1) ts by (auto simp: Let_def)
    then show ?thesis using sub by (auto simp: closed_walk_def)
  qed
  then show ?case using next_i unfolding closed_walk_def by blast
next
  case (3 nb rel d V)
  then show ?case by (simp add: closed_walk_def)
next
  case (4 nb rel d n ns V)
  show ?case
  proof (cases "n \<in> V")
    case True
    then show ?thesis using "4.IH"(1) "4.prems" by auto
  next
    case False
    then obtain qs V1 rs where q: "traverse_impl nb rel d n V = (Inr qs, V1)"
        "traverse_each nb rel d ns V1 = (Inr rs, V')"
      using "4.prems"(1) by (auto split: prod.splits sum.splits)
    have n: "closed_walk nb V V1 \<and> n \<in> V1 \<and> V \<subseteq> V1"
      using "4.IH"(2) [OF False q(1) "4.prems"(2) False] "4.prems"(3,4) by simp
    then have "card (R - V1) \<le> d" using "4.prems"(4) R card_mono [of "R - V" "R - V1"] by fastforce
    then have "closed_walk nb V1 V' \<and> set ns \<subseteq> V' \<and> V1 \<subseteq> V'"
      using "4.IH"(3) [OF False q(1) [symmetric] refl q(2) "4.prems"(2)] "4.prems"(3) by simp
    then show ?thesis using n closed_walk_append [of nb V V1 V'] by auto
  qed
qed

text \<open>
  Traverse reports every node at most once, as the source of a path that lists exactly its
  targets, and only nodes reached in fewer steps than the depth. It reports all reachable nodes
  that have targets when the depth is at least their number.
\<close>

theorem traverse_spec:
  assumes "traverse sq i rel d x = Inr ps"
  defines "nb \<equiv> targets_of sq rel x"
  shows "distinct (map gp_source ps) \<and>
    (\<forall>p \<in> set ps. gp_relationship p = rel \<and> nb (gp_source p) = Inr (gp_targets p) \<and> gp_targets p \<noteq> [] \<and>
       (\<exists>k < d. (i, gp_source p) \<in> next_rel nb ^^ k)) \<and>
    (finite ((next_rel nb)\<^sup>* `` {i}) \<and> card ((next_rel nb)\<^sup>* `` {i}) \<le> d \<longrightarrow>
       gp_source ` set ps = {v \<in> (next_rel nb)\<^sup>* `` {i}. next_ids nb v \<noteq> {}})"
proof (intro conjI impI ballI)
  obtain V' where run: "traverse_impl nb rel d i {} = (Inr ps, V')"
    using assms by (cases "traverse_impl nb rel d i {}") (simp add: traverse_def)
  note w = walk_okD [OF traverse_walks(1) [OF run]]
  show "distinct (map gp_source ps)" using w(2) by simp
  show "gp_relationship p = rel" "nb (gp_source p) = Inr (gp_targets p)" "gp_targets p \<noteq> []" if "p \<in> set ps" for p
    using w(3) [OF _ that] by auto
  have src: "gp_source ` set ps = {v \<in> V'. next_ids nb v \<noteq> {}}" using w(4) by simp
  show "\<exists>k < d. (i, gp_source p) \<in> next_rel nb ^^ k" if "p \<in> set ps" for p
  proof -
    have "gp_source p \<in> V' - {}" using src that by blast
    then show ?thesis using w(5) by blast
  qed
  let ?R = "(next_rel nb)\<^sup>* `` {i}"
  assume fin: "finite ?R \<and> card ?R \<le> d"
  have step: "\<forall>v \<in> ?R. next_ids nb v \<subseteq> ?R" by (auto simp: next_rel_def intro: rtrancl_into_rtrancl)
  have "V' \<subseteq> ?R"
    using w(5) by (fastforce dest: relpow_imp_rtrancl)
  moreover have "closed_walk nb {} V' \<and> i \<in> V'"
    using traverse_closes(1) [OF _ run step] fin by simp
  then have "?R \<subseteq> V'"
    by (intro subsetI) (auto elim!: rtrancl_induct simp: closed_walk_def next_rel_def)
  ultimately show "gp_source ` set ps = {v \<in> ?R. next_ids nb v \<noteq> {}}" using src by blast
qed

text \<open>A database with the given edges of one relationship, and nodes for their ends.\<close>

definition demo_database :: "int list \<Rightarrow> (int \<times> int) list \<Rightarrow> database" where
  "demo_database is es = \<lparr>content = \<lparr>node_rows = map (\<lambda>i. (i, ''n'', [])) is,
     edge_rows = map (\<lambda>e. (0, fst e, snd e, ''r'', [])) es, log_rows = [], snap_rows = [], vec_rows = [],
     node_seq = 9, edge_seq = 9, log_seq = 0, snap_seq = 0\<rparr>, saved = []\<rparr>"

lemma run_model [simp]: "run model_engine = step_of"
  by (simp add: model_engine_def sqlite.defs json_text.defs)

lemma demo_targets:
  "targets_of model_engine rel (demo_database is es) i =
     Inr (if rel = ''r'' then concat (map (\<lambda>e. map (\<lambda>n. read_node model_engine 1 [SqlInt 0, SqlInt n, SqlText ''n'', SqlText []])
       (filter (\<lambda>n. n = snd e) is)) (filter (\<lambda>e. fst e = i) es)) else [])"
  by (simp add: targets_of_def select_rows_def step_of_def is_control_def query_def demo_database_def joined_def
      filter_map o_def node_columns_def map_concat)

lemma read_demo_node: "kn_id (read_node model_engine (Suc 0) [SqlInt 0, SqlInt n, SqlText t, SqlText j]) = n"
  by (simp add: read_node_def column_int_def)

theorem traverse_spec_witness:
  "\<exists>ps. traverse model_engine 1 ''r'' 3 (demo_database [1, 2] [(1, 2), (2, 1)]) = Inr ps \<and>
     distinct (map gp_source ps)"
proof -
  have "has_value (traverse model_engine 1 ''r'' 3 (demo_database [1, 2] [(1, 2), (2, 1)]))"
    by (simp add: traverse_def demo_targets numeral_3_eq_3 read_demo_node Let_def)
  then obtain ps where ps: "traverse model_engine 1 ''r'' 3 (demo_database [1, 2] [(1, 2), (2, 1)]) = Inr ps"
    by (auto simp: has_value_iff)
  from ps conjunct1 [OF traverse_spec [OF ps]] show ?thesis by (intro exI [of _ ps] conjI)
qed

text \<open>
  Below that depth Traverse can miss nodes within the depth: a node first met at the depth
  limit is marked visited and not expanded when it is met again nearer to the start.
\<close>

theorem traverse_misses:
  "\<exists>x :: database. \<exists>ps. traverse model_engine 1 ''r'' 3 x = Inr ps \<and>
     (1, 4) \<in> next_rel (targets_of model_engine ''r'' x) ^^ 2 \<and>
     next_ids (targets_of model_engine ''r'' x) 4 \<noteq> {} \<and> 4 \<notin> gp_source ` set ps"
proof (rule exI)
  let ?x = "demo_database [1, 2, 3, 4, 5] [(1, 2), (1, 3), (2, 3), (3, 4), (4, 5)]"
  have "\<exists>ps. traverse model_engine 1 ''r'' 3 ?x = Inr ps \<and> 4 \<notin> gp_source ` set ps"
    by (simp add: traverse_def demo_targets numeral_3_eq_3 read_demo_node Let_def)
  moreover have "(1, 3) \<in> next_rel (targets_of model_engine ''r'' ?x)"
      "(3, 4) \<in> next_rel (targets_of model_engine ''r'' ?x)"
    by (simp_all add: next_rel_def next_ids_def demo_targets read_demo_node)
  then have "(1, 4) \<in> next_rel (targets_of model_engine ''r'' ?x) ^^ 2"
    by (auto simp: numeral_2_eq_2)
  moreover have "next_ids (targets_of model_engine ''r'' ?x) 4 \<noteq> {}"
    by (simp add: next_ids_def demo_targets)
  ultimately show "\<exists>ps. traverse model_engine 1 ''r'' 3 ?x = Inr ps \<and>
      (1, 4) \<in> next_rel (targets_of model_engine ''r'' ?x) ^^ 2 \<and>
      next_ids (targets_of model_engine ''r'' ?x) 4 \<noteq> {} \<and> 4 \<notin> gp_source ` set ps"
    by blast
qed

subsection \<open>Writing through the engine\<close>

lemma attempt_Inr [simp]: "attempt p q r = Inr (i, n) \<longleftrightarrow> r = Done i n"
  by (cases r) (simp_all add: attempt_def)

lemma attempt_Done [simp]: "attempt p q (Done i n) = Inr (i, n)"
  by (simp add: attempt_def)

lemma attempt_failed: "attempt p q r = Inl e \<Longrightarrow> \<not> failed r \<Longrightarrow> \<exists>rows. r = Rows rows"
  by (cases r) (simp_all add: attempt_def)

lemma exec_Inl:
  assumes "sqlite_documented sq st" "exec sq s x = (Inl m, x')"
  shows "failure_effect s (st x) (st x') \<and> failed (fst (run sq s x))"
proof -
  obtain r x1 where r: "run sq s x = (r, x1)" by fastforce
  then have "failed r \<and> x1 = x'" using assms(2) by (cases r) (simp_all add: exec_def)
  then show ?thesis using documented_failed [OF assms(1) r] r by simp
qed

lemma exec_Inr:
  assumes "sqlite_documented sq st" "exec sq s x = (Inr u, x')" "is_control s"
  shows "control s (st x) = Some (st x')"
proof -
  obtain r x1 where r: "run sq s x = (r, x1)" by fastforce
  then have "\<not> failed r \<and> x1 = x'" using assms(2) by (cases r) (simp_all add: exec_def)
  then show ?thesis using documented_control [OF assms(1) r _ assms(3)] by simp
qed

text \<open>The rows a batch adds.\<close>

definition batch_rows :: "('x, 'z) sqlite_scheme \<Rightarrow> int \<Rightarrow> (string \<times> knowledge_record) list \<Rightarrow> (int \<times> string \<times> string) list" where
  "batch_rows sq i es = map (\<lambda>(k, e). (i + int k, c_str (fst e), record_text sq (snd e))) (zip [1..<Suc (length es)] es)"

lemma batch_rows_Cons:
  "batch_rows sq i (e # es) = (i + 1, c_str (fst e), record_text sq (snd e)) # batch_rows sq (i + 1) es"
proof -
  have "[1..<Suc (length (e # es))] = 1 # map Suc [1..<Suc (length es)]"
    by (simp add: upt_conv_Cons map_Suc_upt del: upt_Suc)
  then show ?thesis
    by (simp add: batch_rows_def zip_map1 o_def case_prod_beta del: upt_Suc)
qed

lemma insert_one:
  assumes "sqlite_documented sq st" "run sq (Insert_Node ty j) x = (r, x')"
  shows "(failed r \<and> failure_effect (Insert_Node ty j) (st x) (st x')) \<or>
    (r = Done (node_seq (content (st x)) + 1) 1 \<and>
     st x' = (st x)\<lparr>content := (content (st x))\<lparr>node_rows := node_rows (content (st x)) @ [(node_seq (content (st x)) + 1, ty, j)],
       node_seq := node_seq (content (st x)) + 1\<rparr>\<rparr>)"
proof (cases "failed r")
  case True
  then show ?thesis using documented_failed [OF assms] by blast
next
  case False
  then show ?thesis
    using documented_change [OF assms False] by (simp add: is_control_def query_def change_def Let_def)
qed

text \<open>The saved states of the open transaction are still there, or the engine has taken it back.\<close>

definition kept_or_undone :: "database \<Rightarrow> database \<Rightarrow> bool" where
  "kept_or_undone d d' \<longleftrightarrow> saved d' = saved d \<or> (saved d \<noteq> [] \<and> d' = rolled_back d)"

lemma failure_kept: "failure_effect s d d' \<Longrightarrow> kept_or_undone d d'"
  by (auto simp: failure_effect_def kept_or_undone_def)

lemma insert_rows_effect:
  assumes "sqlite_documented sq st"
  shows "insert_rows sq es x = (r, x') \<Longrightarrow> kept_or_undone (st x) (st x') \<and>
    (\<forall>ids. r = Inr ids \<longrightarrow> saved (st x') = saved (st x) \<and> ids = map fst (batch_rows sq (node_seq (content (st x))) es) \<and>
       content (st x') = (content (st x))\<lparr>
         node_rows := node_rows (content (st x)) @ batch_rows sq (node_seq (content (st x))) es,
         node_seq := node_seq (content (st x)) + int (length es)\<rparr>)"
proof (induction es arbitrary: x r x')
  case Nil
  then show ?case by (auto simp: batch_rows_def kept_or_undone_def)
next
  case (Cons e es)
  obtain out x1 where run: "run sq (Insert_Node (c_str (fst e)) (record_text sq (snd e))) x = (out, x1)" by fastforce
  show ?case
  proof (cases "failed out")
    case True
    then obtain err where "attempt ''prepare batch insert: '' ''batch insert row: '' out = Inl err"
      by (cases out) (simp_all add: attempt_def)
    then have "insert_rows sq (e # es) x = (Inl err, x1)" using run by simp
    then have "r = Inl err" "x' = x1" unfolding Cons.prems by simp_all
    then show ?thesis using failure_kept [OF documented_failed [OF assms run True]] by simp
  next
    case False
    then have one: "out = Done (node_seq (content (st x)) + 1) 1"
        "st x1 = (st x)\<lparr>content := (content (st x))\<lparr>node_rows := node_rows (content (st x)) @
           [(node_seq (content (st x)) + 1, c_str (fst e), record_text sq (snd e))],
           node_seq := node_seq (content (st x)) + 1\<rparr>\<rparr>"
      using insert_one [OF assms run] by blast+
    obtain r1 x2 where rest: "insert_rows sq es x1 = (r1, x2)" by fastforce
    note IH = Cons.IH [OF rest]
    have r: "x' = x2" "r = (case r1 of Inl err \<Rightarrow> Inl err | Inr ids \<Rightarrow> Inr ((node_seq (content (st x)) + 1) # ids))"
    proof -
      have "attempt ''prepare batch insert: '' ''batch insert row: '' out = Inr (node_seq (content (st x)) + 1, 1)"
        using one(1) by simp
      then have "insert_rows sq (e # es) x = (case r1 of Inl err \<Rightarrow> Inl err
          | Inr ids \<Rightarrow> Inr ((node_seq (content (st x)) + 1) # ids), x2)"
        using run rest by (cases r1) simp_all
      then show "x' = x2" "r = (case r1 of Inl err \<Rightarrow> Inl err | Inr ids \<Rightarrow> Inr ((node_seq (content (st x)) + 1) # ids))"
        unfolding Cons.prems by simp_all
    qed
    show ?thesis
    proof (intro conjI allI impI)
      show "kept_or_undone (st x) (st x')" using IH r(1) one(2) by (simp add: kept_or_undone_def rolled_back_def)
      fix ids assume "r = Inr ids"
      then obtain ids1 where ids: "r1 = Inr ids1" "ids = (node_seq (content (st x)) + 1) # ids1"
        using r(2) by (cases r1) auto
      have c1: "node_seq (content (st x1)) = node_seq (content (st x)) + 1"
          "node_rows (content (st x1)) = node_rows (content (st x)) @ [(node_seq (content (st x)) + 1, c_str (fst e), record_text sq (snd e))]"
        using one(2) by simp_all
      show "saved (st x') = saved (st x)" using IH ids(1) r(1) one(2) by simp
      show "ids = map fst (batch_rows sq (node_seq (content (st x))) (e # es))"
        using IH ids c1(1) by (simp add: batch_rows_Cons)
      show "content (st x') = (content (st x))\<lparr>
          node_rows := node_rows (content (st x)) @ batch_rows sq (node_seq (content (st x))) (e # es),
          node_seq := node_seq (content (st x)) + int (length (e # es))\<rparr>"
        using IH ids(1) r(1) c1 one(2) by (simp add: batch_rows_Cons)
    qed
  qed
qed

lemma rollback_undoes:
  assumes "sqlite_documented sq st" "reliable sq st Rollback"
    and "saved (st y) = [(None, c)] \<or> st y = \<lparr>content = c, saved = []\<rparr>"
  shows "st (snd (exec sq Rollback y)) = \<lparr>content = c, saved = []\<rparr>"
proof (cases "saved (st y) = []")
  case True
  then have y: "st y = \<lparr>content = c, saved = []\<rparr>" using assms(3) by auto
  obtain r1 y1 where run: "run sq Rollback y = (r1, y1)" by fastforce
  have "failed (fst (step_of Rollback (st y)))" using True by (simp add: step_of_def is_control_def control_def)
  then have "failure_effect Rollback (st y) (st y1)" using documented_run [OF assms(1) run] by blast
  from failure_keeps [OF this] have "st y1 = st y" using True by simp
  moreover have "snd (exec sq Rollback y) = y1" using run by (simp add: exec_def split: outcome.splits)
  ultimately show ?thesis using y by simp
next
  case False
  then have y: "saved (st y) = [(None, c)]" using assms(3) by auto
  obtain r1 y1 where run: "run sq Rollback y = (r1, y1)" by fastforce
  have c: "control Rollback (st y) = Some \<lparr>content = c, saved = []\<rparr>" using y by (simp add: control_def)
  have "\<not> failed (fst (step_of Rollback (st y)))" using c by (simp add: step_of_def is_control_def)
  then have "\<not> failed r1" using assms(2) run unfolding reliable_def by (metis fst_conv)
  then have "control Rollback (st y) = Some (st y1)"
    using documented_control [OF assms(1) run] by (simp add: is_control_def)
  moreover have "snd (exec sq Rollback y) = y1" using run by (simp add: exec_def split: outcome.splits)
  ultimately show ?thesis using c by simp
qed

lemma insert_nodes_batch_effect:
  assumes "sqlite_documented sq st" "reliable sq st Rollback" "insert_nodes_batch sq es x = (r, x')" "es \<noteq> []"
  shows "(case r of
      Inl err \<Rightarrow> st x' = st x
    | Inr ids \<Rightarrow> ids = map fst (batch_rows sq (node_seq (content (st x))) es) \<and> saved (st x') = [] \<and>
        content (st x') = (content (st x))\<lparr>
          node_rows := node_rows (content (st x)) @ batch_rows sq (node_seq (content (st x))) es,
          node_seq := node_seq (content (st x)) + int (length es)\<rparr>) \<and>
    (saved (st x) \<noteq> [] \<longrightarrow> \<not> has_value r)"
proof -
  have undo: "st (snd (exec sq Rollback y)) = st x" if "saved (st y) = [(None, content (st x))] \<or> st y = \<lparr>content = content (st x), saved = []\<rparr>" "saved (st x) = []" for y
    using rollback_undoes [OF assms(1,2) that(1)] that(2) by (cases "st x") simp
  obtain b x1 where b: "exec sq Begin_Immediate x = (b, x1)" by fastforce
  show ?thesis
  proof (cases b)
    case (Inl m)
    then have "r = Inl (db_error (''BEGIN IMMEDIATE failed: '' @ m))" "x' = x1"
      using assms(3,4) b by (simp_all add: insert_nodes_batch_def)
    moreover have "st x1 = st x"
      using exec_Inl [OF assms(1) b [unfolded Inl]] failure_keeps [of Begin_Immediate "st x" "st x1"]
      by (simp add: keeps_transaction_def)
    ultimately show ?thesis by simp
  next
    case (Inr u)
    have c1: "control Begin_Immediate (st x) = Some (st x1)"
      using exec_Inr [OF assms(1) b [unfolded Inr]] by (simp add: is_control_def)
    then have "saved (st x) = [] \<and> st x1 = (st x)\<lparr>saved := [(None, content (st x))]\<rparr>"
      by (auto simp: control_def split: if_splits)
    then have s1: "saved (st x) = []" "saved (st x1) = [(None, content (st x))]" "content (st x1) = content (st x)"
      by simp_all
    obtain q x2 where rows: "insert_rows sq es x1 = (q, x2)" by fastforce
    note eff = insert_rows_effect [OF assms(1) rows]
    have s2: "saved (st x2) = [(None, content (st x))] \<or> st x2 = \<lparr>content = content (st x), saved = []\<rparr>"
      using eff s1(2) by (auto simp: kept_or_undone_def rolled_back_def)
    show ?thesis
    proof (cases q)
      case (Inl err)
      then have "r = Inl err" "x' = snd (exec sq Rollback x2)"
        using assms(3,4) b Inr rows by (simp_all add: insert_nodes_batch_def)
      then show ?thesis using undo [OF s2 s1(1)] s1(1) by simp
    next
      case (Inr ids)
      have s3: "saved (st x2) = [(None, content (st x))]" using eff Inr s1(2) by simp
      obtain c x3 where com: "exec sq Commit x2 = (c, x3)" by fastforce
      show ?thesis
      proof (cases c)
        case (Inl m)
        then have "r = Inl (db_error (''COMMIT failed: '' @ m))" "x' = snd (exec sq Rollback x3)"
          using assms(3,4) b \<open>b = Inr u\<close> rows Inr com by (simp_all add: insert_nodes_batch_def)
        moreover have "saved (st x3) = [(None, content (st x))] \<or> st x3 = \<lparr>content = content (st x), saved = []\<rparr>"
          using exec_Inl [OF assms(1) com [unfolded Inl]] s3 by (auto simp: failure_effect_def rolled_back_def)
        ultimately show ?thesis using undo [OF _ s1(1)] s1(1) by simp
      next
        case c: (Inr v)
        then have r: "r = Inr ids" "x' = x3"
          using assms(3,4) b \<open>b = Inr u\<close> rows Inr com by (simp_all add: insert_nodes_batch_def)
        have "control Commit (st x2) = Some (st x3)"
          using exec_Inr [OF assms(1) com [unfolded c]] by (simp add: is_control_def)
        then have "st x3 = (st x2)\<lparr>saved := []\<rparr>" using s3 by (simp add: control_def)
        then show ?thesis using eff Inr r s1 by simp
      qed
    qed
  qed
qed

text \<open>
  C17 A batch is inserted as a whole or not at all: on success the entries are appended in order
  with consecutive new identifiers, which are returned, and no transaction stays open; on an
  error, at whichever statement, the database is as before. Inside an open transaction every
  non-empty batch fails.
\<close>

theorem batch_all_or_nothing:
  assumes "sqlite_documented sq st" "reliable sq st Rollback" "insert_nodes_batch sq es x = (r, x')" "es \<noteq> []"
  shows "(case r of
      Inl err \<Rightarrow> st x' = st x
    | Inr ids \<Rightarrow> ids = map fst (batch_rows sq (node_seq (content (st x))) es) \<and> saved (st x') = [] \<and>
        content (st x') = (content (st x))\<lparr>
          node_rows := node_rows (content (st x)) @ batch_rows sq (node_seq (content (st x))) es,
          node_seq := node_seq (content (st x)) + int (length es)\<rparr>) \<and>
    (saved (st x) \<noteq> [] \<longrightarrow> \<not> has_value r)"
  by (rule insert_nodes_batch_effect [OF assms])

theorem batch_all_or_nothing_witness:
  "\<exists>ids x'. insert_nodes_batch model_engine [(''Batch'', \<lparr>rec_fields = []\<rparr>), (''Lot'', \<lparr>rec_fields = []\<rparr>)]
     (demo_database [1] []) = (Inr ids, x') \<and> ids = [10, 11]"
proof -
  let ?es = "[(''Batch'', \<lparr>rec_fields = []\<rparr>), (''Lot'', \<lparr>rec_fields = []\<rparr>)]" and ?x = "demo_database [1] []"
  obtain r x' where run: "insert_nodes_batch model_engine ?es ?x = (r, x')" by fastforce
  have "has_value r"
    using run by (auto simp: insert_nodes_batch_def exec_def step_of_def is_control_def control_def demo_database_def
        query_def change_def attempt_def Let_def split: prod.splits)
  moreover have "node_seq (content ?x) = 9" by (simp add: demo_database_def)
  ultimately show ?thesis
    using batch_all_or_nothing [OF model_engine_documented run] run
    by (cases r) (auto simp: batch_rows_Cons batch_rows_def [of _ _ "[]"])
qed

subsection \<open>A node written and read back\<close>

lemma c_str_id: "CHR 0x00 \<notin> set s \<Longrightarrow> c_str s = s"
  by (auto simp: c_str_def takeWhile_eq_all_conv)

lemma c_str_c_str [simp]: "c_str (c_str s) = c_str s"
  by (simp add: c_str_def takeWhile_idem)

lemma select_failed: "\<not> failed (Rows rows)"
  by simp

lemma node_columns_read:
  "read_node sq 0 (node_columns (i, ty, j)) =
     \<lparr>kn_id = i, kn_type = c_str ty, kn_properties = json_to_record (parse sq (c_str j))\<rparr>"
  by (simp add: read_node_def node_columns_def column_int_def column_string_def column_text_def read_record_def)

lemma select_node_rows:
  assumes "sqlite_documented sq st" "reliable sq st (Select_Node i)"
  shows "fst (run sq (Select_Node i) x) = Rows (map node_columns (filter (\<lambda>n. fst n = i) (node_rows (content (st x)))))"
proof -
  obtain r x' where run: "run sq (Select_Node i) x = (r, x')" by fastforce
  have "\<not> failed (fst (step_of (Select_Node i) (st x)))" by (simp add: step_of_def is_control_def query_def)
  then have "\<not> failed r" using assms(2) run unfolding reliable_def by (metis fst_conv)
  then show ?thesis using documented_query(1) [OF assms(1) run] run by (simp add: query_def is_control_def)
qed

lemma get_node_rows:
  assumes "sqlite_documented sq st" "reliable sq st (Select_Node i)"
  shows "get_node sq i x = (case filter (\<lambda>n. fst n = i) (node_rows (content (st x))) of
     [] \<Rightarrow> Inl (node_not_found i) | n # _ \<Rightarrow> Inr (read_node sq 0 (node_columns n)))"
  using select_node_rows [OF assms, of x] by (simp add: get_node_def select_rows_def split: list.split)

text \<open>
  C18 A node inserted under a fresh identifier is found again with its type and its fields: texts,
  integers and finite numbers as they were, every other field as the integer 0. (The type is cut
  at its first NUL.) The insertion ends the process exactly if a text or a name of a field is not UTF-8.
\<close>

theorem node_roundtrip:
  assumes "sqlite_documented sq st" "reliable sq st (Select_Node i)" "json_text_documented sq"
    and "sm_wf (rec_fields r)" "\<forall>n \<in> set (node_rows (content (st x))). fst n \<le> node_seq (content (st x))"
  shows "(insert_node_call sq ty r x = None \<longleftrightarrow> \<not> texts_ok (record_to_json r)) \<and>
    (insert_node_call sq ty r x = Some (Inr i, x') \<longrightarrow>
       get_node_call sq i x' = Some (Inr \<lparr>kn_id = i, kn_type = c_str ty, kn_properties = surviving_record r\<rparr>))"
proof (intro conjI impI)
  have ok: "dump_ok sq j \<longleftrightarrow> texts_ok j" for j using assms(3) by (simp add: json_text_documented_def)
  show "insert_node_call sq ty r x = None \<longleftrightarrow> \<not> texts_ok (record_to_json r)" by (simp add: insert_node_call_def ok)
  let ?t = "content (st x)" and ?j = "dump sq (record_to_json r)"
  assume call: "insert_node_call sq ty r x = Some (Inr i, x')"
  then have d: "dump_ok sq (record_to_json r)" and ins: "insert_node sq ty r x = (Inr i, x')"
    by (simp_all add: insert_node_call_def split: if_splits)
  have j: "parse_ok sq ?j" "parse sq ?j = text_form (record_to_json r)" "CHR 0x00 \<notin> set ?j"
    using assms(3) d unfolding json_text_documented_def by blast+
  obtain out x1 where run: "run sq (Insert_Node (c_str ty) (record_text sq r)) x = (out, x1)" by fastforce
  then have "x1 = x'" "\<exists>n. attempt ''prepare insert node: '' ''insert node: '' out = Inr (i, n)"
    using ins by (auto simp: insert_node_def and_then_Inr_iff)
  then have "out = Done i 1" "i = node_seq ?t + 1" "node_rows (content (st x')) = node_rows ?t @ [(i, c_str ty, record_text sq r)]"
    using insert_one [OF assms(1) run] by auto
  moreover have "filter (\<lambda>n. fst n = i) (node_rows ?t) = []"
    using assms(5) calculation(2) by (fastforce simp: filter_empty_conv)
  ultimately have row: "filter (\<lambda>n. fst n = i) (node_rows (content (st x'))) = [(i, c_str ty, record_text sq r)]" by simp
  have js: "record_text sq r = ?j" "c_str ?j = ?j" using j(3) by (simp_all add: record_text_def c_str_id)
  have "get_node_call sq i x' = Some (get_node sq i x')"
    using select_node_rows [OF assms(1,2), of x'] row js j(1)
    by (simp add: get_node_call_def select_rows_def node_columns_def column_text_def)
  moreover have "get_node sq i x' = Inr (read_node sq 0 (node_columns (i, c_str ty, record_text sq r)))"
    using get_node_rows [OF assms(1,2), of x'] row by simp
  moreover have "json_to_record (parse sq ?j) = surviving_record r" by (rule record_roundtrip [OF j(2) assms(4)])
  ultimately show "get_node_call sq i x' = Some (Inr \<lparr>kn_id = i, kn_type = c_str ty, kn_properties = surviving_record r\<rparr>)"
    using js by (simp add: node_columns_read)
qed

lemma model_engine_json: "json_text_documented model_engine"
  using unary_json_documented by (simp add: json_text_documented_def model_engine_def json_text.defs sqlite.defs)

lemma model_engine_texts:
  "parse model_engine (dump model_engine j) = text_form j" "CHR 0x00 \<notin> set (dump model_engine j)"
  using unary_json_texts by (simp_all add: model_engine_def json_text.defs sqlite.defs)

lemma model_engine_reads:
  "sm_wf (rec_fields r) \<Longrightarrow> json_to_record (parse model_engine (c_str (record_text model_engine r))) = surviving_record r"
  using record_roundtrip [OF model_engine_texts(1)] model_engine_texts(2) by (simp add: record_text_def c_str_id)

theorem node_roundtrip_witness:
  "\<exists>x'. insert_node_call model_engine ''Lot'' \<lparr>rec_fields = [(''size'', FInt 7), (''thumb'', FBinary [1, 2])]\<rparr> (demo_database [] []) = Some (Inr 10, x') \<and>
     get_node_call model_engine 10 x' = Some (Inr \<lparr>kn_id = 10, kn_type = ''Lot'',
       kn_properties = \<lparr>rec_fields = [(''size'', FInt 7), (''thumb'', FInt 0)]\<rparr>\<rparr>)"
proof -
  let ?r = "\<lparr>rec_fields = [(''size'', FInt 7), (''thumb'', FBinary [1, 2])]\<rparr>"
  have wf: "sm_wf (rec_fields ?r)" by (simp add: sm_wf_def less_char_def)
  have fresh: "\<forall>n \<in> set (node_rows (content (demo_database [] []))). fst n \<le> node_seq (content (demo_database [] []))"
    by (simp add: demo_database_def)
  note rt = node_roundtrip [OF model_engine_documented model_engine_json wf fresh]
  have "texts_ok (record_to_json ?r)"
    by (simp add: record_to_json_def fold_put_wf [OF wf, simplified] utf8_ok_def utf8_rest_def)
  then obtain q where "insert_node_call model_engine ''Lot'' ?r (demo_database [] []) = Some q"
    using rt [where i = 10 and ty = "''Lot''"] by blast
  then obtain x' where run: "insert_node_call model_engine ''Lot'' ?r (demo_database [] []) = Some (Inr 10, x')"
    by (auto simp: insert_node_call_def insert_node_def step_of_def is_control_def query_def change_def demo_database_def Let_def
        split: if_splits)
  from rt [where i = 10 and ty = "''Lot''" and x' = x'] run
  show ?thesis by (auto simp: c_str_def surviving_record_def surviving_def)
qed

end
