(* ===== verification/Knowledge_Store.thy ===== *)
theory Knowledge_Store
  imports Knowledge_Graph
begin

text \<open>
  The knowledge store (\<open>src/knowledge/knowledge_store.cpp\<close>): the graph with its change log
  (\<open>knowledge_evolution.cpp\<close>) and its snapshots (\<open>knowledge_snapshot.cpp\<close>). Time stamps are
  texts given from outside; reading them back is a parameter.
\<close>

subsection \<open>The change log\<close>

datatype evolution_op = Op_Insert | Op_Update | Op_Delete

record 'time evolution_entry =
  ev_id :: int
  ev_type :: string
  ev_entity :: int
  ev_operation :: evolution_op
  ev_version :: int
  ev_timestamp :: 'time
  ev_changed_by :: string
  ev_before :: knowledge_record

definition op_to_string :: "evolution_op \<Rightarrow> string" where
  "op_to_string opr = (case opr of Op_Insert \<Rightarrow> ''Insert'' | Op_Update \<Rightarrow> ''Update'' | Op_Delete \<Rightarrow> ''Delete'')"

definition string_to_op :: "string \<Rightarrow> evolution_op" where
  "string_to_op s = (if s = ''Insert'' then Op_Insert else if s = ''Update'' then Op_Update else Op_Delete)"

definition append_evolution :: "('x, 'z) sqlite_scheme \<Rightarrow> string \<Rightarrow> string \<Rightarrow> int \<Rightarrow> evolution_op \<Rightarrow>
    knowledge_record \<Rightarrow> string \<Rightarrow> 'x \<Rightarrow> unit result \<times> 'x" where
  "append_evolution sq now ty i opr before who x =
     (case run sq (Next_Version (c_str ty) i) x of
        (Prepare_Fails m, x1) \<Rightarrow> (Inl (db_error (''prepare version query: '' @ m)), x1)
      | (out, x1) \<Rightarrow>
          (let version = (case out of Rows (row # _) \<Rightarrow> column_int row 0 | _ \<Rightarrow> 1);
               before_json = (if opr = Op_Insert then [] else record_text sq before)
           in case run sq (Insert_Log (c_str ty) i (op_to_string opr) version (c_str who) before_json (c_str now)) x1 of
                (out2, x2) \<Rightarrow>
                  (and_then (attempt ''prepare insert evolution: '' ''insert evolution: '' out2) (\<lambda>_. Inr ()), x2)))"

definition read_entry :: "('x, 'z) sqlite_scheme \<Rightarrow> (string \<Rightarrow> 'time) \<Rightarrow> sql_value list \<Rightarrow> 'time evolution_entry" where
  "read_entry sq time row =
     \<lparr>ev_id = column_int row 0, ev_type = column_string row 1, ev_entity = column_int row 2,
      ev_operation = string_to_op (column_string row 3), ev_version = column_int row 4,
      ev_timestamp = time (column_string row 5), ev_changed_by = column_string row 6,
      ev_before = (if column_string row 7 = [] then \<lparr>rec_fields = []\<rparr>
                   else json_to_record (parse sq (column_string row 7)))\<rparr>"

definition get_history :: "('x, 'z) sqlite_scheme \<Rightarrow> (string \<Rightarrow> 'time) \<Rightarrow> string \<Rightarrow> int \<Rightarrow> 'x \<Rightarrow>
    'time evolution_entry list result" where
  "get_history sq time ty i x =
     and_then (select_rows ''prepare get history: '' (fst (run sq (Select_History ty i) x))) (\<lambda>rows.
       Inr (map (read_entry sq time) rows))"

definition get_changes_since :: "('x, 'z) sqlite_scheme \<Rightarrow> (string \<Rightarrow> 'time) \<Rightarrow> string \<Rightarrow> 'x \<Rightarrow>
    'time evolution_entry list result" where
  "get_changes_since sq time since x =
     and_then (select_rows ''prepare get changes since: '' (fst (run sq (Select_Since (c_str since)) x))) (\<lambda>rows.
       Inr (map (read_entry sq time) rows))"

subsection \<open>Snapshots\<close>

record 'time snapshot_info =
  si_id :: int
  si_label :: string
  si_created :: 'time
  si_nodes :: int
  si_edges :: int

text \<open>\<open>SELECT COUNT(*)\<close>, where an unexpected end counts as zero.\<close>

definition counted :: "string \<Rightarrow> outcome \<Rightarrow> int result" where
  "counted p r = and_then (select_rows p r) (\<lambda>rows. Inr (case rows of [] \<Rightarrow> 0 | row # _ \<Rightarrow> column_int row 0))"

definition savepoint_name :: "int \<Rightarrow> string" where
  "savepoint_name i = ''sp_'' @ int_str i"

definition create_snapshot :: "('x, 'z) sqlite_scheme \<Rightarrow> string \<Rightarrow> 'x \<Rightarrow> int result \<times> 'x" where
  "create_snapshot sq label x =
     (case run sq (Insert_Snapshot (c_str label)) (snd (exec sq Begin_Transaction x)) of
        (out, x1) \<Rightarrow>
          (case attempt ''prepare insert snapshot: '' ''insert snapshot: '' out of
             Inl err \<Rightarrow> (Inl err, x1)
           | Inr (i, _) \<Rightarrow>
               (case exec sq (Savepoint (savepoint_name i)) x1 of
                  (Inl m, x2) \<Rightarrow> (Inl (db_error m), x2)
                | (Inr _, x2) \<Rightarrow>
                    (case counted ''count nodes: '' (fst (run sq Count_Nodes x2)) of
                       Inl err \<Rightarrow> (Inl err, x2)
                     | Inr nodes \<Rightarrow>
                         (case counted ''count edges: '' (fst (run sq Count_Edges x2)) of
                            Inl err \<Rightarrow> (Inl err, x2)
                          | Inr edges \<Rightarrow>
                              (case run sq (Update_Snapshot (savepoint_name i) nodes edges i) x2 of
                                 (out2, x3) \<Rightarrow>
                                   (and_then (attempt ''update snapshot: '' ''update snapshot: '' out2) (\<lambda>_. Inr i), x3)))))))"

definition list_snapshots :: "('x, 'z) sqlite_scheme \<Rightarrow> (string \<Rightarrow> 'time) \<Rightarrow> 'x \<Rightarrow> 'time snapshot_info list result" where
  "list_snapshots sq time x =
     and_then (select_rows ''list snapshots: '' (fst (run sq Select_Snapshots x))) (\<lambda>rows.
       Inr (map (\<lambda>row. \<lparr>si_id = column_int row 0, si_label = column_string row 1,
         si_created = time (column_string row 2), si_nodes = column_int row 3, si_edges = column_int row 4\<rparr>) rows))"

definition lookup_savepoint :: "('x, 'z) sqlite_scheme \<Rightarrow> string \<Rightarrow> int \<Rightarrow> 'x \<Rightarrow> string result" where
  "lookup_savepoint sq p i x =
     and_then (select_rows p (fst (run sq (Select_Savepoint i) x))) (\<lambda>rows.
       case rows of
         [] \<Rightarrow> Inl (ErrorInfo Knowledge_SnapshotNotFound (''snapshot '' @ int_str i @ '' not found''))
       | row # _ \<Rightarrow> Inr (column_string row 0))"

definition restore_snapshot :: "('x, 'z) sqlite_scheme \<Rightarrow> int \<Rightarrow> 'x \<Rightarrow> unit result \<times> 'x" where
  "restore_snapshot sq i x =
     (case lookup_savepoint sq ''restore snapshot: '' i x of
        Inl err \<Rightarrow> (Inl err, x)
      | Inr name \<Rightarrow>
          (case exec sq (Rollback_To name) x of
             (Inl m, x1) \<Rightarrow> (Inl (ErrorInfo Knowledge_SnapshotRestoreFailed m), x1)
           | (Inr _, x1) \<Rightarrow> (Inr (), x1)))"

definition delete_snapshot :: "('x, 'z) sqlite_scheme \<Rightarrow> int \<Rightarrow> 'x \<Rightarrow> unit result \<times> 'x" where
  "delete_snapshot sq i x =
     (case lookup_savepoint sq ''delete snapshot lookup: '' i x of
        Inl err \<Rightarrow> (Inl err, x)
      | Inr name \<Rightarrow>
          (case exec sq (Release_Savepoint name) x of
             (Inl m, x1) \<Rightarrow> (Inl (ErrorInfo Knowledge_SnapshotRestoreFailed m), x1)
           | (Inr _, x1) \<Rightarrow>
               (case run sq (Delete_Snapshot i) x1 of
                  (out, x2) \<Rightarrow>
                    (and_then (attempt ''delete snapshot row: '' ''delete snapshot row: '' out) (\<lambda>_. Inr ()), x2))))"

subsection \<open>The store\<close>

text \<open>
  Every writing operation of the store appends to the change log when it is enabled; an error of
  the log is ignored. A change needs the properties from before.
\<close>

definition logged :: "('x, 'z) sqlite_scheme \<Rightarrow> bool \<Rightarrow> string \<Rightarrow> string \<Rightarrow> int \<Rightarrow> evolution_op \<Rightarrow>
    knowledge_record \<Rightarrow> string \<Rightarrow> 'x \<Rightarrow> 'x" where
  "logged sq enabled now ty i opr before who x =
     (if enabled then snd (append_evolution sq now ty i opr before who x) else x)"

definition before_image :: "('x, 'z) sqlite_scheme \<Rightarrow> bool \<Rightarrow> int \<Rightarrow> 'x \<Rightarrow> knowledge_record" where
  "before_image sq enabled i x =
     (if enabled then (case get_node sq i x of Inr n \<Rightarrow> kn_properties n | Inl _ \<Rightarrow> \<lparr>rec_fields = []\<rparr>)
      else \<lparr>rec_fields = []\<rparr>)"

definition store_insert_node :: "('x, 'z) sqlite_scheme \<Rightarrow> bool \<Rightarrow> string \<Rightarrow> string \<Rightarrow> knowledge_record \<Rightarrow>
    string \<Rightarrow> 'x \<Rightarrow> int result \<times> 'x" where
  "store_insert_node sq enabled now ty r who x =
     (case insert_node sq ty r x of
        (Inl err, x1) \<Rightarrow> (Inl err, x1)
      | (Inr i, x1) \<Rightarrow> (Inr i, logged sq enabled now ''Node'' i Op_Insert \<lparr>rec_fields = []\<rparr> who x1))"

definition store_update_node :: "('x, 'z) sqlite_scheme \<Rightarrow> bool \<Rightarrow> string \<Rightarrow> int \<Rightarrow> knowledge_record \<Rightarrow>
    string \<Rightarrow> 'x \<Rightarrow> unit result \<times> 'x" where
  "store_update_node sq enabled now i r who x =
     (case update_node sq i r x of
        (Inl err, x1) \<Rightarrow> (Inl err, x1)
      | (Inr _, x1) \<Rightarrow> (Inr (), logged sq enabled now ''Node'' i Op_Update (before_image sq enabled i x) who x1))"

definition store_delete_node :: "('x, 'z) sqlite_scheme \<Rightarrow> bool \<Rightarrow> string \<Rightarrow> int \<Rightarrow> string \<Rightarrow> 'x \<Rightarrow> unit result \<times> 'x" where
  "store_delete_node sq enabled now i who x =
     (case delete_node sq i x of
        (Inl err, x1) \<Rightarrow> (Inl err, x1)
      | (Inr _, x1) \<Rightarrow> (Inr (), logged sq enabled now ''Node'' i Op_Delete (before_image sq enabled i x) who x1))"

definition store_insert_edge :: "('x, 'z) sqlite_scheme \<Rightarrow> bool \<Rightarrow> string \<Rightarrow> int \<Rightarrow> int \<Rightarrow> string \<Rightarrow>
    knowledge_record \<Rightarrow> string \<Rightarrow> 'x \<Rightarrow> int result \<times> 'x" where
  "store_insert_edge sq enabled now a b rel r who x =
     (case insert_edge sq a b rel r x of
        (Inl err, x1) \<Rightarrow> (Inl err, x1)
      | (Inr i, x1) \<Rightarrow> (Inr i, logged sq enabled now ''Edge'' i Op_Insert \<lparr>rec_fields = []\<rparr> who x1))"

definition link_embedding :: "('x, 'z) sqlite_scheme \<Rightarrow> int \<Rightarrow> 64 word \<Rightarrow> 'x \<Rightarrow> unit result \<times> 'x" where
  "link_embedding sq n v x =
     (case run sq (Link_Vector (sint v) n) x of
        (out, x1) \<Rightarrow> (and_then (attempt ''prepare link_embedding: '' ''link_embedding: '' out) (\<lambda>_. Inr ()), x1))"

subsection \<open>Versions of the change log\<close>

definition entity_log :: "string \<Rightarrow> int \<Rightarrow> tables \<Rightarrow> (int \<times> string \<times> int \<times> string \<times> int \<times> string \<times> string \<times> string) list" where
  "entity_log ty i t = filter (\<lambda>l. fst (snd l) = ty \<and> fst (snd (snd l)) = i) (log_rows t)"

definition row_version :: "int \<times> string \<times> int \<times> string \<times> int \<times> string \<times> string \<times> string \<Rightarrow> int" where
  "row_version l = fst (snd (snd (snd (snd l))))"

text \<open>The versions of every entity are 1, 2, 3 and so on.\<close>

definition log_numbered :: "tables \<Rightarrow> bool" where
  "log_numbered t \<longleftrightarrow> (\<forall>ty i. map row_version (entity_log ty i t) = map int [1..<Suc (length (entity_log ty i t))])"

lemma fold_max_upt: "fold (\<lambda>l m. max m (f l)) ls (0 :: int) = int (length ls)"
  if "map f ls = map int [1..<Suc (length ls)]"
  using that
proof (induction ls rule: rev_induct)
  case (snoc l ls)
  then have "map f ls = map int [1..<Suc (length ls)] \<and> f l = int (Suc (length ls))" by simp
  then show ?case using snoc.IH by simp
qed simp

lemma next_version_row:
  assumes "log_numbered t"
  shows "query (Next_Version ty i) t = Some [[SqlInt (1 + int (length (entity_log ty i t)))]]"
  using fold_max_upt [of row_version "entity_log ty i t"] assms
  by (simp add: query_def log_numbered_def entity_log_def row_version_def)

lemma sorted_ints: "sorted (map int [1..<n])"
  by (induction n) (auto simp: sorted_append)

lemma sort_key_upt:
  "map f ls = map int [1..<Suc (length ls)] \<Longrightarrow> sort_key f ls = ls"
  using sorted_ints [of "Suc (length ls)"] by (simp add: sort_key_id_if_sorted del: upt_Suc)

lemma next_int: "map int [1..<Suc (Suc n)] = map int [1..<Suc n] @ [1 + int n]"
  by simp

lemma entity_log_append:
  "entity_log ty i (t\<lparr>log_rows := log_rows t @ [(k, ty', i', rest)], log_seq := s\<rparr>) =
     (if (ty, i) = (ty', i') then entity_log ty i t @ [(k, ty', i', rest)] else entity_log ty i t)"
  by (auto simp: entity_log_def)

lemma get_history_entries:
  assumes "sqlite_documented sq st" "log_numbered (content (st x))" "get_history sq time ty i x = Inr es"
    "\<not> failed (fst (run sq (Select_History ty i) x))"
  shows "es = map (read_entry sq time) (map log_columns (entity_log ty i (content (st x))))"
proof -
  obtain r x' where run: "run sq (Select_History ty i) x = (r, x')" by fastforce
  have "sort_key row_version (entity_log ty i (content (st x))) = entity_log ty i (content (st x))"
    using assms(2) by (intro sort_key_upt) (simp add: log_numbered_def)
  then have "query (Select_History ty i) (content (st x)) = Some (map log_columns (entity_log ty i (content (st x))))"
    by (simp add: query_def entity_log_def row_version_def [abs_def])
  from documented_query(1) [OF assms(1) run _ this] have "r = Rows (map log_columns (entity_log ty i (content (st x))))"
    using assms(4) run by (simp add: is_control_def)
  then show ?thesis using assms(3) run by (simp add: get_history_def select_rows_def)
qed

lemma next_version_read:
  assumes "sqlite_documented sq st" "reliable sq st (Next_Version ty i)" "log_numbered (content (st x))"
    and "run sq (Next_Version ty i) x = (out, x1)"
  shows "out = Rows [[SqlInt (1 + int (length (entity_log ty i (content (st x)))))]]" "st x1 = st x"
proof -
  note q = next_version_row [OF assms(3), of ty i]
  have "\<not> failed (fst (step_of (Next_Version ty i) (st x)))" by (simp add: step_of_def is_control_def q)
  then have ok: "\<not> failed out" using assms(2,4) unfolding reliable_def by (metis fst_conv)
  show "out = Rows [[SqlInt (1 + int (length (entity_log ty i (content (st x)))))]]" "st x1 = st x"
    using documented_query [OF assms(1,4) ok q] by (simp_all add: is_control_def)
qed

lemma append_evolution_effect:
  assumes "sqlite_documented sq st" "reliable sq st (Next_Version (c_str ty) i)" "log_numbered (content (st x))"
    and "append_evolution sq now ty i opr before who x = (r, x')"
  shows "(r \<noteq> Inr () \<and> (st x' = st x \<or> saved (st x) \<noteq> [] \<and> st x' = rolled_back (st x))) \<or>
    (\<exists>k rest. r = Inr () \<and> st x' = (st x)\<lparr>content := (content (st x))\<lparr>log_rows := log_rows (content (st x)) @
       [(k, c_str ty, i, op_to_string opr, 1 + int (length (entity_log (c_str ty) i (content (st x)))), rest)], log_seq := k\<rparr>\<rparr>)"
proof -
  let ?v = "1 + int (length (entity_log (c_str ty) i (content (st x))))"
  obtain out x1 where run: "run sq (Next_Version (c_str ty) i) x = (out, x1)" by fastforce
  note q = next_version_read [OF assms(1-3) run]
  obtain out2 x2 where run2: "run sq (Insert_Log (c_str ty) i (op_to_string opr) ?v (c_str who)
      (if opr = Op_Insert then [] else record_text sq before) (c_str now)) x1 = (out2, x2)" by fastforce
  have r: "r = and_then (attempt ''prepare insert evolution: '' ''insert evolution: '' out2) (\<lambda>_. Inr ())" "x' = x2"
    using assms(4) run run2 by (simp_all add: append_evolution_def q(1) column_int_def)
  show ?thesis
  proof (cases "failed out2")
    case True
    then have "r \<noteq> Inr ()" unfolding r(1) by (cases out2) (simp_all add: attempt_def)
    moreover have "st x' = st x \<or> saved (st x) \<noteq> [] \<and> st x' = rolled_back (st x)"
      using documented_failed [OF assms(1) run2 True] q(2) r(2) unfolding failure_effect_def by metis
    ultimately show ?thesis by blast
  next
    case False
    from documented_change [OF assms(1) run2 False] q(2) r show ?thesis
      by (auto simp: is_control_def query_def change_def Let_def)
  qed
qed

text \<open>
  A query for the next version that fails in its step is taken for an empty history: the entry is
  stored with version 1, whatever versions the entity has.
\<close>

theorem failed_version_query:
  assumes "sqlite_documented sq st" "run sq (Next_Version (c_str ty) i) x = (Step_Fails m, x1)"
    and "append_evolution sq now ty i opr before who x = (Inr (), x')"
  shows "\<exists>k rest. log_rows (content (st x')) = log_rows (content (st x)) @ [(k, c_str ty, i, op_to_string opr, 1, rest)]"
proof -
  have same: "st x1 = st x"
    using documented_failed [OF assms(1,2)] failure_keeps [of "Next_Version (c_str ty) i" "st x" "st x1"]
    by (simp add: keeps_transaction_def)
  obtain out2 x2 where run2: "run sq (Insert_Log (c_str ty) i (op_to_string opr) 1 (c_str who)
      (if opr = Op_Insert then [] else record_text sq before) (c_str now)) x1 = (out2, x2)" by fastforce
  then have "x' = x2" "has_value (attempt ''prepare insert evolution: '' ''insert evolution: '' out2)"
    using assms(2,3) by (auto simp: append_evolution_def and_then_Inr_iff has_value_iff)
  moreover from this(2) have "\<not> failed out2" by (cases out2) (simp_all add: attempt_def)
  ultimately show ?thesis
    using documented_change [OF assms(1) run2] same by (auto simp: is_control_def query_def change_def Let_def)
qed

text \<open>
  The change log numbers the versions of every entity 1, 2, 3 and so on, as long as the query for the
  next version does not fail: appending to such a log keeps it so, extends the history of its
  entity by exactly one entry with the next version and the operation, and leaves the histories
  of all other entities alone; an append that fails changes nothing, unless the engine takes back the
  transaction that is open. The history is read back in this order. (If the query fails in its
  step, the version is 1 again, see \<open>failed_version_query\<close>.)
\<close>

theorem history_versions:
  assumes "sqlite_documented sq st" "reliable sq st (Next_Version (c_str ty) i)"
    and "reliable sq st (Select_History (c_str ty) i)" "log_numbered (content (st x))"
    and "\<forall>s \<in> set (saved (st x)). log_numbered (snd s)"
    and "append_evolution sq now ty i opr before who x = (r, x')" "get_history sq time (c_str ty) i x' = Inr es"
  shows "log_numbered (content (st x')) \<and> (r \<noteq> Inr () \<longrightarrow> st x' = st x \<or> saved (st x) \<noteq> [] \<and> st x' = rolled_back (st x)) \<and>
    map ev_version es = map int [1..<Suc (length es)] \<and>
    (r = Inr () \<longrightarrow> length es = Suc (length (entity_log (c_str ty) i (content (st x)))) \<and> ev_operation (last es) = opr \<and>
       (\<forall>ty2 i2. (ty2, i2) \<noteq> (c_str ty, i) \<longrightarrow> entity_log ty2 i2 (content (st x')) = entity_log ty2 i2 (content (st x))))"
proof -
  let ?log = "entity_log (c_str ty) i"
  note effect = append_evolution_effect [OF assms(1,2,4,6)]
  have numbered: "log_numbered (content (st x'))"
  proof (cases "r = Inr ()")
    case True
    then obtain k rest where e: "content (st x') = (content (st x))\<lparr>log_rows := log_rows (content (st x)) @
        [(k, c_str ty, i, op_to_string opr, 1 + int (length (?log (content (st x)))), rest)], log_seq := k\<rparr>"
      using effect by auto
    show ?thesis
      unfolding log_numbered_def e entity_log_append
      using assms(4) next_int [of "length (?log (content (st x)))"]
      by (simp add: log_numbered_def row_version_def del: upt_Suc)
  next
    case False
    then have "st x' = st x \<or> saved (st x) \<noteq> [] \<and> st x' = rolled_back (st x)" using effect by blast
    then show ?thesis using assms(4,5) by (auto simp: rolled_back_def)
  qed
  have "\<not> failed (fst (step_of (Select_History (c_str ty) i) (st x')))" by (simp add: step_of_def is_control_def query_def)
  then have "\<not> failed (fst (run sq (Select_History (c_str ty) i) x'))" using assms(3) unfolding reliable_def by blast
  note es = get_history_entries [OF assms(1) numbered assms(7) this]
  have ver: "map ev_version es = map row_version (?log (content (st x')))" "length es = length (?log (content (st x')))"
    unfolding es by (auto simp: read_entry_def log_columns_def column_int_def row_version_def split: prod.split)
  then have versions: "map ev_version es = map int [1..<Suc (length es)]"
    using numbered by (simp add: log_numbered_def del: upt_Suc)
  have "length es = Suc (length (?log (content (st x)))) \<and> ev_operation (last es) = opr \<and>
      (\<forall>ty2 i2. (ty2, i2) \<noteq> (c_str ty, i) \<longrightarrow> entity_log ty2 i2 (content (st x')) = entity_log ty2 i2 (content (st x)))"
    if ok: "r = Inr ()"
  proof -
    obtain k rest where e: "content (st x') = (content (st x))\<lparr>log_rows := log_rows (content (st x)) @
        [(k, c_str ty, i, op_to_string opr, 1 + int (length (?log (content (st x)))), rest)], log_seq := k\<rparr>"
      using effect ok by auto
    have "?log (content (st x')) = ?log (content (st x)) @
        [(k, c_str ty, i, op_to_string opr, 1 + int (length (?log (content (st x)))), rest)]"
      unfolding e entity_log_append by simp
    moreover have "string_to_op (c_str (op_to_string opr)) = opr"
      by (cases opr) (simp_all add: op_to_string_def string_to_op_def c_str_def)
    ultimately show ?thesis
      unfolding es e entity_log_append
      by (cases rest) (auto simp: read_entry_def log_columns_def column_string_def column_text_def)
  qed
  then show ?thesis using numbered versions effect by auto
qed

theorem history_versions_witness:
  "\<exists>x1 x2 es. append_evolution model_engine [] ''Node'' 1 Op_Insert \<lparr>rec_fields = []\<rparr> ''system'' (demo_database [1] []) = (Inr (), x1) \<and>
     append_evolution model_engine [] ''Node'' 1 Op_Update \<lparr>rec_fields = []\<rparr> ''system'' x1 = (Inr (), x2) \<and>
     get_history model_engine id ''Node'' 1 x2 = Inr es \<and> map ev_version es = [1, 2]"
proof -
  note defs = append_evolution_def step_of_def is_control_def query_def change_def column_int_def Let_def
    op_to_string_def c_str_def get_history_def select_rows_def
  obtain x1 where x1: "append_evolution model_engine [] ''Node'' 1 Op_Insert \<lparr>rec_fields = []\<rparr> ''system'' (demo_database [1] []) = (Inr (), x1)"
      "log_rows (content x1) = [(1, ''Node'', 1, ''Insert'', 1, [], ''system'', [])]"
    by (simp add: defs demo_database_def)
  have numbered: "log_numbered (content x1)"
    by (simp add: log_numbered_def entity_log_def row_version_def x1(2))
  obtain x2 where x2: "append_evolution model_engine [] ''Node'' 1 Op_Update \<lparr>rec_fields = []\<rparr> ''system'' x1 = (Inr (), x2)"
    by (simp add: defs x1(2))
  obtain es where es: "get_history model_engine id (c_str ''Node'') 1 x2 = Inr es"
    by (simp add: defs)
  have "saved x1 = []" using x1(1) by (auto simp: defs demo_database_def)
  then have "\<forall>s \<in> set (saved x1). log_numbered (snd s)" by simp
  from history_versions [OF model_engine_documented(1) model_engine_documented(2) model_engine_documented(2) numbered this x2 es]
  have "map ev_version es = map int [1..<Suc (length es)]" "length es = 2"
    by (simp_all add: entity_log_def x1(2) c_str_def)
  then have "map ev_version es = [1, 2]" by (simp add: numeral_2_eq_2)
  then show ?thesis using x1(1) x2 es by (auto simp: c_str_def)
qed

subsection \<open>A snapshot can be restored once\<close>

lemma no_nul_nat_str: "CHR 0x00 \<notin> set (nat_str n)"
  by (rule nat_str_not_char) simp

lemma savepoint_name_text: "c_str (savepoint_name i) = savepoint_name i" "savepoint_name i \<noteq> []"
  using no_nul_nat_str by (auto simp: savepoint_name_def int_str_def intro!: c_str_id)

lemma begin_content:
  assumes "sqlite_documented sq st"
  shows "content (st (snd (exec sq Begin_Transaction x))) = content (st x)"
proof -
  obtain r x1 where e: "exec sq Begin_Transaction x = (r, x1)" by fastforce
  show ?thesis
  proof (cases r)
    case (Inl m)
    then have "st x1 = st x"
      using exec_Inl [OF assms e [unfolded Inl]] failure_keeps [of Begin_Transaction "st x" "st x1"] by (simp add: keeps_transaction_def)
    then show ?thesis using e by simp
  next
    case (Inr u)
    then have "control Begin_Transaction (st x) = Some (st x1)"
      using exec_Inr [OF assms e [unfolded Inr]] by (simp add: is_control_def)
    then have "saved (st x) = [] \<and> st x1 = (st x)\<lparr>saved := [(None, content (st x))]\<rparr>"
      by (auto simp: control_def split: if_splits)
    then show ?thesis using e by simp
  qed
qed

lemma insert_snapshot_effect:
  assumes "sqlite_documented sq st" "run sq (Insert_Snapshot label) x = (Done i n, x')"
  defines "t \<equiv> content (st x)"
  shows "i = snap_seq t + 1" "(\<forall>s \<in> set (snap_rows t). fst (snd (snd s)) \<noteq> [])"
    "st x' = (st x)\<lparr>content := t\<lparr>snap_rows := snap_rows t @ [(i, label, [], 0, 0)], snap_seq := i\<rparr>\<rparr>"
proof -
  obtain t' where c: "change (Insert_Snapshot label) t = Some (Done i n, t')" "st x' = (st x)\<lparr>content := t'\<rparr>"
    using documented_change [OF assms(1,2)] unfolding t_def by (auto simp: is_control_def query_def)
  have "\<forall>s \<in> set (snap_rows t). fst (snd (snd s)) \<noteq> []"
    using c(1) by (auto simp: change_def Let_def split: if_splits)
  moreover from this have "i = snap_seq t + 1 \<and> t' = t\<lparr>snap_rows := snap_rows t @ [(i, label, [], 0, 0)], snap_seq := i\<rparr>"
    using c(1) by (auto simp: change_def Let_def split: if_splits)
  ultimately show "i = snap_seq t + 1" "(\<forall>s \<in> set (snap_rows t). fst (snd (snd s)) \<noteq> [])"
    "st x' = (st x)\<lparr>content := t\<lparr>snap_rows := snap_rows t @ [(i, label, [], 0, 0)], snap_seq := i\<rparr>\<rparr>"
    using c(2) by simp_all
qed

text \<open>What a successful creation leaves: the savepoint holds the row without its name.\<close>

definition named_rows :: "int \<Rightarrow> string \<Rightarrow> int \<Rightarrow> int \<Rightarrow> (int \<times> string \<times> string \<times> int \<times> int) list \<Rightarrow>
    (int \<times> string \<times> string \<times> int \<times> int) list" where
  "named_rows i name n e rows = map (\<lambda>s. if fst s = i then (i, fst (snd s), name, n, e) else s) rows"

lemma create_snapshot_effect:
  assumes "sqlite_documented sq st" "create_snapshot sq label x = (Inr i, x')"
  defines "t \<equiv> content (st x)"
  defines "t1 \<equiv> t\<lparr>snap_rows := snap_rows t @ [(i, c_str label, [], 0, 0)], snap_seq := i\<rparr>"
  shows "\<exists>tail nodes edges. i = snap_seq t + 1 \<and> saved (st x') = (Some (savepoint_name i), t1) # tail \<and>
    content (st x') = t1\<lparr>snap_rows := named_rows i (savepoint_name i) nodes edges (snap_rows t1)\<rparr>"
proof -
  let ?xb = "snd (exec sq Begin_Transaction x)"
  obtain out x1 where ins: "run sq (Insert_Snapshot (c_str label)) ?xb = (out, x1)" by fastforce
  obtain n where out: "attempt ''prepare insert snapshot: '' ''insert snapshot: '' out = Inr (i, n)"
    using assms(2) ins by (auto simp: create_snapshot_def and_then_Inr_iff split: sum.splits prod.splits)
  then have "out = Done i n" by simp
  note i = insert_snapshot_effect [OF assms(1) ins [unfolded this], unfolded begin_content [OF assms(1)], folded t_def]
  have c1: "content (st x1) = t1" using i(3) by (simp add: t1_def)
  obtain r2 x2 where sp: "exec sq (Savepoint (savepoint_name i)) x1 = (r2, x2)" by fastforce
  obtain nodes edges where counts: "counted ''count nodes: '' (fst (run sq Count_Nodes x2)) = Inr nodes"
      "counted ''count edges: '' (fst (run sq Count_Edges x2)) = Inr edges"
    and r2: "r2 = Inr ()"
    using assms(2) ins out sp by (auto simp: create_snapshot_def split: sum.splits prod.splits)
  obtain out3 x3 where upd: "run sq (Update_Snapshot (savepoint_name i) nodes edges i) x2 = (out3, x3)" by fastforce
  have "x' = x3" "has_value (attempt ''update snapshot: '' ''update snapshot: '' out3)"
    using assms(2) ins out sp r2 counts upd
    by (auto simp: create_snapshot_def has_value_iff and_then_Inr_iff)
  have "control (Savepoint (savepoint_name i)) (st x1) = Some (st x2)"
    using exec_Inr [OF assms(1) sp [unfolded r2]] by (simp add: is_control_def)
  then have "st x2 = (st x1)\<lparr>saved := (Some (savepoint_name i), t1) # saved (st x1)\<rparr>"
    using savepoint_name_text(2) c1 by (simp add: control_def)
  then have s2: "saved (st x2) = (Some (savepoint_name i), t1) # saved (st x1)" "content (st x2) = t1"
    using c1 by simp_all
  have "\<not> failed out3" using \<open>has_value _\<close> by (cases out3) (simp_all add: attempt_def)
  from documented_change [OF assms(1) upd this]
  have "content (st x3) = t1\<lparr>snap_rows := named_rows i (savepoint_name i) nodes edges (snap_rows t1)\<rparr> \<and>
      saved (st x3) = saved (st x2)"
    using s2(2) by (auto simp: is_control_def query_def change_def named_rows_def split: if_splits)
  then show ?thesis using i(1) s2(1) \<open>x' = x3\<close> by auto
qed

lemma lookup_savepoint_row:
  assumes "sqlite_documented sq st" "filter (\<lambda>s. fst s = i) (snap_rows (content (st x))) = [(i, label, name, n, e)]"
    and "lookup_savepoint sq p i x = Inr name'"
  shows "name' = c_str name"
proof -
  obtain r x' where run: "run sq (Select_Savepoint i) x = (r, x')" by fastforce
  have q: "query (Select_Savepoint i) (content (st x)) = Some [[SqlText name]]"
    using assms(2) by (simp add: query_def)
  show ?thesis
  proof (cases "failed r")
    case True
    then show ?thesis using assms(3) run by (cases r) (simp_all add: lookup_savepoint_def select_rows_def)
  next
    case False
    then have "r = Rows [[SqlText name]]" using documented_query(1) [OF assms(1) run _ q] by (simp add: is_control_def)
    then show ?thesis using assms(3) run
      by (simp add: lookup_savepoint_def select_rows_def column_string_def column_text_def)
  qed
qed

text \<open>A restore that succeeds has found its savepoint under the name in the row.\<close>

lemma restore_snapshot_effect:
  assumes "sqlite_documented sq st" "filter (\<lambda>s. fst s = i) (snap_rows (content (st x))) = [(i, label, name, n, e)]"
    and "restore_snapshot sq i x = (Inr (), x')"
  shows "control (Rollback_To (c_str name)) (st x) = Some (st x')"
proof -
  obtain name' where l: "lookup_savepoint sq ''restore snapshot: '' i x = Inr name'"
    using assms(3) by (auto simp: restore_snapshot_def split: sum.splits)
  note name' = lookup_savepoint_row [OF assms(1,2) l]
  obtain r x1 where e: "exec sq (Rollback_To (c_str name)) x = (r, x1)" by fastforce
  have "r = Inr ()" "x1 = x'" using assms(3) l e name' by (auto simp: restore_snapshot_def split: sum.splits)
  then show ?thesis using exec_Inr [OF assms(1)] e by (simp add: is_control_def)
qed

lemma create_snapshot_blocked:
  assumes "sqlite_documented sq st" "\<exists>s \<in> set (snap_rows (content (st x))). fst (snd (snd s)) = []"
  shows "\<not> has_value (fst (create_snapshot sq label x))"
proof
  assume "has_value (fst (create_snapshot sq label x))"
  then obtain i x' where c: "create_snapshot sq label x = (Inr i, x')"
    by (cases "create_snapshot sq label x") (auto simp: has_value_iff)
  let ?xb = "snd (exec sq Begin_Transaction x)"
  obtain out x1 where ins: "run sq (Insert_Snapshot (c_str label)) ?xb = (out, x1)" by fastforce
  obtain j n where "attempt ''prepare insert snapshot: '' ''insert snapshot: '' out = Inr (j, n)"
    using c ins by (auto simp: create_snapshot_def split: sum.splits prod.splits)
  then have "out = Done j n" by simp
  from insert_snapshot_effect(2) [OF assms(1) ins [unfolded this]] assms(2) show False
    by (simp add: begin_content [OF assms(1)])
qed

text \<open>
  A snapshot can be restored once: the restore brings the graph and its log back to the state
  at the creation, whatever was changed since, but it also takes back the name of the savepoint in
  the row of the snapshot. From then on restoring it again always fails, and so does creating any
  further snapshot, because the names are unique.
\<close>

theorem snapshot_restores_once:
  assumes "sqlite_documented sq st" "\<forall>s \<in> set (snap_rows (content (st x))). fst s \<le> snap_seq (content (st x))"
    and "create_snapshot sq label x = (Inr i, x1)"
    and "saved (st x2) = saved (st x1)" "snap_rows (content (st x2)) = snap_rows (content (st x1))"
    and "restore_snapshot sq i x2 = (Inr (), x3)"
  shows "node_rows (content (st x3)) = node_rows (content (st x)) \<and>
    edge_rows (content (st x3)) = edge_rows (content (st x)) \<and>
    log_rows (content (st x3)) = log_rows (content (st x)) \<and>
    \<not> has_value (fst (restore_snapshot sq i x3)) \<and> \<not> has_value (fst (create_snapshot sq label2 x3))"
proof -
  let ?t = "content (st x)"
  define t1 where "t1 = ?t\<lparr>snap_rows := snap_rows ?t @ [(i, c_str label, [], 0, 0)], snap_seq := i\<rparr>"
  obtain tail nodes edges where c: "i = snap_seq ?t + 1" "saved (st x1) = (Some (savepoint_name i), t1) # tail"
      "content (st x1) = t1\<lparr>snap_rows := named_rows i (savepoint_name i) nodes edges (snap_rows t1)\<rparr>"
    using create_snapshot_effect [OF assms(1,3), folded t1_def] by blast
  have old: "filter (\<lambda>s. fst s = i) (snap_rows ?t) = []"
    using assms(2) c(1) by (fastforce simp: filter_empty_conv)
  have row1: "filter (\<lambda>s. fst s = i) (snap_rows t1) = [(i, c_str label, [], 0, 0)]" using old by (simp add: t1_def)
  have "filter (\<lambda>s. fst s = i) (named_rows i (savepoint_name i) nodes edges rows) =
      map (\<lambda>s. (i, fst (snd s), savepoint_name i, nodes, edges)) (filter (\<lambda>s. fst s = i) rows)" for rows
    by (induction rows) (auto simp: named_rows_def)
  then have "filter (\<lambda>s. fst s = i) (snap_rows (content (st x2))) = [(i, c_str label, savepoint_name i, nodes, edges)]"
    using assms(5) c(3) row1 by simp
  from restore_snapshot_effect [OF assms(1) this assms(6)]
  have "control (Rollback_To (savepoint_name i)) (st x2) = Some (st x3)" by (simp add: savepoint_name_text)
  then have "st x3 = \<lparr>content = t1, saved = (Some (savepoint_name i), t1) # tail\<rparr>"
    using assms(4) c(2) by (simp add: control_def split: if_splits)
  then have x3: "content (st x3) = t1" "saved (st x3) = (Some (savepoint_name i), t1) # tail" by simp_all
  have "\<not> has_value (fst (restore_snapshot sq i x3))"
  proof
    assume "has_value (fst (restore_snapshot sq i x3))"
    then obtain y where "restore_snapshot sq i x3 = (Inr (), y)"
      by (cases "restore_snapshot sq i x3") (auto simp: has_value_iff)
    from restore_snapshot_effect [OF assms(1) row1 [folded x3(1)] this] show False
      by (simp add: c_str_def control_def split: list.splits)
  qed
  moreover have "\<not> has_value (fst (create_snapshot sq label2 x3))"
    using x3(1) by (intro create_snapshot_blocked [OF assms(1)]) (simp add: t1_def)
  ultimately show ?thesis using x3(1) by (simp add: t1_def)
qed

theorem snapshot_restores_once_witness:
  "\<exists>x1 x3. create_snapshot model_engine ''v1'' (demo_database [1] []) = (Inr 1, x1) \<and>
     restore_snapshot model_engine 1 x1 = (Inr (), x3) \<and> \<not> has_value (fst (restore_snapshot model_engine 1 x3))"
proof -
  note defs = create_snapshot_def restore_snapshot_def lookup_savepoint_def exec_def step_of_def is_control_def
    control_def query_def change_def demo_database_def counted_def select_rows_def column_int_def column_string_def
    column_text_def savepoint_name_text Let_def
  obtain x1 where x1: "create_snapshot model_engine ''v1'' (demo_database [1] []) = (Inr 1, x1)"
      "restore_snapshot model_engine 1 x1 = (Inr (), snd (restore_snapshot model_engine 1 x1))"
    by (simp add: defs)
  from snapshot_restores_once [OF model_engine_documented(1) _ x1(1) refl refl x1(2)] x1
  show ?thesis by (auto simp: demo_database_def)
qed

subsection \<open>The log methods of the graph\<close>

text \<open>\<open>KnowledgeGraph\<close> repeats the three methods of the change log.\<close>

definition kg_append_evolution :: "('x, 'z) sqlite_scheme \<Rightarrow> string \<Rightarrow> string \<Rightarrow> int \<Rightarrow> evolution_op \<Rightarrow>
    knowledge_record \<Rightarrow> string \<Rightarrow> 'x \<Rightarrow> unit result \<times> 'x" where
  "kg_append_evolution sq now ty i opr before who x = append_evolution sq now ty i opr before who x"

definition kg_get_evolution_history :: "('x, 'z) sqlite_scheme \<Rightarrow> (string \<Rightarrow> 'time) \<Rightarrow> string \<Rightarrow> int \<Rightarrow> 'x \<Rightarrow>
    'time evolution_entry list result" where
  "kg_get_evolution_history sq time ty i x = get_history sq time ty i x"

definition kg_get_evolution_since :: "('x, 'z) sqlite_scheme \<Rightarrow> (string \<Rightarrow> 'time) \<Rightarrow> string \<Rightarrow> 'x \<Rightarrow>
    'time evolution_entry list result" where
  "kg_get_evolution_since sq time since x = get_changes_since sq time since x"

end
