(* ===== verification/Vector_Path.thy ===== *)
theory Vector_Path
  imports Doubles
begin

text \<open>
  Vector search (\<open>src/retrieval/vector_path.cpp\<close>): dimension and emptiness checks, and the three
  modes. The FAISS index is third-party code: its two searches are parameters.
\<close>

datatype search_mode = Top_K | Range | Hybrid

record search_config =
  sc_mode :: search_mode
  sc_k :: nat
  range_threshold :: dbl
  id_subset :: "nat list"

record vector_result =
  vr_index :: nat
  vr_distance :: dbl

text \<open>
  A nearest-neighbour search returns exactly \<open>k\<close> labels with their distances, padded with \<open>-1\<close>; it
  may be restricted to a list of identifiers.
\<close>

record faiss_index =
  knn :: "dbl list \<Rightarrow> nat \<Rightarrow> nat list option \<Rightarrow> (int \<times> dbl) list"
  range_hits :: "dbl list \<Rightarrow> dbl \<Rightarrow> (nat \<times> dbl) list"

record search_bank =
  bank_dim :: nat
  num_samples :: nat
  bank_index :: "faiss_index option"

definition labelled :: "(int \<times> dbl) list \<Rightarrow> vector_result list" where
  "labelled ls = map (\<lambda>(l, d). \<lparr>vr_index = nat l, vr_distance = d\<rparr>) (takeWhile (\<lambda>(l, d). 0 \<le> l) ls)"

definition topk_search :: "faiss_index \<Rightarrow> dbl list \<Rightarrow> nat \<Rightarrow> vector_result list" where
  "topk_search ix q k = labelled (knn ix q k None)"

definition search :: "search_bank \<Rightarrow> dbl list \<Rightarrow> search_config \<Rightarrow> vector_result list result" where
  "search bank q cfg =
     (if length q \<noteq> bank_dim bank
      then Inl (ErrorInfo Retrieval_DimensionMismatch (''query dimension '' @ nat_str (length q) @
             '' does not match index dimension '' @ nat_str (bank_dim bank)))
      else case bank_index bank of
             None \<Rightarrow> Inl (ErrorInfo Retrieval_EmptyIndex ''FeatureBank is empty'')
           | Some ix \<Rightarrow>
               if num_samples bank = 0 then Inl (ErrorInfo Retrieval_EmptyIndex ''FeatureBank is empty'')
               else Inr (case sc_mode cfg of
                  Top_K \<Rightarrow> topk_search ix q (min (sc_k cfg) (num_samples bank))
                | Range \<Rightarrow> map (\<lambda>(l, d). \<lparr>vr_index = l, vr_distance = d\<rparr>) (range_hits ix q (range_threshold cfg))
                | Hybrid \<Rightarrow>
                    (if id_subset cfg = [] then topk_search ix q (min (sc_k cfg) (num_samples bank))
                     else labelled (knn ix q (min (sc_k cfg) (length (id_subset cfg))) (Some (id_subset cfg))))))"

text \<open>What FAISS documents of a search: as many labels as asked for.\<close>

definition faiss_documented :: "faiss_index \<Rightarrow> bool" where
  "faiss_documented ix \<longleftrightarrow> (\<forall>q k sel. length (knn ix q k sel) = k)"

lemma labelled_length: "length (labelled ls) \<le> length ls"
  by (simp add: labelled_def length_takeWhile_le)

lemma search_at_most_k:
  assumes "search bank q cfg = Inr rs" "sc_mode cfg = Top_K" "\<And>ix. bank_index bank = Some ix \<Longrightarrow> faiss_documented ix"
  shows "length rs \<le> min (sc_k cfg) (num_samples bank)"
proof -
  obtain ix where ix: "bank_index bank = Some ix" "rs = topk_search ix q (min (sc_k cfg) (num_samples bank))"
    using assms(1,2) by (auto simp: search_def split: if_splits option.splits)
  then show ?thesis
    using assms(3) [OF ix(1)] labelled_length [of "knn ix q (min (sc_k cfg) (num_samples bank)) None"]
    by (simp add: topk_search_def faiss_documented_def)
qed

end
