(* ===== verification/Double_Order.thy ===== *)
theory Double_Order
  imports Doubles
begin

text \<open>
  Rounding and order: rounding is monotone, leaves the values of the format alone, and errs by at
  most half a unit. \<open>d_representable\<close> says that a value is one of the format; every result of an
  operation is.
\<close>

subsection \<open>Rounding is monotone\<close>

lemma round_even_mono: "p \<le> q \<Longrightarrow> round_even p \<le> round_even q"
proof (rule ccontr)
  assume pq: "p \<le> q" and "\<not> round_even p \<le> round_even q"
  then have lt: "round_even q < round_even p" by simp
  have "p \<le> of_int (round_even q) \<Longrightarrow> round_even p \<le> round_even q" by (rule round_even_le)
  then have p: "of_int (round_even q) < p" using lt by linarith
  have "of_int (round_even p) \<le> q \<Longrightarrow> round_even p \<le> round_even q" by (rule round_even_ge)
  then have q: "q < of_int (round_even p)" using lt by linarith
  have f: "\<lfloor>p\<rfloor> \<le> \<lfloor>q\<rfloor>" using pq by (rule floor_mono)
  have bounds: "round_even q \<in> {\<lfloor>q\<rfloor>, \<lfloor>q\<rfloor> + 1}" "round_even p \<in> {\<lfloor>p\<rfloor>, \<lfloor>p\<rfloor> + 1}"
    by (auto simp: round_even_def Let_def)
  then have eq: "\<lfloor>p\<rfloor> = \<lfloor>q\<rfloor>" "round_even q = \<lfloor>q\<rfloor>" "round_even p = \<lfloor>p\<rfloor> + 1" using lt f by auto
  define n where "n = \<lfloor>q\<rfloor>"
  have "\<not> 1 / 2 < q - of_int n" "1 / 2 \<le> p - of_int n"
    using eq by (auto simp: round_even_def n_def Let_def split: if_splits)
  then have "p = q" using pq by linarith
  then show False using lt by simp
qed

lemma round_even_error: "\<bar>of_int (round_even q) - q\<bar> \<le> 1 / 2"
proof -
  define n where "n = \<lfloor>q\<rfloor>"
  have "of_int n \<le> q" "q < of_int n + 1" unfolding n_def by linarith+
  then show ?thesis by (auto simp: round_even_def Let_def n_def [symmetric])
qed

lemma rounded_mono:
  assumes "0 < p" "p \<le> q"
  shows "rounded p \<le> rounded q"
proof -
  have q: "0 < q" using assms by linarith
  have "pow2 (ilog2 p) < pow2 (ilog2 q + 1)" using ilog2_le [OF assms(1)] ilog2_less [OF q] assms(2) by linarith
  then have le: "ilog2 p \<le> ilog2 q" by (simp add: pow2_less_iff)
  show ?thesis
  proof (cases "max (ilog2 p - 52) (-1074) = max (ilog2 q - 52) (-1074 :: int)")
    case True
    have "p / pow2 u \<le> q / pow2 u" for u using assms(2) by (simp add: divide_right_mono less_imp_le)
    then have "of_int (round_even (p / pow2 u)) \<le> (of_int (round_even (q / pow2 u)) :: rat)" for u
      using round_even_mono by (simp only: of_int_le_iff)
    then show ?thesis unfolding rounded_def True Let_def by (intro mult_right_mono) (simp_all add: less_imp_le)
  next
    case False
    then have lt: "ilog2 p < ilog2 q" "-1022 < ilog2 q" using le by auto
    have "p \<le> pow2 (ilog2 p + 1)" using ilog2_less [OF assms(1)] by simp
    also have "\<dots> \<le> pow2 (ilog2 q)" using lt(1) by (intro pow2_mono) simp
    finally have "rounded p \<le> pow2 (ilog2 q)" using rounded_le_pow2(2) [OF assms(1)] lt(2) by simp
    also have "\<dots> \<le> rounded q" using rounded_ge_pow2 [OF ilog2_le [OF q]] lt(2) by simp
    finally show ?thesis .
  qed
qed

text \<open>The error, for values between \<open>v\<close> and \<open>16 v\<close> where \<open>v\<close> is at least the least positive double.\<close>

lemma rounded_error:
  assumes "pow2 (-1074) \<le> v" "0 < q" "q \<le> 16 * v"
  shows "q - v / 2 \<le> rounded q"
proof -
  define u where "u = max (ilog2 q - 52) (-1074)"
  have "pow2 (ilog2 q - 52) \<le> q / 16"
  proof -
    have "16 * pow2 (ilog2 q - 52) = pow2 (ilog2 q - 48)" using pow2_add [of 4 "ilog2 q - 52"] by (simp add: pow2_def [of 4])
    also have "\<dots> \<le> pow2 (ilog2 q)" by (intro pow2_mono) simp
    finally show ?thesis using ilog2_le [OF assms(2)] by linarith
  qed
  then have u: "pow2 u \<le> v" using assms(1,3) by (auto simp: u_def max_def)
  have "\<bar>of_int (round_even (q / pow2 u)) - q / pow2 u\<bar> * pow2 u \<le> 1 / 2 * pow2 u"
    by (intro mult_right_mono round_even_error) (simp add: less_imp_le)
  then have "\<bar>(of_int (round_even (q / pow2 u)) - q / pow2 u) * pow2 u\<bar> \<le> pow2 u / 2"
    by (simp add: abs_mult less_imp_le)
  then have "\<bar>rounded q - q\<bar> \<le> pow2 u / 2"
    unfolding rounded_def u_def [symmetric] Let_def by (simp add: left_diff_distrib less_imp_neq [THEN not_sym])
  then show ?thesis using u by linarith
qed

lemma rounded_least: "0 < q \<Longrightarrow> 0 < rounded q \<Longrightarrow> pow2 (-1074) \<le> rounded q"
proof -
  assume q: "0 < q" and r: "0 < rounded q"
  define u where "u = max (ilog2 q - 52) (-1074)"
  have e: "rounded q = of_int (round_even (q / pow2 u)) * pow2 u" by (simp add: rounded_def u_def Let_def)
  have "0 < of_int (round_even (q / pow2 u)) * pow2 u" using r unfolding e .
  then have "(0 :: rat) < of_int (round_even (q / pow2 u))" by (rule zero_less_mult_pos2 [OF _ pow2_pos])
  then have "0 < round_even (q / pow2 u)" by simp
  then have "1 * pow2 u \<le> rounded q" unfolding e by (intro mult_right_mono) (simp_all add: less_imp_le)
  moreover have "pow2 (-1074) \<le> pow2 u" by (intro pow2_mono) (simp add: u_def)
  ultimately show ?thesis by linarith
qed

subsection \<open>Representable values\<close>

definition representable :: "rat \<Rightarrow> bool" where
  "representable q \<longleftrightarrow> q = 0 \<or> rounded \<bar>q\<bar> = \<bar>q\<bar>"

lemma rounded_nonneg: "0 < q \<Longrightarrow> 0 \<le> rounded q"
proof -
  assume q: "0 < q"
  have "q \<le> pow2 (max (ilog2 q + 1) (-1022))"
    using ilog2_less [OF q] pow2_mono [of "ilog2 q + 1" "max (ilog2 q + 1) (-1022)"] by simp
  then show ?thesis by (rule rounded_le_pow2(1) [OF q _ max.cobounded2])
qed

lemma rounded_idem: "0 < q \<Longrightarrow> 0 < rounded q \<Longrightarrow> rounded (rounded q) = rounded q"
proof -
  assume q: "0 < q" and r: "0 < rounded q"
  define u where "u = max (ilog2 q - 52) (-1074)"
  define n where "n = round_even (q / pow2 u)"
  have e: "rounded q = of_int n * pow2 u" by (simp add: rounded_def u_def n_def Let_def)
  define w where "w = max (ilog2 (rounded q) - 52) (-1074)"
  have "0 < of_int n * pow2 u" using r unfolding e .
  then have "(0 :: rat) < of_int n" by (rule zero_less_mult_pos2 [OF _ pow2_pos])
  then have n: "0 < n" by simp
  have "q / pow2 u < pow2 53"
  proof -
    have "q < pow2 (ilog2 q + 1)" by (rule ilog2_less [OF q])
    also have "\<dots> \<le> pow2 (53 + u)" by (intro pow2_mono) (simp add: u_def)
    finally show ?thesis by (simp add: pow2_add pos_divide_less_eq)
  qed
  then have "q / pow2 u \<le> of_int (2 ^ 53)" by (simp add: pow2_def)
  then have "n \<le> 2 ^ 53" unfolding n_def by (rule round_even_le)
  show ?thesis
  proof (cases "n = 2 ^ 53")
    case True
    then have p: "rounded q = pow2 (53 + u)" unfolding e by (simp add: pow2_add pow2_def [of 53])
    have "-1022 \<le> 53 + u" by (simp add: u_def)
    then show ?thesis using rounded_ge_pow2 [of "53 + u" "pow2 (53 + u)"] rounded_le_pow2(2) [of "pow2 (53 + u)" "53 + u"]
      unfolding p by simp
  next
    case False
    then have lt: "n < 2 ^ 53" using \<open>n \<le> 2 ^ 53\<close> by simp
    have "rounded q < pow2 (53 + u)"
      unfolding e pow2_add using lt by (intro mult_strict_right_mono) (simp_all add: pow2_def [of 53])
    then have le: "rounded q \<le> pow2 (53 + u)" by simp
    note g = rounded_grid [OF r le, of u n]
    have "53 + u - 52 \<le> u + 1" by simp
    have "pow2 (ilog2 (rounded q)) < pow2 (53 + u)" using ilog2_le [OF r] \<open>rounded q < pow2 (53 + u)\<close> by linarith
    then have "ilog2 (rounded q) < 53 + u" by (simp add: pow2_less_iff)
    then have wu: "w \<le> u" by (simp add: w_def u_def)
    have "rounded q / pow2 w = of_int (n * 2 ^ nat (u - w))"
      using wu pow2_add [of "u - w" w] unfolding e by (simp add: pow2_nonneg_int less_imp_neq [OF pow2_pos, THEN not_sym])
    then have "of_int (round_even (rounded q / pow2 w)) = rounded q / pow2 w" by (simp only: round_even_of_int)
    then show ?thesis unfolding rounded_def [of "rounded q"] w_def [symmetric] Let_def
      by (simp add: less_imp_neq [THEN not_sym])
  qed
qed

lemma representable_rounded: "0 < q \<Longrightarrow> representable (rounded q)"
  using rounded_idem [of q] rounded_nonneg [of q] by (cases "rounded q = 0") (auto simp: representable_def)

lemma representable_le_rounded: "representable x \<Longrightarrow> 0 < q \<Longrightarrow> x \<le> q \<Longrightarrow> x \<le> rounded q"
  using rounded_mono [of x q] rounded_nonneg [of q] by (cases "0 < x") (auto simp: representable_def)

lemma rounded_le_representable: "representable x \<Longrightarrow> 0 < q \<Longrightarrow> q \<le> x \<Longrightarrow> rounded q \<le> x"
  using rounded_mono [of q x] by (auto simp: representable_def)

end
