(* ===== verification/Float32.thy ===== *)
theory Float32
  imports Double_Order "HOL-Library.Word"
begin

text \<open>
  Single precision. A \<open>float\<close> is a value of \<open>dbl\<close>; an operation on floats is the operation on
  doubles, rounded again to 24 bits, which gives the correctly rounded result because 53 bits are
  at least twice 24 and two more. Also: the square root of the standard library, and the four
  bytes a float occupies in memory (little-endian), which the feature files are made of.
\<close>

subsection \<open>Arithmetic\<close>

fun to_float :: "dbl \<Rightarrow> dbl" where
  "to_float (Fin s q) = round_fmt binary32 s q"
| "to_float d = d"

definition f_lit :: "rat \<Rightarrow> dbl" where
  "f_lit q = round_rat binary32 q"

definition f_add :: "dbl \<Rightarrow> dbl \<Rightarrow> dbl" where
  "f_add x y = to_float (d_add x y)"

definition f_sub :: "dbl \<Rightarrow> dbl \<Rightarrow> dbl" where
  "f_sub x y = to_float (d_sub x y)"

definition f_mul :: "dbl \<Rightarrow> dbl \<Rightarrow> dbl" where
  "f_mul x y = to_float (d_mul x y)"

definition f_div :: "dbl \<Rightarrow> dbl \<Rightarrow> dbl" where
  "f_div x y = to_float (d_div x y)"

text \<open>The conversion of a size to \<open>float\<close> rounds once, to 24 bits.\<close>

definition f_of_nat :: "nat \<Rightarrow> dbl" where
  "f_of_nat n = round_rat binary32 (of_nat n)"

fun d_abs :: "dbl \<Rightarrow> dbl" where
  "d_abs NaN = NaN"
| "d_abs (Inf s) = Inf False"
| "d_abs (Fin s q) = Fin False q"

text \<open>\<open>std::min (a, b)\<close> and \<open>std::max (a, b)\<close> compare once and return the first argument unless the
  second is strictly smaller (greater).\<close>

definition d_min :: "dbl \<Rightarrow> dbl \<Rightarrow> dbl" where
  "d_min a b = (if d_lt b a then b else a)"

definition d_max :: "dbl \<Rightarrow> dbl \<Rightarrow> dbl" where
  "d_max a b = (if d_lt a b then b else a)"

text \<open>A floating-point value as a size: truncated, undefined when the result is not a 64-bit
  unsigned number.\<close>

definition to_size :: "dbl \<Rightarrow> nat option" where
  "to_size d =
     (case d of
        Fin s q \<Rightarrow> (if s \<and> 1 \<le> q \<or> 2 ^ 64 \<le> q then None else Some (if s then 0 else nat \<lfloor>q\<rfloor>))
      | _ \<Rightarrow> None)"

subsection \<open>The square root\<close>

function isqrt :: "nat \<Rightarrow> nat" where
  "isqrt n = (if n = 0 then 0 else let r = 2 * isqrt (n div 4) in if (r + 1) * (r + 1) \<le> n then r + 1 else r)"
  by auto
termination by (relation "measure id") auto

declare isqrt.simps [simp del]

lemma isqrt_bounds: "isqrt n * isqrt n \<le> n \<and> n < (isqrt n + 1) * (isqrt n + 1)"
proof (induction n rule: isqrt.induct)
  case (1 n)
  show ?case
  proof (cases "n = 0")
    case True
    then show ?thesis by (simp add: isqrt.simps)
  next
    case False
    define s where "s = isqrt (n div 4)"
    have "s * s \<le> n div 4" "n div 4 < (s + 1) * (s + 1)" using 1 [OF False] by (simp_all add: s_def)
    then have s: "2 * s * (2 * s) \<le> n" "n < (2 * s + 2) * (2 * s + 2)"
      by (simp_all add: algebra_simps)
    have e: "isqrt n = (if (2 * s + 1) * (2 * s + 1) \<le> n then 2 * s + 1 else 2 * s)"
      using False by (subst isqrt.simps) (simp add: s_def Let_def)
    show ?thesis
    proof (cases "(2 * s + 1) * (2 * s + 1) \<le> n")
      case True
      then have i: "isqrt n = 2 * s + 1" using e by simp
      have "2 * s + 1 + 1 = 2 * s + 2" by simp
      then show ?thesis unfolding i using True s(2) by metis
    next
      case False
      then have i: "isqrt n = 2 * s" using e by simp
      show ?thesis unfolding i using False s(1) by (simp only: not_le)
    qed
  qed
qed

text \<open>\<open>std::sqrt\<close> is correctly rounded: the root is scaled to lie between \<open>2^52\<close> and \<open>2^53\<close>, its
  integral part taken, and one added if the root exceeds it by more than a half (it is never
  exactly between two doubles).\<close>

definition scaled_root :: "rat \<Rightarrow> int \<Rightarrow> nat" where
  "scaled_root q u =
     (let x = q / pow2 (2 * u); n = isqrt (nat \<lfloor>x\<rfloor>)
      in if (of_nat n + 1 / 2) * (of_nat n + 1 / 2) < x then n + 1 else n)"

definition sqrt_mag :: "rat \<Rightarrow> rat" where
  "sqrt_mag q = (let u = ilog2 q div 2 - 52 in of_nat (scaled_root q u) * pow2 u)"

fun d_sqrt :: "dbl \<Rightarrow> dbl" where
  "d_sqrt NaN = NaN"
| "d_sqrt (Inf s) = (if s then NaN else Inf False)"
| "d_sqrt (Fin s q) = (if q = 0 then Fin s q else if s then NaN else Fin False (sqrt_mag q))"

definition f_sqrt :: "dbl \<Rightarrow> dbl" where
  "f_sqrt x = to_float (d_sqrt x)"

lemma scaled_root_bounds:
  assumes "2 ^ 20 \<le> q / pow2 (2 * u)"
  shows "9 / 10 * (q / pow2 (2 * u)) \<le> of_nat (scaled_root q u) * of_nat (scaled_root q u)"
    and "of_nat (scaled_root q u) * of_nat (scaled_root q u) \<le> 11 / 10 * (q / pow2 (2 * u))"
    and "0 < scaled_root q u"
proof -
  define x where "x = q / pow2 (2 * u)"
  define n where "n = isqrt (nat \<lfloor>x\<rfloor>)"
  have x: "2 ^ 20 \<le> x" using assms by (simp add: x_def)
  have "0 \<le> \<lfloor>x\<rfloor>" using x by simp
  then have "rat_of_nat (nat \<lfloor>x\<rfloor>) = of_int \<lfloor>x\<rfloor>" by (rule of_nat_nat)
  then have f: "of_nat (nat \<lfloor>x\<rfloor>) \<le> x" "x < of_nat (nat \<lfloor>x\<rfloor>) + 1" by linarith+
  have "n * n \<le> nat \<lfloor>x\<rfloor>" "nat \<lfloor>x\<rfloor> + 1 \<le> (n + 1) * (n + 1)"
    using isqrt_bounds [of "nat \<lfloor>x\<rfloor>"] by (simp_all add: n_def)
  then have "of_nat (n * n) \<le> (of_nat (nat \<lfloor>x\<rfloor>) :: rat)" "of_nat (nat \<lfloor>x\<rfloor> + 1) \<le> (of_nat ((n + 1) * (n + 1)) :: rat)"
    by (simp_all only: of_nat_le_iff)
  moreover define r :: rat where "r = of_nat n"
  ultimately have "r * r \<le> of_nat (nat \<lfloor>x\<rfloor>)" "of_nat (nat \<lfloor>x\<rfloor>) + 1 \<le> (r + 1) * (r + 1)"
    by (simp_all only: of_nat_mult of_nat_add of_nat_1)
  then have r: "r * r \<le> x" "x < (r + 1) * (r + 1)" using f by linarith+
  have "1000 \<le> r"
  proof (rule ccontr)
    assume "\<not> 1000 \<le> r"
    then have "(r + 1) * (r + 1) \<le> 1001 * 1001" using r_def by (intro mult_mono) auto
    then show False using r(2) x by simp
  qed
  then have "1000 * r \<le> r * r" by (intro mult_right_mono) simp_all
  have up: "(r + 1) * (r + 1) = r * r + 2 * r + 1" by (simp add: algebra_simps)
  have eq: "of_nat (scaled_root q u) = r + 1 \<or> of_nat (scaled_root q u) = r"
    unfolding scaled_root_def x_def [symmetric] n_def [symmetric] Let_def r_def by simp
  show "9 / 10 * (q / pow2 (2 * u)) \<le> of_nat (scaled_root q u) * of_nat (scaled_root q u)"
    "of_nat (scaled_root q u) * of_nat (scaled_root q u) \<le> 11 / 10 * (q / pow2 (2 * u))"
    unfolding x_def [symmetric] using eq r up \<open>1000 * r \<le> r * r\<close> \<open>1000 \<le> r\<close> by (elim disjE; simp; linarith)+
  have "(0 :: rat) < of_nat (scaled_root q u)" using eq \<open>1000 \<le> r\<close> by linarith
  then show "0 < scaled_root q u" by simp
qed

lemma sqrt_mag_bounds:
  assumes "0 < q"
  shows "0 < sqrt_mag q" "9 / 10 * q \<le> sqrt_mag q * sqrt_mag q" "sqrt_mag q * sqrt_mag q \<le> 11 / 10 * q"
proof -
  define u where "u = ilog2 q div 2 - 52"
  have "2 * u + 104 \<le> ilog2 q" by (simp add: u_def)
  then have "pow2 (2 * u + 104) \<le> pow2 (ilog2 q)" by (rule pow2_mono)
  also have "\<dots> \<le> q" by (rule ilog2_le [OF assms])
  finally have "pow2 104 \<le> q / pow2 (2 * u)" by (simp add: pow2_add le_divide_eq mult.commute)
  then have big: "2 ^ 20 \<le> q / pow2 (2 * u)" by (simp add: pow2_def)
  define s :: rat where "s = of_nat (scaled_root q u)"
  have e: "sqrt_mag q = s * pow2 u" by (simp add: sqrt_mag_def u_def s_def Let_def)
  have sq: "sqrt_mag q * sqrt_mag q = s * s * pow2 (2 * u)" unfolding e mult_2 [of u] pow2_add by (simp only: ac_simps)
  note b = scaled_root_bounds [OF big, folded s_def]
  show "0 < sqrt_mag q" unfolding e using b(3) by (simp add: s_def)
  have "9 / 10 * (q / pow2 (2 * u)) * pow2 (2 * u) \<le> s * s * pow2 (2 * u)"
    "s * s * pow2 (2 * u) \<le> 11 / 10 * (q / pow2 (2 * u)) * pow2 (2 * u)"
    using b(1,2) by (intro mult_right_mono; simp add: less_imp_le)+
  then show "9 / 10 * q \<le> sqrt_mag q * sqrt_mag q" "sqrt_mag q * sqrt_mag q \<le> 11 / 10 * q"
    unfolding sq by (simp_all add: less_imp_neq [OF pow2_pos, THEN not_sym])
qed

subsection \<open>The bytes of a float\<close>

text \<open>
  IEEE-754 single precision: 23 bits of significand, 8 of exponent, one sign. All NaNs are one
  value of the model; a NaN is written as the quiet one.
\<close>

definition decode32 :: "nat \<Rightarrow> dbl" where
  "decode32 w =
     (let s = (2 ^ 31 \<le> w); ex = (w div 2 ^ 23) mod 2 ^ 8; man = w mod 2 ^ 23
      in if ex = 255 then (if man = 0 then Inf s else NaN)
         else if ex = 0 then Fin s (of_nat man * pow2 (-149))
         else Fin s (of_nat (2 ^ 23 + man) * pow2 (int ex - 150)))"

fun encode_mag :: "rat \<Rightarrow> nat" where
  "encode_mag q =
     (let u = max (ilog2 q - 23) (-149); man = nat \<lfloor>q / pow2 u\<rfloor>
      in if man < 2 ^ 23 then man else nat (u + 150) * 2 ^ 23 + (man - 2 ^ 23))"

fun encode32 :: "dbl \<Rightarrow> nat" where
  "encode32 NaN = 255 * 2 ^ 23 + 2 ^ 22"
| "encode32 (Inf s) = (if s then 2 ^ 31 else 0) + 255 * 2 ^ 23"
| "encode32 (Fin s q) = (if s then 2 ^ 31 else 0) + (if q = 0 then 0 else encode_mag q)"

definition is_f32 :: "dbl \<Rightarrow> bool" where
  "is_f32 x \<longleftrightarrow> encode32 x < 2 ^ 32 \<and> decode32 (encode32 x) = x"

definition float_bytes :: "dbl \<Rightarrow> 8 word list" where
  "float_bytes x = (let w = encode32 x in map (\<lambda>i. word_of_nat (w div 256 ^ i)) [0, 1, 2, 3])"

fun bytes_floats :: "8 word list \<Rightarrow> dbl list" where
  "bytes_floats (a # b # c # d # bs) =
     decode32 (unat a + 256 * unat b + 256 ^ 2 * unat c + 256 ^ 3 * unat d) # bytes_floats bs"
| "bytes_floats bs = []"

lemma encode_mag_shape:
  assumes "ex < 255" "man < 2 ^ 23" "0 < ex \<or> 0 < man"
  shows "encode_mag (if ex = 0 then of_nat man * pow2 (-149) else of_nat (2 ^ 23 + man) * pow2 (int ex - 150))
           = ex * 2 ^ 23 + man"
proof (cases "ex = 0")
  case True
  have q: "of_nat man * pow2 (-149) < pow2 (-126)"
  proof -
    have "rat_of_nat man < of_nat (2 ^ 23)" using assms(2) by (simp only: of_nat_less_iff)
    then have "of_nat man * pow2 (-149) < of_nat (2 ^ 23) * pow2 (-149)" by (intro mult_strict_right_mono) simp_all
    also have "rat_of_nat (2 ^ 23) * pow2 (-149) = pow2 (-126)" by (simp add: pow2_def)
    finally show ?thesis .
  qed
  have pos: "0 < of_nat man * pow2 (-149)" using assms(3) True by simp
  have "pow2 (ilog2 (of_nat man * pow2 (-149))) < pow2 (-126)" using ilog2_le [OF pos] q by linarith
  then have "ilog2 (of_nat man * pow2 (-149)) < -126" by (simp add: pow2_less_iff)
  then have u: "max (ilog2 (of_nat man * pow2 (-149)) - 23) (-149) = -149" by simp
  show ?thesis using True assms(2) by (simp add: u less_imp_neq [OF pow2_pos, THEN not_sym] del: of_nat_mult)
next
  case False
  define q :: rat where "q = of_nat (2 ^ 23 + man) * pow2 (int ex - 150)"
  have m: "rat_of_nat (2 ^ 23) \<le> of_nat (2 ^ 23 + man)" "rat_of_nat (2 ^ 23 + man) < of_nat (2 ^ 24)"
    using assms(2) by (simp_all only: of_nat_less_iff of_nat_le_iff; simp)+
  have "rat_of_nat (2 ^ 23) * pow2 (int ex - 150) \<le> q" "q < rat_of_nat (2 ^ 24) * pow2 (int ex - 150)"
    unfolding q_def using m by (intro mult_right_mono mult_strict_right_mono; simp add: less_imp_le)+
  then have "pow2 23 * pow2 (int ex - 150) \<le> q" "q < pow2 24 * pow2 (int ex - 150)" by (simp_all add: pow2_def [of 23] pow2_def [of 24])
  then have l: "pow2 (int ex - 127) \<le> q" "q < pow2 (int ex - 127 + 1)" by (simp_all add: pow2_add [symmetric])
  have "ilog2 q = int ex - 127" using l by (rule ilog2_eqI)
  then have u: "max (ilog2 q - 23) (-149) = int ex - 150" using False by simp
  have "q / pow2 (int ex - 150) = of_nat (2 ^ 23 + man)"
    unfolding q_def by (simp add: less_imp_neq [OF pow2_pos, THEN not_sym])
  then have "nat \<lfloor>q / pow2 (int ex - 150)\<rfloor> = 2 ^ 23 + man" by (simp only: floor_of_nat nat_int)
  then have "encode_mag q = ex * 2 ^ 23 + man" unfolding encode_mag.simps u Let_def by simp
  then show ?thesis using False by (simp add: q_def)
qed

lemma decode_encode_decode: "w < 2 ^ 32 \<Longrightarrow> is_f32 (decode32 w)"
proof -
  assume w: "w < 2 ^ 32"
  define s ex man where "s = (2 ^ 31 \<le> w)" and "ex = (w div 2 ^ 23) mod 2 ^ 8" and "man = w mod 2 ^ 23"
  have ex: "ex < 256" "man < 2 ^ 23" by (simp_all add: ex_def man_def)
  have d: "decode32 w = (if ex = 255 then (if man = 0 then Inf s else NaN)
      else Fin s (if ex = 0 then of_nat man * pow2 (-149) else of_nat (2 ^ 23 + man) * pow2 (int ex - 150)))"
    by (simp add: decode32_def s_def ex_def man_def Let_def)
  define v :: nat where "v = (if s then 2 ^ 31 else 0) + (ex * 2 ^ 23 + man)"
  have ve: "v = ((if s then 256 else 0) + ex) * 2 ^ 23 + man" by (simp add: v_def)
  have vd: "v div 2 ^ 23 = (if s then 256 else 0) + ex" "v mod 2 ^ 23 = man" using ex(2) unfolding ve by (simp_all only: div_mult_self3 mod_mult_self3 mod_less div_less add_0_right; simp)+
  have em: "ex * 2 ^ 23 + man < 2 ^ 31" using ex by simp
  then have v: "2 ^ 31 \<le> v \<longleftrightarrow> s" "(v div 2 ^ 23) mod 2 ^ 8 = ex" "v mod 2 ^ 23 = man" "v < 2 ^ 32"
    using ex vd by (simp_all add: v_def)
  have dv: "decode32 v = decode32 w"
    unfolding d unfolding decode32_def Let_def v by simp
  have nan: "decode32 (255 * 2 ^ 23 + 2 ^ 22) = NaN" by (simp add: decode32_def)
  show ?thesis
  proof (cases "ex = 255")
    case True
    show ?thesis
    proof (cases "man = 0")
      case z: True
      then have "decode32 w = Inf s" "encode32 (Inf s) = v" using True by (simp_all add: d v_def)
      then show ?thesis using dv v(4) by (simp add: is_f32_def)
    next
      case False
      then have "decode32 w = NaN" using True by (simp add: d)
      then show ?thesis using nan by (simp add: is_f32_def)
    qed
  next
    case False
    show ?thesis
    proof (cases "ex = 0 \<and> man = 0")
      case True
      then have "decode32 w = Fin s 0" "encode32 (Fin s 0) = v" by (simp_all add: d v_def)
      then show ?thesis using dv v(4) by (simp add: is_f32_def)
    next
      case nz: False
      have e: "encode_mag (if ex = 0 then of_nat man * pow2 (-149) else of_nat (2 ^ 23 + man) * pow2 (int ex - 150)) = ex * 2 ^ 23 + man"
        using ex False nz by (intro encode_mag_shape) auto
      have "(if ex = 0 then of_nat man * pow2 (-149) else of_nat (2 ^ 23 + man) * pow2 (int ex - 150)) \<noteq> 0"
        using nz pow2_pos [THEN less_imp_neq, THEN not_sym] by (auto simp del: of_nat_add)
      then have "encode32 (decode32 w) = v" unfolding d using False e by (simp add: v_def del: encode_mag.simps)
      then show ?thesis using dv v(4) by (simp add: is_f32_def)
    qed
  qed
qed

lemma bytes_of_nat:
  fixes w :: nat
  assumes "w < 2 ^ 32"
  shows "w mod 256 + 256 * (w div 256 mod 256) + 256 ^ 2 * (w div 256 ^ 2 mod 256) + 256 ^ 3 * (w div 256 ^ 3 mod 256) = w"
proof -
  define a b c where "a = w div 256" and "b = a div 256" and "c = b div 256"
  have d: "w div 256 ^ 2 = b" "w div 256 ^ 3 = c" by (simp_all add: a_def b_def c_def div_mult2_eq [symmetric] power2_eq_square power3_eq_cube)
  have "c div 256 = 0" using assms by (simp add: a_def b_def c_def div_mult2_eq [symmetric])
  then have "c mod 256 = c" by (metis mod_eq_self_iff_div_eq_0)
  have key: "w = x + 256 * a \<Longrightarrow> a = y + 256 * b \<Longrightarrow> b = z + 256 * c \<Longrightarrow>
      x + 256 * y + 256 * 256 * z + 256 * 256 * 256 * c = w" for x y z by simp
  have "w mod 256 + 256 * (a mod 256) + 256 * 256 * (b mod 256) + 256 * 256 * 256 * c = w"
    by (rule key) (simp_all add: a_def b_def c_def)
  then show ?thesis unfolding d \<open>c mod 256 = c\<close> unfolding a_def [symmetric] power2_eq_square power3_eq_cube .
qed

lemma bytes_floats_bytes: "list_all is_f32 xs \<Longrightarrow> bytes_floats (concat (map float_bytes xs)) = xs"
proof (induction xs)
  case (Cons x xs)
  have w: "encode32 x < 2 ^ 32" "decode32 (encode32 x) = x" using Cons.prems by (simp_all add: is_f32_def)
  have b: "float_bytes x = [word_of_nat (encode32 x), word_of_nat (encode32 x div 256),
      word_of_nat (encode32 x div 256 ^ 2), word_of_nat (encode32 x div 256 ^ 3)]"
    by (simp add: float_bytes_def Let_def)
  have u: "unat (word_of_nat n :: 8 word) = n mod 256" for n by (simp add: unat_of_nat)
  show ?case
    unfolding list.map concat.simps b append.simps bytes_floats.simps u bytes_of_nat [OF w(1)] w(2)
    using Cons by simp
qed simp

lemma bytes_length: "length (concat (map float_bytes xs)) = 4 * length xs"
  by (induction xs) (simp_all add: float_bytes_def Let_def)

subsection \<open>The quotient of two sizes\<close>

text \<open>\<open>static_cast<std::size_t>(double(a) / double(b))\<close> is the integer quotient: the rounded
  quotient never reaches the next integer.\<close>

lemma rounded_rel_error:
  assumes "1 \<le> q"
  shows "rounded q \<le> q + q / 2 ^ 53"
proof -
  define u where "u = max (ilog2 q - 52) (-1074)"
  have q: "0 < q" using assms by linarith
  have "pow2 0 < pow2 (ilog2 q + 1)" using ilog2_less [OF q] assms unfolding pow2_0 by linarith
  then have "0 \<le> ilog2 q" by (simp add: pow2_less_iff del: pow2_0)
  then have u: "u = ilog2 q - 52" by (simp add: u_def)
  have "2 ^ 52 * pow2 u = pow2 (ilog2 q)" using pow2_add [of 52 u] by (simp add: u pow2_def [of 52])
  then have pu: "pow2 u \<le> q / 2 ^ 52" using ilog2_le [OF q] by simp
  have "of_int (round_even (q / pow2 u)) \<le> q / pow2 u + 1 / 2" using round_even_error [of "q / pow2 u"] by linarith
  then have "of_int (round_even (q / pow2 u)) * pow2 u \<le> (q / pow2 u + 1 / 2) * pow2 u"
    by (intro mult_right_mono) (simp_all add: less_imp_le)
  then have "rounded q \<le> q + pow2 u / 2"
    unfolding rounded_def u_def [symmetric] Let_def
    by (simp add: distrib_right less_imp_neq [OF pow2_pos, THEN not_sym])
  then show ?thesis using pu by simp
qed

lemma rounded_of_nat: "0 < n \<Longrightarrow> n < 2 ^ 53 \<Longrightarrow> rounded (of_nat n) = of_nat n"
proof -
  assume n: "0 < n" "n < 2 ^ 53"
  have "d_of_nat n = Fin False (of_nat n)" using n(2) by (rule d_of_nat_exact)
  then show ?thesis using n by (auto simp: d_of_nat_def d_of_int_def round_rat_def round_binary64 split: if_splits)
qed

lemma size_quotient:
  assumes "0 < b" "b \<le> a" "a < 2 ^ 53"
  shows "to_size (d_div (d_of_nat a) (d_of_nat b)) = Some (a div b)"
proof -
  define q :: rat where "q = of_nat a / of_nat b"
  have b: "(1 :: rat) \<le> of_nat b" "(of_nat b :: rat) \<le> of_nat a" using assms by simp_all
  then have bp: "(0 :: rat) < of_nat b" by linarith
  have "a div b * b \<le> a" "a + 1 \<le> (a div b + 1) * b"
    using div_times_less_eq_dividend [of a b] dividend_less_div_times [OF assms(1), of a] by simp_all
  then have "rat_of_nat (a div b * b) \<le> of_nat a" "rat_of_nat (a + 1) \<le> of_nat ((a div b + 1) * b)"
    by (simp_all only: of_nat_le_iff)
  then have k: "of_nat (a div b) \<le> q" "q + 1 / of_nat b \<le> of_nat (a div b) + 1"
    using bp by (simp_all add: q_def pos_le_divide_eq pos_divide_le_eq add_divide_distrib [symmetric] algebra_simps)
  have q1: "1 \<le> q" using b by (simp add: q_def le_divide_eq)
  have pos: "0 < a div b" using assms by (simp add: div_greater_zero_iff)
  have small: "a div b < 2 ^ 53" using assms by (meson div_le_dividend le_less_trans)
  have "rounded (of_nat (a div b)) \<le> rounded q" using rounded_mono [of "of_nat (a div b)" q] pos k(1) by simp
  then have lo: "of_nat (a div b) \<le> rounded q" using rounded_of_nat [OF pos small] by simp
  have "rat_of_nat a < of_nat (2 ^ 53)" using assms(3) by (simp only: of_nat_less_iff)
  then have "q / 2 ^ 53 < 1 / of_nat b" using bp by (simp add: q_def field_simps)
  then have hi: "rounded q < of_nat (a div b) + 1" using rounded_rel_error [OF q1] k(2) by linarith
  have "\<lfloor>rounded q\<rfloor> = int (a div b)" using lo hi by (intro floor_unique) simp_all
  moreover have "rat_of_nat (a div b) + 1 \<le> 2 ^ 53"
  proof -
    have "rat_of_nat (a div b + 1) \<le> of_nat (2 ^ 53)" using small by (simp only: of_nat_le_iff)
    then show ?thesis by simp
  qed
  then have "rounded q < 2 ^ 53" using hi by linarith
  moreover have "d_div (d_of_nat a) (d_of_nat b) = round_fmt binary64 False q"
    using assms by (simp add: d_of_nat_exact q_def)
  ultimately show ?thesis using q1 by (simp add: round_binary64 to_size_def pow2_def)
qed

end
