(* ===== verification/Fact_Builder.thy ===== *)
theory Fact_Builder
  imports Rule_Value Knowledge_Graph Vector_Path Float32
begin

text \<open>
  The fact builder (\<open>src/rule/fact_builder.cpp\<close>): facts from a detection result, facts from paths
  through the knowledge graph, and facts from a vector search with its cache of the last query.
\<close>

subsection \<open>Detection results\<close>

record rect =
  rect_x :: "64 word"
  rect_y :: "64 word"
  rect_width :: "64 word"
  rect_height :: "64 word"

record anomaly_map =
  scores :: "dbl list"
  grid_h :: "64 word"
  grid_w :: "64 word"

record region_proposal =
  bounding_box :: rect
  max_anomaly_score :: dbl
  mean_anomaly_score :: dbl
  area_pixels :: "64 word"

record detection_result =
  dr_map :: anomaly_map
  regions :: "region_proposal list"
  image_level_score :: dbl
  inference_latency :: int
  global_features :: "dbl list"
  dr_surface_id :: string
  dr_position_id :: "16 word"

text \<open>\<open>std::max_element\<close> keeps the first of equal elements and never moves off or onto a NaN.\<close>

definition max_score :: "anomaly_map \<Rightarrow> dbl" where
  "max_score m = (case scores m of [] \<Rightarrow> Fin False 0 | s # ss \<Rightarrow> fold (\<lambda>x best. if d_lt best x then x else best) ss s)"

text \<open>Unsigned and signed integers as doubles.\<close>

definition size_to_double :: "64 word \<Rightarrow> rvalue" where
  "size_to_double w = of_double (d_of_int (uint w))"

definition direct :: "string \<Rightarrow> fact_source" where
  "direct desc = mk_source Direct desc"

definition map_region :: "region_proposal \<Rightarrow> fact_base \<Rightarrow> fact_base" where
  "map_region r fb =
     fold (\<lambda>(k, v, d) fb. fb_set (''detection.region.0.'' @ k) v (direct (''regions[0].'' @ d)) fb)
       [(''max_score'', of_double (max_anomaly_score r), ''max_anomaly_score''),
        (''mean_score'', of_double (mean_anomaly_score r), ''mean_anomaly_score''),
        (''area_pixels'', size_to_double (area_pixels r), ''area_pixels''),
        (''x'', size_to_double (rect_x (bounding_box r)), ''bounding_box.x''),
        (''y'', size_to_double (rect_y (bounding_box r)), ''bounding_box.y''),
        (''width'', size_to_double (rect_width (bounding_box r)), ''bounding_box.width''),
        (''height'', size_to_double (rect_height (bounding_box r)), ''bounding_box.height'')] fb"

text \<open>The time the first fact took is a clock reading.\<close>

definition map_detection :: "int \<Rightarrow> detection_result \<Rightarrow> fact_base \<Rightarrow> fact_base" where
  "map_detection elapsed dr fb0 =
     (let fb1 = fb_set ''detection.image_level_score'' (of_double (image_level_score dr))
            ((direct ''DetectionResult::image_level_score'')\<lparr>src_elapsed := elapsed\<rparr>) fb0;
          fb2 = fold (\<lambda>(k, v, d) fb. fb_set (''detection.'' @ k) v (direct (''DetectionResult::'' @ d)) fb)
            [(''latency_ns'', of_int64 (inference_latency dr), ''inference_latency''),
             (''anomaly_map.max_score'', of_double (max_score (dr_map dr)), ''anomaly_map.MaxScore()''),
             (''grid_h'', size_to_double (grid_h (dr_map dr)), ''anomaly_map.grid_h''),
             (''grid_w'', size_to_double (grid_w (dr_map dr)), ''anomaly_map.grid_w''),
             (''region_count'', of_double (d_of_nat (length (regions dr))), ''regions.size()'')] fb1
      in case regions dr of [] \<Rightarrow> fb2 | r0 # _ \<Rightarrow> map_region r0 fb2)"

subsection \<open>Paths through the graph\<close>

text \<open>Binary fields are skipped.\<close>

definition field_value_to_rule_value :: "field_value \<Rightarrow> rvalue" where
  "field_value_to_rule_value v =
     (case v of
        FInt i \<Rightarrow> of_int64 (sint i)
      | FDouble d \<Rightarrow> of_double d
      | FText s \<Rightarrow> of_string s
      | FBinary _ \<Rightarrow> VNull)"

text \<open>
  The tokens between occurrences of the arrow, leftmost first, without the empty ones; \<open>acc\<close> is
  the token read so far, reversed.
\<close>

fun split_arrow :: "string \<Rightarrow> string \<Rightarrow> string list" where
  "split_arrow acc (c # d # cs) =
     (if c = CHR ''-'' \<and> d = CHR ''>'' then (if acc = [] then [] else [rev acc]) @ split_arrow [] cs
      else split_arrow (c # acc) (d # cs))"
| "split_arrow acc [c] = [rev (c # acc)]"
| "split_arrow acc [] = (if acc = [] then [] else [rev acc])"

definition split_string :: "string \<Rightarrow> string list" where
  "split_string s = split_arrow [] s"

definition graph_path_flat_key :: "string list \<Rightarrow> string \<Rightarrow> string" where
  "graph_path_flat_key segments property =
     ''graph'' @ concat (map (\<lambda>seg. ''.'' @ seg) segments) @ ''.'' @ property"

text \<open>What comes before and after the last dot.\<close>

definition split_last_dot :: "string \<Rightarrow> string \<times> string" where
  "split_last_dot s =
     (let after = takeWhile (\<lambda>c. c \<noteq> CHR ''.'') (rev s)
      in if length after = length s then ([], s)
         else (take (length s - length after - 1) s, rev after))"

definition invalid_path :: "string \<Rightarrow> error_info" where
  "invalid_path msg = ErrorInfo Rule_InvalidPath msg"

text \<open>The node type, the relationships and the property of a path.\<close>

definition parse_path :: "string \<Rightarrow> (string \<times> string list \<times> string) result" where
  "parse_path path =
     (let segments = split_string path
      in if length segments < 2
         then Inl (invalid_path (''Path must have at least 'NodeType->PropertyKey': '' @ path))
         else (case split_last_dot (last segments) of
            (final_rel, key) \<Rightarrow>
              if key = [] then Inl (invalid_path (''Empty property key in path: '' @ path))
              else Inr (hd segments, butlast (tl segments) @ (if final_rel = [] then [] else [final_rel]), key)))"

text \<open>One relationship: from every node, sorted and without duplicates.\<close>

definition hop :: "('x, 'z) sqlite_scheme \<Rightarrow> 'x \<Rightarrow> string \<Rightarrow> int list \<Rightarrow> int list" where
  "hop sq x rel ids =
     remdups_adj (sort (concat (map (\<lambda>i.
       case traverse sq i rel 1 x of
         Inl _ \<Rightarrow> []
       | Inr gps \<Rightarrow> concat (map (\<lambda>gp. map kn_id (gp_targets gp)) gps)) ids)))"

fun walk :: "('x, 'z) sqlite_scheme \<Rightarrow> 'x \<Rightarrow> string list \<Rightarrow> int list \<Rightarrow> int list" where
  "walk sq x [] ids = ids"
| "walk sq x (rel # rels) ids =
     (let next_ids = hop sq x rel ids in if next_ids = [] then [] else walk sq x rels next_ids)"

text \<open>The value of a property of a node, when it can be read and mapped.\<close>

definition node_fact :: "('x, 'z) sqlite_scheme \<Rightarrow> 'x \<Rightarrow> string \<Rightarrow> int \<Rightarrow> rvalue option" where
  "node_fact sq x key i =
     (case get_node sq i x of
        Inl _ \<Rightarrow> None
      | Inr n \<Rightarrow>
          (case sm_get (rec_fields (kn_properties n)) key of
             None \<Rightarrow> None
           | Some f \<Rightarrow> (let v = field_value_to_rule_value f in if is_null v then None else Some v)))"

definition resolve_path :: "('x, 'z) sqlite_scheme \<Rightarrow> 'x \<Rightarrow> string \<Rightarrow> fact_base \<Rightarrow> fact_base result" where
  "resolve_path sq x path fb =
     (case parse_path path of
        Inl err \<Rightarrow> Inl err
      | Inr (ty, rels, key) \<Rightarrow>
          (case find_nodes_by_type sq ty x of
             Inl _ \<Rightarrow> Inr fb
           | Inr nodes \<Rightarrow> Inr (fold (\<lambda>i fb.
               case node_fact sq x key i of
                 None \<Rightarrow> fb
               | Some v \<Rightarrow> fb_set (graph_path_flat_key (ty # rels) key) v (mk_source GraphPath path) fb)
               (walk sq x rels (map kn_id nodes)) fb)))"

fun resolve_each :: "('x, 'z) sqlite_scheme \<Rightarrow> 'x \<Rightarrow> string list \<Rightarrow> fact_base \<Rightarrow> fact_base result" where
  "resolve_each sq x [] fb = Inr fb"
| "resolve_each sq x (path # paths) fb =
     (if path = [] then resolve_each sq x paths fb
      else case resolve_path sq x path fb of Inl err \<Rightarrow> Inl err | Inr fb' \<Rightarrow> resolve_each sq x paths fb')"

text \<open>The graph and its connection, if there is one.\<close>

definition resolve_graph_paths :: "(('x, 'z) sqlite_scheme \<times> 'x) option \<Rightarrow> string list \<Rightarrow> fact_base \<Rightarrow> fact_base result" where
  "resolve_graph_paths kg paths fb =
     (if paths = [] then Inr fb
      else case kg of
             None \<Rightarrow> Inl (invalid_path ''ResolveGraphPaths: KnowledgeGraph is null'')
           | Some (sq, x) \<Rightarrow> resolve_each sq x paths fb)"

definition build :: "int \<Rightarrow> (('x, 'z) sqlite_scheme \<times> 'x) option \<Rightarrow> string \<Rightarrow> detection_result \<Rightarrow> string list \<Rightarrow>
    fact_base result" where
  "build elapsed kg surface dr paths =
     resolve_graph_paths kg paths (map_detection elapsed dr
       (fb_set ''surface.id'' (of_string surface) (direct ''Build input surface_id'') empty_facts))"

subsection \<open>Vector retrieval\<close>

record fact_builder =
  retrieval_cache :: "(dbl list \<times> vector_result list) option"
  cache_epsilon :: dbl

definition fresh_builder :: fact_builder where
  "fresh_builder = \<lparr>retrieval_cache = None, cache_epsilon = d_lit (1 / 100)\<rparr>"

fun numbers :: "rvalue list \<Rightarrow> dbl list option" where
  "numbers [] = Some []"
| "numbers (v # vs) =
     (case as_double v of None \<Rightarrow> None | Some d \<Rightarrow> map_option (\<lambda>ds. to_float d # ds) (numbers vs))"

fun sizes :: "rvalue list \<Rightarrow> nat list option" where
  "sizes [] = Some []"
| "sizes (v # vs) =
     (case as_double v of
        None \<Rightarrow> sizes vs
      | Some d \<Rightarrow> (case to_size d of None \<Rightarrow> None | Some n \<Rightarrow> map_option (\<lambda>ns. n # ns) (sizes vs)))"

text \<open>The configuration, as the facts override it; \<open>None\<close> when a conversion is undefined.\<close>

definition retrieval_config :: "fact_base \<Rightarrow> search_config option" where
  "retrieval_config fb =
     (case (case map_option as_double (fb_get fb ''retrieval.config.k'') of
              Some (Some d) \<Rightarrow> to_size d
            | _ \<Rightarrow> Some 10) of
        None \<Rightarrow> None
      | Some k \<Rightarrow>
          map_option (\<lambda>ids. \<lparr>sc_mode = Top_K, sc_k = k, range_threshold = Fin False 0, id_subset = ids\<rparr>)
            (case map_option as_list (fb_get fb ''retrieval.config.id_subset'') of
               Some (Some vs) \<Rightarrow> sizes vs
             | _ \<Rightarrow> Some []))"

definition squared_distance :: "dbl list \<Rightarrow> dbl list \<Rightarrow> dbl" where
  "squared_distance q c =
     fold (\<lambda>(a, b) s. let d = d_sub a b in d_add s (d_mul d d)) (zip q c) (Fin False 0)"

definition write_retrieval_results :: "vector_result list \<Rightarrow> nat \<Rightarrow> fact_base \<Rightarrow> fact_base" where
  "write_retrieval_results rs k fb =
     fold (\<lambda>(rank, r) fb.
         (let prefix = ''retrieval.top'' @ nat_str rank;
              put = (\<lambda>key v fb. fb_set key v (mk_source VectorSearch key) fb)
          in put (prefix @ ''.distance'') (of_double (vr_distance r))
               (put (prefix @ ''.index'') (of_double (d_of_nat (vr_index r))) fb)))
       (zip [1 ..< Suc (length rs)] rs)
       (fb_set ''retrieval.count'' (of_double (d_of_nat (length rs)))
         (mk_source VectorSearch (''VectorPath TopK k='' @ nat_str k)) fb)"

definition cache_hit :: "fact_builder \<Rightarrow> dbl list \<Rightarrow> vector_result list option" where
  "cache_hit b q =
     (case retrieval_cache b of
        None \<Rightarrow> None
      | Some (c, rs) \<Rightarrow>
          (if d_gt (cache_epsilon b) (Fin False 0) \<and> length c = length q \<and>
              d_lt (squared_distance q c) (d_mul (cache_epsilon b) (cache_epsilon b))
           then Some rs else None))"

definition type_mismatch :: "string \<Rightarrow> error_info" where
  "type_mismatch msg = ErrorInfo Rule_TypeMismatch (''RunVectorRetrieval: '' @ msg)"

definition quoted_key :: "string \<Rightarrow> string" where
  "quoted_key k = ''embedding_key '' @ [CHR 0x27] @ k @ [CHR 0x27]"

definition run_vector_retrieval :: "search_bank option \<Rightarrow> string \<Rightarrow> fact_base \<Rightarrow> fact_builder \<Rightarrow>
    (unit result \<times> fact_base \<times> fact_builder) option" where
  "run_vector_retrieval vp key fb b =
     (case vp of
        None \<Rightarrow> Some (Inl (invalid_path ''RunVectorRetrieval: VectorPath is null''), fb, b)
      | Some bank \<Rightarrow>
        (case fb_get fb key of
           None \<Rightarrow> Some (Inl (type_mismatch (quoted_key key @ '' not found in FactBase'')), fb, b)
         | Some v \<Rightarrow>
           (case as_list v of
              None \<Rightarrow> Some (Inl (type_mismatch (quoted_key key @ '' must be a non-empty Value list'')), fb, b)
            | Some [] \<Rightarrow> Some (Inl (type_mismatch (quoted_key key @ '' must be a non-empty Value list'')), fb, b)
            | Some vs \<Rightarrow>
              (case numbers vs of
                 None \<Rightarrow> Some (Inl (type_mismatch ''query vector element must be numeric''), fb, b)
               | Some q \<Rightarrow>
                 (case retrieval_config fb of
                    None \<Rightarrow> None
                  | Some cfg \<Rightarrow>
                    (case cache_hit b q of
                       Some rs \<Rightarrow> Some (Inr (), write_retrieval_results rs (sc_k cfg) fb, b)
                     | None \<Rightarrow>
                       (case search bank q cfg of
                          Inl err \<Rightarrow> Some (Inl err, fb, b)
                        | Inr rs \<Rightarrow> Some (Inr (), write_retrieval_results rs (sc_k cfg) fb,
                            b\<lparr>retrieval_cache := Some (q, rs)\<rparr>))))))))"

subsection \<open>What a path parses to\<close>

text \<open>A token without an arrow, and the text of a path over such tokens.\<close>

fun has_arrow :: "string \<Rightarrow> bool" where
  "has_arrow (c # d # cs) = ((c = CHR ''-'' \<and> d = CHR ''>'') \<or> has_arrow (d # cs))"
| "has_arrow [c] = False"
| "has_arrow [] = False"

definition token_ok :: "string \<Rightarrow> bool" where
  "token_ok s \<longleftrightarrow> s \<noteq> [] \<and> \<not> has_arrow s"

definition key_ok :: "string \<Rightarrow> bool" where
  "key_ok s \<longleftrightarrow> token_ok s \<and> CHR ''.'' \<notin> set s"

definition render_path :: "string \<Rightarrow> string list \<Rightarrow> string \<Rightarrow> string" where
  "render_path ty rels key =
     ty @ concat (map (\<lambda>s. ''->'' @ s)
       (if rels = [] then [key] else butlast rels @ [last rels @ ''.'' @ key]))"

lemma split_arrow_token:
  "\<not> has_arrow s \<Longrightarrow> s \<noteq> [] \<or> acc \<noteq> [] \<Longrightarrow> split_arrow acc s = [rev acc @ s]"
  by (induction acc s rule: split_arrow.induct) auto

lemma split_arrow_arrow:
  "\<not> has_arrow s \<Longrightarrow> s \<noteq> [] \<or> acc \<noteq> [] \<Longrightarrow> split_arrow acc (s @ ''->'' @ t) = (rev acc @ s) # split_arrow [] t"
  by (induction acc s rule: split_arrow.induct) auto

lemma split_string_join:
  "token_ok s \<Longrightarrow> list_all token_ok ss \<Longrightarrow> split_string (s @ concat (map (\<lambda>s. ''->'' @ s) ss)) = s # ss"
proof (induction ss arbitrary: s)
  case Nil
  then show ?case by (simp add: split_string_def token_ok_def split_arrow_token)
next
  case (Cons a ss)
  then have "split_string (a @ concat (map (\<lambda>s. ''->'' @ s) ss)) = a # ss" by simp
  then show ?case using Cons.prems(1) split_arrow_arrow [where acc = "[]" and s = s]
    by (simp add: split_string_def token_ok_def)
qed

lemma has_arrow_dot: "has_arrow (r @ CHR ''.'' # k) = (has_arrow r \<or> has_arrow k)"
proof (induction r rule: has_arrow.induct)
  case (2 c)
  then show ?case by (cases k) auto
next
  case 3
  then show ?case by (cases k) auto
qed auto

lemma split_last_dot_dot: "CHR ''.'' \<notin> set k \<Longrightarrow> split_last_dot (r @ ''.'' @ k) = (r, k)"
proof -
  assume k: "CHR ''.'' \<notin> set k"
  have "takeWhile (\<lambda>c. c \<noteq> CHR ''.'') (rev (r @ ''.'' @ k)) = rev k"
    using k by (simp add: takeWhile_append)
  then show ?thesis by (simp add: split_last_dot_def)
qed

lemma split_last_dot_none: "CHR ''.'' \<notin> set k \<Longrightarrow> split_last_dot k = ([], k)"
proof -
  assume k: "CHR ''.'' \<notin> set k"
  have t: "takeWhile (\<lambda>c. c \<noteq> CHR ''.'') (rev k) = rev k" using k by (auto simp: takeWhile_eq_all_conv)
  show ?thesis unfolding split_last_dot_def t by simp
qed

text \<open>
  A path written from a node type, relationships and a property key (all of them
  not empty and without an arrow, the key without a dot) is parsed back to them.
\<close>

theorem path_roundtrip:
  assumes "token_ok ty" "list_all token_ok rels" "key_ok key"
  shows "parse_path (render_path ty rels key) = Inr (ty, rels, key)"
proof (cases "rels = []")
  case True
  then show ?thesis
    using assms split_string_join [of ty "[key]"] split_last_dot_none [of key]
    by (simp add: parse_path_def render_path_def key_ok_def token_ok_def)
next
  case False
  then obtain rs r where rels: "rels = rs @ [r]" by (cases rels rule: rev_cases) auto
  have "token_ok (r @ ''.'' @ key)"
    using assms rels by (simp add: token_ok_def key_ok_def has_arrow_dot)
  then show ?thesis
    using assms rels split_string_join [of ty "rs @ [r @ ''.'' @ key]"] split_last_dot_dot [of key r]
    by (simp add: parse_path_def render_path_def key_ok_def token_ok_def)
qed

theorem path_roundtrip_witness:
  "parse_path (render_path ''Batch'' [''made_of'', ''supplied_by''] ''rating'') =
     Inr (''Batch'', [''made_of'', ''supplied_by''], ''rating'')"
  by (rule path_roundtrip) (simp_all add: token_ok_def key_ok_def)

subsection \<open>What a path resolves to\<close>

lemma traverse_one:
  "traverse sq i rel 1 x =
     (case targets_of sq rel x i of
        Inl err \<Rightarrow> Inl err
      | Inr ts \<Rightarrow> Inr (if ts = [] then [] else [\<lparr>gp_source = i, gp_relationship = rel, gp_targets = ts\<rparr>]))"
  by (simp add: traverse_def Let_def split: sum.split)

lemma hop_sorted: "sorted (hop sq x rel ids)"
  by (simp add: hop_def sorted_remdups_adj)

lemma hop_set: "set (hop sq x rel ids) = (\<Union>i \<in> set ids. next_ids (targets_of sq rel x) i)"
  unfolding hop_def traverse_one by (auto simp: next_ids_def split: sum.splits if_splits) force

text \<open>Pairs of nodes connected by the relationships in order.\<close>

primrec along :: "('x, 'z) sqlite_scheme \<Rightarrow> 'x \<Rightarrow> string list \<Rightarrow> (int \<times> int) set" where
  "along sq x [] = Id"
| "along sq x (r # rs) = next_rel (targets_of sq r x) O along sq x rs"

lemma hop_image: "set (hop sq x rel ids) = next_rel (targets_of sq rel x) `` set ids"
  by (auto simp: hop_set next_rel_def)

lemma walk_set: "set (walk sq x rels ids) = along sq x rels `` set ids"
proof (induction rels arbitrary: ids)
  case (Cons r rs)
  then show ?case
    using hop_image [of sq x r ids] by (cases "hop sq x r ids = []") (auto simp: Let_def relcomp_Image)
qed simp

lemma walk_sorted: "rels \<noteq> [] \<Longrightarrow> sorted (walk sq x rels ids)"
proof (induction rels arbitrary: ids)
  case (Cons r rs)
  then show ?case by (cases rs) (simp_all add: Let_def hop_sorted)
qed simp

lemma fold_last_set:
  "fb_get (fold (\<lambda>i fb. case f i of None \<Rightarrow> fb | Some v \<Rightarrow> fb_set k v s fb) ids fb) =
     (case filter (\<lambda>i. f i \<noteq> None) (rev ids) of [] \<Rightarrow> fb_get fb | i # _ \<Rightarrow> (fb_get fb)(k := f i))"
  by (induction ids arbitrary: fb rule: rev_induct) (auto split: option.split list.split)

lemma sorted_last_filter:
  assumes "sorted ids" "filter P (rev ids) = i # is"
  shows "i = Max {j \<in> set ids. P j}"
proof -
  have e: "filter P ids = rev is @ [i]" using arg_cong [OF assms(2), of rev] by (simp add: rev_filter)
  have "sorted (filter P ids)" using sorted_filter [of "\<lambda>x. x" ids P] assms(1) by simp
  then have le: "\<And>j. j \<in> set (filter P ids) \<Longrightarrow> j \<le> i" unfolding e by (auto simp: sorted_append)
  have "i \<in> set (filter P ids)" unfolding e by simp
  then show ?thesis using le by (intro Max_eqI [symmetric]) auto
qed

lemma fold_last_max:
  assumes "sorted ids"
  shows "fb_get (fold (\<lambda>i fb. case f i of None \<Rightarrow> fb | Some v \<Rightarrow> fb_set k v s fb) ids fb) =
    (let carriers = {j \<in> set ids. f j \<noteq> None}
     in if carriers = {} then fb_get fb else (fb_get fb)(k := f (Max carriers)))"
proof (cases "filter (\<lambda>i. f i \<noteq> None) (rev ids)")
  case Nil
  then have "{j \<in> set ids. f j \<noteq> None} = {}" by (auto simp: filter_empty_conv)
  then show ?thesis unfolding fold_last_set Nil Let_def by simp
next
  case (Cons i rest)
  then have "i \<in> set (filter (\<lambda>i. f i \<noteq> None) (rev ids))" by simp
  then have ne: "{j \<in> set ids. f j \<noteq> None} \<noteq> {}" by auto
  show ?thesis
    unfolding fold_last_set Cons Let_def if_not_P [OF ne] sorted_last_filter [OF assms Cons, symmetric] by simp
qed

text \<open>
  A path with at least one relationship whose start nodes can be read sets one
  fact at most: under the key of its type, relationships and property, with the value of that
  property in the node with the largest identifier among those that the relationships reach, in
  order, from a node of the type, and that have the property as a number or text.
\<close>

theorem graph_fact_spec:
  assumes "parse_path path = Inr (ty, rels, key)" "rels \<noteq> []" "find_nodes_by_type sq ty x = Inr nodes"
  shows "\<exists>fb'. resolve_path sq x path fb = Inr fb' \<and>
    (let carriers = {j \<in> along sq x rels `` (kn_id ` set nodes). node_fact sq x key j \<noteq> None}
     in fb_get fb' = (if carriers = {} then fb_get fb
          else (fb_get fb)(graph_path_flat_key (ty # rels) key := node_fact sq x key (Max carriers))))"
proof -
  let ?ids = "walk sq x rels (map kn_id nodes)"
  have ids: "set ?ids = along sq x rels `` (kn_id ` set nodes)" by (simp add: walk_set)
  note final = fold_last_max [where f = "node_fact sq x key", OF walk_sorted [OF assms(2), of sq x "map kn_id nodes"], unfolded ids]
  let ?fb' = "fold (\<lambda>i fb. case node_fact sq x key i of None \<Rightarrow> fb
      | Some v \<Rightarrow> fb_set (graph_path_flat_key (ty # rels) key) v (mk_source GraphPath path) fb) ?ids fb"
  have "resolve_path sq x path fb = Inr ?fb'" by (simp add: resolve_path_def assms)
  moreover have "let carriers = {j \<in> along sq x rels `` (kn_id ` set nodes). node_fact sq x key j \<noteq> None}
     in fb_get ?fb' = (if carriers = {} then fb_get fb
          else (fb_get fb)(graph_path_flat_key (ty # rels) key := node_fact sq x key (Max carriers)))"
    using final unfolding Let_def by blast
  ultimately show ?thesis by blast
qed

text \<open>A batch made of two materials that both have a grade.\<close>

definition demo_graph :: database where
  "demo_graph =
     (let j = (\<lambda>fs. record_text model_engine \<lparr>rec_fields = fs\<rparr>)
      in \<lparr>content = \<lparr>node_rows = [(1, ''Batch'', j []), (2, ''Material'', j [(''grade'', FText ''A'')]),
            (3, ''Material'', j [(''grade'', FInt 7)])],
          edge_rows = [(1, 1, 2, ''made_of'', j []), (2, 1, 3, ''made_of'', j [])], log_rows = [], snap_rows = [],
          vec_rows = [], node_seq = 3, edge_seq = 2, log_seq = 0, snap_seq = 0\<rparr>, saved = []\<rparr>)"

theorem graph_fact_spec_witness:
  "\<exists>fb'. resolve_path model_engine demo_graph ''Batch->made_of.grade'' empty_facts = Inr fb' \<and>
     fb_get fb' ''graph.Batch.made_of.grade'' = Some (of_int64 7)"
proof -
  have r: "json_to_record (parse model_engine (c_str (record_text model_engine r))) = surviving_record r"
    if "sm_wf (rec_fields r)" for r
    by (rule model_engine_reads [OF that])
  have rows: "node_rows (content demo_graph) = [(1, ''Batch'', record_text model_engine \<lparr>rec_fields = []\<rparr>),
      (2, ''Material'', record_text model_engine \<lparr>rec_fields = [(''grade'', FText ''A'')]\<rparr>),
      (3, ''Material'', record_text model_engine \<lparr>rec_fields = [(''grade'', FInt 7)]\<rparr>)]"
    and names: "c_str ''Batch'' = ''Batch''" "c_str ''Material'' = ''Material''"
    by (simp_all add: demo_graph_def Let_def c_str_def)
  have parsed: "parse_path ''Batch->made_of.grade'' = Inr (''Batch'', [''made_of''], ''grade'')"
    by (simp add: parse_path_def split_string_def split_last_dot_def)
  note eval = step_of_def is_control_def query_def rows select_rows_def and_then_def
  have found: "find_nodes_by_type model_engine ''Batch'' demo_graph =
      Inr [\<lparr>kn_id = 1, kn_type = ''Batch'', kn_properties = surviving_record \<lparr>rec_fields = []\<rparr>\<rparr>]"
    by (simp add: find_nodes_by_type_def eval node_columns_read r names sm_wf_def)
  have reached: "along model_engine demo_graph [''made_of''] `` {1} = {2, 3}"
    by (auto simp: next_rel_def next_ids_def targets_of_def eval demo_graph_def joined_def read_node_def node_columns_def
        column_int_def Let_def)
  have facts: "node_fact model_engine demo_graph ''grade'' 2 = Some (of_string ''A'')"
      "node_fact model_engine demo_graph ''grade'' 3 = Some (of_int64 7)"
    by (simp_all add: node_fact_def get_node_def eval node_columns_read r names sm_wf_def surviving_record_def
        surviving_def field_value_to_rule_value_def value_simps)

  have carriers: "{j \<in> along model_engine demo_graph [''made_of''] `` {1}. node_fact model_engine demo_graph ''grade'' j \<noteq> None} = {2, 3}"
    unfolding reached using facts by auto
  have img: "kn_id ` set [\<lparr>kn_id = 1, kn_type = ''Batch'', kn_properties = surviving_record \<lparr>rec_fields = []\<rparr>\<rparr>] = {1}"
    by simp
  show ?thesis using graph_fact_spec [OF parsed _ found, of empty_facts, unfolded Let_def img carriers] facts
    by (auto simp: graph_path_flat_key_def)
qed

subsection \<open>When facts are built\<close>

lemma resolve_path_value: "has_value (resolve_path sq x path fb) \<longleftrightarrow> has_value (parse_path path)"
  by (auto simp: resolve_path_def has_value_def split: sum.splits)

lemma fold_set_other:
  "k' \<noteq> k \<Longrightarrow> fb_get (fold (\<lambda>i fb. case f i of None \<Rightarrow> fb | Some v \<Rightarrow> fb_set k v s fb) ids fb) k' = fb_get fb k'"
  by (induction ids arbitrary: fb) (auto split: option.split)

lemma flat_key_prefix: "take 6 (graph_path_flat_key (ty # rels) key) = ''graph.''"
  by (simp add: graph_path_flat_key_def)

lemma resolve_path_other:
  assumes "resolve_path sq x path fb = Inr fb'" "take 6 k \<noteq> ''graph.''"
  shows "fb_get fb' k = fb_get fb k"
proof -
  have "k \<noteq> graph_path_flat_key (ty # rels) key" for ty rels key
    using assms(2) flat_key_prefix [of ty rels key] by auto
  then show ?thesis using assms(1)
    by (auto simp: resolve_path_def fold_set_other split: sum.splits)
qed

lemma resolve_each_other:
  "resolve_each sq x paths fb = Inr fb' \<Longrightarrow> take 6 k \<noteq> ''graph.'' \<Longrightarrow> fb_get fb' k = fb_get fb k"
  by (induction sq x paths fb rule: resolve_each.induct) (auto split: if_splits sum.splits dest: resolve_path_other)

lemma resolve_each_value:
  "has_value (resolve_each sq x paths fb) \<longleftrightarrow> (\<forall>p \<in> set paths. p = [] \<or> has_value (parse_path p))"
proof (induction sq x paths fb rule: resolve_each.induct)
  case (2 sq x path paths fb)
  show ?case
  proof (cases "path = []")
    case False
    then show ?thesis using 2(2) resolve_path_value [of sq x path fb]
      by (cases "resolve_path sq x path fb") (auto simp: has_value_def)
  qed (use 2(1) in simp)
qed (simp add: has_value_def)

definition detected :: "int \<Rightarrow> string \<Rightarrow> detection_result \<Rightarrow> fact_base" where
  "detected elapsed surface dr =
     map_detection elapsed dr (fb_set ''surface.id'' (of_string surface) (direct ''Build input surface_id'') empty_facts)"

lemma build_facts:
  "(has_value (build elapsed kg surface dr paths) \<longleftrightarrow>
      paths = [] \<or> kg \<noteq> None \<and> list_all (\<lambda>p. p = [] \<or> has_value (parse_path p)) paths) \<and>
   (build elapsed kg surface dr paths = Inr fb \<longrightarrow> take 6 k \<noteq> ''graph.'' \<longrightarrow>
      fb_get fb k = fb_get (detected elapsed surface dr) k)"
proof (cases "kg")
  case None
  then show ?thesis by (auto simp: build_def resolve_graph_paths_def has_value_def detected_def)
next
  case (Some sqx)
  obtain sq x where sqx: "sqx = (sq, x)" by fastforce
  then have b: "build elapsed kg surface dr paths =
      (if paths = [] then Inr (detected elapsed surface dr) else resolve_each sq x paths (detected elapsed surface dr))"
    by (simp add: Some build_def resolve_graph_paths_def detected_def)
  have v: "has_value (Inr y)" for y :: fact_base by (simp add: has_value_def)
  show ?thesis
    unfolding b using resolve_each_other [of sq x paths "detected elapsed surface dr" fb k]
    by (cases "paths = []") (simp_all add: v resolve_each_value list_all_iff Some)
qed

text \<open>
  Building the facts fails exactly when there are graph paths and either there is no
  graph or a path that is not empty does not parse; when it succeeds, the facts of the detection
  are as mapped: the graph only adds facts under keys that start with \<open>graph.\<close>
\<close>

theorem build_spec:
  "(has_value (build elapsed kg surface dr paths) \<longleftrightarrow>
      paths = [] \<or> kg \<noteq> None \<and> list_all (\<lambda>p. p = [] \<or> has_value (parse_path p)) paths) \<and>
   (build elapsed kg surface dr paths = Inr fb \<longrightarrow> take 6 k \<noteq> ''graph.'' \<longrightarrow>
      fb_get fb k = fb_get (detected elapsed surface dr) k)"
  by (rule build_facts)

lemma fb_get_same: "fb_get (fb_set k v s fb) k = Some v"
  by simp

lemma fb_get_other: "k' \<noteq> k \<Longrightarrow> fb_get (fb_set k v s fb) k' = fb_get fb k'"
  by simp

lemma fold_set_prefix:
  "take (length p) k \<noteq> p \<Longrightarrow> fb_get (fold (\<lambda>(key, v, d) fb. fb_set (p @ key) v (s d) fb) l fb) k = fb_get fb k"
  by (induction l arbitrary: fb) (auto split: prod.split)

lemma map_region_other: "take 19 k \<noteq> ''detection.region.0.'' \<Longrightarrow> fb_get (map_region r fb) k = fb_get fb k"
proof -
  assume k: "take 19 k \<noteq> ''detection.region.0.''"
  have "length ''detection.region.0.'' = 19" by simp
  then have "take (length ''detection.region.0.'') k \<noteq> ''detection.region.0.''" by (subst \<open>length _ = _\<close>) (rule k)
  then show ?thesis unfolding map_region_def by (rule fold_set_prefix)
qed

lemma map_detection_facts:
  "fb_get (map_detection elapsed dr fb) ''detection.image_level_score'' = Some (of_double (image_level_score dr))"
  "fb_get (map_detection elapsed dr fb) ''detection.anomaly_map.max_score'' = Some (of_double (max_score (dr_map dr)))"
  "fb_get (map_detection elapsed dr fb) ''surface.id'' = fb_get fb ''surface.id''"
  "fb_get (map_detection elapsed dr fb) ''detection.anomaly_score'' = fb_get fb ''detection.anomaly_score''"
  by (cases "regions dr"; simp add: map_detection_def map_region_other fb_get_same fb_get_other del: fb_get_set)+

definition demo_detection :: detection_result where
  "demo_detection = \<lparr>dr_map = \<lparr>scores = [Fin False (1 / 2), Fin False (3 / 4)], grid_h = 1, grid_w = 2\<rparr>, regions = [],
     image_level_score = Fin False (3 / 4), inference_latency = 5, global_features = [], dr_surface_id = ''top'',
     dr_position_id = 1\<rparr>"

theorem build_spec_witness:
  "\<exists>fb. build 0 (Some (model_engine, demo_graph)) ''top'' demo_detection [''Batch->grade''] = Inr fb \<and>
     fb_get fb ''detection.image_level_score'' = Some (of_double (Fin False (3 / 4))) \<and>
     fb_get fb ''surface.id'' = Some (of_string ''top'')"
proof -
  let ?b = "build 0 (Some (model_engine, demo_graph)) ''top'' demo_detection [''Batch->grade'']"
  have "has_value (parse_path ''Batch->grade'')"
    by (simp add: parse_path_def split_string_def split_last_dot_def has_value_def)
  then have "has_value ?b" using build_spec [of 0 "Some (model_engine, demo_graph)" "''top''" demo_detection "[''Batch->grade'']"]
    by simp
  then obtain fb where fb: "?b = Inr fb" by (cases ?b) (auto simp: has_value_def)
  show ?thesis
    using build_spec [of 0 "Some (model_engine, demo_graph)" "''top''" demo_detection "[''Batch->grade'']" fb] fb
      build_spec [of 0 "Some (model_engine, demo_graph)" "''top''" demo_detection "[''Batch->grade'']" fb "''surface.id''"]
    by (auto simp: detected_def map_detection_facts demo_detection_def)
qed

subsection \<open>What a retrieval writes\<close>

text \<open>The cached results are those of a search, and the cached query is the one searched for.\<close>

definition cache_ok :: "fact_builder \<Rightarrow> bool" where
  "cache_ok b = (case retrieval_cache b of
     None \<Rightarrow> True
   | Some (q, rs) \<Rightarrow> (\<exists>bank cfg. search bank q cfg = Inr rs \<and> sc_mode cfg = Top_K))"

definition near :: "dbl \<Rightarrow> dbl list \<Rightarrow> dbl list \<Rightarrow> bool" where
  "near eps q c \<longleftrightarrow> q = c \<or>
     d_gt eps (Fin False 0) \<and> length c = length q \<and> d_lt (squared_distance q c) (d_mul eps eps)"

definition rank_key :: "nat \<Rightarrow> string \<Rightarrow> string" where
  "rank_key i what = ''retrieval.top'' @ nat_str i @ what"

lemma rank_key_inject:
  assumes "rank_key i a = rank_key j b" "a \<in> {''.index'', ''.distance''}" "b \<in> {''.index'', ''.distance''}"
  shows "i = j \<and> a = b"
proof -
  have e: "nat_str i @ a = nat_str j @ b" using assms(1) by (simp add: rank_key_def)
  then have "last (nat_str i @ a) = last (nat_str j @ b)" by simp
  then have "a = b" using assms(2,3) by auto
  then show ?thesis using e by (simp add: nat_str_inject)
qed

definition put_ranked :: "nat \<times> vector_result \<Rightarrow> fact_base \<Rightarrow> fact_base" where
  "put_ranked = (\<lambda>(rank, r) fb.
     fb_set (rank_key rank ''.distance'') (of_double (vr_distance r)) (mk_source VectorSearch (rank_key rank ''.distance''))
      (fb_set (rank_key rank ''.index'') (of_double (d_of_nat (vr_index r))) (mk_source VectorSearch (rank_key rank ''.index'')) fb))"

lemma write_results_ranked:
  "write_retrieval_results rs k fb = fold put_ranked (zip [1 ..< Suc (length rs)] rs)
     (fb_set ''retrieval.count'' (of_double (d_of_nat (length rs))) (mk_source VectorSearch (''VectorPath TopK k='' @ nat_str k)) fb)"
  by (simp add: write_retrieval_results_def put_ranked_def rank_key_def Let_def del: upt_Suc)

lemma put_ranked_get:
  "fb_get (put_ranked (n, r) fb) = (fb_get fb)(rank_key n ''.index'' \<mapsto> of_double (d_of_nat (vr_index r)),
     rank_key n ''.distance'' \<mapsto> of_double (vr_distance r))"
  by (simp add: put_ranked_def)

lemma fold_ranked_other:
  "k \<notin> (\<lambda>n. rank_key n ''.index'') ` set (map fst nrs) \<union> (\<lambda>n. rank_key n ''.distance'') ` set (map fst nrs) \<Longrightarrow>
     fb_get (fold put_ranked nrs fb) k = fb_get fb k"
  by (induction nrs arbitrary: fb) (auto simp: put_ranked_get)

lemma fold_ranked_get:
  "distinct (map fst nrs) \<Longrightarrow> (n, r) \<in> set nrs \<Longrightarrow>
     fb_get (fold put_ranked nrs fb) (rank_key n ''.index'') = Some (of_double (d_of_nat (vr_index r))) \<and>
     fb_get (fold put_ranked nrs fb) (rank_key n ''.distance'') = Some (of_double (vr_distance r))"
proof (induction nrs arbitrary: fb)
  case (Cons x nrs)
  show ?case
  proof (cases "x = (n, r)")
    case True
    then have "n \<notin> set (map fst nrs)" using Cons.prems(1) by simp
    then have "rank_key n a \<notin> (\<lambda>n. rank_key n ''.index'') ` set (map fst nrs) \<union> (\<lambda>n. rank_key n ''.distance'') ` set (map fst nrs)"
      if "a \<in> {''.index'', ''.distance''}" for a
      using that rank_key_inject [of n a] by fast
    moreover have "rank_key n ''.index'' \<noteq> rank_key n ''.distance''" by (simp add: rank_key_def)
    ultimately show ?thesis using True by (simp add: fold_ranked_other put_ranked_get)
  next
    case False
    then show ?thesis using Cons by simp
  qed
qed simp

lemma write_results_get:
  assumes "i < length rs"
  shows "fb_get (write_retrieval_results rs k fb) (rank_key (i + 1) ''.index'') = Some (of_double (d_of_nat (vr_index (rs ! i)))) \<and>
    fb_get (write_retrieval_results rs k fb) (rank_key (i + 1) ''.distance'') = Some (of_double (vr_distance (rs ! i)))"
proof -
  have "(i + 1, rs ! i) = zip [1 ..< Suc (length rs)] rs ! i" using assms by (simp add: nth_upt del: upt_Suc)
  then have "(i + 1, rs ! i) \<in> set (zip [1 ..< Suc (length rs)] rs)" using assms by (auto simp: in_set_conv_nth simp del: upt_Suc)
  moreover have "distinct (map fst (zip [1 ..< Suc (length rs)] rs))" by (simp del: upt_Suc)
  ultimately show ?thesis unfolding write_results_ranked by (intro fold_ranked_get)
qed

lemma write_results_count: "fb_get (write_retrieval_results rs k fb) ''retrieval.count'' = Some (of_double (d_of_nat (length rs)))"
proof -
  have "''retrieval.count'' \<noteq> rank_key n a" for n a by (simp add: rank_key_def)
  then have "''retrieval.count'' \<notin> (\<lambda>n. rank_key n ''.index'') ` A \<union> (\<lambda>n. rank_key n ''.distance'') ` A" for A
    by blast
  then show ?thesis unfolding write_results_ranked by (simp add: fold_ranked_other del: upt_Suc)
qed

text \<open>A retrieval that succeeds has a query, and results from the cache or from a search.\<close>

lemma retrieval_run:
  assumes "run_vector_retrieval vp key fb b = Some (Inr (), fb', b')"
  obtains vs q cfg rs where "fb_get fb key = Some (VList vs)" "numbers vs = Some q" "retrieval_config fb = Some cfg"
    "fb' = write_retrieval_results rs (sc_k cfg) fb"
    "(cache_hit b q = Some rs \<and> b' = b) \<or>
     (\<exists>bank. vp = Some bank \<and> search bank q cfg = Inr rs \<and> b' = b\<lparr>retrieval_cache := Some (q, rs)\<rparr>)"
proof -
  obtain bank where vp: "vp = Some bank" using assms by (cases vp) (simp_all add: run_vector_retrieval_def)
  obtain v where v: "fb_get fb key = Some v" using assms vp by (cases "fb_get fb key") (simp_all add: run_vector_retrieval_def)
  obtain w ws where vs: "v = VList (w # ws)" using assms vp v
    by (cases v) (auto simp: run_vector_retrieval_def split: list.splits)
  obtain q where q: "numbers (w # ws) = Some q" using assms vp v vs
    by (cases "numbers (w # ws)") (simp_all add: run_vector_retrieval_def)
  obtain cfg where cfg: "retrieval_config fb = Some cfg" using assms vp v vs q
    by (cases "retrieval_config fb") (simp_all add: run_vector_retrieval_def)
  note run = assms [unfolded run_vector_retrieval_def vp v vs cfg option.case as_list.simps list.case q]
  show thesis
  proof (cases "cache_hit b q")
    case (Some rs)
    then show thesis using that [OF v [unfolded vs] q cfg, of rs] run by simp
  next
    case None
    then obtain rs where "search bank q cfg = Inr rs" using run by (cases "search bank q cfg") simp_all
    then show thesis using that [OF v [unfolded vs] q cfg, of rs] run None vp by simp
  qed
qed

lemma config_mode: "retrieval_config fb = Some cfg \<Longrightarrow> sc_mode cfg = Top_K"
  by (auto simp: retrieval_config_def split: option.splits)

text \<open>
  The facts of a successful retrieval are the count, the labels and the distances of
  a nearest-neighbour search for a query that is the given one or, with the cache, one at a distance
  below the threshold from it; and the cache keeps holding the results of such a search. (The
  search may have been on an older state of the bank, and for another number of neighbours.)
\<close>

theorem retrieval_spec:
  assumes "cache_ok b" "run_vector_retrieval vp key fb b = Some (Inr (), fb', b')"
  shows "cache_ok b' \<and>
    (\<exists>vs q c bank cfg rs. fb_get fb key = Some (VList vs) \<and> numbers vs = Some q \<and> near (cache_epsilon b) q c \<and>
       search bank c cfg = Inr rs \<and> sc_mode cfg = Top_K \<and>
       fb_get fb' ''retrieval.count'' = Some (of_double (d_of_nat (length rs))) \<and>
       (\<forall>i < length rs.
          fb_get fb' (rank_key (i + 1) ''.index'') = Some (of_double (d_of_nat (vr_index (rs ! i)))) \<and>
          fb_get fb' (rank_key (i + 1) ''.distance'') = Some (of_double (vr_distance (rs ! i)))))"
proof -
  from assms(2) obtain vs q cfg rs where r: "fb_get fb key = Some (VList vs)" "numbers vs = Some q"
      "retrieval_config fb = Some cfg" "fb' = write_retrieval_results rs (sc_k cfg) fb"
    and cases: "(cache_hit b q = Some rs \<and> b' = b) \<or>
     (\<exists>bank. vp = Some bank \<and> search bank q cfg = Inr rs \<and> b' = b\<lparr>retrieval_cache := Some (q, rs)\<rparr>)"
    by (rule retrieval_run)
  have written: "fb_get fb' ''retrieval.count'' = Some (of_double (d_of_nat (length rs))) \<and>
       (\<forall>i < length rs.
          fb_get fb' (rank_key (i + 1) ''.index'') = Some (of_double (d_of_nat (vr_index (rs ! i)))) \<and>
          fb_get fb' (rank_key (i + 1) ''.distance'') = Some (of_double (vr_distance (rs ! i))))"
    unfolding r(4) using write_results_get write_results_count by blast
  from cases show ?thesis
  proof
    assume hit: "cache_hit b q = Some rs \<and> b' = b"
    then obtain c where c: "retrieval_cache b = Some (c, rs)" "near (cache_epsilon b) q c"
      by (auto simp: cache_hit_def near_def split: option.splits if_splits)
    then obtain bank cfg' where s: "search bank c cfg' = Inr rs" "sc_mode cfg' = Top_K"
      using assms(1) by (auto simp: cache_ok_def)
    have "cache_ok b'" using assms(1) hit by simp
    then show ?thesis using r(1,2) c(2) s written by blast
  next
    assume "\<exists>bank. vp = Some bank \<and> search bank q cfg = Inr rs \<and> b' = b\<lparr>retrieval_cache := Some (q, rs)\<rparr>"
    then obtain bank where s: "search bank q cfg = Inr rs" "b' = b\<lparr>retrieval_cache := Some (q, rs)\<rparr>" by blast
    have "cache_ok b'" using s config_mode [OF r(3)] by (auto simp: cache_ok_def)
    moreover have "near (cache_epsilon b) q q" by (simp add: near_def)
    ultimately show ?thesis using r(1,2) s(1) config_mode [OF r(3)] written by blast
  qed
qed

definition demo_bank :: search_bank where
  "demo_bank = \<lparr>bank_dim = 1, num_samples = 1,
     bank_index = Some \<lparr>knn = (\<lambda>q k sel. replicate k (0, Fin False 0)), range_hits = (\<lambda>q t. [])\<rparr>\<rparr>"

definition demo_query :: fact_base where
  "demo_query = fb_set ''embedding.global'' (of_list [of_double (Fin False 0)]) (direct ''CLIP'') empty_facts"

theorem retrieval_spec_witness:
  "\<exists>fb' b'. run_vector_retrieval (Some demo_bank) ''embedding.global'' demo_query fresh_builder = Some (Inr (), fb', b') \<and>
     cache_ok b'"
proof -
  have f: "fb_get demo_query k = (if k = ''embedding.global'' then Some (VList [VScalar (SDouble (Fin False 0))]) else None)" for k
    by (simp add: demo_query_def value_simps)
  have c: "retrieval_config demo_query = Some \<lparr>sc_mode = Top_K, sc_k = 10, range_threshold = Fin False 0, id_subset = []\<rparr>"
    by (simp add: retrieval_config_def f)
  have s: "\<exists>rs. search demo_bank [Fin False 0] \<lparr>sc_mode = Top_K, sc_k = 10, range_threshold = Fin False 0, id_subset = []\<rparr> = Inr rs"
    by (simp add: search_def demo_bank_def)
  have n: "numbers [VScalar (SDouble (Fin False 0))] = Some [Fin False 0]" by (simp add: round_fmt_def)
  obtain fb' b' where run: "run_vector_retrieval (Some demo_bank) ''embedding.global'' demo_query fresh_builder = Some (Inr (), fb', b')"
    using s by (auto simp: run_vector_retrieval_def f c n cache_hit_def fresh_builder_def simp del: numbers.simps)
  have "cache_ok fresh_builder" by (simp add: cache_ok_def fresh_builder_def)
  from retrieval_spec [OF this run] run show ?thesis by blast
qed

end
