(* ===== verification/Inspection_Recorder.thy ===== *)
theory Inspection_Recorder
  imports Knowledge_Graph "HOL-Library.Sublist"
begin

text \<open>
  The inspection recorder (\<open>src/pipeline/inspection_recorder.cpp\<close>): the stages append records to a
  bounded buffer, the flush thread takes the buffer over and writes it to the knowledge graph in one
  batch. Both happen under the buffer's lock, so the operations are atomic here; the records taken
  over are written before the next buffer is taken.
\<close>

record pending_record =
  pending_score :: dbl
  pending_verdict :: string
  pending_surface :: string
  pending_time :: "64 word"

record inspection_recorder =
  recording :: bool
  flusher_started :: bool
  write_buffer :: "pending_record list"

definition new_recorder :: inspection_recorder where
  "new_recorder = \<lparr>recording = False, flusher_started = False, write_buffer = []\<rparr>"

definition max_buffer_size :: nat where
  "max_buffer_size = 512"

definition set_enabled :: "bool \<Rightarrow> inspection_recorder \<Rightarrow> inspection_recorder" where
  "set_enabled e r =
     r\<lparr>recording := e, flusher_started := flusher_started r \<or> (e \<and> \<not> recording r)\<rparr>"

text \<open>Without a knowledge graph nothing is recorded. A time of 0 stands for the clock's.\<close>

definition write_record :: "bool \<Rightarrow> 64 word \<Rightarrow> dbl \<Rightarrow> string \<Rightarrow> string \<Rightarrow> 64 word \<Rightarrow> inspection_recorder \<Rightarrow> inspection_recorder" where
  "write_record kg now score verdict surface t r =
     (if \<not> recording r \<or> \<not> kg then r
      else if max_buffer_size \<le> length (write_buffer r) then r
      else r\<lparr>write_buffer := write_buffer r @ [\<lparr>pending_score = score, pending_verdict = verdict,
             pending_surface = surface, pending_time = (if t = 0 then now else t)\<rparr>]\<rparr>)"

definition record_entry :: "pending_record \<Rightarrow> string \<times> knowledge_record" where
  "record_entry p =
     (let m = sm_put ''timestamp'' (FInt (pending_time p))
           (sm_put ''machine_verdict'' (FText (pending_verdict p))
             (sm_put ''detection_score'' (FDouble (pending_score p)) []))
      in (''GroundTruth'',
          \<lparr>rec_fields = (if pending_surface p = [] then m else sm_put ''surface_id'' (FText (pending_surface p)) m)\<rparr>))"

text \<open>Flushing with a graph; the result of the batch is ignored.\<close>

definition flush :: "('x, 'z) sqlite_scheme \<Rightarrow> inspection_recorder \<Rightarrow> 'x \<Rightarrow> inspection_recorder \<times> 'x" where
  "flush sq r x =
     (if write_buffer r = [] then (r, x)
      else (r\<lparr>write_buffer := []\<rparr>, snd (insert_nodes_batch sq (map record_entry (write_buffer r)) x)))"

text \<open>The flush thread flushes when its interval has passed or the buffer is half full.\<close>

definition flush_due :: "bool \<Rightarrow> inspection_recorder \<Rightarrow> bool" where
  "flush_due interval_over r \<longleftrightarrow> interval_over \<or> max_buffer_size div 2 \<le> length (write_buffer r)"

subsection \<open>Accounting for the records\<close>

datatype recorder_event = Write pending_record | Flush

text \<open>
  A run of an enabled recorder, with the batches it flushed (and whether they were stored) and the
  number of records it refused. The time of a record is the one it is stored with.
\<close>

record 'x recorder_run =
  run_recorder :: inspection_recorder
  run_db :: 'x
  run_batches :: "(pending_record list \<times> bool) list"
  run_refused :: nat

definition write_pending :: "pending_record \<Rightarrow> inspection_recorder \<Rightarrow> inspection_recorder" where
  "write_pending p = write_record True (pending_time p) (pending_score p) (pending_verdict p) (pending_surface p) (pending_time p)"

definition run_event :: "('x, 'z) sqlite_scheme \<Rightarrow> recorder_event \<Rightarrow> 'x recorder_run \<Rightarrow> 'x recorder_run" where
  "run_event sq e s =
     (case e of
        Write p \<Rightarrow>
          s\<lparr>run_recorder := write_pending p (run_recorder s),
            run_refused := run_refused s + (if write_pending p (run_recorder s) = run_recorder s then 1 else 0)\<rparr>
      | Flush \<Rightarrow>
          (case flush sq (run_recorder s) (run_db s) of
             (r', x') \<Rightarrow> s\<lparr>run_recorder := r', run_db := x',
               run_batches := run_batches s @ (if write_buffer (run_recorder s) = [] then []
                 else [(write_buffer (run_recorder s),
                   has_value (fst (insert_nodes_batch sq (map record_entry (write_buffer (run_recorder s))) (run_db s))))])\<rparr>))"

definition run_events :: "('x, 'z) sqlite_scheme \<Rightarrow> recorder_event list \<Rightarrow> 'x \<Rightarrow> 'x recorder_run" where
  "run_events sq es x =
     fold (run_event sq) es \<lparr>run_recorder = set_enabled True new_recorder, run_db = x, run_batches = [], run_refused = 0\<rparr>"

definition writes :: "recorder_event list \<Rightarrow> pending_record list" where
  "writes es = concat (map (\<lambda>e. case e of Write p \<Rightarrow> [p] | Flush \<Rightarrow> []) es)"

text \<open>The records of the batches that were stored.\<close>

definition stored :: "(pending_record list \<times> bool) list \<Rightarrow> pending_record list" where
  "stored bs = concat (map (\<lambda>b. if snd b then fst b else []) bs)"

lemma batch_rows_append:
  "batch_rows sq i (as @ bs) = batch_rows sq i as @ batch_rows sq (i + int (length as)) bs"
proof (induction as arbitrary: i)
  case Nil
  then show ?case by (simp add: batch_rows_def)
next
  case (Cons a as)
  then show ?case by (simp add: batch_rows_Cons algebra_simps)
qed

definition accounted :: "('x, 'z) sqlite_scheme \<Rightarrow> ('x \<Rightarrow> database) \<Rightarrow> 'x \<Rightarrow> pending_record list \<Rightarrow> 'x recorder_run \<Rightarrow> bool" where
  "accounted sq st x ws s \<longleftrightarrow>
     recording (run_recorder s) \<and> length (write_buffer (run_recorder s)) \<le> max_buffer_size \<and>
     subseq (concat (map fst (run_batches s)) @ write_buffer (run_recorder s)) ws \<and>
     length (concat (map fst (run_batches s)) @ write_buffer (run_recorder s)) + run_refused s = length ws \<and>
     content (st (run_db s)) = (content (st x))\<lparr>
       node_rows := node_rows (content (st x)) @ batch_rows sq (node_seq (content (st x))) (map record_entry (stored (run_batches s))),
       node_seq := node_seq (content (st x)) + int (length (stored (run_batches s)))\<rparr> \<and>
     (saved (st (run_db s)) = [] \<longleftrightarrow> saved (st x) = []) \<and> (saved (st x) \<noteq> [] \<longrightarrow> stored (run_batches s) = [])"

lemma write_pending_cases:
  assumes "recording r"
  shows "(max_buffer_size \<le> length (write_buffer r) \<and> write_pending p r = r) \<or>
    (length (write_buffer r) < max_buffer_size \<and> write_pending p r = r\<lparr>write_buffer := write_buffer r @ [p]\<rparr>)"
  using assms by (cases p) (auto simp: write_pending_def write_record_def)

lemma accounted_write:
  assumes "accounted sq st x ws s"
  shows "accounted sq st x (ws @ [p]) (run_event sq (Write p) s)"
proof -
  let ?r = "run_recorder s"
  have rec: "recording ?r" using assms by (simp add: accounted_def)
  have old: "accounted sq st x (ws @ [p]) (s\<lparr>run_refused := run_refused s + 1\<rparr>)"
    using assms by (auto simp: accounted_def intro: subseq_order.trans [OF _ subseq_rev_drop_many])
  from write_pending_cases [OF rec, of p] show ?thesis
  proof (elim disjE conjE)
    assume "write_pending p ?r = ?r"
    then show ?thesis using old by (simp add: run_event_def accounted_def)
  next
    assume room: "length (write_buffer ?r) < max_buffer_size"
      and w: "write_pending p ?r = ?r\<lparr>write_buffer := write_buffer ?r @ [p]\<rparr>"
    have "?r\<lparr>write_buffer := write_buffer ?r @ [p]\<rparr> \<noteq> ?r" by (cases ?r) simp
    then have e: "run_event sq (Write p) s = s\<lparr>run_recorder := ?r\<lparr>write_buffer := write_buffer ?r @ [p]\<rparr>\<rparr>"
      using w by (simp add: run_event_def)
    have "subseq ((concat (map fst (run_batches s)) @ write_buffer ?r) @ [p]) (ws @ [p])"
      using assms by (intro list_emb_append_mono) (simp_all add: accounted_def)
    then show ?thesis using assms room unfolding e by (simp add: accounted_def)
  qed
qed

lemma accounted_flush:
  assumes doc: "sqlite_documented sq st" and undo: "reliable sq st Rollback" and acc: "accounted sq st x ws s"
  shows "accounted sq st x ws (run_event sq Flush s)"
proof (cases "write_buffer (run_recorder s) = []")
  case True
  then have "run_event sq Flush s = s" by (cases s) (simp add: run_event_def flush_def)
  then show ?thesis using acc by simp
next
  case False
  let ?es = "map record_entry (write_buffer (run_recorder s))"
  obtain r x' where run: "insert_nodes_batch sq ?es (run_db s) = (r, x')" by fastforce
  have ne: "?es \<noteq> []" using False by simp
  have e: "run_event sq Flush s = s\<lparr>run_recorder := (run_recorder s)\<lparr>write_buffer := []\<rparr>, run_db := x',
      run_batches := run_batches s @ [(write_buffer (run_recorder s), has_value r)]\<rparr>"
    using False run by (simp add: run_event_def flush_def)
  note eff = insert_nodes_batch_effect [OF doc undo run ne]
  show ?thesis
  proof (cases r)
    case (Inl err)
    then show ?thesis using acc eff unfolding e by (simp add: accounted_def stored_def)
  next
    case (Inr ids)
    have "saved (st (run_db s)) = []" using eff Inr by auto
    then show ?thesis using acc eff Inr unfolding e
      by (simp add: accounted_def stored_def batch_rows_append)
  qed
qed

lemma run_events_accounted:
  assumes "sqlite_documented sq st" "reliable sq st Rollback"
  shows "accounted sq st x (writes es) (run_events sq es x)"
proof (induction es rule: rev_induct)
  case Nil
  show ?case by (simp add: accounted_def run_events_def writes_def set_enabled_def new_recorder_def stored_def batch_rows_def)
next
  case (snoc e es)
  have w: "writes (es @ [e]) = writes es @ (case e of Write p \<Rightarrow> [p] | Flush \<Rightarrow> [])" by (simp add: writes_def)
  have r: "run_events sq (es @ [e]) x = run_event sq e (run_events sq es x)" by (simp add: run_events_def)
  show ?case unfolding w r
    using accounted_write [OF snoc] accounted_flush [OF assms snoc] by (cases e) simp_all
qed

text \<open>
  C19 In any sequence of writes and flushes the buffer holds at most 512 records, and every record
  written is refused, still buffered, or part of exactly one flushed batch, in order: those refused
  are the newest. The graph holds exactly the records of the batches that were stored, in
  order; records of a batch that failed are lost. While a transaction is open (a snapshot was
  created and never released), every batch fails, so every flushed record is lost.
\<close>

theorem recorder_accounting:
  assumes "sqlite_documented sq st" "reliable sq st Rollback"
  shows "length (write_buffer (run_recorder (run_events sq es x))) \<le> 512 \<and>
    subseq (concat (map fst (run_batches (run_events sq es x))) @ write_buffer (run_recorder (run_events sq es x))) (writes es) \<and>
    length (concat (map fst (run_batches (run_events sq es x))) @ write_buffer (run_recorder (run_events sq es x))) +
      run_refused (run_events sq es x) = length (writes es) \<and>
    node_rows (content (st (run_db (run_events sq es x)))) = node_rows (content (st x)) @
      batch_rows sq (node_seq (content (st x))) (map record_entry (stored (run_batches (run_events sq es x)))) \<and>
    (saved (st x) \<noteq> [] \<longrightarrow> node_rows (content (st (run_db (run_events sq es x)))) = node_rows (content (st x)))"
proof -
  define s where "s = run_events sq es x"
  have "accounted sq st x (writes es) s" unfolding s_def by (rule run_events_accounted [OF assms])
  then show ?thesis unfolding s_def [symmetric] by (auto simp: accounted_def max_buffer_size_def batch_rows_def [of _ _ "[]"])
qed

text \<open>Two records, the first flushed, the second still buffered.\<close>

theorem recorder_accounting_witness:
  "let p = \<lparr>pending_score = Fin False 1, pending_verdict = ''NG'', pending_surface = [], pending_time = 5\<rparr>;
       s = run_events model_engine [Write p, Flush, Write p] (demo_database [1] [])
   in length (node_rows (content (run_db s))) = Suc (length (node_rows (content (demo_database [1] [])))) \<and>
      write_buffer (run_recorder s) = [p]"
proof -
  let ?p = "\<lparr>pending_score = Fin False 1, pending_verdict = ''NG'', pending_surface = [], pending_time = 5\<rparr>"
  let ?x = "demo_database [1] []"
  define s where "s = run_events model_engine [Write ?p, Flush, Write ?p] ?x"
  have batches: "map fst (run_batches s) = [[?p]]" "write_buffer (run_recorder s) = [?p]"
    by (simp_all add: s_def run_events_def run_event_def write_pending_def write_record_def max_buffer_size_def
        set_enabled_def new_recorder_def flush_def split: prod.split)
  have "stored (run_batches s) = [?p]"
    by (simp add: s_def run_events_def run_event_def write_pending_def write_record_def max_buffer_size_def set_enabled_def
        new_recorder_def flush_def stored_def insert_nodes_batch_def exec_def step_of_def is_control_def control_def
        demo_database_def query_def change_def attempt_def Let_def split: prod.splits)
  then have "length (node_rows (content (run_db s))) = Suc (length (node_rows (content ?x)))"
    using recorder_accounting [OF model_engine_documented, of "[Write ?p, Flush, Write ?p]" ?x]
    unfolding s_def [symmetric] by (simp add: batch_rows_def)
  then show ?thesis using batches(2) unfolding s_def Let_def by simp
qed

end
