(* ===== verification/Rule_Eval_Stage.thy ===== *)
theory Rule_Eval_Stage
  imports Rule_Engine Fact_Builder Inspection_Recorder
begin

text \<open>
  The rule evaluation stage (\<open>src/pipeline/rule_eval_stage.cpp\<close> and \<open>stage_nodes.h\<close>): its facts
  come from a fact builder when it has one, the rules are evaluated and resolved on them, and the
  verdict is recorded. The knowledge graph, the feature bank and the clocks are arguments.
\<close>

text \<open>
  The stage: the rule engine, whether a graph and a vector path are attached, and the fact builder
  with whether it was made with a vector path.
\<close>

record rule_eval_stage =
  rs_engine :: "rule_engine option"
  rs_kg :: bool
  rs_vp :: bool
  rs_builder :: "(bool \<times> fact_builder) option"
  rs_recorder :: "inspection_recorder option"
  rs_stub :: bool

definition new_stage :: rule_eval_stage where
  "new_stage = \<lparr>rs_engine = None, rs_kg = False, rs_vp = False, rs_builder = None, rs_recorder = None, rs_stub = True\<rparr>"

subsection \<open>Attaching the collaborators\<close>

text \<open>Initialising, with the result of loading the rule file when there is one and an engine.\<close>

definition on_initialize :: "(rule_engine \<Rightarrow> unit result \<times> rule_engine) option \<Rightarrow> rule_eval_stage \<Rightarrow> unit result \<times> rule_eval_stage" where
  "on_initialize load s =
     (let (r, s1) = (case (load, rs_engine s) of
            (Some f, Some eng) \<Rightarrow> (case f eng of (r, eng') \<Rightarrow> (r, s\<lparr>rs_engine := Some eng'\<rparr>))
          | _ \<Rightarrow> (Inr (), s))
      in case r of
           Inl err \<Rightarrow> (Inl err, s1)
         | Inr _ \<Rightarrow>
             (Inr (), s1\<lparr>rs_builder := (if rs_kg s1 \<and> rs_vp s1 then Some (True, fresh_builder) else rs_builder s1),
                         rs_stub := (if rs_engine s1 \<noteq> None then False else rs_stub s1)\<rparr>))"

text \<open>A newly set engine loads the rule file too; an error of that is ignored.\<close>

definition set_rule_engine :: "(rule_engine \<Rightarrow> unit result \<times> rule_engine) option \<Rightarrow> rule_engine option \<Rightarrow>
    rule_eval_stage \<Rightarrow> rule_eval_stage" where
  "set_rule_engine load eng s =
     s\<lparr>rs_engine := (case load of None \<Rightarrow> eng | Some f \<Rightarrow> map_option (snd \<circ> f) eng), rs_stub := False\<rparr>"

definition try_create_fact_builder :: "rule_eval_stage \<Rightarrow> rule_eval_stage" where
  "try_create_fact_builder s =
     (if rs_kg s \<and> rs_builder s = None then s\<lparr>rs_builder := Some (rs_vp s, fresh_builder)\<rparr> else s)"

definition set_knowledge_graph :: "bool \<Rightarrow> rule_eval_stage \<Rightarrow> rule_eval_stage" where
  "set_knowledge_graph kg s = try_create_fact_builder (s\<lparr>rs_kg := kg\<rparr>)"

definition set_vector_path :: "bool \<Rightarrow> rule_eval_stage \<Rightarrow> rule_eval_stage" where
  "set_vector_path vp s = try_create_fact_builder (s\<lparr>rs_vp := vp\<rparr>)"

definition set_inspection_recorder :: "inspection_recorder option \<Rightarrow> rule_eval_stage \<Rightarrow> rule_eval_stage" where
  "set_inspection_recorder r s = s\<lparr>rs_recorder := r\<rparr>"

subsection \<open>Processing a detection\<close>

record rule_eval_output =
  ro_facts :: fact_base
  ro_rules :: "resolved_rule list"
  ro_surface_id :: string
  ro_position_id :: "16 word"

definition surface_or_default :: "detection_result \<Rightarrow> string" where
  "surface_or_default dr = (if dr_surface_id dr = [] then ''default'' else dr_surface_id dr)"

text \<open>The path of the first batch of the surface.\<close>

definition graph_paths :: "('x, 'z) sqlite_scheme \<Rightarrow> string \<Rightarrow> 'x \<Rightarrow> string list" where
  "graph_paths sq surface x =
     (if surface = ''default'' then []
      else case find_nodes_by_type sq ''Batch'' x of
             Inl _ \<Rightarrow> []
           | Inr batches \<Rightarrow>
               (case find (\<lambda>b. sm_get (rec_fields (kn_properties b)) ''surface'' = Some (FText surface)) batches of
                  None \<Rightarrow> []
                | Some b \<Rightarrow> [''batch.'' @ int_str (kn_id b) @ ''.material.supplier'']))"

definition bare_facts :: "detection_result \<Rightarrow> fact_base" where
  "bare_facts dr =
     fold (\<lambda>(k, v) fb. fb_set k v (mk_source Direct ''DetectionResult'') fb)
       [(''detection.anomaly_score'', of_double (image_level_score dr)),
        (''detection.image_level_score'', of_double (image_level_score dr)),
        (''detection.anomaly_map.max_score'', of_double (max_score (dr_map dr)))] empty_facts"

definition built_facts :: "int \<Rightarrow> ('x, 'z) sqlite_scheme \<Rightarrow> 'x \<Rightarrow> bool \<Rightarrow> detection_result \<Rightarrow> fact_base" where
  "built_facts elapsed sq x kg dr =
     (let surface = surface_or_default dr
      in case build elapsed (Some (sq, x)) surface dr (if kg then graph_paths sq surface x else []) of
           Inr fb \<Rightarrow> fb
         | Inl _ \<Rightarrow> empty_facts)"

text \<open>The search for similar cases; its error is ignored. \<open>None\<close> is an undefined conversion.\<close>

definition retrieved_facts :: "search_bank \<Rightarrow> detection_result \<Rightarrow> bool \<Rightarrow> fact_builder \<Rightarrow> fact_base \<Rightarrow>
    (fact_base \<times> fact_builder) option" where
  "retrieved_facts bank dr vp b fb =
     (if global_features dr = [] then Some (fb, b)
      else map_option snd (run_vector_retrieval (if vp then Some bank else None) ''embedding.global''
             (fb_set ''embedding.global'' (of_list (map of_double (global_features dr)))
               (mk_source Direct ''CLIP GlobalEmbedder'') fb) b))"

definition machine_verdict :: "resolved_rule list \<Rightarrow> string" where
  "machine_verdict rules =
     (if list_ex (\<lambda>r. matched r \<and> d_gt (base_severity (res_action r)) (Fin False 0)) rules then ''NG'' else ''OK'')"

definition stage_facts :: "int \<Rightarrow> ('x, 'z) sqlite_scheme \<Rightarrow> 'x \<Rightarrow> search_bank \<Rightarrow> detection_result \<Rightarrow> rule_eval_stage \<Rightarrow>
    (fact_base \<times> rule_eval_stage) option" where
  "stage_facts elapsed sq x bank dr s =
     (case rs_builder s of
        None \<Rightarrow> Some (bare_facts dr, s)
      | Some (vp, b) \<Rightarrow>
          map_option (\<lambda>(fb, b'). (fb, s\<lparr>rs_builder := Some (vp, b')\<rparr>))
            (retrieved_facts bank dr vp b (built_facts elapsed sq x (rs_kg s) dr)))"

text \<open>The record of a frame: the recorder ignores it without a graph of its own.\<close>

definition record_frame :: "bool \<Rightarrow> 64 word \<Rightarrow> detection_result \<Rightarrow> resolved_rule list \<Rightarrow> rule_eval_stage \<Rightarrow> rule_eval_stage" where
  "record_frame kg now dr rules s =
     s\<lparr>rs_recorder := map_option (\<lambda>r. if recording r
         then write_record kg now (image_level_score dr) (machine_verdict rules) (surface_or_default dr) now r else r) (rs_recorder s)\<rparr>"

definition process_rules :: "hash_fn \<Rightarrow> (string \<Rightarrow> nat \<Rightarrow> int) \<Rightarrow> int \<Rightarrow> 64 word \<Rightarrow> ('x, 'z) sqlite_scheme \<Rightarrow> 'x \<Rightarrow> search_bank \<Rightarrow>
    bool \<Rightarrow> detection_result \<Rightarrow> rule_eval_stage \<Rightarrow> (rule_eval_output result \<times> rule_eval_stage) option" where
  "process_rules h clk elapsed now sq x bank rec_kg dr s =
     (let output = (\<lambda>fb rules. \<lparr>ro_facts = fb, ro_rules = rules, ro_surface_id = dr_surface_id dr,
            ro_position_id = dr_position_id dr\<rparr>)
      in case (rs_stub s, rs_engine s) of
           (False, Some eng) \<Rightarrow>
             map_option (\<lambda>(fb, s1).
               case evaluate_all h clk eng fb of
                 Inl err \<Rightarrow> (Inl err, s1)
               | Inr ev \<Rightarrow>
                   (let rules = resolve_conflicts eng ev
                    in (Inr (output fb rules), record_frame rec_kg now dr rules s1)))
               (stage_facts elapsed sq x bank dr s)
         | _ \<Rightarrow> Some (Inr (output empty_facts []), s))"

text \<open>Data of another type is refused.\<close>

definition process :: "hash_fn \<Rightarrow> (string \<Rightarrow> nat \<Rightarrow> int) \<Rightarrow> int \<Rightarrow> 64 word \<Rightarrow> ('x, 'z) sqlite_scheme \<Rightarrow> 'x \<Rightarrow> search_bank \<Rightarrow>
    bool \<Rightarrow> detection_result option \<Rightarrow> rule_eval_stage \<Rightarrow> (rule_eval_output result \<times> rule_eval_stage) option" where
  "process h clk elapsed now sq x bank rec_kg input s =
     (case input of
        None \<Rightarrow> Some (Inl (ErrorInfo Pipeline_StageTypeMismatch ''RuleEval expects DetectionResult input''), s)
      | Some dr \<Rightarrow> process_rules h clk elapsed now sq x bank rec_kg dr s)"

subsection \<open>A vector path that comes too late\<close>

text \<open>What can happen to a stage that has been initialised.\<close>

inductive stage_step :: "('x, 'z) sqlite_scheme \<Rightarrow> rule_eval_stage \<Rightarrow> rule_eval_stage \<Rightarrow> bool" for sq where
  set_engine: "stage_step sq s (set_rule_engine load eng s)"
| set_graph: "stage_step sq s (set_knowledge_graph kg s)"
| set_path: "stage_step sq s (set_vector_path vp s)"
| set_recorder: "stage_step sq s (set_inspection_recorder r s)"
| frame: "process h clk elapsed now sq x bank rec_kg input s = Some (r, s') \<Longrightarrow> stage_step sq s s'"

definition builder_path :: "rule_eval_stage \<Rightarrow> bool option" where
  "builder_path s = map_option fst (rs_builder s)"

lemma builder_path_try: "builder_path s = Some v \<Longrightarrow> builder_path (try_create_fact_builder s) = Some v"
  by (auto simp: builder_path_def try_create_fact_builder_def)

lemma builder_path_facts:
  "stage_facts elapsed sq x bank dr s = Some (fb, s') \<Longrightarrow> builder_path s' = builder_path s"
  by (auto simp: stage_facts_def builder_path_def split: option.splits)

lemma builder_path_process:
  assumes "process h clk elapsed now sq x bank rec_kg input s = Some (r, s')"
  shows "builder_path s' = builder_path s"
proof (cases input)
  case (Some dr)
  show ?thesis
  proof (cases "rs_stub s \<or> rs_engine s = None")
    case True
    then show ?thesis using assms Some by (auto simp: process_def process_rules_def Let_def split: bool.splits option.splits)
  next
    case False
    then obtain eng where eng: "rs_stub s = False" "rs_engine s = Some eng" by auto
    then obtain fb s1 where "stage_facts elapsed sq x bank dr s = Some (fb, s1)" "s' = record_frame rec_kg now dr
        (resolve_conflicts eng (concat (map (\<lambda>(set_name, rules). fst (evaluate_rule_set h (clk set_name) rules (fb_snapshot fb))) (engine_sets eng)))) s1"
      using assms Some by (auto simp: process_def process_rules_def Let_def evaluate_all_def)
    then show ?thesis using builder_path_facts by (auto simp: record_frame_def builder_path_def)
  qed
qed (use assms in \<open>simp add: process_def\<close>)

lemma builder_path_step: "stage_step sq s s' \<Longrightarrow> builder_path s = Some v \<Longrightarrow> builder_path s' = Some v"
proof (induction rule: stage_step.induct)
  case (frame h clk elapsed now x bank rec_kg input s r s')
  then show ?case by (simp add: builder_path_process)
qed (auto simp: set_rule_engine_def set_knowledge_graph_def set_vector_path_def set_inspection_recorder_def builder_path_def
      try_create_fact_builder_def)

lemma builder_path_steps: "(stage_step sq)\<^sup>*\<^sup>* s s' \<Longrightarrow> builder_path s = Some v \<Longrightarrow> builder_path s' = Some v"
  by (induction rule: rtranclp_induct) (auto dest: builder_path_step)

subsection \<open>Which facts the rules see\<close>

lemma no_arrow: "CHR ''>'' \<notin> set s \<Longrightarrow> \<not> has_arrow s"
  by (induction s rule: has_arrow.induct) auto

lemma parse_without_arrow:
  assumes "CHR ''>'' \<notin> set s" "s \<noteq> []"
  shows "\<not> has_value (parse_path s)"
  using split_arrow_token [OF no_arrow [OF assms(1)], of "[]"] assms(2)
  by (simp add: parse_path_def split_string_def has_value_def)

lemma batch_path_parses_never: "\<not> has_value (parse_path (''batch.'' @ int_str i @ ''.material.supplier''))"
proof (rule parse_without_arrow)
  have "CHR ''>'' \<notin> set (nat_str n)" for n by (rule nat_str_not_char) simp
  then show "CHR ''>'' \<notin> set (''batch.'' @ int_str i @ ''.material.supplier'')" by (simp add: int_str_def)
qed simp

lemma graph_paths_never_build:
  assumes "graph_paths sq surface x \<noteq> []"
  shows "\<not> has_value (build elapsed kg surface dr (graph_paths sq surface x))"
proof -
  obtain i where "graph_paths sq surface x = [''batch.'' @ int_str i @ ''.material.supplier'']"
    using assms that by (simp add: graph_paths_def split: if_splits sum.splits option.splits)
  then show ?thesis using build_facts [of elapsed kg surface dr "graph_paths sq surface x"] batch_path_parses_never by simp
qed

lemma detected_other:
  assumes "take 10 k \<noteq> ''detection.''" "k \<noteq> ''surface.id''"
  shows "fb_get (detected elapsed surface dr) k = None"
proof -
  have p: "take (length p) k \<noteq> p" if "take 10 p = ''detection.''" "10 \<le> length p" for p
  proof
    assume "take (length p) k = p"
    then have "take 10 (take (length p) k) = ''detection.''" using that(1) by simp
    then show False using assms(1) that(2) by (simp add: min_def)
  qed
  have region: "fb_get (map_region r fb) k = fb_get fb k" for r fb
    unfolding map_region_def by (rule fold_set_prefix [OF p]) simp_all
  have fields: "fb_get (fold (\<lambda>(key, v, d) fb. fb_set (''detection.'' @ key) v (direct (''DetectionResult::'' @ d)) fb) l fb) k = fb_get fb k" for l fb
    by (rule fold_set_prefix [OF p]) simp_all
  have "k \<noteq> ''detection.image_level_score''" using assms(1) by auto
  then show ?thesis using assms(2)
    by (simp only: detected_def map_detection_def Let_def fields region fb_get_set fb_empty fun_upd_other list.case split: list.split) simp
qed

lemma retrieved_prefix:
  assumes "retrieved_facts bank dr False b fb = Some (fb', b')"
  shows "b' = b \<and> (k \<noteq> ''embedding.global'' \<longrightarrow> fb_get fb' k = fb_get fb k)"
  using assms by (auto simp: retrieved_facts_def run_vector_retrieval_def split: if_splits)

lemma built_other:
  assumes "take 6 k \<noteq> ''graph.''" "take 10 k \<noteq> ''detection.''" "k \<noteq> ''surface.id''"
  shows "fb_get (built_facts elapsed sq x kg dr) k = None"
proof -
  let ?b = "build elapsed (Some (sq, x)) (surface_or_default dr) dr (if kg then graph_paths sq (surface_or_default dr) x else [])"
  show ?thesis
  proof (cases ?b)
    case (Inr fb)
    then have "fb_get fb k = fb_get (detected elapsed (surface_or_default dr) dr) k"
      using build_facts [of elapsed "Some (sq, x)" "surface_or_default dr" dr "if kg then graph_paths sq (surface_or_default dr) x else []" fb k]
        assms(1) by blast
    then show ?thesis using Inr detected_other [OF assms(2,3)] by (simp add: built_facts_def Let_def)
  qed (simp add: built_facts_def Let_def)
qed

text \<open>
  When the knowledge graph is attached before the vector path, as the application does it, the
  fact builder is made without the path and stays so, whatever is attached or processed later:
  no frame ever gets facts from a vector search.
\<close>

theorem vector_path_too_late:
  assumes "rs_builder s = None" "\<not> rs_vp s" "(stage_step sq)\<^sup>*\<^sup>* (set_knowledge_graph True s) s'"
  shows "builder_path s' = Some False \<and>
    (\<forall>elapsed x bank dr. fb_get (fst (the (stage_facts elapsed sq x bank dr s'))) ''retrieval.count'' = None)"
proof -
  have "builder_path (set_knowledge_graph True s) = Some False"
    using assms(1,2) by (simp add: set_knowledge_graph_def try_create_fact_builder_def builder_path_def)
  from builder_path_steps [OF assms(3) this] have path: "builder_path s' = Some False" .
  then obtain b where b: "rs_builder s' = Some (False, b)" by (auto simp: builder_path_def)
  have "fb_get (fst (the (stage_facts elapsed sq x bank dr s'))) ''retrieval.count'' = None" for elapsed x bank dr
  proof -
    have "\<exists>r. retrieved_facts bank dr False b (built_facts elapsed sq x (rs_kg s') dr) = Some r"
      by (simp add: retrieved_facts_def run_vector_retrieval_def)
    then obtain fb b' where r: "retrieved_facts bank dr False b (built_facts elapsed sq x (rs_kg s') dr) = Some (fb, b')"
      by auto
    then show ?thesis using retrieved_prefix [OF r, of "''retrieval.count''"] built_other [of "''retrieval.count''"]
      by (simp add: stage_facts_def b)
  qed
  then show ?thesis using path by blast
qed

theorem vector_path_too_late_witness:
  "builder_path (set_vector_path True (set_knowledge_graph True new_stage)) = Some False"
proof -
  have "(stage_step model_engine)\<^sup>*\<^sup>* (set_knowledge_graph True new_stage) (set_vector_path True (set_knowledge_graph True new_stage))"
    by (rule r_into_rtranclp) (rule stage_step.set_path)
  then show ?thesis using vector_path_too_late [of new_stage model_engine] by (simp add: new_stage_def)
qed

text \<open>
  As soon as the graph has a batch for the surface of a frame, the rules see none of the
  detection facts: the path asked for the batch is malformed, so building the facts fails.
\<close>

theorem rule_eval_loses_facts:
  assumes "\<not> rs_stub s" "rs_engine s = Some eng" "rs_builder s = Some vb" "rs_kg s"
    and "find_nodes_by_type sq ''Batch'' x = Inr batches" "dr_surface_id dr \<notin> {[], ''default''}"
    and "b \<in> set batches" "sm_get (rec_fields (kn_properties b)) ''surface'' = Some (FText (dr_surface_id dr))"
    and "process_rules h clk elapsed now sq x bank rec_kg dr s = Some (Inr out, s')" "global_features dr = []"
  shows "ro_facts out = empty_facts"
proof -
  have "find (\<lambda>b. sm_get (rec_fields (kn_properties b)) ''surface'' = Some (FText (dr_surface_id dr))) batches \<noteq> None"
    using assms(7,8) by (auto simp: find_None_iff)
  then have "graph_paths sq (surface_or_default dr) x \<noteq> []"
    using assms(5,6) by (auto simp: graph_paths_def surface_or_default_def)
  then have "\<not> has_value (build elapsed (Some (sq, x)) (surface_or_default dr) dr (graph_paths sq (surface_or_default dr) x))"
    by (rule graph_paths_never_build)
  then have "built_facts elapsed sq x True dr = empty_facts"
    by (simp add: built_facts_def Let_def has_value_def split: sum.splits)
  then have "stage_facts elapsed sq x bank dr s = Some (empty_facts, s\<lparr>rs_builder := Some vb\<rparr>)"
    using assms(3,4,10) by (cases vb) (simp add: stage_facts_def retrieved_facts_def)
  then show ?thesis using assms(1,2,9) by (auto simp: process_rules_def Let_def evaluate_all_def)
qed

definition surface_graph :: database where
  "surface_graph = \<lparr>content = \<lparr>node_rows = [(1, ''Batch'', record_text model_engine \<lparr>rec_fields = [(''surface'', FText ''top'')]\<rparr>)],
     edge_rows = [], log_rows = [], snap_rows = [], vec_rows = [], node_seq = 1, edge_seq = 0, log_seq = 0, snap_seq = 0\<rparr>,
     saved = []\<rparr>"

lemma read_back: "sm_wf (rec_fields r) \<Longrightarrow> json_to_record (parse model_engine (c_str (record_text model_engine r))) = surviving_record r"
  by (rule model_engine_reads)

theorem rule_eval_loses_facts_witness:
  "\<forall>h clk. \<exists>out s'. process_rules h clk 0 1 model_engine surface_graph demo_bank True demo_detection
      (set_knowledge_graph True (set_rule_engine None (Some fresh_engine) new_stage)) = Some (Inr out, s') \<and>
    ro_facts out = empty_facts"
proof (intro allI)
  fix h clk
  let ?s = "set_knowledge_graph True (set_rule_engine None (Some fresh_engine) new_stage)"
  have names: "c_str ''Batch'' = ''Batch''" by (simp add: c_str_def)
  have found: "find_nodes_by_type model_engine ''Batch'' surface_graph =
      Inr [\<lparr>kn_id = 1, kn_type = ''Batch'', kn_properties = \<lparr>rec_fields = [(''surface'', FText ''top'')]\<rparr>\<rparr>]"
    by (simp add: find_nodes_by_type_def step_of_def is_control_def query_def surface_graph_def select_rows_def and_then_def
        node_columns_read read_back names sm_wf_def surviving_record_def surviving_def)
  have s: "\<not> rs_stub ?s" "rs_engine ?s = Some fresh_engine" "rs_builder ?s = Some (False, fresh_builder)" "rs_kg ?s"
    by (simp_all add: set_knowledge_graph_def set_rule_engine_def try_create_fact_builder_def new_stage_def)
  have f: "stage_facts 0 model_engine surface_graph demo_bank demo_detection ?s \<noteq> None"
    by (simp add: stage_facts_def s retrieved_facts_def demo_detection_def)
  then obtain out s' where run: "process_rules h clk 0 1 model_engine surface_graph demo_bank True demo_detection ?s = Some (Inr out, s')"
    using s by (auto simp: process_rules_def Let_def evaluate_all_def)
  have "ro_facts out = empty_facts"
    by (rule rule_eval_loses_facts [where b = "\<lparr>kn_id = 1, kn_type = ''Batch'', kn_properties = \<lparr>rec_fields = [(''surface'', FText ''top'')]\<rparr>\<rparr>",
        OF s found _ _ _ run]) (simp_all add: demo_detection_def)
  then show "\<exists>out s'. process_rules h clk 0 1 model_engine surface_graph demo_bank True demo_detection
      (set_knowledge_graph True (set_rule_engine None (Some fresh_engine) new_stage)) = Some (Inr out, s') \<and>
    ro_facts out = empty_facts" using run by blast
qed

text \<open>
  A stage with an engine that processes a detection passes its surface and position on, with
  the resolved results of all rules on the facts, and records one entry when its recorder is on, has
  a graph and has room: with the score of the frame and the verdict NG exactly when a rule that
  matched after resolution has a positive severity.
\<close>

theorem process_spec:
  assumes "\<not> rs_stub s" "rs_engine s = Some eng" "stage_facts elapsed sq x bank dr s = Some (fb, s1)"
    and "rs_recorder s = Some r" "recording r" "length (write_buffer r) < max_buffer_size" "now \<noteq> 0"
  shows "\<exists>out s' p. process h clk elapsed now sq x bank True (Some dr) s = Some (Inr out, s') \<and>
    ro_facts out = fb \<and> ro_surface_id out = dr_surface_id dr \<and> ro_position_id out = dr_position_id dr \<and>
    ro_rules out = resolve_conflicts eng (concat (map (\<lambda>(set_name, rules).
      fst (evaluate_rule_set h (clk set_name) rules fb)) (engine_sets eng))) \<and>
    rs_recorder s' = Some (r\<lparr>write_buffer := write_buffer r @ [p]\<rparr>) \<and>
    pending_score p = image_level_score dr \<and> pending_time p = now \<and>
    (pending_verdict p = ''NG'' \<longleftrightarrow>
      (\<exists>x \<in> set (ro_rules out). matched x \<and> d_gt (base_severity (res_action x)) (Fin False 0)))"
proof -
  have rec: "rs_recorder s1 = Some r"
    using assms(3,4) by (auto simp: stage_facts_def split: option.splits)
  let ?rules = "resolve_conflicts eng (concat (map (\<lambda>(set_name, rules). fst (evaluate_rule_set h (clk set_name) rules fb)) (engine_sets eng)))"
  let ?out = "\<lparr>ro_facts = fb, ro_rules = ?rules, ro_surface_id = dr_surface_id dr, ro_position_id = dr_position_id dr\<rparr>"
  let ?p = "\<lparr>pending_score = image_level_score dr, pending_verdict = machine_verdict ?rules,
    pending_surface = surface_or_default dr, pending_time = now\<rparr>"
  have run: "process h clk elapsed now sq x bank True (Some dr) s = Some (Inr ?out, record_frame True now dr ?rules s1)"
    using assms(1-3) by (simp add: process_def process_rules_def Let_def evaluate_all_def fb_snapshot_def)
  moreover have "rs_recorder (record_frame True now dr ?rules s1) = Some (r\<lparr>write_buffer := write_buffer r @ [?p]\<rparr>)"
    using assms(5-7) by (simp add: record_frame_def rec write_record_def)
  moreover have "machine_verdict ?rules = ''NG'' \<longleftrightarrow>
      (\<exists>x \<in> set ?rules. matched x \<and> d_gt (base_severity (res_action x)) (Fin False 0))"
    by (simp add: machine_verdict_def list_ex_iff)
  ultimately show ?thesis by (intro exI [of _ ?out] exI [of _ "record_frame True now dr ?rules s1"] exI [of _ ?p]) simp
qed

theorem process_spec_witness:
  "\<forall>h clk. \<exists>out s' p. process h clk 0 7 model_engine surface_graph demo_bank True (Some demo_detection)
      (set_inspection_recorder (Some (set_enabled True new_recorder)) (set_rule_engine None (Some fresh_engine) new_stage)) = Some (Inr out, s') \<and>
    ro_surface_id out = ''top'' \<and> map_option write_buffer (rs_recorder s') = Some [p] \<and> pending_time p = 7"
proof (intro allI)
  fix h clk
  let ?s = "set_inspection_recorder (Some (set_enabled True new_recorder)) (set_rule_engine None (Some fresh_engine) new_stage)"
  have s: "\<not> rs_stub ?s" "rs_engine ?s = Some fresh_engine"
      "stage_facts 0 model_engine surface_graph demo_bank demo_detection ?s = Some (bare_facts demo_detection, ?s)"
      "rs_recorder ?s = Some (set_enabled True new_recorder)"
    by (simp_all add: set_inspection_recorder_def set_rule_engine_def new_stage_def stage_facts_def)
  have r: "recording (set_enabled True new_recorder)" "length (write_buffer (set_enabled True new_recorder)) < max_buffer_size"
    by (simp_all add: set_enabled_def new_recorder_def max_buffer_size_def)
  have "(7 :: 64 word) \<noteq> 0" by simp
  from process_spec [OF s r this, of h clk] show "\<exists>out s' p. process h clk 0 7 model_engine surface_graph demo_bank True (Some demo_detection)
      (set_inspection_recorder (Some (set_enabled True new_recorder)) (set_rule_engine None (Some fresh_engine) new_stage)) = Some (Inr out, s') \<and>
    ro_surface_id out = ''top'' \<and> map_option write_buffer (rs_recorder s') = Some [p] \<and> pending_time p = 7"
    by (auto simp: demo_detection_def set_enabled_def new_recorder_def)
qed

end
