(* ===== verification/Feature_Bank.thy ===== *)
theory Feature_Bank
  imports Prelude Float32
begin

text \<open>
  Feature banks (\<open>src/detection/feature_bank.cpp\<close>): the reference vectors of normal surfaces, kept in
  a FAISS index, with the feature file, the nearest-neighbour search, the sampling of embeddings and
  the greedy coreset. FAISS is third-party code: its operations are the fields of \<open>faiss_lib\<close>, with
  \<open>None\<close> where FAISS throws, which ends the process because the methods are \<open>noexcept\<close>. \<open>None\<close> also
  stands for undefined behaviour (a division by a zero dimension, a read past the end of a vector).
\<close>

record 'ix faiss_lib =
  flat_new :: "nat \<Rightarrow> 'ix"
  ivf_new :: "nat \<Rightarrow> nat \<Rightarrow> 'ix"
  is_ivf :: "'ix \<Rightarrow> bool"
  ix_train :: "'ix \<Rightarrow> nat \<Rightarrow> dbl list \<Rightarrow> 'ix option"
  ix_add :: "'ix \<Rightarrow> nat \<Rightarrow> dbl list \<Rightarrow> 'ix option"
  ix_search :: "'ix \<Rightarrow> nat option \<Rightarrow> nat \<Rightarrow> dbl list \<Rightarrow> nat \<Rightarrow> dbl list option"
  ix_reconstruct :: "'ix \<Rightarrow> nat \<Rightarrow> dbl list option"

record 'ix feature_bank =
  bk_index :: "'ix option"
  bk_dim :: nat
  bk_num :: nat
  bk_nprobe :: nat

definition empty_bank :: "'ix feature_bank" where
  "empty_bank = \<lparr>bk_index = None, bk_dim = 0, bk_num = 0, bk_nprobe = 4\<rparr>"

definition bank_error :: "string \<Rightarrow> 'a result" where
  "bank_error m = Inl (ErrorInfo Detection_FeatureBankLoadFailed m)"

text \<open>The \<open>i\<close>-th row of a row-major matrix.\<close>

definition row :: "nat \<Rightarrow> 'a list \<Rightarrow> nat \<Rightarrow> 'a list" where
  "row d vs i = take d (drop (i * d) vs)"

subsection \<open>Loading, searching, saving\<close>

definition rebuild :: "'ix faiss_lib \<Rightarrow> 'ix feature_bank \<Rightarrow> dbl list \<Rightarrow> nat \<Rightarrow> nat \<Rightarrow> 'ix feature_bank option" where
  "rebuild lib b vs count d =
     map_option (\<lambda>ix. b\<lparr>bk_index := Some ix, bk_dim := d, bk_num := count\<rparr>) (ix_add lib (flat_new lib d) count vs)"

text \<open>An opened file is the size \<open>tellg\<close> reports and the bytes a read delivers.\<close>

definition load_from_file ::
  "'ix faiss_lib \<Rightarrow> string \<Rightarrow> (nat \<times> 8 word list) option \<Rightarrow> nat \<Rightarrow> 'ix feature_bank result option" where
  "load_from_file lib path opened d =
     (case opened of
        None \<Rightarrow> Some (bank_error (''cannot open feature bank file: '' @ path))
      | Some (file_size, bytes) \<Rightarrow>
          if d = 0 then None
          else if file_size mod (d * 4) \<noteq> 0
          then Some (bank_error (''file size '' @ nat_str file_size @ '' is not a multiple of dim '' @ nat_str d))
          else let n = file_size div (d * 4) in
               if length bytes < n * d * 4
               then Some (bank_error (''failed to read feature bank file: '' @ path))
               else map_option Inr (rebuild lib empty_bank (bytes_floats (take (n * d * 4) bytes)) n d))"

definition bank_search :: "'ix faiss_lib \<Rightarrow> 'ix feature_bank \<Rightarrow> dbl list \<Rightarrow> nat \<Rightarrow> nat \<Rightarrow> dbl list option" where
  "bank_search lib b q query_count k =
     (if query_count = 0 \<or> k = 0 then Some []
      else case bk_index b of
             None \<Rightarrow> Some []
           | Some ix \<Rightarrow> ix_search lib ix (if is_ivf lib ix then Some (bk_nprobe b) else None) query_count q k)"

primrec reconstruct_rows :: "'ix faiss_lib \<Rightarrow> 'ix \<Rightarrow> nat list \<Rightarrow> dbl list option" where
  "reconstruct_rows lib ix [] = Some []"
| "reconstruct_rows lib ix (i # is) =
     (case ix_reconstruct lib ix i of
        None \<Rightarrow> None
      | Some r \<Rightarrow> map_option ((@) r) (reconstruct_rows lib ix is))"

definition extract_all_vectors :: "'ix faiss_lib \<Rightarrow> 'ix feature_bank \<Rightarrow> dbl list option" where
  "extract_all_vectors lib b =
     (if bk_num b = 0 \<or> bk_dim b = 0 then Some []
      else case bk_index b of
             None \<Rightarrow> Some []
           | Some ix \<Rightarrow> reconstruct_rows lib ix [0..<bk_num b])"

definition holds_nothing :: "'ix feature_bank \<Rightarrow> bool" where
  "holds_nothing b = ((case bk_index b of None \<Rightarrow> True | Some _ \<Rightarrow> False) \<or> bk_num b = 0 \<or> bk_dim b = 0)"

text \<open>The result, and the content the file has afterwards (\<open>None\<close> when it is not touched). Opening
  the file empties it; how much of a failed write arrives is the argument \<open>written\<close>.\<close>

definition save_to_file ::
  "'ix faiss_lib \<Rightarrow> 'ix feature_bank \<Rightarrow> string \<Rightarrow> bool \<Rightarrow> nat \<Rightarrow> (unit result \<times> 8 word list option) option" where
  "save_to_file lib b path can_open written =
     (if holds_nothing b then Some (bank_error ''FeatureBank is empty, nothing to save'', None)
      else case extract_all_vectors lib b of
             None \<Rightarrow> None
           | Some vs \<Rightarrow>
               if \<not> can_open then Some (bank_error (''Cannot open file for writing: '' @ path), None)
               else let bytes = concat (map float_bytes vs) in
                    if written < length bytes
                    then Some (bank_error (''Failed to write feature bank file: '' @ path), Some (take written bytes))
                    else Some (Inr (), Some bytes))"

subsection \<open>Collecting the patch vectors of embeddings\<close>

record embedding =
  em_dim :: nat
  em_count :: nat
  em_data :: "dbl list"

text \<open>Null pointers are skipped; the vectors of the others are appended, \<open>count * dim\<close> floats each.\<close>

fun collect :: "string \<Rightarrow> nat \<Rightarrow> embedding option list \<Rightarrow> dbl list \<Rightarrow> nat \<Rightarrow> (dbl list \<times> nat) result option" where
  "collect name d [] vs n_rows = Some (Inr (vs, n_rows))"
| "collect name d (None # es) vs n_rows = collect name d es vs n_rows"
| "collect name d (Some e # es) vs n_rows =
     (if em_dim e \<noteq> d
      then Some (bank_error (name @ '': embedding dim mismatch (expected '' @ nat_str d @
             '', got '' @ nat_str (em_dim e) @ '')''))
      else if em_count e = 0 then collect name d es vs n_rows
      else if length (em_data e) < em_count e * d then None
      else collect name d es (vs @ take (em_count e * d) (em_data e)) (n_rows + em_count e))"

definition collected :: "string \<Rightarrow> string \<Rightarrow> embedding option list \<Rightarrow> nat \<Rightarrow> (dbl list \<times> nat) result option" where
  "collected name nothing es d =
     (if es = [] then Some (bank_error (name @ '': no embeddings provided''))
      else case collect name d es [] 0 of
             Some (Inr (vs, n_rows)) \<Rightarrow>
               if n_rows = 0 then Some (bank_error (name @ nothing)) else Some (Inr (vs, n_rows))
           | r \<Rightarrow> r)"

subsection \<open>Sampling with a stride\<close>

text \<open>\<open>stride\<close> is at least one; every \<open>stride\<close>-th row is taken until \<open>max_samples\<close> are there.\<close>

function stride_rows :: "nat \<Rightarrow> dbl list \<Rightarrow> nat \<Rightarrow> nat \<Rightarrow> nat \<Rightarrow> nat \<Rightarrow> dbl list \<Rightarrow> dbl list" where
  "stride_rows d vs n_rows max_samples stride i out =
     (if i < n_rows \<and> length out div d < max_samples
      then stride_rows d vs n_rows max_samples stride (i + max 1 stride) (out @ row d vs i)
      else out)"
  by auto
termination by (relation "measure (\<lambda>(d, vs, n_rows, max_samples, stride, i, out). n_rows - i)") auto

declare stride_rows.simps [simp del]

text \<open>The adjustment to exactly \<open>max_samples\<close>; each round adds one row.\<close>

function top_up :: "nat \<Rightarrow> dbl list \<Rightarrow> nat \<Rightarrow> nat \<Rightarrow> dbl list \<Rightarrow> dbl list option" where
  "top_up d vs n_rows max_samples out =
     (if length out div d < max_samples \<and> length out div d < n_rows
      then let r = row d vs (length out div d) in
           if length r < d \<or> d = 0 then None else top_up d vs n_rows max_samples (out @ r)
      else Some out)"
  by auto
termination
proof (relation "measure (\<lambda>(d, vs, n_rows, max_samples, out). n_rows - length out div d)", goal_cases)
  case 2
  then show ?case by (auto simp: row_def)
qed simp

declare top_up.simps [simp del]

definition stride_sample :: "nat \<Rightarrow> dbl list \<Rightarrow> nat \<Rightarrow> nat \<Rightarrow> dbl list option" where
  "stride_sample d vs n_rows max_samples =
     (if d = 0 then None
      else map_option (\<lambda>stride. stride_rows d vs n_rows max_samples stride 0 [])
             (to_size (d_div (d_of_nat n_rows) (d_of_nat max_samples))))"

definition build_from_embeddings ::
  "'ix faiss_lib \<Rightarrow> embedding option list \<Rightarrow> nat \<Rightarrow> nat \<Rightarrow> 'ix feature_bank result option" where
  "build_from_embeddings lib es d max_samples =
     (case collected ''BuildFromEmbeddings'' '': no patch vectors extracted from embeddings'' es d of
        Some (Inr (vs, n_rows)) \<Rightarrow>
          if max_samples < n_rows
          then (case stride_sample d vs n_rows max_samples of
                  None \<Rightarrow> None
                | Some out \<Rightarrow>
                    (case top_up d vs n_rows max_samples out of
                       None \<Rightarrow> None
                     | Some out' \<Rightarrow> map_option Inr (rebuild lib empty_bank out' (length out' div d) d)))
          else map_option Inr (rebuild lib empty_bank vs n_rows d)
      | Some (Inl err) \<Rightarrow> Some (Inl err)
      | None \<Rightarrow> None)"

subsection \<open>The greedy coreset\<close>

text \<open>The loops over the components add the squares of the differences from left to right.\<close>

fun add_squares :: "dbl \<Rightarrow> dbl list \<Rightarrow> dbl list \<Rightarrow> dbl" where
  "add_squares acc (x # xs) (y # ys) =
     (let diff = f_sub x y in add_squares (f_add acc (f_mul diff diff)) xs ys)"
| "add_squares acc xs ys = acc"

definition dist_sq :: "nat \<Rightarrow> dbl list \<Rightarrow> nat \<Rightarrow> nat \<Rightarrow> dbl" where
  "dist_sq d vs i j = add_squares (Fin False 0) (row d vs i) (row d vs j)"

definition seed_distances :: "nat \<Rightarrow> dbl list \<Rightarrow> nat \<Rightarrow> dbl list" where
  "seed_distances d vs n_rows = Fin False 0 # map (\<lambda>i. dist_sq d vs i 0) [1..<n_rows]"

text \<open>The index of the first maximum, and the maximum, both from a start value of \<open>-1\<close> at index 0.\<close>

fun furthest :: "dbl list \<Rightarrow> nat \<Rightarrow> nat \<Rightarrow> dbl \<Rightarrow> nat" where
  "furthest [] i best_idx best_dist = best_idx"
| "furthest (m # ms) i best_idx best_dist =
     (if d_gt m best_dist then furthest ms (Suc i) i m else furthest ms (Suc i) best_idx best_dist)"

definition relax :: "nat \<Rightarrow> dbl list \<Rightarrow> nat \<Rightarrow> dbl list \<Rightarrow> dbl list" where
  "relax d vs best min_dist =
     map (\<lambda>(i, m). if d_eq m (Fin False 0) then m
                   else let dist = dist_sq d vs i best in if d_lt dist m then dist else m)
         (enumerate 0 min_dist)"

primrec select_loop :: "nat \<Rightarrow> nat \<Rightarrow> dbl list \<Rightarrow> nat list \<Rightarrow> dbl list \<Rightarrow> nat list" where
  "select_loop 0 d vs chosen min_dist = chosen"
| "select_loop (Suc k) d vs chosen min_dist =
     (let best = furthest min_dist 0 0 (Fin True 1)
      in select_loop k d vs (chosen @ [best]) (relax d vs best (min_dist[best := Fin False 0])))"

definition greedy_indices :: "nat \<Rightarrow> dbl list \<Rightarrow> nat \<Rightarrow> nat \<Rightarrow> nat list" where
  "greedy_indices d vs n_rows n_samples =
     select_loop (n_samples - 1) d vs [0] (seed_distances d vs n_rows)"

definition build_with_greedy_coreset ::
  "'ix faiss_lib \<Rightarrow> embedding option list \<Rightarrow> nat \<Rightarrow> nat \<Rightarrow> 'ix feature_bank result option" where
  "build_with_greedy_coreset lib es d max_samples =
     (case collected ''BuildWithGreedyCoreset'' '': no patch vectors extracted'' es d of
        Some (Inr (vs, n_rows)) \<Rightarrow>
          let n_samples = min max_samples n_rows;
              coreset = concat (map (row d vs) (greedy_indices d vs n_rows n_samples))
          in map_option Inr (rebuild lib empty_bank coreset n_samples d)
      | Some (Inl err) \<Rightarrow> Some (Inl err)
      | None \<Rightarrow> None)"

subsection \<open>Inverted indexes\<close>

text \<open>Train on the vectors, then add them; the constructor leaves \<open>nprobe\<close> at 4.\<close>

definition train_ivf :: "'ix faiss_lib \<Rightarrow> nat \<Rightarrow> nat \<Rightarrow> nat \<Rightarrow> dbl list \<Rightarrow> 'ix option" where
  "train_ivf lib d nlist n vs =
     (case ix_train lib (ivf_new lib d nlist) n vs of
        None \<Rightarrow> None
      | Some ix \<Rightarrow> ix_add lib ix n vs)"

definition build_with_ivf ::
  "'ix faiss_lib \<Rightarrow> embedding option list \<Rightarrow> nat \<Rightarrow> nat \<Rightarrow> nat \<Rightarrow> 'ix feature_bank result option" where
  "build_with_ivf lib es d max_samples nlist =
     (case collected ''BuildWithIVF'' '': no patch vectors extracted from embeddings'' es d of
        Some (Inr (vs, n_rows)) \<Rightarrow>
          (case (if max_samples < n_rows
                 then map_option (\<lambda>out. (out, length out div d)) (stride_sample d vs n_rows max_samples)
                 else Some (vs, n_rows)) of
             None \<Rightarrow> None
           | Some (data, n_samples) \<Rightarrow>
               if min nlist n_samples < 2 then map_option Inr (rebuild lib empty_bank data n_samples d)
               else map_option
                      (\<lambda>ix. Inr \<lparr>bk_index = Some ix, bk_dim = d, bk_num = n_samples, bk_nprobe = 4\<rparr>)
                      (train_ivf lib d (min nlist n_samples) n_samples data))
      | Some (Inl err) \<Rightarrow> Some (Inl err)
      | None \<Rightarrow> None)"

definition convert_to_ivf :: "'ix faiss_lib \<Rightarrow> 'ix feature_bank \<Rightarrow> nat \<Rightarrow> (unit result \<times> 'ix feature_bank) option" where
  "convert_to_ivf lib b nlist =
     (if holds_nothing b then Some (bank_error ''ConvertToIVF: FeatureBank is empty'', b)
      else case extract_all_vectors lib b of
             None \<Rightarrow> None
           | Some vs \<Rightarrow>
               if min nlist (bk_num b) < 2
               then Some (bank_error (''ConvertToIVF: too few samples ('' @ nat_str (bk_num b) @ '') for clustering''), b)
               else map_option (\<lambda>ix. (Inr (), b\<lparr>bk_index := Some ix\<rparr>))
                      (train_ivf lib (bk_dim b) (min nlist (bk_num b)) (bk_num b) vs))"

subsection \<open>Rows\<close>

lemma row_length: "length vs = n * d \<Longrightarrow> i < n \<Longrightarrow> length (row d vs i) = d"
proof -
  assume "length vs = n * d" "i < n"
  moreover have "Suc i * d \<le> n * d" using \<open>i < n\<close> by (intro mult_le_mono1) simp
  ultimately show ?thesis by (simp add: row_def)
qed

lemma rows_length: "length vs = n * d \<Longrightarrow> \<forall>i \<in> set is. i < n \<Longrightarrow> length (concat (map (row d vs) is)) = length is * d"
  using row_length [of vs n d] by (induction "is") auto

lemma concat_rows_prefix: "k \<le> n \<Longrightarrow> length vs = n * d \<Longrightarrow> concat (map (row d vs) [0..<k]) = take (k * d) vs"
proof (induction k)
  case (Suc k)
  have "take (k * d + d) vs = take (k * d) vs @ take d (drop (k * d) vs)" by (simp add: take_add)
  then show ?case using Suc by (simp add: row_def add.commute)
qed simp

lemma concat_rows: "length vs = n * d \<Longrightarrow> concat (map (row d vs) [0..<n]) = vs"
  using concat_rows_prefix [of n n vs d] by simp

text \<open>What is collected is a matrix of the rows counted.\<close>

lemma collect_length:
  "collect name d es vs n = Some (Inr (vs', n')) \<Longrightarrow> length vs = n * d \<Longrightarrow> length vs' = n' * d"
  by (induction name d es vs n rule: collect.induct)
    (auto simp: bank_error_def algebra_simps split: if_splits)

lemma collected_length:
  "collected name nothing es d = Some (Inr (vs, n)) \<Longrightarrow> length vs = n * d \<and> 0 < n"
  using collect_length [of name d es "[]" 0 vs n]
  by (auto simp: collected_def bank_error_def split: if_splits option.splits sum.splits)

subsection \<open>What the stride takes\<close>

lemma stride_rows_takes:
  assumes "0 < d" "length vs = n * d" "0 < stride" "length out = k * d" "k \<le> m" "(m - 1) * stride < n" "i = k * stride" "0 < m"
  shows "stride_rows d vs n m stride i out = out @ concat (map (\<lambda>j. row d vs (j * stride)) [k..<m])"
  using assms(4,5,7)
proof (induction "m - k" arbitrary: k i out)
  case 0
  then show ?case using assms(1) by (subst stride_rows.simps) simp
next
  case (Suc x)
  then have k: "k < m" by simp
  then have "k * stride \<le> (m - 1) * stride" by (intro mult_le_mono1) simp
  then have "k * stride < n" using assms(6) by (rule le_less_trans)
  then have i: "i < n" using Suc.prems(3) by simp
  have r: "length (row d vs i) = d" by (rule row_length [OF assms(2) i])
  have "stride_rows d vs n m stride i out = stride_rows d vs n m stride (i + stride) (out @ row d vs i)"
    using i k assms(1,3) Suc.prems(1) by (subst stride_rows.simps) simp
  also have "\<dots> = (out @ row d vs i) @ concat (map (\<lambda>j. row d vs (j * stride)) [Suc k..<m])"
    using Suc k r by (intro Suc.hyps(1)) simp_all
  finally show ?case using k Suc.prems(3) by (simp add: upt_conv_Cons)
qed

lemma stride_sample_takes:
  assumes "0 < d" "length vs = n * d" "0 < m" "m < n" "n < 2 ^ 53"
  shows "stride_sample d vs n m = Some (concat (map (\<lambda>j. row d vs (j * (n div m))) [0..<m]))"
proof -
  have s: "to_size (d_div (d_of_nat n) (d_of_nat m)) = Some (n div m)"
    using assms by (intro size_quotient) simp_all
  have pos: "0 < n div m" using assms by (simp add: div_greater_zero_iff)
  have "(m - 1) * (n div m) < m * (n div m)" using pos assms(3) by (intro mult_strict_right_mono) simp_all
  also have "\<dots> \<le> n" by (rule times_div_less_eq_dividend)
  finally have "stride_rows d vs n m (n div m) 0 [] = concat (map (\<lambda>j. row d vs (j * (n div m))) [0..<m])"
    using stride_rows_takes [OF assms(1,2) pos, of "[]" 0 m 0] assms(3) by simp
  then show ?thesis using assms(1) s by (simp add: stride_sample_def)
qed

subsection \<open>What FAISS documents\<close>

text \<open>
  An exact index keeps the vectors in the order in which they were added and gives them back; an
  inverted index without a direct map refuses to reconstruct a vector.
\<close>

definition flat_documented :: "'ix faiss_lib \<Rightarrow> bool" where
  "flat_documented lib \<longleftrightarrow>
     (\<forall>d n vs. 0 < d \<longrightarrow> length vs = n * d \<longrightarrow>
        (\<exists>ix. ix_add lib (flat_new lib d) n vs = Some ix \<and> (\<forall>i<n. ix_reconstruct lib ix i = Some (row d vs i))))"

definition ivf_documented :: "'ix faiss_lib \<Rightarrow> bool" where
  "ivf_documented lib \<longleftrightarrow>
     (\<forall>d nlist n vs ix. train_ivf lib d nlist n vs = Some ix \<longrightarrow>
        is_ivf lib ix \<and> (\<forall>i. ix_reconstruct lib ix i = None))"

lemma reconstruct_rows_all:
  "\<forall>i \<in> set is. ix_reconstruct lib ix i = Some (row d vs i) \<Longrightarrow>
   reconstruct_rows lib ix is = Some (concat (map (row d vs) is))"
  by (induction "is") simp_all

lemma rebuild_extract:
  assumes "flat_documented lib" "0 < d" "length vs = n * d"
  obtains b' where "rebuild lib b vs n d = Some b'" "extract_all_vectors lib b' = Some vs"
    "bk_dim b' = d" "bk_num b' = n" "bk_index b' \<noteq> None"
proof -
  obtain ix where ix: "ix_add lib (flat_new lib d) n vs = Some ix" "\<forall>i<n. ix_reconstruct lib ix i = Some (row d vs i)"
    using assms unfolding flat_documented_def by blast
  then have r: "reconstruct_rows lib ix [0..<n] = Some vs"
    using reconstruct_rows_all [of "[0..<n]" lib ix d vs] concat_rows [OF assms(3)] by simp
  show thesis
  proof (rule that [of "b\<lparr>bk_index := Some ix, bk_dim := d, bk_num := n\<rparr>"])
    show "extract_all_vectors lib (b\<lparr>bk_index := Some ix, bk_dim := d, bk_num := n\<rparr>) = Some vs"
      using r assms(2,3) by (cases "n = 0") (simp_all add: extract_all_vectors_def)
  qed (simp_all add: rebuild_def ix(1))
qed

subsection \<open>The distances of the greedy coreset\<close>

text \<open>The distance of a patch to a list of chosen patches: zero for a chosen one, else the least
  distance, where a distance that is not a number never replaces another and is never replaced.\<close>

fun cover :: "nat \<Rightarrow> dbl list \<Rightarrow> nat list \<Rightarrow> nat \<Rightarrow> dbl" where
  "cover d vs [] i = NaN"
| "cover d vs (s # ss) i =
     (if i \<in> set (s # ss) then Fin False 0
      else foldl (\<lambda>m c. let dist = dist_sq d vs i c in if d_lt dist m then dist else m) (dist_sq d vs i s) ss)"

definition nonneg :: "dbl \<Rightarrow> bool" where
  "nonneg x \<longleftrightarrow> (case x of NaN \<Rightarrow> True | Inf s \<Rightarrow> \<not> s | Fin s q \<Rightarrow> \<not> s \<and> 0 \<le> q)"

lemma round_fmt_nonneg: "0 \<le> q \<Longrightarrow> nonneg (round_fmt f False q)"
proof -
  assume q: "0 \<le> q"
  have "0 \<le> round_even (q / pow2 u)" for u using q by (intro round_even_ge) (simp add: less_imp_le)
  then have "0 \<le> (of_int (round_even (q / pow2 u)) :: rat)" for u by simp
  then have "0 \<le> of_int (round_even (q / pow2 u)) * pow2 u" for u by (intro mult_nonneg_nonneg less_imp_le [OF pow2_pos])
  then show ?thesis by (simp add: round_fmt_def nonneg_def Let_def)
qed

lemma to_float_nonneg: "nonneg x \<Longrightarrow> nonneg (to_float x)"
  by (cases x) (auto simp: nonneg_def round_fmt_nonneg [unfolded nonneg_def])

lemma square_nonneg: "nonneg (f_mul x x)"
  unfolding f_mul_def by (rule to_float_nonneg, cases x) (simp_all add: round_fmt_nonneg, simp_all add: nonneg_def)

lemma f_add_nonneg: "nonneg x \<Longrightarrow> nonneg y \<Longrightarrow> nonneg (f_add x y)"
  unfolding f_add_def
  by (rule to_float_nonneg, cases x; cases y)
    (auto simp: nonneg_def Let_def round_rat_def round_fmt_nonneg [unfolded nonneg_def])

lemma add_squares_nonneg: "nonneg acc \<Longrightarrow> nonneg (add_squares acc xs ys)"
  by (induction acc xs ys rule: add_squares.induct) (simp_all add: Let_def f_add_nonneg square_nonneg)

lemma dist_sq_not_below_0: "d_eq m (Fin False 0) \<Longrightarrow> \<not> d_lt (dist_sq d vs i j) m"
proof -
  assume "d_eq m (Fin False 0)"
  moreover have "nonneg (dist_sq d vs i j)"
    unfolding dist_sq_def by (rule add_squares_nonneg) (simp add: nonneg_def)
  ultimately show ?thesis by (cases m; cases "dist_sq d vs i j") (auto simp: nonneg_def)
qed

lemma cover_snoc:
  "chosen \<noteq> [] \<Longrightarrow> cover d vs (chosen @ [b]) i =
     (if i = b \<or> i \<in> set chosen then Fin False 0
      else let dist = dist_sq d vs i b in if d_lt dist (cover d vs chosen i) then dist else cover d vs chosen i)"
  by (cases chosen) (auto simp: Let_def)

lemma relax_cover:
  assumes "chosen \<noteq> []"
  shows "relax d vs b ((map (cover d vs chosen) [0..<n])[b := Fin False 0]) = map (cover d vs (chosen @ [b])) [0..<n]"
proof (rule nth_equalityI)
  fix i assume "i < length (relax d vs b ((map (cover d vs chosen) [0..<n])[b := Fin False 0]))"
  then have i: "i < n" by (simp add: relax_def)
  have c: "i \<in> set chosen \<Longrightarrow> cover d vs chosen i = Fin False 0" using assms by (cases chosen) simp_all
  have "(map (cover d vs chosen) [0..<n])[b := Fin False 0] ! i = (if i = b then Fin False 0 else cover d vs chosen i)"
    using i by (simp add: nth_list_update)
  then show "relax d vs b ((map (cover d vs chosen) [0..<n])[b := Fin False 0]) ! i = map (cover d vs (chosen @ [b])) [0..<n] ! i"
    using i c dist_sq_not_below_0 [of "cover d vs chosen i" d vs i b]
    by (auto simp: relax_def nth_enumerate_eq cover_snoc [OF assms] Let_def)
qed (simp add: relax_def)

lemma furthest_spec:
  assumes "\<not> d_is_nan bd" "furthest ms i bi bd = r"
  shows "(r = bi \<and> (\<forall>m \<in> set ms. \<not> d_lt bd m)) \<or>
    (i \<le> r \<and> r < i + length ms \<and> d_lt bd (ms ! (r - i)) \<and> (\<forall>j < length ms. \<not> d_lt (ms ! (r - i)) (ms ! j)) \<and>
     (\<forall>j < r - i. d_is_nan (ms ! j) \<or> d_lt (ms ! j) (ms ! (r - i))))"
  using assms
proof (induction ms arbitrary: i bi bd)
  case (Cons m ms)
  show ?case
  proof (cases "d_lt bd m")
    case True
    then have nan: "\<not> d_is_nan m" by (cases m) auto
    have f: "furthest ms (Suc i) i m = r" using Cons.prems True by (simp add: d_gt_def)
    from Cons.IH [OF nan f] show ?thesis
    proof (elim disjE conjE)
      assume r: "r = i" and "\<forall>m' \<in> set ms. \<not> d_lt m m'"
      then have "\<forall>j < length (m # ms). \<not> d_lt m ((m # ms) ! j)" by (simp add: All_less_Suc2)
      then show ?thesis using True r by simp
    next
      assume r: "Suc i \<le> r" "r < Suc i + length ms" and lt: "d_lt m (ms ! (r - Suc i))"
        and all: "\<forall>j < length ms. \<not> d_lt (ms ! (r - Suc i)) (ms ! j)"
        and first: "\<forall>j < r - Suc i. d_is_nan (ms ! j) \<or> d_lt (ms ! j) (ms ! (r - Suc i))"
      have i: "r - i = Suc (r - Suc i)" using r(1) by simp
      then have e: "(m # ms) ! (r - i) = ms ! (r - Suc i)" by simp
      have "\<forall>j < length (m # ms). \<not> d_lt (ms ! (r - Suc i)) ((m # ms) ! j)"
        using all d_lt_asym [OF lt] by (simp add: All_less_Suc2)
      moreover have "\<forall>j < r - i. d_is_nan ((m # ms) ! j) \<or> d_lt ((m # ms) ! j) (ms ! (r - Suc i))"
        using first lt unfolding i by (simp add: All_less_Suc2)
      ultimately show ?thesis using r d_lt_trans [OF True lt] unfolding e by simp
    qed
  next
    case False
    have f: "furthest ms (Suc i) bi bd = r" using Cons.prems False by (simp add: d_gt_def)
    from Cons.IH [OF Cons.prems(1) f] show ?thesis
    proof (elim disjE conjE)
      assume "r = bi" "\<forall>m' \<in> set ms. \<not> d_lt bd m'"
      then show ?thesis using False by auto
    next
      assume r: "Suc i \<le> r" "r < Suc i + length ms" and lt: "d_lt bd (ms ! (r - Suc i))"
        and all: "\<forall>j < length ms. \<not> d_lt (ms ! (r - Suc i)) (ms ! j)"
        and first: "\<forall>j < r - Suc i. d_is_nan (ms ! j) \<or> d_lt (ms ! j) (ms ! (r - Suc i))"
      have i: "r - i = Suc (r - Suc i)" using r(1) by simp
      then have e: "(m # ms) ! (r - i) = ms ! (r - Suc i)" by simp
      have m: "d_is_nan m \<or> d_lt m (ms ! (r - Suc i))"
        using d_le_lt_trans [OF not_d_lt_le [OF Cons.prems(1) _ False] lt] by blast
      then have nlt: "\<not> d_lt (ms ! (r - Suc i)) m" using d_lt_asym by (cases m) auto
      have "\<forall>j < length (m # ms). \<not> d_lt (ms ! (r - Suc i)) ((m # ms) ! j)"
        using all nlt by (simp add: All_less_Suc2)
      moreover have "\<forall>j < r - i. d_is_nan ((m # ms) ! j) \<or> d_lt ((m # ms) ! j) (ms ! (r - Suc i))"
        using first m unfolding i by (simp add: All_less_Suc2)
      ultimately show ?thesis using r lt unfolding e by simp
    qed
  qed
qed simp

text \<open>One round of the selection, and the whole loop.\<close>

lemma furthest_cover:
  assumes "chosen \<noteq> []" "0 < n" "0 \<in> set chosen" "b = furthest (map (cover d vs chosen) [0..<n]) 0 0 (Fin True 1)"
  shows "b < n" "\<forall>i<n. \<not> d_lt (cover d vs chosen b) (cover d vs chosen i)"
    "\<forall>i<b. d_is_nan (cover d vs chosen i) \<or> d_lt (cover d vs chosen i) (cover d vs chosen b)"
proof -
  have z: "cover d vs chosen 0 = Fin False 0" using assms(1,3) by (cases chosen) auto
  have "\<not> (\<forall>m \<in> set (map (cover d vs chosen) [0..<n]). \<not> d_lt (Fin True 1) m)"
  proof
    assume "\<forall>m \<in> set (map (cover d vs chosen) [0..<n]). \<not> d_lt (Fin True 1) m"
    then have "\<not> d_lt (Fin True 1) (cover d vs chosen 0)" using assms(2) by simp
    then show False unfolding z by simp
  qed
  then have s: "b < n" "d_lt (Fin True 1) (map (cover d vs chosen) [0..<n] ! b)"
    "\<forall>j < n. \<not> d_lt (map (cover d vs chosen) [0..<n] ! b) (map (cover d vs chosen) [0..<n] ! j)"
    "\<forall>j < b. d_is_nan (map (cover d vs chosen) [0..<n] ! j) \<or> d_lt (map (cover d vs chosen) [0..<n] ! j) (map (cover d vs chosen) [0..<n] ! b)"
    using furthest_spec [of "Fin True 1" "map (cover d vs chosen) [0..<n]" 0 0 b] assms(4) by auto
  then show "b < n" "\<forall>i<n. \<not> d_lt (cover d vs chosen b) (cover d vs chosen i)"
    "\<forall>i<b. d_is_nan (cover d vs chosen i) \<or> d_lt (cover d vs chosen i) (cover d vs chosen b)"
    by simp_all
qed

definition furthest_choice :: "nat \<Rightarrow> dbl list \<Rightarrow> nat \<Rightarrow> nat list \<Rightarrow> nat \<Rightarrow> bool" where
  "furthest_choice d vs n chosen b \<longleftrightarrow>
     b < n \<and> (\<forall>i<n. \<not> d_lt (cover d vs chosen b) (cover d vs chosen i)) \<and>
     (\<forall>i<b. d_is_nan (cover d vs chosen i) \<or> d_lt (cover d vs chosen i) (cover d vs chosen b))"

lemma select_loop_choices:
  assumes "chosen \<noteq> []" "0 < n" "0 \<in> set chosen" "min_dist = map (cover d vs chosen) [0..<n]"
  shows "\<exists>more. select_loop k d vs chosen min_dist = chosen @ more \<and> length more = k \<and>
    (\<forall>j<k. furthest_choice d vs n (chosen @ take j more) (more ! j))"
  using assms
proof (induction k arbitrary: chosen min_dist)
  case (Suc k)
  define b where "b = furthest min_dist 0 0 (Fin True 1)"
  have b: "furthest_choice d vs n chosen b"
    unfolding furthest_choice_def using furthest_cover [OF Suc.prems(1-3)] b_def Suc.prems(4) by simp
  have r: "relax d vs b (min_dist[b := Fin False 0]) = map (cover d vs (chosen @ [b])) [0..<n]"
    unfolding Suc.prems(4) by (rule relax_cover [OF Suc.prems(1)])
  have "\<exists>more. select_loop k d vs (chosen @ [b]) (relax d vs b (min_dist[b := Fin False 0])) = (chosen @ [b]) @ more \<and>
      length more = k \<and> (\<forall>j<k. furthest_choice d vs n ((chosen @ [b]) @ take j more) (more ! j))"
    using Suc.prems(2,3) by (intro Suc.IH [OF _ _ _ r]) simp_all
  then obtain more where more: "select_loop k d vs (chosen @ [b]) (relax d vs b (min_dist[b := Fin False 0])) = (chosen @ [b]) @ more"
    "length more = k" "\<forall>j<k. furthest_choice d vs n ((chosen @ [b]) @ take j more) (more ! j)"
    by blast
  show ?case
    using more b by (intro exI [of _ "b # more"]) (simp add: b_def [symmetric] Let_def All_less_Suc2)
qed simp

lemma seed_cover: "0 < n \<Longrightarrow> seed_distances d vs n = map (cover d vs [0]) [0..<n]"
proof -
  assume "0 < n"
  then have "[0..<n] = 0 # [1..<n]" by (simp add: upt_conv_Cons)
  then show ?thesis unfolding seed_distances_def by simp
qed

subsection \<open>Properties\<close>

text \<open>C20 The greedy coreset is the furthest-point sampling its comment promises. It starts with patch
  0; every later index is the first patch whose distance to the patches chosen before it is
  greatest, where the distances are those of single-precision arithmetic and the incremental table of the code
  agrees with the distances recomputed from scratch.\<close>

theorem greedy_furthest_point:
  assumes "0 < n" "0 < m"
  shows "length (greedy_indices d vs n m) = m \<and> greedy_indices d vs n m ! 0 = 0 \<and>
    (\<forall>k. 0 < k \<and> k < m \<longrightarrow> furthest_choice d vs n (take k (greedy_indices d vs n m)) (greedy_indices d vs n m ! k))"
proof -
  obtain more where more: "greedy_indices d vs n m = [0] @ more" "length more = m - 1"
    "\<forall>j < m - 1. furthest_choice d vs n ([0] @ take j more) (more ! j)"
    using select_loop_choices [of "[0]" n "seed_distances d vs n" d vs "m - 1"] assms(1)
    unfolding greedy_indices_def by (auto simp: seed_cover)
  have "furthest_choice d vs n (take k ([0] @ more)) (([0] @ more) ! k)" if "0 < k" "k < m" for k
    using more(3) [rule_format, of "k - 1"] that by (cases k) simp_all
  then show ?thesis using more(1,2) assms(2) by auto
qed

text \<open>A bank saved to a file and loaded again holds the same vectors: every float written as four
  little-endian bytes is read back as itself, and the size of the file determines the number of rows.\<close>

theorem save_load_roundtrip:
  assumes "flat_documented lib" "extract_all_vectors lib b = Some vs" "\<not> holds_nothing b"
    and "length vs = bk_num b * bk_dim b" "list_all is_f32 vs" "4 * length vs \<le> written"
  shows "\<exists>bytes b'. save_to_file lib b path True written = Some (Inr (), Some bytes) \<and>
    load_from_file lib path (Some (length bytes, bytes)) (bk_dim b) = Some (Inr b') \<and>
    extract_all_vectors lib b' = Some vs \<and> bk_num b' = bk_num b \<and> bk_dim b' = bk_dim b"
proof -
  have d: "0 < bk_dim b" using assms(3) by (simp add: holds_nothing_def)
  define bytes where "bytes = concat (map float_bytes vs)"
  have len: "length bytes = bk_num b * (bk_dim b * 4)" unfolding bytes_def bytes_length assms(4) by simp
  have again: "bytes_floats bytes = vs" unfolding bytes_def by (rule bytes_floats_bytes [OF assms(5)])
  have save: "save_to_file lib b path True written = Some (Inr (), Some bytes)"
    using assms(2,3,6) by (simp add: save_to_file_def bytes_length bytes_def [symmetric] Let_def, simp add: bytes_def bytes_length)
  obtain b' where b': "rebuild lib empty_bank vs (bk_num b) (bk_dim b) = Some b'" "extract_all_vectors lib b' = Some vs"
    "bk_dim b' = bk_dim b" "bk_num b' = bk_num b"
    using rebuild_extract [OF assms(1) d assms(4)] by metis
  have "load_from_file lib path (Some (length bytes, bytes)) (bk_dim b) = Some (Inr b')"
    using d by (simp add: load_from_file_def Let_def len again b'(1) mult.assoc [symmetric])
  then show ?thesis using save b' by blast
qed

text \<open>Sampling from embeddings with a limit below the number of patches takes the patches \<open>j * (n div
  max)\<close>; the top-up loop never runs. When the limit is more than half of the patches, the stride
  is 1 and the sample is the first patches of the first embeddings, not a uniform one.\<close>

theorem build_from_embeddings_sample:
  assumes "flat_documented lib" "0 < d" "0 < m" "n < 2 ^ 53"
    and "collected ''BuildFromEmbeddings'' '': no patch vectors extracted from embeddings'' es d = Some (Inr (vs, n))"
  shows "\<exists>b. build_from_embeddings lib es d m = Some (Inr b) \<and> bk_num b = min m n \<and> bk_dim b = d \<and>
    extract_all_vectors lib b =
      Some (if m < n then concat (map (\<lambda>j. row d vs (j * (n div m))) [0..<m]) else vs) \<and>
    (m < n \<and> n < 2 * m \<longrightarrow> extract_all_vectors lib b = Some (take (m * d) vs))"
proof (cases "m < n")
  case False
  have len: "length vs = n * d" using collected_length [OF assms(5)] by simp
  obtain b where "rebuild lib empty_bank vs n d = Some b" "extract_all_vectors lib b = Some vs" "bk_dim b = d" "bk_num b = n"
    using rebuild_extract [OF assms(1,2) len] by metis
  then show ?thesis using False assms(5) by (simp add: build_from_embeddings_def)
next
  case True
  have len: "length vs = n * d" using collected_length [OF assms(5)] by simp
  define out where "out = concat (map (\<lambda>j. row d vs (j * (n div m))) [0..<m])"
  have in_range: "\<forall>i \<in> set (map (\<lambda>j. j * (n div m)) [0..<m]). i < n"
  proof -
    have "j * (n div m) < n" if "j < m" for j
    proof -
      have "j * (n div m) < m * (n div m)" using that True by (intro mult_strict_right_mono) (simp_all add: div_greater_zero_iff)
      also have "\<dots> \<le> n" by (rule times_div_less_eq_dividend)
      finally show ?thesis .
    qed
    then show ?thesis by auto
  qed
  have out_len: "length out = m * d"
    using rows_length [OF len in_range] by (simp add: out_def o_def)
  have s: "stride_sample d vs n m = Some out"
    unfolding out_def by (rule stride_sample_takes [OF assms(2) len assms(3) True assms(4)])
  have t: "top_up d vs n m out = Some out" using out_len assms(2) by (subst top_up.simps) simp
  obtain b where b: "rebuild lib empty_bank out m d = Some b" "extract_all_vectors lib b = Some out" "bk_dim b = d" "bk_num b = m"
    using rebuild_extract [OF assms(1,2) out_len] by metis
  have "n div m = 1" if "n < 2 * m" using that True by (intro div_nat_eqI) simp_all
  then have "out = take (m * d) vs" if "n < 2 * m"
    using that concat_rows_prefix [OF less_imp_le [OF True] len] by (simp add: out_def)
  then show ?thesis
    using True assms(2,5) s t b out_len by (simp add: build_from_embeddings_def flip: out_def)
qed

text \<open>A bank converted to an inverted index, or built as one, can be searched but not saved: FAISS does not
  reconstruct vectors of an index without a direct map, so SaveToFile and ExtractAllVectors end
  the process instead of returning an error.\<close>

theorem inverted_bank_cannot_be_saved:
  assumes "ivf_documented lib" "convert_to_ivf lib b nlist = Some (Inr (), b')"
  shows "extract_all_vectors lib b' = None \<and> save_to_file lib b' path can_open written = None \<and>
    convert_to_ivf lib b' nlist' = None \<and> bk_nprobe b' = bk_nprobe b"
proof -
  obtain ix where ix: "bk_index b' = Some ix" "\<forall>i. ix_reconstruct lib ix i = None" "bk_num b' \<noteq> 0" "bk_dim b' \<noteq> 0" "bk_nprobe b' = bk_nprobe b"
    using assms unfolding convert_to_ivf_def ivf_documented_def
    by (auto simp: holds_nothing_def bank_error_def split: if_splits option.splits)
  have "extract_all_vectors lib b' = None"
    using ix by (simp add: extract_all_vectors_def upt_conv_Cons)
  then show ?thesis using ix by (simp add: save_to_file_def convert_to_ivf_def holds_nothing_def)
qed

subsection \<open>A small index, for the examples\<close>

definition tiny_faiss :: "(nat option \<times> nat \<times> dbl list) faiss_lib" where
  "tiny_faiss =
     \<lparr>flat_new = (\<lambda>d. (None, d, [])), ivf_new = (\<lambda>d nlist. (Some nlist, d, [])),
      is_ivf = (\<lambda>(kind, _). kind \<noteq> None),
      ix_train = (\<lambda>ix n vs. Some ix),
      ix_add = (\<lambda>(kind, d, old) n vs. Some (kind, d, old @ take (n * d) vs)),
      ix_search = (\<lambda>(kind, d, vs) nprobe nq q k. Some (replicate (nq * k) (Fin False 0))),
      ix_reconstruct = (\<lambda>(kind, d, vs) i. if kind = None then Some (row d vs i) else None)\<rparr>"

lemma tiny_faiss_documented: "flat_documented tiny_faiss" "ivf_documented tiny_faiss"
  by (simp_all add: flat_documented_def ivf_documented_def train_ivf_def tiny_faiss_def)

definition tiny_bank :: "(nat option \<times> nat \<times> dbl list) feature_bank" where
  "tiny_bank = \<lparr>bk_index = Some (None, 1, [Fin False 0, Inf False]), bk_dim = 1, bk_num = 2, bk_nprobe = 4\<rparr>"

lemma tiny_bank_vectors: "extract_all_vectors tiny_faiss tiny_bank = Some [Fin False 0, Inf False]"
  by (simp add: extract_all_vectors_def tiny_bank_def tiny_faiss_def row_def upt_rec)

lemma greedy_furthest_point_witness:
  "furthest_choice 1 [Fin False 0, Inf False] 2 [0] (greedy_indices 1 [Fin False 0, Inf False] 2 2 ! 1)"
  using greedy_furthest_point [of 2 2 1 "[Fin False 0, Inf False]"]
  by (auto simp: take_Suc_conv_app_nth dest: spec [of _ 1])

lemma save_load_roundtrip_witness:
  "\<exists>bytes b'. save_to_file tiny_faiss tiny_bank ''b'' True 8 = Some (Inr (), Some bytes) \<and>
    load_from_file tiny_faiss ''b'' (Some (length bytes, bytes)) (bk_dim tiny_bank) = Some (Inr b') \<and>
    extract_all_vectors tiny_faiss b' = Some [Fin False 0, Inf False] \<and> bk_num b' = bk_num tiny_bank \<and> bk_dim b' = bk_dim tiny_bank"
  by (rule save_load_roundtrip [OF tiny_faiss_documented(1) tiny_bank_vectors])
    (simp_all add: tiny_bank_def holds_nothing_def is_f32_def decode32_def)

lemma build_from_embeddings_sample_witness:
  "\<exists>b. build_from_embeddings tiny_faiss [None, Some \<lparr>em_dim = 1, em_count = 3, em_data = [Fin False 0, Inf False, Inf True]\<rparr>] 1 2 = Some (Inr b) \<and>
    extract_all_vectors tiny_faiss b = Some [Fin False 0, Inf False]"
  using build_from_embeddings_sample [OF tiny_faiss_documented(1), of 1 2 3
      "[None, Some \<lparr>em_dim = 1, em_count = 3, em_data = [Fin False 0, Inf False, Inf True]\<rparr>]" "[Fin False 0, Inf False, Inf True]"]
  by (auto simp: collected_def)

lemma inverted_bank_cannot_be_saved_witness:
  "\<exists>b'. convert_to_ivf tiny_faiss tiny_bank 2 = Some (Inr (), b') \<and> save_to_file tiny_faiss b' ''b'' True 8 = None"
proof -
  define b' where "b' = tiny_bank\<lparr>bk_index := Some (Some 2, 1, [Fin False 0, Inf False])\<rparr>"
  have "convert_to_ivf tiny_faiss tiny_bank 2 = Some (Inr (), b')"
    using tiny_bank_vectors
    by (simp add: convert_to_ivf_def holds_nothing_def train_ivf_def b'_def, simp add: tiny_bank_def tiny_faiss_def)
  then show ?thesis using inverted_bank_cannot_be_saved [OF tiny_faiss_documented(2)] by blast
qed

end
