(* ===== verification/Normality_Profile.thy ===== *)
theory Normality_Profile
  imports Feature_Bank Yaml
begin

text \<open>
  Normality: the statistics of a bank queried with its own vectors
  (\<open>src/detection/normality_profile.cpp\<close>), the assessment of a frame against them, the novelty
  check and the prefilter (the helpers of \<open>src/detection/coreset_evolution.cpp\<close>), the consensus of
  the signals (\<open>multi_signal_consensus.cpp\<close>) and the buffer of candidates
  (\<open>candidate_buffer.cpp\<close>).
\<close>

subsection \<open>Profiles\<close>

record normality_profile =
  k_nearest :: nat
  np_dim :: nat
  np_num :: nat
  p50 :: dbl
  p95 :: dbl
  p99 :: dbl
  np_mean :: dbl
  np_stddev :: dbl
  self_normalcy :: dbl

definition default_profile :: normality_profile where
  "default_profile =
     \<lparr>k_nearest = 5, np_dim = 0, np_num = 0, p50 = Fin False 0, p95 = Fin False 0, p99 = Fin False 0,
      np_mean = Fin False 0, np_stddev = Fin False 0, self_normalcy = Fin False 0\<rparr>"

text \<open>\<open>std::sort\<close> on floats; its order is undefined when one is not a number.\<close>

primrec sort_in :: "dbl \<Rightarrow> dbl list \<Rightarrow> dbl list" where
  "sort_in x [] = [x]"
| "sort_in x (y # ys) = (if d_lt y x then y # sort_in x ys else x # y # ys)"

primrec float_sort :: "dbl list \<Rightarrow> dbl list" where
  "float_sort [] = []"
| "float_sort (x # xs) = sort_in x (float_sort xs)"

definition std_sort :: "dbl list \<Rightarrow> dbl list option" where
  "std_sort xs = (if list_ex d_is_nan xs then None else Some (float_sort xs))"

text \<open>The lambda \<open>percentile\<close>: the index is a product of floats, truncated and clamped.\<close>

definition percentile :: "dbl list \<Rightarrow> dbl \<Rightarrow> dbl option" where
  "percentile xs p =
     map_option (\<lambda>idx. xs ! (if length xs \<le> idx then length xs - 1 else idx))
       (to_size (f_mul p (f_of_nat (length xs - 1))))"

definition widened_sum :: "dbl list \<Rightarrow> dbl" where
  "widened_sum xs = foldl d_add (Fin False 0) xs"

definition square_deviations :: "dbl \<Rightarrow> dbl list \<Rightarrow> dbl" where
  "square_deviations mean xs =
     foldl (\<lambda>acc x. let diff = d_sub x mean in d_add acc (d_mul diff diff)) (Fin False 0) xs"

definition tail_normalcy :: "nat \<Rightarrow> nat \<Rightarrow> dbl \<Rightarrow> dbl" where
  "tail_normalcy tail n tail_ratio_max =
     f_sub (f_lit 1) (d_min (f_lit 1) (f_div (f_div (f_of_nat tail) (f_of_nat n)) tail_ratio_max))"

definition profile_of :: "nat \<Rightarrow> nat \<Rightarrow> nat \<Rightarrow> dbl list \<Rightarrow> dbl \<Rightarrow> normality_profile option" where
  "profile_of k d num nn_dists tail_ratio_max =
     (case std_sort nn_dists of
        None \<Rightarrow> None
      | Some xs \<Rightarrow>
          (case (percentile xs (f_lit (50 / 100)), percentile xs (f_lit (95 / 100)), percentile xs (f_lit (99 / 100))) of
             (Some q50, Some q95, Some q99) \<Rightarrow>
               let n = length xs;
                   mean = to_float (d_div (widened_sum xs) (d_of_nat n));
                   sd = to_float (d_sqrt (d_div (square_deviations mean xs) (d_of_nat n)));
                   self_tail = length (filter (\<lambda>x. d_gt x q95) xs)
               in Some \<lparr>k_nearest = k, np_dim = d, np_num = num, p50 = q50, p95 = q95, p99 = q99,
                        np_mean = mean, np_stddev = sd,
                        self_normalcy = (if d_gt tail_ratio_max (Fin False 0)
                                         then tail_normalcy self_tail n tail_ratio_max else f_lit 1)\<rparr>
           | _ \<Rightarrow> None))"

text \<open>The distance of a vector of the bank to its \<open>k\<close>-th neighbour, itself skipped: the last of
  \<open>k + 1\<close> distances, undefined when the search returns none.\<close>

primrec self_query :: "'ix faiss_lib \<Rightarrow> 'ix feature_bank \<Rightarrow> dbl list \<Rightarrow> nat \<Rightarrow> nat list \<Rightarrow> dbl list option" where
  "self_query lib b vs k [] = Some []"
| "self_query lib b vs k (i # is) =
     (case bank_search lib b (row (bk_dim b) vs i) 1 (k + 1) of
        None \<Rightarrow> None
      | Some ds \<Rightarrow> (if ds = [] then None else map_option ((#) (last ds)) (self_query lib b vs k is)))"

definition compute :: "'ix faiss_lib \<Rightarrow> 'ix feature_bank \<Rightarrow> nat \<Rightarrow> dbl \<Rightarrow> normality_profile option" where
  "compute lib b k tail_ratio_max =
     (if bk_num b = 0 \<or> bk_dim b = 0 then Some default_profile
      else case extract_all_vectors lib b of
             None \<Rightarrow> None
           | Some vs \<Rightarrow>
               (case self_query lib b vs k [0..<bk_num b] of
                  None \<Rightarrow> None
                | Some ds \<Rightarrow> profile_of k (bk_dim b) (bk_num b) ds tail_ratio_max))"

definition compute_fast :: "'ix faiss_lib \<Rightarrow> 'ix feature_bank \<Rightarrow> nat \<Rightarrow> nat \<Rightarrow> dbl \<Rightarrow> normality_profile option" where
  "compute_fast lib b k sample_count tail_ratio_max =
     (if bk_num b = 0 then Some default_profile
      else let actual = min sample_count (bk_num b)
           in if actual = 0 then None
              else case extract_all_vectors lib b of
                     None \<Rightarrow> None
                   | Some vs \<Rightarrow>
                       let stride = max 1 (bk_num b div actual)
                       in (case self_query lib b vs k (map (\<lambda>i. if bk_num b \<le> i * stride then bk_num b - 1 else i * stride) [0..<actual]) of
                             None \<Rightarrow> None
                           | Some ds \<Rightarrow> profile_of k (bk_dim b) (bk_num b) ds tail_ratio_max))"

definition consensus_threshold :: "normality_profile \<Rightarrow> dbl" where
  "consensus_threshold p =
     (if d_le (self_normalcy p) (Fin False 0) then f_lit (40 / 100) else f_mul (self_normalcy p) (f_lit (8 / 10)))"

definition evolution_gate :: "normality_profile \<Rightarrow> dbl" where
  "evolution_gate p =
     (if d_le (self_normalcy p) (Fin False 0) then f_lit (30 / 100) else f_mul (self_normalcy p) (f_lit (7 / 10)))"

subsection \<open>Profile files\<close>

text \<open>The conversions and the number formats of yaml-cpp.\<close>

record evolution_conv = load_conv +
  size_text :: "string \<Rightarrow> nat option"
  float_text :: "string \<Rightarrow> dbl option"
  int_text :: "string \<Rightarrow> int option"
  bool_text :: "string \<Rightarrow> bool option"
  emit_size :: "nat \<Rightarrow> string"
  emit_float :: "dbl \<Rightarrow> string"

definition y_sub :: "yaml option \<Rightarrow> string \<Rightarrow> yaml_exception + yaml option" where
  "y_sub y k = (case y of None \<Rightarrow> Inr None | Some n \<Rightarrow> y_index n k)"

definition read_or :: "(string \<Rightarrow> 'b option) \<Rightarrow> 'b \<Rightarrow> yaml option \<Rightarrow> string \<Rightarrow> ('b \<Rightarrow> yaml_exception + 'c) \<Rightarrow> yaml_exception + 'c" where
  "read_or conv dflt y k rest = (case y_sub y k of Inl ex \<Rightarrow> Inl ex | Inr n \<Rightarrow> rest (scalar_or conv dflt n))"

definition read_profile :: "'z evolution_conv_scheme \<Rightarrow> yaml option \<Rightarrow> yaml_exception + normality_profile" where
  "read_profile cv p =
     read_or (size_text cv) 5 p ''k_nearest'' (\<lambda>k.
     read_or (size_text cv) 0 p ''dim'' (\<lambda>d.
     read_or (size_text cv) 0 p ''num_samples'' (\<lambda>n.
     (case y_sub p ''statistics'' of
        Inl ex \<Rightarrow> Inl ex
      | Inr s \<Rightarrow>
          read_or (float_text cv) (Fin False 0) s ''p50'' (\<lambda>q50.
          read_or (float_text cv) (Fin False 0) s ''p95'' (\<lambda>q95.
          read_or (float_text cv) (Fin False 0) s ''p99'' (\<lambda>q99.
          read_or (float_text cv) (Fin False 0) s ''mean'' (\<lambda>me.
          read_or (float_text cv) (Fin False 0) s ''stddev'' (\<lambda>sd.
          read_or (float_text cv) (Fin False 0) s ''self_normalcy'' (\<lambda>sn.
          Inr \<lparr>k_nearest = k, np_dim = d, np_num = n, p50 = q50, p95 = q95, p99 = q99,
               np_mean = me, np_stddev = sd, self_normalcy = sn\<rparr>)))))))))) "

definition profile_error :: "string \<Rightarrow> 'a result" where
  "profile_error m = Inl (ErrorInfo Detection_CoresetEvolution_ProfileLoadFailed m)"

definition load_profile :: "'z evolution_conv_scheme \<Rightarrow> string \<Rightarrow> yaml_exception + yaml \<Rightarrow> normality_profile result" where
  "load_profile cv path file =
     (case file of
        Inl ex \<Rightarrow> profile_error (''YAML parse error: '' @ what cv ex)
      | Inr n \<Rightarrow>
          (case y_index n ''profile'' of
             Inl ex \<Rightarrow> profile_error (''YAML parse error: '' @ what cv ex)
           | Inr None \<Rightarrow> profile_error (''missing 'profile' key in: '' @ path)
           | Inr p \<Rightarrow>
               (case read_profile cv p of
                  Inl ex \<Rightarrow> profile_error (''YAML parse error: '' @ what cv ex)
                | Inr profile \<Rightarrow> Inr profile)))"

text \<open>The document \<open>SaveToYaml\<close> emits, and the result and content of the file.\<close>

definition profile_yaml :: "'z evolution_conv_scheme \<Rightarrow> normality_profile \<Rightarrow> yaml" where
  "profile_yaml cv p =
     YMap [(''profile'', YMap
       [(''k_nearest'', YScalar (emit_size cv (k_nearest p))),
        (''dim'', YScalar (emit_size cv (np_dim p))),
        (''num_samples'', YScalar (emit_size cv (np_num p))),
        (''statistics'', YMap
           [(''p50'', YScalar (emit_float cv (p50 p))),
            (''p95'', YScalar (emit_float cv (p95 p))),
            (''p99'', YScalar (emit_float cv (p99 p))),
            (''mean'', YScalar (emit_float cv (np_mean p))),
            (''stddev'', YScalar (emit_float cv (np_stddev p))),
            (''self_normalcy'', YScalar (emit_float cv (self_normalcy p)))])])]"

definition save_profile :: "'z evolution_conv_scheme \<Rightarrow> string \<Rightarrow> bool \<Rightarrow> normality_profile \<Rightarrow> unit result \<times> yaml option" where
  "save_profile cv path can_open p =
     (if can_open then (Inr (), Some (profile_yaml cv p))
      else (profile_error (''cannot open file for writing: '' @ path), None))"

subsection \<open>The assessment of a frame\<close>

record normality_assessment =
  normalcy_score :: dbl
  concentration_ratio :: dbl
  tail_ratio :: dbl

definition no_assessment :: normality_assessment where
  "no_assessment = \<lparr>normalcy_score = Fin False 0, concentration_ratio = Fin False 0, tail_ratio = Fin False 0\<rparr>"

text \<open>\<open>std::nth_element\<close> puts the element a sort would put in the middle there.\<close>

definition compute_normalcy :: "dbl list \<Rightarrow> normality_profile \<Rightarrow> dbl \<Rightarrow> normality_assessment option" where
  "compute_normalcy distances p tail_ratio_max =
     (if distances = [] \<or> np_num p = 0 then Some no_assessment
      else case std_sort distances of
             None \<Rightarrow> None
           | Some sorted_ds \<Rightarrow>
               let n = length distances;
                   median = sorted_ds ! (n div 2);
                   concentration = (if d_gt (p50 p) (Fin False 0) then f_div median (p50 p) else f_lit 1);
                   tail = length (filter (\<lambda>x. d_gt x (p95 p)) distances);
                   ratio = f_div (f_of_nat tail) (f_of_nat n);
                   score = (if d_gt ratio (Fin False 0) \<and> d_gt tail_ratio_max (Fin False 0)
                            then tail_normalcy tail n tail_ratio_max else f_lit 1)
               in Some \<lparr>normalcy_score = score, concentration_ratio = concentration, tail_ratio = ratio\<rparr>)"

record novelty_result =
  is_novel :: bool
  coverage_ratio :: dbl
  novel_patch_count :: nat

definition check_novelty :: "dbl list \<Rightarrow> normality_profile \<Rightarrow> dbl \<Rightarrow> novelty_result" where
  "check_novelty distances p coverage_threshold =
     (if distances = [] then \<lparr>is_novel = False, coverage_ratio = f_lit 1, novel_patch_count = 0\<rparr>
      else let covered = length (filter (\<lambda>x. d_lt x (p50 p)) distances);
               ratio = f_div (f_of_nat covered) (f_of_nat (length distances))
           in \<lparr>is_novel = d_lt ratio coverage_threshold, coverage_ratio = ratio,
              novel_patch_count = length distances - covered\<rparr>)"

text \<open>The prefilter takes every \<open>stride\<close>-th candidate; a zero dimension or target divides by zero.\<close>

definition prefilter_candidates :: "dbl list \<Rightarrow> nat \<Rightarrow> nat \<Rightarrow> dbl list option" where
  "prefilter_candidates vs d target =
     (if d = 0 then None
      else let n_rows = length vs div d
           in if n_rows \<le> target then Some vs
              else if target = 0 then None
              else let stride = max 1 (n_rows div target)
                   in Some (concat (map (\<lambda>i. row d vs (i * stride))
                              (takeWhile (\<lambda>i. i * stride < n_rows) [0..<target]))))"

definition consensus_check ::
  "normality_assessment \<Rightarrow> dbl \<Rightarrow> nat \<Rightarrow> string \<Rightarrow> dbl \<Rightarrow> dbl \<Rightarrow> dbl \<Rightarrow> dbl \<Rightarrow> bool" where
  "consensus_check a image_score matched verdict effective_threshold normalcy_threshold pca_score pca_p95 =
     (if d_lt (normalcy_score a) normalcy_threshold then False
      else if d_ge image_score effective_threshold then False
      else if 0 < matched then False
      else if verdict \<noteq> ''OK'' then False
      else if d_gt pca_p95 (Fin False 0) \<and> d_ge pca_score pca_p95 then False
      else True)"

subsection \<open>The buffer of candidates\<close>

record candidate =
  ca_vectors :: "dbl list"
  grid_h :: nat
  grid_w :: nat
  ca_dim :: nat
  ca_normalcy :: dbl

record buffer_config =
  max_frames :: nat
  max_patches :: nat
  trigger_frames :: nat
  trigger_patches :: nat

record candidate_buffer =
  bu_config :: buffer_config
  bu_candidates :: "candidate list"
  total_patches :: nat

definition patch_count :: "candidate \<Rightarrow> nat" where
  "patch_count c = grid_h c * grid_w c"

definition append_candidate :: "candidate \<Rightarrow> candidate_buffer \<Rightarrow> bool \<times> candidate_buffer" where
  "append_candidate c b =
     (if max_frames (bu_config b) \<le> length (bu_candidates b)
         \<or> max_patches (bu_config b) < total_patches b + patch_count c
      then (False, b)
      else (True, b\<lparr>bu_candidates := bu_candidates b @ [c], total_patches := total_patches b + patch_count c\<rparr>))"

definition is_triggered :: "candidate_buffer \<Rightarrow> bool" where
  "is_triggered b \<longleftrightarrow>
     trigger_frames (bu_config b) \<le> length (bu_candidates b) \<or> trigger_patches (bu_config b) \<le> total_patches b"

definition drain_all :: "candidate_buffer \<Rightarrow> candidate list \<times> candidate_buffer" where
  "drain_all b = (bu_candidates b, b\<lparr>bu_candidates := [], total_patches := 0\<rparr>)"

subsection \<open>Scores lie between zero and one\<close>

definition d_wf :: "dbl \<Rightarrow> bool" where
  "d_wf x \<longleftrightarrow> (case x of Fin s q \<Rightarrow> 0 \<le> q | _ \<Rightarrow> True)"

definition unit_float :: "dbl \<Rightarrow> bool" where
  "unit_float x \<longleftrightarrow> (case x of Fin s q \<Rightarrow> \<not> s \<and> 0 \<le> q \<and> q \<le> 1 | _ \<Rightarrow> False)"

lemma f_lit_1: "f_lit 1 = Fin False 1"
  using round_fmt_exact [of 1 binary32 0 False] by (simp add: f_lit_def round_rat_def binary32_def pow2_def)

lemma round32_unit:
  assumes "0 \<le> q" "q \<le> 1"
  shows "unit_float (round_fmt binary32 False q)"
proof (cases "q = 0")
  case True
  then show ?thesis by (simp add: unit_float_def)
next
  case False
  then have q: "0 < q" using assms(1) by simp
  define u where "u = max (ilog2 q - 23) (-149)"
  have "pow2 (ilog2 q) \<le> pow2 0" using ilog2_le [OF q] assms(2) by simp
  then have "\<not> pow2 0 < pow2 (ilog2 q)" by linarith
  then have u: "u \<le> 0" unfolding u_def by (simp add: pow2_less_iff del: pow2_0)
  have one: "of_int (2 ^ nat (- u)) * pow2 u = 1" using u by (simp add: pow2_def)
  have "q \<le> of_int (2 ^ nat (- u)) * pow2 u" unfolding one by (rule assms(2))
  then have "q / pow2 u \<le> of_int (2 ^ nat (- u))" by (simp add: pos_divide_le_eq)
  then have "round_even (q / pow2 u) \<le> 2 ^ nat (- u)" by (rule round_even_le)
  then have "of_int (round_even (q / pow2 u)) \<le> (of_int (2 ^ nat (- u)) :: rat)" by (simp only: of_int_le_iff)
  then have "of_int (round_even (q / pow2 u)) * pow2 u \<le> of_int (2 ^ nat (- u)) * pow2 u"
    by (intro mult_right_mono) (simp_all add: less_imp_le)
  then have le: "of_int (round_even (q / pow2 u)) * pow2 u \<le> 1" unfolding one .
  moreover have "0 \<le> round_even (q / pow2 u)" using q by (intro round_even_ge) (simp add: less_imp_le)
  then have "(0 :: rat) \<le> of_int (round_even (q / pow2 u))" by simp
  then have "0 \<le> of_int (round_even (q / pow2 u)) * pow2 u" by (intro mult_nonneg_nonneg) (simp_all add: less_imp_le)
  moreover have "round_fmt binary32 False q = Fin False (of_int (round_even (q / pow2 u)) * pow2 u)"
    using q le pow2_mono [of 0 128] pow2_less_iff [of 0 128] by (simp add: round_fmt_def binary32_def u_def [symmetric] Let_def)
  ultimately show ?thesis by (simp add: unit_float_def)
qed

lemma f_div_nonneg: "nonneg x \<Longrightarrow> nonneg y \<Longrightarrow> nonneg (f_div x y)"
  unfolding f_div_def
  by (rule to_float_nonneg, cases x; cases y) (auto simp: nonneg_def round_fmt_nonneg [unfolded nonneg_def])

lemma f_of_nat_nonneg: "nonneg (f_of_nat n)"
  by (simp add: f_of_nat_def round_rat_def round_fmt_nonneg)

lemma one_minus_unit: "unit_float x \<Longrightarrow> unit_float (f_sub (f_lit 1) x)"
proof -
  assume "unit_float x"
  then obtain q where x: "x = Fin False q" "0 \<le> q" "q \<le> 1" by (cases x) (auto simp: unit_float_def)
  obtain m where "round_fmt binary64 False (1 - q) = Fin False m" "0 \<le> m" "m \<le> 1"
    using round_le_1 [of "1 - q"] x by auto
  then show ?thesis
    using x round32_unit [of m] by (cases "q = 1") (auto simp: f_sub_def f_lit_1 d_sub_def Let_def round_rat_def unit_float_def)
qed

lemma min_one_unit: "nonneg x \<Longrightarrow> unit_float (d_min (f_lit 1) x)"
  by (cases x) (auto simp: d_min_def f_lit_1 unit_float_def nonneg_def)

lemma tail_normalcy_unit: "d_wf t \<Longrightarrow> d_gt t (Fin False 0) \<Longrightarrow> unit_float (tail_normalcy tail n t)"
proof -
  assume "d_wf t" "d_gt t (Fin False 0)"
  then have "nonneg t" by (cases t) (auto simp: d_wf_def d_gt_def nonneg_def split: if_splits)
  then show ?thesis
    unfolding tail_normalcy_def by (intro one_minus_unit min_one_unit f_div_nonneg f_of_nat_nonneg)
qed

lemma lit_1_unit: "unit_float (f_lit 1)"
  by (simp add: f_lit_1 unit_float_def)

lemma profile_of_unit: "d_wf t \<Longrightarrow> profile_of k d n ds t = Some p \<Longrightarrow> unit_float (self_normalcy p)"
  using tail_normalcy_unit lit_1_unit by (auto simp: profile_of_def Let_def split: option.splits if_splits)

text \<open>Whatever the distances, the normalcy of a frame and the normalcy of a profile lie
  between 0 and 1, in single-precision arithmetic and for every tolerance \<open>tail_ratio_max\<close>, a negative one, an
  infinite one and NaN included.\<close>

theorem normalcy_in_unit_interval:
  assumes "d_wf t"
  shows "(compute_normalcy ds p t = Some a \<longrightarrow> unit_float (normalcy_score a)) \<and>
    (compute lib b k t = Some p' \<longrightarrow> unit_float (self_normalcy p')) \<and>
    (compute_fast lib b k m t = Some p' \<longrightarrow> unit_float (self_normalcy p'))"
proof -
  have z: "unit_float (Fin False 0)" by (simp add: unit_float_def)
  have "unit_float (normalcy_score a)" if "compute_normalcy ds p t = Some a"
    using that z lit_1_unit tail_normalcy_unit [OF assms]
    by (auto simp: compute_normalcy_def no_assessment_def Let_def split: if_splits option.splits)
  moreover have "unit_float (self_normalcy p')" if "compute lib b k t = Some p'"
    using that z profile_of_unit [OF assms]
    by (auto simp: compute_def default_profile_def split: if_splits option.splits)
  moreover have "unit_float (self_normalcy p')" if "compute_fast lib b k m t = Some p'"
    using that z profile_of_unit [OF assms]
    by (auto simp: compute_fast_def default_profile_def Let_def split: if_splits option.splits)
  ultimately show ?thesis by blast
qed

subsection \<open>Profile files\<close>

text \<open>A profile written to a file and read again is the same profile, when the numbers
  survive being printed and read, which yaml-cpp ensures by printing floats with nine digits.\<close>

theorem profile_roundtrip:
  assumes "\<forall>n \<in> {k_nearest p, np_dim p, np_num p}. size_text cv (emit_size cv n) = Some n"
    and "\<forall>x \<in> {p50 p, p95 p, p99 p, np_mean p, np_stddev p, self_normalcy p}. float_text cv (emit_float cv x) = Some x"
    and "save_profile cv path can_open p = (Inr (), Some doc)"
  shows "load_profile cv path' (Inr doc) = Inr p"
proof -
  have "doc = profile_yaml cv p" using assms(3) by (simp add: save_profile_def profile_error_def split: if_splits)
  then show ?thesis
    using assms(1,2)
    by (simp add: profile_yaml_def load_profile_def read_profile_def read_or_def y_sub_def y_index_def y_at_def
        scalar_or_def y_scalar_def)
qed

subsection \<open>The buffer\<close>

definition buffer_ok :: "candidate_buffer \<Rightarrow> bool" where
  "buffer_ok b \<longleftrightarrow>
     total_patches b = sum_list (map patch_count (bu_candidates b)) \<and>
     length (bu_candidates b) \<le> max_frames (bu_config b) \<and> total_patches b \<le> max_patches (bu_config b)"

datatype buffer_op = Append candidate | Drain

text \<open>A run of operations, in the order in which they take the lock: the candidates accepted, the
  batches drained and the buffer left.\<close>

fun buffer_run :: "buffer_op list \<Rightarrow> candidate_buffer \<Rightarrow> candidate list \<times> candidate list list \<times> candidate_buffer" where
  "buffer_run [] b = ([], [], b)"
| "buffer_run (Append c # ops) b =
     (case append_candidate c b of (accepted, b1) \<Rightarrow>
      case buffer_run ops b1 of (cs, batches, b2) \<Rightarrow> (if accepted then c # cs else cs, batches, b2))"
| "buffer_run (Drain # ops) b =
     (case drain_all b of (batch, b1) \<Rightarrow>
      case buffer_run ops b1 of (cs, batches, b2) \<Rightarrow> (cs, batch # batches, b2))"

lemma append_ok [invariant_intros]: "buffer_ok b \<Longrightarrow> buffer_ok (snd (append_candidate c b))"
  by (auto simp: append_candidate_def buffer_ok_def)

lemma drain_ok [invariant_intros]: "buffer_ok (snd (drain_all b))"
  by (simp add: drain_all_def buffer_ok_def)

text \<open>C21 The buffer of candidates stays within its limits for frames and patches, its counter
  is the sum of the patches it holds, and every accepted candidate is drained exactly once and in
  order or still there: the batches and the rest are the accepted candidates.\<close>

theorem buffer_accounting:
  assumes "buffer_ok b" "buffer_run ops b = (cs, batches, b')"
  shows "buffer_ok b' \<and> bu_config b' = bu_config b \<and> concat batches @ bu_candidates b' = bu_candidates b @ cs"
  using assms
proof (induction ops b arbitrary: cs batches b' rule: buffer_run.induct)
  case (2 c ops b)
  obtain acc b1 where a: "append_candidate c b = (acc, b1)" by (cases "append_candidate c b")
  obtain cs1 bs1 b2 where r: "buffer_run ops b1 = (cs1, bs1, b2)" by (cases "buffer_run ops b1")
  have "buffer_ok b1" using append_ok [OF 2(2), of c] by (simp add: a)
  then have "buffer_ok b2 \<and> bu_config b2 = bu_config b1 \<and> concat bs1 @ bu_candidates b2 = bu_candidates b1 @ cs1"
    using 2(1) [OF a [symmetric] _ r] by simp
  then show ?case using 2(3) a r by (auto simp: append_candidate_def split: if_splits)
next
  case (3 ops b)
  obtain batch b1 where a: "drain_all b = (batch, b1)" by (cases "drain_all b")
  obtain cs1 bs1 b2 where r: "buffer_run ops b1 = (cs1, bs1, b2)" by (cases "buffer_run ops b1")
  have "buffer_ok b1" using drain_ok [of b] by (simp add: a)
  then have "buffer_ok b2 \<and> bu_config b2 = bu_config b1 \<and> concat bs1 @ bu_candidates b2 = bu_candidates b1 @ cs1"
    using 3(1) [OF a [symmetric] _ r] by simp
  then show ?case using 3(3) a r by (auto simp: drain_all_def)
qed simp

subsection \<open>Examples\<close>

lemma normalcy_in_unit_interval_witness:
  "\<exists>a. compute_normalcy [Inf False, Fin False 0] (default_profile\<lparr>np_num := 1\<rparr>) (Fin False (1 / 8)) = Some a \<and> unit_float (normalcy_score a)"
proof -
  obtain a where a: "compute_normalcy [Inf False, Fin False 0] (default_profile\<lparr>np_num := 1\<rparr>) (Fin False (1 / 8)) = Some a"
    by (simp add: compute_normalcy_def std_sort_def default_profile_def Let_def)
  have "d_wf (Fin False (1 / 8))" by (simp add: d_wf_def)
  then have "unit_float (normalcy_score a)"
    using normalcy_in_unit_interval [of _ "[Inf False, Fin False 0]" "default_profile\<lparr>np_num := 1\<rparr>" a tiny_faiss tiny_bank 0 default_profile 0] a
    by blast
  then show ?thesis using a by blast
qed

definition plain_conv :: evolution_conv where
  "plain_conv =
     \<lparr>as_double_text = (\<lambda>s. None), as_int64_text = (\<lambda>s. None),
      null_text = None, as_uint32_text = (\<lambda>s. None), what = (\<lambda>ex. ''bad''),
      size_text = (\<lambda>s. Some (length s)), float_text = (\<lambda>s. Some (Fin False 0)), int_text = (\<lambda>s. None), bool_text = (\<lambda>s. None),
      emit_size = (\<lambda>n. replicate n CHR ''x''), emit_float = (\<lambda>x. ''0'')\<rparr>"

lemma profile_roundtrip_witness:
  "load_profile plain_conv ''p'' (Inr (profile_yaml plain_conv (default_profile\<lparr>np_num := 2\<rparr>))) = Inr (default_profile\<lparr>np_num := 2\<rparr>)"
  by (rule profile_roundtrip [of _ _ "''q''" True])
    (simp_all add: plain_conv_def default_profile_def save_profile_def)

lemma buffer_accounting_witness:
  "\<exists>b'. buffer_run [Append \<lparr>ca_vectors = [], grid_h = 2, grid_w = 3, ca_dim = 1, ca_normalcy = Fin False 1\<rparr>, Drain]
      \<lparr>bu_config = \<lparr>max_frames = 1, max_patches = 10, trigger_frames = 1, trigger_patches = 5\<rparr>, bu_candidates = [], total_patches = 0\<rparr> =
      ([\<lparr>ca_vectors = [], grid_h = 2, grid_w = 3, ca_dim = 1, ca_normalcy = Fin False 1\<rparr>],
       [[\<lparr>ca_vectors = [], grid_h = 2, grid_w = 3, ca_dim = 1, ca_normalcy = Fin False 1\<rparr>]], b') \<and> buffer_ok b' \<and> bu_candidates b' = []"
proof -
  define c where "c = \<lparr>ca_vectors = [], grid_h = 2, grid_w = 3, ca_dim = 1, ca_normalcy = Fin False 1\<rparr>"
  define b where "b = \<lparr>bu_config = \<lparr>max_frames = 1, max_patches = 10, trigger_frames = 1, trigger_patches = 5\<rparr>, bu_candidates = [], total_patches = 0\<rparr>"
  obtain b' where r: "buffer_run [Append c, Drain] b = ([c], [[c]], b')"
    by (simp add: b_def c_def append_candidate_def drain_all_def patch_count_def)
  moreover have "buffer_ok b" by (simp add: b_def buffer_ok_def)
  ultimately show ?thesis using buffer_accounting [of b "[Append c, Drain]" "[c]" "[[c]]" b'] unfolding b_def c_def by auto
qed

end
