(* ===== verification/Coreset_Evolution.thy ===== *)
theory Coreset_Evolution
  imports Normality_Profile Knowledge_Record
begin

text \<open>
  The self-evolution of the feature bank (\<open>src/detection/coreset_evolution.cpp\<close>): frames that all
  signals call normal and that are new are collected in a buffer; the background thread merges them with
  the standby bank into a new bank, swaps it into the detector and validates it. One pass of the
  thread, one frame offered and one full rebuild are each one operation here. \<open>None\<close> means that
  the process ends or the behaviour is undefined.
\<close>

subsection \<open>Configuration\<close>

record evolution_config =
  ec_enabled :: bool
  normality_k :: nat
  tail_ratio_max :: dbl
  coverage_threshold :: dbl
  ec_buffer :: buffer_config
  target_size :: nat
  min_update_interval :: int
  greedy_prefilter :: nat
  save_on_stop :: bool
  backup_old_bank :: bool
  max_backups :: nat
  coverage_saturation_threshold :: dbl
  saturation_window :: nat
  max_incremental_updates :: nat
  drift_auto_rebuild :: bool
  self_validation :: bool
  validation_degradation_threshold :: dbl
  validation_sample_count :: nat

definition default_config :: evolution_config where
  "default_config =
     \<lparr>ec_enabled = False, normality_k = 5, tail_ratio_max = f_lit (10 / 100), coverage_threshold = f_lit (60 / 100),
      ec_buffer = \<lparr>max_frames = 50, max_patches = 50000, trigger_frames = 20, trigger_patches = 20000\<rparr>,
      target_size = 10000, min_update_interval = 5, greedy_prefilter = 5000,
      save_on_stop = True, backup_old_bank = True, max_backups = 3,
      coverage_saturation_threshold = f_lit (95 / 100), saturation_window = 10, max_incremental_updates = 100,
      drift_auto_rebuild = False, self_validation = True, validation_degradation_threshold = f_lit (80 / 100),
      validation_sample_count = 100\<rparr>"

definition y_bind :: "yaml_exception + 'a \<Rightarrow> ('a \<Rightarrow> yaml_exception + 'b) \<Rightarrow> yaml_exception + 'b" where
  "y_bind x f = (case x of Inl ex \<Rightarrow> Inl ex | Inr a \<Rightarrow> f a)"

text \<open>One assignment \<open>cfg.field = n[key].as<T>(default)\<close>, and one section that is read if it is defined.\<close>

definition setting ::
  "(string \<Rightarrow> 'b option) \<Rightarrow> 'b \<Rightarrow> string \<Rightarrow> ('b \<Rightarrow> 'c \<Rightarrow> 'c) \<Rightarrow> yaml option \<Rightarrow> 'c \<Rightarrow> yaml_exception + 'c" where
  "setting conv dflt k upd n cfg = read_or conv dflt n k (\<lambda>v. Inr (upd v cfg))"

primrec settings :: "(yaml option \<Rightarrow> 'c \<Rightarrow> yaml_exception + 'c) list \<Rightarrow> yaml option \<Rightarrow> 'c \<Rightarrow> yaml_exception + 'c" where
  "settings [] n cfg = Inr cfg"
| "settings (f # fs) n cfg = y_bind (f n cfg) (settings fs n)"

definition section_if_defined ::
  "string \<Rightarrow> (yaml option \<Rightarrow> 'c \<Rightarrow> yaml_exception + 'c) list \<Rightarrow> yaml option \<Rightarrow> 'c \<Rightarrow> yaml_exception + 'c" where
  "section_if_defined k fs se cfg =
     y_bind (y_sub se k) (\<lambda>n. case n of None \<Rightarrow> Inr cfg | Some _ \<Rightarrow> settings fs n cfg)"

definition evolution_sections ::
  "'z evolution_conv_scheme \<Rightarrow> (yaml option \<Rightarrow> evolution_config \<Rightarrow> yaml_exception + evolution_config) list" where
  "evolution_sections cv =
     [setting (bool_text cv) False ''enabled'' (\<lambda>v c. c\<lparr>ec_enabled := v\<rparr>),
      section_if_defined ''normality''
        [setting (size_text cv) 5 ''k_self_query'' (\<lambda>v c. c\<lparr>normality_k := v\<rparr>),
         setting (float_text cv) (f_lit (10 / 100)) ''tail_ratio_max'' (\<lambda>v c. c\<lparr>tail_ratio_max := v\<rparr>)],
      section_if_defined ''novelty''
        [setting (float_text cv) (f_lit (60 / 100)) ''coverage_threshold'' (\<lambda>v c. c\<lparr>coverage_threshold := v\<rparr>)],
      section_if_defined ''buffer''
        [setting (size_text cv) 50 ''max_frames'' (\<lambda>v c. c\<lparr>ec_buffer := (ec_buffer c)\<lparr>max_frames := v\<rparr>\<rparr>),
         setting (size_text cv) 50000 ''max_patches'' (\<lambda>v c. c\<lparr>ec_buffer := (ec_buffer c)\<lparr>max_patches := v\<rparr>\<rparr>),
         setting (size_text cv) 20 ''trigger_frames'' (\<lambda>v c. c\<lparr>ec_buffer := (ec_buffer c)\<lparr>trigger_frames := v\<rparr>\<rparr>),
         setting (size_text cv) 20000 ''trigger_patches'' (\<lambda>v c. c\<lparr>ec_buffer := (ec_buffer c)\<lparr>trigger_patches := v\<rparr>\<rparr>)],
      section_if_defined ''update''
        [setting (size_text cv) 10000 ''target_size'' (\<lambda>v c. c\<lparr>target_size := v\<rparr>),
         setting (int_text cv) 5 ''min_interval_sec'' (\<lambda>v c. c\<lparr>min_update_interval := v\<rparr>),
         setting (size_text cv) 5000 ''greedy_prefilter'' (\<lambda>v c. c\<lparr>greedy_prefilter := v\<rparr>)],
      section_if_defined ''persistence''
        [setting (bool_text cv) True ''save_on_stop'' (\<lambda>v c. c\<lparr>save_on_stop := v\<rparr>),
         setting (bool_text cv) True ''backup_old_bank'' (\<lambda>v c. c\<lparr>backup_old_bank := v\<rparr>),
         setting (size_text cv) 3 ''max_backups'' (\<lambda>v c. c\<lparr>max_backups := v\<rparr>)],
      section_if_defined ''maintenance''
        [setting (float_text cv) (f_lit (95 / 100)) ''coverage_saturation_threshold'' (\<lambda>v c. c\<lparr>coverage_saturation_threshold := v\<rparr>),
         setting (size_text cv) 10 ''saturation_window'' (\<lambda>v c. c\<lparr>saturation_window := v\<rparr>),
         setting (size_text cv) 100 ''max_incremental_updates'' (\<lambda>v c. c\<lparr>max_incremental_updates := v\<rparr>),
         setting (bool_text cv) False ''drift_auto_rebuild'' (\<lambda>v c. c\<lparr>drift_auto_rebuild := v\<rparr>),
         setting (bool_text cv) True ''self_validation'' (\<lambda>v c. c\<lparr>self_validation := v\<rparr>),
         setting (float_text cv) (f_lit (80 / 100)) ''validation_degradation_threshold'' (\<lambda>v c. c\<lparr>validation_degradation_threshold := v\<rparr>),
         setting (size_text cv) 100 ''validation_sample_count'' (\<lambda>v c. c\<lparr>validation_sample_count := v\<rparr>)]]"

definition config_from_yaml :: "'z evolution_conv_scheme \<Rightarrow> yaml \<Rightarrow> evolution_config result" where
  "config_from_yaml cv node =
     (case y_bind (y_index node ''self_evolution'')
             (\<lambda>se. case se of
                None \<Rightarrow> Inr (default_config\<lparr>ec_enabled := False\<rparr>)
              | Some _ \<Rightarrow> settings (evolution_sections cv) se default_config) of
        Inl ex \<Rightarrow> Inl (ErrorInfo Pipeline_InvalidConfig (''self_evolution config parse error: '' @ what cv ex))
      | Inr cfg \<Rightarrow> Inr cfg)"

subsection \<open>State\<close>

text \<open>
  The detector is represented by its bank. \<open>recorded\<close> are the properties of the events handed to
  \<open>KnowledgeStore::InsertNode\<close>, whose result is ignored; the durations and time stamps, which
  nothing reads, are left out.
\<close>

record 'ix evolution =
  eo_config :: evolution_config
  active_bank :: "'ix feature_bank option"
  standby_bank :: "'ix feature_bank option"
  active_profile :: normality_profile
  standby_profile :: normality_profile
  eo_buffer :: candidate_buffer
  displacement_history :: "dbl list"
  saturation_count :: nat
  incremental_count :: nat
  evolution_paused :: bool
  notify_flag :: bool
  running :: bool
  save_path :: string
  stats_frames :: nat
  stats_updates :: nat
  store_bound :: bool
  recorded :: "knowledge_record list"

text \<open>\<open>Impl::CheckDrift\<close>. The window holds five displacements.\<close>

definition drift_window :: "dbl \<Rightarrow> dbl list \<Rightarrow> dbl list" where
  "drift_window x h = (let h1 = h @ [x] in if 5 < length h1 then tl h1 else h1)"

definition drift_detected :: "dbl list \<Rightarrow> bool" where
  "drift_detected h =
     (if length h < 3 then False
      else let n = length h;
               mean = d_div (widened_sum h) (d_of_nat n);
               sd = d_sqrt (d_div (square_deviations mean h) (d_of_nat n))
           in if d_gt sd (Fin False 0)
              then let threshold = d_add mean (d_mul (d_lit 2) sd)
                   in d_gt (h ! (n - 1)) threshold \<and> d_gt (h ! (n - 2)) threshold \<and> d_gt (h ! (n - 3)) threshold
              else False)"

definition check_drift :: "dbl \<Rightarrow> 'ix evolution \<Rightarrow> 'ix evolution" where
  "check_drift x s =
     (let h = drift_window x (displacement_history s); s1 = s\<lparr>displacement_history := h\<rparr>
      in if drift_detected h
         then let s2 = s1\<lparr>saturation_count := 0, evolution_paused := False\<rparr>
              in if drift_auto_rebuild (eo_config s) then s2\<lparr>standby_bank := None\<rparr> else s2
         else s1)"

text \<open>A patch embedding that owns a matrix of \<open>count\<close> rows.\<close>

definition patch_embedding :: "dbl list \<Rightarrow> nat \<Rightarrow> nat \<Rightarrow> embedding option list" where
  "patch_embedding vs d count = [Some \<lparr>em_dim = d, em_count = count, em_data = vs\<rparr>]"

definition initialize_standby :: "'ix faiss_lib \<Rightarrow> 'ix evolution \<Rightarrow> 'ix evolution option" where
  "initialize_standby lib s =
     (if np_dim (active_profile s) = 0 then Some s
      else case active_bank s of
             None \<Rightarrow> Some s
           | Some active \<Rightarrow>
               if bk_num active = 0 then Some s
               else (case extract_all_vectors lib active of
                       None \<Rightarrow> None
                     | Some vs \<Rightarrow>
                         (case build_from_embeddings lib (patch_embedding vs (bk_dim active) (bk_num active)) (bk_dim active) (bk_num active) of
                            None \<Rightarrow> None
                          | Some (Inl err) \<Rightarrow> Some s
                          | Some (Inr b) \<Rightarrow> Some (s\<lparr>standby_bank := Some b\<rparr>))))"

definition new_evolution ::
  "'ix faiss_lib \<Rightarrow> evolution_config \<Rightarrow> 'ix feature_bank option \<Rightarrow> normality_profile \<Rightarrow> 'ix evolution option" where
  "new_evolution lib cfg bank p =
     initialize_standby lib
       \<lparr>eo_config = cfg, active_bank = bank, standby_bank = None, active_profile = p, standby_profile = p,
        eo_buffer = \<lparr>bu_config = ec_buffer cfg, bu_candidates = [], total_patches = 0\<rparr>,
        displacement_history = [], saturation_count = 0, incremental_count = 0, evolution_paused = False,
        notify_flag = False, running = False, save_path = '''', stats_frames = 0, stats_updates = 0, store_bound = False, recorded = []\<rparr>"

definition bind_store :: "'ix evolution \<Rightarrow> 'ix evolution" where
  "bind_store s = s\<lparr>store_bound := True\<rparr>"

subsection \<open>Offering a frame\<close>

text \<open>The arguments of \<open>AssessAndOffer\<close>; \<open>fr_distances\<close> is a row-major matrix of \<open>fr_count\<close> rows with
  \<open>fr_k\<close> distances each, of which the code reads the first \<open>fr_count\<close> entries.\<close>

record frame =
  fr_distances :: "dbl list"
  fr_count :: nat
  fr_k :: nat
  fr_data :: "dbl list option"
  fr_h :: nat
  fr_w :: nat
  fr_dim :: nat
  fr_score :: dbl
  fr_matched :: nat
  fr_verdict :: string
  fr_threshold :: dbl
  fr_pca_score :: dbl
  fr_pca_p95 :: dbl

definition offer_candidate :: "candidate \<Rightarrow> 'ix evolution \<Rightarrow> 'ix evolution" where
  "offer_candidate c s =
     (case append_candidate c (eo_buffer s) of (appended, b) \<Rightarrow>
        let s1 = s\<lparr>eo_buffer := b\<rparr>
        in if appended \<and> is_triggered b then s1\<lparr>notify_flag := True\<rparr> else s1)"

definition assess_and_offer :: "frame \<Rightarrow> 'ix evolution \<Rightarrow> 'ix evolution option" where
  "assess_and_offer f s =
     (if \<not> ec_enabled (eo_config s) \<or> fr_count f = 0 then Some s
      else case fr_data f of
             None \<Rightarrow> Some s
           | Some data \<Rightarrow>
               if data = [] then Some s
               else if length (fr_distances f) < fr_count f then None
               else let cfg = eo_config s; p = active_profile s; ds = take (fr_count f) (fr_distances f)
                    in case compute_normalcy ds p (tail_ratio_max cfg) of
                         None \<Rightarrow> None
                       | Some a \<Rightarrow>
                           if \<not> consensus_check a (fr_score f) (fr_matched f) (fr_verdict f) (fr_threshold f)
                                  (consensus_threshold p) (fr_pca_score f) (fr_pca_p95 f)
                           then Some s
                           else let novelty = check_novelty ds p (coverage_threshold cfg);
                                    c = \<lparr>ca_vectors = data, grid_h = fr_h f, grid_w = fr_w f, ca_dim = fr_dim f,
                                         ca_normalcy = normalcy_score a\<rparr>
                                in Some
                                  (if \<not> is_novel novelty then s
                                   else if d_ge (coverage_ratio novelty) (coverage_saturation_threshold cfg)
                                   then let s1 = s\<lparr>saturation_count := saturation_count s + 1\<rparr>
                                        in if saturation_window cfg \<le> saturation_count s1
                                           then s1\<lparr>evolution_paused := True\<rparr>
                                           else offer_candidate c s1
                                   else offer_candidate c (s\<lparr>saturation_count := 0, evolution_paused := False\<rparr>)))"

subsection \<open>One pass of the update thread\<close>

definition mean_normalcy :: "candidate list \<Rightarrow> dbl" where
  "mean_normalcy cs = d_div (foldl d_add (Fin False 0) (map ca_normalcy cs)) (d_of_nat (length cs))"

primrec flatten :: "candidate list \<Rightarrow> dbl list option" where
  "flatten [] = Some []"
| "flatten (c # cs) =
     (let n = grid_h c * grid_w c * ca_dim c
      in if length (ca_vectors c) < n then None else map_option ((@) (take n (ca_vectors c))) (flatten cs))"

text \<open>The vectors of the new bank: all of the merged ones, or a greedy coreset of them.\<close>

definition reselect :: "'ix faiss_lib \<Rightarrow> dbl list \<Rightarrow> nat \<Rightarrow> nat \<Rightarrow> dbl list option" where
  "reselect lib merged d size_limit =
     (let total_count = length merged div d; target = min size_limit total_count
      in if total_count \<le> target then Some merged
         else case build_with_greedy_coreset lib (patch_embedding merged d total_count) d target of
                None \<Rightarrow> None
              | Some (Inl err) \<Rightarrow> Some []
              | Some (Inr b) \<Rightarrow> extract_all_vectors lib b)"

text \<open>The share of sampled rows of the old bank whose \<open>k\<close>-th distance in the new bank is below \<open>p50\<close>.\<close>

definition validation_coverage ::
  "'ix faiss_lib \<Rightarrow> evolution_config \<Rightarrow> 'ix feature_bank \<Rightarrow> 'ix feature_bank \<Rightarrow> dbl \<Rightarrow> dbl option" where
  "validation_coverage lib cfg old_bank new_bank median =
     (case extract_all_vectors lib old_bank of
        None \<Rightarrow> None
      | Some vs \<Rightarrow>
          let old_n = bk_num old_bank; sample_n = min (validation_sample_count cfg) old_n; k = normality_k cfg
          in if sample_n = 0 then None
             else let stride = max 1 (old_n div sample_n);
                      sampled = concat (map (\<lambda>i. row (bk_dim old_bank) vs (if old_n \<le> i * stride then old_n - 1 else i * stride)) [0..<sample_n])
                  in case bank_search lib new_bank sampled sample_n k of
                       None \<Rightarrow> None
                     | Some ds \<Rightarrow>
                         if k = 0 \<or> length ds < sample_n * k then None
                         else let covered = length (filter (\<lambda>i. d_lt (ds ! (i * k + k - 1)) median) [0..<sample_n])
                              in Some (f_div (f_of_nat covered) (f_of_nat sample_n)))"

definition validate :: "'ix faiss_lib \<Rightarrow> 'ix evolution \<Rightarrow> 'ix evolution option" where
  "validate lib s =
     (case (standby_bank s, active_bank s) of
        (Some old_bank, Some new_bank) \<Rightarrow>
          if self_validation (eo_config s) \<and> 0 < bk_num old_bank \<and> 0 < bk_num new_bank
          then (case validation_coverage lib (eo_config s) old_bank new_bank (p50 (active_profile s)) of
                  None \<Rightarrow> None
                | Some new_coverage \<Rightarrow>
                    let sn = self_normalcy (standby_profile s);
                        old_coverage = (if d_le sn (Fin False 0) then f_lit (50 / 100) else sn)
                    in if d_lt new_coverage (f_mul old_coverage (validation_degradation_threshold (eo_config s)))
                       then Some (s\<lparr>active_bank := Some old_bank, standby_bank := Some new_bank,
                                    active_profile := standby_profile s\<rparr>)
                       else Some s)
          else Some s
      | _ \<Rightarrow> Some s)"

text \<open>\<open>SwapFeatureBank\<close> and the new profile, computed from the bank swapped out.\<close>

definition swap_in :: "'ix faiss_lib \<Rightarrow> 'ix feature_bank \<Rightarrow> 'ix evolution \<Rightarrow> 'ix evolution option" where
  "swap_in lib new_bank s =
     (case active_bank s of
        None \<Rightarrow> None
      | Some old_bank \<Rightarrow>
          map_option
            (\<lambda>p. s\<lparr>active_bank := Some new_bank, standby_bank := Some old_bank,
                   standby_profile := active_profile s, active_profile := p\<rparr>)
            (compute_fast lib old_bank (normality_k (eo_config s)) 100 (tail_ratio_max (eo_config s))))"

definition record_event :: "(string \<times> field_value) list \<Rightarrow> 'ix evolution \<Rightarrow> 'ix evolution" where
  "record_event fs s =
     (if store_bound s
      then s\<lparr>recorded := recorded s @ [\<lparr>rec_fields = foldl (\<lambda>m (k, v). sm_put k v m) [] fs\<rparr>]\<rparr>
      else s)"

definition finish_update :: "64 word \<Rightarrow> nat \<Rightarrow> 'ix evolution \<Rightarrow> 'ix evolution" where
  "finish_update elapsed n s =
     check_drift (Fin False 0)
       (record_event
          [(''event_type'', FText ''RuntimeUpdate''), (''frames_added'', FInt (word_of_nat n)),
           (''mean_displacement'', FDouble (Fin False 0)), (''update_duration_ms'', FInt elapsed)]
          (s\<lparr>incremental_count := incremental_count s + 1, stats_frames := n, stats_updates := stats_updates s + 1\<rparr>))"

definition update_pass :: "'ix faiss_lib \<Rightarrow> 64 word \<Rightarrow> 'ix evolution \<Rightarrow> 'ix evolution option" where
  "update_pass lib elapsed s0 =
     (case drain_all (eo_buffer s0) of (cs, b) \<Rightarrow>
        let s = s0\<lparr>notify_flag := False, eo_buffer := b\<rparr>; cfg = eo_config s; d = np_dim (active_profile s)
        in if cs = [] then Some s
           else if d_lt (mean_normalcy cs) (evolution_gate (active_profile s)) then Some s
           else case Option.bind (flatten cs) (\<lambda>vs. prefilter_candidates vs d (greedy_prefilter cfg)) of
                  None \<Rightarrow> None
                | Some prefiltered \<Rightarrow>
                    (case standby_bank s of
                       None \<Rightarrow> Some s
                     | Some standby \<Rightarrow>
                         (case Option.bind (extract_all_vectors lib standby)
                                 (\<lambda>existing. reselect lib (existing @ prefiltered) d (target_size cfg)) of
                            None \<Rightarrow> None
                          | Some selected \<Rightarrow>
                              if selected = [] then Some s
                              else let n = length selected div d
                                   in case build_from_embeddings lib (patch_embedding selected d n) d n of
                                        None \<Rightarrow> None
                                      | Some (Inl err) \<Rightarrow> Some s
                                      | Some (Inr new_bank) \<Rightarrow>
                                          map_option (finish_update elapsed (length cs))
                                            (Option.bind (swap_in lib new_bank s) (validate lib)))))"

subsection \<open>Full rebuild, start and stop\<close>

text \<open>What the file system does: whether each file can be opened and how much of the bank is
  written; and what is written.\<close>

record file_system =
  bank_opens :: bool
  bank_written :: nat
  profile_opens :: bool
  backup_opens :: bool
  backup_written :: nat

record saved_files =
  sf_bank :: "8 word list option"
  sf_profile :: "yaml option"
  sf_backup :: "8 word list option"

definition nothing_saved :: saved_files where
  "nothing_saved = \<lparr>sf_bank = None, sf_profile = None, sf_backup = None\<rparr>"

definition displacement :: "normality_profile \<Rightarrow> normality_profile \<Rightarrow> dbl" where
  "displacement new_p old_p =
     (if 0 < np_num old_p \<and> 0 < np_num new_p then d_abs (f_sub (np_mean new_p) (np_mean old_p)) else Fin False 0)"

definition rebuilt_profile :: "'ix faiss_lib \<Rightarrow> evolution_config \<Rightarrow> 'ix feature_bank \<Rightarrow> normality_profile option" where
  "rebuilt_profile lib cfg b =
     Option.bind (to_size (d_sqrt (d_of_nat (bk_num b))))
       (\<lambda>n. compute_fast lib b (normality_k cfg) (max n 1) (tail_ratio_max cfg))"

text \<open>The backup is best effort: its result is only logged.\<close>

definition backup :: "'ix faiss_lib \<Rightarrow> file_system \<Rightarrow> string \<Rightarrow> 'ix evolution \<Rightarrow> 8 word list option option" where
  "backup lib fs path s =
     (case standby_bank s of
        None \<Rightarrow> Some None
      | Some b \<Rightarrow>
          if backup_old_bank (eo_config s) \<and> 0 < bk_num b
          then map_option snd (save_to_file lib b path (backup_opens fs) (backup_written fs))
          else Some None)"

definition finish_rebuild ::
  "string \<Rightarrow> nat \<Rightarrow> 'ix feature_bank \<Rightarrow> normality_profile \<Rightarrow> 'ix evolution \<Rightarrow> 'ix evolution" where
  "finish_rebuild path n new_bank p s =
     (let md = displacement p (active_profile s);
          s1 = s\<lparr>standby_bank := active_bank s, active_bank := Some new_bank,
                 standby_profile := active_profile s, active_profile := p, save_path := path,
                 stats_updates := stats_updates s + 1\<rparr>;
          s2 = record_event
                 [(''event_type'', FText ''FullRebuild''), (''mean_displacement'', FDouble md),
                  (''frames_added'', FInt (word_of_nat n))] s1
      in (check_drift md s2)\<lparr>incremental_count := 0, saturation_count := 0, evolution_paused := False\<rparr>)"

definition full_rebuild ::
  "'z evolution_conv_scheme \<Rightarrow> 'ix faiss_lib \<Rightarrow> file_system \<Rightarrow> nat \<Rightarrow> string \<Rightarrow> 'ix evolution \<Rightarrow>
   (unit result \<times> 'ix evolution \<times> saved_files) option" where
  "full_rebuild cv lib fs now path s0 =
     (case drain_all (eo_buffer s0) of (cs, b) \<Rightarrow>
        let s = s0\<lparr>eo_buffer := b\<rparr>; cfg = eo_config s; d = np_dim (active_profile s)
        in if d = 0 then Some (Inr (), s, nothing_saved)
           else case (case standby_bank s of
                        None \<Rightarrow> Some []
                      | Some standby \<Rightarrow> (if 0 < bk_num standby then extract_all_vectors lib standby else Some [])) of
                  None \<Rightarrow> None
                | Some old \<Rightarrow>
                    (case flatten cs of
                       None \<Rightarrow> None
                     | Some fresh \<Rightarrow>
                         let merged = old @ fresh; n = length merged div d
                         in if merged = [] then Some (Inr (), s, nothing_saved)
                            else case build_with_greedy_coreset lib (patch_embedding merged d n) d (min (target_size cfg) n) of
                                   None \<Rightarrow> None
                                 | Some (Inl err) \<Rightarrow> Some (Inl err, s, nothing_saved)
                                 | Some (Inr new_bank) \<Rightarrow>
                                     (case rebuilt_profile lib cfg new_bank of
                                        None \<Rightarrow> None
                                      | Some p \<Rightarrow>
                                          (case save_to_file lib new_bank path (bank_opens fs) (bank_written fs) of
                                             None \<Rightarrow> None
                                           | Some (Inl err, f) \<Rightarrow> Some (Inl err, s, nothing_saved\<lparr>sf_bank := f\<rparr>)
                                           | Some (Inr _, f) \<Rightarrow>
                                               (case save_profile cv (path @ ''.profile.yaml'') (profile_opens fs) p of
                                                  (Inl err, pf) \<Rightarrow> Some (Inl err, s, \<lparr>sf_bank = f, sf_profile = pf, sf_backup = None\<rparr>)
                                                | (Inr _, pf) \<Rightarrow>
                                                    map_option
                                                      (\<lambda>bf. (Inr (), finish_rebuild path (length cs) new_bank p s,
                                                             \<lparr>sf_bank = f, sf_profile = pf, sf_backup = bf\<rparr>))
                                                      (backup lib fs (path @ ''.backup.'' @ nat_str now @ ''.bin'') s))))))"

definition start_evolution :: "'ix evolution \<Rightarrow> 'ix evolution" where
  "start_evolution s = (if ec_enabled (eo_config s) then s\<lparr>running := True\<rparr> else s)"

definition stop_evolution ::
  "'z evolution_conv_scheme \<Rightarrow> 'ix faiss_lib \<Rightarrow> file_system \<Rightarrow> nat \<Rightarrow> 'ix evolution \<Rightarrow> ('ix evolution \<times> saved_files) option" where
  "stop_evolution cv lib fs now s0 =
     (let s = (if running s0 then s0\<lparr>running := False, notify_flag := True\<rparr> else s0)
      in if save_on_stop (eo_config s) \<and> save_path s \<noteq> ''''
         then map_option snd (full_rebuild cv lib fs now (save_path s) s)
         else Some (s, nothing_saved))"

end
