(* ===== verification/Drift.thy ===== *)
theory Drift
  imports Coreset_Evolution
begin

text \<open>
  The drift check cannot succeed: in a window of at most five values no three exceed the mean by more than
  twice the standard deviation. This holds in exact arithmetic, and the proof here shows it of the
  double-precision arithmetic of the code, with every rounding, overflow and NaN.
\<close>

subsection \<open>Finite results have finite arguments\<close>

definition double_value :: "dbl \<Rightarrow> bool" where
  "double_value x \<longleftrightarrow> (case x of Fin s q \<Rightarrow> 0 \<le> q \<and> q < pow2 1024 \<and> representable q | _ \<Rightarrow> True)"

lemma d_add_nonneg: "nonneg x \<Longrightarrow> nonneg y \<Longrightarrow> nonneg (d_add x y)"
  by (cases x; cases y) (auto simp: nonneg_def Let_def round_rat_def round_fmt_nonneg [unfolded nonneg_def])

lemma d_square_nonneg: "nonneg (d_mul x x)"
  by (cases x) (simp_all add: round_fmt_nonneg, simp_all add: nonneg_def)

lemma d_add_finite:
  assumes "nonneg x" "nonneg y" "d_add x y = Fin s z"
  obtains p q where "x = Fin False p" "y = Fin False q" "0 \<le> p" "0 \<le> q" "\<not> s"
    "0 < p + q \<Longrightarrow> z = rounded (p + q)"
  using assms by (cases x; cases y) (auto simp: nonneg_def Let_def round_rat_def round_binary64 split: if_splits)

lemma deviations_nonneg: "nonneg (foldl (\<lambda>acc x. let diff = d_sub x m in d_add acc (d_mul diff diff)) acc xs)"
  if "nonneg acc" for acc
  using that by (induction xs arbitrary: acc) (simp_all add: Let_def d_add_nonneg d_square_nonneg)

lemma representable_minus: "representable (- q) = representable q"
  by (simp add: representable_def)

lemma double_value_fval: "double_value (Fin s q) \<Longrightarrow> representable (fval (Fin s q)) \<and> \<bar>fval (Fin s q)\<bar> < pow2 1024"
  by (simp add: double_value_def representable_minus)

subsection \<open>A value above a rounded bound\<close>

lemma above_rounded_sum:
  assumes "double_value (Fin s q)" "0 < t" "d_gt (Fin s q) (d_add (Fin sm qm) (Fin False t))"
  shows "fval (Fin sm qm) + t < fval (Fin s q)"
proof (rule ccontr)
  define a r where "a = fval (Fin s q)" and "r = fval (Fin sm qm) + t"
  assume "\<not> fval (Fin sm qm) + t < fval (Fin s q)"
  then have le: "a \<le> r" by (simp add: a_def r_def)
  have a: "representable a" "\<bar>a\<bar> < pow2 1024" using double_value_fval [OF assms(1)] by (simp_all add: a_def)
  have gt: "d_lt (if r = 0 then Fin (sm \<and> False) 0 else round_rat binary64 r) (Fin s q)"
    using assms(3) by (simp only: d_gt_def d_add.simps Let_def r_def fval.simps if_False)
  consider "r = 0" | "0 < r" | "r < 0" by linarith
  then show False
  proof cases
    case 1
    then show False using gt le by (simp add: a_def)
  next
    case 2
    then have "d_lt (if pow2 1024 \<le> rounded r then Inf False else Fin False (rounded r)) (Fin s q)"
      using gt by (simp add: round_rat_def round_binary64)
    then have "rounded r < a" by (auto simp: a_def split: if_splits)
    then show False using representable_le_rounded [OF a(1) 2 le] by linarith
  next
    case 3
    have "representable (- a)" using a(1) by (simp add: representable_minus)
    then have ra: "rounded (- r) \<le> - a" using rounded_le_representable [of "- a" "- r"] 3 le by simp
    then have "\<not> pow2 1024 \<le> rounded (- r)" using a(2) by linarith
    then have "d_lt (Fin True (rounded (- r))) (Fin s q)"
      using gt 3 by (simp add: round_rat_def round_binary64)
    then show False using ra by (simp add: a_def)
  qed
qed

lemma square_above:
  assumes "double_value a" "0 < t" "rounded t = t" "d_gt a (d_add m (Fin False t))"
    and "d_mul (d_sub a m) (d_sub a m) = Fin sz z"
  shows "\<exists>w \<ge> t. z = rounded (w * w)"
proof -
  obtain sa qa sm qm where am: "a = Fin sa qa" "m = Fin sm qm"
    using assms(5) by (cases a; cases m) (auto simp: d_sub_def split: if_splits)
  define x where "x = fval a - fval m"
  have x: "t < x" using above_rounded_sum [of sa qa t sm qm] assms(1,2,4) by (simp add: am x_def)
  have "fval (Fin sa qa) + fval (Fin (\<not> sm) qm) = x" by (simp add: x_def am)
  then have "d_sub a m = (if x = 0 then Fin (sa \<and> \<not> sm) 0 else round_rat binary64 x)"
    by (simp only: am d_sub_def d_neg.simps d_add.simps Let_def)
  then have diff: "d_sub a m = (if pow2 1024 \<le> rounded x then Inf False else Fin False (rounded x))"
    using x assms(2) by (simp add: round_rat_def round_binary64)
  have fin: "\<not> pow2 1024 \<le> rounded x" using assms(5) unfolding diff by auto
  have w: "t \<le> rounded x" using rounded_mono [OF assms(2) less_imp_le [OF x]] assms(3) by simp
  then have "0 < rounded x" using assms(2) by linarith
  then have "z = rounded (rounded x * rounded x)"
    using assms(5) fin unfolding diff by (simp add: round_binary64 split: if_splits)
  then show ?thesis using w by blast
qed

subsection \<open>The bound\<close>

text \<open>Twice the square root of a double \<open>v\<close>, rounded, has a square of more than \<open>3.37 v\<close>.\<close>

lemma two_sigma:
  assumes "0 < v" "pow2 (-1074) \<le> v"
  shows "0 < rounded (2 * sqrt_mag v)" "337 / 100 * v \<le> rounded (2 * sqrt_mag v) * rounded (2 * sqrt_mag v)"
proof -
  define r where "r = sqrt_mag v"
  have r: "0 < r" "9 / 10 * v \<le> r * r" using sqrt_mag_bounds [OF assms(1)] by (simp_all add: r_def)
  have "pow2 (-1070) \<le> r"
  proof (rule ccontr)
    assume "\<not> pow2 (-1070) \<le> r"
    then have "r * r \<le> pow2 (-1070) * pow2 (-1070)" using r(1) by (intro mult_mono) simp_all
    also have "\<dots> \<le> pow2 (-1075)" unfolding pow2_add [symmetric] by (intro pow2_mono) simp
    finally have "9 / 10 * pow2 (-1074) \<le> pow2 (-1075)" using r(2) assms(2) by linarith
    moreover have "pow2 (-1074) = 2 * pow2 (-1075)" using pow2_add [of 1 "-1075"] by (simp add: pow2_def [of 1])
    ultimately show False using pow2_pos [of "-1075"] by linarith
  qed
  moreover have "pow2 (-1070) = 16 * pow2 (-1074)" using pow2_add [of 4 "-1074"] by (simp add: pow2_def [of 4])
  ultimately have low: "pow2 (-1074) \<le> r / 8" using pow2_pos [of "-1074"] by linarith
  have "2 * r - r / 8 / 2 \<le> rounded (2 * r)" using r(1) by (intro rounded_error [OF low]) simp_all
  then have t: "31 / 16 * r \<le> rounded (2 * r)" by simp
  then show "0 < rounded (2 * sqrt_mag v)" using r(1) unfolding r_def [symmetric] by linarith
  have "31 / 16 * r * (31 / 16 * r) \<le> rounded (2 * r) * rounded (2 * r)" using t r(1) by (intro mult_mono) simp_all
  then show "337 / 100 * v \<le> rounded (2 * sqrt_mag v) * rounded (2 * sqrt_mag v)"
    using r(2) assms(1) unfolding r_def [symmetric] by simp
qed

lemma rounded_at_least:
  assumes "pow2 (-1074) \<le> v" "0 < v" "0 \<le> c" "c < 16" "1 / 2 < c" "c * v \<le> x"
  shows "c * v - v / 2 \<le> rounded x"
proof -
  have "0 < c * v" using assms by simp
  then have "rounded (c * v) \<le> rounded x" using assms(6) by (rule rounded_mono)
  moreover have "c * v - v / 2 \<le> rounded (c * v)" using assms by (intro rounded_error) simp_all
  ultimately show ?thesis by linarith
qed

text \<open>Three squares of more than \<open>3.37 v\<close> after at most two other squares, divided by at most five,
  give more than \<open>v\<close>, whatever the roundings.\<close>

lemma three_large_squares:
  assumes v: "pow2 (-1074) \<le> v" "0 < v"
    and w: "337 / 100 * v \<le> w1 * w1" "337 / 100 * v \<le> w2 * w2" "337 / 100 * v \<le> w3 * w3"
    and p: "0 \<le> p" "0 < n" "n \<le> 5"
  shows "v < rounded (rounded (rounded (rounded (p + rounded (w1 * w1)) + rounded (w2 * w2)) + rounded (w3 * w3)) / n)"
proof -
  note at_least = rounded_at_least [OF v]
  have z: "287 / 100 * v \<le> rounded (w1 * w1)" "287 / 100 * v \<le> rounded (w2 * w2)" "287 / 100 * v \<le> rounded (w3 * w3)"
    using at_least [of "337 / 100" "w1 * w1"] at_least [of "337 / 100" "w2 * w2"] at_least [of "337 / 100" "w3 * w3"] w by simp_all
  have w1: "0 < w1 * w1" using w(1) v(2) by linarith
  define a where "a = rounded (p + rounded (w1 * w1))"
  have "rounded (w1 * w1) \<le> a"
    unfolding a_def using z(1) v(2) p(1) by (intro representable_le_rounded representable_rounded [OF w1]) linarith+
  then have a: "287 / 100 * v \<le> a" using z(1) by linarith
  define b where "b = rounded (a + rounded (w2 * w2))"
  have b: "524 / 100 * v \<le> b" unfolding b_def using at_least [of "574 / 100" "a + rounded (w2 * w2)"] a z(2) by simp
  define c where "c = rounded (b + rounded (w3 * w3))"
  have c: "761 / 100 * v \<le> c" unfolding c_def using at_least [of "811 / 100" "b + rounded (w3 * w3)"] b z(3) by simp
  have "152 / 100 * v * n \<le> 152 / 100 * v * 5" using p(3) v(2) by (intro mult_left_mono) simp_all
  then have "152 / 100 * v * n \<le> c" using c v(2) by linarith
  then have "152 / 100 * v \<le> c / n" using p(2) by (simp add: pos_le_divide_eq)
  then have "102 / 100 * v \<le> rounded (c / n)" using at_least [of "152 / 100" "c / n"] by simp
  then show ?thesis using v(2) unfolding c_def b_def a_def by linarith
qed

subsection \<open>The check\<close>

text \<open>The sum of squared deviations after a last value that exceeds the threshold.\<close>

definition dev_step :: "dbl \<Rightarrow> dbl \<Rightarrow> dbl \<Rightarrow> dbl" where
  "dev_step m acc x = (let diff = d_sub x m in d_add acc (d_mul diff diff))"

lemma square_deviations_fold: "square_deviations m xs = foldl (dev_step m) (Fin False 0) xs"
  by (simp add: square_deviations_def dev_step_def [abs_def])

lemma dev_fold_nonneg: "nonneg acc \<Longrightarrow> nonneg (foldl (dev_step m) acc xs)"
  using deviations_nonneg [of acc m xs] by (simp add: dev_step_def [abs_def])

lemma dev_step_large:
  assumes "nonneg acc" "double_value x" "0 < t" "rounded t = t" "d_gt x (d_add m (Fin False t))"
    and "dev_step m acc x = Fin s z" "337 / 100 * v \<le> t * t" "0 < v"
  obtains p w where "acc = Fin False p" "0 \<le> p" "337 / 100 * v \<le> w * w" "z = rounded (p + rounded (w * w))" "\<not> s"
proof -
  obtain p q where pq: "acc = Fin False p" "d_mul (d_sub x m) (d_sub x m) = Fin False q" "0 \<le> p" "0 \<le> q" "\<not> s"
    "0 < p + q \<Longrightarrow> z = rounded (p + q)"
    using d_add_finite [OF assms(1) d_square_nonneg, of "d_sub x m" s z] assms(6) by (auto simp: dev_step_def Let_def)
  obtain w where w: "t \<le> w" "q = rounded (w * w)" using square_above [OF assms(2-5) pq(2)] by blast
  have "t * t \<le> w * w" using w(1) assms(3) by (intro mult_mono) simp_all
  then have ww: "337 / 100 * v \<le> w * w" using assms(7) by linarith
  have "0 < t * t" using assms(3) by simp
  have "rounded (t * t) \<le> q" unfolding w(2) using \<open>0 < t * t\<close> \<open>t * t \<le> w * w\<close> by (rule rounded_mono)
  have "0 < p + q \<or> (p = 0 \<and> q = 0)" using pq(3,4) by linarith
  then have "z = rounded (p + q)"
  proof
    assume "p = 0 \<and> q = 0"
    then show ?thesis using assms(6) pq(1,2) by (simp add: dev_step_def Let_def rounded_def round_even_def)
  qed (rule pq(6))
  then show thesis using that [OF pq(1,3) ww _ pq(5)] w(2) by simp
qed

theorem drift_impossible:
  assumes "list_all double_value h" "length h \<le> 5"
  shows "\<not> drift_detected h"
proof
  assume drift: "drift_detected h"
  define n where "n = length h"
  define m where "m = d_div (widened_sum h) (d_of_nat n)"
  define sd where "sd = d_sqrt (d_div (square_deviations m h) (d_of_nat n))"
  define thr where "thr = d_add m (d_mul (d_lit 2) sd)"
  have n: "3 \<le> n" and sd: "d_gt sd (Fin False 0)"
    and above: "d_gt (h ! (n - 1)) thr" "d_gt (h ! (n - 2)) thr" "d_gt (h ! (n - 3)) thr"
    using drift unfolding drift_detected_def n_def m_def sd_def thr_def by (auto simp: Let_def split: if_splits)
  define pre where "pre = take (n - 3) h"
  have h: "h = pre @ [h ! (n - 3), h ! (n - 2), h ! (n - 1)]"
  proof -
    have i: "Suc (n - 3) = n - 2" "Suc (n - 2) = n - 1" "Suc (n - 1) = length h" using n by (simp_all add: n_def)
    have "drop (n - 3) h = [h ! (n - 3), h ! (n - 2), h ! (n - 1)]"
      using n i by (simp add: Cons_nth_drop_Suc [symmetric] n_def)
    then show ?thesis unfolding pre_def by (metis append_take_drop_id)
  qed
  have vals: "double_value (h ! (n - 1))" "double_value (h ! (n - 2))" "double_value (h ! (n - 3))"
    using assms(1) n by (simp_all add: list_all_length n_def)
  have two: "d_lit 2 = Fin False 2"
    using round_fmt_exact [of 2 binary64 0 False] by (simp add: d_lit_def round_rat_def binary64_def pow2_def)
  have nn: "d_of_nat n = Fin False (of_nat n)" using assms(2) by (intro d_of_nat_exact) (simp add: n_def)
  define acc where "acc = foldl (dev_step m) (Fin False 0) pre"
  have acc0: "nonneg acc" unfolding acc_def by (rule dev_fold_nonneg) (simp add: nonneg_def)
  define acc1 acc2 acc3 where "acc1 = dev_step m acc (h ! (n - 3))" and "acc2 = dev_step m acc1 (h ! (n - 2))"
    and "acc3 = dev_step m acc2 (h ! (n - 1))"
  have dev: "square_deviations m h = acc3"
    unfolding square_deviations_fold by (subst h) (simp add: acc_def acc1_def acc2_def acc3_def)
  have step: "nonneg x \<Longrightarrow> nonneg (dev_step m x y)" for x y
    by (simp add: dev_step_def Let_def d_add_nonneg d_square_nonneg)
  have accs: "nonneg acc1" "nonneg acc2" "nonneg acc3"
    unfolding acc1_def acc2_def acc3_def by (intro step acc0)+
  show False
  proof (cases sd)
    case NaN
    then show False using sd by (simp add: d_gt_def)
  next
    case (Inf s)
    then have "\<not> s" using sd by (simp add: d_gt_def)
    then show False using above(1) Inf two by (cases m; cases "h ! (n - 1)") (auto simp: thr_def d_gt_def split: if_splits)
  next
    case (Fin s r)
    obtain V where V: "acc3 = Fin False V" "0 \<le> V"
      using Fin accs(3) sd unfolding sd_def dev nn
      by (cases acc3) (auto simp: nonneg_def d_gt_def split: if_splits)
    have V0: "V \<noteq> 0"
    proof
      assume "V = 0"
      then have "sd = Fin False 0" using n unfolding sd_def dev nn V by simp
      then show False using sd by (simp add: d_gt_def)
    qed
    have ratio: "0 < V / of_nat n" using V V0 n by simp
    define v where "v = rounded (V / of_nat n)"
    have q: "d_div acc3 (d_of_nat n) = (if pow2 1024 \<le> v then Inf False else Fin False v)"
      using n ratio unfolding nn V by (simp add: round_binary64 v_def)
    have v0: "0 < v" using sd rounded_nonneg [OF ratio] Fin unfolding sd_def dev q v_def [symmetric]
      by (cases "v = 0") (auto simp: d_gt_def split: if_splits)
    have v1: "pow2 (-1074) \<le> v" unfolding v_def using ratio v0 unfolding v_def by (rule rounded_least)
    have sdv: "sd = Fin False (sqrt_mag v)" using Fin v0 unfolding sd_def dev q by (auto split: if_splits)
    define t where "t = rounded (2 * sqrt_mag v)"
    have t: "0 < t" "337 / 100 * v \<le> t * t" using two_sigma [OF v0 v1] by (simp_all add: t_def)
    have root: "0 < 2 * sqrt_mag v" using sqrt_mag_bounds(1) [OF v0] by simp
    have tt: "rounded t = t" unfolding t_def using root t(1) unfolding t_def by (rule rounded_idem)
    have mul: "d_mul (d_lit 2) sd = (if pow2 1024 \<le> t then Inf False else Fin False t)"
      using root unfolding two sdv by (simp add: round_binary64 t_def)
    have "\<not> pow2 1024 \<le> t"
    proof
      assume "pow2 1024 \<le> t"
      then have "thr = d_add m (Inf False)" unfolding thr_def mul by simp
      then show False using above(1) by (cases m; cases "h ! (n - 1)") (auto simp: d_gt_def split: if_splits)
    qed
    then have thr: "thr = d_add m (Fin False t)" unfolding thr_def mul by simp
    obtain p3 w3 where s3: "acc2 = Fin False p3" "0 \<le> p3" "337 / 100 * v \<le> w3 * w3" "V = rounded (p3 + rounded (w3 * w3))"
      using dev_step_large [OF accs(2) vals(1) t(1) tt above(1) [unfolded thr] _ t(2) v0, of False V] V(1) unfolding acc3_def by metis
    obtain p2 w2 where s2: "acc1 = Fin False p2" "0 \<le> p2" "337 / 100 * v \<le> w2 * w2" "p3 = rounded (p2 + rounded (w2 * w2))"
      using dev_step_large [OF accs(1) vals(2) t(1) tt above(2) [unfolded thr] _ t(2) v0, of False p3] s3(1) unfolding acc2_def by metis
    obtain p1 w1 where s1: "acc = Fin False p1" "0 \<le> p1" "337 / 100 * v \<le> w1 * w1" "p2 = rounded (p1 + rounded (w1 * w1))"
      using dev_step_large [OF acc0 vals(3) t(1) tt above(3) [unfolded thr] _ t(2) v0, of False p2] s2(1) unfolding acc1_def by metis
    have "(of_nat n :: rat) \<le> of_nat 5" using assms(2) by (simp only: of_nat_le_iff n_def)
    then have "v < rounded (V / of_nat n)"
      using three_large_squares [OF v1 v0 s1(3) s2(3) s3(3) s1(2), of "of_nat n"] n unfolding s3(4) s2(4) s1(4) by simp
    then show False by (simp add: v_def)
  qed
qed

end
