(* ===== verification/Evolution_Run.thy ===== *)
theory Evolution_Run
  imports Drift
begin

text \<open>
  Runs of the self-evolution: frames offered, passes of the update thread, full rebuilds, start and
  stop in any order. The invariant of the state, what an update does to the two banks, and what
  the maintenance counters and the drift check can never do.
\<close>

subsection \<open>Rows of a matrix\<close>

definition rows_of :: "nat \<Rightarrow> dbl list \<Rightarrow> dbl list set" where
  "rows_of d vs = row d vs ` {..< length vs div d}"

definition bank_rows :: "'ix faiss_lib \<Rightarrow> 'ix feature_bank \<Rightarrow> dbl list set" where
  "bank_rows lib b = (case extract_all_vectors lib b of None \<Rightarrow> {} | Some vs \<Rightarrow> rows_of (bk_dim b) vs)"

lemma row_take: "i < n \<Longrightarrow> row d (take (n * d) vs) i = row d vs i"
proof -
  assume "i < n"
  then have "Suc i * d \<le> n * d" by (intro mult_le_mono1) simp
  then have "d \<le> n * d - i * d" by simp
  then show ?thesis by (simp add: row_def drop_take min_absorb1)
qed

lemma row_append_left: "Suc i * d \<le> length a \<Longrightarrow> row d (a @ b) i = row d a i"
  by (simp add: row_def)

lemma row_append_right: "length a = k * d \<Longrightarrow> k \<le> i \<Longrightarrow> row d (a @ b) i = row d b (i - k)"
  by (simp add: row_def diff_mult_distrib)

lemma rows_of_append:
  assumes "0 < d" "length a = k * d"
  shows "rows_of d (a @ b) = rows_of d a \<union> rows_of d b"
proof -
  have n: "length (a @ b) div d = k + length b div d" "length a div d = k" using assms by simp_all
  have "i \<in> {..< k + l} \<longleftrightarrow> i \<in> {..< k} \<union> (\<lambda>i. k + i) ` {..< l}" for i l
    by (cases "i < k") (auto intro: image_eqI [of _ _ "i - k"])
  then have "{..< k + length b div d} = {..< k} \<union> (\<lambda>i. k + i) ` {..< length b div d}" by (rule set_eqI)
  moreover have "row d (a @ b) i = row d a i" if "i < k" for i
  proof (rule row_append_left)
    show "Suc i * d \<le> length a" unfolding assms(2) using that by (intro mult_le_mono1) simp
  qed
  moreover have "row d (a @ b) (k + i) = row d b i" for i
    using row_append_right [OF assms(2), of "k + i" b] by simp
  ultimately show ?thesis unfolding rows_of_def n by (auto simp: image_Un image_image)
qed

lemma rows_of_take: "0 < d \<Longrightarrow> n = length vs div d \<Longrightarrow> rows_of d (take (n * d) vs) = rows_of d vs"
  using row_take [of _ n d vs] by (auto simp: rows_of_def min_absorb2 div_times_less_eq_dividend)

lemma rows_of_concat:
  assumes "0 < d" "length vs = n * d" "\<forall>i \<in> set is. i < n"
  shows "rows_of d (concat (map (row d vs) is)) \<subseteq> rows_of d vs"
  using assms(3)
proof (induction "is")
  case Nil
  then show ?case by (simp add: rows_of_def)
next
  case (Cons i "is")
  have l: "length (row d vs i) = 1 * d" using row_length [OF assms(2), of i] Cons.prems by simp
  have "rows_of d (row d vs i) = {row d vs i}" using l assms(1) by (simp add: rows_of_def row_def lessThan_Suc)
  moreover have "row d vs i \<in> rows_of d vs" using Cons.prems assms(1,2) by (simp add: rows_of_def)
  ultimately show ?case using Cons rows_of_append [OF assms(1) l] by simp
qed

subsection \<open>Banks that are built\<close>

definition bank_ok :: "'ix faiss_lib \<Rightarrow> nat \<Rightarrow> 'ix feature_bank \<Rightarrow> bool" where
  "bank_ok lib d b \<longleftrightarrow>
     0 < bk_num b \<and> bk_dim b = d \<and> (\<exists>vs. extract_all_vectors lib b = Some vs \<and> length vs = bk_num b * d)"

lemma patch_collected:
  assumes "0 < n" "n * d \<le> length vs"
  shows "collected name nothing (patch_embedding vs d n) d = Some (Inr (take (n * d) vs, n))"
  using assms by (simp add: collected_def patch_embedding_def)

lemma build_all_rows:
  assumes "flat_documented lib" "0 < d" "0 < n" "n * d \<le> length vs"
  obtains b where "build_from_embeddings lib (patch_embedding vs d n) d n = Some (Inr b)"
    "extract_all_vectors lib b = Some (take (n * d) vs)" "bank_ok lib d b" "bk_num b = n"
proof -
  have len: "length (take (n * d) vs) = n * d" using assms(4) by simp
  obtain b where b: "rebuild lib empty_bank (take (n * d) vs) n d = Some b"
    "extract_all_vectors lib b = Some (take (n * d) vs)" "bk_dim b = d" "bk_num b = n"
    using rebuild_extract [OF assms(1,2) len] by metis
  show thesis
    using b assms(3) len by (intro that [of b]) (simp_all add: build_from_embeddings_def patch_collected [OF assms(3,4)] bank_ok_def)
qed

lemma greedy_indices_in_range: "0 < n \<Longrightarrow> \<forall>i \<in> set (greedy_indices d vs n m). i < n"
proof -
  assume n: "0 < n"
  obtain more where m: "greedy_indices d vs n m = [0] @ more" "length more = m - 1"
    "\<forall>j < m - 1. furthest_choice d vs n ([0] @ take j more) (more ! j)"
    using select_loop_choices [of "[0]" n "seed_distances d vs n" d vs "m - 1"] n
    unfolding greedy_indices_def by (auto simp: seed_cover)
  then show ?thesis using n by (auto simp: in_set_conv_nth furthest_choice_def)
qed

lemma greedy_indices_length: "length (greedy_indices d vs n m) = max 1 m"
proof -
  have "length (select_loop k d vs c md) = length c + k" for k c md
    by (induction k arbitrary: c md) (simp_all add: Let_def)
  then show ?thesis by (simp add: greedy_indices_def)
qed

lemma build_greedy_rows:
  assumes "flat_documented lib" "0 < d" "0 < n" "n * d \<le> length vs" "0 < m" "m \<le> n"
  obtains b out where "build_with_greedy_coreset lib (patch_embedding vs d n) d m = Some (Inr b)"
    "extract_all_vectors lib b = Some out" "bank_ok lib d b" "bk_num b = m"
    "rows_of d out \<subseteq> rows_of d (take (n * d) vs)" "length out = m * d"
proof -
  define ws where "ws = take (n * d) vs"
  have len: "length ws = n * d" using assms(4) by (simp add: ws_def)
  define out where "out = concat (map (row d ws) (greedy_indices d ws n m))"
  note range = greedy_indices_in_range [OF assms(3), of d ws m]
  have ol: "length out = m * d"
    using rows_length [OF len range] greedy_indices_length [of d ws n m] assms(5) by (simp add: out_def max_def)
  obtain b where b: "rebuild lib empty_bank out m d = Some b" "extract_all_vectors lib b = Some out" "bk_dim b = d" "bk_num b = m"
    using rebuild_extract [OF assms(1,2) ol] by metis
  have "rows_of d out \<subseteq> rows_of d ws" unfolding out_def by (rule rows_of_concat [OF assms(2) len range])
  then show thesis
    using b assms(5,6) ol
    by (intro that [of b out])
      (simp_all add: build_with_greedy_coreset_def patch_collected [OF assms(3,4)] bank_ok_def Let_def min_absorb1 out_def ws_def)
qed

lemma prefilter_rows:
  assumes "prefilter_candidates vs d target = Some out" "0 < d"
  shows "rows_of d out \<subseteq> rows_of d vs"
proof (cases "length vs div d \<le> target")
  case True
  then show ?thesis using assms by (simp add: prefilter_candidates_def)
next
  case False
  define n where "n = length vs div d"
  define stride where "stride = max 1 (n div target)"
  define js where "js = takeWhile (\<lambda>i. i * stride < n) [0..<target]"
  have out: "out = concat (map (row d vs) (map (\<lambda>i. i * stride) js))"
    using assms False
    by (auto simp: prefilter_candidates_def Let_def js_def stride_def n_def o_def split: if_splits)
  have range: "\<forall>i \<in> set (map (\<lambda>i. i * stride) js). i < n" unfolding js_def by (auto dest: set_takeWhileD)
  define ws where "ws = take (n * d) vs"
  have len: "length ws = n * d" by (simp add: ws_def n_def min_absorb2 div_times_less_eq_dividend)
  have "map (row d vs) (map (\<lambda>i. i * stride) js) = map (row d ws) (map (\<lambda>i. i * stride) js)"
    using range row_take [of _ n d vs] by (simp add: ws_def)
  then have "out = concat (map (row d ws) (map (\<lambda>i. i * stride) js))" unfolding out by (rule arg_cong)
  then have "rows_of d out \<subseteq> rows_of d ws" using rows_of_concat [OF assms(2) len range] by simp
  then show ?thesis using rows_of_take [OF assms(2), of n vs] by (simp add: ws_def n_def)
qed

lemma reselect_rows:
  assumes "flat_documented lib" "0 < d" "reselect lib merged d size_limit = Some selected"
  shows "rows_of d selected \<subseteq> rows_of d merged"
proof (cases "length merged div d \<le> min size_limit (length merged div d)")
  case True
  then show ?thesis using assms(3) by (simp add: reselect_def Let_def)
next
  case False
  define n where "n = length merged div d"
  have n: "0 < n" "n * d \<le> length merged" "size_limit < n" using False by (auto simp: n_def div_times_less_eq_dividend)
  show ?thesis
  proof (cases "size_limit = 0")
    case True
    define b where "b = build_with_greedy_coreset lib (patch_embedding merged d n) d 0"
    obtain out where "b = map_option Inr (rebuild lib empty_bank out 0 d)"
      by (simp add: b_def build_with_greedy_coreset_def patch_collected [OF n(1,2)])
    then have "b = None \<or> (\<exists>x. b = Some (Inr x) \<and> bk_num x = 0)"
      by (cases "ix_add lib (flat_new lib d) 0 out") (simp_all add: rebuild_def)
    then have "selected = []"
      using assms(3) False True by (auto simp: reselect_def Let_def b_def n_def extract_all_vectors_def)
    then show ?thesis by (simp add: rows_of_def)
  next
    case False
    then have m: "0 < size_limit" "size_limit \<le> n" using n(3) by simp_all
    obtain b out where "build_with_greedy_coreset lib (patch_embedding merged d n) d size_limit = Some (Inr b)"
      "extract_all_vectors lib b = Some out" "rows_of d out \<subseteq> rows_of d (take (n * d) merged)"
      using build_greedy_rows [OF assms(1,2) n(1,2) m] by metis
    moreover have "min size_limit n = size_limit" using m by simp
    ultimately show ?thesis
      using assms(3) n(3) rows_of_take [OF assms(2), of n merged] by (simp add: reselect_def Let_def n_def)
  qed
qed

subsection \<open>The invariant of the state\<close>

definition evolution_ok :: "'ix faiss_lib \<Rightarrow> 'ix evolution \<Rightarrow> bool" where
  "evolution_ok lib s \<longleftrightarrow>
     (\<exists>d > 0. np_dim (active_profile s) = d \<and> np_dim (standby_profile s) = d \<and>
        (\<forall>b. active_bank s = Some b \<longrightarrow> bank_ok lib d b) \<and> (\<forall>b. standby_bank s = Some b \<longrightarrow> bank_ok lib d b)) \<and>
     buffer_ok (eo_buffer s) \<and>
     list_all double_value (displacement_history s) \<and> length (displacement_history s) \<le> 5"

lemma drift_window_ok:
  "list_all double_value h \<Longrightarrow> double_value x \<Longrightarrow> length h \<le> 5 \<Longrightarrow>
   list_all double_value (drift_window x h) \<and> length (drift_window x h) \<le> 5"
  by (cases h) (auto simp: drift_window_def Let_def)

text \<open>The check only moves the window.\<close>

lemma check_drift_window:
  assumes "evolution_ok lib s" "double_value x"
  shows "check_drift x s = s\<lparr>displacement_history := drift_window x (displacement_history s)\<rparr>"
    and "evolution_ok lib (check_drift x s)"
proof -
  have w: "list_all double_value (drift_window x (displacement_history s))" "length (drift_window x (displacement_history s)) \<le> 5"
    using drift_window_ok assms unfolding evolution_ok_def by blast+
  then show "check_drift x s = s\<lparr>displacement_history := drift_window x (displacement_history s)\<rparr>"
    using drift_impossible by (simp add: check_drift_def Let_def)
  then show "evolution_ok lib (check_drift x s)" using assms(1) w by (simp add: evolution_ok_def)
qed

lemma profile_of_dim: "profile_of k d n ds t = Some p \<Longrightarrow> np_dim p = d \<and> np_num p = n"
  by (auto simp: profile_of_def Let_def split: option.splits)

lemma compute_fast_dim: "bank_ok lib d b \<Longrightarrow> compute_fast lib b k m t = Some p \<Longrightarrow> np_dim p = d"
  using profile_of_dim by (auto simp: compute_fast_def bank_ok_def Let_def split: if_splits option.splits)

subsection \<open>One update\<close>

text \<open>What the update thread makes of the two banks: \<open>kept\<close>, \<open>swapped\<close> (the new bank is active, the old
  active one is the standby) or \<open>rejected\<close> (the new bank is the standby).\<close>

definition banks_kept :: "'ix evolution \<Rightarrow> 'ix evolution \<Rightarrow> bool" where
  "banks_kept s s' \<longleftrightarrow>
     active_bank s' = active_bank s \<and> standby_bank s' = standby_bank s \<and> active_profile s' = active_profile s"

definition banks_swapped :: "'ix faiss_lib \<Rightarrow> 'ix feature_bank \<Rightarrow> 'ix evolution \<Rightarrow> 'ix evolution \<Rightarrow> bool" where
  "banks_swapped lib new_bank s s' \<longleftrightarrow>
     active_bank s' = Some new_bank \<and> standby_bank s' = active_bank s \<and>
     (case active_bank s of
        None \<Rightarrow> False
      | Some old_bank \<Rightarrow>
          compute_fast lib old_bank (normality_k (eo_config s)) 100 (tail_ratio_max (eo_config s)) = Some (active_profile s'))"

definition bank_rejected :: "'ix feature_bank \<Rightarrow> 'ix evolution \<Rightarrow> 'ix evolution \<Rightarrow> bool" where
  "bank_rejected new_bank s s' \<longleftrightarrow>
     active_bank s' = active_bank s \<and> standby_bank s' = Some new_bank \<and> active_profile s' = active_profile s"

lemma record_event_keeps [simp]:
  "active_bank (record_event fs s) = active_bank s" "standby_bank (record_event fs s) = standby_bank s"
  "active_profile (record_event fs s) = active_profile s" "standby_profile (record_event fs s) = standby_profile s"
  "eo_buffer (record_event fs s) = eo_buffer s" "displacement_history (record_event fs s) = displacement_history s"
  "eo_config (record_event fs s) = eo_config s" "saturation_count (record_event fs s) = saturation_count s"
  "evolution_paused (record_event fs s) = evolution_paused s"
  by (simp_all add: record_event_def)

lemma evolution_ok_frame:
  "evolution_ok lib s \<Longrightarrow> active_bank s' = active_bank s \<Longrightarrow> standby_bank s' = standby_bank s \<Longrightarrow>
   active_profile s' = active_profile s \<Longrightarrow> standby_profile s' = standby_profile s \<Longrightarrow> buffer_ok (eo_buffer s') \<Longrightarrow>
   displacement_history s' = displacement_history s \<Longrightarrow> evolution_ok lib s'"
  by (simp add: evolution_ok_def)

lemma zero_is_double: "double_value (Fin False 0)"
  by (simp add: double_value_def representable_def)

lemma finish_update_keeps:
  assumes "evolution_ok lib s" "s' = finish_update elapsed n s"
  shows "evolution_ok lib s'" "active_bank s' = active_bank s" "standby_bank s' = standby_bank s"
    "active_profile s' = active_profile s" "standby_profile s' = standby_profile s" "eo_config s' = eo_config s"
    "saturation_count s' = saturation_count s" "evolution_paused s' = evolution_paused s" "eo_buffer s' = eo_buffer s"
proof -
  define t where "t = record_event
          [(''event_type'', FText ''RuntimeUpdate''), (''frames_added'', FInt (word_of_nat n)),
           (''mean_displacement'', FDouble (Fin False 0)), (''update_duration_ms'', FInt elapsed)]
          (s\<lparr>incremental_count := incremental_count s + 1, stats_frames := n, stats_updates := stats_updates s + 1\<rparr>)"
  have t: "evolution_ok lib t"
    by (rule evolution_ok_frame [OF assms(1)]) (use assms(1) in \<open>simp_all add: t_def evolution_ok_def\<close>)
  have s': "s' = check_drift (Fin False 0) t" using assms(2) by (simp add: finish_update_def t_def)
  note w = check_drift_window [OF t zero_is_double]
  show "evolution_ok lib s'" unfolding s' by (rule w(2))
  show "active_bank s' = active_bank s" "standby_bank s' = standby_bank s"
    "active_profile s' = active_profile s" "standby_profile s' = standby_profile s" "eo_config s' = eo_config s"
    "saturation_count s' = saturation_count s" "evolution_paused s' = evolution_paused s" "eo_buffer s' = eo_buffer s"
    unfolding s' w(1) by (simp_all add: t_def)
qed

lemma swap_validate:
  assumes "evolution_ok lib s" "swap_in lib new_bank s = Some s1" "validate lib s1 = Some s2"
    and "bank_ok lib (np_dim (active_profile s)) new_bank"
  shows "evolution_ok lib s2 \<and> eo_config s2 = eo_config s \<and> eo_buffer s2 = eo_buffer s \<and>
    saturation_count s2 = saturation_count s \<and> evolution_paused s2 = evolution_paused s \<and>
    (banks_swapped lib new_bank s s2 \<or> bank_rejected new_bank s s2)"
proof -
  obtain old p where old: "active_bank s = Some old"
    and p: "compute_fast lib old (normality_k (eo_config s)) 100 (tail_ratio_max (eo_config s)) = Some p"
    and s1: "s1 = s\<lparr>active_bank := Some new_bank, standby_bank := Some old, standby_profile := active_profile s, active_profile := p\<rparr>"
    using assms(2) by (auto simp: swap_in_def split: option.splits)
  have ob: "bank_ok lib (np_dim (active_profile s)) old" using assms(1) old by (auto simp: evolution_ok_def)
  have d: "np_dim p = np_dim (active_profile s)" by (rule compute_fast_dim [OF ob p])
  have "s2 = s1 \<or> s2 = s1\<lparr>active_bank := Some old, standby_bank := Some new_bank, active_profile := standby_profile s1\<rparr>"
    using assms(3) by (auto simp: validate_def s1 Let_def split: if_splits option.splits)
  then show ?thesis
  proof
    assume s2: "s2 = s1"
    have "evolution_ok lib s2" using assms(1,4) ob d by (auto simp: evolution_ok_def s2 s1)
    then show ?thesis using old p by (simp add: s2 s1 banks_swapped_def)
  next
    assume s2: "s2 = s1\<lparr>active_bank := Some old, standby_bank := Some new_bank, active_profile := standby_profile s1\<rparr>"
    have "evolution_ok lib s2" using assms(1,4) ob d by (auto simp: evolution_ok_def s2 s1)
    then show ?thesis using old by (simp add: s2 s1 bank_rejected_def)
  qed
qed

lemma update_pass_outcome:
  assumes "flat_documented lib" "evolution_ok lib s" "update_pass lib elapsed s = Some s'"
  shows "evolution_ok lib s' \<and> eo_config s' = eo_config s \<and> bu_candidates (eo_buffer s') = [] \<and>
    bu_config (eo_buffer s') = bu_config (eo_buffer s) \<and>
    saturation_count s' = saturation_count s \<and> evolution_paused s' = evolution_paused s \<and>
    (banks_kept s s' \<or>
     (\<exists>new_bank standby fresh. standby_bank s = Some standby \<and> flatten (bu_candidates (eo_buffer s)) = Some fresh \<and>
        bank_rows lib new_bank \<subseteq> bank_rows lib standby \<union> rows_of (np_dim (active_profile s)) fresh \<and>
        (banks_swapped lib new_bank s s' \<or> bank_rejected new_bank s s')))"
proof -
  define cs where "cs = bu_candidates (eo_buffer s)"
  define t where "t = s\<lparr>notify_flag := False, eo_buffer := (eo_buffer s)\<lparr>bu_candidates := [], total_patches := 0\<rparr>\<rparr>"
  define d where "d = np_dim (active_profile s)"
  have t: "evolution_ok lib t" using assms(2) by (simp add: evolution_ok_def t_def buffer_ok_def)
  have d: "0 < d" using assms(2) by (auto simp: evolution_ok_def d_def)
  show ?thesis
  proof (cases "s' = t")
    case True
    then show ?thesis using t by (simp add: banks_kept_def t_def)
  next
    case False
    obtain fresh prefiltered standby existing selected new_bank s1 s2
      where fresh: "flatten cs = Some fresh" and pre: "prefilter_candidates fresh d (greedy_prefilter (eo_config s)) = Some prefiltered"
        and standby: "standby_bank s = Some standby" and ex: "extract_all_vectors lib standby = Some existing"
        and sel: "reselect lib (existing @ prefiltered) d (target_size (eo_config s)) = Some selected"
        and new: "build_from_embeddings lib (patch_embedding selected d (length selected div d)) d (length selected div d) = Some (Inr new_bank)"
        and s1: "swap_in lib new_bank t = Some s1" and s2: "validate lib s1 = Some s2" and s': "s' = finish_update elapsed (length cs) s2"
      using assms(3) False unfolding update_pass_def drain_all_def prod.case Let_def
      by (auto simp: t_def [symmetric] cs_def [symmetric] bind_eq_Some_conv d_def split: if_splits option.splits sum.splits)
         (auto simp: t_def cs_def d_def)
    define n where "n = length selected div d"
    have n: "0 < n"
    proof (rule ccontr)
      assume "\<not> 0 < n"
      then have "collected ''BuildFromEmbeddings'' '': no patch vectors extracted from embeddings'' (patch_embedding selected d 0) d =
          Some (bank_error (''BuildFromEmbeddings'' @ '': no patch vectors extracted from embeddings''))"
        by (simp add: collected_def patch_embedding_def)
      then show False using new \<open>\<not> 0 < n\<close> by (simp add: build_from_embeddings_def n_def bank_error_def)
    qed
    obtain nb where nb: "new_bank = nb" "extract_all_vectors lib nb = Some (take (n * d) selected)" "bank_ok lib d nb"
      using build_all_rows [OF assms(1) d n, of selected] new by (metis Inr_inject option.inject n_def div_times_less_eq_dividend)
    have sb: "bank_ok lib d standby" using assms(2) standby by (auto simp: evolution_ok_def d_def)
    then have exl: "length existing = bk_num standby * d" "bk_dim standby = d" using ex by (auto simp: bank_ok_def)
    have "bank_rows lib new_bank = rows_of d selected"
      using nb rows_of_take [OF d, of n selected] by (simp add: bank_rows_def bank_ok_def n_def)
    also have "\<dots> \<subseteq> rows_of d (existing @ prefiltered)" by (rule reselect_rows [OF assms(1) d sel])
    also have "\<dots> \<subseteq> rows_of d existing \<union> rows_of d fresh"
      using rows_of_append [OF d exl(1)] prefilter_rows [OF pre d] by auto
    finally have rows: "bank_rows lib new_bank \<subseteq> bank_rows lib standby \<union> rows_of d fresh"
      by (simp add: bank_rows_def ex exl)
    have "bank_ok lib (np_dim (active_profile t)) new_bank" using nb by (simp add: t_def d_def)
    note sv = swap_validate [OF t s1 s2 this]
    note fin = finish_update_keeps [OF conjunct1 [OF sv] s']
    have "banks_swapped lib new_bank s s' \<or> bank_rejected new_bank s s'"
      using sv fin by (auto simp: banks_swapped_def bank_rejected_def t_def split: option.splits)
    then show ?thesis
      using fin sv rows standby fresh by (auto simp: t_def cs_def d_def)
  qed
qed

subsection \<open>Offers and rebuilds\<close>

lemma offer_candidate_keeps:
  "active_bank (offer_candidate c s) = active_bank s" "standby_bank (offer_candidate c s) = standby_bank s"
  "active_profile (offer_candidate c s) = active_profile s" "standby_profile (offer_candidate c s) = standby_profile s"
  "eo_config (offer_candidate c s) = eo_config s" "displacement_history (offer_candidate c s) = displacement_history s"
  "saturation_count (offer_candidate c s) = saturation_count s" "evolution_paused (offer_candidate c s) = evolution_paused s"
  "eo_buffer (offer_candidate c s) = snd (append_candidate c (eo_buffer s))"
  by (simp_all add: offer_candidate_def Let_def split: prod.split)

definition mature :: "'ix evolution \<Rightarrow> bool" where
  "mature s \<longleftrightarrow> saturation_count s \<noteq> 0 \<or> evolution_paused s"

lemma novel_not_saturated: "d_lt r ct \<Longrightarrow> d_le ct st \<Longrightarrow> \<not> d_ge r st"
  by (cases r; cases ct; cases st) (auto simp: d_le_def d_ge_def split: if_splits)

lemma is_novel_ratio: "is_novel (check_novelty ds p ct) \<Longrightarrow> d_lt (coverage_ratio (check_novelty ds p ct)) ct"
  by (auto simp: check_novelty_def Let_def split: if_splits)

lemma offer_outcome:
  assumes "evolution_ok lib s" "assess_and_offer f s = Some s'"
  shows "evolution_ok lib s' \<and> eo_config s' = eo_config s \<and> banks_kept s s' \<and>
    (d_le (coverage_threshold (eo_config s)) (coverage_saturation_threshold (eo_config s)) \<longrightarrow> \<not> mature s \<longrightarrow> \<not> mature s')"
proof -
  define cfg where "cfg = eo_config s"
  define novelty where "novelty = check_novelty (take (fr_count f) (fr_distances f)) (active_profile s) (coverage_threshold cfg)"
  have "s' = s \<or> (\<exists>c. is_novel novelty \<and>
      (d_ge (coverage_ratio novelty) (coverage_saturation_threshold cfg) \<and>
        (s' = s\<lparr>saturation_count := saturation_count s + 1, evolution_paused := True\<rparr> \<or>
         s' = offer_candidate c (s\<lparr>saturation_count := saturation_count s + 1\<rparr>)) \<or>
       s' = offer_candidate c (s\<lparr>saturation_count := 0, evolution_paused := False\<rparr>)))"
    using assms(2) unfolding assess_and_offer_def cfg_def [symmetric] Let_def novelty_def [symmetric]
    by (auto split: if_splits option.splits)
  then show ?thesis
  proof (elim disjE exE conjE)
    assume "s' = s"
    then show ?thesis using assms(1) by (simp add: banks_kept_def)
  next
    fix c
    assume n: "is_novel novelty" "d_ge (coverage_ratio novelty) (coverage_saturation_threshold cfg)"
      and s': "s' = s\<lparr>saturation_count := saturation_count s + 1, evolution_paused := True\<rparr>"
    have "\<not> d_le (coverage_threshold cfg) (coverage_saturation_threshold cfg)"
      using novel_not_saturated is_novel_ratio n unfolding novelty_def by blast
    moreover have "evolution_ok lib s'" by (rule evolution_ok_frame [OF assms(1)]) (use assms(1) in \<open>simp_all add: s' evolution_ok_def\<close>)
    ultimately show ?thesis by (simp add: s' banks_kept_def cfg_def)
  next
    fix c
    assume n: "is_novel novelty" "d_ge (coverage_ratio novelty) (coverage_saturation_threshold cfg)"
      and s': "s' = offer_candidate c (s\<lparr>saturation_count := saturation_count s + 1\<rparr>)"
    have "\<not> d_le (coverage_threshold cfg) (coverage_saturation_threshold cfg)"
      using novel_not_saturated is_novel_ratio n unfolding novelty_def by blast
    moreover have "evolution_ok lib s'"
      by (rule evolution_ok_frame [OF assms(1)]) (use assms(1) append_ok in \<open>simp_all add: s' offer_candidate_keeps evolution_ok_def\<close>)
    ultimately show ?thesis by (simp add: s' banks_kept_def cfg_def offer_candidate_keeps)
  next
    fix c
    assume s': "s' = offer_candidate c (s\<lparr>saturation_count := 0, evolution_paused := False\<rparr>)"
    have "evolution_ok lib s'"
      by (rule evolution_ok_frame [OF assms(1)]) (use assms(1) append_ok in \<open>simp_all add: s' offer_candidate_keeps evolution_ok_def\<close>)
    then show ?thesis by (simp add: s' banks_kept_def offer_candidate_keeps mature_def)
  qed
qed

text \<open>A displacement is a value of the format.\<close>

lemma round32_double_value: "0 \<le> q \<Longrightarrow> double_value (round_fmt binary32 s q)"
proof (cases "q = 0")
  case True
  then show ?thesis by (simp add: double_value_def representable_def)
next
  case False
  assume "0 \<le> q"
  then have q: "0 < q" using False by simp
  define u where "u = max (ilog2 q - 23) (-149)"
  define n where "n = round_even (q / pow2 u)"
  define r where "r = of_int n * pow2 u"
  have e: "round_fmt binary32 s q = (if pow2 128 \<le> r then Inf s else Fin s r)"
    using False by (simp add: round_fmt_def binary32_def u_def n_def r_def Let_def)
  have n0: "0 \<le> n" unfolding n_def using q by (intro round_even_ge) (simp add: less_imp_le)
  have "q < pow2 (ilog2 q + 1)" by (rule ilog2_less [OF q])
  also have "\<dots> \<le> pow2 (24 + u)" by (intro pow2_mono) (simp add: u_def)
  finally have "q / pow2 u \<le> of_int (2 ^ 24)" by (simp add: pow2_add pos_divide_le_eq pow2_def [of 24])
  then have n1: "n \<le> 2 ^ 24" unfolding n_def by (rule round_even_le)
  have lt: "pow2 128 < pow2 1024" by (simp add: pow2_less_iff)
  have "double_value (Fin s r)" if "r < pow2 128"
  proof (cases "n = 0")
    case True
    then show ?thesis by (simp add: double_value_def representable_def r_def)
  next
    case False
    then have pos: "0 < r" using n0 by (simp add: r_def)
    have "round_fmt binary64 False r = Fin False r"
      unfolding r_def by (rule round_fmt_exact) (use False n0 n1 that lt in \<open>simp_all add: binary64_def u_def [symmetric] flip: r_def\<close>, simp add: u_def)
    then have "rounded r = r" using pos by (simp add: round_binary64 split: if_splits)
    then show ?thesis using pos that lt by (simp add: double_value_def representable_def)
  qed
  then show ?thesis unfolding e by (simp add: double_value_def [of "Inf s"])
qed

lemma round_fmt_wf: "0 \<le> q \<Longrightarrow> d_wf (round_fmt f s q)"
proof -
  assume q: "0 \<le> q"
  have "0 \<le> round_even (q / pow2 u)" for u using q by (intro round_even_ge) (simp add: less_imp_le)
  then have "0 \<le> (of_int (round_even (q / pow2 u)) :: rat)" for u by simp
  then have "0 \<le> of_int (round_even (q / pow2 u)) * pow2 u" for u by (intro mult_nonneg_nonneg less_imp_le [OF pow2_pos])
  then show ?thesis by (simp add: round_fmt_def d_wf_def Let_def)
qed

lemma d_add_wf: "d_wf (d_add x y)"
  by (cases x; cases y) (simp_all add: Let_def round_rat_def round_fmt_wf, simp_all add: d_wf_def)

lemma displacement_value: "double_value (displacement p q)"
proof -
  have "double_value (to_float x)" if "d_wf x" for x
    using that round32_double_value by (cases x) (simp_all add: d_wf_def, simp_all add: double_value_def)
  then have "double_value (f_sub x y)" for x y by (simp add: f_sub_def d_sub_def d_add_wf)
  moreover have "double_value x \<Longrightarrow> double_value (d_abs x)" for x by (cases x) (simp_all add: double_value_def)
  ultimately show ?thesis by (simp add: displacement_def zero_is_double)
qed

lemma finish_rebuild_ok:
  assumes "evolution_ok lib s" "bank_ok lib (np_dim (active_profile s)) new_bank" "np_dim p = np_dim (active_profile s)"
  shows "evolution_ok lib (finish_rebuild path n new_bank p s)"
    and "\<not> mature (finish_rebuild path n new_bank p s)" and "eo_config (finish_rebuild path n new_bank p s) = eo_config s"
proof -
  define md where "md = displacement p (active_profile s)"
  define t where "t = record_event
      [(''event_type'', FText ''FullRebuild''), (''mean_displacement'', FDouble md), (''frames_added'', FInt (word_of_nat n))]
      (s\<lparr>standby_bank := active_bank s, active_bank := Some new_bank, standby_profile := active_profile s,
         active_profile := p, save_path := path, stats_updates := stats_updates s + 1\<rparr>)"
  have t: "evolution_ok lib t" "eo_config t = eo_config s"
    using assms unfolding evolution_ok_def t_def by auto
  have e: "finish_rebuild path n new_bank p s = (check_drift md t)\<lparr>incremental_count := 0, saturation_count := 0, evolution_paused := False\<rparr>"
    by (simp add: finish_rebuild_def Let_def t_def md_def)
  note w = check_drift_window [OF t(1) displacement_value [of p "active_profile s", folded md_def]]
  show "evolution_ok lib (finish_rebuild path n new_bank p s)"
    unfolding e by (rule evolution_ok_frame [OF w(2)]) (use w(2) in \<open>simp_all add: evolution_ok_def\<close>)
  show "\<not> mature (finish_rebuild path n new_bank p s)" unfolding e by (simp add: mature_def)
  show "eo_config (finish_rebuild path n new_bank p s) = eo_config s" unfolding e w(1) by (simp add: t)
qed

lemma full_rebuild_outcome:
  assumes "flat_documented lib" "evolution_ok lib s" "full_rebuild cv lib fs now path s = Some (r, s', files)"
  shows "evolution_ok lib s' \<and> eo_config s' = eo_config s \<and> (\<not> mature s \<longrightarrow> \<not> mature s')"
proof -
  define t where "t = s\<lparr>eo_buffer := (eo_buffer s)\<lparr>bu_candidates := [], total_patches := 0\<rparr>\<rparr>"
  define d where "d = np_dim (active_profile s)"
  have t: "evolution_ok lib t" "mature t = mature s" using assms(2) by (simp_all add: evolution_ok_def t_def buffer_ok_def mature_def)
  have d: "0 < d" using assms(2) by (auto simp: evolution_ok_def d_def)
  have tsel: "eo_config t = eo_config s" "active_profile t = active_profile s" "standby_bank t = standby_bank s"
    by (simp_all add: t_def)
  show ?thesis
  proof (cases "s' = t")
    case True
    then show ?thesis using t by (simp add: t_def)
  next
    case False
    obtain merged n k new_bank p f where
      new: "build_with_greedy_coreset lib (patch_embedding merged d n) d (min (target_size (eo_config s)) n) = Some (Inr new_bank)"
      and n: "n = length merged div d"
      and p: "rebuilt_profile lib (eo_config s) new_bank = Some p"
      and save: "save_to_file lib new_bank path (bank_opens fs) (bank_written fs) = Some (Inr (), f)"
      and s': "s' = finish_rebuild path k new_bank p t"
      using assms(3) False unfolding full_rebuild_def drain_all_def prod.case Let_def t_def [symmetric] tsel d_def [symmetric]
      by (auto simp del: length_append split: if_splits option.splits sum.splits prod.splits)
    have held: "\<not> holds_nothing new_bank" using save by (auto simp: save_to_file_def bank_error_def split: if_splits)
    have n0: "0 < n"
    proof (rule ccontr)
      assume "\<not> 0 < n"
      then show False
        using new by (simp add: build_with_greedy_coreset_def collected_def patch_embedding_def bank_error_def)
    qed
    have nl: "n * d \<le> length merged" by (simp add: n div_times_less_eq_dividend)
    define m where "m = min (target_size (eo_config s)) n"
    have m0: "0 < m"
    proof (rule ccontr)
      assume "\<not> 0 < m"
      then have "bk_num new_bank = 0"
        using new by (auto simp: build_with_greedy_coreset_def patch_collected [OF n0 nl] Let_def rebuild_def m_def)
      then show False using held by (simp add: holds_nothing_def)
    qed
    have mn: "m \<le> n" by (simp add: m_def)
    have ok: "bank_ok lib d new_bank"
      using build_greedy_rows [OF assms(1) d n0 nl m0 mn] new by (metis Inr_inject option.inject m_def)
    have "np_dim p = d"
      using p compute_fast_dim [OF ok] by (auto simp: rebuilt_profile_def bind_eq_Some_conv)
    then show ?thesis
      using finish_rebuild_ok [OF t(1), of new_bank p path k] ok s' by (simp add: t_def d_def)
  qed
qed

subsection \<open>Runs\<close>

datatype evolution_op =
    Offer frame
  | Update "64 word"
  | Rebuild file_system nat string
  | Start
  | Stop file_system nat
  | Bind

primrec evolution_step ::
  "'z evolution_conv_scheme \<Rightarrow> 'ix faiss_lib \<Rightarrow> evolution_op \<Rightarrow> 'ix evolution \<Rightarrow> 'ix evolution option" where
  "evolution_step cv lib (Offer f) s = assess_and_offer f s"
| "evolution_step cv lib (Update elapsed) s = update_pass lib elapsed s"
| "evolution_step cv lib (Rebuild fs now path) s = map_option (\<lambda>(r, s', files). s') (full_rebuild cv lib fs now path s)"
| "evolution_step cv lib Start s = Some (start_evolution s)"
| "evolution_step cv lib (Stop fs now) s = map_option fst (stop_evolution cv lib fs now s)"
| "evolution_step cv lib Bind s = Some (bind_store s)"

primrec evolution_run ::
  "'z evolution_conv_scheme \<Rightarrow> 'ix faiss_lib \<Rightarrow> evolution_op list \<Rightarrow> 'ix evolution \<Rightarrow> 'ix evolution option" where
  "evolution_run cv lib [] s = Some s"
| "evolution_run cv lib (op # ops) s = Option.bind (evolution_step cv lib op s) (evolution_run cv lib ops)"

text \<open>The bank and the profile the application passes belong together.\<close>

definition profile_fits :: "'ix faiss_lib \<Rightarrow> 'ix feature_bank option \<Rightarrow> normality_profile \<Rightarrow> bool" where
  "profile_fits lib bank p \<longleftrightarrow> 0 < np_dim p \<and> (\<forall>b. bank = Some b \<longrightarrow> bank_ok lib (np_dim p) b)"

lemma new_evolution_ok:
  assumes "flat_documented lib" "profile_fits lib bank p" "new_evolution lib cfg bank p = Some s"
  shows "evolution_ok lib s \<and> \<not> mature s \<and> eo_config s = cfg"
proof -
  define t where "t = \<lparr>eo_config = cfg, active_bank = bank, standby_bank = None, active_profile = p, standby_profile = p,
        eo_buffer = \<lparr>bu_config = ec_buffer cfg, bu_candidates = [], total_patches = 0\<rparr>,
        displacement_history = [], saturation_count = 0, incremental_count = 0, evolution_paused = False,
        notify_flag = False, running = False, save_path = '''', stats_frames = 0, stats_updates = 0, store_bound = False, recorded = []\<rparr>"
  have t: "evolution_ok lib t" using assms(2) by (simp add: evolution_ok_def t_def profile_fits_def buffer_ok_def)
  show ?thesis
  proof (cases "s = t")
    case True
    then show ?thesis using t by (simp add: t_def mature_def)
  next
    case False
    obtain b vs nb where b: "bank = Some b" "extract_all_vectors lib b = Some vs"
      "build_from_embeddings lib (patch_embedding vs (bk_dim b) (bk_num b)) (bk_dim b) (bk_num b) = Some (Inr nb)"
      "s = t\<lparr>standby_bank := Some nb\<rparr>"
      using assms(3) False unfolding new_evolution_def initialize_standby_def t_def [symmetric]
      by (auto simp: t_def split: if_splits option.splits sum.splits)
    have ok: "bank_ok lib (np_dim p) b" "0 < np_dim p" using assms(2) b(1) by (auto simp: profile_fits_def)
    then have "length vs = bk_num b * np_dim p" "bk_dim b = np_dim p" "0 < bk_num b" using b(2) by (auto simp: bank_ok_def)
    then have "bank_ok lib (np_dim p) nb"
      using build_all_rows [OF assms(1) ok(2), of "bk_num b" vs] b(3) by (metis Inr_inject option.inject order_refl)
    then show ?thesis using t b(4) by (auto simp: evolution_ok_def t_def mature_def)
  qed
qed

lemma evolution_step_ok:
  assumes "flat_documented lib" "evolution_ok lib s" "evolution_step cv lib op s = Some s'"
  shows "evolution_ok lib s' \<and> eo_config s' = eo_config s \<and>
    (d_le (coverage_threshold (eo_config s)) (coverage_saturation_threshold (eo_config s)) \<longrightarrow> \<not> mature s \<longrightarrow> \<not> mature s')"
proof (cases op)
  case (Offer f)
  then show ?thesis using offer_outcome [OF assms(2)] assms(3) by simp
next
  case (Update e)
  then show ?thesis using update_pass_outcome [OF assms(1,2)] assms(3) by (simp add: mature_def)
next
  case (Rebuild fs now path)
  then obtain r files where "full_rebuild cv lib fs now path s = Some (r, s', files)" using assms(3) by auto
  from full_rebuild_outcome [OF assms(1,2) this] show ?thesis by simp
next
  case Start
  then have "s' = s \<or> s' = s\<lparr>running := True\<rparr>" using assms(3) by (auto simp: start_evolution_def)
  then show ?thesis using assms(2) by (elim disjE) (simp_all add: mature_def evolution_ok_def)
next
  case (Stop fs now)
  define t where "t = (if running s then s\<lparr>running := False, notify_flag := True\<rparr> else s)"
  have t: "evolution_ok lib t" "eo_config t = eo_config s" "mature t = mature s"
    using assms(2) by (simp_all add: t_def evolution_ok_def mature_def)
  show ?thesis
  proof (cases "save_on_stop (eo_config t) \<and> save_path t \<noteq> ''''")
    case True
    then obtain r files where "full_rebuild cv lib fs now (save_path t) t = Some (r, s', files)"
      using assms(3) Stop by (auto simp: stop_evolution_def t_def [symmetric] Let_def)
    from full_rebuild_outcome [OF assms(1) t(1) this] show ?thesis using t by simp
  next
    case False
    then have "s' = t" using assms(3) Stop by (auto simp: stop_evolution_def t_def [symmetric] Let_def)
    then show ?thesis using t by simp
  qed
next
  case Bind
  then show ?thesis using assms(2,3) by (auto simp: bind_store_def mature_def evolution_ok_def)
qed

lemma evolution_run_ok:
  assumes "flat_documented lib" "evolution_ok lib s" "evolution_run cv lib ops s = Some s'"
  shows "evolution_ok lib s' \<and> eo_config s' = eo_config s \<and>
    (d_le (coverage_threshold (eo_config s)) (coverage_saturation_threshold (eo_config s)) \<longrightarrow> \<not> mature s \<longrightarrow> \<not> mature s')"
  using assms(2,3)
proof (induction ops arbitrary: s)
  case (Cons op ops)
  obtain t where t: "evolution_step cv lib op s = Some t" "evolution_run cv lib ops t = Some s'"
    using Cons.prems(2) by (auto simp: bind_eq_Some_conv)
  have "evolution_ok lib t \<and> eo_config t = eo_config s \<and>
    (d_le (coverage_threshold (eo_config s)) (coverage_saturation_threshold (eo_config s)) \<longrightarrow> \<not> mature s \<longrightarrow> \<not> mature t)"
    by (rule evolution_step_ok [OF assms(1) Cons.prems(1) t(1)])
  then show ?case using Cons.IH [OF _ t(2)] by simp
qed simp

subsection \<open>Properties\<close>

text \<open>C22 Concept drift is never reported. In every state the component can reach, whatever displacement
  comes next, the drift test is false and the check only moves its window: it never resets the
  counters, never resumes a paused evolution and never forces a rebuild. A window of five values
  cannot hold three that exceed its mean by two standard deviations, and no rounding, overflow or
  NaN of the double-precision computation makes it seem so.\<close>

theorem drift_never_reported:
  assumes "flat_documented lib" "profile_fits lib bank p" "new_evolution lib cfg bank p = Some s0"
    and "evolution_run cv lib ops s0 = Some s" "double_value x"
  shows "\<not> drift_detected (drift_window x (displacement_history s)) \<and>
    check_drift x s = s\<lparr>displacement_history := drift_window x (displacement_history s)\<rparr>"
proof -
  have ok: "evolution_ok lib s"
    using evolution_run_ok [OF assms(1) _ assms(4)] new_evolution_ok [OF assms(1-3)] by blast
  then have "list_all double_value (drift_window x (displacement_history s)) \<and> length (drift_window x (displacement_history s)) \<le> 5"
    using drift_window_ok assms(5) unfolding evolution_ok_def by blast
  then show ?thesis using drift_impossible check_drift_window(1) [OF ok assms(5)] by blast
qed

text \<open>C23 The coverage saturation is unreachable when the coverage threshold does not exceed the saturation
  threshold, as in the defaults (0.60 and 0.95): a frame is only counted as saturated after it
  was found novel, that is, covered below the lower of the two. The evolution is never paused.\<close>

theorem saturation_never_pauses:
  assumes "flat_documented lib" "profile_fits lib bank p" "new_evolution lib cfg bank p = Some s0"
    and "evolution_run cv lib ops s0 = Some s" "d_le (coverage_threshold cfg) (coverage_saturation_threshold cfg)"
  shows "saturation_count s = 0 \<and> \<not> evolution_paused s"
proof -
  have n: "evolution_ok lib s0" "\<not> mature s0" "eo_config s0 = cfg" using new_evolution_ok [OF assms(1-3)] by simp_all
  have "\<not> mature s" using evolution_run_ok [OF assms(1) n(1) assms(4)] n assms(5) by simp
  then show ?thesis by (simp add: mature_def)
qed

lemma offers_keep:
  "evolution_ok lib s \<Longrightarrow> evolution_run cv lib (map Offer fs) s = Some s' \<Longrightarrow>
   evolution_ok lib s' \<and> banks_kept s s' \<and> eo_config s' = eo_config s"
proof (induction fs arbitrary: s)
  case (Cons f fs)
  obtain t where t: "assess_and_offer f s = Some t" "evolution_run cv lib (map Offer fs) t = Some s'"
    using Cons.prems(2) by (auto simp: bind_eq_Some_conv)
  then show ?case using offer_outcome [OF Cons.prems(1) t(1)] Cons.IH [of t] by (auto simp: banks_kept_def)
qed (simp add: banks_kept_def)

text \<open>Frames offered between two updates leave the banks alone, so that they satisfy the hypothesis
  of the next property.\<close>

text \<open>C24 The two banks evolve in two separate lines. An update merges the candidates into the standby
  bank, swaps the result in and keeps the bank swapped out, which has not seen these candidates, as the
  next standby. So the bank after the next update consists of vectors of the bank before the first
  one and of the second batch of candidates: what the first update had learned is gone. And the profile
  in force after an update is the one of the bank swapped out, not of the bank that is searched.\<close>

theorem updates_alternate:
  assumes "flat_documented lib" "evolution_ok lib s"
    and "update_pass lib e1 s = Some s1" "active_bank s1 \<noteq> active_bank s"
    and "evolution_ok lib s2" "banks_kept s1 s2"
    and "update_pass lib e2 s2 = Some s3" "active_bank s3 \<noteq> active_bank s2"
  shows "\<exists>b b3 fresh. active_bank s = Some b \<and> active_bank s3 = Some b3 \<and>
    flatten (bu_candidates (eo_buffer s2)) = Some fresh \<and>
    bank_rows lib b3 \<subseteq> bank_rows lib b \<union> rows_of (np_dim (active_profile s2)) fresh \<and>
    compute_fast lib b (normality_k (eo_config s)) 100 (tail_ratio_max (eo_config s)) = Some (active_profile s1)"
proof -
  note o1 = update_pass_outcome [OF assms(1-3)]
  then obtain n1 where n1: "banks_swapped lib n1 s s1"
    using assms(4) by (auto simp: banks_kept_def bank_rejected_def)
  obtain b where b: "active_bank s = Some b" "standby_bank s1 = Some b"
    "compute_fast lib b (normality_k (eo_config s)) 100 (tail_ratio_max (eo_config s)) = Some (active_profile s1)"
    using n1 by (auto simp: banks_swapped_def split: option.splits)
  note o2 = update_pass_outcome [OF assms(1,5,7)]
  then obtain n2 standby fresh where n2: "standby_bank s2 = Some standby" "flatten (bu_candidates (eo_buffer s2)) = Some fresh"
    "bank_rows lib n2 \<subseteq> bank_rows lib standby \<union> rows_of (np_dim (active_profile s2)) fresh" "banks_swapped lib n2 s2 s3"
    using assms(8) by (auto simp: banks_kept_def bank_rejected_def)
  have "standby = b" using b(2) assms(6) n2(1) by (simp add: banks_kept_def)
  then show ?thesis using b n2 by (auto simp: banks_swapped_def)
qed

text \<open>The application looks the section up and hands the section itself to \<open>FromYaml\<close>, which looks
  for the section again, inside it.\<close>

definition app_evolution_config :: "'z evolution_conv_scheme \<Rightarrow> yaml \<Rightarrow> evolution_config option" where
  "app_evolution_config cv stage_config =
     (case y_index stage_config ''self_evolution'' of
        Inr (Some se_node) \<Rightarrow>
          (case config_from_yaml cv se_node of
             Inr cfg \<Rightarrow> (if ec_enabled cfg then Some cfg else None)
           | Inl err \<Rightarrow> None)
      | _ \<Rightarrow> None)"

text \<open>The application never creates a \<open>CoresetEvolution\<close>: whatever the \<open>self_evolution\<close> section of
  the stage says, with \<open>enabled: true\<close> too, the configuration read is the disabled default, unless the section
  holds a section of the same name once more.\<close>

theorem app_never_enables:
  assumes "y_index stage_config ''self_evolution'' = Inr (Some se_node)" "y_index se_node ''self_evolution'' = Inr None"
  shows "config_from_yaml cv se_node = Inr default_config \<and> app_evolution_config cv stage_config = None"
  using assms by (simp add: app_evolution_config_def config_from_yaml_def y_bind_def default_config_def)

text \<open>With \<open>k\<close> neighbours per patch, the assessment of a frame reads one of \<open>k\<close> patches: the
  distances form a matrix of \<open>count\<close> rows and \<open>k\<close> columns, and the first \<open>count\<close> entries are
  those of the first \<open>count / k\<close> patches, whatever the distances of the others are.\<close>

theorem assessment_reads_first_patches:
  assumes "0 < fr_k f" "length (fr_distances f) = fr_count f * fr_k f" "length ds = fr_count f * fr_k f"
    and "\<forall>i. i * fr_k f < fr_count f \<longrightarrow> row (fr_k f) ds i = row (fr_k f) (fr_distances f) i"
  shows "assess_and_offer (f\<lparr>fr_distances := ds\<rparr>) s = assess_and_offer f s"
proof -
  define k n where "k = fr_k f" and "n = fr_count f"
  have le: "n \<le> n * k" using assms(1) by (simp add: k_def)
  have "take n ds = take n (fr_distances f)"
  proof (rule nth_equalityI)
    fix j assume "j < length (take n ds)"
    then have j: "j < n" by simp
    have d: "j div k * k \<le> j" "j mod k < k" using assms(1) by (simp_all add: k_def div_times_less_eq_dividend)
    then have "j div k * k < n" using j by linarith
    then have r: "row k ds (j div k) = row k (fr_distances f) (j div k)" using assms(4) by (simp add: k_def n_def)
    have at: "row k xs (j div k) ! (j mod k) = xs ! j" if "length xs = n * k" for xs :: "dbl list"
    proof -
      have "j div k * k + j mod k = j" by simp
      moreover have "j div k * k \<le> length xs" using d(1) j le that by linarith
      ultimately show ?thesis using d(2) by (simp add: row_def)
    qed
    show "take n ds ! j = take n (fr_distances f) ! j"
      using at [of ds] at [of "fr_distances f"] r assms(2,3) j by (simp add: k_def n_def)
  qed (use assms(2,3) le in \<open>simp add: k_def n_def\<close>)
  then show ?thesis using assms(2,3) by (cases "fr_data f") (simp_all add: assess_and_offer_def n_def Let_def cong: option.case_cong if_cong)
qed

subsection \<open>Examples\<close>

definition one_row :: "dbl \<Rightarrow> (nat option \<times> nat \<times> dbl list) feature_bank" where
  "one_row x = \<lparr>bk_index = Some (None, 1, [x]), bk_dim = 1, bk_num = 1, bk_nprobe = 4\<rparr>"

definition two_rows :: "dbl \<Rightarrow> dbl \<Rightarrow> (nat option \<times> nat \<times> dbl list) feature_bank" where
  "two_rows x y = \<lparr>bk_index = Some (None, 1, [x, y]), bk_dim = 1, bk_num = 2, bk_nprobe = 4\<rparr>"

lemma small_banks:
  "extract_all_vectors tiny_faiss (one_row x) = Some [x]" "bank_ok tiny_faiss 1 (one_row x)"
  "extract_all_vectors tiny_faiss (two_rows x y) = Some [x, y]" "bank_ok tiny_faiss 1 (two_rows x y)"
  by (simp_all add: extract_all_vectors_def one_row_def two_rows_def tiny_faiss_def row_def upt_rec bank_ok_def)

lemma unit_product:
  assumes "unit_float x" "unit_float y"
  shows "unit_float (f_mul x y)"
proof -
  obtain p q where x: "x = Fin False p" "0 \<le> p" "p \<le> 1" "y = Fin False q" "0 \<le> q" "q \<le> 1"
    using assms by (cases x; cases y) (auto simp: unit_float_def)
  have "0 \<le> p * q" "p * q \<le> 1" using x mult_le_one [of p q] by simp_all
  then obtain m where "round_fmt binary64 False (p * q) = Fin False m" "0 \<le> m" "m \<le> 1" using round_le_1 by blast
  then show ?thesis using round32_unit [of m] x by (simp add: f_mul_def)
qed

lemma percentile_small:
  assumes "unit_float q" "length xs = 1 \<or> length xs = 2"
  shows "\<exists>y. percentile xs q = Some y"
proof -
  have "f_of_nat 0 = Fin False 0" "f_of_nat 1 = f_lit 1" by (simp_all add: f_of_nat_def f_lit_def round_rat_def)
  then have "unit_float (f_of_nat (length xs - 1))" using assms(2) lit_1_unit by (auto simp: unit_float_def)
  then have "unit_float (f_mul q (f_of_nat (length xs - 1)))" by (rule unit_product [OF assms(1)])
  then show ?thesis
    by (cases "f_mul q (f_of_nat (length xs - 1))") (auto simp: percentile_def to_size_def unit_float_def)
qed

lemma lit_unit: "0 \<le> q \<Longrightarrow> q \<le> 1 \<Longrightarrow> unit_float (f_lit q)"
  using round32_unit by (simp add: f_lit_def round_rat_def)

lemma small_profile:
  assumes "length xs = 1 \<or> length xs = 2" "\<not> list_ex d_is_nan xs"
  shows "\<exists>p. profile_of k d n xs t = Some p"
proof -
  have l: "length (sort_in x ys) = Suc (length ys)" for x ys by (induction ys) simp_all
  have "length (float_sort xs) = length xs" for xs by (induction xs) (simp_all add: l)
  then have s: "length (float_sort xs) = 1 \<or> length (float_sort xs) = 2" using assms(1) by simp
  obtain a b c where "percentile (float_sort xs) (f_lit (50 / 100)) = Some a" "percentile (float_sort xs) (f_lit (95 / 100)) = Some b"
    "percentile (float_sort xs) (f_lit (99 / 100)) = Some c"
    using percentile_small [OF lit_unit [of "50 / 100"] s] percentile_small [OF lit_unit [of "95 / 100"] s]
      percentile_small [OF lit_unit [of "99 / 100"] s] by auto
  then show ?thesis using assms(2) by (simp add: profile_of_def std_sort_def Let_def)
qed

lemma small_compute:
  "\<exists>p. compute_fast tiny_faiss (one_row x) k 100 t = Some p"
  "\<exists>p. compute_fast tiny_faiss (two_rows x y) k 100 t = Some p"
proof -
  have q: "bank_search tiny_faiss b v 1 (k + 1) = Some (replicate (k + 1) (Fin False 0))" if "bk_index b = Some ix" for b v ix
    using that by (cases ix) (simp add: bank_search_def tiny_faiss_def)
  have 1: "self_query tiny_faiss (one_row x) vs k [0] = Some [Fin False 0]" for vs
    using q [of "one_row x"] by (simp add: one_row_def)
  have 2: "self_query tiny_faiss (two_rows x y) vs k [0, 1] = Some [Fin False 0, Fin False 0]" for vs
    using q [of "two_rows x y"] by (simp add: two_rows_def)
  show "\<exists>p. compute_fast tiny_faiss (one_row x) k 100 t = Some p"
    using 1 small_profile [of "[Fin False 0]" k 1 1 t] small_banks(1) by (simp add: compute_fast_def one_row_def Let_def)
  show "\<exists>p. compute_fast tiny_faiss (two_rows x y) k 100 t = Some p"
    using 2 small_profile [of "[Fin False 0, Fin False 0]" k 1 2 t] small_banks(3) [of x y]
    by (simp add: compute_fast_def two_rows_def Let_def upt_rec del: self_query.simps)
qed

text \<open>A state with one vector in both banks and one candidate in the buffer.\<close>

definition one_candidate :: "dbl \<Rightarrow> candidate_buffer" where
  "one_candidate x =
     \<lparr>bu_config = ec_buffer default_config,
      bu_candidates = [\<lparr>ca_vectors = [x], grid_h = 1, grid_w = 1, ca_dim = 1, ca_normalcy = Inf False\<rparr>],
      total_patches = 1\<rparr>"

definition small_state :: "(nat option \<times> nat \<times> dbl list) feature_bank \<Rightarrow> normality_profile \<Rightarrow> candidate_buffer \<Rightarrow>
    (nat option \<times> nat \<times> dbl list) evolution" where
  "small_state active p buffer =
     \<lparr>eo_config = default_config\<lparr>ec_enabled := True, self_validation := False\<rparr>,
      active_bank = Some active, standby_bank = Some (one_row (Fin False 0)), active_profile = p, standby_profile = default_profile\<lparr>np_dim := 1\<rparr>,
      eo_buffer = buffer, displacement_history = [], saturation_count = 0, incremental_count = 0, evolution_paused = False,
      notify_flag = False, running = True, save_path = '''', stats_frames = 0, stats_updates = 0, store_bound = False, recorded = []\<rparr>"

lemma small_state_ok: "bank_ok tiny_faiss 1 active \<Longrightarrow> np_dim p = 1 \<Longrightarrow> evolution_ok tiny_faiss (small_state active p (one_candidate x))"
  using small_banks(2) [of "Fin False 0"]
  by (simp add: evolution_ok_def small_state_def one_candidate_def buffer_ok_def patch_count_def default_config_def default_profile_def)

lemma small_update:
  assumes "compute_fast tiny_faiss active 5 100 (tail_ratio_max default_config) = Some p'" "np_dim p = 1"
  shows "\<exists>s'. update_pass tiny_faiss 0 (small_state active p (one_candidate x)) = Some s' \<and>
    active_bank s' = Some (two_rows (Fin False 0) x) \<and> standby_bank s' = Some active \<and> active_profile s' = p' \<and>
    eo_config s' = eo_config (small_state active p (one_candidate x))"
proof -
  have fin: "active_bank (finish_update e n t) = active_bank t \<and> eo_config (finish_update e n t) = eo_config t \<and>
      standby_bank (finish_update e n t) = standby_bank t \<and> active_profile (finish_update e n t) = active_profile t"
    if "displacement_history t = []" for e n and t :: "(nat option \<times> nat \<times> dbl list) evolution"
  proof -
    have "\<not> drift_detected [Fin False 0]" by (simp add: drift_detected_def)
    then show ?thesis using that by (simp add: finish_update_def check_drift_def drift_window_def Let_def)
  qed
  have mean: "mean_normalcy [\<lparr>ca_vectors = [x], grid_h = 1, grid_w = 1, ca_dim = 1, ca_normalcy = Inf False\<rparr>] = Inf False"
    using d_of_nat_exact [of 1] by (simp add: mean_normalcy_def)
  have build: "build_from_embeddings tiny_faiss (patch_embedding [Fin False 0, x] 1 2) 1 2 = Some (Inr (two_rows (Fin False 0) x))"
    by (simp add: build_from_embeddings_def patch_collected rebuild_def empty_bank_def two_rows_def tiny_faiss_def)
  have gate: "\<not> d_lt (Inf False) y" for y by (cases y) auto
  show ?thesis
    using assms fin
    by (simp add: update_pass_def drain_all_def small_state_def one_candidate_def mean [unfolded One_nat_def] gate prefilter_candidates_def
        default_config_def small_banks(1) reselect_def build [unfolded One_nat_def numeral_2_eq_2] swap_in_def validate_def Let_def)
qed

lemma updates_alternate_witness:
  "\<exists>s1 b b3. update_pass tiny_faiss 0 (small_state (one_row (Fin False 0)) (default_profile\<lparr>np_dim := 1\<rparr>) (one_candidate (Inf False))) = Some s1 \<and>
     b3 = two_rows (Fin False 0) (Inf True) \<and> b = one_row (Fin False 0) \<and>
     bank_rows tiny_faiss b3 \<subseteq> bank_rows tiny_faiss b \<union> rows_of 1 [Inf True]"
proof -
  define s where "s = small_state (one_row (Fin False 0)) (default_profile\<lparr>np_dim := 1\<rparr>) (one_candidate (Inf False))"
  obtain p1 where p1: "compute_fast tiny_faiss (one_row (Fin False 0)) 5 100 (tail_ratio_max default_config) = Some p1"
    using small_compute(1) by blast
  have d1: "np_dim p1 = 1" by (rule compute_fast_dim [OF small_banks(2) p1])
  have s: "evolution_ok tiny_faiss s" unfolding s_def by (rule small_state_ok [OF small_banks(2)]) simp
  obtain s1 where s1: "update_pass tiny_faiss 0 s = Some s1" "active_bank s1 = Some (two_rows (Fin False 0) (Inf False))"
    "standby_bank s1 = Some (one_row (Fin False 0))" "active_profile s1 = p1"
    using small_update [OF p1, of "default_profile\<lparr>np_dim := 1\<rparr>" "Inf False"] by (auto simp: s_def)
  define s2 where "s2 = small_state (two_rows (Fin False 0) (Inf False)) p1 (one_candidate (Inf True))"
  have s2: "evolution_ok tiny_faiss s2" unfolding s2_def by (rule small_state_ok [OF small_banks(4) d1])
  have kept: "banks_kept s1 s2" using s1 by (simp add: banks_kept_def s2_def small_state_def)
  obtain p2 where p2: "compute_fast tiny_faiss (two_rows (Fin False 0) (Inf False)) 5 100 (tail_ratio_max default_config) = Some p2"
    using small_compute(2) by blast
  obtain s3 where s3: "update_pass tiny_faiss 0 s2 = Some s3" "active_bank s3 = Some (two_rows (Fin False 0) (Inf True))"
    using small_update [OF p2 d1, of "Inf True"] by (auto simp: s2_def)
  have ne: "active_bank s1 \<noteq> active_bank s" "active_bank s3 \<noteq> active_bank s2"
    using s1(2) s3(2) by (simp_all add: s_def s2_def small_state_def one_row_def two_rows_def)
  obtain b b3 fresh where r: "active_bank s = Some b" "active_bank s3 = Some b3" "flatten (bu_candidates (eo_buffer s2)) = Some fresh"
    "bank_rows tiny_faiss b3 \<subseteq> bank_rows tiny_faiss b \<union> rows_of (np_dim (active_profile s2)) fresh"
    using updates_alternate [OF tiny_faiss_documented(1) s s1(1) ne(1) s2 kept s3(1) ne(2)] by blast
  have "b = one_row (Fin False 0)" "fresh = [Inf True]" "np_dim (active_profile s2) = 1"
    using r d1 by (simp_all add: s_def s2_def small_state_def one_candidate_def)
  then show ?thesis
    using s1(1) s3(2) r by (intro exI [of _ s1] exI [of _ b] exI [of _ b3]) (simp add: s_def)
qed

definition small_run :: "evolution_op list" where
  "small_run = [Start, Update 0, Stop \<lparr>bank_opens = True, bank_written = 0, profile_opens = True, backup_opens = True, backup_written = 0\<rparr> 0]"

lemma small_run_possible:
  "\<exists>s0 s. new_evolution tiny_faiss default_config (Some (one_row (Fin False 0))) (default_profile\<lparr>np_dim := 1\<rparr>) = Some s0 \<and>
     evolution_run plain_conv tiny_faiss small_run s0 = Some s"
proof -
  have build: "build_from_embeddings tiny_faiss (patch_embedding [Fin False 0] 1 1) 1 1 = Some (Inr (one_row (Fin False 0)))"
    by (simp add: build_from_embeddings_def patch_collected rebuild_def empty_bank_def one_row_def tiny_faiss_def)
  obtain s0 where s0: "new_evolution tiny_faiss default_config (Some (one_row (Fin False 0))) (default_profile\<lparr>np_dim := 1\<rparr>) = Some s0"
    "bu_candidates (eo_buffer s0) = []" "save_path s0 = ''''" "eo_config s0 = default_config"
    using build small_banks(1) [of "Fin False 0"]
    by (simp add: new_evolution_def initialize_standby_def, simp add: one_row_def)
  have "evolution_run plain_conv tiny_faiss small_run s0 \<noteq> None"
    using s0(2-) by (simp add: small_run_def start_evolution_def update_pass_def drain_all_def stop_evolution_def default_config_def Let_def)
  then show ?thesis using s0(1) by blast
qed

lemma small_fits: "profile_fits tiny_faiss (Some (one_row (Fin False 0))) (default_profile\<lparr>np_dim := 1\<rparr>)"
  using small_banks(2) by (simp add: profile_fits_def)

lemma drift_never_reported_witness:
  "\<exists>s0 s. new_evolution tiny_faiss default_config (Some (one_row (Fin False 0))) (default_profile\<lparr>np_dim := 1\<rparr>) = Some s0 \<and>
     evolution_run plain_conv tiny_faiss small_run s0 = Some s \<and>
     \<not> drift_detected (drift_window (Fin False 0) (displacement_history s))"
  using small_run_possible drift_never_reported [OF tiny_faiss_documented(1) small_fits _ _ zero_is_double] by blast

lemma saturation_never_pauses_witness:
  "\<exists>s0 s. new_evolution tiny_faiss default_config (Some (one_row (Fin False 0))) (default_profile\<lparr>np_dim := 1\<rparr>) = Some s0 \<and>
     evolution_run plain_conv tiny_faiss small_run s0 = Some s \<and> \<not> evolution_paused s"
proof -
  have log: "ilog2 (3 / 5) = -1" "ilog2 (19 / 20) = -1" by (rule ilog2_eqI; simp add: pow2_def)+
  have "\<lfloor>50331648 / 5 :: rat\<rfloor> = 10066329" "\<lfloor>79691776 / 5 :: rat\<rfloor> = 15938355" by (rule floor_unique; simp)+
  then have "round_even (50331648 / 5) = 10066330" "round_even (79691776 / 5) = 15938355" by (simp_all add: round_even_def Let_def)
  then have "d_le (coverage_threshold default_config) (coverage_saturation_threshold default_config)"
    using log by (simp add: default_config_def f_lit_def round_rat_def round_fmt_def binary32_def pow2_def d_le_def)
  then show ?thesis
    using small_run_possible saturation_never_pauses [OF tiny_faiss_documented(1) small_fits] by blast
qed

lemma app_never_enables_witness:
  "app_evolution_config plain_conv (YMap [(''self_evolution'', YMap [(''enabled'', YScalar ''true'')])]) = None"
  using app_never_enables [of "YMap [(''self_evolution'', YMap [(''enabled'', YScalar ''true'')])]" "YMap [(''enabled'', YScalar ''true'')]" plain_conv]
  by (simp add: y_index_def y_at_def)

definition two_neighbours :: "dbl list \<Rightarrow> frame" where
  "two_neighbours ds =
     \<lparr>fr_distances = ds, fr_count = 2, fr_k = 2, fr_data = Some [Fin False 0], fr_h = 1, fr_w = 2, fr_dim = 1,
      fr_score = Fin False 0, fr_matched = 0, fr_verdict = ''OK'', fr_threshold = Fin False 1, fr_pca_score = Fin False 0, fr_pca_p95 = Fin False 0\<rparr>"

lemma assessment_reads_first_patches_witness:
  "\<forall>s :: (nat option \<times> nat \<times> dbl list) evolution.
     assess_and_offer (two_neighbours [Fin False 0, Fin False 1, Inf False, Inf False]) s =
     assess_and_offer (two_neighbours [Fin False 0, Fin False 1, Fin False 0, Fin False 1]) s"
proof
  fix s :: "(nat option \<times> nat \<times> dbl list) evolution"
  define f where "f = two_neighbours [Fin False 0, Fin False 1, Fin False 0, Fin False 1]"
  have "assess_and_offer (f\<lparr>fr_distances := [Fin False 0, Fin False 1, Inf False, Inf False]\<rparr>) s = assess_and_offer f s"
    by (rule assessment_reads_first_patches) (auto simp: f_def two_neighbours_def row_def less_2_cases_iff)
  then show "assess_and_offer (two_neighbours [Fin False 0, Fin False 1, Inf False, Inf False]) s =
     assess_and_offer (two_neighbours [Fin False 0, Fin False 1, Fin False 0, Fin False 1]) s"
    by (simp add: f_def two_neighbours_def)
qed

end
