(* ===== verification/Pca.thy ===== *)
theory Pca
  imports Feature_Bank
begin

text \<open>
  Principal components (\<open>pca_fitting.cpp\<close>, \<open>pca_scoring.cpp\<close>, \<open>pca_serialization.cpp\<close> under
  \<open>src/embedding\<close>): fitting by power iteration and deflation, whitening, the streaming fit, the
  anomaly scores, and the binary file. Vectors and matrices are flat row-major lists, as in the code;
  \<open>None\<close> is undefined behaviour or an exception that leaves a \<open>noexcept\<close> function.
\<close>

record pca_params =
  pc_components :: "dbl list"
  pc_target_dim :: nat
  pc_mean :: "dbl list"
  pc_eigvals :: "dbl list"

record whitening_params =
  wh_transform :: "dbl list"
  wh_target_dim :: nat

record full_embedding = embedding +
  em_model :: string
  em_global :: bool
  em_grid :: "nat \<times> nat"
  em_latency :: int
  em_on_gpu :: bool

definition dim_error :: "string \<Rightarrow> 'a result" where
  "dim_error m = Inl (ErrorInfo Embedding_DimensionMismatch (''DimensionReducer'' @ m))"

subsection \<open>Collecting the samples\<close>

fun scan_samples :: "full_embedding list \<Rightarrow> nat option \<Rightarrow> nat \<Rightarrow> (nat option \<times> nat) result" where
  "scan_samples [] dim_set n = Inr (dim_set, n)"
| "scan_samples (e # es) dim_set n =
     (if em_on_gpu e then dim_error '': sample is on GPU, cannot fit on CPU''
      else case dim_set of
             Some d \<Rightarrow>
               if em_dim e \<noteq> d
               then dim_error ('': sample dim mismatch ('' @ nat_str (em_dim e) @ '' != '' @ nat_str d @ '')'')
               else scan_samples es dim_set (if 0 < em_dim e \<and> 0 < em_count e then n + em_count e else n)
           | None \<Rightarrow> scan_samples es (Some (em_dim e)) (if 0 < em_dim e \<and> 0 < em_count e then n + em_count e else n))"

fun gather_samples :: "nat \<Rightarrow> full_embedding list \<Rightarrow> dbl list option" where
  "gather_samples d [] = Some []"
| "gather_samples d (e # es) =
     (if length (em_data e) < em_count e * d then None
      else map_option ((@) (take (em_count e * d) (em_data e))) (gather_samples d es))"

definition collect_samples :: "full_embedding list \<Rightarrow> (dbl list \<times> nat \<times> nat) result option" where
  "collect_samples es =
     (if es = [] then Some (dim_error '': no samples provided for fitting'')
      else case scan_samples es None 0 of
             Inl err \<Rightarrow> Some (Inl err)
           | Inr (dim_set, n) \<Rightarrow>
               let d = (case dim_set of None \<Rightarrow> 0 | Some d \<Rightarrow> d) in
               if n = 0 \<or> d = 0 then Some (dim_error '': all samples have zero count or zero dimension'')
               else map_option (\<lambda>data. Inr (data, d, n)) (gather_samples d es))"

subsection \<open>Mean, covariance, eigenvectors\<close>

definition compute_mean :: "dbl list \<Rightarrow> nat \<Rightarrow> nat \<Rightarrow> dbl list" where
  "compute_mean data n d =
     (let acc = fold (\<lambda>i m. map2 f_add m (row d data i)) [0..<n] (replicate d (Fin False 0));
          inv = f_div (Fin False 1) (f_of_nat n)
      in map (\<lambda>m. f_mul m inv) acc)"

definition center_data :: "dbl list \<Rightarrow> nat \<Rightarrow> nat \<Rightarrow> dbl list \<Rightarrow> dbl list" where
  "center_data data n d mean = concat (map (\<lambda>i. map2 f_sub (row d data i) mean) [0..<n])"

definition outer :: "(dbl \<Rightarrow> dbl \<Rightarrow> dbl) \<Rightarrow> dbl list \<Rightarrow> dbl list" where
  "outer f v = concat (map (\<lambda>a. map (f a) v) v)"

definition compute_covariance :: "dbl list \<Rightarrow> nat \<Rightarrow> nat \<Rightarrow> dbl list" where
  "compute_covariance centered n d =
     (let acc = fold (\<lambda>k cov. map2 f_add cov (outer f_mul (row d centered k))) [0..<n] (replicate (d * d) (Fin False 0));
          inv = f_div (Fin False 1) (f_of_nat n)
      in map (\<lambda>c. f_mul c inv) acc)"

definition f_dot :: "dbl list \<Rightarrow> dbl list \<Rightarrow> dbl" where
  "f_dot a v = fold (\<lambda>(x, y) acc. f_add acc (f_mul x y)) (zip a v) (Fin False 0)"

definition mat_vec :: "dbl list \<Rightarrow> nat \<Rightarrow> dbl list \<Rightarrow> dbl list" where
  "mat_vec mat d v = map (\<lambda>i. f_dot (row d mat i) v) [0..<d]"

definition unit_row :: "nat \<Rightarrow> nat \<Rightarrow> dbl list" where
  "unit_row d t = (replicate d (Fin False 0))[t := Fin False 1]"

definition sum_squares :: "dbl list \<Rightarrow> dbl" where
  "sum_squares v = fold (\<lambda>x acc. f_add acc (f_mul x x)) v (Fin False 0)"

definition iter_tol :: dbl where
  "iter_tol = f_lit (1 / 10 ^ 8)"

primrec power_loop :: "dbl list \<Rightarrow> nat \<Rightarrow> nat \<Rightarrow> dbl list \<Rightarrow> dbl \<Rightarrow> dbl list \<times> dbl" where
  "power_loop mat d 0 v eigenvalue = (v, eigenvalue)"
| "power_loop mat d (Suc iters) v eigenvalue =
     (let w = mat_vec mat d v;
          rayleigh = f_dot v w;
          ev = (if d_lt rayleigh (Fin False 0) then Fin False 0 else rayleigh);
          norm = f_sqrt (sum_squares w)
      in if d_lt norm iter_tol then (unit_row d 0, Fin False 0)
         else let u = map (\<lambda>x. f_div x norm) w;
                  diff = sum_squares (map2 f_sub u v);
                  diff_neg = sum_squares (map2 f_add u v)
              in if d_lt diff iter_tol \<or> d_lt diff_neg iter_tol then (u, ev)
                 else power_loop mat d iters u ev)"

definition power_iteration :: "dbl list \<Rightarrow> nat \<Rightarrow> dbl list \<times> dbl" where
  "power_iteration mat d = power_loop mat d 200 (unit_row d 0) (Fin False 0)"

definition deflate :: "dbl list \<Rightarrow> dbl list \<Rightarrow> dbl \<Rightarrow> dbl list" where
  "deflate cov ev eigenvalue = map2 f_sub cov (outer (\<lambda>a b. f_mul (f_mul eigenvalue a) b) ev)"

primrec top_eigen :: "dbl list \<Rightarrow> nat \<Rightarrow> nat \<Rightarrow> (dbl list \<times> dbl) list" where
  "top_eigen cov d 0 = []"
| "top_eigen cov d (Suc n) =
     (let (ev, eigenvalue) = power_iteration cov d
      in (ev, eigenvalue) #
         top_eigen (if d_gt eigenvalue (f_lit (1 / 10 ^ 12)) then deflate cov ev eigenvalue else cov) d n)"

definition fix_row :: "nat \<Rightarrow> nat \<times> dbl list \<times> dbl \<Rightarrow> dbl list \<times> dbl" where
  "fix_row d p =
     (case p of (t, ev, eigenvalue) \<Rightarrow>
        (if d_lt eigenvalue (f_lit (1 / 10 ^ 15)) \<and> d_lt (sum_squares ev) (Fin False (1 / 2))
         then unit_row d t else ev, eigenvalue))"

definition fix_degenerate :: "nat \<Rightarrow> (dbl list \<times> dbl) list \<Rightarrow> (dbl list \<times> dbl) list" where
  "fix_degenerate d pairs = map (fix_row d) (enumerate 0 pairs)"

definition params_of :: "(dbl list \<times> dbl) list \<Rightarrow> nat \<Rightarrow> dbl list \<Rightarrow> pca_params" where
  "params_of pairs k m =
     \<lparr>pc_components = concat (map fst pairs), pc_target_dim = k, pc_mean = m, pc_eigvals = map snd pairs\<rparr>"

definition exceeds :: "string \<Rightarrow> nat \<Rightarrow> string \<Rightarrow> nat \<Rightarrow> 'a result" where
  "exceeds what k bound d = dim_error (what @ nat_str k @ bound @ nat_str d @ '')'')"

text \<open>The covariance matrix of samples, as \<open>FitPca\<close> and \<open>FitWhitening\<close> compute it.\<close>

definition sample_covariance :: "dbl list \<Rightarrow> nat \<Rightarrow> nat \<Rightarrow> dbl list" where
  "sample_covariance data n d = compute_covariance (center_data data n d (compute_mean data n d)) n d"

definition fit_pca :: "full_embedding list \<Rightarrow> nat \<Rightarrow> pca_params result option" where
  "fit_pca samples target =
     (case collect_samples samples of
        None \<Rightarrow> None
      | Some (Inl err) \<Rightarrow> Some (Inl err)
      | Some (Inr (data, d, n)) \<Rightarrow>
          if d < target then Some (exceeds ''::FitPca: target_dim ('' target '') > input_dim ('' d)
          else Some (Inr (params_of (fix_degenerate d (top_eigen (sample_covariance data n d) d target)) target
                 (compute_mean data n d))))"

definition whitening_row :: "dbl list \<times> dbl \<Rightarrow> dbl list" where
  "whitening_row p =
     (let scale = (if d_gt (snd p) (f_lit (1 / 10 ^ 12)) then f_div (Fin False 1) (f_sqrt (snd p)) else Fin False 0)
      in map (\<lambda>x. f_mul x scale) (fst p))"

definition fit_whitening :: "full_embedding list \<Rightarrow> nat \<Rightarrow> whitening_params result option" where
  "fit_whitening samples target =
     (case collect_samples samples of
        None \<Rightarrow> None
      | Some (Inl err) \<Rightarrow> Some (Inl err)
      | Some (Inr (data, d, n)) \<Rightarrow>
          if d < target then Some (exceeds ''::FitWhitening: target_dim ('' target '') > input_dim ('' d)
          else Some (Inr \<lparr>wh_transform = concat (map whitening_row (top_eigen (sample_covariance data n d) d target)),
                          wh_target_dim = target\<rparr>))"

subsection \<open>The streaming fit\<close>

text \<open>A generator is the list of the batches it delivers before the empty one. The accumulators are
  doubles. With one vector the divisor \<open>total_N - 1\<close> is zero and the scale infinite.\<close>

definition batch_rows :: "nat \<Rightarrow> dbl list list \<Rightarrow> dbl list list" where
  "batch_rows d batches = concat (map (\<lambda>b. map (row d b) [0..<length b div d]) (takeWhile (\<lambda>b. b \<noteq> []) batches))"

definition stream_mean :: "nat \<Rightarrow> nat \<Rightarrow> dbl list list \<Rightarrow> dbl list" where
  "stream_mean d n rows =
     (let acc = fold (\<lambda>r m. map2 d_add m r) rows (replicate d (Fin False 0));
          inv = d_div (Fin False 1) (d_of_nat n)
      in map (\<lambda>m. to_float (d_mul m inv)) acc)"

definition stream_covariance :: "nat \<Rightarrow> nat \<Rightarrow> dbl list \<Rightarrow> dbl list list \<Rightarrow> dbl list" where
  "stream_covariance d n m rows =
     (let acc = fold (\<lambda>r cov. map2 d_add cov (outer d_mul (map2 d_sub r m))) rows (replicate (d * d) (Fin False 0));
          inv = d_div (Fin False 1) (d_of_nat (n - 1))
      in concat (map (\<lambda>p. map (\<lambda>q. to_float (d_mul (acc ! (min p q * d + max p q)) inv)) [0..<d]) [0..<d]))"

definition fit_pca_streaming :: "dbl list list \<Rightarrow> dbl list list \<Rightarrow> nat \<Rightarrow> nat \<Rightarrow> nat \<Rightarrow> pca_params result" where
  "fit_pca_streaming pass1 pass2 d n target =
     (if d = 0 \<or> n = 0 then dim_error ''::FitPcaStreaming: D and total_N must be > 0''
      else let k = (if target = 0 then d else target) in
           if d < k then exceeds ''::FitPcaStreaming: target_k ('' k '') > D ('' d
           else let rows = batch_rows d pass1 in
                if length rows \<noteq> n
                then dim_error (''::FitPcaStreaming: expected '' @ nat_str n @ '' vectors but saw '' @ nat_str (length rows))
                else let m = stream_mean d n rows
                     in Inr (params_of (fix_degenerate d (top_eigen (stream_covariance d n m (batch_rows d pass2)) d k)) k m))"

subsection \<open>Scores\<close>

datatype score_method = Reconstruction | Mahalanobis | Cosine | Euclidean

definition centered_row :: "pca_params \<Rightarrow> dbl list \<Rightarrow> nat \<Rightarrow> dbl list" where
  "centered_row p xs i = map2 f_sub (row (length (pc_mean p)) xs i) (pc_mean p)"

definition projection :: "pca_params \<Rightarrow> dbl list \<Rightarrow> nat \<Rightarrow> dbl" where
  "projection p x0 t = f_dot x0 (row (length (pc_mean p)) (pc_components p) t)"

definition projected_norm :: "pca_params \<Rightarrow> nat \<Rightarrow> dbl list \<Rightarrow> dbl" where
  "projected_norm p drop_k x0 = sum_squares (map (projection p x0) [drop_k..<pc_target_dim p])"

definition reconstruct_row :: "pca_params \<Rightarrow> nat \<Rightarrow> dbl list \<Rightarrow> dbl list" where
  "reconstruct_row p drop_k x0 =
     map2 f_add
       (fold (\<lambda>t acc. let z = (if drop_k \<le> t then projection p x0 t else Fin False 0)
                      in map2 (\<lambda>a c. f_add a (f_mul z c)) acc (row (length (pc_mean p)) (pc_components p) t))
          [0..<pc_target_dim p] (replicate (length (pc_mean p)) (Fin False 0)))
       (pc_mean p)"

definition cosine_score :: "dbl list \<Rightarrow> dbl list \<Rightarrow> dbl" where
  "cosine_score x r =
     (let eps = f_lit (1 / 10 ^ 8);
          x_norm = fold (\<lambda>a acc. f_add acc (f_mul a a)) x eps;
          r_norm = fold (\<lambda>a acc. f_add acc (f_mul a a)) r eps;
          sim = f_div (f_dot x r) (f_mul (f_sqrt x_norm) (f_sqrt r_norm))
      in f_sub (Fin False 1) (d_max (Fin True 1) (d_min (Fin False 1) sim)))"

definition score_row :: "pca_params \<Rightarrow> dbl list \<Rightarrow> score_method \<Rightarrow> nat \<Rightarrow> nat \<Rightarrow> dbl" where
  "score_row p xs m drop_k i =
     (let x0 = centered_row p xs i in
      case m of
        Reconstruction \<Rightarrow> d_max (Fin False 0) (f_sub (sum_squares x0) (projected_norm p drop_k x0))
      | Mahalanobis \<Rightarrow>
          fold (\<lambda>t s. let z = projection p x0 t;
                          inv = f_div (Fin False 1) (f_add (pc_eigvals p ! t) (f_lit (1 / 10 ^ 6)))
                      in f_add s (f_mul (f_mul z z) inv)) [drop_k..<pc_target_dim p] (Fin False 0)
      | Euclidean \<Rightarrow> projected_norm p drop_k x0
      | Cosine \<Rightarrow> cosine_score (row (length (pc_mean p)) xs i) (reconstruct_row p drop_k x0))"

definition pca_score :: "pca_params \<Rightarrow> dbl list \<Rightarrow> nat \<Rightarrow> score_method \<Rightarrow> nat \<Rightarrow> dbl list option" where
  "pca_score p xs n m drop_k =
     (let d = length (pc_mean p); k = pc_target_dim p in
      if n = 0 then Some []
      else if k \<le> drop_k then Some (replicate n (Fin False 0))
      else if length xs < n * d \<or> length (pc_components p) < k * d \<or> (m = Mahalanobis \<and> length (pc_eigvals p) < k)
      then None
      else Some (map (score_row p xs m drop_k) [0..<n]))"

subsection \<open>The file\<close>

definition le_bytes :: "nat \<Rightarrow> nat \<Rightarrow> 8 word list" where
  "le_bytes n w = map (\<lambda>i. word_of_nat (w div 256 ^ i)) [0..<n]"

fun le_nat :: "8 word list \<Rightarrow> nat" where
  "le_nat [] = 0"
| "le_nat (b # bs) = unat b + 256 * le_nat bs"

definition pca_file_error :: "string \<Rightarrow> string \<Rightarrow> 'a result" where
  "pca_file_error m path = bank_error (''DimensionReducer::'' @ m @ path)"

text \<open>How much of a failed write arrives is the argument \<open>written\<close>; the second component is the
  content of the file afterwards.\<close>

definition pca_bytes :: "pca_params \<Rightarrow> 8 word list" where
  "pca_bytes p =
     (let d = length (pc_mean p); k = pc_target_dim p in
      le_bytes 8 d @ le_bytes 8 k @
      concat (map float_bytes (pc_mean p @ take k (pc_eigvals p) @ take (k * d) (pc_components p))))"

definition save_pca_params :: "pca_params \<Rightarrow> string \<Rightarrow> bool \<Rightarrow> nat \<Rightarrow> (unit result \<times> 8 word list option) option" where
  "save_pca_params p path can_open written =
     (if \<not> can_open then Some (pca_file_error ''SavePcaParams: cannot open file: '' path, None)
      else if length (pc_eigvals p) < pc_target_dim p \<or> length (pc_components p) < pc_target_dim p * length (pc_mean p)
      then None
      else if written < length (pca_bytes p)
      then Some (pca_file_error ''SavePcaParams: write failed: '' path, Some (take written (pca_bytes p)))
      else Some (Inr (), Some (pca_bytes p)))"

text \<open>The expected size is a 64-bit product and wraps; \<open>resize\<close> throws beyond \<open>2 ^ 61 - 1\<close> floats.\<close>

definition load_pca_params :: "string \<Rightarrow> (nat \<times> 8 word list) option \<Rightarrow> pca_params result option" where
  "load_pca_params path opened =
     (case opened of
        None \<Rightarrow> Some (pca_file_error ''LoadPcaParams: cannot open file: '' path)
      | Some (file_size, bytes) \<Rightarrow>
          let d = le_nat (take 8 bytes); k = le_nat (take 8 (drop 8 bytes));
              expected = (16 + d * 4 + k * 4 + k * d * 4) mod 2 ^ 64; kd = k * d mod 2 ^ 64
          in if file_size < expected \<or> d = 0 \<or> k = 0
             then Some (pca_file_error ''LoadPcaParams: invalid file format or dimensions: '' path)
             else if 2 ^ 61 \<le> d \<or> 2 ^ 61 \<le> k \<or> 2 ^ 61 \<le> kd then None
             else if length bytes < 16 + 4 * (d + k + kd)
             then Some (pca_file_error ''LoadPcaParams: read failed: '' path)
             else let fs = bytes_floats (take (4 * (d + k + kd)) (drop 16 bytes))
                  in Some (Inr \<lparr>pc_components = drop (d + k) fs, pc_target_dim = k,
                                pc_mean = take d fs, pc_eigvals = take k (drop d fs)\<rparr>))"

subsection \<open>A saved model is loaded back\<close>

lemma le_bytes_length [simp]: "length (le_bytes n w) = n"
  by (simp add: le_bytes_def)

lemma le_bytes_Suc: "le_bytes (Suc n) w = word_of_nat w # le_bytes n (w div 256)"
  by (simp add: le_bytes_def upt_conv_Cons map_Suc_upt [symmetric] div_mult2_eq del: upt_Suc)

lemma le_nat_bytes: "le_nat (le_bytes n w) = w mod 256 ^ n"
proof (induction n arbitrary: w)
  case (Suc n)
  have "unat (word_of_nat w :: 8 word) = w mod 256" by (simp add: unat_of_nat)
  then show ?case using Suc mod_mult2_eq [of w 256 "256 ^ n"] by (simp add: le_bytes_Suc)
qed (simp add: le_bytes_def)

text \<open>A model that is written and read back is the same model, when the arrays have the sizes
  that the dimensions say and the file fits into 64 bits.\<close>

theorem pca_file_roundtrip:
  assumes "length (pc_mean p) = d" "pc_target_dim p = k" "length (pc_eigvals p) = k" "length (pc_components p) = k * d"
    and "0 < d" "0 < k" "16 + 4 * (d + k + k * d) < 2 ^ 63"
    and "list_all is_f32 (pc_mean p)" "list_all is_f32 (pc_eigvals p)" "list_all is_f32 (pc_components p)"
    and "16 + 4 * (d + k + k * d) \<le> written"
  shows "save_pca_params p path True written = Some (Inr (), Some (pca_bytes p)) \<and>
    load_pca_params path (Some (length (pca_bytes p), pca_bytes p)) = Some (Inr p)"
proof -
  define fs where "fs = pc_mean p @ pc_eigvals p @ pc_components p"
  have bytes: "pca_bytes p = le_bytes 8 d @ le_bytes 8 k @ concat (map float_bytes fs)"
    using assms(1-4) by (simp add: pca_bytes_def fs_def)
  have lfs: "length fs = d + k + k * d" using assms(1-4) by (simp add: fs_def)
  have len: "length (pca_bytes p) = 16 + 4 * (d + k + k * d)"
    by (simp add: bytes bytes_length lfs)
  have small: "d < 2 ^ 61" "k < 2 ^ 61" "k * d < 2 ^ 61" using assms(7) by simp_all
  have dk: "le_nat (take 8 (pca_bytes p)) = d" "le_nat (take 8 (drop 8 (pca_bytes p))) = k"
    using small by (simp_all add: bytes le_nat_bytes)
  have "bytes_floats (concat (map float_bytes fs)) = fs"
    using assms(8-10) by (intro bytes_floats_bytes) (simp add: fs_def)
  moreover have "take (4 * (d + k + k * d)) (drop 16 (pca_bytes p)) = concat (map float_bytes fs)"
    using lfs by (simp add: bytes bytes_length)
  ultimately have fl: "bytes_floats (take (4 * (d + k + k * d)) (drop 16 (pca_bytes p))) = fs" by simp
  have kd: "k * d mod 2 ^ 64 = k * d" using small(3) by simp
  have ex: "(16 + d * 4 + k * 4 + k * d * 4) mod 2 ^ 64 = length (pca_bytes p)"
    using assms(7) len by simp
  have "load_pca_params path (Some (length (pca_bytes p), pca_bytes p)) = Some (Inr p)"
    unfolding load_pca_params_def option.case prod.case Let_def dk kd ex fl
    using assms(1-6) small len by (simp add: fs_def)
  moreover have "save_pca_params p path True written = Some (Inr (), Some (pca_bytes p))"
    using assms(1-4,11) len by (simp add: save_pca_params_def)
  ultimately show ?thesis by simp
qed

definition tiny_pca :: pca_params where
  "tiny_pca = \<lparr>pc_components = [Fin False 1, Fin False 0], pc_target_dim = 1,
     pc_mean = [Fin False 0, Fin True 1], pc_eigvals = [Fin False 1]\<rparr>"

lemma tiny_f32: "is_f32 (Fin False 0)" "is_f32 (Fin False 1)" "is_f32 (Fin True 1)"
proof -
  have "decode32 0 = Fin False 0" "decode32 (127 * 2 ^ 23) = Fin False 1" "decode32 (2 ^ 31 + 127 * 2 ^ 23) = Fin True 1"
    by (simp_all add: decode32_def pow2_def Let_def)
  then show "is_f32 (Fin False 0)" "is_f32 (Fin False 1)" "is_f32 (Fin True 1)"
    using decode_encode_decode [of 0] decode_encode_decode [of "127 * 2 ^ 23"]
      decode_encode_decode [of "2 ^ 31 + 127 * 2 ^ 23"] by (simp_all only:) simp_all
qed

theorem pca_file_roundtrip_witness:
  "load_pca_params ''m.bin'' (Some (length (pca_bytes tiny_pca), pca_bytes tiny_pca)) = Some (Inr tiny_pca)"
  using pca_file_roundtrip [of tiny_pca 2 1 36 "''m.bin''"] tiny_f32 by (simp add: tiny_pca_def)

subsection \<open>A patch that is not a number scores zero\<close>

lemma f_nan [simp]: "f_sub NaN y = NaN" "f_add NaN y = NaN" "f_add x NaN = NaN" "f_mul NaN y = NaN" "f_mul x NaN = NaN"
  "f_div NaN y = NaN"
  by (cases x; cases y; simp add: f_sub_def d_sub_def f_add_def f_mul_def f_div_def)+

lemma fold_add_nan: "fold (\<lambda>x acc. f_add acc (f x)) xs NaN = NaN"
  by (induction xs) simp_all

lemma sum_nan: "x \<in> set xs \<Longrightarrow> f x = NaN \<Longrightarrow> fold (\<lambda>x acc. f_add acc (f x)) xs a = NaN"
  by (induction xs arbitrary: a) (auto simp: fold_add_nan)

lemma row_nth: "i < n \<Longrightarrow> n * d \<le> length xs \<Longrightarrow> j < d \<Longrightarrow> row d xs i ! j = xs ! (i * d + j) \<and> length (row d xs i) = d"
proof -
  assume i: "i < n" "n * d \<le> length xs" and j: "j < d"
  have "Suc i * d \<le> n * d" using i(1) by (intro mult_le_mono1) simp
  then have "i * d + d \<le> length xs" using i(2) by simp
  then show ?thesis using j by (simp add: row_def)
qed

text \<open>A patch with a NaN in its features gets the score zero, the best there is, from the reconstruction
  and the cosine methods: the comparisons of \<open>std::max\<close> and \<open>std::min\<close> with a NaN fail.\<close>

theorem nan_patch_scores_zero:
  assumes "m = Reconstruction \<or> m = Cosine" "drop_k < pc_target_dim p"
    and "pc_target_dim p * length (pc_mean p) \<le> length (pc_components p)" "n * length (pc_mean p) \<le> length xs"
    and "i < n" "j < length (pc_mean p)" "xs ! (i * length (pc_mean p) + j) = NaN"
  shows "\<exists>ss. pca_score p xs n m drop_k = Some ss \<and> length ss = n \<and> ss ! i = Fin False 0"
proof -
  let ?d = "length (pc_mean p)"
  have r: "row ?d xs i ! j = NaN" "length (row ?d xs i) = ?d"
    using row_nth [OF assms(5,4,6)] assms(7) by simp_all
  have "NaN \<in> set (centered_row p xs i)"
  proof -
    have "centered_row p xs i ! j = NaN" "j < length (centered_row p xs i)"
      using r assms(6) by (simp_all add: centered_row_def)
    then show ?thesis by (metis nth_mem)
  qed
  then have ssq: "sum_squares (centered_row p xs i) = NaN"
    unfolding sum_squares_def by (rule sum_nan) simp
  have "score_row p xs m drop_k i = Fin False 0"
    using assms(1)
  proof
    assume m: "m = Reconstruction"
    then show ?thesis by (simp add: score_row_def ssq d_max_def)
  next
    assume m: "m = Cosine"
    let ?r = "reconstruct_row p drop_k (centered_row p xs i)"
    have lr: "length ?r = ?d"
    proof -
      have rl: "length (row ?d (pc_components p) t) = ?d" if "t < pc_target_dim p" for t
        using row_nth [OF that assms(3,6)] by simp
      have "length (fold (\<lambda>t acc. let z = (if drop_k \<le> t then projection p x0 t else Fin False 0)
                      in map2 (\<lambda>a c. f_add a (f_mul z c)) acc (row ?d (pc_components p) t)) ts acc) = ?d"
        if "length acc = ?d" "\<forall>t \<in> set ts. t < pc_target_dim p" for ts acc x0
        using that by (induction ts arbitrary: acc) (simp_all add: Let_def rl)
      then show ?thesis by (simp add: reconstruct_row_def)
    qed
    have "(NaN, ?r ! j) \<in> set (zip (row ?d xs i) ?r)"
      using r lr assms(6) by (auto simp: in_set_zip intro!: exI [of _ j])
    then have "f_dot (row ?d xs i) ?r = NaN"
      unfolding f_dot_def case_prod_beta by (rule sum_nan) simp
    then show ?thesis
      using m by (simp add: score_row_def cosine_score_def d_max_def d_min_def f_sub_def d_sub_def Let_def)
  qed
  then show ?thesis using assms(1-5) by (auto simp: pca_score_def Let_def)
qed

theorem nan_patch_scores_zero_witness:
  "\<exists>ss. pca_score tiny_pca [Fin False 1, NaN] 1 Reconstruction 0 = Some ss \<and> length ss = 1 \<and> ss ! 0 = Fin False 0"
  using nan_patch_scores_zero [of Reconstruction 0 tiny_pca 1 "[Fin False 1, NaN]" 0 1] by (simp add: tiny_pca_def)

subsection \<open>The iteration starts in the direction of the first feature\<close>

definition is_fin :: "dbl \<Rightarrow> bool" where
  "is_fin x = (case x of Fin s q \<Rightarrow> True | _ \<Rightarrow> False)"

definition is_zero :: "dbl \<Rightarrow> bool" where
  "is_zero x = (case x of Fin s q \<Rightarrow> q = 0 | _ \<Rightarrow> False)"

lemma zero_fin: "is_zero x \<Longrightarrow> is_fin x"
  by (cases x) (simp_all add: is_zero_def is_fin_def)

lemma is_zero_0 [simp]: "is_zero (Fin s 0)"
  by (simp add: is_zero_def)

lemma zero_mul: "is_zero x \<Longrightarrow> is_fin y \<Longrightarrow> is_zero (f_mul x y)" "is_fin x \<Longrightarrow> is_zero y \<Longrightarrow> is_zero (f_mul x y)"
  by (cases x; cases y; simp add: is_zero_def is_fin_def f_mul_def)+

lemma zero_mul_fin: "is_zero x \<Longrightarrow> is_fin (f_mul x y) \<Longrightarrow> is_zero (f_mul x y)"
  by (cases x; cases y) (simp_all add: is_zero_def is_fin_def f_mul_def)

lemma zero_add: "is_zero x \<Longrightarrow> is_zero y \<Longrightarrow> is_zero (f_add x y)"
  by (cases x; cases y) (simp_all add: is_zero_def f_add_def Let_def)

lemma zero_sub: "is_zero x \<Longrightarrow> is_zero y \<Longrightarrow> is_zero (f_sub x y)"
  by (cases x; cases y) (simp_all add: is_zero_def f_sub_def d_sub_def Let_def)

lemma fold_zero: "is_zero a \<Longrightarrow> (\<And>x. x \<in> set xs \<Longrightarrow> is_zero (f x)) \<Longrightarrow> is_zero (fold (\<lambda>x acc. f_add acc (f x)) xs a)"
  by (induction xs arbitrary: a) (simp_all add: zero_add)

lemma row_concat: "(\<And>x. x \<in> set xs \<Longrightarrow> length x = d) \<Longrightarrow> i < length xs \<Longrightarrow> row d (concat xs) i = xs ! i"
proof (induction xs arbitrary: i)
  case (Cons x xs)
  then show ?case by (cases i) (simp_all add: row_def)
qed simp

lemma concat_length: "(\<And>x. x \<in> set xs \<Longrightarrow> length x = d) \<Longrightarrow> length (concat xs) = length xs * d"
  by (induction xs) simp_all

lemma full_row_length: "length xs = n * d \<Longrightarrow> i < n \<Longrightarrow> length (row d xs i) = d"
  using row_nth [of i n d xs 0] by (cases "d = 0") (simp_all add: row_def)

lemma unit_row_0: "0 < d \<Longrightarrow> unit_row d 0 = Fin False 1 # replicate (d - 1) (Fin False 0)"
  by (cases d) (simp_all add: unit_row_def)

lemma f_lit_pos:
  assumes "pow2 (-126) \<le> q"
  shows "d_lt (Fin s 0) (f_lit q)"
proof -
  have pos: "0 < q" using assms pow2_pos [of "-126"] by linarith
  define u where "u = max (ilog2 q - 23) (-149)"
  have "pow2 (-126) < pow2 (ilog2 q + 1)" using assms ilog2_less [OF pos] by linarith
  then have "-126 \<le> ilog2 q" by (simp add: pow2_less_iff)
  then have "pow2 u \<le> pow2 (ilog2 q)" unfolding u_def by (intro pow2_mono) simp
  also have "\<dots> \<le> q" by (rule ilog2_le [OF pos])
  finally have "1 \<le> q / pow2 u" using pow2_pos [of u] by (simp add: le_divide_eq)
  then have "1 \<le> round_even (q / pow2 u)" by (intro round_even_ge) simp
  then have "0 < of_int (round_even (q / pow2 u)) * pow2 u" using pow2_pos [of u] by simp
  then show ?thesis using pos by (simp add: f_lit_def round_rat_def round_fmt_def binary32_def Let_def flip: u_def)
qed

lemma pow2_small: "pow2 (-126) \<le> 1 / 10 ^ 8" "pow2 (-126) \<le> 1 / 10 ^ 12" "pow2 (-126) \<le> 1 / 10 ^ 15"
  by (simp_all add: pow2_def)

lemma tol_pos: "d_lt (Fin s 0) iter_tol" "\<not> d_gt (Fin False 0) (f_lit (1 / 10 ^ 12))"
  using f_lit_pos [OF pow2_small(1)] f_lit_pos [OF pow2_small(2)] by (simp add: iter_tol_def, simp only: d_gt_def d_lt_asym simp_thms)

text \<open>On a matrix whose first column is zero, the first step finds the zero vector.\<close>

lemma power_iteration_blind:
  assumes "0 < d" "length mat = d * d" "list_all is_fin mat" "\<And>i. i < d \<Longrightarrow> is_zero (mat ! (i * d))"
  shows "power_iteration mat d = (unit_row d 0, Fin False 0)"
proof -
  let ?w = "mat_vec mat d (unit_row d 0)"
  have "is_zero (f_dot (row d mat i) (unit_row d 0))" if i: "i < d" for i
  proof -
    obtain r rs where r_rs: "row d mat i = r # rs"
      using full_row_length [OF assms(2) i] assms(1) by (cases "row d mat i") auto
    then have rs: "row d mat i = mat ! (i * d) # rs"
      using row_nth [of i d d mat 0] i assms(1,2) by simp
    have "set (row d mat i) \<subseteq> set mat" unfolding row_def by (meson set_drop_subset set_take_subset subset_trans)
    then have fin: "\<forall>x \<in> set rs. is_fin x" using assms(3) by (auto simp: rs list_all_iff)
    have "is_zero (f_mul x y)" if "(x, y) \<in> set (zip (row d mat i) (unit_row d 0))" for x y
      using that assms(4) [OF i] fin unfolding rs unit_row_0 [OF assms(1)]
    proof -
      from that have "(x = mat ! (i * d) \<and> y = Fin False 1) \<or> (x \<in> set rs \<and> y = Fin False 0)"
        unfolding rs unit_row_0 [OF assms(1)] by (auto dest: set_zip_leftD set_zip_rightD)
      then show ?thesis using assms(4) [OF i] fin by (auto intro: zero_mul simp: is_fin_def [of "Fin False 1"])
    qed
    then show ?thesis unfolding f_dot_def case_prod_beta by (intro fold_zero) auto
  qed
  then have w: "\<forall>x \<in> set ?w. is_zero x" by (auto simp: mat_vec_def)
  then have "is_zero (sum_squares ?w)" unfolding sum_squares_def
    by (intro fold_zero) (auto intro: zero_mul zero_fin)
  then obtain s where "sum_squares ?w = Fin s 0" by (cases "sum_squares ?w") (auto simp: is_zero_def)
  then have "d_lt (f_sqrt (sum_squares ?w)) iter_tol" using tol_pos(1) by (simp add: f_sqrt_def)
  then have "power_loop mat d (Suc 199) (unit_row d 0) (Fin False 0) = (unit_row d 0, Fin False 0)"
    by (simp only: power_loop.simps Let_def if_True)
  then show ?thesis unfolding power_iteration_def by simp
qed

lemma top_eigen_blind:
  assumes "0 < d" "length mat = d * d" "list_all is_fin mat" "\<And>i. i < d \<Longrightarrow> is_zero (mat ! (i * d))"
  shows "top_eigen mat d n = replicate n (unit_row d 0, Fin False 0)"
proof (induction n)
  case (Suc n)
  then show ?case using tol_pos(2) by (simp only: top_eigen.simps power_iteration_blind [OF assms] Let_def prod.case if_False replicate_Suc)
qed simp

lemma gather_samples_length:
  "gather_samples d es = Some data \<Longrightarrow> length data = sum_list (map em_count es) * d"
  by (induction es arbitrary: data) (auto simp: add_mult_distrib split: if_splits)

lemma scan_samples_count:
  "scan_samples es (Some d0) n = Inr (ds, m) \<Longrightarrow> 0 < d0 \<Longrightarrow> ds = Some d0 \<and> m = n + sum_list (map em_count es)"
proof (induction es arbitrary: n)
  case (Cons e es)
  define n' where "n' = (if 0 < em_dim e \<and> 0 < em_count e then n + em_count e else n)"
  have "scan_samples es (Some d0) n' = Inr (ds, m)" "em_dim e = d0"
    using Cons.prems by (simp_all add: n'_def dim_error_def split: if_splits)
  then have "ds = Some d0 \<and> m = n' + sum_list (map em_count es)" using Cons.IH Cons.prems(2) by blast
  then show ?case using \<open>em_dim e = d0\<close> Cons.prems(2) by (auto simp: n'_def)
qed simp

lemma scan_samples_zero:
  "scan_samples es (Some 0) n = Inr (ds, m) \<Longrightarrow> ds = Some 0"
  by (induction es arbitrary: n) (auto simp: dim_error_def split: if_splits)

lemma collect_samples_length:
  assumes "collect_samples es = Some (Inr (data, d, n))"
  shows "length data = n * d" "0 < d" "0 < n"
proof -
  from assms obtain e es' where es: "es = e # es'" by (cases es) (simp_all add: collect_samples_def dim_error_def)
  obtain ds where scan: "scan_samples es None 0 = Inr (ds, n)" "d = (case ds of None \<Rightarrow> 0 | Some d \<Rightarrow> d)"
    and nz: "n \<noteq> 0" "d \<noteq> 0" and g: "gather_samples d es = Some data"
    using assms es by (auto simp: collect_samples_def dim_error_def Let_def split: sum.splits if_splits)
  show "0 < d" "0 < n" using nz by simp_all
  let ?n0 = "if 0 < em_dim e \<and> 0 < em_count e then em_count e else 0"
  have s: "scan_samples es' (Some (em_dim e)) ?n0 = Inr (ds, n)"
    using scan(1) by (auto simp: es dim_error_def split: if_splits)
  have e: "0 < em_dim e"
  proof (rule ccontr)
    assume "\<not> 0 < em_dim e"
    then have "ds = Some 0" using scan_samples_zero [of es' ?n0] s by simp
    then show False using scan(2) nz(2) by simp
  qed
  have "n = sum_list (map em_count es)" using scan_samples_count [OF s e] e by (auto simp: es)
  then show "length data = n * d" using gather_samples_length [OF g] by simp
qed

lemma fold_map2_nth:
  assumes "\<And>k. k \<in> set ks \<Longrightarrow> length (f k) = m" "length acc = m" "j < m"
  shows "length (fold (\<lambda>k acc. map2 f_add acc (f k)) ks acc) = m \<and>
    fold (\<lambda>k acc. map2 f_add acc (f k)) ks acc ! j = fold (\<lambda>k x. f_add x (f k ! j)) ks (acc ! j)"
  using assms by (induction ks arbitrary: acc) simp_all

lemma outer_length [simp]: "length (outer f v) = length v * length v"
  unfolding outer_def by (subst concat_length [of _ "length v"]) auto

lemma outer_nth: "i < length v \<Longrightarrow> j < length v \<Longrightarrow> outer f v ! (i * length v + j) = f (v ! i) (v ! j)"
proof -
  assume i: "i < length v" and j: "j < length v"
  have "row (length v) (outer f v) i = map (f (v ! i)) v"
    unfolding outer_def using i by (subst row_concat) auto
  then show ?thesis using row_nth [OF i _ j, of "outer f v"] j by simp
qed

lemma center_data_row:
  assumes "length data = n * d" "length m = d" "k < n"
  shows "row d (center_data data n d m) k = map2 f_sub (row d data k) m"
proof -
  have "length (map2 f_sub (row d data i) m) = d" if "i < n" for i using full_row_length [OF assms(1) that] assms(2) by simp
  then show ?thesis unfolding center_data_def using assms(3) by (subst row_concat) auto
qed

lemma compute_mean_length:
  assumes "length data = n * d" "0 < d"
  shows "length (compute_mean data n d) = d"
  using fold_map2_nth [of "[0..<n]" "row d data" d "replicate d (Fin False 0)" 0] full_row_length [OF assms(1)] assms(2)
  by (simp add: compute_mean_def Let_def)

text \<open>A feature that is zero in all samples stays zero in the mean and leaves its column of the
  covariance matrix zero, as long as nothing overflows.\<close>

lemma covariance_blind:
  assumes data: "length data = n * d" "0 < d" and z: "\<And>k. k < n \<Longrightarrow> is_zero (data ! (k * d))"
    and fin: "list_all is_fin (center_data data n d (compute_mean data n d))" "list_all is_fin (sample_covariance data n d)"
    and i: "i < d"
  shows "length (sample_covariance data n d) = d * d" "is_zero (sample_covariance data n d ! (i * d))"
proof -
  define m where "m = compute_mean data n d"
  define inv where "inv = f_div (Fin False 1) (f_of_nat n)"
  define cen where "cen = center_data data n d m"
  have lm: "length m = d" unfolding m_def by (rule compute_mean_length [OF data])
  have rl: "length (row d data k) = d" if "k < n" for k by (rule full_row_length [OF data(1) that])
  have r0: "is_zero (row d data k ! 0)" if "k < n" for k
    using row_nth [OF that, of d data 0] data z [OF that] by simp
  have acc: "is_zero (fold (\<lambda>k x. f_add x (row d data k ! 0)) [0..<n] (replicate d (Fin False 0) ! 0))"
    by (rule fold_zero) (use data(2) r0 in simp_all)
  have "m ! 0 = f_mul (fold (\<lambda>k x. f_add x (row d data k ! 0)) [0..<n] (replicate d (Fin False 0) ! 0)) inv"
    using fold_map2_nth [of "[0..<n]" "row d data" d "replicate d (Fin False 0)" 0] rl data(2)
    by (simp add: m_def compute_mean_def Let_def inv_def)
  then have m0: "is_zero (m ! 0) \<or> \<not> is_fin (m ! 0)" using acc zero_mul_fin by metis
  have crow: "row d cen k = map2 f_sub (row d data k) m" if "k < n" for k
    unfolding cen_def by (rule center_data_row [OF data(1) lm that])
  have cmem: "is_fin (row d cen k ! j)" if "k < n" "j < d" for k j
  proof -
    have "row d cen k ! j \<in> set cen"
      using that crow [OF that(1)] rl [OF that(1)] lm
      by (metis in_set_dropD in_set_takeD length_map length_zip min.idem nth_mem row_def)
    then show ?thesis using fin(1) by (simp add: cen_def m_def list_all_iff)
  qed
  have c0: "is_zero (row d cen k ! 0)" if "k < n" for k
  proof -
    have eq: "row d cen k ! 0 = f_sub (row d data k ! 0) (m ! 0)" using crow [OF that] rl [OF that] lm data(2) by simp
    have "is_fin (m ! 0)"
      using cmem [OF that data(2)] unfolding eq
      by (cases "row d data k ! 0"; cases "m ! 0") (use r0 [OF that] in \<open>simp_all add: is_fin_def is_zero_def f_sub_def d_sub_def\<close>)
    then show ?thesis using m0 r0 [OF that] zero_sub by (simp add: eq)
  qed
  have lrow: "length (row d cen k) = d" if "k < n" for k using crow [OF that] rl [OF that] lm by simp
  have idx: "i * d < d * d" using i data(2) by simp
  have cov: "length (sample_covariance data n d) = d * d \<and> sample_covariance data n d ! (i * d) =
    f_mul (fold (\<lambda>k x. f_add x (outer f_mul (row d cen k) ! (i * d))) [0..<n] (Fin False 0)) inv"
    using fold_map2_nth [of "[0..<n]" "\<lambda>k. outer f_mul (row d cen k)" "d * d" "replicate (d * d) (Fin False 0)" "i * d"] lrow idx
    by (simp add: sample_covariance_def compute_covariance_def Let_def cen_def m_def inv_def)
  then show "length (sample_covariance data n d) = d * d" by simp
  have "is_zero (outer f_mul (row d cen k) ! (i * d))" if "k < n" for k
    using outer_nth [of i "row d cen k" 0 f_mul] lrow [OF that] i data(2) zero_mul(2) [OF cmem [OF that i] c0 [OF that]] by simp
  then have "is_zero (fold (\<lambda>k x. f_add x (outer f_mul (row d cen k) ! (i * d))) [0..<n] (Fin False 0))"
    by (intro fold_zero) simp_all
  moreover have "is_fin (sample_covariance data n d ! (i * d))"
  proof -
    have "sample_covariance data n d ! (i * d) \<in> set (sample_covariance data n d)" using cov idx by (intro nth_mem) simp
    then show ?thesis using fin(2) by (simp only: list_all_iff)
  qed
  ultimately show "is_zero (sample_covariance data n d ! (i * d))" using cov zero_mul_fin by metis
qed

lemma fix_row_unit: "0 < d \<Longrightarrow> fix_row d (t, unit_row d 0, v) = (unit_row d 0, v)"
proof -
  assume d: "0 < d"
  have r: "round_fmt binary64 False 1 = Fin False 1" "round_fmt binary32 False 1 = Fin False 1"
    using round_fmt_exact [of 1 binary64 0 False] round_fmt_exact [of 1 binary32 0 False]
    by (simp_all add: binary64_def binary32_def pow2_def)
  have one: "f_mul (Fin False 1) (Fin False 1) = Fin False 1" "f_add (Fin False 0) (Fin False 1) = Fin False 1"
    "f_add (Fin False 1) (Fin False 0) = Fin False 1"
    using r by (simp_all add: f_mul_def f_add_def round_rat_def Let_def)
  have "fold (\<lambda>x acc. f_add acc (f_mul x x)) (replicate m (Fin False 0)) (Fin False 1) = Fin False 1" for m
    by (induction m) (simp_all add: one, simp add: f_mul_def one)
  then have "sum_squares (unit_row d 0) = Fin False 1"
    by (simp add: unit_row_0 [OF d] sum_squares_def one)
  then show ?thesis by (simp add: fix_row_def)
qed

text \<open>When the first feature is zero in every sample and nothing overflows, \<open>FitPca\<close> reports no variance
  at all: the eigenvalues are zero, and every component is the direction of the first feature, whatever the
  other features are. The unit vectors that are to replace degenerate components do not.\<close>

theorem fit_pca_blind:
  assumes "collect_samples es = Some (Inr (data, d, n))" "target \<le> d"
    and "\<forall>k < n. is_zero (data ! (k * d))"
    and "list_all is_fin (center_data data n d (compute_mean data n d))" "list_all is_fin (sample_covariance data n d)"
  shows "\<exists>p. fit_pca es target = Some (Inr p) \<and> pc_eigvals p = replicate target (Fin False 0) \<and>
    pc_components p = concat (replicate target (unit_row d 0))"
proof -
  note len = collect_samples_length [OF assms(1)]
  have z: "is_zero (data ! (k * d))" if "k < n" for k using assms(3) that by simp
  note blind = covariance_blind [OF len(1,2) z assms(4,5)]
  have "top_eigen (sample_covariance data n d) d target = replicate target (unit_row d 0, Fin False 0)"
    by (rule top_eigen_blind [OF len(2) blind(1) assms(5) blind(2)]) (use len(2) in simp_all)
  moreover have "fix_degenerate d (replicate target (unit_row d 0, Fin False 0)) = replicate target (unit_row d 0, Fin False 0)"
    by (rule nth_equalityI) (simp_all add: fix_degenerate_def nth_enumerate_eq fix_row_unit [OF len(2)])
  ultimately show ?thesis using assms(1,2) by (simp add: fit_pca_def params_of_def)
qed

definition dead_samples :: "full_embedding list" where
  "dead_samples = [\<lparr>em_dim = 2, em_count = 2, em_data = [Fin False 0, Fin False 2, Fin False 0, Fin True 2],
     em_model = ''m'', em_global = False, em_grid = (1, 2), em_latency = 0, em_on_gpu = False\<rparr>]"

lemma round_pow2:
  assumes "f = binary64 \<or> f = binary32" "-126 \<le> e" "e < 128"
  shows "round_fmt f s (pow2 e) = Fin s (pow2 e)"
proof -
  have "pow2 e < pow2 (max_exp f)" using assms by (auto simp: pow2_less_iff binary64_def binary32_def)
  then have "round_fmt f s (of_int 1 * pow2 e) = Fin s (of_int 1 * pow2 e)"
    using assms by (intro round_fmt_exact) (auto simp: binary64_def binary32_def)
  then show ?thesis by simp
qed

lemma round_values:
  "round_fmt binary64 s 1 = Fin s 1" "round_fmt binary64 s 2 = Fin s 2" "round_fmt binary64 s 4 = Fin s 4"
  "round_fmt binary64 s 8 = Fin s 8" "round_fmt binary64 s (1 / 2) = Fin s (1 / 2)"
  "round_fmt binary32 s 1 = Fin s 1" "round_fmt binary32 s 2 = Fin s 2" "round_fmt binary32 s 4 = Fin s 4"
  "round_fmt binary32 s 8 = Fin s 8" "round_fmt binary32 s (1 / 2) = Fin s (1 / 2)"
proof -
  have v: "pow2 0 = 1" "pow2 1 = 2" "pow2 2 = 4" "pow2 3 = 8" "pow2 (-1) = 1 / 2" by (simp_all add: pow2_def)
  note b = round_pow2 [of binary64] round_pow2 [of binary32]
  show "round_fmt binary64 s 1 = Fin s 1" "round_fmt binary64 s 2 = Fin s 2" "round_fmt binary64 s 4 = Fin s 4"
    "round_fmt binary64 s 8 = Fin s 8" "round_fmt binary64 s (1 / 2) = Fin s (1 / 2)"
    "round_fmt binary32 s 1 = Fin s 1" "round_fmt binary32 s 2 = Fin s 2" "round_fmt binary32 s 4 = Fin s 4"
    "round_fmt binary32 s 8 = Fin s 8" "round_fmt binary32 s (1 / 2) = Fin s (1 / 2)"
    using b [of 0 s] b [of 1 s] b [of 2 s] b [of 3 s] b [of "-1" s] unfolding v by simp_all
qed

lemmas small_float_defs = f_add_def f_sub_def d_sub_def f_mul_def f_div_def f_of_nat_def round_rat_def round_values Let_def

text \<open>Two patches \<open>(0, 2)\<close> and \<open>(0, -2)\<close>: the second feature varies, and the fit does not see it.\<close>

lemma dead_mean: "compute_mean [Fin False 0, Fin False 2, Fin False 0, Fin True 2] 2 2 = [Fin False 0, Fin False 0]"
  by (simp add: compute_mean_def row_def upt_rec eval_nat_numeral, simp add: small_float_defs)

lemma dead_centered:
  "center_data [Fin False 0, Fin False 2, Fin False 0, Fin True 2] 2 2 [Fin False 0, Fin False 0] =
     [Fin False 0, Fin False 2, Fin False 0, Fin True 2]"
  by (simp add: center_data_def row_def upt_rec eval_nat_numeral, simp add: small_float_defs)

lemma dead_covariance:
  "sample_covariance [Fin False 0, Fin False 2, Fin False 0, Fin True 2] 2 2 =
     [Fin False 0, Fin False 0, Fin False 0, Fin False 4]"
  unfolding sample_covariance_def dead_mean dead_centered
  by (simp add: compute_covariance_def outer_def row_def upt_rec eval_nat_numeral, simp add: small_float_defs)

theorem fit_pca_blind_witness:
  "\<exists>p. fit_pca dead_samples 1 = Some (Inr p) \<and> pc_eigvals p = [Fin False 0] \<and>
    pc_components p = concat (replicate 1 (unit_row 2 0))"
proof -
  have c: "collect_samples dead_samples = Some (Inr ([Fin False 0, Fin False 2, Fin False 0, Fin True 2], 2, 2))"
    by (simp add: dead_samples_def collect_samples_def)
  have z: "\<forall>k < 2. is_zero ([Fin False 0, Fin False 2, Fin False 0, Fin True 2] ! (k * 2))"
    by (simp add: numeral_2_eq_2 All_less_Suc)
  show ?thesis
    using fit_pca_blind [OF c _ z, of 1] unfolding dead_mean dead_centered dead_covariance by (simp add: is_fin_def)
qed

end
