(* ===== verification/Dimension_Reducer.thy ===== *)
theory Dimension_Reducer
  imports Pca
begin

text \<open>
  Applying a fitted model (\<open>src/embedding/dimension_reducer.cpp\<close>): projection of embeddings, alone and
  in batches, and pooling of a patch grid. \<open>None\<close> is a read outside of an array.
\<close>

record reducer =
  rd_is_pca :: bool
  rd_components :: "dbl list"
  rd_target :: nat
  rd_input :: nat
  rd_mean :: "dbl list"

definition reducer_of_pca :: "pca_params \<Rightarrow> reducer" where
  "reducer_of_pca p =
     \<lparr>rd_is_pca = True, rd_components = pc_components p, rd_target = pc_target_dim p,
      rd_input = (if 0 < pc_target_dim p then length (pc_components p) div pc_target_dim p else 0),
      rd_mean = pc_mean p\<rparr>"

definition reducer_of_whitening :: "whitening_params \<Rightarrow> reducer" where
  "reducer_of_whitening p =
     \<lparr>rd_is_pca = False, rd_components = wh_transform p, rd_target = wh_target_dim p,
      rd_input = (if 0 < wh_target_dim p then length (wh_transform p) div wh_target_dim p else 0),
      rd_mean = []\<rparr>"

definition reduce_row :: "reducer \<Rightarrow> dbl list \<Rightarrow> dbl list" where
  "reduce_row r x =
     (let x' = (if rd_is_pca r then map2 f_sub x (rd_mean r) else x)
      in map (\<lambda>t. f_dot (row (rd_input r) (rd_components r) t) x') [0..<rd_target r])"

definition apply_reduce :: "reducer \<Rightarrow> dbl list \<Rightarrow> nat \<Rightarrow> dbl list option" where
  "apply_reduce r data n =
     (if length data < n * rd_input r \<or> (rd_is_pca r \<and> length (rd_mean r) < rd_input r) then None
      else Some (concat (map (\<lambda>i. reduce_row r (row (rd_input r) data i)) [0..<n])))"

definition reduced_meta :: "reducer \<Rightarrow> full_embedding \<Rightarrow> dbl list \<Rightarrow> int \<Rightarrow> full_embedding" where
  "reduced_meta r e data latency =
     \<lparr>em_dim = rd_target r, em_count = em_count e, em_data = data, em_model = em_model e @ ''_reduced'',
      em_global = (em_count e \<le> 1), em_grid = (if 1 < em_count e then em_grid e else (0, 0)),
      em_latency = latency, em_on_gpu = False\<rparr>"

definition reduce :: "reducer \<Rightarrow> full_embedding \<Rightarrow> full_embedding result option" where
  "reduce r e =
     (if em_on_gpu e then Some (dim_error ''::Reduce: input is on GPU'')
      else if em_dim e \<noteq> rd_input r
      then Some (dim_error (''::Reduce: input dim ('' @ nat_str (em_dim e) @ '') != expected dim ('' @
             nat_str (rd_input r) @ '')''))
      else if em_count e = 0 \<or> rd_target r = 0 then Some (Inr (reduced_meta r e [] 0))
      else map_option (\<lambda>data. Inr (reduced_meta r e data (em_latency e))) (apply_reduce r (em_data e) (em_count e)))"

text \<open>The first failure ends the batch and is its result.\<close>

fun reduce_batch :: "reducer \<Rightarrow> full_embedding list \<Rightarrow> full_embedding list \<Rightarrow> full_embedding list result option" where
  "reduce_batch r [] results = Some (Inr results)"
| "reduce_batch r (e # es) results =
     (case reduce r e of
        None \<Rightarrow> None
      | Some (Inl err) \<Rightarrow> Some (Inl err)
      | Some (Inr e') \<Rightarrow> reduce_batch r es (results @ [e']))"

datatype pooling = Average | Max_Pool

definition pool_rows :: "pooling \<Rightarrow> dbl list \<Rightarrow> nat \<Rightarrow> nat \<Rightarrow> dbl list" where
  "pool_rows strategy data n d =
     (case strategy of
        Average \<Rightarrow>
          let acc = fold (\<lambda>i p. map2 f_add p (row d data i)) [1..<n] (row d data 0);
              inv = f_div (Fin False 1) (f_of_nat n)
          in map (\<lambda>v. f_mul v inv) acc
      | Max_Pool \<Rightarrow>
          fold (\<lambda>i p. map2 (\<lambda>a v. if d_gt v a then v else a) p (row d data i)) [1..<n] (row d data 0))"

definition pooled_meta :: "full_embedding \<Rightarrow> dbl list \<Rightarrow> int \<Rightarrow> full_embedding" where
  "pooled_meta e data latency =
     \<lparr>em_dim = em_dim e, em_count = 1, em_data = data, em_model = em_model e @ ''_pooled'',
      em_global = True, em_grid = (0, 0), em_latency = latency, em_on_gpu = False\<rparr>"

definition pool :: "full_embedding \<Rightarrow> pooling \<Rightarrow> full_embedding result option" where
  "pool e strategy =
     (if em_on_gpu e then Some (dim_error ''::Pool: input is on GPU'')
      else if em_count e = 0 \<or> em_dim e = 0 then Some (Inr (pooled_meta e [] 0))
      else if length (em_data e) < em_count e * em_dim e then None
      else if em_count e = 1 then Some (Inr (pooled_meta e (take (em_dim e) (em_data e)) (em_latency e)))
      else Some (Inr (pooled_meta e (pool_rows strategy (em_data e) (em_count e) (em_dim e)) (em_latency e))))"

subsection \<open>Reducing keeps the layout\<close>

definition complete_embedding :: "full_embedding \<Rightarrow> bool" where
  "complete_embedding e \<longleftrightarrow> length (em_data e) = em_count e * em_dim e"

lemma reduce_row_length [simp]: "length (reduce_row r x) = rd_target r"
  by (simp add: reduce_row_def Let_def)

lemma apply_reduce_length: "apply_reduce r data n = Some out \<Longrightarrow> length out = n * rd_target r"
proof -
  assume "apply_reduce r data n = Some out"
  then have "out = concat (map (\<lambda>i. reduce_row r (row (rd_input r) data i)) [0..<n])"
    by (simp add: apply_reduce_def split: if_splits)
  then show ?thesis by (simp add: length_concat o_def sum_list_triv)
qed

text \<open>A complete embedding on the CPU whose dimension is the model's is reduced to a complete embedding.\<close>

lemma reduce_complete:
  assumes "complete_embedding e" "\<not> em_on_gpu e" "em_dim e = rd_input r" "rd_is_pca r \<longrightarrow> rd_input r \<le> length (rd_mean r)"
  shows "\<exists>e'. reduce r e = Some (Inr e') \<and> complete_embedding e' \<and> em_count e' = em_count e \<and> em_dim e' = rd_target r"
proof (cases "em_count e = 0 \<or> rd_target r = 0")
  case True
  then show ?thesis using assms by (auto simp: reduce_def reduced_meta_def complete_embedding_def)
next
  case False
  obtain out where "apply_reduce r (em_data e) (em_count e) = Some out"
    using assms by (auto simp: apply_reduce_def complete_embedding_def)
  then show ?thesis
    using False assms apply_reduce_length by (simp add: reduce_def reduced_meta_def complete_embedding_def)
qed

text \<open>Batches: when every embedding is complete and fits the model, the results are complete, in the
  order of the inputs and with their counts.\<close>

theorem reduce_batch_complete:
  assumes "\<forall>e \<in> set es. complete_embedding e \<and> \<not> em_on_gpu e \<and> em_dim e = rd_input r"
    and "rd_is_pca r \<longrightarrow> rd_input r \<le> length (rd_mean r)"
  shows "\<exists>out. reduce_batch r es results = Some (Inr (results @ out)) \<and> map em_count out = map em_count es \<and>
    (\<forall>e \<in> set out. complete_embedding e \<and> em_dim e = rd_target r)"
  using assms(1)
proof (induction es arbitrary: results)
  case (Cons e es)
  then obtain e' where e': "reduce r e = Some (Inr e')" "complete_embedding e'" "em_count e' = em_count e" "em_dim e' = rd_target r"
    using reduce_complete [of e r] assms(2) by auto
  obtain out where "reduce_batch r es (results @ [e']) = Some (Inr ((results @ [e']) @ out))" "map em_count out = map em_count es"
    "\<forall>e \<in> set out. complete_embedding e \<and> em_dim e = rd_target r"
    using Cons.IH [of "results @ [e']"] Cons.prems by auto
  then show ?case using e' by (intro exI [of _ "e' # out"]) simp
qed simp

definition sample_embedding :: full_embedding where
  "sample_embedding = \<lparr>em_dim = 2, em_count = 1, em_data = [Fin False 1, Fin False 0], em_model = ''m'',
     em_global = True, em_grid = (0, 0), em_latency = 0, em_on_gpu = False\<rparr>"

theorem reduce_batch_complete_witness:
  "\<exists>out. reduce_batch (reducer_of_pca tiny_pca) [sample_embedding] [] = Some (Inr ([] @ out)) \<and> map em_count out = [1]"
  using reduce_batch_complete [of "[sample_embedding]" "reducer_of_pca tiny_pca" "[]"]
  by (auto simp: sample_embedding_def reducer_of_pca_def tiny_pca_def complete_embedding_def)

text \<open>Pooling an embedding without vectors claims one vector of the full dimension and holds none of its
  values: the next reduction reads past the end of the array.\<close>

theorem pool_of_nothing:
  assumes "\<not> em_on_gpu e" "em_count e = 0" "em_dim e = rd_input r" "0 < rd_input r" "0 < rd_target r"
  shows "\<exists>e'. pool e strategy = Some (Inr e') \<and> em_count e' = 1 \<and> em_data e' = [] \<and> reduce r e' = None"
  using assms by (simp add: pool_def pooled_meta_def reduce_def apply_reduce_def)

theorem pool_of_nothing_witness:
  "\<exists>e'. pool (sample_embedding\<lparr>em_count := 0, em_data := []\<rparr>) Average = Some (Inr e') \<and> em_count e' = 1 \<and>
    em_data e' = [] \<and> reduce (reducer_of_pca tiny_pca) e' = None"
  by (rule pool_of_nothing) (simp_all add: sample_embedding_def reducer_of_pca_def tiny_pca_def)

end
