(* ===== verification/Descending_Sort.thy ===== *)
theory Descending_Sort
  imports Doubles "HOL-Library.Multiset"
begin

text \<open>
  \<open>std::sort\<close> by a descending floating-point key, as the code sorts regions and fused scores. The order of equal
  keys is unspecified in C++ and kept here.
\<close>

primrec insert_desc :: "('a \<Rightarrow> dbl) \<Rightarrow> 'a \<Rightarrow> 'a list \<Rightarrow> 'a list" where
  "insert_desc key r [] = [r]"
| "insert_desc key r (q # qs) = (if d_gt (key q) (key r) then q # insert_desc key r qs else r # q # qs)"

definition sort_desc :: "('a \<Rightarrow> dbl) \<Rightarrow> 'a list \<Rightarrow> 'a list" where
  "sort_desc key rs = foldr (insert_desc key) rs []"

lemma mset_sort_desc [simp]: "mset (sort_desc key rs) = mset rs"
proof -
  have "mset (insert_desc key r qs) = add_mset r (mset qs)" for r qs by (induction qs) simp_all
  then show ?thesis by (induction rs) (simp_all add: sort_desc_def)
qed

lemma set_sort_desc [simp]: "set (sort_desc key rs) = set rs"
  by (metis mset_sort_desc set_mset_mset)

lemma not_gt_trans:
  assumes "\<not> d_is_nan x" "\<not> d_is_nan y" "\<not> d_is_nan z" "\<not> d_gt y x" "\<not> d_gt z y"
  shows "\<not> d_gt z x"
proof
  assume "d_gt z x"
  then have "d_lt x z" by (simp add: d_gt_def)
  moreover have "d_le y x" "d_le z y" using assms not_d_lt_le by (auto simp: d_gt_def)
  ultimately show False using d_le_lt_trans [of y x z] assms(5) d_le_lt_trans by (auto simp: d_gt_def dest: d_lt_asym)
qed

lemma sorted_sort_desc:
  assumes "\<forall>r \<in> set rs. \<not> d_is_nan (key r)"
  shows "sorted_wrt (\<lambda>q r. \<not> d_gt (key r) (key q)) (sort_desc key rs)"
proof -
  let ?ok = "\<lambda>rs. \<forall>r \<in> set rs. \<not> d_is_nan (key r)"
  let ?srt = "sorted_wrt (\<lambda>q r. \<not> d_gt (key r) (key q))"
  have set_ins: "set (insert_desc key r qs) = insert r (set qs)" for r qs
    by (induction qs) auto
  have ins: "?srt (insert_desc key r qs)" if "?srt qs" "?ok (r # qs)" for r qs
    using that
  proof (induction qs)
    case (Cons q qs)
    have "\<not> d_gt (key x) (key r)" if "\<not> d_gt (key q) (key r)" "x \<in> set qs" for x
      by (rule not_gt_trans [of _ "key q"]) (use Cons.prems that in simp_all)
    moreover have "\<not> d_gt (key r) (key q)" if "d_gt (key q) (key r)"
      using that d_lt_asym by (simp add: d_gt_def)
    ultimately show ?case using Cons by (simp add: set_ins)
  qed simp
  show ?thesis using assms
  proof (induction rs)
    case (Cons r rs)
    then show ?case using ins [of "sort_desc key rs" r] set_sort_desc [of key rs] by (simp add: sort_desc_def)
  qed (simp add: sort_desc_def)
qed

end
