(* ===== verification/Connected_Components.thy ===== *)
theory Connected_Components
  imports Fact_Builder Descending_Sort
begin

text \<open>
  Defect regions (\<open>ConnectedComponents\<close> in \<open>src/detection/post_process_utils.cpp\<close>): two-pass
  labelling of a binary image with four-connectivity and a union-find structure whose \<open>find_root\<close>
  halves paths. The specification is the quotient of the foreground by connectedness.
\<close>

subsection \<open>The union-find structure\<close>

text \<open>\<open>find_root\<close> returns the root and the table with the halved path; \<open>None\<close> is a loop that does not
  end or an access outside of the table.\<close>

partial_function (option) find_root :: "nat list \<Rightarrow> nat \<Rightarrow> (nat \<times> nat list) option" where
  "find_root parent label =
     (if length parent \<le> label then None
      else if parent ! label = label then Some (label, parent)
      else if length parent \<le> parent ! label then None
      else let parent' = parent[label := parent ! (parent ! label)]
           in find_root parent' (parent' ! label))"

subsection \<open>First pass: provisional labels\<close>

type_synonym labels = "nat option list"

definition foreground :: "dbl list \<Rightarrow> nat \<Rightarrow> bool" where
  "foreground binary idx \<longleftrightarrow> \<not> d_le (binary ! idx) (Fin False 0)"

definition label_pixel :: "nat \<Rightarrow> dbl list \<Rightarrow> nat \<times> nat \<Rightarrow> labels \<times> nat list \<Rightarrow> (labels \<times> nat list) option" where
  "label_pixel w binary yx s =
     (case yx of (y, x) \<Rightarrow> case s of (labels, parent) \<Rightarrow>
        let idx = y * w + x
        in if \<not> foreground binary idx then Some (labels, parent)
           else let up = (if 0 < y then labels ! (idx - w) else None);
                    left = (if 0 < x then labels ! (idx - 1) else None)
                in case (up, left) of
                     (None, None) \<Rightarrow> Some (labels[idx := Some (length parent)], parent @ [length parent])
                   | (Some u, Some l) \<Rightarrow>
                       (case find_root parent u of
                          None \<Rightarrow> None
                        | Some (root_up, parent1) \<Rightarrow>
                            (case find_root parent1 l of
                               None \<Rightarrow> None
                             | Some (root_left, parent2) \<Rightarrow>
                                 let min_label = min root_up root_left
                                 in Some (labels[idx := Some min_label],
                                          if root_up \<noteq> root_left then parent2[max root_up root_left := min_label] else parent2)))
                   | (Some u, None) \<Rightarrow> Some (labels[idx := Some u], parent)
                   | (None, Some l) \<Rightarrow> Some (labels[idx := Some l], parent))"

definition pixels :: "nat \<Rightarrow> nat \<Rightarrow> (nat \<times> nat) list" where
  "pixels h w = concat (map (\<lambda>y. map (\<lambda>x. (y, x)) [0..<w]) [0..<h])"

primrec label_pixels :: "nat \<Rightarrow> dbl list \<Rightarrow> (nat \<times> nat) list \<Rightarrow> labels \<times> nat list \<Rightarrow> (labels \<times> nat list) option" where
  "label_pixels w binary [] s = Some s"
| "label_pixels w binary (p # ps) s = Option.bind (label_pixel w binary p s) (label_pixels w binary ps)"

subsection \<open>Second pass: statistics\<close>

record component_info =
  ci_max :: dbl
  ci_sum :: dbl
  pixel_count :: nat
  min_x :: nat
  min_y :: nat
  max_x :: nat
  max_y :: nat

definition fresh_component :: component_info where
  "fresh_component =
     \<lparr>ci_max = Fin False 0, ci_sum = Fin False 0, pixel_count = 0,
      min_x = 2 ^ 64 - 1, min_y = 2 ^ 64 - 1, max_x = 0, max_y = 0\<rparr>"

definition add_pixel :: "dbl \<Rightarrow> nat \<times> nat \<Rightarrow> component_info \<Rightarrow> component_info" where
  "add_pixel score yx ci =
     (case yx of (y, x) \<Rightarrow>
        \<lparr>ci_max = d_max (ci_max ci) score, ci_sum = f_add (ci_sum ci) score, pixel_count = pixel_count ci + 1,
         min_x = min (min_x ci) x, min_y = min (min_y ci) y, max_x = max (max_x ci) x, max_y = max (max_y ci) y\<rparr>)"

text \<open>The second pass also writes the root back to the label, which no later step reads.\<close>

primrec gather :: "nat \<Rightarrow> dbl list \<Rightarrow> labels \<Rightarrow> (nat \<times> nat) list \<Rightarrow> nat list \<times> component_info list \<Rightarrow> component_info list option" where
  "gather w scs labels [] s = Some (snd s)"
| "gather w scs labels (p # ps) s =
     (case p of (y, x) \<Rightarrow> case s of (parent, comps) \<Rightarrow>
        (case labels ! (y * w + x) of
           None \<Rightarrow> gather w scs labels ps (parent, comps)
         | Some label \<Rightarrow>
             (case find_root parent label of
                None \<Rightarrow> None
              | Some (r, parent') \<Rightarrow>
                  gather w scs labels ps
                    (parent', comps[r := add_pixel (scs ! (y * w + x)) (y, x) (comps ! r)]))))"

definition to_region :: "component_info \<Rightarrow> region_proposal" where
  "to_region ci =
     \<lparr>bounding_box = \<lparr>rect_x = word_of_nat (min_x ci), rect_y = word_of_nat (min_y ci),
        rect_width = word_of_nat (max_x ci - min_x ci + 1), rect_height = word_of_nat (max_y ci - min_y ci + 1)\<rparr>,
      max_anomaly_score = ci_max ci,
      mean_anomaly_score = f_div (ci_sum ci) (f_of_nat (pixel_count ci)),
      area_pixels = word_of_nat (pixel_count ci)\<rparr>"

text \<open>\<open>std::sort\<close> by descending score; the order of equal scores is unspecified in C++ and kept here.\<close>

definition sort_regions :: "region_proposal list \<Rightarrow> region_proposal list" where
  "sort_regions rs = sort_desc max_anomaly_score rs"

definition connected_components :: "dbl list \<Rightarrow> nat \<Rightarrow> nat \<Rightarrow> dbl list \<Rightarrow> region_proposal list option" where
  "connected_components binary h w scs =
     (if h = 0 \<or> w = 0 then Some []
      else case label_pixels w binary (pixels h w) (replicate (h * w) None, []) of
             None \<Rightarrow> None
           | Some (labels, parent) \<Rightarrow>
               if parent = [] then Some []
               else map_option (\<lambda>comps. sort_regions (map to_region (filter (\<lambda>ci. pixel_count ci \<noteq> 0) comps)))
                      (gather w scs labels (pixels h w) (parent, replicate (length parent) fresh_component)))"

subsection \<open>Representatives\<close>

text \<open>Every parent is at most its label, because the greater root is attached to the smaller and a
  halved path leads further down.\<close>

definition uf_ok :: "nat list \<Rightarrow> bool" where
  "uf_ok p \<longleftrightarrow> (\<forall>i < length p. p ! i \<le> i)"

lemma uf_le: "uf_ok p \<Longrightarrow> i < length p \<Longrightarrow> p ! i \<le> i"
  by (simp add: uf_ok_def)

function rep :: "nat list \<Rightarrow> nat \<Rightarrow> nat" where
  "rep p i = (if p ! i < i then rep p (p ! i) else i)"
  by auto
termination by (relation "measure snd") auto

declare rep.simps [simp del]

lemma rep_le: "rep p i \<le> i"
  by (induction p i rule: rep.induct) (subst rep.simps, auto)

lemma rep_root: "uf_ok p \<Longrightarrow> i < length p \<Longrightarrow> p ! rep p i = rep p i"
proof (induction p i rule: rep.induct)
  case (1 p i)
  show ?case
  proof (cases "p ! i < i")
    case True
    then show ?thesis using 1 by (subst (1 2) rep.simps) simp
  next
    case False
    then have "p ! i = i" using uf_le [OF 1(2,3)] by linarith
    then show ?thesis using False by (subst (1 2) rep.simps) simp
  qed
qed

lemma rep_of_root: "p ! i = i \<Longrightarrow> rep p i = i"
  by (subst rep.simps) simp

lemma rep_step: "uf_ok p \<Longrightarrow> i < length p \<Longrightarrow> rep p (p ! i) = rep p i"
  by (subst (2) rep.simps) (auto simp: uf_ok_def rep_of_root dest: le_neq_implies_less)

lemma rep_idem: "uf_ok p \<Longrightarrow> i < length p \<Longrightarrow> rep p (rep p i) = rep p i"
  using rep_root rep_of_root by blast

text \<open>Attaching a root to a smaller root merges the two classes.\<close>

lemma rep_union:
  assumes "uf_ok p" "a < length p" "p ! a = a" "p ! b = b" "b < a" "i < length p"
  shows "rep (p[a := b]) i = (if rep p i = a then b else rep p i)"
  using assms(6)
proof (induction i rule: less_induct)
  case (less i)
  have b: "rep (p[a := b]) b = b" using assms(4,5) by (intro rep_of_root) simp
  show ?case
  proof (cases "i = a")
    case True
    then have "rep (p[a := b]) i = rep (p[a := b]) b" using assms(2,5) by (subst rep.simps) simp
    then show ?thesis using True b rep_of_root [of p a] assms(3) by simp
  next
    case False
    then have same: "p[a := b] ! i = p ! i" by simp
    show ?thesis
    proof (cases "p ! i < i")
      case True
      then have "rep (p[a := b]) i = rep (p[a := b]) (p ! i)" by (subst rep.simps) (simp add: same)
      also have "\<dots> = (if rep p (p ! i) = a then b else rep p (p ! i))" using less True by simp
      finally show ?thesis using rep_step [OF assms(1) less.prems] by simp
    next
      case f: False
      then have "p ! i = i" using uf_le [OF assms(1) less.prems] by linarith
      then show ?thesis using same False rep_of_root by simp
    qed
  qed
qed

text \<open>Halving a path changes no representative.\<close>

lemma rep_halve:
  assumes "uf_ok p" "l < length p" "i < length p"
  shows "rep (p[l := p ! (p ! l)]) i = rep p i"
  using assms(3)
proof (induction i rule: less_induct)
  case (less i)
  have pl: "p ! l \<le> l" by (rule uf_le [OF assms(1,2)])
  have pl: "p ! l \<le> l" "p ! (p ! l) \<le> p ! l" using pl uf_le [OF assms(1), of "p ! l"] assms(2) by simp_all
  define q where "q = p[l := p ! (p ! l)]"
  show ?case
  proof (cases "q ! i < i")
    case True
    have qi: "rep p (q ! i) = rep p i"
    proof (cases "i = l")
      case i: True
      have "rep p (p ! (p ! l)) = rep p l" using rep_step [OF assms(1)] pl assms(2) by simp
      then show ?thesis using i assms(2) by (simp add: q_def)
    next
      case False
      then show ?thesis using rep_step [OF assms(1) less.prems] by (simp add: q_def)
    qed
    have "rep q i = rep q (q ! i)" using True by (subst rep.simps) simp
    also have "\<dots> = rep p (q ! i)" unfolding q_def using less True by (simp add: q_def)
    finally show ?thesis using qi by (simp add: q_def)
  next
    case False
    have "p ! i = i"
    proof (cases "i = l")
      case True
      then have "\<not> p ! (p ! l) < l" using False assms(2) by (simp add: q_def)
      then show ?thesis using True pl by simp
    next
      case ne: False
      then show ?thesis using False uf_le [OF assms(1) less.prems] by (simp add: q_def)
    qed
    moreover have "rep q i = i" using False by (subst rep.simps) simp
    ultimately show ?thesis by (simp add: rep_of_root q_def)
  qed
qed

text \<open>The loop ends and returns the representative; it leaves the classes alone.\<close>

definition same_classes :: "nat list \<Rightarrow> nat list \<Rightarrow> bool" where
  "same_classes p q \<longleftrightarrow> uf_ok q \<and> length q = length p \<and> (\<forall>i < length p. rep q i = rep p i)"

lemma find_root_rep:
  assumes "uf_ok p" "l < length p"
  shows "\<exists>q. find_root p l = Some (rep p l, q) \<and> same_classes p q"
  using assms
proof (induction l arbitrary: p rule: less_induct)
  case (less l)
  show ?case
  proof (cases "p ! l = l")
    case True
    then show ?thesis using less.prems by (subst find_root.simps) (simp add: rep_of_root same_classes_def)
  next
    case False
    have lt: "p ! l < l" using uf_le [OF less.prems] False by simp
    then have pl: "p ! l < l" "p ! (p ! l) \<le> p ! l" "p ! l < length p"
      using uf_le [OF less.prems(1), of "p ! l"] less.prems(2) by simp_all
    define p' where "p' = p[l := p ! (p ! l)]"
    have le: "p ! (p ! l) \<le> l" using pl by linarith
    have ok: "uf_ok p'"
      unfolding uf_ok_def p'_def
    proof (intro allI impI)
      fix i assume "i < length (p[l := p ! (p ! l)])"
      then show "p[l := p ! (p ! l)] ! i \<le> i" using uf_le [OF less.prems(1)] le by (cases "i = l") simp_all
    qed
    have next_l: "p' ! l = p ! (p ! l)" using less.prems(2) by (simp add: p'_def)
    have lt: "p' ! l < l" "p' ! l < length p'" using pl by (simp_all add: next_l, simp add: p'_def)
    obtain q where q: "find_root p' (p' ! l) = Some (rep p' (p' ! l), q)" "same_classes p' q"
      using less.IH [OF lt(1) ok lt(2)] by blast
    have "rep p' (p' ! l) = rep p' l" using rep_step [OF ok, of l] less.prems(2) by (simp add: p'_def)
    also have "\<dots> = rep p l" unfolding p'_def by (rule rep_halve [OF less.prems less.prems(2)])
    finally have r: "rep p' (p' ! l) = rep p l" .
    have "find_root p l = find_root p' (p' ! l)"
      using less.prems(2) False pl(3) by (subst find_root.simps) (simp add: p'_def Let_def)
    moreover have "same_classes p q"
      using q(2) rep_halve [OF less.prems] by (simp add: same_classes_def p'_def)
    ultimately show ?thesis using q(1) r by simp
  qed
qed

subsection \<open>Connectedness\<close>

text \<open>\<open>j\<close> is the pixel to the right of \<open>i\<close> in the same line, or the one below.\<close>

definition adjacent :: "nat \<Rightarrow> nat \<Rightarrow> nat \<Rightarrow> bool" where
  "adjacent w i j \<longleftrightarrow> (j = i + 1 \<and> j mod w \<noteq> 0) \<or> j = i + w"

definition edges :: "nat \<Rightarrow> dbl list \<Rightarrow> nat \<Rightarrow> (nat \<times> nat) set" where
  "edges w binary n =
     {(i, j). i < n \<and> j < n \<and> foreground binary i \<and> foreground binary j \<and> (adjacent w i j \<or> adjacent w j i)}"

text \<open>How the classes change when one element with edges to \<open>B\<close> is added.\<close>

lemma class_extend:
  assumes f: "\<And>i j. i \<in> A \<Longrightarrow> j \<in> A \<Longrightarrow> f i = f j \<longleftrightarrow> (i, j) \<in> E\<^sup>*"
    and E: "E \<subseteq> A \<times> A" "sym E" and B: "B \<subseteq> A"
    and E': "E' = E \<union> {n} \<times> B \<union> B \<times> {n}"
    and g: "\<And>b. b \<in> B \<Longrightarrow> g b = g n" "\<And>i j. i \<in> A \<Longrightarrow> j \<in> A \<Longrightarrow> f i = f j \<Longrightarrow> g i = g j"
      "\<And>i j. i \<in> A \<Longrightarrow> j \<in> A \<Longrightarrow> g i = g j \<Longrightarrow> f i = f j \<or> (\<exists>b \<in> B. \<exists>c \<in> B. f i = f b \<and> f j = f c)"
      "\<And>i. i \<in> A \<Longrightarrow> g i = g n \<Longrightarrow> \<exists>b \<in> B. f i = f b"
    and ij: "i \<in> insert n A" "j \<in> insert n A"
  shows "g i = g j \<longleftrightarrow> (i, j) \<in> E'\<^sup>*"
proof
  have edge: "g j = g k" if jk: "(j, k) \<in> E'" for j k
  proof -
    from jk have "(j, k) \<in> E \<or> (j = n \<and> k \<in> B) \<or> (j \<in> B \<and> k = n)" unfolding E' by simp
    then show ?thesis
    proof (elim disjE conjE)
      assume e: "(j, k) \<in> E"
      then have A: "j \<in> A" "k \<in> A" using E(1) by auto
      have "f j = f k" using f [OF A] e by simp
      then show ?thesis by (rule g(2) [OF A])
    next
      assume "j = n" "k \<in> B"
      then show ?thesis using g(1) [of k] by simp
    next
      assume "j \<in> B" "k = n"
      then show ?thesis using g(1) [of j] by simp
    qed
  qed
  assume "(i, j) \<in> E'\<^sup>*"
  then show "g i = g j"
    by (induction rule: rtrancl_induct) (simp_all add: edge)
next
  assume eq: "g i = g j"
  have sub: "E\<^sup>* \<subseteq> E'\<^sup>*" unfolding E' by (rule rtrancl_mono) blast
  have "sym E'" using E(2) unfolding E' sym_def by blast
  then have "sym (E'\<^sup>*)" by (rule sym_rtrancl)
  then have sym: "(a, b) \<in> E'\<^sup>* \<Longrightarrow> (b, a) \<in> E'\<^sup>*" for a b by (rule symD)
  have to_n: "(a, n) \<in> E'\<^sup>*" if ab: "a \<in> A" "b \<in> B" "f a = f b" for a b
  proof -
    have "b \<in> A" using ab(2) B by (rule subsetD [rotated])
    then have "(a, b) \<in> E'\<^sup>*" using f [OF ab(1), of b] ab(3) by (intro subsetD [OF sub]) simp
    moreover have "(b, n) \<in> E'" using ab(2) unfolding E' by simp
    ultimately show ?thesis by (rule rtrancl_into_rtrancl)
  qed
  have n_case: "(a, n) \<in> E'\<^sup>*" if "a \<in> A" "g a = g n" for a
    using g(4) [OF that] to_n [OF that(1)] by (elim bexE)
  have both: "(a, b) \<in> E'\<^sup>*" if "(a, n) \<in> E'\<^sup>*" "(b, n) \<in> E'\<^sup>*" for a b
    using that(1) sym [OF that(2)] by (rule rtrancl_trans)
  show "(i, j) \<in> E'\<^sup>*"
  proof (cases "i = n")
    case i: True
    show ?thesis
    proof (cases "j = n")
      case False
      then have "(j, n) \<in> E'\<^sup>*" using ij(2) eq i by (intro n_case) simp_all
      then show ?thesis using i sym by simp
    qed (simp add: i)
  next
    case i: False
    then have iA: "i \<in> A" using ij(1) by simp
    show ?thesis
    proof (cases "j = n")
      case True
      then show ?thesis using n_case [OF iA] eq by simp
    next
      case False
      then have jA: "j \<in> A" using ij(2) by simp
      from g(3) [OF iA jA eq] show ?thesis
      proof
        assume "f i = f j"
        then have "(i, j) \<in> E\<^sup>*" using f [OF iA jA] by simp
        then show ?thesis by (rule subsetD [OF sub])
      next
        assume "\<exists>b \<in> B. \<exists>c \<in> B. f i = f b \<and> f j = f c"
        then obtain b c where bc: "b \<in> B" "c \<in> B" "f i = f b" "f j = f c" by (elim bexE conjE)
        show ?thesis by (rule both [OF to_n [OF iA bc(1,3)] to_n [OF jA bc(2,4)]])
      qed
    qed
  qed
qed

subsection \<open>The first pass finds the components\<close>

definition class_of :: "labels \<Rightarrow> nat list \<Rightarrow> nat \<Rightarrow> nat" where
  "class_of labels parent i = (case labels ! i of None \<Rightarrow> 0 | Some l \<Rightarrow> rep parent l)"

definition labelled_upto :: "nat \<Rightarrow> dbl list \<Rightarrow> nat \<Rightarrow> nat \<Rightarrow> labels \<times> nat list \<Rightarrow> bool" where
  "labelled_upto w binary n_pixels n s \<longleftrightarrow>
     (case s of (labels, parent) \<Rightarrow>
        length labels = n_pixels \<and> uf_ok parent \<and>
        (\<forall>i < n_pixels. labels ! i = None \<longleftrightarrow> \<not> (i < n \<and> foreground binary i)) \<and>
        (\<forall>i < n_pixels. \<forall>l. labels ! i = Some l \<longrightarrow> l < length parent) \<and>
        (\<forall>i < n. \<forall>j < n. foreground binary i \<longrightarrow> foreground binary j \<longrightarrow>
           (class_of labels parent i = class_of labels parent j \<longleftrightarrow> (i, j) \<in> (edges w binary n)\<^sup>*)))"

definition neighbours :: "nat \<Rightarrow> dbl list \<Rightarrow> nat \<Rightarrow> nat set" where
  "neighbours w binary n =
     {i. i < n \<and> foreground binary i \<and> (w \<le> n \<and> i = n - w \<or> n mod w \<noteq> 0 \<and> i = n - 1)}"

lemma edges_step:
  assumes "0 < w"
  shows "edges w binary (Suc n) =
    (if foreground binary n then edges w binary n \<union> {n} \<times> neighbours w binary n \<union> neighbours w binary n \<times> {n}
     else edges w binary n)"
proof -
  have bwd: "adjacent w i n \<longleftrightarrow> w \<le> n \<and> i = n - w \<or> n mod w \<noteq> 0 \<and> i = n - 1" if "i < n" for i
    using that by (auto simp: adjacent_def)
  have fwd: "\<not> adjacent w n i" if "i \<le> n" for i using that assms by (auto simp: adjacent_def)
  show ?thesis
  proof (rule set_eqI)
    fix e :: "nat \<times> nat"
    obtain i j where e: "e = (i, j)" by (cases e)
    have "e \<in> edges w binary (Suc n) \<longleftrightarrow> foreground binary i \<and> foreground binary j \<and>
      (if i < n \<and> j < n then adjacent w i j \<or> adjacent w j i
       else if i < n \<and> j = n then adjacent w i n else i = n \<and> j < n \<and> adjacent w j n)"
      using fwd [of i] fwd [of j] unfolding edges_def e by (auto simp: less_Suc_eq)
    then show "e \<in> edges w binary (Suc n) \<longleftrightarrow> e \<in>
      (if foreground binary n then edges w binary n \<union> {n} \<times> neighbours w binary n \<union> neighbours w binary n \<times> {n}
       else edges w binary n)"
      using bwd [of i] bwd [of j] unfolding edges_def neighbours_def e by (cases "i < n"; cases "j < n") auto
  qed
qed

lemma edges_within: "edges w binary n \<subseteq> {i. i < n \<and> foreground binary i} \<times> {i. i < n \<and> foreground binary i}"
  by (auto simp: edges_def)

lemma sym_edges: "sym (edges w binary n)"
  by (auto simp: edges_def sym_def)

lemma class_less:
  assumes "labelled_upto w binary N n (labels, p)" "n \<le> N" "i < n" "foreground binary i"
  obtains l where "labels ! i = Some l" "l < length p" "class_of labels p i = rep p l"
proof -
  have "i < N" using assms(2,3) by simp
  then obtain l where l: "labels ! i = Some l" "l < length p"
    using assms(1,3,4) unfolding labelled_upto_def prod.case by (metis option.exhaust)
  then show thesis by (intro that [of l]) (simp_all add: class_of_def)
qed

text \<open>The step of the first pass: old classes change by \<open>h\<close>, which may only merge those of the neighbours.\<close>

lemma extend_labels:
  assumes L: "labelled_upto w binary N n (labels, p)" and n: "n < N" "0 < w" "foreground binary n"
    and p': "uf_ok p'" "length p \<le> length p'" "l' < length p'"
    and h: "\<And>l. l < length p \<Longrightarrow> rep p' l = h (rep p l)"
      "\<And>b. b \<in> neighbours w binary n \<Longrightarrow> h (class_of labels p b) = rep p' l'"
      "\<And>r s. h r = h s \<Longrightarrow> r < length p \<Longrightarrow> s < length p \<Longrightarrow>
         r = s \<or> (\<exists>b \<in> neighbours w binary n. \<exists>c \<in> neighbours w binary n. r = class_of labels p b \<and> s = class_of labels p c)"
      "\<And>r. h r = rep p' l' \<Longrightarrow> r < length p \<Longrightarrow> \<exists>b \<in> neighbours w binary n. r = class_of labels p b"
  shows "labelled_upto w binary N (Suc n) (labels[n := Some l'], p')"
proof -
  define A where "A = {i. i < n \<and> foreground binary i}"
  define f where "f = class_of labels p"
  define g where "g = class_of (labels[n := Some l']) p'"
  have len: "length labels = N" using L by (simp add: labelled_upto_def)
  have gn: "g n = rep p' l'" using len n(1) by (simp add: g_def class_of_def)
  have cls: "\<exists>l < length p. f i = rep p l \<and> g i = h (f i) \<and> f i < length p" if i: "i \<in> A" for i
  proof -
    have "i < n" "foreground binary i" using i by (simp_all add: A_def)
    from class_less [OF L _ this] obtain l where l: "labels ! i = Some l" "l < length p" "f i = rep p l"
      using n(1) unfolding f_def by auto
    have "g i = rep p' l" using l(1) \<open>i < n\<close> by (simp add: g_def class_of_def)
    then show ?thesis using h(1) [OF l(2)] l(2,3) rep_le [of p l] by auto
  qed
  have BA: "neighbours w binary n \<subseteq> A" by (auto simp: neighbours_def A_def)
  have old: "f i = f j \<longleftrightarrow> (i, j) \<in> (edges w binary n)\<^sup>*" if "i \<in> A" "j \<in> A" for i j
    using L that unfolding labelled_upto_def prod.case A_def f_def by blast
  have new: "g i = g j \<longleftrightarrow> (i, j) \<in> (edges w binary (Suc n))\<^sup>*" if "i \<in> insert n A" "j \<in> insert n A" for i j
  proof (rule class_extend [where A = A and f = f and E = "edges w binary n" and B = "neighbours w binary n" and n = n])
    show "edges w binary n \<subseteq> A \<times> A" unfolding A_def by (rule edges_within)
    show "edges w binary (Suc n) = edges w binary n \<union> {n} \<times> neighbours w binary n \<union> neighbours w binary n \<times> {n}"
      using edges_step [OF n(2)] n(3) by simp
    show "g b = g n" if "b \<in> neighbours w binary n" for b
      using cls [OF subsetD [OF BA that]] h(2) [OF that] gn by (auto simp: f_def)
    show "g i = g j" if "i \<in> A" "j \<in> A" "f i = f j" for i j
      using cls [OF that(1)] cls [OF that(2)] that(3) by auto
    show "f i = f j \<or> (\<exists>b \<in> neighbours w binary n. \<exists>c \<in> neighbours w binary n. f i = f b \<and> f j = f c)"
      if "i \<in> A" "j \<in> A" "g i = g j" for i j
      using h(3) [of "f i" "f j"] cls [OF that(1)] cls [OF that(2)] that(3) by (auto simp: f_def)
    show "\<exists>b \<in> neighbours w binary n. f i = f b" if "i \<in> A" "g i = g n" for i
      using h(4) [of "f i"] cls [OF that(1)] that(2) gn by (auto simp: f_def)
  qed (use old BA sym_edges that in simp_all)
  have A': "insert n A = {i. i < Suc n \<and> foreground binary i}" using n(3) by (auto simp: A_def less_Suc_eq)
  show ?thesis
    unfolding labelled_upto_def prod.case
  proof (intro conjI)
    show "\<forall>i < N. labels[n := Some l'] ! i = None \<longleftrightarrow> \<not> (i < Suc n \<and> foreground binary i)"
      using L n len by (auto simp: labelled_upto_def nth_list_update less_Suc_eq)
    show "\<forall>i < N. \<forall>l. labels[n := Some l'] ! i = Some l \<longrightarrow> l < length p'"
    proof (intro allI impI)
      fix i l assume "i < N" and l: "labels[n := Some l'] ! i = Some l"
      then have "i \<noteq> n \<Longrightarrow> l < length p" using L by (simp add: labelled_upto_def)
      then show "l < length p'" using l len n(1) p'(2,3) by (cases "i = n") simp_all
    qed
    show "\<forall>i < Suc n. \<forall>j < Suc n. foreground binary i \<longrightarrow> foreground binary j \<longrightarrow>
      (class_of (labels[n := Some l']) p' i = class_of (labels[n := Some l']) p' j) =
      ((i, j) \<in> (edges w binary (Suc n))\<^sup>*)"
      using new unfolding A' g_def by simp
  qed (use len p' in simp_all)
qed

lemma rep_append:
  assumes "uf_ok p" "i < length p"
  shows "rep (p @ q) i = rep p i"
  using assms(2)
proof (induction i rule: less_induct)
  case (less i)
  have "(p @ q) ! i = p ! i" using less.prems by (simp add: nth_append)
  then show ?case using less by (subst (1 2) rep.simps) auto
qed

lemma merge_roots:
  assumes p: "uf_ok p" and sc: "same_classes p q" and ul: "u < length p" "l < length p"
  defines "r \<equiv> min (rep p u) (rep p l)"
  defines "m \<equiv> (if rep p u \<noteq> rep p l then q[max (rep p u) (rep p l) := r] else q)"
  shows "uf_ok m" "length m = length p" "r < length p" "rep m r = r"
    "\<And>k. k < length p \<Longrightarrow> rep m k = (if rep p k = rep p u \<or> rep p k = rep p l then r else rep p k)"
proof -
  have q: "uf_ok q" "length q = length p" "\<And>i. i < length p \<Longrightarrow> rep q i = rep p i"
    using sc by (simp_all add: same_classes_def)
  have lt: "rep p u < length p" "rep p l < length p" using rep_le [of p u] rep_le [of p l] ul by linarith+
  have root: "q ! rep p u = rep p u" "q ! rep p l = rep p l"
    using rep_root [OF q(1), of u] rep_root [OF q(1), of l] q(2,3) ul by simp_all
  define a where "a = max (rep p u) (rep p l)"
  have ar: "r = rep p u \<and> a = rep p l \<or> r = rep p l \<and> a = rep p u" "r \<le> a"
    unfolding r_def a_def by linarith+
  have qa: "a < length q" "q ! a = a" "q ! r = r" "r < length q" using ar(1) lt root q(2) by auto
  show "length m = length p" "r < length p" using q(2) qa(4) by (simp_all add: m_def)
  have m: "m = (if r = a then q else q[a := r])" using ar unfolding m_def a_def by auto
  show "uf_ok m"
    unfolding m uf_ok_def using ar(2) q(1) qa(1) by (auto simp: uf_ok_def nth_list_update)
  show rep_m: "rep m k = (if rep p k = rep p u \<or> rep p k = rep p l then r else rep p k)" if "k < length p" for k
  proof (cases "r = a")
    case True
    then show ?thesis using q(3) [OF that] ar m by auto
  next
    case False
    then have "r < a" using ar(2) by simp
    from rep_union [OF q(1) qa(1,2,3) this, of k] show ?thesis
      using q(2) q(3) [OF that] that False ar m by auto
  qed
  have "rep p r = r" using ar(1) rep_idem [OF p] ul by auto
  then show "rep m r = r" using rep_m [of r] qa(4) q(2) ar(1) by auto
qed

lemma label_pixel_step:
  assumes L: "labelled_upto w binary N n s" and n: "n < N" "0 < w"
  shows "\<exists>s'. label_pixel w binary (n div w, n mod w) s = Some s' \<and> labelled_upto w binary N (Suc n) s'"
proof -
  obtain labels p where s: "s = (labels, p)" by (cases s)
  note L = L [unfolded s]
  have idx: "n div w * w + n mod w = n" by simp
  have uf: "uf_ok p" using L by (simp add: labelled_upto_def)
  have len: "length labels = N" using L by (simp add: labelled_upto_def)
  define up where "up = (if 0 < n div w then labels ! (n - w) else None)"
  define left where "left = (if 0 < n mod w then labels ! (n - 1) else None)"
  have wn: "0 < n div w \<longleftrightarrow> w \<le> n" using n(2) by (simp add: div_greater_zero_iff)
  have left_pos: "n mod w \<noteq> 0 \<Longrightarrow> 0 < n" by (cases n) simp_all
  have none: "labels ! i = None \<longleftrightarrow> \<not> foreground binary i" if "i < n" for i
    using L that n(1) by (auto simp: labelled_upto_def)
  have some: "l < length p" if "labels ! i = Some l" "i < n" for i l
    using L that n(1) unfolding labelled_upto_def prod.case by (meson less_trans)
  have up: "up = (if w \<le> n then labels ! (n - w) else None)" unfolding up_def wn ..
  have nb: "neighbours w binary n = {i. (i = n - w \<and> up \<noteq> None) \<or> (i = n - 1 \<and> left \<noteq> None)}"
    using none [of "n - w"] none [of "n - 1"] n(2) left_pos
    by (auto simp: neighbours_def up left_def split: if_splits)
  have up_lt: "l < length p \<and> class_of labels p (n - w) = rep p l" if "up = Some l" for l
    using that some [of "n - w"] n(2) by (auto simp: up class_of_def split: if_splits)
  have left_lt: "l < length p \<and> class_of labels p (n - 1) = rep p l" if "left = Some l" for l
    using that some [of "n - 1"] left_pos by (auto simp: left_def class_of_def split: if_splits)
  show ?thesis
  proof (cases "foreground binary n")
    case False
    then have "label_pixel w binary (n div w, n mod w) s = Some s"
      by (simp add: label_pixel_def s idx)
    moreover have "labelled_upto w binary N (Suc n) s"
      using L False edges_step [OF n(2), of binary n] unfolding s labelled_upto_def prod.case
      by (auto simp: less_Suc_eq)
    ultimately show ?thesis by simp
  next
    case fg: True
    note ext = extend_labels [OF L n fg]
    have lp: "label_pixel w binary (n div w, n mod w) s =
      (case (up, left) of
         (None, None) \<Rightarrow> Some (labels[n := Some (length p)], p @ [length p])
       | (Some u, Some l) \<Rightarrow> Option.bind (find_root p u) (\<lambda>(root_up, p1). Option.bind (find_root p1 l) (\<lambda>(root_left, p2).
           Some (labels[n := Some (min root_up root_left)],
             if root_up \<noteq> root_left then p2[max root_up root_left := min root_up root_left] else p2)))
       | (Some u, None) \<Rightarrow> Some (labels[n := Some u], p)
       | (None, Some l) \<Rightarrow> Some (labels[n := Some l], p))"
      unfolding label_pixel_def s prod.case Let_def idx up_def [symmetric] left_def [symmetric]
      by (simp add: fg Option.bind_eq_Some_conv split: option.split)
    show ?thesis
    proof (cases up; cases left)
      assume none: "up = None" "left = None"
      have uf': "uf_ok (p @ [length p])" using uf by (simp add: uf_ok_def nth_append)
      have "labelled_upto w binary N (Suc n) (labels[n := Some (length p)], p @ [length p])"
      proof (rule ext [OF uf', where h = id])
        have root: "rep (p @ [length p]) (length p) = length p" by (rule rep_of_root) simp
        show "\<exists>b \<in> neighbours w binary n. r = class_of labels p b"
          if "id r = rep (p @ [length p]) (length p)" "r < length p" for r
          using that root by simp
      qed (use nb none rep_append [OF uf] in simp_all)
      then show ?thesis using lp none by simp
    next
      fix l assume l: "up = None" "left = Some l"
      have "labelled_upto w binary N (Suc n) (labels[n := Some l], p)"
        by (rule ext [OF uf, where h = id]) (use nb l left_lt [OF l(2)] in simp_all)
      then show ?thesis using lp l by simp
    next
      fix u assume u: "up = Some u" "left = None"
      have "labelled_upto w binary N (Suc n) (labels[n := Some u], p)"
        by (rule ext [OF uf, where h = id]) (use nb u up_lt [OF u(1)] in simp_all)
      then show ?thesis using lp u by simp
    next
      fix u l assume ul: "up = Some u" "left = Some l"
      obtain p1 where p1: "find_root p u = Some (rep p u, p1)" "same_classes p p1"
        using find_root_rep [OF uf, of u] up_lt [OF ul(1)] by auto
      have l_lt: "l < length p" using left_lt [OF ul(2)] by simp
      then obtain p2 where p2: "find_root p1 l = Some (rep p l, p2)" "same_classes p1 p2"
        using find_root_rep [of p1 l] p1(2) by (auto simp: same_classes_def)
      have sc: "same_classes p p2" using p1(2) p2(2) by (simp add: same_classes_def)
      have "neighbours w binary n = {n - w, n - 1}" unfolding nb using ul by auto
      then have nbr: "class_of labels p ` neighbours w binary n = {rep p u, rep p l}"
        using up_lt [OF ul(1)] left_lt [OF ul(2)] by (simp del: One_nat_def)
      define r where "r = min (rep p u) (rep p l)"
      define p3 where "p3 = (if rep p u \<noteq> rep p l then p2[max (rep p u) (rep p l) := r] else p2)"
      have p3: "uf_ok p3" "length p3 = length p" "r < length p" "rep p3 r = r"
        "\<And>k. k < length p \<Longrightarrow> rep p3 k = (if rep p k = rep p u \<or> rep p k = rep p l then r else rep p k)"
        using merge_roots [OF uf sc] up_lt [OF ul(1)] l_lt unfolding r_def p3_def by auto
      have "labelled_upto w binary N (Suc n) (labels[n := Some r], p3)"
      proof (rule ext [OF p3(1), where h = "\<lambda>k. if k = rep p u \<or> k = rep p l then r else k"])
        have img: "(\<exists>b \<in> neighbours w binary n. k = class_of labels p b) \<longleftrightarrow> k = rep p u \<or> k = rep p l" for k
          using nbr by (auto simp: set_eq_iff image_iff)
        have r_mem: "r = rep p u \<or> r = rep p l" unfolding r_def by linarith
        show "(if class_of labels p b = rep p u \<or> class_of labels p b = rep p l then r else class_of labels p b) = rep p3 r"
          if "b \<in> neighbours w binary n" for b using img [of "class_of labels p b"] that p3(4) by auto
        show "\<exists>b \<in> neighbours w binary n. k = class_of labels p b"
          if "(if k = rep p u \<or> k = rep p l then r else k) = rep p3 r" for k
          using that r_mem unfolding img p3(4) by (auto split: if_splits)
        show "k = m \<or> (\<exists>b \<in> neighbours w binary n. \<exists>c \<in> neighbours w binary n. k = class_of labels p b \<and> m = class_of labels p c)"
          if "(if k = rep p u \<or> k = rep p l then r else k) = (if m = rep p u \<or> m = rep p l then r else m)" for k m
        proof (cases "k = m")
          case False
          then have "k = rep p u \<or> k = rep p l" "m = rep p u \<or> m = rep p l"
            using that r_mem by (auto split: if_splits)
          then show ?thesis using img by blast
        qed simp
      qed (use p3 in simp_all)
      moreover have "label_pixel w binary (n div w, n mod w) s = Some (labels[n := Some r], p3)"
        unfolding lp ul by (simp add: p1(1) p2(1) r_def p3_def)
      ultimately show ?thesis by blast
    qed
  qed
qed

lemma pixels_split: "0 < w \<Longrightarrow> pixels h w = map (\<lambda>i. (i div w, i mod w)) [0..<h * w]"
proof (induction h)
  case (Suc h)
  have "[0..<Suc h * w] = [0..<h * w] @ map (\<lambda>x. h * w + x) [0..<w]"
    using upt_add_eq_append [of 0 "h * w" w] map_add_upt [of "h * w" w] by (simp add: add.commute)
  moreover have "map (\<lambda>i. (i div w, i mod w)) (map (\<lambda>x. h * w + x) [0..<w]) = map (\<lambda>x. (h, x)) [0..<w]"
    using Suc.prems by simp
  moreover have "pixels (Suc h) w = pixels h w @ map (\<lambda>x. (h, x)) [0..<w]" by (simp add: pixels_def)
  ultimately show ?case using Suc.IH [OF Suc.prems] by (simp only: map_append)
qed (simp add: pixels_def)

lemma label_pixels_append:
  "label_pixels w binary (ps @ qs) s = Option.bind (label_pixels w binary ps s) (label_pixels w binary qs)"
  by (induction ps arbitrary: s) (simp_all split: bind_split)

lemma label_pixels_run:
  assumes "0 < w" "n \<le> N"
  shows "\<exists>s. label_pixels w binary (map (\<lambda>i. (i div w, i mod w)) [0..<n]) (replicate N None, []) = Some s
    \<and> labelled_upto w binary N n s"
  using assms(2)
proof (induction n)
  case 0
  show ?case by (simp add: labelled_upto_def uf_ok_def)
next
  case (Suc n)
  then obtain s where s: "label_pixels w binary (map (\<lambda>i. (i div w, i mod w)) [0..<n]) (replicate N None, []) = Some s"
    "labelled_upto w binary N n s" by auto
  from label_pixel_step [OF s(2) _ assms(1)] Suc.prems obtain s' where
    "label_pixel w binary (n div w, n mod w) s = Some s'" "labelled_upto w binary N (Suc n) s'" by auto
  then show ?case using s(1) by (simp add: label_pixels_append)
qed

subsection \<open>The second pass folds over each component\<close>

definition class_pixels :: "labels \<Rightarrow> nat list \<Rightarrow> nat \<Rightarrow> nat \<Rightarrow> nat list" where
  "class_pixels labels p n r = filter (\<lambda>i. labels ! i \<noteq> None \<and> class_of labels p i = r) [0..<n]"

definition add_index :: "nat \<Rightarrow> dbl list \<Rightarrow> nat \<Rightarrow> component_info \<Rightarrow> component_info" where
  "add_index w scs i = add_pixel (scs ! i) (i div w, i mod w)"

lemma gather_run:
  assumes p: "uf_ok p" "\<And>i l. i < N \<Longrightarrow> labels ! i = Some l \<Longrightarrow> l < length p"
  shows "n \<le> N \<Longrightarrow> same_classes p q \<Longrightarrow> length comps = length p \<Longrightarrow>
    (\<forall>r < length p. comps ! r = fold (add_index w scs) (class_pixels labels p n r) fresh_component) \<Longrightarrow>
    gather w scs labels (map (\<lambda>i. (i div w, i mod w)) [n..<N]) (q, comps) =
      Some (map (\<lambda>r. fold (add_index w scs) (class_pixels labels p N r) fresh_component) [0..<length p])"
proof (induction "N - n" arbitrary: n q comps)
  case 0
  then have "n = N" by simp
  then show ?case using 0 by (auto intro!: nth_equalityI)
next
  case (Suc d)
  then have n: "n < N" "d = N - Suc n" by simp_all
  have cp: "class_pixels labels p (Suc n) r =
    (if labels ! n \<noteq> None \<and> class_of labels p n = r then class_pixels labels p n r @ [n] else class_pixels labels p n r)" for r
    by (simp add: class_pixels_def)
  show ?case
  proof (cases "labels ! n")
    case None
    have "gather w scs labels (map (\<lambda>i. (i div w, i mod w)) [Suc n..<N]) (q, comps) =
      Some (map (\<lambda>r. fold (add_index w scs) (class_pixels labels p N r) fresh_component) [0..<length p])"
      using Suc.prems n None by (intro Suc.hyps(1)) (simp_all add: cp)
    then show ?thesis using n(1) None by (simp add: upt_conv_Cons)
  next
    case (Some l)
    have l: "l < length p" using p(2) [OF n(1) Some] .
    then obtain q' where q': "find_root q l = Some (rep p l, q')" "same_classes q q'"
      using find_root_rep [of q l] Suc.prems(2) by (auto simp: same_classes_def)
    have cls: "class_of labels p n = rep p l" using Some by (simp add: class_of_def)
    have lt: "rep p l < length p" using rep_le [of p l] l by simp
    have sc: "same_classes p q'" using q'(2) Suc.prems(2) by (simp add: same_classes_def)
    let ?comps = "comps[rep p l := add_index w scs n (comps ! rep p l)]"
    have "gather w scs labels (map (\<lambda>i. (i div w, i mod w)) [Suc n..<N]) (q', ?comps) =
      Some (map (\<lambda>r. fold (add_index w scs) (class_pixels labels p N r) fresh_component) [0..<length p])"
    proof (rule Suc.hyps(1) [OF n(2) _ sc])
      show "\<forall>r < length p. ?comps ! r = fold (add_index w scs) (class_pixels labels p (Suc n) r) fresh_component"
        using Suc.prems(3,4) lt Some cls by (auto simp: cp nth_list_update)
    qed (use n Suc.prems(3) in simp_all)
    then show ?thesis using n(1) Some q'(1) by (simp add: upt_conv_Cons add_index_def)
  qed
qed

lemma fold_min: "finite A \<Longrightarrow> fold (\<lambda>i. min (f i)) L (Min (insert a A)) = (Min (insert a (A \<union> f ` set L)) :: nat)"
proof (induction L arbitrary: A)
  case (Cons i L)
  have "min (f i) (Min (insert a A)) = Min (insert a (insert (f i) A))"
    using Cons.prems by (simp add: insert_commute [of a "f i"])
  then show ?case using Cons.IH [of "insert (f i) A"] Cons.prems by simp
qed simp

lemma fold_max: "finite A \<Longrightarrow> fold (\<lambda>i. max (f i)) L (Max (insert a A)) = (Max (insert a (A \<union> f ` set L)) :: nat)"
proof (induction L arbitrary: A)
  case (Cons i L)
  have "max (f i) (Max (insert a A)) = Max (insert a (insert (f i) A))"
    using Cons.prems by (simp add: insert_commute [of a "f i"])
  then show ?case using Cons.IH [of "insert (f i) A"] Cons.prems by simp
qed simp

lemma fold_add_index:
  "fold (add_index w scs) L ci =
     \<lparr>ci_max = fold (\<lambda>i m. d_max m (scs ! i)) L (ci_max ci), ci_sum = fold (\<lambda>i t. f_add t (scs ! i)) L (ci_sum ci),
      pixel_count = pixel_count ci + length L,
      min_x = fold (\<lambda>i. min (i mod w)) L (min_x ci), min_y = fold (\<lambda>i. min (i div w)) L (min_y ci),
      max_x = fold (\<lambda>i. max (i mod w)) L (max_x ci), max_y = fold (\<lambda>i. max (i div w)) L (max_y ci)\<rparr>"
  by (induction L arbitrary: ci) (simp_all add: add_index_def add_pixel_def min.commute max.commute)

text \<open>The reference: a component is a set of pixels, and its region is read off that set.\<close>

definition components :: "nat \<Rightarrow> dbl list \<Rightarrow> nat \<Rightarrow> nat set set" where
  "components w binary n = {i. i < n \<and> foreground binary i} // (edges w binary n)\<^sup>*"

definition region_of :: "nat \<Rightarrow> dbl list \<Rightarrow> nat set \<Rightarrow> region_proposal" where
  "region_of w scs C =
     (let xs = (\<lambda>i. i mod w) ` C; ys = (\<lambda>i. i div w) ` C in
      \<lparr>bounding_box = \<lparr>rect_x = word_of_nat (Min xs), rect_y = word_of_nat (Min ys),
         rect_width = word_of_nat (Max xs - Min xs + 1), rect_height = word_of_nat (Max ys - Min ys + 1)\<rparr>,
       max_anomaly_score = fold (\<lambda>i m. d_max m (scs ! i)) (sorted_list_of_set C) (Fin False 0),
       mean_anomaly_score =
         f_div (fold (\<lambda>i t. f_add t (scs ! i)) (sorted_list_of_set C) (Fin False 0)) (f_of_nat (card C)),
       area_pixels = word_of_nat (card C)\<rparr>)"

lemma min_fold_fresh:
  assumes "L \<noteq> []" "\<And>i. i \<in> set L \<Longrightarrow> f i \<le> a"
  shows "fold (\<lambda>i. min (f i)) L a = (Min (f ` set L) :: nat)"
proof -
  have "fold (\<lambda>i. min (f i)) L a = Min (insert a (f ` set L))" using fold_min [of "{}" f L a] by simp
  also have "\<dots> = min a (Min (f ` set L))" using assms(1) by (intro Min_insert) simp_all
  also have "\<dots> = Min (f ` set L)"
    using assms by (intro min_absorb2) (meson List.finite_set Min_le finite_imageI hd_in_set image_eqI order_trans)
  finally show ?thesis .
qed

lemma max_fold_zero:
  assumes "L \<noteq> []"
  shows "fold (\<lambda>i. max (f i)) L 0 = (Max (f ` set L) :: nat)"
  using fold_max [of "{}" f L 0] assms by (simp add: Max_insert)

lemma region_of_class:
  assumes "L \<noteq> []" "sorted L" "distinct L" "\<And>i. i \<in> set L \<Longrightarrow> i < 2 ^ 64"
  shows "to_region (fold (add_index w scs) L fresh_component) = region_of w scs (set L)"
proof -
  have L: "sorted_list_of_set (set L) = L" "card (set L) = length L"
    using assms(2,3) by (simp_all add: sorted_list_of_set.idem_if_sorted_distinct distinct_card)
  have "i mod w \<le> 2 ^ 64 - 1 \<and> i div w \<le> 2 ^ 64 - 1" if "i \<in> set L" for i
    using assms(4) [OF that] mod_less_eq_dividend [of i w] div_le_dividend [of i w] by linarith
  then have m: "fold (\<lambda>i. min (i mod w)) L (2 ^ 64 - 1) = Min ((\<lambda>i. i mod w) ` set L)"
    "fold (\<lambda>i. min (i div w)) L (2 ^ 64 - 1) = Min ((\<lambda>i. i div w) ` set L)"
    using assms(1) by (intro min_fold_fresh; simp)+
  show ?thesis
    unfolding to_region_def region_of_def fold_add_index Let_def L fresh_component_def
    using m max_fold_zero [OF assms(1)] by simp
qed

lemma class_is_image:
  assumes "labelled_upto w binary n n (labels, p)" "i < n" "foreground binary i"
  shows "set (class_pixels labels p n (class_of labels p i)) = (edges w binary n)\<^sup>* `` {i}"
proof -
  have fg: "labels ! j \<noteq> None \<longleftrightarrow> foreground binary j" if "j < n" for j
    using assms(1) that by (auto simp: labelled_upto_def)
  have conn: "class_of labels p i = class_of labels p j \<longleftrightarrow> (i, j) \<in> (edges w binary n)\<^sup>*"
    if "j < n" "foreground binary j" for j
    using assms that unfolding labelled_upto_def prod.case by blast
  have inside: "j < n \<and> foreground binary j" if "(i, j) \<in> (edges w binary n)\<^sup>*" for j
    using that assms(2,3) by (induction rule: rtrancl_induct) (auto simp: edges_def)
  show ?thesis
    unfolding class_pixels_def using fg conn inside by (auto dest: sym)
qed

lemma classes_are_components:
  assumes L: "labelled_upto w binary n n (labels, p)"
  defines "C \<equiv> \<lambda>r. set (class_pixels labels p n r)"
  defines "R \<equiv> {r. r < length p \<and> C r \<noteq> {}}"
  shows "C ` R = components w binary n" "inj_on C R"
proof -
  have mem: "i \<in> C r \<longleftrightarrow> i < n \<and> foreground binary i \<and> class_of labels p i = r" for i r
    using L by (auto simp: C_def class_pixels_def labelled_upto_def)
  show "inj_on C R"
  proof (rule inj_onI)
    fix r s assume r: "r \<in> R" and eq: "C r = C s"
    have "C r \<noteq> {}" using r by (simp add: R_def)
    then have "\<exists>i. i \<in> C r" by (simp only: ex_in_conv simp_thms)
    then obtain i where i: "i \<in> C r" ..
    then have "i \<in> C s" using eq by (rule subst [rotated])
    then show "r = s" using i mem [of i r] mem [of i s] by simp
  qed
  have img: "C (class_of labels p i) = (edges w binary n)\<^sup>* `` {i}" if "i < n" "foreground binary i" for i
    unfolding C_def using that by (rule class_is_image [OF L])
  have lt: "class_of labels p i < length p" if "i < n" "foreground binary i" for i
    by (rule class_less [OF L order_refl that]) (metis le_less_trans rep_le)
  show "C ` R = components w binary n"
  proof (intro set_eqI iffI)
    fix c assume "c \<in> C ` R"
    then obtain r where r: "c = C r" "r \<in> R" by (elim imageE)
    then have "C r \<noteq> {}" by (simp add: R_def)
    then have "\<exists>i. i \<in> C r" by (simp only: ex_in_conv simp_thms)
    then obtain i where "i \<in> C r" ..
    then have "c = C (class_of labels p i)" "i < n" "foreground binary i" using r(1) mem [of i r] by simp_all
    then show "c \<in> components w binary n" unfolding components_def using img by (auto intro: quotientI)
  next
    fix c assume "c \<in> components w binary n"
    then obtain i where i: "i < n" "foreground binary i" "c = (edges w binary n)\<^sup>* `` {i}"
      unfolding components_def by (auto elim: quotientE)
    then have "class_of labels p i \<in> R" using lt mem [of i "class_of labels p i"] unfolding R_def by auto
    then show "c \<in> C ` R" using img i by auto
  qed
qed

text \<open>\<open>std::max\<close> starts from zero and never moves onto a NaN, so the scores compare.\<close>

lemma max_not_nan: "\<not> d_is_nan a \<Longrightarrow> \<not> d_is_nan (fold (\<lambda>i m. d_max m (f i)) L a)"
proof (induction L arbitrary: a)
  case (Cons i L)
  have "\<not> d_is_nan (d_max a (f i))" using Cons.prems by (cases "f i") (simp_all add: d_max_def)
  then show ?case using Cons.IH by simp
qed simp

lemma regions_of_classes:
  assumes L: "labelled_upto w binary n n (labels, p)" and n: "n < 2 ^ 64"
  shows "mset (map to_region (filter (\<lambda>ci. pixel_count ci \<noteq> 0)
           (map (\<lambda>r. fold (add_index w scs) (class_pixels labels p n r) fresh_component) [0..<length p])))
    = image_mset (region_of w scs) (mset_set (components w binary n))"
proof -
  define C where "C = (\<lambda>r. set (class_pixels labels p n r))"
  define R where "R = {r. r < length p \<and> C r \<noteq> {}}"
  define comp where "comp = (\<lambda>r. fold (add_index w scs) (class_pixels labels p n r) fresh_component)"
  have CR: "C ` R = components w binary n" "inj_on C R"
    using classes_are_components [OF L] unfolding C_def R_def by blast+
  have nz: "pixel_count (comp r) \<noteq> 0 \<longleftrightarrow> C r \<noteq> {}" for r
    by (simp add: comp_def fold_add_index fresh_component_def C_def)
  have to_r: "to_region (comp r) = region_of w scs (C r)" if "C r \<noteq> {}" for r
    unfolding comp_def C_def
  proof (rule region_of_class)
    show "class_pixels labels p n r \<noteq> []" using that by (auto simp: C_def)
    show "sorted (class_pixels labels p n r)" unfolding class_pixels_def by (rule sorted_wrt_filter) simp
    show "distinct (class_pixels labels p n r)" by (simp add: class_pixels_def)
    show "i < 2 ^ 64" if "i \<in> set (class_pixels labels p n r)" for i
      using that n by (simp add: class_pixels_def)
  qed
  have set_R: "set (filter (\<lambda>r. C r \<noteq> {}) [0..<length p]) = R" by (auto simp: R_def)
  have "mset (map to_region (filter (\<lambda>ci. pixel_count ci \<noteq> 0) (map comp [0..<length p])))
    = image_mset (\<lambda>r. to_region (comp r)) (mset (filter (\<lambda>r. C r \<noteq> {}) [0..<length p]))"
    unfolding filter_map comp_apply nz by (simp add: multiset.map_comp comp_def [symmetric] o_def)
  also have "\<dots> = image_mset (\<lambda>r. to_region (comp r)) (mset_set R)"
    using mset_set_set [of "filter (\<lambda>r. C r \<noteq> {}) [0..<length p]"] set_R by simp
  also have "\<dots> = image_mset (\<lambda>r. region_of w scs (C r)) (mset_set R)"
    by (intro image_mset_cong) (auto simp: R_def to_r)
  also have "\<dots> = image_mset (region_of w scs) (image_mset C (mset_set R))"
    by (simp add: multiset.map_comp o_def)
  also have "\<dots> = image_mset (region_of w scs) (mset_set (components w binary n))"
    using image_mset_mset_set [OF CR(2)] CR(1) by simp
  finally show ?thesis by (simp only: comp_def)
qed

lemma connected_components_run:
  assumes "h * w < 2 ^ 64"
  shows "\<exists>rs. connected_components binary h w scs = Some rs \<and>
    mset rs = image_mset (region_of w scs) (mset_set (components w binary (h * w))) \<and>
    sorted_wrt (\<lambda>q r. \<not> d_gt (max_anomaly_score r) (max_anomaly_score q)) rs"
proof (cases "h = 0 \<or> w = 0")
  case True
  then have "h * w = 0" by auto
  then have "components w binary (h * w) = {}" unfolding \<open>h * w = 0\<close> by (simp add: components_def quotient_def)
  then show ?thesis using True by (simp add: connected_components_def)
next
  case False
  then have w: "0 < w" by simp
  obtain labels p where run: "label_pixels w binary (pixels h w) (replicate (h * w) None, []) = Some (labels, p)"
    and L: "labelled_upto w binary (h * w) (h * w) (labels, p)"
    using label_pixels_run [OF w order_refl, of binary "h * w"] pixels_split [OF w, of h] by auto
  have p: "uf_ok p" "\<And>i l. i < h * w \<Longrightarrow> labels ! i = Some l \<Longrightarrow> l < length p"
    using L by (simp_all add: labelled_upto_def)
  define rs where "rs = map to_region (filter (\<lambda>ci. pixel_count ci \<noteq> 0)
    (map (\<lambda>r. fold (add_index w scs) (class_pixels labels p (h * w) r) fresh_component) [0..<length p]))"
  have g: "gather w scs labels (pixels h w) (p, replicate (length p) fresh_component) =
    Some (map (\<lambda>r. fold (add_index w scs) (class_pixels labels p (h * w) r) fresh_component) [0..<length p])"
    unfolding pixels_split [OF w]
    by (rule gather_run [OF p]) (simp_all add: same_classes_def p(1) class_pixels_def)
  have "connected_components binary h w scs = Some (sort_regions rs)"
    using False g by (cases "p = []") (simp_all add: connected_components_def run rs_def sort_regions_def sort_desc_def)
  moreover have "mset (sort_regions rs) = image_mset (region_of w scs) (mset_set (components w binary (h * w)))"
    unfolding sort_regions_def mset_sort_desc rs_def by (rule regions_of_classes [OF L assms])
  moreover have "\<forall>r \<in> set rs. \<not> d_is_nan (max_anomaly_score r)"
  proof -
    have "\<not> d_is_nan (max_anomaly_score (to_region (fold (add_index w scs) L fresh_component)))" for L
      using max_not_nan [of "Fin False 0" "\<lambda>i. scs ! i" L] by (simp add: to_region_def fold_add_index fresh_component_def)
    then show ?thesis by (auto simp: rs_def)
  qed
  ultimately show ?thesis using sorted_sort_desc [of rs max_anomaly_score] by (simp add: sort_regions_def)
qed

text \<open>C25 \<open>ConnectedComponents\<close> returns, and its result is one region per connected component of the
  foreground, with the bounding box, the size, the greatest and the mean score of its pixels, in
  descending order of the greatest score.\<close>

theorem connected_components_spec:
  assumes "h * w < 2 ^ 64"
  shows "\<exists>rs. connected_components binary h w scs = Some rs \<and>
    mset rs = image_mset (region_of w scs) (mset_set (components w binary (h * w))) \<and>
    sorted_wrt (\<lambda>q r. \<not> d_gt (max_anomaly_score r) (max_anomaly_score q)) rs"
  by (rule connected_components_run [OF assms])

text \<open>A U of foreground is one component, found as two labels that the last line merges.\<close>

theorem connected_components_spec_witness:
  "\<exists>rs. connected_components [Fin False 1, Fin False 0, Fin False 1, Fin False 1, Fin False 1, Fin False 1] 2 3 (replicate 6 (Fin False 1)) = Some rs \<and>
    mset rs = image_mset (region_of 3 (replicate 6 (Fin False 1)))
      (mset_set (components 3 [Fin False 1, Fin False 0, Fin False 1, Fin False 1, Fin False 1, Fin False 1] (2 * 3)))"
  using connected_components_spec [of 2 3 "[Fin False 1, Fin False 0, Fin False 1, Fin False 1, Fin False 1, Fin False 1]" "replicate 6 (Fin False 1)"] by auto

end
