(* ===== verification/Option_Lists.thy ===== *)
theory Option_Lists
  imports Main
begin

text \<open>Reading a list by index and mapping with a function that may be undefined (\<open>None\<close>).\<close>

definition at_index :: "'a list \<Rightarrow> nat \<Rightarrow> 'a option" where
  "at_index xs i = (if i < length xs then Some (xs ! i) else None)"

lemma at_index_some [simp]: "i < length xs \<Longrightarrow> at_index xs i = Some (xs ! i)"
  by (simp add: at_index_def)

primrec map_opt :: "('a \<Rightarrow> 'b option) \<Rightarrow> 'a list \<Rightarrow> 'b list option" where
  "map_opt f [] = Some []"
| "map_opt f (x # xs) =
     (case f x of None \<Rightarrow> None | Some y \<Rightarrow> map_option (\<lambda>ys. y # ys) (map_opt f xs))"

lemma map_opt_total:
  "(\<And>x. x \<in> set xs \<Longrightarrow> f x \<noteq> None) \<Longrightarrow> \<exists>ys. map_opt f xs = Some ys \<and> length ys = length xs"
proof (induction xs)
  case (Cons x xs)
  then obtain ys where "map_opt f xs = Some ys" "length ys = length xs" by auto
  moreover obtain y where "f x = Some y" using Cons.prems [of x] by auto
  ultimately show ?case by simp
qed simp

lemma map_opt_eq: "(\<And>x. x \<in> set xs \<Longrightarrow> f x = Some (g x)) \<Longrightarrow> map_opt f xs = Some (map g xs)"
  by (induction xs) simp_all

lemma map_opt_none: "x \<in> set xs \<Longrightarrow> f x = None \<Longrightarrow> map_opt f xs = None"
  by (induction xs) (auto split: option.split)

lemma map_opt_length: "map_opt f xs = Some ys \<Longrightarrow> length ys = length xs"
  by (induction xs arbitrary: ys) (auto split: option.splits)

end
