(* ===== verification/Post_Process.thy ===== *)
theory Post_Process
  imports Connected_Components Option_Lists
begin

text \<open>
  The post-processing of patch scores (\<open>src/detection/post_process_utils.cpp\<close>): bilinear upsampling,
  Gaussian smoothing, and \<open>BuildDetectionResult\<close>, which thresholds the smoothed image and labels its
  regions. \<open>None\<close> is undefined behaviour: a read outside of an array or the conversion of a value
  that no \<open>size_t\<close> holds. The exponential function of the C library is a parameter.
\<close>

subsection \<open>Bilinear upsampling\<close>

definition half :: dbl where
  "half = Fin False (1 / 2)"

text \<open>The clamped source coordinate of a target coordinate.\<close>

definition source_coord :: "nat \<Rightarrow> nat \<Rightarrow> nat \<Rightarrow> dbl" where
  "source_coord src_n dst_n y =
     d_max (Fin False 0)
       (d_min (f_sub (f_div (f_mul (f_add (f_of_nat y) half) (f_of_nat src_n)) (f_of_nat dst_n)) half)
         (f_sub (f_of_nat src_n) (Fin False 1)))"

definition mix :: "dbl \<Rightarrow> dbl \<Rightarrow> dbl \<Rightarrow> dbl" where
  "mix a b t = f_add (f_mul a (f_sub (Fin False 1) t)) (f_mul b t)"

definition bilinear_pixel :: "dbl list \<Rightarrow> nat \<Rightarrow> nat \<Rightarrow> nat \<Rightarrow> nat \<Rightarrow> nat \<times> nat \<Rightarrow> dbl option" where
  "bilinear_pixel src src_h src_w dst_h dst_w yx =
     (case yx of (y, x) \<Rightarrow>
        let src_y = source_coord src_h dst_h y; src_x = source_coord src_w dst_w x in
        case (to_size src_y, to_size src_x) of
          (Some y0, Some x0) \<Rightarrow>
            let y1 = min (y0 + 1) (src_h - 1); wy = f_sub src_y (f_of_nat y0);
                x1 = min (x0 + 1) (src_w - 1); wx = f_sub src_x (f_of_nat x0)
            in (case (at_index src (y0 * src_w + x0), at_index src (y0 * src_w + x1),
                      at_index src (y1 * src_w + x0), at_index src (y1 * src_w + x1)) of
                  (Some v00, Some v01, Some v10, Some v11) \<Rightarrow> Some (mix (mix v00 v01 wx) (mix v10 v11 wx) wy)
                | _ \<Rightarrow> None)
        | _ \<Rightarrow> None)"

definition bilinear_upsample :: "dbl list \<Rightarrow> nat \<Rightarrow> nat \<Rightarrow> nat \<Rightarrow> nat \<Rightarrow> dbl list option" where
  "bilinear_upsample src src_h src_w dst_h dst_w =
     (if src_h = 0 \<or> src_w = 0 \<or> dst_h = 0 \<or> dst_w = 0 then Some []
      else map_opt (bilinear_pixel src src_h src_w dst_h dst_w) (pixels dst_h dst_w))"

subsection \<open>Gaussian smoothing\<close>

text \<open>\<open>std::ceil\<close>.\<close>

fun d_ceil :: "dbl \<Rightarrow> dbl" where
  "d_ceil (Fin s q) = Fin s (if s then of_int \<lfloor>q\<rfloor> else of_int \<lceil>q\<rceil>)"
| "d_ceil d = d"

definition blur_radius :: "nat \<Rightarrow> nat option" where
  "blur_radius sigma = to_size (d_ceil (f_mul (Fin False 3) (f_of_nat sigma)))"

definition kernel_weight :: "(dbl \<Rightarrow> dbl) \<Rightarrow> nat \<Rightarrow> nat \<Rightarrow> nat \<Rightarrow> dbl" where
  "kernel_weight expf sigma radius i =
     (let r = f_sub (f_of_nat i) (f_of_nat radius); sf = f_of_nat sigma
      in expf (f_div (f_mul (f_mul (d_neg half) r) r) (f_mul sf sf)))"

definition blur_kernel :: "(dbl \<Rightarrow> dbl) \<Rightarrow> nat \<Rightarrow> nat \<Rightarrow> dbl list" where
  "blur_kernel expf sigma radius =
     (let ws = map (kernel_weight expf sigma radius) [0..<2 * radius + 1];
          total_w = fold (\<lambda>x acc. f_add acc x) ws (Fin False 0)
      in map (\<lambda>x. f_div x total_w) ws)"

text \<open>The replicated border: the coordinate \<open>x + k - radius\<close> clamped to the image.\<close>

definition clamped :: "nat \<Rightarrow> nat \<Rightarrow> nat \<Rightarrow> nat \<Rightarrow> nat" where
  "clamped n radius x k = nat (max 0 (min (int (x + k) - int radius) (int n - 1)))"

primrec weighted_sum :: "dbl list \<Rightarrow> dbl list \<Rightarrow> (nat \<Rightarrow> nat) \<Rightarrow> nat list \<Rightarrow> dbl \<Rightarrow> dbl option" where
  "weighted_sum src weights idx [] val = Some val"
| "weighted_sum src weights idx (k # ks) val =
     (case (at_index src (idx k), at_index weights k) of
        (Some v, Some weight) \<Rightarrow> weighted_sum src weights idx ks (f_add val (f_mul v weight))
      | _ \<Rightarrow> None)"

definition blur_pass :: "dbl list \<Rightarrow> dbl list \<Rightarrow> nat \<Rightarrow> nat \<Rightarrow> (nat \<times> nat \<Rightarrow> nat \<Rightarrow> nat) \<Rightarrow> dbl list option" where
  "blur_pass src weights h w idx =
     map_opt (\<lambda>yx. weighted_sum src weights (idx yx) [0..<length weights] (Fin False 0)) (pixels h w)"

definition gaussian_blur :: "(dbl \<Rightarrow> dbl) \<Rightarrow> dbl list \<Rightarrow> nat \<Rightarrow> nat \<Rightarrow> nat \<Rightarrow> dbl list option" where
  "gaussian_blur expf src h w sigma =
     (if h = 0 \<or> w = 0 then Some []
      else if sigma = 0 then (if h * w \<le> length src then Some (take (h * w) src) else None)
      else case blur_radius sigma of
             None \<Rightarrow> None
           | Some radius \<Rightarrow>
               let weights = blur_kernel expf sigma radius in
               case blur_pass src weights h w (\<lambda>(y, x) k. y * w + clamped w radius x k) of
                 None \<Rightarrow> None
               | Some temp \<Rightarrow> blur_pass temp weights h w (\<lambda>(y, x) k. clamped h radius y k * w + x))"

subsection \<open>The grid and the result\<close>

text \<open>\<open>None\<close> is the division by a patch size of zero.\<close>

definition validate_patch_grid :: "nat \<Rightarrow> nat \<Rightarrow> nat \<Rightarrow> nat \<Rightarrow> nat \<Rightarrow> unit result option" where
  "validate_patch_grid gh gw image_height image_width patch_size =
     (if patch_size = 0 then None
      else let eh = image_height div patch_size; ew = image_width div patch_size in
           Some (if gh \<noteq> eh \<or> gw \<noteq> ew
                 then Inl (ErrorInfo Detection_InvalidPatchGrid
                   (''patch grid '' @ nat_str gh @ [CHR 0xC3, CHR 0x97] @ nat_str gw @
                    '' does not match config '' @ nat_str eh @ [CHR 0xC3, CHR 0x97] @ nat_str ew))
                 else Inr ()))"

definition binarize :: "dbl \<Rightarrow> dbl list \<Rightarrow> dbl list" where
  "binarize threshold blurred = map (\<lambda>b. if d_gt b threshold then Fin False 1 else Fin False 0) blurred"

definition build_detection_result ::
  "(dbl \<Rightarrow> dbl) \<Rightarrow> dbl list \<Rightarrow> nat \<Rightarrow> nat \<Rightarrow> nat \<Rightarrow> nat \<Rightarrow> nat \<Rightarrow> dbl \<Rightarrow> int \<Rightarrow> detection_result option" where
  "build_detection_result expf patch_scores gh gw image_height image_width gaussian_sigma threshold latency =
     (let m = \<lparr>scores = patch_scores, grid_h = word_of_nat gh, grid_w = word_of_nat gw\<rparr> in
      case bilinear_upsample patch_scores gh gw image_height image_width of
        None \<Rightarrow> None
      | Some upsampled \<Rightarrow>
          (case gaussian_blur expf upsampled image_height image_width gaussian_sigma of
             None \<Rightarrow> None
           | Some blurred \<Rightarrow>
               if length blurred < image_height * image_width then None
               else map_option
                 (\<lambda>rs. \<lparr>dr_map = m, regions = rs, image_level_score = max_score m, inference_latency = latency,
                        global_features = [], dr_surface_id = '''', dr_position_id = 0\<rparr>)
                 (connected_components (binarize threshold (take (image_height * image_width) blurred))
                    image_height image_width blurred)))"

text \<open>\<open>DetectBatchImpl\<close> stops at the first null pointer or error and returns only that error; the
  results so far are lost, the state of the detector is kept.\<close>

fun detect_batch ::
  "('s \<Rightarrow> 'e \<Rightarrow> (detection_result result \<times> 's) option) \<Rightarrow> 's \<Rightarrow> 'e option list \<Rightarrow> detection_result list \<Rightarrow>
     (detection_result list result \<times> 's) option" where
  "detect_batch detect s [] done_results = Some (Inr done_results, s)"
| "detect_batch detect s (None # es) done_results =
     Some (Inl (ErrorInfo Detection_InvalidPatchGrid ''null embedding pointer in DetectBatch''), s)"
| "detect_batch detect s (Some e # es) done_results =
     (case detect s e of
        None \<Rightarrow> None
      | Some (Inl err, s') \<Rightarrow> Some (Inl err, s')
      | Some (Inr r, s') \<Rightarrow> detect_batch detect s' es (done_results @ [r]))"

subsection \<open>No read is out of bounds\<close>

lemma f_of_nat_exact: "n \<le> 2 ^ 24 \<Longrightarrow> f_of_nat n = Fin False (of_nat n)"
proof (cases "n = 0 \<or> n = 2 ^ 24")
  case True
  have p: "pow2 24 = 2 ^ 24" "pow2 24 < pow2 128" by (simp add: pow2_def, simp only: pow2_less_iff)
  have "round_fmt binary32 False (of_int 1 * pow2 24) = Fin False (of_int 1 * pow2 24)"
    by (rule round_fmt_exact) (simp_all add: binary32_def p(2))
  then show ?thesis using True p(1) by (auto simp: f_of_nat_def round_rat_def)
next
  case False
  assume "n \<le> 2 ^ 24"
  then have n: "0 < n" "n < 2 ^ 24" using False by simp_all
  have "of_nat n < (of_nat (2 ^ 24) :: rat)" using n(2) by (simp only: of_nat_less_iff)
  also have "\<dots> = pow2 24" by (simp add: pow2_def)
  also have "\<dots> < pow2 128" by (simp only: pow2_less_iff)
  finally have lt: "of_nat n < pow2 128" .
  have "round_fmt binary32 False (of_int (int n) * pow2 0) = Fin False (of_int (int n) * pow2 0)"
    by (rule round_fmt_exact) (use n lt in \<open>simp_all add: binary32_def\<close>)
  then show ?thesis using n by (simp add: f_of_nat_def round_rat_def)
qed

lemma f_pred_exact:
  assumes "0 < n" "n \<le> 2 ^ 24"
  shows "f_sub (f_of_nat n) (Fin False 1) = Fin False (of_nat (n - 1))"
proof -
  have 1: "rat_of_nat n + - 1 = of_nat (n - 1)" using assms(1) by (simp add: of_nat_diff)
  show ?thesis
  proof (cases "n = 1")
    case True
    then show ?thesis using assms by (simp add: f_sub_def d_sub_def f_of_nat_exact)
  next
    case False
    then have nz: "rat_of_nat (n - 1) \<noteq> 0" using assms(1) by simp
    have d: "d_add (Fin False (of_nat n)) (d_neg (Fin False 1)) = Fin False (of_nat (n - 1))"
      using d_of_nat_exact [of "n - 1"] 1 nz assms by (simp add: Let_def d_of_nat_def d_of_int_def)
    have "to_float (Fin False (of_nat (n - 1))) = Fin False (of_nat (n - 1))"
      using f_of_nat_exact [of "n - 1"] assms by (simp add: f_of_nat_def round_rat_def)
    then show ?thesis using d assms(2) by (simp add: f_sub_def d_sub_def f_of_nat_exact del: d_add.simps)
  qed
qed

lemma round_mag_nonneg: "0 \<le> q \<Longrightarrow> round_fmt f s q = Fin t m \<Longrightarrow> 0 \<le> m"
proof (cases "q = 0")
  case False
  assume q: "0 \<le> q" and m: "round_fmt f s q = Fin t m"
  obtain u where "m = of_int (round_even (q / pow2 u)) * pow2 u"
    using m False by (auto simp: round_fmt_def Let_def split: if_splits)
  moreover have "0 \<le> round_even (q / pow2 u)"
    using q pow2_pos [of u] by (intro round_even_ge) (simp add: less_imp_le)
  ultimately show ?thesis using pow2_pos [of u] by (simp add: less_imp_le)
qed simp

lemma f_sub_nonneg: "f_sub x y = Fin s q \<Longrightarrow> 0 \<le> q"
proof -
  assume eq: "f_sub x y = Fin s q"
  then obtain t p where d: "d_sub x y = Fin t p" "round_fmt binary32 t p = Fin s q"
    by (cases "d_sub x y") (simp_all add: f_sub_def)
  have "0 \<le> p"
    using d(1) by (cases x; cases y)
      (auto simp: d_sub_def Let_def round_rat_def split: if_splits dest: round_mag_nonneg [rotated])
  then show "0 \<le> q" using d(2) by (rule round_mag_nonneg)
qed

lemma source_coord_bounds:
  assumes "0 < n" "n \<le> 2 ^ 24"
  shows "\<exists>k < n. to_size (source_coord n m y) = Some k"
proof -
  define top where "top = rat_of_nat (n - 1)"
  have top: "0 \<le> top" "top < 2 ^ 64"
  proof -
    have "rat_of_nat (n - 1) < of_nat (2 ^ 64)" unfolding of_nat_less_iff using assms by simp
    then show "top < 2 ^ 64" by (simp add: top_def)
  qed (simp add: top_def)
  have fl: "\<exists>k < n. to_size (Fin s q) = Some k" if "0 \<le> fval (Fin s q)" "fval (Fin s q) \<le> top" "0 \<le> q" for s q
  proof (cases s)
    case True
    then have "q = 0" using that by simp
    then show ?thesis using True assms(1) by (simp add: to_size_def)
  next
    case False
    then have q: "0 \<le> q" "q \<le> top" using that by simp_all
    have "\<lfloor>q\<rfloor> \<le> \<lfloor>top\<rfloor>" using q(2) by (rule floor_mono)
    then have "nat \<lfloor>q\<rfloor> < n" using q(1) assms(1) by (simp add: top_def nat_less_iff)
    then show ?thesis using False q top(2) by (simp add: to_size_def)
  qed
  obtain s where s: "source_coord n m y = d_max (Fin False 0) (d_min s (Fin False top))" "\<And>t q. s = Fin t q \<Longrightarrow> 0 \<le> q"
    unfolding source_coord_def f_pred_exact [OF assms] top_def using f_sub_nonneg by blast
  show ?thesis
  proof (cases "d_lt (Fin False 0) (d_min s (Fin False top))")
    case False
    then show ?thesis unfolding s(1) d_max_def using fl [of False 0] top(1) by simp
  next
    case True
    then show ?thesis
      unfolding s(1) d_max_def using fl top(1) s(2)
      by (cases s) (auto simp: d_min_def split: if_splits)
  qed
qed

lemma grid_index: "y < h \<Longrightarrow> x < w \<Longrightarrow> y * w + x < h * (w :: nat)"
proof -
  assume "y < h" "x < w"
  then have "y * w + x < Suc y * w" by simp
  also have "\<dots> \<le> h * w" using \<open>y < h\<close> by (intro mult_le_mono1) simp
  finally show ?thesis .
qed

lemma pixels_mem: "(y, x) \<in> set (pixels h w) \<longleftrightarrow> y < h \<and> x < w"
  by (simp add: pixels_def) (auto simp: image_iff)

lemma pixels_length [simp]: "length (pixels h w) = h * w"
  by (cases "w = 0") (simp_all add: pixels_split, simp add: pixels_def)

lemma bilinear_upsample_total:
  assumes "length src = src_h * src_w" "src_h \<le> 2 ^ 24" "src_w \<le> 2 ^ 24"
  shows "\<exists>dst. bilinear_upsample src src_h src_w dst_h dst_w = Some dst \<and>
    length dst = (if src_h = 0 \<or> src_w = 0 then 0 else dst_h * dst_w)"
proof (cases "src_h = 0 \<or> src_w = 0 \<or> dst_h = 0 \<or> dst_w = 0")
  case True
  then show ?thesis by (auto simp: bilinear_upsample_def)
next
  case False
  have "bilinear_pixel src src_h src_w dst_h dst_w yx \<noteq> None" for yx
  proof -
    obtain y x where yx: "yx = (y, x)" by (cases yx)
    obtain y0 where y0: "y0 < src_h" "to_size (source_coord src_h dst_h y) = Some y0"
      using source_coord_bounds [of src_h dst_h y] assms(2) False by auto
    obtain x0 where x0: "x0 < src_w" "to_size (source_coord src_w dst_w x) = Some x0"
      using source_coord_bounds [of src_w dst_w x] assms(3) False by auto
    have "min (y0 + 1) (src_h - 1) < src_h" "min (x0 + 1) (src_w - 1) < src_w" using y0(1) x0(1) by simp_all
    then show ?thesis
      using y0 x0 grid_index assms(1) unfolding bilinear_pixel_def yx prod.case Let_def by simp
  qed
  then show ?thesis using map_opt_total [of "pixels dst_h dst_w" "bilinear_pixel src src_h src_w dst_h dst_w"] False by (simp add: bilinear_upsample_def)
qed

lemma clamped_less: "0 < n \<Longrightarrow> clamped n radius x k < n"
  by (simp add: clamped_def nat_less_iff)

lemma weighted_sum_total:
  "(\<And>k. k \<in> set ks \<Longrightarrow> idx k < length src \<and> k < length weights) \<Longrightarrow> weighted_sum src weights idx ks val \<noteq> None"
  by (induction ks arbitrary: val) simp_all

lemma blur_pass_total:
  assumes "\<And>y x k. y < h \<Longrightarrow> x < w \<Longrightarrow> idx (y, x) k < length src"
  shows "\<exists>dst. blur_pass src weights h w idx = Some dst \<and> length dst = h * w"
proof -
  have "weighted_sum src weights (idx yx) [0..<length weights] (Fin False 0) \<noteq> None" if yx: "yx \<in> set (pixels h w)" for yx
    using assms yx by (intro weighted_sum_total) (cases yx, simp add: pixels_mem)
  then show ?thesis
    using map_opt_total [of "pixels h w" "\<lambda>yx. weighted_sum src weights (idx yx) [0..<length weights] (Fin False 0)"]
    by (simp add: blur_pass_def)
qed

lemma gaussian_blur_total:
  assumes "length src = h * w" "blur_radius sigma \<noteq> None"
  shows "\<exists>dst. gaussian_blur expf src h w sigma = Some dst \<and> length dst = h * w"
proof (cases "h = 0 \<or> w = 0 \<or> sigma = 0")
  case True
  then show ?thesis using assms(1) by (auto simp: gaussian_blur_def)
next
  case False
  obtain radius where r: "blur_radius sigma = Some radius" using assms(2) by auto
  define weights where "weights = blur_kernel expf sigma radius"
  have "\<exists>temp. blur_pass src weights h w (\<lambda>(y, x) k. y * w + clamped w radius x k) = Some temp \<and> length temp = h * w"
    by (rule blur_pass_total) (use grid_index clamped_less False assms(1) in simp)
  then obtain temp where t: "blur_pass src weights h w (\<lambda>(y, x) k. y * w + clamped w radius x k) = Some temp"
    "length temp = h * w" by blast
  have "\<exists>dst. blur_pass temp weights h w (\<lambda>(y, x) k. clamped h radius y k * w + x) = Some dst \<and> length dst = h * w"
    by (rule blur_pass_total) (use grid_index clamped_less False t(2) in simp)
  then obtain dst where d: "blur_pass temp weights h w (\<lambda>(y, x) k. clamped h radius y k * w + x) = Some dst"
    "length dst = h * w" by blast
  have "gaussian_blur expf src h w sigma = Some dst"
    using False r t(1) d(1) unfolding gaussian_blur_def weights_def by simp
  then show ?thesis using d(2) by simp
qed

lemma blur_radius_small: "sigma \<le> 2 ^ 22 \<Longrightarrow> blur_radius sigma = Some (3 * sigma)"
proof (cases "sigma = 0")
  case False
  assume s: "sigma \<le> 2 ^ 22"
  have n: "3 * sigma \<le> 2 ^ 24" using s by simp
  have three: "rat_of_nat (3 * sigma) = 3 * of_nat sigma" by simp
  have "d_mul (Fin False 3) (f_of_nat sigma) = round_fmt binary64 False (of_nat (3 * sigma))"
    using s f_of_nat_exact [of sigma] by (simp add: three)
  also have "\<dots> = Fin False (of_nat (3 * sigma))"
    using d_of_nat_exact [of "3 * sigma"] n by (simp add: d_of_nat_def d_of_int_def round_rat_def del: of_nat_mult)
  finally have m: "f_mul (Fin False 3) (f_of_nat sigma) = Fin False (of_nat (3 * sigma))"
    using f_of_nat_exact [OF n] by (simp add: f_mul_def f_of_nat_def round_rat_def del: of_nat_mult)
  have "rat_of_nat (3 * sigma) < of_nat (2 ^ 64)" unfolding of_nat_less_iff using n by simp
  then have lt: "rat_of_nat (3 * sigma) < 2 ^ 64" by simp
  have "\<lceil>rat_of_nat (3 * sigma)\<rceil> = int (3 * sigma)" by (rule ceiling_of_nat)
  then show ?thesis
    unfolding blur_radius_def m d_ceil.simps to_size_def using lt by (simp del: of_nat_mult)
qed (simp add: blur_radius_def f_of_nat_def round_rat_def f_mul_def to_size_def)

lemma build_detection_result_run:
  assumes "length patch_scores = gh * gw" "0 < gh" "0 < gw" "gh \<le> 2 ^ 24" "gw \<le> 2 ^ 24" "sigma \<le> 2 ^ 22"
    and "h * w < 2 ^ 64"
  shows "\<exists>r upsampled blurred.
    build_detection_result expf patch_scores gh gw h w sigma threshold latency = Some r \<and>
    bilinear_upsample patch_scores gh gw h w = Some upsampled \<and>
    gaussian_blur expf upsampled h w sigma = Some blurred \<and> length blurred = h * w \<and>
    image_level_score r = max_score (dr_map r) \<and> scores (dr_map r) = patch_scores \<and>
    mset (regions r) = image_mset (region_of w blurred) (mset_set (components w (binarize threshold blurred) (h * w))) \<and>
    (\<forall>i < h * w. foreground (binarize threshold blurred) i \<longleftrightarrow> d_gt (blurred ! i) threshold)"
proof -
  obtain up where up: "bilinear_upsample patch_scores gh gw h w = Some up" "length up = h * w"
    using bilinear_upsample_total [OF assms(1,4,5), of h w] assms(2,3) by auto
  obtain bl where bl: "gaussian_blur expf up h w sigma = Some bl" "length bl = h * w"
    using gaussian_blur_total [OF up(2), of sigma expf] blur_radius_small [OF assms(6)] by auto
  obtain rs where rs: "connected_components (binarize threshold bl) h w bl = Some rs"
    "mset rs = image_mset (region_of w bl) (mset_set (components w (binarize threshold bl) (h * w)))"
    using connected_components_run [OF assms(7), of "binarize threshold bl" bl] by blast
  have "foreground (binarize threshold bl) i \<longleftrightarrow> d_gt (bl ! i) threshold" if "i < h * w" for i
    using that bl(2) by (simp add: foreground_def binarize_def d_le_def)
  then show ?thesis
    using up bl rs by (simp add: build_detection_result_def Let_def)
qed

text \<open>
  With an empty grid and an image that is not empty, \<open>BuildDetectionResult\<close> reads through a null pointer: the
  upsampled map is empty and the smoothing reads its first element. (\<open>ValidatePatchGrid\<close> lets such a grid pass when the
  configured image is smaller than a patch.)
\<close>

theorem empty_grid_undefined:
  assumes "gh = 0 \<or> gw = 0" "0 < h" "0 < w"
  shows "build_detection_result expf patch_scores gh gw h w sigma threshold latency = None"
proof -
  have pix: "(0, 0) \<in> set (pixels h w)" using assms(2,3) by (simp add: pixels_mem)
  have "blur_pass [] (blur_kernel expf sigma radius) h w idx = None" for radius idx
  proof -
    have "[0..<length (blur_kernel expf sigma radius)] = 0 # [1..<length (blur_kernel expf sigma radius)]"
      by (simp add: blur_kernel_def Let_def upt_conv_Cons)
    then have "weighted_sum [] (blur_kernel expf sigma radius) (idx (0, 0)) [0..<length (blur_kernel expf sigma radius)] (Fin False 0) = None"
      by (simp add: at_index_def)
    then show ?thesis unfolding blur_pass_def by (intro map_opt_none [OF pix])
  qed
  then have "gaussian_blur expf [] h w sigma = None"
    using assms(2,3) by (simp add: gaussian_blur_def Let_def split: option.split)
  moreover have "bilinear_upsample patch_scores gh gw h w = Some []" using assms(1) by (auto simp: bilinear_upsample_def)
  ultimately show ?thesis by (simp add: build_detection_result_def Let_def)
qed

text \<open>C26 For every grid that is not empty and whose scores are complete, with sides of at most \<open>2^24\<close> patches, a
  width of the smoothing of at most \<open>2^22\<close> and an image of fewer than \<open>2^64\<close> pixels,
  \<open>BuildDetectionResult\<close> returns without a read out of bounds. The image score is the greatest patch score, and the regions are the connected components
  of the pixels whose smoothed score exceeds the threshold, measured on the smoothed scores.\<close>

theorem build_detection_result_spec:
  assumes "length patch_scores = gh * gw" "0 < gh" "0 < gw" "gh \<le> 2 ^ 24" "gw \<le> 2 ^ 24" "sigma \<le> 2 ^ 22"
    and "h * w < 2 ^ 64"
  shows "\<exists>r upsampled blurred.
    build_detection_result expf patch_scores gh gw h w sigma threshold latency = Some r \<and>
    bilinear_upsample patch_scores gh gw h w = Some upsampled \<and>
    gaussian_blur expf upsampled h w sigma = Some blurred \<and> length blurred = h * w \<and>
    image_level_score r = max_score (dr_map r) \<and> scores (dr_map r) = patch_scores \<and>
    mset (regions r) = image_mset (region_of w blurred) (mset_set (components w (binarize threshold blurred) (h * w))) \<and>
    (\<forall>i < h * w. foreground (binarize threshold blurred) i \<longleftrightarrow> d_gt (blurred ! i) threshold)"
  by (rule build_detection_result_run [OF assms])

theorem build_detection_result_spec_witness:
  "\<exists>r upsampled blurred.
    build_detection_result (\<lambda>_. Fin False 1) [Fin False 1, Fin False 3] 1 2 4 8 1 (Fin False 2) 0 = Some r \<and>
    bilinear_upsample [Fin False 1, Fin False 3] 1 2 4 8 = Some upsampled \<and>
    gaussian_blur (\<lambda>_. Fin False 1) upsampled 4 8 1 = Some blurred \<and>
    mset (regions r) = image_mset (region_of 8 blurred) (mset_set (components 8 (binarize (Fin False 2) blurred) (4 * 8)))"
  using build_detection_result_spec [of "[Fin False 1, Fin False 3]" 1 2 1 4 8 "\<lambda>_. Fin False 1" "Fin False 2" 0] by auto

end
