(* ===== verification/Patch_Core.thy ===== *)
theory Patch_Core
  imports Pca Post_Process Coreset_Evolution
begin

text \<open>
  The detectors (\<open>patch_core.cpp\<close> and \<open>pca_detector.cpp\<close> under \<open>src/detection\<close>). FAISS is a parameter,
  and so are the files (\<open>fs\<close>: the size and the bytes of a file that opens) and the measured latency.
  \<open>None\<close> is undefined behaviour or an exception in a \<open>noexcept\<close> method.
\<close>

record patch_core_config =
  pk_bank_path :: string
  pk_threshold :: dbl
  pk_k_nearest :: nat
  pk_sigma :: nat
  pk_width :: nat
  pk_height :: nat
  pk_patch_size :: nat
  pk_embed_dim :: nat
  pk_whitening :: bool
  pk_drop_k :: nat
  pk_adaptive :: bool
  pk_target_fpr :: dbl
  pk_pca_path :: string
  pk_alpha :: dbl
  pk_method :: score_method

record detection_context =
  cx_distances :: "dbl list"
  cx_k :: nat
  cx_data :: "dbl list option"
  cx_grid :: "nat \<times> nat"
  cx_dim :: nat
  cx_result :: "detection_result option"
  cx_threshold :: dbl
  cx_pca_score :: dbl
  cx_pca_p95 :: dbl

record 'ix patch_core =
  pt_bank :: "'ix feature_bank option"
  pt_context :: detection_context
  pt_whitening :: "whitening_params option"
  pt_threshold :: dbl
  pt_ref_dist :: dbl
  pt_pca :: "pca_params option"

definition no_context :: detection_context where
  "no_context = \<lparr>cx_distances = [], cx_k = 0, cx_data = None, cx_grid = (0, 0), cx_dim = 0, cx_result = None,
     cx_threshold = Fin False 0, cx_pca_score = Fin False 0, cx_pca_p95 = Fin False 0\<rparr>"

definition new_patch_core :: "'ix patch_core" where
  "new_patch_core = \<lparr>pt_bank = None, pt_context = no_context, pt_whitening = None, pt_threshold = f_lit (8 / 10),
     pt_ref_dist = Fin False 1, pt_pca = None\<rparr>"

definition set_feature_bank :: "'ix feature_bank \<Rightarrow> 'ix patch_core \<Rightarrow> 'ix patch_core" where
  "set_feature_bank b s = s\<lparr>pt_bank := Some b\<rparr>"

definition swap_feature_bank :: "'ix feature_bank option \<Rightarrow> 'ix patch_core \<Rightarrow> 'ix feature_bank option \<times> 'ix patch_core" where
  "swap_feature_bank b s = (pt_bank s, s\<lparr>pt_bank := b\<rparr>)"

subsection \<open>Whitening and the adaptive threshold\<close>

definition apply_whitening :: "dbl list \<Rightarrow> nat \<Rightarrow> nat \<Rightarrow> whitening_params \<Rightarrow> dbl list option" where
  "apply_whitening vectors n d wp =
     (if length vectors < n * d \<or> length (wh_transform wp) < wh_target_dim wp * d then None
      else Some (concat (map (\<lambda>i. map (\<lambda>t. f_dot (row d (wh_transform wp) t) (row d vectors i)) [0..<wh_target_dim wp]) [0..<n])))"

fun self_distances :: "'ix faiss_lib \<Rightarrow> 'ix feature_bank \<Rightarrow> dbl list \<Rightarrow> nat \<Rightarrow> nat list \<Rightarrow> dbl list option" where
  "self_distances lib b vs k [] = Some []"
| "self_distances lib b vs k (i # is) =
     (case bank_search lib b (row (bk_dim b) vs i) 1 (k + 1) of
        Some (d # ds) \<Rightarrow> map_option (\<lambda>rest. last (d # ds) # rest) (self_distances lib b vs k is)
      | _ \<Rightarrow> None)"

text \<open>The threshold and the new value of \<open>ref_dist_\<close>; with no samples the reference is left alone.\<close>

definition adaptive_threshold :: "'ix faiss_lib \<Rightarrow> 'ix feature_bank \<Rightarrow> dbl \<Rightarrow> nat \<Rightarrow> dbl \<Rightarrow> (dbl \<times> dbl) option" where
  "adaptive_threshold lib b target_fpr k ref_dist =
     (let n = bk_num b in
      if n = 0 then Some (Fin False 0, ref_dist)
      else Option.bind (extract_all_vectors lib b) (\<lambda>vs.
           if length vs < n * bk_dim b then None
           else Option.bind (self_distances lib b vs k [0..<n]) (\<lambda>dists.
                Option.bind (std_sort dists) (\<lambda>sorted_dists.
                map_option (\<lambda>i. (sorted_dists ! min i (n - 1), fold (\<lambda>d m. if d_gt d m then d else m) dists (Fin False 0)))
                  (to_size (f_mul (f_sub (Fin False 1) target_fpr) (f_of_nat (n - 1))))))))"

subsection \<open>Initialisation\<close>

definition coreset_embedding :: "nat \<Rightarrow> dbl list \<Rightarrow> full_embedding" where
  "coreset_embedding d v =
     \<lparr>em_dim = d, em_count = 1, em_data = v, em_model = ''coreset'', em_global = False, em_grid = (1, 1),
      em_latency = 0, em_on_gpu = False\<rparr>"

definition kept_components :: "pca_params \<Rightarrow> nat \<Rightarrow> nat \<Rightarrow> dbl list" where
  "kept_components pca drop_k d =
     concat (map (\<lambda>t. let scale = f_div (Fin False 1) (f_sqrt (f_add (pc_eigvals pca ! (drop_k + t)) (f_lit (1 / 10 ^ 6))))
                      in map (\<lambda>c. f_mul c scale) (row d (pc_components pca) (drop_k + t))) [0..<d])"

definition whiten_step :: "'ix faiss_lib \<Rightarrow> patch_core_config \<Rightarrow> 'ix patch_core \<Rightarrow> (unit result \<times> 'ix patch_core) option" where
  "whiten_step lib cfg s =
     (case pt_bank s of
        None \<Rightarrow> Some (Inr (), s)
      | Some b \<Rightarrow>
          if \<not> pk_whitening cfg then Some (Inr (), s)
          else let n = bk_num b; d = pk_embed_dim cfg in
               case extract_all_vectors lib b of
                 None \<Rightarrow> None
               | Some vs \<Rightarrow>
                   if length vs < n * d then None
                   else case fit_pca (map (\<lambda>i. coreset_embedding d (row d vs i)) [0..<n]) (d + pk_drop_k cfg) of
                          None \<Rightarrow> None
                        | Some (Inl err) \<Rightarrow> Some (Inl err, s)
                        | Some (Inr pca) \<Rightarrow>
                            let wp = \<lparr>wh_transform = kept_components pca (pk_drop_k cfg) d, wh_target_dim = d\<rparr> in
                            Option.bind (apply_whitening vs n d wp) (\<lambda>whitened.
                              map_option (\<lambda>b'. (Inr (), s\<lparr>pt_bank := Some b', pt_whitening := Some wp\<rparr>))
                                (rebuild lib b whitened n d)))"

definition threshold_step :: "'ix faiss_lib \<Rightarrow> patch_core_config \<Rightarrow> 'ix patch_core \<Rightarrow> 'ix patch_core option" where
  "threshold_step lib cfg s =
     (if pk_adaptive cfg
      then Option.bind (pt_bank s) (\<lambda>b.
           map_option (\<lambda>(raw, ref).
               s\<lparr>pt_ref_dist := ref, pt_threshold := (if d_gt ref (Fin False 0) then f_div raw ref else Fin False 1)\<rparr>)
             (adaptive_threshold lib b (pk_target_fpr cfg) (pk_k_nearest cfg) (pt_ref_dist s)))
      else Some (s\<lparr>pt_threshold := pk_threshold cfg, pt_ref_dist := Fin False 1\<rparr>))"

definition pca_step ::
  "(string \<Rightarrow> (nat \<times> 8 word list) option) \<Rightarrow> patch_core_config \<Rightarrow> 'ix patch_core \<Rightarrow> (unit result \<times> 'ix patch_core) option" where
  "pca_step fs cfg s =
     (if pk_pca_path cfg = [] then Some (Inr (), s)
      else case load_pca_params (pk_pca_path cfg) (fs (pk_pca_path cfg)) of
             None \<Rightarrow> None
           | Some (Inl err) \<Rightarrow> Some (Inl err, s)
           | Some (Inr p) \<Rightarrow> Some (Inr (), s\<lparr>pt_pca := Some p\<rparr>))"

definition load_bank_step ::
  "'ix faiss_lib \<Rightarrow> (string \<Rightarrow> (nat \<times> 8 word list) option) \<Rightarrow> patch_core_config \<Rightarrow> 'ix patch_core \<Rightarrow>
     (unit result \<times> 'ix patch_core) option" where
  "load_bank_step lib fs cfg s =
     (case pt_bank s of
        Some b \<Rightarrow> Some (Inr (), s)
      | None \<Rightarrow>
          if pk_bank_path cfg = [] then Some (Inr (), s)
          else case load_from_file lib (pk_bank_path cfg) (fs (pk_bank_path cfg)) (pk_embed_dim cfg) of
                 None \<Rightarrow> None
               | Some (Inl err) \<Rightarrow> Some (Inl err, s)
               | Some (Inr b) \<Rightarrow> Some (Inr (), s\<lparr>pt_bank := Some b\<rparr>))"

definition initialize ::
  "'ix faiss_lib \<Rightarrow> (string \<Rightarrow> (nat \<times> 8 word list) option) \<Rightarrow> patch_core_config \<Rightarrow> 'ix patch_core \<Rightarrow>
     (unit result \<times> 'ix patch_core) option" where
  "initialize lib fs cfg s =
     (case load_bank_step lib fs cfg s of
        Some (Inr _, s1) \<Rightarrow>
          (case whiten_step lib cfg s1 of
             Some (Inr _, s2) \<Rightarrow> Option.bind (threshold_step lib cfg s2) (pca_step fs cfg)
           | r \<Rightarrow> r)
      | r \<Rightarrow> r)"

subsection \<open>Detection\<close>

definition not_loaded :: "string \<Rightarrow> 'a result" where
  "not_loaded m = Inl (ErrorInfo Detection_FeatureBankLoadFailed m)"

definition em_dash :: string where
  "em_dash = [CHR 0xE2, CHR 0x80, CHR 0x94]"

definition patch_scores :: "dbl \<Rightarrow> nat \<Rightarrow> dbl list \<Rightarrow> nat \<Rightarrow> dbl list" where
  "patch_scores ref_dist k distances n =
     map (\<lambda>i. let dist = distances ! (i * k) in if d_gt ref_dist (Fin False 0) then f_div dist ref_dist else dist) [0..<n]"

definition max_element :: "dbl list \<Rightarrow> dbl" where
  "max_element xs = fold (\<lambda>x best. if d_lt best x then x else best) (tl xs) (hd xs)"

definition scaled_to_max :: "dbl list \<Rightarrow> dbl list" where
  "scaled_to_max xs = (let m = max_element xs in if d_gt m (Fin False 0) then map (\<lambda>x. f_div x m) xs else xs)"

definition blend :: "dbl \<Rightarrow> dbl list \<Rightarrow> dbl list \<Rightarrow> dbl list" where
  "blend alpha knn_part pca_part = map2 (\<lambda>a b. f_add (f_mul alpha a) (f_mul (f_sub (Fin False 1) alpha) b)) knn_part pca_part"

definition detect_scores ::
  "'ix faiss_lib \<Rightarrow> patch_core_config \<Rightarrow> 'ix patch_core \<Rightarrow> 'ix feature_bank \<Rightarrow> dbl list \<Rightarrow> nat \<Rightarrow>
     (dbl list \<times> dbl list) result option" where
  "detect_scores lib cfg s b original n =
     Option.bind (case pt_whitening s of None \<Rightarrow> Some original | Some wp \<Rightarrow> apply_whitening original n (pk_embed_dim cfg) wp) (\<lambda>query.
     Option.bind (bank_search lib b query n (pk_k_nearest cfg)) (\<lambda>distances.
       if distances = [] then Some (not_loaded ''k-NN search returned empty distances'')
       else if length distances < n * pk_k_nearest cfg then None
       else let knn_part = patch_scores (pt_ref_dist s) (pk_k_nearest cfg) distances n in
            case pt_pca s of
              None \<Rightarrow> Some (Inr (distances, knn_part))
            | Some p \<Rightarrow> map_option (\<lambda>sc. Inr (distances, blend (pk_alpha cfg) knn_part (scaled_to_max sc)))
                          (pca_score p original n (pk_method cfg) (pk_drop_k cfg))))"

definition detect ::
  "'ix faiss_lib \<Rightarrow> (dbl \<Rightarrow> dbl) \<Rightarrow> patch_core_config \<Rightarrow> int \<Rightarrow> full_embedding \<Rightarrow> 'ix patch_core \<Rightarrow>
     (detection_result result \<times> 'ix patch_core) option" where
  "detect lib expf cfg latency e s =
     (case pt_bank s of
        None \<Rightarrow> Some (not_loaded (''PatchCore not initialized '' @ em_dash @ '' FeatureBank not loaded''), s)
      | Some b \<Rightarrow>
          let (gh, gw) = em_grid e; n = gh * gw in
          case validate_patch_grid gh gw (pk_height cfg) (pk_width cfg) (pk_patch_size cfg) of
            None \<Rightarrow> None
          | Some (Inl err) \<Rightarrow> Some (Inl err, s)
          | Some (Inr _) \<Rightarrow>
              (case detect_scores lib cfg s b (em_data e) n of
                 None \<Rightarrow> None
               | Some (Inl err) \<Rightarrow> Some (Inl err, s)
               | Some (Inr (distances, sc)) \<Rightarrow>
                   (case build_detection_result expf sc gh gw (pk_height cfg) (pk_width cfg) (pk_sigma cfg) (pt_threshold s) latency of
                      None \<Rightarrow> None
                    | Some r \<Rightarrow>
                        if length (em_data e) < n * pk_embed_dim cfg then None
                        else Some (Inr r, s\<lparr>pt_context :=
                               \<lparr>cx_distances = distances, cx_k = pk_k_nearest cfg,
                                cx_data = Some (take (n * pk_embed_dim cfg) (em_data e)), cx_grid = (gh, gw),
                                cx_dim = pk_embed_dim cfg, cx_result = Some r, cx_threshold = pt_threshold s,
                                cx_pca_score = Fin False 0, cx_pca_p95 = Fin False 0\<rparr>\<rparr>))))"

subsection \<open>The principal component detector\<close>

record pca_detector_config =
  pd_path :: string
  pd_embed_dim :: nat
  pd_width :: nat
  pd_height :: nat
  pd_patch_size :: nat
  pd_sigma :: nat
  pd_threshold :: dbl
  pd_method :: score_method
  pd_drop_k :: nat

text \<open>The state is the model, present once \<open>initialized_\<close> is set.\<close>

definition pca_initialize ::
  "(string \<Rightarrow> (nat \<times> 8 word list) option) \<Rightarrow> pca_detector_config \<Rightarrow> pca_params option \<Rightarrow>
     (unit result \<times> pca_params option) option" where
  "pca_initialize fs cfg s =
     (case load_pca_params (pd_path cfg) (fs (pd_path cfg)) of
        None \<Rightarrow> None
      | Some (Inl err) \<Rightarrow> Some (Inl err, s)
      | Some (Inr p) \<Rightarrow>
          if length (pc_mean p) \<noteq> pd_embed_dim cfg
          then Some (not_loaded (''PcaDetector: PCA model dim ('' @ nat_str (length (pc_mean p)) @
                 '') != config embed_dim ('' @ nat_str (pd_embed_dim cfg) @ '')''), s)
          else Some (Inr (), Some p))"

definition pca_detect ::
  "(dbl \<Rightarrow> dbl) \<Rightarrow> pca_detector_config \<Rightarrow> int \<Rightarrow> full_embedding \<Rightarrow> pca_params option \<Rightarrow> detection_result result option" where
  "pca_detect expf cfg latency e s =
     (case s of
        None \<Rightarrow> Some (not_loaded (''PcaDetector not initialized '' @ em_dash @ '' PCA model not loaded''))
      | Some p \<Rightarrow>
          let (gh, gw) = em_grid e; n = gh * gw in
          case validate_patch_grid gh gw (pd_height cfg) (pd_width cfg) (pd_patch_size cfg) of
            None \<Rightarrow> None
          | Some (Inl err) \<Rightarrow> Some (Inl err)
          | Some (Inr _) \<Rightarrow>
              (case pca_score p (em_data e) n (pd_method cfg) (pd_drop_k cfg) of
                 None \<Rightarrow> None
               | Some [] \<Rightarrow> Some (not_loaded ''PCA scoring returned empty scores'')
               | Some sc \<Rightarrow> map_option Inr
                   (build_detection_result expf (scaled_to_max sc) gh gw (pd_height cfg) (pd_width cfg) (pd_sigma cfg)
                      (pd_threshold cfg) latency)))"

subsection \<open>Initialisation can fail or be undefined\<close>

text \<open>Whitening that drops leading components never starts: \<open>FitPca\<close> is asked for
  \<open>embed_dim + drop_k\<close> components of \<open>embed_dim\<close>-dimensional vectors and refuses. The bank that was loaded
  stays, with the threshold of the constructor.\<close>

theorem whitening_with_drop_fails:
  assumes "pk_whitening cfg" "0 < pk_drop_k cfg" "0 < pk_embed_dim cfg"
    and "pt_bank s = Some b" "0 < bk_num b" "extract_all_vectors lib b = Some vs" "length vs = bk_num b * pk_embed_dim cfg"
  shows "initialize lib fs cfg s =
    Some (exceeds ''::FitPca: target_dim ('' (pk_embed_dim cfg + pk_drop_k cfg) '') > input_dim ('' (pk_embed_dim cfg), s)"
proof -
  let ?d = "pk_embed_dim cfg"
  let ?es = "map (\<lambda>i. coreset_embedding ?d (row ?d vs i)) [0..<bk_num b]"
  have emb [simp]: "em_dim (coreset_embedding d v) = d" "em_count (coreset_embedding d v) = 1"
    "em_on_gpu (coreset_embedding d v) = False" "em_data (coreset_embedding d v) = v" for d v
    by (simp_all add: coreset_embedding_def)
  have scan: "scan_samples (map (\<lambda>i. coreset_embedding ?d (f i)) is) (Some ?d) n = Inr (Some ?d, n + length is)" for f "is" n
    using assms(3) by (induction "is" arbitrary: n) simp_all
  have g: "\<exists>data. gather_samples ?d (map (\<lambda>i. coreset_embedding ?d (row ?d vs i)) is) = Some data"
    if "\<forall>i \<in> set is. i < bk_num b" for "is"
    using that full_row_length [OF assms(7)] by (induction "is") auto
  obtain is0 where is0: "[0..<bk_num b] = 0 # is0" using assms(5) by (cases "bk_num b") (simp_all add: upt_conv_Cons del: upt_Suc)
  have "Suc (length is0) = bk_num b" using arg_cong [OF is0, of length] by (simp only: length_upt length_Cons minus_nat.diff_0)
  then have "scan_samples ?es None 0 = Inr (Some ?d, bk_num b)"
    using scan [of "row ?d vs" is0 1] assms(3,5) is0 by simp
  moreover obtain data where "gather_samples ?d ?es = Some data" using g [of "[0..<bk_num b]"] by auto
  ultimately have "collect_samples ?es = Some (Inr (data, ?d, bk_num b))"
    using assms(3,5) by (simp add: collect_samples_def)
  then show ?thesis
    using assms by (simp add: initialize_def load_bank_step_def whiten_step_def fit_pca_def exceeds_def dim_error_def Let_def)
qed

definition drop_config :: patch_core_config where
  "drop_config = \<lparr>pk_bank_path = [], pk_threshold = Fin False 1, pk_k_nearest = 1, pk_sigma = 0, pk_width = 1, pk_height = 1,
     pk_patch_size = 1, pk_embed_dim = 1, pk_whitening = True, pk_drop_k = 1, pk_adaptive = True, pk_target_fpr = Fin False 0,
     pk_pca_path = [], pk_alpha = Fin False 1, pk_method = Cosine\<rparr>"

theorem whitening_with_drop_fails_witness:
  "initialize tiny_faiss (\<lambda>_. None) drop_config (set_feature_bank tiny_bank new_patch_core) =
    Some (exceeds ''::FitPca: target_dim ('' 2 '') > input_dim ('' 1, set_feature_bank tiny_bank new_patch_core)"
  using whitening_with_drop_fails [of drop_config "set_feature_bank tiny_bank new_patch_core" tiny_bank tiny_faiss] tiny_bank_vectors
  by (simp add: drop_config_def set_feature_bank_def tiny_bank_def numeral_2_eq_2)

text \<open>An adaptive threshold without a bank dereferences a null pointer: neither a path nor an
  injected bank is required before the step.\<close>

theorem adaptive_without_bank:
  assumes "pt_bank s = None" "pk_bank_path cfg = []" "pk_adaptive cfg"
  shows "initialize lib fs cfg s = None"
  using assms by (simp add: initialize_def load_bank_step_def whiten_step_def threshold_step_def)

theorem adaptive_without_bank_witness: "initialize tiny_faiss (\<lambda>_. None) drop_config new_patch_core = None"
  by (rule adaptive_without_bank) (simp_all add: drop_config_def new_patch_core_def)

subsection \<open>The adaptive threshold lies between zero and one\<close>

lemma fold_greatest:
  assumes "\<not> list_ex d_is_nan ds" "\<not> d_is_nan a"
  shows "\<not> d_is_nan (fold (\<lambda>d m. if d_gt d m then d else m) ds a) \<and>
    \<not> d_lt (fold (\<lambda>d m. if d_gt d m then d else m) ds a) a \<and>
    (\<forall>d \<in> set ds. \<not> d_lt (fold (\<lambda>d m. if d_gt d m then d else m) ds a) d)"
  using assms
proof (induction ds arbitrary: a)
  case (Cons d ds)
  let ?m = "if d_gt d a then d else a"
  let ?r = "fold (\<lambda>d m. if d_gt d m then d else m) ds ?m"
  have nn: "\<not> d_is_nan ?m" "\<not> d_is_nan d" using Cons.prems by auto
  have ih: "\<not> d_is_nan ?r" "\<not> d_lt ?r ?m" "\<forall>x \<in> set ds. \<not> d_lt ?r x"
    using Cons.IH [of ?m] Cons.prems nn by simp_all
  have "\<not> d_lt ?m a" "\<not> d_lt ?m d" using d_lt_asym by (auto simp: d_gt_def)
  then have "\<not> d_lt ?r a" "\<not> d_lt ?r d"
    using ih(1,2) nn Cons.prems(2) not_gt_trans [of ?r ?m a] not_gt_trans [of ?r ?m d] by (simp_all add: d_gt_def)
  then show ?case using ih by simp
qed simp

lemma set_float_sort [simp]: "set (float_sort xs) = set xs" "length (float_sort xs) = length xs"
proof -
  have "set (sort_in x ys) = insert x (set ys) \<and> length (sort_in x ys) = Suc (length ys)" for x ys by (induction ys) auto
  then show "set (float_sort xs) = set xs" "length (float_sort xs) = length xs" by (induction xs) simp_all
qed

definition nonneg_distances :: "'ix faiss_lib \<Rightarrow> bool" where
  "nonneg_distances lib \<longleftrightarrow> (\<forall>ix np n q k ds. ix_search lib ix np n q k = Some ds \<longrightarrow> list_all nonneg ds)"

lemma self_distances_nonneg:
  "nonneg_distances lib \<Longrightarrow> self_distances lib b vs k is = Some ds \<Longrightarrow> list_all nonneg ds \<and> length ds = length is"
proof (induction "is" arbitrary: ds)
  case (Cons i "is")
  from Cons.prems(2) obtain d rest ds' where d: "bank_search lib b (row (bk_dim b) vs i) 1 (k + 1) = Some (d # rest)"
    "self_distances lib b vs k is = Some ds'" "ds = last (d # rest) # ds'"
    by (auto split: option.splits list.splits)
  have "list_all nonneg (d # rest)"
  proof -
    obtain ix np where "ix_search lib ix np 1 (row (bk_dim b) vs i) (k + 1) = Some (d # rest)"
      using d(1) by (auto simp: bank_search_def split: if_splits option.splits)
    then show ?thesis using Cons.prems(1) unfolding nonneg_distances_def by blast
  qed
  then have "nonneg (last (d # rest))" by (metis last_in_set list.distinct(1) list_all_iff)
  then show ?case using Cons.IH [OF Cons.prems(1) d(2)] d(3) by simp
qed simp

lemma quotient_unit:
  assumes "nonneg x" "nonneg y" "is_fin y" "d_gt y (Fin False 0)" "\<not> d_lt y x" "\<not> d_is_nan x"
  shows "unit_float (f_div x y)"
proof -
  obtain q where y: "y = Fin False q" "0 < q"
    using assms(2-4) by (cases y) (auto simp: is_fin_def nonneg_def d_gt_def split: if_splits)
  obtain p where x: "x = Fin False p" "0 \<le> p" "p \<le> q"
    using assms(1,5,6) y by (cases x) (auto simp: nonneg_def split: if_splits)
  obtain m where "round_fmt binary64 False (p / q) = Fin False m" "0 \<le> m" "m \<le> 1"
    using round_le_1 [of "p / q"] x y by auto
  then show ?thesis using x y round32_unit [of m] by (simp add: f_div_def)
qed

lemma adaptive_threshold_le:
  assumes "nonneg_distances lib" "adaptive_threshold lib b fpr k ref0 = Some (raw, ref)" "d_gt ref (Fin False 0)" "is_fin ref" "nonneg ref0"
  shows "unit_float (f_div raw ref)"
proof (cases "bk_num b = 0")
  case True
  then show ?thesis using assms by (intro quotient_unit) (auto simp: adaptive_threshold_def nonneg_def d_gt_def dest: d_lt_asym)
next
  case False
  then obtain vs ds i where d: "self_distances lib b vs k [0..<bk_num b] = Some ds" "\<not> list_ex d_is_nan ds"
    "raw = float_sort ds ! min i (bk_num b - 1)" "ref = fold (\<lambda>d m. if d_gt d m then d else m) ds (Fin False 0)"
    using assms(2) by (auto simp: adaptive_threshold_def Let_def std_sort_def bind_eq_Some_conv split: if_splits)
  have nn: "list_all nonneg ds" "length ds = bk_num b" using self_distances_nonneg [OF assms(1) d(1)] by simp_all
  have raw: "raw \<in> set ds"
    using False nn(2) nth_mem [of "min i (bk_num b - 1)" "float_sort ds"] unfolding d(3) by simp
  have "nonneg (fold (\<lambda>d m. if d_gt d m then d else m) xs a)" if "nonneg a" "list_all nonneg xs" for xs a
    using that by (induction xs arbitrary: a) simp_all
  then have "nonneg ref" unfolding d(4) using nn(1) by (simp add: nonneg_def)
  moreover have "\<not> d_lt ref raw" using fold_greatest [OF d(2), of "Fin False 0"] raw by (simp add: d(4))
  ultimately show ?thesis
    using raw nn(1) d(2) assms(3,4) by (intro quotient_unit) (auto simp: list_all_iff list_ex_iff)
qed

text \<open>After an initialisation with an adaptive threshold the threshold is a number between 0 and 1, in
  single precision, whatever the bank and the target rate: scores are divided by the greatest distance within
  the bank, so that at least the patch furthest from the others reaches 1.\<close>

theorem adaptive_threshold_unit:
  assumes "nonneg_distances lib" "pk_adaptive cfg" "initialize lib fs cfg s = Some (Inr (), s')"
    and "nonneg (pt_ref_dist s)" "is_fin (pt_ref_dist s')"
  shows "unit_float (pt_threshold s')"
proof -
  obtain s1 where s1: "load_bank_step lib fs cfg s = Some (Inr (), s1)"
    using assms(3) by (auto simp: initialize_def split: option.splits sum.splits)
  obtain s2 where s2: "whiten_step lib cfg s1 = Some (Inr (), s2)"
    using assms(3) s1 by (auto simp: initialize_def split: option.splits sum.splits)
  obtain s3 where s3: "threshold_step lib cfg s2 = Some s3" "pca_step fs cfg s3 = Some (Inr (), s')"
    using assms(3) s1 s2 by (auto simp: initialize_def bind_eq_Some_conv)
  have "pt_ref_dist s1 = pt_ref_dist s"
    using s1 by (auto simp: load_bank_step_def split: option.splits if_splits sum.splits)
  moreover have "pt_ref_dist s2 = pt_ref_dist s1"
    using s2 by (auto simp: whiten_step_def Let_def bind_eq_Some_conv split: option.splits if_splits sum.splits)
  ultimately have r2: "nonneg (pt_ref_dist s2)" using assms(4) by simp
  have same: "pt_threshold s' = pt_threshold s3" "pt_ref_dist s' = pt_ref_dist s3"
    using s3(2) by (auto simp: pca_step_def split: option.splits if_splits sum.splits)
  obtain b raw ref where t: "adaptive_threshold lib b (pk_target_fpr cfg) (pk_k_nearest cfg) (pt_ref_dist s2) = Some (raw, ref)"
    "s3 = s2\<lparr>pt_ref_dist := ref, pt_threshold := (if d_gt ref (Fin False 0) then f_div raw ref else Fin False 1)\<rparr>"
    using s3(1) assms(2) by (auto simp: threshold_step_def bind_eq_Some_conv)
  show ?thesis
  proof (cases "d_gt ref (Fin False 0)")
    case True
    then show ?thesis using adaptive_threshold_le [OF assms(1) t(1) True _ r2] same t(2) assms(5) by simp
  next
    case False
    then show ?thesis using same t(2) by (simp add: unit_float_def)
  qed
qed

definition adaptive_config :: patch_core_config where
  "adaptive_config = drop_config\<lparr>pk_whitening := False\<rparr>"

theorem adaptive_threshold_unit_witness:
  "\<exists>s'. initialize tiny_faiss (\<lambda>_. None) adaptive_config (set_feature_bank tiny_bank new_patch_core) = Some (Inr (), s') \<and>
    unit_float (pt_threshold s')"
proof -
  have lib: "nonneg_distances tiny_faiss"
    by (simp add: nonneg_distances_def tiny_faiss_def list_all_iff nonneg_def)
  have one: "to_size (f_mul (f_sub (Fin False 1) (Fin False 0)) (f_of_nat 1)) = Some 1"
    by (simp add: f_mul_def f_sub_def d_sub_def f_of_nat_def round_rat_def round_values to_size_def)
  have ad: "adaptive_threshold tiny_faiss tiny_bank (Fin False 0) 1 (Fin False 1) = Some (Fin False 0, Fin False 0)"
    using one tiny_bank_vectors
    by (simp add: adaptive_threshold_def tiny_bank_def bank_search_def tiny_faiss_def std_sort_def upt_rec numeral_2_eq_2 d_gt_def)
  obtain s' where "initialize tiny_faiss (\<lambda>_. None) adaptive_config (set_feature_bank tiny_bank new_patch_core) = Some (Inr (), s')"
    "pt_ref_dist s' = Fin False 0"
    using ad by (simp add: initialize_def load_bank_step_def whiten_step_def threshold_step_def pca_step_def
      adaptive_config_def drop_config_def set_feature_bank_def new_patch_core_def)
  then show ?thesis
    using adaptive_threshold_unit [OF lib, of adaptive_config "\<lambda>_. None" "set_feature_bank tiny_bank new_patch_core" s']
    by (auto simp: adaptive_config_def drop_config_def set_feature_bank_def new_patch_core_def nonneg_def is_fin_def)
qed

subsection \<open>What a detection changes and returns\<close>

text \<open>C27 A detection leaves the bank, the models, the threshold and the reference distance alone; an
  error leaves the context of the last frame too. A result belongs to a grid that fits the configuration, its
  scores are those of the search over the current bank, and the context holds the same result.\<close>

theorem detect_spec:
  assumes "detect lib expf cfg latency e s = Some (res, s')"
  shows "pt_bank s' = pt_bank s \<and> pt_whitening s' = pt_whitening s \<and> pt_pca s' = pt_pca s \<and>
    pt_threshold s' = pt_threshold s \<and> pt_ref_dist s' = pt_ref_dist s \<and>
    (case res of
       Inl err \<Rightarrow> s' = s
     | Inr r \<Rightarrow> \<exists>b distances sc. pt_bank s = Some b \<and>
         em_grid e = (pk_height cfg div pk_patch_size cfg, pk_width cfg div pk_patch_size cfg) \<and>
         detect_scores lib cfg s b (em_data e) (fst (em_grid e) * snd (em_grid e)) = Some (Inr (distances, sc)) \<and>
         scores (dr_map r) = sc \<and> cx_distances (pt_context s') = distances \<and> cx_result (pt_context s') = Some r \<and>
         cx_threshold (pt_context s') = pt_threshold s)"
proof (cases "pt_bank s")
  case None
  then show ?thesis using assms by (auto simp: detect_def not_loaded_def)
next
  case (Some b)
  obtain gh gw where g: "em_grid e = (gh, gw)" by (cases "em_grid e")
  obtain v where v: "validate_patch_grid gh gw (pk_height cfg) (pk_width cfg) (pk_patch_size cfg) = Some v"
    using assms Some g by (auto simp: detect_def Let_def split: option.splits)
  show ?thesis
  proof (cases v)
    case (Inl err)
    then show ?thesis using assms Some g v by (auto simp: detect_def Let_def)
  next
    case (Inr u)
    then have grid: "gh = pk_height cfg div pk_patch_size cfg" "gw = pk_width cfg div pk_patch_size cfg"
      using v by (auto simp: validate_patch_grid_def Let_def split: if_splits)
    obtain d where d: "detect_scores lib cfg s b (em_data e) (gh * gw) = Some d"
      using assms Some g v Inr by (auto simp: detect_def Let_def split: option.splits)
    show ?thesis
    proof (cases d)
      case (Inl err)
      then show ?thesis using assms Some g v \<open>v = Inr u\<close> d by (auto simp: detect_def Let_def)
    next
      case ok: (Inr p)
      obtain distances sc where p: "p = (distances, sc)" by (cases p)
      obtain r where r: "build_detection_result expf sc gh gw (pk_height cfg) (pk_width cfg) (pk_sigma cfg)
          (pt_threshold s) latency = Some r" "res = Inr r"
        using assms Some g v Inr d ok p by (auto simp: detect_def Let_def split: option.splits if_splits)
      have "scores (dr_map r) = sc"
        using r(1) by (auto simp: build_detection_result_def Let_def split: option.splits if_splits)
      then show ?thesis
        using assms Some g v Inr d ok p r grid by (auto simp: detect_def Let_def split: if_splits)
    qed
  qed
qed

text \<open>The detector for principal components divides by the greatest score of the same frame: when
  some score is positive and finite, the greatest score of the map is 1, on an image of a good surface as
  on a defective one.\<close>

theorem pca_detect_normalised:
  assumes "pca_detect expf cfg latency e (Some p) = Some (Inr r)"
    and "pca_score p (em_data e) (fst (em_grid e) * snd (em_grid e)) (pd_method cfg) (pd_drop_k cfg) = Some sc"
    and "max_element sc = Fin False q" "0 < q"
  shows "Fin False 1 \<in> set (scores (dr_map r))"
proof -
  have ne: "sc \<noteq> []" using assms(1,2) by (auto simp: pca_detect_def not_loaded_def Let_def split: prod.splits option.splits sum.splits)
  have one_of: "fold (\<lambda>x best. if d_lt best x then x else best) xs a \<in> insert a (set xs)" for xs a
    by (induction xs arbitrary: a) (auto split: if_splits)
  obtain x xs where sc: "sc = x # xs" using ne by (cases sc) simp_all
  have mem: "max_element sc \<in> set sc" using one_of [of xs x] by (simp add: max_element_def sc)
  have one: "f_div (Fin False q) (Fin False q) = Fin False 1"
    using assms(4) by (simp add: f_div_def round_values)
  have "scores (dr_map r) = scaled_to_max sc"
    using assms(1,2) ne
    by (auto simp: pca_detect_def build_detection_result_def Let_def split: prod.splits option.splits sum.splits list.splits if_splits)
  moreover have "scaled_to_max sc = map (\<lambda>x. f_div x (max_element sc)) sc"
    using assms(3,4) by (simp add: scaled_to_max_def Let_def d_gt_def)
  ultimately show ?thesis using mem one assms(3) by (metis (no_types, lifting) image_eqI image_set)
qed

definition one_patch :: "dbl list \<Rightarrow> full_embedding" where
  "one_patch v = coreset_embedding (length v) v"

theorem detect_spec_witness:
  "\<exists>r s'. detect tiny_faiss (\<lambda>_. Fin False 1) adaptive_config 0 (one_patch [Fin False 1]) (set_feature_bank tiny_bank new_patch_core) =
      Some (Inr r, s') \<and> pt_bank s' = Some tiny_bank \<and> cx_result (pt_context s') = Some r"
proof -
  let ?s = "set_feature_bank tiny_bank new_patch_core"
  define sc where "sc = patch_scores (pt_ref_dist ?s) 1 [Fin False 0] 1"
  have sc: "length sc = 1" by (simp add: sc_def patch_scores_def)
  have ds: "detect_scores tiny_faiss adaptive_config ?s tiny_bank [Fin False 1] 1 = Some (Inr ([Fin False 0], sc))"
    by (simp add: detect_scores_def sc_def set_feature_bank_def new_patch_core_def bank_search_def tiny_bank_def tiny_faiss_def
      adaptive_config_def drop_config_def)
  obtain r where r: "build_detection_result (\<lambda>_. Fin False 1) sc 1 1 1 1 0 (pt_threshold ?s) 0 = Some r"
    using build_detection_result_run [of sc 1 1 0 1 1 "\<lambda>_. Fin False 1" "pt_threshold ?s" 0] sc by auto
  have v: "validate_patch_grid 1 1 (pk_height adaptive_config) (pk_width adaptive_config) (pk_patch_size adaptive_config) = Some (Inr ())"
    by (simp add: validate_patch_grid_def adaptive_config_def drop_config_def)
  have c: "pk_height adaptive_config = 1" "pk_width adaptive_config = 1" "pk_sigma adaptive_config = 0" "pk_embed_dim adaptive_config = 1"
    by (simp_all add: adaptive_config_def drop_config_def)
  obtain s' where d: "detect tiny_faiss (\<lambda>_. Fin False 1) adaptive_config 0 (one_patch [Fin False 1]) ?s = Some (Inr r, s')"
    using v ds r by (simp add: detect_def one_patch_def coreset_embedding_def set_feature_bank_def c)
  from detect_spec [OF this] d show ?thesis by (auto simp: set_feature_bank_def)
qed

definition tiny_pca_config :: pca_detector_config where
  "tiny_pca_config = \<lparr>pd_path = ''m'', pd_embed_dim = 2, pd_width = 1, pd_height = 1, pd_patch_size = 1, pd_sigma = 0,
     pd_threshold = Fin False 1, pd_method = Euclidean, pd_drop_k = 0\<rparr>"

theorem pca_detect_normalised_witness:
  "\<exists>r. pca_detect (\<lambda>_. Fin False 1) tiny_pca_config 0 (one_patch [Fin False 1, Fin True 1]) (Some tiny_pca) = Some (Inr r) \<and>
    Fin False 1 \<in> set (scores (dr_map r))"
proof -
  have sc: "pca_score tiny_pca [Fin False 1, Fin True 1] 1 Euclidean 0 = Some [Fin False 1]"
    by (simp add: pca_score_def score_row_def centered_row_def projected_norm_def projection_def f_dot_def row_def
      sum_squares_def tiny_pca_def small_float_defs)
  have l: "length (scaled_to_max [Fin False 1]) = 1" by (simp add: scaled_to_max_def Let_def)
  obtain r where r: "build_detection_result (\<lambda>_. Fin False 1) (scaled_to_max [Fin False 1]) 1 1 1 1 0 (Fin False 1) 0 = Some r"
    using build_detection_result_run [of "scaled_to_max [Fin False 1]" 1 1 0 1 1 "\<lambda>_. Fin False 1" "Fin False 1" 0] l
    by auto
  have "pca_detect (\<lambda>_. Fin False 1) tiny_pca_config 0 (one_patch [Fin False 1, Fin True 1]) (Some tiny_pca) = Some (Inr r)"
    using sc r by (simp add: pca_detect_def one_patch_def coreset_embedding_def tiny_pca_config_def validate_patch_grid_def)
  from pca_detect_normalised [OF this, of "[Fin False 1]" 1] this show ?thesis
    using sc by (simp add: one_patch_def coreset_embedding_def tiny_pca_config_def max_element_def)
qed

end
