(* ===== verification/Tuning_Space.thy ===== *)
theory Tuning_Space
  imports Coreset_Evolution
begin

text \<open>
  The search space of the automatic tuning (\<open>src/tuning/tuning_space.cpp\<close>): parameters with bounds and
  steps, linear constraints, the feasibility test, the projection onto the bounds and the YAML loader.
\<close>

record tuning_parameter =
  tp_name :: string
  tp_discrete :: bool
  tp_min :: dbl
  tp_max :: dbl
  tp_step :: dbl

record parameter_constraint =
  lhs_name :: string
  coeff_lhs :: dbl
  rhs_name :: string
  coeff_rhs :: dbl
  con_bound :: dbl

record tuning_space =
  sp_parameters :: "tuning_parameter list"
  sp_constraints :: "parameter_constraint list"

definition empty_space :: tuning_space where
  "empty_space = \<lparr>sp_parameters = [], sp_constraints = []\<rparr>"

definition add_parameter :: "tuning_parameter \<Rightarrow> tuning_space \<Rightarrow> tuning_space" where
  "add_parameter p s = s\<lparr>sp_parameters := sp_parameters s @ [p]\<rparr>"

definition add_constraint :: "parameter_constraint \<Rightarrow> tuning_space \<Rightarrow> tuning_space" where
  "add_constraint c s = s\<lparr>sp_constraints := sp_constraints s @ [c]\<rparr>"

definition dimension :: "tuning_space \<Rightarrow> nat" where
  "dimension s = length (sp_parameters s)"

definition find_index :: "tuning_space \<Rightarrow> string \<Rightarrow> nat option" where
  "find_index s n =
     (case filter (\<lambda>i. tp_name (sp_parameters s ! i) = n) [0..<dimension s] of [] \<Rightarrow> None | i # _ \<Rightarrow> Some i)"

text \<open>\<open>std::round\<close>: halves away from zero.\<close>

fun d_round :: "dbl \<Rightarrow> dbl" where
  "d_round (Fin s q) = Fin s (of_int \<lfloor>q + 1 / 2\<rfloor>)"
| "d_round d = d"

text \<open>\<open>std::clamp\<close>; undefined in C++ when the bounds are in the wrong order.\<close>

definition d_clamp :: "dbl \<Rightarrow> dbl \<Rightarrow> dbl \<Rightarrow> dbl" where
  "d_clamp v lo hi = (if d_lt v lo then lo else if d_lt hi v then hi else v)"

definition is_stepped :: "tuning_parameter \<Rightarrow> bool" where
  "is_stepped p \<longleftrightarrow> tp_discrete p \<and> d_gt (tp_step p) (Fin False 0)"

definition snap :: "tuning_parameter \<Rightarrow> dbl \<Rightarrow> dbl" where
  "snap p v = d_add (tp_min p) (d_mul (d_round (d_div (d_sub v (tp_min p)) (tp_step p))) (tp_step p))"

definition tiny_gap :: dbl where
  "tiny_gap = d_lit (1 / 10 ^ 9)"

definition coordinate_ok :: "tuning_parameter \<Rightarrow> dbl \<Rightarrow> bool" where
  "coordinate_ok p v \<longleftrightarrow> \<not> d_lt v (tp_min p) \<and> \<not> d_gt v (tp_max p) \<and>
     \<not> (is_stepped p \<and> d_gt (d_abs (d_sub v (snap p v))) tiny_gap)"

definition constraint_ok :: "tuning_space \<Rightarrow> dbl list \<Rightarrow> parameter_constraint \<Rightarrow> bool" where
  "constraint_ok s point c =
     (case (find_index s (lhs_name c), find_index s (rhs_name c)) of
        (Some l, Some r) \<Rightarrow>
          \<not> d_gt (d_add (d_mul (coeff_lhs c) (point ! l)) (d_mul (coeff_rhs c) (point ! r))) (d_add (con_bound c) tiny_gap)
      | _ \<Rightarrow> False)"

definition is_feasible :: "tuning_space \<Rightarrow> dbl list \<Rightarrow> bool" where
  "is_feasible s point \<longleftrightarrow> length point = dimension s \<and> list_all2 coordinate_ok (sp_parameters s) point \<and>
     list_all (constraint_ok s point) (sp_constraints s)"

definition clamp_coordinate :: "tuning_parameter \<Rightarrow> dbl \<Rightarrow> dbl" where
  "clamp_coordinate p v =
     (let v1 = d_clamp v (tp_min p) (tp_max p)
      in if is_stepped p then d_clamp (snap p v1) (tp_min p) (tp_max p) else v1)"

definition clamp_to_bounds :: "tuning_space \<Rightarrow> dbl list \<Rightarrow> dbl list" where
  "clamp_to_bounds s point =
     (if length point \<noteq> dimension s then point else map2 clamp_coordinate (sp_parameters s) point)"

subsection \<open>Loading\<close>

definition text_key :: "'z load_conv_scheme \<Rightarrow> yaml \<Rightarrow> string \<Rightarrow> yaml_exception + string" where
  "text_key cv n k =
     y_bind (y_index n k) (\<lambda>v. case v of
       None \<Rightarrow> Inl InvalidNode
     | Some _ \<Rightarrow> (case text_of cv v of None \<Rightarrow> Inl BadConversion | Some s \<Rightarrow> Inr s))"

definition double_key :: "'z load_conv_scheme \<Rightarrow> yaml \<Rightarrow> string \<Rightarrow> yaml_exception + dbl" where
  "double_key cv n k =
     y_bind (y_index n k) (\<lambda>v. case v of
       None \<Rightarrow> Inl InvalidNode
     | Some _ \<Rightarrow> (case Option.bind (y_scalar v) (as_double_text cv) of None \<Rightarrow> Inl BadConversion | Some d \<Rightarrow> Inr d))"

definition parse_failed :: "string \<Rightarrow> 'a result" where
  "parse_failed m = Inl (ErrorInfo Infra_ConfigParseError m)"

text \<open>An entry of the list, or the error that ends the loading.\<close>

definition parse_parameter :: "'z load_conv_scheme \<Rightarrow> yaml \<Rightarrow> tuning_parameter thrown" where
  "parse_parameter cv n =
     y_bind (text_key cv n ''name'') (\<lambda>name.
     y_bind (double_key cv n ''min'') (\<lambda>mn.
     y_bind (double_key cv n ''max'') (\<lambda>mx.
     y_bind (text_key cv n ''type'') (\<lambda>ty.
       let p = \<lparr>tp_name = name, tp_discrete = (ty = ''discrete''), tp_min = mn, tp_max = mx, tp_step = Fin False 0\<rparr> in
       if ty = ''continuous'' then returning p
       else if ty \<noteq> ''discrete''
       then Inr (parse_failed (''unknown parameter type '' @ [CHR 0x27] @ ty @ [CHR 0x27] @ '' for parameter '' @
              [CHR 0x27] @ name @ [CHR 0x27]))
       else y_bind (y_index n ''step'') (\<lambda>st. case st of
              None \<Rightarrow> Inr (parse_failed (''discrete parameter '' @ [CHR 0x27] @ name @ [CHR 0x27] @ '' is missing '' @
                        [CHR 0x27] @ ''step'' @ [CHR 0x27] @ '' field''))
            | Some _ \<Rightarrow> y_bind (double_key cv n ''step'') (\<lambda>v. returning (p\<lparr>tp_step := v\<rparr>)))))))"

definition parse_constraint :: "'z load_conv_scheme \<Rightarrow> yaml \<Rightarrow> parameter_constraint thrown" where
  "parse_constraint cv n =
     y_bind (text_key cv n ''lhs'') (\<lambda>l.
     y_bind (text_key cv n ''rhs'') (\<lambda>r.
     y_bind (y_index n ''coeff_lhs'') (\<lambda>cl.
     y_bind (y_index n ''coeff_rhs'') (\<lambda>cr.
     y_bind (double_key cv n ''bound'') (\<lambda>b.
       returning \<lparr>lhs_name = l, coeff_lhs = scalar_or (as_double_text cv) (Fin False 1) cl,
                  rhs_name = r, coeff_rhs = scalar_or (as_double_text cv) (Fin False 1) cr, con_bound = b\<rparr>)))))"

primrec parse_each :: "(yaml \<Rightarrow> 'b thrown) \<Rightarrow> ('b \<Rightarrow> tuning_space \<Rightarrow> tuning_space) \<Rightarrow> yaml list \<Rightarrow> tuning_space \<Rightarrow> tuning_space thrown" where
  "parse_each reader add [] s = returning s"
| "parse_each reader add (n # ns) s = then_ok (reader n) (\<lambda>x. parse_each reader add ns (add x s))"

definition parse_space :: "'z load_conv_scheme \<Rightarrow> string \<Rightarrow> yaml \<Rightarrow> tuning_space thrown" where
  "parse_space cv path doc =
     y_bind (y_index doc ''tuning'') (\<lambda>tuning. case tuning of
       None \<Rightarrow> Inr (parse_failed (''missing top-level '' @ [CHR 0x27] @ ''tuning'' @ [CHR 0x27] @ '' key in: '' @ path))
     | Some t \<Rightarrow>
         y_bind (y_index t ''parameters'') (\<lambda>params. case params of
           Some (YSeq ns) \<Rightarrow>
             then_ok (parse_each (parse_parameter cv) add_parameter ns empty_space) (\<lambda>s.
             y_bind (y_index t ''constraints'') (\<lambda>cons. case cons of
               Some (YSeq cs) \<Rightarrow> parse_each (parse_constraint cv) add_constraint cs s
             | _ \<Rightarrow> returning s))
         | _ \<Rightarrow> Inr (parse_failed (''missing or invalid '' @ [CHR 0x27] @ ''tuning.parameters'' @ [CHR 0x27] @ '' list in: '' @ path))))"

definition load_space :: "'z load_conv_scheme \<Rightarrow> string \<Rightarrow> bool \<Rightarrow> yaml_exception + yaml \<Rightarrow> tuning_space result" where
  "load_space cv path exists file =
     (if \<not> exists then Inl (ErrorInfo Infra_ConfigFileNotFound (''tuning config file not found: '' @ path))
      else case y_bind file (parse_space cv path) of
             Inl ex \<Rightarrow> parse_failed (''YAML parse error in tuning config: '' @ what cv ex)
           | Inr (Inl err) \<Rightarrow> Inl err
           | Inr (Inr s) \<Rightarrow>
               if dimension s = 0
               then Inl (ErrorInfo Tuning_SpaceEmpty (''tuning space has zero parameters after loading: '' @ path))
               else Inr s)"

subsection \<open>Clamping and feasibility\<close>

text \<open>What \<open>std::clamp\<close> and \<open>std::uniform_real_distribution\<close> ask for: bounds in order and a finite width.\<close>

fun d_finite :: "dbl \<Rightarrow> bool" where
  "d_finite (Fin s q) = True"
| "d_finite d = False"

definition bounds_ordered :: "tuning_space \<Rightarrow> bool" where
  "bounds_ordered s \<longleftrightarrow>
     (\<forall>p \<in> set (sp_parameters s). \<not> d_lt (tp_max p) (tp_min p) \<and> d_finite (d_sub (tp_max p) (tp_min p)))"

definition in_bounds :: "tuning_space \<Rightarrow> dbl list \<Rightarrow> bool" where
  "in_bounds s point \<longleftrightarrow> list_all2 (\<lambda>p v. \<not> d_lt v (tp_min p) \<and> \<not> d_gt v (tp_max p)) (sp_parameters s) point"

lemma clamp_bounds: "\<not> d_lt hi lo \<Longrightarrow> \<not> d_lt (d_clamp v lo hi) lo \<and> \<not> d_lt hi (d_clamp v lo hi)"
  by (auto simp: d_clamp_def)

lemma clamp_coordinate_bounds:
  "\<not> d_lt (tp_max p) (tp_min p) \<Longrightarrow>
    \<not> d_lt (clamp_coordinate p v) (tp_min p) \<and> \<not> d_lt (tp_max p) (clamp_coordinate p v)"
  using clamp_bounds by (simp add: clamp_coordinate_def Let_def)

lemma clamp_in_bounds:
  assumes "bounds_ordered s" "length point = dimension s"
  shows "in_bounds s (clamp_to_bounds s point)"
  using assms clamp_coordinate_bounds
  by (auto simp: in_bounds_def clamp_to_bounds_def dimension_def bounds_ordered_def d_gt_def list_all2_conv_all_nth)

lemma small_literal:
  assumes "0 < q" "q \<le> 1 / 2"
  shows "d_lt (d_lit q) (Fin False 1)"
proof -
  have "rounded q \<le> pow2 (-1)" using assms by (intro rounded_le_pow2(2)) (simp_all add: pow2_def)
  then have "rounded q < 1" by (simp add: pow2_def)
  moreover have "rounded q < pow2 1024"
    using calculation pow2_less_iff [of 0 1024] by (simp add: pow2_def [of 0])
  ultimately show ?thesis using assms by (simp add: d_lit_def round_rat_def round_binary64)
qed

text \<open>The projection may end on a point that \<open>IsFeasible\<close> refuses: when the last step lies beyond the
  greatest value, the second clamp leaves the grid of steps.\<close>

definition odd_space :: tuning_space where
  "odd_space = \<lparr>sp_parameters = [\<lparr>tp_name = ''p'', tp_discrete = True, tp_min = Fin False 0, tp_max = Fin False 3,
     tp_step = Fin False 2\<rparr>], sp_constraints = []\<rparr>"

lemma clamp_leaves_steps: "clamp_to_bounds odd_space [Fin False 3] = [Fin False 3] \<and> \<not> is_feasible odd_space [Fin False 3]"
proof -
  have r: "round_fmt binary64 False 3 = Fin False 3" "round_fmt binary64 False (3 / 2) = Fin False (3 / 2)"
    "round_fmt binary64 False 4 = Fin False 4" "round_fmt binary64 True 1 = Fin True 1"
    using round_fmt_exact [of 3 binary64 0 False] round_fmt_exact [of 3 binary64 "-1" False]
      round_fmt_exact [of 4 binary64 0 False] round_fmt_exact [of 1 binary64 0 True]
    by (simp_all add: binary64_def pow2_def)
  have f: "\<lfloor>(3 / 2 :: rat) + 1 / 2\<rfloor> = 2" by simp
  have s: "snap \<lparr>tp_name = ''p'', tp_discrete = True, tp_min = Fin False 0, tp_max = Fin False 3, tp_step = Fin False 2\<rparr>
      (Fin False 3) = Fin False 4"
    using f by (simp add: snap_def d_sub_def r Let_def round_rat_def)
  have "d_lt tiny_gap (Fin False 1)"
    unfolding tiny_gap_def by (rule small_literal) simp_all
  then have "\<not> is_feasible odd_space [Fin False 3]"
    by (simp add: is_feasible_def odd_space_def coordinate_ok_def is_stepped_def d_gt_def s d_sub_def r Let_def round_rat_def)
  moreover have "clamp_to_bounds odd_space [Fin False 3] = [Fin False 3]"
    by (simp add: clamp_to_bounds_def odd_space_def dimension_def clamp_coordinate_def d_clamp_def Let_def s)
  ultimately show ?thesis by simp
qed

end
