(* ===== verification/Bayesian_Optimizer.thy ===== *)
theory Bayesian_Optimizer
  imports Tuning_Space Option_Lists "HOL-Library.Monad_Syntax"
begin

text \<open>
  The optimizer of the automatic tuning (\<open>src/tuning/bayesian_optimizer.cpp\<close>): a Gaussian process over the
  observations, its hyperparameters by gradient ascent, and the point of greatest expected improvement by
  L-BFGS with projection. All arithmetic is in double precision in the order of the code. \<open>None\<close> is a
  read outside of a vector. The functions of the C library, the random numbers and the objective are
  parameters; the cached factorisation is recomputed here, since it only saves time.
\<close>

record ('o, 'g) tuning_env =
  t_exp :: "dbl \<Rightarrow> dbl"
  t_log :: "dbl \<Rightarrow> dbl"
  t_erf :: "dbl \<Rightarrow> dbl"
  t_eval :: "'o \<Rightarrow> dbl list \<Rightarrow> dbl result \<times> 'o"
  t_draw :: "'g \<Rightarrow> dbl \<Rightarrow> dbl \<Rightarrow> dbl \<times> 'g"

record optimizer_config =
  max_iterations :: nat
  initial_random_points :: nat
  noise_level :: dbl
  kernel_sigma2 :: dbl
  kernel_length :: dbl
  jitter :: dbl
  lbfgs_restarts :: nat
  lbfgs_max_iters :: nat
  lbfgs_grad_tol :: dbl
  ei_tol :: dbl
  ei_stagnation_iters :: nat

definition default_optimizer_config :: optimizer_config where
  "default_optimizer_config =
     \<lparr>max_iterations = 50, initial_random_points = 5, noise_level = d_lit (1 / 1000), kernel_sigma2 = Fin False 1,
      kernel_length = Fin False (1 / 2), jitter = d_lit (1 / 10 ^ 6), lbfgs_restarts = 10, lbfgs_max_iters = 100,
      lbfgs_grad_tol = d_lit (1 / 10 ^ 5), ei_tol = d_lit (1 / 10 ^ 6), ei_stagnation_iters = 3\<rparr>"

record optimizer =
  bo_space :: tuning_space
  bo_config :: optimizer_config
  bo_obs :: "(dbl list \<times> dbl) list"
  bo_sigma2 :: dbl
  bo_length :: dbl

definition new_optimizer :: "tuning_space \<Rightarrow> optimizer_config \<Rightarrow> optimizer" where
  "new_optimizer s cfg = \<lparr>bo_space = s, bo_config = cfg, bo_obs = [], bo_sigma2 = kernel_sigma2 cfg, bo_length = kernel_length cfg\<rparr>"

definition add_observation :: "dbl list \<times> dbl \<Rightarrow> optimizer \<Rightarrow> optimizer" where
  "add_observation p st = st\<lparr>bo_obs := bo_obs st @ [p]\<rparr>"

text \<open>The first observation of least cost; without observations the static empty point.\<close>

definition best_point :: "optimizer \<Rightarrow> dbl list \<times> dbl" where
  "best_point st =
     (case bo_obs st of
        [] \<Rightarrow> ([], Fin False 0)
      | p # ps \<Rightarrow> fold (\<lambda>obs best. if d_lt (snd obs) (snd best) then obs else best) ps p)"

subsection \<open>Kernel and linear algebra\<close>

definition two :: dbl where
  "two = Fin False 2"

definition sq_distance :: "dbl list \<Rightarrow> dbl list \<Rightarrow> dbl option" where
  "sq_distance a b =
     (if length b < length a then None
      else Some (fold (\<lambda>(x, y) acc. let d = d_sub x y in d_add acc (d_mul d d)) (zip a b) (Fin False 0)))"

definition rbf_kernel :: "('o, 'g) tuning_env \<Rightarrow> dbl \<Rightarrow> dbl \<Rightarrow> dbl list \<Rightarrow> dbl list \<Rightarrow> dbl option" where
  "rbf_kernel env s2 len x y =
     map_option (\<lambda>r. d_mul s2 (t_exp env (d_div (d_neg r) (d_mul (d_mul two len) len)))) (sq_distance x y)"

text \<open>The rows of the lower triangle, the only part that the decomposition reads.\<close>

definition kernel_matrix :: "('o, 'g) tuning_env \<Rightarrow> dbl \<Rightarrow> dbl \<Rightarrow> dbl list list \<Rightarrow> dbl list list option" where
  "kernel_matrix env s2 len pts =
     map_opt (\<lambda>i. map_opt (\<lambda>j. rbf_kernel env s2 len (pts ! i) (pts ! j)) [0..<Suc i]) [0..<length pts]"

definition add_diagonal :: "dbl \<Rightarrow> dbl list list \<Rightarrow> dbl list list" where
  "add_diagonal d k = map (\<lambda>r. butlast r @ [d_add (last r) d]) k"

definition minus_products :: "dbl \<Rightarrow> dbl list \<Rightarrow> dbl list \<Rightarrow> dbl" where
  "minus_products s xs ys = fold (\<lambda>(x, y) acc. d_sub acc (d_mul x y)) (zip xs ys) s"

fun cholesky_row :: "dbl list list \<Rightarrow> dbl list \<Rightarrow> dbl list \<Rightarrow> dbl list option" where
  "cholesky_row l [] cur = Some cur"
| "cholesky_row l (k # ks) cur =
     (if length cur < length l
      then let r = l ! length cur in cholesky_row l ks (cur @ [d_div (minus_products k cur r) (r ! length cur)])
      else let s = minus_products k cur cur in
           if d_le s (Fin False 0) then None else cholesky_row l ks (cur @ [d_sqrt s]))"

fun cholesky :: "dbl list list \<Rightarrow> dbl list list \<Rightarrow> dbl list list option" where
  "cholesky l [] = Some l"
| "cholesky l (r # rs) = (case cholesky_row l r [] of None \<Rightarrow> None | Some r' \<Rightarrow> cholesky (l @ [r']) rs)"

definition forward_solve :: "dbl list list \<Rightarrow> dbl list \<Rightarrow> dbl list" where
  "forward_solve l b =
     fold (\<lambda>i x. x @ [d_div (minus_products (b ! i) (l ! i) x) (l ! i ! i)]) [0..<length l] []"

definition backward_solve :: "dbl list list \<Rightarrow> dbl list \<Rightarrow> dbl list" where
  "backward_solve l y =
     foldr (\<lambda>i x. x[i := d_div (fold (\<lambda>j s. d_sub s (d_mul (l ! j ! i) (x ! j))) [Suc i..<length l] (x ! i)) (l ! i ! i)])
       [0..<length l] y"

definition solve_cholesky :: "dbl list list \<Rightarrow> dbl list \<Rightarrow> dbl list" where
  "solve_cholesky l b = backward_solve l (forward_solve l b)"

subsection \<open>Prediction\<close>

text \<open>The diagonal corrections in the order they are tried: after the fifth failure the code multiplies
  twice by ten.\<close>

definition jitters :: "dbl \<Rightarrow> dbl list" where
  "jitters j =
     (let ten = Fin False 10; up = (\<lambda>x. d_mul x ten)
      in [j, up j, up (up j), up (up (up j)), up (up (up (up j))), up (up (up (up (up (up j)))))])"

fun first_factor :: "dbl list list \<Rightarrow> dbl list \<Rightarrow> dbl list list option" where
  "first_factor k [] = None"
| "first_factor k (j # js) =
     (case cholesky [] (add_diagonal j k) of None \<Rightarrow> first_factor k js | Some l \<Rightarrow> Some l)"

definition gp_factor :: "('o, 'g) tuning_env \<Rightarrow> optimizer \<Rightarrow> (dbl list list \<times> dbl list) option option" where
  "gp_factor env st = do {
     k \<leftarrow> kernel_matrix env (bo_sigma2 st) (bo_length st) (map fst (bo_obs st));
     Some (map_option (\<lambda>l. (l, solve_cholesky l (map snd (bo_obs st))))
             (first_factor (add_diagonal (noise_level (bo_config st)) k) (jitters (jitter (bo_config st)))))
   }"

definition d_dot :: "dbl list \<Rightarrow> dbl list \<Rightarrow> dbl" where
  "d_dot a b = fold (\<lambda>(x, y) acc. d_add acc (d_mul x y)) (zip a b) (Fin False 0)"

definition predict :: "('o, 'g) tuning_env \<Rightarrow> optimizer \<Rightarrow> dbl list \<Rightarrow> (dbl \<times> dbl) option" where
  "predict env st point =
     (if bo_obs st = [] then Some (Fin False 0, bo_sigma2 st)
      else do {
        f \<leftarrow> gp_factor env st;
        (case f of
           None \<Rightarrow> Some (Fin False 0, bo_sigma2 st)
         | Some (l, alpha) \<Rightarrow> do {
             kstar \<leftarrow> map_opt (\<lambda>p. rbf_kernel env (bo_sigma2 st) (bo_length st) point p) (map fst (bo_obs st));
             Some (d_dot kstar alpha, d_max (minus_products (bo_sigma2 st) kstar (solve_cholesky l kstar)) (Fin False 0))
           })
      })"

subsection \<open>Expected improvement\<close>

definition sqrt2 :: dbl where
  "sqrt2 = d_lit (141421356237309504880168872421 / 10 ^ 29)"

definition pi_d :: dbl where
  "pi_d = d_lit (314159265358979323846264338328 / 10 ^ 29)"

definition normal_cdf :: "('o, 'g) tuning_env \<Rightarrow> dbl \<Rightarrow> dbl" where
  "normal_cdf env x = d_mul (Fin False (1 / 2)) (d_add (Fin False 1) (t_erf env (d_div x sqrt2)))"

definition normal_pdf :: "('o, 'g) tuning_env \<Rightarrow> dbl \<Rightarrow> dbl" where
  "normal_pdf env x = d_div (t_exp env (d_mul (d_mul (Fin True (1 / 2)) x) x)) (d_sqrt (d_mul two pi_d))"

definition compute_ei :: "('o, 'g) tuning_env \<Rightarrow> optimizer \<Rightarrow> dbl list \<Rightarrow> dbl option" where
  "compute_ei env st point =
     (if bo_obs st = [] then Some (Fin False 1)
      else do {
        (mean, variance) \<leftarrow> predict env st point;
        (let sigma = d_sqrt variance; gain = d_sub (snd (best_point st)) mean; z = d_div gain sigma in
         if d_lt sigma (d_lit (1 / 10 ^ 12)) then Some (Fin False 0)
         else Some (d_add (d_mul gain (normal_cdf env z)) (d_mul sigma (normal_pdf env z))))
      })"

definition ei_gradient :: "('o, 'g) tuning_env \<Rightarrow> optimizer \<Rightarrow> dbl list \<Rightarrow> dbl list option" where
  "ei_gradient env st point =
     (let h = d_lit (1 / 10 ^ 6) in
      map_opt (\<lambda>i. do {
          up \<leftarrow> compute_ei env st (clamp_to_bounds (bo_space st) (point[i := d_add (point ! i) h]));
          down \<leftarrow> compute_ei env st (clamp_to_bounds (bo_space st) (point[i := d_sub (point ! i) h]));
          Some (d_div (d_sub up down) (d_mul two h))
        }) [0..<length point])"

subsection \<open>Hyperparameters\<close>

definition log_likelihood :: "('o, 'g) tuning_env \<Rightarrow> optimizer \<Rightarrow> dbl \<Rightarrow> dbl \<Rightarrow> dbl option" where
  "log_likelihood env st log_sigma2 log_length =
     (let n = length (bo_obs st); y = map snd (bo_obs st) in
      if n = 0 then Some (Fin False 0)
      else do {
        k \<leftarrow> kernel_matrix env (t_exp env log_sigma2) (t_exp env log_length) (map fst (bo_obs st));
        (case cholesky [] (add_diagonal (d_add (noise_level (bo_config st)) (jitter (bo_config st))) k) of
           None \<Rightarrow> Some (Fin True (10 ^ 10))
         | Some l \<Rightarrow>
             let y_alpha = d_dot y (solve_cholesky l y);
                 log_det = fold (\<lambda>i acc. d_add acc (t_log env (l ! i ! i))) [0..<n] (Fin False 0)
             in Some (d_sub (d_sub (d_mul (Fin True (1 / 2)) y_alpha) log_det)
                        (d_mul (d_mul (Fin False (1 / 2)) (d_of_nat n)) (t_log env (d_mul two pi_d)))))
      })"

text \<open>The step sizes of a backtracking search: one, halved while above the limit. Forty values reach below
  both limits of the code, \<open>1e-8\<close> and \<open>1e-10\<close>.\<close>

primrec halvings :: "nat \<Rightarrow> dbl \<Rightarrow> dbl \<Rightarrow> dbl list" where
  "halvings 0 limit s = []"
| "halvings (Suc n) limit s = (if d_gt s limit then s # halvings n limit (d_mul s (Fin False (1 / 2))) else [])"

definition step_sizes :: "dbl \<Rightarrow> dbl list" where
  "step_sizes limit = halvings 40 limit (Fin False 1)"

primrec armijo_ascent ::
  "('o, 'g) tuning_env \<Rightarrow> optimizer \<Rightarrow> dbl \<times> dbl \<Rightarrow> dbl \<times> dbl \<Rightarrow> dbl \<Rightarrow> dbl list \<Rightarrow> (dbl \<times> dbl) option" where
  "armijo_ascent env st ab grad prev [] = Some ab"
| "armijo_ascent env st ab grad prev (s # ss) =
     (let a_new = d_add (fst ab) (d_mul s (fst grad)); b_new = d_add (snd ab) (d_mul s (snd grad));
          norm = d_add (d_mul (fst grad) (fst grad)) (d_mul (snd grad) (snd grad))
      in do {
        new_lml \<leftarrow> log_likelihood env st a_new b_new;
        (if d_gt new_lml (d_add prev (d_mul (d_mul (d_lit (1 / 10 ^ 4)) s) norm)) then Some (a_new, b_new)
         else armijo_ascent env st ab grad prev ss)
      })"

primrec fit_loop :: "('o, 'g) tuning_env \<Rightarrow> optimizer \<Rightarrow> nat \<Rightarrow> dbl \<times> dbl \<Rightarrow> dbl \<Rightarrow> (dbl \<times> dbl) option" where
  "fit_loop env st 0 ab prev = Some ab"
| "fit_loop env st (Suc n) ab prev =
     (let h = d_lit (1 / 10 ^ 4); (a, b) = ab in do {
        ap \<leftarrow> log_likelihood env st (d_add a h) b;
        am \<leftarrow> log_likelihood env st (d_sub a h) b;
        bp \<leftarrow> log_likelihood env st a (d_add b h);
        bm \<leftarrow> log_likelihood env st a (d_sub b h);
        ab' \<leftarrow> armijo_ascent env st ab (d_div (d_sub ap am) (d_mul two h), d_div (d_sub bp bm) (d_mul two h)) prev
                 (step_sizes (d_lit (1 / 10 ^ 8)));
        cur \<leftarrow> log_likelihood env st (fst ab') (snd ab');
        (if d_lt (d_abs (d_sub cur prev)) (d_lit (1 / 10 ^ 4)) then Some ab' else fit_loop env st n ab' cur)
      })"

definition fit_hyperparameters :: "('o, 'g) tuning_env \<Rightarrow> optimizer \<Rightarrow> optimizer option" where
  "fit_hyperparameters env st =
     (if length (bo_obs st) < 2 then Some st
      else let a = t_log env (bo_sigma2 st); b = t_log env (bo_length st) in do {
        prev \<leftarrow> log_likelihood env st a b;
        ab \<leftarrow> fit_loop env st 50 (a, b) prev;
        Some (st\<lparr>bo_sigma2 := t_exp env (fst ab), bo_length := t_exp env (snd ab)\<rparr>)
      })"

subsection \<open>The search for the greatest improvement\<close>

primrec random_point :: "('o, 'g) tuning_env \<Rightarrow> tuning_parameter list \<Rightarrow> 'g \<Rightarrow> dbl list \<times> 'g" where
  "random_point env [] g = ([], g)"
| "random_point env (p # ps) g =
     (let (v, g1) = t_draw env g (tp_min p) (tp_max p);
          x = (if is_stepped p then d_clamp (snap p v) (tp_min p) (tp_max p) else v);
          (xs, g2) = random_point env ps g1
      in (x # xs, g2))"

type_synonym history = "(dbl list \<times> dbl list) list"

text \<open>First loop, from the newest pair to the oldest: the vector \<open>q\<close> and the coefficients \<open>rho\<close>, \<open>alpha\<close>.\<close>

fun backward_loop :: "history \<Rightarrow> dbl list \<Rightarrow> dbl list \<times> (dbl \<times> dbl) list" where
  "backward_loop [] q = (q, [])"
| "backward_loop ((s, y) # older) q =
     (let rho = d_div (Fin False 1) (d_dot s y); alpha = d_mul rho (d_dot s q);
          (q', cs) = backward_loop older (map2 (\<lambda>qj yj. d_sub qj (d_mul alpha yj)) q y)
      in (q', (rho, alpha) # cs))"

fun forward_loop :: "((dbl list \<times> dbl list) \<times> dbl \<times> dbl) list \<Rightarrow> dbl list \<Rightarrow> dbl list" where
  "forward_loop [] r = r"
| "forward_loop (((s, y), rho, alpha) # newer) r =
     (let beta = d_mul rho (d_dot y r)
      in forward_loop newer (map2 (\<lambda>rj sj. d_add rj (d_mul sj (d_sub alpha beta))) r s))"

definition search_direction :: "history \<Rightarrow> dbl list \<Rightarrow> dbl list" where
  "search_direction hist grad =
     (let (q, cs) = backward_loop (rev hist) grad;
          gamma = (case rev hist of
                     [] \<Rightarrow> Fin False 1
                   | (s, y) # _ \<Rightarrow> if d_gt (d_dot y y) (Fin False 0) then d_div (d_dot s y) (d_dot y y) else Fin False 1);
          d = forward_loop (zip hist (rev cs)) (map (\<lambda>qj. d_mul gamma qj) q)
      in if d_le (d_dot grad d) (Fin False 0) then grad else d)"

text \<open>The last point that was tried is kept when no step is accepted.\<close>

primrec line_search ::
  "('o, 'g) tuning_env \<Rightarrow> optimizer \<Rightarrow> dbl list \<Rightarrow> dbl list \<Rightarrow> dbl \<Rightarrow> dbl \<Rightarrow> dbl list \<Rightarrow> dbl list \<Rightarrow> dbl list option" where
  "line_search env st x d ei_x slope x_new [] = Some x_new"
| "line_search env st x d ei_x slope x_new (s # ss) =
     (let c = clamp_to_bounds (bo_space st) (map2 (\<lambda>xj dj. d_add xj (d_mul s dj)) x d) in do {
        ei_new \<leftarrow> compute_ei env st c;
        (if d_ge ei_new (d_add ei_x (d_mul (d_mul (d_lit (1 / 10 ^ 4)) s) slope)) then Some c
         else line_search env st x d ei_x slope c ss)
      })"

definition push_history :: "dbl list \<times> dbl list \<Rightarrow> history \<Rightarrow> history" where
  "push_history p hist = (if 5 \<le> length hist then tl hist else hist) @ [p]"

primrec lbfgs_loop ::
  "('o, 'g) tuning_env \<Rightarrow> optimizer \<Rightarrow> nat \<Rightarrow> dbl list \<Rightarrow> dbl list \<Rightarrow> history \<Rightarrow> dbl list option" where
  "lbfgs_loop env st 0 x grad hist = Some x"
| "lbfgs_loop env st (Suc n) x grad hist =
     (if d_lt (fold (\<lambda>g m. d_max m (d_abs g)) grad (Fin False 0)) (lbfgs_grad_tol (bo_config st)) then Some x
      else let d = search_direction hist grad; slope = d_dot grad d in do {
        ei_x \<leftarrow> compute_ei env st x;
        x_new \<leftarrow> line_search env st x d ei_x slope [] (step_sizes (d_lit (1 / 10 ^ 10)));
        grad_new \<leftarrow> ei_gradient env st x_new;
        (let s = map2 d_sub x_new x; y = map2 d_sub grad_new grad in
         lbfgs_loop env st n x_new grad_new
           (if d_gt (d_dot s y) (d_lit (1 / 10 ^ 12)) then push_history (s, y) hist else hist))
      })"

primrec restart_loop ::
  "('o, 'g) tuning_env \<Rightarrow> optimizer \<Rightarrow> nat \<Rightarrow> dbl list \<Rightarrow> dbl \<Rightarrow> 'g \<Rightarrow> (dbl list \<times> 'g) option" where
  "restart_loop env st 0 best_x best_ei g = Some (best_x, g)"
| "restart_loop env st (Suc n) best_x best_ei g =
     (let (x0, g1) = random_point env (sp_parameters (bo_space st)) g in do {
        grad \<leftarrow> ei_gradient env st x0;
        x \<leftarrow> lbfgs_loop env st (lbfgs_max_iters (bo_config st)) x0 grad [];
        ei \<leftarrow> compute_ei env st x;
        (if d_gt ei best_ei then restart_loop env st n x ei g1 else restart_loop env st n best_x best_ei g1)
      })"

definition lbfgs_maximize :: "('o, 'g) tuning_env \<Rightarrow> optimizer \<Rightarrow> 'g \<Rightarrow> (dbl list \<times> 'g) option" where
  "lbfgs_maximize env st g =
     (if dimension (bo_space st) = 0 then Some ([], g)
      else restart_loop env st (lbfgs_restarts (bo_config st)) [] (Inf True) g)"

subsection \<open>The main loop\<close>

text \<open>\<open>initial - size\<close> random points are evaluated first; an error of the objective ends the run with the
  observations so far.\<close>

primrec initial_loop ::
  "('o, 'g) tuning_env \<Rightarrow> nat \<Rightarrow> optimizer \<Rightarrow> 'o \<Rightarrow> 'g \<Rightarrow> (unit result \<times> optimizer \<times> 'o \<times> 'g)" where
  "initial_loop env 0 st ob g = (Inr (), st, ob, g)"
| "initial_loop env (Suc n) st ob g =
     (let (point, g1) = random_point env (sp_parameters (bo_space st)) g in
      case t_eval env ob point of
        (Inl err, ob1) \<Rightarrow> (Inl err, st, ob1, g1)
      | (Inr cost, ob1) \<Rightarrow> initial_loop env n (add_observation (point, cost) st) ob1 g1)"

primrec main_loop ::
  "('o, 'g) tuning_env \<Rightarrow> nat \<Rightarrow> nat \<Rightarrow> optimizer \<Rightarrow> 'o \<Rightarrow> 'g \<Rightarrow> (unit result \<times> optimizer \<times> 'o \<times> 'g) option" where
  "main_loop env 0 stagnation st ob g = Some (Inr (), st, ob, g)"
| "main_loop env (Suc n) stagnation st ob g = do {
     st1 \<leftarrow> fit_hyperparameters env st;
     (x, g1) \<leftarrow> lbfgs_maximize env st1 g;
     (if x = [] then Some (Inr (), st1, ob, g1)
      else do {
        ei_max \<leftarrow> compute_ei env st1 x;
        (let stag = (if d_lt ei_max (ei_tol (bo_config st1)) then stagnation + 1 else 0) in
         if d_lt ei_max (ei_tol (bo_config st1)) \<and> ei_stagnation_iters (bo_config st1) \<le> stag
         then Some (Inr (), st1, ob, g1)
         else case t_eval env ob x of
                (Inl err, ob1) \<Rightarrow> Some (Inl err, st1, ob1, g1)
              | (Inr cost, ob1) \<Rightarrow> main_loop env n stag (add_observation (x, cost) st1) ob1 g1)
      })
   }"

definition optimize ::
  "('o, 'g) tuning_env \<Rightarrow> optimizer \<Rightarrow> 'o \<Rightarrow> 'g \<Rightarrow> ((dbl list \<times> dbl) result \<times> optimizer \<times> 'o \<times> 'g) option" where
  "optimize env st ob g =
     (if dimension (bo_space st) = 0
      then Some (Inl (ErrorInfo Tuning_SpaceEmpty
             (''TuningSpace has zero parameters '' @ [CHR 0xE2, CHR 0x80, CHR 0x94] @ '' nothing to optimize'')), st, ob, g)
      else case initial_loop env (initial_random_points (bo_config st) - length (bo_obs st)) st ob g of
             (Inl err, st1, ob1, g1) \<Rightarrow> Some (Inl err, st1, ob1, g1)
           | (Inr _, st1, ob1, g1) \<Rightarrow> do {
               (res, st2, ob2, g2) \<leftarrow> main_loop env (max_iterations (bo_config st1)) 0 st1 ob1 g1;
               Some (map_sum id (\<lambda>_. best_point st2) res, st2, ob2, g2)
             })"

subsection \<open>Everything is defined when the points have the dimension of the space\<close>

definition sized :: "optimizer \<Rightarrow> bool" where
  "sized st \<longleftrightarrow> (\<forall>p \<in> set (bo_obs st). length (fst p) = dimension (bo_space st))"

lemma bind_defined: "x \<noteq> None \<Longrightarrow> (\<And>v. x = Some v \<Longrightarrow> f v \<noteq> None) \<Longrightarrow> Option.bind x f \<noteq> None"
  by (cases x) simp_all

lemma clamp_length [simp]: "length (clamp_to_bounds s x) = length x"
  by (simp add: clamp_to_bounds_def dimension_def)

lemma rbf_some: "length x \<le> length y \<Longrightarrow> rbf_kernel env s2 len x y \<noteq> None"
  by (simp add: rbf_kernel_def sq_distance_def)

lemma kernel_matrix_some:
  assumes "\<forall>p \<in> set pts. length p = d"
  shows "kernel_matrix env s2 len pts \<noteq> None"
proof -
  have "map_opt (\<lambda>j. rbf_kernel env s2 len (pts ! i) (pts ! j)) [0..<Suc i] \<noteq> None" if i: "i < length pts" for i
  proof -
    have eq: "length (pts ! j) = d" if "j \<le> i" for j using assms i that by simp
    have "rbf_kernel env s2 len (pts ! i) (pts ! j) \<noteq> None" if "j \<in> set [0..<Suc i]" for j
    proof -
      have "j \<le> i" using that by auto
      from eq [OF this] eq [of i] show ?thesis by (intro rbf_some) simp
    qed
    then show ?thesis
      using map_opt_total [of "[0..<Suc i]" "\<lambda>j. rbf_kernel env s2 len (pts ! i) (pts ! j)"] by blast
  qed
  then show ?thesis
    unfolding kernel_matrix_def
    using map_opt_total [of "[0..<length pts]" "\<lambda>i. map_opt (\<lambda>j. rbf_kernel env s2 len (pts ! i) (pts ! j)) [0..<Suc i]"]
    by (metis atLeastLessThan_iff option.discI set_upt)
qed

lemma obs_sized: "sized st \<Longrightarrow> \<forall>p \<in> set (map fst (bo_obs st)). length p = dimension (bo_space st)"
  by (simp add: sized_def)

lemma log_likelihood_some: "sized st \<Longrightarrow> log_likelihood env st a b \<noteq> None"
  unfolding log_likelihood_def Let_def
  by (cases "length (bo_obs st) = 0", simp, simp only: if_False, rule bind_defined, rule kernel_matrix_some [OF obs_sized])
    (simp_all split: option.split)

lemma predict_some:
  assumes "sized st" "length x = dimension (bo_space st)"
  shows "predict env st x \<noteq> None"
proof -
  have "gp_factor env st \<noteq> None"
    using kernel_matrix_some [OF obs_sized [OF assms(1)]] by (auto simp: gp_factor_def bind_eq_None_conv)
  moreover have "map_opt (\<lambda>p. rbf_kernel env (bo_sigma2 st) (bo_length st) x p) (map fst (bo_obs st)) \<noteq> None"
  proof -
    have "rbf_kernel env (bo_sigma2 st) (bo_length st) x p \<noteq> None" if "p \<in> set (map fst (bo_obs st))" for p
      using that obs_sized [OF assms(1)] assms(2) by (intro rbf_some) auto
    then show ?thesis using map_opt_total by blast
  qed
  ultimately show ?thesis
    unfolding predict_def by (cases "gp_factor env st") (auto simp: bind_eq_None_conv split: option.split)
qed

lemma compute_ei_some: "sized st \<Longrightarrow> length x = dimension (bo_space st) \<Longrightarrow> compute_ei env st x \<noteq> None"
  using predict_some [of st x env] by (auto simp: compute_ei_def Let_def bind_eq_None_conv)

lemma ei_gradient_some:
  assumes "sized st" "length x = dimension (bo_space st)"
  shows "\<exists>g. ei_gradient env st x = Some g \<and> length g = dimension (bo_space st)"
proof -
  have "compute_ei env st (clamp_to_bounds (bo_space st) (x[i := v])) \<noteq> None" for i v
    using assms by (intro compute_ei_some) simp_all
  then have "\<exists>g. ei_gradient env st x = Some g \<and> length g = length [0..<length x]"
    unfolding ei_gradient_def Let_def by (intro map_opt_total) (auto simp: bind_eq_None_conv)
  then show ?thesis using assms(2) by simp
qed

lemma armijo_some: "sized st \<Longrightarrow> armijo_ascent env st ab grad prev ss \<noteq> None"
  by (induction ss) (auto simp: Let_def bind_eq_None_conv log_likelihood_some)

lemma fit_loop_some: "sized st \<Longrightarrow> fit_loop env st n ab prev \<noteq> None"
proof (induction n arbitrary: ab prev)
  case (Suc n)
  note lml = log_likelihood_some [OF Suc.prems]
  show ?case
    unfolding fit_loop.simps Let_def case_prod_beta
    by (rule bind_defined [OF lml] bind_defined [OF armijo_some [OF Suc.prems]])+
      (simp only: Suc.IH [OF Suc.prems] option.distinct not_False_eq_True simp_thms split: if_split)
qed simp

lemma fit_hyperparameters_some:
  assumes "sized st"
  shows "\<exists>s2 len. fit_hyperparameters env st = Some (st\<lparr>bo_sigma2 := s2, bo_length := len\<rparr>)"
proof (cases "length (bo_obs st) < 2")
  case True
  then show ?thesis by (intro exI [of _ "bo_sigma2 st"] exI [of _ "bo_length st"]) (simp add: fit_hyperparameters_def)
next
  case False
  obtain prev where p: "log_likelihood env st (t_log env (bo_sigma2 st)) (t_log env (bo_length st)) = Some prev"
    using log_likelihood_some [OF assms] by blast
  obtain ab where "fit_loop env st 50 (t_log env (bo_sigma2 st), t_log env (bo_length st)) prev = Some ab"
    using fit_loop_some [OF assms] by blast
  then show ?thesis using False p by (auto simp: fit_hyperparameters_def Let_def)
qed

subsection \<open>The points of the search stay in the bounds\<close>

definition in_space :: "tuning_space \<Rightarrow> dbl list \<Rightarrow> bool" where
  "in_space s x \<longleftrightarrow> length x = dimension s \<and> in_bounds s x"

text \<open>The documented range of \<open>std::uniform_real_distribution\<close>.\<close>

definition draws_ok :: "('o, 'g) tuning_env \<Rightarrow> bool" where
  "draws_ok env \<longleftrightarrow>
     (\<forall>g lo hi. \<not> d_lt hi lo \<longrightarrow> d_finite (d_sub hi lo) \<longrightarrow>
        \<not> d_lt (fst (t_draw env g lo hi)) lo \<and> \<not> d_lt hi (fst (t_draw env g lo hi)))"

lemma clamp_in_space: "bounds_ordered s \<Longrightarrow> length x = dimension s \<Longrightarrow> in_space s (clamp_to_bounds s x)"
  by (simp add: in_space_def clamp_in_bounds)

lemma random_point_in_bounds:
  assumes "draws_ok env" "\<forall>p \<in> set ps. \<not> d_lt (tp_max p) (tp_min p) \<and> d_finite (d_sub (tp_max p) (tp_min p))"
  shows "list_all2 (\<lambda>p v. \<not> d_lt v (tp_min p) \<and> \<not> d_gt v (tp_max p)) ps (fst (random_point env ps g))"
  using assms(2)
proof (induction ps arbitrary: g)
  case (Cons p ps)
  let ?v = "fst (t_draw env g (tp_min p) (tp_max p))"
  have "\<not> d_lt ?v (tp_min p) \<and> \<not> d_lt (tp_max p) ?v" using assms(1) Cons.prems by (simp add: draws_ok_def)
  then show ?case
    using Cons.IH Cons.prems clamp_bounds [of "tp_max p" "tp_min p"]
    by (simp add: d_gt_def Let_def case_prod_beta)
qed simp

lemma random_point_in_space:
  assumes "draws_ok env" "bounds_ordered s"
  shows "in_space s (fst (random_point env (sp_parameters s) g))"
  using random_point_in_bounds [OF assms(1), of "sp_parameters s" g] assms(2)
  by (auto simp: in_space_def in_bounds_def bounds_ordered_def dimension_def dest: list_all2_lengthD)

lemma step_sizes_cons:
  assumes "0 < q" "q \<le> 1 / 2"
  shows "step_sizes (d_lit q) \<noteq> []"
  using small_literal [OF assms] unfolding step_sizes_def
  by (subst halvings.simps(2) [of 39, simplified]) (simp add: d_gt_def)

lemma backward_loop_lengths:
  "\<forall>p \<in> set hist. length (snd p) = length q \<Longrightarrow>
    length (fst (backward_loop hist q)) = length q \<and> length (snd (backward_loop hist q)) = length hist"
  by (induction hist q rule: backward_loop.induct) (simp_all add: Let_def case_prod_beta)

lemma forward_loop_length:
  "\<forall>p \<in> set cs. length (fst (fst p)) = length r \<Longrightarrow> length (forward_loop cs r) = length r"
  by (induction cs r rule: forward_loop.induct) (simp_all add: Let_def)

definition sized_history :: "nat \<Rightarrow> history \<Rightarrow> bool" where
  "sized_history d hist \<longleftrightarrow> (\<forall>p \<in> set hist. length (fst p) = d \<and> length (snd p) = d)"

lemma search_direction_length:
  assumes "sized_history (length grad) hist"
  shows "length (search_direction hist grad) = length grad"
proof -
  let ?b = "backward_loop (rev hist) grad"
  have b: "length (fst ?b) = length grad" using assms backward_loop_lengths [of "rev hist" grad] by (simp add: sized_history_def)
  have "length (forward_loop (zip hist (rev (snd ?b))) (map f (fst ?b))) = length grad" for f
    using assms b by (subst forward_loop_length) (auto simp: sized_history_def dest!: set_zip_leftD)
  then show ?thesis by (simp add: search_direction_def Let_def case_prod_beta)
qed

lemma line_search_some:
  assumes "sized st" "bounds_ordered (bo_space st)" "length x = dimension (bo_space st)" "length d = dimension (bo_space st)"
    and "ss \<noteq> [] \<or> in_space (bo_space st) x_new"
  shows "\<exists>c. line_search env st x d ei_x slope x_new ss = Some c \<and> in_space (bo_space st) c"
  using assms(5)
proof (induction ss arbitrary: x_new)
  case (Cons s ss)
  let ?c = "clamp_to_bounds (bo_space st) (map2 (\<lambda>xj dj. d_add xj (d_mul s dj)) x d)"
  have c: "in_space (bo_space st) ?c" using assms by (intro clamp_in_space) simp_all
  then obtain e where "compute_ei env st ?c = Some e"
    using compute_ei_some [OF assms(1), of ?c env] by (auto simp: in_space_def)
  then show ?case using Cons.IH [of ?c] c by (simp add: Let_def)
qed simp

lemma push_history_sized:
  "sized_history d hist \<Longrightarrow> length (fst p) = d \<Longrightarrow> length (snd p) = d \<Longrightarrow> sized_history d (push_history p hist)"
  by (auto simp: sized_history_def push_history_def dest: list.set_sel(2))
    (metis emptyE list.sel(2) list.set(1) list.set_sel(2) prod.sel)+

lemma lbfgs_loop_some:
  assumes "sized st" "bounds_ordered (bo_space st)"
  shows "in_space (bo_space st) x \<Longrightarrow> length grad = dimension (bo_space st) \<Longrightarrow> sized_history (dimension (bo_space st)) hist \<Longrightarrow>
    \<exists>y. lbfgs_loop env st n x grad hist = Some y \<and> in_space (bo_space st) y"
proof (induction n arbitrary: x grad hist)
  case (Suc n)
  let ?d = "search_direction hist grad" and ?dim = "dimension (bo_space st)"
  have x: "length x = ?dim" using Suc.prems(1) by (simp add: in_space_def)
  have d: "length ?d = ?dim" using search_direction_length [of grad hist] Suc.prems by simp
  obtain ei where ei: "compute_ei env st x = Some ei" using compute_ei_some [OF assms(1) x, of env] by blast
  have ss: "step_sizes (d_lit (1 / 10 ^ 10)) \<noteq> []" by (rule step_sizes_cons) simp_all
  obtain c where c: "line_search env st x ?d ei (d_dot grad ?d) [] (step_sizes (d_lit (1 / 10 ^ 10))) = Some c"
      "in_space (bo_space st) c"
    using line_search_some [OF assms x d disjI1 [OF ss]] by blast
  then have lc: "length c = ?dim" by (simp add: in_space_def)
  obtain g where g: "ei_gradient env st c = Some g" "length g = ?dim" using ei_gradient_some [OF assms(1) lc] by blast
  have h: "sized_history ?dim (push_history (map2 d_sub c x, map2 d_sub g grad) hist)"
    using push_history_sized [OF Suc.prems(3), of "(map2 d_sub c x, map2 d_sub g grad)"] x lc g Suc.prems(2) by simp
  obtain y1 where y1: "lbfgs_loop env st n c g (push_history (map2 d_sub c x, map2 d_sub g grad) hist) = Some y1"
      "in_space (bo_space st) y1"
    using Suc.IH [OF c(2) g(2) h] by blast
  obtain y2 where y2: "lbfgs_loop env st n c g hist = Some y2" "in_space (bo_space st) y2"
    using Suc.IH [OF c(2) g(2) Suc.prems(3)] by blast
  show ?case using Suc.prems(1) ei c g y1 y2 by (simp add: Let_def)
qed simp

lemma restart_loop_some:
  assumes "sized st" "bounds_ordered (bo_space st)" "draws_ok env"
  shows "best = [] \<or> in_space (bo_space st) best \<Longrightarrow>
    \<exists>y g'. restart_loop env st n best ei g = Some (y, g') \<and> (y = [] \<or> in_space (bo_space st) y)"
proof (induction n arbitrary: best ei g)
  case (Suc n)
  obtain x0 g1 where r: "random_point env (sp_parameters (bo_space st)) g = (x0, g1)" by fastforce
  then have x0: "in_space (bo_space st) x0" using random_point_in_space [OF assms(3,2), of g] by simp
  then obtain grad where grad: "ei_gradient env st x0 = Some grad" "length grad = dimension (bo_space st)"
    using ei_gradient_some [OF assms(1)] by (auto simp: in_space_def)
  obtain x where x: "lbfgs_loop env st (lbfgs_max_iters (bo_config st)) x0 grad [] = Some x" "in_space (bo_space st) x"
    using lbfgs_loop_some [OF assms(1,2) x0 grad(2), of "[]" env] by (auto simp: sized_history_def)
  then obtain e where e: "compute_ei env st x = Some e"
    using compute_ei_some [OF assms(1), of x env] by (auto simp: in_space_def)
  show ?case using Suc.IH [of best ei g1] Suc.IH [of x e g1] Suc.prems r grad x e by (simp add: Let_def)
qed auto

lemma lbfgs_maximize_some:
  assumes "sized st" "bounds_ordered (bo_space st)" "draws_ok env"
  shows "\<exists>y g'. lbfgs_maximize env st g = Some (y, g') \<and> (y = [] \<or> in_space (bo_space st) y)"
  using restart_loop_some [OF assms, of "[]"] by (simp add: lbfgs_maximize_def)

subsection \<open>The result of the optimisation\<close>

lemma best_fold:
  "fold (\<lambda>obs best. if d_lt (snd obs) (snd best) then obs else best) ps p = b \<Longrightarrow>
    b \<in> set (p # ps) \<and> (b = p \<or> d_lt (snd b) (snd p)) \<and> (\<forall>q \<in> set ps. \<not> d_lt (snd q) (snd b))"
proof (induction ps arbitrary: p)
  case (Cons a ps)
  show ?case
  proof (cases "d_lt (snd a) (snd p)")
    case True
    then have i: "b \<in> set (a # ps) \<and> (b = a \<or> d_lt (snd b) (snd a)) \<and> (\<forall>q \<in> set ps. \<not> d_lt (snd q) (snd b))"
      using Cons.IH [of a] Cons.prems by simp
    then have "d_lt (snd b) (snd p)" using True d_lt_trans by blast
    moreover have "\<not> d_lt (snd a) (snd b)" using i d_lt_asym by auto
    ultimately show ?thesis using i by auto
  next
    case False
    then have i: "b \<in> set (p # ps) \<and> (b = p \<or> d_lt (snd b) (snd p)) \<and> (\<forall>q \<in> set ps. \<not> d_lt (snd q) (snd b))"
      using Cons.IH [of p] Cons.prems by simp
    then have "\<not> d_lt (snd a) (snd b)" using False d_lt_trans by blast
    then show ?thesis using i by auto
  qed
qed simp

lemma best_point_least:
  assumes "bo_obs st \<noteq> []"
  shows "best_point st \<in> set (bo_obs st) \<and> (\<forall>q \<in> set (bo_obs st). \<not> d_lt (snd q) (snd (best_point st)))"
proof (cases "bo_obs st")
  case (Cons p ps)
  define b where "b = fold (\<lambda>obs best. if d_lt (snd obs) (snd best) then obs else best) ps p"
  have "best_point st = b" by (simp add: best_point_def Cons b_def)
  moreover have "\<not> d_lt (snd p) (snd b)" using best_fold [OF b_def [symmetric]] d_lt_asym by auto
  ultimately show ?thesis using best_fold [OF b_def [symmetric]] Cons by auto
qed (use assms in simp)

text \<open>What a run adds to the observations, in a given space.\<close>

definition grows :: "optimizer \<Rightarrow> optimizer \<Rightarrow> nat \<Rightarrow> bool" where
  "grows st st' n \<longleftrightarrow> bo_space st' = bo_space st \<and> bo_config st' = bo_config st \<and>
     (\<exists>new. bo_obs st' = bo_obs st @ new \<and> length new \<le> n \<and> (\<forall>p \<in> set new. in_space (bo_space st) (fst p)))"

definition objective_error :: "('o, 'g) tuning_env \<Rightarrow> optimizer \<Rightarrow> error_info \<Rightarrow> bool" where
  "objective_error env st err \<longleftrightarrow> (\<exists>ob x. in_space (bo_space st) x \<and> fst (t_eval env ob x) = Inl err)"

lemma grows_refl: "grows st st 0"
  by (simp add: grows_def)

lemma grows_add: "in_space (bo_space st) x \<Longrightarrow> grows st (add_observation (x, c) st) 1"
  by (simp add: grows_def add_observation_def)

lemma grows_trans: "grows a b m \<Longrightarrow> grows b c n \<Longrightarrow> grows a c (m + n)"
  unfolding grows_def by (elim conjE exE, intro conjI exI) (simp, simp, simp, simp, auto)

lemma grows_mono: "grows a b m \<Longrightarrow> m \<le> n \<Longrightarrow> grows a b n"
  by (auto simp: grows_def)

lemma grows_sized: "grows st st' n \<Longrightarrow> sized st \<Longrightarrow> sized st'"
  unfolding grows_def by (elim exE conjE) (simp add: sized_def in_space_def ball_Un)

lemma initial_loop_extends:
  assumes "draws_ok env"
  shows "bounds_ordered (bo_space st) \<Longrightarrow> initial_loop env n st ob g = (res, st', ob', g') \<Longrightarrow>
    grows st st' n \<and> (\<forall>err. res = Inl err \<longrightarrow> objective_error env st err)"
proof (induction n arbitrary: st ob g)
  case 0
  then show ?case by (auto simp: grows_refl)
next
  case (Suc n)
  obtain x g1 where r: "random_point env (sp_parameters (bo_space st)) g = (x, g1)" by fastforce
  then have x: "in_space (bo_space st) x" using random_point_in_space [OF assms Suc.prems(1), of g] by simp
  obtain e ob1 where e: "t_eval env ob x = (e, ob1)" by fastforce
  show ?case
  proof (cases e)
    case (Inl err)
    then have "objective_error env st err" using x e unfolding objective_error_def by (metis fst_conv)
    then show ?thesis using Suc.prems(2) r e Inl by (auto intro: grows_mono [OF grows_refl])
  next
    case (Inr c)
    have s: "bo_space (add_observation (x, c) st) = bo_space st" by (simp add: add_observation_def)
    have "grows (add_observation (x, c) st) st' n \<and> (\<forall>err. res = Inl err \<longrightarrow> objective_error env st err)"
      using Suc.IH [of "add_observation (x, c) st" ob1 g1] Suc.prems r e Inr s by (simp add: objective_error_def)
    then show ?thesis using grows_trans [OF grows_add [OF x]] by fastforce
  qed
qed

lemma main_loop_extends:
  assumes "draws_ok env"
  shows "sized st \<Longrightarrow> bounds_ordered (bo_space st) \<Longrightarrow>
    \<exists>res st' ob' g'. main_loop env n stag st ob g = Some (res, st', ob', g') \<and> grows st st' n \<and>
      (\<forall>err. res = Inl err \<longrightarrow> objective_error env st err)"
proof (induction n arbitrary: stag st ob g)
  case 0
  then show ?case by (simp add: grows_refl)
next
  case (Suc n)
  obtain s2 len where f: "fit_hyperparameters env st = Some (st\<lparr>bo_sigma2 := s2, bo_length := len\<rparr>)"
    using fit_hyperparameters_some [OF Suc.prems(1)] by blast
  let ?st1 = "st\<lparr>bo_sigma2 := s2, bo_length := len\<rparr>"
  have ext: "grows st ?st1 0" by (simp add: grows_def)
  have sz: "sized ?st1" "bounds_ordered (bo_space ?st1)" using Suc.prems by (simp_all add: sized_def)
  obtain x g1 where x: "lbfgs_maximize env ?st1 g = Some (x, g1)" "x = [] \<or> in_space (bo_space st) x"
    using lbfgs_maximize_some [OF sz assms, of g] by auto
  show ?case
  proof (cases "x = []")
    case True
    then show ?thesis using f x(1) grows_mono [OF ext] by simp
  next
    case False
    then have i: "in_space (bo_space st) x" using x by simp
    then obtain ei where ei: "compute_ei env ?st1 x = Some ei"
      using compute_ei_some [OF sz(1), of x env] by (auto simp: in_space_def)
    obtain e ob1 where e: "t_eval env ob x = (e, ob1)" by fastforce
    show ?thesis
    proof (cases e)
      case (Inl err)
      then have "objective_error env st err" using i e unfolding objective_error_def by (metis fst_conv)
      then show ?thesis using f x(1) False ei e Inl grows_mono [OF ext, of "Suc n"] by (simp add: Let_def)
    next
      case (Inr c)
      let ?st2 = "add_observation (x, c) ?st1"
      have e2: "grows st ?st2 1" using grows_trans [OF ext grows_add [of ?st1 x c]] i by simp
      have s2: "sized ?st2" "bounds_ordered (bo_space ?st2)"
        using grows_sized [OF e2 Suc.prems(1)] Suc.prems(2) by (simp_all add: add_observation_def)
      have "\<exists>res st' ob' g'. main_loop env n stag' ?st2 ob1 g1 = Some (res, st', ob', g') \<and> grows st st' (Suc n) \<and>
          (\<forall>err. res = Inl err \<longrightarrow> objective_error env st err)" for stag'
        using Suc.IH [OF s2, of stag' ob1 g1] grows_trans [OF e2]
        by (auto simp: objective_error_def add_observation_def)
      then show ?thesis using f x(1) False ei e Inr grows_mono [OF ext, of "Suc n"] by (simp add: Let_def)
    qed
  qed
qed

lemma optimize_run:
  assumes "sized st" "bounds_ordered (bo_space st)" "draws_ok env" "dimension (bo_space st) \<noteq> 0"
  shows "\<exists>res st' ob' g'. optimize env st ob g = Some (res, st', ob', g') \<and>
    grows st st' (initial_random_points (bo_config st) - length (bo_obs st) + max_iterations (bo_config st)) \<and>
    (case res of Inl err \<Rightarrow> objective_error env st err | Inr p \<Rightarrow> p = best_point st')"
proof -
  let ?k = "initial_random_points (bo_config st) - length (bo_obs st)"
  obtain r st1 ob1 g1 where i: "initial_loop env ?k st ob g = (r, st1, ob1, g1)" by (metis prod_cases4)
  note e = initial_loop_extends [OF assms(3,2) i]
  show ?thesis
  proof (cases r)
    case (Inl err)
    then show ?thesis using e i assms(4) grows_mono by (fastforce simp: optimize_def)
  next
    case (Inr u)
    have s: "bo_space st1 = bo_space st" "bo_config st1 = bo_config st" using e by (simp_all add: grows_def)
    obtain res st2 ob2 g2 where mn: "main_loop env (max_iterations (bo_config st)) 0 st1 ob1 g1 = Some (res, st2, ob2, g2)"
        "grows st1 st2 (max_iterations (bo_config st))" "\<forall>err. res = Inl err \<longrightarrow> objective_error env st1 err"
      using main_loop_extends [OF assms(3) grows_sized [OF conjunct1 [OF e] assms(1)], of "max_iterations (bo_config st)" 0 ob1 g1]
        assms(2) s by auto
    have "objective_error env st1 = objective_error env st" by (rule ext) (simp add: objective_error_def s)
    then have o: "case map_sum id (\<lambda>_. best_point st2) res of Inl err \<Rightarrow> objective_error env st err | Inr p \<Rightarrow> p = best_point st2"
      using mn(3) by (cases res) simp_all
    show ?thesis
      using i Inr mn(1) s assms(4) o grows_trans [OF conjunct1 [OF e] mn(2)] by (simp add: optimize_def)
  qed
qed

subsection \<open>An observation without coordinates\<close>

lemma extra_observations:
  assumes "\<And>ob x. \<exists>c ob'. t_eval env ob x = (Inr c, ob')"
  shows "\<exists>st' ob' g' new. initial_loop env n st ob g = (Inr (), st', ob', g') \<and> bo_space st' = bo_space st \<and>
    bo_config st' = bo_config st \<and> bo_obs st' = bo_obs st @ new \<and> length new = n \<and>
    (\<forall>p \<in> set new. length (fst p) = dimension (bo_space st))"
proof (induction n arbitrary: st ob g)
  case (Suc n)
  obtain x g1 where x: "random_point env (sp_parameters (bo_space st)) g = (x, g1)" by fastforce
  have "length (fst (random_point env ps g)) = length ps" for ps g
    by (induction ps arbitrary: g) (simp_all add: Let_def case_prod_beta)
  then have lx: "length x = dimension (bo_space st)" using x by (metis dimension_def fst_conv)
  obtain c ob1 where e: "t_eval env ob x = (Inr c, ob1)" using assms by blast
  obtain st' ob' g' new where "initial_loop env n (add_observation (x, c) st) ob1 g1 = (Inr (), st', ob', g')"
    "bo_space st' = bo_space st" "bo_config st' = bo_config st" "bo_obs st' = bo_obs st @ (x, c) # new" "length new = n"
    "\<forall>p \<in> set new. length (fst p) = dimension (bo_space st)"
    using Suc.IH [of "add_observation (x, c) st" ob1 g1] by (auto simp: add_observation_def)
  then show ?case using x e lx
    by (intro exI [of _ st'] exI [of _ ob'] exI [of _ g'] exI [of _ "(x, c) # new"]) simp
qed simp

text \<open>The squared distance of a point to an observation without coordinates reads past its end.\<close>

lemma no_kernel_matrix:
  assumes "1 < length pts" "pts ! 0 = []" "pts ! 1 \<noteq> []"
  shows "kernel_matrix env s2 len pts = None"
proof -
  have "rbf_kernel env s2 len (pts ! 1) (pts ! 0) = None" using assms(2,3) by (simp add: rbf_kernel_def sq_distance_def)
  then have "map_opt (\<lambda>j. rbf_kernel env s2 len (pts ! 1) (pts ! j)) [0..<Suc 1] = None"
    by (intro map_opt_none [of 0]) simp_all
  moreover have "1 \<in> set [0..<length pts]" using assms(1) by simp
  ultimately show ?thesis unfolding kernel_matrix_def by (rule map_opt_none [rotated])
qed

lemma optimize_undefined:
  assumes "bo_obs st = [([], c)]" "dimension (bo_space st) \<noteq> 0" "2 \<le> initial_random_points (bo_config st)"
    and "max_iterations (bo_config st) \<noteq> 0" "\<And>ob x. \<exists>c ob'. t_eval env ob x = (Inr c, ob')"
  shows "optimize env st ob g = None"
proof -
  obtain k where k: "initial_random_points (bo_config st) - length (bo_obs st) = Suc k"
    using assms(1,3) by (cases "initial_random_points (bo_config st) - 1") simp_all
  obtain st' ob' g' new where i: "initial_loop env (Suc k) st ob g = (Inr (), st', ob', g')" "bo_space st' = bo_space st"
    "bo_config st' = bo_config st" "bo_obs st' = bo_obs st @ new" "length new = Suc k"
    "\<forall>p \<in> set new. length (fst p) = dimension (bo_space st)"
    using extra_observations [OF assms(5)] by metis
  obtain q qs where q: "new = q # qs" using i(5) by (cases new) simp_all
  have "fst q \<noteq> []" using i(6) q assms(2) by auto
  then have "kernel_matrix env s2 len (map fst (bo_obs st')) = None" for s2 len
    using i(4) assms(1) q by (intro no_kernel_matrix) simp_all
  then have "fit_hyperparameters env st' = None"
    using i(4) assms(1) q by (simp add: fit_hyperparameters_def log_likelihood_def Let_def)
  moreover obtain m where "max_iterations (bo_config st') = Suc m" using assms(4) i(3) by (metis not0_implies_Suc)
  ultimately show ?thesis using i(1) k assms(2) by (simp add: optimize_def)
qed

subsection \<open>Properties\<close>

text \<open>
  C28 When the space has a parameter, every observation so far has a coordinate for each parameter, the bounds are in
  order and the random numbers stay in the range they are asked for, Optimize is defined (an
  observation without coordinates makes it undefined, see \<open>optimize_undefined\<close>): it ends with the error of the objective at
  some point of the space, or with an observation of least cost. It only adds observations, at most one
  for every random point that was missing and one for every iteration, and their points lie within
  the bounds. (Nothing is claimed of the steps and constraints of the space: the optimizer never
  tests them.)
\<close>

theorem optimize_spec:
  assumes "sized st" "bounds_ordered (bo_space st)" "draws_ok env" "dimension (bo_space st) \<noteq> 0"
  shows "\<exists>res st' ob' g' new. optimize env st ob g = Some (res, st', ob', g') \<and> bo_obs st' = bo_obs st @ new \<and>
    length new \<le> initial_random_points (bo_config st) - length (bo_obs st) + max_iterations (bo_config st) \<and>
    (\<forall>p \<in> set new. in_bounds (bo_space st) (fst p)) \<and>
    (case res of
       Inl err \<Rightarrow> \<exists>ob x. in_bounds (bo_space st) x \<and> fst (t_eval env ob x) = Inl err
     | Inr best \<Rightarrow> bo_obs st' \<noteq> [] \<longrightarrow> best \<in> set (bo_obs st') \<and> (\<forall>q \<in> set (bo_obs st'). \<not> d_lt (snd q) (snd best)))"
proof -
  obtain res st' ob' g' where r: "optimize env st ob g = Some (res, st', ob', g')"
      "grows st st' (initial_random_points (bo_config st) - length (bo_obs st) + max_iterations (bo_config st))"
      "case res of Inl err \<Rightarrow> objective_error env st err | Inr p \<Rightarrow> p = best_point st'"
    using optimize_run [OF assms] by metis
  obtain new where n: "bo_obs st' = bo_obs st @ new"
      "length new \<le> initial_random_points (bo_config st) - length (bo_obs st) + max_iterations (bo_config st)"
      "\<forall>p \<in> set new. in_space (bo_space st) (fst p)"
    using r(2) unfolding grows_def by blast
  have "case res of
       Inl err \<Rightarrow> \<exists>ob x. in_bounds (bo_space st) x \<and> fst (t_eval env ob x) = Inl err
     | Inr best \<Rightarrow> bo_obs st' \<noteq> [] \<longrightarrow> best \<in> set (bo_obs st') \<and> (\<forall>q \<in> set (bo_obs st'). \<not> d_lt (snd q) (snd best))"
    using r(3) best_point_least [of st'] by (cases res) (auto simp: objective_error_def in_space_def)
  then show ?thesis
    using r(1) n by (intro exI [of _ res] exI [of _ st'] exI [of _ ob'] exI [of _ g'] exI [of _ new]) (simp add: in_space_def)
qed

text \<open>An environment whose objective is the first coordinate and whose draws are the lower bounds.\<close>

definition plain_env :: "(unit, unit) tuning_env" where
  "plain_env = \<lparr>t_exp = id, t_log = id, t_erf = id, t_eval = (\<lambda>_ x. (Inr (hd x), ())), t_draw = (\<lambda>_ lo hi. (lo, ()))\<rparr>"

lemma odd_space_ordered: "bounds_ordered odd_space" "dimension odd_space \<noteq> 0"
proof -
  have "round_fmt binary64 False 3 = Fin False 3"
    using round_fmt_exact [of 3 binary64 0 False] by (simp add: binary64_def pow2_def)
  then show "bounds_ordered odd_space" by (simp add: bounds_ordered_def odd_space_def d_sub_def round_rat_def)
  show "dimension odd_space \<noteq> 0" by (simp add: dimension_def odd_space_def)
qed

theorem optimize_spec_witness:
  "\<exists>res st' new. optimize plain_env (new_optimizer odd_space default_optimizer_config) () () = Some (res, st', (), ()) \<and>
     length new \<le> 55 \<and> bo_obs st' = new \<and> (\<forall>p \<in> set new. in_bounds odd_space (fst p))"
proof -
  let ?st = "new_optimizer odd_space default_optimizer_config"
  have "sized ?st" "draws_ok plain_env" by (simp_all add: sized_def new_optimizer_def draws_ok_def plain_env_def)
  from optimize_spec [OF this(1) _ this(2), of "()" "()"] odd_space_ordered
  show ?thesis by (fastforce simp: new_optimizer_def default_optimizer_config_def)
qed

end
