(* ===== verification/Tuning_Objective.thy ===== *)
theory Tuning_Objective
  imports Knowledge_Store
begin

text \<open>
  The cost that the automatic tuning minimises (\<open>src/tuning/tuning_objective.cpp\<close>): the share of wrong
  verdicts among the \<open>GroundTruth\<close> nodes of the knowledge graph, either with the stored verdict
  or with the verdict that a candidate threshold would give. The counters of the code are \<open>int64_t\<close>
  and count nodes, so naturals stand for them; log messages are left out.
\<close>

record kg_objective =
  fp_cost :: dbl
  fn_cost :: dbl
  ng_threshold_idx :: int
  warn_threshold_idx :: int

definition new_objective :: "dbl \<Rightarrow> dbl \<Rightarrow> kg_objective" where
  "new_objective fp fn = \<lparr>fp_cost = fp, fn_cost = fn, ng_threshold_idx = - 1, warn_threshold_idx = - 1\<rparr>"

definition set_threshold_indices :: "int \<Rightarrow> int \<Rightarrow> kg_objective \<Rightarrow> kg_objective" where
  "set_threshold_indices ng warn obj = obj\<lparr>ng_threshold_idx := ng, warn_threshold_idx := warn\<rparr>"

definition int_field :: "knowledge_record \<Rightarrow> string \<Rightarrow> int option" where
  "int_field r k = (case sm_get (rec_fields r) k of Some (FInt i) \<Rightarrow> Some (sint i) | _ \<Rightarrow> None)"

definition text_field :: "knowledge_record \<Rightarrow> string \<Rightarrow> string option" where
  "text_field r k = (case sm_get (rec_fields r) k of Some (FText s) \<Rightarrow> Some s | _ \<Rightarrow> None)"

definition double_field :: "knowledge_record \<Rightarrow> string \<Rightarrow> dbl option" where
  "double_field r k = (case sm_get (rec_fields r) k of Some (FDouble d) \<Rightarrow> Some d | _ \<Rightarrow> None)"

definition recent :: "int \<Rightarrow> knowledge_record \<Rightarrow> bool" where
  "recent since r = (case int_field r ''timestamp'' of None \<Rightarrow> False | Some t \<Rightarrow> \<not> t < since)"

text \<open>The verdict of the machine and the true one, both as \<open>NG\<close> or not; \<open>None\<close> for a node that is
  skipped. A human label that is not a text counts as good.\<close>

definition legacy_pair :: "int \<Rightarrow> knowledge_record \<Rightarrow> (bool \<times> bool) option" where
  "legacy_pair since r =
     (if \<not> recent since r then None
      else case text_field r ''machine_verdict'' of
             None \<Rightarrow> None
           | Some mv \<Rightarrow>
               Some (mv \<noteq> ''OK'',
                     if sm_has (rec_fields r) ''human_label'' then text_field r ''human_label'' = Some ''NG'' else mv \<noteq> ''OK''))"

definition simulated_pair :: "int \<Rightarrow> dbl \<Rightarrow> knowledge_record \<Rightarrow> (bool \<times> bool) option" where
  "simulated_pair since threshold r =
     (if \<not> recent since r then None
      else case (if sm_has (rec_fields r) ''human_label'' then Some (text_field r ''human_label'' = Some ''NG'')
                 else map_option (\<lambda>mv. mv \<noteq> ''OK'') (text_field r ''machine_verdict'')) of
             None \<Rightarrow> None
           | Some truth \<Rightarrow>
               (case double_field r ''detection_score'' of
                  Some score \<Rightarrow> Some (d_gt score threshold, truth)
                | None \<Rightarrow> map_option (\<lambda>mv. (mv \<noteq> ''OK'', truth)) (text_field r ''machine_verdict'')))"

definition false_positives :: "(bool \<times> bool) list \<Rightarrow> nat" where
  "false_positives ps = length (filter (\<lambda>(machine, truth). machine \<and> \<not> truth) ps)"

definition false_negatives :: "(bool \<times> bool) list \<Rightarrow> nat" where
  "false_negatives ps = length (filter (\<lambda>(machine, truth). \<not> machine \<and> truth) ps)"

definition feedback_cost :: "kg_objective \<Rightarrow> (bool \<times> bool) list \<Rightarrow> dbl" where
  "feedback_cost obj ps =
     (if ps = [] then Fin False 0
      else d_add (d_div (d_mul (fp_cost obj) (d_of_nat (false_positives ps))) (d_of_nat (length ps)))
                 (d_div (d_mul (fn_cost obj) (d_of_nat (false_negatives ps))) (d_of_nat (length ps))))"

definition ground_truth_cost ::
  "('x, 'z) sqlite_scheme \<Rightarrow> kg_objective \<Rightarrow> (knowledge_record \<Rightarrow> (bool \<times> bool) option) \<Rightarrow> 'x \<Rightarrow> dbl result" where
  "ground_truth_cost sq obj pair db =
     (case find_nodes_by_type sq ''GroundTruth'' db of
        Inl _ \<Rightarrow> Inl (ErrorInfo Tuning_ObjectiveEvalFailed ''Failed to query GroundTruth nodes from knowledge graph'')
      | Inr nodes \<Rightarrow> Inr (feedback_cost obj (List.map_filter (\<lambda>n. pair (kn_properties n)) nodes)))"

definition evaluate_legacy :: "('x, 'z) sqlite_scheme \<Rightarrow> kg_objective \<Rightarrow> int \<Rightarrow> 'x \<Rightarrow> dbl result" where
  "evaluate_legacy sq obj since db = ground_truth_cost sq obj (legacy_pair since) db"

definition evaluate_simulated :: "('x, 'z) sqlite_scheme \<Rightarrow> kg_objective \<Rightarrow> dbl list \<Rightarrow> int \<Rightarrow> 'x \<Rightarrow> dbl result" where
  "evaluate_simulated sq obj point since db =
     ground_truth_cost sq obj (simulated_pair since (point ! nat (ng_threshold_idx obj))) db"

definition evaluate_objective :: "('x, 'z) sqlite_scheme \<Rightarrow> kg_objective \<Rightarrow> dbl list \<Rightarrow> int \<Rightarrow> 'x \<Rightarrow> dbl result" where
  "evaluate_objective sq obj point since db =
     (if 0 \<le> ng_threshold_idx obj \<and> nat (ng_threshold_idx obj) < length point
      then evaluate_simulated sq obj point since db else evaluate_legacy sq obj since db)"

subsection \<open>Feedback that the machine labelled itself\<close>

text \<open>A node that no human labelled; without a score the simulated verdict is the stored one.\<close>

definition unlabelled :: "knowledge_record \<Rightarrow> bool" where
  "unlabelled r \<longleftrightarrow> \<not> sm_has (rec_fields r) ''human_label''"

lemma map_filter_length: "length (List.map_filter f xs) \<le> length xs"
  using length_filter_le [of _ xs] by (simp add: List.map_filter_def)

lemma agreeing_pairs_cost:
  assumes "\<forall>(m, t) \<in> set ps. m = t" "length ps < 2 ^ 53" "fp_cost obj = Fin s p" "fn_cost obj = Fin t q"
  shows "d_eq (feedback_cost obj ps) (Fin False 0)"
proof (cases "ps = []")
  case False
  have "false_positives ps = 0" "false_negatives ps = 0"
    using assms(1) by (auto simp: false_positives_def false_negatives_def filter_empty_conv)
  moreover have "d_of_nat (length ps) = Fin False (of_nat (length ps))" "length ps \<noteq> 0"
    using d_of_nat_exact [OF assms(2)] False by simp_all
  ultimately show ?thesis using d_of_nat_exact [of 0] assms(3,4) by (simp add: feedback_cost_def Let_def)
qed (simp add: feedback_cost_def)

lemma self_labelled_run:
  assumes "find_nodes_by_type sq ''GroundTruth'' db = Inr nodes" "\<forall>n \<in> set nodes. unlabelled (kn_properties n)"
    and "length nodes < 2 ^ 53" "fp_cost obj = Fin s p" "fn_cost obj = Fin t q"
  shows "\<exists>c. evaluate_objective sq obj [] since db = Inr c \<and> d_eq c (Fin False 0)"
proof -
  let ?ps = "List.map_filter (\<lambda>n. legacy_pair since (kn_properties n)) nodes"
  have "m = v" if "(m, v) \<in> set ?ps" for m v
    using that assms(2) by (auto simp: List.map_filter_def legacy_pair_def unlabelled_def split: if_splits option.splits)
  then have "\<forall>(m, v) \<in> set ?ps. m = v" by auto
  moreover have "length ?ps < 2 ^ 53" using assms(3) map_filter_length order.strict_trans1 by blast
  ultimately have "d_eq (feedback_cost obj ?ps) (Fin False 0)" using assms(4,5) by (intro agreeing_pairs_cost)
  then show ?thesis using assms(1) by (simp add: evaluate_objective_def evaluate_legacy_def ground_truth_cost_def)
qed

text \<open>
  Feedback that no human labelled has cost 0, whatever the stored verdicts and scores are: the verdict
  of the machine is compared with itself. The tuning scheduler always starts with the empty point, for
  which this cost is computed, and a cost of 0 disables its test for an improvement.
\<close>

theorem self_labelled_feedback_is_free:
  assumes "find_nodes_by_type sq ''GroundTruth'' db = Inr nodes" "\<forall>n \<in> set nodes. unlabelled (kn_properties n)"
    and "length nodes < 2 ^ 53" "fp_cost obj = Fin s p" "fn_cost obj = Fin t q"
  shows "\<exists>c. evaluate_objective sq obj [] since db = Inr c \<and> d_le c (Fin False 0)"
  using self_labelled_run [OF assms, of since] by (auto simp: d_le_def)

text \<open>A graph with one frame that the machine refused.\<close>

definition feedback_record :: knowledge_record where
  "feedback_record = \<lparr>rec_fields = [(''machine_verdict'', FText ''NG''), (''timestamp'', FInt 5)]\<rparr>"

definition feedback_database :: database where
  "feedback_database = \<lparr>content = \<lparr>node_rows = [(1, ''GroundTruth'', record_text model_engine feedback_record)],
     edge_rows = [], log_rows = [], snap_rows = [], vec_rows = [], node_seq = 1, edge_seq = 0, log_seq = 0, snap_seq = 0\<rparr>, saved = []\<rparr>"

lemma feedback_nodes:
  "find_nodes_by_type model_engine ''GroundTruth'' feedback_database =
     Inr [\<lparr>kn_id = 1, kn_type = ''GroundTruth'', kn_properties = feedback_record\<rparr>]"
proof -
  have wf: "sm_wf (rec_fields feedback_record)" by (simp add: sm_wf_def feedback_record_def less_char_def)
  have s: "surviving_record feedback_record = feedback_record"
    by (simp add: surviving_record_def feedback_record_def surviving_def)
  have "json_to_record (parse model_engine (dump model_engine (record_to_json feedback_record))) = feedback_record"
    using record_roundtrip [OF model_engine_texts(1) wf] s by simp
  moreover have "c_str ''GroundTruth'' = ''GroundTruth''" by (simp add: c_str_def)
  moreover have "c_str (dump model_engine (record_to_json feedback_record)) = dump model_engine (record_to_json feedback_record)"
    by (rule c_str_id [OF model_engine_texts(2)])
  ultimately show ?thesis
    by (simp add: find_nodes_by_type_def select_rows_def step_of_def is_control_def query_def feedback_database_def
        node_columns_read record_text_def)
qed

theorem self_labelled_feedback_is_free_witness:
  "\<exists>c. evaluate_objective model_engine (new_objective (Fin False 1) (Fin False 5)) [] 0 feedback_database = Inr c \<and>
     d_le c (Fin False 0)"
  by (rule self_labelled_feedback_is_free [OF feedback_nodes, of _ False 1 False 5])
    (simp_all add: unlabelled_def feedback_record_def sm_has_def new_objective_def)

end
