(* ===== verification/Tuning_Scheduler.thy ===== *)
theory Tuning_Scheduler
  imports Bayesian_Optimizer Tuning_Objective Pipeline
begin

text \<open>
  The background thread of the automatic tuning (\<open>src/tuning/tuning_scheduler.cpp\<close>) and its wiring in the
  application (\<open>apps/seat-aoi/tuning_wiring.cpp\<close>): evaluate the current parameters, optimise, apply an
  improvement, watch the share of bad frames and roll back when it leaves its range. One cycle is a
  function of what the clock and the callbacks deliver; \<open>None\<close> is undefined behaviour of the optimizer.
\<close>

datatype tuning_state = Tuning_Idle | Tuning_Evaluating | Tuning_Optimizing | Tuning_Monitoring | Tuning_Rolled_Back

record metrics_snapshot =
  ng_rate :: dbl
  sample_count :: "64 word"

record scheduler_config =
  min_ng_rate :: dbl
  max_ng_rate :: dbl
  min_samples_for_trigger :: "64 word"

record ('x, 'g, 'a) tuning_scheduler =
  ts_state :: tuning_state
  ts_optimizer :: optimizer
  ts_params :: "dbl list"
  ts_cost :: dbl
  ts_graph :: 'x
  ts_random :: 'g
  ts_target :: 'a

text \<open>The collaborators: whether graph and change log are present, the applier and the poller when they
  are set, the text of a number in a stream.\<close>

record ('x, 'g, 'a) tuning_wiring =
  tw_config :: scheduler_config
  tw_objective :: kg_objective
  tw_math :: "('x, 'g) tuning_env"
  tw_graph :: bool
  tw_evolution :: bool
  tw_apply :: "(dbl list \<Rightarrow> 'a \<Rightarrow> unit result \<times> 'a) option"
  tw_poller :: bool
  tw_show :: "dbl \<Rightarrow> string"

definition new_tuning_scheduler :: "optimizer \<Rightarrow> 'x \<Rightarrow> 'g \<Rightarrow> 'a \<Rightarrow> ('x, 'g, 'a) tuning_scheduler" where
  "new_tuning_scheduler opt x g a = \<lparr>ts_state = Tuning_Idle, ts_optimizer = opt, ts_params = [], ts_cost = Fin False 0,
     ts_graph = x, ts_random = g, ts_target = a\<rparr>"

fun serialize_params :: "(dbl \<Rightarrow> string) \<Rightarrow> dbl list \<Rightarrow> string" where
  "serialize_params out [] = ''''"
| "serialize_params out [v] = out v"
| "serialize_params out (v # w # vs) = out v @ '','' @ serialize_params out (w # vs)"

primrec retry_rollback :: "nat \<Rightarrow> (dbl list \<Rightarrow> 'a \<Rightarrow> unit result \<times> 'a) \<Rightarrow> dbl list \<Rightarrow> 'a \<Rightarrow> bool \<times> 'a" where
  "retry_rollback 0 f old a = (False, a)"
| "retry_rollback (Suc n) f old a =
     (case f old a of (Inr _, a1) \<Rightarrow> (True, a1) | (Inl _, a1) \<Rightarrow> retry_rollback n f old a1)"

definition max_retries :: nat where
  "max_retries = 3"

text \<open>What a wake-up of the monitoring loop meets: a stop request, or the answer of the poller. The list
  holds the wake-ups within the monitoring window.\<close>

datatype tick = Stop_Requested | Polled "metrics_snapshot result"

datatype verdict_of_window = Window_Stopped | Window_Tripped | Window_Passed

definition rate_out_of_range :: "scheduler_config \<Rightarrow> metrics_snapshot \<Rightarrow> bool" where
  "rate_out_of_range cfg reading \<longleftrightarrow> min_samples_for_trigger cfg \<le> sample_count reading \<and>
     (d_lt (ng_rate reading) (min_ng_rate cfg) \<or> d_gt (ng_rate reading) (max_ng_rate cfg))"

fun monitor :: "scheduler_config \<Rightarrow> bool \<Rightarrow> tick list \<Rightarrow> verdict_of_window" where
  "monitor cfg poller [] = Window_Passed"
| "monitor cfg poller (Stop_Requested # ts) = Window_Stopped"
| "monitor cfg poller (Polled r # ts) =
     (case r of
        Inl _ \<Rightarrow> monitor cfg poller ts
      | Inr reading \<Rightarrow> if poller \<and> rate_out_of_range cfg reading then Window_Tripped else monitor cfg poller ts)"

text \<open>An audit record, written to the graph when there is one; failures are only logged.\<close>

definition audit :: "('x, 'z) sqlite_scheme \<Rightarrow> bool \<Rightarrow> (string \<times> field_value) list \<Rightarrow> 'x \<Rightarrow> 'x" where
  "audit sq present kvs x =
     (if present then snd (insert_node sq ''TuningEvent'' \<lparr>rec_fields = fold (\<lambda>(k, v). sm_put k v) kvs []\<rparr> x) else x)"

record cycle_input =
  ci_since :: int
  ci_proposed_at :: "64 word"
  ci_closed_at :: "64 word"
  ci_log_time :: string
  ci_ticks :: "tick list"

definition improvement :: "dbl \<Rightarrow> dbl \<Rightarrow> bool" where
  "improvement current best \<longleftrightarrow> d_le current (Fin False 0) \<or> \<not> d_ge best (d_mul current (d_lit (95 / 100)))"

text \<open>Phase 5: the second component tells whether the thread goes on.\<close>

definition monitor_phase ::
  "('x, 'z) sqlite_scheme \<Rightarrow> ('x, 'g, 'a) tuning_wiring \<Rightarrow> cycle_input \<Rightarrow> dbl list \<Rightarrow> dbl \<Rightarrow> dbl list \<times> dbl \<Rightarrow>
    ('x, 'g, 'a) tuning_scheduler \<Rightarrow> ('x, 'g, 'a) tuning_scheduler \<times> bool" where
  "monitor_phase sq w inp old old_cost best s =
     (let s1 = s\<lparr>ts_params := fst best, ts_state := Tuning_Monitoring\<rparr>; out = serialize_params (tw_show w) in
      case monitor (tw_config w) (tw_poller w) (ci_ticks inp) of
        Window_Stopped \<Rightarrow> (s1, False)
      | Window_Tripped \<Rightarrow>
          (s1\<lparr>ts_state := Tuning_Rolled_Back, ts_params := old,
              ts_target := (case tw_apply w of None \<Rightarrow> ts_target s1 | Some f \<Rightarrow> snd (retry_rollback max_retries f old (ts_target s1))),
              ts_graph := audit sq (tw_graph w) [(''event_type'', FText ''ROLLBACK''), (''params'', FText (out old)),
                 (''rejected_params'', FText (out (fst best))), (''timestamp'', FInt (ci_closed_at inp))] (ts_graph s1)\<rparr>, True)
      | Window_Passed \<Rightarrow>
          (s1\<lparr>ts_state := Tuning_Idle,
              ts_graph := audit sq (tw_graph w) [(''event_type'', FText ''APPLIED''), (''old_params'', FText (out old)),
                 (''new_params'', FText (out (fst best))), (''old_cost'', FDouble old_cost), (''new_cost'', FDouble (snd best)),
                 (''timestamp'', FInt (ci_closed_at inp))] (ts_graph s1)\<rparr>, True))"

text \<open>Phase 4: both records are written before the parameters are applied.\<close>

definition apply_phase ::
  "('x, 'z) sqlite_scheme \<Rightarrow> ('x, 'g, 'a) tuning_wiring \<Rightarrow> cycle_input \<Rightarrow> dbl list \<times> dbl \<Rightarrow>
    ('x, 'g, 'a) tuning_scheduler \<Rightarrow> ('x, 'g, 'a) tuning_scheduler \<times> bool" where
  "apply_phase sq w inp best s =
     (let old = ts_params s; old_cost = ts_cost s; out = serialize_params (tw_show w);
          x1 = audit sq (tw_graph w) [(''event_type'', FText ''PROPOSED''), (''old_params'', FText (out old)),
                 (''new_params'', FText (out (fst best))), (''old_cost'', FDouble old_cost), (''new_cost'', FDouble (snd best)),
                 (''timestamp'', FInt (ci_proposed_at inp))] (ts_graph s);
          x2 = (if tw_evolution w
                then snd (append_evolution sq (ci_log_time inp) ''TuningParams'' 0 Op_Update
                       \<lparr>rec_fields = sm_put ''cost'' (FDouble old_cost) (sm_put ''params'' (FText (out old)) [])\<rparr>
                       ''TuningScheduler'' x1)
                else x1);
          s1 = s\<lparr>ts_graph := x2\<rparr>
      in case tw_apply w of
           None \<Rightarrow> monitor_phase sq w inp old old_cost best s1
         | Some f \<Rightarrow>
             (case f (fst best) (ts_target s1) of
                (Inl _, a1) \<Rightarrow>
                  (s1\<lparr>ts_target := snd (retry_rollback max_retries f old a1), ts_state := Tuning_Rolled_Back\<rparr>, True)
              | (Inr _, a1) \<Rightarrow> monitor_phase sq w inp old old_cost best (s1\<lparr>ts_target := a1\<rparr>)))"

definition objective_env :: "('x, 'z) sqlite_scheme \<Rightarrow> ('x, 'g, 'a) tuning_wiring \<Rightarrow> int \<Rightarrow> ('x, 'g) tuning_env" where
  "objective_env sq w since =
     (tw_math w)\<lparr>t_eval := \<lambda>x point. (evaluate_objective sq (tw_objective w) point since x, x)\<rparr>"

definition tuning_cycle ::
  "('x, 'z) sqlite_scheme \<Rightarrow> ('x, 'g, 'a) tuning_wiring \<Rightarrow> cycle_input \<Rightarrow> ('x, 'g, 'a) tuning_scheduler \<Rightarrow>
    (('x, 'g, 'a) tuning_scheduler \<times> bool) option" where
  "tuning_cycle sq w inp s =
     (case evaluate_objective sq (tw_objective w) (ts_params s) (ci_since inp) (ts_graph s) of
        Inl _ \<Rightarrow> Some (s\<lparr>ts_state := Tuning_Evaluating\<rparr>, True)
      | Inr cost \<Rightarrow> do {
          (res, opt, x1, g1) \<leftarrow> optimize (objective_env sq w (ci_since inp))
             (add_observation (ts_params s, cost) (ts_optimizer s)) (ts_graph s) (ts_random s);
          (let s1 = s\<lparr>ts_state := Tuning_Optimizing, ts_cost := cost, ts_optimizer := opt, ts_graph := x1, ts_random := g1\<rparr> in
           case res of
             Inl _ \<Rightarrow> Some (s1, True)
           | Inr best \<Rightarrow>
               if improvement cost (snd best) then Some (apply_phase sq w inp best s1) else Some (s1, True))
        })"

subsection \<open>The poller of the application\<close>

text \<open>The counters of the pipeline's reasoning stages since its start.\<close>

primrec poll_stages :: "(stage_type \<times> stage_metrics) list \<Rightarrow> metrics_snapshot \<Rightarrow> metrics_snapshot" where
  "poll_stages [] reading = reading"
| "poll_stages (e # es) reading =
     poll_stages es
       (if fst e = Reason
        then let processed = frames_processed (snd e); failed = frames_failed (snd e) in
             reading\<lparr>sample_count := sample_count reading + processed,
                  ng_rate := (if 0 < processed
                    then d_add (ng_rate reading)
                           (d_mul (d_div (d_of_nat (unat failed)) (d_of_nat (unat processed))) (d_of_nat (unat processed)))
                    else ng_rate reading)\<rparr>
        else reading)"

definition poll_pipeline :: "(stage_type \<times> stage_metrics) list \<Rightarrow> metrics_snapshot" where
  "poll_pipeline es =
     (let reading = poll_stages es \<lparr>ng_rate = Fin False 0, sample_count = 0\<rparr> in
      if 0 < sample_count reading then reading\<lparr>ng_rate := d_div (ng_rate reading) (d_of_nat (unat (sample_count reading)))\<rparr> else reading)"

subsection \<open>Stopping the thread\<close>

text \<open>
  \<open>std::jthread\<close> passes its own stop token only to a function that takes one before the given arguments; the
  function of \<open>Start\<close> takes just the token given to \<open>Start\<close>, so the loop sees the stop requests of
  that token (\<open>th_stop\<close>), not the ones of the thread (\<open>th_own_stop\<close>), which \<open>Join\<close> makes.
\<close>

datatype thread_phase = Thread_Waiting | Thread_In_Cycle | Thread_Left

record tuning_thread =
  th_phase :: thread_phase
  th_trigger :: bool
  th_stop :: bool
  th_own_stop :: bool

inductive thread_step :: "tuning_thread \<Rightarrow> tuning_thread \<Rightarrow> bool" where
  trigger_once: "thread_step t (t\<lparr>th_trigger := True\<rparr>)"
| join_requests: "thread_step t (t\<lparr>th_own_stop := True\<rparr>)"
| outside_stop: "thread_step t (t\<lparr>th_stop := True\<rparr>)"
| wakes_up: "th_phase t = Thread_Waiting \<Longrightarrow> \<not> th_stop t \<Longrightarrow> thread_step t (t\<lparr>th_phase := Thread_In_Cycle, th_trigger := False\<rparr>)"
| sees_stop: "th_phase t = Thread_Waiting \<Longrightarrow> th_stop t \<Longrightarrow> thread_step t (t\<lparr>th_phase := Thread_Left\<rparr>)"
| cycle_ends: "th_phase t = Thread_In_Cycle \<Longrightarrow> \<not> th_stop t \<Longrightarrow> thread_step t (t\<lparr>th_phase := Thread_Waiting\<rparr>)"
| stopped_in_cycle: "th_phase t = Thread_In_Cycle \<Longrightarrow> th_stop t \<Longrightarrow> thread_step t (t\<lparr>th_phase := Thread_Left\<rparr>)"

inductive_cases thread_step_left: "thread_step t t'"

subsection \<open>The watch over the parameters\<close>

lemma monitor_trips:
  "monitor cfg poller ts = Window_Tripped \<longleftrightarrow>
     poller \<and> (\<exists>reading. Polled (Inr reading) \<in> set (takeWhile (\<lambda>t. t \<noteq> Stop_Requested) ts) \<and> rate_out_of_range cfg reading)"
proof (induction cfg poller ts rule: monitor.induct)
  case (3 cfg poller r ts)
  then show ?case by (cases r) auto
qed simp_all

text \<open>An applier that takes over the parameters it accepts and changes nothing otherwise; \<open>act\<close> reads the
  parameters that are in force.\<close>

definition atomic_applier :: "('a \<Rightarrow> dbl list) \<Rightarrow> (dbl list \<Rightarrow> 'a \<Rightarrow> unit result \<times> 'a) \<Rightarrow> bool" where
  "atomic_applier act f \<longleftrightarrow> (\<forall>p a. act (snd (f p a)) = (case fst (f p a) of Inr _ \<Rightarrow> p | Inl _ \<Rightarrow> act a))"

lemma atomic_step:
  "atomic_applier act f \<Longrightarrow> f p a = (r, a1) \<Longrightarrow> act a1 = (case r of Inr _ \<Rightarrow> p | Inl _ \<Rightarrow> act a)"
  unfolding atomic_applier_def by (metis fst_conv snd_conv)

lemma retry_atomic:
  "atomic_applier act f \<Longrightarrow>
    act (snd (retry_rollback n f old a)) = (if fst (retry_rollback n f old a) then old else act a)"
proof (induction n arbitrary: a)
  case (Suc n)
  obtain r a1 where f: "f old a = (r, a1)" by fastforce
  show ?case using Suc.IH [of a1] Suc.prems f atomic_step [OF Suc.prems f] by (cases r) simp_all
qed simp

definition rollback_fails :: "(dbl list \<Rightarrow> 'a \<Rightarrow> unit result \<times> 'a) \<Rightarrow> dbl list \<Rightarrow> 'a \<Rightarrow> bool" where
  "rollback_fails f old a \<longleftrightarrow> \<not> fst (retry_rollback max_retries f old a)"

text \<open>What a cycle leaves behind: the parameters of the scheduler are in force, or a rollback failed.\<close>

definition consistent_end ::
  "('a \<Rightarrow> dbl list) \<Rightarrow> (dbl list \<Rightarrow> 'a \<Rightarrow> unit result \<times> 'a) \<Rightarrow> dbl list \<Rightarrow> ('x, 'g, 'a) tuning_scheduler \<Rightarrow> bool" where
  "consistent_end act f old s \<longleftrightarrow>
     (act (ts_target s) = ts_params s \<or> ts_state s = Tuning_Rolled_Back \<and> (\<exists>a. rollback_fails f old a)) \<and>
     (ts_state s = Tuning_Rolled_Back \<longrightarrow> ts_params s = old)"

lemma monitor_phase_consistent:
  assumes "tw_apply w = Some f" "atomic_applier act f" "act (ts_target s) = fst best"
    and "monitor_phase sq w inp old c best s = (s', go)"
  shows "consistent_end act f old s'"
proof (cases "monitor (tw_config w) (tw_poller w) (ci_ticks inp)")
  case Window_Tripped
  then show ?thesis
    using assms retry_atomic [OF assms(2), of max_retries old "ts_target s"]
    by (auto simp: monitor_phase_def Let_def consistent_end_def rollback_fails_def split: if_splits)
qed (use assms in \<open>auto simp: monitor_phase_def Let_def consistent_end_def\<close>)

lemma apply_phase_consistent:
  assumes "tw_apply w = Some f" "atomic_applier act f" "act (ts_target s) = ts_params s"
    and "apply_phase sq w inp best s = (s', go)"
  shows "consistent_end act f (ts_params s) s'"
proof -
  obtain r a1 where f: "f (fst best) (ts_target s) = (r, a1)" by fastforce
  show ?thesis
  proof (cases r)
    case (Inl err)
    then show ?thesis
      using assms f atomic_step [OF assms(2) f] retry_atomic [OF assms(2), of max_retries "ts_params s" a1]
      by (auto simp: apply_phase_def Let_def consistent_end_def split: if_splits)
  next
    case (Inr u)
    then have a1: "act a1 = fst best" using atomic_step [OF assms(2) f] by simp
    obtain x2 where "monitor_phase sq w inp (ts_params s) (ts_cost s) best (s\<lparr>ts_graph := x2, ts_target := a1\<rparr>) = (s', go)"
      using assms(4) f Inr by (simp add: apply_phase_def Let_def assms(1))
    then show ?thesis by (rule monitor_phase_consistent [OF assms(1,2), rotated]) (simp add: a1)
  qed
qed

lemma tuning_cycle_run:
  assumes "tw_apply w = Some f" "atomic_applier act f" "act (ts_target s) = ts_params s" "ts_state s \<noteq> Tuning_Rolled_Back"
    and "tuning_cycle sq w inp s = Some (s', go)"
  shows "consistent_end act f (ts_params s) s'"
proof (cases "evaluate_objective sq (tw_objective w) (ts_params s) (ci_since inp) (ts_graph s)")
  case (Inl err)
  then show ?thesis using assms by (auto simp: tuning_cycle_def consistent_end_def)
next
  case (Inr cost)
  obtain res opt x1 g1 where o: "optimize (objective_env sq w (ci_since inp))
      (add_observation (ts_params s, cost) (ts_optimizer s)) (ts_graph s) (ts_random s) = Some (res, opt, x1, g1)"
    using assms(5) Inr by (auto simp: tuning_cycle_def bind_eq_Some_conv)
  let ?s1 = "s\<lparr>ts_state := Tuning_Optimizing, ts_cost := cost, ts_optimizer := opt, ts_graph := x1, ts_random := g1\<rparr>"
  show ?thesis
  proof (cases "\<exists>best. res = Inr best \<and> improvement cost (snd best)")
    case True
    then obtain best where "apply_phase sq w inp best ?s1 = (s', go)"
      using assms(5) Inr o by (auto simp: tuning_cycle_def Let_def)
    then show ?thesis using apply_phase_consistent [OF assms(1,2), of ?s1] assms(3) by simp
  next
    case False
    then have "s' = ?s1" using assms(5) Inr o by (cases res) (auto simp: tuning_cycle_def Let_def)
    then show ?thesis using assms(3) by (simp add: consistent_end_def)
  qed
qed

lemma poll_reason_only: "poll_stages es r = poll_stages (filter (\<lambda>e. fst e = Reason) es) r"
  by (induction es arbitrary: r) simp_all

lemma poll_one_stage:
  assumes "filter (\<lambda>e. fst e = Reason) es = [(Reason, m)]" "frames_failed m = 0" "0 < frames_processed m"
    "unat (frames_processed m) < 2 ^ 53"
  shows "poll_pipeline es = \<lparr>ng_rate = Fin False 0, sample_count = frames_processed m\<rparr>"
proof -
  define n where "n = unat (frames_processed m)"
  have n: "unat (frames_processed m) = n" "d_of_nat n = Fin False (of_nat n)" "n \<noteq> 0" "d_of_nat 0 = Fin False 0"
    using d_of_nat_exact [of n] d_of_nat_exact [of 0] assms(3,4) by (simp_all add: n_def unat_gt_0)
  have "poll_stages es \<lparr>ng_rate = Fin False 0, sample_count = 0\<rparr> = \<lparr>ng_rate = Fin False 0, sample_count = frames_processed m\<rparr>"
    unfolding poll_reason_only [of es] assms(1) using assms(2,3) n by (simp add: Let_def)
  then show ?thesis using assms(3) n by (simp add: poll_pipeline_def)
qed

lemma thread_keeps_running:
  "thread_step\<^sup>*\<^sup>* t t' \<Longrightarrow> th_phase t \<noteq> Thread_Left \<Longrightarrow> \<not> th_stop t' \<Longrightarrow> th_phase t' \<noteq> Thread_Left \<and> \<not> th_stop t"
proof (induction rule: rtranclp_induct)
  case (step u v)
  from step.hyps(2) show ?case by (rule thread_step_left) (use step in auto)
qed simp

subsection \<open>Properties\<close>

text \<open>
  With an applier that takes over exactly the parameters it accepts, a cycle of the tuning thread ends with
  the parameters of the scheduler in force, except after a rollback whose three attempts all failed; a
  cycle that rolled back has restored the parameters it started from.
\<close>

theorem tuning_cycle_consistent:
  assumes "tw_apply w = Some f" "atomic_applier act f" "act (ts_target s) = ts_params s" "ts_state s \<noteq> Tuning_Rolled_Back"
    and "tuning_cycle sq w inp s = Some (s', go)"
  shows "(act (ts_target s') = ts_params s' \<or> (ts_state s' = Tuning_Rolled_Back \<and> (\<exists>a. rollback_fails f (ts_params s) a))) \<and>
    (ts_state s' = Tuning_Rolled_Back \<longrightarrow> ts_params s' = ts_params s)"
  using tuning_cycle_run [OF assms] by (simp add: consistent_end_def)

text \<open>
  C29 The first cycle of a new scheduler reads outside of a vector: its parameters are never initialised, so it
  adds an observation without coordinates, and the squared distance of the first random point to that
  observation runs past the end. This holds for every space with a parameter and every configuration
  with at least two initial points and one iteration, as the defaults and the application have it,
  when the optimizer has no observation yet and the ground truth can be read from the graph.
\<close>

theorem first_tuning_cycle_undefined:
  assumes "bo_obs opt = []" "dimension (bo_space opt) \<noteq> 0" "2 \<le> initial_random_points (bo_config opt)"
    and "max_iterations (bo_config opt) \<noteq> 0" "find_nodes_by_type sq ''GroundTruth'' = (\<lambda>x. Inr (nodes x))"
  shows "tuning_cycle sq w inp (new_tuning_scheduler opt x g a) = None"
proof -
  have e: "\<exists>c. evaluate_objective sq obj point since y = Inr c" for obj point since y
    by (simp add: evaluate_objective_def evaluate_simulated_def evaluate_legacy_def ground_truth_cost_def assms(5))
  obtain cost where c: "evaluate_objective sq (tw_objective w) [] (ci_since inp) x = Inr cost" using e by blast
  have "optimize (objective_env sq w (ci_since inp)) (add_observation ([], cost) opt) x g = None"
    using assms e by (intro optimize_undefined [of _ cost]) (simp_all add: add_observation_def objective_env_def)
  then show ?thesis using c by (simp add: tuning_cycle_def new_tuning_scheduler_def)
qed

text \<open>
  A pipeline that works without a failed frame makes the tuning roll back: the poller of the application
  reports the share of failed frames since the start of the pipeline as the rate of bad parts, and a
  share of 0 lies below the least rate once enough frames have passed.
\<close>

theorem healthy_pipeline_rolls_back:
  assumes "filter (\<lambda>e. fst e = Reason) es = [(Reason, m)]" "frames_failed m = 0" "0 < frames_processed m"
    and "unat (frames_processed m) < 2 ^ 53" "min_samples_for_trigger (tw_config w) \<le> frames_processed m"
    and "d_lt (Fin False 0) (min_ng_rate (tw_config w))" "tw_poller w" "ci_ticks inp = Polled (Inr (poll_pipeline es)) # ts"
  shows "ts_state (fst (monitor_phase sq w inp old c best s)) = Tuning_Rolled_Back \<and>
    ts_params (fst (monitor_phase sq w inp old c best s)) = old"
  using assms poll_one_stage [OF assms(1-4)] by (simp add: monitor_phase_def Let_def rate_out_of_range_def)

text \<open>
  Join does not stop the thread: whatever is requested of the thread itself, as long as nobody stops the token
  that was given to Start, the loop is never left.
\<close>

theorem join_never_returns:
  "thread_step\<^sup>*\<^sup>* t t' \<Longrightarrow> th_phase t \<noteq> Thread_Left \<Longrightarrow> \<not> th_stop t' \<Longrightarrow> th_phase t' \<noteq> Thread_Left"
  using thread_keeps_running by blast

subsection \<open>Instances\<close>

definition default_scheduler_config :: scheduler_config where
  "default_scheduler_config = \<lparr>min_ng_rate = d_lit (1 / 1000), max_ng_rate = Fin False (1 / 2), min_samples_for_trigger = 50\<rparr>"

definition demo_wiring :: "(database, unit, dbl list) tuning_wiring" where
  "demo_wiring = \<lparr>tw_config = default_scheduler_config, tw_objective = new_objective (Fin False 1) (Fin False 5),
     tw_math = \<lparr>t_exp = id, t_log = id, t_erf = id, t_eval = (\<lambda>x _. (Inr (Fin False 0), x)), t_draw = (\<lambda>_ lo hi. (lo, ()))\<rparr>,
     tw_graph = False, tw_evolution = False, tw_apply = Some (\<lambda>p a. (Inr (), p)), tw_poller = True, tw_show = (\<lambda>_. ''x'')\<rparr>"

definition demo_input :: "tick list \<Rightarrow> cycle_input" where
  "demo_input ts = \<lparr>ci_since = 0, ci_proposed_at = 1, ci_closed_at = 2, ci_log_time = ''t'', ci_ticks = ts\<rparr>"

lemma least_rate_positive: "d_lt (Fin False 0) (d_lit (1 / 1000))"
proof -
  have "pow2 (- 10) \<le> rounded (1 / 1000)" by (rule rounded_ge_pow2) (simp_all add: pow2_def)
  then have "0 < rounded (1 / 1000)" by (simp add: pow2_def)
  moreover have "rounded (1 / 1000) \<le> pow2 0" by (rule rounded_le_pow2(2)) (simp_all add: pow2_def)
  then have "rounded (1 / 1000) < pow2 1024" using pow2_less_iff [of 0 1024] by linarith
  ultimately show ?thesis by (simp add: d_lit_def round_rat_def round_binary64)
qed

theorem healthy_pipeline_rolls_back_witness:
  "let es = [(Capture, new_metrics), (Reason, new_metrics\<lparr>frames_processed := 200\<rparr>)];
       s = new_tuning_scheduler (new_optimizer odd_space default_optimizer_config) feedback_database () [Fin False 2];
       s' = fst (monitor_phase model_engine demo_wiring (demo_input [Polled (Inr (poll_pipeline es))]) [Fin False 0]
                   (Fin False 1) ([Fin False 2], Fin False (1 / 2)) s)
   in ts_state s' = Tuning_Rolled_Back \<and> ts_params s' = [Fin False 0]"
  unfolding Let_def
  by (rule healthy_pipeline_rolls_back [where ts = "[]" and m = "new_metrics\<lparr>frames_processed := 200\<rparr>"])
    (simp_all add: new_metrics_def demo_wiring_def default_scheduler_config_def demo_input_def least_rate_positive)

lemma model_engine_finds: "find_nodes_by_type model_engine ty = (\<lambda>x. Inr (map (read_node model_engine 0)
    (map node_columns (filter (\<lambda>n. fst (snd n) = ty) (node_rows (content x))))))"
  by (rule ext) (simp add: find_nodes_by_type_def select_rows_def step_of_def is_control_def query_def)

theorem first_tuning_cycle_undefined_witness:
  "tuning_cycle model_engine demo_wiring (demo_input []) (new_tuning_scheduler (new_optimizer odd_space default_optimizer_config)
     feedback_database () []) = None"
  by (rule first_tuning_cycle_undefined [OF _ _ _ _ model_engine_finds])
    (simp_all add: new_optimizer_def default_optimizer_config_def odd_space_ordered)

theorem join_never_returns_witness:
  "let t = \<lparr>th_phase = Thread_Waiting, th_trigger = False, th_stop = False, th_own_stop = False\<rparr>;
       t' = \<lparr>th_phase = Thread_In_Cycle, th_trigger = False, th_stop = False, th_own_stop = True\<rparr>
   in thread_step\<^sup>*\<^sup>* t t' \<and> th_phase t' \<noteq> Thread_Left"
proof -
  let ?t = "\<lparr>th_phase = Thread_Waiting, th_trigger = False, th_stop = False, th_own_stop = False\<rparr>"
  have "thread_step ?t (?t\<lparr>th_own_stop := True\<rparr>)" by (rule join_requests)
  moreover have "thread_step (?t\<lparr>th_own_stop := True\<rparr>) (?t\<lparr>th_own_stop := True, th_phase := Thread_In_Cycle, th_trigger := False\<rparr>)"
    using wakes_up [of "?t\<lparr>th_own_stop := True\<rparr>"] by simp
  ultimately have r: "thread_step\<^sup>*\<^sup>* ?t \<lparr>th_phase = Thread_In_Cycle, th_trigger = False, th_stop = False, th_own_stop = True\<rparr>"
    by (metis (no_types, lifting) r_into_rtranclp rtranclp.rtrancl_into_rtrancl tuning_thread.update_convs(1,2,4))
  show ?thesis using r join_never_returns [OF r] by simp
qed

theorem tuning_cycle_consistent_witness:
  "\<exists>s'. tuning_cycle model_engine demo_wiring (demo_input [Polled (Inr \<lparr>ng_rate = Fin False 1, sample_count = 100\<rparr>)])
      (new_tuning_scheduler (new_optimizer odd_space (default_optimizer_config\<lparr>max_iterations := 0, initial_random_points := 0\<rparr>))
         feedback_database () []) = Some (s', True) \<and> ts_state s' = Tuning_Rolled_Back \<and> ts_params s' = []"
proof -
  let ?inp = "demo_input [Polled (Inr \<lparr>ng_rate = Fin False 1, sample_count = 100\<rparr>)]"
  let ?s = "new_tuning_scheduler (new_optimizer odd_space (default_optimizer_config\<lparr>max_iterations := 0, initial_random_points := 0\<rparr>))
         feedback_database () []"
  obtain c where c: "evaluate_objective model_engine (tw_objective demo_wiring) [] 0 feedback_database = Inr c" "d_eq c (Fin False 0)"
    using self_labelled_run [OF feedback_nodes, of "new_objective (Fin False 1) (Fin False 5)" False 1 False 5 0]
    by (auto simp: unlabelled_def feedback_record_def sm_has_def new_objective_def demo_wiring_def)
  have d: "dimension odd_space = 1" by (simp add: dimension_def odd_space_def)
  have "\<exists>s'. tuning_cycle model_engine demo_wiring ?inp ?s = Some (s', True) \<and> ts_state s' = Tuning_Rolled_Back"
    using c d by (simp add: tuning_cycle_def new_tuning_scheduler_def demo_input_def new_optimizer_def optimize_def add_observation_def
        best_point_def improvement_def d_le_def apply_phase_def monitor_phase_def Let_def demo_wiring_def
        rate_out_of_range_def default_scheduler_config_def d_gt_def)
  then obtain s' where s': "tuning_cycle model_engine demo_wiring ?inp ?s = Some (s', True)" "ts_state s' = Tuning_Rolled_Back" by blast
  have "ts_params s' = ts_params ?s"
    using tuning_cycle_consistent [OF _ _ _ _ s'(1), of "\<lambda>p a. (Inr (), p)" id] s'(2)
    by (simp add: demo_wiring_def atomic_applier_def new_tuning_scheduler_def)
  then show ?thesis using s' by (simp add: new_tuning_scheduler_def)
qed

end
