(* ===== verification/Free_List.thy ===== *)
theory Free_List
  imports "HOL-Library.Word"
begin

text \<open>
  The lock-free list of free slabs (\<open>include/sai/memory/free_list.h\<close>): a stack whose head carries a tag that
  every update increments. Any number of threads pop and push; a step is one load, one read or
  write of a node, or one compare-and-swap, which may also fail for no reason. The nodes are numbers;
  they live in the arena and are never freed, so a stale \<open>next\<close> can always be read.
\<close>

datatype fl_pc =
    Fl_Idle
  | Pop_Loaded nat "64 word"
  | Pop_Read nat "64 word" "nat option"
  | Push_Begun nat
  | Push_Loaded nat "nat option" "64 word"
  | Push_Linked nat "nat option" "64 word"

text \<open>\<open>fl_held\<close> are the nodes whose slabs are handed out; \<open>fl_updates\<close> counts the successful swaps and is used
  only in the proofs.\<close>

record free_list =
  fl_next :: "nat \<Rightarrow> nat option"
  fl_head :: "nat option"
  fl_tag :: "64 word"
  fl_pc :: "nat \<Rightarrow> fl_pc"
  fl_held :: "nat set"
  fl_updates :: nat

text \<open>What a pop does with the head it has seen: return on an empty list, else go on.\<close>

definition pop_seen :: "nat option \<Rightarrow> 64 word \<Rightarrow> fl_pc" where
  "pop_seen h tg = (case h of None \<Rightarrow> Fl_Idle | Some p \<Rightarrow> Pop_Loaded p tg)"

inductive fl_step :: "free_list \<Rightarrow> free_list \<Rightarrow> bool" where
  pop_load: "fl_pc s t = Fl_Idle \<Longrightarrow>
     fl_step s (s\<lparr>fl_pc := (fl_pc s)(t := pop_seen (fl_head s) (fl_tag s))\<rparr>)"
| pop_read: "fl_pc s t = Pop_Loaded p tg \<Longrightarrow>
     fl_step s (s\<lparr>fl_pc := (fl_pc s)(t := Pop_Read p tg (fl_next s p))\<rparr>)"
| pop_swap: "fl_pc s t = Pop_Read p tg n \<Longrightarrow> fl_head s = Some p \<Longrightarrow> fl_tag s = tg \<Longrightarrow>
     fl_step s (s\<lparr>fl_head := n, fl_tag := tg + 1, fl_held := insert p (fl_held s),
       fl_pc := (fl_pc s)(t := Fl_Idle), fl_updates := Suc (fl_updates s)\<rparr>)"
| pop_retry: "fl_pc s t = Pop_Read p tg n \<Longrightarrow>
     fl_step s (s\<lparr>fl_pc := (fl_pc s)(t := pop_seen (fl_head s) (fl_tag s))\<rparr>)"
| push_begin: "fl_pc s t = Fl_Idle \<Longrightarrow> p \<in> fl_held s \<Longrightarrow>
     fl_step s (s\<lparr>fl_held := fl_held s - {p}, fl_pc := (fl_pc s)(t := Push_Begun p)\<rparr>)"
| push_load: "fl_pc s t = Push_Begun p \<Longrightarrow>
     fl_step s (s\<lparr>fl_pc := (fl_pc s)(t := Push_Loaded p (fl_head s) (fl_tag s))\<rparr>)"
| push_link: "fl_pc s t = Push_Loaded p h tg \<Longrightarrow>
     fl_step s (s\<lparr>fl_next := (fl_next s)(p := h), fl_pc := (fl_pc s)(t := Push_Linked p h tg)\<rparr>)"
| push_swap: "fl_pc s t = Push_Linked p h tg \<Longrightarrow> fl_head s = h \<Longrightarrow> fl_tag s = tg \<Longrightarrow>
     fl_step s (s\<lparr>fl_head := Some p, fl_tag := tg + 1, fl_pc := (fl_pc s)(t := Fl_Idle), fl_updates := Suc (fl_updates s)\<rparr>)"
| push_retry: "fl_pc s t = Push_Linked p h tg \<Longrightarrow>
     fl_step s (s\<lparr>fl_pc := (fl_pc s)(t := Push_Loaded p (fl_head s) (fl_tag s))\<rparr>)"

inductive_cases fl_step_cases: "fl_step s s'"

text \<open>The list that a pool of \<open>n\<close> slabs is created with.\<close>

definition fl_initial :: "nat \<Rightarrow> free_list" where
  "fl_initial n = \<lparr>fl_next = (\<lambda>i. if Suc i < n then Some (Suc i) else None), fl_head = (if n = 0 then None else Some 0),
     fl_tag = 0, fl_pc = (\<lambda>_. Fl_Idle), fl_held = {}, fl_updates = 0\<rparr>"

subsection \<open>The abstract stack\<close>

text \<open>The nodes that are reached from the head.\<close>

fun chain :: "(nat \<Rightarrow> nat option) \<Rightarrow> nat option \<Rightarrow> nat list \<Rightarrow> bool" where
  "chain nx h [] = (h = None)"
| "chain nx h (p # ps) = (h = Some p \<and> chain nx (nx p) ps)"

lemma chain_write: "p \<notin> set ps \<Longrightarrow> chain (nx(p := v)) h ps = chain nx h ps"
  by (induction ps arbitrary: h) auto

lemma chain_unique: "chain nx h ps \<Longrightarrow> chain nx h qs \<Longrightarrow> ps = qs"
  by (induction ps arbitrary: h qs) (auto elim: chain.elims)

text \<open>The node a thread is about to return.\<close>

fun pushing :: "fl_pc \<Rightarrow> nat option" where
  "pushing (Push_Begun p) = Some p"
| "pushing (Push_Loaded p h tg) = Some p"
| "pushing (Push_Linked p h tg) = Some p"
| "pushing _ = None"

definition in_flight :: "free_list \<Rightarrow> nat set" where
  "in_flight s = {p. \<exists>t. pushing (fl_pc s t) = Some p}"

text \<open>Nodes are free, handed out or in flight, and only one of these.\<close>

definition fl_partition :: "nat \<Rightarrow> free_list \<Rightarrow> nat list \<Rightarrow> bool" where
  "fl_partition n s ps \<longleftrightarrow> chain (fl_next s) (fl_head s) ps \<and> distinct ps \<and>
     set ps \<inter> fl_held s = {} \<and> set ps \<inter> in_flight s = {} \<and> fl_held s \<inter> in_flight s = {} \<and>
     set ps \<union> fl_held s \<union> in_flight s = {..<n}"

text \<open>A head that a thread has seen was the head after some update, and still is when that was the last one.\<close>

definition seen_at :: "free_list \<Rightarrow> nat option \<Rightarrow> 64 word \<Rightarrow> (nat option) option \<Rightarrow> bool" where
  "seen_at s h tg nx \<longleftrightarrow>
     (\<exists>k \<le> fl_updates s. tg = of_nat k \<and>
        (k = fl_updates s \<longrightarrow> fl_head s = h \<and> (case nx of None \<Rightarrow> True | Some n \<Rightarrow> h \<noteq> None \<and> fl_next s (the h) = n)))"

fun pc_ok :: "free_list \<Rightarrow> fl_pc \<Rightarrow> bool" where
  "pc_ok s (Pop_Loaded p tg) = seen_at s (Some p) tg None"
| "pc_ok s (Pop_Read p tg n) = seen_at s (Some p) tg (Some n)"
| "pc_ok s (Push_Loaded p h tg) = seen_at s h tg None"
| "pc_ok s (Push_Linked p h tg) = (seen_at s h tg None \<and> fl_next s p = h)"
| "pc_ok s _ = True"

definition one_pusher :: "free_list \<Rightarrow> bool" where
  "one_pusher s \<longleftrightarrow> (\<forall>t u p. pushing (fl_pc s t) = Some p \<longrightarrow> pushing (fl_pc s u) = Some p \<longrightarrow> t = u)"

definition fl_inv :: "nat \<Rightarrow> free_list \<Rightarrow> bool" where
  "fl_inv n s \<longleftrightarrow> fl_tag s = of_nat (fl_updates s) \<and> (\<exists>ps. fl_partition n s ps) \<and> (\<forall>t. pc_ok s (fl_pc s t)) \<and> one_pusher s"

lemma fl_invI:
  "fl_tag s = of_nat (fl_updates s) \<Longrightarrow> fl_partition n s ps \<Longrightarrow> (\<And>t. pc_ok s (fl_pc s t)) \<Longrightarrow> one_pusher s \<Longrightarrow> fl_inv n s"
  by (auto simp: fl_inv_def)

lemma fl_invD:
  assumes "fl_inv n s"
  shows "fl_tag s = of_nat (fl_updates s)" "\<exists>ps. fl_partition n s ps" "pc_ok s (fl_pc s t)" "one_pusher s"
  using assms by (simp_all add: fl_inv_def)

subsection \<open>The invariant\<close>

lemma chain_upto: "i \<le> n \<Longrightarrow> chain (\<lambda>i. if Suc i < n then Some (Suc i) else None) (if i < n then Some i else None) [i..<n]"
proof (induction "n - i" arbitrary: i)
  case (Suc d)
  then have "chain (\<lambda>i. if Suc i < n then Some (Suc i) else None) (if Suc i < n then Some (Suc i) else None) [Suc i..<n]"
    by (intro Suc.hyps(1)) simp_all
  then show ?case using Suc by (simp add: upt_conv_Cons)
qed simp

lemma fl_initial_inv: "fl_inv n (fl_initial n)"
proof -
  have "chain (fl_next (fl_initial n)) (fl_head (fl_initial n)) [0..<n]"
    using chain_upto [of 0 n] by (cases "n = 0") (simp_all add: fl_initial_def)
  then have "fl_partition n (fl_initial n) [0..<n]"
    by (auto simp: fl_partition_def in_flight_def fl_initial_def)
  then show ?thesis by (rule fl_invI [rotated]) (simp_all add: fl_initial_def one_pusher_def)
qed

lemma seen_now: "fl_tag s = of_nat (fl_updates s) \<Longrightarrow> seen_at s (fl_head s) (fl_tag s) None"
  by (auto simp: seen_at_def)

lemma tag_current:
  assumes "fl_updates s < 2 ^ 64" "seen_at s h (of_nat (fl_updates s)) nx"
  shows "fl_head s = h \<and> (case nx of None \<Rightarrow> True | Some n \<Rightarrow> h \<noteq> None \<and> fl_next s (the h) = n)"
proof -
  obtain k where k: "k \<le> fl_updates s" "(of_nat (fl_updates s) :: 64 word) = of_nat k"
      "k = fl_updates s \<longrightarrow> fl_head s = h \<and> (case nx of None \<Rightarrow> True | Some n \<Rightarrow> h \<noteq> None \<and> fl_next s (the h) = n)"
    using assms(2) by (auto simp: seen_at_def)
  have "unat (of_nat (fl_updates s) :: 64 word) = fl_updates s" "unat (of_nat k :: 64 word) = k"
    using assms(1) k(1) by (simp_all add: unat_of_nat take_bit_nat_eq_self)
  then have "k = fl_updates s" using k(2) by metis
  then show ?thesis using k(3) by simp
qed

text \<open>After an update everything seen before is out of date.\<close>

lemma pc_ok_updated:
  assumes "fl_updates s' = Suc (fl_updates s)" "pc_ok s c"
    and "\<And>p h tg. c = Push_Linked p h tg \<Longrightarrow> fl_next s' p = fl_next s p"
  shows "pc_ok s' c"
proof -
  have "seen_at s' h tg nx" if "seen_at s h tg nx'" for h tg nx nx'
    using that assms(1) unfolding seen_at_def by (metis Suc_n_not_le_n le_SucI)
  then show ?thesis using assms(2,3) by (cases c) auto
qed

text \<open>Without an update what was seen stays true, as long as only nodes in flight are written.\<close>

lemma pc_ok_same:
  assumes "fl_updates s' = fl_updates s" "fl_head s' = fl_head s" "pc_ok s c"
    and "\<And>p. p \<in> A \<Longrightarrow> fl_next s' p = fl_next s p" "\<And>p. fl_head s = Some p \<Longrightarrow> p \<in> A"
    and "\<And>p h tg. c = Push_Linked p h tg \<Longrightarrow> fl_next s' p = fl_next s p"
  shows "pc_ok s' c"
proof -
  have "seen_at s' h tg nx" if "seen_at s h tg nx" for h tg nx
    using that assms(1,2,4,5) unfolding seen_at_def by (fastforce split: option.splits)
  then show ?thesis using assms(3,6) by (cases c) auto
qed

lemma flight_same:
  "fl_pc s' = (fl_pc s)(t := c) \<Longrightarrow> pushing c = pushing (fl_pc s t) \<Longrightarrow> in_flight s' = in_flight s"
  unfolding in_flight_def by (metis fun_upd_apply)

lemma flight_begins:
  assumes "fl_pc s' = (fl_pc s)(t := c)" "pushing (fl_pc s t) = None" "pushing c = Some p"
  shows "in_flight s' = insert p (in_flight s)"
proof (intro set_eqI iffI)
  fix q assume "q \<in> in_flight s'"
  then obtain v where "pushing (fl_pc s' v) = Some q" by (auto simp: in_flight_def)
  then show "q \<in> insert p (in_flight s)" using assms by (auto simp: in_flight_def split: if_splits)
next
  fix q assume q: "q \<in> insert p (in_flight s)"
  show "q \<in> in_flight s'"
  proof (cases "q = p")
    case True
    then have "pushing (fl_pc s' t) = Some q" using assms by simp
    then show ?thesis by (auto simp: in_flight_def)
  next
    case False
    then obtain v where v: "pushing (fl_pc s v) = Some q" using q by (auto simp: in_flight_def)
    then have "v \<noteq> t" using assms(2) by auto
    then have "pushing (fl_pc s' v) = Some q" using v assms(1) by simp
    then show ?thesis by (auto simp: in_flight_def)
  qed
qed

lemma one_pusherD: "one_pusher s \<Longrightarrow> pushing (fl_pc s t) = Some p \<Longrightarrow> pushing (fl_pc s u) = Some p \<Longrightarrow> t = u"
  by (simp add: one_pusher_def)

lemma flight_ends:
  assumes "one_pusher s" "fl_pc s' = (fl_pc s)(t := c)" "pushing (fl_pc s t) = Some p" "pushing c = None"
  shows "in_flight s' = in_flight s - {p}"
proof (intro set_eqI iffI)
  fix q assume "q \<in> in_flight s'"
  then obtain v where "pushing (fl_pc s' v) = Some q" by (auto simp: in_flight_def)
  then have "v \<noteq> t" "pushing (fl_pc s v) = Some q" using assms(2,4) by (auto split: if_splits)
  then show "q \<in> in_flight s - {p}" using one_pusherD [OF assms(1,3)] by (auto simp: in_flight_def)
next
  fix q assume "q \<in> in_flight s - {p}"
  then obtain v where v: "pushing (fl_pc s v) = Some q" "q \<noteq> p" by (auto simp: in_flight_def)
  then have "v \<noteq> t" using assms(3) by auto
  then show "q \<in> in_flight s'" using v assms(2) by (auto simp: in_flight_def)
qed

lemma one_pusher_step:
  assumes "one_pusher s" "fl_pc s' = (fl_pc s)(t := c)" "\<And>p. pushing c = Some p \<Longrightarrow> pushing (fl_pc s t) = Some p \<or> p \<notin> in_flight s"
  shows "one_pusher s'"
  unfolding one_pusher_def
proof (intro allI impI)
  fix v u p assume h: "pushing (fl_pc s' v) = Some p" "pushing (fl_pc s' u) = Some p"
  have other: "x = t" if "pushing c = Some p" "pushing (fl_pc s' x) = Some p" for x
  proof (rule ccontr)
    assume "x \<noteq> t"
    then have x: "pushing (fl_pc s x) = Some p" using that(2) assms(2) by simp
    then have "p \<in> in_flight s" by (auto simp: in_flight_def)
    then have "pushing (fl_pc s t) = Some p" using assms(3) [OF that(1)] by simp
    then show False using one_pusherD [OF assms(1) x] \<open>x \<noteq> t\<close> by simp
  qed
  show "v = u"
  proof (cases "pushing c = Some p")
    case True
    then show ?thesis using other h by metis
  next
    case False
    then have "v \<noteq> t" "u \<noteq> t" using h assms(2) by auto
    then show ?thesis using h assms(2) one_pusherD [OF assms(1)] by simp
  qed
qed

text \<open>A step that only moves a thread.\<close>

lemma fl_inv_pc:
  assumes "fl_inv n s" "pushing c = pushing (fl_pc s t)" "pc_ok s c"
  shows "fl_inv n (s\<lparr>fl_pc := (fl_pc s)(t := c)\<rparr>)" (is "fl_inv n ?s")
proof -
  obtain ps where ps: "fl_partition n s ps" using fl_invD(2) [OF assms(1)] by blast
  have f: "in_flight ?s = in_flight s" using flight_same [of ?s s t c] assms(2) by simp
  have ok: "pc_ok ?s c'" if "pc_ok s c'" for c' using that by (cases c') (auto simp: seen_at_def)
  show ?thesis
  proof (rule fl_invI)
    show "fl_partition n ?s ps" using ps unfolding fl_partition_def f by simp
    show "pc_ok ?s (fl_pc ?s u)" for u using ok assms(3) fl_invD(3) [OF assms(1), of u] by simp
    show "one_pusher ?s" by (rule one_pusher_step [OF fl_invD(4) [OF assms(1)], of _ t c]) (simp_all add: assms(2))
  qed (use fl_invD(1) [OF assms(1)] in simp)
qed

lemma chain_head: "chain nx (Some p) ps \<Longrightarrow> \<exists>qs. ps = p # qs \<and> chain nx (nx p) qs"
  by (cases ps) auto

lemma fl_inv_pop:
  assumes inv: "fl_inv n s" and pc: "fl_pc s t = Pop_Read p tg nx" and head: "fl_head s = Some p" "fl_tag s = tg"
    and bound: "fl_updates s < 2 ^ 64"
  shows "fl_inv n (s\<lparr>fl_head := nx, fl_tag := tg + 1, fl_held := insert p (fl_held s),
       fl_pc := (fl_pc s)(t := Fl_Idle), fl_updates := Suc (fl_updates s)\<rparr>)" (is "fl_inv n ?s")
proof -
  have tag: "tg = of_nat (fl_updates s)" using fl_invD(1) [OF inv] head(2) by simp
  have "pc_ok s (Pop_Read p tg nx)" using fl_invD(3) [OF inv, of t] pc by simp
  then have nx: "fl_next s p = nx" using tag_current [OF bound, of "Some p" "Some nx"] tag by simp
  obtain ps where ps: "fl_partition n s ps" using fl_invD(2) [OF inv] by blast
  then obtain qs where qs: "ps = p # qs" "chain (fl_next s) nx qs"
    using chain_head [of "fl_next s" p ps] head(1) nx by (auto simp: fl_partition_def)
  have f: "in_flight ?s = in_flight s" using flight_same [of ?s s t Fl_Idle] pc by simp
  show ?thesis
  proof (rule fl_invI)
    show "fl_partition n ?s qs" using ps qs unfolding fl_partition_def f by auto
    show "pc_ok ?s (fl_pc ?s u)" for u using pc_ok_updated [of ?s s "fl_pc s u"] fl_invD(3) [OF inv, of u] by simp
    show "one_pusher ?s" by (rule one_pusher_step [OF fl_invD(4) [OF inv], of _ t Fl_Idle]) simp_all
  qed (simp add: tag)
qed

lemma fl_inv_begin:
  assumes inv: "fl_inv n s" and pc: "fl_pc s t = Fl_Idle" and p: "p \<in> fl_held s"
  shows "fl_inv n (s\<lparr>fl_held := fl_held s - {p}, fl_pc := (fl_pc s)(t := Push_Begun p)\<rparr>)" (is "fl_inv n ?s")
proof -
  obtain ps where ps: "fl_partition n s ps" using fl_invD(2) [OF inv] by blast
  have f: "in_flight ?s = insert p (in_flight s)" using flight_begins [of ?s s t "Push_Begun p" p] pc by simp
  have ok: "pc_ok ?s c" if "pc_ok s c" for c using that by (cases c) (auto simp: seen_at_def)
  have new: "p \<notin> in_flight s" using ps p by (auto simp: fl_partition_def)
  show ?thesis
  proof (rule fl_invI)
    show "fl_partition n ?s ps" using ps p unfolding fl_partition_def f by auto
    show "pc_ok ?s (fl_pc ?s u)" for u using ok fl_invD(3) [OF inv, of u] by simp
    show "one_pusher ?s" by (rule one_pusher_step [OF fl_invD(4) [OF inv], of _ t "Push_Begun p"]) (simp_all add: new)
  qed (use fl_invD(1) [OF inv] in simp)
qed

lemma fl_inv_link:
  assumes inv: "fl_inv n s" and pc: "fl_pc s t = Push_Loaded p h tg"
  shows "fl_inv n (s\<lparr>fl_next := (fl_next s)(p := h), fl_pc := (fl_pc s)(t := Push_Linked p h tg)\<rparr>)" (is "fl_inv n ?s")
proof -
  obtain ps where ps: "fl_partition n s ps" using fl_invD(2) [OF inv] by blast
  have push: "pushing (fl_pc s t) = Some p" using pc by simp
  then have "p \<in> in_flight s" by (auto simp: in_flight_def)
  then have notin: "p \<notin> set ps" using ps by (auto simp: fl_partition_def)
  have f: "in_flight ?s = in_flight s" using flight_same [of ?s s t "Push_Linked p h tg"] pc by simp
  have keep: "pc_ok ?s c" if "pc_ok s c" "pushing c \<noteq> Some p" for c
  proof (rule pc_ok_same [OF _ _ that(1), of _ "set ps"])
    show "q \<in> set ps" if "fl_head s = Some q" for q using ps that by (cases ps) (auto simp: fl_partition_def)
  qed (use notin that(2) in auto)
  have "seen_at s h tg None" using fl_invD(3) [OF inv, of t] pc by simp
  then have linked: "pc_ok ?s (Push_Linked p h tg)" by (auto simp: seen_at_def)
  show ?thesis
  proof (rule fl_invI)
    show "fl_partition n ?s ps" using ps notin unfolding fl_partition_def f by (simp add: chain_write)
    show "pc_ok ?s (fl_pc ?s u)" for u
    proof (cases "u = t")
      case False
      then have "pushing (fl_pc s u) \<noteq> Some p" using one_pusherD [OF fl_invD(4) [OF inv] push] by metis
      then show ?thesis using keep fl_invD(3) [OF inv, of u] False by simp
    qed (use linked in simp)
    show "one_pusher ?s" by (rule one_pusher_step [OF fl_invD(4) [OF inv], of _ t "Push_Linked p h tg"]) (simp_all add: pc)
  qed (use fl_invD(1) [OF inv] in simp)
qed

lemma fl_inv_push:
  assumes inv: "fl_inv n s" and pc: "fl_pc s t = Push_Linked p h tg" and head: "fl_head s = h" "fl_tag s = tg"
  shows "fl_inv n (s\<lparr>fl_head := Some p, fl_tag := tg + 1, fl_pc := (fl_pc s)(t := Fl_Idle), fl_updates := Suc (fl_updates s)\<rparr>)"
    (is "fl_inv n ?s")
proof -
  obtain ps where ps: "fl_partition n s ps" using fl_invD(2) [OF inv] by blast
  have nx: "fl_next s p = h" using fl_invD(3) [OF inv, of t] pc by simp
  have push: "pushing (fl_pc s t) = Some p" using pc by simp
  then have p: "p \<in> in_flight s" by (auto simp: in_flight_def)
  have f: "in_flight ?s = in_flight s - {p}" using flight_ends [OF fl_invD(4) [OF inv] _ push, of ?s Fl_Idle] by simp
  show ?thesis
  proof (rule fl_invI)
    show "fl_partition n ?s (p # ps)" using ps p nx head unfolding fl_partition_def f by auto
    show "pc_ok ?s (fl_pc ?s u)" for u using pc_ok_updated [of ?s s "fl_pc s u"] fl_invD(3) [OF inv, of u] by simp
    show "one_pusher ?s" by (rule one_pusher_step [OF fl_invD(4) [OF inv], of _ t Fl_Idle]) simp_all
  qed (use fl_invD(1) [OF inv] head in simp)
qed

lemma pop_seen_ok: "fl_tag s = of_nat (fl_updates s) \<Longrightarrow> pc_ok s (pop_seen (fl_head s) (fl_tag s))"
  using seen_now [of s] by (cases "fl_head s") (simp_all add: pop_seen_def)

lemma pushing_pop_seen: "pushing (pop_seen h tg) = None"
  by (cases h) (simp_all add: pop_seen_def)

lemma fl_step_inv:
  assumes "fl_step s s'" "fl_inv n s" "fl_updates s < 2 ^ 64"
  shows "fl_inv n s'"
  using assms(1)
proof (rule fl_step_cases)
  fix t assume h: "s' = s\<lparr>fl_pc := (fl_pc s)(t := pop_seen (fl_head s) (fl_tag s))\<rparr>" "fl_pc s t = Fl_Idle"
  show ?thesis unfolding h(1)
    by (rule fl_inv_pc [OF assms(2)]) (simp_all add: h(2) pushing_pop_seen pop_seen_ok [OF fl_invD(1) [OF assms(2)]])
next
  fix t p tg assume h: "s' = s\<lparr>fl_pc := (fl_pc s)(t := Pop_Read p tg (fl_next s p))\<rparr>" "fl_pc s t = Pop_Loaded p tg"
  have "pc_ok s (Pop_Loaded p tg)" using fl_invD(3) [OF assms(2), of t] h(2) by simp
  then have "pc_ok s (Pop_Read p tg (fl_next s p))" by (auto simp: seen_at_def)
  then show ?thesis using h fl_inv_pc [OF assms(2)] by simp
next
  fix t p tg n assume "fl_pc s t = Pop_Read p tg n" "s' = s\<lparr>fl_pc := (fl_pc s)(t := pop_seen (fl_head s) (fl_tag s))\<rparr>"
  then show ?thesis
    using fl_inv_pc [OF assms(2), of "pop_seen (fl_head s) (fl_tag s)" t] pop_seen_ok [OF fl_invD(1) [OF assms(2)]]
    by (simp add: pushing_pop_seen)
next
  fix t p assume "fl_pc s t = Push_Begun p" "s' = s\<lparr>fl_pc := (fl_pc s)(t := Push_Loaded p (fl_head s) (fl_tag s))\<rparr>"
  then show ?thesis
    using fl_inv_pc [OF assms(2), of "Push_Loaded p (fl_head s) (fl_tag s)" t] seen_now [OF fl_invD(1) [OF assms(2)]] by simp
next
  fix t p h tg assume "fl_pc s t = Push_Linked p h tg" "s' = s\<lparr>fl_pc := (fl_pc s)(t := Push_Loaded p (fl_head s) (fl_tag s))\<rparr>"
  then show ?thesis
    using fl_inv_pc [OF assms(2), of "Push_Loaded p (fl_head s) (fl_tag s)" t] seen_now [OF fl_invD(1) [OF assms(2)]] by simp
qed (simp_all only: fl_inv_pop [OF assms(2) _ _ _ assms(3)] fl_inv_begin [OF assms(2)] fl_inv_link [OF assms(2)] fl_inv_push [OF assms(2)])

subsection \<open>Refinement of a stack\<close>

text \<open>The stack and the set of nodes handed out. A node that is returned first leaves the hands of its owner
  and is put on the stack later.\<close>

inductive stack_step :: "nat list \<times> nat set \<Rightarrow> nat list \<times> nat set \<Rightarrow> bool" where
  stay: "stack_step (ps, held) (ps, held)"
| take: "stack_step (p # ps, held) (ps, insert p held)"
| give_back: "p \<in> held \<Longrightarrow> stack_step (ps, held) (ps, held - {p})"
| put: "p \<notin> set ps \<Longrightarrow> p \<notin> held \<Longrightarrow> stack_step (ps, held) (p # ps, held)"

lemma step_updates: "fl_step s s' \<Longrightarrow> fl_updates s \<le> fl_updates s'"
  by (induction rule: fl_step.induct) simp_all

lemma partition_chain: "fl_partition n s ps \<Longrightarrow> chain (fl_next s) (fl_head s) ps"
  by (simp add: fl_partition_def)

lemma fl_step_refines:
  assumes "fl_step s s'" "fl_inv n s" "fl_updates s < 2 ^ 64" "fl_partition n s ps" "fl_partition n s' ps'"
  shows "stack_step (ps, fl_held s) (ps', fl_held s')"
proof -
  note ch = partition_chain [OF assms(4)] and ch' = partition_chain [OF assms(5)]
  have same: "stack_step (ps, fl_held s) (ps', fl_held s)" if "chain (fl_next s) (fl_head s) ps'"
    using chain_unique [OF ch that] by (simp add: stay)
  from assms(1) show ?thesis
  proof (rule fl_step_cases, goal_cases)
    case (3 t p nx)
    have "fl_tag s = of_nat (fl_updates s)" using fl_invD(1) [OF assms(2)] by simp
    then have "fl_next s p = nx"
      using tag_current [OF assms(3), of "Some p" "Some nx"] fl_invD(3) [OF assms(2), of t] 3(2) by simp
    then obtain qs where "ps = p # qs" "chain (fl_next s) nx qs" using chain_head [of "fl_next s" p ps] ch 3(3) by auto
    moreover have "chain (fl_next s) nx ps'" using ch' 3(1) by simp
    ultimately have "ps = p # ps'" using chain_unique by blast
    then show ?case using 3(1) by (simp add: stack_step.take)
  next
    case (5 t p)
    have "ps' = ps" using ch ch' 5(1) chain_unique by auto
    then show ?case using 5 by (simp add: give_back)
  next
    case (7 t p h tg)
    have "pushing (fl_pc s t) = Some p" using 7(2) by simp
    then have "p \<notin> set ps" using assms(4) by (auto simp: fl_partition_def in_flight_def)
    then have "chain (fl_next s') (fl_head s') ps" using ch 7(1) by (simp add: chain_write)
    then have "ps' = ps" using ch' chain_unique by blast
    then show ?case using 7(1) by (simp add: stay)
  next
    case (8 t p)
    have "fl_next s p = fl_head s" using fl_invD(3) [OF assms(2), of t] 8(2) by simp
    then have "chain (fl_next s') (fl_head s') (p # ps)" using ch 8(1) by simp
    then have "ps' = p # ps" using ch' chain_unique by blast
    moreover have "pushing (fl_pc s t) = Some p" using 8(2) by simp
    then have "p \<notin> set ps" "p \<notin> fl_held s" using assms(4) by (auto simp: fl_partition_def in_flight_def)
    ultimately show ?case using 8(1) by (simp add: put)
  qed (use ch' same in simp_all)
qed

lemma fl_reachable_inv: "fl_step\<^sup>*\<^sup>* (fl_initial n) s \<Longrightarrow> fl_updates s < 2 ^ 64 \<Longrightarrow> fl_inv n s"
proof (induction rule: rtranclp_induct)
  case base
  then show ?case by (simp add: fl_initial_inv)
next
  case (step s s')
  then show ?case using step_updates [OF step.hyps(2)] fl_step_inv [OF step.hyps(2)] by simp
qed

subsection \<open>Properties\<close>

text \<open>
  C12 Whatever the threads do, as long as the list has been updated fewer than \<open>2^64\<close> times, every slab of the pool
  is either on the free list, or handed out, or being returned by exactly one thread: no slab is lost
  and none is handed out twice. (The bound is the one of the tag: a thread that slept through \<open>2^64\<close>
  updates could take an old head for the current one.)
\<close>

theorem free_list_sound:
  assumes "fl_step\<^sup>*\<^sup>* (fl_initial n) s" "fl_updates s < 2 ^ 64"
  shows "(\<exists>ps. fl_partition n s ps) \<and>
    (\<forall>t u p. pushing (fl_pc s t) = Some p \<longrightarrow> pushing (fl_pc s u) = Some p \<longrightarrow> t = u)"
  using fl_reachable_inv [OF assms] unfolding fl_inv_def one_pusher_def by blast

text \<open>
  C13 The lock-free list implements a stack: every step of a thread is a step of the stack and of the set of slabs
  handed out (a pop takes the top, a push puts the node on top), or changes neither.
\<close>

theorem free_list_refines_stack:
  assumes "fl_step\<^sup>*\<^sup>* (fl_initial n) s" "fl_step s s'" "fl_updates s' < 2 ^ 64" "fl_partition n s ps"
  shows "\<exists>ps'. fl_partition n s' ps' \<and> stack_step (ps, fl_held s) (ps', fl_held s')"
proof -
  have b: "fl_updates s < 2 ^ 64" using step_updates [OF assms(2)] assms(3) by simp
  note inv = fl_reachable_inv [OF assms(1) b]
  obtain ps' where "fl_partition n s' ps'" using fl_invD(2) [OF fl_step_inv [OF assms(2) inv b]] by blast
  then show ?thesis using fl_step_refines [OF assms(2) inv b assms(4)] by blast
qed

text \<open>Two slabs; a thread takes the first and gives it back while another thread is about to take it.\<close>

definition fl_demo :: "free_list" where
  "fl_demo = (fl_initial 2)\<lparr>fl_head := Some 1, fl_tag := 1, fl_held := {0}, fl_updates := 1,
     fl_pc := (\<lambda>_. Fl_Idle)(8 := Pop_Loaded 0 0)\<rparr>"

lemma fl_demo_reachable: "fl_step\<^sup>*\<^sup>* (fl_initial 2) fl_demo"
proof -
  let ?s0 = "fl_initial 2"
  let ?s1 = "?s0\<lparr>fl_pc := (\<lambda>_. Fl_Idle)(8 := Pop_Loaded 0 0)\<rparr>"
  let ?s2 = "?s1\<lparr>fl_pc := (fl_pc ?s1)(7 := Pop_Loaded 0 0)\<rparr>"
  let ?s3 = "?s2\<lparr>fl_pc := (fl_pc ?s2)(7 := Pop_Read 0 0 (Some 1))\<rparr>"
  have i: "fl_pc ?s0 t = Fl_Idle" "fl_head ?s0 = Some 0" "fl_tag ?s0 = 0" "fl_next ?s0 0 = Some 1" for t
    by (simp_all add: fl_initial_def)
  have "fl_step ?s0 (?s0\<lparr>fl_pc := (fl_pc ?s0)(8 := pop_seen (fl_head ?s0) (fl_tag ?s0))\<rparr>)" by (rule pop_load) (rule i)
  then have "fl_step ?s0 ?s1" by (simp add: i pop_seen_def) (simp add: fl_initial_def)
  moreover have "fl_step ?s1 ?s2" using pop_load [of ?s1 7] by (simp add: i pop_seen_def)
  moreover have "fl_step ?s2 ?s3" using pop_read [of ?s2 7 0 0] by (simp add: i)
  moreover have "fl_step ?s3 fl_demo"
    using pop_swap [of ?s3 7 0 0 "Some 1"] by (simp add: i fl_demo_def) (simp add: fl_initial_def fun_upd_twist fun_upd_idem)
  ultimately show ?thesis by (metis (no_types, lifting) converse_rtranclp_into_rtranclp rtranclp.rtrancl_refl)
qed

theorem free_list_sound_witness:
  "(\<exists>ps. fl_partition 2 fl_demo ps) \<and> fl_held fl_demo = {0}"
  using free_list_sound [OF fl_demo_reachable] by (simp add: fl_demo_def)

theorem free_list_refines_stack_witness:
  "\<exists>ps'. fl_partition 2 (fl_demo\<lparr>fl_held := {}, fl_pc := (fl_pc fl_demo)(7 := Push_Begun 0)\<rparr>) ps' \<and> stack_step ([1], {0}) (ps', {})"
proof -
  have s: "fl_step fl_demo (fl_demo\<lparr>fl_held := fl_held fl_demo - {0}, fl_pc := (fl_pc fl_demo)(7 := Push_Begun 0)\<rparr>)"
    by (rule push_begin) (simp_all add: fl_demo_def)
  have e: "fl_held fl_demo = {0}" "fl_updates fl_demo = 1" by (simp_all add: fl_demo_def)
  have "in_flight fl_demo = {}" by (auto simp: in_flight_def fl_demo_def split: if_splits)
  then have p: "fl_partition 2 fl_demo [1]" by (auto simp: fl_partition_def fl_demo_def fl_initial_def)
  from free_list_refines_stack [OF fl_demo_reachable s _ p] e show ?thesis by simp
qed

end
