(* ===== verification/Memory_Pool.thy ===== *)
theory Memory_Pool
  imports Prelude Free_List
begin

text \<open>
  The memory pools (\<open>memory/arena_allocator\<close>, \<open>memory/gpu_pool\<close>, \<open>memory/pinned_pool\<close>) and the counted handles
  of their slabs (\<open>memory/pooled_ptr.h\<close>, \<open>memory/memory_pool.h\<close>). Operations are atomic here; the free list is
  the stack of which \<open>Free_List\<close> shows that the lock-free list implements it. \<open>None\<close> is undefined
  behaviour. The allocators of CUDA are a parameter that says whether they succeed.
\<close>

unbundle bit_operations_syntax

subsection \<open>The arena\<close>

record arena =
  ar_capacity :: "64 word"
  ar_offset :: "64 word"

definition new_arena :: "64 word \<Rightarrow> arena" where
  "new_arena c = \<lparr>ar_capacity = c, ar_offset = 0\<rparr>"

definition align_up :: "64 word \<Rightarrow> 64 word \<Rightarrow> 64 word" where
  "align_up off a = (off + a - 1) AND NOT (a - 1)"

text \<open>The offset of the new object of the given size and alignment.\<close>

definition arena_construct :: "64 word \<Rightarrow> 64 word \<Rightarrow> arena \<Rightarrow> 64 word result \<times> arena" where
  "arena_construct sz a ar =
     (let off = align_up (ar_offset ar) a in
      if off + sz \<le> ar_capacity ar then (Inr off, ar\<lparr>ar_offset := off + sz\<rparr>)
      else (Inl (ErrorInfo Memory_ArenaExhausted ''ArenaAllocator capacity exhausted''), ar))"

primrec construct_all :: "(64 word \<times> 64 word) list \<Rightarrow> arena \<Rightarrow> (64 word \<times> 64 word \<times> 64 word) list \<times> arena" where
  "construct_all [] ar = ([], ar)"
| "construct_all (r # rs) ar =
     (case arena_construct (fst r) (snd r) ar of
        (Inl _, ar1) \<Rightarrow> construct_all rs ar1
      | (Inr off, ar1) \<Rightarrow> (let (bs, ar2) = construct_all rs ar1 in ((off, r) # bs, ar2)))"

subsection \<open>Pools and handles\<close>

text \<open>A handle: address in the region of the pool, size, and the node that holds its counter. The empty handle is
  \<open>None\<close>.\<close>

record pool_handle =
  hd_data :: "64 word"
  hd_size :: "64 word"
  hd_node :: nat

text \<open>\<open>mp_free\<close> is the free list, \<open>mp_refs\<close> the counters of the nodes (\<open>std::atomic<int>\<close>: 32 bits that wrap). The handles
  of the program are numbered.\<close>

record memory_pool =
  mp_slab_size :: "64 word"
  mp_slab_count :: nat
  mp_free :: "nat list"
  mp_refs :: "nat \<Rightarrow> 32 word"
  mp_available :: nat
  mp_handles :: "nat \<Rightarrow> pool_handle option"

text \<open>The arena provides one node for every slab.\<close>

primrec construct_nodes :: "nat \<Rightarrow> 64 word \<Rightarrow> 64 word \<Rightarrow> arena \<Rightarrow> unit result \<times> arena" where
  "construct_nodes 0 sz a ar = (Inr (), ar)"
| "construct_nodes (Suc n) sz a ar =
     (case arena_construct sz a ar of (Inl err, ar1) \<Rightarrow> (Inl err, ar1) | (Inr _, ar1) \<Rightarrow> construct_nodes n sz a ar1)"

definition pool_create ::
  "string \<Rightarrow> (64 word \<Rightarrow> string + unit) \<Rightarrow> 64 word \<Rightarrow> 64 word \<Rightarrow> 64 word \<Rightarrow> 64 word \<Rightarrow> arena \<Rightarrow> memory_pool result \<times> arena" where
  "pool_create failed allocate node_size node_align sz count ar =
     (case allocate (sz * count) of
        Inl m \<Rightarrow> (Inl (ErrorInfo Memory_PoolExhausted (failed @ m)), ar)
      | Inr _ \<Rightarrow>
          (case construct_nodes (unat count) node_size node_align ar of
             (Inl err, ar1) \<Rightarrow> (Inl err, ar1)
           | (Inr _, ar1) \<Rightarrow>
               (Inr \<lparr>mp_slab_size = sz, mp_slab_count = unat count, mp_free = [0..<unat count], mp_refs = (\<lambda>_. 0),
                     mp_available = unat count, mp_handles = (\<lambda>_. None)\<rparr>, ar1)))"

definition gpu_pool_create where
  "gpu_pool_create = pool_create ''cudaMalloc failed: ''"

definition pinned_pool_create where
  "pinned_pool_create = pool_create ''cudaHostAlloc failed: ''"

definition slab_address :: "memory_pool \<Rightarrow> nat \<Rightarrow> 64 word" where
  "slab_address p i = of_nat i * mp_slab_size p"

definition pool_acquire :: "64 word \<Rightarrow> memory_pool \<Rightarrow> pool_handle result \<times> memory_pool" where
  "pool_acquire bytes p =
     (if mp_slab_size p < bytes
      then (Inl (ErrorInfo Memory_RequestExceedsSlabSize ''requested bytes exceed slab_size''), p)
      else case mp_free p of
             [] \<Rightarrow> (Inl (ErrorInfo Memory_PoolExhausted ''free list is empty''), p)
           | i # is \<Rightarrow>
               (Inr \<lparr>hd_data = slab_address p i, hd_size = mp_slab_size p, hd_node = i\<rparr>,
                p\<lparr>mp_free := is, mp_available := mp_available p - 1, mp_refs := (mp_refs p)(i := 1)\<rparr>))"

text \<open>\<open>DropReference\<close>: the handle is cleared; was it the last one?\<close>

definition drop_reference :: "nat \<Rightarrow> memory_pool \<Rightarrow> bool \<times> memory_pool" where
  "drop_reference h p =
     (case mp_handles p h of
        None \<Rightarrow> (False, p)
      | Some x \<Rightarrow> (mp_refs p (hd_node x) = 1,
          p\<lparr>mp_refs := (mp_refs p)(hd_node x := mp_refs p (hd_node x) - 1), mp_handles := (mp_handles p)(h := None)\<rparr>))"

text \<open>The node is found by dividing the address by the size of a slab.\<close>

definition pool_release :: "nat \<Rightarrow> memory_pool \<Rightarrow> memory_pool option" where
  "pool_release h p =
     (case mp_handles p h of
        None \<Rightarrow> Some p
      | Some x \<Rightarrow>
          (let (was_last, p1) = drop_reference h p in
           if \<not> was_last then Some p1
           else if mp_slab_size p = 0 then None
           else let i = unat (hd_data x div mp_slab_size p) in
             if mp_slab_count p \<le> i then None
             else Some (p1\<lparr>mp_free := i # mp_free p1, mp_available := mp_available p1 + 1\<rparr>)))"

definition add_reference :: "pool_handle option \<Rightarrow> memory_pool \<Rightarrow> memory_pool" where
  "add_reference x p =
     (case x of None \<Rightarrow> p | Some y \<Rightarrow> p\<lparr>mp_refs := (mp_refs p)(hd_node y := mp_refs p (hd_node y) + 1)\<rparr>)"

text \<open>The pool of pinned memory repeats both operations.\<close>

definition pinned_acquire :: "64 word \<Rightarrow> memory_pool \<Rightarrow> pool_handle result \<times> memory_pool" where
  "pinned_acquire = pool_acquire"

definition pinned_release :: "nat \<Rightarrow> memory_pool \<Rightarrow> memory_pool option" where
  "pinned_release = pool_release"

text \<open>What a program does with its handles: acquire into a new handle, copy and move construction of a new handle
  (the target is empty before), copy and move assignment, and the release of a handle by hand or by
  its destructor.\<close>

datatype handle_op = Acquire_Into nat "64 word" | Copy_Construct nat nat | Move_Construct nat nat
  | Copy_Assign nat nat | Move_Assign nat nat | Release_Handle nat

definition set_handle :: "nat \<Rightarrow> pool_handle option \<Rightarrow> memory_pool \<Rightarrow> memory_pool" where
  "set_handle h x p = p\<lparr>mp_handles := (mp_handles p)(h := x)\<rparr>"

fun handle_step :: "handle_op \<Rightarrow> memory_pool \<Rightarrow> memory_pool option" where
  "handle_step (Acquire_Into h bytes) p =
     (case pool_acquire bytes p of (Inl _, p1) \<Rightarrow> Some p1 | (Inr x, p1) \<Rightarrow> Some (set_handle h (Some x) p1))"
| "handle_step (Copy_Construct h g) p = Some (set_handle h (mp_handles p g) (add_reference (mp_handles p g) p))"
| "handle_step (Move_Construct h g) p = Some (set_handle g None (set_handle h (mp_handles p g) p))"
| "handle_step (Copy_Assign h g) p =
     (if h = g then Some p
      else map_option (\<lambda>p1. set_handle h (mp_handles p1 g) (add_reference (mp_handles p1 g) p1)) (pool_release h p))"
| "handle_step (Move_Assign h g) p =
     (if h = g then Some p
      else map_option (\<lambda>p1. set_handle g None (set_handle h (mp_handles p1 g) p1)) (pool_release h p))"
| "handle_step (Release_Handle h) p = pool_release h p"

text \<open>A constructor runs on an object that holds nothing yet. A program has fewer than \<open>2^31\<close> handles, so that no
  counter leaves the range of \<open>int\<close>.\<close>

fun op_allowed :: "handle_op \<Rightarrow> memory_pool \<Rightarrow> bool" where
  "op_allowed (Acquire_Into h bytes) p = (h < 2147483647 \<and> mp_handles p h = None)"
| "op_allowed (Copy_Construct h g) p = (h < 2147483647 \<and> mp_handles p h = None \<and> h \<noteq> g)"
| "op_allowed (Move_Construct h g) p = (h < 2147483647 \<and> mp_handles p h = None \<and> h \<noteq> g)"
| "op_allowed (Copy_Assign h g) p = (h < 2147483647)"
| "op_allowed (Move_Assign h g) p = (h < 2147483647)"
| "op_allowed (Release_Handle h) p = True"

fun handle_run :: "handle_op list \<Rightarrow> memory_pool \<Rightarrow> memory_pool option" where
  "handle_run [] p = Some p"
| "handle_run (a # as) p = Option.bind (handle_step a p) (handle_run as)"

fun run_allowed :: "handle_op list \<Rightarrow> memory_pool \<Rightarrow> bool" where
  "run_allowed [] p = True"
| "run_allowed (a # as) p = (op_allowed a p \<and> (case handle_step a p of None \<Rightarrow> True | Some p1 \<Rightarrow> run_allowed as p1))"

subsection \<open>Alignment\<close>

lemma word_and_not_mask: "(x :: 64 word) AND NOT (mask k) = x - take_bit k x"
proof -
  have "(x AND NOT (mask k)) + (x AND mask k) = (x AND NOT (mask k)) OR (x AND mask k)"
    by (rule disjunctive_add) (simp add: bit_simps)
  also have "\<dots> = x" by (rule bit_word_eqI) (auto simp: bit_simps)
  finally show ?thesis by (simp add: take_bit_eq_mask algebra_simps)
qed

lemma align_up_unat:
  assumes "unat off + 2 ^ k \<le> 2 ^ 63" "k < 63"
  shows "unat (align_up off (2 ^ k)) mod 2 ^ k = 0" "unat off \<le> unat (align_up off (2 ^ k))"
    "unat (align_up off (2 ^ k)) < unat off + 2 ^ k"
proof -
  have lt: "(2 :: nat) ^ k < 2 ^ 64" using assms(2) by (intro power_strict_increasing) simp_all
  have "(2 ^ k :: 64 word) = of_nat (2 ^ k)" by simp
  then have p: "unat (2 ^ k :: 64 word) = 2 ^ k" using lt by (simp only: unat_of_nat) simp
  have "unat (off + 2 ^ k) = (unat off + 2 ^ k) mod 2 ^ 64" by (simp add: unat_word_ariths p)
  then have e: "unat (off + 2 ^ k) = unat off + 2 ^ k" using assms(1) by simp
  have "off + 2 ^ k \<noteq> 0" using e by (metis add_is_0 power_not_zero unat_0 zero_neq_numeral)
  then have s: "unat (off + 2 ^ k - 1) = unat off + 2 ^ k - 1" using unat_minus_one e by metis
  define w n where "w = off + 2 ^ k - 1" and "n = unat off + 2 ^ k - 1"
  have w: "unat w = n" using s by (simp add: w_def n_def)
  have "unat (take_bit k w) = take_bit k (unat w)" by (rule unsigned_take_bit_eq)
  then have t: "unat (take_bit k w) = n mod 2 ^ k" by (metis w take_bit_eq_mod)
  then have "take_bit k w \<le> w" using w by (simp add: word_le_nat_alt)
  then have "unat (w - take_bit k w) = n - n mod 2 ^ k" using t w by (simp add: unat_sub)
  moreover have "align_up off (2 ^ k) = w - take_bit k w"
    unfolding align_up_def word_and_not_mask [symmetric] by (simp add: mask_eq_exp_minus_1 w_def)
  ultimately have u: "unat (align_up off (2 ^ k)) = n - n mod 2 ^ k" by simp
  show "unat (align_up off (2 ^ k)) mod 2 ^ k = 0" unfolding u by (simp add: minus_mod_eq_mult_div)
  have "n mod 2 ^ k < 2 ^ k" "n mod 2 ^ k \<le> n" by simp_all
  then show "unat off \<le> unat (align_up off (2 ^ k))" "unat (align_up off (2 ^ k)) < unat off + 2 ^ k"
    unfolding u n_def by linarith+
qed

definition arena_ok :: "arena \<Rightarrow> bool" where
  "arena_ok ar \<longleftrightarrow> ar_offset ar \<le> ar_capacity ar \<and> unat (ar_capacity ar) \<le> 2 ^ 62"

definition request_ok :: "64 word \<times> 64 word \<Rightarrow> bool" where
  "request_ok r \<longleftrightarrow> unat (fst r) \<le> 2 ^ 62 \<and> (\<exists>k < 62. snd r = 2 ^ k)"

text \<open>An object in its place: above the old offset, aligned, within the arena.\<close>

definition block_ok :: "arena \<Rightarrow> 64 word \<times> 64 word \<times> 64 word \<Rightarrow> bool" where
  "block_ok ar b \<longleftrightarrow> (case b of (off, sz, a) \<Rightarrow>
     unat (ar_offset ar) \<le> unat off \<and> unat off + unat sz \<le> unat (ar_capacity ar) \<and> unat off mod unat a = 0)"

lemma two_power_unat: "k < 64 \<Longrightarrow> unat (2 ^ k :: 64 word) = 2 ^ k"
proof -
  assume "k < 64"
  then have lt: "(2 :: nat) ^ k < 2 ^ 64" by (intro power_strict_increasing) simp_all
  have "(2 ^ k :: 64 word) = of_nat (2 ^ k)" by simp
  then show ?thesis using lt by (simp only: unat_of_nat) simp
qed

lemma arena_construct_ok:
  assumes "arena_ok ar" "request_ok r" "arena_construct (fst r) (snd r) ar = (Inr off, ar1)"
  shows "block_ok ar (off, r) \<and> arena_ok ar1 \<and> ar_capacity ar1 = ar_capacity ar \<and>
    unat (ar_offset ar1) = unat off + unat (fst r)"
proof -
  obtain k where k: "k < 62" "snd r = 2 ^ k" using assms(2) by (auto simp: request_ok_def)
  have o: "unat (ar_offset ar) \<le> 2 ^ 62" "unat (ar_capacity ar) \<le> 2 ^ 62"
    using assms(1) by (simp_all add: arena_ok_def word_le_nat_alt)
  have pw: "(2 :: nat) ^ k \<le> 2 ^ 61" using k(1) by (intro power_increasing) simp_all
  then have "unat (ar_offset ar) + 2 ^ k \<le> 2 ^ 63" using o by simp
  note al = align_up_unat [OF this, unfolded k(2) [symmetric]]
  have off: "off = align_up (ar_offset ar) (snd r)" "off + fst r \<le> ar_capacity ar" "ar1 = ar\<lparr>ar_offset := off + fst r\<rparr>"
    using assms(3) by (auto simp: arena_construct_def Let_def split: if_splits)
  have "unat off + unat (fst r) < 2 ^ 64" using al(3) k(1) off(1) o pw assms(2) by (simp add: request_ok_def)
  then have "unat (off + fst r) = unat off + unat (fst r)" by (simp add: unat_word_ariths)
  then show ?thesis
    using al(1,2) off k assms(1) two_power_unat [of k] by (simp add: block_ok_def arena_ok_def word_le_nat_alt split_beta)
qed

lemma construct_all_ok:
  "list_all request_ok rs \<Longrightarrow> arena_ok ar \<Longrightarrow>
    list_all (block_ok ar) (fst (construct_all rs ar)) \<and>
    sorted_wrt (\<lambda>b c. unat (fst b) + unat (fst (snd b)) \<le> unat (fst c)) (fst (construct_all rs ar))"
proof (induction rs arbitrary: ar)
  case (Cons r rs)
  obtain res ar1 where c: "arena_construct (fst r) (snd r) ar = (res, ar1)" by fastforce
  show ?case
  proof (cases res)
    case (Inl err)
    then have "ar1 = ar" using c by (auto simp: arena_construct_def Let_def split: if_splits)
    then show ?thesis using Cons c Inl by simp
  next
    case (Inr off)
    have r: "request_ok r" using Cons.prems by simp
    note ok = arena_construct_ok [OF Cons.prems(2) r c [unfolded Inr]]
    obtain bs ar2 where bs: "construct_all rs ar1 = (bs, ar2)" by fastforce
    have ih: "list_all (block_ok ar1) bs" "sorted_wrt (\<lambda>b c. unat (fst b) + unat (fst (snd b)) \<le> unat (fst c)) bs"
      using Cons.IH [of ar1] Cons.prems(1) ok bs by simp_all
    have "unat (ar_offset ar) \<le> unat off" using ok by (simp add: block_ok_def split_beta)
    then have "list_all (block_ok ar) bs" using ih(1) ok by (auto simp: list_all_iff block_ok_def)
    moreover have "\<forall>b \<in> set bs. unat off + unat (fst r) \<le> unat (fst b)"
      using ih(1) ok by (auto simp: list_all_iff block_ok_def)
    ultimately show ?thesis using ih(2) ok c Inr bs by simp
  qed
qed simp

subsection \<open>The invariant of a pool\<close>

definition users :: "memory_pool \<Rightarrow> nat \<Rightarrow> nat set" where
  "users p i = {h. \<exists>x. mp_handles p h = Some x \<and> hd_node x = i}"

definition handle_ok :: "memory_pool \<Rightarrow> pool_handle \<Rightarrow> bool" where
  "handle_ok p x \<longleftrightarrow> hd_node x < mp_slab_count p \<and> hd_data x = slab_address p (hd_node x) \<and> hd_size x = mp_slab_size p"

definition pool_shape :: "memory_pool \<Rightarrow> bool" where
  "pool_shape p \<longleftrightarrow> mp_slab_size p \<noteq> 0 \<and> mp_slab_count p * unat (mp_slab_size p) < 2 ^ 64"

definition pool_ok :: "memory_pool \<Rightarrow> bool" where
  "pool_ok p \<longleftrightarrow> pool_shape p \<and> (\<forall>h. mp_handles p h \<noteq> None \<longrightarrow> h < 2147483647) \<and> (\<forall>h x. mp_handles p h = Some x \<longrightarrow> handle_ok p x) \<and>
     (\<forall>i < mp_slab_count p. mp_refs p i = of_nat (card (users p i))) \<and>
     distinct (mp_free p) \<and> set (mp_free p) = {i. i < mp_slab_count p \<and> users p i = {}} \<and>
     mp_available p = length (mp_free p)"

lemma slab_index:
  assumes "pool_shape p" "i < mp_slab_count p"
  shows "unat (slab_address p i div mp_slab_size p) = i"
proof -
  let ?s = "unat (mp_slab_size p)"
  have s: "?s \<noteq> 0" "mp_slab_count p * ?s < 2 ^ 64" using assms(1) by (simp_all add: pool_shape_def unat_eq_0)
  have "i * ?s < 2 ^ 64" using assms(2) s by (meson less_imp_le_nat mult_le_mono1 order.strict_trans1)
  moreover have "i \<le> i * ?s" using s(1) by simp
  ultimately have "i < 2 ^ 64" by linarith
  then have "unat (of_nat i :: 64 word) = i" by (simp add: unat_of_nat take_bit_nat_eq_self)
  then have "unat (slab_address p i) = i * ?s"
    using \<open>i * ?s < 2 ^ 64\<close> by (simp add: slab_address_def unat_word_ariths)
  then show ?thesis using s(1) by (simp add: unat_div)
qed

lemma users_set: "users (set_handle h x p) i =
    (if \<exists>y. x = Some y \<and> hd_node y = i then insert h (users p i) else users p i - {h})"
  by (auto simp: users_def set_handle_def)

lemma users_below: "pool_ok p \<Longrightarrow> users p i \<subseteq> {0..<2147483647}"
  by (auto simp: users_def pool_ok_def)

lemma users_finite: "pool_ok p \<Longrightarrow> finite (users p i)"
  using users_below finite_subset by blast

lemma users_card: "pool_ok p \<Longrightarrow> card (users p i) \<le> 2147483647"
  using card_mono [OF _ users_below [of p i]] by simp

lemma counter_exact:
  assumes "pool_ok p" "i < mp_slab_count p"
  shows "unat (mp_refs p i) = card (users p i)" "sint (mp_refs p i) = int (card (users p i))"
proof -
  have "mp_refs p i = of_nat (card (users p i))" using assms by (simp add: pool_ok_def)
  moreover have "card (users p i) \<le> 2147483647" by (rule users_card [OF assms(1)])
  ultimately show u: "unat (mp_refs p i) = card (users p i)" by (simp add: unat_of_nat take_bit_nat_eq_self)
  then have "uint (mp_refs p i) = int (card (users p i))" by (metis uint_nat)
  then show "sint (mp_refs p i) = int (card (users p i))"
    using \<open>card (users p i) \<le> 2147483647\<close> by (simp add: sint_uint signed_take_bit_int_eq_self)
qed

lemma acquire_ok:
  assumes "pool_ok p" "pool_acquire bytes p = (r, p1)"
  shows "case r of
      Inl _ \<Rightarrow> p1 = p \<and> (mp_slab_size p < bytes \<or> (\<forall>i < mp_slab_count p. users p i \<noteq> {}))
    | Inr x \<Rightarrow> users p (hd_node x) = {} \<and> handle_ok p x \<and> (mp_handles p h = None \<and> h < 2147483647 \<longrightarrow> pool_ok (set_handle h (Some x) p1))"
proof (cases r)
  case (Inl err)
  show ?thesis
  proof (cases "mp_free p")
    case Nil
    then have "{i. i < mp_slab_count p \<and> users p i = {}} = {}" using assms(1) by (simp add: pool_ok_def)
    then show ?thesis using assms(2) Inl Nil by (auto simp: pool_acquire_def split: if_splits)
  qed (use assms(2) Inl in \<open>auto simp: pool_acquire_def split: if_splits\<close>)
next
  case (Inr x)
  then obtain i where e: "mp_free p = i # tl (mp_free p)" "hd_node x = i" "hd_data x = slab_address p i" "hd_size x = mp_slab_size p"
    "p1 = p\<lparr>mp_free := tl (mp_free p), mp_available := mp_available p - 1, mp_refs := (mp_refs p)(i := 1)\<rparr>"
    using assms(2) by (auto simp: pool_acquire_def split: if_splits list.splits)
  have i: "i < mp_slab_count p" "users p i = {}" "i \<notin> set (tl (mp_free p))" "distinct (tl (mp_free p))"
    using assms(1) e(1) unfolding pool_ok_def by (metis (mono_tags, lifting) list.set_intros(1) mem_Collect_eq distinct.simps(2))+
  have hx: "handle_ok p x" using e i by (simp add: handle_ok_def)
  have "pool_ok (set_handle h (Some x) p1)" if h: "mp_handles p h = None" "h < 2147483647"
  proof -
    let ?q = "set_handle h (Some x) p1"
    have hu: "h \<notin> users p j" for j using h(1) by (simp add: users_def)
    have u: "users ?q j = (if j = i then {h} else users p j)" for j
      using hu e(2,5) i(2) by (auto simp: users_set) (auto simp: users_def)
    have fr: "set (tl (mp_free p)) = {j. j < mp_slab_count p \<and> users p j = {}} - {i}"
      using assms(1) e(1) i(3) unfolding pool_ok_def by (metis Diff_insert_absorb list.simps(15))
    have fin: "\<forall>g. mp_handles ?q g \<noteq> None \<longrightarrow> g < 2147483647" using assms(1) h(2) by (simp add: pool_ok_def set_handle_def e(5))
    have len: "mp_available p - 1 = length (tl (mp_free p))" using assms(1) by (simp add: pool_ok_def)
    have hk: "handle_ok ?q y = handle_ok p y" for y by (simp add: handle_ok_def set_handle_def slab_address_def e(5))
    show ?thesis unfolding pool_ok_def u
      using assms(1) hx hk fin i fr len
      by (auto simp: pool_ok_def set_handle_def e(5) pool_shape_def)
  qed
  then show ?thesis using Inr i hx e(2) by simp
qed

lemma release_ok:
  assumes "pool_ok p"
  shows "\<exists>p1. pool_release h p = Some p1 \<and> pool_ok p1 \<and> mp_handles p1 = (mp_handles p)(h := None) \<and>
    mp_slab_size p1 = mp_slab_size p \<and> mp_slab_count p1 = mp_slab_count p"
proof (cases "mp_handles p h")
  case None
  then show ?thesis using assms by (simp add: pool_release_def fun_upd_idem)
next
  case (Some x)
  let ?i = "hd_node x"
  have x: "?i < mp_slab_count p" "hd_data x = slab_address p ?i" using assms Some by (auto simp: pool_ok_def handle_ok_def)
  have shape: "pool_shape p" "mp_slab_size p \<noteq> 0" using assms by (auto simp: pool_ok_def pool_shape_def)
  have idx: "unat (hd_data x div mp_slab_size p) = ?i" using slab_index [OF shape(1) x(1)] x(2) by simp
  have hu: "h \<in> users p ?i" using Some by (simp add: users_def)
  have refs: "mp_refs p ?i = of_nat (card (users p ?i))" using assms x(1) by (simp add: pool_ok_def)
  have suc: "card (users p ?i) = Suc (card (users p ?i - {h}))" using card_Suc_Diff1 [OF users_finite [OF assms, of ?i] hu] by (rule sym)
  then have cardr: "of_nat (card (users p ?i - {h})) = mp_refs p ?i - 1" using refs by simp
  have last: "mp_refs p ?i = 1 \<longleftrightarrow> card (users p ?i) = 1" using counter_exact(1) [OF assms x(1)] by (metis unat_1 unsigned_word_eqI unsigned_1)
  define d where "d = p\<lparr>mp_refs := (mp_refs p)(?i := mp_refs p ?i - 1), mp_handles := (mp_handles p)(h := None)\<rparr>"
  have u: "users d j = users p j - {h}" for j by (auto simp: users_def d_def)
  have other: "users p j - {h} = users p j" if "j \<noteq> ?i" for j using Some that by (auto simp: users_def)
  have fin: "\<forall>g. mp_handles d g \<noteq> None \<longrightarrow> g < 2147483647" using assms by (simp add: d_def pool_ok_def)
  have hs: "mp_handles d g = Some y \<longrightarrow> handle_ok p y" for g y using assms by (auto simp: d_def pool_ok_def)
  have rf: "mp_refs d j = of_nat (card (users p j - {h}))" if "j < mp_slab_count p" for j
    using assms that cardr other [of j] by (cases "j = ?i") (simp_all add: d_def pool_ok_def)
  show ?thesis
  proof (cases "mp_refs p ?i = 1")
    case True
    then have one: "users p ?i = {h}" using hu last by (metis card_1_singletonE singletonD)
    let ?q = "d\<lparr>mp_free := ?i # mp_free p, mp_available := mp_available p + 1\<rparr>"
    have r: "pool_release h p = Some ?q"
      using Some True shape(2) idx x(1) by (simp add: pool_release_def drop_reference_def Let_def d_def)
    have uq: "users ?q j = users p j - {h}" for j using u [of j] by (simp add: users_def)
    have "?i \<notin> set (mp_free p)" using assms hu by (auto simp: pool_ok_def)
    moreover have "{j. j < mp_slab_count p \<and> users p j - {h} = {}} = insert ?i {j. j < mp_slab_count p \<and> users p j = {}}"
    proof (intro set_eqI iffI)
      fix j assume "j \<in> {j. j < mp_slab_count p \<and> users p j - {h} = {}}"
      then show "j \<in> insert ?i {j. j < mp_slab_count p \<and> users p j = {}}" using other [of j] by (cases "j = ?i") auto
    next
      fix j assume "j \<in> insert ?i {j. j < mp_slab_count p \<and> users p j = {}}"
      then show "j \<in> {j. j < mp_slab_count p \<and> users p j - {h} = {}}" using one x(1) by auto
    qed
    ultimately have "pool_ok ?q"
      using assms shape fin hs rf unfolding pool_ok_def uq
      by (simp add: d_def pool_shape_def handle_ok_def slab_address_def)
    then show ?thesis using r by (simp add: d_def)
  next
    case False
    have r: "pool_release h p = Some d"
      using Some False by (simp add: pool_release_def drop_reference_def Let_def d_def)
    have "users p ?i - {h} \<noteq> {}"
    proof
      assume "users p ?i - {h} = {}"
      then have "card (users p ?i - {h}) = 0" by (simp only: card.empty)
      then show False using suc last False by simp
    qed
    then have "{j. j < mp_slab_count p \<and> users p j - {h} = {}} = {j. j < mp_slab_count p \<and> users p j = {}}"
      using other hu by (metis (no_types, lifting) empty_Diff)
    then have "pool_ok d"
      using assms shape fin hs rf unfolding pool_ok_def u
      by (simp add: d_def pool_shape_def handle_ok_def slab_address_def)
    then show ?thesis using r by (simp add: d_def)
  qed
qed

lemma copy_ok:
  assumes "pool_ok p" "mp_handles p h = None" "h \<noteq> g" "h < 2147483647"
  shows "pool_ok (set_handle h (mp_handles p g) (add_reference (mp_handles p g) p))" (is "pool_ok ?q")
proof (cases "mp_handles p g")
  case None
  then have "?q = p" using assms(2) by (simp add: set_handle_def add_reference_def fun_upd_idem)
  then show ?thesis using assms(1) by simp
next
  case (Some x)
  let ?i = "hd_node x"
  have q: "?q = p\<lparr>mp_refs := (mp_refs p)(?i := mp_refs p ?i + 1), mp_handles := (mp_handles p)(h \<mapsto> x)\<rparr>"
    by (simp add: set_handle_def add_reference_def Some)
  have hx: "handle_ok p x" using assms(1) Some by (simp add: pool_ok_def)
  have h: "h \<notin> users p j" for j using assms(2) by (simp add: users_def)
  have u: "users ?q j = (if j = ?i then insert h (users p j) else users p j)" for j
    using assms(2) by (auto simp: users_def q)
  have rf: "mp_refs ?q j = of_nat (card (users ?q j))" if "j < mp_slab_count p" for j
    unfolding u using assms(1) that h users_finite [OF assms(1), of ?i] by (cases "j = ?i") (simp_all add: q pool_ok_def)
  have g: "g \<in> users p ?i" using Some by (simp add: users_def)
  then have e: "{j. j < mp_slab_count p \<and> users ?q j = {}} = {j. j < mp_slab_count p \<and> users p j = {}}"
    unfolding u by auto
  have fin: "\<forall>f. mp_handles ?q f \<noteq> None \<longrightarrow> f < 2147483647" using assms(1,4) by (simp add: q pool_ok_def)
  have hs: "mp_handles ?q g' = Some y \<longrightarrow> handle_ok ?q y" for g' y
    using assms(1) hx by (auto simp: q pool_ok_def handle_ok_def slab_address_def)
  have keep: "mp_slab_count ?q = mp_slab_count p" "mp_free ?q = mp_free p" "mp_available ?q = mp_available p"
    "pool_shape ?q = pool_shape p" by (simp_all add: q pool_shape_def)
  show ?thesis using assms(1) fin hs rf unfolding pool_ok_def keep e by simp
qed

lemma move_ok:
  assumes "pool_ok p" "mp_handles p h = None" "h \<noteq> g" "h < 2147483647"
  shows "pool_ok (set_handle g None (set_handle h (mp_handles p g) p))" (is "pool_ok ?q")
proof -
  have hs: "mp_handles ?q = (mp_handles p)(h := mp_handles p g, g := None)" by (simp add: set_handle_def)
  have u: "users ?q j = (if g \<in> users p j then insert h (users p j - {g}) else users p j)" for j
    unfolding users_def hs using assms(2,3) by (auto split: if_splits)
  have h: "h \<notin> users p j" for j using assms(2) by (simp add: users_def)
  have "card (users ?q j) = card (users p j)" for j
    unfolding u using h [of j] users_finite [OF assms(1), of j] card_Suc_Diff1 [of "users p j" g] assms(3) by auto
  moreover have "users ?q j = {} \<longleftrightarrow> users p j = {}" for j unfolding u by auto
  moreover have "\<forall>f. mp_handles ?q f \<noteq> None \<longrightarrow> f < 2147483647" unfolding hs using assms(1,4) by (simp add: pool_ok_def)
  moreover have "mp_handles ?q f = Some y \<longrightarrow> handle_ok p y" for f y
    unfolding hs using assms(1) by (auto simp: pool_ok_def split: if_splits)
  moreover have "handle_ok ?q y = handle_ok p y" "pool_shape ?q = pool_shape p" "mp_refs ?q = mp_refs p" "mp_free ?q = mp_free p"
    "mp_available ?q = mp_available p" "mp_slab_count ?q = mp_slab_count p" for y
    by (simp_all add: set_handle_def handle_ok_def slab_address_def pool_shape_def)
  ultimately show ?thesis using assms(1) unfolding pool_ok_def by simp
qed

lemma handle_step_ok:
  assumes "pool_ok p" "op_allowed a p"
  shows "\<exists>p1. handle_step a p = Some p1 \<and> pool_ok p1"
proof (cases a)
  case (Acquire_Into h bytes)
  obtain r p1 where "pool_acquire bytes p = (r, p1)" by fastforce
  then show ?thesis using acquire_ok [OF assms(1), of bytes r p1 h] assms Acquire_Into by (cases r) simp_all
next
  case (Copy_Assign h g)
  show ?thesis
  proof (cases "h = g")
    case False
    obtain p1 where "pool_release h p = Some p1" "pool_ok p1" "mp_handles p1 h = None" using release_ok [OF assms(1), of h] by auto
    then show ?thesis using copy_ok [of p1 h g] False Copy_Assign assms(2) by simp
  qed (use assms(1) Copy_Assign in simp)
next
  case (Move_Assign h g)
  show ?thesis
  proof (cases "h = g")
    case False
    obtain p1 where "pool_release h p = Some p1" "pool_ok p1" "mp_handles p1 h = None" using release_ok [OF assms(1), of h] by auto
    then show ?thesis using move_ok [of p1 h g] False Move_Assign assms(2) by simp
  qed (use assms(1) Move_Assign in simp)
next
  case (Release_Handle h)
  then show ?thesis using release_ok [OF assms(1), of h] by auto
qed (use assms copy_ok move_ok in auto)

lemma handle_run_ok: "pool_ok p \<Longrightarrow> run_allowed as p \<Longrightarrow> \<exists>p1. handle_run as p = Some p1 \<and> pool_ok p1"
proof (induction as arbitrary: p)
  case (Cons a as)
  obtain p1 where "handle_step a p = Some p1" "pool_ok p1" using handle_step_ok [OF Cons.prems(1)] Cons.prems(2) by auto
  then show ?case using Cons.IH [of p1] Cons.prems(2) by simp
qed simp

lemma created_ok:
  assumes "pool_create failed allocate ns na sz count ar = (Inr p, ar1)" "sz \<noteq> 0" "unat count * unat sz < 2 ^ 64"
  shows "pool_ok p"
proof -
  have "p = \<lparr>mp_slab_size = sz, mp_slab_count = unat count, mp_free = [0..<unat count], mp_refs = (\<lambda>_. 0),
      mp_available = unat count, mp_handles = (\<lambda>_. None)\<rparr>"
    using assms(1) by (auto simp: pool_create_def split: sum.splits prod.splits)
  then show ?thesis using assms(2,3) by (auto simp: pool_ok_def pool_shape_def users_def)
qed

subsection \<open>Properties\<close>

text \<open>
  C14 The counted handles keep a pool exact: after any allowed sequence of acquiring, copying, moving and releasing
  fewer than \<open>2^31\<close> handles of a new pool whose slabs have a positive size and whose region (count times
  size) is below \<open>2^64\<close> bytes, nothing undefined happened, the free list holds without repetition exactly the slabs that no handle refers
  to, the counter of every slab is the number of its handles, and the reported number of available
  slabs is the length of the free list.
\<close>

theorem pool_handles_exact:
  assumes "pool_create failed allocate ns na sz count ar = (Inr p, ar1)" "sz \<noteq> 0" "unat count * unat sz < 2 ^ 64"
    and "run_allowed as p"
  shows "\<exists>p1. handle_run as p = Some p1 \<and> distinct (mp_free p1) \<and>
    set (mp_free p1) = {i. i < mp_slab_count p1 \<and> users p1 i = {}} \<and>
    (\<forall>i < mp_slab_count p1. sint (mp_refs p1 i) = int (card (users p1 i))) \<and> mp_available p1 = length (mp_free p1)"
proof -
  obtain p1 where r: "handle_run as p = Some p1" "pool_ok p1" using handle_run_ok [OF created_ok [OF assms(1-3)] assms(4)] by blast
  have "\<forall>i < mp_slab_count p1. sint (mp_refs p1 i) = int (card (users p1 i))" using counter_exact(2) [OF r(2)] by blast
  with r show ?thesis unfolding pool_ok_def by blast
qed

text \<open>
  Objects built in an arena (of at most \<open>2^62\<close> bytes, with sizes and powers of two as alignments in that range)
  lie within it, aligned, one after the other without overlap; a request that does not fit is
  refused and changes nothing.
\<close>

theorem arena_objects_disjoint:
  assumes "unat cap \<le> 2 ^ 62" "list_all request_ok rs"
  shows "list_all (\<lambda>(off, sz, a). unat off + unat sz \<le> unat cap \<and> unat off mod unat a = 0)
      (fst (construct_all rs (new_arena cap))) \<and>
    sorted_wrt (\<lambda>b c. unat (fst b) + unat (fst (snd b)) \<le> unat (fst c)) (fst (construct_all rs (new_arena cap)))"
proof -
  have "arena_ok (new_arena cap)" using assms(1) by (simp add: arena_ok_def new_arena_def)
  from construct_all_ok [OF assms(2) this] show ?thesis
    by (auto simp: list_all_iff block_ok_def new_arena_def)
qed

text \<open>A pool whose slabs have size 0 is created and gives out its slabs, but the first release divides by zero.\<close>

lemma empty_slabs_release:
  "\<exists>p p1 ar1. pool_create m (\<lambda>_. Inr ()) 24 8 0 1 (new_arena 64) = (Inr p, ar1) \<and> handle_step (Acquire_Into 0 0) p = Some p1 \<and>
     handle_step (Release_Handle 0) p1 = None"
  by (simp add: pool_create_def arena_construct_def new_arena_def align_up_def pool_acquire_def set_handle_def
      pool_release_def drop_reference_def Let_def)

lemma demo_pool: "\<exists>p ar1. pool_create m (\<lambda>_. Inr ()) 24 8 16 1 (new_arena 64) = (Inr p, ar1) \<and> mp_free p = [0] \<and>
    mp_slab_size p = 16 \<and> mp_handles p = (\<lambda>_. None) \<and> mp_slab_count p = 1 \<and> mp_refs p = (\<lambda>_. 0) \<and> mp_available p = 1"
  by (simp add: pool_create_def arena_construct_def new_arena_def align_up_def Let_def)

theorem pool_handles_exact_witness:
  "\<exists>p ar1 p1. pool_create [] (\<lambda>_. Inr ()) 24 8 16 1 (new_arena 64) = (Inr p, ar1) \<and>
     handle_run [Acquire_Into 0 8, Copy_Construct 1 0, Release_Handle 0] p = Some p1 \<and> mp_available p1 = length (mp_free p1)"
proof -
  obtain p ar1 where p: "pool_create [] (\<lambda>_. Inr ()) 24 8 16 1 (new_arena 64) = (Inr p, ar1)" "mp_handles p = (\<lambda>_. None)"
    "mp_free p = [0]" "mp_slab_size p = 16"
    using demo_pool by metis
  have "run_allowed [Acquire_Into 0 8, Copy_Construct 1 0, Release_Handle 0] p"
    using p(2-4) by (simp add: pool_acquire_def set_handle_def split: option.split)
  from pool_handles_exact [OF p(1) _ _ this] p(1) show ?thesis by auto
qed

theorem arena_objects_disjoint_witness:
  "fst (construct_all [(24, 8), (4, 4), (24, 8)] (new_arena 64)) = [(0, 24, 8), (24, 4, 4), (32, 24, 8)] \<and>
   sorted_wrt (\<lambda>b c. unat (fst b) + unat (fst (snd b)) \<le> unat (fst c)) (fst (construct_all [(24, 8), (4, 4), (24, 8)] (new_arena 64)))"
proof -
  have "\<exists>k < 62. (8 :: 64 word) = 2 ^ k" by (rule exI [of _ 3]) simp
  moreover have "\<exists>k < 62. (4 :: 64 word) = 2 ^ k" by (rule exI [of _ 2]) simp
  ultimately have "list_all request_ok [(24, 8), (4, 4), (24, 8)]" by (simp add: request_ok_def)
  note ok = arena_objects_disjoint [OF _ this, of 64]
  have "fst (construct_all [(24, 8), (4, 4), (24, 8)] (new_arena 64)) = [(0, 24, 8), (24, 4, 4), (32, 24, 8)]"
    by (simp add: arena_construct_def new_arena_def align_up_def Let_def)
  then show ?thesis using ok by simp
qed

end
