(* ===== verification/Retrieval.thy ===== *)
theory Retrieval
  imports Vector_Path Float32 Yaml Option_Lists Descending_Sort
begin

text \<open>
  Hybrid retrieval (\<open>src/retrieval/\<close>): the metadata search over SQLite with its parameterised query, the two
  score fusions, and the retriever that restricts the vector search to the nodes the metadata search
  found. The SQL engine and the iteration order of the hash map are parameters; \<open>None\<close> is a read
  outside of a vector, or an exception that leaves a \<open>noexcept\<close> method.
\<close>

subsection \<open>Metadata search\<close>

datatype filter_op = Filter_Equal | Filter_NotEqual | Filter_LessThan | Filter_GreaterThan | Filter_LessOrEqual
  | Filter_GreaterOrEqual | Filter_Like | Filter_In

datatype filter_value = Filter_Int "64 word" | Filter_Double dbl | Filter_Text string | Filter_List "64 word list"

record filter_condition =
  fc_field :: string
  fc_op :: filter_op
  fc_value :: filter_value

record metadata_result =
  mr_node :: int
  mr_score :: dbl

record metadata_config =
  mc_filters :: "filter_condition list"
  mc_node_types :: "string list"
  mc_max_results :: "64 word"

datatype sql_binding = Bind_Int "64 word" | Bind_Double dbl | Bind_Text string

definition op_to_sql :: "filter_op \<Rightarrow> string" where
  "op_to_sql p = (case p of Filter_Equal \<Rightarrow> ''='' | Filter_NotEqual \<Rightarrow> ''!='' | Filter_LessThan \<Rightarrow> ''<'' | Filter_GreaterThan \<Rightarrow> ''>''
     | Filter_LessOrEqual \<Rightarrow> ''<='' | Filter_GreaterOrEqual \<Rightarrow> ''>='' | Filter_Like \<Rightarrow> ''LIKE'' | Filter_In \<Rightarrow> ''IN'')"

text \<open>The regular expression \<open>^[a-zA-Z_][a-zA-Z0-9_]*$\<close>.\<close>

definition field_start :: "char \<Rightarrow> bool" where
  "field_start c \<longleftrightarrow> (CHR ''a'' \<le> c \<and> c \<le> CHR ''z'') \<or> (CHR ''A'' \<le> c \<and> c \<le> CHR ''Z'') \<or> c = CHR ''_''"

definition field_char :: "char \<Rightarrow> bool" where
  "field_char c \<longleftrightarrow> field_start c \<or> (CHR ''0'' \<le> c \<and> c \<le> CHR ''9'')"

definition valid_field :: "string \<Rightarrow> bool" where
  "valid_field s = (case s of [] \<Rightarrow> False | c # cs \<Rightarrow> field_start c \<and> list_all field_char cs)"

text \<open>Numbered placeholders \<open>?i, ?i+1, ...\<close> separated by commas.\<close>

fun placeholders :: "nat \<Rightarrow> nat \<Rightarrow> string" where
  "placeholders 0 i = ''''"
| "placeholders (Suc 0) i = CHR ''?'' # nat_str i"
| "placeholders (Suc (Suc n)) i = CHR ''?'' # nat_str i @ '', '' @ placeholders (Suc n) (Suc i)"

fun value_count :: "filter_value \<Rightarrow> nat" where
  "value_count (Filter_List vs) = length vs"
| "value_count _ = 1"

definition append_filter_placeholder :: "filter_condition \<Rightarrow> string \<times> nat \<Rightarrow> string \<times> nat" where
  "append_filter_placeholder f s =
     (let n = value_count (fc_value f); ps = placeholders n (snd s) in
      (fst s @ '' AND json_extract(properties_json, '' @ CHR 0x27 # ''$.'' @ fc_field f @ CHR 0x27 # '') '' @ op_to_sql (fc_op f) @ '' '' @
         (case fc_value f of Filter_List _ \<Rightarrow> ''('' @ ps @ '')'' | _ \<Rightarrow> ps), snd s + n))"

definition metadata_sql :: "metadata_config \<Rightarrow> string" where
  "metadata_sql cfg =
     (let n = length (mc_node_types cfg);
          s1 = (''SELECT id FROM nodes WHERE 1=1'' @ (if n = 0 then '''' else '' AND type IN ('' @ placeholders n 1 @ '')''), 1 + n);
          s2 = fold append_filter_placeholder (mc_filters cfg) s1
      in fst s2 @ '' LIMIT ?'' @ nat_str (snd s2))"

fun filter_bindings :: "filter_value \<Rightarrow> sql_binding list" where
  "filter_bindings (Filter_Int i) = [Bind_Int i]"
| "filter_bindings (Filter_Double d) = [Bind_Double d]"
| "filter_bindings (Filter_Text s) = [Bind_Text (takeWhile (\<lambda>c. c \<noteq> CHR 0x00) s)]"
| "filter_bindings (Filter_List vs) = map Bind_Int vs"

definition metadata_bindings :: "metadata_config \<Rightarrow> sql_binding list" where
  "metadata_bindings cfg =
     map (\<lambda>t. Bind_Text (takeWhile (\<lambda>c. c \<noteq> CHR 0x00) t)) (mc_node_types cfg) @
     concat (map (\<lambda>f. filter_bindings (fc_value f)) (mc_filters cfg)) @ [Bind_Int (mc_max_results cfg)]"

text \<open>The engine prepares and runs a query: an error message, or the identifiers of the rows.\<close>

definition metadata_search ::
  "(string \<Rightarrow> sql_binding list \<Rightarrow> string + int list) \<Rightarrow> metadata_config \<Rightarrow> metadata_result list result" where
  "metadata_search engine cfg =
     (case find (\<lambda>f. \<not> valid_field (fc_field f)) (mc_filters cfg) of
        Some f \<Rightarrow> Inl (ErrorInfo Infra_ConfigValidationFailed
          (''Invalid field name in filter: '' @ CHR 0x27 # fc_field f @ CHR 0x27 # '' does not match [a-zA-Z_][a-zA-Z0-9_]*''))
      | None \<Rightarrow>
          (case engine (metadata_sql cfg) (metadata_bindings cfg) of
             Inl m \<Rightarrow> Inl (ErrorInfo Infra_ConfigValidationFailed m)
           | Inr ids \<Rightarrow> Inr (map (\<lambda>i. \<lparr>mr_node = i, mr_score = Fin False 1\<rparr>) ids)))"

subsection \<open>Score fusion\<close>

record score_breakdown =
  vector_score :: dbl
  metadata_score :: dbl
  fused_score :: dbl
  fusion_strategy :: string

datatype fusion = Weighted_Fusion dbl | RRF_Fusion dbl

definition weighted_configure :: "(string \<Rightarrow> dbl option) \<Rightarrow> yaml \<Rightarrow> dbl \<Rightarrow> (unit result \<times> dbl) option" where
  "weighted_configure as_float params alpha =
     (case y_index params ''alpha'' of
        Inl _ \<Rightarrow> None
      | Inr None \<Rightarrow> Some (Inl (ErrorInfo Retrieval_FusionConfigInvalid
          (''WeightedFusion: missing '' @ CHR 0x27 # ''alpha'' @ CHR 0x27 # '' parameter'')), alpha)
      | Inr (Some v) \<Rightarrow>
          (case Option.bind (y_scalar (Some v)) as_float of
             None \<Rightarrow> None
           | Some a \<Rightarrow> Some (if d_lt a (Fin False 0) \<or> d_gt a (Fin False 1)
               then Inl (ErrorInfo Retrieval_FusionConfigInvalid ''WeightedFusion: alpha must be in [0, 1]'') else Inr (), a)))"

definition rrf_configure :: "(string \<Rightarrow> dbl option) \<Rightarrow> yaml \<Rightarrow> dbl \<Rightarrow> (unit result \<times> dbl) option" where
  "rrf_configure as_float params k =
     (case y_index params ''k'' of
        Inl _ \<Rightarrow> None
      | Inr None \<Rightarrow> Some (Inr (), k)
      | Inr (Some v) \<Rightarrow>
          (case Option.bind (y_scalar (Some v)) as_float of
             None \<Rightarrow> None
           | Some a \<Rightarrow> Some (if d_le a (Fin False 0)
               then Inl (ErrorInfo Retrieval_FusionConfigInvalid ''RRFFusion: k must be positive'') else Inr (), a)))"

text \<open>The hash map is listed in the order \<open>arrange\<close> gives, so every result of an unstable sort is one of the
  stable sort here.\<close>

definition sort_fused :: "(int \<times> score_breakdown) list \<Rightarrow> (int \<times> score_breakdown) list" where
  "sort_fused rs = sort_desc (\<lambda>r. fused_score (snd r)) rs"

type_synonym listing = "(int \<times> score_breakdown) list \<Rightarrow> (int \<times> score_breakdown) list"

definition max_distance :: "vector_result list \<Rightarrow> dbl" where
  "max_distance vec = fold (\<lambda>v m. if d_gt (vr_distance v) m then vr_distance v else m) vec (Fin False 1)"

definition weighted_breakdown :: "dbl \<Rightarrow> dbl \<Rightarrow> (int, dbl) smap \<Rightarrow> vector_result \<Rightarrow> int \<Rightarrow> score_breakdown" where
  "weighted_breakdown alpha max_dist meta_scores v i =
     (let v_score = f_sub (Fin False 1) (f_div (vr_distance v) (f_add max_dist (f_lit (1 / 10 ^ 6))));
          m_score = (case sm_get meta_scores i of Some m \<Rightarrow> m | None \<Rightarrow> Fin False 0)
      in \<lparr>vector_score = v_score, metadata_score = m_score,
          fused_score = f_add (f_mul alpha v_score) (f_mul (f_sub (Fin False 1) alpha) m_score),
          fusion_strategy = ''WeightedFusion''\<rparr>)"

definition weighted_fuse ::
  "dbl \<Rightarrow> listing \<Rightarrow> vector_result list \<Rightarrow> int list \<Rightarrow> metadata_result list \<Rightarrow> (int \<times> score_breakdown) list option" where
  "weighted_fuse alpha arrange vec ids meta =
     (if length ids < length vec then None
      else let meta_scores = fold (\<lambda>m. sm_put (mr_node m) (mr_score m)) meta [];
               b1 = fold (\<lambda>(v, i). sm_put i (weighted_breakdown alpha (max_distance vec) meta_scores v i)) (zip vec ids) [];
               b2 = fold (\<lambda>m b. if sm_has b (mr_node m) then b
                            else sm_put (mr_node m) \<lparr>vector_score = Fin False 0, metadata_score = mr_score m,
                                   fused_score = f_mul (f_sub (Fin False 1) alpha) (mr_score m),
                                   fusion_strategy = ''WeightedFusion''\<rparr> b) meta b1
           in Some (sort_fused (arrange b2)))"

primrec insert_ranked :: "nat \<times> dbl \<Rightarrow> (nat \<times> dbl) list \<Rightarrow> (nat \<times> dbl) list" where
  "insert_ranked r [] = [r]"
| "insert_ranked r (q # qs) = (if d_lt (snd q) (snd r) then q # insert_ranked r qs else r # q # qs)"

definition empty_breakdown :: score_breakdown where
  "empty_breakdown = \<lparr>vector_score = Fin False 0, metadata_score = Fin False 0, fused_score = Fin False 0, fusion_strategy = ''''\<rparr>"

definition rrf_term :: "dbl \<Rightarrow> nat \<Rightarrow> dbl" where
  "rrf_term k rank = f_div (Fin False 1) (f_add k (f_of_nat (rank + 1)))"

definition rrf_add :: "(dbl \<Rightarrow> score_breakdown \<Rightarrow> score_breakdown) \<Rightarrow> dbl \<Rightarrow> nat \<times> int \<Rightarrow> (int, score_breakdown) smap \<Rightarrow>
    (int, score_breakdown) smap" where
  "rrf_add set_part k e b =
     (case e of (rank, i) \<Rightarrow>
        let t = rrf_term k rank; bd = (case sm_get b i of Some x \<Rightarrow> x | None \<Rightarrow> empty_breakdown)
        in sm_put i ((set_part t bd)\<lparr>fused_score := f_add (fused_score bd) t, fusion_strategy := ''RRFFusion''\<rparr>) b)"

definition rrf_fuse ::
  "dbl \<Rightarrow> listing \<Rightarrow> vector_result list \<Rightarrow> int list \<Rightarrow> metadata_result list \<Rightarrow> (int \<times> score_breakdown) list option" where
  "rrf_fuse k arrange vec ids meta =
     (if length ids < length vec then None
      else let ranked = foldr insert_ranked (zip [0..<length vec] (map vr_distance vec)) [];
               b1 = fold (rrf_add (\<lambda>t bd. bd\<lparr>vector_score := t\<rparr>) k)
                      (zip [0..<length vec] (map (\<lambda>r. ids ! fst r) ranked)) [];
               b2 = fold (rrf_add (\<lambda>t bd. bd\<lparr>metadata_score := t\<rparr>) k)
                      (zip [0..<length meta] (map mr_node meta)) b1
           in Some (sort_fused (arrange b2)))"

definition fuse ::
  "fusion \<Rightarrow> listing \<Rightarrow> vector_result list \<Rightarrow> int list \<Rightarrow> metadata_result list \<Rightarrow> (int \<times> score_breakdown) list option" where
  "fuse f = (case f of Weighted_Fusion alpha \<Rightarrow> weighted_fuse alpha | RRF_Fusion k \<Rightarrow> rrf_fuse k)"

subsection \<open>The retriever\<close>

record retrieval_item =
  ri_node :: int
  ri_scores :: score_breakdown

text \<open>The index of the last occurrence of every node.\<close>

definition node_to_vec :: "int list \<Rightarrow> (int, nat) smap" where
  "node_to_vec ids = fold (\<lambda>(i, n). sm_put n i) (zip [0..<length ids] ids) []"

definition restricted_config :: "metadata_config \<Rightarrow> metadata_result list \<Rightarrow> int list \<Rightarrow> search_config \<Rightarrow> search_config" where
  "restricted_config mcfg meta vec_to_node_ids cfg =
     (if (mc_filters mcfg \<noteq> [] \<or> mc_node_types mcfg \<noteq> []) \<and> sc_mode cfg = Top_K
      then let subset = List.map_filter (\<lambda>m. sm_get (node_to_vec vec_to_node_ids) (mr_node m)) meta
           in if subset = [] then cfg else cfg\<lparr>sc_mode := Hybrid, id_subset := subset\<rparr>
      else cfg)"

definition mapped_ids :: "int list \<Rightarrow> vector_result list \<Rightarrow> int list" where
  "mapped_ids vec_to_node_ids vec = List.map_filter (\<lambda>r. at_index vec_to_node_ids (vr_index r)) vec"

definition retrieve ::
  "(string \<Rightarrow> sql_binding list \<Rightarrow> string + int list) \<Rightarrow> search_bank \<Rightarrow> fusion \<Rightarrow> listing \<Rightarrow> dbl list \<Rightarrow>
    search_config \<Rightarrow> metadata_config \<Rightarrow> int list \<Rightarrow> retrieval_item list result option" where
  "retrieve engine bank fu arrange q vcfg mcfg vec_to_node_ids =
     (case metadata_search engine mcfg of
        Inl err \<Rightarrow> Some (Inl err)
      | Inr meta \<Rightarrow>
          if (mc_filters mcfg \<noteq> [] \<or> mc_node_types mcfg \<noteq> []) \<and> sc_mode vcfg = Top_K \<and> meta = [] then Some (Inr [])
          else case search bank q (restricted_config mcfg meta vec_to_node_ids vcfg) of
                 Inl err \<Rightarrow> Some (Inl err)
               | Inr vec \<Rightarrow>
                   map_option (\<lambda>fused. Inr (map (\<lambda>(i, b). \<lparr>ri_node = i, ri_scores = b\<rparr>) fused))
                     (fuse fu arrange vec (mapped_ids vec_to_node_ids vec) meta))"

subsection \<open>The query\<close>

definition question_marks :: "string \<Rightarrow> nat" where
  "question_marks s = length (filter (\<lambda>c. c = CHR ''?'') s)"

lemma question_marks_append [simp]: "question_marks (s @ t) = question_marks s + question_marks t"
  by (simp add: question_marks_def)

lemma question_marks_Cons [simp]: "question_marks (c # s) = (if c = CHR ''?'' then 1 else 0) + question_marks s"
  by (simp add: question_marks_def)

lemma question_marks_Nil [simp]: "question_marks [] = 0"
  by (simp add: question_marks_def)

lemma no_marks: "(\<And>c. c \<in> set s \<Longrightarrow> c \<noteq> CHR ''?'') \<Longrightarrow> question_marks s = 0"
  by (auto simp: question_marks_def filter_empty_conv)

lemma digit_no_mark:
  assumes "d < 10"
  shows "digit_char d \<noteq> CHR ''?''"
proof
  assume "digit_char d = CHR ''?''"
  then have "(of_char (CHR ''?'') :: nat) = 48 + d" using of_char_digit [OF assms] by metis
  then show False using assms by simp
qed

lemma nat_str_no_mark [simp]: "question_marks (nat_str n) = 0"
proof (rule no_marks)
  fix c assume "c \<in> set (nat_str n)"
  then obtain d where "d < 10" "c = digit_char d" using nat_str_digits by blast
  then show "c \<noteq> CHR ''?''" using digit_no_mark by simp
qed

lemma placeholders_marks [simp]: "question_marks (placeholders n i) = n"
  by (induction n i rule: placeholders.induct) simp_all

lemma field_no_mark: "valid_field s \<Longrightarrow> question_marks s = 0"
proof (rule no_marks)
  fix c assume "valid_field s" "c \<in> set s"
  then have "field_char c" by (auto simp: valid_field_def field_char_def list_all_iff split: list.splits)
  then show "c \<noteq> CHR ''?''" by (auto simp: field_char_def field_start_def less_eq_char_def)
qed

lemma op_no_mark [simp]: "question_marks (op_to_sql p) = 0"
  by (cases p) (simp_all add: op_to_sql_def)

lemma append_filter_marks:
  assumes "valid_field (fc_field f)"
  shows "question_marks (fst (append_filter_placeholder f s)) = question_marks (fst s) + value_count (fc_value f)"
    "snd (append_filter_placeholder f s) = snd s + value_count (fc_value f)"
  using field_no_mark [OF assms] by (cases "fc_value f"; simp add: append_filter_placeholder_def Let_def)+

lemma filters_marks:
  "list_all (\<lambda>f. valid_field (fc_field f)) fs \<Longrightarrow>
    question_marks (fst (fold append_filter_placeholder fs s)) = question_marks (fst s) + sum_list (map (\<lambda>f. value_count (fc_value f)) fs)"
  by (induction fs arbitrary: s) (simp_all add: append_filter_marks)

lemma filter_bindings_length: "length (filter_bindings v) = value_count v"
  by (cases v) simp_all

lemma bindings_length:
  "length (metadata_bindings cfg) = length (mc_node_types cfg) + sum_list (map (\<lambda>f. value_count (fc_value f)) (mc_filters cfg)) + 1"
  by (simp add: metadata_bindings_def length_concat o_def filter_bindings_length)

lemma metadata_sql_marks:
  "list_all (\<lambda>f. valid_field (fc_field f)) (mc_filters cfg) \<Longrightarrow> question_marks (metadata_sql cfg) = length (metadata_bindings cfg)"
  using filters_marks [of "mc_filters cfg"] by (simp add: metadata_sql_def Let_def bindings_length)

text \<open>Two configurations of the same shape: only values differ.\<close>

definition filter_shape :: "filter_condition \<Rightarrow> string \<times> filter_op \<times> nat \<times> bool" where
  "filter_shape f = (fc_field f, fc_op f, value_count (fc_value f), (case fc_value f of Filter_List _ \<Rightarrow> True | _ \<Rightarrow> False))"

definition same_shape :: "metadata_config \<Rightarrow> metadata_config \<Rightarrow> bool" where
  "same_shape a b \<longleftrightarrow> length (mc_node_types a) = length (mc_node_types b) \<and>
     map filter_shape (mc_filters a) = map filter_shape (mc_filters b)"

lemma same_shape_sql: "same_shape a b \<Longrightarrow> metadata_sql a = metadata_sql b"
proof -
  assume sh: "same_shape a b"
  have one: "append_filter_placeholder f s = append_filter_placeholder g s" if "filter_shape f = filter_shape g" for f g s
    using that by (cases "fc_value f"; cases "fc_value g") (simp_all add: append_filter_placeholder_def filter_shape_def)
  have folds: "fold append_filter_placeholder fs s = fold append_filter_placeholder gs s"
    if "map filter_shape fs = map filter_shape gs" for fs gs s
    using that
  proof (induction fs arbitrary: gs s)
    case (Cons f fs)
    then obtain g gs' where "gs = g # gs'" "filter_shape f = filter_shape g" "map filter_shape fs = map filter_shape gs'" by (cases gs) auto
    then show ?case using Cons.IH [of gs'] one [of f g s] by simp
  qed simp
  show ?thesis
    using sh folds [of "mc_filters a" "mc_filters b"] by (simp add: same_shape_def metadata_sql_def Let_def)
qed

subsection \<open>Fusion\<close>

lemma put_keys: "fst ` set (sm_put k v m) = insert k (fst ` set m)"
  using set_sm_put [of k v m] by simp

lemma fold_keys:
  assumes "\<And>x b. x \<in> set xs \<Longrightarrow> sm_wf b \<Longrightarrow> sm_wf (h x b) \<and> fst ` set (h x b) = insert (k x) (fst ` set b)" "sm_wf b"
  shows "sm_wf (fold h xs b) \<and> fst ` set (fold h xs b) = k ` set xs \<union> fst ` set b"
  using assms
proof (induction xs arbitrary: b)
  case (Cons x xs)
  then have "sm_wf (h x b)" "fst ` set (h x b) = insert (k x) (fst ` set b)" by simp_all
  then show ?case using Cons.IH [of "h x b"] Cons.prems(1) by auto
qed simp

lemma weighted_keys:
  assumes "weighted_fuse alpha arrange vec ids meta = Some out" "\<And>b. mset (arrange b) = mset b"
  shows "distinct (map fst out) \<and> set (map fst out) = set (take (length vec) ids) \<union> set (map mr_node meta) \<and>
    (\<exists>bs. out = sort_fused bs)"
proof -
  let ?ms = "fold (\<lambda>m. sm_put (mr_node m) (mr_score m)) meta []"
  let ?f = "\<lambda>(v, i). sm_put i (weighted_breakdown alpha (max_distance vec) ?ms v i)"
  let ?g = "\<lambda>m b. if sm_has b (mr_node m) then b
                            else sm_put (mr_node m) \<lparr>vector_score = Fin False 0, metadata_score = mr_score m,
                                   fused_score = f_mul (f_sub (Fin False 1) alpha) (mr_score m),
                                   fusion_strategy = ''WeightedFusion''\<rparr> b"
  let ?b1 = "fold ?f (zip vec ids) []" and ?b2 = "fold ?g meta (fold ?f (zip vec ids) [])"
  have len: "length vec \<le> length ids" and out: "out = sort_fused (arrange ?b2)"
    using assms(1) by (auto simp: weighted_fuse_def Let_def split: if_splits)
  have f: "sm_wf ?b1 \<and> fst ` set ?b1 = snd ` set (zip vec ids) \<union> fst ` set ([] :: (int, score_breakdown) smap)"
    by (rule fold_keys [where k = snd]) (simp_all add: split_beta sm_wf_put put_keys)
  have keys: "sm_has b k \<longleftrightarrow> k \<in> fst ` set b" for b :: "(int, score_breakdown) smap" and k
    by (auto simp: sm_has_iff sm_get_def map_of_eq_None_iff)
  have g: "sm_wf ?b2 \<and> fst ` set ?b2 = mr_node ` set meta \<union> fst ` set ?b1"
    by (rule fold_keys [where k = mr_node]) (use f keys in \<open>auto simp: sm_wf_put put_keys\<close>)
  have "snd ` set (zip vec ids) = set (take (length vec) ids)"
    using len by (metis map_snd_zip_take list.set_map min.absorb1)
  then have k: "sm_wf ?b2" "set (map fst ?b2) = set (take (length vec) ids) \<union> set (map mr_node meta)"
    using f g by auto
  have m: "mset (map fst out) = mset (map fst ?b2)" unfolding out sort_fused_def mset_map by (simp add: assms(2))
  have "distinct (map fst out)" using m sm_wf_distinct [OF k(1)] mset_eq_imp_distinct_iff by blast
  moreover have "set (map fst out) = set (map fst ?b2)" using m mset_eq_setD by blast
  ultimately show ?thesis using k(2) out by blast
qed

lemma map_filter_some: "length (List.map_filter f xs) = length xs \<longleftrightarrow> (\<forall>x \<in> set xs. f x \<noteq> None)"
proof (induction xs)
  case (Cons x xs)
  have "length (List.map_filter f xs) \<le> length xs"
    using length_filter_le [of _ xs] by (simp add: List.map_filter_def)
  then show ?case using Cons by (cases "f x") (auto simp: List.map_filter_simps)
qed (simp add: List.map_filter_simps)

lemma fuse_none: "fuse fu arrange vec ids meta = None \<longleftrightarrow> length ids < length vec"
  by (cases fu) (simp_all add: fuse_def weighted_fuse_def rrf_fuse_def Let_def)

lemma mapped_short: "length (mapped_ids ids vec) < length vec \<longleftrightarrow> (\<exists>r \<in> set vec. length ids \<le> vr_index r)"
proof -
  have "length (mapped_ids ids vec) \<le> length vec"
    using length_filter_le [of _ vec] by (simp add: mapped_ids_def List.map_filter_def)
  moreover have "length (mapped_ids ids vec) = length vec \<longleftrightarrow> (\<forall>r \<in> set vec. vr_index r < length ids)"
    unfolding mapped_ids_def map_filter_some by (simp add: at_index_def)
  ultimately show ?thesis by (metis nat_less_le not_le)
qed

subsection \<open>Properties\<close>

text \<open>
  C30 The metadata search never puts a value into the text of its query: configurations that differ in their values
  only have the same text. A query that reaches the engine names only fields of letters, digits and
  underscores, and has exactly one placeholder for every value that is bound.
\<close>

theorem metadata_query_safe:
  "(same_shape a b \<longrightarrow> metadata_sql a = metadata_sql b) \<and>
   (metadata_search engine a = Inr rs \<longrightarrow>
      list_all (\<lambda>f. valid_field (fc_field f)) (mc_filters a) \<and>
      question_marks (metadata_sql a) = length (metadata_bindings a))"
proof -
  have "list_all (\<lambda>f. valid_field (fc_field f)) (mc_filters a)" if "metadata_search engine a = Inr rs"
    using that by (auto simp: metadata_search_def list_all_iff find_None_iff split: option.splits)
  then show ?thesis using same_shape_sql metadata_sql_marks by blast
qed

text \<open>
  C31 The weighted fusion returns every node of the vector results and of the metadata results once, by descending
  fused score (when no score is NaN), for every order in which the hash map lists its entries.
\<close>

theorem weighted_fusion_complete:
  assumes "weighted_fuse alpha arrange vec ids meta = Some out" "\<And>b. mset (arrange b) = mset b"
  shows "distinct (map fst out) \<and> set (map fst out) = set (take (length vec) ids) \<union> set (map mr_node meta) \<and>
    ((\<forall>r \<in> set out. \<not> d_is_nan (fused_score (snd r))) \<longrightarrow>
       sorted_wrt (\<lambda>q r. \<not> d_gt (fused_score (snd r)) (fused_score (snd q))) out)"
proof -
  note k = weighted_keys [OF assms]
  then obtain bs where bs: "out = sort_fused bs" by blast
  then show ?thesis using k sorted_sort_desc [of bs "\<lambda>r. fused_score (snd r)"] by (simp add: sort_fused_def)
qed

text \<open>
  C32 Retrieve is undefined exactly when the vector search returns an index that no node is mapped to: such a result
  is skipped in the list of nodes but not in the list of results, and the fusion then reads past the
  end of the shorter one.
\<close>

theorem retrieve_undefined_iff:
  assumes "metadata_search engine mcfg = Inr meta"
    and "\<not> ((mc_filters mcfg \<noteq> [] \<or> mc_node_types mcfg \<noteq> []) \<and> sc_mode vcfg = Top_K \<and> meta = [])"
    and "search bank q (restricted_config mcfg meta ids vcfg) = Inr vec"
  shows "retrieve engine bank fu arrange q vcfg mcfg ids = None \<longleftrightarrow> (\<exists>r \<in> set vec. length ids \<le> vr_index r)"
  using assms fuse_none [of fu arrange vec "mapped_ids ids vec" meta] mapped_short [of ids vec]
  by (auto simp: retrieve_def)

definition demo_bank :: search_bank where
  "demo_bank = \<lparr>bank_dim = 1, num_samples = 2,
     bank_index = Some \<lparr>knn = (\<lambda>q k sel. take k [(0, Fin False 0), (1, Fin False 1)]), range_hits = (\<lambda>q r. [])\<rparr>\<rparr>"

definition demo_metadata :: metadata_config where
  "demo_metadata = \<lparr>mc_filters = [], mc_node_types = [], mc_max_results = 100\<rparr>"

theorem retrieve_undefined_iff_witness:
  "retrieve (\<lambda>_ _. Inr [7]) demo_bank (RRF_Fusion (Fin False 60)) id [Fin False 0]
     \<lparr>sc_mode = Top_K, sc_k = 2, range_threshold = Fin False 0, id_subset = []\<rparr> demo_metadata [7] = None"
proof -
  let ?cfg = "\<lparr>sc_mode = Top_K, sc_k = 2, range_threshold = Fin False 0, id_subset = []\<rparr>"
  have m: "metadata_search (\<lambda>_ _. Inr [7]) demo_metadata = Inr [\<lparr>mr_node = 7, mr_score = Fin False 1\<rparr>]"
    by (simp add: metadata_search_def demo_metadata_def)
  have s: "search demo_bank [Fin False 0] (restricted_config demo_metadata [\<lparr>mr_node = 7, mr_score = Fin False 1\<rparr>] [7] ?cfg) =
      Inr [\<lparr>vr_index = 0, vr_distance = Fin False 0\<rparr>, \<lparr>vr_index = 1, vr_distance = Fin False 1\<rparr>]"
    by (simp add: search_def demo_bank_def restricted_config_def demo_metadata_def topk_search_def labelled_def)
  show ?thesis
    using retrieve_undefined_iff [OF m _ s, of "RRF_Fusion (Fin False 60)" id] by (simp add: demo_metadata_def)
qed

theorem weighted_fusion_complete_witness:
  "\<exists>out. weighted_fuse (Fin False (1 / 2)) rev [\<lparr>vr_index = 0, vr_distance = Fin False 0\<rparr>] [4] [\<lparr>mr_node = 7, mr_score = Fin False 1\<rparr>] = Some out \<and>
     set (map fst out) = {4, 7}"
proof -
  obtain out where o: "weighted_fuse (Fin False (1 / 2)) rev [\<lparr>vr_index = 0, vr_distance = Fin False 0\<rparr>] [4]
      [\<lparr>mr_node = 7, mr_score = Fin False 1\<rparr>] = Some out"
    by (simp add: weighted_fuse_def Let_def)
  show ?thesis using weighted_fusion_complete [OF o] o by auto
qed

theorem metadata_query_safe_witness:
  "metadata_sql \<lparr>mc_filters = [\<lparr>fc_field = ''grade'', fc_op = Filter_Equal, fc_value = Filter_Text ''A''\<rparr>], mc_node_types = [], mc_max_results = 5\<rparr> =
   metadata_sql \<lparr>mc_filters = [\<lparr>fc_field = ''grade'', fc_op = Filter_Equal, fc_value = Filter_Int 1\<rparr>], mc_node_types = [], mc_max_results = 9\<rparr>"
proof -
  let ?a = "\<lparr>mc_filters = [\<lparr>fc_field = ''grade'', fc_op = Filter_Equal, fc_value = Filter_Text ''A''\<rparr>], mc_node_types = [], mc_max_results = 5\<rparr>"
  let ?b = "\<lparr>mc_filters = [\<lparr>fc_field = ''grade'', fc_op = Filter_Equal, fc_value = Filter_Int 1\<rparr>], mc_node_types = [], mc_max_results = 9\<rparr>"
  have "same_shape ?a ?b" by (simp add: same_shape_def filter_shape_def)
  then show ?thesis using metadata_query_safe [of ?a ?b "\<lambda>_ _. Inr []" "[]"] by simp
qed

end
