(* ===== verification/Detect_Stage.thy ===== *)
theory Detect_Stage
  imports Patch_Core
begin

text \<open>
  From image to detection result (\<open>src/pipeline/inference_stage.cpp\<close>, \<open>src/pipeline/detect_stage.cpp\<close>):
  the inference stage, which turns every failure into an empty embedding, and the detection stage with its
  detector per surface and position and its cold start. The embedders and the CUDA calls are parameters;
  \<open>None\<close> is a division by zero or a read outside of a buffer.
\<close>

subsection \<open>Embeddings on their way through the pipeline\<close>

record stage_embedding = full_embedding +
  sg_features :: "dbl list"
  sg_surface :: string
  sg_position :: "16 word"

definition empty_embedding :: stage_embedding where
  "empty_embedding = \<lparr>em_dim = 0, em_count = 0, em_data = [], em_model = '''', em_global = False, em_grid = (0, 0),
     em_latency = 0, em_on_gpu = False, sg_features = [], sg_surface = '''', sg_position = 0\<rparr>"

subsection \<open>Inference\<close>

text \<open>The collaborators: whether an embedder, a pool and a global embedder are set, and what a frame meets
  there. \<open>iv_download\<close> is the device memory after a successful copy to the host.\<close>

record inference_stage =
  iv_stub :: bool
  iv_embedder :: bool
  iv_pool :: bool
  iv_global :: bool

record inference_outcome =
  iv_allocated :: bool
  iv_uploaded :: bool
  iv_extracted :: "stage_embedding result"
  iv_download :: "dbl list option"
  iv_global_result :: "stage_embedding result"

definition extracted_embedding :: "inference_stage \<Rightarrow> inference_outcome \<Rightarrow> stage_embedding" where
  "extracted_embedding st w =
     (if iv_stub st \<or> \<not> iv_embedder st \<or> \<not> iv_pool st \<or> \<not> iv_allocated w \<or> \<not> iv_uploaded w then empty_embedding
      else case iv_extracted w of
             Inl err \<Rightarrow> empty_embedding
           | Inr e \<Rightarrow>
               if em_on_gpu e
               then (case iv_download w of
                       None \<Rightarrow> empty_embedding
                     | Some floats \<Rightarrow> e\<lparr>em_data := floats, em_on_gpu := False, sg_features := [], sg_surface := '''', sg_position := 0\<rparr>)
               else e)"

definition with_global_features :: "inference_stage \<Rightarrow> inference_outcome \<Rightarrow> stage_embedding \<Rightarrow> stage_embedding option" where
  "with_global_features st w e =
     (if iv_stub st \<or> \<not> iv_global st then Some e
      else case iv_global_result w of
             Inl err \<Rightarrow> Some e
           | Inr g \<Rightarrow>
               if em_count g = 0 \<or> em_dim g = 0 then Some e
               else if em_on_gpu g \<or> length (em_data g) < em_count g * em_dim g then None
               else Some (e\<lparr>sg_features := take (em_count g * em_dim g) (em_data g)\<rparr>))"

text \<open>The frame carries the identity of its surface and position.\<close>

definition infer :: "inference_stage \<Rightarrow> inference_outcome \<Rightarrow> string \<Rightarrow> 16 word \<Rightarrow> stage_embedding option" where
  "infer st w surface position =
     map_option (\<lambda>e. let e' = (if surface = '''' then e else e\<lparr>sg_surface := surface\<rparr>)
                     in if position = 0 then e' else e'\<lparr>sg_position := position\<rparr>)
       (with_global_features st w (extracted_embedding st w))"

subsection \<open>The detectors of the stage\<close>

datatype 'ix stage_detector = Patch_Detector patch_core_config "'ix patch_core" | Pca_Detector pca_detector_config "pca_params option"

definition run_detector ::
  "'ix faiss_lib \<Rightarrow> (dbl \<Rightarrow> dbl) \<Rightarrow> int \<Rightarrow> full_embedding \<Rightarrow> 'ix stage_detector \<Rightarrow> (detection_result result \<times> 'ix stage_detector) option" where
  "run_detector lib expf latency e dt =
     (case dt of
        Patch_Detector cfg s \<Rightarrow> map_option (\<lambda>(r, s'). (r, Patch_Detector cfg s')) (detect lib expf cfg latency e s)
      | Pca_Detector cfg s \<Rightarrow> map_option (\<lambda>r. (r, Pca_Detector cfg s)) (pca_detect expf cfg latency e s))"

type_synonym bank_key = "string \<times> 16 word"

record bootstrap_state =
  bo_vectors :: "dbl list"
  bo_dim :: nat
  bo_grid_h :: nat
  bo_grid_w :: nat
  bo_frames :: nat

definition new_bootstrap :: bootstrap_state where
  "new_bootstrap = \<lparr>bo_vectors = [], bo_dim = 0, bo_grid_h = 0, bo_grid_w = 0, bo_frames = 0\<rparr>"

text \<open>A registered detector may be a null pointer.\<close>

record 'ix detect_stage =
  ds_detectors :: "bank_key \<rightharpoonup> 'ix stage_detector option"
  ds_default :: "'ix stage_detector option"
  ds_stub :: bool
  ds_bootstrap :: bool
  ds_min_frames :: nat
  ds_target :: nat
  ds_states :: "bank_key \<rightharpoonup> bootstrap_state"
  ds_callback :: bool

definition new_detect_stage :: "'ix detect_stage" where
  "new_detect_stage = \<lparr>ds_detectors = Map.empty, ds_default = None, ds_stub = True, ds_bootstrap = False, ds_min_frames = 50,
     ds_target = 10000, ds_states = Map.empty, ds_callback = False\<rparr>"

definition add_detector :: "string \<Rightarrow> 16 word \<Rightarrow> 'ix stage_detector option \<Rightarrow> 'ix detect_stage \<Rightarrow> 'ix detect_stage" where
  "add_detector surface position dt st = st\<lparr>ds_detectors := (ds_detectors st)((surface, position) \<mapsto> dt), ds_stub := False\<rparr>"

definition set_detector :: "'ix stage_detector option \<Rightarrow> 'ix detect_stage \<Rightarrow> 'ix detect_stage" where
  "set_detector dt st = st\<lparr>ds_default := dt, ds_stub := False\<rparr>"

definition get_detector :: "string \<Rightarrow> 16 word \<Rightarrow> 'ix detect_stage \<Rightarrow> 'ix stage_detector option" where
  "get_detector surface position st = (case ds_detectors st (surface, position) of Some dt \<Rightarrow> dt | None \<Rightarrow> ds_default st)"

definition has_detector :: "string \<Rightarrow> 16 word \<Rightarrow> 'ix detect_stage \<Rightarrow> bool" where
  "has_detector surface position st \<longleftrightarrow> ds_detectors st (surface, position) \<noteq> None"

definition set_bootstrap_config :: "bool \<Rightarrow> nat \<Rightarrow> nat \<Rightarrow> 'ix detect_stage \<Rightarrow> 'ix detect_stage" where
  "set_bootstrap_config enabled min_frames target st = st\<lparr>ds_bootstrap := enabled, ds_min_frames := min_frames, ds_target := target\<rparr>"

subsection \<open>The cold start\<close>

definition default_patch_core_config :: patch_core_config where
  "default_patch_core_config = \<lparr>pk_bank_path = '''', pk_threshold = f_lit (8 / 10), pk_k_nearest = 1, pk_sigma = 4, pk_width = 518,
     pk_height = 518, pk_patch_size = 14, pk_embed_dim = 1024, pk_whitening = False, pk_drop_k = 0, pk_adaptive = False,
     pk_target_fpr = f_lit (1 / 100), pk_pca_path = '''', pk_alpha = f_lit (1 / 2), pk_method = Reconstruction\<rparr>"

definition bootstrap_patch_core_config :: "nat \<Rightarrow> nat \<Rightarrow> patch_core_config" where
  "bootstrap_patch_core_config gh gw = default_patch_core_config\<lparr>pk_k_nearest := 5, pk_width := gw, pk_height := gh\<rparr>"

definition bootstrap_stride :: "nat \<Rightarrow> nat \<Rightarrow> nat \<Rightarrow> nat option" where
  "bootstrap_stride min_frames target patches =
     (if min_frames = 0 then None
      else let t = target div min_frames in
           if t < patches then (if t = 0 then None else Some (max 1 (patches div t))) else Some 1)"

definition stride_indices :: "nat \<Rightarrow> nat \<Rightarrow> nat list" where
  "stride_indices n stride = map (\<lambda>j. j * stride) [0..<(n + stride - 1) div stride]"

definition sampled_patches :: "nat \<Rightarrow> nat \<Rightarrow> dbl list \<Rightarrow> nat \<Rightarrow> dbl list option" where
  "sampled_patches d patches floats stride =
     map_option concat (map_opt (\<lambda>i. if length floats < i * d + d then None else Some (row d floats i)) (stride_indices patches stride))"

definition remember_shape :: "stage_embedding \<Rightarrow> bootstrap_state \<Rightarrow> bootstrap_state" where
  "remember_shape e bo =
     (if bo_dim bo = 0 then bo\<lparr>bo_dim := em_dim e, bo_grid_h := fst (em_grid e), bo_grid_w := snd (em_grid e)\<rparr> else bo)"

text \<open>Building the bank from what was collected; the answer says whether the callback was called.\<close>

definition register_built ::
  "bank_key \<Rightarrow> bootstrap_state \<Rightarrow> 'ix feature_bank result \<Rightarrow> 'ix detect_stage \<Rightarrow> bool \<times> 'ix detect_stage" where
  "register_built key bo built st =
     (case built of
        Inl err \<Rightarrow> (False, st\<lparr>ds_states := (ds_states st)(key := None)\<rparr>)
      | Inr b \<Rightarrow>
          (ds_callback st,
           st\<lparr>ds_detectors := (ds_detectors st)(key \<mapsto> Some (Patch_Detector
                (bootstrap_patch_core_config (bo_grid_h bo) (bo_grid_w bo)) (set_feature_bank b new_patch_core))),
              ds_stub := False, ds_states := (ds_states st)(key := None)\<rparr>))"

definition finish_bootstrap ::
  "'ix faiss_lib \<Rightarrow> bank_key \<Rightarrow> nat \<Rightarrow> bootstrap_state \<Rightarrow> 'ix detect_stage \<Rightarrow> (bool \<times> 'ix detect_stage) option" where
  "finish_bootstrap lib key d bo st =
     (if d = 0 then None
      else let n = length (bo_vectors bo) div d in
           map_option (\<lambda>built. register_built key bo built st)
             (build_with_greedy_coreset lib [Some \<lparr>em_dim = d, em_count = n, em_data = bo_vectors bo\<rparr>] d (min (ds_target st) n)))"

definition bootstrap_frame ::
  "'ix faiss_lib \<Rightarrow> bank_key \<Rightarrow> stage_embedding \<Rightarrow> 'ix detect_stage \<Rightarrow> (bool \<times> 'ix detect_stage) option" where
  "bootstrap_frame lib key e st =
     (let bo = remember_shape e (case ds_states st key of Some b \<Rightarrow> b | None \<Rightarrow> new_bootstrap);
          patches = fst (em_grid e) * snd (em_grid e)
      in Option.bind (bootstrap_stride (ds_min_frames st) (ds_target st) patches) (\<lambda>stride.
         Option.bind (sampled_patches (em_dim e) patches (em_data e) stride) (\<lambda>more.
           let bo' = bo\<lparr>bo_vectors := bo_vectors bo @ more, bo_frames := bo_frames bo + 1\<rparr>
           in if ds_min_frames st \<le> bo_frames bo' then finish_bootstrap lib key (em_dim e) bo' st
              else Some (False, st\<lparr>ds_states := (ds_states st)(key \<mapsto> bo')\<rparr>))))"

subsection \<open>A frame\<close>

definition default_result :: detection_result where
  "default_result = \<lparr>dr_map = \<lparr>scores = [], grid_h = 0, grid_w = 0\<rparr>, regions = [], image_level_score = Fin False 0,
     inference_latency = 0, global_features = [], dr_surface_id = '''', dr_position_id = 0\<rparr>"

definition carry_forward :: "stage_embedding \<Rightarrow> detection_result \<Rightarrow> detection_result" where
  "carry_forward e r =
     (let r1 = (if sg_features e = [] then r else r\<lparr>global_features := sg_features e\<rparr>);
          r2 = (if sg_surface e = '''' then r1 else r1\<lparr>dr_surface_id := sg_surface e\<rparr>)
      in r2\<lparr>dr_position_id := sg_position e\<rparr>)"

definition put_detector :: "bank_key \<Rightarrow> 'ix stage_detector \<Rightarrow> 'ix detect_stage \<Rightarrow> 'ix detect_stage" where
  "put_detector key dt st =
     (if ds_detectors st key = None then st\<lparr>ds_default := Some dt\<rparr> else st\<lparr>ds_detectors := (ds_detectors st)(key \<mapsto> Some dt)\<rparr>)"

text \<open>An error of the detector is dropped: the result stays the one it was initialised with.\<close>

definition detect_frame ::
  "'ix faiss_lib \<Rightarrow> (dbl \<Rightarrow> dbl) \<Rightarrow> int \<Rightarrow> stage_embedding \<Rightarrow> 'ix detect_stage \<Rightarrow> (detection_result \<times> 'ix detect_stage) option" where
  "detect_frame lib expf latency e st =
     (case (if ds_stub st then None else get_detector (sg_surface e) (sg_position e) st) of
        None \<Rightarrow> Some (carry_forward e default_result, st)
      | Some dt \<Rightarrow>
          map_option (\<lambda>(r, dt').
              (carry_forward e (case r of Inr x \<Rightarrow> x | Inl err \<Rightarrow> default_result), put_detector (sg_surface e, sg_position e) dt' st))
            (run_detector lib expf latency (full_embedding.truncate e) dt))"

text \<open>\<open>Process\<close>; \<open>None\<close> as input is a value that is not an embedding. The flag tells whether the callback of the
  cold start was called.\<close>

definition detect_process ::
  "'ix faiss_lib \<Rightarrow> (dbl \<Rightarrow> dbl) \<Rightarrow> int \<Rightarrow> stage_embedding option \<Rightarrow> 'ix detect_stage \<Rightarrow>
     (detection_result result \<times> bool \<times> 'ix detect_stage) option" where
  "detect_process lib expf latency input st =
     (case input of
        None \<Rightarrow> Some (Inl (ErrorInfo Pipeline_StageTypeMismatch ''Detect expects Embedding input''), False, st)
      | Some e \<Rightarrow>
          let key = (sg_surface e, sg_position e) in
          if ds_detectors st key = None \<and> ds_bootstrap st
          then map_option (\<lambda>(called, st'). (Inr (default_result\<lparr>dr_surface_id := sg_surface e, dr_position_id := sg_position e\<rparr>), called, st'))
                 (bootstrap_frame lib key e st)
          else map_option (\<lambda>(r, st'). (Inr r, False, st')) (detect_frame lib expf latency e st))"

primrec detect_frames ::
  "'ix faiss_lib \<Rightarrow> (dbl \<Rightarrow> dbl) \<Rightarrow> int \<Rightarrow> stage_embedding list \<Rightarrow> 'ix detect_stage \<Rightarrow> (detection_result result list \<times> 'ix detect_stage) option" where
  "detect_frames lib expf latency [] st = Some ([], st)"
| "detect_frames lib expf latency (e # es) st =
     (case detect_process lib expf latency (Some e) st of
        None \<Rightarrow> None
      | Some (r, called, st') \<Rightarrow> map_option (\<lambda>(rs, st''). (r # rs, st'')) (detect_frames lib expf latency es st'))"

subsection \<open>How many patches the cold start collects\<close>

lemma stride_indices_length [simp]: "length (stride_indices n stride) = (n + stride - 1) div stride"
  by (simp add: stride_indices_def)

lemma stride_indices_less:
  assumes "0 < stride" "i \<in> set (stride_indices n stride)"
  shows "i < n"
proof -
  obtain j where j: "i = j * stride" "j < (n + stride - 1) div stride"
    using assms by (auto simp: stride_indices_def)
  then have "Suc j \<le> (n + stride - 1) div stride" by simp
  then have "Suc j * stride \<le> n + stride - 1" using assms(1) by (simp add: less_eq_div_iff_mult_less_eq)
  then show ?thesis using assms(1) j(1) by simp
qed

lemma bootstrap_stride_some:
  assumes "0 < min_frames" "min_frames \<le> target"
  obtains stride where "bootstrap_stride min_frames target n = Some stride" "0 < stride"
    "stride = (if target div min_frames < n then n div (target div min_frames) else 1)"
proof -
  define t where "t = target div min_frames"
  have t: "0 < t" using assms unfolding t_def by (simp add: div_greater_zero_iff)
  have q: "Suc 0 \<le> n div t" if "t < n" using div_le_mono [of t n t] that t by simp
  show thesis
  proof (rule that [of "if t < n then n div t else 1"])
    show "bootstrap_stride min_frames target n = Some (if t < n then n div t else 1)"
      using assms(1) t q by (simp add: bootstrap_stride_def t_def [symmetric] Let_def max_def le_antisym)
  qed (use q in \<open>auto simp: t_def [symmetric] Suc_le_eq\<close>)
qed

lemma stride_count:
  assumes "0 < (t :: nat)" "t < n"
  shows "t \<le> (n + n div t - 1) div (n div t)" "(n + n div t - 1) div (n div t) < 2 * t"
proof -
  define q where "q = n div t"
  have "t div t \<le> n div t" by (rule div_le_mono) (use assms(2) in simp)
  then have q: "0 < q" using assms(1) by (simp add: q_def)
  have lower: "t * q \<le> n" by (simp add: q_def)
  have upper: "n < t * q + t"
    using mod_less_divisor [OF assms(1), of n] mult_div_mod_eq [of t n] unfolding q_def by linarith
  have "t * q \<le> n + q - 1" using lower q by linarith
  then have "t * q div q \<le> (n + q - 1) div q" by (rule div_le_mono)
  then show "t \<le> (n + n div t - 1) div (n div t)" using q by (simp add: q_def)
  obtain a b where ab: "t = Suc a" "q = Suc b" using assms(1) q by (metis gr0_implies_Suc)
  have "t + q \<le> t * q + 1" unfolding ab by simp
  moreover have "2 * t * q = t * q + t * q" by simp
  ultimately have "n + q - 1 < 2 * t * q" using upper q by linarith
  then show "(n + n div t - 1) div (n div t) < 2 * t" using q by (simp add: q_def less_mult_imp_div_less)
qed

text \<open>The stride of the cold start keeps the promise of its comment within a factor of two: a frame with more
  patches than its share of the target contributes at least the share and less than twice the share, a smaller
  frame contributes all its patches.\<close>

theorem bootstrap_sample_size:
  assumes "0 < min_frames" "min_frames \<le> target"
  shows "\<exists>stride. bootstrap_stride min_frames target n = Some stride \<and> 0 < stride \<and>
    min n (target div min_frames) \<le> length (stride_indices n stride) \<and>
    length (stride_indices n stride) < 2 * (target div min_frames) \<and>
    (\<forall>i \<in> set (stride_indices n stride). i < n)"
proof -
  define t where "t = target div min_frames"
  have t: "0 < t" using assms unfolding t_def by (simp add: div_greater_zero_iff)
  obtain stride where s: "bootstrap_stride min_frames target n = Some stride" "0 < stride"
    "stride = (if t < n then n div t else 1)"
    using bootstrap_stride_some [OF assms, of n] unfolding t_def by blast
  have "i < n" if "i \<in> set (stride_indices n stride)" for i
    using stride_indices_less [OF s(2) that] .
  moreover have "min n t \<le> length (stride_indices n stride) \<and> length (stride_indices n stride) < 2 * t"
    using stride_count [OF t, of n] t by (cases "t < n") (simp_all add: s(3))
  ultimately show ?thesis using s unfolding t_def by blast
qed


subsection \<open>What a bootstrapped detector answers\<close>

lemma truncate_grid [simp]: "em_grid (full_embedding.truncate e) = em_grid (e :: stage_embedding)"
  by (simp add: full_embedding.truncate_def)

lemma mismatch_rejected:
  assumes "0 < pk_patch_size cfg" "em_grid e \<noteq> (pk_height cfg div pk_patch_size cfg, pk_width cfg div pk_patch_size cfg)"
  shows "\<exists>err. detect lib expf cfg latency e s = Some (Inl err, s)"
  using assms by (cases "pt_bank s"; cases "em_grid e") (auto simp: detect_def not_loaded_def validate_patch_grid_def Let_def)

lemma pca_mismatch_rejected:
  assumes "0 < pd_patch_size cfg" "em_grid e \<noteq> (pd_height cfg div pd_patch_size cfg, pd_width cfg div pd_patch_size cfg)"
  shows "\<exists>err. pca_detect expf cfg latency e s = Some (Inl err)"
  using assms by (cases s; cases "em_grid e") (auto simp: pca_detect_def not_loaded_def validate_patch_grid_def Let_def)

lemma bootstrap_rejects:
  assumes "em_grid e = (gh, gw)" "(gh, gw) \<noteq> (0, 0)"
  shows "\<exists>err. detect lib expf (bootstrap_patch_core_config gh gw) latency e s = Some (Inl err, s)"
proof (rule mismatch_rejected)
  have "gh div 14 < gh" if "gh \<noteq> 0" using that by simp
  moreover have "gw div 14 < gw" if "gw \<noteq> 0" using that by simp
  ultimately show "em_grid e \<noteq> (pk_height (bootstrap_patch_core_config gh gw) div pk_patch_size (bootstrap_patch_core_config gh gw),
      pk_width (bootstrap_patch_core_config gh gw) div pk_patch_size (bootstrap_patch_core_config gh gw))"
    using assms by (auto simp: bootstrap_patch_core_config_def default_patch_core_config_def)
qed (simp add: bootstrap_patch_core_config_def default_patch_core_config_def)

definition clean_result :: "detection_result \<Rightarrow> bool" where
  "clean_result r \<longleftrightarrow> image_level_score r = Fin False 0 \<and> regions r = [] \<and> scores (dr_map r) = []"

lemma clean_default [simp]: "clean_result default_result" "clean_result (r\<lparr>dr_surface_id := x\<rparr>) = clean_result r"
  "clean_result (r\<lparr>dr_position_id := q\<rparr>) = clean_result r" "clean_result (r\<lparr>global_features := fs\<rparr>) = clean_result r"
  by (simp_all add: clean_result_def default_result_def)

lemma clean_carry [simp]: "clean_result (carry_forward e r) = clean_result r"
  by (simp add: carry_forward_def Let_def)

text \<open>A key in its cold start, or with the detector the cold start registers, for frames of one grid.\<close>

definition cold_key :: "nat \<times> nat \<Rightarrow> bank_key \<Rightarrow> 'ix detect_stage \<Rightarrow> bool" where
  "cold_key g key st \<longleftrightarrow>
     (case ds_detectors st key of
        None \<Rightarrow> ds_bootstrap st \<and> (\<forall>bo. ds_states st key = Some bo \<longrightarrow> bo_dim bo = 0 \<or> (bo_grid_h bo, bo_grid_w bo) = g)
      | Some dt \<Rightarrow> \<exists>s. dt = Some (Patch_Detector (bootstrap_patch_core_config (fst g) (snd g)) s))"

lemma remember_grid:
  assumes "\<And>bo. ds_states st key = Some bo \<Longrightarrow> bo_dim bo = 0 \<or> (bo_grid_h bo, bo_grid_w bo) = em_grid e"
  shows "(bo_grid_h (remember_shape e (case ds_states st key of Some b \<Rightarrow> b | None \<Rightarrow> new_bootstrap)),
      bo_grid_w (remember_shape e (case ds_states st key of Some b \<Rightarrow> b | None \<Rightarrow> new_bootstrap))) = em_grid e"
  using assms by (cases "ds_states st key") (auto simp: remember_shape_def new_bootstrap_def)

lemma finish_keeps_cold:
  assumes "finish_bootstrap lib key d bo st = Some (called, st')" "ds_detectors st key = None" "ds_bootstrap st"
    and "(bo_grid_h bo, bo_grid_w bo) = g"
  shows "cold_key g key st'"
proof -
  obtain built where "register_built key bo built st = (called, st')"
    using assms(1) by (auto simp: finish_bootstrap_def Let_def split: if_splits)
  then show ?thesis
    using assms(2-4) by (cases built) (auto simp: register_built_def cold_key_def)
qed

lemma bootstrap_keeps_cold:
  assumes "cold_key (em_grid e) key st" "ds_detectors st key = None" "bootstrap_frame lib key e st = Some (called, st')"
  shows "cold_key (em_grid e) key st'"
proof -
  define bo where "bo = remember_shape e (case ds_states st key of Some b \<Rightarrow> b | None \<Rightarrow> new_bootstrap)"
  have b: "ds_bootstrap st" and g: "(bo_grid_h bo, bo_grid_w bo) = em_grid e"
    using assms(1,2) remember_grid [of st key e] unfolding bo_def by (auto simp: cold_key_def)
  obtain more where m: "(let bo' = bo\<lparr>bo_vectors := bo_vectors bo @ more, bo_frames := bo_frames bo + 1\<rparr>
      in if ds_min_frames st \<le> bo_frames bo' then finish_bootstrap lib key (em_dim e) bo' st
         else Some (False, st\<lparr>ds_states := (ds_states st)(key \<mapsto> bo')\<rparr>)) = Some (called, st')"
    using assms(3) unfolding bootstrap_frame_def bo_def [symmetric] Let_def by (auto simp: bind_eq_Some_conv)
  show ?thesis
  proof (cases "ds_min_frames st \<le> bo_frames bo + 1")
    case True
    then show ?thesis using m g finish_keeps_cold [OF _ assms(2) b] by (simp add: Let_def)
  next
    case False
    then show ?thesis using m g b assms(2) by (auto simp: Let_def cold_key_def)
  qed
qed

lemma cold_step:
  assumes "cold_key (em_grid e) (sg_surface e, sg_position e) st" "em_grid e \<noteq> (0, 0)"
    and "detect_process lib expf latency (Some e) st = Some (r, called, st')"
  shows "cold_key (em_grid e) (sg_surface e, sg_position e) st' \<and> (\<exists>d. r = Inr d \<and> clean_result d)"
proof (cases "ds_detectors st (sg_surface e, sg_position e)")
  case None
  then have "ds_bootstrap st" using assms(1) by (simp add: cold_key_def)
  then obtain c st1 where "bootstrap_frame lib (sg_surface e, sg_position e) e st = Some (c, st1)" "st' = st1"
    "r = Inr (default_result\<lparr>dr_surface_id := sg_surface e, dr_position_id := sg_position e\<rparr>)"
    using assms(3) None by (auto simp: detect_process_def)
  then show ?thesis using bootstrap_keeps_cold [OF assms(1) None] by simp
next
  case (Some dt)
  define cfg where "cfg = bootstrap_patch_core_config (fst (em_grid e)) (snd (em_grid e))"
  obtain s where s: "dt = Some (Patch_Detector cfg s)" using assms(1) Some by (auto simp: cold_key_def cfg_def)
  obtain err where "detect lib expf cfg latency (full_embedding.truncate e) s = Some (Inl err, s)"
    using bootstrap_rejects [of "full_embedding.truncate e" "fst (em_grid e)" "snd (em_grid e)" lib expf latency s] assms(2)
    unfolding cfg_def by auto
  then have run: "run_detector lib expf latency (full_embedding.truncate e) (Patch_Detector cfg s) = Some (Inl err, Patch_Detector cfg s)"
    by (simp add: run_detector_def)
  obtain d st1 where f: "detect_frame lib expf latency e st = Some (d, st1)" "r = Inr d" "st' = st1"
    using assms(3) Some by (auto simp: detect_process_def)
  show ?thesis
    using f run Some s assms(1)
    by (auto simp: detect_frame_def get_detector_def put_detector_def cold_key_def cfg_def split: if_splits)
qed

lemma cold_frames:
  assumes "cold_key g key st" "g \<noteq> (0, 0)" "\<forall>e \<in> set es. (sg_surface e, sg_position e) = key \<and> em_grid e = g"
    and "detect_frames lib expf latency es st = Some (rs, st')"
  shows "cold_key g key st' \<and> (\<forall>r \<in> set rs. \<exists>d. r = Inr d \<and> clean_result d)"
  using assms(1,3,4)
proof (induction es arbitrary: st rs)
  case (Cons e es)
  obtain r c st1 rs' where p: "detect_process lib expf latency (Some e) st = Some (r, c, st1)"
    "detect_frames lib expf latency es st1 = Some (rs', st')" "rs = r # rs'"
    using Cons.prems(3) by (auto split: option.splits)
  have "cold_key g key st1 \<and> (\<exists>d. r = Inr d \<and> clean_result d)"
    using cold_step [OF _ _ p(1)] Cons.prems(1,2) assms(2) by simp
  then show ?case using Cons.IH [OF _ _ p(2)] Cons.prems(2) p(3) by auto
qed simp

text \<open>C34 A surface that goes through the cold start is never inspected. The detector it registers is configured with the
  patch grid as image size and the default patch size of 14, so it refuses every frame of the grid it was
  built from; the stage drops the error. Every frame of the key, before and after, is answered by a result
  without score, map or region.\<close>

theorem cold_start_never_detects:
  assumes "ds_detectors st key = None" "ds_states st key = None" "ds_bootstrap st"
    and "g \<noteq> (0, 0)" "\<forall>e \<in> set es. (sg_surface e, sg_position e) = key \<and> em_grid e = g"
    and "detect_frames lib expf latency es st = Some (rs, st')"
  shows "\<forall>r \<in> set rs. \<exists>d. r = Inr d \<and> image_level_score d = Fin False 0 \<and> regions d = [] \<and> scores (dr_map d) = []"
proof -
  have "cold_key g key st" using assms(1-3) by (simp add: cold_key_def)
  then show ?thesis using cold_frames [OF _ assms(4-6)] by (fastforce simp: clean_result_def)
qed


subsection \<open>The cold start ends\<close>

lemma greedy_indices_valid:
  assumes "0 < n" "0 < m"
  shows "length (greedy_indices d vs n m) = m" "\<forall>i \<in> set (greedy_indices d vs n m). i < n"
proof -
  obtain more where more: "greedy_indices d vs n m = [0] @ more" "length more = m - 1"
    "\<forall>j < m - 1. furthest_choice d vs n ([0] @ take j more) (more ! j)"
    using select_loop_choices [of "[0]" n "seed_distances d vs n" d vs "m - 1"] assms(1)
    unfolding greedy_indices_def by (auto simp: seed_cover)
  show "length (greedy_indices d vs n m) = m" using more(1,2) assms(2) by simp
  show "\<forall>i \<in> set (greedy_indices d vs n m). i < n"
    using more assms(1) by (auto simp: in_set_conv_nth furthest_choice_def)
qed

lemma greedy_coreset_builds:
  assumes "flat_documented lib" "0 < d" "length vs = n * d" "0 < n" "0 < m"
  shows "\<exists>b. build_with_greedy_coreset lib [Some \<lparr>em_dim = d, em_count = n, em_data = vs\<rparr>] d m = Some (Inr b) \<and>
    bk_num b = min m n \<and> bk_dim b = d"
proof -
  define rows where "rows = greedy_indices d vs n (min m n)"
  have r: "length rows = min m n" "\<forall>i \<in> set rows. i < n"
    unfolding rows_def by (rule greedy_indices_valid; use assms(4,5) in simp)+
  have len: "length (concat (map (row d vs) rows)) = min m n * d"
    using rows_length [OF assms(3) r(2)] r(1) by simp
  obtain b where b: "rebuild lib empty_bank (concat (map (row d vs) rows)) (min m n) d = Some b"
    "extract_all_vectors lib b = Some (concat (map (row d vs) rows))" "bk_dim b = d" "bk_num b = min m n" "bk_index b \<noteq> None"
    by (rule rebuild_extract [OF assms(1,2) len])
  have "collected name nothing [Some \<lparr>em_dim = d, em_count = n, em_data = vs\<rparr>] d = Some (Inr (vs, n))" for name nothing
    using assms(3,4) by (simp add: collected_def)
  then show ?thesis using b by (simp add: build_with_greedy_coreset_def Let_def rows_def [symmetric])
qed

lemma sampled_patches_some:
  assumes "0 < stride" "n * d \<le> length floats"
  shows "\<exists>more. sampled_patches d n floats stride = Some more \<and> length more = length (stride_indices n stride) * d"
proof -
  have read: "i * d + d \<le> length floats" if "i \<in> set (stride_indices n stride)" for i
  proof -
    have "Suc i \<le> n" using stride_indices_less [OF assms(1) that] by simp
    then have "Suc i * d \<le> n * d" by (rule mult_le_mono1)
    then show ?thesis using assms(2) by simp
  qed
  have "map_opt (\<lambda>i. if length floats < i * d + d then None else Some (row d floats i)) (stride_indices n stride) =
      Some (map (row d floats) (stride_indices n stride))"
    by (rule map_opt_eq) (simp add: read leD)
  moreover have "length (concat (map (row d floats) is)) = length is * d" if "\<forall>i \<in> set is. i * d + d \<le> length floats" for "is"
    using that by (induction "is") (auto simp: row_def min_def)
  ultimately show ?thesis using read by (simp add: sampled_patches_def)
qed

text \<open>Frames of one camera: key, grid and dimension agree and the data is complete.\<close>

definition uniform_frame :: "bank_key \<Rightarrow> nat \<times> nat \<Rightarrow> nat \<Rightarrow> stage_embedding \<Rightarrow> bool" where
  "uniform_frame key g d e \<longleftrightarrow>
     (sg_surface e, sg_position e) = key \<and> em_grid e = g \<and> em_dim e = d \<and> fst g * snd g * d \<le> length (em_data e)"

definition collecting :: "bank_key \<Rightarrow> nat \<times> nat \<Rightarrow> nat \<Rightarrow> nat \<Rightarrow> nat \<Rightarrow> 'ix detect_stage \<Rightarrow> bool" where
  "collecting key g d c k st \<longleftrightarrow>
     ds_detectors st key = None \<and> ds_bootstrap st \<and>
     (case ds_states st key of
        None \<Rightarrow> k = 0
      | Some bo \<Rightarrow> bo_frames bo = k \<and> bo_dim bo = d \<and> length (bo_vectors bo) = k * c * d \<and> (bo_grid_h bo, bo_grid_w bo) = g)"

lemma remember_collecting:
  assumes "collecting key g d c k st" "uniform_frame key g d e"
  shows "bo_frames (remember_shape e (case ds_states st key of Some b \<Rightarrow> b | None \<Rightarrow> new_bootstrap)) = k"
    "length (bo_vectors (remember_shape e (case ds_states st key of Some b \<Rightarrow> b | None \<Rightarrow> new_bootstrap))) = k * c * d"
    "bo_dim (remember_shape e (case ds_states st key of Some b \<Rightarrow> b | None \<Rightarrow> new_bootstrap)) = d"
    "(bo_grid_h (remember_shape e (case ds_states st key of Some b \<Rightarrow> b | None \<Rightarrow> new_bootstrap)),
      bo_grid_w (remember_shape e (case ds_states st key of Some b \<Rightarrow> b | None \<Rightarrow> new_bootstrap))) = g"
  using assms by (cases "ds_states st key"; auto simp: collecting_def uniform_frame_def remember_shape_def new_bootstrap_def)+

definition cold_bank :: "bank_key \<Rightarrow> nat \<times> nat \<Rightarrow> nat \<Rightarrow> nat \<Rightarrow> 'ix detect_stage \<Rightarrow> bool" where
  "cold_bank key g d rows st \<longleftrightarrow>
     (\<exists>b. ds_detectors st key = Some (Some (Patch_Detector (bootstrap_patch_core_config (fst g) (snd g)) (set_feature_bank b new_patch_core))) \<and>
        bk_num b = rows \<and> bk_dim b = d) \<and> ds_states st key = None"

lemma collecting_frame:
  assumes "flat_documented lib" "0 < d" "0 < ds_min_frames st" "ds_min_frames st \<le> ds_target st" "0 < fst g * snd g"
    and "bootstrap_stride (ds_min_frames st) (ds_target st) (fst g * snd g) = Some stride" "0 < stride"
    and "c = length (stride_indices (fst g * snd g) stride)"
    and "collecting key g d c k st" "uniform_frame key g d e" "k < ds_min_frames st"
  shows "\<exists>called st'. bootstrap_frame lib key e st = Some (called, st') \<and>
    ds_min_frames st' = ds_min_frames st \<and> ds_target st' = ds_target st \<and>
    (if k + 1 < ds_min_frames st then collecting key g d c (k + 1) st'
     else cold_bank key g d (min (ds_target st) (ds_min_frames st * c)) st')"
proof -
  define bo where "bo = remember_shape e (case ds_states st key of Some b \<Rightarrow> b | None \<Rightarrow> new_bootstrap)"
  note bo = remember_collecting [OF assms(9,10), folded bo_def]
  have e: "em_grid e = g" "em_dim e = d" "fst g * snd g * d \<le> length (em_data e)" "(sg_surface e, sg_position e) = key"
    using assms(10) by (simp_all add: uniform_frame_def)
  obtain more where more: "sampled_patches d (fst g * snd g) (em_data e) stride = Some more" "length more = c * d"
    using sampled_patches_some [OF assms(7) e(3)] assms(8) by blast
  define bo' where "bo' = bo\<lparr>bo_vectors := bo_vectors bo @ more, bo_frames := bo_frames bo + 1\<rparr>"
  have bo': "bo_frames bo' = k + 1" "length (bo_vectors bo') = (k + 1) * c * d" "bo_dim bo' = d" "(bo_grid_h bo', bo_grid_w bo') = g"
    using bo more(2) by (simp_all add: bo'_def algebra_simps)
  have run: "bootstrap_frame lib key e st =
      (if ds_min_frames st \<le> k + 1 then finish_bootstrap lib key d bo' st else Some (False, st\<lparr>ds_states := (ds_states st)(key \<mapsto> bo')\<rparr>))"
    using assms(6) more(1) bo(1) unfolding bootstrap_frame_def bo_def [symmetric] Let_def e(1,2) by (simp add: bo'_def)
  have idle: "ds_detectors st key = None" "ds_bootstrap st" using assms(9) by (simp_all add: collecting_def)
  show ?thesis
  proof (cases "k + 1 < ds_min_frames st")
    case True
    then show ?thesis using run idle bo' by (auto simp: collecting_def)
  next
    case False
    then have k: "k + 1 = ds_min_frames st" using assms(11) by simp
    have c: "0 < c"
    proof -
      have "stride \<le> fst g * snd g + stride - 1" using assms(5) by linarith
      then show ?thesis using assms(7,8) by (simp add: div_greater_zero_iff)
    qed
    have l: "length (bo_vectors bo') = ds_min_frames st * c * d" using bo'(2) unfolding k .
    have n: "length (bo_vectors bo') div d = ds_min_frames st * c" "0 < ds_min_frames st * c"
      "length (bo_vectors bo') = ds_min_frames st * c * d" "0 < ds_target st"
      using l assms(2-4) c by simp_all
    obtain b where b: "build_with_greedy_coreset lib [Some \<lparr>em_dim = d, em_count = ds_min_frames st * c, em_data = bo_vectors bo'\<rparr>] d
        (min (ds_target st) (ds_min_frames st * c)) = Some (Inr b)" "bk_num b = min (ds_target st) (ds_min_frames st * c)" "bk_dim b = d"
      using greedy_coreset_builds [OF assms(1,2) n(3,2), of "min (ds_target st) (ds_min_frames st * c)"] n(2,4) by auto
    have "finish_bootstrap lib key d bo' st = Some (register_built key bo' (Inr b) st)"
      using b(1) n(1) assms(2) by (simp add: finish_bootstrap_def)
    then show ?thesis using run k b(2,3) bo'(4) by (auto simp: register_built_def cold_bank_def)
  qed
qed


lemma collecting_process:
  assumes "collecting key g d c k st" "uniform_frame key g d e" "bootstrap_frame lib key e st = Some (called, st')"
  shows "\<exists>r. detect_process lib expf latency (Some e) st = Some (r, called, st')"
  using assms by (auto simp: detect_process_def collecting_def uniform_frame_def)

lemma collecting_frames:
  assumes "flat_documented lib" "0 < d" "0 < fst g * snd g" "0 < stride"
    and "bootstrap_stride m target (fst g * snd g) = Some stride" "c = length (stride_indices (fst g * snd g) stride)"
    and "0 < m" "m \<le> target"
  shows "collecting key g d c k st \<Longrightarrow> ds_min_frames st = m \<Longrightarrow> ds_target st = target \<Longrightarrow> \<forall>e \<in> set es. uniform_frame key g d e \<Longrightarrow>
    k + length es \<le> m \<Longrightarrow> k < m \<Longrightarrow>
    \<exists>rs st'. detect_frames lib expf latency es st = Some (rs, st') \<and>
      (if k + length es < m then collecting key g d c (k + length es) st' else cold_bank key g d (min target (m * c)) st')"
proof (induction es arbitrary: k st)
  case (Cons e es)
  obtain called st1 where f: "bootstrap_frame lib key e st = Some (called, st1)"
    "ds_min_frames st1 = m" "ds_target st1 = target"
    "if k + 1 < m then collecting key g d c (k + 1) st1 else cold_bank key g d (min target (m * c)) st1"
    using collecting_frame [of lib d st g stride c key k e] assms Cons.prems by auto
  obtain r where p: "detect_process lib expf latency (Some e) st = Some (r, called, st1)"
    using collecting_process [OF Cons.prems(1) _ f(1), of expf latency] Cons.prems(4) by auto
  show ?case
  proof (cases "es = []")
    case True
    then show ?thesis using p f(4) by (simp split: if_splits)
  next
    case False
    then have k: "k + 1 < m" using Cons.prems(5) by (cases es) simp_all
    then have "\<exists>rs st'. detect_frames lib expf latency es st1 = Some (rs, st') \<and>
        (if k + 1 + length es < m then collecting key g d c (k + 1 + length es) st' else cold_bank key g d (min target (m * c)) st')"
      using Cons.IH [of "k + 1" st1] f Cons.prems(4,5) by simp
    then show ?thesis using p by (auto split: if_splits)
  qed
qed auto

text \<open>C33 The cold start ends after exactly the configured number of frames. For frames of one camera, with a target of at
  least one patch per frame, the stage never leaves the defined behaviour; it has no detector for the key before
  the last frame, and then one over a bank whose size is the target or the patches collected, whichever is
  smaller, with between one and two shares of the target from every frame.\<close>

theorem cold_start_completes:
  assumes "flat_documented lib" "0 < d" "0 < fst g * snd g" "0 < ds_min_frames st" "ds_min_frames st \<le> ds_target st"
    and "ds_detectors st key = None" "ds_states st key = None" "ds_bootstrap st"
    and "\<forall>e \<in> set es. uniform_frame key g d e" "length es \<le> ds_min_frames st"
  shows "\<exists>rs st' c. detect_frames lib expf latency es st = Some (rs, st') \<and>
    min (fst g * snd g) (ds_target st div ds_min_frames st) \<le> c \<and> c < 2 * (ds_target st div ds_min_frames st) \<and>
    (if length es < ds_min_frames st then ds_detectors st' key = None
     else cold_bank key g d (min (ds_target st) (ds_min_frames st * c)) st')"
proof -
  obtain stride where s: "bootstrap_stride (ds_min_frames st) (ds_target st) (fst g * snd g) = Some stride" "0 < stride"
    "stride = (if ds_target st div ds_min_frames st < fst g * snd g then fst g * snd g div (ds_target st div ds_min_frames st) else 1)"
    by (rule bootstrap_stride_some [OF assms(4,5)])
  define c where "c = length (stride_indices (fst g * snd g) stride)"
  have t: "0 < ds_target st div ds_min_frames st" using assms(4,5) by (simp add: div_greater_zero_iff)
  have c: "min (fst g * snd g) (ds_target st div ds_min_frames st) \<le> c \<and> c < 2 * (ds_target st div ds_min_frames st)"
    using stride_count [OF t, of "fst g * snd g"] t
    by (cases "ds_target st div ds_min_frames st < fst g * snd g") (simp_all add: s(3) c_def)
  have start: "collecting key g d c 0 st" using assms(6-8) by (simp add: collecting_def)
  obtain rs st' where "detect_frames lib expf latency es st = Some (rs, st')"
    "if length es < ds_min_frames st then collecting key g d c (length es) st'
     else cold_bank key g d (min (ds_target st) (ds_min_frames st * c)) st'"
    using collecting_frames [OF assms(1-3) s(2,1) c_def assms(4,5) start refl refl assms(9), of expf latency] assms(4,10)
    by (auto split: if_splits)
  then show ?thesis using c by (fastforce simp: collecting_def split: if_splits)
qed

subsection \<open>Failures before the detector\<close>

definition inference_fails :: "inference_stage \<Rightarrow> inference_outcome \<Rightarrow> bool" where
  "inference_fails st w \<longleftrightarrow> \<not> iv_allocated w \<or> \<not> iv_uploaded w \<or> (\<exists>err. iv_extracted w = Inl err) \<or>
     (\<exists>e. iv_extracted w = Inr e \<and> em_on_gpu e \<and> iv_download w = None)"

lemma failed_inference_grid:
  assumes "inference_fails ist w" "infer ist w surface position = Some e"
  shows "em_grid e = (0, 0)" "sg_surface e = surface" "sg_position e = position"
proof -
  have "extracted_embedding ist w = empty_embedding"
    using assms(1) by (auto simp: inference_fails_def extracted_embedding_def split: sum.splits)
  then obtain e0 where e0: "with_global_features ist w empty_embedding = Some e0"
    "e = (let e' = (if surface = '''' then e0 else e0\<lparr>sg_surface := surface\<rparr>) in if position = 0 then e' else e'\<lparr>sg_position := position\<rparr>)"
    using assms(2) by (auto simp: infer_def)
  have "em_grid e0 = (0, 0) \<and> sg_surface e0 = '''' \<and> sg_position e0 = 0"
    using e0(1) by (auto simp: with_global_features_def empty_embedding_def split: if_splits sum.splits)
  then show "em_grid e = (0, 0)" "sg_surface e = surface" "sg_position e = position"
    unfolding e0(2) by (auto simp: Let_def)
qed

text \<open>A detector whose configuration has at least one patch.\<close>

definition inspects :: "'ix stage_detector \<Rightarrow> bool" where
  "inspects dt \<longleftrightarrow>
     (case dt of
        Patch_Detector cfg s \<Rightarrow> 0 < pk_patch_size cfg \<and> (pk_height cfg div pk_patch_size cfg, pk_width cfg div pk_patch_size cfg) \<noteq> (0, 0)
      | Pca_Detector cfg s \<Rightarrow> 0 < pd_patch_size cfg \<and> (pd_height cfg div pd_patch_size cfg, pd_width cfg div pd_patch_size cfg) \<noteq> (0, 0))"

lemma empty_grid_rejected:
  assumes "inspects dt" "em_grid e = (0, 0)"
  shows "\<exists>err. run_detector lib expf latency e dt = Some (Inl err, dt)"
proof (cases dt)
  case (Patch_Detector cfg s)
  then obtain err where "detect lib expf cfg latency e s = Some (Inl err, s)"
    using mismatch_rejected [of cfg e lib expf latency s] assms by (auto simp: inspects_def)
  then show ?thesis using Patch_Detector by (simp add: run_detector_def)
next
  case (Pca_Detector cfg s)
  then obtain err where "pca_detect expf cfg latency e s = Some (Inl err)"
    using pca_mismatch_rejected [of cfg e expf latency s] assms by (auto simp: inspects_def)
  then show ?thesis using Pca_Detector by (simp add: run_detector_def)
qed

text \<open>C35 A frame that the GPU could not process is answered like a flawless one. Whatever fails in the inference stage (no slab,
  the upload, the network, the download), the stage hands on an empty embedding as a success; a detector of any
  kind refuses its empty grid, the detection stage drops the error, and the result names the surface with score
  0 and no region.\<close>

theorem failed_inference_passes:
  assumes "inference_fails ist w" "infer ist w surface position = Some e"
    and "get_detector surface position st = Some dt" "inspects dt" "ds_detectors st (surface, position) \<noteq> None \<or> \<not> ds_bootstrap st"
  shows "\<exists>d st'. detect_process lib expf latency (Some e) st = Some (Inr d, False, st') \<and>
    image_level_score d = Fin False 0 \<and> regions d = [] \<and> scores (dr_map d) = [] \<and>
    dr_surface_id d = surface \<and> dr_position_id d = position"
proof -
  note e = failed_inference_grid [OF assms(1,2)]
  obtain err where run: "run_detector lib expf latency (full_embedding.truncate e) dt = Some (Inl err, dt)"
    using empty_grid_rejected [OF assms(4), of "full_embedding.truncate e" lib expf latency] e(1) by auto
  obtain st' where "detect_frame lib expf latency e st = Some (carry_forward e default_result, st')"
    using run assms(3) e(2,3) by (cases "ds_stub st") (auto simp: detect_frame_def)
  moreover have "clean_result (carry_forward e default_result)" by simp
  moreover have "dr_surface_id (carry_forward e default_result) = surface" "dr_position_id (carry_forward e default_result) = position"
    using e(2,3) by (auto simp: carry_forward_def Let_def default_result_def)
  ultimately show ?thesis
    using assms(5) e(2,3) by (auto simp: detect_process_def clean_result_def)
qed

subsection \<open>Batches\<close>

text \<open>The interface \<open>IDetector\<close> as its clients use it: a detection keeps the detector ready, an embedding that fits gets a
  result, the one (\<open>single\<close>) it would get alone, and one that is rejected gets an error. \<open>DetectBatchImpl\<close> is proved against it.\<close>

definition outcome_of :: "(detection_result result \<times> 's) option \<Rightarrow> detection_result option" where
  "outcome_of r = (case r of Some (Inr d, _) \<Rightarrow> Some d | _ \<Rightarrow> None)"

locale detector =
  fixes run :: "'s \<Rightarrow> 'e \<Rightarrow> (detection_result result \<times> 's) option"
    and ready :: "'s \<Rightarrow> bool"
    and fits :: "'e \<Rightarrow> bool"
    and rejects :: "'e \<Rightarrow> bool"
    and single :: "'e \<Rightarrow> detection_result option"
  assumes keeps_ready: "ready s \<Longrightarrow> run s e = Some (r, s') \<Longrightarrow> ready s'"
    and detects: "ready s \<Longrightarrow> fits e \<Longrightarrow> \<exists>r s'. run s e = Some (Inr r, s') \<and> single e = Some r"
    and refuses: "ready s \<Longrightarrow> rejects e \<Longrightarrow> \<exists>err s'. run s e = Some (Inl err, s')"
begin

lemma batch_complete:
  "ready s \<Longrightarrow> list_all fits es \<Longrightarrow>
    \<exists>rs s'. detect_batch run s (map Some es) acc = Some (Inr (acc @ rs), s') \<and> map single es = map Some rs \<and> ready s'"
proof (induction es arbitrary: s acc)
  case (Cons e es)
  obtain r s1 where r: "run s e = Some (Inr r, s1)" "single e = Some r" using detects [OF Cons.prems(1), of e] Cons.prems(2) by auto
  obtain rs s' where "detect_batch run s1 (map Some es) ((acc @ [r])) = Some (Inr ((acc @ [r]) @ rs), s')"
    "map single es = map Some rs" "ready s'"
    using Cons.IH [OF keeps_ready [OF Cons.prems(1) r(1)], of "acc @ [r]"] Cons.prems(2) by auto
  then show ?case using r by (intro exI [of _ "r # rs"] exI [of _ s']) simp
qed simp

lemma batch_error:
  assumes "ready s" "list_all fits es" "bad = None \<or> (\<exists>e. bad = Some e \<and> rejects e)"
  shows "\<exists>err s'. detect_batch run s (map Some es @ bad # rest) acc = Some (Inl err, s')"
  using assms(1,2)
proof (induction es arbitrary: s acc)
  case Nil
  then show ?case using assms(3) refuses by (cases bad) fastforce+
next
  case (Cons e es)
  obtain r s1 where r: "run s e = Some (Inr r, s1)" using detects [OF Cons.prems(1), of e] Cons.prems(2) by auto
  show ?case using Cons.IH [OF keeps_ready [OF Cons.prems(1) r], of "acc @ [r]"] Cons.prems(2) r by simp
qed

end

text \<open>The search and the scores are those of the bank the detector starts with; a detection never changes it.\<close>

definition same_model :: "'ix patch_core \<Rightarrow> 'ix patch_core \<Rightarrow> bool" where
  "same_model s0 s \<longleftrightarrow> s = s0\<lparr>pt_context := pt_context s\<rparr>"

definition patch_core_fits :: "'ix faiss_lib \<Rightarrow> patch_core_config \<Rightarrow> 'ix patch_core \<Rightarrow> full_embedding \<Rightarrow> bool" where
  "patch_core_fits lib cfg s0 e \<longleftrightarrow>
     (let (gh, gw) = em_grid e in
      0 < pk_patch_size cfg \<and> (gh, gw) = (pk_height cfg div pk_patch_size cfg, pk_width cfg div pk_patch_size cfg) \<and>
      0 < gh \<and> 0 < gw \<and> gh \<le> 2 ^ 24 \<and> gw \<le> 2 ^ 24 \<and> pk_sigma cfg \<le> 2 ^ 22 \<and> pk_height cfg * pk_width cfg < 2 ^ 64 \<and>
      gh * gw * pk_embed_dim cfg \<le> length (em_data e) \<and>
      (\<exists>b distances sc. pt_bank s0 = Some b \<and> detect_scores lib cfg s0 b (em_data e) (gh * gw) = Some (Inr (distances, sc)) \<and>
         length sc = gh * gw))"

definition patch_core_rejects :: "patch_core_config \<Rightarrow> full_embedding \<Rightarrow> bool" where
  "patch_core_rejects cfg e \<longleftrightarrow>
     0 < pk_patch_size cfg \<and> em_grid e \<noteq> (pk_height cfg div pk_patch_size cfg, pk_width cfg div pk_patch_size cfg)"

lemma context_scores [simp]: "detect_scores lib cfg (s\<lparr>pt_context := c\<rparr>) b q n = detect_scores lib cfg s b q n"
proof -
  have f: "pt_whitening (s\<lparr>pt_context := c\<rparr>) = pt_whitening s" "pt_ref_dist (s\<lparr>pt_context := c\<rparr>) = pt_ref_dist s"
    "pt_pca (s\<lparr>pt_context := c\<rparr>) = pt_pca s" by simp_all
  show ?thesis unfolding detect_scores_def f by (rule refl)
qed

lemma same_model_scores: "same_model s0 s \<Longrightarrow> detect_scores lib cfg s b q n = detect_scores lib cfg s0 b q n"
  unfolding same_model_def by (metis context_scores)

lemma same_model_bank: "same_model s0 s \<Longrightarrow> pt_bank s = pt_bank s0"
  by (cases s; cases s0) (simp add: same_model_def)

lemma same_model_threshold: "same_model s0 s \<Longrightarrow> pt_threshold s = pt_threshold s0"
  by (cases s; cases s0) (simp add: same_model_def)

lemma detect_changes_context:
  "detect lib expf cfg latency e s = Some (r, s') \<Longrightarrow> same_model s s'"
  by (cases "em_grid e") (auto simp: detect_def same_model_def not_loaded_def Let_def split: option.splits sum.splits if_splits)

lemma same_model_trans: "same_model s0 s \<Longrightarrow> same_model s s' \<Longrightarrow> same_model s0 s'"
  by (cases s; cases s'; cases s0) (simp add: same_model_def)

interpretation patch_core_detector: detector "\<lambda>s e. detect lib expf cfg latency e s" "same_model s0"
    "patch_core_fits lib cfg s0" "patch_core_rejects cfg" "\<lambda>e. outcome_of (detect lib expf cfg latency e s0)"
  for lib :: "'ix faiss_lib" and expf cfg latency s0
proof unfold_locales
  fix s s' :: "'ix patch_core" and e r
  assume "same_model s0 s" "detect lib expf cfg latency e s = Some (r, s')"
  then show "same_model s0 s'" using detect_changes_context same_model_trans by blast
next
  fix s :: "'ix patch_core" and e
  assume r: "same_model s0 s" and f: "patch_core_fits lib cfg s0 e"
  obtain gh gw where g: "em_grid e = (gh, gw)" by (cases "em_grid e")
  obtain b distances sc where b: "pt_bank s0 = Some b" "detect_scores lib cfg s0 b (em_data e) (gh * gw) = Some (Inr (distances, sc))"
    "length sc = gh * gw"
    using f g by (auto simp: patch_core_fits_def)
  obtain res where "build_detection_result expf sc gh gw (pk_height cfg) (pk_width cfg) (pk_sigma cfg) (pt_threshold s0) latency = Some res"
    using build_detection_result_run [OF b(3), of "pk_sigma cfg" "pk_height cfg" "pk_width cfg" expf "pt_threshold s0" latency] f g
    by (auto simp: patch_core_fits_def)
  then have "\<exists>t'. detect lib expf cfg latency e t = Some (Inr res, t')" if t: "same_model s0 t" for t
    using f g b same_model_bank [OF t] same_model_threshold [OF t] same_model_scores [OF t, of lib cfg b "em_data e" "gh * gw"]
    by (auto simp: patch_core_fits_def detect_def validate_patch_grid_def)
  from this [OF r] this [of s0] show "\<exists>res s'. detect lib expf cfg latency e s = Some (Inr res, s') \<and>
      outcome_of (detect lib expf cfg latency e s0) = Some res"
    by (auto simp: same_model_def outcome_of_def)
next
  fix s :: "'ix patch_core" and e
  assume "same_model s0 s" "patch_core_rejects cfg e"
  then show "\<exists>err s'. detect lib expf cfg latency e s = Some (Inl err, s')"
    using mismatch_rejected [of cfg e lib expf latency s] by (auto simp: patch_core_rejects_def)
qed

definition pca_fits :: "pca_detector_config \<Rightarrow> pca_params option \<Rightarrow> full_embedding \<Rightarrow> bool" where
  "pca_fits cfg s0 e \<longleftrightarrow>
     (let (gh, gw) = em_grid e in
      0 < pd_patch_size cfg \<and> (gh, gw) = (pd_height cfg div pd_patch_size cfg, pd_width cfg div pd_patch_size cfg) \<and>
      0 < gh \<and> 0 < gw \<and> gh \<le> 2 ^ 24 \<and> gw \<le> 2 ^ 24 \<and> pd_sigma cfg \<le> 2 ^ 22 \<and> pd_height cfg * pd_width cfg < 2 ^ 64 \<and>
      (\<exists>p sc. s0 = Some p \<and> pca_score p (em_data e) (gh * gw) (pd_method cfg) (pd_drop_k cfg) = Some sc \<and> length sc = gh * gw))"

definition pca_rejects :: "pca_detector_config \<Rightarrow> full_embedding \<Rightarrow> bool" where
  "pca_rejects cfg e \<longleftrightarrow>
     0 < pd_patch_size cfg \<and> em_grid e \<noteq> (pd_height cfg div pd_patch_size cfg, pd_width cfg div pd_patch_size cfg)"

lemma scaled_length [simp]: "length (scaled_to_max xs) = length xs"
  by (simp add: scaled_to_max_def Let_def)

lemma pca_detects:
  assumes "pca_fits cfg s e"
  shows "\<exists>res. pca_detect expf cfg latency e s = Some (Inr res)"
proof -
  obtain gh gw where g: "em_grid e = (gh, gw)" by (cases "em_grid e")
  obtain p sc where p: "s = Some p" "pca_score p (em_data e) (gh * gw) (pd_method cfg) (pd_drop_k cfg) = Some sc" "length sc = gh * gw"
    using assms g by (auto simp: pca_fits_def)
  have "sc \<noteq> []" using p(3) assms g by (auto simp: pca_fits_def)
  then obtain x xs where sc: "sc = x # xs" by (cases sc) simp_all
  have l: "length (scaled_to_max sc) = gh * gw" using p(3) by simp
  obtain res where "build_detection_result expf (scaled_to_max sc) gh gw (pd_height cfg) (pd_width cfg) (pd_sigma cfg) (pd_threshold cfg) latency = Some res"
    using build_detection_result_run [OF l, of "pd_sigma cfg" "pd_height cfg" "pd_width cfg" expf "pd_threshold cfg" latency] assms g
    by (auto simp: pca_fits_def)
  then show ?thesis using assms g p(1,2) unfolding sc by (auto simp: pca_fits_def pca_detect_def validate_patch_grid_def)
qed

interpretation pca_detector: detector "\<lambda>s e. map_option (\<lambda>r. (r, s)) (pca_detect expf cfg latency e s)" "\<lambda>s. s = s0"
    "pca_fits cfg s0" "pca_rejects cfg" "\<lambda>e. outcome_of (map_option (\<lambda>r. (r, s0)) (pca_detect expf cfg latency e s0))"
  for expf cfg latency s0
proof unfold_locales
  fix s e assume "s = s0" "pca_fits cfg s0 e"
  then show "\<exists>res s'. map_option (\<lambda>r. (r, s)) (pca_detect expf cfg latency e s) = Some (Inr res, s') \<and>
      outcome_of (map_option (\<lambda>r. (r, s0)) (pca_detect expf cfg latency e s0)) = Some res"
    using pca_detects [of cfg s0 e expf latency] by (auto simp: outcome_of_def)
next
  fix s e assume "s = s0" "pca_rejects cfg e"
  then show "\<exists>err s'. map_option (\<lambda>r. (r, s)) (pca_detect expf cfg latency e s) = Some (Inl err, s')"
    using pca_mismatch_rejected [of cfg e expf latency s] by (auto simp: pca_rejects_def)
qed auto

text \<open>C36 A batch is all or nothing, for both detectors. When every embedding fits the detector (its grid is the one of the
  configuration, its data is complete and can be scored against the model), the batch returns, in order, the result that
  each embedding gets alone; if then a null pointer or an embedding of another grid follows, the whole batch is an error and
  the results before it are lost. (With an embedding of the right grid that cannot be scored, a detection
  may end neither way, see \<open>Patch_Core\<close>.)\<close>

theorem detect_batch_all_or_nothing:
  "(list_all (patch_core_fits lib cfg s) es \<longrightarrow>
      (\<exists>rs s'. detect_batch (\<lambda>s e. detect lib expf cfg latency e s) s (map Some es) [] = Some (Inr rs, s') \<and>
         map (\<lambda>e. outcome_of (detect lib expf cfg latency e s)) es = map Some rs \<and> pt_bank s' = pt_bank s) \<and>
      (bad = None \<or> (\<exists>e. bad = Some e \<and> patch_core_rejects cfg e) \<longrightarrow>
         (\<exists>err s'. detect_batch (\<lambda>s e. detect lib expf cfg latency e s) s (map Some es @ bad # rest) [] = Some (Inl err, s')))) \<and>
   (list_all (pca_fits pcfg p) es \<longrightarrow>
      (\<exists>rs. detect_batch (\<lambda>s e. map_option (\<lambda>r. (r, s)) (pca_detect expf pcfg latency e s)) p (map Some es) [] = Some (Inr rs, p) \<and>
         map (\<lambda>e. outcome_of (map_option (\<lambda>r. (r, p)) (pca_detect expf pcfg latency e p))) es = map Some rs) \<and>
      (bad = None \<or> (\<exists>e. bad = Some e \<and> pca_rejects pcfg e) \<longrightarrow>
         (\<exists>err s'. detect_batch (\<lambda>s e. map_option (\<lambda>r. (r, s)) (pca_detect expf pcfg latency e s)) p (map Some es @ bad # rest) [] =
            Some (Inl err, s'))))"
proof (intro conjI impI)
  have r: "same_model s s" by (simp add: same_model_def)
  assume f: "list_all (patch_core_fits lib cfg s) es"
  show "\<exists>rs s'. detect_batch (\<lambda>s e. detect lib expf cfg latency e s) s (map Some es) [] = Some (Inr rs, s') \<and>
      map (\<lambda>e. outcome_of (detect lib expf cfg latency e s)) es = map Some rs \<and> pt_bank s' = pt_bank s"
    using patch_core_detector.batch_complete [OF r f, of expf latency "[]"] same_model_bank [of s] by auto
  show "\<exists>err s'. detect_batch (\<lambda>s e. detect lib expf cfg latency e s) s (map Some es @ bad # rest) [] = Some (Inl err, s')"
    if "bad = None \<or> (\<exists>e. bad = Some e \<and> patch_core_rejects cfg e)"
    by (rule patch_core_detector.batch_error [OF r f that])
next
  assume f: "list_all (pca_fits pcfg p) es"
  show "\<exists>rs. detect_batch (\<lambda>s e. map_option (\<lambda>r. (r, s)) (pca_detect expf pcfg latency e s)) p (map Some es) [] = Some (Inr rs, p) \<and>
      map (\<lambda>e. outcome_of (map_option (\<lambda>r. (r, p)) (pca_detect expf pcfg latency e p))) es = map Some rs"
    using pca_detector.batch_complete [OF refl f, of expf latency "[]"] by auto
  show "\<exists>err s'. detect_batch (\<lambda>s e. map_option (\<lambda>r. (r, s)) (pca_detect expf pcfg latency e s)) p (map Some es @ bad # rest) [] =
      Some (Inl err, s')" if "bad = None \<or> (\<exists>e. bad = Some e \<and> pca_rejects pcfg e)"
    by (rule pca_detector.batch_error [OF refl f that])
qed

subsection \<open>Witnesses\<close>

text \<open>A camera with a grid of one by two patches of dimension one.\<close>

definition tiny_frame :: "dbl \<Rightarrow> dbl \<Rightarrow> stage_embedding" where
  "tiny_frame x y = empty_embedding\<lparr>em_dim := 1, em_count := 2, em_data := [x, y], em_grid := (1, 2), sg_surface := ''s'', sg_position := 1\<rparr>"

definition cold_stage :: "(nat option \<times> nat \<times> dbl list) detect_stage" where
  "cold_stage = set_bootstrap_config True 1 1 new_detect_stage"

lemma cold_stage_start:
  "ds_detectors cold_stage k = None" "ds_states cold_stage k = None" "ds_bootstrap cold_stage"
  "ds_min_frames cold_stage = 1" "ds_target cold_stage = 1"
  by (simp_all add: cold_stage_def set_bootstrap_config_def new_detect_stage_def)

lemma tiny_uniform: "uniform_frame (''s'', 1) (1, 2) 1 (tiny_frame x y)"
  by (simp add: uniform_frame_def tiny_frame_def empty_embedding_def)

theorem bootstrap_sample_size_witness:
  "\<exists>stride. bootstrap_stride 50 10000 1369 = Some stride \<and> 0 < stride \<and> 200 \<le> length (stride_indices 1369 stride)"
  using bootstrap_sample_size [of 50 10000 1369] by auto

theorem cold_start_completes_witness:
  "\<exists>rs st'. detect_frames tiny_faiss (\<lambda>_. Fin False 1) 0 [tiny_frame (Fin False 0) (Fin False 1)] cold_stage = Some (rs, st') \<and>
    cold_bank (''s'', 1) (1, 2) 1 1 st'"
proof -
  have h: "\<forall>e \<in> set [tiny_frame (Fin False 0) (Fin False 1)]. uniform_frame (''s'', 1) (1, 2) 1 e" using tiny_uniform by simp
  obtain rs st' c where r: "detect_frames tiny_faiss (\<lambda>_. Fin False 1) 0 [tiny_frame (Fin False 0) (Fin False 1)] cold_stage = Some (rs, st')"
    "1 \<le> c" "cold_bank (''s'', 1) (1, 2) 1 (min 1 (1 * c)) st'"
    using cold_start_completes [OF tiny_faiss_documented(1) _ _ _ _ cold_stage_start(1-3) h, of "\<lambda>_. Fin False 1" 0]
    by (auto simp: cold_stage_start simp del: detect_frames.simps)
  moreover have "min 1 (1 * c) = 1" using r(2) by simp
  ultimately show ?thesis by metis
qed

lemma cold_stage_runs:
  "\<exists>rs st'. detect_frames tiny_faiss (\<lambda>_. Fin False 1) 0 [tiny_frame (Fin False 0) (Fin False 1)] cold_stage = Some (rs, st')"
proof -
  have h: "\<forall>e \<in> set [tiny_frame (Fin False 0) (Fin False 1)]. uniform_frame (''s'', 1) (1, 2) 1 e" using tiny_uniform by simp
  have s: "collecting (''s'', 1) (1, 2) 1 1 0 cold_stage" by (simp add: cold_stage_start collecting_def)
  show ?thesis
    using collecting_frames [OF tiny_faiss_documented(1) _ _ _ _ _ _ _ s _ _ h, of 2 1 1 "\<lambda>_. Fin False 1" 0]
    by (auto simp: cold_stage_start bootstrap_stride_def simp del: detect_frames.simps)
qed

theorem cold_start_never_detects_witness:
  "\<exists>rs st'. detect_frames tiny_faiss (\<lambda>_. Fin False 1) 0 [tiny_frame (Fin False 0) (Fin False 1)] cold_stage = Some (rs, st') \<and>
    (\<forall>r \<in> set rs. \<exists>d. r = Inr d \<and> image_level_score d = Fin False 0)"
proof -
  obtain rs st' where run: "detect_frames tiny_faiss (\<lambda>_. Fin False 1) 0 [tiny_frame (Fin False 0) (Fin False 1)] cold_stage = Some (rs, st')"
    using cold_stage_runs by blast
  have h: "\<forall>e \<in> set [tiny_frame (Fin False 0) (Fin False 1)]. (sg_surface e, sg_position e) = (''s'', 1) \<and> em_grid e = (1, 2)"
    using tiny_uniform by (simp add: uniform_frame_def)
  have "\<forall>r \<in> set rs. \<exists>d. r = Inr d \<and> image_level_score d = Fin False 0 \<and> regions d = [] \<and> scores (dr_map d) = []"
    by (rule cold_start_never_detects [OF cold_stage_start(1-3) _ h run]) simp
  then show ?thesis using run by blast
qed

definition broken_gpu :: inference_outcome where
  "broken_gpu = \<lparr>iv_allocated = True, iv_uploaded = False, iv_extracted = Inr empty_embedding, iv_download = None,
     iv_global_result = Inr empty_embedding\<rparr>"

theorem failed_inference_passes_witness:
  "\<exists>e d st'. infer \<lparr>iv_stub = False, iv_embedder = True, iv_pool = True, iv_global = False\<rparr> broken_gpu ''top'' 3 = Some e \<and>
    detect_process tiny_faiss (\<lambda>_. Fin False 1) 0 (Some e)
      (set_detector (Some (Patch_Detector default_patch_core_config (set_feature_bank tiny_bank new_patch_core))) new_detect_stage) =
      Some (Inr d, False, st') \<and>
    image_level_score d = Fin False 0"
proof -
  let ?ist = "\<lparr>iv_stub = False, iv_embedder = True, iv_pool = True, iv_global = False\<rparr>"
  let ?dt = "Patch_Detector default_patch_core_config (set_feature_bank tiny_bank new_patch_core)"
  let ?st = "set_detector (Some ?dt) new_detect_stage"
  have f: "inference_fails ?ist broken_gpu" by (simp add: inference_fails_def broken_gpu_def)
  obtain e where e: "infer ?ist broken_gpu ''top'' 3 = Some e"
    by (simp add: infer_def with_global_features_def Let_def)
  have d: "get_detector ''top'' 3 ?st = Some ?dt" "inspects ?dt" "ds_detectors ?st (''top'', 3) \<noteq> None \<or> \<not> ds_bootstrap ?st"
    by (simp_all add: get_detector_def set_detector_def new_detect_stage_def inspects_def default_patch_core_config_def)
  show ?thesis using failed_inference_passes [OF f e d, of tiny_faiss "\<lambda>_. Fin False 1" 0] e by blast
qed

theorem detect_batch_all_or_nothing_witness:
  "\<exists>err s'. detect_batch (\<lambda>s e. detect tiny_faiss (\<lambda>_. Fin False 1) default_patch_core_config 0 e s) new_patch_core
     [Some (one_patch [Fin False 1])] [] = Some (Inl err, s')"
proof -
  have "patch_core_rejects default_patch_core_config (one_patch [Fin False 1])"
    by (simp add: patch_core_rejects_def default_patch_core_config_def one_patch_def coreset_embedding_def)
  then show ?thesis
    using detect_batch_all_or_nothing [of tiny_faiss default_patch_core_config new_patch_core "[]" "\<lambda>_. Fin False 1" 0
        "Some (one_patch [Fin False 1])" "[]" tiny_pca_config None] by auto
qed

end
