(* ===== verification/Image_Buffer.thy ===== *)
theory Image_Buffer
  imports Connected_Components Double_Order Option_Lists
begin

text \<open>
  Images and regions of interest (\<open>include/sai/image/image.h\<close>, \<open>src/image/image.cpp\<close>, \<open>raw_image.cpp\<close>,
  \<open>surface_image.cpp\<close>, \<open>roi.cpp\<close>): the meta data of a frame, its bytes, and cropping. The rectangle of a region and all
  sizes and offsets that are computed from it are kept at 64 bits, where they wrap.
\<close>

subsection \<open>Images\<close>

datatype pixel_format = Mono8 | Mono10 | Mono12 | Mono16 | BayerRG8 | BayerRG10 | BayerRG12 | BayerRG16
  | RGB8 | BGR8 | RGB16 | Undefined_Format

record image_meta =
  im_width :: nat
  im_height :: nat
  im_channels :: nat
  im_format :: pixel_format
  im_bits :: nat
  im_timestamp :: int
  im_frame :: "32 word"
  im_surface :: string
  im_position :: "16 word"
  im_light :: "16 word"

text \<open>The dynamic type of an \<open>Image\<close>. The data are the bytes the host may read: an image on the GPU has none. Their number is
  the size of the image; the sizes computed below are those of images that exist, below \<open>2^64\<close>.\<close>

datatype image_kind = Raw_Image | Surface_Image | Gpu_Image

record image =
  img_kind :: image_kind
  img_meta :: image_meta
  img_data :: "8 word list"

definition bytes_per_channel :: "pixel_format \<Rightarrow> nat" where
  "bytes_per_channel f = (if f \<in> {Mono10, BayerRG10, Mono12, BayerRG12, Mono16, BayerRG16, RGB16} then 2 else 1)"

definition bytes_per_pixel :: "image_meta \<Rightarrow> nat" where
  "bytes_per_pixel m = im_channels m * bytes_per_channel (im_format m)"

definition byte_size :: "image_meta \<Rightarrow> nat" where
  "byte_size m = im_width m * im_height m * bytes_per_pixel m"

definition surface_image :: "8 word list \<Rightarrow> image_meta \<Rightarrow> image" where
  "surface_image bytes m = \<lparr>img_kind = Surface_Image, img_meta = m, img_data = bytes\<rparr>"

text \<open>The data is as long as the meta data says.\<close>

definition image_ok :: "image \<Rightarrow> bool" where
  "image_ok i \<longleftrightarrow> length (img_data i) = byte_size (img_meta i)"

subsection \<open>Regions of interest\<close>

definition empty_rect :: rect where
  "empty_rect = \<lparr>rect_x = 0, rect_y = 0, rect_width = 0, rect_height = 0\<rparr>"

definition bounding_rect :: "rect list \<Rightarrow> rect" where
  "bounding_rect rs =
     (case rs of
        [] \<Rightarrow> empty_rect
      | r # _ \<Rightarrow>
          let min_x = fold (\<lambda>q m. min m (rect_x q)) rs (rect_x r);
              min_y = fold (\<lambda>q m. min m (rect_y q)) rs (rect_y r);
              max_x = fold (\<lambda>q m. max m (rect_x q + rect_width q)) rs (rect_x r + rect_width r);
              max_y = fold (\<lambda>q m. max m (rect_y q + rect_height q)) rs (rect_y r + rect_height r)
          in \<lparr>rect_x = min_x, rect_y = min_y, rect_width = max_x - min_x, rect_height = max_y - min_y\<rparr>)"

definition roi_mismatch :: "string \<Rightarrow> 'a result" where
  "roi_mismatch m = Inl (ErrorInfo Image_DimensionMismatch m)"

text \<open>The row of bytes \<open>memcpy\<close> copies.\<close>

definition copied_row :: "8 word list \<Rightarrow> nat \<Rightarrow> nat \<Rightarrow> 8 word list option" where
  "copied_row bytes start n = (if length bytes < start + n then None else Some (take n (drop start bytes)))"

text \<open>
  How \<open>Apply\<close> ends: it returns, the allocation of the new buffer throws (\<open>std::vector\<close> refuses sizes from \<open>2^63\<close> on, and
  the allocator may fail), or an access leaves one of the two buffers. A copy of no bytes accesses
  nothing.
\<close>

datatype 'a memory_outcome = Returned 'a | Allocation_Throws | Out_Of_Bounds

definition read_row :: "8 word list \<Rightarrow> 64 word \<Rightarrow> 64 word \<Rightarrow> 8 word list option" where
  "read_row bytes start n = (if n = 0 then Some [] else copied_row bytes (unat start) (unat n))"

definition write_row :: "64 word \<Rightarrow> 8 word list \<Rightarrow> 8 word list \<Rightarrow> 8 word list option" where
  "write_row start row buf =
     (if row = [] then Some buf
      else if length buf < unat start + length row then None
      else Some (take (unat start) buf @ row @ drop (unat start + length row) buf))"

fun copy_rows :: "(nat \<Rightarrow> 8 word list option) \<Rightarrow> (nat \<Rightarrow> 64 word) \<Rightarrow> nat list \<Rightarrow> 8 word list \<Rightarrow> 8 word list option" where
  "copy_rows rd off [] buf = Some buf"
| "copy_rows rd off (k # ks) buf =
     Option.bind (rd k) (\<lambda>row. Option.bind (write_row (off k) row buf) (copy_rows rd off ks))"

definition roi_apply :: "(nat \<Rightarrow> bool) \<Rightarrow> image \<Rightarrow> rect list \<Rightarrow> image result memory_outcome" where
  "roi_apply can_alloc src roi =
     (case roi of
        [] \<Rightarrow> Returned (roi_mismatch ''ROI has no regions to apply'')
      | r # _ \<Rightarrow>
          let m = img_meta src in
          if rect_width r = 0 \<or> rect_height r = 0 \<or> im_width m < unat (rect_x r + rect_width r) \<or>
             im_height m < unat (rect_y r + rect_height r)
          then Returned (roi_mismatch ''ROI region exceeds source image bounds'')
          else
            let bpp = of_nat (bytes_per_pixel m); src_stride = of_nat (im_width m) * bpp;
                dst_stride = rect_width r * bpp; size = unat (dst_stride * rect_height r) in
            if 2 ^ 63 \<le> size \<or> \<not> can_alloc size then Allocation_Throws
            else case copy_rows
                   (\<lambda>row. read_row (img_data src) ((rect_y r + of_nat row) * src_stride + rect_x r * bpp) dst_stride)
                   (\<lambda>row. of_nat row * dst_stride) [0..<unat (rect_height r)] (replicate size 0) of
                 None \<Rightarrow> Out_Of_Bounds
               | Some bytes \<Rightarrow> Returned (Inr (surface_image bytes
                   (m\<lparr>im_width := unat (rect_width r), im_height := unat (rect_height r)\<rparr>))))"

subsection \<open>Cropping\<close>

text \<open>The bytes of a pixel.\<close>

definition pixel_at :: "image \<Rightarrow> nat \<Rightarrow> nat \<Rightarrow> 8 word list" where
  "pixel_at i y x =
     take (bytes_per_pixel (img_meta i)) (drop ((y * im_width (img_meta i) + x) * bytes_per_pixel (img_meta i)) (img_data i))"

definition inside :: "rect \<Rightarrow> image_meta \<Rightarrow> bool" where
  "inside r m \<longleftrightarrow> unat (rect_x r) + unat (rect_width r) \<le> im_width m \<and> unat (rect_y r) + unat (rect_height r) \<le> im_height m"

lemma take_drop_concat:
  "y < length rows \<Longrightarrow> \<forall>r \<in> set rows. length r = n \<Longrightarrow> j + k \<le> n \<Longrightarrow>
    take k (drop (y * n + j) (concat rows)) = take k (drop j (rows ! y))"
proof (induction rows arbitrary: y)
  case (Cons r rows)
  show ?case
  proof (cases y)
    case 0
    then show ?thesis using Cons.prems by simp
  next
    case (Suc y')
    then have "drop (y * n + j) (r @ concat rows) = drop (y' * n + j) (concat rows)" using Cons.prems by simp
    then show ?thesis using Cons.IH [of y'] Cons.prems Suc by simp
  qed
qed simp

lemma take_drop_take: "j + k \<le> n \<Longrightarrow> take k (drop j (take n (drop s xs))) = take k (drop (s + j) xs)"
  by (simp add: drop_take add.commute min_absorb1)

lemma unat_sum: "unat (a :: 64 word) + unat b < 2 ^ 64 \<Longrightarrow> unat (a + b) = unat a + unat b"
  by (simp add: unat_word_ariths)

lemma row_inside:
  assumes "x + w \<le> W" "y + row < (H :: nat)"
  shows "(y + row) * (W * bpp) + x * bpp + w * bpp \<le> W * H * bpp"
proof -
  have "x * bpp + w * bpp \<le> W * bpp" using mult_le_mono1 [OF assms(1), of bpp] by (simp add: add_mult_distrib)
  then have "(y + row) * (W * bpp) + x * bpp + w * bpp \<le> Suc (y + row) * (W * bpp)" by simp
  also have "\<dots> \<le> H * (W * bpp)" using assms(2) by (intro mult_le_mono1) simp
  finally show ?thesis by (simp add: mult.commute mult.left_commute)
qed

lemma word_product: "unat (a :: 64 word) * unat b < 2 ^ 64 \<Longrightarrow> unat (a * b) = unat a * unat b"
  by (simp add: unat_word_ariths)

lemma small_word: "n < 2 ^ 64 \<Longrightarrow> unat (of_nat n :: 64 word) = n"
  by (simp add: unat_of_nat take_bit_nat_eq_self)

text \<open>Writing the rows of equal length one after the other fills the buffer with their concatenation.\<close>

lemma write_next_row:
  assumes "length row = n" "unat start = length done_bytes" "0 < n"
  shows "write_row start row (done_bytes @ replicate (n + rest) 0) = Some ((done_bytes @ row) @ replicate rest 0)"
  using assms by (auto simp: write_row_def)

lemma copy_rows_fill:
  assumes "\<forall>k < h. rd k = Some (f k) \<and> length (f k) = n \<and> unat (off k) = k * n" "0 < n"
  shows "i \<le> h \<Longrightarrow> copy_rows rd off [i..<h] (concat (map f [0..<i]) @ replicate ((h - i) * n) 0) = Some (concat (map f [0..<h]))"
proof (induction "h - i" arbitrary: i)
  case (Suc d)
  then have i: "i < h" by simp
  have len: "length (concat (map f [0..<k])) = k * n" if "k \<le> h" for k
    using that by (induction k) (use assms(1) in \<open>simp_all add: Suc_le_eq\<close>)
  have rest: "(h - i) * n = n + (h - Suc i) * n" using i by (metis Suc_diff_Suc mult_Suc)
  have w: "write_row (off i) (f i) (concat (map f [0..<i]) @ replicate ((h - i) * n) 0) =
      Some ((concat (map f [0..<i]) @ f i) @ replicate ((h - Suc i) * n) 0)"
    unfolding rest using assms i len [of i] by (intro write_next_row) auto
  have "copy_rows rd off [Suc i..<h] (concat (map f [0..<Suc i]) @ replicate ((h - Suc i) * n) 0) = Some (concat (map f [0..<h]))"
    using Suc i by (intro Suc.hyps(1)) simp_all
  then have "copy_rows rd off [Suc i..<h] ((concat (map f [0..<i]) @ f i) @ replicate ((h - Suc i) * n) 0) = Some (concat (map f [0..<h]))"
    by simp
  then show ?case using w assms(1) i by (simp add: upt_conv_Cons)
qed simp

definition crop_size :: "rect \<Rightarrow> image_meta \<Rightarrow> nat" where
  "crop_size r m = unat (rect_width r) * unat (rect_height r) * bytes_per_pixel m"

lemma roi_crop:
  assumes "image_ok src" "inside r (img_meta src)" "rect_width r \<noteq> 0" "rect_height r \<noteq> 0"
    and "0 < byte_size (img_meta src)" "byte_size (img_meta src) < 2 ^ 64"
  shows "if 2 ^ 63 \<le> crop_size r (img_meta src) \<or> \<not> can_alloc (crop_size r (img_meta src))
    then roi_apply can_alloc src (r # rs) = Allocation_Throws
    else \<exists>out. roi_apply can_alloc src (r # rs) = Returned (Inr out) \<and> image_ok out \<and>
      img_meta out = (img_meta src)\<lparr>im_width := unat (rect_width r), im_height := unat (rect_height r)\<rparr> \<and>
      (\<forall>y < unat (rect_height r). \<forall>x < unat (rect_width r). pixel_at out y x = pixel_at src (unat (rect_y r) + y) (unat (rect_x r) + x))"
proof -
  let ?m = "img_meta src" and ?w = "unat (rect_width r)" and ?h = "unat (rect_height r)"
  let ?W = "im_width ?m" and ?H = "im_height ?m"
  define bpp where "bpp = bytes_per_pixel ?m"
  define start where "start row = (unat (rect_y r) + row) * (?W * bpp) + unat (rect_x r) * bpp" for row
  have size: "byte_size ?m = ?W * ?H * bpp" by (simp add: byte_size_def bpp_def)
  have pos: "0 < ?W" "0 < ?H" "0 < bpp" using assms(5) by (auto simp: size)
  have wh: "0 < ?w" "0 < ?h" using assms(3,4) by (simp_all add: unat_gt_0)
  have fit: "unat (rect_x r) + ?w \<le> ?W" "unat (rect_y r) + ?h \<le> ?H" using assms(2) by (simp_all add: inside_def)
  have below: "a * bpp \<le> byte_size ?m" if "a \<le> ?W * ?H" for a using mult_le_mono1 [OF that, of bpp] by (simp add: size)
  have whole: "?W \<le> ?W * ?H" "?H \<le> ?W * ?H" "bpp \<le> byte_size ?m" "?W * ?H \<le> byte_size ?m" using pos by (simp_all add: size)
  then have lt: "?W < 2 ^ 64" "?H < 2 ^ 64" "bpp < 2 ^ 64" "?W * bpp < 2 ^ 64"
    using below [of ?W] assms(6) by linarith+
  have sums: "unat (rect_x r + rect_width r) = unat (rect_x r) + ?w" "unat (rect_y r + rect_height r) = unat (rect_y r) + ?h"
    using fit lt(1,2) by (simp_all add: unat_sum)
  have b: "unat (of_nat bpp :: 64 word) = bpp" by (rule small_word [OF lt(3)])
  have "?w * bpp \<le> ?W * bpp" using fit(1) by (intro mult_le_mono1) simp
  then have "?w * bpp < 2 ^ 64" by (rule le_less_trans) (rule lt(4))
  then have d: "unat (rect_width r * of_nat bpp) = ?w * bpp" using word_product [of "rect_width r" "of_nat bpp"] b by simp
  have area: "?w * ?h \<le> ?W * ?H" using fit by (intro mult_le_mono) simp_all
  have prod: "?w * bpp * ?h = crop_size r ?m" by (simp add: crop_size_def bpp_def)
  have "crop_size r ?m < 2 ^ 64" using below [OF area] assms(6) prod by (simp add: mult.commute mult.left_commute)
  then have sz: "unat (rect_width r * of_nat bpp * rect_height r) = crop_size r ?m"
    using word_product [of "rect_width r * of_nat bpp" "rect_height r"] d prod by simp
  have len: "start row + ?w * bpp \<le> length (img_data src)" if "row < ?h" for row
    using row_inside [OF fit(1), of "unat (rect_y r)" row ?H bpp] that fit(2) assms(1)
    by (simp add: image_ok_def size start_def)
  have st: "unat ((rect_y r + of_nat row) * (of_nat ?W * of_nat bpp) + rect_x r * of_nat bpp) = start row" if "row < ?h" for row
  proof -
    have "start row < 2 ^ 64" using len [OF that] assms(1,6) by (simp add: image_ok_def)
    moreover have "(rect_y r + of_nat row) * (of_nat ?W * of_nat bpp) + rect_x r * of_nat bpp = (of_nat (start row) :: 64 word)"
      by (simp add: start_def)
    ultimately show ?thesis using small_word by simp
  qed
  have off: "unat (of_nat row * (rect_width r * of_nat bpp)) = row * (?w * bpp)" if "row < ?h" for row
  proof -
    have "row * (?w * bpp) \<le> ?h * (?w * bpp)" using that by (intro mult_le_mono1) simp
    moreover have "?h * (?w * bpp) < 2 ^ 64" using \<open>crop_size r ?m < 2 ^ 64\<close> prod by (metis mult.commute)
    ultimately have "row * (?w * bpp) < 2 ^ 64" by (rule le_less_trans)
    moreover have "of_nat row * (rect_width r * of_nat bpp) = (of_nat (row * (?w * bpp)) :: 64 word)"
      by simp
    ultimately show ?thesis by (simp only: small_word)
  qed
  define f where "f row = take (?w * bpp) (drop (start row) (img_data src))" for row
  define rows where "rows = map f [0..<?h]"
  have fl: "length (f row) = ?w * bpp" if "row < ?h" for row using len [OF that] by (simp add: f_def)
  have rl: "\<forall>row \<in> set rows. length row = ?w * bpp" using fl by (auto simp: rows_def)
  have n: "0 < ?w * bpp" using wh(1) pos(3) by simp
  then have n0: "rect_width r * of_nat bpp \<noteq> (0 :: 64 word)" using d by (metis less_irrefl unat_0)
  let ?rd = "\<lambda>row. read_row (img_data src) ((rect_y r + of_nat row) * (of_nat ?W * of_nat bpp) + rect_x r * of_nat bpp) (rect_width r * of_nat bpp)"
  have "?rd row = Some (f row)" if "row < ?h" for row
    using len [OF that] n0 st [OF that] d by (simp add: read_row_def copied_row_def f_def)
  then have "\<forall>k < ?h. ?rd k = Some (f k) \<and> length (f k) = ?w * bpp \<and> unat (of_nat k * (rect_width r * of_nat bpp)) = k * (?w * bpp)"
    using fl off by blast
  from copy_rows_fill [OF this n, of 0]
  have copied: "copy_rows ?rd (\<lambda>row. of_nat row * (rect_width r * of_nat bpp)) [0..<?h] (replicate (crop_size r ?m) 0) = Some (concat rows)"
    by (simp add: rows_def prod [symmetric] mult.commute)
  have run: "roi_apply can_alloc src (r # rs) =
      (if 2 ^ 63 \<le> crop_size r ?m \<or> \<not> can_alloc (crop_size r ?m) then Allocation_Throws
       else Returned (Inr (surface_image (concat rows) (?m\<lparr>im_width := ?w, im_height := ?h\<rparr>))))"
    using assms(3,4) fit copied sz by (simp add: roi_apply_def Let_def sums bpp_def [symmetric])
  have bpp': "bytes_per_pixel (?m\<lparr>im_width := ?w, im_height := ?h\<rparr>) = bpp" by (simp add: bpp_def bytes_per_pixel_def)
  have total: "length (concat rows) = ?h * (?w * bpp)"
  proof -
    have "length (concat xs) = length xs * (?w * bpp)" if "\<forall>row \<in> set xs. length row = ?w * bpp" for xs :: "8 word list list"
      using that by (induction xs) simp_all
    from this [OF rl] show ?thesis by (simp only: rows_def length_map length_upt diff_zero)
  qed
  have pix: "pixel_at (surface_image (concat rows) (?m\<lparr>im_width := ?w, im_height := ?h\<rparr>)) y x =
      pixel_at src (unat (rect_y r) + y) (unat (rect_x r) + x)" if "y < ?h" "x < ?w" for y x
  proof -
    have "Suc x * bpp \<le> ?w * bpp" using that(2) by (intro mult_le_mono1) simp
    then have jk: "x * bpp + bpp \<le> ?w * bpp" by simp
    have "take bpp (drop (y * (?w * bpp) + x * bpp) (concat rows)) = take bpp (drop (x * bpp) (rows ! y))"
      using take_drop_concat [OF _ rl jk, of y] that(1) by (simp add: rows_def)
    also have "\<dots> = take bpp (drop (start y + x * bpp) (img_data src))"
      using that(1) take_drop_take [OF jk] by (simp add: rows_def f_def)
    finally show ?thesis
      unfolding pixel_at_def surface_image_def using bpp'
      by (simp add: bpp_def [symmetric] start_def algebra_simps)
  qed
  have "image_ok (surface_image (concat rows) (?m\<lparr>im_width := ?w, im_height := ?h\<rparr>))"
    using total bpp' by (simp add: image_ok_def surface_image_def byte_size_def)
  then show ?thesis using run pix by (auto simp: surface_image_def)
qed

text \<open>The sums of the bounds check leave 64 bits.\<close>

definition sums_wrap :: "rect \<Rightarrow> bool" where
  "sums_wrap r \<longleftrightarrow> 2 ^ 64 \<le> unat (rect_x r) + unat (rect_width r) \<or> 2 ^ 64 \<le> unat (rect_y r) + unat (rect_height r)"

text \<open>C37 Cropping a complete, non-empty image with a non-empty region: a region inside the image gives exactly its pixels
  (or the allocation of its bytes throws), a region that leaves the image is refused, unless one of the sums of offset and
  extent in the bounds check wraps around at 64 bits. So only such a sum can lead to an access out of
  bounds or to a wrong image, and \<open>wrapped_regions\<close> shows that it leads to both.\<close>

theorem roi_apply_spec:
  assumes "image_ok src" "0 < byte_size (img_meta src)" "byte_size (img_meta src) < 2 ^ 64"
    and "rect_width r \<noteq> 0" "rect_height r \<noteq> 0" "\<not> sums_wrap r"
  shows "case roi_apply can_alloc src (r # rs) of
      Out_Of_Bounds \<Rightarrow> False
    | Allocation_Throws \<Rightarrow> inside r (img_meta src) \<and>
        (2 ^ 63 \<le> crop_size r (img_meta src) \<or> \<not> can_alloc (crop_size r (img_meta src)))
    | Returned (Inl err) \<Rightarrow> \<not> inside r (img_meta src)
    | Returned (Inr out) \<Rightarrow> inside r (img_meta src) \<and> image_ok out \<and>
        img_meta out = (img_meta src)\<lparr>im_width := unat (rect_width r), im_height := unat (rect_height r)\<rparr> \<and>
        (\<forall>y < unat (rect_height r). \<forall>x < unat (rect_width r).
           pixel_at out y x = pixel_at src (unat (rect_y r) + y) (unat (rect_x r) + x))"
proof (cases "inside r (img_meta src)")
  case True
  from roi_crop [OF assms(1) True assms(4,5,2,3), of can_alloc rs] show ?thesis using True by (auto split: if_splits)
next
  case False
  then have "im_width (img_meta src) < unat (rect_x r + rect_width r) \<or> im_height (img_meta src) < unat (rect_y r + rect_height r)"
    using assms(6) by (auto simp: sums_wrap_def inside_def unat_sum)
  then show ?thesis using False by (simp add: roi_apply_def roi_mismatch_def Let_def)
qed

text \<open>A two by two image in gray, and one with 16 bits.\<close>

definition tiny_image :: image where
  "tiny_image = surface_image [1, 2, 3, 4] \<lparr>im_width = 2, im_height = 2, im_channels = 1, im_format = Mono8, im_bits = 8, im_timestamp = 0,
     im_frame = 0, im_surface = '''', im_position = 0, im_light = 0\<rparr>"

definition deep_image :: image where
  "deep_image = surface_image [1, 2, 3, 4, 5, 6, 7, 8] ((img_meta tiny_image)\<lparr>im_format := Mono16, im_bits := 16\<rparr>)"

text \<open>
  Regions far outside of the image pass the check when a sum wraps. One that begins one pixel before the
  image makes the copy read out of bounds; for another all sizes wrap as well, and the first pixel of the
  image is returned as an image of \<open>2^63 + 1\<close> columns.
\<close>

theorem wrapped_regions:
  "roi_apply (\<lambda>_. True) tiny_image [\<lparr>rect_x = -1, rect_y = 0, rect_width = 2, rect_height = 1\<rparr>] = Out_Of_Bounds"
  "\<exists>out. roi_apply (\<lambda>_. True) deep_image [\<lparr>rect_x = 9223372036854775808, rect_y = 0, rect_width = 9223372036854775809, rect_height = 1\<rparr>] =
     Returned (Inr out) \<and> im_width (img_meta out) = 9223372036854775809 \<and> img_data out = [1, 2]"
  by (simp_all add: roi_apply_def tiny_image_def deep_image_def surface_image_def bytes_per_pixel_def bytes_per_channel_def
      read_row_def write_row_def copied_row_def unsigned_minus_1_eq_mask mask_eq_exp_minus_1)

theorem roi_apply_spec_witness:
  "\<exists>out. roi_apply (\<lambda>_. True) tiny_image [\<lparr>rect_x = 1, rect_y = 0, rect_width = 1, rect_height = 2\<rparr>] = Returned (Inr out) \<and>
     pixel_at out 1 0 = pixel_at tiny_image 1 1"
proof -
  let ?r = "\<lparr>rect_x = 1, rect_y = 0, rect_width = 1, rect_height = 2\<rparr>"
  have ok: "image_ok tiny_image" "0 < byte_size (img_meta tiny_image)" "byte_size (img_meta tiny_image) < 2 ^ 64"
    by (simp_all add: image_ok_def tiny_image_def surface_image_def byte_size_def bytes_per_pixel_def bytes_per_channel_def)
  have i: "inside ?r (img_meta tiny_image)" "crop_size ?r (img_meta tiny_image) = 2" "\<not> sums_wrap ?r"
    by (simp_all add: inside_def tiny_image_def surface_image_def crop_size_def bytes_per_pixel_def bytes_per_channel_def sums_wrap_def)
  from roi_apply_spec [OF ok, of ?r "\<lambda>_. True" "[]"] i
  show ?thesis by (auto split: memory_outcome.splits sum.splits)
qed

end
