(* ===== verification/Image_Preprocess.thy ===== *)
theory Image_Preprocess
  imports Image_Buffer Yaml Post_Process Feature_Bank
begin

text \<open>
  The preprocessing chain (\<open>src/image/preprocess.cpp\<close>) and the stage that builds it from its configuration
  (\<open>src/pipeline/preprocess_stage.cpp\<close>). Arithmetic is that of doubles. \<open>None\<close> is a read past the end of a
  buffer or the conversion of a number that is not one to an integer.
\<close>

subsection \<open>Bytes and samples\<close>

definition byte_val :: "8 word \<Rightarrow> dbl" where
  "byte_val b = d_of_nat (unat b)"

definition clamp_u8 :: "dbl \<Rightarrow> 8 word option" where
  "clamp_u8 v =
     (if d_lt v (Fin False 0) then Some 0 else if d_gt v (Fin False 255) then Some 255 else map_option of_nat (to_size v))"

text \<open>\<open>n - 1\<close> on \<open>std::size_t\<close>.\<close>

definition pred_size :: "nat \<Rightarrow> nat" where
  "pred_size n = (if n = 0 then 2 ^ 64 - 1 else n - 1)"

definition bilinear_byte :: "8 word list \<Rightarrow> nat \<Rightarrow> nat \<Rightarrow> nat \<times> nat \<Rightarrow> nat \<times> nat \<Rightarrow> dbl \<times> dbl \<Rightarrow> nat \<Rightarrow> 8 word option" where
  "bilinear_byte bytes w c p0 p1 f ch =
     (case (p0, p1, f) of ((x0, y0), (x1, y1), (fx, fy)) \<Rightarrow>
        let one = Fin False 1;
            read = (\<lambda>x y. map_option byte_val (at_index bytes ((y * w + x) * c + ch)))
        in Option.bind (read x0 y0) (\<lambda>p00. Option.bind (read x1 y0) (\<lambda>p10.
           Option.bind (read x0 y1) (\<lambda>p01. Option.bind (read x1 y1) (\<lambda>p11.
             clamp_u8 (d_add (d_add (d_add
               (d_mul (d_mul (d_sub one fx) (d_sub one fy)) p00)
               (d_mul (d_mul fx (d_sub one fy)) p10))
               (d_mul (d_mul (d_sub one fx) fy) p01))
               (d_mul (d_mul fx fy) p11)))))))"

definition interpolated_pixel :: "8 word list \<Rightarrow> nat \<Rightarrow> nat \<Rightarrow> nat \<Rightarrow> dbl \<Rightarrow> dbl \<Rightarrow> 8 word list option" where
  "interpolated_pixel bytes w h c sx sy =
     (case (to_size sx, to_size sy) of
        (Some x0, Some y0) \<Rightarrow>
          map_opt (bilinear_byte bytes w c (x0, y0) (min (x0 + 1) (pred_size w), min (y0 + 1) (pred_size h))
            (d_sub sx (d_of_nat x0), d_sub sy (d_of_nat y0))) [0..<c]
      | _ \<Rightarrow> None)"

subsection \<open>The steps\<close>

type_synonym preprocess_fn = "image \<Rightarrow> image result option"

primrec run_from :: "preprocess_fn list \<Rightarrow> preprocess_fn" where
  "run_from [] i = Some (Inr i)"
| "run_from (f # fs) i = (case f i of Some (Inr i') \<Rightarrow> run_from fs i' | r \<Rightarrow> r)"

definition flat_field :: "image \<Rightarrow> preprocess_fn" where
  "flat_field corr i =
     (if im_width (img_meta i) \<noteq> im_width (img_meta corr) \<or> im_height (img_meta i) \<noteq> im_height (img_meta corr) \<or>
         length (img_data i) \<noteq> length (img_data corr)
      then Some (Inl (ErrorInfo Image_DimensionMismatch ''FlatField correction frame dimensions do not match input''))
      else let c = img_data corr; n = length c;
               mean = (if n = 0 then Fin False 0 else d_div (d_of_nat (sum_list (map unat c) mod 2 ^ 64)) (d_of_nat n))
           in map_option (\<lambda>out. Inr (i\<lparr>img_data := out\<rparr>))
                (map_opt (\<lambda>(b, g). if g = 0 then Some b else clamp_u8 (d_div (d_mul (byte_val b) mean) (byte_val g))) (zip (img_data i) c)))"

definition debayer :: preprocess_fn where
  "debayer i =
     (if im_format (img_meta i) \<noteq> BayerRG8 then Some (Inr i)
      else let m = img_meta i; w = im_width m; h = im_height m
           in map_option (\<lambda>px. Inr (surface_image (concat px) (m\<lparr>im_channels := 3, im_format := RGB8\<rparr>)))
                (map_opt (\<lambda>(r, c).
                    let qr = r - r mod 2; qr1 = min (qr + 1) (pred_size h); qc = c - c mod 2; qc1 = min (qc + 1) (pred_size w)
                    in map_opt (at_index (img_data i)) [qr * w + qc, qr * w + qc1, qr1 * w + qc1])
                  (pixels h w)))"

fun balance :: "dbl \<times> dbl \<times> dbl \<Rightarrow> 8 word list \<Rightarrow> 8 word list option" where
  "balance g (x # y # z # rest) =
     (case map_opt (\<lambda>(b, k). clamp_u8 (d_mul (byte_val b) k)) [(x, fst g), (y, fst (snd g)), (z, snd (snd g))] of
        None \<Rightarrow> None
      | Some px \<Rightarrow> map_option (\<lambda>out. px @ out) (balance g rest))"
| "balance g rest = Some rest"

definition white_balance :: "dbl \<Rightarrow> dbl \<Rightarrow> dbl \<Rightarrow> preprocess_fn" where
  "white_balance r g b i =
     (let f = im_format (img_meta i) in
      if f \<noteq> RGB8 \<and> f \<noteq> BGR8
      then Some (Inl (ErrorInfo Image_UnsupportedPixelFormat ''WhiteBalance requires RGB8 or BGR8 pixel format''))
      else map_option (\<lambda>out. Inr (i\<lparr>img_data := out\<rparr>)) (balance (if f = RGB8 then (r, g, b) else (b, g, r)) (img_data i)))"

definition resize_coord :: "nat \<Rightarrow> nat \<Rightarrow> nat \<Rightarrow> dbl" where
  "resize_coord n_src n_dst k =
     d_max (Fin False 0)
       (d_min (d_sub (d_div (d_mul (d_add (d_of_nat k) (Fin False (1 / 2))) (d_of_nat n_src)) (d_of_nat n_dst)) (Fin False (1 / 2)))
              (d_sub (d_of_nat n_src) (Fin False 1)))"

definition resize :: "nat \<Rightarrow> nat \<Rightarrow> preprocess_fn" where
  "resize tw th i =
     (let m = img_meta i; c = im_channels m; sw = im_width m; sh = im_height m in
      if tw = 0 \<or> th = 0 then Some (Inl (ErrorInfo Image_PreprocessFailed ''Resize target dimensions must be > 0''))
      else if c \<noteq> 1 \<and> c \<noteq> 3
      then Some (Inl (ErrorInfo Image_UnsupportedPixelFormat ''Resize supports 1 or 3 channel images only''))
      else map_option (\<lambda>px. Inr (surface_image (concat px) (m\<lparr>im_width := tw, im_height := th\<rparr>)))
             (map_opt (\<lambda>(oy, ox). interpolated_pixel (img_data i) sw sh c (resize_coord sw tw ox) (resize_coord sh th oy)) (pixels th tw)))"

record calibration =
  camera_matrix :: "dbl list"
  dist_coeffs :: "dbl list"

definition distorted :: "calibration \<Rightarrow> nat \<Rightarrow> nat \<Rightarrow> dbl \<times> dbl" where
  "distorted p dx dy =
     (let fx = camera_matrix p ! 0; fy = camera_matrix p ! 4; cx = camera_matrix p ! 2; cy = camera_matrix p ! 5;
          k1 = dist_coeffs p ! 0; k2 = dist_coeffs p ! 1; p1 = dist_coeffs p ! 2; p2 = dist_coeffs p ! 3; k3 = dist_coeffs p ! 4;
          two = Fin False 2;
          xn = d_div (d_sub (d_of_nat dx) cx) fx; yn = d_div (d_sub (d_of_nat dy) cy) fy;
          r2 = d_add (d_mul xn xn) (d_mul yn yn); r4 = d_mul r2 r2; r6 = d_mul r4 r2;
          radial = d_add (d_add (d_add (Fin False 1) (d_mul k1 r2)) (d_mul k2 r4)) (d_mul k3 r6);
          x_tang = d_add (d_mul (d_mul (d_mul two p1) xn) yn) (d_mul p2 (d_add r2 (d_mul (d_mul two xn) xn)));
          y_tang = d_add (d_mul p1 (d_add r2 (d_mul (d_mul two yn) yn))) (d_mul (d_mul (d_mul two p2) xn) yn);
          xd = d_add (d_mul xn radial) x_tang; yd = d_add (d_mul yn radial) y_tang
      in (d_add (d_mul xd fx) cx, d_add (d_mul yd fy) cy))"

definition calibrate :: "calibration \<Rightarrow> preprocess_fn" where
  "calibrate p i =
     (let m = img_meta i; w = im_width m; h = im_height m; c = im_channels m in
      map_option (\<lambda>px. Inr (surface_image (concat px) m))
        (map_opt (\<lambda>(dy, dx).
            case distorted p dx dy of (sx, sy) \<Rightarrow>
              if d_lt sx (Fin False 0) \<or> d_lt sy (Fin False 0) \<or> d_ge sx (d_of_nat w) \<or> d_ge sy (d_of_nat h)
              then Some (replicate c 0) else interpolated_pixel (img_data i) w h c sx sy)
          (pixels h w)))"

definition stretch :: "nat \<Rightarrow> preprocess_fn" where
  "stretch num_exposures i =
     (let bytes = img_data i;
          lo = fold (\<lambda>b m. if b < m then b else m) bytes 255; hi = fold (\<lambda>b m. if m < b then b else m) bytes 0
      in if num_exposures = 0 then Some (Inl (ErrorInfo Image_PreprocessFailed ''MakeHDR requires num_exposures > 0''))
         else if bytes = [] \<or> lo = hi then Some (Inr i)
         else map_option (\<lambda>out. Inr (i\<lparr>img_data := out\<rparr>))
                (map_opt (\<lambda>b. clamp_u8 (d_div (d_mul (Fin False 255) (d_sub (byte_val b) (byte_val lo))) (d_sub (byte_val hi) (byte_val lo)))) bytes))"

subsection \<open>The stage\<close>

definition field_of :: "yaml \<Rightarrow> string \<Rightarrow> yaml option" where
  "field_of y k = (case y_index y k of Inr v \<Rightarrow> v | Inl ex \<Rightarrow> None)"

definition configured_step ::
  "'a load_conv_scheme \<Rightarrow> (string \<Rightarrow> dbl option) \<Rightarrow> (string \<Rightarrow> nat option) \<Rightarrow> yaml \<Rightarrow> yaml \<Rightarrow> preprocess_fn option" where
  "configured_step cv as_float as_size config st =
     (let name = text_or cv '''' (Some st); gain = (\<lambda>k. scalar_or as_float (Fin False 1) (field_of config k));
          extent = (\<lambda>k. scalar_or as_size 1024 (field_of config k))
      in if name = ''debayer'' then Some debayer
         else if name = ''white_balance'' then Some (white_balance (gain ''wb_r'') (gain ''wb_g'') (gain ''wb_b''))
         else if name = ''resize'' then Some (resize (extent ''resize_width'') (extent ''resize_height''))
         else None)"

definition new_preprocess_stage ::
  "'a load_conv_scheme \<Rightarrow> (string \<Rightarrow> dbl option) \<Rightarrow> (string \<Rightarrow> nat option) \<Rightarrow> yaml \<Rightarrow> yaml_exception + preprocess_fn list" where
  "new_preprocess_stage cv as_float as_size config =
     (case y_index config ''steps'' of
        Inl ex \<Rightarrow> Inl ex
      | Inr (Some (YSeq ys)) \<Rightarrow> Inr (List.map_filter (configured_step cv as_float as_size config) ys)
      | Inr _ \<Rightarrow> Inr [])"


subsection \<open>Exact arithmetic on pixel coordinates\<close>

lemma exact_half:
  assumes "n < 2 ^ 53"
  shows "round_fmt binary64 False (of_nat n / 2) = Fin False (of_nat n / 2)"
proof (cases "n = 0")
  case False
  have p: "pow2 (-1) = 1 / 2" by (simp add: pow2_def)
  have "rat_of_nat n < 2 ^ 53" using assms by (metis of_nat_less_iff of_nat_numeral of_nat_power)
  also have "\<dots> = pow2 53" by (simp add: pow2_def)
  also have "\<dots> < pow2 1024" by (simp only: pow2_less_iff)
  finally have "of_int (int n) * pow2 (-1) < pow2 1024" by (simp add: p)
  then have "round_fmt binary64 False (of_int (int n) * pow2 (-1)) = Fin False (of_int (int n) * pow2 (-1))"
    using False assms by (intro round_fmt_exact) (simp_all add: binary64_def)
  then show ?thesis by (simp add: p)
qed simp

lemma exact_nat: "n < 2 ^ 53 \<Longrightarrow> round_fmt binary64 False (of_nat n) = Fin False (of_nat n)"
  using d_of_nat_exact [of n] by (simp add: d_of_nat_def d_of_int_def round_rat_def)

lemma byte_val_exact:
  fixes b :: "8 word"
  obtains n where "byte_val b = Fin False (of_nat n)" "n < 256" "of_nat n = b" "n = unat b"
proof
  show n: "unat b < 256" using unsigned_less [of b] by simp
  have "unat b < 2 ^ 53" using n by (rule less_trans) simp
  then show "byte_val b = Fin False (of_nat (unat b))" unfolding byte_val_def by (rule d_of_nat_exact)
qed simp_all

lemma clamp_nat: "n < 256 \<Longrightarrow> clamp_u8 (Fin False (of_nat n)) = Some (of_nat n)"
proof -
  assume "n < 256"
  then have n: "rat_of_nat n \<le> of_nat 255" by (simp only: of_nat_le_iff)
  then have "rat_of_nat n < 2 ^ 64" by (rule le_less_trans) simp
  then show ?thesis using n by (simp add: clamp_u8_def d_gt_def to_size_def)
qed

lemma clamp_byte [simp]: "clamp_u8 (byte_val b) = Some b"
proof -
  obtain n where n: "byte_val b = Fin False (of_nat n)" "n < 256" "of_nat n = b" by (rule byte_val_exact [of b])
  show ?thesis using clamp_nat [OF n(2)] unfolding n(1) n(3) .
qed

lemma d_sub_exact:
  assumes "q \<le> p" "round_fmt binary64 False (p - q) = Fin False (p - q)"
  shows "d_sub (Fin False p) (Fin False q) = Fin False (p - q)"
  using assms by (auto simp: d_sub_def round_rat_def)

lemma coord_exact:
  assumes "k < n" "n \<le> 2 ^ 26"
  shows "resize_coord n n k = Fin False (of_nat k)"
proof -
  have k: "k < 2 ^ 53" "n < 2 ^ 53" "2 * k + 1 < 2 ^ 53" using assms by simp_all
  have "(2 * k + 1) * n < (2 * 2 ^ 26) * 2 ^ 26"
    using assms by (intro mult_less_le_imp_less) simp_all
  then have kn: "(2 * k + 1) * n < 2 ^ 53" by simp
  have half: "rat_of_nat k + 1 / 2 = of_nat (2 * k + 1) / 2" by simp
  have 1: "d_add (d_of_nat k) (Fin False (1 / 2)) = Fin False (of_nat (2 * k + 1) / 2)"
    using exact_half [OF k(3)] unfolding d_of_nat_exact [OF k(1)] by (simp add: half round_rat_def del: of_nat_Suc of_nat_add)
  have prod: "of_nat (2 * k + 1) / 2 * rat_of_nat n = of_nat ((2 * k + 1) * n) / 2" by (simp add: algebra_simps)
  have 2: "d_mul (Fin False (of_nat (2 * k + 1) / 2)) (d_of_nat n) = Fin False (of_nat ((2 * k + 1) * n) / 2)"
    unfolding d_of_nat_exact [OF k(2)] d_mul.simps prod by (simp only: exact_half [OF kn] simp_thms)
  have quot: "of_nat ((2 * k + 1) * n) / 2 / rat_of_nat n = of_nat (2 * k + 1) / 2" using assms(1) by (simp add: field_simps)
  have 3: "d_div (Fin False (of_nat ((2 * k + 1) * n) / 2)) (d_of_nat n) = Fin False (of_nat (2 * k + 1) / 2)"
    using assms(1) exact_half [OF k(3)] unfolding d_of_nat_exact [OF k(2)] d_div.simps quot by simp
  have 4: "d_sub (Fin False (of_nat (2 * k + 1) / 2)) (Fin False (1 / 2)) = Fin False (of_nat k)"
    using exact_nat [OF k(1)] by (cases "k = 0") (simp_all add: d_sub_def round_rat_def add_divide_distrib)
  have n1: "n - 1 < 2 ^ 53" using k(2) by simp
  have m: "rat_of_nat n - 1 = of_nat (n - 1)" using assms(1) by simp
  have 5: "d_sub (d_of_nat n) (Fin False 1) = Fin False (of_nat (n - 1))"
  proof -
    have "rat_of_nat 1 \<le> of_nat n" using assms(1) by (simp only: of_nat_le_iff)
    moreover have "round_fmt binary64 False (rat_of_nat n - 1) = Fin False (rat_of_nat n - 1)" unfolding m by (rule exact_nat [OF n1])
    ultimately show ?thesis unfolding d_of_nat_exact [OF k(2)] m [symmetric] by (intro d_sub_exact) simp_all
  qed
  have "rat_of_nat k \<le> of_nat (n - 1)" using assms(1) by (simp only: of_nat_le_iff)
  then show ?thesis unfolding resize_coord_def 1 2 3 4 5 by (simp add: d_min_def d_max_def)
qed

subsection \<open>Interpolation at a pixel\<close>

lemma one_exact [simp]: "round_fmt binary64 False 1 = Fin False 1"
  using exact_nat [of 1] by simp

lemma weights [simp]:
  "d_sub (Fin False 1) (Fin False 0) = Fin False 1" "d_mul (Fin False 1) (Fin False 1) = Fin False 1"
  "d_mul (Fin False 0) (Fin False q) = Fin False 0" "d_mul (Fin False 1) (Fin False 0) = Fin False 0"
  by (simp_all add: d_sub_def round_rat_def)

lemma weigh_one: "n < 2 ^ 53 \<Longrightarrow> d_mul (Fin False 1) (Fin False (of_nat n)) = Fin False (of_nat n)"
  using exact_nat by simp

lemma add_zero_right: "n < 2 ^ 53 \<Longrightarrow> d_add (Fin False (of_nat n)) (Fin False 0) = Fin False (of_nat n)"
  using exact_nat [of n] by (simp add: round_rat_def)

lemma grid_read:
  assumes "x < w" "y < h" "ch < c" "w * h * c \<le> length bytes"
  shows "(y * w + x) * c + ch < length bytes"
proof -
  have "(y * w + x) * c + ch < Suc (y * w + x) * c" using assms(3) by simp
  also have "Suc (y * w + x) \<le> Suc y * w" using assms(1) by simp
  then have "Suc (y * w + x) * c \<le> Suc y * w * c" by (rule mult_le_mono1)
  also have "Suc y * w \<le> h * w" using assms(2) by (intro mult_le_mono1) simp
  then have "Suc y * w * c \<le> h * w * c" by (rule mult_le_mono1)
  finally show ?thesis using assms(4) by (simp add: mult.commute)
qed

lemma bilinear_at_pixel:
  assumes "x < w" "y < h" "ch < c" "w * h * c \<le> length bytes" "x1 < w" "y1 < h"
  shows "bilinear_byte bytes w c (x, y) (x1, y1) (Fin False 0, Fin False 0) ch = Some (bytes ! ((y * w + x) * c + ch))"
proof -
  define rd where "rd u v = bytes ! ((v * w + u) * c + ch)" for u v
  have r: "map_option byte_val (at_index bytes ((v * w + u) * c + ch)) = Some (byte_val (rd u v))" if "u < w" "v < h" for u v
    using grid_read [OF that assms(3,4)] by (simp add: rd_def)
  obtain n where n: "byte_val (rd x y) = Fin False (of_nat n)" "n < 256" "of_nat n = rd x y" by (rule byte_val_exact)
  obtain n1 where n1: "byte_val (rd x1 y) = Fin False (of_nat n1)" "n1 < 256" "of_nat n1 = rd x1 y" by (rule byte_val_exact)
  obtain n2 where n2: "byte_val (rd x y1) = Fin False (of_nat n2)" "n2 < 256" "of_nat n2 = rd x y1" by (rule byte_val_exact)
  obtain n3 where n3: "byte_val (rd x1 y1) = Fin False (of_nat n3)" "n3 < 256" "of_nat n3 = rd x1 y1" by (rule byte_val_exact)
  have big: "n < 2 ^ 53" using n(2) by simp
  have sum: "d_add (d_add (d_add (d_mul (Fin False 1) (Fin False (of_nat n))) (Fin False 0)) (Fin False 0)) (Fin False 0) = Fin False (of_nat n)"
    by (simp only: weigh_one [OF big] add_zero_right [OF big])
  show ?thesis
    using clamp_nat [OF n(2)] n(3)
    by (simp add: bilinear_byte_def Let_def r assms n(1) n1(1) n2(1) n3(1) sum rd_def [symmetric] del: d_mul.simps d_add.simps)
qed

lemma size_of_nat: "n < 2 ^ 64 \<Longrightarrow> to_size (Fin False (of_nat n)) = Some n"
proof -
  assume "n < 2 ^ 64"
  then have "rat_of_nat n < of_nat (2 ^ 64)" by (simp only: of_nat_less_iff)
  then show ?thesis by (simp add: to_size_def)
qed

lemma interpolated_at_pixel:
  assumes "x < w" "y < h" "w * h * c \<le> length bytes" "w \<le> 2 ^ 53" "h \<le> 2 ^ 53"
  shows "interpolated_pixel bytes w h c (Fin False (of_nat x)) (Fin False (of_nat y)) = Some (row c bytes (y * w + x))"
proof -
  have lt: "x < 2 ^ 53" "y < 2 ^ 53" using assms by simp_all
  have z: "d_sub (Fin False (of_nat n)) (d_of_nat n) = Fin False 0" if "n < 2 ^ 53" for n
    unfolding d_of_nat_exact [OF that] by (simp add: d_sub_def)
  have "bilinear_byte bytes w c (x, y) (min (x + 1) (pred_size w), min (y + 1) (pred_size h)) (Fin False 0, Fin False 0) ch =
      Some (bytes ! ((y * w + x) * c + ch))" if "ch \<in> set [0..<c]" for ch
    by (rule bilinear_at_pixel) (use assms that in \<open>auto simp: pred_size_def\<close>)
  then have all: "map_opt (bilinear_byte bytes w c (x, y) (min (x + 1) (pred_size w), min (y + 1) (pred_size h)) (Fin False 0, Fin False 0)) [0..<c] =
      Some (map (\<lambda>ch. bytes ! ((y * w + x) * c + ch)) [0..<c])"
    by (rule map_opt_eq)
  have "Suc (y * w + x) * c \<le> length bytes"
  proof (cases "c = 0")
    case False
    then have "(y * w + x) * c + (c - 1) < length bytes" by (intro grid_read [OF assms(1,2) _ assms(3)]) simp
    then show ?thesis using False by simp
  qed simp
  then have "map (\<lambda>ch. bytes ! ((y * w + x) * c + ch)) [0..<c] = row c bytes (y * w + x)"
    by (intro nth_equalityI) (simp_all add: row_def)
  moreover have s: "to_size (Fin False (of_nat x)) = Some x" "to_size (Fin False (of_nat y)) = Some y"
    using lt by (simp_all add: size_of_nat)
  ultimately show ?thesis unfolding interpolated_pixel_def s using all by (simp add: z [OF lt(1)] z [OF lt(2)])
qed

lemma all_rows:
  assumes "length bytes = h * w * c" "0 < w"
  shows "concat (map (\<lambda>(y, x). row c bytes (y * w + x)) (pixels h w)) = bytes"
proof -
  have "map (\<lambda>(y, x). row c bytes (y * w + x)) (pixels h w) = map (row c bytes) [0..<h * w]"
    unfolding pixels_split [OF assms(2)] by (simp add: mult.commute)
  then show ?thesis using concat_rows [of bytes "h * w" c] assms(1) by simp
qed

text \<open>Resizing a complete frame of one byte per channel, with one or three channels and sides of at most \<open>2^26\<close> pixels, to
  its own size returns its pixels unchanged: the coordinates, the weights and the interpolated values are exact in
  double precision.\<close>

theorem resize_identity:
  assumes "im_width (img_meta i) = w" "im_height (img_meta i) = h" "im_channels (img_meta i) = c" "c = 1 \<or> c = 3"
    and "0 < w" "w \<le> 2 ^ 26" "0 < h" "h \<le> 2 ^ 26" "length (img_data i) = h * w * c"
  shows "resize w h i = Some (Inr (surface_image (img_data i) (img_meta i)))"
proof -
  have "interpolated_pixel (img_data i) w h c (resize_coord w w x) (resize_coord h h y) = Some (row c (img_data i) (y * w + x))"
    if "y < h" "x < w" for y x
    using interpolated_at_pixel [of x w y h c "img_data i"] that assms(6,8,9)
    by (simp add: coord_exact mult.commute)
  then have "map_opt (\<lambda>(oy, ox). interpolated_pixel (img_data i) w h c (resize_coord w w ox) (resize_coord h h oy)) (pixels h w) =
      Some (map (\<lambda>(y, x). row c (img_data i) (y * w + x)) (pixels h w))"
    by (intro map_opt_eq) (auto simp: pixels_mem)
  moreover have "(img_meta i)\<lparr>im_width := w, im_height := h\<rparr> = img_meta i" using assms(1,2) by (cases "img_meta i") simp
  ultimately show ?thesis using assms all_rows [OF assms(9,5)] by (auto simp: resize_def Let_def)
qed

subsection \<open>Bounded values\<close>

definition bounded :: "int \<Rightarrow> dbl \<Rightarrow> bool" where
  "bounded B x \<longleftrightarrow> (\<exists>q. x = Fin False q \<and> 0 \<le> q \<and> q \<le> pow2 B)"

lemma boundedE: assumes "bounded B x" obtains q where "x = Fin False q" "0 \<le> q" "q \<le> pow2 B"
  using assms by (auto simp: bounded_def)


lemma bounded_round:
  assumes "0 \<le> q" "q \<le> pow2 B" "-1022 \<le> B" "B \<le> 1000"
  shows "bounded B (round_fmt binary64 False q)"
proof (cases "q = 0")
  case False
  then have q: "0 < q" using assms(1) by simp
  have "rounded q \<le> pow2 B" by (rule rounded_le_pow2 [OF q assms(2,3)])
  also have "\<dots> < pow2 1024" using assms(4) by (simp only: pow2_less_iff)
  finally show ?thesis using q rounded_le_pow2 [OF q assms(2,3)] by (simp add: round_binary64 bounded_def)
qed (simp add: bounded_def less_imp_le)

lemma bounded_mul: "bounded A x \<Longrightarrow> bounded B y \<Longrightarrow> -1022 \<le> A + B \<Longrightarrow> A + B \<le> 1000 \<Longrightarrow> bounded (A + B) (d_mul x y)"
  by (elim boundedE) (simp add: bounded_round pow2_add mult_mono less_imp_le)

lemma bounded_add:
  assumes "bounded B x" "bounded B y" "-1022 \<le> B" "B \<le> 999"
  shows "bounded (B + 1) (d_add x y)"
proof -
  obtain p q where x: "x = Fin False p" "0 \<le> p" "p \<le> pow2 B" and y: "y = Fin False q" "0 \<le> q" "q \<le> pow2 B"
    using assms(1,2) by (auto simp: bounded_def)
  have "pow2 (B + 1) = 2 * pow2 B" by (simp add: pow2_add) (simp add: pow2_def)
  then have "p + q \<le> pow2 (B + 1)" using x y by simp
  then have "bounded (B + 1) (round_fmt binary64 False (p + q))" using assms(3,4) x y by (intro bounded_round) simp_all
  then show ?thesis using x y by (auto simp: round_rat_def bounded_def less_imp_le Let_def)
qed

lemma bounded_nat: "n \<le> 2 ^ k \<Longrightarrow> k < 53 \<Longrightarrow> bounded (int k) (Fin False (of_nat n))"
proof -
  assume "n \<le> 2 ^ k" "k < 53"
  then have "rat_of_nat n \<le> of_nat (2 ^ k)" by (simp only: of_nat_le_iff)
  then show ?thesis by (simp add: bounded_def pow2_def)
qed

lemma bounded_zero_mul: "bounded B x \<Longrightarrow> d_mul (Fin False 0) x = Fin False 0"
  by (elim boundedE) simp

text \<open>Calibration with the identity as camera matrix and without distortion copies the image, as its comment
  says, if it has one byte per channel; of a deeper image it copies only the first bytes.\<close>

lemma no_distortion:
  assumes "camera_matrix p = map (Fin False) [1, 0, 0, 0, 1, 0, 0, 0, 1]" "dist_coeffs p = replicate 5 (Fin False 0)"
    and "dx < 2 ^ 26" "dy < 2 ^ 26"
  shows "distorted p dx dy = (Fin False (of_nat dx), Fin False (of_nat dy))"
proof -
  let ?x = "Fin False (rat_of_nat dx)" and ?y = "Fin False (rat_of_nat dy)" and ?z = "Fin False 0" and ?one = "Fin False 1"
  have big: "dx < 2 ^ 53" "dy < 2 ^ 53" using assms(3,4) by simp_all
  have nats: "d_of_nat dx = ?x" "d_of_nat dy = ?y" using d_of_nat_exact big by blast+
  have norm: "d_div (d_sub (Fin False (of_nat n)) ?z) ?one = Fin False (of_nat n)" if "n < 2 ^ 53" for n
    using exact_nat [OF that] d_sub_exact [of 0 "of_nat n"] by simp
  have bx: "bounded 26 ?x" "bounded 26 ?y" using bounded_nat [of dx 26] bounded_nat [of dy 26] assms(3,4) by simp_all
  have b2: "bounded 53 (d_add (d_mul ?x ?x) (d_mul ?y ?y))"
    using bounded_add [of 52 "d_mul ?x ?x" "d_mul ?y ?y"] bounded_mul [OF bx(1) bx(1)] bounded_mul [OF bx(2) bx(2)] by simp
  have b4: "bounded 106 (d_mul (d_add (d_mul ?x ?x) (d_mul ?y ?y)) (d_add (d_mul ?x ?x) (d_mul ?y ?y)))"
    using bounded_mul [OF b2 b2] by simp
  have b6: "bounded 159 (d_mul (d_mul (d_add (d_mul ?x ?x) (d_mul ?y ?y)) (d_add (d_mul ?x ?x) (d_mul ?y ?y))) (d_add (d_mul ?x ?x) (d_mul ?y ?y)))"
    using bounded_mul [OF b4 b2] by simp
  have two: "bounded 1 (Fin False 2)" by (simp add: bounded_def pow2_def)
  have bt: "bounded 54 (d_add (d_add (d_mul ?x ?x) (d_mul ?y ?y)) (d_mul (d_mul (Fin False 2) v) v))" if "bounded 26 v" for v
    using bounded_add [OF b2, of "d_mul (d_mul (Fin False 2) v) v"] bounded_mul [OF bounded_mul [OF two that] that] by simp
  have zero: "d_mul ?z (d_add (d_mul ?x ?x) (d_mul ?y ?y)) = ?z"
    "d_mul ?z (d_mul (d_add (d_mul ?x ?x) (d_mul ?y ?y)) (d_add (d_mul ?x ?x) (d_mul ?y ?y))) = ?z"
    "d_mul ?z (d_mul (d_mul (d_add (d_mul ?x ?x) (d_mul ?y ?y)) (d_add (d_mul ?x ?x) (d_mul ?y ?y))) (d_add (d_mul ?x ?x) (d_mul ?y ?y))) = ?z"
    "d_mul ?z (d_add (d_add (d_mul ?x ?x) (d_mul ?y ?y)) (d_mul (d_mul (Fin False 2) ?x) ?x)) = ?z"
    "d_mul ?z (d_add (d_add (d_mul ?x ?x) (d_mul ?y ?y)) (d_mul (d_mul (Fin False 2) ?y) ?y)) = ?z"
    "d_mul (Fin False 2) ?z = ?z" "d_mul ?z ?x = ?z" "d_mul ?z ?y = ?z"
    using bounded_zero_mul [OF b2] bounded_zero_mul [OF b4] bounded_zero_mul [OF b6] bounded_zero_mul [OF bt [OF bx(1)]] bounded_zero_mul [OF bt [OF bx(2)]]
    by simp_all
  have plus: "d_add ?one ?z = ?one" "d_add ?z ?z = ?z" by (simp_all add: round_rat_def)
  have home: "d_add (d_mul (d_add (d_mul (Fin False (of_nat n)) ?one) ?z) ?one) ?z = Fin False (of_nat n)" if "n < 2 ^ 53" for n
    using exact_nat [OF that] add_zero_right [OF that] by simp
  have cm: "camera_matrix p ! 0 = ?one" "camera_matrix p ! 4 = ?one" "camera_matrix p ! 2 = ?z" "camera_matrix p ! 5 = ?z"
    by (simp_all add: assms(1))
  have dc: "dist_coeffs p ! k = ?z" if "k < 5" for k by (simp add: assms(2) that)
  show ?thesis
    unfolding distorted_def Let_def cm
    by (simp only: dc [of 0] dc [of 1] dc [of 2] dc [of 3] dc [of 4] nats norm [OF big(1)] norm [OF big(2)] zero plus home [OF big(1)] home [OF big(2)]
        simp_thms)
qed

theorem calibration_identity:
  assumes "camera_matrix p = map (Fin False) [1, 0, 0, 0, 1, 0, 0, 0, 1]" "dist_coeffs p = replicate 5 (Fin False 0)"
    and "im_width (img_meta i) = w" "im_height (img_meta i) = h" "im_channels (img_meta i) = c"
    and "0 < w" "w \<le> 2 ^ 26" "0 < h" "h \<le> 2 ^ 26" "length (img_data i) = h * w * c"
  shows "calibrate p i = Some (Inr (surface_image (img_data i) (img_meta i)))"
proof -
  let ?f = "\<lambda>(dy, dx). case distorted p dx dy of (sx, sy) \<Rightarrow>
      if d_lt sx (Fin False 0) \<or> d_lt sy (Fin False 0) \<or> d_ge sx (d_of_nat w) \<or> d_ge sy (d_of_nat h)
      then Some (replicate c 0) else interpolated_pixel (img_data i) w h c sx sy"
  have inside: "\<not> d_ge (Fin False (rat_of_nat x)) (d_of_nat n)" "\<not> d_lt (Fin False (rat_of_nat x)) (Fin False 0)" if "x < n" "n \<le> 2 ^ 26" for x n
  proof -
    have "d_of_nat n = Fin False (of_nat n)" using that by (intro d_of_nat_exact) simp
    moreover have "rat_of_nat x < of_nat n" using that(1) by (simp only: of_nat_less_iff)
    ultimately show "\<not> d_ge (Fin False (rat_of_nat x)) (d_of_nat n)" "\<not> d_lt (Fin False (rat_of_nat x)) (Fin False 0)"
      by (simp_all add: d_ge_def)
  qed
  have "?f yx = Some ((\<lambda>(y, x). row c (img_data i) (y * w + x)) yx)" if "yx \<in> set (pixels h w)" for yx
  proof -
    obtain y x where p: "yx = (y, x)" by (cases yx)
    then have yx: "yx = (y, x)" "y < h" "x < w" using that by (simp_all add: pixels_mem)
    have lt: "x < 2 ^ 26" "y < 2 ^ 26" using yx assms(7,9) by simp_all
    show ?thesis
      using interpolated_at_pixel [of x w y h c "img_data i"] yx assms(7,9,10) inside [OF yx(3) assms(7)] inside [OF yx(2) assms(9)]
      by (simp add: no_distortion [OF assms(1,2) lt] mult.commute)
  qed
  then have "map_opt ?f (pixels h w) = Some (map (\<lambda>(y, x). row c (img_data i) (y * w + x)) (pixels h w))"
    by (rule map_opt_eq)
  then show ?thesis using all_rows [OF assms(10,6)] unfolding calibrate_def Let_def assms(3-5) by simp
qed

subsection \<open>Every step keeps images complete\<close>

text \<open>A complete image of one byte per channel.\<close>

definition byte_image :: "image \<Rightarrow> bool" where
  "byte_image i \<longleftrightarrow> image_ok i \<and> bytes_per_channel (im_format (img_meta i)) = 1"

definition builtin_step :: "preprocess_fn \<Rightarrow> bool" where
  "builtin_step f \<longleftrightarrow> f = debayer \<or> (\<exists>r g b. f = white_balance r g b) \<or> (\<exists>corr. f = flat_field corr) \<or>
     (\<exists>w h. f = resize w h) \<or> (\<exists>p. f = calibrate p) \<or> (\<exists>n. f = stretch n)"

lemma balance_length: "balance g bytes = Some out \<Longrightarrow> length out = length bytes"
  by (induction g bytes arbitrary: out rule: balance.induct) (auto split: option.splits)

lemma concat_map_opt:
  "map_opt f xs = Some ys \<Longrightarrow> (\<And>x y. f x = Some y \<Longrightarrow> length y = n) \<Longrightarrow> length (concat ys) = length xs * n"
  by (induction xs arbitrary: ys) (auto split: option.splits)

lemma interpolated_length: "interpolated_pixel bytes w h c sx sy = Some px \<Longrightarrow> length px = c"
  by (auto simp: interpolated_pixel_def dest: map_opt_length split: option.splits)

lemma debayer_keeps: "byte_image i \<Longrightarrow> debayer i = Some (Inr i') \<Longrightarrow> byte_image i'"
proof (cases "im_format (img_meta i) = BayerRG8")
  case True
  assume d: "debayer i = Some (Inr i')"
  let ?w = "im_width (img_meta i)" and ?h = "im_height (img_meta i)"
  obtain px where px: "map_opt (\<lambda>(r, c).
                    let qr = r - r mod 2; qr1 = min (qr + 1) (pred_size ?h); qc = c - c mod 2; qc1 = min (qc + 1) (pred_size ?w)
                    in map_opt (at_index (img_data i)) [qr * ?w + qc, qr * ?w + qc1, qr1 * ?w + qc1]) (pixels ?h ?w) = Some px"
    "i' = surface_image (concat px) ((img_meta i)\<lparr>im_channels := 3, im_format := RGB8\<rparr>)"
    using d True unfolding debayer_def Let_def by auto
  have "length (concat px) = length (pixels ?h ?w) * 3"
    by (rule concat_map_opt [OF px(1)]) (auto simp: Let_def simp del: map_opt.simps dest!: map_opt_length)
  then show ?thesis unfolding px(2)
    by (simp add: byte_image_def image_ok_def surface_image_def byte_size_def bytes_per_pixel_def bytes_per_channel_def)
qed (simp add: debayer_def)

lemma resize_length:
  assumes "resize tw th i = Some (Inr i')"
  shows "length (img_data i') = tw * th * im_channels (img_meta i) \<and> img_meta i' = (img_meta i)\<lparr>im_width := tw, im_height := th\<rparr> \<and>
    (im_channels (img_meta i) = 1 \<or> im_channels (img_meta i) = 3)"
proof -
  let ?c = "im_channels (img_meta i)"
  have c: "?c = 1 \<or> ?c = 3" "tw \<noteq> 0" "th \<noteq> 0" using assms by (auto simp: resize_def Let_def split: if_splits)
  obtain px where px: "map_opt (\<lambda>(oy, ox). interpolated_pixel (img_data i) (im_width (img_meta i)) (im_height (img_meta i)) ?c
      (resize_coord (im_width (img_meta i)) tw ox) (resize_coord (im_height (img_meta i)) th oy)) (pixels th tw) = Some px"
    "i' = surface_image (concat px) ((img_meta i)\<lparr>im_width := tw, im_height := th\<rparr>)"
    using assms c unfolding resize_def Let_def by auto
  have "length (concat px) = length (pixels th tw) * ?c"
    by (rule concat_map_opt [OF px(1)]) (auto dest: interpolated_length)
  then show ?thesis using c by (simp add: px(2) surface_image_def mult.commute)
qed

lemma resize_keeps: "byte_image i \<Longrightarrow> resize tw th i = Some (Inr i') \<Longrightarrow> byte_image i'"
  by (drule resize_length) (auto simp: byte_image_def image_ok_def byte_size_def bytes_per_pixel_def)

lemma calibrate_keeps: "byte_image i \<Longrightarrow> calibrate p i = Some (Inr i') \<Longrightarrow> byte_image i'"
proof -
  assume i: "byte_image i" and d: "calibrate p i = Some (Inr i')"
  let ?w = "im_width (img_meta i)" and ?h = "im_height (img_meta i)" and ?c = "im_channels (img_meta i)"
  obtain px where px: "map_opt (\<lambda>(dy, dx). case distorted p dx dy of (sx, sy) \<Rightarrow>
              if d_lt sx (Fin False 0) \<or> d_lt sy (Fin False 0) \<or> d_ge sx (d_of_nat ?w) \<or> d_ge sy (d_of_nat ?h)
              then Some (replicate ?c 0) else interpolated_pixel (img_data i) ?w ?h ?c sx sy) (pixels ?h ?w) = Some px"
    "i' = surface_image (concat px) (img_meta i)"
    using d unfolding calibrate_def Let_def by auto
  have "length (concat px) = length (pixels ?h ?w) * ?c"
    by (rule concat_map_opt [OF px(1)]) (auto dest: interpolated_length split: prod.splits if_splits)
  then show ?thesis using i unfolding px(2)
    by (simp add: byte_image_def image_ok_def surface_image_def byte_size_def bytes_per_pixel_def mult.commute)
qed

lemma same_length_keeps: "byte_image i \<Longrightarrow> length out = length (img_data i) \<Longrightarrow> byte_image (i\<lparr>img_data := out\<rparr>)"
  by (simp add: byte_image_def image_ok_def)

lemma builtin_keeps: "builtin_step f \<Longrightarrow> byte_image i \<Longrightarrow> f i = Some (Inr i') \<Longrightarrow> byte_image i'"
  unfolding builtin_step_def
proof (elim disjE exE)
  show "byte_image i \<Longrightarrow> f i = Some (Inr i') \<Longrightarrow> f = debayer \<Longrightarrow> byte_image i'" using debayer_keeps by simp
  show "byte_image i \<Longrightarrow> f i = Some (Inr i') \<Longrightarrow> f = white_balance r g b \<Longrightarrow> byte_image i'" for r g b
    by (auto simp: white_balance_def Let_def same_length_keeps dest!: balance_length split: if_splits)
  show "byte_image i \<Longrightarrow> f i = Some (Inr i') \<Longrightarrow> f = flat_field corr \<Longrightarrow> byte_image i'" for corr
    by (auto simp: flat_field_def Let_def same_length_keeps dest!: map_opt_length split: if_splits)
  show "byte_image i \<Longrightarrow> f i = Some (Inr i') \<Longrightarrow> f = resize w h \<Longrightarrow> byte_image i'" for w h using resize_keeps by simp
  show "byte_image i \<Longrightarrow> f i = Some (Inr i') \<Longrightarrow> f = calibrate p \<Longrightarrow> byte_image i'" for p using calibrate_keeps by simp
  show "byte_image i \<Longrightarrow> f i = Some (Inr i') \<Longrightarrow> f = stretch n \<Longrightarrow> byte_image i'" for n
    by (auto simp: stretch_def Let_def same_length_keeps dest!: map_opt_length split: if_splits)
qed

lemma chain_keeps: "list_all builtin_step fs \<Longrightarrow> byte_image i \<Longrightarrow> run_from fs i = Some (Inr i') \<Longrightarrow> byte_image i'"
proof (induction fs arbitrary: i)
  case (Cons f fs)
  obtain i1 where "f i = Some (Inr i1)" "run_from fs i1 = Some (Inr i')"
    using Cons.prems(3) by (auto split: option.splits sum.splits)
  then show ?case using Cons.IH [of i1] builtin_keeps [of f i i1] Cons.prems(1,2) by simp
qed simp

text \<open>Frames of two bytes per channel are resized byte by byte: the result holds half of the bytes its meta data announce, and
  a flat field correction with a complete frame of that size refuses it.\<close>

lemma deep_resize_incomplete:
  assumes "bytes_per_channel (im_format (img_meta i)) = 2" "resize tw th i = Some (Inr out)"
  shows "2 * length (img_data out) = byte_size (img_meta out) \<and>
    (0 < tw * th \<longrightarrow> (\<forall>corr. image_ok corr \<and> img_meta corr = img_meta out \<longrightarrow> (\<exists>err. flat_field corr out = Some (Inl err))))"
  using resize_length [OF assms(2)] assms(1)
  by (auto simp: byte_size_def bytes_per_pixel_def flat_field_def image_ok_def)

subsection \<open>Nothing is read out of bounds\<close>


definition stage_step :: "preprocess_fn \<Rightarrow> bool" where
  "stage_step f \<longleftrightarrow> f = debayer \<or>
     (\<exists>r g b. f = white_balance (Fin False r) (Fin False g) (Fin False b)) \<or>
     (\<exists>w h. w \<le> 2 ^ 26 \<and> h \<le> 2 ^ 26 \<and> f = resize w h)"


















text \<open>The steps of a configuration with gains that are not negative numbers.\<close>

lemma configured_stage_steps:
  assumes "new_preprocess_stage cv as_float as_size config = Inr steps"
    and "\<And>t x. as_float t = Some x \<Longrightarrow> \<exists>q. x = Fin False q" "\<And>t n. as_size t = Some n \<Longrightarrow> n \<le> 2 ^ 26"
  shows "list_all stage_step steps"
proof -
  have g: "\<exists>q. scalar_or as_float (Fin False 1) y = Fin False q" for y using assms(2) by (auto simp: scalar_or_def split: option.splits)
  have n: "scalar_or as_size 1024 y \<le> 2 ^ 26" for y using assms(3) by (auto simp: scalar_or_def split: option.splits)
  have "stage_step (white_balance (scalar_or as_float (Fin False 1) x) (scalar_or as_float (Fin False 1) y) (scalar_or as_float (Fin False 1) z))" for x y z
    using g [of x] g [of y] g [of z] unfolding stage_step_def by metis
  moreover have "stage_step (resize (scalar_or as_size 1024 x) (scalar_or as_size 1024 y))" for x y
    using n [of x] n [of y] unfolding stage_step_def by blast
  moreover have "stage_step debayer" by (simp add: stage_step_def)
  ultimately have "stage_step f" if "configured_step cv as_float as_size config y = Some f" for y f
    using that by (auto simp: configured_step_def Let_def split: if_splits)
  then show ?thesis
    using assms(1) by (auto simp: new_preprocess_stage_def list_all_iff List.map_filter_def split: sum.splits option.splits yaml.splits)
qed

subsection \<open>Witnesses\<close>


theorem resize_identity_witness: "resize 2 2 tiny_image = Some (Inr tiny_image)"
  using resize_identity [of tiny_image 2 2 1] by (simp add: tiny_image_def surface_image_def)

definition identity_calibration :: calibration where
  "identity_calibration = \<lparr>camera_matrix = map (Fin False) [1, 0, 0, 0, 1, 0, 0, 0, 1], dist_coeffs = replicate 5 (Fin False 0)\<rparr>"

theorem calibration_identity_witness: "calibrate identity_calibration tiny_image = Some (Inr tiny_image)"
  using calibration_identity [of identity_calibration tiny_image 2 2 1] by (simp add: identity_calibration_def tiny_image_def surface_image_def)


text \<open>A focal length of zero makes the coordinate of the centre column NaN, which is then converted to an integer.\<close>

lemma zero_focal_length_undefined:
  "calibrate \<lparr>camera_matrix = replicate 9 (Fin False 0), dist_coeffs = replicate 5 (Fin False 0)\<rparr> tiny_image = None"
proof -
  have zero: "d_of_nat 0 = Fin False 0" by (simp add: d_of_nat_def)
  have nan: "d_mul NaN x = NaN" "d_add NaN x = NaN" "d_add x NaN = NaN" "d_mul x NaN = NaN" for x by (cases x; simp)+
  have "d_div (d_sub (Fin False 0) (Fin False 0)) (Fin False 0) = NaN" by (simp add: d_sub_def)
  then have "distorted \<lparr>camera_matrix = replicate 9 (Fin False 0), dist_coeffs = replicate 5 (Fin False 0)\<rparr> 0 0 = (NaN, NaN)"
    unfolding distorted_def Let_def by (simp add: zero nan del: d_mul.simps d_add.simps)
  then show ?thesis
    by (simp add: calibrate_def Let_def tiny_image_def surface_image_def pixels_def upt_rec d_ge_def interpolated_pixel_def to_size_def)
qed

end
