(* ===== verification/Manifests.thy ===== *)
theory Manifests
  imports Yaml Error_Codes Prelude Float32
begin

text \<open>
  Dataset and coreset manifests: \<open>ImportDataset\<close> and \<open>ImportMetadata\<close> of \<open>src/io/basic_importer.cpp\<close> and
  \<open>src/io/coreset_manifest.cpp\<close>. The file system and yaml-cpp are parameters: whether a path exists and what loading it
  gives or throws, the scalar conversions, the text of an emitted document. \<open>None\<close> is an exception that leaves a
  \<open>noexcept\<close> function, which ends the process.
\<close>

subsection \<open>Paths\<close>

definition path_div :: "string \<Rightarrow> string \<Rightarrow> string" where
  "path_div d p =
     (if p \<noteq> [] \<and> hd p = CHR ''/'' then p
      else if d = [] \<or> last d = CHR ''/'' then d @ p else d @ ''/'' @ p)"

definition parent_path :: "string \<Rightarrow> string" where
  "parent_path p =
     (let up = dropWhile (\<lambda>c. c \<noteq> CHR ''/'') (rev p) in
      if up = [] then '''' else case dropWhile (\<lambda>c. c = CHR ''/'') up of [] \<Rightarrow> ''/'' | d \<Rightarrow> rev d)"

definition file_name :: "string \<Rightarrow> string" where
  "file_name p = rev (takeWhile (\<lambda>c. c \<noteq> CHR ''/'') (rev p))"

definition file_extension :: "string \<Rightarrow> string" where
  "file_extension p =
     (let n = file_name p; e = takeWhile (\<lambda>c. c \<noteq> CHR ''.'') (rev n) in
      if n = ''.'' \<or> n = ''..'' \<or> length n \<le> Suc (length e) then '''' else CHR ''.'' # rev e)"

subsection \<open>Reading a document\<close>

record manifest_conv = load_conv +
  as_uint16_text :: "string \<Rightarrow> 16 word option"

record disk =
  path_exists :: "string \<Rightarrow> bool"
  load_document :: "string \<Rightarrow> yaml_exception + yaml"

definition not_found :: "string \<Rightarrow> string \<Rightarrow> 'a result" where
  "not_found m p = Inl (ErrorInfo Io_ImportFileNotFound (m @ p))"

definition parse_failed :: "string \<Rightarrow> 'a result" where
  "parse_failed m = Inl (ErrorInfo Io_ImportParseFailed m)"

definition quoted :: "string \<Rightarrow> string" where
  "quoted s = [CHR 0x27] @ s @ [CHR 0x27]"

definition import_metadata :: "'a manifest_conv_scheme \<Rightarrow> 'b disk_scheme \<Rightarrow> string \<Rightarrow> yaml result" where
  "import_metadata cv dk p =
     (if \<not> path_exists dk p then not_found ''Metadata file not found: '' p
      else case load_document dk p of
             Inl ex \<Rightarrow> parse_failed (''Failed to parse metadata YAML: '' @ what cv ex)
           | Inr y \<Rightarrow> Inr y)"

text \<open>\<open>node.as<std::uint16_t>()\<close>.\<close>

definition uint16_of :: "'a manifest_conv_scheme \<Rightarrow> yaml option \<Rightarrow> 16 word option" where
  "uint16_of cv y = Option.bind (y_scalar y) (as_uint16_text cv)"

subsection \<open>Dataset manifests\<close>

record dataset_entry =
  de_path :: string
  de_surface :: string
  de_position :: "16 word"
  de_light :: "16 word"
  de_expected :: "string option"

text \<open>One image of the list; the conversions of its optional fields throw only when the field is there.\<close>

definition optional_field :: "(yaml option \<Rightarrow> 'a option) \<Rightarrow> 'a \<Rightarrow> yaml option \<Rightarrow> 'a option" where
  "optional_field f d y = (case y of None \<Rightarrow> Some d | Some _ \<Rightarrow> f y)"

definition dataset_image :: "'a manifest_conv_scheme \<Rightarrow> string \<Rightarrow> string \<Rightarrow> yaml \<Rightarrow> dataset_entry option" where
  "dataset_image cv base surface y =
     (case (y_index y ''path'', y_index y ''position'', y_index y ''light'', y_index y ''expected'') of
        (Inr p, Inr pos, Inr light, Inr expected) \<Rightarrow>
          Option.bind (text_of cv p) (\<lambda>path.
          Option.bind (optional_field (uint16_of cv) 0 pos) (\<lambda>position_id.
          Option.bind (optional_field (uint16_of cv) 0 light) (\<lambda>light_id.
          Option.bind (optional_field (\<lambda>y. map_option Some (text_of cv y)) None expected) (\<lambda>verdict.
            Some \<lparr>de_path = path_div base path, de_surface = surface, de_position = position_id, de_light = light_id,
                  de_expected = verdict\<rparr>))))
      | _ \<Rightarrow> None)"

primrec dataset_images :: "'a manifest_conv_scheme \<Rightarrow> string \<Rightarrow> string \<Rightarrow> yaml list \<Rightarrow> dataset_entry list option" where
  "dataset_images cv base surface [] = Some []"
| "dataset_images cv base surface (y # ys) =
     Option.bind (dataset_image cv base surface y) (\<lambda>e. map_option (\<lambda>es. e # es) (dataset_images cv base surface ys))"

definition import_dataset :: "'a manifest_conv_scheme \<Rightarrow> 'b disk_scheme \<Rightarrow> string \<Rightarrow> dataset_entry list result option" where
  "import_dataset cv dk p =
     (if \<not> path_exists dk p then Some (not_found ''Dataset manifest not found: '' p)
      else case load_document dk p of
             Inl ex \<Rightarrow> Some (parse_failed (''Failed to parse dataset YAML: '' @ what cv ex))
           | Inr doc \<Rightarrow>
               (case (y_index doc ''surface'', y_index doc ''images'') of
                  (Inr (Some s), Inr (Some images)) \<Rightarrow>
                    Option.bind (text_of cv (Some s)) (\<lambda>surface.
                      case images of
                        YSeq ys \<Rightarrow> map_option Inr (dataset_images cv (parent_path p) surface ys)
                      | _ \<Rightarrow> Some (parse_failed (quoted ''images'' @ '' must be a sequence'')))
                | (Inl ex, _) \<Rightarrow> None
                | (Inr (Some s), Inl ex) \<Rightarrow> None
                | _ \<Rightarrow> Some (parse_failed (''Dataset YAML must contain '' @ quoted ''surface'' @ '' and '' @
                         quoted ''images'' @ '' keys''))))"

subsection \<open>Coreset manifests\<close>

record bank_entry =
  be_position :: "16 word"
  be_path :: string

record coreset_manifest =
  cm_surface :: string
  cm_banks :: "bank_entry list"

definition manifest_bank :: "'a manifest_conv_scheme \<Rightarrow> string \<Rightarrow> yaml \<Rightarrow> bank_entry result option" where
  "manifest_bank cv base y =
     (case (y_index y ''position'', y_index y ''path'') of
        (Inl ex, _) \<Rightarrow> None
      | (Inr (Some pos), Inl ex) \<Rightarrow> None
      | (Inr (Some pos), Inr (Some path)) \<Rightarrow>
          Some (case uint16_of cv (Some pos) of
             None \<Rightarrow> parse_failed (''Failed to parse bank '' @ quoted ''position'' @ '' as uint16: '' @ what cv BadConversion)
           | Some n \<Rightarrow>
               (case text_of cv (Some path) of
                  None \<Rightarrow> parse_failed (''Failed to parse bank '' @ quoted ''path'' @ '' as string: '' @ what cv BadConversion)
                | Some s \<Rightarrow> Inr \<lparr>be_position = n, be_path = path_div base s\<rparr>))
      | _ \<Rightarrow> Some (parse_failed (''Each bank entry must have '' @ quoted ''position'' @ '' and '' @ quoted ''path'' @ '' fields'')))"

primrec manifest_banks :: "'a manifest_conv_scheme \<Rightarrow> string \<Rightarrow> yaml list \<Rightarrow> bank_entry list result option" where
  "manifest_banks cv base [] = Some (Inr [])"
| "manifest_banks cv base (y # ys) =
     (case manifest_bank cv base y of
        None \<Rightarrow> None
      | Some (Inl err) \<Rightarrow> Some (Inl err)
      | Some (Inr b) \<Rightarrow> map_option (map_sum id (\<lambda>bs. b # bs)) (manifest_banks cv base ys))"

definition load_coreset_manifest :: "'a manifest_conv_scheme \<Rightarrow> 'b disk_scheme \<Rightarrow> string \<Rightarrow> coreset_manifest result option" where
  "load_coreset_manifest cv dk p =
     (if \<not> path_exists dk p then Some (not_found ''Coreset manifest not found: '' p)
      else case load_document dk p of
             Inl ex \<Rightarrow> Some (parse_failed (''Failed to parse coreset manifest YAML: '' @ what cv ex))
           | Inr doc \<Rightarrow>
               (case (y_index doc ''surface'', y_index doc ''banks'') of
                  (Inr (Some s), Inr (Some banks)) \<Rightarrow>
                    (case text_of cv (Some s) of
                       None \<Rightarrow> Some (parse_failed (''Failed to parse '' @ quoted ''surface'' @ '' as string: '' @ what cv BadConversion))
                     | Some surface \<Rightarrow>
                         (case banks of
                            YSeq ys \<Rightarrow>
                              map_option (map_sum id (\<lambda>bs. \<lparr>cm_surface = surface, cm_banks = bs\<rparr>)) (manifest_banks cv (parent_path p) ys)
                          | _ \<Rightarrow> Some (parse_failed (quoted ''banks'' @ '' must be a sequence''))))
                | (Inl ex, _) \<Rightarrow> None
                | (Inr (Some s), Inl ex) \<Rightarrow> None
                | _ \<Rightarrow> Some (parse_failed (''Coreset manifest must contain '' @ quoted ''surface'' @ '' and '' @ quoted ''banks'' @ '' keys''))))"

definition manifest_document :: "coreset_manifest \<Rightarrow> yaml" where
  "manifest_document m =
     YMap [(''surface'', YScalar (cm_surface m)),
           (''banks'', YSeq (map (\<lambda>b. YMap [(''position'', YScalar (nat_str (unat (be_position b)))),
                                            (''path'', YScalar (file_name (be_path b)))]) (cm_banks m)))]"

text \<open>The result, and the text the file has afterwards (\<open>None\<close> when it is not touched); \<open>written\<close> characters arrive.\<close>

definition save_coreset_manifest :: "(yaml \<Rightarrow> string) \<Rightarrow> string \<Rightarrow> coreset_manifest \<Rightarrow> bool \<Rightarrow> nat \<Rightarrow> unit result \<times> string option" where
  "save_coreset_manifest emit p m can_open written =
     (let doc = emit (manifest_document m) in
      if \<not> can_open then (Inl (ErrorInfo Io_ExportPathCreateFailed (''Cannot open coreset manifest for writing: '' @ p)), None)
      else if written < length doc
      then (Inl (ErrorInfo Io_SerializationFailed (''Failed to write coreset manifest: '' @ p)), Some (take written doc))
      else (Inr (), Some doc))"

section \<open>Properties\<close>

subsection \<open>Dataset manifests\<close>

lemma dataset_images_all2:
  "dataset_images cv base s ys = Some es \<Longrightarrow> list_all2 (\<lambda>y e. dataset_image cv base s y = Some e) ys es"
  by (induction ys arbitrary: es) (auto simp: bind_eq_Some_conv)

lemma dataset_image_fields:
  assumes "dataset_image cv base s y = Some e"
  shows "de_surface e = s" "y_index y ''position'' = Inr None \<Longrightarrow> de_position e = 0" "y_index y ''light'' = Inr None \<Longrightarrow> de_light e = 0"
    "y_index y ''expected'' = Inr None \<Longrightarrow> de_expected e = None" "\<exists>n t. y_index y ''path'' = Inr n \<and> text_of cv n = Some t \<and> de_path e = path_div base t"
  using assms by (auto simp: dataset_image_def bind_eq_Some_conv optional_field_def split: sum.splits)

text \<open>What a successful import returns: one entry per image of the list, in its order, with the surface of the manifest.\<close>

lemma import_dataset_entries:
  assumes "import_dataset cv dk p = Some (Inr es)"
  shows "\<exists>doc s t ys. load_document dk p = Inr doc \<and> y_index doc ''surface'' = Inr (Some s) \<and> text_of cv (Some s) = Some t \<and>
    y_index doc ''images'' = Inr (Some (YSeq ys)) \<and> list_all2 (\<lambda>y e. dataset_image cv (parent_path p) t y = Some e) ys es"
proof -
  obtain doc s images where doc: "path_exists dk p" "load_document dk p = Inr doc" "y_index doc ''surface'' = Inr (Some s)"
    "y_index doc ''images'' = Inr (Some images)"
    using assms by (auto simp: import_dataset_def not_found_def parse_failed_def split: if_splits sum.splits option.splits)
  then obtain t ys where "text_of cv (Some s) = Some t" "images = YSeq ys" "dataset_images cv (parent_path p) t ys = Some es"
    using assms by (cases images) (auto simp: import_dataset_def parse_failed_def bind_eq_Some_conv)
  then show ?thesis
    using doc dataset_images_all2 by blast
qed

text \<open>An image of the list without a path: the conversion throws inside a \<open>noexcept\<close> function.\<close>

theorem dataset_without_path_terminates:
  assumes "path_exists dk p" "load_document dk p = Inr (YMap [(''surface'', YScalar s), (''images'', YSeq ys)])"
    "YMap kvs \<in> set ys" "y_at kvs ''path'' = None"
  shows "import_dataset cv dk p = None"
proof -
  have "dataset_image cv base s (YMap kvs) = None" for base
    using assms(4) by (simp add: dataset_image_def y_index_def text_of_def split: sum.split)
  then have "dataset_images cv base s ys = None" for base
    using assms(3) by (induction ys) (auto split: Option.bind_split)
  then show ?thesis
    using assms(1, 2) by (simp add: import_dataset_def y_index_def y_at_def text_of_def)
qed

subsection \<open>Round trip of coreset manifests\<close>

text \<open>The banks as the file names them: the file name of each path, in the directory of the manifest.\<close>

definition rebased :: "string \<Rightarrow> bank_entry \<Rightarrow> bank_entry" where
  "rebased base b = b\<lparr>be_path := path_div base (file_name (be_path b))\<rparr>"

lemma manifest_banks_saved:
  assumes "\<And>b. b \<in> set bs \<Longrightarrow> as_uint16_text cv (nat_str (unat (be_position b))) = Some (be_position b)"
  shows "manifest_banks cv base (map (\<lambda>b. YMap [(''position'', YScalar (nat_str (unat (be_position b)))), (''path'', YScalar (file_name (be_path b)))]) bs) =
    Some (Inr (map (rebased base) bs))"
  using assms by (induction bs) (simp_all add: manifest_bank_def y_index_def y_at_def uint16_of_def y_scalar_def text_of_def rebased_def)

lemma load_saved:
  assumes "path_exists dk p" "load_document dk p = Inr (manifest_document m)"
    "\<And>b. b \<in> set (cm_banks m) \<Longrightarrow> as_uint16_text cv (nat_str (unat (be_position b))) = Some (be_position b)"
  shows "load_coreset_manifest cv dk p = Some (Inr (m\<lparr>cm_banks := map (rebased (parent_path p)) (cm_banks m)\<rparr>))"
  using assms(1, 2) manifest_banks_saved [OF assms(3), of "cm_banks m"]
  by (simp add: load_coreset_manifest_def manifest_document_def y_index_def y_at_def text_of_def)

lemma file_name_plain: "file_name p = n \<Longrightarrow> CHR ''/'' \<notin> set n"
  by (auto simp: file_name_def dest!: set_takeWhileD)

lemma file_name_div:
  assumes "CHR ''/'' \<notin> set n" "n \<noteq> []"
  shows "file_name (path_div d n) = n"
proof -
  have stop: "takeWhile (\<lambda>c. c \<noteq> CHR ''/'') (rev n @ xs) = rev n @ takeWhile (\<lambda>c. c \<noteq> CHR ''/'') xs" for xs
    using assms(1) by (intro takeWhile_append2) auto
  have rel: "hd n \<noteq> CHR ''/''"
    using assms by (metis hd_in_set)
  show ?thesis
  proof (cases "d = [] \<or> last d = CHR ''/''")
    case True
    then have "takeWhile (\<lambda>c. c \<noteq> CHR ''/'') (rev d) = []"
      by (cases d rule: rev_cases) auto
    then show ?thesis
      using True rel assms(2) stop [of "rev d"] by (simp add: path_div_def file_name_def)
  next
    case False
    then show ?thesis
      using rel stop [of "CHR ''/'' # rev d"] by (simp add: path_div_def file_name_def)
  qed
qed

text \<open>The manifest is written next to its banks: the entries are then those that were saved.\<close>

lemma rebased_sibling:
  assumes "be_path b = path_div base n" "CHR ''/'' \<notin> set n" "n \<noteq> []"
  shows "rebased base b = b"
  using assms by (simp add: rebased_def file_name_div)

text \<open>A coreset manifest whose banks lie in the directory of the manifest file is read back from the text of a successful
  save as it was, given that the YAML library parses what it emitted and reads a 16-bit number from its decimal digits.\<close>

theorem coreset_manifest_roundtrip:
  assumes "\<forall>w. as_uint16_text cv (nat_str (unat w)) = Some w" "parse (emit (manifest_document m)) = Inr (manifest_document m)"
    "save_coreset_manifest emit p m can_open written = (Inr (), Some text)"
    "dk = \<lparr>path_exists = (\<lambda>q. q = p), load_document = (\<lambda>q. parse text)\<rparr>"
    "\<forall>b \<in> set (cm_banks m). be_path b = path_div (parent_path p) (file_name (be_path b)) \<and> file_name (be_path b) \<noteq> []"
  shows "load_coreset_manifest cv dk p = Some (Inr m)"
proof -
  have "text = emit (manifest_document m)"
    using assms(3) by (auto simp: save_coreset_manifest_def Let_def split: if_splits)
  then have "load_coreset_manifest cv dk p = Some (Inr (m\<lparr>cm_banks := map (rebased (parent_path p)) (cm_banks m)\<rparr>))"
    using assms(1, 2, 4) by (intro load_saved) simp_all
  moreover have "map (rebased (parent_path p)) (cm_banks m) = cm_banks m"
    using assms(5) by (intro map_idI) (simp add: rebased_def)
  ultimately show ?thesis
    by simp
qed

definition demo_manifest_conv :: manifest_conv where
  "demo_manifest_conv =
     \<lparr>as_double_text = (\<lambda>_. None), as_int64_text = (\<lambda>_. None), null_text = None, as_uint32_text = (\<lambda>_. None), what = (\<lambda>_. []),
      as_uint16_text = (\<lambda>s. Some (of_nat (str_nat_acc 0 s)))\<rparr>"

lemma coreset_manifest_roundtrip_witness:
  "\<exists>emit parse text.
     let m = \<lparr>cm_surface = ''seat'', cm_banks = [\<lparr>be_position = 3, be_path = ''out/pos_3.bin''\<rparr>]\<rparr> in
     save_coreset_manifest emit ''out/seat.yaml'' m True 5 = (Inr (), Some text) \<and>
     load_coreset_manifest demo_manifest_conv \<lparr>path_exists = (\<lambda>q. q = ''out/seat.yaml''), load_document = (\<lambda>q. parse text)\<rparr>
       ''out/seat.yaml'' = Some (Inr m)"
proof -
  let ?m = "\<lparr>cm_surface = ''seat'', cm_banks = [\<lparr>be_position = 3, be_path = ''out/pos_3.bin''\<rparr>]\<rparr>"
  let ?emit = "\<lambda>_ :: yaml. ''text''" and ?parse = "\<lambda>_ :: string. Inr (manifest_document ?m) :: yaml_exception + yaml"
  have save: "save_coreset_manifest ?emit ''out/seat.yaml'' ?m True 5 = (Inr (), Some ''text'')"
    by (simp add: save_coreset_manifest_def)
  have "load_coreset_manifest demo_manifest_conv
    \<lparr>path_exists = (\<lambda>q. q = ''out/seat.yaml''), load_document = (\<lambda>q. ?parse ''text'')\<rparr> ''out/seat.yaml'' = Some (Inr ?m)"
    by (rule coreset_manifest_roundtrip [OF _ _ save refl])
       (simp_all add: demo_manifest_conv_def str_nat_nat_str path_div_def parent_path_def file_name_def)
  then show ?thesis
    using save by (intro exI [of _ ?emit] exI [of _ ?parse] exI [of _ "''text''"]) (simp add: Let_def)
qed

end
