(* ===== verification/Image_Import.thy ===== *)
theory Image_Import
  imports Manifests Image_Buffer Option_Lists
begin

text \<open>
  Reading image files (\<open>BasicImporter::ImportImage\<close> in \<open>src/io/basic_importer.cpp\<close>): the built-in TIFF reader, byte by
  byte, and the call of stb_image, which is a parameter with \<open>malloc\<close>. Sizes are 64-bit words where the code multiplies
  and adds them. \<open>None\<close> is a read outside of a buffer, or an allocation that throws out of a \<open>noexcept\<close> function.
\<close>

subsection \<open>Libraries\<close>

text \<open>An opened file is the size \<open>tellg\<close> reports and the bytes a read delivers. A decoded image is its width, height,
  the number of channels of the file and the bytes of its samples.\<close>

record image_disk = disk +
  open_binary :: "string \<Rightarrow> (nat \<times> 8 word list) option"

type_synonym decoded = "int \<times> int \<times> int \<times> 8 word list"

record stb_lib =
  stb_is_16 :: "8 word list \<Rightarrow> int \<Rightarrow> bool"
  stb_load_16 :: "8 word list \<Rightarrow> int \<Rightarrow> int \<Rightarrow> decoded option"
  stb_load_8 :: "8 word list \<Rightarrow> int \<Rightarrow> int \<Rightarrow> decoded option"
  stb_reason :: string
  malloc_ok :: "nat \<Rightarrow> bool"

definition to_int32 :: "nat \<Rightarrow> int" where
  "to_int32 n = sint (of_nat n :: 32 word)"

subsection \<open>The TIFF reader\<close>

definition read16 :: "bool \<Rightarrow> 8 word list \<Rightarrow> nat \<Rightarrow> nat option" where
  "read16 le b p =
     (case (at_index b p, at_index b (p + 1)) of
        (Some x, Some y) \<Rightarrow> Some (if le then unat x + 256 * unat y else 256 * unat x + unat y)
      | _ \<Rightarrow> None)"

definition read32 :: "bool \<Rightarrow> 8 word list \<Rightarrow> nat \<Rightarrow> nat option" where
  "read32 le b p =
     Option.bind (read16 le b p) (\<lambda>x. map_option (\<lambda>y. if le then x + 65536 * y else 65536 * x + y) (read16 le b (p + 2)))"

record tiff_tags =
  tt_width :: nat
  tt_height :: nat
  tt_bits :: nat
  tt_samples :: nat
  tt_strip :: nat
  tt_strip_bytes :: nat

definition no_tags :: tiff_tags where
  "no_tags = \<lparr>tt_width = 0, tt_height = 0, tt_bits = 8, tt_samples = 1, tt_strip = 0, tt_strip_bytes = 0\<rparr>"

definition tiff_entry :: "bool \<Rightarrow> 8 word list \<Rightarrow> nat \<Rightarrow> tiff_tags \<Rightarrow> tiff_tags option" where
  "tiff_entry le b ofs th =
     Option.bind (read16 le b ofs) (\<lambda>tag. Option.bind (read16 le b (ofs + 2)) (\<lambda>type.
     Option.bind (read32 le b (ofs + 4)) (\<lambda>count. Option.bind (read32 le b (ofs + 8)) (\<lambda>val.
     Option.bind (read16 le b (ofs + 8)) (\<lambda>short.
       let v = (if type = 3 \<and> count = 1 then short else val) in
       Some (if tag = 256 then th\<lparr>tt_width := v\<rparr>
             else if tag = 257 then th\<lparr>tt_height := v\<rparr>
             else if tag = 258 then th\<lparr>tt_bits := v\<rparr>
             else if tag = 277 then th\<lparr>tt_samples := v\<rparr>
             else if tag = 273 then th\<lparr>tt_strip := val\<rparr>
             else if tag = 279 then th\<lparr>tt_strip_bytes := val\<rparr>
             else th))))))"

primrec tiff_walk :: "bool \<Rightarrow> 8 word list \<Rightarrow> nat \<Rightarrow> nat list \<Rightarrow> tiff_tags \<Rightarrow> tiff_tags option" where
  "tiff_walk le b ifd [] th = Some th"
| "tiff_walk le b ifd (e # es) th =
     (if length b < ifd + 2 + e * 12 + 12 then Some th
      else Option.bind (tiff_entry le b (ifd + 2 + e * 12) th) (tiff_walk le b ifd es))"

text \<open>\<open>size_t(width) * size_t(height) * size_t(channels) * (2 or 1)\<close>.\<close>

definition sample_bytes :: "int \<Rightarrow> int \<Rightarrow> int \<Rightarrow> bool \<Rightarrow> 64 word" where
  "sample_bytes w h c wide = of_int w * of_int h * of_int c * (if wide then 2 else 1)"

definition tiff_pixels :: "(nat \<Rightarrow> bool) \<Rightarrow> 8 word list \<Rightarrow> tiff_tags \<Rightarrow> (decoded \<times> bool) result option" where
  "tiff_pixels malloc b th =
     (let w = to_int32 (tt_width th); h = to_int32 (tt_height th); c = to_int32 (tt_samples th); wide = (tt_bits th = 16);
          data_size = sample_bytes w h c wide
      in if length b < unat (of_nat (tt_strip th) + data_size) then Some (parse_failed ''TIFF: strip data out of bounds'')
         else if \<not> malloc (unat data_size) then Some (parse_failed ''TIFF: malloc failed'')
         else map_option (\<lambda>px. Inr ((w, h, c, px), wide)) (copied_row b (tt_strip th) (unat data_size)))"

definition decode_tiff :: "(nat \<Rightarrow> bool) \<Rightarrow> 8 word list \<Rightarrow> (decoded \<times> bool) result option" where
  "decode_tiff malloc b =
     (if length b < 8 then Some (parse_failed ''TIFF file too small'')
      else let le = (b ! 0 = 0x49 \<and> b ! 1 = 0x49); be = (b ! 0 = 0x4D \<and> b ! 1 = 0x4D) in
           if \<not> le \<and> \<not> be then Some (parse_failed ''Not a valid TIFF file'')
           else Option.bind (read32 le b 4) (\<lambda>ifd.
             if length b < ifd + 2 then Some (parse_failed ''TIFF: IFD out of bounds'')
             else Option.bind (read16 le b ifd) (\<lambda>n. Option.bind (tiff_walk le b ifd [0..<n] no_tags) (\<lambda>th.
               if tt_width th = 0 \<or> tt_height th = 0 \<or> tt_strip th = 0 \<or> tt_strip_bytes th = 0
               then Some (parse_failed ''TIFF: missing required tags'')
               else tiff_pixels malloc b th))))"

subsection \<open>The other formats\<close>

definition decode_stb :: "'a stb_lib_scheme \<Rightarrow> 8 word list \<Rightarrow> string \<Rightarrow> (decoded \<times> bool) result" where
  "decode_stb lib b path =
     (let n = to_int32 (length b) in
      case (if stb_is_16 lib b n then stb_load_16 lib b n 0 else None) of
        Some d \<Rightarrow> Inr (d, True)
      | None \<Rightarrow>
          (case stb_load_8 lib b n 3 of
             None \<Rightarrow> parse_failed (''Image decode failed: '' @ stb_reason lib @ '' ['' @ path @ '']'')
           | Some d \<Rightarrow> Inr (d, False)))"

subsection \<open>Import\<close>

definition imported_format :: "int \<Rightarrow> bool \<Rightarrow> pixel_format" where
  "imported_format c wide =
     (if wide then (if c = 1 then Mono16 else if c = 3 then RGB16 else Mono16)
      else (if c = 1 then Mono8 else if c = 3 then RGB8 else RGB8))"

definition imported_image :: "string \<Rightarrow> decoded \<times> bool \<Rightarrow> image result option" where
  "imported_image path d =
     (case d of ((w, h, c, px), wide) \<Rightarrow>
        if w \<le> 0 \<or> h \<le> 0 then Some (parse_failed (''Decoded image has invalid dimensions: '' @ path))
        else map_option
               (\<lambda>bytes. Inr \<lparr>img_kind = Raw_Image,
                  img_meta = \<lparr>im_width = nat w, im_height = nat h, im_channels = unat (of_int c :: 64 word),
                     im_format = imported_format c wide, im_bits = (if wide then 16 else 8), im_timestamp = 0, im_frame = 0,
                     im_surface = [], im_position = 0, im_light = 0\<rparr>,
                  img_data = bytes\<rparr>)
               (copied_row px 0 (unat (sample_bytes w h c wide))))"

definition is_tiff :: "string \<Rightarrow> bool" where
  "is_tiff path \<longleftrightarrow> file_extension path = ''.tif'' \<or> file_extension path = ''.tiff''"

definition import_image :: "'a stb_lib_scheme \<Rightarrow> 'b image_disk_scheme \<Rightarrow> string \<Rightarrow> image result option" where
  "import_image lib dk path =
     (if \<not> path_exists dk path then Some (not_found ''Image file not found: '' path)
      else case open_binary dk path of
             None \<Rightarrow> Some (not_found ''Cannot open image file: '' path)
           | Some (file_size, bytes) \<Rightarrow>
               if file_size = 0 then Some (parse_failed (''Empty image file: '' @ path))
               else if 2 ^ 63 \<le> file_size then None
               else if length bytes < file_size then Some (parse_failed (''Failed to read image file: '' @ path))
               else let b = take file_size bytes in
                    Option.bind (if is_tiff path then decode_tiff (malloc_ok lib) b else Some (decode_stb lib b path)) (\<lambda>r.
                      case r of Inl err \<Rightarrow> Some (Inl err) | Inr d \<Rightarrow> imported_image path d))"

section \<open>Properties\<close>

subsection \<open>Reads of the TIFF reader\<close>

lemma read16_some: "p + 1 < length b \<Longrightarrow> \<exists>v. read16 le b p = Some v"
  by (simp add: read16_def)

lemma read32_some: "p + 3 < length b \<Longrightarrow> \<exists>v. read32 le b p = Some v"
  using read16_some [of p b le] read16_some [of "p + 2" b le] by (auto simp: read32_def)

lemma tiff_entry_some: "ofs + 12 \<le> length b \<Longrightarrow> \<exists>th'. tiff_entry le b ofs th = Some th'"
  using read16_some [of ofs b le] read16_some [of "ofs + 2" b le] read32_some [of "ofs + 4" b le] read32_some [of "ofs + 8" b le]
    read16_some [of "ofs + 8" b le]
  unfolding tiff_entry_def by (auto simp: Let_def simp del: One_nat_def)

lemma tiff_walk_some: "\<exists>th'. tiff_walk le b ifd es th = Some th'"
proof (induction es arbitrary: th)
  case (Cons e es)
  show ?case
  proof (cases "length b < ifd + 2 + e * 12 + 12")
    case False
    then obtain th' where "tiff_entry le b (ifd + 2 + e * 12) th = Some th'"
      using tiff_entry_some [of "ifd + 2 + e * 12" b le th] by auto
    then show ?thesis
      using Cons.IH [of th'] False by simp
  qed simp
qed simp

lemma read16_bound:
  assumes "read16 le b p = Some v"
  shows "v < 65536"
proof -
  obtain x y :: "8 word" where v: "v = (if le then unat x + 256 * unat y else 256 * unat x + unat y)"
    using assms by (auto simp: read16_def split: option.splits)
  have "unat x < 256" "unat y < 256"
    using unsigned_less [of x] unsigned_less [of y] by simp_all
  then show ?thesis
    unfolding v by (cases le) simp_all
qed

lemma read32_bound:
  assumes "read32 le b p = Some v"
  shows "v < 2 ^ 32"
proof -
  obtain x y where "read16 le b p = Some x" "read16 le b (p + 2) = Some y" and v: "v = (if le then x + 65536 * y else 65536 * x + y)"
    using assms by (auto simp: read32_def bind_eq_Some_conv)
  then have "x < 65536" "y < 65536"
    by (auto dest: read16_bound)
  then show ?thesis
    unfolding v by (cases le) simp_all
qed

lemma tiff_entry_strip:
  assumes "tiff_entry le b ofs th = Some th'" "tt_strip th < 2 ^ 32"
  shows "tt_strip th' < 2 ^ 32"
  using assms by (auto simp: tiff_entry_def Let_def bind_eq_Some_conv dest: read32_bound split: if_splits)

lemma tiff_walk_strip: "tiff_walk le b ifd es th = Some th' \<Longrightarrow> tt_strip th < 2 ^ 32 \<Longrightarrow> tt_strip th' < 2 ^ 32"
proof (induction es arbitrary: th)
  case (Cons e es)
  then show ?case
    using tiff_entry_strip [of le b "ifd + 2 + e * 12" th] by (auto simp: bind_eq_Some_conv split: if_splits)
qed simp

lemma copied_row_length: "copied_row b s n = Some px \<Longrightarrow> length px = n"
  by (auto simp: copied_row_def split: if_splits)

text \<open>As many bytes as the dimensions and the sample width say, modulo the word size.\<close>

definition sized :: "(decoded \<times> bool) result \<Rightarrow> bool" where
  "sized r \<longleftrightarrow> (case r of Inl err \<Rightarrow> True | Inr ((w, h, c, px), wide) \<Rightarrow> length px = unat (sample_bytes w h c wide))"

lemma sized_simps [simp]: "sized (parse_failed m)" "sized (Inr ((w, h, c, px), wide)) \<longleftrightarrow> length px = unat (sample_bytes w h c wide)"
  by (simp_all add: sized_def parse_failed_def)

text \<open>The bounds check of the strip does not wrap around for a size that can be allocated.\<close>

lemma tiff_pixels_some:
  assumes "\<forall>n. malloc n \<longrightarrow> n < 2 ^ 63" "tt_strip th < 2 ^ 32"
  shows "\<exists>r. tiff_pixels malloc b th = Some r \<and> sized r"
proof -
  let ?ds = "sample_bytes (to_int32 (tt_width th)) (to_int32 (tt_height th)) (to_int32 (tt_samples th)) (tt_bits th = 16)"
  show ?thesis
  proof (cases "length b < unat (of_nat (tt_strip th) + ?ds) \<or> \<not> malloc (unat ?ds)")
    case True
    then show ?thesis
      unfolding tiff_pixels_def Let_def by (cases "length b < unat (of_nat (tt_strip th) + ?ds)") simp_all
  next
    case False
    then have "unat ?ds < 2 ^ 63"
      using assms(1) by blast
    then have "tt_strip th + unat ?ds < 2 ^ 64"
      using assms(2) by simp
    then have "unat (of_nat (tt_strip th) + ?ds) = tt_strip th + unat ?ds"
      using assms(2) by (simp add: unat_word_ariths unat_of_nat)
    then obtain px where "copied_row b (tt_strip th) (unat ?ds) = Some px"
      using False by (auto simp: copied_row_def)
    then show ?thesis
      using False copied_row_length [of b "tt_strip th" "unat ?ds" px] unfolding tiff_pixels_def Let_def by simp
  qed
qed

lemma decode_tiff_some:
  assumes "\<forall>n. malloc n \<longrightarrow> n < 2 ^ 63"
  shows "\<exists>r. decode_tiff malloc b = Some r \<and> sized r"
proof (cases "length b < 8 \<or> \<not> (b ! 0 = 0x49 \<and> b ! 1 = 0x49) \<and> \<not> (b ! 0 = 0x4D \<and> b ! 1 = 0x4D)")
  case True
  then show ?thesis
    by (cases "length b < 8") (simp_all add: decode_tiff_def Let_def)
next
  case False
  let ?le = "b ! 0 = 0x49 \<and> b ! 1 = 0x49"
  obtain ifd where ifd: "read32 ?le b 4 = Some ifd"
    using read32_some [of 4 b ?le] False by auto
  show ?thesis
  proof (cases "length b < ifd + 2")
    case True
    then show ?thesis
      using False ifd unfolding decode_tiff_def Let_def by simp
  next
    case in_range: False
    obtain n where n: "read16 ?le b ifd = Some n"
      using read16_some [of ifd b ?le] in_range by auto
    obtain th where th: "tiff_walk ?le b ifd [0..<n] no_tags = Some th"
      using tiff_walk_some by blast
    have "tt_strip th < 2 ^ 32"
      by (rule tiff_walk_strip [OF th]) (simp add: no_tags_def)
    then obtain r where r: "tiff_pixels malloc b th = Some r" "sized r"
      using tiff_pixels_some [OF assms(1)] by blast
    have "decode_tiff malloc b =
      (if tt_width th = 0 \<or> tt_height th = 0 \<or> tt_strip th = 0 \<or> tt_strip_bytes th = 0
       then Some (parse_failed ''TIFF: missing required tags'') else Some r)"
      using False in_range ifd n th r(1) unfolding decode_tiff_def Let_def by (simp split: if_split) blast
    then show ?thesis
      using r(2) by (simp split: if_split)
  qed
qed

subsection \<open>Imported images\<close>

lemma imported_sizes:
  assumes "0 < w" "0 < h"
  shows "sample_bytes w h c wide = of_nat (nat w * nat h * (unat (of_int c :: 64 word) * bytes_per_channel (imported_format c wide)))"
  using assms by (simp add: sample_bytes_def bytes_per_channel_def imported_format_def)

lemma imported_image_run:
  assumes "imported_image path ((w, h, c, px), wide) = Some (Inr i)"
  shows "0 < im_width (img_meta i)" "0 < im_height (img_meta i)" "length (img_data i) = byte_size (img_meta i) mod 2 ^ 64"
    "img_data i = take (unat (sample_bytes w h c wide)) px"
proof -
  have pos: "0 < w" "0 < h"
    using assms by (auto simp: imported_image_def parse_failed_def split: if_splits)
  then obtain bytes where bytes: "copied_row px 0 (unat (sample_bytes w h c wide)) = Some bytes" "img_data i = bytes"
    "im_width (img_meta i) = nat w" "im_height (img_meta i) = nat h" "im_channels (img_meta i) = unat (of_int c :: 64 word)"
    "im_format (img_meta i) = imported_format c wide"
    using assms by (auto simp: imported_image_def parse_failed_def split: if_splits)
  show "0 < im_width (img_meta i)" "0 < im_height (img_meta i)"
    using bytes pos by simp_all
  show "img_data i = take (unat (sample_bytes w h c wide)) px"
    using bytes(1, 2) by (auto simp: copied_row_def split: if_splits)
  show "length (img_data i) = byte_size (img_meta i) mod 2 ^ 64"
  proof -
    have "sample_bytes w h c wide = of_nat (byte_size (img_meta i))"
      unfolding imported_sizes [OF pos] byte_size_def bytes_per_pixel_def bytes(3-6) ..
    then have "unat (sample_bytes w h c wide) = byte_size (img_meta i) mod 2 ^ 64"
      by (simp only: unat_of_nat) simp
    then show ?thesis
      using copied_row_length [OF bytes(1)] bytes(2) by simp
  qed
qed

lemma imported_image_sized:
  "sized (Inr ((w, h, c, px), wide)) \<Longrightarrow> \<exists>r. imported_image path ((w, h, c, px), wide) = Some r"
  by (simp add: imported_image_def copied_row_def)

lemma tiff_import_run:
  assumes "is_tiff path" "\<forall>n. malloc_ok lib n \<longrightarrow> n < 2 ^ 63" "\<forall>n bytes. open_binary dk path = Some (n, bytes) \<longrightarrow> n < 2 ^ 63"
  shows "\<exists>r. import_image lib dk path = Some r \<and>
    (\<forall>i. r = Inr i \<longrightarrow> 0 < im_width (img_meta i) \<and> 0 < im_height (img_meta i) \<and>
      length (img_data i) = byte_size (img_meta i) mod 2 ^ 64)"
proof (cases "open_binary dk path")
  case None
  then show ?thesis
    by (auto simp: import_image_def not_found_def)
next
  case (Some f)
  obtain n bytes where f: "f = (n, bytes)"
    by fastforce
  show ?thesis
  proof (cases "\<not> path_exists dk path \<or> n = 0 \<or> length bytes < n")
    case True
    moreover have "n < 2 ^ 63"
      using assms(3) Some f by simp
    ultimately show ?thesis
      using Some f by (cases "path_exists dk path"; cases "n = 0") (simp_all add: import_image_def not_found_def parse_failed_def)
  next
    case False
    obtain r where r: "decode_tiff (malloc_ok lib) (take n bytes) = Some r" "sized r"
      using decode_tiff_some [OF assms(2)] by blast
    have run: "import_image lib dk path = (case r of Inl err \<Rightarrow> Some (Inl err) | Inr d \<Rightarrow> imported_image path d)"
      using False assms(1, 3) Some f r(1) by (simp add: import_image_def Let_def)
    show ?thesis
    proof (cases r)
      case (Inr d)
      obtain w h c px wide where d: "d = ((w, h, c, px), wide)"
        by (metis prod.exhaust)
      then show ?thesis
        using imported_image_sized [of w h c px wide path] imported_image_run [of path w h c px wide] r(2) run Inr by auto
    qed (use run in simp)
  qed
qed

text \<open>Whatever bytes a TIFF file holds, importing it never reads outside of the file's bytes and always returns: an
  error, or an image of positive width and height whose data are as long as its meta data say, modulo the 64 bits of the
  size computation. Assumed is that no single allocation of half of the address space succeeds.\<close>

theorem tiff_import_safe:
  assumes "is_tiff path" "\<forall>n. malloc_ok lib n \<longrightarrow> n < 2 ^ 63" "\<forall>n bytes. open_binary dk path = Some (n, bytes) \<longrightarrow> n < 2 ^ 63"
  shows "\<exists>r. import_image lib dk path = Some r \<and>
    (\<forall>i. r = Inr i \<longrightarrow> 0 < im_width (img_meta i) \<and> 0 < im_height (img_meta i) \<and>
      length (img_data i) = byte_size (img_meta i) mod 2 ^ 64)"
  by (rule tiff_import_run [OF assms])

definition demo_disk :: "8 word list \<Rightarrow> image_disk" where
  "demo_disk b = \<lparr>path_exists = (\<lambda>_. True), load_document = (\<lambda>_. Inl BadFile), open_binary = (\<lambda>_. Some (length b, b))\<rparr>"

definition demo_stb :: "decoded option \<Rightarrow> stb_lib" where
  "demo_stb d = \<lparr>stb_is_16 = (\<lambda>_ _. False), stb_load_16 = (\<lambda>_ _ _. None), stb_load_8 = (\<lambda>_ _ _. d), stb_reason = [], malloc_ok = (\<lambda>n. n < 1000)\<rparr>"

text \<open>A file of 70 bytes: one directory with five entries, for a width and a height of \<open>2 ^ 30\<close> and 16 samples.\<close>

definition entry_bytes :: "8 word \<Rightarrow> 8 word \<Rightarrow> 8 word list \<Rightarrow> 8 word list" where
  "entry_bytes lo hi v = [lo, hi, 4, 0, 1, 0, 0, 0] @ v"

definition overflowing_tiff :: "8 word list" where
  "overflowing_tiff =
     [0x49, 0x49, 0x2A, 0, 8, 0, 0, 0, 5, 0] @ entry_bytes 0 1 [0, 0, 0, 0x40] @ entry_bytes 1 1 [0, 0, 0, 0x40] @
     entry_bytes 0x15 1 [16, 0, 0, 0] @ entry_bytes 0x11 1 [8, 0, 0, 0] @ entry_bytes 0x17 1 [1, 0, 0, 0]"

lemma overflowing_tiff_reads:
  "read32 True overflowing_tiff 4 = Some 8" "read16 True overflowing_tiff 8 = Some 5"
  "tiff_walk True overflowing_tiff 8 [0, 1, 2, 3, 4] no_tags =
     Some \<lparr>tt_width = 1073741824, tt_height = 1073741824, tt_bits = 8, tt_samples = 16, tt_strip = 8, tt_strip_bytes = 1\<rparr>"
  by (simp_all add: overflowing_tiff_def entry_bytes_def read32_def read16_def at_index_def tiff_entry_def no_tags_def)

lemma overflowing_tiff_decoded:
  "decode_tiff (\<lambda>n. n < 1000) overflowing_tiff = Some (Inr ((1073741824, 1073741824, 16, []), False))"
proof -
  have len: "length overflowing_tiff = 70" and le: "overflowing_tiff ! 0 = 0x49" "overflowing_tiff ! 1 = 0x49"
    by (simp_all add: overflowing_tiff_def entry_bytes_def)
  have ints: "to_int32 1073741824 = 1073741824" "to_int32 16 = 16"
    by (simp_all add: to_int32_def)
  have five: "[0..<5] = [0, 1, 2, 3, 4 :: nat]"
    by (simp add: upt_rec)
  have size: "sample_bytes 1073741824 1073741824 16 False = 0"
    by (simp add: sample_bytes_def)
  show ?thesis
    using overflowing_tiff_reads unfolding decode_tiff_def Let_def
    by (simp add: len le tiff_pixels_def ints size copied_row_def five del: One_nat_def tiff_walk.simps)
qed

text \<open>The size computation of this file wraps around to zero: the image announces \<open>2 ^ 30\<close> rows of \<open>2 ^ 30\<close> pixels of 16
  bytes and has no data.\<close>

theorem tiff_size_overflow:
  "\<exists>i. import_image (demo_stb None) (demo_disk overflowing_tiff) ''a.tif'' = Some (Inr i) \<and>
     im_width (img_meta i) = 2 ^ 30 \<and> im_height (img_meta i) = 2 ^ 30 \<and> im_channels (img_meta i) = 16 \<and> img_data i = []"
proof -
  have "length overflowing_tiff = 70" "is_tiff ''a.tif''"
    by (simp_all add: overflowing_tiff_def entry_bytes_def is_tiff_def file_extension_def file_name_def Let_def)
  moreover have "take 70 overflowing_tiff = overflowing_tiff"
    using calculation(1) by simp
  moreover have "sample_bytes 1073741824 1073741824 16 False = 0"
    by (simp add: sample_bytes_def)
  ultimately show ?thesis
    using overflowing_tiff_decoded
    by (simp add: import_image_def demo_disk_def demo_stb_def Let_def imported_image_def copied_row_def)
qed

lemma tiff_import_safe_witness:
  "\<exists>r. import_image (demo_stb None) (demo_disk overflowing_tiff) ''a.tif'' = Some r \<and>
    (\<forall>i. r = Inr i \<longrightarrow> 0 < im_width (img_meta i) \<and> 0 < im_height (img_meta i) \<and>
      length (img_data i) = byte_size (img_meta i) mod 2 ^ 64)"
proof (rule tiff_import_safe)
  show "is_tiff ''a.tif''"
    by (simp add: is_tiff_def file_extension_def file_name_def Let_def)
  show "\<forall>n. malloc_ok (demo_stb None) n \<longrightarrow> n < 2 ^ 63"
    by (simp add: demo_stb_def)
  show "\<forall>n bytes. open_binary (demo_disk overflowing_tiff) ''a.tif'' = Some (n, bytes) \<longrightarrow> n < 2 ^ 63"
    by (simp add: demo_disk_def overflowing_tiff_def entry_bytes_def)
qed

subsection \<open>Images decoded by the library\<close>

text \<open>What stb_image documents: asked for three components it returns three bytes for each pixel, and reports the number of
  components of the file, which may be another one.\<close>

definition stb_documented :: "'a stb_lib_scheme \<Rightarrow> bool" where
  "stb_documented lib \<longleftrightarrow>
     (\<forall>b n w h c px. stb_load_8 lib b n 3 = Some (w, h, c, px) \<longrightarrow> 0 < w \<and> 0 < h \<and> w < 2 ^ 24 \<and> h < 2 ^ 24 \<and> 1 \<le> c \<and> c \<le> 4 \<and> length px = nat (w * h * 3))"

lemma small_word_of_int: "0 \<le> k \<Longrightarrow> k < 2 ^ 64 \<Longrightarrow> unat (of_int k :: 64 word) = nat k"
  by (simp add: unat_eq_nat_uint uint_word_of_int)

lemma sample_bytes_small:
  assumes "0 < w" "0 < h" "w < 2 ^ 24" "h < 2 ^ 24" "1 \<le> c" "c \<le> 4"
  shows "unat (sample_bytes w h c False) = nat (w * h * c)"
proof -
  have "w * h \<le> 2 ^ 24 * 2 ^ 24"
    by (rule mult_mono) (use assms in auto)
  then have "w * h * c \<le> 2 ^ 24 * 2 ^ 24 * 4"
    by (rule mult_mono) (use assms in auto)
  moreover have "sample_bytes w h c False = of_int (w * h * c)"
    by (simp add: sample_bytes_def)
  moreover have "0 \<le> w * h * c"
    using assms by simp
  ultimately show ?thesis
    using small_word_of_int [of "w * h * c"] by simp
qed

text \<open>The 8-bit decoding of an image file that is no TIFF.\<close>

definition decodes_8 :: "'a stb_lib_scheme \<Rightarrow> 'b image_disk_scheme \<Rightarrow> string \<Rightarrow> decoded \<Rightarrow> bool" where
  "decodes_8 lib dk path d \<longleftrightarrow>
     path_exists dk path \<and> \<not> is_tiff path \<and>
     (\<exists>n bytes. open_binary dk path = Some (n, bytes) \<and> 0 < n \<and> n < 2 ^ 63 \<and> n \<le> length bytes \<and>
        \<not> stb_is_16 lib (take n bytes) (to_int32 n) \<and> stb_load_8 lib (take n bytes) (to_int32 n) 3 = Some d)"

lemma decodes_8_import:
  assumes "decodes_8 lib dk path d"
  shows "import_image lib dk path = imported_image path (d, False)"
  using assms by (auto simp: decodes_8_def import_image_def decode_stb_def Let_def min_absorb2)

lemma stb_import_run:
  assumes "stb_documented lib" "decodes_8 lib dk path (w, h, c, px)"
  shows "(c = 4 \<longrightarrow> import_image lib dk path = None) \<and>
    (c < 4 \<longrightarrow> (\<exists>i. import_image lib dk path = Some (Inr i) \<and> img_data i = take (nat (w * h * c)) px \<and> image_ok i))"
proof -
  have doc: "0 < w" "0 < h" "w < 2 ^ 24" "h < 2 ^ 24" "1 \<le> c" "c \<le> 4" "length px = nat (w * h * 3)"
    using assms unfolding stb_documented_def decodes_8_def by blast+
  have size: "unat (sample_bytes w h c False) = nat (w * h * c)"
    by (rule sample_bytes_small) (use doc in auto)
  have area: "0 < w * h"
    using doc by simp
  have fits: "length px < nat (w * h * c) \<longleftrightarrow> c = 4"
  proof -
    have "nat (a * 3) < nat (a * c) \<longleftrightarrow> c = 4" if "0 < a" for a
    proof -
      have "c = 1 \<or> c = 2 \<or> c = 3 \<or> c = 4"
        using doc(5, 6) by auto
      then show ?thesis
        using that by auto
    qed
    from this [OF area] show ?thesis
      unfolding doc(7) .
  qed
  have "import_image lib dk path = imported_image path ((w, h, c, px), False)"
    by (rule decodes_8_import [OF assms(2)])
  moreover have "c < 4 \<Longrightarrow> image_ok \<lparr>img_kind = Raw_Image,
                  img_meta = \<lparr>im_width = nat w, im_height = nat h, im_channels = unat (of_int c :: 64 word),
                     im_format = imported_format c False, im_bits = 8, im_timestamp = 0, im_frame = 0,
                     im_surface = [], im_position = 0, im_light = 0\<rparr>,
                  img_data = take (nat (w * h * c)) px\<rparr>"
  proof -
    assume "c < 4"
    then have "nat (w * h * c) \<le> length px"
      using fits by simp
    moreover have "unat (of_int c :: 64 word) = nat c"
      using doc by (intro small_word_of_int) simp_all
    ultimately show ?thesis
      using doc by (simp add: image_ok_def byte_size_def bytes_per_pixel_def bytes_per_channel_def imported_format_def nat_mult_distrib)
  qed
  ultimately show ?thesis
    using doc fits by (auto simp: imported_image_def copied_row_def size)
qed

text \<open>An 8-bit image decoded by the library is asked for with three components but measured with the components of the
  file. For a file of four components the import reads past the decoded buffer; for fewer it succeeds with a complete image
  whose data are the first bytes of the three-component pixels.\<close>

theorem stb_import_spec:
  assumes "stb_documented lib" "decodes_8 lib dk path (w, h, c, px)"
  shows "(c = 4 \<longrightarrow> import_image lib dk path = None) \<and>
    (c < 4 \<longrightarrow> (\<exists>i. import_image lib dk path = Some (Inr i) \<and> img_data i = take (nat (w * h * c)) px \<and> image_ok i))"
  by (rule stb_import_run [OF assms])

lemma stb_import_spec_witness:
  "import_image (demo_stb (Some (1, 1, 4, [1, 2, 3]))) (demo_disk [7]) ''a.png'' = None"
proof -
  let ?lib = "demo_stb (Some (1, 1, 4, [1, 2, 3]))"
  have "stb_documented ?lib"
    by (simp add: stb_documented_def demo_stb_def)
  moreover have "decodes_8 ?lib (demo_disk [7]) ''a.png'' (1, 1, 4, [1, 2, 3])"
    by (simp add: decodes_8_def demo_stb_def demo_disk_def is_tiff_def file_extension_def file_name_def Let_def)
  ultimately show ?thesis
    using stb_import_spec [of ?lib "demo_disk [7]" "''a.png''" 1 1 4 "[1, 2, 3]"] by simp
qed

text \<open>A gray image of four pixels, each decoded to three equal bytes: the imported image has the first pixel three times and
  then the second.\<close>

theorem gray_import_garbled:
  "\<exists>i. import_image (demo_stb (Some (4, 1, 1, [10, 10, 10, 20, 20, 20, 30, 30, 30, 40, 40, 40]))) (demo_disk [7]) ''a.png'' = Some (Inr i) \<and>
     img_data i = [10, 10, 10, 20] \<and> im_format (img_meta i) = Mono8"
  by (simp add: import_image_def demo_disk_def demo_stb_def is_tiff_def file_extension_def file_name_def Let_def decode_stb_def
      imported_image_def copied_row_def sample_bytes_def imported_format_def)

end
