(* ===== verification/Simple_Patch_Embedder.thy ===== *)
theory Simple_Patch_Embedder
  imports Image_Buffer Patch_Core Post_Process
begin

text \<open>
  The hand-crafted patch embedder (\<open>src/embedding/simple_patch_embedder.cpp\<close> and its header): seven groups of features
  per patch, reduced to a fixed dimension and normalised. Single precision is that of \<open>Float32\<close>, the colour
  moments are doubles; \<open>atan2\<close> is a parameter. \<open>None\<close> is a read past the end of the image or the conversion of a
  value that is not a 64-bit unsigned number.
\<close>

subsection \<open>Construction\<close>

record embedder_config =
  ep_width :: nat
  ep_height :: nat
  ep_patch :: nat
  ep_dim :: nat
  ep_normalize :: bool

record patch_embedder =
  pe_config :: embedder_config
  pe_grid_h :: nat
  pe_grid_w :: nat
  pe_raw_dim :: nat

definition default_embedder_config :: embedder_config where
  "default_embedder_config = \<lparr>ep_width = 1024, ep_height = 1024, ep_patch = 14, ep_dim = 128, ep_normalize = True\<rparr>"

definition bad_parameters :: "string \<Rightarrow> 'a result" where
  "bad_parameters m = Inl (ErrorInfo Embedding_InvalidPatchParameters (''SimplePatchEmbedder: '' @ m))"

definition create_embedder :: "embedder_config \<Rightarrow> patch_embedder result" where
  "create_embedder cfg =
     (if ep_width cfg = 0 \<or> ep_height cfg = 0 \<or> ep_patch cfg = 0 then bad_parameters ''image dimensions and patch size must be > 0''
      else if ep_width cfg mod ep_patch cfg \<noteq> 0 \<or> ep_height cfg mod ep_patch cfg \<noteq> 0
      then bad_parameters ''image size must be divisible by patch size''
      else if ep_dim cfg = 0 then bad_parameters ''feature_dim must be > 0''
      else Inr \<lparr>pe_config = cfg, pe_grid_h = ep_height cfg div ep_patch cfg, pe_grid_w = ep_width cfg div ep_patch cfg,
                pe_raw_dim = ep_patch cfg * ep_patch cfg * 3 + 48 + 12 + 16 + 9 + 10 + 27\<rparr>)"

subsection \<open>Helpers\<close>

definition k_pi :: dbl where
  "k_pi = f_lit (314159265358979323846 / 10 ^ 20)"

definition luminance :: "nat \<Rightarrow> nat \<Rightarrow> nat \<Rightarrow> dbl" where
  "luminance r g b =
     f_add (f_add (f_mul (f_lit (299 / 1000)) (f_of_nat r)) (f_mul (f_lit (587 / 1000)) (f_of_nat g))) (f_mul (f_lit (114 / 1000)) (f_of_nat b))"

definition f_clamp :: "dbl \<Rightarrow> dbl \<Rightarrow> dbl \<Rightarrow> dbl" where
  "f_clamp v lo hi = (if d_lt v lo then lo else if d_gt v hi then hi else v)"

text \<open>One more in a bin, the last one for values beyond it.\<close>

definition bump :: "nat \<Rightarrow> dbl \<Rightarrow> dbl \<Rightarrow> dbl list option \<Rightarrow> dbl list option" where
  "bump n weight v h =
     Option.bind h (\<lambda>h.
       map_option (\<lambda>b. let b' = (if n \<le> b then n - 1 else b) in h[b' := f_add (h ! b') weight]) (to_size v))"

definition normalised :: "dbl \<Rightarrow> dbl list \<Rightarrow> dbl list" where
  "normalised amount h = (let inv = f_div (Fin False 1) amount in map (\<lambda>x. f_mul x inv) h)"

definition u8_histogram :: "nat list \<Rightarrow> nat \<Rightarrow> dbl list option" where
  "u8_histogram vs n =
     (if vs = [] then Some (replicate n (Fin False 0))
      else let scale = f_div (Fin False 256) (f_of_nat n) in
           map_option (normalised (f_of_nat (length vs)))
             (fold (\<lambda>v. bump n (Fin False 1) (f_div (f_of_nat v) scale)) vs (Some (replicate n (Fin False 0)))))"

definition float_histogram :: "dbl list \<Rightarrow> nat \<Rightarrow> dbl list option" where
  "float_histogram vs n =
     (case vs of
        [] \<Rightarrow> Some (replicate n (Fin False 0))
      | v0 # rest \<Rightarrow>
          let lo = fold (\<lambda>v m. if d_lt v m then v else m) rest v0; hi = fold (\<lambda>v m. if d_gt v m then v else m) rest v0;
              range = f_sub hi lo
          in if d_lt range (f_lit (1 / 10 ^ 6)) then Some ((replicate n (Fin False 0))[0 := Fin False 1])
             else let scale = f_div (f_of_nat n) range in
                  map_option (normalised (f_of_nat (length vs)))
                    (fold (\<lambda>v. bump n (Fin False 1) (f_mul (f_sub v lo) scale)) vs (Some (replicate n (Fin False 0)))))"

subsection \<open>The features of a patch\<close>

definition gray_value :: "nat \<times> nat \<times> nat \<Rightarrow> nat option" where
  "gray_value p =
     (case p of (r, g, b) \<Rightarrow> Option.bind (to_size (luminance r g b)) (\<lambda>n. if n < 256 then Some n else None))"

definition patch_pixel :: "8 word list \<Rightarrow> nat \<Rightarrow> nat \<Rightarrow> nat \<Rightarrow> nat \<Rightarrow> nat \<times> nat \<Rightarrow> (nat \<times> nat \<times> nat) option" where
  "patch_pixel bytes stride ps gy gx d =
     (let ofs = (gy * ps + fst d) * stride + (gx * ps + snd d) * 3 in
      case (at_index bytes ofs, at_index bytes (ofs + 1), at_index bytes (ofs + 2)) of
        (Some r, Some g, Some b) \<Rightarrow> Some (unat r, unat g, unat b)
      | _ \<Rightarrow> None)"

definition colour_moments :: "nat list \<Rightarrow> dbl list" where
  "colour_moments vs =
     (let fs = map d_of_nat vs;
          powers = (\<lambda>f. fold (\<lambda>x acc. d_add acc (f x)) fs (Fin False 0));
          s1 = powers (\<lambda>x. x); s2 = powers (\<lambda>x. d_mul x x); s3 = powers (\<lambda>x. d_mul (d_mul x x) x);
          s4 = powers (\<lambda>x. d_mul (d_mul (d_mul x x) x) x);
          n = d_of_nat (length vs); tiny = d_lit (1 / 10 ^ 9);
          mean = d_div s1 n;
          variance = d_sub (d_div s2 n) (d_mul mean mean);
          std_dev = d_sqrt (d_max variance (Fin False 0));
          skewness = (if d_gt std_dev tiny
            then d_div (d_sub (d_sub (d_div s3 n) (d_mul (d_mul (Fin False 3) mean) variance)) (d_mul (d_mul mean mean) mean))
                       (d_mul (d_mul std_dev std_dev) std_dev)
            else Fin False 0);
          kurtosis = (if d_gt variance tiny
            then d_sub (d_div (d_sub (d_add (d_sub (d_div s4 n) (d_mul (d_mul (Fin False 4) mean) (d_div s3 n)))
                                            (d_mul (d_mul (d_mul (Fin False 6) mean) mean) (d_div s2 n)))
                                     (d_mul (d_mul (d_mul (d_mul (Fin False 3) mean) mean) mean) mean))
                              (d_mul variance variance)) (Fin False 3)
            else Fin False 0);
          squash = (\<lambda>x. f_div (f_clamp (to_float x) (Fin True 5) (Fin False 5)) (Fin False 5))
      in [to_float (d_div mean (Fin False 255)), to_float (d_div std_dev (Fin False 255)), squash skewness, squash kurtosis])"

text \<open>The interior of a patch; a gray value that does not exist is one outside of it.\<close>

definition interior :: "nat \<Rightarrow> (nat \<times> nat) list" where
  "interior ps = filter (\<lambda>(y, x). 1 \<le> y \<and> y + 1 < ps \<and> 1 \<le> x \<and> x + 1 < ps) (pixels ps ps)"

definition sobel :: "nat list \<Rightarrow> nat \<Rightarrow> nat \<times> nat \<Rightarrow> dbl \<times> dbl" where
  "sobel gray ps d =
     (let (dy, dx) = d; v = (\<lambda>c y x. f_mul (Fin False c) (f_of_nat (gray ! (y * ps + x)))); m = (\<lambda>c y x. f_mul (Fin True c) (f_of_nat (gray ! (y * ps + x))))
      in (f_add (f_sub (f_add (f_sub (f_add (m 1 (dy - 1) (dx - 1)) (v 1 (dy - 1) (dx + 1))) (v 2 dy (dx - 1))) (v 2 dy (dx + 1)))
            (v 1 (dy + 1) (dx - 1))) (v 1 (dy + 1) (dx + 1)),
          f_add (f_add (f_add (f_sub (f_sub (m 1 (dy - 1) (dx - 1)) (v 2 (dy - 1) dx)) (v 1 (dy - 1) (dx + 1))) (v 1 (dy + 1) (dx - 1)))
            (v 2 (dy + 1) dx)) (v 1 (dy + 1) (dx + 1))))"

definition gradients :: "(dbl \<Rightarrow> dbl \<Rightarrow> dbl) \<Rightarrow> nat list \<Rightarrow> nat \<Rightarrow> (dbl \<times> dbl) list" where
  "gradients atan2f gray ps =
     map (\<lambda>d. if d \<in> set (interior ps)
              then let (gx, gy) = sobel gray ps d in (f_sqrt (f_add (f_mul gx gx) (f_mul gy gy)), atan2f gy gx)
              else (Fin False 0, Fin False 0)) (pixels ps ps)"

definition orientation_histogram :: "(dbl \<times> dbl) list \<Rightarrow> dbl list option" where
  "orientation_histogram grads =
     (let strong = filter (\<lambda>g. \<not> d_lt (fst g) (f_lit (1 / 10 ^ 6))) grads;
          weight = fold (\<lambda>g acc. f_add acc (fst g)) strong (Fin False 0);
          upper = (\<lambda>a. if d_lt a (Fin False 0) then f_add a k_pi else a)
      in map_option (\<lambda>h. if d_gt weight (f_lit (1 / 10 ^ 9)) then normalised weight h else h)
           (fold (\<lambda>g. bump 9 (fst g) (f_mul (f_div (upper (snd g)) k_pi) (Fin False 9))) strong
              (Some (replicate 9 (Fin False 0)))))"

definition brighter_neighbours :: "nat list \<Rightarrow> nat \<Rightarrow> nat \<times> nat \<Rightarrow> nat" where
  "brighter_neighbours gray ps d =
     (let (dy, dx) = d; centre = gray ! (dy * ps + dx) in
      length (filter (\<lambda>(y, x). (y, x) \<noteq> (1, 1) \<and> centre < gray ! ((dy + y - 1) * ps + (dx + x - 1))) (pixels 3 3)))"

definition lbp_histogram :: "nat list \<Rightarrow> nat \<Rightarrow> dbl list" where
  "lbp_histogram gray ps =
     (let h = fold (\<lambda>d h. let b = brighter_neighbours gray ps d in h[b := f_add (h ! b) (Fin False 1)]) (interior ps) (replicate 10 (Fin False 0))
      in if interior ps = [] then h else normalised (f_of_nat (length (interior ps))) h)"

definition cell_sum :: "nat list \<Rightarrow> nat \<Rightarrow> (nat \<times> nat) list \<Rightarrow> dbl" where
  "cell_sum vs ps cell = fold (\<lambda>(dy, dx) acc. f_add acc (f_of_nat (vs ! (dy * ps + dx)))) cell (Fin False 0)"

definition spatial_cells :: "nat list \<times> nat list \<times> nat list \<Rightarrow> nat \<Rightarrow> dbl list" where
  "spatial_cells rgb ps =
     (let c = ps div 3 in
      concat (map (\<lambda>(cy, cx).
        let cell = filter (\<lambda>(dy, dx). cy * c \<le> dy \<and> dy < (cy + 1) * c \<and> cx * c \<le> dx \<and> dx < (cx + 1) * c) (pixels ps ps);
            inv = f_div (Fin False 1) (f_mul (f_of_nat (length cell)) (Fin False 255))
        in [f_mul (cell_sum (fst rgb) ps cell) inv, f_mul (cell_sum (fst (snd rgb)) ps cell) inv, f_mul (cell_sum (snd (snd rgb)) ps cell) inv])
        (pixels 3 3)))"

definition extract_patch :: "(dbl \<Rightarrow> dbl \<Rightarrow> dbl) \<Rightarrow> nat \<Rightarrow> 8 word list \<Rightarrow> nat \<Rightarrow> nat \<Rightarrow> nat \<Rightarrow> dbl list option" where
  "extract_patch atan2f ps bytes stride gy gx =
     Option.bind (map_opt (patch_pixel bytes stride ps gy gx) (pixels ps ps)) (\<lambda>px.
     Option.bind (map_opt gray_value px) (\<lambda>gray.
       let rs = map fst px; gs = map (\<lambda>p. fst (snd p)) px; bs = map (\<lambda>p. snd (snd p)) px;
           grads = gradients atan2f gray ps;
           raw = concat (map (\<lambda>(r, g, b). map (\<lambda>v. f_div (f_of_nat v) (Fin False 255)) [r, g, b]) px)
       in Option.bind (u8_histogram rs 16) (\<lambda>hr. Option.bind (u8_histogram gs 16) (\<lambda>hg. Option.bind (u8_histogram bs 16) (\<lambda>hb.
          Option.bind (float_histogram (map fst grads) 16) (\<lambda>hm. Option.bind (orientation_histogram grads) (\<lambda>ho.
            Some (raw @ hr @ hg @ hb @ colour_moments rs @ colour_moments gs @ colour_moments bs @ hm @ ho @ lbp_histogram gray ps @
                  spatial_cells (rs, gs, bs) ps))))))))"

subsection \<open>Reduction and normalisation\<close>

definition block_mean :: "dbl list \<Rightarrow> dbl \<Rightarrow> nat \<Rightarrow> dbl option" where
  "block_mean raw ratio d =
     Option.bind (to_size (f_mul (f_of_nat d) ratio)) (\<lambda>from_ix. Option.bind (to_size (f_mul (f_of_nat (d + 1)) ratio)) (\<lambda>end_ix.
       let e1 = (if end_ix \<le> from_ix then from_ix + 1 else end_ix); e2 = min e1 (length raw);
           acc = fold (\<lambda>i a. f_add a (raw ! i)) [from_ix..<e2] (Fin False 0)
       in Some (f_div acc (f_of_nat (if from_ix \<le> e2 then e2 - from_ix else 2 ^ 64 + e2 - from_ix)))))"

definition reduce_features :: "dbl list \<Rightarrow> nat \<Rightarrow> dbl list option" where
  "reduce_features raw width =
     (if length raw \<le> width then Some (raw @ replicate (width - length raw) (Fin False 0))
      else map_opt (block_mean raw (f_div (f_of_nat (length raw)) (f_of_nat width))) [0..<width])"

definition l2_normalised :: "dbl list \<Rightarrow> dbl list" where
  "l2_normalised v =
     (let n2 = fold (\<lambda>x a. f_add a (f_mul x x)) v (Fin False 0) in
      if d_gt n2 (f_lit (1 / 10 ^ 12)) then let inv = f_div (Fin False 1) (f_sqrt n2) in map (\<lambda>x. f_mul x inv) v else v)"

definition size_mismatch :: "embedder_config \<Rightarrow> image_meta \<Rightarrow> 'a result" where
  "size_mismatch cfg m = Inl (ErrorInfo Embedding_DimensionMismatch
     (''SimplePatchEmbedder: image size mismatch (expected '' @ nat_str (ep_width cfg) @ ''x'' @ nat_str (ep_height cfg) @
      '', got '' @ nat_str (im_width m) @ ''x'' @ nat_str (im_height m) @ '')''))"

definition extract_features :: "(dbl \<Rightarrow> dbl \<Rightarrow> dbl) \<Rightarrow> patch_embedder \<Rightarrow> image \<Rightarrow> full_embedding result option" where
  "extract_features atan2f pe i =
     (let cfg = pe_config pe; m = img_meta i in
      if im_width m \<noteq> ep_width cfg \<or> im_height m \<noteq> ep_height cfg then Some (size_mismatch cfg m)
      else if im_channels m \<noteq> 3
      then Some (Inl (ErrorInfo Embedding_DimensionMismatch
             (''SimplePatchEmbedder: expected 3-channel RGB8 image, got '' @ nat_str (im_channels m) @ '' channels'')))
      else map_option
             (\<lambda>vs. Inr \<lparr>em_dim = ep_dim cfg, em_count = pe_grid_h pe * pe_grid_w pe,
                em_data = concat (if ep_normalize cfg then map l2_normalised vs else vs), em_model = ''SimplePatch'', em_global = False,
                em_grid = (pe_grid_h pe, pe_grid_w pe), em_latency = 0, em_on_gpu = False\<rparr>)
             (map_opt (\<lambda>(gy, gx). Option.bind (extract_patch atan2f (ep_patch cfg) (img_data i) (im_width m * im_channels m) gy gx)
                                   (\<lambda>raw. reduce_features raw (ep_dim cfg))) (pixels (pe_grid_h pe) (pe_grid_w pe))))"

primrec extract_batch :: "(dbl \<Rightarrow> dbl \<Rightarrow> dbl) \<Rightarrow> patch_embedder \<Rightarrow> image option list \<Rightarrow> full_embedding list result option" where
  "extract_batch atan2f pe [] = Some (Inr [])"
| "extract_batch atan2f pe (x # xs) =
     (case x of
        None \<Rightarrow> Some (Inl (ErrorInfo Embedding_DimensionMismatch ''SimplePatchEmbedder::ExtractBatch: null image pointer''))
      | Some i \<Rightarrow>
          (case extract_features atan2f pe i of
             None \<Rightarrow> None
           | Some (Inl err) \<Rightarrow> Some (Inl err)
           | Some (Inr e) \<Rightarrow> map_option (map_sum id (\<lambda>es. e # es)) (extract_batch atan2f pe xs)))"

section \<open>Properties\<close>

subsection \<open>Construction\<close>

text \<open>The header promises defaults (1024 x 1024 with patches of 14) that the constructor refuses: 14 does not divide 1024.\<close>

theorem default_embedder_refused:
  "create_embedder default_embedder_config = bad_parameters ''image size must be divisible by patch size''"
  by (simp add: create_embedder_def default_embedder_config_def)

lemma create_embedder_ok:
  assumes "create_embedder cfg = Inr pe"
  shows "pe_config pe = cfg" "pe_grid_h pe * ep_patch cfg = ep_height cfg" "pe_grid_w pe * ep_patch cfg = ep_width cfg"
    "0 < pe_grid_h pe" "0 < pe_grid_w pe" "0 < ep_patch cfg" "0 < ep_dim cfg"
    "pe_raw_dim pe = 3 * (ep_patch cfg * ep_patch cfg) + 122"
  using assms by (auto simp: create_embedder_def bad_parameters_def mod_eq_0_iff_dvd dvd_div_eq_0_iff split: if_splits)

subsection \<open>Shapes\<close>

lemma map_opt_all: "map_opt f xs = Some ys \<Longrightarrow> y \<in> set ys \<Longrightarrow> \<exists>x \<in> set xs. f x = Some y"
  by (induction xs arbitrary: ys) (auto split: option.splits)

lemma bump_fold_length:
  "fold (\<lambda>x. bump n (w x) (v x)) xs (Some h) = Some h' \<Longrightarrow> length h' = length h"
proof (induction xs arbitrary: h)
  case (Cons x xs)
  have "fold (\<lambda>x. bump n (w x) (v x)) xs None = None" for xs
    by (induction xs) (simp_all add: bump_def)
  with Cons.prems obtain g where g: "bump n (w x) (v x) (Some h) = Some g" "fold (\<lambda>x. bump n (w x) (v x)) xs (Some g) = Some h'"
    by (cases "bump n (w x) (v x) (Some h)") simp_all
  moreover have "length g = length h"
    using g(1) by (auto simp: bump_def Let_def)
  ultimately show ?case
    using Cons.IH by simp
qed simp

lemma normalised_length [simp]: "length (normalised a h) = length h"
  by (simp add: normalised_def Let_def)

lemma u8_histogram_length: "u8_histogram vs n = Some h \<Longrightarrow> length h = n"
  using bump_fold_length [of n "\<lambda>_. Fin False 1" "\<lambda>v. f_div (f_of_nat v) (f_div (Fin False 256) (f_of_nat n))" vs "replicate n (Fin False 0)"]
  by (auto simp: u8_histogram_def Let_def split: if_splits)

lemma float_histogram_length: "float_histogram vs n = Some h \<Longrightarrow> length h = n"
  by (auto simp del: fold.simps fold_simps simp: float_histogram_def Let_def split: if_splits list.splits
      dest!: bump_fold_length [where h = "replicate n (Fin False 0)"])

lemma orientation_histogram_length: "orientation_histogram gs = Some h \<Longrightarrow> length h = 9"
  by (auto simp: orientation_histogram_def Let_def split: if_splits
      dest!: bump_fold_length [where h = "replicate 9 (Fin False 0)"])

lemma lbp_histogram_length [simp]: "length (lbp_histogram gray ps) = 10"
proof -
  have "length (fold (\<lambda>d h. h[f d := g d h]) ds h) = length h" for f :: "nat \<times> nat \<Rightarrow> nat" and g ds and h :: "dbl list"
    by (induction ds arbitrary: h) simp_all
  then show ?thesis
    by (simp add: lbp_histogram_def Let_def)
qed

lemma spatial_cells_length [simp]: "length (spatial_cells rgb ps) = 27"
  by (simp add: spatial_cells_def Let_def length_concat comp_def case_prod_beta sum_list_triv)

lemma colour_moments_length [simp]: "length (colour_moments vs) = 4"
  by (simp add: colour_moments_def Let_def)

text \<open>A patch has as many raw features as the constructor computed.\<close>

lemma extract_patch_length:
  assumes "extract_patch atan2f ps bytes stride gy gx = Some raw"
  shows "length raw = 3 * (ps * ps) + 122"
proof -
  have three: "length (concat (map (\<lambda>(r, g, b). map f [r, g, b]) px)) = 3 * length px" for f :: "nat \<Rightarrow> dbl" and px
    by (induction px) auto
  show ?thesis
    using assms unfolding extract_patch_def Let_def bind_eq_Some_conv
    by (auto dest!: map_opt_length u8_histogram_length float_histogram_length orientation_histogram_length simp: three [simplified])
qed

lemma reduce_features_length: "reduce_features raw width = Some v \<Longrightarrow> length v = width"
  by (auto simp: reduce_features_def dest: map_opt_length split: if_splits)

lemma l2_normalised_length [simp]: "length (l2_normalised v) = length v"
  by (simp add: l2_normalised_def Let_def)

text \<open>The embedding of an image: one vector of the configured dimension per patch of the grid.\<close>

lemma extract_features_shape:
  assumes "create_embedder cfg = Inr pe" "extract_features atan2f pe i = Some (Inr e)"
  shows "em_dim e = ep_dim cfg" "em_grid e = (ep_height cfg div ep_patch cfg, ep_width cfg div ep_patch cfg)"
    "em_count e = fst (em_grid e) * snd (em_grid e)" "length (em_data e) = em_count e * em_dim e" "\<not> em_global e"
proof -
  have grid: "pe_grid_h pe = ep_height cfg div ep_patch cfg" "pe_grid_w pe = ep_width cfg div ep_patch cfg"
    using assms(1) by (auto simp: create_embedder_def bad_parameters_def split: if_splits)
  note pe = create_embedder_ok(1) [OF assms(1)]
  let ?f = "\<lambda>(gy, gx). Option.bind (extract_patch atan2f (ep_patch cfg) (img_data i) (im_width (img_meta i) * im_channels (img_meta i)) gy gx)
                         (\<lambda>raw. reduce_features raw (ep_dim cfg))"
  obtain vs where vs: "map_opt ?f (pixels (pe_grid_h pe) (pe_grid_w pe)) = Some vs"
    and e: "e = \<lparr>em_dim = ep_dim cfg, em_count = pe_grid_h pe * pe_grid_w pe,
                em_data = concat (if ep_normalize cfg then map l2_normalised vs else vs), em_model = ''SimplePatch'', em_global = False,
                em_grid = (pe_grid_h pe, pe_grid_w pe), em_latency = 0, em_on_gpu = False\<rparr>"
    using assms(2) unfolding extract_features_def Let_def pe by (auto simp: size_mismatch_def split: if_splits)
  have "length v = ep_dim cfg" if "v \<in> set vs" for v
    using map_opt_all [OF vs that] by (auto simp: bind_eq_Some_conv dest: reduce_features_length)
  then have "length (concat (if ep_normalize cfg then map l2_normalised vs else vs)) = length vs * ep_dim cfg"
    by (simp add: length_concat comp_def cong: map_cong) (simp add: sum_list_triv)
  then show "em_dim e = ep_dim cfg" "em_grid e = (ep_height cfg div ep_patch cfg, ep_width cfg div ep_patch cfg)"
    "em_count e = fst (em_grid e) * snd (em_grid e)" "length (em_data e) = em_count e * em_dim e" "\<not> em_global e"
    using map_opt_length [OF vs] by (simp_all add: e grid)
qed

lemma extract_features_refuses:
  assumes "im_width (img_meta i) \<noteq> ep_width (pe_config pe) \<or> im_height (img_meta i) \<noteq> ep_height (pe_config pe) \<or> im_channels (img_meta i) \<noteq> 3"
  shows "\<exists>m. extract_features atan2f pe i = Some (Inl (ErrorInfo Embedding_DimensionMismatch m))"
  using assms by (auto simp: extract_features_def size_mismatch_def Let_def)

text \<open>A batch is all or nothing: it succeeds with one embedding per image, each that of its image alone.\<close>

lemma map_sum_eq_Inr: "map_sum f g z = Inr y \<longleftrightarrow> (\<exists>w. z = Inr w \<and> y = g w)"
  by (cases z) auto

lemma extract_batch_ok:
  "extract_batch atan2f pe xs = Some (Inr es) \<Longrightarrow>
     list_all2 (\<lambda>x e. \<exists>i. x = Some i \<and> extract_features atan2f pe i = Some (Inr e)) xs es"
proof (induction xs arbitrary: es)
  case (Cons x xs)
  then show ?case
    by (cases x) (auto split: option.splits sum.splits simp: map_sum_eq_Inr)
qed simp

subsection \<open>Patches smaller than 3\<close>

text \<open>The nine cells of a patch of 1 or 2 pixels have no pixel: their means are 0 times 1 / 0, and the last 27 features are not
  numbers.\<close>

theorem tiny_patches_have_no_cells:
  assumes "0 < ps" "ps < 3"
  shows "spatial_cells rgb ps = replicate 27 NaN"
proof -
  have cells: "ps div 3 = 0"
    using assms by simp
  have empty: "cell_sum vs ps [] = Fin False 0" for vs
    by (simp add: cell_sum_def)
  have none: "f_mul (Fin False 0) (f_div (Fin False 1) (f_mul (f_of_nat 0) (Fin False 255))) = NaN"
    by code_simp
  have "spatial_cells rgb ps = concat (map (\<lambda>(cy, cx). [NaN, NaN, NaN]) (pixels 3 3))"
    by (simp add: spatial_cells_def Let_def cells empty none)
  also have "\<dots> = replicate 27 NaN"
    by code_simp
  finally show ?thesis .
qed

theorem tiny_patches_end_in_nan:
  assumes "0 < ps" "ps < 3" "extract_patch atan2f ps bytes stride gy gx = Some raw"
  shows "drop (3 * (ps * ps) + 95) raw = replicate 27 NaN"
proof -
  obtain front rgb where "raw = front @ spatial_cells rgb ps"
    using assms(3) unfolding extract_patch_def Let_def bind_eq_Some_conv by (auto simp flip: append_assoc)
  moreover have "length raw = 3 * (ps * ps) + 122"
    by (rule extract_patch_length [OF assms(3)])
  ultimately show ?thesis
    using tiny_patches_have_no_cells [OF assms(1, 2)] by simp
qed

end
