(* ===== verification/Feature_Cache.thy ===== *)
theory Feature_Cache
  imports Float32 "HOL-Library.Word"
begin

text \<open>
  The feature cache (\<open>src/embedding/feature_cache.cpp\<close>): a list of entries, the most recently used first, and an index
  from keys to list iterators. An iterator is the identity of its list node; \<open>None\<close> is the use of an iterator whose node is
  gone. Each operation holds the mutex, so it is one step. The embedding is a type parameter.
\<close>

subsection \<open>State\<close>

record 'e lru_node =
  node_id :: nat
  node_key :: "64 word"
  node_val :: 'e

record 'e feature_cache =
  max_entries :: nat
  lru :: "'e lru_node list"
  index :: "64 word \<rightharpoonup> nat"
  hits :: "64 word"
  misses :: "64 word"
  fresh_id :: nat

definition new_cache :: "nat \<Rightarrow> 'e feature_cache" where
  "new_cache n = \<lparr>max_entries = n, lru = [], index = (\<lambda>_. None), hits = 0, misses = 0, fresh_id = 0\<rparr>"

subsection \<open>Operations\<close>

text \<open>\<open>lru_.splice(lru_.begin(), lru_, it)\<close>, with the node rewritten by \<open>f\<close>.\<close>

definition to_front :: "('e lru_node \<Rightarrow> 'e lru_node) \<Rightarrow> nat \<Rightarrow> 'e lru_node list \<Rightarrow> 'e lru_node list option" where
  "to_front f i ns =
     (case find (\<lambda>n. node_id n = i) ns of None \<Rightarrow> None | Some n \<Rightarrow> Some (f n # filter (\<lambda>m. node_id m \<noteq> i) ns))"

definition cache_get :: "64 word \<Rightarrow> 'e feature_cache \<Rightarrow> ('e option \<times> 'e feature_cache) option" where
  "cache_get k c =
     (case index c k of
        None \<Rightarrow> Some (None, c\<lparr>misses := misses c + 1\<rparr>)
      | Some i \<Rightarrow>
          map_option (\<lambda>ns. (Some (node_val (hd ns)), c\<lparr>hits := hits c + 1, lru := ns\<rparr>)) (to_front id i (lru c)))"

definition cache_put :: "64 word \<Rightarrow> 'e \<Rightarrow> 'e feature_cache \<Rightarrow> 'e feature_cache option" where
  "cache_put k v c =
     (case index c k of
        Some i \<Rightarrow> map_option (\<lambda>ns. c\<lparr>lru := ns\<rparr>) (to_front (node_val_update (\<lambda>_. v)) i (lru c))
      | None \<Rightarrow>
          if max_entries c = 0 then Some c
          else
            let c1 = (if max_entries c \<le> length (lru c)
                      then c\<lparr>index := (index c)(node_key (last (lru c)) := None), lru := butlast (lru c)\<rparr> else c);
                n = \<lparr>node_id = fresh_id c, node_key = k, node_val = v\<rparr>
            in Some (c1\<lparr>lru := n # lru c1, index := (index c1)(k \<mapsto> fresh_id c), fresh_id := Suc (fresh_id c)\<rparr>))"

definition hit_rate :: "'e feature_cache \<Rightarrow> dbl" where
  "hit_rate c =
     (let all = hits c + misses c in
      if all = 0 then Fin False 0 else f_div (f_of_nat (unat (hits c))) (f_of_nat (unat all)))"

definition cache_size :: "'e feature_cache \<Rightarrow> nat" where
  "cache_size c = length (lru c)"

datatype 'e cache_op = GetOp "64 word" | PutOp "64 word" 'e

definition cache_step :: "'e cache_op \<Rightarrow> 'e feature_cache \<Rightarrow> 'e feature_cache option" where
  "cache_step x c = (case x of GetOp k \<Rightarrow> map_option snd (cache_get k c) | PutOp k v \<Rightarrow> cache_put k v c)"

primrec cache_run :: "'e cache_op list \<Rightarrow> 'e feature_cache \<Rightarrow> 'e feature_cache option" where
  "cache_run [] c = Some c"
| "cache_run (x # xs) c = Option.bind (cache_step x c) (cache_run xs)"

section \<open>The abstract cache\<close>

text \<open>
  What the cache promises: a list of at most \<open>n\<close> distinct keys with their values. A hit or an update moves the key to the
  front, a new key enters at the front and pushes out the last one.
\<close>

type_synonym 'e recency = "(64 word \<times> 'e) list"

definition refresh :: "64 word \<Rightarrow> 'e \<Rightarrow> 'e recency \<Rightarrow> 'e recency" where
  "refresh k v kvs = (k, v) # filter (\<lambda>p. fst p \<noteq> k) kvs"

definition spec_step :: "nat \<Rightarrow> 'e cache_op \<Rightarrow> 'e recency \<Rightarrow> 'e recency" where
  "spec_step n x kvs =
     (case x of
        GetOp k \<Rightarrow> (case map_of kvs k of None \<Rightarrow> kvs | Some v \<Rightarrow> refresh k v kvs)
      | PutOp k v \<Rightarrow> take n (refresh k v kvs))"

definition contents :: "'e feature_cache \<Rightarrow> 'e recency" where
  "contents c = map (\<lambda>n. (node_key n, node_val n)) (lru c)"

definition cache_wf :: "'e feature_cache \<Rightarrow> bool" where
  "cache_wf c \<longleftrightarrow>
     length (lru c) \<le> max_entries c \<and> distinct (map node_key (lru c)) \<and> distinct (map node_id (lru c)) \<and>
     index c = map_of (map (\<lambda>n. (node_key n, node_id n)) (lru c)) \<and> (\<forall>n \<in> set (lru c). node_id n < fresh_id c)"

subsection \<open>Nodes and keys\<close>

lemma index_node:
  assumes "cache_wf c" "index c k = Some i"
  obtains n where "n \<in> set (lru c)" "node_key n = k" "node_id n = i"
  using assms by (auto simp: cache_wf_def dest!: map_of_SomeD)

lemma node_indexed:
  assumes "cache_wf c" "n \<in> set (lru c)"
  shows "index c (node_key n) = Some (node_id n)"
proof -
  have "distinct (map fst (map (\<lambda>n. (node_key n, node_id n)) (lru c)))"
    using assms(1) by (simp add: cache_wf_def comp_def)
  then have "map_of (map (\<lambda>n. (node_key n, node_id n)) (lru c)) (node_key n) = Some (node_id n)"
    by (rule map_of_is_SomeI) (use assms(2) in auto)
  then show ?thesis
    using assms(1) by (simp add: cache_wf_def)
qed

lemma find_node:
  assumes "distinct (map node_id ns)" "n \<in> set ns"
  shows "find (\<lambda>m. node_id m = node_id n) ns = Some n"
  using assms by (induction ns) (auto simp: image_iff)

lemma ids_are_keys:
  assumes "distinct (map node_key ns)" "distinct (map node_id ns)" "n \<in> set ns"
  shows "filter (\<lambda>m. node_id m \<noteq> node_id n) ns = filter (\<lambda>m. node_key m \<noteq> node_key n) ns"
  using assms by (intro filter_cong) (auto simp: distinct_map inj_on_def)

lemma index_none: "cache_wf c \<Longrightarrow> index c k = None \<longleftrightarrow> k \<notin> node_key ` set (lru c)"
  by (auto simp: cache_wf_def map_of_eq_None_iff image_image)

lemma contents_of: "cache_wf c \<Longrightarrow> map_of (contents c) k = Option.bind (index c k) (\<lambda>i. map_option node_val (find (\<lambda>n. node_id n = i) (lru c)))"
proof (cases "index c k")
  case None
  assume wf: "cache_wf c"
  have "map_of (contents c) k = None"
    using index_none [OF wf, of k] None by (auto simp: contents_def map_of_eq_None_iff)
  then show ?thesis
    using None by simp
next
  case (Some i)
  assume wf: "cache_wf c"
  obtain n where n: "n \<in> set (lru c)" "node_key n = k" "node_id n = i"
    by (rule index_node [OF wf Some])
  have "distinct (map fst (contents c))"
    using wf by (simp add: contents_def cache_wf_def comp_def)
  then have "map_of (contents c) k = Some (node_val n)"
    by (rule map_of_is_SomeI) (use n in \<open>auto simp: contents_def\<close>)
  moreover have "find (\<lambda>m. node_id m = i) (lru c) = Some n"
    using find_node [of "lru c" n] wf n by (simp add: cache_wf_def)
  ultimately show ?thesis
    using Some by simp
qed

subsection \<open>Refinement\<close>

lemma to_front_ok:
  assumes "cache_wf c" "index c k = Some i" "\<And>n. node_key (f n) = node_key n" "\<And>n. node_id (f n) = node_id n"
  obtains n where "n \<in> set (lru c)" "node_key n = k"
    "to_front f i (lru c) = Some (f n # filter (\<lambda>m. node_key m \<noteq> k) (lru c))"
    "cache_wf (c\<lparr>lru := f n # filter (\<lambda>m. node_key m \<noteq> k) (lru c)\<rparr>)"
proof -
  obtain n where n: "n \<in> set (lru c)" "node_key n = k" "node_id n = i"
    by (rule index_node [OF assms(1, 2)])
  let ?ns = "f n # filter (\<lambda>m. node_key m \<noteq> k) (lru c)"
  have keys: "distinct (map node_key (lru c))" and ids: "distinct (map node_id (lru c))"
    using assms(1) by (simp_all add: cache_wf_def)
  have front: "to_front f i (lru c) = Some ?ns"
    using find_node [OF ids n(1)] ids_are_keys [OF keys ids n(1)] n by (simp add: to_front_def)
  have "length (filter (\<lambda>m. node_key m \<noteq> k) (lru c)) < length (lru c)"
    using n by (intro length_filter_less) auto
  moreover have "distinct (map node_key ?ns)"
    using keys n by (auto simp: assms(3) distinct_map_filter)
  moreover have "distinct (map node_id ?ns)"
    using ids n keys by (auto simp: assms(4) distinct_map_filter distinct_map inj_on_def)
  moreover have "index c = map_of (map (\<lambda>n. (node_key n, node_id n)) ?ns)"
  proof
    fix j
    have "map_of (map (\<lambda>n. (node_key n, node_id n)) (filter (\<lambda>m. node_key m \<noteq> k) ns)) j =
          (if j = k then None else map_of (map (\<lambda>n. (node_key n, node_id n)) ns) j)" for ns :: "'a lru_node list"
      by (induction ns) auto
    then show "index c j = map_of (map (\<lambda>n. (node_key n, node_id n)) ?ns) j"
      using n assms(1, 2) by (simp add: assms(3, 4) cache_wf_def)
  qed
  ultimately have "cache_wf (c\<lparr>lru := ?ns\<rparr>)"
    using assms(1) n by (auto simp: cache_wf_def assms(4))
  with that [OF n(1, 2) front] show thesis .
qed

lemma cache_wf_counters [simp]: "cache_wf (c\<lparr>hits := h\<rparr>) = cache_wf c" "cache_wf (c\<lparr>misses := h\<rparr>) = cache_wf c"
  "cache_wf (c\<lparr>hits := h, lru := ns\<rparr>) = cache_wf (c\<lparr>lru := ns\<rparr>)"
  by (simp_all add: cache_wf_def)

lemma contents_keys: "filter (\<lambda>p. fst p \<noteq> k) (contents c) = map (\<lambda>n. (node_key n, node_val n)) (filter (\<lambda>m. node_key m \<noteq> k) (lru c))"
  by (simp add: contents_def filter_map comp_def)

text \<open>A lookup returns what the abstract cache holds and refines its step.\<close>

lemma cache_get_run:
  assumes "cache_wf c"
  obtains c' where "cache_get k c = Some (map_of (contents c) k, c')" "cache_wf c'"
    "contents c' = spec_step (max_entries c) (GetOp k) (contents c)" "max_entries c' = max_entries c"
proof (cases "index c k")
  case None
  then have "map_of (contents c) k = None"
    using contents_of [OF assms, of k] by simp
  then show thesis
    using None assms by (intro that [of "c\<lparr>misses := misses c + 1\<rparr>"]) (simp_all add: cache_get_def spec_step_def contents_def)
next
  case (Some i)
  obtain n where n: "n \<in> set (lru c)" "node_key n = k"
    "to_front id i (lru c) = Some (id n # filter (\<lambda>m. node_key m \<noteq> k) (lru c))"
    "cache_wf (c\<lparr>lru := id n # filter (\<lambda>m. node_key m \<noteq> k) (lru c)\<rparr>)"
    by (rule to_front_ok [OF assms Some, of id]) simp_all
  have "distinct (map fst (contents c))"
    using assms by (simp add: contents_def cache_wf_def comp_def)
  then have "map_of (contents c) k = Some (node_val n)"
    by (rule map_of_is_SomeI) (use n in \<open>auto simp: contents_def\<close>)
  then show thesis
    using Some n contents_keys [of k c]
    by (intro that [of "c\<lparr>hits := hits c + 1, lru := n # filter (\<lambda>m. node_key m \<noteq> k) (lru c)\<rparr>"])
       (simp_all add: cache_get_def spec_step_def refresh_def contents_def)
qed

lemma butlast_wf:
  assumes "cache_wf c" "lru c \<noteq> []"
  shows "cache_wf (c\<lparr>index := (index c)(node_key (last (lru c)) := None), lru := butlast (lru c)\<rparr>)"
proof -
  obtain ns n where ns: "lru c = ns @ [n]"
    using assms(2) by (metis append_butlast_last_id)
  have "node_key n \<notin> node_key ` set ns"
    using assms(1) by (auto simp: cache_wf_def ns)
  then have "(map_of (map (\<lambda>n. (node_key n, node_id n)) ns))(node_key n := None) = map_of (map (\<lambda>n. (node_key n, node_id n)) ns)"
    by (intro fun_upd_idem) (simp add: map_of_eq_None_iff image_image)
  moreover have "(map_of (map (\<lambda>n. (node_key n, node_id n)) (ns @ [n])))(node_key n := None) =
    (map_of (map (\<lambda>n. (node_key n, node_id n)) ns))(node_key n := None)"
    by (auto simp: map_add_def fun_eq_iff split: option.splits)
  ultimately show ?thesis
    using assms(1) by (simp add: cache_wf_def ns)
qed

lemma insert_wf:
  assumes "cache_wf c" "index c k = None" "length (lru c) < max_entries c"
  shows "cache_wf (c\<lparr>lru := \<lparr>node_id = fresh_id c, node_key = k, node_val = v\<rparr> # lru c, index := (index c)(k \<mapsto> fresh_id c),
    fresh_id := Suc (fresh_id c)\<rparr>)"
  using assms index_none [OF assms(1), of k] by (fastforce simp: cache_wf_def)

lemma cache_put_run:
  assumes "cache_wf c"
  obtains c' where "cache_put k v c = Some c'" "cache_wf c'"
    "contents c' = spec_step (max_entries c) (PutOp k v) (contents c)" "max_entries c' = max_entries c"
proof (cases "index c k")
  case (Some i)
  let ?f = "node_val_update (\<lambda>_. v) :: 'a lru_node \<Rightarrow> 'a lru_node"
  obtain n where n: "n \<in> set (lru c)" "node_key n = k"
    "to_front ?f i (lru c) = Some (?f n # filter (\<lambda>m. node_key m \<noteq> k) (lru c))"
    "cache_wf (c\<lparr>lru := ?f n # filter (\<lambda>m. node_key m \<noteq> k) (lru c)\<rparr>)"
    by (rule to_front_ok [OF assms Some, of ?f]) simp_all
  have "length (?f n # filter (\<lambda>m. node_key m \<noteq> k) (lru c)) \<le> max_entries c"
    using n(4) by (simp add: cache_wf_def)
  then have "contents (c\<lparr>lru := ?f n # filter (\<lambda>m. node_key m \<noteq> k) (lru c)\<rparr>) = spec_step (max_entries c) (PutOp k v) (contents c)"
    using n contents_keys [of k c] by (simp add: spec_step_def refresh_def contents_def)
  then show thesis
    using Some n by (intro that [of "c\<lparr>lru := ?f n # filter (\<lambda>m. node_key m \<noteq> k) (lru c)\<rparr>"]) (simp_all add: cache_put_def)
next
  case None
  have other: "filter (\<lambda>p. fst p \<noteq> k) (contents c) = contents c"
    using index_none [OF assms, of k] None by (auto simp: contents_def filter_id_conv)
  have full: "length (lru c) \<le> max_entries c"
    using assms by (simp add: cache_wf_def)
  consider "max_entries c = 0" | "0 < max_entries c" "length (lru c) < max_entries c" | "0 < max_entries c" "length (lru c) = max_entries c"
    using full by linarith
  then show thesis
  proof cases
    case 1
    then show thesis
      using assms None full by (intro that [of c]) (simp_all add: cache_put_def spec_step_def contents_def)
  next
    case 2
    then show thesis
      using insert_wf [OF assms None] None other that
      by (simp add: cache_put_def spec_step_def refresh_def contents_def Let_def)
  next
    case 3
    let ?c = "c\<lparr>index := (index c)(node_key (last (lru c)) := None), lru := butlast (lru c)\<rparr>"
    have "take (max_entries c) ((k, v) # contents c) = (k, v) # map (\<lambda>n. (node_key n, node_val n)) (butlast (lru c))"
      using 3 by (cases "max_entries c") (auto simp: contents_def butlast_conv_take take_map)
    moreover have "lru c \<noteq> []"
      using 3 by auto
    then have "cache_wf ?c"
      by (rule butlast_wf [OF assms])
    moreover have "index ?c k = None" "length (lru ?c) < max_entries ?c"
      using 3 None by auto
    ultimately show thesis
      using insert_wf [of ?c k v] None other 3 that
      by (simp add: cache_put_def spec_step_def refresh_def contents_def Let_def)
  qed
qed
section \<open>Properties\<close>

subsection \<open>Refinement over whole histories\<close>

lemma cache_step_run:
  assumes "cache_wf c"
  obtains c' where "cache_step x c = Some c'" "cache_wf c'" "contents c' = spec_step (max_entries c) x (contents c)"
    "max_entries c' = max_entries c"
proof (cases x)
  case (GetOp k)
  obtain c' where "cache_get k c = Some (map_of (contents c) k, c')" "cache_wf c'"
    "contents c' = spec_step (max_entries c) (GetOp k) (contents c)" "max_entries c' = max_entries c"
    by (rule cache_get_run [OF assms])
  then show thesis
    using GetOp by (intro that [of c']) (simp_all add: cache_step_def)
next
  case (PutOp k v)
  obtain c' where "cache_put k v c = Some c'" "cache_wf c'"
    "contents c' = spec_step (max_entries c) (PutOp k v) (contents c)" "max_entries c' = max_entries c"
    by (rule cache_put_run [OF assms])
  then show thesis
    using PutOp by (intro that [of c']) (simp_all add: cache_step_def)
qed

lemma cache_runs:
  "cache_wf c \<Longrightarrow> \<exists>c'. cache_run xs c = Some c' \<and> cache_wf c' \<and> contents c' = fold (spec_step (max_entries c)) xs (contents c) \<and>
     max_entries c' = max_entries c"
proof (induction xs arbitrary: c)
  case (Cons x xs)
  obtain c' where "cache_step x c = Some c'" "cache_wf c'" "contents c' = spec_step (max_entries c) x (contents c)"
    "max_entries c' = max_entries c"
    by (rule cache_step_run [OF Cons.prems])
  then show ?case
    using Cons.IH [of c'] by simp
qed simp

lemma new_cache_wf: "cache_wf (new_cache n)" "contents (new_cache n) = []" "max_entries (new_cache n) = n"
  by (simp_all add: cache_wf_def new_cache_def contents_def)

text \<open>C39 Whatever sequence of lookups and insertions reaches the feature cache, no stale iterator is ever used: every history
  runs, leaves the cache with the keys and values of the abstract recency list after the same history, never holds more than
  the configured number of entries, and a lookup answers exactly what that list holds.\<close>

theorem feature_cache_refines:
  "\<exists>c. cache_run xs (new_cache n) = Some c \<and> contents c = fold (spec_step n) xs [] \<and> cache_size c \<le> n \<and>
     (\<forall>k. map_option fst (cache_get k c) = Some (map_of (contents c) k))"
proof -
  obtain c where c: "cache_run xs (new_cache n) = Some c" "cache_wf c" "contents c = fold (spec_step n) xs []" "max_entries c = n"
    using cache_runs [OF new_cache_wf(1), of xs n] by (auto simp: new_cache_wf)
  moreover have "map_option fst (cache_get k c) = Some (map_of (contents c) k)" for k
    by (rule cache_get_run [OF c(2), of k]) simp
  ultimately show ?thesis
    by (auto simp: cache_size_def cache_wf_def)
qed

subsection \<open>Recently used entries stay\<close>

definition op_key :: "'e cache_op \<Rightarrow> 64 word" where
  "op_key x = (case x of GetOp k \<Rightarrow> k | PutOp k v \<Rightarrow> k)"

lemma spec_step_other:
  assumes "kvs = front @ (k, v) # rest" "distinct (map fst kvs)" "fst ` set front \<subseteq> S" "k \<notin> S" "finite S" "card S < n"
    "length kvs \<le> n" "op_key x \<in> S"
  shows "\<exists>front' rest'. spec_step n x kvs = front' @ (k, v) # rest' \<and> fst ` set front' \<subseteq> S \<and>
    distinct (map fst (spec_step n x kvs)) \<and> length (spec_step n x kvs) \<le> n"
proof -
  let ?j = "op_key x"
  have "?j \<noteq> k"
    using assms by auto
  let ?front = "filter (\<lambda>p. fst p \<noteq> ?j) front" and ?rest = "filter (\<lambda>p. fst p \<noteq> ?j) rest"
  have moved: "refresh ?j w kvs = ((?j, w) # ?front) @ (k, v) # ?rest" for w
    using assms(1) \<open>?j \<noteq> k\<close> by (simp add: refresh_def)
  have keys: "distinct (map fst (refresh ?j w kvs))" for w
    using assms(2) by (auto simp: refresh_def distinct_map_filter)
  have front: "fst ` set ((?j, w) # ?front) \<subseteq> S" for w
    using assms(3, 8) by auto
  have "distinct (map fst ((?j, w) # ?front))" for w
    using keys [of w] unfolding moved map_append distinct_append by (rule conjunct1)
  then have "length ((?j, w) # ?front) = card (fst ` set ((?j, w) # ?front))" for w
    by (simp only: distinct_card length_map flip: set_map)
  moreover have "card (fst ` set ((?j, w) # ?front)) \<le> card S" for w
    by (rule card_mono [OF assms(5) front])
  ultimately have short: "length ((?j, w) # ?front) < n" for w
    by (simp only: le_less_trans [OF _ assms(6)])
  have cut: "take n (refresh ?j w kvs) = ((?j, w) # ?front) @ (k, v) # take (n - Suc (length ((?j, w) # ?front))) ?rest" for w
  proof -
    obtain m where "n = length ((?j, w) # ?front) + Suc m"
      using less_imp_Suc_add [OF short [of w]] by auto
    then show ?thesis
      unfolding moved take_append by simp
  qed
  have distinct_cut: "distinct (map fst (take n (refresh ?j w kvs)))" for w
    using keys [of w] by (simp flip: take_map)
  show ?thesis
  proof (cases x)
    case (PutOp i w)
    then have step: "spec_step n x kvs = take n (refresh ?j w kvs)"
      by (simp add: spec_step_def op_key_def)
    have "length (take n (refresh ?j w kvs)) \<le> n"
      by simp
    with cut [of w] front [of w] distinct_cut [of w] show ?thesis
      unfolding step by blast
  next
    case (GetOp i)
    then have "?j = i"
      by (simp add: op_key_def)
    show ?thesis
    proof (cases "map_of kvs i")
      case None
      then have step: "spec_step n x kvs = kvs"
        using GetOp by (simp add: spec_step_def)
      show ?thesis
        unfolding step using assms(1-3, 7) by blast
    next
      case (Some w)
      then have "length (refresh i w kvs) \<le> length kvs"
        using length_filter_less [of "(i, w)" kvs "\<lambda>p. fst p \<noteq> i"] map_of_SomeD [OF Some] by (simp add: refresh_def Suc_le_eq)
      moreover have "spec_step n x kvs = refresh i w kvs"
        using GetOp Some by (simp add: spec_step_def)
      ultimately have "spec_step n x kvs = refresh ?j w kvs" "length (refresh ?j w kvs) \<le> n"
        using assms(7) \<open>?j = i\<close> by simp_all
      with moved [of w] keys [of w] front [of w] show ?thesis
        by (intro exI conjI) (assumption | simp only:)+
    qed
  qed
qed

lemma spec_keeps:
  assumes "kvs = front @ (k, v) # rest" "distinct (map fst kvs)" "fst ` set front \<subseteq> S" "k \<notin> S" "finite S" "card S < n"
    "length kvs \<le> n" "op_key ` set xs \<subseteq> S"
  shows "map_of (fold (spec_step n) xs kvs) k = Some v"
  using assms
proof (induction xs arbitrary: kvs front rest)
  case Nil
  have "(k, v) \<in> set kvs"
    by (simp add: Nil.prems(1))
  then show ?case
    using map_of_is_SomeI [OF Nil.prems(2)] by simp
next
  case (Cons x xs)
  have "op_key x \<in> S"
    using Cons.prems(8) by simp
  from spec_step_other [OF Cons.prems(1-7) this] obtain front' rest' where
    "spec_step n x kvs = front' @ (k, v) # rest'" "fst ` set front' \<subseteq> S" "distinct (map fst (spec_step n x kvs))"
    "length (spec_step n x kvs) \<le> n"
    by blast
  then show ?case
    using Cons.IH [of "spec_step n x kvs" front' rest'] Cons.prems by simp
qed

lemma kept_run:
  assumes "cache_run xs (new_cache n) = Some c" "cache_put k v c = Some c1" "cache_run ys c1 = Some c2"
    "k \<notin> op_key ` set ys" "card (op_key ` set ys) < n"
  shows "\<exists>c3. cache_get k c2 = Some (Some v, c3)"
proof -
  have c: "cache_wf c" "max_entries c = n"
    using cache_runs [OF new_cache_wf(1), of xs n] assms(1) by (auto simp: new_cache_wf)
  obtain d where "cache_put k v c = Some d" "cache_wf d" "contents d = spec_step (max_entries c) (PutOp k v) (contents c)"
    "max_entries d = max_entries c"
    by (rule cache_put_run [OF c(1)])
  then have c1: "cache_wf c1" "contents c1 = take n (refresh k v (contents c))" "max_entries c1 = n"
    using assms(2) c(2) by (simp_all add: spec_step_def)
  then have c2: "cache_wf c2" "contents c2 = fold (spec_step n) ys (contents c1)"
    using cache_runs [of c1 ys] assms(3) by auto
  obtain rest where "contents c1 = [] @ (k, v) # rest"
    using c1(2) assms(5) by (cases n) (auto simp: refresh_def)
  moreover have "distinct (map fst (contents c1))" "length (contents c1) \<le> n"
    using c1(1, 3) by (auto simp: cache_wf_def contents_def comp_def)
  ultimately have "map_of (contents c2) k = Some v"
    using spec_keeps [of "contents c1" "[]" k v rest "op_key ` set ys" n ys] assms(4, 5) c2(2) by simp
  then show ?thesis
    using cache_get_run [OF c2(1), of k] by metis
qed

text \<open>The least recently used entry is the one that goes: an entry just stored is still found, with its value, after any
  sequence of lookups and insertions of other keys, as long as these are fewer different keys than the cache has entries.\<close>

theorem recently_used_stays:
  assumes "cache_run xs (new_cache n) = Some c" "cache_put k v c = Some c1" "cache_run ys c1 = Some c2"
    "k \<notin> op_key ` set ys" "card (op_key ` set ys) < n"
  shows "\<exists>c3. cache_get k c2 = Some (Some v, c3)"
  by (rule kept_run [OF assms])

lemma recently_used_stays_witness:
  "\<exists>c c1 c2 c3. cache_run [PutOp 1 ''a'', PutOp 2 ''b''] (new_cache 2) = Some c \<and> cache_put 3 ''c'' c = Some c1 \<and>
     cache_run [PutOp 4 ''d'', GetOp 4] c1 = Some c2 \<and> cache_get 3 c2 = Some (Some ''c'', c3)"
proof -
  let ?xs = "[PutOp 1 ''a'', PutOp 2 ''b'']" and ?ys = "[PutOp 4 ''d'', GetOp 4]"
  obtain c where c: "cache_run ?xs (new_cache 2) = Some c" "cache_wf c"
    using cache_runs [OF new_cache_wf(1), of ?xs 2] by auto
  obtain c1 where c1: "cache_put 3 ''c'' c = Some c1" "cache_wf c1"
    by (rule cache_put_run [OF c(2), of 3 "''c''"])
  obtain c2 where c2: "cache_run ?ys c1 = Some c2"
    using cache_runs [OF c1(2), of ?ys] by auto
  show ?thesis
    using recently_used_stays [OF c(1) c1(1) c2] c(1) c1(1) c2 by (auto simp: op_key_def)
qed

text \<open>A cache of no entries stores nothing.\<close>

lemma no_room: "cache_put k v (new_cache 0) = Some (new_cache 0)"
  by (simp add: cache_put_def new_cache_def)

end
