(* ===== verification/Config_Store.thy ===== *)
theory Config_Store
  imports Manifests
begin

text \<open>
  The configuration store (\<open>src/infra/config_schema.cpp\<close>, \<open>config_store.cpp\<close> and its header, \<open>config_store_inotify.cpp\<close>):
  required fields and their validators, loading, lookup along a dotted path, and the thread that reloads the file when the
  kernel reports that it changed. yaml-cpp and the kernel are parameters: what loading the file gives at the time, and the
  outcome of each \<open>poll\<close> and \<open>read\<close>. The validators of the client are arbitrary functions.
\<close>

subsection \<open>Schema\<close>

type_synonym field_validator = "yaml \<Rightarrow> unit result"

type_synonym config_schema = "(string \<times> field_validator) list"

text \<open>\<open>remaining.substr(0, dot)\<close> and the rest after the dot, if there is one.\<close>

definition split_dot :: "string \<Rightarrow> string \<times> string option" where
  "split_dot s =
     (let h = takeWhile (\<lambda>c. c \<noteq> CHR ''.'') s in (h, if h = s then None else Some (drop (Suc (length h)) s)))"

lemma split_dot_shorter:
  assumes "split_dot s = (h, Some t)"
  shows "length t < length s"
proof -
  have "s \<noteq> []" using assms by (cases s) (simp_all add: split_dot_def)
  moreover have "\<exists>n. t = drop (Suc n) s" using assms by (auto simp: split_dot_def Let_def split: if_splits)
  ultimately show ?thesis by auto
qed

function descend :: "yaml \<Rightarrow> string \<Rightarrow> yaml option" where
  "descend y s =
     (case y of
        YMap kvs \<Rightarrow>
          (case y_at kvs (fst (split_dot s)) of
             None \<Rightarrow> None
           | Some c \<Rightarrow> (case snd (split_dot s) of None \<Rightarrow> Some c | Some t \<Rightarrow> descend c t))
      | _ \<Rightarrow> None)"
  by pat_completeness auto
termination
  by (relation "measure (\<lambda>(y, s). length s)") (auto intro: split_dot_shorter simp: prod_eq_iff)

declare descend.simps [simp del]

definition resolve_field :: "yaml \<Rightarrow> string \<Rightarrow> yaml option" where
  "resolve_field y s = (if s = [] then None else descend y s)"

definition require_field :: "string \<Rightarrow> field_validator \<Rightarrow> config_schema \<Rightarrow> config_schema" where
  "require_field p v sch = sch @ [(p, v)]"

primrec validate :: "config_schema \<Rightarrow> yaml \<Rightarrow> unit result" where
  "validate [] y = Inr ()"
| "validate (r # rs) y =
     (case resolve_field y (fst r) of
        None \<Rightarrow> Inl (ErrorInfo Infra_ConfigValidationFailed (''required config field missing: '' @ fst r))
      | Some n \<Rightarrow>
          (case snd r n of
             Inl err \<Rightarrow> Inl (ErrorInfo Infra_ConfigValidationFailed
               (''config field '' @ quoted (fst r) @ '' failed validation: '' @ err_message err))
           | Inr _ \<Rightarrow> validate rs y))"

subsection \<open>The store\<close>

record config_store =
  cs_schema :: config_schema
  cs_path :: string
  cs_root :: yaml

definition new_store :: "config_schema \<Rightarrow> config_store" where
  "new_store sch = \<lparr>cs_schema = sch, cs_path = [], cs_root = YNull\<rparr>"

text \<open>An exception other than the two that are caught leaves the function.\<close>

definition load_config :: "'a load_conv_scheme \<Rightarrow> string \<Rightarrow> yaml_exception + yaml \<Rightarrow> config_store \<Rightarrow> unit thrown \<times> config_store" where
  "load_config cv p doc st =
     (case doc of
        Inl BadFile \<Rightarrow> (Inr (Inl (ErrorInfo Infra_ConfigFileNotFound (''config file not found: '' @ p))), st)
      | Inl ParserException \<Rightarrow>
          (Inr (Inl (ErrorInfo Infra_ConfigParseError (''config parse error in '' @ p @ '': '' @ what cv ParserException))), st)
      | Inl ex \<Rightarrow> (Inl ex, st)
      | Inr y \<Rightarrow>
          (case validate (cs_schema st) y of
             Inl err \<Rightarrow> (Inr (Inl err), st)
           | Inr _ \<Rightarrow> (Inr (Inr ()), st\<lparr>cs_root := y, cs_path := p\<rparr>)))"

definition get_config :: "'a load_conv_scheme \<Rightarrow> (yaml \<Rightarrow> yaml_exception + 'v) \<Rightarrow> string \<Rightarrow> config_store \<Rightarrow> 'v result" where
  "get_config cv conv key st =
     (case resolve_field (cs_root st) key of
        None \<Rightarrow> Inl (ErrorInfo Infra_ConfigKeyNotFound (''config key not found: '' @ key))
      | Some y \<Rightarrow>
          (case conv y of
             Inl ex \<Rightarrow> Inl (ErrorInfo Infra_ConfigKeyTypeMismatch
               (''config key type mismatch at '' @ quoted key @ '': '' @ what cv ex))
           | Inr v \<Rightarrow> Inr v))"

subsection \<open>Hot reload\<close>

record kernel =
  inotify_ok :: bool
  watch_ok :: "string \<Rightarrow> bool"
  eventfd_ok :: bool
  strerror :: string

text \<open>Watching the directory of the file; on success the thread waits for the name of the file.\<close>

definition enable_hot_reload :: "kernel \<Rightarrow> config_store \<Rightarrow> string result" where
  "enable_hot_reload ke st =
     (if \<not> inotify_ok ke then Inl (ErrorInfo Core_ConstructionFailed (''inotify_init1 failed: '' @ strerror ke))
      else if \<not> watch_ok ke (parent_path (cs_path st))
      then Inl (ErrorInfo Infra_ConfigFileNotFound (''inotify_add_watch on '' @ parent_path (cs_path st) @ '' failed: '' @ strerror ke))
      else if \<not> eventfd_ok ke then Inl (ErrorInfo Core_ConstructionFailed (''eventfd failed: '' @ strerror ke))
      else Inr (file_name (cs_path st)))"

text \<open>The store, and the log: errors are marked.\<close>

type_synonym log = "(bool \<times> string) list"

definition reload :: "'a load_conv_scheme \<Rightarrow> yaml_exception + yaml \<Rightarrow> config_store \<times> log \<Rightarrow> config_store \<times> log" where
  "reload cv doc s =
     (case s of (st, l) \<Rightarrow>
        (case doc of
           Inl BadFile \<Rightarrow> (st, l @ [(True, ''hot-reload: config file unreadable, keeping previous config: '' @ what cv BadFile)])
         | Inl ParserException \<Rightarrow> (st, l @ [(True, ''hot-reload: YAML parse failed, keeping previous config: '' @ what cv ParserException)])
         | Inl ex \<Rightarrow> (st, l @ [(True, ''hot-reload: unexpected YAML error, keeping previous config: '' @ what cv ex)])
         | Inr y \<Rightarrow>
             (case validate (cs_schema st) y of
                Inl err \<Rightarrow> (st, l @ [(True, ''hot-reload: validation failed, keeping previous config: '' @ err_message err)])
              | Inr _ \<Rightarrow> (st\<lparr>cs_root := y\<rparr>, l @ [(False, ''hot-reload: config reloaded from '' @ cs_path st)]))))"

text \<open>
  One round of the loop: whether a stop was requested before it, the outcome of \<open>poll\<close> (for a successful one: the stop
  event, an error of a descriptor, input, and the names of the events that were read, if any), and what loading the file
  would give.
\<close>

datatype poll_outcome = Poll_Interrupted | Poll_Failed string | Polled bool bool bool "string list option"

type_synonym watch_round = "bool \<times> poll_outcome \<times> (yaml_exception + yaml)"

fun watch_loop :: "'a load_conv_scheme \<Rightarrow> string \<Rightarrow> watch_round list \<Rightarrow> config_store \<times> log \<Rightarrow> config_store \<times> log" where
  "watch_loop cv name [] s = s"
| "watch_loop cv name ((stopped, outcome, doc) # rounds) s =
     (if stopped then s
      else case outcome of
             Poll_Interrupted \<Rightarrow> watch_loop cv name rounds s
           | Poll_Failed e \<Rightarrow> (fst s, snd s @ [(True, ''hot-reload: poll failed, stopping watch: '' @ e)])
           | Polled stop_event fd_error input names \<Rightarrow>
               if stop_event then s
               else if fd_error then (fst s, snd s @ [(True, ''hot-reload: inotify fd error (POLLERR/POLLHUP), stopping watch'')])
               else if \<not> input then watch_loop cv name rounds s
               else case names of
                      None \<Rightarrow> watch_loop cv name rounds s
                    | Some ns \<Rightarrow> watch_loop cv name rounds (if name \<in> set ns then reload cv doc s else s))"

section \<open>Properties\<close>

subsection \<open>Validation\<close>

lemma validate_ok: "validate sch y = Inr () \<longleftrightarrow> (\<forall>r \<in> set sch. \<exists>n. resolve_field y (fst r) = Some n \<and> snd r n = Inr ())"
  by (induction sch) (auto split: option.splits sum.splits)

lemma validate_append: "validate (sch @ sch') y = (case validate sch y of Inl err \<Rightarrow> Inl err | Inr _ \<Rightarrow> validate sch' y)"
  by (induction sch) (auto split: option.splits sum.splits)

text \<open>A load that fails leaves the store as it was.\<close>

lemma load_config_cases:
  "load_config cv p doc st = (r, st') \<Longrightarrow>
     (r = Inr (Inr ()) \<and> (\<exists>y. doc = Inr y \<and> validate (cs_schema st) y = Inr () \<and> st' = st\<lparr>cs_root := y, cs_path := p\<rparr>)) \<or>
     (r \<noteq> Inr (Inr ()) \<and> st' = st)"
  by (auto simp: load_config_def split: sum.splits yaml_exception.splits)

subsection \<open>The last known good configuration\<close>

text \<open>The documents of the rounds that reload, up to the end of the loop.\<close>

fun reloaded :: "string \<Rightarrow> watch_round list \<Rightarrow> (yaml_exception + yaml) list" where
  "reloaded name [] = []"
| "reloaded name ((stopped, outcome, doc) # rounds) =
     (if stopped then []
      else case outcome of
             Poll_Interrupted \<Rightarrow> reloaded name rounds
           | Poll_Failed e \<Rightarrow> []
           | Polled stop_event fd_error input names \<Rightarrow>
               if stop_event \<or> fd_error then []
               else (if input \<and> (\<exists>ns. names = Some ns \<and> name \<in> set ns) then [doc] else []) @ reloaded name rounds)"

definition good_document :: "config_schema \<Rightarrow> yaml_exception + yaml \<Rightarrow> bool" where
  "good_document sch doc \<longleftrightarrow> (case doc of Inl ex \<Rightarrow> False | Inr y \<Rightarrow> validate sch y = Inr ())"

definition last_good :: "config_schema \<Rightarrow> (yaml_exception + yaml) list \<Rightarrow> yaml \<Rightarrow> yaml" where
  "last_good sch docs y = (case filter (good_document sch) docs of [] \<Rightarrow> y | ds \<Rightarrow> projr (last ds))"

lemma last_good_Cons: "last_good sch (d # ds) y = last_good sch ds (if good_document sch d then projr d else y)"
  by (simp add: last_good_def split: list.split)

lemma reload_root:
  "fst (reload cv doc s) = (fst s)\<lparr>cs_root := if good_document (cs_schema (fst s)) doc then projr doc else cs_root (fst s)\<rparr>"
  by (cases s) (auto simp: reload_def good_document_def split: sum.splits yaml_exception.splits)

lemma watch_loop_root:
  "fst (watch_loop cv name rounds s) = (fst s)\<lparr>cs_root := last_good (cs_schema (fst s)) (reloaded name rounds) (cs_root (fst s))\<rparr>"
proof (induction cv name rounds s rule: watch_loop.induct)
  case (1 cv name s)
  then show ?case
    by (simp add: last_good_def)
next
  case (2 cv name stopped outcome doc rounds s)
  have none: "fst s = (fst s)\<lparr>cs_root := last_good (cs_schema (fst s)) [] (cs_root (fst s))\<rparr>"
    by (simp add: last_good_def)
  show ?case
    using 2 none by (auto simp: last_good_Cons reload_root split: poll_outcome.splits option.splits)
qed

lemma good_last: "validate sch y = Inr () \<Longrightarrow> validate sch (last_good sch docs y) = Inr ()"
proof (induction docs arbitrary: y)
  case (Cons d ds)
  show ?case
    unfolding last_good_Cons by (rule Cons.IH) (use Cons.prems in \<open>auto simp: good_document_def split: sum.splits\<close>)
qed (simp add: last_good_def)

lemma hot_reload_run:
  assumes "load_config cv p doc st = (Inr (Inr ()), st1)" "watch_loop cv name rounds (st1, l) = (st2, l')"
  shows "cs_root st2 = last_good (cs_schema st) (reloaded name rounds) (cs_root st1) \<and>
    (\<forall>r \<in> set (cs_schema st). \<exists>n. resolve_field (cs_root st2) (fst r) = Some n \<and> snd r n = Inr ())"
proof -
  obtain y where y: "validate (cs_schema st) y = Inr ()" "st1 = st\<lparr>cs_root := y, cs_path := p\<rparr>"
    using load_config_cases [OF assms(1)] by auto
  then have "cs_root st2 = last_good (cs_schema st) (reloaded name rounds) (cs_root st1)"
    using watch_loop_root [of cv name rounds "(st1, l)"] assms(2) by simp
  then show ?thesis
    using good_last [OF y(1)] y by (simp flip: validate_ok)
qed

text \<open>C40 After a successful load, whatever the file goes through and whatever the kernel reports, the store serves the last
  document that was read and valid, the loaded one if there was none; every required field is present in it and accepted by
  its validator.\<close>

theorem hot_reload_last_known_good:
  assumes "load_config cv p doc st = (Inr (Inr ()), st1)" "watch_loop cv name rounds (st1, l) = (st2, l')"
  shows "cs_root st2 = last_good (cs_schema st) (reloaded name rounds) (cs_root st1) \<and>
    (\<forall>r \<in> set (cs_schema st). \<exists>n. resolve_field (cs_root st2) (fst r) = Some n \<and> snd r n = Inr ())"
  by (rule hot_reload_run [OF assms])

text \<open>So a lookup of a required field is never answered with a missing key.\<close>

lemma required_field_found:
  assumes "load_config cv p doc st = (Inr (Inr ()), st1)" "watch_loop cv name rounds (st1, l) = (st2, l')" "(key, v) \<in> set (cs_schema st)"
  shows "get_config cv conv key st2 \<noteq> Inl (ErrorInfo Infra_ConfigKeyNotFound m)"
  using hot_reload_run [OF assms(1, 2)] assms(3) by (fastforce simp: get_config_def split: option.splits sum.splits)

definition camera_schema :: config_schema where
  "camera_schema = require_field ''camera.count'' (\<lambda>y. case y of YScalar s \<Rightarrow> Inr () | _ \<Rightarrow> Inl (ErrorInfo Core_Unknown ''scalar'')) []"

definition camera_document :: "string \<Rightarrow> yaml" where
  "camera_document n = YMap [(''camera'', YMap [(''count'', YScalar n)])]"

lemma camera_document_valid: "validate camera_schema (camera_document n) = Inr ()"
  by (simp add: camera_schema_def camera_document_def require_field_def resolve_field_def descend.simps split_dot_def Let_def y_at_def)

lemma hot_reload_last_known_good_witness:
  "\<exists>st1 st2 l'. load_config demo_manifest_conv ''etc/a.yaml'' (Inr (camera_document ''1'')) (new_store camera_schema) = (Inr (Inr ()), st1) \<and>
     watch_loop demo_manifest_conv ''a.yaml''
       [(False, Polled False False True (Some [''a.yaml'']), Inr (camera_document ''2'')),
        (False, Polled False False True (Some [''a.yaml'']), Inr YNull)] (st1, []) = (st2, l') \<and>
     cs_root st2 = camera_document ''2''"
proof -
  let ?st1 = "(new_store camera_schema)\<lparr>cs_root := camera_document ''1'', cs_path := ''etc/a.yaml''\<rparr>"
  let ?rounds = "[(False, Polled False False True (Some [''a.yaml'']), Inr (camera_document ''2'')),
    (False, Polled False False True (Some [''a.yaml'']), Inr YNull)]"
  have load: "load_config demo_manifest_conv ''etc/a.yaml'' (Inr (camera_document ''1'')) (new_store camera_schema) = (Inr (Inr ()), ?st1)"
    by (simp add: load_config_def new_store_def camera_document_valid)
  obtain st2 l' where watch: "watch_loop demo_manifest_conv ''a.yaml'' ?rounds (?st1, []) = (st2, l')"
    by fastforce
  have bad: "validate camera_schema YNull \<noteq> Inr ()"
    by (simp add: camera_schema_def require_field_def resolve_field_def descend.simps)
  have "cs_root st2 = last_good camera_schema (reloaded ''a.yaml'' ?rounds) (cs_root ?st1)"
    using hot_reload_last_known_good [OF load watch] by (simp add: new_store_def)
  also have "\<dots> = camera_document ''2''"
    using bad by (simp add: last_good_def good_document_def camera_document_valid)
  finally show ?thesis
    using load watch by blast
qed

subsection \<open>A file in the current directory\<close>

text \<open>The directory of a path without a slash is the empty path, which no kernel can watch.\<close>

theorem bare_file_name_not_watched:
  assumes "CHR ''/'' \<notin> set (cs_path st)" "inotify_ok ke" "\<not> watch_ok ke ''''"
  shows "\<exists>m. enable_hot_reload ke st = Inl (ErrorInfo Infra_ConfigFileNotFound m)"
proof -
  have "parent_path (cs_path st) = ''''"
    using assms(1) by (simp add: parent_path_def Let_def)
  then show ?thesis
    using assms(2, 3) by (simp add: enable_hot_reload_def)
qed

end
