(* ===== verification/Spec2Isabelle.thy ===== *)
theory Spec2Isabelle
  imports Reasoner Plugin_Manager Pipeline Stage_Metrics Stage_Monitor Knowledge_Store Rule_Eval_Stage
    Evolution_Run Dimension_Reducer Patch_Core Tuning_Scheduler Memory_Pool Retrieval Detect_Stage
    Image_Preprocess Image_Import Simple_Patch_Embedder Feature_Cache Config_Store
begin

text \<open>
  A verification development of the surface inspection platform: a C++ program that takes camera images through a
  pipeline of stages (capture, preprocessing, inference, detection, rules, reasoning, export), compares patch features
  with a bank of normal ones, and keeps its knowledge in an SQLite graph. The definitions translate the code of \<open>src\<close>,
  \<open>include\<close> and, for the tuning, \<open>apps/seat-aoi/tuning_wiring.cpp\<close>; the manifest gives the lines of each.

  The parts, and where they are.

  Rules. \<open>Rule_Value\<close> has the values and the fact base, \<open>Expression\<close> the expressions and \<open>EvalWithMemo\<close>,
  \<open>Expression_Memo\<close> what the memoisation promises, \<open>Condition_Builder\<close> the conditions read from YAML,
  \<open>Conflict_Resolver\<close> the elimination of overridden rules and \<open>Rule_Engine\<close> loading and evaluation (all of \<open>src/rule\<close>).
  \<open>Fact_Builder\<close> turns a detection result, graph paths and vector searches into facts, and \<open>Rule_Eval_Stage\<close> is the
  stage that runs them. \<open>Decision_Tree\<close>, \<open>Number_Text\<close> and \<open>Reasoner\<close> (\<open>src/reasoner\<close>) walk the tree to the verdict.

  Runtime. \<open>Worker_Pool\<close> and \<open>Task_Graph\<close> (\<open>src/runtime\<close>), \<open>Plugin_Manager\<close> (\<open>src/plugin\<close>), \<open>Core\<close> (identifiers,
  registries, lifecycle), \<open>Config_Store\<close> (\<open>src/infra\<close>, with the thread that reloads the file).

  Pipeline. \<open>Ring_Buffers\<close> is the lock-free ring of \<open>stage_queue.h\<close> in steps of single memory accesses, and the ring of
  the devices; \<open>Stage_Monitor\<close> adds the mutex, the one condition variable and the unlocked pop of \<open>Drain\<close>.
  \<open>Pipeline_Builder\<close>, \<open>Stage_Scheduler\<close>, \<open>Pipeline\<close> and \<open>Stage_Metrics\<close> (\<open>src/pipeline\<close>) load, validate, wire and run the
  stages; \<open>Image_Preprocess\<close>, \<open>Detect_Stage\<close> (with the inference stage and the cold start), \<open>Inspection_Recorder\<close>
  are stages and what they write.

  Memory. \<open>Free_List\<close> (the lock-free stack of slabs with its tag) and \<open>Memory_Pool\<close> (arena, pools, counted handles).

  Images. \<open>Image_Buffer\<close> (image types, regions of interest), \<open>Image_Preprocess\<close>, \<open>Image_Import\<close> (the TIFF reader),
  \<open>Manifests\<close> (datasets and coresets in YAML).

  Detection. \<open>Feature_Bank\<close> and \<open>Vector_Path\<close> (banks, greedy coreset, searches), \<open>Patch_Core\<close> (both detectors),
  \<open>Connected_Components\<close> and \<open>Post_Process\<close> (upsampling, smoothing, regions), \<open>Pca\<close> and \<open>Dimension_Reducer\<close>,
  \<open>Simple_Patch_Embedder\<close>, \<open>Feature_Cache\<close>; \<open>Normality_Profile\<close>, \<open>Coreset_Evolution\<close>, \<open>Evolution_Run\<close> and \<open>Drift\<close>
  for the self-evolution of the bank.

  Knowledge. \<open>Sqlite\<close> is the interface to the database with its documented behaviour, \<open>Knowledge_Record\<close>,
  \<open>Knowledge_Graph\<close> and \<open>Knowledge_Store\<close> the records, the graph, the change log and the snapshots;
  \<open>Retrieval\<close> the hybrid search.

  Tuning. \<open>Tuning_Space\<close>, \<open>Bayesian_Optimizer\<close>, \<open>Tuning_Objective\<close>, \<open>Tuning_Scheduler\<close> (\<open>src/tuning\<close>).

  Shared. \<open>Prelude\<close> (results, ordered dictionaries, the hint collections), \<open>Error_Codes\<close>, \<open>Yaml\<close>, \<open>Option_Lists\<close>,
  \<open>Descending_Sort\<close>, and the arithmetic: \<open>Doubles\<close> and \<open>Float32\<close> are IEEE 754 with rounding, overflow and NaN,
  \<open>Double_Order\<close> its order.
\<close>

text \<open>
  How the code is represented. A class is a record of its members, an operation a function from state to result and new
  state, \<open>tl::expected\<close> a sum whose left side is the error. Unsigned 64-bit numbers that the code adds or multiplies
  without a bound in sight are words and wrap around; sizes of vectors that exist are natural numbers, since such a
  size can not reach \<open>2^63\<close> (so in \<open>Normality_Profile\<close>, whose patch counts are those of vectors in memory).
  Behaviour that C++ leaves undefined (a read out of bounds, a null pointer, a conversion out of range, a
  division by zero), and an exception that leaves a \<open>noexcept\<close> function and so ends the process, is the value \<open>None\<close>;
  theorems that say \<open>Some\<close> exclude it. Threads are step relations: one step is one memory access in
  the lock-free parts, and one critical section where a mutex is held. Memory is sequentially consistent.

  What is a parameter. yaml-cpp (a document is a datatype of nodes; conversions may throw), SQLite, nlohmann's JSON text,
  FAISS, the C mathematics library, stb_image, the file system, inotify, CUDA and the network, random numbers and clocks.
  What the code relies on is a predicate with the word documented in its name: \<open>sqlite_documented\<close> (a failed statement
  keeps the state, or rolls back the whole transaction, as SQLite does on a full disk), \<open>reliable\<close> (one named
  statement does not fail), \<open>json_text_documented\<close> (printing throws exactly on texts that are not UTF-8, parsing gives back
  what was printed), \<open>flat_documented\<close> (the flat index stores the rows that are added and finds nearest ones). For each of
  them a concrete instance (\<open>model_engine\<close> and others) meets the hypothesis and is used by the witnesses.

  Bounds and fuel. Recursions over a graph carry fuel, and lemmas show it to be enough: one unit per
  matched rule (\<open>dfs_total\<close>), per stage (\<open>Pipeline_Builder\<close>), per manifest and one more (\<open>Plugin_Manager\<close>); on a
  cyclic task graph no fuel is enough, which is a finding. Loops with a constant bound in the code keep it: 200 rounds of
  the power iteration, the halvings of the line search. \<open>2^64\<close> updates of the free list is the bound of its tag,
  \<open>2^31 - 1\<close> the number of handles a counter of a pool can hold, \<open>2^24\<close> and \<open>2^26\<close> the sides of a grid and an image up
  to which coordinates are exact in single and double precision.

  What the lemmas show. Functional results on every branch: validation of configurations and exact elimination of
  overridden rules, evaluation of rule sets, the verdict of the reasoner, the regions of a score map. Refinement of
  an abstract structure: a bounded queue by the ring (and the locale \<open>fifo\<close> for both rings), a stack by the free list,
  a recency list by the feature cache, graph components by the two-pass labelling. Invariants over all
  interleavings: worker pools, the frames of the pipeline, slabs and handles of the pools, wake-ups of a queue.
  Effects on the database: a batch is stored as a whole or not at all, a node is read back as it was
  written, the recorder loses records only where it says so. And behaviour that the code has although its
  comments say otherwise: the drift test that never succeeds and the pause that never comes, the two banks
  that forget each other's updates, the detector of the cold start that refuses every frame, the failed
  inference that passes, the search and the first tuning cycle that read out of bounds, the wake-up that
  goes to the wrong thread. The contracts that several components share are locales: dictionaries,
  registries, queues, detectors.

  What is not modelled. Clocks, latencies and log messages; the polling of \<open>Drain\<close> before it empties the queues; weak memory;
  the contraction of floating-point operations to fused ones; GPU code and the adapters of the networks;
  cameras, the OPC UA client, the view models and the web server; the application that constructs the components,
  except the poller of its tuning. Texts read from the database are assumed to be ones the JSON library can parse, and a query
  not to cause a rollback. A pass of the thread that updates the bank is one step.
\<close>

end
